(* ===== verification/Prelude.thy ===== *)
theory Prelude
  imports Main
begin

section \<open>Machine integers, fallible computations and list loops\<close>

text \<open>
  What every component of the development shares: the bounds of the Rust integer types the
  modelled code uses (a 64-bit target: \<open>usize\<close> and \<open>u64\<close> are natural numbers with the checks
  written out, \<open>i64\<close> and \<open>i128\<close> are integers with the checks written out), the checked operations
  of the standard library, the \<open>Result\<close> type as a sum with the error on the left, its \<open>?\<close> operator
  as \<open>rbind\<close>, and the two iterator loops \<open>try_fold\<close> and \<open>map(..).collect::<Result<..>>()\<close>.
\<close>

named_theorems checked_defs \<open>definitions of the checked integer operations\<close>
named_theorems result_simps \<open>equations of the Result combinators\<close>

subsection \<open>Integer ranges\<close>

definition usize_max :: nat where
  "usize_max = 2 ^ 64 - 1"

definition i64_min :: int where
  "i64_min = - (2 ^ 63)"

definition i64_max :: int where
  "i64_max = 2 ^ 63 - 1"

definition i128_min :: int where
  "i128_min = - (2 ^ 127)"

definition i128_max :: int where
  "i128_max = 2 ^ 127 - 1"

abbreviation in_i64 :: "int \<Rightarrow> bool" where
  "in_i64 x \<equiv> i64_min \<le> x \<and> x \<le> i64_max"

lemma usize_max_eq: "usize_max = 18446744073709551615"
  by (simp add: usize_max_def)

lemma i64_bounds_eq: "i64_min = - 9223372036854775808" "i64_max = 9223372036854775807"
  by (simp_all add: i64_min_def i64_max_def)

lemma i128_bounds_eq:
  "i128_min = - 170141183460469231731687303715884105728"
  "i128_max = 170141183460469231731687303715884105727"
  by (simp_all add: i128_min_def i128_max_def)

lemmas int_bounds = usize_max_eq i64_bounds_eq i128_bounds_eq

text \<open>The \<open>checked_*\<close> methods: \<open>None\<close> where the mathematical result leaves the type.\<close>

definition checked_u :: "nat \<Rightarrow> nat option" where
  "checked_u n = (if n \<le> usize_max then Some n else None)"

definition checked_add_u :: "nat \<Rightarrow> nat \<Rightarrow> nat option" where
  "checked_add_u a b = checked_u (a + b)"

definition checked_mul_u :: "nat \<Rightarrow> nat \<Rightarrow> nat option" where
  "checked_mul_u a b = checked_u (a * b)"

definition checked_sub_u :: "nat \<Rightarrow> nat \<Rightarrow> nat option" where
  "checked_sub_u a b = (if b \<le> a then Some (a - b) else None)"

definition checked_i64 :: "int \<Rightarrow> int option" where
  "checked_i64 x = (if i64_min \<le> x \<and> x \<le> i64_max then Some x else None)"

definition checked_i128 :: "int \<Rightarrow> int option" where
  "checked_i128 x = (if i128_min \<le> x \<and> x \<le> i128_max then Some x else None)"

text \<open>\<open>usize::try_from(i64)\<close>: negative values have no \<open>usize\<close>.\<close>

definition usize_of_int :: "int \<Rightarrow> nat option" where
  "usize_of_int x = (if 0 \<le> x \<and> x \<le> int usize_max then Some (nat x) else None)"

lemma checked_u_eq_Some: "checked_u n = Some m \<longleftrightarrow> m = n \<and> n \<le> usize_max"
  by (auto simp: checked_u_def)

lemma checked_u_eq_None: "checked_u n = None \<longleftrightarrow> usize_max < n"
  by (auto simp: checked_u_def)

lemma checked_i64_eq_Some: "checked_i64 x = Some y \<longleftrightarrow> y = x \<and> in_i64 x"
  by (auto simp: checked_i64_def)

lemma checked_i64_eq_None: "checked_i64 x = None \<longleftrightarrow> \<not> in_i64 x"
  by (auto simp: checked_i64_def)

lemma checked_i128_eq_Some:
  "checked_i128 x = Some y \<longleftrightarrow> y = x \<and> i128_min \<le> x \<and> x \<le> i128_max"
  by (auto simp: checked_i128_def)

lemma checked_sub_u_eq_Some: "checked_sub_u a b = Some c \<longleftrightarrow> b \<le> a \<and> c = a - b"
  by (auto simp: checked_sub_u_def)

lemma usize_of_int_eq_Some:
  "usize_of_int x = Some n \<longleftrightarrow> 0 \<le> x \<and> x \<le> int usize_max \<and> n = nat x"
  by (auto simp: usize_of_int_def)

lemma checked_add_u_eq_Some: "checked_add_u a b = Some c \<longleftrightarrow> c = a + b \<and> a + b \<le> usize_max"
  by (auto simp: checked_add_u_def checked_u_def)

lemma checked_add_u_eq_None: "checked_add_u a b = None \<longleftrightarrow> usize_max < a + b"
  by (auto simp: checked_add_u_def checked_u_def)

lemma checked_mul_u_eq_Some: "checked_mul_u a b = Some c \<longleftrightarrow> c = a * b \<and> a * b \<le> usize_max"
  by (auto simp: checked_mul_u_def checked_u_def)

lemma checked_mul_u_eq_None: "checked_mul_u a b = None \<longleftrightarrow> usize_max < a * b"
  by (auto simp: checked_mul_u_def checked_u_def)

lemmas [checked_defs] =
  checked_add_u_eq_Some checked_add_u_eq_None checked_mul_u_eq_Some checked_mul_u_eq_None
  checked_u_eq_Some checked_u_eq_None
  checked_i64_eq_Some checked_i64_eq_None checked_i128_eq_Some
  checked_sub_u_eq_Some usize_of_int_eq_Some

text \<open>Evaluation compares with the bounds as integers.\<close>

lemma checked_u_code [code]: "checked_u n = (if int n \<le> 18446744073709551615 then Some n else None)"
  by (simp add: checked_u_def usize_max_eq)

lemma usize_of_int_code [code]:
  "usize_of_int x = (if 0 \<le> x \<and> x \<le> 18446744073709551615 then Some (nat x) else None)"
  by (simp add: usize_of_int_def usize_max_eq)

subsection \<open>Result: errors on the left\<close>

type_synonym ('e, 'a) result = "'e + 'a"

fun rbind :: "('e, 'a) result \<Rightarrow> ('a \<Rightarrow> ('e, 'b) result) \<Rightarrow> ('e, 'b) result" where
  "rbind (Inl e) f = Inl e"
| "rbind (Inr x) f = f x"

fun ok_or :: "'e \<Rightarrow> 'a option \<Rightarrow> ('e, 'a) result" where
  "ok_or e None = Inl e"
| "ok_or e (Some x) = Inr x"

fun map_err :: "('e \<Rightarrow> 'f) \<Rightarrow> ('e, 'a) result \<Rightarrow> ('f, 'a) result" where
  "map_err f (Inl e) = Inl (f e)"
| "map_err f (Inr x) = Inr x"

definition is_ok :: "('e, 'a) result \<Rightarrow> bool" where
  "is_ok r = (case r of Inl _ \<Rightarrow> False | Inr _ \<Rightarrow> True)"

lemma rbind_eq_Inr [result_simps]: "rbind r f = Inr y \<longleftrightarrow> (\<exists>x. r = Inr x \<and> f x = Inr y)"
  by (cases r) auto

lemma rbind_eq_Inl [result_simps]:
  "rbind r f = Inl e \<longleftrightarrow> r = Inl e \<or> (\<exists>x. r = Inr x \<and> f x = Inl e)"
  by (cases r) auto

lemma ok_or_eq_Inr [result_simps]: "ok_or e o' = Inr x \<longleftrightarrow> o' = Some x"
  by (cases o') auto

lemma ok_or_eq_Inl [result_simps]: "ok_or e o' = Inl f \<longleftrightarrow> o' = None \<and> f = e"
  by (cases o') auto

lemma map_err_eq_Inr [result_simps]: "map_err f r = Inr x \<longleftrightarrow> r = Inr x"
  by (cases r) auto

lemma map_err_eq_Inl [result_simps]: "map_err f r = Inl e \<longleftrightarrow> (\<exists>d. r = Inl d \<and> e = f d)"
  by (cases r) auto

lemma is_ok_iff: "is_ok r \<longleftrightarrow> (\<exists>x. r = Inr x)"
  by (cases r) (auto simp: is_ok_def)

lemma is_ok_simps [simp]: "is_ok (Inr x)" "\<not> is_ok (Inl e)"
  by (simp_all add: is_ok_def)

lemma rbind_cong [fundef_cong]:
  "r = r' \<Longrightarrow> (\<And>x. r' = Inr x \<Longrightarrow> f x = g x) \<Longrightarrow> rbind r f = rbind r' g"
  by (cases r') auto

subsection \<open>Iterator loops\<close>

fun try_fold :: "('s \<Rightarrow> 'a \<Rightarrow> ('e, 's) result) \<Rightarrow> 's \<Rightarrow> 'a list \<Rightarrow> ('e, 's) result" where
  "try_fold f s [] = Inr s"
| "try_fold f s (x # xs) = rbind (f s x) (\<lambda>s'. try_fold f s' xs)"

fun try_map :: "('a \<Rightarrow> ('e, 'b) result) \<Rightarrow> 'a list \<Rightarrow> ('e, 'b list) result" where
  "try_map f [] = Inr []"
| "try_map f (x # xs) = rbind (f x) (\<lambda>y. rbind (try_map f xs) (\<lambda>ys. Inr (y # ys)))"

lemma try_fold_cong [fundef_cong]:
  "s = s' \<Longrightarrow> xs = ys \<Longrightarrow> (\<And>s x. x \<in> set ys \<Longrightarrow> f s x = g s x) \<Longrightarrow>
   try_fold f s xs = try_fold g s' ys"
proof (induction xs arbitrary: s s' ys)
  case Nil
  then show ?case by auto
next
  case (Cons x xs)
  then show ?case
    by (cases "g s' x") auto
qed

lemma try_map_cong [fundef_cong]:
  "xs = ys \<Longrightarrow> (\<And>x. x \<in> set ys \<Longrightarrow> f x = g x) \<Longrightarrow> try_map f xs = try_map g ys"
  by (induction xs arbitrary: ys) auto

lemma try_fold_append:
  "try_fold f s (xs @ ys) = rbind (try_fold f s xs) (\<lambda>s'. try_fold f s' ys)"
proof (induction xs arbitrary: s)
  case (Cons x xs)
  then show ?case by (cases "f s x") auto
qed simp

lemma try_map_Inr_iff:
  "try_map f xs = Inr ys \<longleftrightarrow>
     length ys = length xs \<and> (\<forall>i < length xs. f (xs ! i) = Inr (ys ! i))"
proof (induction xs arbitrary: ys)
  case Nil
  then show ?case by auto
next
  case (Cons x xs)
  show ?case
  proof (cases ys)
    case Nil
    then show ?thesis by (auto simp: result_simps)
  next
    case (Cons y ys')
    then show ?thesis
      by (auto simp: result_simps Cons.IH less_Suc_eq_0_disj)
  qed
qed

lemma try_map_ok: "(\<And>x. x \<in> set xs \<Longrightarrow> f x = Inr (g x)) \<Longrightarrow> try_map f xs = Inr (map g xs)"
  by (induction xs) auto

text \<open>A loop whose body only checks a condition and then computes a value.\<close>

lemma try_map_guard:
  "try_map (\<lambda>x. if bad x then Inl e else Inr (g x)) xs =
   (if \<exists>x \<in> set xs. bad x then Inl e else Inr (map g xs))"
  by (induction xs) auto

lemma try_map_length: "try_map f xs = Inr ys \<Longrightarrow> length ys = length xs"
  by (simp add: try_map_Inr_iff)

lemma try_map_memD:
  "try_map f xs = Inr ys \<Longrightarrow> y \<in> set ys \<Longrightarrow> \<exists>x \<in> set xs. f x = Inr y"
  by (auto simp: try_map_Inr_iff in_set_conv_nth) (metis nth_mem)

lemma try_map_mem_ok:
  "try_map f xs = Inr ys \<Longrightarrow> x \<in> set xs \<Longrightarrow> \<exists>y \<in> set ys. f x = Inr y"
  by (auto simp: try_map_Inr_iff in_set_conv_nth)

text \<open>The rule for a loop with an invariant: what the body keeps holds of the final state.\<close>

lemma try_fold_invariant:
  assumes "try_fold f s xs = Inr s'" and "P s"
    and "\<And>s x s'. x \<in> set xs \<Longrightarrow> P s \<Longrightarrow> f s x = Inr s' \<Longrightarrow> P s'"
  shows "P s'"
  using assms
proof (induction xs arbitrary: s)
  case Nil
  then show ?case by simp
next
  case (Cons x xs)
  from Cons.prems(1) obtain s1 where step: "f s x = Inr s1" and rest: "try_fold f s1 xs = Inr s'"
    by (auto simp: result_simps)
  have "P s1" using Cons.prems(2,3) step by auto
  with rest show ?case using Cons.IH Cons.prems(3) by (meson list.set_intros(2))
qed

subsection \<open>Lists\<close>

lemma prod_list_pos_iff: "0 < prod_list (xs :: nat list) \<longleftrightarrow> 0 \<notin> set xs"
  using prod_list_zero_iff [of xs] by auto

lemma prod_list_ge_elem:
  assumes "x \<in> set xs" and "0 \<notin> set xs"
  shows "x \<le> prod_list (xs :: nat list)"
  using assms
proof (induction xs)
  case (Cons a xs)
  then have "0 < prod_list xs" "0 < a" by (auto simp: prod_list_pos_iff)
  with Cons show ?case by (cases "x = a") (auto intro: le_trans)
qed simp

lemma sum_list_zip_le:
  assumes "list_all2 (\<le>) xs (ys :: int list)"
  shows "sum_list xs \<le> sum_list ys"
  using assms by (induction rule: list_all2_induct) auto

text \<open>\<open>BTreeMap::entry(k).or_insert(v)\<close> on a map kept as an association list in key order.\<close>

definition or_insert :: "'k::linorder \<Rightarrow> 'v \<Rightarrow> ('k \<times> 'v) list \<Rightarrow> ('k \<times> 'v) list" where
  "or_insert k v m = (if k \<in> fst ` set m then m else insort_key fst (k, v) m)"

lemma or_insert_keys: "fst ` set (or_insert k v m) = insert k (fst ` set m)"
  by (auto simp: or_insert_def set_insort_key image_iff)

lemma or_insert_distinct: "distinct (map fst m) \<Longrightarrow> distinct (map fst (or_insert k v m))"
  by (auto simp: or_insert_def distinct_insort_key)

subsection \<open>Powers of two\<close>

text \<open>\<open>usize::is_power_of_two\<close>.\<close>

fun is_power_of_two :: "nat \<Rightarrow> bool" where
  "is_power_of_two n = (if n = 0 then False else n = 1 \<or> even n \<and> is_power_of_two (n div 2))"

declare is_power_of_two.simps [simp del]

lemma is_power_of_two_iff: "is_power_of_two n \<longleftrightarrow> (\<exists>m. n = 2 ^ m)"
proof (induction n rule: is_power_of_two.induct)
  case (1 n)
  consider "n = 0" | "n = 1" | "1 < n" by linarith
  then show ?case
  proof cases
    case 3
    have "is_power_of_two n \<longleftrightarrow> even n \<and> (\<exists>m. n div 2 = 2 ^ m)"
      using 3 1 by (subst is_power_of_two.simps) auto
    also have "\<dots> \<longleftrightarrow> (\<exists>m. n = 2 ^ m)"
    proof
      assume "even n \<and> (\<exists>m. n div 2 = 2 ^ m)"
      then obtain m where "n = 2 ^ Suc m" by (metis dvd_mult_div_cancel power_Suc)
      then show "\<exists>m. n = 2 ^ m" by blast
    next
      assume "\<exists>m. n = 2 ^ m"
      then obtain m where m: "n = 2 ^ m" by blast
      with 3 show "even n \<and> (\<exists>m. n div 2 = 2 ^ m)" by (cases m) auto
    qed
    finally show ?thesis .
  qed (auto simp: is_power_of_two.simps intro: exI [of _ 0])
qed

end
