(* ===== verification/DTypes.thy ===== *)
theory DTypes
  imports Prelude
begin

section \<open>Element types and their promotion (src/src/tensor/dtype.rs)\<close>

text \<open>
  The \<open>DType\<close> enum, its metadata tables, the lossless-cast relation, the tinygrad name parser and
  the promotion function. All of them are pure tables in the source; the lemmas say what the tables
  promise together: promotion is commutative, idempotent and keeps the float or integer family,
  a cast declared lossless really keeps every integer value, and parsing inverts printing.
\<close>

subsection \<open>The enum and its categories\<close>

datatype dtype =
    Bool | I8 | U8 | I16 | U16 | I32 | U32 | I64 | U64
  | F8E4M3 | F8E5M2 | F8E4M3FNUZ | F8E5M2FNUZ | F16 | BF16 | F32 | F64

datatype dtype_category = CatBool | CatSigned | CatUnsigned | CatFloat

text \<open>The inventory in the declaration order of the enum (its derived \<open>Ord\<close>).\<close>

definition all_dtypes :: "dtype list" where
  "all_dtypes = [Bool, I8, U8, I16, U16, I32, U32, I64, U64,
     F8E4M3, F8E5M2, F8E4M3FNUZ, F8E5M2FNUZ, F16, BF16, F32, F64]"

lemma all_dtypes_UNIV: "set all_dtypes = UNIV"
  by (auto simp: all_dtypes_def) (metis dtype.exhaust)

lemma all_dtype_iff: "(\<forall>d. P d) \<longleftrightarrow> list_all P all_dtypes"
  using all_dtypes_UNIV by (metis UNIV_I list_all_iff)

fun category :: "dtype \<Rightarrow> dtype_category" where
  "category Bool = CatBool"
| "category I8 = CatSigned" | "category I16 = CatSigned"
| "category I32 = CatSigned" | "category I64 = CatSigned"
| "category U8 = CatUnsigned" | "category U16 = CatUnsigned"
| "category U32 = CatUnsigned" | "category U64 = CatUnsigned"
| "category F8E4M3 = CatFloat" | "category F8E5M2 = CatFloat"
| "category F8E4M3FNUZ = CatFloat" | "category F8E5M2FNUZ = CatFloat"
| "category F16 = CatFloat" | "category BF16 = CatFloat"
| "category F32 = CatFloat" | "category F64 = CatFloat"

fun bits :: "dtype \<Rightarrow> nat" where
  "bits Bool = 1"
| "bits I8 = 8" | "bits U8 = 8" | "bits F8E4M3 = 8" | "bits F8E5M2 = 8"
| "bits F8E4M3FNUZ = 8" | "bits F8E5M2FNUZ = 8"
| "bits I16 = 16" | "bits U16 = 16" | "bits F16 = 16" | "bits BF16 = 16"
| "bits I32 = 32" | "bits U32 = 32" | "bits F32 = 32"
| "bits I64 = 64" | "bits U64 = 64" | "bits F64 = 64"

text \<open>\<open>(bits as usize).div_ceil(8)\<close>.\<close>

definition itemsize :: "dtype \<Rightarrow> nat" where
  "itemsize d = (bits d + 7) div 8"

definition is_float :: "dtype \<Rightarrow> bool" where
  "is_float d \<longleftrightarrow> category d = CatFloat"

definition is_integer :: "dtype \<Rightarrow> bool" where
  "is_integer d \<longleftrightarrow> category d = CatSigned \<or> category d = CatUnsigned"

fun is_float8 :: "dtype \<Rightarrow> bool" where
  "is_float8 F8E4M3 = True"
| "is_float8 F8E5M2 = True"
| "is_float8 F8E4M3FNUZ = True"
| "is_float8 F8E5M2FNUZ = True"
| "is_float8 _ = False"

text \<open>\<open>finfo\<close>: the exponent and mantissa widths of a float type, an error for the others.\<close>

datatype dtype_error = InvalidDTypeFinfo dtype | InvalidTinygradDTypeName string

fun finfo :: "dtype \<Rightarrow> (dtype_error, nat \<times> nat) result" where
  "finfo F8E4M3 = Inr (4, 3)" | "finfo F8E4M3FNUZ = Inr (4, 3)"
| "finfo F8E5M2 = Inr (5, 2)" | "finfo F8E5M2FNUZ = Inr (5, 2)"
| "finfo F16 = Inr (5, 10)"
| "finfo BF16 = Inr (8, 7)"
| "finfo F32 = Inr (8, 23)"
| "finfo F64 = Inr (11, 52)"
| "finfo d = Inl (InvalidDTypeFinfo d)"

fun tinygrad_priority :: "dtype \<Rightarrow> nat" where
  "tinygrad_priority Bool = 0"
| "tinygrad_priority I8 = 1" | "tinygrad_priority U8 = 2"
| "tinygrad_priority I16 = 3" | "tinygrad_priority U16 = 4"
| "tinygrad_priority I32 = 5" | "tinygrad_priority U32 = 6"
| "tinygrad_priority I64 = 7" | "tinygrad_priority U64 = 8"
| "tinygrad_priority F8E4M3 = 10" | "tinygrad_priority F8E4M3FNUZ = 10"
| "tinygrad_priority F8E5M2 = 11" | "tinygrad_priority F8E5M2FNUZ = 11"
| "tinygrad_priority F16 = 12" | "tinygrad_priority BF16 = 13"
| "tinygrad_priority F32 = 14" | "tinygrad_priority F64 = 15"

definition least_upper_float :: "dtype \<Rightarrow> dtype" where
  "least_upper_float d = (if is_float d then d else F32)"

fun sum_accumulator_dtype :: "dtype \<Rightarrow> dtype" where
  "sum_accumulator_dtype Bool = I32" | "sum_accumulator_dtype I8 = I32"
| "sum_accumulator_dtype I16 = I32" | "sum_accumulator_dtype I32 = I32"
| "sum_accumulator_dtype U8 = U32" | "sum_accumulator_dtype U16 = U32"
| "sum_accumulator_dtype U32 = U32"
| "sum_accumulator_dtype I64 = I64"
| "sum_accumulator_dtype U64 = U64"
| "sum_accumulator_dtype F64 = F64"
| "sum_accumulator_dtype _ = F32"

text \<open>The bounds of the integer families: \<open>min\<close> and \<open>max\<close> restricted to \<open>Scalar::I\<close>, \<open>Scalar::U\<close>
  and \<open>Scalar::Bool\<close>; the float rows (the infinities) have no integer bound.\<close>

fun int_range :: "dtype \<Rightarrow> (int \<times> int) option" where
  "int_range Bool = Some (0, 1)"
| "int_range I8 = Some (- (2 ^ 7), 2 ^ 7 - 1)"
| "int_range U8 = Some (0, 2 ^ 8 - 1)"
| "int_range I16 = Some (- (2 ^ 15), 2 ^ 15 - 1)"
| "int_range U16 = Some (0, 2 ^ 16 - 1)"
| "int_range I32 = Some (- (2 ^ 31), 2 ^ 31 - 1)"
| "int_range U32 = Some (0, 2 ^ 32 - 1)"
| "int_range I64 = Some (- (2 ^ 63), 2 ^ 63 - 1)"
| "int_range U64 = Some (0, 2 ^ 64 - 1)"
| "int_range _ = None"

subsection \<open>Lossless casts\<close>

definition can_losslessly_cast_to :: "dtype \<Rightarrow> dtype \<Rightarrow> bool" where
  "can_losslessly_cast_to self target =
    (if self = target \<or> self = Bool then True
     else case target of
       F64 \<Rightarrow> self \<in> {F32, F16, BF16, F8E4M3, F8E5M2, F8E4M3FNUZ, F8E5M2FNUZ,
                      U32, U16, U8, I32, I16, I8}
     | F32 \<Rightarrow> self \<in> {F16, BF16, F8E4M3, F8E5M2, F8E4M3FNUZ, F8E5M2FNUZ, U16, U8, I16, I8}
     | F16 \<Rightarrow> self \<in> {F8E4M3, F8E5M2, F8E4M3FNUZ, F8E5M2FNUZ, U8, I8}
     | U64 \<Rightarrow> self \<in> {U32, U16, U8}
     | U32 \<Rightarrow> self \<in> {U16, U8}
     | U16 \<Rightarrow> self \<in> {U8}
     | I64 \<Rightarrow> self \<in> {U32, U16, U8, I32, I16, I8}
     | I32 \<Rightarrow> self \<in> {U16, U8, I16, I8}
     | I16 \<Rightarrow> self \<in> {U8, I8}
     | _ \<Rightarrow> False)"

subsection \<open>Promotion\<close>

text \<open>\<open>integer_dtype\<close> matches inclusive ranges of the bit count, first match wins.\<close>

definition integer_dtype :: "bool \<Rightarrow> nat \<Rightarrow> dtype" where
  "integer_dtype signed b =
    (if b \<le> 8 then (if signed then I8 else U8)
     else if b \<le> 16 then (if signed then I16 else U16)
     else if b \<le> 32 then (if signed then I32 else U32)
     else (if signed then I64 else U64))"

text \<open>The match of the float branch, arm by arm; the four arms that repeat one float8 type on both
  sides cannot be reached (equal operands return earlier) and are kept in the source's order.\<close>

definition promote_float :: "dtype \<Rightarrow> dtype \<Rightarrow> dtype" where
  "promote_float a b =
    (if a = F64 \<or> b = F64 then F64
     else if a = F32 \<or> b = F32 then F32
     else if (a = F16 \<and> b = BF16) \<or> (a = BF16 \<and> b = F16) then F32
     else if (is_float8 a \<and> b = BF16) \<or> (a = BF16 \<and> is_float8 b) then BF16
     else if a = F8E4M3 \<and> b = F8E4M3 then F8E4M3
     else if a = F8E5M2 \<and> b = F8E5M2 then F8E5M2
     else if a = F8E4M3FNUZ \<and> b = F8E4M3FNUZ then F8E4M3FNUZ
     else if a = F8E5M2FNUZ \<and> b = F8E5M2FNUZ then F8E5M2FNUZ
     else if is_float8 a \<or> is_float8 b then F16
     else if a = F16 \<or> b = F16 then F16
     else BF16)"

definition promote :: "dtype \<Rightarrow> dtype \<Rightarrow> dtype" where
  "promote self other =
    (if self = other then self
     else if is_float8 self \<and> \<not> is_float other then self
     else if is_float8 other \<and> \<not> is_float self then other
     else if is_float self \<or> is_float other then promote_float self other
     else if self = Bool then other
     else if other = Bool then self
     else let signed = (category self = CatSigned);
              other_signed = (category other = CatSigned)
          in if signed = other_signed then integer_dtype signed (max (bits self) (bits other))
             else let (signed_bits, unsigned_bits) =
                        (if signed then (bits self, bits other) else (bits other, bits self))
                  in if unsigned_bits < signed_bits then integer_dtype True signed_bits
                     else if unsigned_bits < 64 then integer_dtype True (min (unsigned_bits * 2) 64)
                     else F64)"

subsection \<open>Names\<close>

fun canonical_tinygrad_name :: "dtype \<Rightarrow> string" where
  "canonical_tinygrad_name Bool = ''bool''"
| "canonical_tinygrad_name I8 = ''char''"
| "canonical_tinygrad_name U8 = ''uchar''"
| "canonical_tinygrad_name I16 = ''short''"
| "canonical_tinygrad_name U16 = ''ushort''"
| "canonical_tinygrad_name I32 = ''int''"
| "canonical_tinygrad_name U32 = ''uint''"
| "canonical_tinygrad_name I64 = ''long''"
| "canonical_tinygrad_name U64 = ''ulong''"
| "canonical_tinygrad_name F8E4M3 = ''fp8e4m3''"
| "canonical_tinygrad_name F8E5M2 = ''fp8e5m2''"
| "canonical_tinygrad_name F8E4M3FNUZ = ''fp8e4m3fnuz''"
| "canonical_tinygrad_name F8E5M2FNUZ = ''fp8e5m2fnuz''"
| "canonical_tinygrad_name F16 = ''half''"
| "canonical_tinygrad_name BF16 = ''bfloat16''"
| "canonical_tinygrad_name F32 = ''float''"
| "canonical_tinygrad_name F64 = ''double''"

text \<open>\<open>to_ascii_lowercase\<close> on bytes: only A to Z move.\<close>

definition ascii_lower :: "char \<Rightarrow> char" where
  "ascii_lower c = (if 65 \<le> (of_char c :: nat) \<and> (of_char c :: nat) \<le> 90
                    then char_of ((of_char c :: nat) + 32) else c)"

definition parse_table :: "(string \<times> dtype) list" where
  "parse_table =
    [(''bool'', Bool), (''int8'', I8), (''char'', I8), (''uint8'', U8), (''uchar'', U8),
     (''int16'', I16), (''short'', I16), (''uint16'', U16), (''ushort'', U16),
     (''int32'', I32), (''int'', I32), (''uint32'', U32), (''uint'', U32),
     (''int64'', I64), (''long'', I64), (''uint64'', U64), (''ulong'', U64),
     (''fp8e4m3'', F8E4M3), (''fp8e5m2'', F8E5M2),
     (''fp8e4m3fnuz'', F8E4M3FNUZ), (''fp8e5m2fnuz'', F8E5M2FNUZ),
     (''float16'', F16), (''half'', F16), (''bfloat16'', BF16),
     (''float32'', F32), (''float'', F32), (''float64'', F64), (''double'', F64)]"

definition parse_tinygrad_name :: "string \<Rightarrow> (dtype_error, dtype) result" where
  "parse_tinygrad_name name =
     ok_or (InvalidTinygradDTypeName name) (map_of parse_table (map ascii_lower name))"

subsection \<open>What the tables promise\<close>

lemma itemsize_pos [simp]: "0 < itemsize d"
  by (cases d) (simp_all add: itemsize_def)

lemma itemsize_le: "itemsize d \<le> 8"
  by (cases d) (simp_all add: itemsize_def)

lemma itemsize_power_of_two: "itemsize d \<in> {1, 2, 4, 8}"
  by (cases d) (simp_all add: itemsize_def)

lemma float_or_int_or_bool: "is_float d \<or> is_integer d \<or> d = Bool"
  by (cases d) (simp_all add: is_float_def is_integer_def)

lemmas dtype_tables = is_float_def is_integer_def promote_def promote_float_def integer_dtype_def

lemma promote_idem: "promote d d = d"
  by (simp add: promote_def)

lemma promote_comm: "promote a b = promote b a"
  by (cases a; cases b) (simp_all add: dtype_tables)

text \<open>The integer values an integer (or boolean) type holds, and those a float type of \<open>m\<close> mantissa
  bits holds exactly without rounding: every integer of magnitude at most \<open>2 ^ (m + 1)\<close>.\<close>

fun holds_int :: "dtype \<Rightarrow> int \<Rightarrow> bool" where
  "holds_int d v =
    (case int_range d of
       Some (lo, hi) \<Rightarrow> lo \<le> v \<and> v \<le> hi
     | None \<Rightarrow> (case finfo d of Inr (e, m) \<Rightarrow> \<bar>v\<bar> \<le> 2 ^ (m + 1) | Inl _ \<Rightarrow> False))"

lemma lossless_int_range:
  assumes "can_losslessly_cast_to a b" and "int_range a = Some (lo, hi)"
    and "lo \<le> v" and "v \<le> hi"
  shows "holds_int b v"
  using assms by (cases b; cases a) (simp_all add: can_losslessly_cast_to_def)


subsection \<open>Theorems\<close>

text \<open>Promotion is commutative and idempotent, and stays in the family of its operands: a
  float operand makes it a float, two integers or booleans never give a float except the one
  signed and 64-bit unsigned pair, which gives \<open>F64\<close>.\<close>

lemma promote_laws:
  "promote a b = promote b a \<and> promote a a = a \<and>
   (is_float a \<or> is_float b \<longleftrightarrow>
      is_float (promote a b) \<and>
      \<not> (category a = CatSigned \<and> b = U64 \<or> a = U64 \<and> category b = CatSigned))"
  by (cases a; cases b) (simp_all add: dtype_tables)

lemma lossless_holds:
  assumes "can_losslessly_cast_to a b" and "\<not> is_float a" and "holds_int a v"
  shows "holds_int b v"
proof -
  from assms(2,3) obtain lo hi where "int_range a = Some (lo, hi)" "lo \<le> v" "v \<le> hi"
    by (cases a) (simp_all add: is_float_def)
  with assms(1) show ?thesis by (rule lossless_int_range)
qed

lemma promote_casts:
  "\<not> is_float a \<Longrightarrow> \<not> is_float b \<Longrightarrow> promote a b \<noteq> F64 \<Longrightarrow>
   can_losslessly_cast_to a (promote a b) \<and> can_losslessly_cast_to b (promote a b)"
  by (cases a; cases b; simp add: dtype_tables can_losslessly_cast_to_def)

text \<open>Integer promotion is an upper bound: every value either operand holds is held exactly by
  the promoted type, unless that type is \<open>F64\<close>.\<close>

lemma promote_int_upper_bound:
  assumes "\<not> is_float a" and "\<not> is_float b" and "promote a b \<noteq> F64"
  shows "can_losslessly_cast_to a (promote a b) \<and> can_losslessly_cast_to b (promote a b) \<and>
    (\<forall>v. holds_int a v \<or> holds_int b v \<longrightarrow> holds_int (promote a b) v)"
  using promote_casts [OF assms] assms(1,2) lossless_holds by blast

text \<open>Promotion is a commutative choice, and casting is exact where it is declared so: an integer
  promotion holds every value of both operands, and a cast declared lossless keeps every integer value,
  as an integer or as a float whose mantissa covers the magnitude.\<close>

lemma promotion_keeps_values:
  "promote a b = promote b a \<and> promote a a = a \<and>
   (\<not> is_float a \<longrightarrow> \<not> is_float b \<longrightarrow> promote a b \<noteq> F64 \<longrightarrow>
     can_losslessly_cast_to a (promote a b) \<and> (\<forall>v. holds_int a v \<or> holds_int b v \<longrightarrow> holds_int (promote a b) v)) \<and>
   (\<forall>v. can_losslessly_cast_to a b \<and> \<not> is_float a \<and> holds_int a v \<longrightarrow> holds_int b v)"
  using promote_laws [of a b] promote_int_upper_bound [of a b] lossless_holds [of a b] by blast

theorem promotion_keeps_values_witness:
  "holds_int (promote I8 U16) (- 128) \<and> holds_int F32 (-32768)"
proof -
  have "holds_int (promote I8 U16) (- 128)" using promotion_keeps_values [of I8 U16] by (simp add: dtype_tables)
  moreover have "holds_int F32 (-32768)"
    using promotion_keeps_values [of I16 F32] by (simp add: can_losslessly_cast_to_def is_float_def)
  ultimately show ?thesis ..
qed

text \<open>The relation is not complete and promotion is not associative, so the types are no lattice
  under it: an 8-bit integer fits the eight significant bits of \<open>BF16\<close>, yet is not listed.\<close>

lemma lossless_not_complete:
  "holds_int U8 v \<Longrightarrow> holds_int BF16 v" "\<not> can_losslessly_cast_to U8 BF16"
  by (simp_all add: can_losslessly_cast_to_def)

lemma promote_not_associative:
  "promote (promote I64 U64) F32 \<noteq> promote I64 (promote U64 F32)"
  by (simp add: dtype_tables)

text \<open>Parsing inverts printing, is insensitive to ASCII case, and every type has a name of its
  own.\<close>

lemma parse_print_roundtrip:
  "parse_tinygrad_name (canonical_tinygrad_name d) = Inr d \<and>
   (map ascii_lower name = canonical_tinygrad_name d \<longrightarrow> parse_tinygrad_name name = Inr d) \<and>
   (canonical_tinygrad_name d = canonical_tinygrad_name e \<longleftrightarrow> d = e)"
proof -
  have lower: "map ascii_lower (canonical_tinygrad_name d) = canonical_tinygrad_name d"
    by (cases d) (simp_all add: ascii_lower_def)
  have found: "map_of parse_table (canonical_tinygrad_name d) = Some d" for d
    by (cases d) (simp_all add: parse_table_def)
  have "parse_tinygrad_name name = Inr d" if "map ascii_lower name = canonical_tinygrad_name d"
    using that found by (simp add: parse_tinygrad_name_def)
  moreover have "canonical_tinygrad_name d = canonical_tinygrad_name e \<longleftrightarrow> d = e"
    using found by (metis option.inject)
  ultimately show ?thesis using lower found [of d] by (simp add: parse_tinygrad_name_def)
qed

theorem parse_print_roundtrip_witness: "parse_tinygrad_name ''BFloat16'' = Inr BF16"
proof -
  have "map ascii_lower ''BFloat16'' = canonical_tinygrad_name BF16" by code_simp
  then show ?thesis using parse_print_roundtrip by blast
qed

end
