(* ===== verification/Scalars.thy ===== *)
theory Scalars
  imports DTypes
begin

section \<open>Scalars at the tensor boundary (src/src/tensor/scalar.rs, storage.rs)\<close>

text \<open>
  The untyped \<open>Scalar\<close>, its conversions, and the lane a storage of a given type keeps of it: the
  match of \<open>Storage::from_scalars\<close> followed by \<open>Storage::scalar\<close>. Integer casts are written out:
  \<open>as\<close> between integers reduces modulo the target width. IEEE arithmetic is the processor's and is a
  parameter: a record of the operations on \<open>f64\<close> and of the rounding a float storage performs.
\<close>

datatype 'f scalar = SBool bool | SI int | SU nat | SF 'f

record 'f float_ops =
  fo_add :: "'f \<Rightarrow> 'f \<Rightarrow> 'f"
  fo_nonzero :: "'f \<Rightarrow> bool"
  fo_of_int :: "int \<Rightarrow> 'f"
  fo_saturate :: "int \<Rightarrow> int \<Rightarrow> 'f \<Rightarrow> int"
  fo_store :: "dtype \<Rightarrow> 'f \<Rightarrow> 'f"

definition wrap_unsigned :: "nat \<Rightarrow> int \<Rightarrow> nat" where
  "wrap_unsigned w x = nat (x mod 2 ^ w)"

definition wrap_signed :: "nat \<Rightarrow> int \<Rightarrow> int" where
  "wrap_signed w x = (x + 2 ^ (w - 1)) mod 2 ^ w - 2 ^ (w - 1)"

fun as_bool :: "'f float_ops \<Rightarrow> 'f scalar \<Rightarrow> bool" where
  "as_bool fo (SBool x) = x"
| "as_bool fo (SI x) = (x \<noteq> 0)"
| "as_bool fo (SU x) = (x \<noteq> 0)"
| "as_bool fo (SF x) = fo_nonzero fo x"

fun scalar_as_i64 :: "'f float_ops \<Rightarrow> 'f scalar \<Rightarrow> int" where
  "scalar_as_i64 fo (SBool x) = (if x then 1 else 0)"
| "scalar_as_i64 fo (SI x) = x"
| "scalar_as_i64 fo (SU x) = wrap_signed 64 (int x)"
| "scalar_as_i64 fo (SF x) = fo_saturate fo i64_min i64_max x"

fun scalar_as_u64 :: "'f float_ops \<Rightarrow> 'f scalar \<Rightarrow> nat" where
  "scalar_as_u64 fo (SBool x) = (if x then 1 else 0)"
| "scalar_as_u64 fo (SI x) = wrap_unsigned 64 x"
| "scalar_as_u64 fo (SU x) = x"
| "scalar_as_u64 fo (SF x) = nat (fo_saturate fo 0 (2 ^ 64 - 1) x)"

fun as_f64 :: "'f float_ops \<Rightarrow> 'f scalar \<Rightarrow> 'f" where
  "as_f64 fo (SBool x) = fo_of_int fo (if x then 1 else 0)"
| "as_f64 fo (SI x) = fo_of_int fo x"
| "as_f64 fo (SU x) = fo_of_int fo (int x)"
| "as_f64 fo (SF x) = x"

text \<open>\<open>scalar_to_i8\<close> to \<open>scalar_to_u32\<close>: a float saturates at the target's bounds, an integer is
  first taken to 64 bits and then truncated.\<close>

definition scalar_to_signed :: "'f float_ops \<Rightarrow> nat \<Rightarrow> 'f scalar \<Rightarrow> int" where
  "scalar_to_signed fo w s =
    (case s of SF x \<Rightarrow> fo_saturate fo (- (2 ^ (w - 1))) (2 ^ (w - 1) - 1) x
     | _ \<Rightarrow> wrap_signed w (scalar_as_i64 fo s))"

definition scalar_to_unsigned :: "'f float_ops \<Rightarrow> nat \<Rightarrow> 'f scalar \<Rightarrow> nat" where
  "scalar_to_unsigned fo w s =
    (case s of SF x \<Rightarrow> nat (fo_saturate fo 0 (2 ^ w - 1) x)
     | _ \<Rightarrow> wrap_unsigned w (int (scalar_as_u64 fo s)))"

text \<open>One lane stored and read back.\<close>

definition materialize :: "'f float_ops \<Rightarrow> dtype \<Rightarrow> 'f scalar \<Rightarrow> 'f scalar" where
  "materialize fo d s =
    (case d of
       Bool \<Rightarrow> SBool (as_bool fo s)
     | I8 \<Rightarrow> SI (scalar_to_signed fo 8 s)
     | U8 \<Rightarrow> SU (scalar_to_unsigned fo 8 s)
     | I16 \<Rightarrow> SI (scalar_to_signed fo 16 s)
     | U16 \<Rightarrow> SU (scalar_to_unsigned fo 16 s)
     | I32 \<Rightarrow> SI (scalar_to_signed fo 32 s)
     | U32 \<Rightarrow> SU (scalar_to_unsigned fo 32 s)
     | I64 \<Rightarrow> SI (scalar_as_i64 fo s)
     | U64 \<Rightarrow> SU (scalar_as_u64 fo s)
     | _ \<Rightarrow> SF (fo_store fo d (as_f64 fo s)))"

text \<open>The lanes a storage of an integer or boolean type can hold.\<close>

fun lane_ok :: "dtype \<Rightarrow> 'f scalar \<Rightarrow> bool" where
  "lane_ok d (SBool b) = (d = Bool)"
| "lane_ok d (SI x) = (category d = CatSigned \<and> holds_int d x)"
| "lane_ok d (SU x) = (category d = CatUnsigned \<and> holds_int d (int x))"
| "lane_ok d (SF x) = is_float d"

lemma wrap_signed_id:
  assumes "0 < w" and "- (2 ^ (w - 1)) \<le> x" and "x < 2 ^ (w - 1)"
  shows "wrap_signed w x = x"
proof -
  have "(2 :: int) ^ w = 2 * 2 ^ (w - 1)" using assms(1) by (cases w) simp_all
  with assms have "(x + 2 ^ (w - 1)) mod 2 ^ w = x + 2 ^ (w - 1)" by (intro mod_pos_pos_trivial) simp_all
  then show ?thesis by (simp add: wrap_signed_def)
qed

lemma wrap_unsigned_id: "0 \<le> x \<Longrightarrow> x < 2 ^ w \<Longrightarrow> wrap_unsigned w x = nat x"
  by (simp add: wrap_unsigned_def)

lemma wrap_signed_range:
  assumes "0 < w"
  shows "- (2 ^ (w - 1)) \<le> wrap_signed w x" "wrap_signed w x \<le> 2 ^ (w - 1) - 1"
proof -
  have "(2 :: int) ^ w = 2 * 2 ^ (w - 1)" using assms by (cases w) simp_all
  moreover have "0 \<le> (x + 2 ^ (w - 1)) mod 2 ^ w" "(x + 2 ^ (w - 1)) mod 2 ^ w < 2 ^ w" by simp_all
  ultimately show "- (2 ^ (w - 1)) \<le> wrap_signed w x" "wrap_signed w x \<le> 2 ^ (w - 1) - 1"
    unfolding wrap_signed_def by linarith+
qed

lemma wrap_unsigned_range: "wrap_unsigned w x \<le> 2 ^ w - 1"
proof -
  have "x mod 2 ^ w < int (2 ^ w)" by simp
  then have "wrap_unsigned w x < 2 ^ w" unfolding wrap_unsigned_def by (metis nat_less_iff of_nat_0_le_iff pos_mod_sign zero_less_numeral zero_less_power)
  then show ?thesis by simp
qed

lemma materialize_id: "lane_ok d s \<Longrightarrow> \<not> is_float d \<Longrightarrow> materialize fo d s = s"
  by (cases d; cases s)
     (simp_all add: materialize_def is_float_def scalar_to_signed_def scalar_to_unsigned_def
        wrap_signed_id wrap_unsigned_id i64_bounds_eq)

lemma materialize_ok:
  assumes "\<not> is_float d" and "case s of SI x \<Rightarrow> in_i64 x | SU n \<Rightarrow> n < 2 ^ 64 | SBool b \<Rightarrow> True | SF x \<Rightarrow> False"
  shows "lane_ok d (materialize fo d s)"
  using assms wrap_signed_range [of 8] wrap_signed_range [of 16] wrap_signed_range [of 32]
    wrap_signed_range [of 64] wrap_unsigned_range [of 8] wrap_unsigned_range [of 16]
    wrap_unsigned_range [of 32] wrap_unsigned_range [of 64]
  by (cases d; cases s)
     (simp_all add: materialize_def is_float_def scalar_to_signed_def scalar_to_unsigned_def i64_bounds_eq)

text \<open>Truncation is a congruence: a cast through 64 bits or inside a sum can be dropped.\<close>

lemma wrap_signed_add: "wrap_signed w (wrap_signed w a + b) = wrap_signed w (a + b)"
proof -
  let ?h = "2 ^ (w - 1) :: int"
  have "((a + ?h) mod 2 ^ w - ?h + b + ?h) mod 2 ^ w = (a + b + ?h) mod 2 ^ w"
    using mod_add_left_eq [of "a + ?h" "2 ^ w" b] by (simp add: algebra_simps)
  then show ?thesis by (simp add: wrap_signed_def)
qed

lemma wrap_signed_eq_iff: "wrap_signed w x = wrap_signed w y \<longleftrightarrow> 2 ^ w dvd x - y"
  by (simp add: wrap_signed_def mod_eq_dvd_iff)

lemma wrap_signed_dvd: "2 ^ w dvd wrap_signed w x - x"
proof -
  have "(x + 2 ^ (w - 1)) mod 2 ^ w - (x + 2 ^ (w - 1)) = - (2 ^ w * ((x + 2 ^ (w - 1)) div 2 ^ w))"
    by (simp add: minus_mult_div_eq_mod [symmetric])
  then have "wrap_signed w x - x = 2 ^ w * - ((x + 2 ^ (w - 1)) div 2 ^ w)"
    by (simp add: wrap_signed_def)
  then show ?thesis by simp
qed

lemma wrap_signed_64:
  assumes "w \<le> 64"
  shows "wrap_signed w (wrap_signed 64 x) = wrap_signed w x"
proof -
  have "(2 :: int) ^ w dvd 2 ^ 64" using assms by (rule le_imp_power_dvd)
  then have "2 ^ w dvd wrap_signed 64 x - x" using wrap_signed_dvd by (rule dvd_trans)
  then show ?thesis by (simp add: wrap_signed_eq_iff)
qed

lemma wrap_unsigned_64:
  assumes "w \<le> 64"
  shows "wrap_unsigned w (int (wrap_unsigned 64 x)) = wrap_unsigned w x"
proof -
  have "(2 :: int) ^ w dvd 2 ^ 64" using assms by (rule le_imp_power_dvd)
  then have "x mod 2 ^ 64 mod 2 ^ w = x mod 2 ^ w" by (rule mod_mod_cancel)
  then show ?thesis by (simp add: wrap_unsigned_def)
qed

lemma wrap_unsigned_add: "wrap_unsigned w (int (wrap_unsigned w x) + y) = wrap_unsigned w (x + y)"
  by (simp add: wrap_unsigned_def mod_add_left_eq)

end
