(* ===== verification/Collective.thy ===== *)
theory Collective
  imports Scalars "HOL-Library.Multiset"
begin

section \<open>Collectives (src/src/collective.rs)\<close>

text \<open>
  The planner of broadcast, all-gather, reduce-scatter and all-reduce over an ordered group of
  devices, its validation, and the in-memory executor that runs a plan action by action. The cache
  key is the JSON of the plan, produced by a library the sources only call: the serializer is a
  parameter. Out-of-range indexing panics and is kept apart as \<open>CollectivePanic\<close>.
\<close>

datatype collective_error = CollectiveErr string | CollectivePanic

type_synonym device_id = string

definition device_id_new :: "string \<Rightarrow> (collective_error, device_id) result" where
  "device_id_new identity =
    (if identity = [] then Inl (CollectiveErr ''device identity must not be empty'') else Inr identity)"

definition device_group_new :: "device_id list \<Rightarrow> (collective_error, device_id list) result" where
  "device_group_new devices =
    (if devices = [] then Inl (CollectiveErr ''device group must not be empty'')
     else if card (set devices) \<noteq> length devices then Inl (CollectiveErr ''duplicate device identity'')
     else Inr devices)"

fun index_of :: "device_id list \<Rightarrow> device_id \<Rightarrow> nat option" where
  "index_of [] d = None"
| "index_of (x # xs) d = (if x = d then Some 0 else map_option Suc (index_of xs d))"

datatype collective_kind = Broadcast device_id | AllGather | ReduceScatter | AllReduce

datatype stream_lane = CopyLane | ComputeLane

record logical_range =
  lr_start :: nat
  lr_len :: nat

datatype action_op = LocalCopy | Transfer | ReduceSum

record collective_action =
  ca_id :: nat
  ca_depends_on :: "nat list"
  ca_op :: action_op
  ca_source :: device_id
  ca_destination :: device_id
  ca_range :: logical_range
  ca_stream :: stream_lane
  ca_dtype :: dtype

record collective_request =
  cr_group :: "device_id list"
  cr_kind :: collective_kind
  cr_dtype :: dtype
  cr_input_lengths :: "nat list"

record collective_plan =
  cp_request :: collective_request
  cp_output_lengths :: "nat list"
  cp_chunks :: "logical_range list"
  cp_actions :: "collective_action list"
  cp_cache_key :: string

subsection \<open>Planning\<close>

definition cl_err :: "string \<Rightarrow> (collective_error, 'a) result" where
  "cl_err reason = Inl (CollectiveErr reason)"

definition validate_request :: "collective_request \<Rightarrow> (collective_error, unit) result" where
  "validate_request r =
    (if length (cr_input_lengths r) \<noteq> length (cr_group r)
     then cl_err ''input lengths/group count mismatch''
     else if cr_kind r \<noteq> AllGather \<and>
         list_ex (\<lambda>(a, b). a \<noteq> b) (zip (cr_input_lengths r) (tl (cr_input_lengths r)))
     then cl_err ''collective requires equal input lengths''
     else if (cr_kind r = AllReduce \<or> cr_kind r = ReduceScatter) \<and> \<not> is_float (cr_dtype r) \<and>
         \<not> is_integer (cr_dtype r) \<and> cr_dtype r \<noteq> Bool
     then cl_err ''unsupported reduction dtype''
     else case cr_kind r of
       Broadcast root \<Rightarrow> if index_of (cr_group r) root = None
         then cl_err ''broadcast root is not in group'' else Inr ()
     | _ \<Rightarrow> Inr ())"

definition chunks :: "nat \<Rightarrow> nat \<Rightarrow> logical_range list" where
  "chunks elements n =
    (let q = elements div n; r = elements mod n
     in map (\<lambda>i. \<lparr>lr_start = i * q + min i r, lr_len = q + (if i < r then 1 else 0)\<rparr>) [0..<n])"

text \<open>The closure \<open>add\<close> of the planner: the next action takes the current length as its id.\<close>

definition push ::
  "collective_request \<Rightarrow> collective_action list \<Rightarrow> action_op \<Rightarrow> nat \<Rightarrow> nat \<Rightarrow> logical_range \<Rightarrow>
   stream_lane \<Rightarrow> nat list \<Rightarrow> collective_action list" where
  "push r acts op' src dst rng stream deps = acts @
     [\<lparr>ca_id = length acts, ca_depends_on = deps, ca_op = op', ca_source = cr_group r ! src,
       ca_destination = cr_group r ! dst, ca_range = rng, ca_stream = stream,
       ca_dtype = cr_dtype r\<rparr>]"

definition push_remote_copy ::
  "collective_request \<Rightarrow> collective_action list \<Rightarrow> nat \<Rightarrow> nat \<Rightarrow> logical_range \<Rightarrow> collective_action list" where
  "push_remote_copy r acts src dst rng =
    (let t = length acts; acts' = push r acts Transfer src dst rng CopyLane []
     in push r acts' LocalCopy src dst rng CopyLane [t])"

definition plan_broadcast :: "collective_request \<Rightarrow> nat \<Rightarrow> nat \<Rightarrow> collective_action list" where
  "plan_broadcast r root elems =
    (let rng = \<lparr>lr_start = 0, lr_len = elems\<rparr>
     in foldl (\<lambda>acts dst. if dst \<noteq> root then push_remote_copy r acts root dst rng else acts)
          (push r [] LocalCopy root root rng CopyLane []) [0..<length (cr_group r)])"

definition plan_gather_source ::
  "collective_request \<Rightarrow> collective_action list \<times> nat \<Rightarrow> nat \<Rightarrow> collective_action list \<times> nat" where
  "plan_gather_source r = (\<lambda>(acts, offset) src.
    let rng = \<lparr>lr_start = offset, lr_len = cr_input_lengths r ! src\<rparr>
    in (foldl (\<lambda>acts dst. if src = dst then push r acts LocalCopy src dst rng CopyLane []
                          else push_remote_copy r acts src dst rng)
          acts [0..<length (cr_group r)],
        offset + lr_len rng))"

definition plan_all_gather :: "collective_request \<Rightarrow> collective_action list" where
  "plan_all_gather r = fst (foldl (plan_gather_source r) ([], 0) [0..<length (cr_group r)])"

definition plan_reduce_source ::
  "collective_request \<Rightarrow> nat \<Rightarrow> logical_range \<Rightarrow> collective_action list \<times> nat \<Rightarrow> nat \<Rightarrow>
   collective_action list \<times> nat" where
  "plan_reduce_source r dst rng = (\<lambda>(acts, last) src.
    if src \<noteq> dst then
      (let t = length acts; acts' = push r acts Transfer src dst rng CopyLane []
       in (push r acts' ReduceSum src dst rng ComputeLane [last, t], length acts'))
    else (acts, last))"

definition plan_reduce_target ::
  "collective_request \<Rightarrow> (nat \<Rightarrow> logical_range) \<Rightarrow> collective_action list \<Rightarrow> nat \<Rightarrow> collective_action list" where
  "plan_reduce_target r rng acts dst =
     fst (foldl (plan_reduce_source r dst (rng dst))
       (push r acts LocalCopy dst dst (rng dst) CopyLane [], length acts) [0..<length (cr_group r)])"

definition plan_reduce :: "collective_request \<Rightarrow> (nat \<Rightarrow> logical_range) \<Rightarrow> collective_action list" where
  "plan_reduce r rng = foldl (plan_reduce_target r rng) [] [0..<length (cr_group r)]"

definition plan_total :: "collective_request \<Rightarrow> (collective_error, nat) result" where
  "plan_total r =
    (if cr_kind r = AllGather
     then try_fold (\<lambda>a b. ok_or (CollectiveErr ''element count overflow'') (checked_add_u a b)) 0
            (cr_input_lengths r)
     else case cr_input_lengths r of [] \<Rightarrow> Inl CollectivePanic | x # _ \<Rightarrow> Inr x)"

definition plan_actions ::
  "collective_request \<Rightarrow> nat \<Rightarrow> (collective_error, collective_action list) result" where
  "plan_actions r elems =
    (let cs = chunks elems (length (cr_group r)); whole = \<lparr>lr_start = 0, lr_len = elems\<rparr>
     in case cr_kind r of
       Broadcast root \<Rightarrow>
         rbind (ok_or (CollectiveErr ''broadcast root is not in group'') (index_of (cr_group r) root))
           (\<lambda>i. Inr (plan_broadcast r i elems))
     | AllGather \<Rightarrow> Inr (plan_all_gather r)
     | AllReduce \<Rightarrow> Inr (plan_reduce r (\<lambda>_. whole))
     | ReduceScatter \<Rightarrow> Inr (plan_reduce r (\<lambda>dst. cs ! dst)))"

text \<open>\<open>serialize\<close> stands for \<open>serde_json::to_string\<close>; an empty group divides by zero.\<close>

definition plan ::
  "(collective_plan \<Rightarrow> string option) \<Rightarrow> collective_request \<Rightarrow> (collective_error, collective_plan) result" where
  "plan serialize r =
     rbind (validate_request r) (\<lambda>_.
     rbind (plan_total r) (\<lambda>elems.
     if length (cr_group r) = 0 then Inl CollectivePanic
     else let n = length (cr_group r); cs = chunks elems n;
              outs = (if cr_kind r = ReduceScatter then map lr_len cs else replicate n elems)
          in rbind (plan_actions r elems) (\<lambda>acts.
             let p = \<lparr>cp_request = r, cp_output_lengths = outs, cp_chunks = cs, cp_actions = acts,
                      cp_cache_key = []\<rparr>
             in rbind (ok_or (CollectiveErr ''cache key serialization failed'') (serialize p)) (\<lambda>key.
                Inr (p\<lparr>cp_cache_key := key\<rparr>)))))"

definition validate_plan ::
  "(collective_plan \<Rightarrow> string option) \<Rightarrow> collective_plan \<Rightarrow> (collective_error, unit) result" where
  "validate_plan serialize p =
     rbind (plan serialize (cp_request p)) (\<lambda>canonical.
     if cp_output_lengths p \<noteq> cp_output_lengths canonical \<or> cp_chunks p \<noteq> cp_chunks canonical \<or>
        cp_actions p \<noteq> cp_actions canonical \<or> cp_cache_key p \<noteq> cp_cache_key canonical
     then cl_err ''collective plan does not match its canonical request'' else Inr ())"

subsection \<open>Execution\<close>

text \<open>A tensor as the executor reads it: an element type and its lanes.\<close>

record 'f lanes =
  ln_dtype :: dtype
  ln_values :: "'f scalar list"

definition collective_add :: "'f float_ops \<Rightarrow> dtype \<Rightarrow> 'f scalar \<Rightarrow> 'f scalar \<Rightarrow> 'f scalar" where
  "collective_add fo d a b = materialize fo d
    (if is_float d then SF (fo_add fo (as_f64 fo a) (as_f64 fo b))
     else if d = Bool then SBool (as_bool fo a \<or> as_bool fo b)
     else if category d = CatUnsigned
       then SU (wrap_unsigned 64 (int (scalar_as_u64 fo a) + int (scalar_as_u64 fo b)))
     else SI (wrap_signed 64 (scalar_as_i64 fo a + scalar_as_i64 fo b)))"

text \<open>The element loops of the executor: a range of a vector read or overwritten, with the panic of
  an index past the end.\<close>

definition read_range :: "'a list \<Rightarrow> nat \<Rightarrow> nat \<Rightarrow> (collective_error, 'a list) result" where
  "read_range xs start len =
    (if len = 0 then Inr [] else if start + len \<le> length xs then Inr (take len (drop start xs))
     else Inl CollectivePanic)"

definition slice_range :: "'a list \<Rightarrow> nat \<Rightarrow> nat \<Rightarrow> (collective_error, 'a list) result" where
  "slice_range xs start len =
    (if start + len \<le> length xs then Inr (take len (drop start xs)) else Inl CollectivePanic)"

definition write_range :: "'a list \<Rightarrow> nat \<Rightarrow> 'a list \<Rightarrow> (collective_error, 'a list) result" where
  "write_range xs start ys =
    (if ys = [] then Inr xs
     else if start + length ys \<le> length xs
     then Inr (take start xs @ ys @ drop (start + length ys) xs) else Inl CollectivePanic)"

definition source_base :: "collective_request \<Rightarrow> nat \<Rightarrow> nat \<Rightarrow> (collective_error, nat) result" where
  "source_base r source start =
    (if cr_kind r = AllGather
     then ok_or (CollectiveErr ''invalid all-gather range'')
            (checked_sub_u start (sum_list (take source (cr_input_lengths r))))
     else Inr start)"

record 'f exec_state =
  ex_output :: "'f scalar list list"
  ex_inbox :: "'f scalar list list"
  ex_done :: "bool list"

definition run_op ::
  "'f float_ops \<Rightarrow> collective_request \<Rightarrow> 'f lanes list \<Rightarrow> action_op \<Rightarrow> nat \<Rightarrow> nat \<Rightarrow> logical_range \<Rightarrow>
   nat \<Rightarrow> 'f exec_state \<Rightarrow> (collective_error, 'f exec_state) result" where
  "run_op fo r inputs op' src dst rng base s =
    (case op' of
       Transfer \<Rightarrow>
         rbind (read_range (ln_values (inputs ! src)) base (lr_len rng)) (\<lambda>vs.
         rbind (write_range (ex_inbox s ! dst) (lr_start rng) vs) (\<lambda>ib.
         Inr (s\<lparr>ex_inbox := (ex_inbox s)[dst := ib]\<rparr>)))
     | LocalCopy \<Rightarrow>
         rbind (if src = dst then read_range (ln_values (inputs ! src)) base (lr_len rng)
                else read_range (ex_inbox s ! dst) (lr_start rng) (lr_len rng)) (\<lambda>vs.
         rbind (write_range (ex_output s ! dst) (lr_start rng) vs) (\<lambda>ou.
         Inr (s\<lparr>ex_output := (ex_output s)[dst := ou]\<rparr>)))
     | ReduceSum \<Rightarrow>
         rbind (read_range (ex_output s ! dst) (lr_start rng) (lr_len rng)) (\<lambda>us.
         rbind (read_range (ex_inbox s ! dst) (lr_start rng) (lr_len rng)) (\<lambda>vs.
         rbind (write_range (ex_output s ! dst) (lr_start rng)
                  (map2 (collective_add fo (cr_dtype r)) us vs)) (\<lambda>ou.
         Inr (s\<lparr>ex_output := (ex_output s)[dst := ou]\<rparr>)))))"

definition run_action ::
  "'f float_ops \<Rightarrow> collective_request \<Rightarrow> 'f lanes list \<Rightarrow> 'f exec_state \<Rightarrow> collective_action \<Rightarrow>
   (collective_error, 'f exec_state) result" where
  "run_action fo r inputs s a =
    (if length (ex_done s) \<le> ca_id a \<or>
        list_ex (\<lambda>d. ca_id a \<le> d \<or> \<not> ex_done s ! d) (ca_depends_on a)
     then cl_err ''invalid action dependency trace''
     else
       rbind (ok_or (CollectiveErr ''action source outside group'') (index_of (cr_group r) (ca_source a))) (\<lambda>src.
       rbind (ok_or (CollectiveErr ''action destination outside group'')
                (index_of (cr_group r) (ca_destination a))) (\<lambda>dst.
       rbind (source_base r src (lr_start (ca_range a))) (\<lambda>base.
       rbind (run_op fo r inputs (ca_op a) src dst (ca_range a) base s) (\<lambda>s'.
       Inr (s'\<lparr>ex_done := (ex_done s')[ca_id a := True]\<rparr>))))))"

definition check_input ::
  "collective_request \<Rightarrow> nat \<times> 'f lanes \<Rightarrow> (collective_error, unit) result" where
  "check_input r = (\<lambda>(i, x).
    if ln_dtype x \<noteq> cr_dtype r then cl_err ''input dtype does not match plan''
    else if length (ln_values x) \<noteq> cr_input_lengths r ! i
    then cl_err ''input length does not match plan'' else Inr ())"

definition collect_output ::
  "'f float_ops \<Rightarrow> collective_plan \<Rightarrow> 'f exec_state \<Rightarrow> nat \<Rightarrow> (collective_error, 'f lanes) result" where
  "collect_output fo p s device =
     rbind (if cr_kind (cp_request p) = ReduceScatter
            then slice_range (ex_output s ! device) (lr_start (cp_chunks p ! device)) (lr_len (cp_chunks p ! device))
            else slice_range (ex_output s ! device) 0 (cp_output_lengths p ! device)) (\<lambda>vs.
     Inr \<lparr>ln_dtype = cr_dtype (cp_request p), ln_values = map (materialize fo (cr_dtype (cp_request p))) vs\<rparr>)"

definition execute ::
  "'f float_ops \<Rightarrow> (collective_plan \<Rightarrow> string option) \<Rightarrow> collective_plan \<Rightarrow> 'f lanes list \<Rightarrow>
   (collective_error, 'f lanes list) result" where
  "execute fo serialize p inputs =
     rbind (validate_plan serialize p) (\<lambda>_.
     let r = cp_request p
     in if length inputs \<noteq> length (cr_group r) then cl_err ''input/group count mismatch''
        else rbind (try_map (check_input r) (zip [0..<length inputs] inputs)) (\<lambda>_.
             let n = length inputs;
                 mx = max (fold max (cp_output_lengths p) 0) (fold max (cr_input_lengths r) 0);
                 s0 = \<lparr>ex_output = replicate n (replicate mx (SI 0)),
                       ex_inbox = replicate n (replicate mx (SI 0)),
                       ex_done = replicate (length (cp_actions p)) False\<rparr>
             in rbind (try_fold (run_action fo r inputs) s0 (cp_actions p)) (\<lambda>s.
                try_map (collect_output fo p s) [0..<n])))"

end
