(* ===== verification/CollectiveTheorems.thy ===== *)
theory CollectiveTheorems
  imports Collective
begin

section \<open>What collectives compute\<close>

text \<open>
  The partition into chunks, the well-formedness of every plan, and the results of the in-memory
  executor on planned requests: it never fails, and its outputs are the broadcast, concatenated or
  reduced inputs. The locale \<open>reduction\<close> states what a reduction needs for every device to end with
  the same values; the integer and boolean lanes of the code interpret it.
\<close>

subsection \<open>Chunks\<close>

lemma length_chunks [simp]: "length (chunks t n) = n"
  by (simp add: chunks_def Let_def)

lemma chunk_nth:
  "i < n \<Longrightarrow> chunks t n ! i = \<lparr>lr_start = i * (t div n) + min i (t mod n),
     lr_len = t div n + (if i < t mod n then 1 else 0)\<rparr>"
  by (simp add: chunks_def Let_def)

lemma chunk_end:
  "i < n \<Longrightarrow> lr_start (chunks t n ! i) + lr_len (chunks t n ! i) = Suc i * (t div n) + min (Suc i) (t mod n)"
  by (simp add: chunk_nth)

lemma chunk_inside:
  assumes "i < n"
  shows "lr_start (chunks t n ! i) + lr_len (chunks t n ! i) \<le> t"
proof -
  have "Suc i * (t div n) + min (Suc i) (t mod n) \<le> n * (t div n) + t mod n"
    using assms by (intro add_mono mult_le_mono1) auto
  then show ?thesis using assms by (simp only: chunk_end mult_div_mod_eq)
qed

lemma chunk_sums: "k \<le> n \<Longrightarrow> sum_list (map lr_len (take k (chunks t n))) = k * (t div n) + min k (t mod n)"
proof (induction k)
  case (Suc k)
  then have "take (Suc k) (chunks t n) = take k (chunks t n) @ [chunks t n ! k]"
    by (simp add: take_Suc_conv_app_nth)
  with Suc show ?case by (simp add: chunk_nth)
qed simp

text \<open>The chunks of a reduction partition its elements: they start at 0, each starts where the one
  before ends, together they have every element, and their lengths differ by at most one.\<close>

lemma chunks_partition:
  assumes "0 < n"
  shows "lr_start (chunks t n ! 0) = 0 \<and>
    (\<forall>i. Suc i < n \<longrightarrow> lr_start (chunks t n ! Suc i) = lr_start (chunks t n ! i) + lr_len (chunks t n ! i)) \<and>
    sum_list (map lr_len (chunks t n)) = t \<and>
    (\<forall>i < n. lr_len (chunks t n ! i) = t div n \<or> lr_len (chunks t n ! i) = t div n + 1)"
proof -
  have "t mod n < n" using assms by simp
  then have "min n (t mod n) = t mod n" by simp
  then have "sum_list (map lr_len (chunks t n)) = t"
    using chunk_sums [of n n t] by simp
  moreover have "lr_start (chunks t n ! Suc i) = lr_start (chunks t n ! i) + lr_len (chunks t n ! i)"
    if "Suc i < n" for i
    using that chunk_end [of i n t] by (simp add: chunk_nth)
  moreover have "lr_start (chunks t n ! 0) = 0" using assms by (simp add: chunk_nth)
  ultimately show ?thesis by (auto simp: chunk_nth)
qed

theorem chunks_partition_witness:
  "sum_list (map lr_len (chunks 7 3)) = 7 \<and> map lr_len (chunks 7 3) = [3, 2, 2]"
  using chunks_partition [of 3 7] by (simp add: chunks_def Let_def upt_rec)

subsection \<open>Plans\<close>

definition well_formed :: "collective_request \<Rightarrow> collective_action list \<Rightarrow> bool" where
  "well_formed r acts \<longleftrightarrow> (\<forall>i < length acts. ca_id (acts ! i) = i \<and>
     (\<forall>d \<in> set (ca_depends_on (acts ! i)). d < i) \<and>
     ca_source (acts ! i) \<in> set (cr_group r) \<and> ca_destination (acts ! i) \<in> set (cr_group r) \<and>
     ca_dtype (acts ! i) = cr_dtype r)"

lemma well_formed_Nil [simp]: "well_formed r []"
  by (simp add: well_formed_def)

lemma push_length [simp]: "length (push r acts p s d g t ds) = Suc (length acts)"
  by (simp add: push_def)

lemma well_formed_push:
  "well_formed r acts \<Longrightarrow> s < length (cr_group r) \<Longrightarrow> d < length (cr_group r) \<Longrightarrow>
   \<forall>x \<in> set ds. x < length acts \<Longrightarrow> well_formed r (push r acts p s d g t ds)"
  by (auto simp: well_formed_def push_def nth_append less_Suc_eq)

lemma well_formed_remote:
  "well_formed r acts \<Longrightarrow> s < length (cr_group r) \<Longrightarrow> d < length (cr_group r) \<Longrightarrow>
   well_formed r (push_remote_copy r acts s d g)"
  by (simp add: push_remote_copy_def Let_def well_formed_push)

text \<open>A loop over the members of the group keeps what its body keeps.\<close>

lemma foldl_upt_invariant:
  assumes "P 0 s" and "\<And>j s. j < n \<Longrightarrow> P j s \<Longrightarrow> P (Suc j) (f s j)"
  shows "k \<le> n \<Longrightarrow> P k (foldl f s [0..<k])"
  by (induction k) (use assms in auto)

lemma well_formed_broadcast:
  "root < length (cr_group r) \<Longrightarrow> well_formed r (plan_broadcast r root t)"
  unfolding plan_broadcast_def Let_def
  by (rule foldl_upt_invariant [where P = "\<lambda>_. well_formed r" and n = "length (cr_group r)"])
     (auto simp: well_formed_remote intro!: well_formed_push)

lemma well_formed_gather: "well_formed r (plan_all_gather r)"
proof -
  have inner: "well_formed r (foldl (\<lambda>acts dst. if src = dst then push r acts LocalCopy src dst g CopyLane []
      else push_remote_copy r acts src dst g) acts [0..<length (cr_group r)])"
    if "well_formed r acts" "src < length (cr_group r)" for acts src g
    by (rule foldl_upt_invariant [where P = "\<lambda>_. well_formed r" and n = "length (cr_group r)"])
       (use that in \<open>auto simp: well_formed_remote intro!: well_formed_push\<close>)
  have "well_formed r (fst (foldl (plan_gather_source r) ([], 0) [0..<length (cr_group r)]))"
    by (rule foldl_upt_invariant [where P = "\<lambda>_ s. well_formed r (fst s)" and n = "length (cr_group r)"])
       (auto simp: plan_gather_source_def Let_def inner split: prod.splits)
  then show ?thesis by (simp add: plan_all_gather_def)
qed

lemma well_formed_reduce: "well_formed r (plan_reduce r g)"
proof -
  let ?n = "length (cr_group r)"
  have inner: "well_formed r (plan_reduce_target r g acts dst)" if "well_formed r acts" "dst < ?n" for acts dst
  proof -
    let ?P = "\<lambda>_ s. well_formed r (fst s) \<and> snd s < length (fst s)"
    have "?P ?n (foldl (plan_reduce_source r dst (g dst))
        (push r acts LocalCopy dst dst (g dst) CopyLane [], length acts) [0..<?n])"
      by (rule foldl_upt_invariant [where n = ?n])
         (use that in \<open>auto simp: plan_reduce_source_def Let_def intro!: well_formed_push split: prod.splits\<close>)
    then show ?thesis by (simp add: plan_reduce_target_def)
  qed
  show ?thesis unfolding plan_reduce_def
    by (rule foldl_upt_invariant [where P = "\<lambda>_. well_formed r" and n = ?n])
       (auto simp: inner)
qed

lemma index_of_nth: "distinct g \<Longrightarrow> i < length g \<Longrightarrow> index_of g (g ! i) = Some i"
proof (induction g arbitrary: i)
  case (Cons x g)
  then show ?case by (cases i) auto
qed simp

lemma index_of_Some: "index_of g d = Some i \<Longrightarrow> i < length g \<and> g ! i = d"
  by (induction g arbitrary: i) (auto split: if_splits)

lemma plan_Inr:
  assumes "plan ser r = Inr p"
  obtains elems where "validate_request r = Inr ()" "plan_total r = Inr elems"
    "plan_actions r elems = Inr (cp_actions p)" "0 < length (cr_group r)" "cp_request p = r"
    "cp_chunks p = chunks elems (length (cr_group r))"
    "cp_output_lengths p = (if cr_kind r = ReduceScatter then map lr_len (cp_chunks p)
       else replicate (length (cr_group r)) elems)"
  using assms by (auto simp: plan_def result_simps Let_def split: if_splits)

text \<open>Every plan is well formed: the id of an action is its position, it depends only on actions
  before it, and both its endpoints are members of the group.\<close>

lemma plan_well_formed:
  assumes "plan ser r = Inr p"
  shows "\<forall>i < length (cp_actions p). ca_id (cp_actions p ! i) = i \<and>
    (\<forall>d \<in> set (ca_depends_on (cp_actions p ! i)). d < i) \<and>
    ca_source (cp_actions p ! i) \<in> set (cr_group r) \<and> ca_destination (cp_actions p ! i) \<in> set (cr_group r)"
proof -
  from assms obtain elems where acts: "plan_actions r elems = Inr (cp_actions p)" by (rule plan_Inr)
  have "well_formed r (cp_actions p)"
  proof (cases "cr_kind r")
    case (Broadcast d)
    with acts obtain i where "index_of (cr_group r) d = Some i" "cp_actions p = plan_broadcast r i elems"
      by (auto simp: plan_actions_def result_simps Let_def)
    then show ?thesis by (simp add: well_formed_broadcast index_of_Some)
  next
    case AllGather
    with acts have "cp_actions p = plan_all_gather r" by (simp add: plan_actions_def)
    then show ?thesis by (simp add: well_formed_gather)
  next
    case ReduceScatter
    with acts have "cp_actions p = plan_reduce r (\<lambda>dst. chunks elems (length (cr_group r)) ! dst)"
      by (simp add: plan_actions_def)
    then show ?thesis by (simp only: well_formed_reduce)
  next
    case AllReduce
    with acts have "cp_actions p = plan_reduce r (\<lambda>_. \<lparr>lr_start = 0, lr_len = elems\<rparr>)"
      by (simp add: plan_actions_def)
    then show ?thesis by (simp only: well_formed_reduce)
  qed
  then show ?thesis by (auto simp: well_formed_def)
qed


definition sample_request :: "collective_kind \<Rightarrow> collective_request" where
  "sample_request k = \<lparr>cr_group = [''gpu0'', ''gpu1'', ''gpu2''], cr_kind = k, cr_dtype = I32,
     cr_input_lengths = [2, 2, 2]\<rparr>"

lemma sample_plan_ok:
  "is_ok (plan (\<lambda>_. Some []) (sample_request AllReduce))"
  "is_ok (plan (\<lambda>_. Some []) (sample_request ReduceScatter))"
  "is_ok (plan (\<lambda>_. Some []) (sample_request (Broadcast ''gpu1'')))"
  by code_simp+

definition sample_floats :: "unit float_ops" where
  "sample_floats = \<lparr>fo_add = \<lambda>_ _. (), fo_nonzero = \<lambda>_. False, fo_of_int = \<lambda>_. (),
     fo_saturate = \<lambda>_ _ _. 0, fo_store = \<lambda>_ _. ()\<rparr>"

definition sample_inputs :: "unit lanes list" where
  "sample_inputs = [\<lparr>ln_dtype = I32, ln_values = [SI 2147483647, SI 1]\<rparr>,
     \<lparr>ln_dtype = I32, ln_values = [SI 7, SI (- 2)]\<rparr>, \<lparr>ln_dtype = I32, ln_values = [SI 0, SI 3]\<rparr>]"

theorem plan_well_formed_witness:
  "\<exists>p. plan (\<lambda>_. Some []) (sample_request AllReduce) = Inr p \<and>
    (\<forall>i < length (cp_actions p). ca_id (cp_actions p ! i) = i)"
  using sample_plan_ok(1) plan_well_formed [of "\<lambda>_. Some []" "sample_request AllReduce"]
  unfolding is_ok_iff by blast

subsection \<open>Ranges of a vector\<close>

definition put :: "'a list \<Rightarrow> nat \<Rightarrow> 'a list \<Rightarrow> 'a list" where
  "put xs start ys = take start xs @ ys @ drop (start + length ys) xs"

definition cut :: "'a list \<Rightarrow> nat \<Rightarrow> nat \<Rightarrow> 'a list" where
  "cut xs start len = take len (drop start xs)"

lemma put_Nil [simp]: "put xs start [] = xs"
  by (simp add: put_def)

lemma length_put: "start + length ys \<le> length xs \<Longrightarrow> length (put xs start ys) = length xs"
  by (simp add: put_def)

lemma cut_put: "start + length ys \<le> length xs \<Longrightarrow> cut (put xs start ys) start (length ys) = ys"
  by (simp add: cut_def put_def)

lemma put_put: "length ys = length zs \<Longrightarrow> start + length ys \<le> length xs \<Longrightarrow>
   put (put xs start ys) start zs = put xs start zs"
  by (simp add: put_def)

lemma length_cut: "start + len \<le> length xs \<Longrightarrow> length (cut xs start len) = len"
  by (simp add: cut_def)

lemma cut_whole: "length xs = n \<Longrightarrow> cut xs 0 n = xs"
  by (simp add: cut_def)

lemma put_whole: "length ys = length xs \<Longrightarrow> put xs 0 ys = ys"
  by (simp add: put_def)

lemma put_extends: "start + length ys \<le> length xs \<Longrightarrow>
   take (start + length ys) (put xs start ys) = take start xs @ ys"
  by (simp add: put_def)

lemma cut_map2: "cut (map2 f xs ys) start len = map2 f (cut xs start len) (cut ys start len)"
  by (simp add: cut_def take_map drop_map take_zip drop_zip)

lemma read_range_ok: "start + len \<le> length xs \<Longrightarrow> read_range xs start len = Inr (cut xs start len)"
  by (simp add: read_range_def cut_def)

lemma write_range_ok: "start + length ys \<le> length xs \<Longrightarrow> write_range xs start ys = Inr (put xs start ys)"
  by (simp add: write_range_def put_def)

subsection \<open>Running a plan while it is built\<close>

text \<open>\<open>reaches r inputs mx acts out ib\<close>: executing the actions so far from the initial workspace ends
  with these outputs and inboxes, with exactly these actions marked done.\<close>

definition workspace :: "nat \<Rightarrow> nat \<Rightarrow> 'f scalar list list" where
  "workspace n mx = replicate n (replicate mx (SI 0))"

definition reaches ::
  "'f float_ops \<Rightarrow> collective_request \<Rightarrow> 'f lanes list \<Rightarrow> nat \<Rightarrow> collective_action list \<Rightarrow>
   'f scalar list list \<Rightarrow> 'f scalar list list \<Rightarrow> bool" where
  "reaches fo r inputs mx acts out ib \<longleftrightarrow> (\<forall>N \<ge> length acts.
     try_fold (run_action fo r inputs)
       \<lparr>ex_output = workspace (length (cr_group r)) mx, ex_inbox = workspace (length (cr_group r)) mx,
        ex_done = replicate N False\<rparr> acts =
     Inr \<lparr>ex_output = out, ex_inbox = ib,
        ex_done = replicate (length acts) True @ replicate (N - length acts) False\<rparr>)"

definition shaped :: "collective_request \<Rightarrow> nat \<Rightarrow> 'f scalar list list \<Rightarrow> bool" where
  "shaped r mx vs \<longleftrightarrow> length vs = length (cr_group r) \<and> (\<forall>v \<in> set vs. length v = mx)"

lemma shaped_nth: "shaped r mx vs \<Longrightarrow> d < length (cr_group r) \<Longrightarrow> length (vs ! d) = mx"
  by (simp add: shaped_def)

lemma shaped_update: "shaped r mx vs \<Longrightarrow> length v = mx \<Longrightarrow> shaped r mx (vs[d := v])"
  by (auto simp: shaped_def dest!: set_update_subset_insert [THEN subsetD])

lemma shaped_workspace: "shaped r mx (workspace (length (cr_group r)) mx)"
  by (simp add: shaped_def workspace_def)

lemma reaches_Nil:
  "reaches fo r inputs mx [] (workspace (length (cr_group r)) mx) (workspace (length (cr_group r)) mx)"
  by (simp add: reaches_def)

lemma done_step:
  assumes "k < N"
  shows "(replicate k True @ replicate (N - k) False)[k := True] =
    replicate (Suc k) True @ replicate (N - Suc k) False"
proof -
  have "replicate (N - k) False = False # replicate (N - Suc k) False"
    using assms by (simp add: Suc_diff_Suc [symmetric])
  moreover have "replicate (Suc k) True = replicate k True @ [True]"
    by (simp add: replicate_append_same)
  ultimately show ?thesis by (simp add: list_update_append)
qed

lemma reaches_push:
  assumes "reaches fo r inputs mx acts out ib" and "distinct (cr_group r)"
    and "src < length (cr_group r)" and "dst < length (cr_group r)" and "\<forall>d \<in> set deps. d < length acts"
    and "source_base r src (lr_start g) = Inr base"
    and "\<And>dn. run_op fo r inputs op' src dst g base \<lparr>ex_output = out, ex_inbox = ib, ex_done = dn\<rparr> =
      Inr \<lparr>ex_output = out', ex_inbox = ib', ex_done = dn\<rparr>"
  shows "reaches fo r inputs mx (push r acts op' src dst g st deps) out' ib'"
  unfolding reaches_def push_length
proof (intro allI impI)
  fix N
  assume N: "Suc (length acts) \<le> N"
  let ?dn = "replicate (length acts) True @ replicate (N - length acts) False"
  have run: "try_fold (run_action fo r inputs) \<lparr>ex_output = workspace (length (cr_group r)) mx,
      ex_inbox = workspace (length (cr_group r)) mx, ex_done = replicate N False\<rparr> acts =
      Inr \<lparr>ex_output = out, ex_inbox = ib, ex_done = ?dn\<rparr>"
    using assms(1) N by (simp add: reaches_def)
  have deps: "\<not> list_ex (\<lambda>d. length acts \<le> d \<or> \<not> ?dn ! d) deps"
    using assms(5) by (auto simp: list_ex_iff nth_append)
  have "run_action fo r inputs \<lparr>ex_output = out, ex_inbox = ib, ex_done = ?dn\<rparr>
      \<lparr>ca_id = length acts, ca_depends_on = deps, ca_op = op', ca_source = cr_group r ! src,
       ca_destination = cr_group r ! dst, ca_range = g, ca_stream = st, ca_dtype = cr_dtype r\<rparr> =
      Inr \<lparr>ex_output = out', ex_inbox = ib', ex_done = ?dn[length acts := True]\<rparr>"
    using N deps assms(2-4,6,7) by (simp add: run_action_def index_of_nth)
  with run N show "try_fold (run_action fo r inputs) \<lparr>ex_output = workspace (length (cr_group r)) mx,
      ex_inbox = workspace (length (cr_group r)) mx, ex_done = replicate N False\<rparr>
      (push r acts op' src dst g st deps) =
      Inr \<lparr>ex_output = out', ex_inbox = ib',
        ex_done = replicate (Suc (length acts)) True @ replicate (N - Suc (length acts)) False\<rparr>"
    using done_step [of "length acts" N] by (simp add: push_def try_fold_append)
qed

lemma reaches_local:
  assumes "reaches fo r inputs mx acts out ib" and "distinct (cr_group r)" and "shaped r mx out"
    and "d < length (cr_group r)" and "source_base r d (lr_start g) = Inr base"
    and "base + lr_len g \<le> length (ln_values (inputs ! d))" and "lr_start g + lr_len g \<le> mx"
  shows "reaches fo r inputs mx (push r acts LocalCopy d d g st [])
    (out[d := put (out ! d) (lr_start g) (cut (ln_values (inputs ! d)) base (lr_len g))]) ib"
  by (rule reaches_push [OF assms(1,2,4,4) _ assms(5)])
     (use assms in \<open>simp_all add: run_op_def read_range_ok write_range_ok length_cut shaped_nth\<close>)

lemma reaches_transfer:
  assumes "reaches fo r inputs mx acts out ib" and "distinct (cr_group r)" and "shaped r mx ib"
    and "s < length (cr_group r)" and "d < length (cr_group r)"
    and "source_base r s (lr_start g) = Inr base"
    and "base + lr_len g \<le> length (ln_values (inputs ! s))" and "lr_start g + lr_len g \<le> mx"
  shows "reaches fo r inputs mx (push r acts Transfer s d g st [])
    out (ib[d := put (ib ! d) (lr_start g) (cut (ln_values (inputs ! s)) base (lr_len g))])"
  by (rule reaches_push [OF assms(1,2,4,5) _ assms(6)])
     (use assms in \<open>simp_all add: run_op_def read_range_ok write_range_ok length_cut shaped_nth\<close>)

lemma reaches_remote:
  assumes "reaches fo r inputs mx acts out ib" and "distinct (cr_group r)" and "shaped r mx out" and "shaped r mx ib"
    and "s < length (cr_group r)" and "d < length (cr_group r)" and "s \<noteq> d"
    and "source_base r s (lr_start g) = Inr base"
    and "base + lr_len g \<le> length (ln_values (inputs ! s))" and "lr_start g + lr_len g \<le> mx"
  shows "\<exists>ib'. reaches fo r inputs mx (push_remote_copy r acts s d g)
      (out[d := put (out ! d) (lr_start g) (cut (ln_values (inputs ! s)) base (lr_len g))]) ib' \<and> shaped r mx ib'"
proof -
  let ?vs = "cut (ln_values (inputs ! s)) base (lr_len g)"
  let ?ib = "ib[d := put (ib ! d) (lr_start g) ?vs]"
  have len: "length ?vs = lr_len g" using assms(9) by (rule length_cut)
  note t = reaches_transfer [OF assms(1,2,4,5,6,8,9,10), where st = CopyLane]
  have ib: "shaped r mx ?ib"
    using assms(4,6,10) len by (intro shaped_update) (simp_all add: length_put shaped_nth)
  have d: "?ib ! d = put (ib ! d) (lr_start g) ?vs" using assms(4,6) by (simp add: shaped_def)
  have "cut (?ib ! d) (lr_start g) (lr_len g) = ?vs"
    unfolding d using cut_put [of "lr_start g" ?vs "ib ! d"] len assms(10) shaped_nth [OF assms(4,6)] by simp
  then have "reaches fo r inputs mx
      (push r (push r acts Transfer s d g CopyLane []) LocalCopy s d g CopyLane [length acts])
      (out[d := put (out ! d) (lr_start g) ?vs]) ?ib"
    using assms(7,10) len shaped_nth [OF ib assms(6)] shaped_nth [OF assms(3,6)]
    by (intro reaches_push [OF t assms(2,5,6) _ assms(8)])
       (simp_all add: run_op_def read_range_ok write_range_ok)
  then show ?thesis using ib by (auto simp: push_remote_copy_def Let_def)
qed


subsection \<open>Results of the three loops\<close>

definition group_ok :: "collective_request \<Rightarrow> 'f lanes list \<Rightarrow> bool" where
  "group_ok r inputs \<longleftrightarrow> distinct (cr_group r) \<and> length inputs = length (cr_group r) \<and>
     cr_input_lengths r = map (\<lambda>x. length (ln_values x)) inputs"

abbreviation vals :: "'f lanes list \<Rightarrow> nat \<Rightarrow> 'f scalar list" where
  "vals inputs i \<equiv> ln_values (inputs ! i)"

lemma copy_step:
  assumes "reaches fo r inputs mx acts out ib" and "distinct (cr_group r)" and "shaped r mx out" and "shaped r mx ib"
    and "s < length (cr_group r)" and "d < length (cr_group r)"
    and "source_base r s (lr_start g) = Inr base"
    and "base + lr_len g \<le> length (vals inputs s)" and "lr_start g + lr_len g \<le> mx"
  shows "\<exists>ib'. reaches fo r inputs mx
      (if s = d then push r acts LocalCopy s d g CopyLane [] else push_remote_copy r acts s d g)
      (out[d := put (out ! d) (lr_start g) (cut (vals inputs s) base (lr_len g))]) ib' \<and> shaped r mx ib'"
proof (cases "s = d")
  case True
  with reaches_local [OF assms(1-3,5,7-9), where st = CopyLane] assms(4) show ?thesis by auto
next
  case False
  with reaches_remote [OF assms(1-6) False assms(7-9)] show ?thesis by simp
qed

lemma shaped_put:
  assumes "shaped r mx out" and "d < length (cr_group r)" and "start + length ys \<le> mx"
  shows "shaped r mx (out[d := put (out ! d) start ys])"
  using assms by (intro shaped_update) (simp_all add: length_put shaped_nth)

lemma broadcast_reaches:
  assumes "group_ok r inputs" and "cr_kind r \<noteq> AllGather" and "root < length (cr_group r)"
    and "\<And>i. i < length (cr_group r) \<Longrightarrow> length (vals inputs i) = mx"
  shows "\<exists>out ib. reaches fo r inputs mx (plan_broadcast r root mx) out ib \<and>
    (\<forall>d < length (cr_group r). out ! d = vals inputs root)"
proof -
  let ?n = "length (cr_group r)" and ?g = "\<lparr>lr_start = 0, lr_len = mx\<rparr>" and ?v = "vals inputs root"
  let ?P = "\<lambda>j acts. \<exists>out ib. reaches fo r inputs mx acts out ib \<and> shaped r mx out \<and> shaped r mx ib \<and>
    (\<forall>d < ?n. d = root \<or> d < j \<longrightarrow> out ! d = ?v)"
  have dist: "distinct (cr_group r)" using assms(1) by (simp add: group_ok_def)
  have v: "cut ?v 0 mx = ?v" using assms(3,4) by (simp add: cut_whole)
  have base: "source_base r root 0 = Inr 0" using assms(2) by (simp add: source_base_def)
  have whole: "put (out ! d) 0 ?v = ?v" if "shaped r mx out" "d < ?n" for out :: "'a scalar list list" and d
    using that assms(3,4) by (simp add: put_whole shaped_nth)
  let ?w = "workspace ?n mx"
  have w: "shaped r mx ?w" by (rule shaped_workspace)
  have r0: "reaches fo r inputs mx (push r [] LocalCopy root root ?g CopyLane []) (?w[root := ?v]) ?w"
    using reaches_local [OF reaches_Nil dist w assms(3), of ?g 0 inputs fo CopyLane] base v assms(3,4)
      whole [OF w assms(3)] by simp
  have w0: "shaped r mx (?w[root := ?v])" using w assms(3,4) by (intro shaped_update) simp_all
  have start: "?P 0 (push r [] LocalCopy root root ?g CopyLane [])"
  proof (intro exI conjI)
    show "reaches fo r inputs mx (push r [] LocalCopy root root ?g CopyLane []) (?w[root := ?v]) ?w" by (rule r0)
    show "shaped r mx (?w[root := ?v])" by (rule w0)
    show "shaped r mx ?w" by (rule w)
    show "\<forall>d < ?n. d = root \<or> d < 0 \<longrightarrow> ?w[root := ?v] ! d = ?v" using assms(3) by (simp add: workspace_def)
  qed
  have step: "?P (Suc j) (if j \<noteq> root then push_remote_copy r acts root j ?g else acts)"
    if j: "j < ?n" and P: "?P j acts" for j acts
  proof (cases "j = root")
    case True
    from P obtain out ib where o: "reaches fo r inputs mx acts out ib" "shaped r mx out" "shaped r mx ib"
      "\<forall>d < ?n. d = root \<or> d < j \<longrightarrow> out ! d = ?v" by blast
    then have "\<forall>d < ?n. d = root \<or> d < Suc j \<longrightarrow> out ! d = ?v" using True by (auto simp: less_Suc_eq)
    with o True show ?thesis by auto
  next
    case False
    from P obtain out ib where o: "reaches fo r inputs mx acts out ib" "shaped r mx out" "shaped r mx ib"
      "\<forall>d < ?n. d = root \<or> d < j \<longrightarrow> out ! d = ?v" by blast
    from copy_step [OF o(1) dist o(2,3) assms(3) j, of ?g 0] base v assms(3,4) False whole [OF o(2) j]
    obtain ib' where i: "reaches fo r inputs mx (push_remote_copy r acts root j ?g) (out[j := ?v]) ib'"
      "shaped r mx ib'" by auto
    have "shaped r mx (out[j := ?v])" using o(2) assms(3,4) by (intro shaped_update) simp_all
    moreover have "\<forall>d < ?n. d = root \<or> d < Suc j \<longrightarrow> out[j := ?v] ! d = ?v"
      using o(2,4) j by (auto simp: nth_list_update shaped_def less_Suc_eq)
    ultimately have "?P (Suc j) (push_remote_copy r acts root j ?g)" using i by blast
    then show ?thesis using False by simp
  qed
  have "?P ?n (foldl (\<lambda>acts dst. if dst \<noteq> root then push_remote_copy r acts root dst ?g else acts)
      (push r [] LocalCopy root root ?g CopyLane []) [0..<?n])"
    by (rule foldl_upt_invariant [where P = ?P and n = ?n, OF start step]) simp_all
  then show ?thesis by (auto simp: plan_broadcast_def Let_def)
qed

lemma sum_lengths: "sum_list (map (\<lambda>x. length (ln_values x)) (take k inputs)) =
  length (concat (map ln_values (take k inputs)))"
  by (simp add: length_concat comp_def)

lemma gather_prefix:
  "k < length inputs \<Longrightarrow> concat (map ln_values (take (Suc k) inputs)) =
   concat (map ln_values (take k inputs)) @ vals inputs k"
  by (simp add: take_Suc_conv_app_nth)

lemma gather_prefix_le: "length (concat (map ln_values (take k inputs))) \<le> length (concat (map ln_values inputs))"
proof -
  have "length (concat (map ln_values inputs)) =
      length (concat (map ln_values (take k inputs))) + length (concat (map ln_values (drop k inputs)))"
    by (metis append_take_drop_id concat_append length_append map_append)
  then show ?thesis by simp
qed

lemma gather_inner:
  assumes "group_ok r inputs" and "cr_kind r = AllGather" and "src < length (cr_group r)"
    and "mx = length (concat (map ln_values inputs))" and "off = length (concat (map ln_values (take src inputs)))"
    and "reaches fo r inputs mx acts out ib" and "shaped r mx out" and "shaped r mx ib"
  shows "k \<le> length (cr_group r) \<Longrightarrow> \<exists>out' ib'. reaches fo r inputs mx
      (foldl (\<lambda>acts dst. if src = dst then push r acts LocalCopy src dst
           \<lparr>lr_start = off, lr_len = cr_input_lengths r ! src\<rparr> CopyLane []
         else push_remote_copy r acts src dst \<lparr>lr_start = off, lr_len = cr_input_lengths r ! src\<rparr>) acts [0..<k]) out' ib' \<and>
      shaped r mx out' \<and> shaped r mx ib' \<and>
      (\<forall>d < length (cr_group r). out' ! d = (if d < k then put (out ! d) off (vals inputs src) else out ! d))"
proof (induction k)
  case 0
  with assms(6-8) show ?case by auto
next
  case (Suc k)
  let ?g = "\<lparr>lr_start = off, lr_len = cr_input_lengths r ! src\<rparr>" and ?v = "vals inputs src"
  have dist: "distinct (cr_group r)" and lens: "cr_input_lengths r = map (\<lambda>x. length (ln_values x)) inputs"
    and n: "length inputs = length (cr_group r)"
    using assms(1) by (simp_all add: group_ok_def)
  have len: "cr_input_lengths r ! src = length ?v" using lens n assms(3) by simp
  have base: "source_base r src off = Inr 0"
    using assms(2,5) lens by (simp add: source_base_def take_map sum_lengths checked_sub_u_def)
  have fit: "off + length ?v \<le> mx"
    using gather_prefix_le [of "Suc src" inputs] gather_prefix [of src inputs] n assms(3-5) by simp
  have v: "cut ?v 0 (length ?v) = ?v" by (simp add: cut_whole)
  from Suc obtain out' ib' where o: "reaches fo r inputs mx
      (foldl (\<lambda>acts dst. if src = dst then push r acts LocalCopy src dst ?g CopyLane []
         else push_remote_copy r acts src dst ?g) acts [0..<k]) out' ib'" "shaped r mx out'" "shaped r mx ib'"
    "\<forall>d < length (cr_group r). out' ! d = (if d < k then put (out ! d) off ?v else out ! d)" by auto
  from Suc.prems have k: "k < length (cr_group r)" by simp
  from copy_step [OF o(1) dist o(2,3) assms(3) k, of ?g 0] base fit v len
  obtain ib2 where i: "reaches fo r inputs mx (foldl (\<lambda>acts dst. if src = dst then push r acts LocalCopy src dst ?g CopyLane []
         else push_remote_copy r acts src dst ?g) acts [0..<Suc k]) (out'[k := put (out' ! k) off ?v]) ib2"
    "shaped r mx ib2" by auto
  have "shaped r mx (out'[k := put (out' ! k) off ?v])" using o(2) k fit by (rule shaped_put)
  moreover have "\<forall>d < length (cr_group r). out'[k := put (out' ! k) off ?v] ! d =
      (if d < Suc k then put (out ! d) off ?v else out ! d)"
    using o(2,4) k by (auto simp: nth_list_update shaped_def)
  ultimately show ?case using i by blast
qed

lemma gather_reaches:
  assumes "group_ok r inputs" and "cr_kind r = AllGather" and "mx = length (concat (map ln_values inputs))"
  shows "\<exists>out ib. reaches fo r inputs mx (plan_all_gather r) out ib \<and>
    (\<forall>d < length (cr_group r). out ! d = concat (map ln_values inputs))"
proof -
  let ?n = "length (cr_group r)"
  let ?pre = "\<lambda>k. concat (map ln_values (take k inputs))"
  let ?P = "\<lambda>k s. snd s = length (?pre k) \<and> (\<exists>out ib. reaches fo r inputs mx (fst s) out ib \<and>
    shaped r mx out \<and> shaped r mx ib \<and> (\<forall>d < ?n. take (length (?pre k)) (out ! d) = ?pre k))"
  have n: "length inputs = ?n" and lens: "cr_input_lengths r = map (\<lambda>x. length (ln_values x)) inputs"
    using assms(1) by (simp_all add: group_ok_def)
  have start: "?P 0 ([], 0)"
    using reaches_Nil shaped_workspace by fastforce
  have step: "?P (Suc k) (plan_gather_source r s k)" if k: "k < ?n" and P: "?P k s" for k s
  proof -
    obtain acts off where s: "s = (acts, off)" by (cases s)
    from P s obtain out ib where off: "off = length (?pre k)" and o: "reaches fo r inputs mx acts out ib"
      "shaped r mx out" "shaped r mx ib" "\<forall>d < ?n. take (length (?pre k)) (out ! d) = ?pre k" by auto
    from gather_inner [OF assms(1,2) k assms(3) off o(1-3), of ?n] obtain out' ib' where
      o': "reaches fo r inputs mx (fst (plan_gather_source r s k)) out' ib'" "shaped r mx out'" "shaped r mx ib'"
      "\<forall>d < ?n. out' ! d = put (out ! d) off (vals inputs k)"
      by (auto simp: plan_gather_source_def s Let_def)
    have fit: "off + length (vals inputs k) \<le> mx"
      using gather_prefix_le [of "Suc k" inputs] gather_prefix [of k inputs] n k assms(3) off by simp
    have "take (length (?pre (Suc k))) (out' ! d) = ?pre (Suc k)" if "d < ?n" for d
      using put_extends [of off "vals inputs k" "out ! d"] fit shaped_nth [OF o(2) that] o(4) o'(4) that
        gather_prefix [of k inputs] n k off by simp
    moreover have "snd (plan_gather_source r s k) = length (?pre (Suc k))"
      using off s n k lens gather_prefix [of k inputs] by (simp add: plan_gather_source_def Let_def)
    ultimately show ?thesis using o' by blast
  qed
  have "?P ?n (foldl (plan_gather_source r) ([], 0) [0..<?n])"
    by (rule foldl_upt_invariant [where P = ?P and n = ?n, OF start step]) simp_all
  then obtain out ib where o: "reaches fo r inputs mx (plan_all_gather r) out ib" "shaped r mx out"
    "\<forall>d < ?n. take mx (out ! d) = concat (map ln_values inputs)"
    using n assms(3) by (auto simp: plan_all_gather_def)
  then have "\<forall>d < ?n. out ! d = concat (map ln_values inputs)"
    using shaped_nth [OF o(2)] by (metis order_refl take_all)
  with o(1) show ?thesis by blast
qed


subsection \<open>Reductions\<close>

text \<open>What the code computes for one device: its own lanes, then the lanes of the others in group
  order.\<close>

definition reduce_into :: "'f float_ops \<Rightarrow> collective_request \<Rightarrow> 'f lanes list \<Rightarrow> nat \<Rightarrow> nat \<Rightarrow> 'f scalar list" where
  "reduce_into fo r inputs dst k =
     foldl (map2 (collective_add fo (cr_dtype r))) (vals inputs dst)
       (map (vals inputs) (filter (\<lambda>s. s \<noteq> dst) [0..<k]))"

lemma length_reduce_into:
  assumes "\<And>i. i < n \<Longrightarrow> length (vals inputs i) = mx" and "dst < n"
  shows "k \<le> n \<Longrightarrow> length (reduce_into fo r inputs dst k) = mx"
  by (induction k) (use assms in \<open>auto simp: reduce_into_def\<close>)

lemma reaches_reduce_step:
  assumes "reaches fo r inputs mx acts (out[d := put (out ! d) (lr_start g) acc]) ib"
    and "distinct (cr_group r)" and "shaped r mx out" and "shaped r mx ib"
    and "s < length (cr_group r)" and "d < length (cr_group r)" and "lst < length acts"
    and "source_base r s (lr_start g) = Inr (lr_start g)" and "length (vals inputs s) = mx"
    and "lr_start g + lr_len g \<le> mx" and "length acc = lr_len g"
  shows "\<exists>ib'. reaches fo r inputs mx
      (push r (push r acts Transfer s d g CopyLane []) ReduceSum s d g ComputeLane [lst, length acts])
      (out[d := put (out ! d) (lr_start g)
         (map2 (collective_add fo (cr_dtype r)) acc (cut (vals inputs s) (lr_start g) (lr_len g)))]) ib' \<and>
    shaped r mx ib'"
proof -
  let ?vs = "cut (vals inputs s) (lr_start g) (lr_len g)"
  let ?out = "out[d := put (out ! d) (lr_start g) acc]" and ?ib = "ib[d := put (ib ! d) (lr_start g) ?vs]"
  have len: "length ?vs = lr_len g" using assms(9,10) by (simp add: length_cut)
  have t: "reaches fo r inputs mx (push r acts Transfer s d g CopyLane []) ?out ?ib"
    by (rule reaches_transfer [OF assms(1,2,4,5,6,8)]) (use assms(9,10) in simp_all)
  have ib: "shaped r mx ?ib" using assms(4,6) by (rule shaped_put) (use len assms(10) in simp)
  have out: "shaped r mx ?out" using assms(3,6) by (rule shaped_put) (use assms(10,11) in simp)
  have od: "?out ! d = put (out ! d) (lr_start g) acc" "?ib ! d = put (ib ! d) (lr_start g) ?vs"
    using assms(3,4,6) by (simp_all add: shaped_def)
  have lens: "length (out ! d) = mx" "length (ib ! d) = mx" "length (?out ! d) = mx" "length (?ib ! d) = mx"
    using shaped_nth [OF _ assms(6)] assms(3,4) ib out by blast+
  have cuts: "cut (?out ! d) (lr_start g) (lr_len g) = acc" "cut (?ib ! d) (lr_start g) (lr_len g) = ?vs"
    using cut_put [of "lr_start g" acc "out ! d"] cut_put [of "lr_start g" ?vs "ib ! d"] len lens assms(10,11) od
    by simp_all
  let ?new = "map2 (collective_add fo (cr_dtype r)) acc ?vs"
  have "put (?out ! d) (lr_start g) ?new = put (out ! d) (lr_start g) ?new"
    unfolding od by (rule put_put) (use len lens assms(10,11) in simp_all)
  then have "reaches fo r inputs mx
      (push r (push r acts Transfer s d g CopyLane []) ReduceSum s d g ComputeLane [lst, length acts])
      (?out[d := put (out ! d) (lr_start g) ?new]) ?ib"
    using len lens cuts assms(7,10,11)
    by (intro reaches_push [OF t assms(2,5,6) _ assms(8)])
       (auto simp: run_op_def read_range_ok write_range_ok simp del: nth_list_update_eq)
  then show ?thesis using ib by auto
qed

lemma cut_foldl_map2:
  "cut (foldl (map2 f) xs yss) start len = foldl (map2 f) (cut xs start len) (map (\<lambda>ys. cut ys start len) yss)"
  by (induction yss arbitrary: xs) (simp_all add: cut_map2)

lemma reduce_target_reaches:
  assumes "group_ok r inputs" and "cr_kind r \<noteq> AllGather"
    and "\<And>i. i < length (cr_group r) \<Longrightarrow> length (vals inputs i) = mx"
    and "d < length (cr_group r)" and "lr_start (g d) + lr_len (g d) \<le> mx"
    and "reaches fo r inputs mx acts out ib" and "shaped r mx out" and "shaped r mx ib"
  shows "\<exists>ib'. reaches fo r inputs mx (plan_reduce_target r g acts d)
      (out[d := put (out ! d) (lr_start (g d))
         (cut (reduce_into fo r inputs d (length (cr_group r))) (lr_start (g d)) (lr_len (g d)))]) ib' \<and>
    shaped r mx ib'"
proof -
  let ?n = "length (cr_group r)"
  let ?acc = "\<lambda>k. cut (reduce_into fo r inputs d k) (lr_start (g d)) (lr_len (g d))"
  let ?P = "\<lambda>k s. snd s < length (fst s) \<and> (\<exists>ib'. reaches fo r inputs mx (fst s)
      (out[d := put (out ! d) (lr_start (g d)) (?acc k)]) ib' \<and> shaped r mx ib')"
  have dist: "distinct (cr_group r)" using assms(1) by (simp add: group_ok_def)
  have base: "source_base r s (lr_start (g d)) = Inr (lr_start (g d))" for s
    using assms(2) by (simp add: source_base_def)
  have len: "length (?acc k) = lr_len (g d)" if "k \<le> ?n" for k
    using length_reduce_into [OF assms(3,4) that] assms(5) by (intro length_cut) simp
  have start: "?P 0 (push r acts LocalCopy d d (g d) CopyLane [], length acts)"
    using reaches_local [OF assms(6) dist assms(7,4) base, of CopyLane] assms(3-5,8)
    by (auto simp: reduce_into_def)
  have step: "?P (Suc k) (plan_reduce_source r d (g d) s k)" if k: "k < ?n" and P: "?P k s" for k s
  proof -
    obtain as lst where s: "s = (as, lst)" by (cases s)
    from P s obtain ib' where l: "lst < length as" and o: "reaches fo r inputs mx as
      (out[d := put (out ! d) (lr_start (g d)) (?acc k)]) ib'" "shaped r mx ib'" by auto
    show ?thesis
    proof (cases "k = d")
      case True
      then have "?acc (Suc k) = ?acc k" by (simp add: reduce_into_def)
      with True P s show ?thesis by (simp add: plan_reduce_source_def)
    next
      case False
      then have acc: "?acc (Suc k) = map2 (collective_add fo (cr_dtype r)) (?acc k)
          (cut (vals inputs k) (lr_start (g d)) (lr_len (g d)))"
        by (simp add: reduce_into_def cut_map2)
      have lk: "length (?acc k) = lr_len (g d)" using len k by simp
      from reaches_reduce_step [OF o(1) dist assms(7) o(2) k assms(4) l base assms(3) [OF k] assms(5) lk]
      show ?thesis using False s by (auto simp: plan_reduce_source_def Let_def acc)
    qed
  qed
  have "?P ?n (foldl (plan_reduce_source r d (g d))
      (push r acts LocalCopy d d (g d) CopyLane [], length acts) [0..<?n])"
    by (rule foldl_upt_invariant [where P = ?P and n = ?n, OF start step]) simp_all
  then show ?thesis by (auto simp: plan_reduce_target_def)
qed

lemma reduce_reaches:
  assumes "group_ok r inputs" and "cr_kind r \<noteq> AllGather"
    and "\<And>i. i < length (cr_group r) \<Longrightarrow> length (vals inputs i) = mx"
    and "\<And>d. d < length (cr_group r) \<Longrightarrow> lr_start (g d) + lr_len (g d) \<le> mx"
  shows "\<exists>out ib. reaches fo r inputs mx (plan_reduce r g) out ib \<and> shaped r mx out \<and>
    (\<forall>d < length (cr_group r). cut (out ! d) (lr_start (g d)) (lr_len (g d)) =
       cut (reduce_into fo r inputs d (length (cr_group r))) (lr_start (g d)) (lr_len (g d)))"
proof -
  let ?n = "length (cr_group r)"
  let ?c = "\<lambda>d. cut (reduce_into fo r inputs d ?n) (lr_start (g d)) (lr_len (g d))"
  let ?P = "\<lambda>k acts. \<exists>out ib. reaches fo r inputs mx acts out ib \<and> shaped r mx out \<and> shaped r mx ib \<and>
    (\<forall>d < k. cut (out ! d) (lr_start (g d)) (lr_len (g d)) = ?c d)"
  have start: "?P 0 []" using reaches_Nil shaped_workspace by fastforce
  have step: "?P (Suc k) (plan_reduce_target r g acts k)" if k: "k < ?n" and P: "?P k acts" for k acts
  proof -
    from P obtain out ib where o: "reaches fo r inputs mx acts out ib" "shaped r mx out" "shaped r mx ib"
      "\<forall>d < k. cut (out ! d) (lr_start (g d)) (lr_len (g d)) = ?c d" by blast
    let ?out = "out[k := put (out ! k) (lr_start (g k)) (?c k)]"
    have "\<exists>ib'. reaches fo r inputs mx (plan_reduce_target r g acts k) ?out ib' \<and> shaped r mx ib'"
      by (rule reduce_target_reaches [where d = k and g = g, OF assms(1-3) k assms(4) [OF k] o(1-3)])
    then obtain ib' where
      i: "reaches fo r inputs mx (plan_reduce_target r g acts k) ?out ib'" "shaped r mx ib'" by blast
    have len: "length (?c k) = lr_len (g k)"
      using length_reduce_into [OF assms(3) k order_refl] assms(4) [OF k] by (intro length_cut) simp
    have out: "shaped r mx ?out" using o(2) k by (rule shaped_put) (use len assms(4) [OF k] in simp)
    have "cut (?out ! k) (lr_start (g k)) (lr_len (g k)) = ?c k"
      using cut_put [of "lr_start (g k)" "?c k" "out ! k"] len assms(4) [OF k] shaped_nth [OF o(2) k] o(2) k
      by (simp add: shaped_def)
    then have "\<forall>d < Suc k. cut (?out ! d) (lr_start (g d)) (lr_len (g d)) = ?c d"
      using o(4) by (auto simp: less_Suc_eq)
    with i out show ?thesis by blast
  qed
  have "?P ?n (plan_reduce r g)" unfolding plan_reduce_def
    by (rule foldl_upt_invariant [where P = ?P and n = ?n, OF start step]) simp_all
  then show ?thesis by blast
qed


subsection \<open>The executor\<close>

lemma fold_max_eq: "fold max xs (0 :: nat) = Max (insert 0 (set xs))"
  using Max.set_eq_fold [of 0 xs] by simp

lemma fold_max_le: "(\<forall>x \<in> set xs. x \<le> (m :: nat)) \<Longrightarrow> fold max xs 0 \<le> m"
  by (simp add: fold_max_eq)

lemma fold_max_ge: "x \<in> set xs \<Longrightarrow> (x :: nat) \<le> fold max xs 0"
  by (simp add: fold_max_eq)

lemma adjacent_equal: "\<not> list_ex (\<lambda>(a, b). a \<noteq> b) (zip xs (tl xs)) \<Longrightarrow> x \<in> set xs \<Longrightarrow> x = hd xs"
proof (induction xs)
  case (Cons a xs)
  then show ?case by (cases xs) auto
qed simp

lemma equal_lengths:
  assumes "validate_request r = Inr ()" and "cr_kind r \<noteq> AllGather" and "plan_total r = Inr elems"
    and "x \<in> set (cr_input_lengths r)"
  shows "x = elems"
proof -
  have "\<not> list_ex (\<lambda>(a, b). a \<noteq> b) (zip (cr_input_lengths r) (tl (cr_input_lengths r)))"
    using assms(1,2) by (auto simp: validate_request_def cl_err_def split: if_splits)
  from adjacent_equal [OF this assms(4)] assms(2,3) show ?thesis
    by (auto simp: plan_total_def split: list.splits)
qed

lemma sum_fold: "try_fold (\<lambda>a b. ok_or e (checked_add_u a b)) s xs = Inr n \<Longrightarrow> n = s + sum_list xs"
proof (induction xs arbitrary: s)
  case (Cons x xs)
  from Cons.prems obtain t where t: "checked_add_u s x = Some t"
    "try_fold (\<lambda>a b. ok_or e (checked_add_u a b)) t xs = Inr n" by (auto simp: result_simps)
  from Cons.IH [OF t(2)] t(1) show ?case by (simp add: checked_defs)
qed simp

lemma workspace_size:
  assumes "plan ser r = Inr p" and "plan_total r = Inr elems" and "group_ok r inputs"
  shows "max (fold max (cp_output_lengths p) 0) (fold max (cr_input_lengths r) 0) = elems"
proof -
  from assms(1) obtain e where p: "validate_request r = Inr ()" "plan_total r = Inr e" "0 < length (cr_group r)"
    "cp_chunks p = chunks e (length (cr_group r))"
    "cp_output_lengths p = (if cr_kind r = ReduceScatter then map lr_len (cp_chunks p)
       else replicate (length (cr_group r)) e)" by (rule plan_Inr)
  then have e: "e = elems" using assms(2) by simp
  let ?n = "length (cr_group r)"
  have lens: "length (cr_input_lengths r) = ?n" using assms(3) by (simp add: group_ok_def)
  have "fold max (cp_output_lengths p) 0 \<le> elems"
  proof (rule fold_max_le, cases "cr_kind r = ReduceScatter")
    case True
    show "\<forall>x \<in> set (cp_output_lengths p). x \<le> elems"
    proof
      fix x
      assume "x \<in> set (cp_output_lengths p)"
      then obtain i where "i < ?n" "x = lr_len (chunks elems ?n ! i)"
        using p True e by (auto simp: in_set_conv_nth)
      then show "x \<le> elems" using chunk_inside [of i ?n elems] by simp
    qed
  qed (use p e in simp)
  moreover have "fold max (cr_input_lengths r) 0 \<le> elems"
  proof (rule fold_max_le, cases "cr_kind r = AllGather")
    case True
    then have "elems = sum_list (cr_input_lengths r)"
      using assms(2) by (auto simp: plan_total_def dest: sum_fold)
    then show "\<forall>x \<in> set (cr_input_lengths r). x \<le> elems" by (simp add: member_le_sum_list)
  qed (use equal_lengths [OF p(1) _ assms(2)] in blast)
  moreover have "elems \<le> fold max (cp_output_lengths p) 0 \<or> elems \<le> fold max (cr_input_lengths r) 0"
  proof (cases "cr_kind r = ReduceScatter")
    case True
    have "cr_input_lengths r \<noteq> []" using lens p(3) by auto
    then have "hd (cr_input_lengths r) \<in> set (cr_input_lengths r)" by simp
    moreover have "hd (cr_input_lengths r) = elems"
      using equal_lengths [OF p(1) _ assms(2) calculation] True by simp
    ultimately show ?thesis using fold_max_ge by blast
  next
    case False
    then have "elems \<in> set (cp_output_lengths p)" using p e by simp
    then show ?thesis using fold_max_ge by blast
  qed
  ultimately show ?thesis by linarith
qed

lemma execute_reaches:
  assumes "plan ser r = Inr p" and "plan_total r = Inr elems" and "group_ok r inputs"
    and "\<forall>x \<in> set inputs. ln_dtype x = cr_dtype r"
    and "reaches fo r inputs elems (cp_actions p) out ib"
    and "\<And>d. d < length (cr_group r) \<Longrightarrow>
      collect_output fo p \<lparr>ex_output = out, ex_inbox = ib, ex_done = replicate (length (cp_actions p)) True\<rparr> d =
      Inr (result d)"
  shows "execute fo ser p inputs = Inr (map result [0..<length (cr_group r)])"
proof -
  have req: "cp_request p = r" using assms(1) by (rule plan_Inr)
  have "plan ser (cp_request p) = Inr p" using assms(1) req by simp
  then have valid: "validate_plan ser p = Inr ()" by (simp add: validate_plan_def)
  have n: "length inputs = length (cr_group r)" and lens: "cr_input_lengths r = map (\<lambda>x. length (ln_values x)) inputs"
    using assms(3) by (simp_all add: group_ok_def)
  have "try_map (check_input r) (zip [0..<length inputs] inputs) = Inr (map (\<lambda>_. ()) (zip [0..<length inputs] inputs))"
    using assms(4) lens by (intro try_map_ok) (auto simp: check_input_def in_set_zip)
  moreover have "try_map (collect_output fo p \<lparr>ex_output = out, ex_inbox = ib,
      ex_done = replicate (length (cp_actions p)) True\<rparr>) [0..<length (cr_group r)] =
      Inr (map result [0..<length (cr_group r)])"
    using assms(6) by (intro try_map_ok) simp
  ultimately show ?thesis
    using valid n assms(5) workspace_size [OF assms(1-3)] req
    by (simp add: execute_def Let_def workspace_def reaches_def)
qed

text \<open>What each kind of collective promises to each device.\<close>

definition promised :: "'f float_ops \<Rightarrow> collective_request \<Rightarrow> 'f lanes list \<Rightarrow> nat \<Rightarrow> 'f scalar list" where
  "promised fo r inputs d =
    (case cr_kind r of
       Broadcast root \<Rightarrow> vals inputs (the (index_of (cr_group r) root))
     | AllGather \<Rightarrow> concat (map ln_values inputs)
     | AllReduce \<Rightarrow> reduce_into fo r inputs d (length (cr_group r))
     | ReduceScatter \<Rightarrow>
         let n = length (cr_group r); c = chunks (length (vals inputs d)) n ! d
         in cut (reduce_into fo r inputs d n) (lr_start c) (lr_len c))"

lemma collect_slice:
  assumes "cp_request p = r" and "start + len \<le> length (out ! d)"
    and "if cr_kind r = ReduceScatter then start = lr_start (cp_chunks p ! d) \<and> len = lr_len (cp_chunks p ! d)
         else start = 0 \<and> len = cp_output_lengths p ! d"
  shows "collect_output fo p \<lparr>ex_output = out, ex_inbox = ib, ex_done = dn\<rparr> d =
    Inr \<lparr>ln_dtype = cr_dtype r, ln_values = map (materialize fo (cr_dtype r)) (cut (out ! d) start len)\<rparr>"
proof -
  have "slice_range (out ! d) start len = Inr (cut (out ! d) start len)"
    using assms(2) by (simp add: slice_range_def cut_def)
  with assms(1,3) show ?thesis by (cases "cr_kind r = ReduceScatter") (simp_all add: collect_output_def)
qed

lemma collect_whole:
  assumes "cp_request p = r" and "cr_kind r \<noteq> ReduceScatter" and "cp_output_lengths p ! d = elems"
    and "out ! d = ys" and "length ys = elems"
  shows "collect_output fo p \<lparr>ex_output = out, ex_inbox = ib, ex_done = dn\<rparr> d =
    Inr \<lparr>ln_dtype = cr_dtype r, ln_values = map (materialize fo (cr_dtype r)) ys\<rparr>"
proof -
  have "slice_range (out ! d) 0 (cp_output_lengths p ! d) = Inr ys"
    using assms(3-5) by (simp add: slice_range_def)
  with assms(1,2) show ?thesis by (simp add: collect_output_def)
qed

lemma run_planned:
  assumes "plan ser r = Inr p" and "group_ok r inputs" and "\<forall>x \<in> set inputs. ln_dtype x = cr_dtype r"
  shows "execute fo ser p inputs = Inr (map (\<lambda>d. \<lparr>ln_dtype = cr_dtype r,
    ln_values = map (materialize fo (cr_dtype r)) (promised fo r inputs d)\<rparr>) [0..<length (cr_group r)])"
proof -
  let ?n = "length (cr_group r)"
  from assms(1) obtain elems where p: "validate_request r = Inr ()" "plan_total r = Inr elems"
    "plan_actions r elems = Inr (cp_actions p)" "cp_request p = r" "cp_chunks p = chunks elems ?n"
    "cp_output_lengths p = (if cr_kind r = ReduceScatter then map lr_len (cp_chunks p) else replicate ?n elems)"
    by (rule plan_Inr)
  note run = execute_reaches [OF assms(1) p(2) assms(2,3)]
  have n: "length inputs = ?n" and lens: "cr_input_lengths r = map (\<lambda>x. length (ln_values x)) inputs"
    using assms(2) by (simp_all add: group_ok_def)
  have equal: "length (vals inputs i) = elems" if "cr_kind r \<noteq> AllGather" "i < ?n" for i
    using equal_lengths [OF p(1) that(1) p(2)] lens n that(2) by simp
  show ?thesis
  proof (cases "cr_kind r")
    case (Broadcast root)
    with p(3) obtain i where i: "index_of (cr_group r) root = Some i" "cp_actions p = plan_broadcast r i elems"
      by (auto simp: plan_actions_def result_simps Let_def)
    then have "i < ?n" by (simp add: index_of_Some)
    with broadcast_reaches [OF assms(2), of i elems fo] equal Broadcast i obtain out ib where
      "reaches fo r inputs elems (cp_actions p) out ib" "\<forall>d < ?n. out ! d = vals inputs i" by auto
    then show ?thesis
      using Broadcast i(1) equal [OF _ \<open>i < ?n\<close>] p(4,6)
      by (elim run, intro collect_whole) (simp_all add: promised_def)
  next
    case AllGather
    then have elems: "elems = length (concat (map ln_values inputs))"
      using p(2) lens sum_lengths [of "length inputs" inputs] by (auto simp: plan_total_def dest!: sum_fold)
    from AllGather p(3) have "cp_actions p = plan_all_gather r" by (simp add: plan_actions_def)
    with gather_reaches [OF assms(2) AllGather elems, of fo] obtain out ib where
      "reaches fo r inputs elems (cp_actions p) out ib" "\<forall>d < ?n. out ! d = concat (map ln_values inputs)" by auto
    then show ?thesis
      using AllGather elems p(4,6)
      by (elim run, intro collect_whole) (simp_all add: promised_def)
  next
    case ReduceScatter
    let ?g = "\<lambda>dst. chunks elems ?n ! dst"
    from ReduceScatter p(3) have acts: "cp_actions p = plan_reduce r ?g" by (simp add: plan_actions_def)
    have "\<exists>out ib. reaches fo r inputs elems (plan_reduce r ?g) out ib \<and> shaped r elems out \<and>
        (\<forall>d < ?n. cut (out ! d) (lr_start (?g d)) (lr_len (?g d)) =
           cut (reduce_into fo r inputs d ?n) (lr_start (?g d)) (lr_len (?g d)))"
      by (rule reduce_reaches [where g = ?g, OF assms(2)]) (use ReduceScatter equal chunk_inside in simp_all)
    then obtain out ib where o: "reaches fo r inputs elems (cp_actions p) out ib" "shaped r elems out"
      "\<forall>d < ?n. cut (out ! d) (lr_start (?g d)) (lr_len (?g d)) =
         cut (reduce_into fo r inputs d ?n) (lr_start (?g d)) (lr_len (?g d))" by (auto simp: acts)
    show ?thesis
    proof (rule run [OF o(1)])
      fix d
      assume d: "d < ?n"
      have "collect_output fo p \<lparr>ex_output = out, ex_inbox = ib, ex_done = replicate (length (cp_actions p)) True\<rparr> d =
          Inr \<lparr>ln_dtype = cr_dtype r, ln_values = map (materialize fo (cr_dtype r))
            (cut (out ! d) (lr_start (?g d)) (lr_len (?g d)))\<rparr>"
        by (rule collect_slice) (use ReduceScatter p(4,5) d chunk_inside [OF d, of elems] shaped_nth [OF o(2) d] in simp_all)
      then show "collect_output fo p \<lparr>ex_output = out, ex_inbox = ib, ex_done = replicate (length (cp_actions p)) True\<rparr> d =
          Inr \<lparr>ln_dtype = cr_dtype r, ln_values = map (materialize fo (cr_dtype r)) (promised fo r inputs d)\<rparr>"
        using o(3) d ReduceScatter equal [OF _ d] by (simp add: promised_def Let_def)
    qed
  next
    case AllReduce
    let ?g = "\<lambda>_. \<lparr>lr_start = 0, lr_len = elems\<rparr>"
    from AllReduce p(3) have acts: "cp_actions p = plan_reduce r ?g" by (simp add: plan_actions_def)
    have "\<exists>out ib. reaches fo r inputs elems (plan_reduce r ?g) out ib \<and> shaped r elems out \<and>
        (\<forall>d < ?n. cut (out ! d) 0 elems = cut (reduce_into fo r inputs d ?n) 0 elems)"
      using reduce_reaches [where g = ?g, OF assms(2) _ equal] AllReduce by simp
    then obtain out ib where o: "reaches fo r inputs elems (cp_actions p) out ib" "shaped r elems out"
      "\<forall>d < ?n. cut (out ! d) 0 elems = cut (reduce_into fo r inputs d ?n) 0 elems" by (auto simp: acts)
    have len: "length (reduce_into fo r inputs d ?n) = elems" if "d < ?n" for d
      by (rule length_reduce_into [OF equal that order_refl]) (use AllReduce in simp_all)
    show ?thesis
      by (rule run [OF o(1)], rule collect_whole)
         (use AllReduce p(4,6) o(3) len shaped_nth [OF o(2)] in \<open>simp_all add: promised_def cut_whole\<close>)
  qed
qed

text \<open>C4: executing a planned collective on inputs that match its request never fails, and device
  \<open>d\<close> receives what the kind of the collective promises: the root's lanes, all lanes in group
  order, or the reduction of all lanes (whole, or its own chunk), stored at the request's type.\<close>

theorem execute_correct:
  assumes "plan ser r = Inr p" and "group_ok r inputs" and "\<forall>x \<in> set inputs. ln_dtype x = cr_dtype r"
  shows "execute fo ser p inputs = Inr (map (\<lambda>d. \<lparr>ln_dtype = cr_dtype r,
    ln_values = map (materialize fo (cr_dtype r)) (promised fo r inputs d)\<rparr>) [0..<length (cr_group r)])"
  using assms by (rule run_planned)

theorem execute_correct_witness:
  "\<exists>p. plan (\<lambda>_. Some []) (sample_request (Broadcast ''gpu1'')) = Inr p \<and>
    execute sample_floats (\<lambda>_. Some []) p sample_inputs =
      Inr (replicate 3 \<lparr>ln_dtype = I32, ln_values = [SI 7, SI (- 2)]\<rparr>)"
proof -
  obtain p where p: "plan (\<lambda>_. Some []) (sample_request (Broadcast ''gpu1'')) = Inr p"
    using sample_plan_ok(3) by (auto simp: is_ok_iff)
  have "group_ok (sample_request (Broadcast ''gpu1'')) sample_inputs" by code_simp
  moreover have "\<forall>x \<in> set sample_inputs. ln_dtype x = cr_dtype (sample_request (Broadcast ''gpu1''))"
    by code_simp
  moreover have "map (\<lambda>d. \<lparr>ln_dtype = I32, ln_values = map (materialize sample_floats I32)
      (promised sample_floats (sample_request (Broadcast ''gpu1'')) sample_inputs d)\<rparr>) [0..<3] =
    replicate 3 \<lparr>ln_dtype = I32, ln_values = [SI 7, SI (- 2)]\<rparr>" by code_simp
  ultimately show ?thesis
    using execute_correct [OF p, of sample_inputs sample_floats] p
    by (simp add: sample_request_def numeral_3_eq_3)
qed

subsection \<open>When the order of the devices does not matter\<close>

text \<open>A sum the devices may take in any order: closed, associative and commutative on a carrier.\<close>

locale reduction =
  fixes carrier :: "'a \<Rightarrow> bool" and plus :: "'a \<Rightarrow> 'a \<Rightarrow> 'a"
  assumes closed: "carrier a \<Longrightarrow> carrier b \<Longrightarrow> carrier (plus a b)"
    and assoc: "carrier a \<Longrightarrow> carrier b \<Longrightarrow> carrier c \<Longrightarrow> plus (plus a b) c = plus a (plus b c)"
    and comm: "carrier a \<Longrightarrow> carrier b \<Longrightarrow> plus a b = plus b a"
begin

lemma sum_closed: "carrier a \<Longrightarrow> list_all carrier xs \<Longrightarrow> carrier (foldl plus a xs)"
  by (induction xs arbitrary: a) (simp_all add: closed)

lemma sum_push:
  assumes "carrier a" and "carrier b" and "list_all carrier xs"
  shows "foldl plus (plus a b) xs = plus (foldl plus a xs) b"
  using assms
proof (induction xs arbitrary: a)
  case (Cons x xs)
  then have "plus (plus a b) x = plus (plus a x) b"
    by (simp add: assoc comm [of b x])
  with Cons show ?case by (simp add: closed)
qed simp

text \<open>Starting with any element and adding the others in order gives the sum of the whole list.\<close>

lemma sum_from_any:
  assumes "list_all carrier (us @ b # vs)"
  shows "foldl plus b (us @ vs) = foldl plus (hd (us @ b # vs)) (tl (us @ b # vs))"
proof (cases us)
  case (Cons x xs)
  with assms have "carrier b" "carrier x" "list_all carrier xs" by simp_all
  then have "foldl plus (plus b x) xs = plus (foldl plus x xs) b"
    by (simp add: comm [of b x] sum_push)
  then show ?thesis using Cons by simp
qed simp

end

text \<open>The lanes of an integer or boolean type with the sum of the executor.\<close>

lemma collective_add_signed:
  "category d = CatSigned \<Longrightarrow> collective_add fo d (SI a) (SI b) = SI (wrap_signed (bits d) (a + b))"
  by (cases d) (simp_all add: collective_add_def is_float_def materialize_def scalar_to_signed_def wrap_signed_64)

lemma collective_add_unsigned:
  "category d = CatUnsigned \<Longrightarrow> collective_add fo d (SU a) (SU b) = SU (wrap_unsigned (bits d) (int a + int b))"
  by (cases d)
     (simp_all add: collective_add_def is_float_def materialize_def scalar_to_unsigned_def wrap_unsigned_64)

lemma collective_add_bool: "collective_add fo Bool (SBool a) (SBool b) = SBool (a \<or> b)"
  by (simp add: collective_add_def is_float_def materialize_def)

lemma holds_wrap_signed: "category d = CatSigned \<Longrightarrow> holds_int d (wrap_signed (bits d) x)"
  using wrap_signed_range [of 8 x] wrap_signed_range [of 16 x] wrap_signed_range [of 32 x]
    wrap_signed_range [of 64 x]
  by (cases d) simp_all

lemma holds_wrap_unsigned: "category d = CatUnsigned \<Longrightarrow> holds_int d (int (wrap_unsigned (bits d) x))"
  using wrap_unsigned_range [of 8 x] wrap_unsigned_range [of 16 x] wrap_unsigned_range [of 32 x]
    wrap_unsigned_range [of 64 x]
  by (cases d) simp_all

abbreviation int_lane :: "dtype \<Rightarrow> 'f scalar \<Rightarrow> bool" where
  "int_lane d s \<equiv> \<not> is_float d \<and> lane_ok d s"

lemma add_closed:
  assumes "int_lane d a" and "int_lane d b"
  shows "int_lane d (collective_add fo d a b)"
  using assms
  by (cases a; cases b)
     (auto simp: collective_add_bool collective_add_signed collective_add_unsigned holds_wrap_signed holds_wrap_unsigned
        simp del: holds_int.simps)

lemma add_comm:
  assumes "int_lane d a" and "int_lane d b"
  shows "collective_add fo d a b = collective_add fo d b a"
  using assms
  by (cases a; cases b)
     (auto simp: collective_add_bool collective_add_signed collective_add_unsigned add.commute)

lemma wrap_signed_add_right: "wrap_signed w (a + wrap_signed w b) = wrap_signed w (a + b)"
  using wrap_signed_add [of w b a] by (simp add: add.commute)

lemma wrap_unsigned_add_right: "wrap_unsigned w (x + int (wrap_unsigned w y)) = wrap_unsigned w (x + y)"
  using wrap_unsigned_add [of w y x] by (simp add: add.commute)

lemma add_assoc:
  assumes "int_lane d a" and "int_lane d b" and "int_lane d c"
  shows "collective_add fo d (collective_add fo d a b) c = collective_add fo d a (collective_add fo d b c)"
  using assms
  by (cases a; cases b; cases c)
     (auto simp: collective_add_bool collective_add_signed collective_add_unsigned
        wrap_signed_add wrap_signed_add_right wrap_unsigned_add wrap_unsigned_add_right add.assoc)

interpretation lane_sum: reduction "int_lane d" "collective_add fo d" for d fo
  by unfold_locales (rule add_closed add_assoc add_comm; assumption)+

text \<open>The sum of all devices, taken in group order.\<close>

definition group_sum :: "'f float_ops \<Rightarrow> dtype \<Rightarrow> 'f scalar list list \<Rightarrow> 'f scalar list" where
  "group_sum fo d xss = foldl (map2 (collective_add fo d)) (hd xss) (tl xss)"

lemma nth_foldl_map2:
  assumes "\<forall>ys \<in> set yss. length ys = length xs" and "k < length xs"
  shows "foldl (map2 f) xs yss ! k = foldl f (xs ! k) (map (\<lambda>ys. ys ! k) yss)"
  using assms by (induction yss arbitrary: xs) simp_all

lemma length_foldl_map2: "\<forall>ys \<in> set yss. length ys = length xs \<Longrightarrow> length (foldl (map2 f) xs yss) = length xs"
  by (induction yss arbitrary: xs) simp_all

lemma upt_split: "d < n \<Longrightarrow> [0..<n] = [0..<d] @ d # [Suc d..<n]"
  using upt_add_eq_append [of 0 d "n - d"] by (simp add: upt_conv_Cons)

lemma filter_other: "d < n \<Longrightarrow> filter (\<lambda>s. s \<noteq> d) [0..<n] = [0..<d] @ [Suc d..<n]"
proof -
  assume "d < n"
  moreover have "filter (\<lambda>s. s \<noteq> d) [0..<d] = [0..<d]" "filter (\<lambda>s. s \<noteq> d) [Suc d..<n] = [Suc d..<n]"
    by (simp_all add: filter_id_conv)
  ultimately show ?thesis by (simp add: upt_split)
qed

lemma reduce_into_group_sum:
  assumes "\<not> is_float (cr_dtype r)" and "\<forall>x \<in> set inputs. list_all (lane_ok (cr_dtype r)) (ln_values x)"
    and "\<forall>x \<in> set inputs. length (ln_values x) = elems" and "d < length inputs"
  shows "reduce_into fo r inputs d (length inputs) = group_sum fo (cr_dtype r) (map ln_values inputs)"
proof (rule nth_equalityI)
  let ?f = "collective_add fo (cr_dtype r)" and ?n = "length inputs"
  let ?us = "map (vals inputs) [0..<d]" and ?vs = "map (vals inputs) [Suc d..<?n]"
  have split: "map ln_values inputs = ?us @ vals inputs d # ?vs"
  proof -
    have "map ln_values inputs = map (vals inputs) [0..<?n]" by (rule nth_equalityI) simp_all
    also have "[0..<?n] = [0..<d] @ d # [Suc d..<?n]"
      using assms(4) by (rule upt_split)
    finally show ?thesis by simp
  qed
  have red: "reduce_into fo r inputs d ?n = foldl (map2 ?f) (vals inputs d) (?us @ ?vs)"
    using assms(4) by (simp add: reduce_into_def filter_other)
  have lens: "\<forall>ys \<in> set (map ln_values inputs). length ys = elems" using assms(3) by simp
  then have parts: "\<forall>ys \<in> set (?us @ ?vs). length ys = elems" "length (vals inputs d) = elems"
    unfolding split by simp_all
  have ne: "map ln_values inputs \<noteq> []" using assms(4) by auto
  then have hd_tl: "length (hd (map ln_values inputs)) = elems"
    "\<forall>ys \<in> set (tl (map ln_values inputs)). length ys = elems"
    using lens by (cases inputs; simp)+
  have l1: "length (foldl (map2 ?f) (vals inputs d) (?us @ ?vs)) = elems"
    using parts by (simp add: length_foldl_map2 del: foldl_append)
  have l2: "length (group_sum fo (cr_dtype r) (map ln_values inputs)) = elems"
    using hd_tl by (simp add: group_sum_def length_foldl_map2)
  show "length (reduce_into fo r inputs d ?n) = length (group_sum fo (cr_dtype r) (map ln_values inputs))"
    using l1 l2 red by simp
  fix k
  assume "k < length (reduce_into fo r inputs d ?n)"
  then have k: "k < elems" using l1 red by simp
  let ?at = "\<lambda>ys. ys ! k"
  have "list_all (int_lane (cr_dtype r)) (map ?at (map ln_values inputs))"
    using assms(1-3) k by (force simp: list_all_iff)
  then have all: "list_all (int_lane (cr_dtype r)) (map ?at ?us @ vals inputs d ! k # map ?at ?vs)"
    by (simp only: split list.map map_append)
  have "reduce_into fo r inputs d ?n ! k = foldl ?f (vals inputs d ! k) (map ?at ?us @ map ?at ?vs)"
    unfolding red using parts k by (subst nth_foldl_map2) simp_all
  also have "\<dots> = foldl ?f (hd (map ?at (map ln_values inputs))) (tl (map ?at (map ln_values inputs)))"
    unfolding split using lane_sum.sum_from_any [OF all, of fo] by simp
  also have "\<dots> = group_sum fo (cr_dtype r) (map ln_values inputs) ! k"
    unfolding group_sum_def using hd_tl k ne
    by (subst nth_foldl_map2) (simp_all add: hd_map map_tl [symmetric])
  finally show "reduce_into fo r inputs d ?n ! k = group_sum fo (cr_dtype r) (map ln_values inputs) ! k" .
qed

lemma same_lengths:
  assumes "plan ser r = Inr p" and "group_ok r inputs" and "cr_kind r \<noteq> AllGather"
  obtains elems where "\<forall>x \<in> set inputs. length (ln_values x) = elems" "plan_total r = Inr elems"
proof -
  from assms(1) obtain elems where "validate_request r = Inr ()" "plan_total r = Inr elems" by (rule plan_Inr)
  with equal_lengths [OF _ assms(3)] assms(2) that show thesis by (auto simp: group_ok_def)
qed

lemma group_sum_lanes:
  assumes "\<not> is_float d" and "xss \<noteq> []" and "\<forall>xs \<in> set xss. list_all (lane_ok d) xs \<and> length xs = elems"
  shows "list_all (lane_ok d) (group_sum fo d xss) \<and> length (group_sum fo d xss) = elems"
proof -
  obtain x xs where xss: "xss = x # xs" using assms(2) by (cases xss) auto
  with assms(3) have "list_all (lane_ok d) x" "length x = elems"
    "\<forall>ys \<in> set xs. list_all (lane_ok d) ys \<and> length ys = elems" by simp_all
  then have "list_all (lane_ok d) (foldl (map2 (collective_add fo d)) x xs) \<and>
      length (foldl (map2 (collective_add fo d)) x xs) = elems"
  proof (induction xs arbitrary: x)
    case (Cons y ys)
    then have "list_all (lane_ok d) (map2 (collective_add fo d) x y)"
      using add_closed [where d = d and fo = fo] assms(1) by (auto simp: list_all_length)
    with Cons show ?case by simp
  qed simp
  with xss show ?thesis by (simp add: group_sum_def)
qed

lemma materialize_lanes: "\<not> is_float d \<Longrightarrow> list_all (lane_ok d) xs \<Longrightarrow> map (materialize fo d) xs = xs"
  by (induction xs) (simp_all add: materialize_id)

text \<open>C5: integer and boolean all-reduce does not depend on the device: although every device adds
  the contributions in its own order, executing a planned all-reduce gives each device the sum in
  group order.\<close>

theorem all_reduce_agrees:
  assumes "plan ser r = Inr p" and "group_ok r inputs" and "\<forall>x \<in> set inputs. ln_dtype x = cr_dtype r"
    and "cr_kind r = AllReduce" and "\<not> is_float (cr_dtype r)"
    and "\<forall>x \<in> set inputs. list_all (lane_ok (cr_dtype r)) (ln_values x)"
  shows "execute fo ser p inputs = Inr (replicate (length (cr_group r)) \<lparr>ln_dtype = cr_dtype r,
    ln_values = group_sum fo (cr_dtype r) (map ln_values inputs)\<rparr>)"
proof -
  have "cr_kind r \<noteq> AllGather" using assms(4) by simp
  then obtain elems where lens: "\<forall>x \<in> set inputs. length (ln_values x) = elems"
    by (rule same_lengths [OF assms(1,2)])
  have n: "length inputs = length (cr_group r)" using assms(2) by (simp add: group_ok_def)
  have "map (materialize fo (cr_dtype r)) (promised fo r inputs d) =
      group_sum fo (cr_dtype r) (map ln_values inputs)" if "d < length (cr_group r)" for d
  proof -
    have "promised fo r inputs d = group_sum fo (cr_dtype r) (map ln_values inputs)"
      using reduce_into_group_sum [OF assms(5,6) lens, of d fo] that n assms(4) by (simp add: promised_def)
    moreover have "list_all (lane_ok (cr_dtype r)) (group_sum fo (cr_dtype r) (map ln_values inputs))"
      using group_sum_lanes [OF assms(5), of "map ln_values inputs" elems fo] assms(6) lens that n by force
    ultimately show ?thesis using assms(5) by (simp add: materialize_lanes)
  qed
  then have "map (\<lambda>d. \<lparr>ln_dtype = cr_dtype r, ln_values = map (materialize fo (cr_dtype r)) (promised fo r inputs d)\<rparr>)
      [0..<length (cr_group r)] = replicate (length (cr_group r)) \<lparr>ln_dtype = cr_dtype r,
        ln_values = group_sum fo (cr_dtype r) (map ln_values inputs)\<rparr>"
    by (intro nth_equalityI) simp_all
  then show ?thesis by (simp add: run_planned [OF assms(1-3)])
qed

theorem all_reduce_agrees_witness:
  "\<exists>p. plan (\<lambda>_. Some []) (sample_request AllReduce) = Inr p \<and>
    execute sample_floats (\<lambda>_. Some []) p sample_inputs =
      Inr (replicate 3 \<lparr>ln_dtype = I32, ln_values = [SI (- 2147483642), SI 2]\<rparr>)"
proof -
  obtain p where p: "plan (\<lambda>_. Some []) (sample_request AllReduce) = Inr p"
    using sample_plan_ok(1) by (auto simp: is_ok_iff)
  have "group_ok (sample_request AllReduce) sample_inputs"
    "\<forall>x \<in> set sample_inputs. ln_dtype x = cr_dtype (sample_request AllReduce)"
    "cr_kind (sample_request AllReduce) = AllReduce" "\<not> is_float (cr_dtype (sample_request AllReduce))"
    "\<forall>x \<in> set sample_inputs. list_all (lane_ok (cr_dtype (sample_request AllReduce))) (ln_values x)"
    "group_sum sample_floats I32 (map ln_values sample_inputs) = [SI (- 2147483642), SI 2]"
    by code_simp+
  then show ?thesis
    using all_reduce_agrees [OF p, of sample_inputs sample_floats] p
    by (simp add: sample_request_def numeral_3_eq_3)
qed

lemma concat_chunks:
  "k \<le> n \<Longrightarrow> concat (map (\<lambda>i. cut xs (lr_start (chunks t n ! i)) (lr_len (chunks t n ! i))) [0..<k]) =
    take (k * (t div n) + min k (t mod n)) xs"
proof (induction k)
  case (Suc k)
  let ?s = "k * (t div n) + min k (t mod n)" and ?l = "t div n + (if k < t mod n then 1 else 0)"
  have "Suc k * (t div n) + min (Suc k) (t mod n) = ?s + ?l" by (simp add: min_def)
  then have "take (Suc k * (t div n) + min (Suc k) (t mod n)) xs = take ?s xs @ cut xs ?s ?l"
    by (simp only: cut_def take_add)
  moreover have "lr_start (chunks t n ! k) = ?s" "lr_len (chunks t n ! k) = ?l"
    using Suc.prems by (simp_all add: chunk_nth)
  moreover have "k \<le> n" using Suc.prems by simp
  ultimately show ?case using Suc.IH by (simp only: upt_Suc_append zero_le map_append concat_append list.map concat.simps append_Nil2)
qed simp

text \<open>Integer and boolean reduce-scatter is all-reduce scattered: executing a planned
  reduce-scatter gives device \<open>d\<close> exactly as many lanes as its chunk has, and the lanes of all devices,
  joined in group order, are the sum of the group.\<close>

lemma reduce_scatter_scatters:
  assumes "plan ser r = Inr p" and "group_ok r inputs" and "\<forall>x \<in> set inputs. ln_dtype x = cr_dtype r"
    and "cr_kind r = ReduceScatter" and "\<not> is_float (cr_dtype r)"
    and "\<forall>x \<in> set inputs. list_all (lane_ok (cr_dtype r)) (ln_values x)"
  shows "\<exists>outs. execute fo ser p inputs = Inr outs \<and>
    map (\<lambda>x. length (ln_values x)) outs = cp_output_lengths p \<and>
    concat (map ln_values outs) = group_sum fo (cr_dtype r) (map ln_values inputs)"
proof -
  let ?n = "length (cr_group r)" and ?sum = "group_sum fo (cr_dtype r) (map ln_values inputs)"
  have "cr_kind r \<noteq> AllGather" using assms(4) by simp
  then obtain elems where lens: "\<forall>x \<in> set inputs. length (ln_values x) = elems" and tot: "plan_total r = Inr elems"
    by (rule same_lengths [OF assms(1,2)])
  have n: "length inputs = ?n" using assms(2) by (simp add: group_ok_def)
  from assms(1) tot have p: "0 < ?n" "cp_output_lengths p = map lr_len (chunks elems ?n)"
    using assms(4) by (auto elim!: plan_Inr)
  have sum: "list_all (lane_ok (cr_dtype r)) ?sum" "length ?sum = elems"
    using group_sum_lanes [OF assms(5), of "map ln_values inputs" elems fo] assms(6) lens p(1) n by force+
  let ?cut = "\<lambda>d. cut ?sum (lr_start (chunks elems ?n ! d)) (lr_len (chunks elems ?n ! d))"
  have lanes: "map (materialize fo (cr_dtype r)) (promised fo r inputs d) = ?cut d" if "d < ?n" for d
  proof -
    have "length (vals inputs d) = elems" using lens that n by simp
    then have "promised fo r inputs d = ?cut d"
      using reduce_into_group_sum [OF assms(5,6) lens, of d fo] that n assms(4)
      by (simp add: promised_def Let_def)
    moreover have "list_all (lane_ok (cr_dtype r)) (?cut d)"
      using sum(1) by (auto simp: list_all_iff cut_def dest: in_set_takeD in_set_dropD)
    ultimately show ?thesis using assms(5) by (simp add: materialize_lanes)
  qed
  let ?outs = "map (\<lambda>d. \<lparr>ln_dtype = cr_dtype r, ln_values = ?cut d\<rparr>) [0..<?n]"
  have "execute fo ser p inputs = Inr ?outs"
    using lanes by (simp add: run_planned [OF assms(1-3)])
  moreover have "map (\<lambda>x. length (ln_values x)) ?outs = cp_output_lengths p"
    unfolding p(2) using chunk_inside [of _ ?n elems] sum(2) by (intro nth_equalityI) (simp_all add: length_cut)
  moreover have "concat (map ln_values ?outs) = ?sum"
  proof -
    have lanes: "map ln_values ?outs = map ?cut [0..<?n]" by simp
    moreover have "?n * (elems div ?n) + min ?n (elems mod ?n) = elems"
      using p(1) mod_less_divisor [of ?n elems] by (simp add: min_absorb2 less_imp_le del: mod_less_divisor)
    ultimately show ?thesis using concat_chunks [of ?n ?n ?sum elems] sum(2) by (simp only: lanes order_refl take_all)
  qed
  ultimately show ?thesis by blast
qed

theorem reduce_scatter_scatters_witness:
  "\<exists>p outs. plan (\<lambda>_. Some []) (sample_request ReduceScatter) = Inr p \<and>
    execute sample_floats (\<lambda>_. Some []) p sample_inputs = Inr outs \<and>
    concat (map ln_values outs) = [SI (- 2147483642), SI 2]"
proof -
  obtain p where p: "plan (\<lambda>_. Some []) (sample_request ReduceScatter) = Inr p"
    using sample_plan_ok(2) by (auto simp: is_ok_iff)
  have "group_ok (sample_request ReduceScatter) sample_inputs"
    "\<forall>x \<in> set sample_inputs. ln_dtype x = cr_dtype (sample_request ReduceScatter)"
    "cr_kind (sample_request ReduceScatter) = ReduceScatter" "\<not> is_float (cr_dtype (sample_request ReduceScatter))"
    "\<forall>x \<in> set sample_inputs. list_all (lane_ok (cr_dtype (sample_request ReduceScatter))) (ln_values x)"
    by code_simp+
  moreover have "group_sum sample_floats (cr_dtype (sample_request ReduceScatter)) (map ln_values sample_inputs) =
      [SI (- 2147483642), SI 2]" by code_simp
  ultimately show ?thesis
    using reduce_scatter_scatters [OF p, of sample_inputs sample_floats] p by auto
qed

end
