(* ===== verification/Shapes.thy ===== *)
theory Shapes
  imports DTypes
begin

section \<open>Shapes and dense coordinates (src/src/tensor/shape.rs, src/src/index.rs)\<close>

text \<open>
  \<open>Shape\<close> is a vector of \<open>usize\<close> extents, here the list of its dimensions. The element count, the
  broadcast of two shapes and the row-major strides are the source's loops; \<open>DenseIndex\<close> is the
  checked coordinate mapping the dense tensors use. The reference for coordinates is the pair
  \<open>ravel\<close> and \<open>unravel\<close>, which every view and sharding lemma of the development goes through.
\<close>

type_synonym shape = "nat list"

datatype tensor_error =
    ShapeOverflow shape
  | BroadcastMismatch shape shape
  | InvalidIndex
  | ShapeMismatch string shape shape
  | InputDType string dtype dtype
  | InvalidData shape nat nat
  | NonScalarItem shape
  | InvalidAxis nat nat nat
  | InvalidUnfold string
  | InvalidDiagonal string
  | LanePanic
  | CollectiveError string

subsection \<open>Element count\<close>

definition numel :: "shape \<Rightarrow> (tensor_error, nat) result" where
  "numel dims = try_fold (\<lambda>n d. ok_or (ShapeOverflow dims) (checked_mul_u n d)) 1 dims"

definition without_axis :: "shape \<Rightarrow> nat \<Rightarrow> shape option" where
  "without_axis dims axis =
    (if length dims \<le> axis then None else Some (take axis dims @ drop (Suc axis) dims))"

lemma try_fold_mul:
  "try_fold (\<lambda>n d. ok_or e (checked_mul_u n d)) a dims = Inr n \<Longrightarrow> n = a * prod_list dims"
proof (induction dims arbitrary: a)
  case (Cons d dims)
  then show ?case by (auto simp: result_simps checked_defs mult.assoc dest!: Cons.IH)
qed simp

lemma try_fold_mul_bound:
  "try_fold (\<lambda>n d. ok_or e (checked_mul_u n d)) a dims = Inr n \<Longrightarrow> a \<le> usize_max \<Longrightarrow> n \<le> usize_max"
  by (induction dims arbitrary: a) (auto simp: result_simps checked_defs)

lemma try_fold_mul_ok:
  "a * prod_list dims \<le> usize_max \<Longrightarrow> 0 \<notin> set dims \<Longrightarrow>
   try_fold (\<lambda>n d. ok_or e (checked_mul_u n d)) a dims = Inr (a * prod_list dims)"
proof (induction dims arbitrary: a)
  case (Cons d dims)
  then have "0 < prod_list dims" by (auto simp: prod_list_pos_iff)
  then have "a * d * 1 \<le> a * d * prod_list dims" by (intro mult_left_mono) auto
  also have "a * d * prod_list dims \<le> usize_max" using Cons.prems by (simp add: mult.assoc)
  finally have "a * d \<le> usize_max" by simp
  with Cons show ?case by (simp add: checked_mul_u_def checked_u_def mult.assoc)
qed simp

lemma numel_InrD: "numel dims = Inr n \<Longrightarrow> n = prod_list dims \<and> n \<le> usize_max"
  using try_fold_mul [of "ShapeOverflow dims" 1 dims n]
        try_fold_mul_bound [of "ShapeOverflow dims" 1 dims n]
  by (simp add: numel_def usize_max_eq)

lemma numel_ok:
  "0 \<notin> set dims \<Longrightarrow> prod_list dims \<le> usize_max \<Longrightarrow> numel dims = Inr (prod_list dims)"
  using try_fold_mul_ok [of 1 dims "ShapeOverflow dims"] by (simp add: numel_def)

lemma try_fold_mul_err: "try_fold (\<lambda>n d. ok_or e (checked_mul_u n d)) a dims = Inl f \<Longrightarrow> f = e"
  by (induction dims arbitrary: a) (auto simp: result_simps)

lemma numel_InlD: "numel dims = Inl e \<Longrightarrow> e = ShapeOverflow dims"
  unfolding numel_def by (rule try_fold_mul_err)

text \<open>The element count is exact, and without a zero extent it fails exactly on overflow.\<close>

lemma numel_iff:
  assumes "0 \<notin> set dims"
  shows "numel dims = (if prod_list dims \<le> usize_max then Inr (prod_list dims)
                       else Inl (ShapeOverflow dims))"
proof (cases "numel dims")
  case (Inl e)
  with numel_ok [OF assms] have "\<not> prod_list dims \<le> usize_max" by auto
  with Inl show ?thesis by (simp add: numel_InlD)
qed (auto dest: numel_InrD)

subsection \<open>Broadcasting\<close>

text \<open>\<open>self.0.get(rank.wrapping_sub(1 + offset)).copied().unwrap_or(1)\<close>: the extent at \<open>offset\<close>
  from the right, 1 to the left of the shape (a wrapped index is out of bounds).\<close>

definition extent_from_right :: "shape \<Rightarrow> nat \<Rightarrow> nat" where
  "extent_from_right s offset = (if offset < length s then s ! (length s - (1 + offset)) else 1)"

definition broadcast_with :: "shape \<Rightarrow> shape \<Rightarrow> (tensor_error, shape) result" where
  "broadcast_with self other =
    (let rank = max (length self) (length other)
     in try_map (\<lambda>offset.
          let lhs = extent_from_right self offset; rhs = extent_from_right other offset
          in if lhs \<noteq> rhs \<and> lhs \<noteq> 1 \<and> rhs \<noteq> 1 then Inl (BroadcastMismatch self other)
             else Inr (if lhs = 0 \<or> rhs = 0 then 0 else max lhs rhs))
        (rev [0..<rank]))"

text \<open>The specification on one axis, and right-aligned over whole shapes.\<close>

definition extents_agree :: "nat \<Rightarrow> nat \<Rightarrow> bool" where
  "extents_agree a b \<longleftrightarrow> a = b \<or> a = 1 \<or> b = 1"

definition join_extent :: "nat \<Rightarrow> nat \<Rightarrow> nat" where
  "join_extent a b = (if a = 1 then b else a)"

lemma extents_agree_one [simp]: "extents_agree (Suc 0) b" "extents_agree b (Suc 0)"
  by (simp_all add: extents_agree_def)

lemma extent_beyond: "length s \<le> k \<Longrightarrow> extent_from_right s k = 1"
  by (simp add: extent_from_right_def)

lemma extent_map_rev:
  "extent_from_right (map g (rev [0..<n])) k = (if k < n then g k else 1)"
  by (simp add: extent_from_right_def rev_nth)

lemma shape_eqI:
  assumes "length a = length b" and "\<And>k. extent_from_right a k = extent_from_right b k"
  shows "a = b"
proof (rule nth_equalityI)
  fix i assume i: "i < length a"
  then have "length a - 1 - i < length a" by arith
  with i have "a ! i = extent_from_right a (length a - 1 - i)"
    and "b ! i = extent_from_right b (length a - 1 - i)"
    using assms(1) by (simp_all add: extent_from_right_def)
  with assms(2) show "a ! i = b ! i" by simp
qed (rule assms(1))

text \<open>The loop's result in closed form: every right-aligned pair of extents agrees, and the output
  takes the joined extents.\<close>

lemma broadcast_with_eq:
  "broadcast_with a b =
    (if \<forall>k. extents_agree (extent_from_right a k) (extent_from_right b k)
     then Inr (map (\<lambda>k. join_extent (extent_from_right a k) (extent_from_right b k))
                 (rev [0..<max (length a) (length b)]))
     else Inl (BroadcastMismatch a b))"
proof -
  let ?bad = "\<lambda>k. \<not> extents_agree (extent_from_right a k) (extent_from_right b k)"
  let ?g = "\<lambda>k. join_extent (extent_from_right a k) (extent_from_right b k)"
  have body: "(let lhs = extent_from_right a k; rhs = extent_from_right b k
      in if lhs \<noteq> rhs \<and> lhs \<noteq> 1 \<and> rhs \<noteq> 1 then Inl (BroadcastMismatch a b)
         else Inr (if lhs = 0 \<or> rhs = 0 then 0 else max lhs rhs)) =
      (if ?bad k then Inl (BroadcastMismatch a b) else Inr (?g k))" for k
    by (auto simp: Let_def extents_agree_def join_extent_def)
  have "?bad k \<Longrightarrow> k < max (length a) (length b)" for k
    using extent_beyond [of a k] extent_beyond [of b k]
    by (cases "length a \<le> k"; cases "length b \<le> k") (auto simp: extents_agree_def)
  then have "(\<exists>k \<in> set (rev [0..<max (length a) (length b)]). ?bad k) \<longleftrightarrow> (\<exists>k. ?bad k)"
    by auto
  then show ?thesis
    unfolding broadcast_with_def body Let_def [of "max (length a) (length b)"] try_map_guard by auto
qed

lemma broadcast_with_all:
  "broadcast_with a b = Inr c \<longleftrightarrow>
     length c = max (length a) (length b) \<and>
     (\<forall>k. extents_agree (extent_from_right a k) (extent_from_right b k) \<and>
        extent_from_right c k = join_extent (extent_from_right a k) (extent_from_right b k))"
    (is "?l \<longleftrightarrow> ?r")
proof
  assume ?l
  then show ?r
    by (auto simp: broadcast_with_eq extent_map_rev extent_beyond join_extent_def split: if_splits)
next
  assume ?r
  then show ?l
    by (auto simp: broadcast_with_eq extent_map_rev extent_beyond join_extent_def intro!: shape_eqI)
qed

lemma broadcast_exists:
  "(\<And>k. extents_agree (extent_from_right a k) (extent_from_right b k)) \<Longrightarrow>
   \<exists>c. broadcast_with a b = Inr c"
  by (simp add: broadcast_with_eq)

lemma join_agree:
  "extents_agree a b \<Longrightarrow> extents_agree (join_extent a b) c \<Longrightarrow>
   extents_agree b c \<and> extents_agree a (join_extent b c) \<and>
   join_extent a (join_extent b c) = join_extent (join_extent a b) c"
  by (auto simp: extents_agree_def join_extent_def)

lemma join_comm: "extents_agree a b \<Longrightarrow> extents_agree b a \<and> join_extent b a = join_extent a b"
  by (auto simp: extents_agree_def join_extent_def)

subsection \<open>Row-major strides\<close>

text \<open>The loop of \<open>contiguous_strides\<close> runs over the axes from the last to the first; its
  multiplication is unchecked, so it wraps modulo \<open>2 ^ 64\<close> (release) where it overflows.\<close>

fun contiguous_strides_loop :: "nat list \<Rightarrow> nat \<Rightarrow> nat list" where
  "contiguous_strides_loop [] stride = []"
| "contiguous_strides_loop (dim # dims) stride =
     stride # contiguous_strides_loop dims ((stride * dim) mod 2 ^ 64)"

definition contiguous_strides :: "shape \<Rightarrow> nat list" where
  "contiguous_strides dims = rev (contiguous_strides_loop (rev dims) 1)"

fun suffix_products :: "nat list \<Rightarrow> nat list" where
  "suffix_products [] = []"
| "suffix_products (d # ds) = prod_list ds # suffix_products ds"

lemma length_suffix_products [simp]: "length (suffix_products ds) = length ds"
  by (induction ds) auto

lemma suffix_products_nth: "i < length ds \<Longrightarrow> suffix_products ds ! i = prod_list (drop (Suc i) ds)"
  by (induction ds arbitrary: i) (auto simp: less_Suc_eq_0_disj)

lemma suffix_products_snoc: "suffix_products (ds @ [d]) = map (\<lambda>s. s * d) (suffix_products ds) @ [1]"
  by (induction ds) auto

lemma contiguous_strides_loop_length [simp]:
  "length (contiguous_strides_loop ds s) = length ds"
  by (induction ds arbitrary: s) auto

lemma length_contiguous_strides [simp]: "length (contiguous_strides ds) = length ds"
  by (simp add: contiguous_strides_def)

lemma contiguous_strides_loop_exact:
  "s * prod_list ds < 2 ^ 64 \<Longrightarrow> 0 \<notin> set ds \<Longrightarrow>
   contiguous_strides_loop ds s = rev (map (\<lambda>p. s * p) (suffix_products (rev ds)))"
proof (induction ds arbitrary: s)
  case (Cons d ds)
  then have pos: "0 < prod_list ds" by (auto simp: prod_list_pos_iff)
  have small: "s * d * prod_list ds < 2 ^ 64" using Cons.prems by (simp add: mult.assoc)
  moreover have "s * d \<le> s * d * prod_list ds" using pos by simp
  ultimately have "(s * d) mod 2 ^ 64 = s * d" by (metis le_less_trans mod_less)
  then show ?case using Cons small
    by (auto simp: suffix_products_snoc mult.assoc mult.left_commute comp_def)
qed simp

text \<open>Where every suffix product fits, the strides are the products of the extents to the right.\<close>

lemma contiguous_strides_exact:
  "prod_list ds \<le> usize_max \<Longrightarrow> 0 \<notin> set ds \<Longrightarrow> contiguous_strides ds = suffix_products ds"
  using contiguous_strides_loop_exact [of 1 "rev ds"]
  by (simp add: contiguous_strides_def usize_max_eq prod_list.rev)

subsection \<open>Coordinates: the reference\<close>

fun ravel :: "nat list \<Rightarrow> nat list \<Rightarrow> nat" where
  "ravel (d # ds) (c # cs) = c * prod_list ds + ravel ds cs"
| "ravel _ _ = 0"

fun unravel :: "nat list \<Rightarrow> nat \<Rightarrow> nat list" where
  "unravel [] n = []"
| "unravel (d # ds) n = ((n div prod_list ds) mod d) # unravel ds n"

definition in_range :: "nat list \<Rightarrow> nat list \<Rightarrow> bool" where
  "in_range ds cs \<longleftrightarrow> list_all2 (\<lambda>d c. c < d) ds cs"

lemma in_range_simps [simp]:
  "in_range [] cs \<longleftrightarrow> cs = []" "in_range (d # ds) (c # cs) \<longleftrightarrow> c < d \<and> in_range ds cs"
  "in_range ds [] \<longleftrightarrow> ds = []"
  by (auto simp: in_range_def)

lemma in_range_length: "in_range ds cs \<Longrightarrow> length cs = length ds"
  by (simp add: in_range_def list_all2_lengthD)

lemma in_range_nth: "in_range ds cs \<longleftrightarrow> length cs = length ds \<and> (\<forall>i < length ds. cs ! i < ds ! i)"
  by (auto simp: in_range_def list_all2_conv_all_nth)

lemma in_range_nonzero: "in_range ds cs \<Longrightarrow> 0 \<notin> set ds"
  by (auto simp: in_range_nth in_set_conv_nth)

lemma length_unravel [simp]: "length (unravel ds n) = length ds"
  by (induction ds) auto

lemma ravel_unravel: "ravel ds (unravel ds n) = n mod prod_list ds"
proof (induction ds)
  case (Cons d ds)
  then show ?case by (simp add: mod_mult2_eq mult.commute [of d] add.commute)
qed simp

lemma unravel_in_range: "0 \<notin> set ds \<Longrightarrow> in_range ds (unravel ds n)"
  by (induction ds) auto

lemma unravel_add_mult: "unravel ds (k * prod_list ds + n) = unravel ds n"
proof (induction ds arbitrary: k n)
  case (Cons d ds)
  show ?case
  proof (cases "prod_list ds = 0")
    case True
    with Cons [of 0 n] show ?thesis by simp
  next
    case False
    have eq: "k * (d * prod_list ds) + n = (k * d) * prod_list ds + n" by simp
    have "(k * (d * prod_list ds) + n) div prod_list ds = k * d + n div prod_list ds"
      unfolding eq by (rule div_mult_self3) (rule False)
    then show ?thesis using Cons [of "k * d" n] by (simp add: eq)
  qed
qed simp

lemma ravel_less: "in_range ds cs \<Longrightarrow> ravel ds cs < prod_list ds"
proof (induction ds cs rule: ravel.induct)
  case (1 d ds c cs)
  then have "ravel ds cs < prod_list ds" "Suc c \<le> d" by auto
  moreover from this have "Suc c * prod_list ds \<le> d * prod_list ds" by (intro mult_right_mono) auto
  ultimately show ?case by simp
qed auto

lemma unravel_ravel: "in_range ds cs \<Longrightarrow> unravel ds (ravel ds cs) = cs"
proof (induction ds cs rule: ravel.induct)
  case (1 d ds c cs)
  then have small: "ravel ds cs < prod_list ds" by (simp add: ravel_less)
  then have "(c * prod_list ds + ravel ds cs) div prod_list ds = c" by simp
  with 1 show ?case by (simp add: unravel_add_mult)
qed auto

lemma unravel_mod: "unravel ds (n mod prod_list ds) = unravel ds n"
  using unravel_add_mult [of ds "n div prod_list ds" "n mod prod_list ds"] by simp

lemma unravel_inject:
  "m < prod_list ds \<Longrightarrow> n < prod_list ds \<Longrightarrow> unravel ds m = unravel ds n \<longleftrightarrow> m = n"
  by (metis ravel_unravel mod_less)

text \<open>Peeling the last axis, the order in which the address loops of the views run.\<close>

lemma unravel_snoc: "unravel (ds @ [d]) n = unravel ds (n div d) @ [n mod d]"
  by (induction ds) (auto simp: div_mult2_eq mult.commute)

lemma ravel_suffix_products:
  "length cs = length ds \<Longrightarrow> ravel ds cs = sum_list (map2 (*) cs (suffix_products ds))"
  by (induction ds cs rule: ravel.induct) auto

subsection \<open>DenseIndex\<close>

record dense_index =
  di_shape :: shape
  di_strides :: "nat list"
  di_len :: nat

text \<open>The strides loop of \<open>DenseIndex::new\<close>, over the axes from the last: a checked
  \<open>contiguous_strides\<close>.\<close>

fun checked_strides_loop :: "shape \<Rightarrow> nat list \<Rightarrow> nat \<Rightarrow> (tensor_error, nat list) result" where
  "checked_strides_loop s [] st = Inr []"
| "checked_strides_loop s (d # ds) st =
     rbind (ok_or (ShapeOverflow s) (checked_mul_u st d)) (\<lambda>st'.
     rbind (checked_strides_loop s ds st') (\<lambda>ss. Inr (st # ss)))"

definition dense_index_new :: "shape \<Rightarrow> (tensor_error, dense_index) result" where
  "dense_index_new s =
     rbind (numel s) (\<lambda>len.
     rbind (checked_strides_loop s (rev s) 1) (\<lambda>ss.
     Inr \<lparr>di_shape = s, di_strides = rev ss, di_len = len\<rparr>))"

definition dense_coords :: "dense_index \<Rightarrow> nat \<Rightarrow> (tensor_error, nat list) result" where
  "dense_coords ix n =
    (if di_len ix \<le> n then Inl InvalidIndex
     else Inr (map (\<lambda>(i, s). (n div s) mod (di_shape ix ! i))
                 (zip [0..<length (di_strides ix)] (di_strides ix))))"

definition dense_offset :: "dense_index \<Rightarrow> nat list \<Rightarrow> (tensor_error, nat) result" where
  "dense_offset ix c =
    (if length c \<noteq> length (di_shape ix) \<or>
        (\<exists>i \<in> set [0..<length c]. di_shape ix ! i \<le> c ! i)
     then Inl InvalidIndex
     else try_fold (\<lambda>off (x, s).
            rbind (ok_or InvalidIndex (checked_mul_u x s)) (\<lambda>p.
            ok_or InvalidIndex (checked_add_u off p))) 0 (zip c (di_strides ix)))"

definition dense_broadcast_offset ::
  "dense_index \<Rightarrow> dense_index \<Rightarrow> nat list \<Rightarrow> (tensor_error, nat) result" where
  "dense_broadcast_offset ix out c =
    (if length c \<noteq> length (di_shape out) \<or> length (di_shape out) < length (di_shape ix)
     then Inl InvalidIndex
     else let p = length (di_shape out) - length (di_shape ix)
          in dense_offset ix
               (map (\<lambda>(i, d). if d = 1 then 0 else c ! (i + p))
                  (zip [0..<length (di_shape ix)] (di_shape ix))))"

lemma checked_strides_loop_Inr:
  "checked_strides_loop s ds st = Inr ss \<Longrightarrow> ss = rev (map (\<lambda>p. st * p) (suffix_products (rev ds)))"
proof (induction ds arbitrary: st ss)
  case (Cons d ds)
  then show ?case
    by (auto simp: result_simps checked_defs suffix_products_snoc mult.assoc mult.left_commute
        comp_def dest!: Cons.IH)
qed simp

lemma dense_index_new_Inr:
  assumes "dense_index_new s = Inr ix"
  shows "di_shape ix = s \<and> di_strides ix = suffix_products s \<and> di_len ix = prod_list s \<and>
         prod_list s \<le> usize_max"
  using assms checked_strides_loop_Inr [of s "rev s" 1]
  by (auto simp: dense_index_new_def result_simps dest!: numel_InrD)

lemma unravel_by_strides:
  "map (\<lambda>(i, s). (n div s) mod (ds ! i)) (zip [0..<length ds] (suffix_products ds)) = unravel ds n"
proof (rule nth_equalityI)
  have "unravel ds n ! i = (n div suffix_products ds ! i) mod (ds ! i)" if "i < length ds" for i
    using that by (induction ds arbitrary: i) (auto simp: less_Suc_eq_0_disj)
  then show "map (\<lambda>(i, s). (n div s) mod (ds ! i)) (zip [0..<length ds] (suffix_products ds)) ! i =
             unravel ds n ! i"
    if "i < length (map (\<lambda>(i, s). (n div s) mod (ds ! i)) (zip [0..<length ds] (suffix_products ds)))"
    for i using that by simp
qed simp

lemma dense_coords_eq:
  "dense_index_new s = Inr ix \<Longrightarrow>
   dense_coords ix n = (if n < prod_list s then Inr (unravel s n) else Inl InvalidIndex)"
  using unravel_by_strides [of n s] by (auto simp: dense_coords_def dest!: dense_index_new_Inr)

lemma offset_fold_ok:
  "acc + ravel ds cs \<le> usize_max \<Longrightarrow> length cs = length ds \<Longrightarrow>
   try_fold (\<lambda>off (x, s). rbind (ok_or InvalidIndex (checked_mul_u x s)) (\<lambda>p.
      ok_or InvalidIndex (checked_add_u off p))) acc (zip cs (suffix_products ds)) =
   Inr (acc + ravel ds cs)"
  by (induction ds cs arbitrary: acc rule: ravel.induct)
     (auto simp: checked_mul_u_def checked_add_u_def checked_u_def)

lemma dense_offset_eq:
  assumes "dense_index_new s = Inr ix"
  shows "dense_offset ix c = (if in_range s c then Inr (ravel s c) else Inl InvalidIndex)"
proof -
  note new = dense_index_new_Inr [OF assms]
  show ?thesis
  proof (cases "in_range s c")
    case True
    then have "ravel s c \<le> usize_max" using new ravel_less [of s c] by simp
    then show ?thesis using True new offset_fold_ok [of 0 s c]
      by (auto simp: dense_offset_def in_range_nth)
  next
    case False
    then show ?thesis using new by (auto simp: dense_offset_def in_range_nth not_less)
  qed
qed

subsection \<open>Theorems\<close>

text \<open>The element count is the product of the extents; without a zero extent it fails exactly
  when that product leaves \<open>usize\<close>, and it never returns a wrapped value.\<close>

lemma numel_exact:
  "(\<forall>n. numel s = Inr n \<longrightarrow> n = prod_list s \<and> n \<le> usize_max) \<and>
   (0 \<notin> set s \<longrightarrow> (is_ok (numel s) \<longleftrightarrow> prod_list s \<le> usize_max))"
proof -
  have "0 \<notin> set s \<Longrightarrow> is_ok (numel s) \<longleftrightarrow> prod_list s \<le> usize_max" by (simp add: numel_iff)
  then show ?thesis using numel_InrD by blast
qed

theorem numel_exact_witness: "is_ok (numel [3, 4]) \<and> \<not> is_ok (numel [2 ^ 40, 2 ^ 40])"
  using numel_exact [of "[3, 4]"] numel_exact [of "[2 ^ 40, 2 ^ 40]"] by (simp add: usize_max_eq)

text \<open>A zero extent does not save an overflowing prefix: the product is checked from the left.\<close>

lemma numel_zero_order:
  "\<not> is_ok (numel [2 ^ 40, 2 ^ 40, 0])" "numel [0, 2 ^ 40, 2 ^ 40] = Inr 0"
  by (simp_all add: numel_def checked_mul_u_def checked_u_def usize_max_eq)

text \<open>Broadcasting is commutative and associative: the three operands can be joined in either
  order with the same result.\<close>

lemma broadcast_assoc_comm:
  assumes "broadcast_with a b = Inr ab" and "broadcast_with ab c = Inr abc"
  shows "broadcast_with b a = Inr ab \<and>
    (\<exists>bc. broadcast_with b c = Inr bc \<and> broadcast_with a bc = Inr abc)"
proof -
  let ?e = extent_from_right
  from assms have ab: "length ab = max (length a) (length b)"
      "\<And>k. extents_agree (?e a k) (?e b k) \<and> ?e ab k = join_extent (?e a k) (?e b k)"
    and abc: "length abc = max (length ab) (length c)"
      "\<And>k. extents_agree (?e ab k) (?e c k) \<and> ?e abc k = join_extent (?e ab k) (?e c k)"
    by (auto simp: broadcast_with_all)
  note join = join_agree [of "?e a k" "?e b k" "?e c k" for k]
  have bc: "\<exists>bc. broadcast_with b c = Inr bc"
    by (rule broadcast_exists) (use ab(2) abc(2) join in fastforce)
  then obtain bc where bc: "broadcast_with b c = Inr bc" by blast
  then have bc': "length bc = max (length b) (length c)"
      "\<And>k. ?e bc k = join_extent (?e b k) (?e c k)"
    by (auto simp: broadcast_with_all)
  have "broadcast_with a bc = Inr abc"
    unfolding broadcast_with_all using ab abc bc' join by fastforce
  moreover have "broadcast_with b a = Inr ab"
    unfolding broadcast_with_all using ab join_comm by (metis max.commute)
  ultimately show ?thesis using bc by blast
qed

theorem broadcast_assoc_comm_witness:
  "broadcast_with [3] [2, 1] = Inr [2, 3] \<and>
   (\<exists>bc. broadcast_with [3] [1, 1, 1] = Inr bc \<and> broadcast_with [2, 1] bc = Inr [1, 2, 3])"
  by (rule broadcast_assoc_comm)
     (simp_all add: broadcast_with_def extent_from_right_def upt_rec Let_def)

text \<open>The dense index: a linear index below the length and coordinates inside the shape are in
  bijection, every other argument is refused, and no checked product overflows on the way.\<close>

lemma dense_index_bijection:
  assumes "dense_index_new s = Inr ix"
  shows "(\<forall>n < di_len ix. \<exists>cs. dense_coords ix n = Inr cs \<and> dense_offset ix cs = Inr n) \<and>
    (\<forall>cs. in_range s cs \<longrightarrow> (\<exists>n < di_len ix. dense_offset ix cs = Inr n \<and> dense_coords ix n = Inr cs)) \<and>
    (\<forall>cs. \<not> in_range s cs \<longrightarrow> dense_offset ix cs = Inl InvalidIndex) \<and>
    (\<forall>n \<ge> di_len ix. dense_coords ix n = Inl InvalidIndex)"
proof -
  have len: "di_len ix = prod_list s" using dense_index_new_Inr [OF assms] by simp
  note eqs = dense_coords_eq [OF assms] dense_offset_eq [OF assms]
  have forth: "\<exists>cs. dense_coords ix n = Inr cs \<and> dense_offset ix cs = Inr n" if "n < prod_list s" for n
  proof -
    have "0 \<notin> set s" using that prod_list_pos_iff [of s] by simp
    then show ?thesis using that by (simp add: eqs unravel_in_range ravel_unravel)
  qed
  have converse: "\<exists>n < prod_list s. dense_offset ix cs = Inr n \<and> dense_coords ix n = Inr cs"
    if "in_range s cs" for cs
    using that ravel_less [OF that] unravel_ravel [OF that] by (simp add: eqs)
  have "dense_offset ix cs = Inl InvalidIndex" if "\<not> in_range s cs" for cs using that by (simp add: eqs)
  moreover have "dense_coords ix n = Inl InvalidIndex" if "prod_list s \<le> n" for n
    using that by (simp add: eqs)
  ultimately show ?thesis unfolding len using forth converse by blast
qed

theorem dense_index_bijection_witness:
  "\<exists>n. dense_offset \<lparr>di_shape = [2, 3], di_strides = [3, 1], di_len = 6\<rparr> [1, 2] = Inr n \<and>
     dense_coords \<lparr>di_shape = [2, 3], di_strides = [3, 1], di_len = 6\<rparr> n = Inr [1, 2]"
proof -
  have "dense_index_new [2, 3] = Inr \<lparr>di_shape = [2, 3], di_strides = [3, 1], di_len = 6\<rparr>"
    by (simp add: dense_index_new_def numel_def checked_mul_u_def checked_u_def usize_max_eq)
  moreover have "in_range [2, 3] [1, 2]" by simp
  ultimately show ?thesis using dense_index_bijection by blast
qed

end
