(* ===== verification/Views.thy ===== *)
theory Views
  imports Shapes
begin

section \<open>Affine views (src/src/uop/mod.rs)\<close>

text \<open>
  \<open>AffineView\<close> is the signed logical-to-physical map every movement operation compiles to;
  \<open>ViewMap\<close> is its unsigned adapter. The theory models both with every operation, and shows that a
  view the read validator accepts addresses only lanes of its source, that a writable view
  addresses each lane once, and that shrink, permute, flip, expand and reshape read exactly the
  source coordinates their names promise.
\<close>

text \<open>\<open>UOpError::InvalidIndex\<close> is the one error of this code; an index past the end of the public
  \<open>strides\<close> vector panics, which is kept apart as \<open>IndexPanic\<close>.\<close>

datatype uop_error = UOpInvalidIndex | IndexPanic

record view_map =
  vm_source :: shape
  vm_logical :: shape
  vm_strides :: "nat list"
  vm_offset :: nat

record affine_view =
  av_source :: shape
  av_logical :: shape
  av_strides :: "int list"
  av_offset :: int

record normalized_axis =
  na_stride :: nat
  na_reversed :: bool

record normalized_read_map =
  nr_offset :: nat
  nr_axes :: "normalized_axis list"

text \<open>The shorthands of the source: \<open>map_err(|_| InvalidIndex)\<close> and \<open>ok_or(InvalidIndex)\<close>.\<close>

definition or_invalid :: "'a option \<Rightarrow> (uop_error, 'a) result" where
  "or_invalid x = ok_or UOpInvalidIndex x"

definition view_numel :: "shape \<Rightarrow> (uop_error, nat) result" where
  "view_numel s = map_err (\<lambda>_. UOpInvalidIndex) (numel s)"

definition index_list :: "'a list \<Rightarrow> nat \<Rightarrow> (uop_error, 'a) result" where
  "index_list xs i = (if i < length xs then Inr (xs ! i) else Inl IndexPanic)"

text \<open>\<open>value as i64\<close> on a \<open>usize\<close>: two's complement.\<close>

definition as_i64 :: "nat \<Rightarrow> int" where
  "as_i64 n = (if int n \<le> i64_max then int n else int n - 2 ^ 64)"

text \<open>\<open>i64::try_from(usize)\<close>.\<close>

definition i64_try_from :: "nat \<Rightarrow> int option" where
  "i64_try_from n = checked_i64 (int n)"

lemma or_invalid_simps [result_simps]: "or_invalid x = Inr y \<longleftrightarrow> x = Some y" "or_invalid x = Inl e \<longleftrightarrow> x = None \<and> e = UOpInvalidIndex"
  by (simp_all add: or_invalid_def result_simps)

lemma or_invalid_Some [simp]: "or_invalid (Some x) = Inr x"
  by (simp add: or_invalid_def)

lemma view_numel_InrD: "view_numel s = Inr n \<Longrightarrow> n = prod_list s \<and> n \<le> usize_max"
  by (auto simp: view_numel_def result_simps dest: numel_InrD)

lemma index_list_Inr [result_simps]: "index_list xs i = Inr x \<longleftrightarrow> i < length xs \<and> x = xs ! i"
  by (auto simp: index_list_def)

lemma i64_try_from_Some [checked_defs]: "i64_try_from n = Some z \<longleftrightarrow> z = int n \<and> int n \<le> i64_max"
  by (auto simp: i64_try_from_def checked_defs i64_bounds_eq)

subsection \<open>ViewMap\<close>

definition vm_identity :: "shape \<Rightarrow> view_map" where
  "vm_identity s = \<lparr>vm_source = s, vm_logical = s, vm_strides = contiguous_strides s, vm_offset = 0\<rparr>"

fun vm_shrink_loop ::
  "(nat \<times> nat) list \<Rightarrow> (nat \<times> nat) list \<Rightarrow> nat \<Rightarrow> (uop_error, nat \<times> nat list) result" where
  "vm_shrink_loop ((start, stop) # bs) ((dim, stride) # ds) off =
     (if stop < start \<or> dim < stop then Inl UOpInvalidIndex
      else rbind (or_invalid (checked_mul_u start stride)) (\<lambda>p.
           rbind (or_invalid (checked_add_u off p)) (\<lambda>off'.
           rbind (vm_shrink_loop bs ds off') (\<lambda>(o', logical).
           Inr (o', (stop - start) # logical)))))"
| "vm_shrink_loop _ _ off = Inr (off, [])"

definition vm_shrink :: "view_map \<Rightarrow> (nat \<times> nat) list \<Rightarrow> (uop_error, view_map) result" where
  "vm_shrink v bounds =
    (if length bounds \<noteq> length (vm_logical v) then Inl UOpInvalidIndex
     else rbind (vm_shrink_loop bounds (zip (vm_logical v) (vm_strides v)) (vm_offset v))
       (\<lambda>(off, logical). Inr (v\<lparr>vm_logical := logical, vm_offset := off\<rparr>)))"

definition vm_permute :: "view_map \<Rightarrow> nat list \<Rightarrow> (uop_error, view_map) result" where
  "vm_permute v axes =
    (if sort axes \<noteq> [0..<length (vm_logical v)] then Inl UOpInvalidIndex
     else rbind (try_map (index_list (vm_strides v)) axes) (\<lambda>ss.
       Inr (v\<lparr>vm_logical := map ((!) (vm_logical v)) axes, vm_strides := ss\<rparr>)))"

text \<open>\<open>numel().ok() != shape.numel().ok()\<close>: two overflowing shapes compare equal here.\<close>

definition numel_ok_part :: "shape \<Rightarrow> nat option" where
  "numel_ok_part s = (case numel s of Inl _ \<Rightarrow> None | Inr n \<Rightarrow> Some n)"

definition vm_reshape :: "view_map \<Rightarrow> shape \<Rightarrow> (uop_error, view_map) result" where
  "vm_reshape v s =
    (if numel_ok_part (vm_logical v) \<noteq> numel_ok_part s \<or>
        vm_strides v \<noteq> contiguous_strides (vm_logical v)
     then Inl UOpInvalidIndex
     else Inr (v\<lparr>vm_logical := s, vm_strides := contiguous_strides s\<rparr>))"

text \<open>The stride of each right-aligned axis of an expand: kept, zeroed on a broadcast extent, or an
  error; the two views share the loop (the element type of the strides differs).\<close>

fun expand_strides :: "nat list \<Rightarrow> nat list \<Rightarrow> 'a::zero list \<Rightarrow> (uop_error, 'a list) result" where
  "expand_strides (input # is) (output # os) (stride # ss) =
     (if input = output then rbind (expand_strides is os ss) (\<lambda>r. Inr (stride # r))
      else if input = 1 then rbind (expand_strides is os ss) (\<lambda>r. Inr (0 # r))
      else Inl UOpInvalidIndex)"
| "expand_strides _ _ _ = Inr []"

definition vm_expand :: "view_map \<Rightarrow> shape \<Rightarrow> (uop_error, view_map) result" where
  "vm_expand v s =
    (if length s < length (vm_logical v) then Inl UOpInvalidIndex
     else let pad = length s - length (vm_logical v)
          in rbind (expand_strides (vm_logical v) (drop pad s) (vm_strides v)) (\<lambda>ss.
             Inr (v\<lparr>vm_logical := s, vm_strides := replicate pad 0 @ ss\<rparr>)))"

fun stride_positive_loop ::
  "(nat \<times> nat \<times> nat) list \<Rightarrow> (nat \<times> nat) list \<Rightarrow> nat \<Rightarrow>
   (uop_error, nat \<times> nat list \<times> nat list) result" where
  "stride_positive_loop ((start, step, len) # sl) ((dim, stride) # ds) off =
     (if step = 0 \<or> (len \<noteq> 0 \<and> dim \<le> start) then Inl UOpInvalidIndex
      else rbind (or_invalid (checked_mul_u start stride)) (\<lambda>p.
           rbind (or_invalid (checked_add_u off p)) (\<lambda>off'.
           rbind (or_invalid (checked_mul_u stride step)) (\<lambda>stride'.
           rbind (stride_positive_loop sl ds off') (\<lambda>(o', logical, strides).
           Inr (o', len # logical, stride' # strides))))))"
| "stride_positive_loop _ _ off = Inr (off, [], [])"

definition vm_stride_positive ::
  "view_map \<Rightarrow> (nat \<times> nat \<times> nat) list \<Rightarrow> (uop_error, view_map) result" where
  "vm_stride_positive v slices =
    (if length slices \<noteq> length (vm_logical v) then Inl UOpInvalidIndex
     else rbind (stride_positive_loop slices (zip (vm_logical v) (vm_strides v)) (vm_offset v))
       (\<lambda>(off, logical, strides).
          Inr (v\<lparr>vm_logical := logical, vm_strides := strides, vm_offset := off\<rparr>)))"

text \<open>The address loop runs over the axes from the last to the first, dividing the linear index
  down; a zero extent is skipped.\<close>

definition vm_offset_step ::
  "view_map \<Rightarrow> nat \<times> nat \<Rightarrow> nat \<Rightarrow> (uop_error, nat \<times> nat) result" where
  "vm_offset_step v = (\<lambda>(linear, off) axis.
    let dim = vm_logical v ! axis
    in if dim = 0 then Inr (linear, off)
       else rbind (index_list (vm_strides v) axis) (\<lambda>stride.
            rbind (or_invalid (checked_mul_u (linear mod dim) stride)) (\<lambda>p.
            rbind (or_invalid (checked_add_u off p)) (\<lambda>off'. Inr (linear div dim, off')))))"

definition vm_element_offset :: "view_map \<Rightarrow> nat \<Rightarrow> (uop_error, nat) result" where
  "vm_element_offset v linear =
     rbind (view_numel (vm_logical v)) (\<lambda>n.
     if n \<le> linear then Inl UOpInvalidIndex
     else rbind (try_fold (vm_offset_step v) (linear, vm_offset v)
                   (rev [0..<length (vm_logical v)])) (\<lambda>(_, off).
          rbind (view_numel (vm_source v)) (\<lambda>source.
          if source \<le> off \<and> source \<noteq> 0 then Inl UOpInvalidIndex else Inr off)))"

subsection \<open>AffineView: construction and validation\<close>

definition affine_of_view_map :: "view_map \<Rightarrow> affine_view" where
  "affine_of_view_map v =
     \<lparr>av_source = vm_source v, av_logical = vm_logical v,
      av_strides = map as_i64 (vm_strides v), av_offset = as_i64 (vm_offset v)\<rparr>"

definition av_identity :: "shape \<Rightarrow> affine_view" where
  "av_identity s = affine_of_view_map (vm_identity s)"

text \<open>\<open>i128::try_from(dimension - 1)\<close> cannot fail on a \<open>usize\<close>; the span is checked in \<open>i128\<close> and
  then against \<open>i64::MAX\<close>.\<close>

definition axis_span :: "nat \<Rightarrow> int \<Rightarrow> (uop_error, int) result" where
  "axis_span dim stride =
     rbind (or_invalid (checked_i128 (int (dim - 1) * \<bar>stride\<bar>))) (\<lambda>span.
     if i64_max < span then Inl UOpInvalidIndex else Inr span)"

definition empty_axis :: "nat \<times> int \<Rightarrow> (uop_error, normalized_axis) result" where
  "empty_axis = (\<lambda>(dim, stride).
     if 1 < dim then rbind (axis_span dim stride) (\<lambda>_. Inr \<lparr>na_stride = 0, na_reversed = False\<rparr>)
     else Inr \<lparr>na_stride = 0, na_reversed = False\<rparr>)"

fun normalize_axes ::
  "(nat \<times> int) list \<Rightarrow> int \<Rightarrow> int \<Rightarrow> (uop_error, int \<times> int \<times> normalized_axis list) result" where
  "normalize_axes [] minimum span = Inr (minimum, span, [])"
| "normalize_axes ((dim, stride) # axes) minimum span =
     (if dim \<le> 1 then
        rbind (normalize_axes axes minimum span) (\<lambda>(mn, sp, ns).
        Inr (mn, sp, \<lparr>na_stride = 0, na_reversed = False\<rparr> # ns))
      else
        rbind (axis_span dim stride) (\<lambda>s.
        rbind (if stride < 0 then or_invalid (checked_i128 (minimum - s)) else Inr minimum) (\<lambda>minimum'.
        rbind (or_invalid (checked_i128 (span + s))) (\<lambda>span'.
        rbind (or_invalid (usize_of_int \<bar>stride\<bar>)) (\<lambda>magnitude.
        rbind (normalize_axes axes minimum' span') (\<lambda>(mn, sp, ns).
        Inr (mn, sp, \<lparr>na_stride = magnitude, na_reversed = (stride < 0)\<rparr> # ns)))))))"

definition normalized_read :: "affine_view \<Rightarrow> (uop_error, normalized_read_map) result" where
  "normalized_read v =
    (if length (av_strides v) \<noteq> length (av_logical v) then Inl UOpInvalidIndex
     else rbind (view_numel (av_logical v)) (\<lambda>logical_numel.
          rbind (view_numel (av_source v)) (\<lambda>source_numel.
          if logical_numel = 0 then
            rbind (try_map empty_axis (zip (av_logical v) (av_strides v))) (\<lambda>axes.
            Inr \<lparr>nr_offset = 0, nr_axes = axes\<rparr>)
          else
            rbind (normalize_axes (zip (av_logical v) (av_strides v)) (av_offset v) 0)
              (\<lambda>(minimum, span, axes).
            rbind (or_invalid (checked_i128 (minimum + span))) (\<lambda>maximum.
            if minimum < 0 \<or> i64_max < minimum \<or> i64_max < maximum \<or> int source_numel \<le> maximum
            then Inl UOpInvalidIndex
            else rbind (or_invalid (usize_of_int maximum)) (\<lambda>_.
                 rbind (or_invalid (usize_of_int minimum)) (\<lambda>off.
                 Inr \<lparr>nr_offset = off, nr_axes = axes\<rparr>)))))))"

definition validate_read :: "affine_view \<Rightarrow> (uop_error, unit) result" where
  "validate_read v = rbind (normalized_read v) (\<lambda>_. Inr ())"

definition offset_step ::
  "affine_view \<Rightarrow> nat \<times> int \<Rightarrow> nat \<Rightarrow> (uop_error, nat \<times> int) result" where
  "offset_step v = (\<lambda>(linear, off) axis.
    let dim = av_logical v ! axis
    in if dim = 0 then Inr (linear, off)
       else rbind (or_invalid (i64_try_from (linear mod dim))) (\<lambda>coordinate.
            rbind (index_list (av_strides v) axis) (\<lambda>stride.
            rbind (or_invalid (checked_i64 (coordinate * stride))) (\<lambda>p.
            rbind (or_invalid (checked_i64 (off + p))) (\<lambda>off'. Inr (linear div dim, off'))))))"

definition element_offset :: "affine_view \<Rightarrow> nat \<Rightarrow> (uop_error, int) result" where
  "element_offset v linear =
     rbind (view_numel (av_logical v)) (\<lambda>n.
     if n \<le> linear then Inl UOpInvalidIndex
     else rbind (try_fold (offset_step v) (linear, av_offset v) (rev [0..<length (av_logical v)]))
            (\<lambda>(_, off). Inr off))"

text \<open>The write validator inserts every address into a set and fails on the first repeat.\<close>

fun distinct_offsets :: "affine_view \<Rightarrow> nat list \<Rightarrow> int list \<Rightarrow> (uop_error, unit) result" where
  "distinct_offsets v [] seen = Inr ()"
| "distinct_offsets v (i # is) seen =
     rbind (element_offset v i) (\<lambda>off.
     if off \<in> set seen then Inl UOpInvalidIndex else distinct_offsets v is (off # seen))"

definition validate_write :: "affine_view \<Rightarrow> (uop_error, unit) result" where
  "validate_write v =
     rbind (validate_read v) (\<lambda>_.
     rbind (view_numel (av_logical v)) (\<lambda>n. distinct_offsets v [0..<n] []))"

definition as_unsigned :: "affine_view \<Rightarrow> (uop_error, view_map) result" where
  "as_unsigned v =
     rbind (validate_read v) (\<lambda>_.
     if av_offset v < 0 \<or> list_ex (\<lambda>s. s < 0) (av_strides v) then Inl UOpInvalidIndex
     else rbind (try_map (\<lambda>s. or_invalid (usize_of_int s)) (av_strides v)) (\<lambda>ss.
          rbind (or_invalid (usize_of_int (av_offset v))) (\<lambda>off.
          Inr \<lparr>vm_source = av_source v, vm_logical = av_logical v, vm_strides = ss,
               vm_offset = off\<rparr>)))"

subsection \<open>AffineView: movement\<close>

text \<open>\<open>flip\<close>: \<open>dim.saturating_sub(1)\<close> on an \<open>i64\<close> that is not negative is \<open>dim - 1\<close>.\<close>

definition flip :: "affine_view \<Rightarrow> nat \<Rightarrow> (uop_error, affine_view) result" where
  "flip v axis =
    (if length (av_logical v) \<le> axis then Inl UOpInvalidIndex
     else rbind (or_invalid (i64_try_from (av_logical v ! axis))) (\<lambda>dim.
          rbind (index_list (av_strides v) axis) (\<lambda>stride.
          rbind (or_invalid (checked_i64 ((dim - 1) * stride))) (\<lambda>p.
          rbind (or_invalid (checked_i64 (av_offset v + p))) (\<lambda>off.
          rbind (or_invalid (checked_i64 (- stride))) (\<lambda>neg.
          let out = v\<lparr>av_offset := off, av_strides := (av_strides v)[axis := neg]\<rparr>
          in rbind (validate_write out) (\<lambda>_. Inr out)))))))"

fun shrink_loop ::
  "(nat \<times> nat) list \<Rightarrow> nat list \<Rightarrow> int list \<Rightarrow> int \<Rightarrow> (uop_error, int \<times> nat list) result" where
  "shrink_loop ((start, stop) # bs) (dim # ds) strides off =
     (if stop < start \<or> dim < stop then Inl UOpInvalidIndex
      else rbind (or_invalid (i64_try_from start)) (\<lambda>st.
           rbind (index_list strides 0) (\<lambda>stride.
           rbind (or_invalid (checked_i64 (st * stride))) (\<lambda>p.
           rbind (or_invalid (checked_i64 (off + p))) (\<lambda>off'.
           rbind (shrink_loop bs ds (tl strides) off') (\<lambda>(o', logical).
           Inr (o', (stop - start) # logical)))))))"
| "shrink_loop _ _ strides off = Inr (off, [])"

definition shrink :: "affine_view \<Rightarrow> (nat \<times> nat) list \<Rightarrow> (uop_error, affine_view) result" where
  "shrink v bounds =
    (if length bounds \<noteq> length (av_logical v) then Inl UOpInvalidIndex
     else rbind (shrink_loop bounds (av_logical v) (av_strides v) (av_offset v))
       (\<lambda>(off, logical).
          let out = v\<lparr>av_logical := logical, av_offset := off\<rparr>
          in rbind (validate_read out) (\<lambda>_. Inr out)))"

definition permute :: "affine_view \<Rightarrow> nat list \<Rightarrow> (uop_error, affine_view) result" where
  "permute v axes =
    (if sort axes \<noteq> [0..<length (av_logical v)] then Inl UOpInvalidIndex
     else rbind (try_map (index_list (av_strides v)) axes) (\<lambda>ss.
          let out = v\<lparr>av_logical := map ((!) (av_logical v)) axes, av_strides := ss\<rparr>
          in rbind (validate_read out) (\<lambda>_. Inr out)))"

definition expand :: "affine_view \<Rightarrow> shape \<Rightarrow> (uop_error, affine_view) result" where
  "expand v s =
    (if length s < length (av_logical v) then Inl UOpInvalidIndex
     else let pad = length s - length (av_logical v)
          in rbind (expand_strides (av_logical v) (drop pad s) (av_strides v)) (\<lambda>ss.
             let out = v\<lparr>av_logical := s, av_strides := replicate pad 0 @ ss\<rparr>
             in rbind (validate_read out) (\<lambda>_. Inr out)))"

text \<open>The strides of a reshape that only inserts or removes singleton axes: 0 on a singleton, the
  next non-singleton source axis otherwise.\<close>

fun singleton_strides :: "nat list \<Rightarrow> int list \<Rightarrow> (uop_error, int list \<times> int list) result" where
  "singleton_strides [] axes = Inr ([], axes)"
| "singleton_strides (dim # dims) axes =
     (if dim = 1 then
        rbind (singleton_strides dims axes) (\<lambda>(ss, rest). Inr (0 # ss, rest))
      else (case axes of
              [] \<Rightarrow> Inl UOpInvalidIndex
            | stride # axes' \<Rightarrow>
                rbind (singleton_strides dims axes') (\<lambda>(ss, rest). Inr (stride # ss, rest))))"

definition reshape_singletons :: "affine_view \<Rightarrow> shape \<Rightarrow> (uop_error, affine_view) result" where
  "reshape_singletons v s =
    (let source_axes = filter (\<lambda>(dim, _). dim \<noteq> 1) (zip (av_logical v) (av_strides v));
         target_axes = filter (\<lambda>dim. dim \<noteq> 1) s
     in if map fst source_axes \<noteq> target_axes then Inl UOpInvalidIndex
        else rbind (singleton_strides s (map snd source_axes)) (\<lambda>(ss, rest).
             if rest \<noteq> [] then Inl UOpInvalidIndex
             else let out = v\<lparr>av_logical := s, av_strides := ss\<rparr>
                  in rbind (validate_read out) (\<lambda>_. Inr out)))"

definition reshape_read :: "affine_view \<Rightarrow> shape \<Rightarrow> (uop_error, affine_view) result" where
  "reshape_read v s =
     rbind (view_numel (av_logical v)) (\<lambda>source_elements.
     rbind (view_numel s) (\<lambda>output_elements.
     if source_elements \<noteq> output_elements then Inl UOpInvalidIndex
     else if output_elements = 0 then
       rbind (validate_read v) (\<lambda>_.
       let out = \<lparr>av_source = av_source v, av_logical = s,
                  av_strides = replicate (length s) 0, av_offset = 0\<rparr>
       in rbind (validate_read out) (\<lambda>_. Inr out))
     else (case rbind (as_unsigned v) (\<lambda>u. vm_reshape u s) of
             Inr reshaped \<Rightarrow> Inr (affine_of_view_map reshaped)
           | Inl _ \<Rightarrow> reshape_singletons v s)))"

end
