(* ===== verification/Indexing.thy ===== *)
theory Indexing
  imports Views Scalars
begin

section \<open>Static indexing (src/src/ir/indexing.rs)\<close>

text \<open>
  The planner of \<open>tensor[...]\<close> on a static shape: Python slices, integers, new axes, one ellipsis and
  advanced integer arrays are normalized into one row-major list of source offsets. \<open>isize\<close> is
  \<open>i64\<close>; \<open>value + dim as isize\<close> is unchecked and wraps.
\<close>

datatype static_index =
    Integer int
  | Slice "int option" "int option" int
  | NewAxis
  | Ellipsis
  | Advanced shape "int list"

datatype source_axis =
    FixedAxis nat
  | SliceAxis "nat list" nat
  | AdvancedAxis shape "nat list"

record index_plan =
  ip_source :: shape
  ip_output :: shape
  ip_offsets :: "nat list"

subsection \<open>One axis\<close>

definition normalize :: "int \<Rightarrow> nat \<Rightarrow> (tensor_error, nat) result" where
  "normalize v dim =
    (let v' = if v < 0 then wrap_signed 64 (v + as_i64 dim) else v
     in rbind (ok_or InvalidIndex (usize_of_int v')) (\<lambda>n.
        if dim \<le> n then Inl InvalidIndex else Inr n))"

definition clamp :: "int \<Rightarrow> int \<Rightarrow> int \<Rightarrow> int" where
  "clamp v low high = (if v < low then low else if high < v then high else v)"

text \<open>The \<open>while\<close> of \<open>slice_indices\<close>; a zero step never reaches it.\<close>

function slice_loop :: "int \<Rightarrow> int \<Rightarrow> int \<Rightarrow> (tensor_error, nat list) result" where
  "slice_loop start stop step =
    (if step \<noteq> 0 \<and> (if 0 < step then start < stop else stop < start) then
       rbind (ok_or InvalidIndex (usize_of_int start)) (\<lambda>v.
       rbind (ok_or InvalidIndex (checked_i64 (start + step))) (\<lambda>start'.
       rbind (slice_loop start' stop step) (\<lambda>vs. Inr (v # vs))))
     else Inr [])"
  by auto
termination
  by (relation "measure (\<lambda>(start, stop, step). nat (if 0 < step then stop - start else start - stop))")
     (auto simp: result_simps checked_defs split: if_splits)

declare slice_loop.simps [simp del]

text \<open>The same equation with the loop condition as an argument, so that evaluation stops with it.\<close>

fun slice_more :: "bool \<Rightarrow> int \<Rightarrow> int \<Rightarrow> int \<Rightarrow> (tensor_error, nat list) result" where
  "slice_more True start stop step =
     rbind (ok_or InvalidIndex (usize_of_int start)) (\<lambda>v.
     rbind (ok_or InvalidIndex (checked_i64 (start + step))) (\<lambda>start'.
     rbind (slice_loop start' stop step) (\<lambda>vs. Inr (v # vs))))"
| "slice_more False start stop step = Inr []"

lemma slice_more_if:
  "slice_more go start stop step =
    (if go then
       rbind (ok_or InvalidIndex (usize_of_int start)) (\<lambda>v.
       rbind (ok_or InvalidIndex (checked_i64 (start + step))) (\<lambda>start'.
       rbind (slice_loop start' stop step) (\<lambda>vs. Inr (v # vs))))
     else Inr [])"
  by (cases go) simp_all

lemma slice_loop_code [code]:
  "slice_loop start stop step =
     slice_more (step \<noteq> 0 \<and> (if 0 < step then start < stop else stop < start)) start stop step"
  by (simp only: slice_loop.simps [of start stop step] slice_more_if)

text \<open>The normalized bounds of a slice on an axis of \<open>dim\<close> lanes.\<close>

definition slice_bounds :: "int \<Rightarrow> int option \<Rightarrow> int option \<Rightarrow> int \<Rightarrow> int \<times> int" where
  "slice_bounds dim start stop step =
    (let wrap = (\<lambda>v. if v < 0 then v + dim else v)
     in if 0 < step then
          (clamp (case start of None \<Rightarrow> 0 | Some v \<Rightarrow> wrap v) 0 dim,
           clamp (case stop of None \<Rightarrow> dim | Some v \<Rightarrow> wrap v) 0 dim)
        else
          (clamp (case start of None \<Rightarrow> dim - 1 | Some v \<Rightarrow> wrap v) (- 1) (dim - 1),
           clamp (case stop of None \<Rightarrow> - 1 | Some v \<Rightarrow> wrap v) (- 1) (dim - 1)))"

definition slice_indices ::
  "nat \<Rightarrow> int option \<Rightarrow> int option \<Rightarrow> int \<Rightarrow> (tensor_error, nat list) result" where
  "slice_indices dim start stop step =
    (if step = 0 then Inl InvalidIndex
     else rbind (ok_or InvalidIndex (i64_try_from dim)) (\<lambda>d.
          let (a, b) = slice_bounds d start stop step in slice_loop a b step))"

subsection \<open>Broadcast of the advanced indices\<close>

text \<open>Both loops run from the right: the arguments are the reversed shapes.\<close>

fun broadcast_into :: "nat list \<Rightarrow> nat list \<Rightarrow> (tensor_error, nat list) result" where
  "broadcast_into (destination # ds) (source # ss) =
     rbind (if destination = source \<or> source = 1 then Inr destination
            else if destination = 1 then Inr source else Inl InvalidIndex) (\<lambda>d.
     rbind (broadcast_into ds ss) (\<lambda>rest. Inr (d # rest)))"
| "broadcast_into ds _ = Inr ds"

definition broadcast_shapes :: "shape list \<Rightarrow> (tensor_error, shape) result" where
  "broadcast_shapes shapes =
    (let rank = fold max (map length shapes) 0
     in rbind (try_fold (\<lambda>dims s. broadcast_into dims (rev s)) (replicate rank 1) shapes)
          (\<lambda>dims. Inr (rev dims)))"

definition broadcasted_offset :: "shape \<Rightarrow> shape \<Rightarrow> nat list \<Rightarrow> (tensor_error, nat) result" where
  "broadcasted_offset s out coords =
    (if length out < length s \<or> length coords \<noteq> length out then Inl InvalidIndex
     else let leading = length out - length s
          in try_fold (\<lambda>off (axis, dim).
               let coordinate = if dim = 1 then 0 else coords ! (leading + axis)
               in if dim \<le> coordinate then Inl InvalidIndex
                  else rbind (ok_or InvalidIndex (checked_mul_u off dim)) (\<lambda>p.
                       ok_or InvalidIndex (checked_add_u p coordinate)))
             0 (zip [0..<length s] s))"

subsection \<open>The plan\<close>

definition full_slice :: static_index where
  "full_slice = Slice None None 1"

definition consumes :: "static_index \<Rightarrow> bool" where
  "consumes spec = (case spec of NewAxis \<Rightarrow> False | Ellipsis \<Rightarrow> False | _ \<Rightarrow> True)"

text \<open>The ellipsis becomes the missing full slices; without one they are appended.\<close>

definition expand_specs :: "nat \<Rightarrow> static_index list \<Rightarrow> static_index list" where
  "expand_specs missing specs =
    concat (map (\<lambda>spec. if spec = Ellipsis then replicate missing full_slice else [spec]) specs) @
    (if Ellipsis \<in> set specs then [] else replicate missing full_slice)"

record index_state =
  is_source_axis :: nat
  is_axes :: "source_axis list"
  is_positions :: "nat list"
  is_shapes :: "shape list"
  is_basic :: "nat list"
  is_x_dim :: nat

definition index_start :: index_state where
  "index_start = \<lparr>is_source_axis = 0, is_axes = [], is_positions = [], is_shapes = [], is_basic = [],
     is_x_dim = 0\<rparr>"

definition index_step ::
  "shape \<Rightarrow> index_state \<Rightarrow> static_index \<Rightarrow> (tensor_error, index_state) result" where
  "index_step source st spec =
    (case spec of
       NewAxis \<Rightarrow> Inr (st\<lparr>is_basic := is_basic st @ [1], is_x_dim := is_x_dim st + 1\<rparr>)
     | Integer v \<Rightarrow>
         rbind (normalize v (source ! is_source_axis st)) (\<lambda>n.
         Inr (st\<lparr>is_axes := is_axes st @ [FixedAxis n], is_source_axis := is_source_axis st + 1\<rparr>))
     | Slice start stop step \<Rightarrow>
         rbind (slice_indices (source ! is_source_axis st) start stop step) (\<lambda>vs.
         Inr (st\<lparr>is_axes := is_axes st @ [SliceAxis vs (length (is_basic st))],
                 is_basic := is_basic st @ [length vs],
                 is_source_axis := is_source_axis st + 1, is_x_dim := is_x_dim st + 1\<rparr>))
     | Advanced s vs \<Rightarrow>
         rbind (numel s) (\<lambda>n.
         if length vs \<noteq> n then Inl InvalidIndex
         else rbind (try_map (\<lambda>v. normalize v (source ! is_source_axis st)) vs) (\<lambda>ns.
              Inr (st\<lparr>is_axes := is_axes st @ [AdvancedAxis s ns],
                      is_positions := is_positions st @ [is_x_dim st],
                      is_shapes := is_shapes st @ [s],
                      is_source_axis := is_source_axis st + 1, is_x_dim := is_x_dim st + 1\<rparr>)))
     | Ellipsis \<Rightarrow> Inr st)"

definition consecutive :: "nat list \<Rightarrow> bool" where
  "consecutive ps = list_all (\<lambda>(a, b). b = a + 1) (zip ps (tl ps))"

definition moves_front :: "nat list \<Rightarrow> bool" where
  "moves_front ps \<longleftrightarrow> 1 < length ps \<and> \<not> consecutive ps \<and> (case ps of [] \<Rightarrow> False | p # _ \<Rightarrow> p \<noteq> 0)"

definition pre_basics :: "nat list \<Rightarrow> nat list \<Rightarrow> nat" where
  "pre_basics ps basic = (case ps of [] \<Rightarrow> length basic | first # _ \<Rightarrow> first - length (filter (\<lambda>p. p < first) ps))"

definition basic_output :: "bool \<Rightarrow> nat \<Rightarrow> nat \<Rightarrow> nat \<Rightarrow> nat" where
  "basic_output front pre rank basic =
    (if front then rank + basic else if basic < pre then basic else pre + rank + (basic - pre))"

text \<open>The coordinate of one source axis at an output coordinate.\<close>

definition axis_coord ::
  "(nat \<Rightarrow> nat) \<Rightarrow> shape \<Rightarrow> nat list \<Rightarrow> nat list \<Rightarrow> source_axis \<Rightarrow> (tensor_error, nat) result" where
  "axis_coord place advanced_shape advanced coords axis =
    (case axis of
       FixedAxis v \<Rightarrow> Inr v
     | SliceAxis vs basic \<Rightarrow>
         (let i = coords ! place basic in if i < length vs then Inr (vs ! i) else Inl InvalidIndex)
     | AdvancedAxis s vs \<Rightarrow>
         rbind (broadcasted_offset s advanced_shape advanced) (\<lambda>i.
         if i < length vs then Inr (vs ! i) else Inl InvalidIndex))"

text \<open>The second half of \<open>StaticIndexPlan::new\<close>: the output shape and the offset of every lane.\<close>

definition index_finish :: "shape \<Rightarrow> index_state \<Rightarrow> (tensor_error, index_plan) result" where
  "index_finish source st =
     rbind (broadcast_shapes (is_shapes st)) (\<lambda>advanced_shape.
     let front = moves_front (is_positions st);
         pre = pre_basics (is_positions st) (is_basic st);
         start = if front then 0 else pre;
         rank = length advanced_shape;
         out = (if front then advanced_shape @ is_basic st
                else take pre (is_basic st) @ advanced_shape @ drop pre (is_basic st))
     in rbind (dense_index_new source) (\<lambda>source_index.
        rbind (dense_index_new out) (\<lambda>output_index.
        rbind (try_map (\<lambda>linear.
            rbind (dense_coords output_index linear) (\<lambda>coords.
            rbind (try_map (axis_coord (basic_output front pre rank) advanced_shape
                             (take rank (drop start coords)) coords) (is_axes st)) (\<lambda>source_coords.
            dense_offset source_index source_coords)))
          [0..<di_len output_index]) (\<lambda>offsets.
        Inr \<lparr>ip_source = source, ip_output = out, ip_offsets = offsets\<rparr>))))"

definition index_plan_new :: "shape \<Rightarrow> static_index list \<Rightarrow> (tensor_error, index_plan) result" where
  "index_plan_new source specs =
    (let consumed = length (filter consumes specs)
     in if length source < consumed \<or> 1 < length (filter (\<lambda>s. s = Ellipsis) specs)
        then Inl InvalidIndex
        else rbind (try_fold (index_step source) index_start (expand_specs (length source - consumed) specs))
               (index_finish source))"

definition index_plan_from_offsets :: "shape \<Rightarrow> shape \<Rightarrow> nat list \<Rightarrow> (tensor_error, index_plan) result" where
  "index_plan_from_offsets source out offsets =
     rbind (numel source) (\<lambda>source_len.
     rbind (numel out) (\<lambda>n.
     if length offsets \<noteq> n \<or> list_ex (\<lambda>off. source_len \<le> off) offsets then Inl InvalidIndex
     else Inr \<lparr>ip_source = source, ip_output = out, ip_offsets = offsets\<rparr>))"

definition source_coords :: "index_plan \<Rightarrow> nat list \<Rightarrow> (tensor_error, nat list) result" where
  "source_coords p out =
    (if length out \<noteq> length (ip_output p) \<or> list_ex (\<lambda>(c, dim). dim \<le> c) (zip out (ip_output p))
     then Inl InvalidIndex
     else rbind (dense_index_new (ip_output p)) (\<lambda>oi.
          rbind (dense_offset oi out) (\<lambda>linear.
          rbind (dense_index_new (ip_source p)) (\<lambda>si.
          rbind (if linear < length (ip_offsets p) then Inr (ip_offsets p ! linear) else Inl InvalidIndex)
            (dense_coords si)))))"

subsection \<open>Windows and diagonals\<close>

text \<open>\<open>normalize_unfold_axis\<close> and \<open>normalize_diagonal_axis\<close> are one function; the axis reported on
  failure is \<open>usize::MAX\<close> for a negative one.\<close>

definition normalize_axis :: "nat \<Rightarrow> int \<Rightarrow> nat \<Rightarrow> (tensor_error, nat) result" where
  "normalize_axis node axis rank =
    (let normalized = (if axis < 0 then checked_i64 (axis + as_i64 rank) else Some axis);
         index = Option.bind normalized usize_of_int
     in case index of
          Some a \<Rightarrow> if a < rank then Inr a
                    else Inl (InvalidAxis node (case usize_of_int axis of None \<Rightarrow> usize_max | Some n \<Rightarrow> n) rank)
        | None \<Rightarrow> Inl (InvalidAxis node (case usize_of_int axis of None \<Rightarrow> usize_max | Some n \<Rightarrow> n) rank))"

definition window_value :: "shape \<Rightarrow> nat \<Rightarrow> nat \<Rightarrow> (tensor_error, int) result" where
  "window_value s start offset =
     rbind (ok_or (ShapeOverflow s) (checked_add_u start offset)) (\<lambda>v.
     ok_or (ShapeOverflow s) (i64_try_from v))"

definition window_values :: "shape \<Rightarrow> nat \<Rightarrow> nat \<Rightarrow> nat \<Rightarrow> (tensor_error, int list) result" where
  "window_values s windows size' step =
     rbind (try_map (\<lambda>window.
         rbind (ok_or (ShapeOverflow s) (checked_mul_u window step)) (\<lambda>start.
         try_map (window_value s start) [0..<size'])) [0..<windows])
       (\<lambda>rows. Inr (concat rows))"

definition unfold_specs ::
  "nat \<Rightarrow> shape \<Rightarrow> int \<Rightarrow> int \<Rightarrow> int \<Rightarrow> (tensor_error, static_index list) result" where
  "unfold_specs node s dim window step =
    (if window < 0 then Inl (InvalidUnfold ''window size must be non-negative'')
     else if step \<le> 0 then Inl (InvalidUnfold ''window step must be positive'')
     else rbind (normalize_axis node dim (length s)) (\<lambda>axis.
          rbind (ok_or (InvalidUnfold ''window size does not fit usize'') (usize_of_int window)) (\<lambda>size'.
          rbind (ok_or (InvalidUnfold ''window step does not fit usize'') (usize_of_int step)) (\<lambda>step'.
          let extent = s ! axis
          in if extent < size' then Inl (InvalidUnfold ''window size exceeds the selected axis'')
             else rbind (ok_or (ShapeOverflow s) (checked_add_u ((extent - size') div step') 1)) (\<lambda>windows.
                  rbind (ok_or (ShapeOverflow s) (checked_mul_u windows size')) (\<lambda>_.
                  rbind (window_values s windows size' step') (\<lambda>vs.
                  Inr (map (\<lambda>current. if current = axis then Advanced [windows, size'] vs else full_slice)
                        [0..<length s]))))))))"

record diagonal_plan =
  dp_permutation :: "nat list"
  dp_specs :: "static_index list"

text \<open>The start of the diagonal: a positive offset moves along the columns, a negative one along the
  rows; \<open>isize::MIN\<close> has no absolute value and counts as \<open>usize::MAX\<close>.\<close>

definition diagonal_start :: "int \<Rightarrow> nat \<times> nat" where
  "diagonal_start offset =
    (if 0 \<le> offset then (0, case usize_of_int offset of None \<Rightarrow> usize_max | Some n \<Rightarrow> n)
     else (case Option.bind (checked_i64 (- offset)) usize_of_int of None \<Rightarrow> usize_max | Some n \<Rightarrow> n, 0))"

definition diagonal_plan_new ::
  "nat \<Rightarrow> shape \<Rightarrow> int \<Rightarrow> int \<Rightarrow> int \<Rightarrow> (tensor_error, diagonal_plan) result" where
  "diagonal_plan_new node s offset d1 d2 =
     rbind (normalize_axis node d1 (length s)) (\<lambda>dim1.
     rbind (normalize_axis node d2 (length s)) (\<lambda>dim2.
     if dim1 = dim2 then Inl (InvalidDiagonal ''diagonal axes must be distinct'')
     else let (row, column) = diagonal_start offset;
              len = min (s ! dim1 - row) (s ! dim2 - column)
          in rbind (try_map (window_value s row) [0..<len]) (\<lambda>rows.
             rbind (try_map (window_value s column) [0..<len]) (\<lambda>columns.
             Inr \<lparr>dp_permutation = filter (\<lambda>a. a \<noteq> dim1 \<and> a \<noteq> dim2) [0..<length s] @ [dim1, dim2],
                  dp_specs = replicate (length s - 2) full_slice @
                    [Advanced [len] rows, Advanced [len] columns]\<rparr>))))"

end
