(* ===== verification/IndexingTheorems.thy ===== *)
theory IndexingTheorems
  imports Indexing
begin

section \<open>Indexing against its reference\<close>

text \<open>
  A slice is the arithmetic progression Python defines, every planned offset lies inside the source
  and the plan replays from its offsets, basic indexing reads the coordinates of the reference
  semantics, and windows and diagonals have the lanes their names promise.
\<close>

subsection \<open>Slices\<close>

text \<open>The number of lanes of \<open>range(a, b, step)\<close>.\<close>

definition slice_count :: "int \<Rightarrow> int \<Rightarrow> int \<Rightarrow> nat" where
  "slice_count a b step =
    (if 0 < step then nat ((b - a + step - 1) div step) else nat ((a - b - step - 1) div (- step)))"

definition progression :: "int \<Rightarrow> int \<Rightarrow> nat \<Rightarrow> nat list" where
  "progression a step n = map (\<lambda>k. nat (a + int k * step)) [0..<n]"

lemma progression_Suc: "progression a step (Suc n) = nat a # progression (a + step) step n"
  unfolding progression_def by (simp add: upt_conv_Cons map_Suc_upt [symmetric] algebra_simps del: upt_Suc)

lemma count_up:
  assumes "0 < step"
  shows "slice_count a b step = (if a < b then Suc (slice_count (a + step) b step) else 0)"
proof (cases "a < b")
  case True
  then have "0 < b - a" by simp
  have "(b - a + step - 1) div step = (b - (a + step) + step - 1) div step + 1"
    using assms div_add_self1 [of step "b - (a + step) + step - 1"] by (simp add: algebra_simps)
  moreover have "0 \<le> (b - (a + step) + step - 1) div step"
    using assms True by (simp add: pos_imp_zdiv_nonneg_iff)
  ultimately show ?thesis using True assms by (simp add: slice_count_def nat_add_distrib)
next
  case False
  then have "(b - a + step - 1) div step \<le> (step - 1) div step" using assms by (intro zdiv_mono1) simp_all
  also have "\<dots> = 0" using assms by (intro div_pos_pos_trivial) simp_all
  finally have "(b - a + step - 1) div step \<le> 0" .
  then show ?thesis using False assms by (simp add: slice_count_def)
qed

lemma count_down:
  assumes "step < 0"
  shows "slice_count a b step = (if b < a then Suc (slice_count (a + step) b step) else 0)"
  using count_up [of "- step" "- a" "- b"] assms by (simp add: slice_count_def algebra_simps)

lemma slice_loop_sound:
  "slice_loop a b step = Inr vs \<Longrightarrow> step \<noteq> 0 \<Longrightarrow> vs = progression a step (slice_count a b step)"
proof (induction a b step arbitrary: vs rule: slice_loop.induct)
  case (1 a b step)
  let ?go = "if 0 < step then a < b else b < a"
  have count: "slice_count a b step = (if ?go then Suc (slice_count (a + step) b step) else 0)"
    using "1.prems"(2) count_up [of step a b] count_down [of step a b] by (auto simp: not_less)
  show ?case
  proof (cases ?go)
    case True
    with "1.prems"(2) have "step \<noteq> 0 \<and> ?go" by blast
    then have "slice_loop a b step = rbind (ok_or InvalidIndex (usize_of_int a)) (\<lambda>v.
        rbind (ok_or InvalidIndex (checked_i64 (a + step))) (\<lambda>start'.
        rbind (slice_loop start' b step) (\<lambda>vs. Inr (v # vs))))"
      by (subst slice_loop.simps) (rule if_P)
    with "1.prems"(1) obtain ws where ws: "0 \<le> a" "in_i64 (a + step)" "slice_loop (a + step) b step = Inr ws"
      "vs = nat a # ws" "usize_of_int a = Some (nat a)" "checked_i64 (a + step) = Some (a + step)"
      by (auto simp: result_simps checked_defs)
    have "ws = progression (a + step) step (slice_count (a + step) b step)"
      by (rule "1.IH" [of "nat a" "a + step"]) (use ws True "1.prems"(2) in \<open>simp_all\<close>)
    moreover have "slice_count a b step = Suc (slice_count (a + step) b step)"
      unfolding count [unfolded if_P [OF True]] by (rule refl)
    ultimately show ?thesis using ws(4) by (simp only: progression_Suc)
  next
    case False
    with "1.prems" show ?thesis by (simp add: count slice_loop.simps progression_def)
  qed
qed

text \<open>The checked addition after the last lane is the only step of the loop that can fail.\<close>

lemma slice_loop_exact:
  "step \<noteq> 0 \<Longrightarrow> \<forall>k < slice_count a b step. 0 \<le> a + int k * step \<and> a + int k * step \<le> i64_max \<Longrightarrow>
   slice_loop a b step = (if 0 < slice_count a b step \<and> \<not> in_i64 (a + int (slice_count a b step) * step) then Inl InvalidIndex
     else Inr (progression a step (slice_count a b step)))"
proof (induction "slice_count a b step" arbitrary: a)
  case 0
  then have "\<not> (if 0 < step then a < b else b < a)"
    using count_up [of step a b] count_down [of step a b] by (auto split: if_splits)
  with 0 show ?case by (simp add: slice_loop.simps progression_def)
next
  case (Suc n)
  have "slice_count a b step = (if (if 0 < step then a < b else b < a) then Suc (slice_count (a + step) b step) else 0)"
    using Suc.prems(1) count_up [of step a b] count_down [of step a b] by (auto simp: not_less)
  with Suc.hyps(2) have go: "if 0 < step then a < b else b < a" and n: "n = slice_count (a + step) b step"
    by (metis Zero_not_Suc, metis Suc_inject Zero_not_Suc)
  have a: "0 \<le> a" "a \<le> i64_max" using Suc.prems(2) [rule_format, of 0] Suc.hyps(2) by auto
  have later: "\<forall>k < n. 0 \<le> a + step + int k * step \<and> a + step + int k * step \<le> i64_max"
  proof (intro allI impI)
    fix k assume "k < n"
    with Suc.prems(2) [rule_format, of "Suc k"] Suc.hyps(2)
    show "0 \<le> a + step + int k * step \<and> a + step + int k * step \<le> i64_max" by (simp add: algebra_simps)
  qed
  have "usize_of_int a = Some (nat a)" using a by (simp add: usize_of_int_def int_bounds)
  then have loop: "slice_loop a b step = rbind (ok_or InvalidIndex (checked_i64 (a + step))) (\<lambda>start'.
      rbind (slice_loop start' b step) (\<lambda>vs. Inr (nat a # vs)))"
    using go Suc.prems(1) by (simp add: slice_loop.simps [of a])
  have last: "a + int (Suc n) * step = a + step + int n * step" by (simp add: algebra_simps)
  show ?case
  proof (cases n)
    case 0
    with n have "slice_loop (a + step) b step = Inr []"
      using Suc.hyps(1) [OF n Suc.prems(1)] by (simp add: progression_def)
    with loop 0 show ?thesis unfolding Suc.hyps(2) [symmetric] last
      by (simp add: checked_i64_def progression_def)
  next
    case (Suc m)
    then have "0 \<le> a + step" "a + step \<le> i64_max" using later by auto
    then have "in_i64 (a + step)" by (simp add: int_bounds)
    then have "slice_loop a b step = rbind (slice_loop (a + step) b step) (\<lambda>vs. Inr (nat a # vs))"
      using loop by (simp add: checked_i64_def)
    then show ?thesis
      using Suc.hyps(1) [OF n Suc.prems(1)] later n Suc unfolding Suc.hyps(2) [symmetric] last
      by (simp add: progression_Suc)
  qed
qed

lemma slice_bounds_range:
  assumes "slice_bounds dim start stop step = (a, b)" and "0 \<le> dim"
  shows "if 0 < step then 0 \<le> a \<and> b \<le> dim else - 1 \<le> b \<and> a \<le> dim - 1"
  using assms by (auto simp: slice_bounds_def clamp_def Let_def split: if_splits option.splits)

lemma progression_elem:
  assumes "step \<noteq> 0" and "if 0 < step then 0 \<le> a \<and> b \<le> dim else - 1 \<le> b \<and> a \<le> dim - 1"
    and "k < slice_count a b step"
  shows "0 \<le> a + int k * step \<and> a + int k * step < dim"
  using assms(2,3)
proof (induction k arbitrary: a)
  case 0
  then show ?case
    using assms(1) count_up [of step a b] count_down [of step a b] by (auto split: if_splits)
next
  case (Suc k)
  have step: "k < slice_count (a + step) b step"
    using Suc.prems assms(1) count_up [of step a b] count_down [of step a b] by (auto split: if_splits)
  have "if 0 < step then 0 \<le> a + step \<and> b \<le> dim else - 1 \<le> b \<and> a + step \<le> dim - 1"
    using Suc.prems assms(1) by (auto split: if_splits)
  from Suc.IH [OF this step] show ?case by (simp add: algebra_simps)
qed

lemma slice_indices_sound:
  assumes "slice_indices dim start stop step = Inr vs"
  obtains a b where "slice_bounds (int dim) start stop step = (a, b)"
    "vs = progression a step (slice_count a b step)" "\<forall>v \<in> set vs. v < dim"
proof -
  obtain a b where ab: "slice_bounds (int dim) start stop step = (a, b)" by (cases "slice_bounds (int dim) start stop step")
  from assms have ok: "step \<noteq> 0" "slice_loop a b step = Inr vs"
    by (auto simp: slice_indices_def result_simps checked_defs ab split: if_splits)
  have vs: "vs = progression a step (slice_count a b step)" using slice_loop_sound [OF ok(2,1)] .
  have "v < dim" if "v \<in> set vs" for v
    using that progression_elem [OF ok(1) slice_bounds_range [OF ab]]
    by (auto simp: vs progression_def nat_less_iff)
  with ab vs that show thesis by blast
qed

text \<open>The edge of a Python slice on an axis of \<open>dim\<close> lanes: the default where it is absent, the lane it
  names counted from either end, and the nearest edge where it names none.\<close>

fun python_edge :: "int \<Rightarrow> int \<Rightarrow> int \<Rightarrow> int \<Rightarrow> int option \<Rightarrow> int" where
  "python_edge dim low high e None = e"
| "python_edge dim low high e (Some s) =
     (if s < - dim then low else if dim \<le> s then high else s mod dim)"

lemma slice_bounds_python:
  assumes "0 \<le> dim"
  shows "slice_bounds dim start stop step =
    (if 0 < step then (python_edge dim 0 dim 0 start, python_edge dim 0 dim dim stop)
     else (python_edge dim (- 1) (dim - 1) (dim - 1) start, python_edge dim (- 1) (dim - 1) (- 1) stop))"
proof -
  have wrapped: "s mod dim = (if s < 0 then s + dim else s)" if "- dim \<le> s" "s < dim" for s
  proof (cases "s < 0")
    case True
    then have "(s + dim) mod dim = s + dim" using that by (intro mod_pos_pos_trivial) simp_all
    with True show ?thesis by simp
  qed (use that in simp)
  have "clamp (if s < 0 then s + dim else s) 0 dim = python_edge dim 0 dim e (Some s)"
    "clamp (if s < 0 then s + dim else s) (- 1) (dim - 1) = python_edge dim (- 1) (dim - 1) e (Some s)" for s e
    using assms wrapped [of s] by (auto simp: clamp_def)
  moreover have "clamp 0 0 dim = 0" "clamp dim 0 dim = dim" "clamp (dim - 1) (- 1) (dim - 1) = dim - 1"
    "clamp (- 1) (- 1) (dim - 1) = - 1" using assms by (auto simp: clamp_def)
  ultimately show ?thesis by (cases start; cases stop) (simp_all add: slice_bounds_def Let_def)
qed

text \<open>Where a Python slice starts and stops on an axis of \<open>dim\<close> lanes.\<close>

definition python_start :: "int \<Rightarrow> int option \<Rightarrow> int \<Rightarrow> int" where
  "python_start dim start step =
    (if 0 < step then python_edge dim 0 dim 0 start else python_edge dim (- 1) (dim - 1) (dim - 1) start)"

definition python_stop :: "int \<Rightarrow> int option \<Rightarrow> int \<Rightarrow> int" where
  "python_stop dim stop step =
    (if 0 < step then python_edge dim 0 dim dim stop else python_edge dim (- 1) (dim - 1) (- 1) stop)"

text \<open>C10: a slice selects exactly the lanes of Python's \<open>range(*slice(start, stop, step).indices(dim))\<close>,
  all of them inside the axis; it is refused exactly when the step is zero, the axis is longer than \<open>isize::MAX\<close>,
  or the step after the last selected lane leaves \<open>isize\<close>.\<close>

theorem slice_is_range:
  "let a = python_start (int dim) start step; n = slice_count a (python_stop (int dim) stop step) step in
    slice_indices dim start stop step =
      (if step = 0 \<or> i64_max < int dim \<or> 0 < n \<and> \<not> in_i64 (a + int n * step) then Inl InvalidIndex else Inr (progression a step n)) \<and>
    (step \<noteq> 0 \<longrightarrow> (\<forall>k < n. 0 \<le> a + int k * step \<and> a + int k * step < int dim))"
proof (cases "step = 0")
  case False
  define a where "a = python_start (int dim) start step"
  let ?b = "python_stop (int dim) stop step"
  define n where "n = slice_count a ?b step"
  have ab: "slice_bounds (int dim) start stop step = (a, ?b)"
    using False by (simp add: slice_bounds_python a_def python_start_def python_stop_def)
  have inside: "\<forall>k < n. 0 \<le> a + int k * step \<and> a + int k * step < int dim"
    using progression_elem [OF False slice_bounds_range [OF ab]] n_def by simp
  show ?thesis
  proof (cases "i64_max < int dim")
    case True
    with False inside show ?thesis by (simp add: slice_indices_def i64_try_from_def checked_i64_def Let_def a_def n_def)
  next
    case le: False
    then have "slice_indices dim start stop step = slice_loop a ?b step"
      using False ab by (simp add: slice_indices_def i64_try_from_def checked_i64_def int_bounds)
    moreover have "\<forall>k < n. 0 \<le> a + int k * step \<and> a + int k * step \<le> i64_max" using inside le by force
    ultimately show ?thesis using slice_loop_exact [OF False, of a ?b] False le inside unfolding Let_def a_def [symmetric] n_def [symmetric] by simp
  qed
qed (simp add: slice_indices_def Let_def)

theorem slice_is_range_witness: "slice_indices 10 (Some (- 2)) None (- 3) = Inr [8, 5, 2]"
proof -
  have a: "python_start 10 (Some (- 2)) (- 3) = 8" and n: "slice_count 8 (python_stop 10 None (- 3)) (- 3) = 3"
    by code_simp+
  have "progression 8 (- 3) 3 = [8, 5, 2]" by code_simp
  then show ?thesis
    using slice_is_range [of 10 "Some (- 2)" "- 3" None] by (simp add: a n Let_def int_bounds)
qed

text \<open>A step near \<open>isize::MAX\<close> is refused although the slice has one lane.\<close>

lemma huge_step_refused: "slice_indices 10 (Some 5) None i64_max = Inl InvalidIndex"
  by (simp add: slice_indices_def slice_bounds_def clamp_def Let_def i64_try_from_def checked_i64_def
      int_bounds slice_loop.simps usize_of_int_def)

subsection \<open>Every plan\<close>

definition plan_wf :: "index_plan \<Rightarrow> bool" where
  "plan_wf p \<longleftrightarrow> length (ip_offsets p) = prod_list (ip_output p) \<and>
     is_ok (dense_index_new (ip_output p)) \<and> is_ok (dense_index_new (ip_source p)) \<and>
     (\<forall>off \<in> set (ip_offsets p). off < prod_list (ip_source p))"

lemma index_finish_lanes:
  assumes "index_finish source st = Inr p"
  obtains adv where "broadcast_shapes (is_shapes st) = Inr adv" "ip_source p = source" "plan_wf p"
    "ip_output p = (if moves_front (is_positions st) then adv @ is_basic st
       else take (pre_basics (is_positions st) (is_basic st)) (is_basic st) @ adv @
            drop (pre_basics (is_positions st) (is_basic st)) (is_basic st))"
    "\<And>i. i < prod_list (ip_output p) \<Longrightarrow> \<exists>cs. try_map (axis_coord
        (basic_output (moves_front (is_positions st)) (pre_basics (is_positions st) (is_basic st)) (length adv))
        adv (take (length adv) (drop (if moves_front (is_positions st) then 0
          else pre_basics (is_positions st) (is_basic st)) (unravel (ip_output p) i)))
        (unravel (ip_output p) i)) (is_axes st) = Inr cs \<and> in_range source cs \<and> ip_offsets p ! i = ravel source cs"
proof -
  let ?front = "moves_front (is_positions st)" and ?pre = "pre_basics (is_positions st) (is_basic st)"
  obtain adv where adv: "broadcast_shapes (is_shapes st) = Inr adv"
    using assms by (auto simp: index_finish_def result_simps)
  let ?out = "if ?front then adv @ is_basic st else take ?pre (is_basic st) @ adv @ drop ?pre (is_basic st)"
  let ?coord = "\<lambda>coords. try_map (axis_coord (basic_output ?front ?pre (length adv)) adv
      (take (length adv) (drop (if ?front then 0 else ?pre) coords)) coords) (is_axes st)"
  from assms adv obtain si oi offs where ix: "dense_index_new source = Inr si" "dense_index_new ?out = Inr oi"
    "try_map (\<lambda>linear. rbind (dense_coords oi linear) (\<lambda>coords. rbind (?coord coords) (dense_offset si)))
       [0..<di_len oi] = Inr offs"
    "p = \<lparr>ip_source = source, ip_output = ?out, ip_offsets = offs\<rparr>"
    unfolding index_finish_def Let_def by (auto simp: result_simps simp del: upt_Suc)
  have len: "di_len oi = prod_list ?out" using dense_index_new_Inr [OF ix(2)] by simp
  have lanes: "length offs = prod_list ?out"
    "\<And>i. i < prod_list ?out \<Longrightarrow> rbind (?coord (unravel ?out i)) (dense_offset si) = Inr (offs ! i)"
    using ix(3) by (auto simp: try_map_Inr_iff len dense_coords_eq [OF ix(2)])
  have each: "\<exists>cs. ?coord (unravel ?out i) = Inr cs \<and> in_range source cs \<and> offs ! i = ravel source cs"
    if "i < prod_list ?out" for i
    using lanes(2) [OF that]
    by (auto simp: rbind_eq_Inr dense_offset_eq [OF ix(1)] split: if_splits)
  have "off < prod_list source" if "off \<in> set offs" for off
    using that each lanes(1) ravel_less by (metis in_set_conv_nth)
  then have "plan_wf p" using ix lanes(1) by (auto simp: plan_wf_def)
  then show thesis using that [OF adv] each ix(4) by simp
qed

text \<open>A well-formed plan maps every coordinate of its output into its source.\<close>

lemma source_coords_wf:
  assumes "plan_wf p" and "in_range (ip_output p) c"
  shows "source_coords p c = Inr (unravel (ip_source p) (ip_offsets p ! ravel (ip_output p) c))"
    and "ip_offsets p ! ravel (ip_output p) c < prod_list (ip_source p)"
proof -
  from assms(1) obtain oi si where ix: "dense_index_new (ip_output p) = Inr oi"
    "dense_index_new (ip_source p) = Inr si" by (auto simp: plan_wf_def is_ok_iff)
  have lin: "ravel (ip_output p) c < length (ip_offsets p)"
    using ravel_less [OF assms(2)] assms(1) by (simp add: plan_wf_def)
  then show less: "ip_offsets p ! ravel (ip_output p) c < prod_list (ip_source p)"
    using assms(1) by (simp add: plan_wf_def)
  have "\<not> list_ex (\<lambda>(c, dim). dim \<le> c) (zip c (ip_output p))" "length c = length (ip_output p)"
    using assms(2) by (auto simp: list_ex_iff in_range_nth in_set_zip) (meson leD)
  then show "source_coords p c = Inr (unravel (ip_source p) (ip_offsets p ! ravel (ip_output p) c))"
    using ix lin less assms(2) by (simp add: source_coords_def dense_offset_eq dense_coords_eq)
qed

lemma index_plan_new_finish:
  assumes "index_plan_new source specs = Inr p"
  obtains st where "length (filter consumes specs) \<le> length source"
    "try_fold (index_step source) index_start
       (expand_specs (length source - length (filter consumes specs)) specs) = Inr st"
    "index_finish source st = Inr p"
  using assms by (auto simp: index_plan_new_def Let_def result_simps split: if_splits)

text \<open>C9: every plan the indexing planner accepts is safe: it keeps the source shape, has one offset
  per output lane, maps every output coordinate to a coordinate inside the source, and is accepted
  again when it is rebuilt from its offsets.\<close>

theorem index_plan_inside:
  assumes "index_plan_new source specs = Inr p"
  shows "ip_source p = source \<and> length (ip_offsets p) = prod_list (ip_output p) \<and>
    (\<forall>c. in_range (ip_output p) c \<longrightarrow> (\<exists>s. source_coords p c = Inr s \<and> in_range source s \<and>
       ravel source s = ip_offsets p ! ravel (ip_output p) c)) \<and>
    index_plan_from_offsets source (ip_output p) (ip_offsets p) = Inr p"
proof -
  from assms obtain st where "index_finish source st = Inr p" by (rule index_plan_new_finish)
  then have wf: "plan_wf p" and src: "ip_source p = source" by (auto elim: index_finish_lanes)
  have "\<exists>s. source_coords p c = Inr s \<and> in_range source s \<and> ravel source s = ip_offsets p ! ravel (ip_output p) c"
    if "in_range (ip_output p) c" for c
  proof -
    note coords = source_coords_wf [OF wf that]
    from coords(2) have "0 \<notin> set source" using src prod_list_pos_iff [of source] by simp
    then show ?thesis using coords src by (simp add: unravel_in_range ravel_unravel)
  qed
  moreover have "index_plan_from_offsets source (ip_output p) (ip_offsets p) = Inr p"
  proof -
    from wf src obtain oi si where ix: "dense_index_new (ip_output p) = Inr oi" "dense_index_new source = Inr si"
      by (auto simp: plan_wf_def is_ok_iff)
    then obtain n m where "numel (ip_output p) = Inr n" "numel source = Inr m"
      by (auto simp: dense_index_new_def result_simps)
    moreover from this have "n = prod_list (ip_output p)" "m = prod_list source" by (auto dest: numel_InrD)
    ultimately show ?thesis using wf src
      by (auto simp: index_plan_from_offsets_def plan_wf_def list_ex_iff not_le)
  qed
  ultimately show ?thesis using wf src by (simp add: plan_wf_def)
qed

definition sample_specs :: "static_index list" where
  "sample_specs = [Slice None None 1, Advanced [2] [0, - 1], Slice None None 1, Advanced [2] [1, - 2]]"

theorem index_plan_inside_witness:
  "\<exists>p s. index_plan_new [2, 3, 2, 4] sample_specs = Inr p \<and> ip_output p = [2, 2, 2] \<and>
    source_coords p [1, 0, 1] = Inr s \<and> in_range [2, 3, 2, 4] s"
proof -
  have "is_ok (index_plan_new [2, 3, 2, 4] sample_specs)" by code_simp
  then obtain p where p: "index_plan_new [2, 3, 2, 4] sample_specs = Inr p" by (auto simp: is_ok_iff)
  have "map_sum id ip_output (index_plan_new [2, 3, 2, 4] sample_specs) = Inr [2, 2, 2]" by code_simp
  then have out: "ip_output p = [2, 2, 2]" by (simp add: p)
  have "in_range [2, 2, 2] [1, 0, 1]" by simp
  then have "\<exists>s. source_coords p [1, 0, 1] = Inr s \<and> in_range [2, 3, 2, 4] s"
    using index_plan_inside [OF p] unfolding out by blast
  then show ?thesis using p out by blast
qed

subsection \<open>Basic indexing\<close>

text \<open>The reference: shape and source coordinates of integers, slices and new axes, one axis at a
  time. An integer counts from either end, a slice from its normalized start in its steps.\<close>

definition slice_start :: "nat \<Rightarrow> int option \<Rightarrow> int option \<Rightarrow> int \<Rightarrow> int" where
  "slice_start d a b s = fst (slice_bounds (int d) a b s)"

definition slice_len :: "nat \<Rightarrow> int option \<Rightarrow> int option \<Rightarrow> int \<Rightarrow> nat" where
  "slice_len d a b s = slice_count (slice_start d a b s) (snd (slice_bounds (int d) a b s)) s"

fun basic_shape :: "shape \<Rightarrow> static_index list \<Rightarrow> shape" where
  "basic_shape (d # ds) (Integer v # specs) = basic_shape ds specs"
| "basic_shape (d # ds) (Slice a b s # specs) = slice_len d a b s # basic_shape ds specs"
| "basic_shape ds (NewAxis # specs) = 1 # basic_shape ds specs"
| "basic_shape _ _ = []"

fun basic_coords :: "shape \<Rightarrow> static_index list \<Rightarrow> nat list \<Rightarrow> nat list" where
  "basic_coords (d # ds) (Integer v # specs) cs = nat (v mod int d) # basic_coords ds specs cs"
| "basic_coords (d # ds) (Slice a b s # specs) (c # cs) =
     nat (slice_start d a b s + int c * s) # basic_coords ds specs cs"
| "basic_coords ds (NewAxis # specs) (c # cs) = basic_coords ds specs cs"
| "basic_coords _ _ _ = []"

definition basic_spec :: "static_index \<Rightarrow> bool" where
  "basic_spec spec =
    (case spec of Advanced _ _ \<Rightarrow> False | Ellipsis \<Rightarrow> False | Integer v \<Rightarrow> in_i64 v | _ \<Rightarrow> True)"

lemma normalize_mod:
  assumes "normalize v d = Inr n" and "in_i64 v" and "int d \<le> i64_max"
  shows "n = nat (v mod int d) \<and> n < d"
proof -
  let ?w = "if v < 0 then v + int d else v"
  have "in_i64 ?w" using assms(2,3) by (auto simp: int_bounds)
  then have "wrap_signed 64 ?w = ?w" by (intro wrap_signed_id) (simp_all add: int_bounds)
  moreover have "as_i64 d = int d" using assms(3) by (simp add: as_i64_def)
  ultimately have n: "0 \<le> ?w" "n = nat ?w" "n < d"
    using assms(1) by (auto simp: normalize_def Let_def result_simps checked_defs split: if_splits)
  then have "?w mod int d = ?w" by (intro mod_pos_pos_trivial) auto
  moreover have "?w mod int d = v mod int d" by simp
  ultimately show ?thesis using n by simp
qed

lemma slice_len_eq:
  assumes "slice_indices d a b s = Inr vs"
  shows "length vs = slice_len d a b s"
    and "c < length vs \<Longrightarrow> vs ! c = nat (slice_start d a b s + int c * s)"
  by (rule slice_indices_sound [OF assms]; simp add: slice_len_def slice_start_def progression_def)+

definition reads_basic :: "shape \<Rightarrow> static_index list \<Rightarrow> nat \<Rightarrow> source_axis list \<Rightarrow> bool" where
  "reads_basic ds specs n axs \<longleftrightarrow> (\<forall>pre coords place adv av.
     length pre = n \<longrightarrow> in_range (basic_shape ds specs) coords \<longrightarrow>
     (\<forall>b < n + length (basic_shape ds specs). place b = b) \<longrightarrow>
     try_map (axis_coord place adv av (pre @ coords)) axs = Inr (basic_coords ds specs coords))"

lemma reads_basicD:
  "reads_basic ds specs n axs \<Longrightarrow> length pre = n \<Longrightarrow> in_range (basic_shape ds specs) coords \<Longrightarrow>
   (\<And>b. b < n + length (basic_shape ds specs) \<Longrightarrow> place b = b) \<Longrightarrow>
   try_map (axis_coord place adv av (pre @ coords)) axs = Inr (basic_coords ds specs coords)"
  by (simp add: reads_basic_def)

lemma reads_new_axis:
  assumes "reads_basic ds specs (Suc n) axs"
  shows "reads_basic ds (NewAxis # specs) n axs"
  unfolding reads_basic_def
proof (intro allI impI)
  fix pre coords adv av :: "nat list" and place :: "nat \<Rightarrow> nat"
  assume p: "length pre = n" "in_range (basic_shape ds (NewAxis # specs)) coords"
    "\<forall>b < n + length (basic_shape ds (NewAxis # specs)). place b = b"
  then obtain c cs where c: "coords = c # cs" "in_range (basic_shape ds specs) cs" by (cases coords) auto
  from reads_basicD [OF assms _ c(2), of "pre @ [c]" place adv av] p
  show "try_map (axis_coord place adv av (pre @ coords)) axs = Inr (basic_coords ds (NewAxis # specs) coords)"
    by (simp add: c)
qed

lemma reads_integer:
  assumes "reads_basic ds specs n axs" and "m = nat (v mod int d)"
  shows "reads_basic (d # ds) (Integer v # specs) n (FixedAxis m # axs)"
  unfolding reads_basic_def
proof (intro allI impI)
  fix pre coords adv av :: "nat list" and place :: "nat \<Rightarrow> nat"
  assume p: "length pre = n" "in_range (basic_shape (d # ds) (Integer v # specs)) coords"
    "\<forall>b < n + length (basic_shape (d # ds) (Integer v # specs)). place b = b"
  then have "try_map (axis_coord place adv av (pre @ coords)) axs = Inr (basic_coords ds specs coords)"
    by (intro reads_basicD [OF assms(1)]) simp_all
  then show "try_map (axis_coord place adv av (pre @ coords)) (FixedAxis m # axs) =
      Inr (basic_coords (d # ds) (Integer v # specs) coords)"
    using assms(2) by (simp add: axis_coord_def)
qed

lemma reads_slice:
  assumes "reads_basic ds specs (Suc n) axs" and "slice_indices d a b s = Inr vs"
  shows "reads_basic (d # ds) (Slice a b s # specs) n (SliceAxis vs n # axs)"
  unfolding reads_basic_def
proof (intro allI impI)
  fix pre coords adv av :: "nat list" and place :: "nat \<Rightarrow> nat"
  assume p: "length pre = n" "in_range (basic_shape (d # ds) (Slice a b s # specs)) coords"
    "\<forall>k < n + length (basic_shape (d # ds) (Slice a b s # specs)). place k = k"
  then obtain c cs where c: "coords = c # cs" "c < slice_len d a b s" "in_range (basic_shape ds specs) cs"
    by (cases coords) auto
  from reads_basicD [OF assms(1) _ c(3), of "pre @ [c]" place adv av] p
  have "try_map (axis_coord place adv av (pre @ coords)) axs = Inr (basic_coords ds specs cs)"
    by (simp add: c)
  moreover have "axis_coord place adv av (pre @ coords) (SliceAxis vs n) = Inr (nat (slice_start d a b s + int c * s))"
    using p c slice_len_eq [OF assms(2)] by (simp add: axis_coord_def Let_def nth_append)
  ultimately show "try_map (axis_coord place adv av (pre @ coords)) (SliceAxis vs n # axs) =
      Inr (basic_coords (d # ds) (Slice a b s # specs) coords)"
    by (simp add: c)
qed

lemma basic_fold:
  assumes "try_fold (index_step source) st specs = Inr st'" and "list_all basic_spec specs"
    and "drop (is_source_axis st) source = ds" and "length (filter consumes specs) = length ds"
    and "\<forall>d \<in> set source. int d \<le> i64_max"
  shows "is_positions st' = is_positions st \<and> is_shapes st' = is_shapes st \<and>
    is_basic st' = is_basic st @ basic_shape ds specs \<and>
    (\<exists>axs. is_axes st' = is_axes st @ axs \<and> reads_basic ds specs (length (is_basic st)) axs)"
  using assms(1-4)
proof (induction specs arbitrary: st ds)
  case Nil
  then show ?case by (simp add: reads_basic_def)
next
  case (Cons spec specs)
  from Cons.prems(1) obtain st1 where st1: "index_step source st spec = Inr st1"
    "try_fold (index_step source) st1 specs = Inr st'" by (auto simp: result_simps)
  note IH = Cons.IH [OF st1(2)]
  have basics: "list_all basic_spec specs" using Cons.prems(2) by simp
  have head: "\<exists>d ds'. ds = d # ds' \<and> source ! is_source_axis st = d \<and> drop (Suc (is_source_axis st)) source = ds' \<and>
      int d \<le> i64_max" if "consumes spec"
  proof -
    have "ds \<noteq> []" using Cons.prems(4) that by auto
    then obtain d ds' where ds: "ds = d # ds'" by (cases ds) auto
    then have len: "is_source_axis st < length source" using Cons.prems(3) by (metis drop_eq_Nil list.distinct(1) not_le)
    with Cons.prems(3) ds have "source ! is_source_axis st = d" "drop (Suc (is_source_axis st)) source = ds'"
      by (metis Cons_nth_drop_Suc list.inject)+
    moreover have "int d \<le> i64_max" using calculation(1) len assms(5) nth_mem by metis
    ultimately show ?thesis using ds by blast
  qed
  show ?case
  proof (cases spec)
    case (Integer v)
    with head obtain d ds' where d: "ds = d # ds'" "source ! is_source_axis st = d"
      "drop (Suc (is_source_axis st)) source = ds'" "int d \<le> i64_max" by (auto simp: consumes_def)
    from st1(1) Integer d(2) obtain n where n: "normalize v d = Inr n"
      "st1 = st\<lparr>is_axes := is_axes st @ [FixedAxis n], is_source_axis := is_source_axis st + 1\<rparr>"
      by (auto simp: index_step_def result_simps)
    have "n = nat (v mod int d)"
      using normalize_mod [OF n(1) _ d(4)] Cons.prems(2) Integer by (simp add: basic_spec_def)
    with IH [OF basics, of ds'] n(2) d Integer Cons.prems(4) show ?thesis
      by (auto simp: consumes_def intro: reads_integer)
  next
    case (Slice a b s)
    with head obtain d ds' where d: "ds = d # ds'" "source ! is_source_axis st = d"
      "drop (Suc (is_source_axis st)) source = ds'" by (auto simp: consumes_def)
    from st1(1) Slice d(2) obtain vs where vs: "slice_indices d a b s = Inr vs"
      "st1 = st\<lparr>is_axes := is_axes st @ [SliceAxis vs (length (is_basic st))], is_basic := is_basic st @ [length vs],
         is_source_axis := is_source_axis st + 1, is_x_dim := is_x_dim st + 1\<rparr>"
      by (auto simp: index_step_def result_simps)
    from IH [OF basics, of ds'] vs d Slice Cons.prems(4) slice_len_eq(1) [OF vs(1)] show ?thesis
      by (auto simp: consumes_def intro: reads_slice)
  next
    case NewAxis
    with st1(1) have "st1 = st\<lparr>is_basic := is_basic st @ [1], is_x_dim := is_x_dim st + 1\<rparr>"
      by (simp add: index_step_def)
    with IH [OF basics, of ds] NewAxis Cons.prems(3,4) show ?thesis
      by (auto simp: consumes_def intro: reads_new_axis)
  qed (use Cons.prems(2) in \<open>simp_all add: basic_spec_def\<close>)
qed

lemma expand_specs_count:
  assumes "length (filter (\<lambda>s. s = Ellipsis) specs) \<le> 1"
  shows "length (filter consumes (expand_specs m specs)) = length (filter consumes specs) + m"
proof -
  let ?ex = "\<lambda>spec. if spec = Ellipsis then replicate m full_slice else [spec]"
  have full: "consumes full_slice" "\<not> consumes Ellipsis" by (simp_all add: consumes_def full_slice_def)
  have "length (filter consumes (concat (map ?ex specs))) =
      length (filter consumes specs) + m * length (filter (\<lambda>s. s = Ellipsis) specs)" for specs
    by (induction specs) (auto simp: full filter_replicate)
  moreover have "length (filter (\<lambda>s. s = Ellipsis) specs) = (if Ellipsis \<in> set specs then 1 else 0)"
  proof (cases "Ellipsis \<in> set specs")
    case True
    then have "filter (\<lambda>s. s = Ellipsis) specs \<noteq> []" by (simp add: filter_empty_conv)
    with True assms show ?thesis by (cases "filter (\<lambda>s. s = Ellipsis) specs") simp_all
  qed (auto simp: filter_empty_conv)
  ultimately show ?thesis by (simp add: expand_specs_def full filter_replicate)
qed

lemma expand_specs_basic:
  "\<forall>s \<in> set specs. basic_spec s \<or> s = Ellipsis \<Longrightarrow> list_all basic_spec (expand_specs m specs)"
  by (auto simp: expand_specs_def list_all_iff basic_spec_def full_slice_def split: if_splits)

text \<open>Basic indexing is the reference: a plan of integers, slices, new axes and an ellipsis has
  the reference's output shape, and every output coordinate reads the source coordinate the reference
  names.\<close>

lemma basic_indexing_reads:
  assumes "index_plan_new source specs = Inr p" and "\<forall>s \<in> set specs. basic_spec s \<or> s = Ellipsis"
    and "\<forall>d \<in> set source. int d \<le> i64_max"
    and "full = expand_specs (length source - length (filter consumes specs)) specs"
    and "in_range (ip_output p) c"
  shows "ip_output p = basic_shape source full \<and> source_coords p c = Inr (basic_coords source full c)"
proof -
  from assms(1) obtain st where st: "length (filter consumes specs) \<le> length source"
    "try_fold (index_step source) index_start full = Inr st" "index_finish source st = Inr p"
    by (rule index_plan_new_finish) (simp add: assms(4))
  have "length (filter (\<lambda>s. s = Ellipsis) specs) \<le> 1"
    using assms(1) by (auto simp: index_plan_new_def Let_def split: if_splits)
  then have "length (filter consumes full) = length source"
    using expand_specs_count st(1) by (simp add: assms(4))
  with basic_fold [OF st(2) _ _ _ assms(3), of source] expand_specs_basic [OF assms(2)]
  obtain axs where fold: "is_positions st = []" "is_shapes st = []" "is_basic st = basic_shape source full"
    "is_axes st = axs" "reads_basic source full 0 axs"
    by (auto simp: index_start_def assms(4))
  have parts: "broadcast_shapes [] = Inr []" "\<not> moves_front []"
    by (simp_all add: broadcast_shapes_def moves_front_def)
  from st(3) obtain adv where fin: "broadcast_shapes (is_shapes st) = Inr adv" "ip_source p = source" "plan_wf p"
    "ip_output p = (if moves_front (is_positions st) then adv @ is_basic st
       else take (pre_basics (is_positions st) (is_basic st)) (is_basic st) @ adv @
            drop (pre_basics (is_positions st) (is_basic st)) (is_basic st))"
    "\<And>i. i < prod_list (ip_output p) \<Longrightarrow> \<exists>cs. try_map (axis_coord
        (basic_output (moves_front (is_positions st)) (pre_basics (is_positions st) (is_basic st)) (length adv))
        adv (take (length adv) (drop (if moves_front (is_positions st) then 0
          else pre_basics (is_positions st) (is_basic st)) (unravel (ip_output p) i)))
        (unravel (ip_output p) i)) (is_axes st) = Inr cs \<and> in_range source cs \<and> ip_offsets p ! i = ravel source cs"
    by (rule index_finish_lanes) blast
  have adv: "adv = []" using fin(1) fold(2) parts(1) by simp
  have pre: "pre_basics (is_positions st) (is_basic st) = length (is_basic st)" by (simp add: pre_basics_def fold(1))
  have out: "ip_output p = basic_shape source full"
    using fin(4) by (simp add: adv pre fold(3) fold(1) parts(2))
  let ?i = "ravel (ip_output p) c"
  from fin(5) [OF ravel_less [OF assms(5)]] obtain cs where cs: "in_range source cs" "ip_offsets p ! ?i = ravel source cs"
    "try_map (axis_coord (basic_output False (length (is_basic st)) 0) [] [] c) axs = Inr cs"
    by (auto simp: unravel_ravel [OF assms(5)] adv pre [unfolded fold(1)] fold(1,4) parts(2))
  have "try_map (axis_coord (basic_output False (length (is_basic st)) 0) [] [] ([] @ c)) axs =
      Inr (basic_coords source full c)"
    by (rule reads_basicD [OF fold(5)]) (use assms(5) out fold(3) in \<open>simp_all add: basic_output_def\<close>)
  with cs(3) have "cs = basic_coords source full c" by simp
  with source_coords_wf(1) [OF fin(3) assms(5)] cs out fin(2) show ?thesis by (simp add: unravel_ravel)
qed

theorem basic_indexing_reads_witness:
  "\<exists>p. index_plan_new [2, 3, 4] [NewAxis, Integer (- 1), Ellipsis, Slice None None (- 2)] = Inr p \<and>
    ip_output p = [1, 3, 2] \<and> source_coords p [0, 2, 1] = Inr [1, 2, 1]"
proof -
  let ?specs = "[NewAxis, Integer (- 1), Ellipsis, Slice None None (- 2)]"
  have "is_ok (index_plan_new [2, 3, 4] ?specs)" by code_simp
  then obtain p where p: "index_plan_new [2, 3, 4] ?specs = Inr p" by (auto simp: is_ok_iff)
  let ?full = "expand_specs (length [2, 3, 4 :: nat] - length (filter consumes ?specs)) ?specs"
  have "map_sum id ip_output (index_plan_new [2, 3, 4] ?specs) = Inr [1, 3, 2]" by code_simp
  then have out: "ip_output p = [1, 3, 2]" by (simp add: p)
  have basic: "\<forall>s \<in> set ?specs. basic_spec s \<or> s = Ellipsis" by (simp add: basic_spec_def int_bounds)
  have small: "\<forall>d \<in> set [2, 3, 4 :: nat]. int d \<le> i64_max" by (simp add: int_bounds)
  have "in_range (ip_output p) [0, 2, 1]" by (simp add: out)
  from basic_indexing_reads [OF p basic small refl this] have "source_coords p [0, 2, 1] = Inr (basic_coords [2, 3, 4] ?full [0, 2, 1])"
    by blast
  moreover have "basic_coords [2, 3, 4] ?full [0, 2, 1] = [1, 2, 1]" by code_simp
  ultimately show ?thesis using p out by simp
qed

subsection \<open>Windows and diagonals\<close>

lemma normalize_axis_mod:
  assumes "normalize_axis node axis rank = Inr a" and "int rank \<le> i64_max"
  shows "a < rank \<and> int a = (if axis < 0 then axis + int rank else axis)"
  using assms
  by (auto simp: normalize_axis_def Let_def as_i64_def checked_defs bind_eq_Some_conv
      split: option.splits if_splits)

lemma window_value_Inr: "window_value s start off = Inr v \<longleftrightarrow> v = int (start + off) \<and> int (start + off) \<le> i64_max"
  by (auto simp: window_value_def result_simps checked_defs int_bounds)

lemma window_row:
  "try_map (window_value s start) [0..<n] = Inr row \<Longrightarrow>
   length row = n \<and> (\<forall>j < n. row ! j = int (start + j))"
  by (auto simp: try_map_Inr_iff window_value_Inr)

lemma nth_concat_rows:
  "\<forall>r \<in> set rows. length r = k \<Longrightarrow> i < length rows \<Longrightarrow> j < k \<Longrightarrow> concat rows ! (i * k + j) = rows ! i ! j"
proof (induction rows arbitrary: i)
  case (Cons r rows)
  then show ?case by (cases i) (simp_all add: nth_append)
qed simp

lemma length_concat_rows: "\<forall>r \<in> set rows. length r = k \<Longrightarrow> length (concat rows) = length rows * k"
  by (induction rows) simp_all

lemma window_values_Inr:
  assumes "window_values s n k step = Inr vs"
  shows "length vs = n * k \<and> (\<forall>i < n. \<forall>j < k. vs ! (i * k + j) = int (i * step + j))"
proof -
  from assms obtain rows where rows: "vs = concat rows" "length rows = n"
    "\<And>i. i < n \<Longrightarrow> rbind (ok_or (ShapeOverflow s) (checked_mul_u i step))
       (\<lambda>start. try_map (window_value s start) [0..<k]) = Inr (rows ! i)"
    by (auto simp: window_values_def rbind_eq_Inr try_map_Inr_iff)
  have row: "length (rows ! i) = k \<and> (\<forall>j < k. rows ! i ! j = int (i * step + j))" if "i < n" for i
    using rows(3) [OF that] window_row by (auto simp: rbind_eq_Inr ok_or_eq_Inr checked_defs)
  then have all: "\<forall>r \<in> set rows. length r = k" using rows(2) by (auto simp: in_set_conv_nth)
  show ?thesis using rows(1,2) row nth_concat_rows [OF all] length_concat_rows [OF all] by simp
qed

text \<open>Unfolding an axis indexes it with its windows: lane \<open>j\<close> of window \<open>i\<close> is source lane
  \<open>i * step + j\<close>, inside the axis; no further window fits; and the other axes are kept whole.\<close>

lemma unfold_reads_windows:
  assumes "unfold_specs node s dim window step = Inr specs" and "int (length s) \<le> i64_max"
  shows "\<exists>axis n vs. axis < length s \<and> int axis = (if dim < 0 then dim + int (length s) else dim) \<and>
    specs = (replicate (length s) full_slice)[axis := Advanced [n, nat window] vs] \<and>
    length vs = n * nat window \<and>
    (\<forall>i < n. \<forall>j < nat window. vs ! (i * nat window + j) = int (i * nat step + j) \<and>
       i * nat step + j < s ! axis) \<and>
    s ! axis < n * nat step + nat window"
proof -
  from assms(1) have pos: "0 \<le> window" "0 < step" by (auto simp: unfold_specs_def split: if_splits)
  with assms(1) obtain axis vs where u: "normalize_axis node dim (length s) = Inr axis" "nat window \<le> s ! axis"
    "window_values s ((s ! axis - nat window) div nat step + 1) (nat window) (nat step) = Inr vs"
    "specs = map (\<lambda>current. if current = axis
       then Advanced [(s ! axis - nat window) div nat step + 1, nat window] vs else full_slice) [0..<length s]"
    by (auto simp: unfold_specs_def result_simps checked_defs Let_def not_less split: if_splits)
  let ?n = "(s ! axis - nat window) div nat step + 1"
  note axis = normalize_axis_mod [OF u(1) assms(2)]
  note vs = window_values_Inr [OF u(3)]
  have "specs = (replicate (length s) full_slice)[axis := Advanced [?n, nat window] vs]"
    unfolding u(4) by (rule nth_equalityI) (auto simp: nth_list_update)
  moreover have "i * nat step + j < s ! axis" if "i < ?n" "j < nat window" for i j
  proof -
    have "i * nat step \<le> (s ! axis - nat window) div nat step * nat step" using that(1) by (intro mult_le_mono1) simp
    also have "\<dots> \<le> s ! axis - nat window" by simp
    finally show ?thesis using that(2) u(2) by linarith
  qed
  moreover have "s ! axis < ?n * nat step + nat window"
  proof -
    have "0 < nat step" using pos(2) by simp
    then have "s ! axis - nat window < ?n * nat step"
      using dividend_less_div_times [of "nat step" "s ! axis - nat window"] by (simp add: mult.commute)
    then show ?thesis by linarith
  qed
  ultimately show ?thesis
    by (intro exI [of _ axis] exI [of _ ?n] exI [of _ vs] conjI allI impI) (use axis vs in blast)+
qed

theorem unfold_reads_windows_witness:
  "\<exists>vs. unfold_specs 0 [2, 5] (- 1) 3 2 = Inr [full_slice, Advanced [2, 3] vs] \<and> vs = [0, 1, 2, 2, 3, 4]"
proof -
  have ok: "unfold_specs 0 [2, 5] (- 1) 3 2 = Inr [full_slice, Advanced [2, 3] [0, 1, 2, 2, 3, 4]]" by code_simp
  have "int (length [2, 5 :: nat]) \<le> i64_max" by (simp add: int_bounds)
  from unfold_reads_windows [OF ok this] ok show ?thesis by blast
qed

lemma diagonal_start_eq:
  assumes "in_i64 offset" and "diagonal_start offset = (row, column)"
  shows "offset \<noteq> i64_min \<Longrightarrow> row = nat (- offset) \<and> column = nat offset"
    and "offset = i64_min \<Longrightarrow> row = usize_max \<and> column = 0"
proof -
  assume "offset \<noteq> i64_min"
  then have "0 \<le> offset \<Longrightarrow> usize_of_int offset = Some (nat offset)"
    "offset < 0 \<Longrightarrow> checked_i64 (- offset) = Some (- offset) \<and> usize_of_int (- offset) = Some (nat (- offset))"
    using assms(1) by (auto simp: usize_of_int_def checked_i64_def int_bounds)
  then show "row = nat (- offset) \<and> column = nat offset"
    using assms(2) by (cases "0 \<le> offset") (auto simp: diagonal_start_def)
next
  assume "offset = i64_min"
  then show "row = usize_max \<and> column = 0"
    using assms(2) by (simp add: diagonal_start_def checked_i64_def int_bounds)
qed

text \<open>A diagonal visits every element whose column minus row is the offset, once and in order, and
  nothing else; the permutation moves its two axes last and keeps the order of the others.\<close>

lemma diagonal_visits_offset:
  assumes "diagonal_plan_new node s offset d1 d2 = Inr dp" and "in_i64 offset"
    and "int (length s) \<le> i64_max" and "\<forall>d \<in> set s. int d \<le> i64_max"
  shows "\<exists>a b n rows columns. a \<noteq> b \<and> a < length s \<and> b < length s \<and>
    dp_permutation dp = filter (\<lambda>k. k \<noteq> a \<and> k \<noteq> b) [0..<length s] @ [a, b] \<and>
    dp_specs dp = replicate (length s - 2) full_slice @ [Advanced [n] rows, Advanced [n] columns] \<and>
    length rows = n \<and> length columns = n \<and>
    (\<forall>k < n. columns ! k - rows ! k = offset \<and> 0 \<le> rows ! k \<and> rows ! k < int (s ! a) \<and>
       0 \<le> columns ! k \<and> columns ! k < int (s ! b)) \<and>
    (\<forall>i < s ! a. \<forall>j < s ! b. int j - int i = offset \<longrightarrow> (\<exists>!k. k < n \<and> rows ! k = int i \<and> columns ! k = int j))"
proof -
  obtain row column where start: "diagonal_start offset = (row, column)" by (cases "diagonal_start offset")
  from assms(1) obtain a b rows columns where d: "normalize_axis node d1 (length s) = Inr a"
    "normalize_axis node d2 (length s) = Inr b" "a \<noteq> b"
    "try_map (window_value s row) [0..<min (s ! a - row) (s ! b - column)] = Inr rows"
    "try_map (window_value s column) [0..<min (s ! a - row) (s ! b - column)] = Inr columns"
    "dp = \<lparr>dp_permutation = filter (\<lambda>k. k \<noteq> a \<and> k \<noteq> b) [0..<length s] @ [a, b],
       dp_specs = replicate (length s - 2) full_slice @
         [Advanced [min (s ! a - row) (s ! b - column)] rows, Advanced [min (s ! a - row) (s ! b - column)] columns]\<rparr>"
    by (auto simp: diagonal_plan_new_def start Let_def result_simps split: if_splits)
  let ?n = "min (s ! a - row) (s ! b - column)"
  have ab: "a < length s" "b < length s" using normalize_axis_mod [OF d(1) assms(3)] normalize_axis_mod [OF d(2) assms(3)] by simp_all
  have small: "int (s ! a) \<le> i64_max" "int (s ! b) \<le> i64_max" using assms(4) ab by auto
  have row: "length rows = ?n" "\<And>k. k < ?n \<Longrightarrow> rows ! k = int (row + k)" using window_row [OF d(4)] by auto
  have col: "length columns = ?n" "\<And>k. k < ?n \<Longrightarrow> columns ! k = int (column + k)" using window_row [OF d(5)] by auto
  have lanes: "columns ! k - rows ! k = offset \<and> 0 \<le> rows ! k \<and> rows ! k < int (s ! a) \<and>
       0 \<le> columns ! k \<and> columns ! k < int (s ! b)" if "k < ?n" for k
    using that row(2) [OF that] col(2) [OF that] diagonal_start_eq [OF assms(2) start] small
    by (cases "offset = i64_min") (auto simp: int_bounds)
  have all: "\<exists>!k. k < ?n \<and> rows ! k = int i \<and> columns ! k = int j"
    if ij: "i < s ! a" "j < s ! b" "int j - int i = offset" for i j
  proof -
    have "offset \<noteq> i64_min" using ij small by (auto simp: int_bounds)
    then have rc: "row = nat (- offset)" "column = nat offset" using diagonal_start_eq [OF assms(2) start] by auto
    have "i - row < ?n" "row + (i - row) = i" "column + (i - row) = j" using ij rc by auto
    then have "i - row < ?n \<and> rows ! (i - row) = int i \<and> columns ! (i - row) = int j"
      using row(2) col(2) by auto
    moreover have "k = i - row" if "k < ?n \<and> rows ! k = int i \<and> columns ! k = int j" for k
      using that row(2) [of k] by auto
    ultimately show ?thesis by blast
  qed
  show ?thesis
    by (rule exI [of _ a], rule exI [of _ b], rule exI [of _ ?n], rule exI [of _ rows], rule exI [of _ columns],
        intro conjI allI impI)
       (use d(3,6) ab row(1) col(1) lanes all in \<open>simp_all\<close>)
qed

theorem diagonal_visits_offset_witness:
  "\<exists>dp. diagonal_plan_new 0 [3, 4] 1 0 1 = Inr dp \<and> dp_permutation dp = [0, 1] \<and>
    dp_specs dp = [Advanced [3] [0, 1, 2], Advanced [3] [1, 2, 3]]"
proof -
  have ok: "diagonal_plan_new 0 [3, 4] 1 0 1 = Inr \<lparr>dp_permutation = [0, 1],
    dp_specs = [Advanced [3] [0, 1, 2], Advanced [3] [1, 2, 3]]\<rparr>" by code_simp
  have small: "in_i64 1" "int (length [3, 4 :: nat]) \<le> i64_max" "\<forall>d \<in> set [3, 4 :: nat]. int d \<le> i64_max"
    by (simp_all add: int_bounds)
  from diagonal_visits_offset [OF ok small] ok show ?thesis by auto
qed

end
