(* ===== verification/ViewTheorems.thy ===== *)
theory ViewTheorems
  imports Views "HOL-Library.Multiset"
begin

section \<open>What affine views promise\<close>

text \<open>
  The address of a coordinate vector, the soundness of the read validator, the injectivity the
  write validator enforces, and one lemma per movement operation that says which source coordinate
  each logical lane reads. The locales \<open>addressing\<close> and \<open>injective_addressing\<close> state the contract
  that dense tensors rely on; the two validators interpret them.
\<close>

subsection \<open>Addresses of coordinates\<close>

definition dot :: "nat list \<Rightarrow> int list \<Rightarrow> int" where
  "dot cs ss = sum_list (map2 (\<lambda>c s. int c * s) cs ss)"

definition address :: "affine_view \<Rightarrow> nat list \<Rightarrow> int" where
  "address v cs = av_offset v + dot cs (av_strides v)"

definition span_lo :: "nat list \<Rightarrow> int list \<Rightarrow> int" where
  "span_lo ds ss = sum_list (map2 (\<lambda>d s. min 0 (int (d - 1) * s)) ds ss)"

definition span_hi :: "nat list \<Rightarrow> int list \<Rightarrow> int" where
  "span_hi ds ss = sum_list (map2 (\<lambda>d s. max 0 (int (d - 1) * s)) ds ss)"

lemma dot_simps [simp]:
  "dot [] ss = 0" "dot cs [] = 0" "dot (c # cs) (s # ss) = int c * s + dot cs ss"
  by (simp_all add: dot_def)

lemma span_simps [simp]:
  "span_lo [] ss = 0" "span_lo (d # ds) (s # ss) = min 0 (int (d - 1) * s) + span_lo ds ss"
  "span_hi [] ss = 0" "span_hi (d # ds) (s # ss) = max 0 (int (d - 1) * s) + span_hi ds ss"
  by (simp_all add: span_lo_def span_hi_def)

lemma dot_snoc: "length cs = length ss \<Longrightarrow> dot (cs @ [c]) (ss @ [s]) = dot cs ss + int c * s"
  by (simp add: dot_def)

lemma span_snoc:
  "length ds = length ss \<Longrightarrow> span_lo (ds @ [d]) (ss @ [s]) = span_lo ds ss + min 0 (int (d - 1) * s)"
  "length ds = length ss \<Longrightarrow> span_hi (ds @ [d]) (ss @ [s]) = span_hi ds ss + max 0 (int (d - 1) * s)"
  by (simp_all add: span_lo_def span_hi_def)

lemma span_lo_nonpos: "span_lo ds ss \<le> 0"
  by (induction ds ss rule: list_induct2') (simp_all add: span_lo_def)

lemma span_hi_nonneg: "0 \<le> span_hi ds ss"
  by (induction ds ss rule: list_induct2') (simp_all add: span_hi_def)

lemma coordinate_span:
  assumes "c < d"
  shows "min 0 (int (d - 1) * s) \<le> int c * s" "int c * s \<le> max 0 (int (d - 1) * s)"
proof -
  have c: "int c \<le> int (d - 1)" using assms by simp
  show "min 0 (int (d - 1) * s) \<le> int c * s"
  proof (cases "0 \<le> s")
    case True
    then have "0 \<le> int c * s" by simp
    then show ?thesis by simp
  next
    case False
    then have "int (d - 1) * s \<le> int c * s" using c by (intro mult_right_mono_neg) auto
    then show ?thesis by simp
  qed
  show "int c * s \<le> max 0 (int (d - 1) * s)"
  proof (cases "0 \<le> s")
    case True
    then have "int c * s \<le> int (d - 1) * s" using c by (intro mult_right_mono) auto
    then show ?thesis by simp
  next
    case False
    then have "int c * s \<le> 0" by (simp add: mult_nonneg_nonpos)
    then show ?thesis by simp
  qed
qed

lemma dot_span:
  "in_range ds cs \<Longrightarrow> length ss = length ds \<Longrightarrow> span_lo ds ss \<le> dot cs ss \<and> dot cs ss \<le> span_hi ds ss"
proof (induction ds arbitrary: cs ss)
  case (Cons d ds)
  then obtain c cs' s ss' where eq: "cs = c # cs'" "ss = s # ss'"
    by (metis Suc_length_conv in_range_length)
  with Cons.prems have "c < d" "in_range ds cs'" "length ss' = length ds" by auto
  with Cons.IH [of cs' ss'] coordinate_span [of c d s] eq show ?case by auto
qed auto

subsection \<open>The address loop\<close>

definition axis_fits :: "nat \<times> int \<Rightarrow> bool" where
  "axis_fits = (\<lambda>(d, s). int (d - 1) \<le> i64_max \<and> int (d - 1) * \<bar>s\<bar> \<le> i64_max)"

lemma axis_fits_term:
  assumes "axis_fits (d, s)" and "c < d"
  shows "in_i64 (int c * s)" "int c \<le> i64_max"
proof -
  have c: "int c \<le> int (d - 1)" using assms(2) by simp
  then have "\<bar>int c * s\<bar> \<le> int (d - 1) * \<bar>s\<bar>" by (simp add: abs_mult mult_right_mono)
  with assms show "in_i64 (int c * s)" "int c \<le> i64_max"
    using c by (auto simp: axis_fits_def i64_bounds_eq)
qed

lemma offset_fold:
  assumes "length ss = length ds" and "0 \<notin> set ds" and "\<forall>p \<in> set (zip ds ss). axis_fits p"
    and "i64_min \<le> off + span_lo ds ss" and "off + span_hi ds ss \<le> i64_max"
    and "av_logical v = ds" and "av_strides v = ss"
  shows "try_fold (offset_step v) (linear, off) (rev [0..<length ds]) =
         Inr (linear div prod_list ds, off + dot (unravel ds linear) ss)"
  using assms
proof (induction ds arbitrary: ss linear off v rule: rev_induct)
  case Nil
  then show ?case by simp
next
  case (snoc d ds)
  then obtain ss' s where ss: "ss = ss' @ [s]" and len: "length ss' = length ds"
    by (metis length_append_singleton length_Suc_conv_rev)
  let ?c = "linear mod d" and ?v = "v\<lparr>av_logical := ds, av_strides := ss'\<rparr>"
  from snoc.prems have d: "0 < d" "0 \<notin> set ds" by auto
  then have c: "?c < d" by simp
  from snoc.prems ss len have fits: "axis_fits (d, s)" "\<forall>p \<in> set (zip ds ss'). axis_fits p" by auto
  note step_term = axis_fits_term [OF fits(1) c] coordinate_span [OF c, of s]
  have bounds: "i64_min \<le> off + int ?c * s + span_lo ds ss'" "off + int ?c * s + span_hi ds ss' \<le> i64_max"
    using snoc.prems ss len step_term by (simp_all add: span_snoc)
  have "in_i64 (off + int ?c * s)"
    using bounds span_lo_nonpos [of ds ss'] span_hi_nonneg [of ds ss'] by linarith
  then have "checked_i64 (off + int ?c * s) = Some (off + int ?c * s)"
    and "checked_i64 (int ?c * s) = Some (int ?c * s)" and "i64_try_from ?c = Some (int ?c)"
    using step_term by (simp_all add: checked_defs)
  moreover have "av_logical v ! length ds = d" "index_list (av_strides v) (length ds) = Inr s"
    using snoc.prems ss len by (simp_all add: index_list_def nth_append)
  ultimately have step: "offset_step v (linear, off) (length ds) = Inr (linear div d, off + int ?c * s)"
    using d by (simp add: offset_step_def)
  have rest: "try_fold (offset_step v) st (rev [0..<length ds]) =
      try_fold (offset_step ?v) st (rev [0..<length ds])" for st
    using snoc.prems ss len
    by (intro try_fold_cong) (auto simp: offset_step_def Let_def nth_append index_list_def)
  have "try_fold (offset_step ?v) (linear div d, off + int ?c * s) (rev [0..<length ds]) =
      Inr (linear div d div prod_list ds, off + int ?c * s + dot (unravel ds (linear div d)) ss')"
    by (rule snoc.IH) (use len d fits bounds in auto)
  moreover have "linear div prod_list (ds @ [d]) = linear div d div prod_list ds"
    by (simp add: mult.commute [of _ d] div_mult2_eq)
  ultimately show ?case
    using step rest ss len by (simp add: unravel_snoc dot_snoc)
qed

text \<open>What the read validator establishes of a nonempty view.\<close>

lemma axis_span_Inr: "axis_span d s = Inr x \<Longrightarrow> x = int (d - 1) * \<bar>s\<bar> \<and> x \<le> i64_max"
  by (auto simp: axis_span_def result_simps checked_defs split: if_splits)

lemma normalize_axes_Inr:
  "normalize_axes (zip ds ss) mn sp = Inr (mn', sp', ns) \<Longrightarrow> length ss = length ds \<Longrightarrow>
   mn' = mn + span_lo ds ss \<and> mn' + sp' = mn + sp + span_hi ds ss \<and>
   (\<forall>(d, s) \<in> set (zip ds ss). int (d - 1) * \<bar>s\<bar> \<le> i64_max) \<and> length ns = length ds"
proof (induction ds arbitrary: ss mn sp mn' sp' ns)
  case Nil
  then show ?case by simp
next
  case (Cons d ds)
  then obtain s ss' where ss: "ss = s # ss'" and len: "length ss' = length ds"
    by (cases ss) auto
  show ?case
  proof (cases "d \<le> 1")
    case True
    then have "int (d - 1) = 0" by simp
    with True Cons.prems ss len show ?thesis
      by (auto simp: result_simps i64_bounds_eq dest!: Cons.IH)
  next
    case False
    show ?thesis
    proof (cases "s < 0")
      case True
      then have "int (d - 1) * s \<le> 0" by (intro mult_nonneg_nonpos) auto
      with True have "min 0 (int (d - 1) * s) = - (int (d - 1) * \<bar>s\<bar>)" "max 0 (int (d - 1) * s) = 0"
        by simp_all
      with True False Cons.prems ss len show ?thesis
        by (auto simp: result_simps checked_defs dest!: Cons.IH axis_span_Inr)
    next
      case nonneg: False
      then have "0 \<le> int (d - 1) * s" by simp
      with nonneg have "min 0 (int (d - 1) * s) = 0" "max 0 (int (d - 1) * s) = int (d - 1) * \<bar>s\<bar>"
        by simp_all
      with nonneg False Cons.prems ss len show ?thesis
        by (auto simp: result_simps checked_defs dest!: Cons.IH axis_span_Inr)
    qed
  qed
qed

definition small_extents :: "nat list \<Rightarrow> bool" where
  "small_extents ds \<longleftrightarrow> list_all (\<lambda>d. d \<le> 2 ^ 63) ds"

text \<open>A view the read validator accepts, with extents an \<open>i64\<close> coordinate can reach.\<close>

definition readable :: "affine_view \<Rightarrow> bool" where
  "readable v \<longleftrightarrow> validate_read v = Inr () \<and> small_extents (av_logical v)"

lemma validate_read_nonempty:
  assumes "validate_read v = Inr ()" and "0 < prod_list (av_logical v)"
  shows "length (av_strides v) = length (av_logical v)"
    and "0 \<le> av_offset v + span_lo (av_logical v) (av_strides v)"
    and "av_offset v + span_hi (av_logical v) (av_strides v) \<le> i64_max"
    and "av_offset v + span_hi (av_logical v) (av_strides v) < int (prod_list (av_source v))"
    and "\<forall>(d, s) \<in> set (zip (av_logical v) (av_strides v)). int (d - 1) * \<bar>s\<bar> \<le> i64_max"
    and "prod_list (av_logical v) \<le> usize_max" and "numel (av_logical v) = Inr (prod_list (av_logical v))"
proof -
  obtain n where read: "normalized_read v = Inr n"
    using assms(1) by (auto simp: validate_read_def result_simps)
  then show len: "length (av_strides v) = length (av_logical v)"
    by (auto simp: normalized_read_def split: if_splits)
  from read len obtain ln sn where num: "view_numel (av_logical v) = Inr ln" "view_numel (av_source v) = Inr sn"
    by (auto simp: normalized_read_def result_simps)
  then have eqs: "ln = prod_list (av_logical v)" "sn = prod_list (av_source v)"
    and bound: "prod_list (av_logical v) \<le> usize_max"
    by (auto dest: view_numel_InrD)
  from bound show "prod_list (av_logical v) \<le> usize_max" .
  then show "numel (av_logical v) = Inr (prod_list (av_logical v))"
    using assms(2) by (intro numel_ok) (auto simp: prod_list_pos_iff)
  from read len num eqs assms(2) obtain mn sp ns where
    norm: "normalize_axes (zip (av_logical v) (av_strides v)) (av_offset v) 0 = Inr (mn, sp, ns)"
    and range: "0 \<le> mn" "mn + sp \<le> i64_max" "mn + sp < int sn"
    by (auto simp: normalized_read_def result_simps checked_defs split: if_splits prod.splits)
  from normalize_axes_Inr [OF norm len] range eqs
  show "0 \<le> av_offset v + span_lo (av_logical v) (av_strides v)"
    and "av_offset v + span_hi (av_logical v) (av_strides v) \<le> i64_max"
    and "av_offset v + span_hi (av_logical v) (av_strides v) < int (prod_list (av_source v))"
    and "\<forall>(d, s) \<in> set (zip (av_logical v) (av_strides v)). int (d - 1) * \<bar>s\<bar> \<le> i64_max"
    by auto
qed

lemma element_offset_InrD: "element_offset v n = Inr off \<Longrightarrow> n < prod_list (av_logical v)"
  by (auto simp: element_offset_def result_simps split: if_splits dest: view_numel_InrD)

lemma element_offset_address:
  assumes "readable v" and "n < prod_list (av_logical v)"
  shows "element_offset v n = Inr (address v (unravel (av_logical v) n))"
proof -
  let ?ds = "av_logical v" and ?ss = "av_strides v"
  from assms(2) have pos: "0 < prod_list ?ds" by simp
  then have nz: "0 \<notin> set ?ds" by (simp only: prod_list_pos_iff not_False_eq_True)
  note valid = validate_read_nonempty [OF _ pos]
  from assms(1) have v: "validate_read v = Inr ()" and small: "small_extents ?ds"
    by (auto simp: readable_def)
  have "\<forall>p \<in> set (zip ?ds ?ss). axis_fits p"
    using valid(5) [OF v] small
    by (fastforce simp: axis_fits_def small_extents_def list_all_iff i64_bounds_eq dest: set_zip_leftD)
  moreover have "i64_min \<le> av_offset v + span_lo ?ds ?ss"
    using valid(2) [OF v] by (simp add: i64_bounds_eq)
  ultimately have "try_fold (offset_step v) (n, av_offset v) (rev [0..<length ?ds]) =
      Inr (n div prod_list ?ds, av_offset v + dot (unravel ?ds n) ?ss)"
    using valid(1,3) [OF v] nz by (intro offset_fold) auto
  then show ?thesis
    using assms(2) valid(7) [OF v]
    by (simp add: element_offset_def view_numel_def address_def)
qed

lemma address_in_source:
  assumes "readable v" and "in_range (av_logical v) cs"
  shows "0 \<le> address v cs \<and> address v cs < int (prod_list (av_source v)) \<and> address v cs \<le> i64_max"
proof -
  have pos: "0 < prod_list (av_logical v)"
    using in_range_nonzero [OF assms(2)] by (simp add: prod_list_pos_iff)
  note valid = validate_read_nonempty [OF _ pos]
  from assms(1) have v: "validate_read v = Inr ()" by (simp add: readable_def)
  from dot_span [OF assms(2) valid(1) [OF v]] valid(2,3,4) [OF v] show ?thesis
    by (auto simp: address_def)
qed

subsection \<open>Writable views are injective\<close>

definition writable :: "affine_view \<Rightarrow> bool" where
  "writable v \<longleftrightarrow> validate_write v = Inr () \<and> small_extents (av_logical v)"

lemma writable_readable: "writable v \<Longrightarrow> readable v"
  by (auto simp: writable_def readable_def validate_write_def result_simps)

lemma distinct_offsets_Inr:
  "distinct_offsets v is seen = Inr () \<Longrightarrow>
   \<exists>offs. map (element_offset v) is = map Inr offs \<and> distinct offs \<and> set offs \<inter> set seen = {}"
proof (induction "is" arbitrary: seen)
  case (Cons i "is")
  then obtain off where off: "element_offset v i = Inr off" "off \<notin> set seen"
    and rest: "distinct_offsets v is (off # seen) = Inr ()"
    by (auto simp: result_simps split: if_splits)
  from Cons.IH [OF rest] obtain offs where
    "map (element_offset v) is = map Inr offs" "distinct offs" "set offs \<inter> set (off # seen) = {}"
    by blast
  with off show ?case by (intro exI [of _ "off # offs"]) auto
qed simp

lemma writable_injective:
  assumes "writable v" and "m < prod_list (av_logical v)" and "n < prod_list (av_logical v)"
    and "element_offset v m = element_offset v n"
  shows "m = n"
proof -
  from assms(1) obtain k where "view_numel (av_logical v) = Inr k"
    and dist: "distinct_offsets v [0..<k] [] = Inr ()"
    by (auto simp: writable_def validate_write_def result_simps)
  then have k: "k = prod_list (av_logical v)" by (auto dest: view_numel_InrD)
  from distinct_offsets_Inr [OF dist] obtain offs where
    offs: "map (element_offset v) [0..<k] = map Inr offs" "distinct offs" by blast
  from offs(1) have "length offs = k" by (metis length_map length_upt diff_zero)
  moreover have "element_offset v i = Inr (offs ! i)" if "i < k" for i
    using offs(1) that calculation by (metis (no_types) nth_map nth_upt add_0 length_map length_upt diff_zero)
  ultimately show ?thesis
    using assms(2-4) k offs(2) by (metis Inr_inject nth_eq_iff_index_eq)
qed

subsection \<open>The addressing contract\<close>

text \<open>What a client that gathers or scatters lanes through a view needs: addresses exist and stay in
  the source, and, for a scatter, no lane is written twice.\<close>

locale addressing =
  fixes ok :: "'v \<Rightarrow> bool"
    and lanes :: "'v \<Rightarrow> nat"
    and source_len :: "'v \<Rightarrow> nat"
    and lane_address :: "'v \<Rightarrow> nat \<Rightarrow> ('e, int) result"
  assumes address_ok: "ok v \<Longrightarrow> i < lanes v \<Longrightarrow>
    \<exists>a. lane_address v i = Inr (int a) \<and> a < source_len v"
begin

lemma addresses_ok:
  assumes "ok v" and "n \<le> lanes v"
  shows "\<exists>as. try_map (lane_address v) [0..<n] = Inr (map int as) \<and> length as = n \<and>
           (\<forall>a \<in> set as. a < source_len v)"
proof -
  let ?a = "\<lambda>i. SOME a. lane_address v i = Inr (int a) \<and> a < source_len v"
  have a: "lane_address v i = Inr (int (?a i)) \<and> ?a i < source_len v" if "i < n" for i
    using address_ok [OF assms(1), of i] that assms(2) by (metis (mono_tags, lifting) less_le_trans someI_ex)
  then have "try_map (lane_address v) [0..<n] = Inr (map (\<lambda>i. int (?a i)) [0..<n])"
    by (intro try_map_ok) auto
  with a show ?thesis by (intro exI [of _ "map ?a [0..<n]"]) (auto simp: comp_def)
qed

end

locale injective_addressing = addressing +
  assumes address_inj: "ok v \<Longrightarrow> i < lanes v \<Longrightarrow> j < lanes v \<Longrightarrow>
    lane_address v i = lane_address v j \<Longrightarrow> i = j"
begin

lemma addresses_distinct:
  assumes "ok v" and "n \<le> lanes v" and "try_map (lane_address v) [0..<n] = Inr as"
  shows "distinct as"
proof -
  from assms(3) have "length as = n" and "\<And>i. i < n \<Longrightarrow> lane_address v i = Inr (as ! i)"
    by (auto simp: try_map_Inr_iff)
  then show ?thesis
    using address_inj [OF assms(1)] assms(2) by (auto simp: distinct_conv_nth)
qed

end

lemma readable_address:
  assumes "readable v" and "i < prod_list (av_logical v)"
  shows "\<exists>a. element_offset v i = Inr (int a) \<and> a < prod_list (av_source v)"
proof -
  have "0 \<notin> set (av_logical v)"
    using assms(2) prod_list_pos_iff [of "av_logical v"] by simp
  then have "in_range (av_logical v) (unravel (av_logical v) i)" by (rule unravel_in_range)
  from address_in_source [OF assms(1) this] element_offset_address [OF assms] show ?thesis
    by (intro exI [of _ "nat (address v (unravel (av_logical v) i))"]) auto
qed

interpretation read_view: addressing readable "\<lambda>v. prod_list (av_logical v)"
  "\<lambda>v. prod_list (av_source v)" element_offset
  by unfold_locales (rule readable_address)

interpretation write_view: injective_addressing writable "\<lambda>v. prod_list (av_logical v)"
  "\<lambda>v. prod_list (av_source v)" element_offset
  by unfold_locales (auto intro: readable_address writable_readable writable_injective)

subsection \<open>Movement operations read the coordinates they name\<close>

text \<open>Every operation ends in a validation, so its result addresses through \<open>address\<close>; what is
  left is an identity of dot products.\<close>

lemma element_offset_at:
  assumes "readable v" and "in_range (av_logical v) cs"
  shows "element_offset v (ravel (av_logical v) cs) = Inr (address v cs)"
  using element_offset_address [OF assms(1) ravel_less [OF assms(2)]] unravel_ravel [OF assms(2)]
  by simp

lemma dot_map2_add:
  "length as = length ss \<Longrightarrow> length cs = length ss \<Longrightarrow>
   dot (map2 (+) as cs) ss = dot as ss + dot cs ss"
proof (induction ss arbitrary: as cs)
  case (Cons s ss)
  then show ?case by (cases as; cases cs) (auto simp: distrib_right)
qed simp

lemma shrink_loop_Inr:
  "shrink_loop bs ds ss off = Inr (off', logical) \<Longrightarrow> length bs = length ds \<Longrightarrow>
   length ss = length ds \<Longrightarrow>
   off' = off + dot (map fst bs) ss \<and> logical = map (\<lambda>(a, b). b - a) bs \<and>
   list_all2 (\<lambda>(a, b) d. a \<le> b \<and> b \<le> d) bs ds"
proof (induction bs arbitrary: ds ss off off' logical)
  case (Cons b bs)
  obtain start stop where b: "b = (start, stop)" by (cases b)
  from Cons.prems obtain d ds' s ss' where eqs: "ds = d # ds'" "ss = s # ss'"
    by (metis length_Suc_conv)
  from Cons.prems b eqs obtain l where
    ok: "start \<le> stop" "stop \<le> d"
    and rest: "shrink_loop bs ds' ss' (off + int start * s) = Inr (off', l)"
    and l: "logical = (stop - start) # l"
    by (auto simp: result_simps checked_defs split: if_splits)
  from Cons.IH [OF rest] Cons.prems eqs b ok l show ?case by auto
qed auto

lemma shrunk_small:
  "list_all2 (\<lambda>(a, b) d. a \<le> b \<and> b \<le> d) bs ds \<Longrightarrow> small_extents ds \<Longrightarrow>
   small_extents (map (\<lambda>(a, b). b - a) bs)"
  by (induction rule: list_all2_induct) (auto simp: small_extents_def)

lemma small_extents_select:
  "set axes \<subseteq> {0..<length ds} \<Longrightarrow> small_extents ds \<Longrightarrow> small_extents (map ((!) ds) axes)"
  by (auto simp: small_extents_def list_all_iff)

lemma map2_starts: "map2 (\<lambda>(a, b) c. a + c) bs cs = map2 (+) (map fst bs) cs"
  by (induction bs cs rule: list_induct2') auto

lemma shifted_in_range:
  "list_all2 (\<lambda>(a, b) d. a \<le> b \<and> b \<le> d) bs ds \<Longrightarrow> in_range (map (\<lambda>(a, b). b - a) bs) cs \<Longrightarrow>
   in_range ds (map2 (\<lambda>(a, b) c. a + c) bs cs)"
proof (induction bs ds arbitrary: cs rule: list_all2_induct)
  case (Cons b bs d ds)
  then show ?case by (cases cs) auto
qed auto

lemma validate_read_length:
  "validate_read v = Inr () \<Longrightarrow> length (av_strides v) = length (av_logical v)"
  by (auto simp: validate_read_def normalized_read_def result_simps split: if_splits)

text \<open>Shrinking reads the window: lane \<open>cs\<close> of the result is lane \<open>starts + cs\<close> of the input.\<close>

lemma shrink_reads_shifted:
  assumes "readable v" and "shrink v bounds = Inr w" and "in_range (av_logical w) cs"
  shows "element_offset w (ravel (av_logical w) cs) =
         element_offset v (ravel (av_logical v) (map2 (\<lambda>(a, b) c. a + c) bounds cs))"
proof -
  have len: "length (av_strides v) = length (av_logical v)"
    using assms(1) by (simp add: readable_def validate_read_length)
  from assms(2) obtain off logical where lb: "length bounds = length (av_logical v)"
    and loop: "shrink_loop bounds (av_logical v) (av_strides v) (av_offset v) = Inr (off, logical)"
    and w: "w = v\<lparr>av_logical := logical, av_offset := off\<rparr>" and ok: "validate_read w = Inr ()"
    by (auto simp: shrink_def result_simps Let_def split: if_splits prod.splits)
  from shrink_loop_Inr [OF loop lb len] have
    off: "off = av_offset v + dot (map fst bounds) (av_strides v)"
    and logical: "logical = map (\<lambda>(a, b). b - a) bounds"
    and bnds: "list_all2 (\<lambda>(a, b) d. a \<le> b \<and> b \<le> d) bounds (av_logical v)" by auto
  have "small_extents logical"
    using assms(1) shrunk_small [OF bnds] by (simp add: logical readable_def)
  with ok w have "readable w" by (simp add: readable_def)
  moreover have range: "in_range (av_logical v) (map2 (\<lambda>(a, b) c. a + c) bounds cs)"
    using shifted_in_range [OF bnds] assms(3) w logical by simp
  moreover have "address w cs = address v (map2 (\<lambda>(a, b) c. a + c) bounds cs)"
    using w off lb len logical in_range_length [OF assms(3)]
    by (simp add: address_def dot_map2_add map2_starts)
  ultimately show ?thesis
    using assms by (simp add: element_offset_at)
qed

lemma sum_list_permutation:
  assumes "sort axes = [0..<n]"
  shows "sum_list (map f axes) = sum_list (map f [0..<n] :: int list)"
proof -
  have "mset axes = mset [0..<n]" using assms by (metis mset_sort)
  then have "mset (map f axes) = mset (map f [0..<n])" by (simp only: mset_map)
  then show ?thesis by (metis sum_mset_sum_list)
qed

lemma permutation_set: "sort axes = [0..<n] \<Longrightarrow> set axes = {0..<n}"
  by (metis set_sort set_upt)

lemma permutation_length: "sort axes = [0..<n] \<Longrightarrow> length axes = n"
  by (metis length_sort length_upt diff_zero)

lemma dot_permute:
  assumes "sort axes = [0..<length ss]" and "length cs = length ss"
  shows "dot (map ((!) cs) axes) (map ((!) ss) axes) = dot cs ss"
proof -
  have "dot (map ((!) cs) axes) (map ((!) ss) axes) = sum_list (map (\<lambda>i. int (cs ! i) * ss ! i) axes)"
    unfolding dot_def by (simp add: zip_map_map zip_same_conv_map comp_def)
  also have "\<dots> = sum_list (map (\<lambda>i. int (cs ! i) * ss ! i) [0..<length ss])"
    by (rule sum_list_permutation [OF assms(1)])
  also have "\<dots> = dot cs ss"
    unfolding dot_def using assms(2)
    by (intro arg_cong [where f = sum_list] nth_equalityI) auto
  finally show ?thesis .
qed

text \<open>Permuting reads the permuted axes: lane \<open>cs\<close> of the input is the lane of the result with
  the coordinates picked in the order of the axes.\<close>

lemma permute_reads_permuted:
  assumes "readable v" and "permute v axes = Inr w" and "in_range (av_logical v) cs"
  shows "element_offset w (ravel (av_logical w) (map ((!) cs) axes)) =
         element_offset v (ravel (av_logical v) cs)"
proof -
  have len: "length (av_strides v) = length (av_logical v)"
    using assms(1) by (simp add: readable_def validate_read_length)
  from assms(2) obtain ss where perm: "sort axes = [0..<length (av_logical v)]"
    and ss: "try_map (index_list (av_strides v)) axes = Inr ss"
    and w: "w = v\<lparr>av_logical := map ((!) (av_logical v)) axes, av_strides := ss\<rparr>"
    and ok: "validate_read w = Inr ()"
    by (auto simp: permute_def result_simps Let_def split: if_splits)
  from ss have ss_eq: "ss = map ((!) (av_strides v)) axes"
    by (auto simp: try_map_Inr_iff result_simps intro: nth_equalityI)
  have "small_extents (av_logical w)"
    using assms(1) w permutation_set [OF perm] by (simp add: readable_def small_extents_select)
  with ok have "readable w" by (simp add: readable_def)
  moreover have "in_range (av_logical w) (map ((!) cs) axes)"
    using assms(3) w permutation_set [OF perm] by (auto simp: in_range_nth) (metis atLeastLessThan_iff nth_mem)
  moreover have "address w (map ((!) cs) axes) = address v cs"
    using w ss_eq dot_permute [of axes "av_strides v" cs] perm len in_range_length [OF assms(3)]
    by (simp add: address_def)
  ultimately show ?thesis
    using assms by (simp add: element_offset_at)
qed

subsection \<open>Flip\<close>

lemma dot_update:
  "i < length cs \<Longrightarrow> length ss = length cs \<Longrightarrow>
   dot (cs[i := c]) (ss[i := s]) = dot cs ss - int (cs ! i) * ss ! i + int c * s"
proof (induction cs arbitrary: ss i)
  case (Cons a cs)
  then show ?case by (cases ss; cases i) auto
qed simp

text \<open>Flipping an axis mirrors its coordinate.\<close>

lemma flip_reads_mirrored:
  assumes "readable v" and "flip v axis = Inr w" and "in_range (av_logical v) cs"
  shows "element_offset w (ravel (av_logical w) (cs[axis := av_logical v ! axis - 1 - cs ! axis])) =
         element_offset v (ravel (av_logical v) cs)"
proof -
  let ?d = "av_logical v ! axis" and ?s = "av_strides v ! axis"
  let ?c = "?d - 1 - cs ! axis"
  have len: "length (av_strides v) = length (av_logical v)"
    using assms(1) by (simp add: readable_def validate_read_length)
  note lc = in_range_length [OF assms(3)]
  from assms(2) have axis: "axis < length (av_logical v)"
    and w: "w = v\<lparr>av_offset := av_offset v + (int ?d - 1) * ?s,
                 av_strides := (av_strides v)[axis := - ?s]\<rparr>"
    and ok: "validate_write w = Inr ()"
    by (auto simp: flip_def result_simps checked_defs Let_def split: if_splits)
  then have "writable w" using assms(1) by (simp add: writable_def readable_def)
  then have "readable w" by (rule writable_readable)
  have c: "cs ! axis < ?d" using assms(3) axis by (simp add: in_range_nth)
  then have range: "in_range (av_logical w) (cs[axis := ?c])"
    using assms(3) axis w by (auto simp: in_range_nth nth_list_update)
  have "int ?c = int ?d - 1 - int (cs ! axis)" using c by simp
  then have "address w (cs[axis := ?c]) = address v cs"
    using w axis len lc by (simp add: address_def dot_update algebra_simps)
  with \<open>readable w\<close> range assms show ?thesis by (simp add: element_offset_at)
qed

subsection \<open>Expand\<close>

definition broadcast_coords :: "nat list \<Rightarrow> nat list \<Rightarrow> nat list" where
  "broadcast_coords ds cs = map2 (\<lambda>d c. if d = 1 then 0 else c) ds cs"

lemma broadcast_coords_simps [simp]:
  "broadcast_coords [] cs = []" "broadcast_coords ds [] = []"
  "broadcast_coords (d # ds) (c # cs) = (if d = 1 then 0 else c) # broadcast_coords ds cs"
  by (auto simp: broadcast_coords_def)

lemma expand_strides_Inr:
  "expand_strides ds os ss = Inr ts \<Longrightarrow> length os = length ds \<Longrightarrow> length ss = length ds \<Longrightarrow>
   length ts = length ds \<and>
   (\<forall>cs. in_range os cs \<longrightarrow> in_range ds (broadcast_coords ds cs) \<and>
         dot cs ts = dot (broadcast_coords ds cs) ss)"
proof (induction ds os ss arbitrary: ts rule: expand_strides.induct)
  case (1 inp ins outp os stride ss)
  show ?case
  proof (cases "inp = outp")
    case True
    with 1 obtain r where r: "expand_strides ins os ss = Inr r" "ts = stride # r"
      by (auto simp: result_simps)
    note IH = 1(1) [OF True r(1)]
    have "in_range (inp # ins) (broadcast_coords (inp # ins) cs) \<and>
          dot cs ts = dot (broadcast_coords (inp # ins) cs) (stride # ss)"
      if "in_range (outp # os) cs" for cs
      using that IH 1(4,5) r True by (cases cs) auto
    with IH 1(4,5) r show ?thesis by simp
  next
    case False
    with 1 obtain r where one: "inp = 1" and r: "expand_strides ins os ss = Inr r" "ts = 0 # r"
      by (auto simp: result_simps split: if_splits)
    note IH = 1(2) [OF False one r(1)]
    have "in_range (inp # ins) (broadcast_coords (inp # ins) cs) \<and>
          dot cs ts = dot (broadcast_coords (inp # ins) cs) (stride # ss)"
      if "in_range (outp # os) cs" for cs
      using that IH 1(4,5) r one by (cases cs) auto
    with IH 1(4,5) r show ?thesis by simp
  qed
qed auto

lemma in_range_drop: "in_range ds cs \<Longrightarrow> in_range (drop k ds) (drop k cs)"
  by (simp add: in_range_def list_all2_dropI)

lemma dot_replicate_zero: "length cs = n + length ss \<Longrightarrow> dot cs (replicate n 0 @ ss) = dot (drop n cs) ss"
proof (induction n arbitrary: cs)
  case (Suc n)
  then show ?case by (cases cs) auto
qed simp

text \<open>Expanding broadcasts: a lane of the result reads the input lane with the leading coordinates
  dropped and the coordinates of singleton axes set to 0.\<close>

lemma expand_reads_broadcast:
  assumes "readable v" and "expand v s = Inr w" and "small_extents s" and "in_range s cs"
  shows "element_offset w (ravel s cs) =
         element_offset v (ravel (av_logical v)
           (broadcast_coords (av_logical v) (drop (length s - length (av_logical v)) cs)))"
proof -
  let ?pad = "length s - length (av_logical v)"
  have len: "length (av_strides v) = length (av_logical v)"
    using assms(1) by (simp add: readable_def validate_read_length)
  from assms(2) obtain ss where le: "length (av_logical v) \<le> length s"
    and ss: "expand_strides (av_logical v) (drop ?pad s) (av_strides v) = Inr ss"
    and w: "w = v\<lparr>av_logical := s, av_strides := replicate ?pad 0 @ ss\<rparr>"
    and ok: "validate_read w = Inr ()"
    by (auto simp: expand_def result_simps Let_def split: if_splits)
  have "readable w" using ok w assms(3) by (simp add: readable_def)
  from expand_strides_Inr [OF ss] le len have
    lss: "length ss = length (av_logical v)" and
    step: "\<And>cs. in_range (drop ?pad s) cs \<Longrightarrow>
        in_range (av_logical v) (broadcast_coords (av_logical v) cs) \<and>
        dot cs ss = dot (broadcast_coords (av_logical v) cs) (av_strides v)"
    by auto
  note sub = step [OF in_range_drop [OF assms(4), of ?pad]]
  have "address w cs = address v (broadcast_coords (av_logical v) (drop ?pad cs))"
    using sub w lss le in_range_length [OF assms(4)]
    by (simp add: address_def dot_replicate_zero)
  moreover have "av_logical w = s" using w by simp
  ultimately show ?thesis
    using \<open>readable w\<close> assms(1,4) sub element_offset_at [of w cs] by (simp add: element_offset_at)
qed

subsection \<open>Reshape\<close>

text \<open>Row-major strides: the dot product is the linear index, the largest address the last one.\<close>

lemma as_i64_small: "int n \<le> i64_max \<Longrightarrow> as_i64 n = int n"
  by (simp add: as_i64_def)

lemma suffix_axis_bound:
  "0 \<notin> set ds \<Longrightarrow> (d, p) \<in> set (zip ds (suffix_products ds)) \<Longrightarrow> d * p \<le> prod_list ds \<and> 0 < p"
proof (induction ds)
  case (Cons a ds)
  then have "0 < prod_list ds" by (simp add: prod_list_pos_iff)
  with Cons show ?case
    by (cases "a = 0") (auto intro: le_trans [of _ "prod_list ds"])
qed simp

lemma suffix_stride_fits:
  assumes "0 \<notin> set ds" and "int (prod_list ds) - 1 \<le> i64_max"
    and "(d, p) \<in> set (zip ds (suffix_products ds))"
  shows "axis_fits (d, as_i64 p)" and "1 < d \<Longrightarrow> as_i64 p = int p"
proof -
  have d: "d \<in> set ds" using assms(3) by (rule set_zip_leftD)
  from suffix_axis_bound [OF assms(1,3)] have dp: "d * p \<le> prod_list ds" and p: "0 < p" by auto
  have "int d \<le> int (prod_list ds)" using d assms(1) by (simp add: prod_list_ge_elem)
  with assms(2) have coord: "int (d - 1) \<le> i64_max" using assms(1) d by (cases d) auto
  show eq: "1 < d \<Longrightarrow> as_i64 p = int p"
  proof -
    assume "1 < d"
    then have "2 * p \<le> d * p" by simp
    with dp have "2 * int p \<le> int (prod_list ds)" by linarith
    with assms(2) p show ?thesis by (intro as_i64_small) (simp add: i64_bounds_eq)
  qed
  show "axis_fits (d, as_i64 p)"
  proof (cases "1 < d")
    case True
    have "int (d - 1) * int p = int (d * p) - int p"
      using True by (simp add: of_nat_diff left_diff_distrib)
    also have "\<dots> \<le> i64_max" using dp p assms(2) by linarith
    finally show ?thesis using coord eq [OF True] by (simp add: axis_fits_def)
  next
    case False
    then have "d - 1 = 0" by simp
    then show ?thesis using coord by (simp add: axis_fits_def i64_bounds_eq)
  qed
qed

lemma suffix_dot_and_spans:
  "0 \<notin> set ds \<Longrightarrow> (\<forall>(d, p) \<in> set (zip ds (suffix_products ds)). 1 < d \<longrightarrow> as_i64 p = int p) \<Longrightarrow>
   dot (unravel ds n) (map as_i64 (suffix_products ds)) = int (n mod prod_list ds) \<and>
   span_lo ds (map as_i64 (suffix_products ds)) = 0 \<and>
   span_hi ds (map as_i64 (suffix_products ds)) = int (prod_list ds) - 1"
proof (induction ds)
  case (Cons d ds)
  let ?P = "prod_list ds" and ?c = "n div prod_list ds mod d"
  from Cons.prems have nz: "0 \<notin> set ds" and d: "0 < d" and P: "0 < ?P"
    by (auto simp: prod_list_pos_iff)
  from Cons.prems have rest: "\<forall>(d, p) \<in> set (zip ds (suffix_products ds)). 1 < d \<longrightarrow> as_i64 p = int p"
    and head: "1 < d \<Longrightarrow> as_i64 ?P = int ?P" by auto
  note IH = Cons.IH [OF nz rest]
  have c: "?c \<le> d - 1" using d by (metis Suc_pred' less_Suc_eq_le mod_less_divisor)
  have coord: "int ?c * as_i64 ?P = int (?c * ?P)" "int (d - 1) * as_i64 ?P = int ((d - 1) * ?P)"
    using head c by (cases "1 < d"; simp)+
  have "int (n mod (d * ?P)) = int (?c * ?P) + int (n mod ?P)"
    using mod_mult2_eq [of n ?P d] by (simp add: mult.commute [of d])
  moreover have "int ((d - 1) * ?P) + (int ?P - 1) = int (d * ?P) - 1"
    using d by (simp add: of_nat_diff left_diff_distrib)
  moreover have "min 0 (int (d - 1) * as_i64 ?P) + 0 = 0 \<and>
      max 0 (int (d - 1) * as_i64 ?P) + (int ?P - 1) = int (d * ?P) - 1"
    unfolding coord(2) calculation(2) [symmetric] by simp
  ultimately show ?case using IH coord(1) by (simp only: suffix_products.simps list.map unravel.simps
      dot_simps span_simps prod_list.Cons)
qed simp

lemma dot_suffix_products: "dot (unravel ds n) (map int (suffix_products ds)) = int (n mod prod_list ds)"
proof -
  have "dot cs (map int ps) = int (sum_list (map2 (*) cs ps))" for cs ps
    by (induction cs ps rule: list_induct2') auto
  then show ?thesis by (simp add: ravel_suffix_products [symmetric] ravel_unravel)
qed

lemma span_hi_suffix_products:
  "0 \<notin> set ds \<Longrightarrow> span_hi ds (map int (suffix_products ds)) = int (prod_list ds) - 1"
proof (induction ds)
  case (Cons d ds)
  then have "1 \<le> d" by simp
  then have "int (d - 1) * int (prod_list ds) = int d * int (prod_list ds) - int (prod_list ds)"
    by (simp add: of_nat_diff left_diff_distrib)
  moreover have "0 \<le> int (d - 1) * int (prod_list ds)" by simp
  ultimately show ?case using Cons by simp
qed simp

lemma as_unsigned_Inr:
  "as_unsigned v = Inr u \<Longrightarrow> av_strides v = map int (vm_strides u) \<and> av_offset v = int (vm_offset u) \<and>
   vm_source u = av_source v \<and> vm_logical u = av_logical v \<and> validate_read v = Inr ()"
  by (auto simp: as_unsigned_def result_simps checked_defs try_map_Inr_iff split: if_splits
      intro!: nth_equalityI)

lemma reshape_dense:
  assumes "readable v" and "as_unsigned v = Inr u" and "vm_reshape u s = Inr r"
    and "prod_list s = prod_list (av_logical v)" and "n < prod_list s"
    and "numel s = Inr (prod_list s)"
  shows "element_offset (affine_of_view_map r) n = element_offset v n"
proof -
  let ?ds = "av_logical v" and ?w = "affine_of_view_map r"
  note u = as_unsigned_Inr [OF assms(2)]
  from assms(4,5) have pos: "0 < prod_list ?ds" "0 < prod_list s" by auto
  then have nz: "0 \<notin> set ?ds" "0 \<notin> set s" by (simp_all only: prod_list_pos_iff not_False_eq_True)
  from assms(1) have v: "validate_read v = Inr ()" by (simp add: readable_def)
  note valid = validate_read_nonempty [OF v pos(1)]
  have ss: "av_strides v = map int (suffix_products ?ds)"
    and r: "r = u\<lparr>vm_logical := s, vm_strides := suffix_products s\<rparr>"
    using assms(3,4) u valid(6) nz by (auto simp: vm_reshape_def contiguous_strides_exact split: if_splits)
  have fits: "int (vm_offset u) + (int (prod_list s) - 1) \<le> i64_max"
    using valid(3) ss u nz assms(4) by (simp add: span_hi_suffix_products)
  then have total: "int (prod_list s) - 1 \<le> i64_max" and off: "int (vm_offset u) \<le> i64_max"
    using pos by auto
  have stride: "\<forall>(d, p) \<in> set (zip s (suffix_products s)). 1 < d \<longrightarrow> as_i64 p = int p"
    using suffix_stride_fits(2) [OF nz(2) total] by auto
  have axes: "\<forall>p \<in> set (zip s (map as_i64 (suffix_products s))). axis_fits p"
    using suffix_stride_fits(1) [OF nz(2) total] by (auto simp: zip_map2)
  note spans = suffix_dot_and_spans [OF nz(2) stride]
  have w: "av_logical ?w = s" "av_strides ?w = map as_i64 (suffix_products s)" "av_offset ?w = int (vm_offset u)"
    using r off by (simp_all add: affine_of_view_map_def as_i64_small)
  have "try_fold (offset_step ?w) (n, int (vm_offset u)) (rev [0..<length s]) =
      Inr (n div prod_list s, int (vm_offset u) + dot (unravel s n) (map as_i64 (suffix_products s)))"
    by (rule offset_fold) (use axes nz fits spans w off in \<open>auto simp: i64_bounds_eq\<close>)
  then have "element_offset ?w n = Inr (int (vm_offset u) + int (n mod prod_list s))"
    using w spans assms(5,6) by (simp add: element_offset_def view_numel_def)
  moreover have "element_offset v n = Inr (int (vm_offset u) + int (n mod prod_list s))"
    using element_offset_address [OF assms(1)] assms(4,5) ss u
    by (simp add: address_def dot_suffix_products)
  ultimately show ?thesis by simp
qed

lemma prod_list_drop_singletons: "prod_list (filter (\<lambda>d. d \<noteq> 1) ds) = prod_list (ds :: nat list)"
  by (induction ds) auto

lemma dot_drop_singletons:
  "length ss = length ds \<Longrightarrow>
   dot (unravel ds n) ss = dot (unravel (filter (\<lambda>d. d \<noteq> 1) ds) n)
     (map snd (filter (\<lambda>(d, _). d \<noteq> 1) (zip ds ss)))"
proof (induction ds arbitrary: ss)
  case (Cons d ds)
  then obtain s ss' where "ss = s # ss'" by (cases ss) auto
  with Cons show ?case
    using prod_list_drop_singletons [of ds] by auto
qed simp

lemma singleton_strides_Inr:
  "singleton_strides s axes = Inr (ss, rest) \<Longrightarrow>
   length ss = length s \<and> map snd (filter (\<lambda>(d, _). d \<noteq> 1) (zip s ss)) @ rest = axes"
  by (induction s arbitrary: axes ss rest) (auto simp: result_simps split: if_splits list.splits prod.splits)

lemma filter_fst_zip:
  "length ss = length ds \<Longrightarrow>
   map fst (filter (\<lambda>(d, _). P d) (zip ds ss)) = filter P ds"
proof (induction ds arbitrary: ss)
  case (Cons d ds)
  then show ?case by (cases ss) auto
qed simp

lemma reshape_singletons_reads:
  assumes "readable v" and "reshape_singletons v s = Inr w"
    and "prod_list s = prod_list (av_logical v)" and "n < prod_list s"
  shows "element_offset w n = element_offset v n"
proof -
  have len: "length (av_strides v) = length (av_logical v)"
    using assms(1) by (simp add: readable_def validate_read_length)
  let ?axes = "filter (\<lambda>(d, _). d \<noteq> 1) (zip (av_logical v) (av_strides v))"
  from assms(2) len obtain ss where
    same: "filter (\<lambda>d. d \<noteq> 1) (av_logical v) = filter (\<lambda>d. d \<noteq> 1) s"
    and ss: "singleton_strides s (map snd ?axes) = Inr (ss, [])"
    and w: "w = v\<lparr>av_logical := s, av_strides := ss\<rparr>" and ok: "validate_read w = Inr ()"
    by (auto simp: reshape_singletons_def filter_fst_zip Let_def result_simps split: if_splits)
  note ss' = singleton_strides_Inr [OF ss]
  have "set s \<subseteq> set (filter (\<lambda>d. d \<noteq> 1) s) \<union> {1}" by auto
  then have "small_extents s"
    using assms(1) unfolding same [symmetric] by (fastforce simp: readable_def small_extents_def list_all_iff)
  with ok w have "readable w" by (simp add: readable_def)
  moreover have "address w (unravel s n) = address v (unravel (av_logical v) n)"
    using ss' w dot_drop_singletons [of ss s n] dot_drop_singletons [OF len, of n]
    unfolding same by (simp add: address_def)
  ultimately show ?thesis
    using assms w by (simp add: element_offset_address)
qed

text \<open>A reshape that succeeds keeps the row-major order: lane \<open>n\<close> of the result reads what lane
  \<open>n\<close> of the input reads, whichever of the three paths of the source produced it.\<close>

lemma reshape_reads_same_lane:
  assumes "readable v" and "reshape_read v s = Inr w" and "n < prod_list (av_logical v)"
  shows "element_offset w n = element_offset v n"
proof -
  from assms(2) obtain k where num: "view_numel (av_logical v) = Inr k" "view_numel s = Inr k"
    by (auto simp: reshape_read_def result_simps split: if_splits)
  then have k: "prod_list s = prod_list (av_logical v)" "k = prod_list s"
    and s: "numel s = Inr (prod_list s)"
    by (auto dest: numel_InrD simp: view_numel_def result_simps)
  with assms(3) have "0 < k" "n < prod_list s" by auto
  show ?thesis
  proof (cases "rbind (as_unsigned v) (\<lambda>u. vm_reshape u s)")
    case (Inl e)
    with assms(2) num \<open>0 < k\<close> have "reshape_singletons v s = Inr w" by (simp add: reshape_read_def)
    with assms(1) k \<open>n < prod_list s\<close> show ?thesis by (intro reshape_singletons_reads)
  next
    case (Inr r)
    with assms(2) num \<open>0 < k\<close> have "w = affine_of_view_map r" by (simp add: reshape_read_def)
    with Inr assms(1) k s \<open>n < prod_list s\<close> show ?thesis
      by (auto simp: result_simps intro: reshape_dense)
  qed
qed


subsection \<open>The validators\<close>

text \<open>C6: a view the read validator accepts addresses only its source: gathering its first \<open>n\<close>
  logical lanes succeeds, and every address is a lane of the source.\<close>

theorem validated_reads_stay_inside:
  assumes "validate_read v = Inr ()" and "\<forall>d \<in> set (av_logical v). d \<le> 2 ^ 63"
    and "n \<le> prod_list (av_logical v)"
  shows "\<exists>as. try_map (element_offset v) [0..<n] = Inr (map int as) \<and> length as = n \<and>
           (\<forall>a \<in> set as. a < prod_list (av_source v))"
  by (rule read_view.addresses_ok)
     (use assms in \<open>simp_all add: readable_def small_extents_def list_all_iff\<close>)

text \<open>C7: a view the write validator accepts is injective: the addresses of its logical lanes are
  pairwise different, so a scatter through it writes no lane twice.\<close>

theorem validated_writes_are_injective:
  assumes "validate_write v = Inr ()" and "\<forall>d \<in> set (av_logical v). d \<le> 2 ^ 63"
    and "try_map (element_offset v) [0..<prod_list (av_logical v)] = Inr as"
  shows "distinct as"
  by (rule write_view.addresses_distinct [of v "prod_list (av_logical v)"])
     (use assms in \<open>simp_all add: writable_def small_extents_def list_all_iff\<close>)

subsection \<open>A sample view\<close>

definition sample_view :: affine_view where
  "sample_view = \<lparr>av_source = [2, 3], av_logical = [2, 3], av_strides = [3, 1], av_offset = 0\<rparr>"

lemmas view_eval = validate_read_def normalized_read_def view_numel_def numel_def checked_mul_u_def
  checked_u_def axis_span_def checked_i128_def usize_of_int_def int_bounds validate_write_def
  element_offset_def offset_step_def i64_try_from_def checked_i64_def index_list_def Let_def

lemma sample_readable: "validate_read sample_view = Inr ()"
  by (simp add: sample_view_def view_eval)

lemma sample_writable: "validate_write sample_view = Inr ()"
  by (simp add: sample_view_def view_eval upt_rec)

lemma sample_ok: "readable sample_view"
  by (simp add: readable_def sample_readable) (simp add: sample_view_def small_extents_def)

theorem validated_reads_stay_inside_witness:
  "\<exists>as. try_map (element_offset sample_view) [0..<6] = Inr (map int as) \<and> length as = 6 \<and>
     (\<forall>a \<in> set as. a < 6)"
  using validated_reads_stay_inside [OF sample_readable, of 6] by (simp add: sample_view_def)

theorem validated_writes_are_injective_witness: "distinct [0, 1, 2, 3, 4, 5 :: int]"
proof (rule validated_writes_are_injective [OF sample_writable])
  show "try_map (element_offset sample_view) [0..<prod_list (av_logical sample_view)] = Inr [0, 1, 2, 3, 4, 5]"
    by (simp add: sample_view_def view_eval upt_rec)
qed (simp add: sample_view_def)

theorem reshape_reads_same_lane_witness:
  "\<exists>w. reshape_read sample_view [3, 2] = Inr w \<and> element_offset w 4 = Inr 4"
proof -
  let ?w = "sample_view\<lparr>av_logical := [3, 2], av_strides := [2, 1]\<rparr>"
  have s: "reshape_read sample_view [3, 2] = Inr ?w"
    by (simp add: reshape_read_def as_unsigned_def vm_reshape_def contiguous_strides_def
        numel_ok_part_def affine_of_view_map_def as_i64_def sample_view_def view_eval)
  have "element_offset ?w 4 = element_offset sample_view 4"
    using reshape_reads_same_lane [OF sample_ok s, of 4] by (simp add: sample_view_def)
  also have "\<dots> = Inr 4" by (simp add: sample_view_def view_eval upt_rec)
  finally show ?thesis using s by blast
qed

text \<open>C8: every movement of a readable view reads the lanes its name says: a shrunk view the window its
  bounds name, a permuted one the permuted axes, a flipped one the mirrored coordinate of its axis, and
  an expanded one the input lane with the leading coordinates dropped and those of singleton axes 0.\<close>

theorem view_movements_read:
  assumes "readable v"
  shows "(\<forall>w bounds cs. shrink v bounds = Inr w \<longrightarrow> in_range (av_logical w) cs \<longrightarrow>
      element_offset w (ravel (av_logical w) cs) =
      element_offset v (ravel (av_logical v) (map2 (\<lambda>(a, b) c. a + c) bounds cs))) \<and>
    (\<forall>w axes cs. permute v axes = Inr w \<longrightarrow> in_range (av_logical v) cs \<longrightarrow>
      element_offset w (ravel (av_logical w) (map ((!) cs) axes)) = element_offset v (ravel (av_logical v) cs)) \<and>
    (\<forall>w axis cs. flip v axis = Inr w \<longrightarrow> in_range (av_logical v) cs \<longrightarrow>
      element_offset w (ravel (av_logical w) (cs[axis := av_logical v ! axis - 1 - cs ! axis])) =
      element_offset v (ravel (av_logical v) cs)) \<and>
    (\<forall>w s cs. expand v s = Inr w \<longrightarrow> small_extents s \<longrightarrow> in_range s cs \<longrightarrow>
      element_offset w (ravel s cs) = element_offset v (ravel (av_logical v)
        (broadcast_coords (av_logical v) (drop (length s - length (av_logical v)) cs))))"
  using shrink_reads_shifted permute_reads_permuted flip_reads_mirrored expand_reads_broadcast assms by blast

theorem view_movements_read_witness:
  "(\<exists>w. shrink sample_view [(0, 2), (1, 3)] = Inr w \<and> element_offset w 3 = element_offset sample_view 5) \<and>
   (\<exists>w. permute sample_view [1, 0] = Inr w \<and> element_offset w 3 = element_offset sample_view 4) \<and>
   (\<exists>w. flip sample_view 1 = Inr w \<and> element_offset w 5 = element_offset sample_view 3) \<and>
   (\<exists>w. expand sample_view [4, 2, 3] = Inr w \<and> element_offset w 23 = element_offset sample_view 5)"
proof -
  let ?s = "sample_view\<lparr>av_logical := [2, 2], av_offset := 1\<rparr>"
    and ?p = "sample_view\<lparr>av_logical := [3, 2], av_strides := [1, 3]\<rparr>"
    and ?f = "sample_view\<lparr>av_offset := 2, av_strides := [3, -1]\<rparr>"
    and ?e = "sample_view\<lparr>av_logical := [4, 2, 3], av_strides := [0, 3, 1]\<rparr>"
  have run: "shrink sample_view [(0, 2), (1, 3)] = Inr ?s" "permute sample_view [1, 0] = Inr ?p"
    "flip sample_view 1 = Inr ?f" "expand sample_view [4, 2, 3] = Inr ?e"
    by (simp_all add: shrink_def permute_def flip_def expand_def sample_view_def view_eval upt_rec)
  note reads = view_movements_read [OF sample_ok]
  have "element_offset ?s 3 = element_offset sample_view 5"
    using reads [THEN conjunct1, rule_format, OF run(1), of "[1, 1]"] by (simp add: sample_view_def)
  moreover have "element_offset ?p 3 = element_offset sample_view 4"
    using reads [THEN conjunct2, THEN conjunct1, rule_format, OF run(2), of "[1, 1]"] by (simp add: sample_view_def)
  moreover have "element_offset ?f 5 = element_offset sample_view 3"
    using reads [THEN conjunct2, THEN conjunct2, THEN conjunct1, rule_format, OF run(3), of "[1, 0]"] by (simp add: sample_view_def)
  moreover have "element_offset ?e 23 = element_offset sample_view 5"
    using reads [THEN conjunct2, THEN conjunct2, THEN conjunct2, rule_format, OF run(4), of "[3, 1, 2]"]
    by (simp add: sample_view_def small_extents_def)
  ultimately show ?thesis using run by blast
qed

end
