(* ===== verification/Tensors.thy ===== *)
theory Tensors
  imports IndexingTheorems ViewTheorems
begin

section \<open>Dense tensors (src/src/tensor/data.rs, storage.rs)\<close>

text \<open>
  A dense value is a shape, an element type and its row-major raw lanes. Every operation here copies
  lanes without decoding them, so the type of a lane is a type variable: one definition covers all
  fourteen storage variants, which the source expands by macro. An index past the end of a storage
  vector panics and is the error \<open>LanePanic\<close>.
\<close>

record 'l tensor =
  td_shape :: shape
  td_dtype :: dtype
  td_lanes :: "'l list"

abbreviation td_len :: "'l tensor \<Rightarrow> nat" where
  "td_len t \<equiv> length (td_lanes t)"

definition from_storage :: "shape \<Rightarrow> dtype \<Rightarrow> 'l list \<Rightarrow> (tensor_error, 'l tensor) result" where
  "from_storage s d lanes =
     rbind (numel s) (\<lambda>expected.
     if length lanes \<noteq> expected then Inl (InvalidData s expected (length lanes))
     else Inr \<lparr>td_shape = s, td_dtype = d, td_lanes = lanes\<rparr>)"

definition index_lane :: "'l list \<Rightarrow> nat \<Rightarrow> (tensor_error, 'l) result" where
  "index_lane lanes i = (if i < length lanes then Inr (lanes ! i) else Inl LanePanic)"

definition item :: "'l tensor \<Rightarrow> (tensor_error, 'l) result" where
  "item t = (if td_len t \<noteq> 1 then Inl (NonScalarItem (td_shape t)) else index_lane (td_lanes t) 0)"

definition replace_data :: "'l tensor \<Rightarrow> 'l tensor \<Rightarrow> (tensor_error, 'l tensor) result" where
  "replace_data self source =
    (if td_shape self \<noteq> td_shape source
     then Inl (ShapeMismatch ''replace'' (td_shape self) (td_shape source))
     else Inr (self\<lparr>td_dtype := td_dtype source, td_lanes := td_lanes source\<rparr>))"

text \<open>\<open>assigned_storage\<close>: the lanes of the source at the offsets, when the storage variants agree.\<close>

definition assigned_storage ::
  "dtype \<Rightarrow> dtype \<Rightarrow> 'l list \<Rightarrow> nat list \<Rightarrow> (tensor_error, 'l list) result" where
  "assigned_storage destination source lanes offsets =
    (if destination = source then try_map (index_lane lanes) offsets else Inl InvalidIndex)"

definition reorder_raw :: "'l tensor \<Rightarrow> shape \<Rightarrow> nat list \<Rightarrow> (tensor_error, 'l tensor) result" where
  "reorder_raw t s offsets =
     rbind (numel s) (\<lambda>n.
     if n \<noteq> length offsets \<or> list_ex (\<lambda>off. td_len t \<le> off) offsets then Inl InvalidIndex
     else rbind (assigned_storage (td_dtype t) (td_dtype t) (td_lanes t) offsets) (\<lambda>lanes.
          Inr (t\<lparr>td_shape := s, td_lanes := lanes\<rparr>)))"

definition pad_raw_offsets ::
  "'l tensor \<Rightarrow> shape \<Rightarrow> nat option list \<Rightarrow> 'l tensor \<Rightarrow> (tensor_error, 'l tensor) result" where
  "pad_raw_offsets t s offsets fill =
     rbind (numel s) (\<lambda>n.
     if n \<noteq> length offsets \<or> td_shape fill \<noteq> [] \<or> td_len fill \<noteq> 1 \<or> td_dtype fill \<noteq> td_dtype t \<or>
        list_ex (\<lambda>o'. case o' of None \<Rightarrow> False | Some off \<Rightarrow> td_len t \<le> off) offsets
     then Inl InvalidIndex
     else rbind (try_map (\<lambda>o'. case o' of None \<Rightarrow> index_lane (td_lanes fill) 0
                                        | Some off \<Rightarrow> index_lane (td_lanes t) off) offsets) (\<lambda>lanes.
          from_storage s (td_dtype t) lanes))"

text \<open>The \<open>splice!\<close> loops: lanes written in order, so a later write to the same lane wins.\<close>

definition splice :: "'l list \<Rightarrow> nat list \<Rightarrow> 'l list \<Rightarrow> nat list \<Rightarrow> (tensor_error, 'l list) result" where
  "splice base destinations lanes sources =
     try_fold (\<lambda>acc (d, s).
       rbind (index_lane lanes s) (\<lambda>v. if d < length acc then Inr (acc[d := v]) else Inl LanePanic))
     base (zip destinations sources)"

definition replace_raw_offsets ::
  "'l tensor \<Rightarrow> 'l tensor \<Rightarrow> nat list \<Rightarrow> nat list \<Rightarrow> (tensor_error, 'l tensor) result" where
  "replace_raw_offsets self source destinations sources =
    (if td_dtype self \<noteq> td_dtype source \<or> length destinations \<noteq> length sources \<or>
        list_ex (\<lambda>off. td_len self \<le> off) destinations \<or> list_ex (\<lambda>off. td_len source \<le> off) sources
     then Inl InvalidIndex
     else rbind (splice (td_lanes self) destinations (td_lanes source) sources) (\<lambda>lanes.
          Inr (self\<lparr>td_lanes := lanes\<rparr>)))"

text \<open>\<open>repeat_exact_splat\<close>: every variant but the four float8 formats checks that all lanes are equal
  (\<open>eq\<close>: raw equality, or equality of the bits of a float).\<close>

definition repeat_exact_splat :: "('l \<Rightarrow> 'l \<Rightarrow> bool) \<Rightarrow> dtype \<Rightarrow> 'l list \<Rightarrow> nat \<Rightarrow> 'l list option" where
  "repeat_exact_splat eq d lanes len =
    (case lanes of
       [] \<Rightarrow> None
     | first # _ \<Rightarrow>
         if is_float8 d \<or> list_all (\<lambda>v. eq v first) lanes then Some (replicate len first) else None)"

definition resize_exact_splat ::
  "('l \<Rightarrow> 'l \<Rightarrow> bool) \<Rightarrow> 'l tensor \<Rightarrow> shape \<Rightarrow> (tensor_error, 'l tensor) result" where
  "resize_exact_splat eq t s =
     rbind (numel s) (\<lambda>len.
     rbind (ok_or InvalidIndex (repeat_exact_splat eq (td_dtype t) (td_lanes t) len)) (\<lambda>lanes.
     from_storage s (td_dtype t) lanes))"

subsection \<open>Assignment with broadcasting\<close>

text \<open>The coordinates of a linear index, from the last axis; a zero extent is skipped.\<close>

fun coords_down :: "nat list \<Rightarrow> nat \<Rightarrow> nat list" where
  "coords_down [] n = []"
| "coords_down (d # ds) n = (if d = 0 then 0 # coords_down ds n else n mod d # coords_down ds (n div d))"

definition broadcast_offset :: "shape \<Rightarrow> shape \<Rightarrow> nat \<Rightarrow> (tensor_error, nat) result" where
  "broadcast_offset target source linear =
    (let coordinates = rev (coords_down (rev target) linear); pad = length target - length source
     in try_fold (\<lambda>off (axis, dim).
          let coordinate = if dim = 1 then 0 else coordinates ! (pad + axis)
          in ok_or InvalidIndex (Option.bind (checked_mul_u off dim) (\<lambda>v. checked_add_u v coordinate)))
        0 (zip [0..<length source] source))"

text \<open>The right-aligned test: every extent of the source is 1 or the target's.\<close>

definition broadcasts_to :: "shape \<Rightarrow> shape \<Rightarrow> bool" where
  "broadcasts_to source target \<longleftrightarrow> length source \<le> length target \<and>
     list_all (\<lambda>(s, t). s = 1 \<or> s = t) (zip (rev source) (rev target))"

definition assign_from :: "'l tensor \<Rightarrow> 'l tensor \<Rightarrow> (tensor_error, 'l tensor) result" where
  "assign_from self source =
    (if \<not> broadcasts_to (td_shape source) (td_shape self)
     then Inl (ShapeMismatch ''assign'' (td_shape self) (td_shape source))
     else if td_dtype self \<noteq> td_dtype source
     then Inl (InputDType ''assignment'' (td_dtype self) (td_dtype source))
     else rbind (try_map (broadcast_offset (td_shape self) (td_shape source)) [0..<td_len self]) (\<lambda>offsets.
          rbind (assigned_storage (td_dtype self) (td_dtype source) (td_lanes source) offsets) (\<lambda>lanes.
          Inr (self\<lparr>td_lanes := lanes\<rparr>))))"

subsection \<open>Views and index plans\<close>

definition view_offset :: "affine_view \<Rightarrow> nat \<Rightarrow> (tensor_error, nat) result" where
  "view_offset v index =
     rbind (map_err (\<lambda>_. InvalidIndex) (element_offset v index)) (\<lambda>off.
     ok_or InvalidIndex (usize_of_int off))"

definition affine_read :: "'l tensor \<Rightarrow> affine_view \<Rightarrow> (tensor_error, 'l tensor) result" where
  "affine_read t v =
    (if av_source v \<noteq> td_shape t then Inl InvalidIndex
     else rbind (map_err (\<lambda>_. InvalidIndex) (validate_read v)) (\<lambda>_.
          rbind (numel (av_logical v)) (\<lambda>len.
          if len = 0 then Inr \<lparr>td_shape = av_logical v, td_dtype = td_dtype t, td_lanes = []\<rparr>
          else rbind (try_map (view_offset v) [0..<len]) (\<lambda>offsets.
               rbind (assigned_storage (td_dtype t) (td_dtype t) (td_lanes t) offsets) (\<lambda>lanes.
               from_storage (av_logical v) (td_dtype t) lanes)))))"

definition assign_view_from ::
  "'l tensor \<Rightarrow> affine_view \<Rightarrow> 'l tensor \<Rightarrow> (tensor_error, 'l tensor) result" where
  "assign_view_from self v source =
    (if av_source v \<noteq> td_shape self \<or> av_logical v \<noteq> td_shape source \<or> td_dtype self \<noteq> td_dtype source
     then Inl InvalidIndex
     else rbind (try_map (view_offset v) [0..<td_len source]) (\<lambda>offsets.
          if \<not> distinct offsets then Inl InvalidIndex
          else rbind (splice (td_lanes self) offsets (td_lanes source) [0..<td_len source]) (\<lambda>lanes.
               Inr (self\<lparr>td_lanes := lanes\<rparr>))))"

definition static_index_update_from ::
  "'l tensor \<Rightarrow> index_plan \<Rightarrow> 'l tensor \<Rightarrow> (tensor_error, 'l tensor) result" where
  "static_index_update_from self p source =
    (if td_shape self \<noteq> ip_source p \<or> td_dtype self \<noteq> td_dtype source then Inl InvalidIndex
     else if \<not> broadcasts_to (td_shape source) (ip_output p) then Inl InvalidIndex
     else rbind (try_map (broadcast_offset (ip_output p) (td_shape source)) [0..<length (ip_offsets p)])
            (\<lambda>offsets.
          rbind (splice (td_lanes self) (ip_offsets p) (td_lanes source) offsets) (\<lambda>lanes.
          Inr (self\<lparr>td_lanes := lanes\<rparr>))))"

end
