(* ===== verification/TensorTheorems.thy ===== *)
theory TensorTheorems
  imports Tensors
begin

section \<open>What dense tensors promise\<close>

text \<open>
  Assignment broadcasts its source, a write through a view followed by a read through the same view
  returns what was written and leaves every other lane alone, and an indexed update keeps the last
  writer of each lane. None of them panics on well-formed tensors.
\<close>

text \<open>The invariant \<open>TensorData::from_storage\<close> establishes.\<close>

definition tensor_ok :: "'l tensor \<Rightarrow> bool" where
  "tensor_ok t \<longleftrightarrow> numel (td_shape t) = Inr (td_len t)"

lemma tensor_ok_len: "tensor_ok t \<Longrightarrow> td_len t = prod_list (td_shape t) \<and> td_len t \<le> usize_max"
  by (auto simp: tensor_ok_def dest: numel_InrD)

lemma tensor_ok_lanes: "tensor_ok t \<Longrightarrow> length lanes = td_len t \<Longrightarrow> tensor_ok (t\<lparr>td_lanes := lanes\<rparr>)"
  by (simp add: tensor_ok_def)

lemma index_lane_ok: "\<forall>i \<in> set is. i < length lanes \<Longrightarrow> try_map (index_lane lanes) is = Inr (map ((!) lanes) is)"
  by (intro try_map_ok) (simp add: index_lane_def)

subsection \<open>Writes in order\<close>

definition written :: "'l list \<Rightarrow> (nat \<times> 'l) list \<Rightarrow> 'l list" where
  "written base ws = foldl (\<lambda>acc (d, v). acc[d := v]) base ws"

lemma length_written [simp]: "length (written base ws) = length base"
  unfolding written_def by (induction ws arbitrary: base) auto

lemma written_snoc: "written base (ws @ [(d, v)]) = (written base ws)[d := v]"
  by (simp add: written_def)

lemma written_frame: "t \<notin> fst ` set ws \<Longrightarrow> written base ws ! t = base ! t"
proof (induction ws rule: rev_induct)
  case (snoc w ws)
  obtain d v where "w = (d, v)" by (cases w)
  with snoc show ?case by (simp add: written_snoc)
qed (simp add: written_def)

text \<open>The last write to a lane decides its value.\<close>

lemma written_last:
  "i < length ws \<Longrightarrow> fst (ws ! i) < length base \<Longrightarrow> \<forall>j < length ws. i < j \<longrightarrow> fst (ws ! j) \<noteq> fst (ws ! i) \<Longrightarrow>
   written base ws ! fst (ws ! i) = snd (ws ! i)"
proof (induction ws rule: rev_induct)
  case (snoc w ws)
  obtain d v where w: "w = (d, v)" by (cases w)
  show ?case
  proof (cases "i = length ws")
    case True
    with snoc.prems w show ?thesis by (simp add: written_snoc)
  next
    case False
    with snoc.prems(1) have i: "i < length ws" by simp
    have "fst ((ws @ [w]) ! length ws) \<noteq> fst ((ws @ [w]) ! i)" using snoc.prems(3) i by auto
    with w i have "d \<noteq> fst (ws ! i)" by (simp add: nth_append)
    moreover have "\<forall>j < length ws. i < j \<longrightarrow> fst (ws ! j) \<noteq> fst (ws ! i)"
    proof (intro allI impI)
      fix j assume "j < length ws" "i < j"
      with snoc.prems(3) have "fst ((ws @ [w]) ! j) \<noteq> fst ((ws @ [w]) ! i)" by auto
      with \<open>j < length ws\<close> i show "fst (ws ! j) \<noteq> fst (ws ! i)" by (simp add: nth_append)
    qed
    ultimately show ?thesis using snoc.IH [OF i] snoc.prems(2) i w by (simp add: written_snoc nth_append)
  qed
qed simp

lemma splice_ok:
  "\<forall>d \<in> set ds. d < length base \<Longrightarrow> \<forall>s \<in> set ss. s < length lanes \<Longrightarrow>
   splice base ds lanes ss = Inr (written base (zip ds (map ((!) lanes) ss)))"
proof (induction ds arbitrary: ss base)
  case (Cons d ds)
  then show ?case by (cases ss) (auto simp: splice_def written_def index_lane_def)
qed (simp add: splice_def written_def)

subsection \<open>Broadcast offsets\<close>

lemma coords_down_unravel: "0 \<notin> set ds \<Longrightarrow> rev (coords_down (rev ds) n) = unravel ds n"
proof (induction ds arbitrary: n rule: rev_induct)
  case (snoc d ds)
  then show ?case by (simp add: unravel_snoc)
qed simp

lemma broadcasts_to_zip:
  "broadcasts_to source target \<longleftrightarrow> length source \<le> length target \<and>
     (\<forall>(s, t) \<in> set (zip source (drop (length target - length source) target)). s = 1 \<or> s = t)"
proof (cases "length source \<le> length target")
  case True
  let ?k = "length target - length source"
  have "rev target = rev (drop ?k target) @ rev (take ?k target)"
    by (metis append_take_drop_id rev_append)
  then have "zip (rev source) (rev target) = zip (rev source) (rev (drop ?k target))"
    using True by (simp add: zip_append2)
  also have "\<dots> = rev (zip source (drop ?k target))" using True by (intro zip_rev) simp
  finally show ?thesis by (simp add: broadcasts_to_def list_all_iff)
qed (simp add: broadcasts_to_def)

lemma broadcast_in_range:
  "length ds = length ts \<Longrightarrow> \<forall>(s, t) \<in> set (zip ds ts). s = 1 \<or> s = t \<Longrightarrow> in_range ts cs \<Longrightarrow>
   in_range ds (broadcast_coords ds cs)"
proof (induction ds ts arbitrary: cs rule: list_induct2)
  case (Cons d ds t ts)
  then show ?case by (cases cs) auto
qed simp

lemma horner_fold:
  assumes "in_range ds (broadcast_coords ds (drop (pad + k) cs))" and "length cs = pad + k + length ds"
    and "a * prod_list ds + ravel ds (broadcast_coords ds (drop (pad + k) cs)) \<le> usize_max"
  shows "try_fold (\<lambda>off (axis, dim). let coordinate = if dim = 1 then 0 else cs ! (pad + axis)
      in ok_or InvalidIndex (Option.bind (checked_mul_u off dim) (\<lambda>v. checked_add_u v coordinate)))
      a (zip [k..<k + length ds] ds) =
    Inr (a * prod_list ds + ravel ds (broadcast_coords ds (drop (pad + k) cs)))"
  using assms
proof (induction ds arbitrary: a k)
  case (Cons d ds)
  let ?c = "cs ! (pad + k)" and ?x = "if d = 1 then 0 else cs ! (pad + k)"
  have drop: "drop (pad + k) cs = ?c # drop (pad + Suc k) cs"
    using Cons.prems(2) by (simp add: Cons_nth_drop_Suc)
  let ?r = "ravel ds (broadcast_coords ds (drop (pad + Suc k) cs))"
  have coords: "broadcast_coords (d # ds) (drop (pad + k) cs) = ?x # broadcast_coords ds (drop (pad + Suc k) cs)"
    by (simp only: drop broadcast_coords_simps)
  have tail: "in_range ds (broadcast_coords ds (drop (pad + Suc k) cs))" "length cs = pad + Suc k + length ds"
    using Cons.prems(1,2) unfolding coords by simp_all
  have sum: "(a * d + ?x) * prod_list ds + ?r \<le> usize_max"
    using Cons.prems(3) unfolding coords ravel.simps prod_list.Cons by (simp only: algebra_simps)
  have pos: "0 < prod_list ds" using in_range_nonzero [OF tail(1)] by (simp add: prod_list_pos_iff)
  then have "a * d + ?x \<le> (a * d + ?x) * prod_list ds" by simp
  also have "\<dots> \<le> (a * d + ?x) * prod_list ds + ?r" by simp
  also note sum
  finally have fits: "a * d + ?x \<le> usize_max" .
  then have step: "checked_mul_u a d = Some (a * d)" "checked_add_u (a * d) ?x = Some (a * d + ?x)"
    by (simp_all add: checked_defs)
  have "zip [k..<k + length (d # ds)] (d # ds) = (k, d) # zip [Suc k..<Suc k + length ds] ds"
    by (simp add: upt_conv_Cons del: upt_Suc)
  then show ?case
    using Cons.IH [OF tail sum] step unfolding coords ravel.simps prod_list.Cons try_fold.simps
    by (simp add: Let_def algebra_simps)
qed simp

text \<open>The lane of the source a broadcast reads at a linear index of the target.\<close>

definition broadcast_lane :: "shape \<Rightarrow> shape \<Rightarrow> nat \<Rightarrow> nat" where
  "broadcast_lane target source n =
     ravel source (broadcast_coords source (drop (length target - length source) (unravel target n)))"

lemma broadcast_offset_ok:
  assumes "broadcasts_to source target" and "n < prod_list target" and "prod_list source \<le> usize_max"
  shows "broadcast_offset target source n = Inr (broadcast_lane target source n)"
    and "broadcast_lane target source n < prod_list source"
proof -
  let ?pad = "length target - length source"
  have nz: "0 \<notin> set target" using assms(2) prod_list_pos_iff [of target] by simp
  have "in_range (drop ?pad target) (drop ?pad (unravel target n))"
    by (rule in_range_drop [OF unravel_in_range [OF nz]])
  then have rng: "in_range source (broadcast_coords source (drop ?pad (unravel target n)))"
    using assms(1) by (intro broadcast_in_range [of source "drop ?pad target"]) (auto simp: broadcasts_to_zip)
  then show less: "broadcast_lane target source n < prod_list source"
    unfolding broadcast_lane_def by (rule ravel_less)
  have "length (unravel target n) = ?pad + 0 + length source" using assms(1) by (simp add: broadcasts_to_def)
  with horner_fold [of source ?pad 0 "unravel target n" 0] rng less assms(3)
  show "broadcast_offset target source n = Inr (broadcast_lane target source n)"
    by (simp add: broadcast_offset_def broadcast_lane_def coords_down_unravel [OF nz] Let_def)
qed

lemma assign_from_eq:
  assumes "tensor_ok self" and "tensor_ok source"
  shows "assign_from self source =
    (if \<not> broadcasts_to (td_shape source) (td_shape self)
     then Inl (ShapeMismatch ''assign'' (td_shape self) (td_shape source))
     else if td_dtype self \<noteq> td_dtype source then Inl (InputDType ''assignment'' (td_dtype self) (td_dtype source))
     else Inr (self\<lparr>td_lanes := map (\<lambda>n. td_lanes source ! broadcast_lane (td_shape self) (td_shape source) n)
       [0..<td_len self]\<rparr>))"
proof (cases "broadcasts_to (td_shape source) (td_shape self) \<and> td_dtype self = td_dtype source")
  case True
  note lens = tensor_ok_len [OF assms(1)] tensor_ok_len [OF assms(2)]
  let ?b = "broadcast_lane (td_shape self) (td_shape source)"
  have off: "broadcast_offset (td_shape self) (td_shape source) n = Inr (?b n)" "?b n < td_len source"
    if "n < td_len self" for n
    using broadcast_offset_ok [of "td_shape source" "td_shape self" n] True lens that by auto
  have "try_map (broadcast_offset (td_shape self) (td_shape source)) [0..<td_len self] = Inr (map ?b [0..<td_len self])"
    by (intro try_map_ok) (simp add: off)
  moreover have "try_map (index_lane (td_lanes source)) (map ?b [0..<td_len self]) =
      Inr (map ((!) (td_lanes source)) (map ?b [0..<td_len self]))"
    by (intro index_lane_ok) (auto simp: off)
  ultimately show ?thesis using True by (simp add: assign_from_def assigned_storage_def comp_def)
qed (auto simp: assign_from_def)

text \<open>Assignment is total and broadcasts: it reports a shape mismatch before a type mismatch, and
  otherwise keeps shape and type and stores in every lane the source lane at the right-aligned
  coordinate with 0 on the axes of extent 1.\<close>

lemma assign_broadcasts:
  assumes "tensor_ok self" and "tensor_ok source"
  shows "assign_from self source =
    (if \<not> broadcasts_to (td_shape source) (td_shape self)
     then Inl (ShapeMismatch ''assign'' (td_shape self) (td_shape source))
     else if td_dtype self \<noteq> td_dtype source then Inl (InputDType ''assignment'' (td_dtype self) (td_dtype source))
     else Inr (self\<lparr>td_lanes := map (\<lambda>n. td_lanes source ! ravel (td_shape source)
         (broadcast_coords (td_shape source)
           (drop (length (td_shape self) - length (td_shape source)) (unravel (td_shape self) n))))
       [0..<td_len self]\<rparr>))"
  using assign_from_eq [OF assms] by (simp add: broadcast_lane_def)

definition grid :: "nat tensor" where
  "grid = \<lparr>td_shape = [2, 3], td_dtype = I32, td_lanes = [0, 0, 0, 0, 0, 0]\<rparr>"

definition row :: "nat tensor" where
  "row = \<lparr>td_shape = [3], td_dtype = I32, td_lanes = [7, 8, 9]\<rparr>"

theorem assign_broadcasts_witness: "assign_from grid row = Inr (grid\<lparr>td_lanes := [7, 8, 9, 7, 8, 9]\<rparr>)"
proof -
  have "tensor_ok grid" "tensor_ok row" by code_simp+
  moreover have "broadcasts_to (td_shape row) (td_shape grid)" "td_dtype grid = td_dtype row"
    "map (\<lambda>n. td_lanes row ! ravel (td_shape row) (broadcast_coords (td_shape row)
       (drop (length (td_shape grid) - length (td_shape row)) (unravel (td_shape grid) n)))) [0..<td_len grid] =
     [7, 8, 9, 7, 8, 9]" by code_simp+
  ultimately show ?thesis using assign_broadcasts [of grid row] by simp
qed

subsection \<open>Views\<close>

lemma view_offsets:
  assumes "readable v" and "prod_list (av_source v) \<le> usize_max"
  obtains offs where "try_map (view_offset v) [0..<prod_list (av_logical v)] = Inr offs"
    "length offs = prod_list (av_logical v)" "\<forall>off \<in> set offs. off < prod_list (av_source v)"
    "try_map (element_offset v) [0..<prod_list (av_logical v)] = Inr (map int offs)"
proof -
  from read_view.addresses_ok [OF assms(1) order_refl] obtain offs where
    o: "try_map (element_offset v) [0..<prod_list (av_logical v)] = Inr (map int offs)"
      "length offs = prod_list (av_logical v)" "\<forall>off \<in> set offs. off < prod_list (av_source v)" by blast
  have "view_offset v i = Inr (offs ! i)" if "i < prod_list (av_logical v)" for i
  proof -
    have "element_offset v i = Inr (int (offs ! i))" using o(1,2) that by (auto simp: try_map_Inr_iff)
    moreover have "offs ! i < prod_list (av_source v)" using o(2,3) that by simp
    then have "offs ! i \<le> usize_max" using assms(2) by linarith
    ultimately show ?thesis by (simp add: view_offset_def usize_of_int_def)
  qed
  then have "try_map (view_offset v) [0..<prod_list (av_logical v)] = Inr offs"
    using o(2) by (simp add: try_map_Inr_iff)
  with o that show thesis by blast
qed

lemma view_offsets_distinct:
  assumes "writable v" and "try_map (element_offset v) [0..<prod_list (av_logical v)] = Inr (map int offs)"
  shows "distinct offs"
  using write_view.addresses_distinct [OF assms(1) order_refl assms(2)] by (simp add: distinct_map)

text \<open>The two halves of the addressing contract at the tensor: what a write through a view stores, and
  what a read through it collects.\<close>

lemma assign_view_eq:
  assumes "writable v" and "tensor_ok base" and "tensor_ok source" and "av_source v = td_shape base"
    and "av_logical v = td_shape source" and "td_dtype base = td_dtype source"
    and "try_map (view_offset v) [0..<prod_list (av_logical v)] = Inr offs" and "distinct offs"
    and "\<forall>off \<in> set offs. off < prod_list (av_source v)"
  shows "assign_view_from base v source =
    Inr (base\<lparr>td_lanes := written (td_lanes base) (zip offs (td_lanes source))\<rparr>)"
proof -
  note lens = tensor_ok_len [OF assms(2)] tensor_ok_len [OF assms(3)]
  have "map ((!) (td_lanes source)) [0..<td_len source] = td_lanes source" by (rule map_nth)
  then have "splice (td_lanes base) offs (td_lanes source) [0..<td_len source] =
      Inr (written (td_lanes base) (zip offs (td_lanes source)))"
    using splice_ok [of offs "td_lanes base" "[0..<td_len source]" "td_lanes source"] assms(4,9) lens(1) by simp
  with assms lens show ?thesis by (simp add: assign_view_from_def)
qed

lemma affine_read_eq:
  assumes "readable v" and "tensor_ok t" and "av_source v = td_shape t"
    and "try_map (view_offset v) [0..<prod_list (av_logical v)] = Inr offs"
    and "\<forall>off \<in> set offs. off < prod_list (av_source v)" and "numel (av_logical v) = Inr (prod_list (av_logical v))"
  shows "affine_read t v =
    Inr \<lparr>td_shape = av_logical v, td_dtype = td_dtype t, td_lanes = map ((!) (td_lanes t)) offs\<rparr>"
proof -
  have len: "length offs = prod_list (av_logical v)" using try_map_length [OF assms(4)] by simp
  have "try_map (index_lane (td_lanes t)) offs = Inr (map ((!) (td_lanes t)) offs)"
    using assms(3,5) tensor_ok_len [OF assms(2)] by (intro index_lane_ok) simp
  then show ?thesis using assms len
    by (auto simp: affine_read_def readable_def assigned_storage_def from_storage_def)
qed

text \<open>C37: a write through a view and a read through it obey the lens laws: writing a tensor of the
  view's logical shape succeeds, reading back returns it, lanes outside the view keep their value,
  and the base keeps its shape and type.\<close>

theorem view_write_then_read:
  assumes "tensor_ok base" and "tensor_ok source" and "validate_write v = Inr ()"
    and "\<forall>d \<in> set (av_logical v). d \<le> 2 ^ 63" and "av_source v = td_shape base"
    and "av_logical v = td_shape source" and "td_dtype base = td_dtype source"
  shows "\<exists>base'. assign_view_from base v source = Inr base' \<and> affine_read base' v = Inr source \<and>
    td_shape base' = td_shape base \<and> td_dtype base' = td_dtype base \<and> tensor_ok base' \<and>
    (\<forall>t < td_len base. (\<forall>n < td_len source. element_offset v n \<noteq> Inr (int t)) \<longrightarrow>
       td_lanes base' ! t = td_lanes base ! t)"
proof -
  have w: "writable v" using assms(3,4) by (simp add: writable_def small_extents_def list_all_iff)
  then have r: "readable v" by (rule writable_readable)
  note lens = tensor_ok_len [OF assms(1)] tensor_ok_len [OF assms(2)]
  from view_offsets [OF r] assms(5) lens(1) obtain offs where
    o: "try_map (view_offset v) [0..<prod_list (av_logical v)] = Inr offs"
      "length offs = prod_list (av_logical v)" "\<forall>off \<in> set offs. off < prod_list (av_source v)"
      "try_map (element_offset v) [0..<prod_list (av_logical v)] = Inr (map int offs)" by auto
  have dist: "distinct offs" by (rule view_offsets_distinct [OF w o(4)])
  let ?ws = "zip offs (td_lanes source)"
  let ?base = "base\<lparr>td_lanes := written (td_lanes base) ?ws\<rparr>"
  have stored: "assign_view_from base v source = Inr ?base"
    by (rule assign_view_eq [OF w assms(1,2,5-7) o(1) dist o(3)])
  have ok: "tensor_ok ?base" using assms(1) by (rule tensor_ok_lanes) simp
  have len: "length offs = td_len source" using o(2) assms(6) lens(2) by simp
  have lane: "written (td_lanes base) ?ws ! (offs ! i) = td_lanes source ! i" if "i < td_len source" for i
    using written_last [of i ?ws "td_lanes base"] that len dist o(3) assms(5) lens(1)
    by (auto simp: nth_eq_iff_index_eq)
  have "map ((!) (written (td_lanes base) ?ws)) offs = td_lanes source"
    by (rule nth_equalityI) (use len lane in simp_all)
  moreover have "numel (av_logical v) = Inr (prod_list (av_logical v))"
    using assms(2,6) lens(2) by (simp add: tensor_ok_def)
  ultimately have "affine_read ?base v = Inr source"
    using affine_read_eq [OF r ok _ o(1,3)] assms(5-7) by simp
  moreover have "written (td_lanes base) ?ws ! t = td_lanes base ! t"
    if "\<forall>n < td_len source. element_offset v n \<noteq> Inr (int t)" for t
  proof (rule written_frame)
    have "element_offset v n = Inr (int (offs ! n))" if "n < td_len source" for n
      using o(4) that len o(2) by (auto simp: try_map_Inr_iff)
    with that have "t \<notin> set offs" using len by (auto simp: in_set_conv_nth)
    then show "t \<notin> fst ` set ?ws" by (auto dest: set_zip_leftD)
  qed
  ultimately show ?thesis using stored ok by (intro exI [of _ ?base]) simp
qed

definition patch_view :: affine_view where
  "patch_view = \<lparr>av_source = [2, 3], av_logical = [2], av_strides = [3], av_offset = 1\<rparr>"

definition patch :: "nat tensor" where
  "patch = \<lparr>td_shape = [2], td_dtype = I32, td_lanes = [5, 6]\<rparr>"

theorem view_write_then_read_witness:
  "\<exists>base'. assign_view_from grid patch_view patch = Inr base' \<and> affine_read base' patch_view = Inr patch"
proof -
  have "tensor_ok grid" "tensor_ok patch" by code_simp+
  moreover have "validate_write patch_view = Inr ()" by (simp add: patch_view_def view_eval upt_rec)
  moreover have "\<forall>d \<in> set (av_logical patch_view). d \<le> 2 ^ 63" by (simp add: patch_view_def)
  moreover have "av_source patch_view = td_shape grid" "av_logical patch_view = td_shape patch"
    "td_dtype grid = td_dtype patch" by (simp_all add: patch_view_def grid_def patch_def)
  ultimately show ?thesis using view_write_then_read [of grid patch patch_view] by blast
qed

subsection \<open>Indexed updates\<close>

text \<open>An indexed update is total on a planned index and keeps the last writer: every lane the plan
  does not select keeps its value, and a selected lane takes the broadcast source lane of the last
  output position that selects it.\<close>

lemma index_update_last_writer:
  assumes "tensor_ok base" and "tensor_ok source" and "index_plan_new (td_shape base) specs = Inr p"
    and "td_dtype base = td_dtype source" and "broadcasts_to (td_shape source) (ip_output p)"
  shows "\<exists>lanes. static_index_update_from base p source = Inr (base\<lparr>td_lanes := lanes\<rparr>) \<and>
    length lanes = td_len base \<and>
    (\<forall>t < td_len base. t \<notin> set (ip_offsets p) \<longrightarrow> lanes ! t = td_lanes base ! t) \<and>
    (\<forall>i < length (ip_offsets p). (\<forall>j < length (ip_offsets p). i < j \<longrightarrow> ip_offsets p ! j \<noteq> ip_offsets p ! i) \<longrightarrow>
       lanes ! (ip_offsets p ! i) = td_lanes source ! ravel (td_shape source) (broadcast_coords (td_shape source)
         (drop (length (ip_output p) - length (td_shape source)) (unravel (ip_output p) i))))"
proof -
  from assms(3) obtain st where "index_finish (td_shape base) st = Inr p" by (rule index_plan_new_finish)
  then have wf: "plan_wf p" "ip_source p = td_shape base" by (auto elim: index_finish_lanes)
  note lens = tensor_ok_len [OF assms(1)] tensor_ok_len [OF assms(2)]
  have n: "length (ip_offsets p) = prod_list (ip_output p)" and inside: "\<forall>d \<in> set (ip_offsets p). d < td_len base"
    using wf lens(1) by (auto simp: plan_wf_def)
  let ?b = "broadcast_lane (ip_output p) (td_shape source)" and ?n = "length (ip_offsets p)"
  have off: "broadcast_offset (ip_output p) (td_shape source) i = Inr (?b i)" "?b i < td_len source" if "i < ?n" for i
    using broadcast_offset_ok [OF assms(5), of i] lens(2) that n by auto
  have offs: "try_map (broadcast_offset (ip_output p) (td_shape source)) [0..<?n] = Inr (map ?b [0..<?n])"
    by (intro try_map_ok) (simp add: off)
  let ?ws = "zip (ip_offsets p) (map ((!) (td_lanes source)) (map ?b [0..<?n]))"
  have "splice (td_lanes base) (ip_offsets p) (td_lanes source) (map ?b [0..<?n]) = Inr (written (td_lanes base) ?ws)"
    by (rule splice_ok) (use inside off in auto)
  then have "static_index_update_from base p source = Inr (base\<lparr>td_lanes := written (td_lanes base) ?ws\<rparr>)"
    using assms(4,5) wf(2) offs by (simp add: static_index_update_from_def)
  moreover have "written (td_lanes base) ?ws ! t = td_lanes base ! t" if "t \<notin> set (ip_offsets p)" for t
    using that by (intro written_frame) (auto dest: set_zip_leftD)
  moreover have "written (td_lanes base) ?ws ! (ip_offsets p ! i) = td_lanes source ! ?b i"
    if "i < ?n" "\<forall>j < ?n. i < j \<longrightarrow> ip_offsets p ! j \<noteq> ip_offsets p ! i" for i
    using written_last [of i ?ws "td_lanes base"] that inside by simp
  ultimately show ?thesis
    by (intro exI [of _ "written (td_lanes base) ?ws"]) (simp add: broadcast_lane_def)
qed

theorem index_update_last_writer_witness:
  "\<exists>p lanes. index_plan_new [2, 3] [Integer 1, Advanced [3] [0, 2, 0]] = Inr p \<and>
    static_index_update_from grid p row = Inr (grid\<lparr>td_lanes := lanes\<rparr>) \<and> lanes ! 3 = 9"
proof -
  let ?specs = "[Integer 1, Advanced [3] [0, 2, 0]]"
  have "is_ok (index_plan_new [2, 3] ?specs)" by code_simp
  then obtain p where p: "index_plan_new [2, 3] ?specs = Inr p" by (auto simp: is_ok_iff)
  have "map_sum id (\<lambda>p. (ip_output p, ip_offsets p)) (index_plan_new [2, 3] ?specs) = Inr ([3], [3, 5, 3])" by code_simp
  then have out: "ip_output p = [3]" "ip_offsets p = [3, 5, 3]" by (simp_all add: p)
  have ok: "tensor_ok grid" "tensor_ok row" "td_dtype grid = td_dtype row" by code_simp+
  have plan: "index_plan_new (td_shape grid) ?specs = Inr p" using p by (simp add: grid_def)
  have "broadcasts_to (td_shape row) (ip_output p)" unfolding out by code_simp
  from index_update_last_writer [OF ok(1,2) plan ok(3) this] obtain lanes where
    l: "static_index_update_from grid p row = Inr (grid\<lparr>td_lanes := lanes\<rparr>)"
      "\<forall>i < 3. (\<forall>j < 3. i < j \<longrightarrow> [3, 5, 3 :: nat] ! j \<noteq> [3, 5, 3] ! i) \<longrightarrow>
       lanes ! ([3, 5, 3] ! i) = td_lanes row ! ravel (td_shape row) (broadcast_coords (td_shape row)
         (drop (1 - length (td_shape row)) (unravel [3] i)))" by (auto simp: out)
  have "lanes ! ([3, 5, 3] ! 2) = td_lanes row ! ravel (td_shape row) (broadcast_coords (td_shape row)
         (drop (1 - length (td_shape row)) (unravel [3] 2)))"
    by (rule l(2) [rule_format, of 2]) simp_all
  then have "lanes ! 3 = 9" by (simp add: row_def)
  then show ?thesis using p l(1) by blast
qed

text \<open>The float8 storage is repeated without looking at its other lanes, so a tensor that is no splat
  is resized as one.\<close>

lemma float8_splat_unchecked:
  "resize_exact_splat (=) \<lparr>td_shape = [2], td_dtype = F8E4M3, td_lanes = [1, 2 :: nat]\<rparr> [3] =
    Inr \<lparr>td_shape = [3], td_dtype = F8E4M3, td_lanes = [1, 1, 1]\<rparr>"
  "resize_exact_splat (=) \<lparr>td_shape = [2], td_dtype = F16, td_lanes = [1, 2 :: nat]\<rparr> [3] = Inl InvalidIndex"
  by code_simp+

end
