(* ===== verification/Effects.thy ===== *)
theory Effects
  imports TensorTheorems
begin

section \<open>Versioned buffer effects (src/src/effects/mod.rs, replacement.rs, batch.rs, schedule.rs)\<close>

text \<open>
  A mutation is a step from one immutable state of a buffer to the next: a buffer state is the number
  of a buffer, a version and the descriptor of its bytes. A plan is a list of steps, an effect graph
  builds one together with the initial values, and \<open>effect_execute\<close> runs it on versioned snapshots.
  \<open>u64\<close> identifiers are natural numbers, their increments are checked. A \<open>BTreeMap\<close> is a map; the map
  of the initial values, which the executor also iterates over, is an association list with distinct
  keys. A panic of the lane access inside a write is \<open>EffectPanic\<close>, which the source has no constructor
  for.
\<close>

record buffer_state =
  bs_buffer :: nat
  bs_version :: nat
  bs_shape :: shape
  bs_dtype :: dtype
  bs_bytes :: nat

record effect_step =
  es_id :: nat
  es_reads :: "buffer_state list"
  es_write :: buffer_state
  es_target_view :: "affine_view option"
  es_index_plan :: "index_plan option"
  es_after :: "nat list"

type_synonym effect_plan = "effect_step list"

datatype effect_error =
    EffectOverflow
  | DuplicateStep nat
  | DuplicateWrite nat nat
  | InvalidBytes nat
  | InvalidVersion nat nat nat
  | DescriptorMismatch nat nat
  | UseBeforeState nat nat nat
  | MissingAfter nat nat
  | MissingRead nat
  | EffectCycle
  | MissingBuffer nat
  | ValueDescriptor nat
  | TransactionFailed nat
  | CaptureUnsupported
  | AutogradUnsupported
  | MutationUnknownNode nat
  | MutationWouldInvalidateBackward nat nat nat nat nat
  | MutationPermitMismatch nat nat
  | EffectPanic

abbreviation mismatch_at :: "buffer_state \<Rightarrow> effect_error" where
  "mismatch_at st \<equiv> DescriptorMismatch (bs_buffer st) (bs_version st)"

abbreviation used_before :: "nat \<Rightarrow> buffer_state \<Rightarrow> effect_error" where
  "used_before step st \<equiv> UseBeforeState step (bs_buffer st) (bs_version st)"

definition try_each :: "('a \<Rightarrow> ('e, unit) result) \<Rightarrow> 'a list \<Rightarrow> ('e, unit) result" where
  "try_each f xs = try_fold (\<lambda>_. f) () xs"

definition same_descriptor :: "buffer_state \<Rightarrow> buffer_state \<Rightarrow> bool" where
  "same_descriptor a b \<longleftrightarrow> bs_shape a = bs_shape b \<and> bs_dtype a = bs_dtype b \<and> bs_bytes a = bs_bytes b"

subsection \<open>Validation\<close>

definition validate_buffer_state :: "buffer_state \<Rightarrow> (effect_error, unit) result" where
  "validate_buffer_state st =
     rbind (map_err (\<lambda>_. EffectOverflow) (numel (bs_shape st))) (\<lambda>n.
     rbind (ok_or EffectOverflow (checked_mul_u n (itemsize (bs_dtype st)))) (\<lambda>bytes.
     if bytes \<noteq> bs_bytes st then Inl (InvalidBytes (bs_buffer st)) else Inr ()))"

definition target_lane :: "buffer_state \<Rightarrow> affine_view \<Rightarrow> nat list \<Rightarrow> nat \<Rightarrow> (effect_error, nat list) result" where
  "target_lane st v seen index =
     rbind (map_err (\<lambda>_. mismatch_at st) (element_offset v index)) (\<lambda>off.
     rbind (ok_or (mismatch_at st) (usize_of_int off)) (\<lambda>off.
     if off \<in> set seen then Inl (mismatch_at st) else Inr (off # seen)))"

definition validate_target_view :: "buffer_state \<Rightarrow> affine_view \<Rightarrow> (effect_error, unit) result" where
  "validate_target_view st v =
    (if av_source v \<noteq> bs_shape st \<or> length (av_strides v) \<noteq> length (av_logical v) then Inl (mismatch_at st)
     else rbind (map_err (\<lambda>_. mismatch_at st) (validate_write v)) (\<lambda>_.
          rbind (map_err (\<lambda>_. EffectOverflow) (numel (av_logical v))) (\<lambda>n.
          rbind (try_fold (target_lane st v) [] [0..<n]) (\<lambda>_. Inr ()))))"

text \<open>One step of \<open>EffectPlan::validate\<close>, in the order of its checks: the step's own target \<dots>\<close>

definition check_target :: "effect_step \<Rightarrow> (effect_error, unit) result" where
  "check_target step =
     rbind (validate_buffer_state (es_write step)) (\<lambda>_.
     rbind (case es_target_view step of None \<Rightarrow> Inr () | Some v \<Rightarrow> validate_target_view (es_write step) v) (\<lambda>_.
     case es_index_plan step of
       None \<Rightarrow> Inr ()
     | Some p \<Rightarrow>
         if es_target_view step \<noteq> None \<or> ip_source p \<noteq> bs_shape (es_write step)
         then Inl (mismatch_at (es_write step)) else Inr ()))"

text \<open>\<dots> the snapshot it overwrites \<dots>\<close>

definition check_snapshot :: "buffer_state \<Rightarrow> buffer_state \<Rightarrow> (effect_error, unit) result" where
  "check_snapshot snapshot written_state =
     rbind (validate_buffer_state snapshot) (\<lambda>_.
     if bs_buffer snapshot \<noteq> bs_buffer written_state then Inl (mismatch_at written_state)
     else if \<not> same_descriptor snapshot written_state then Inl (mismatch_at written_state)
     else rbind (ok_or EffectOverflow (checked_add_u (bs_version snapshot) 1)) (\<lambda>next_version.
     if bs_version written_state \<noteq> next_version
     then Inl (InvalidVersion (bs_buffer written_state) (bs_version snapshot) (bs_version written_state))
     else Inr ()))"

text \<open>\<dots> the state the buffer had before, and the states it reads.\<close>

definition check_previous :: "buffer_state option \<Rightarrow> buffer_state \<Rightarrow> (effect_error, unit) result" where
  "check_previous prev written_state =
    (case prev of
       Some p \<Rightarrow>
         if \<not> same_descriptor p written_state then Inl (mismatch_at written_state)
         else rbind (ok_or EffectOverflow (checked_add_u (bs_version p) 1)) (\<lambda>want.
              if bs_version written_state \<noteq> want
              then Inl (InvalidVersion (bs_buffer written_state) (bs_version p) (bs_version written_state))
              else Inr ())
     | None \<Rightarrow>
         if bs_version written_state \<noteq> 1
         then Inl (InvalidVersion (bs_buffer written_state) 0 (bs_version written_state)) else Inr ())"

definition check_read ::
  "(nat \<rightharpoonup> buffer_state) \<Rightarrow> nat \<Rightarrow> buffer_state \<Rightarrow> (effect_error, unit) result" where
  "check_read states step read =
     rbind (validate_buffer_state read) (\<lambda>_.
     if states (bs_buffer read) = Some read \<or> bs_version read = 0 then Inr () else Inl (used_before step read))"

record validation =
  va_steps :: "nat set"
  va_states :: "nat \<rightharpoonup> buffer_state"
  va_completed :: "nat set"

definition check_step :: "validation \<Rightarrow> effect_step \<Rightarrow> (effect_error, validation) result" where
  "check_step va step =
    (if es_id step \<in> va_steps va then Inl (DuplicateStep (es_id step))
     else rbind (try_each (\<lambda>a. if a \<in> va_completed va then Inr () else Inl (MissingAfter (es_id step) a))
                   (es_after step)) (\<lambda>_.
          rbind (check_target step) (\<lambda>_.
          case es_reads step of
            [snapshot, source] \<Rightarrow>
              rbind (check_snapshot snapshot (es_write step)) (\<lambda>_.
              rbind (validate_buffer_state source) (\<lambda>_.
              if bs_dtype source \<noteq> bs_dtype (es_write step) then Inl (mismatch_at (es_write step))
              else rbind (check_previous (va_states va (bs_buffer (es_write step))) (es_write step)) (\<lambda>_.
                   rbind (try_each (check_read (va_states va) (es_id step)) (es_reads step)) (\<lambda>_.
                   Inr \<lparr>va_steps = insert (es_id step) (va_steps va),
                        va_states = (va_states va)(bs_buffer (es_write step) \<mapsto> es_write step),
                        va_completed = insert (es_id step) (va_completed va)\<rparr>))))
          | _ \<Rightarrow> Inl (MissingRead (es_id step)))))"

definition validation_start :: validation where
  "validation_start = \<lparr>va_steps = {}, va_states = Map.empty, va_completed = {}\<rparr>"

definition effect_plan_validate :: "effect_plan \<Rightarrow> (effect_error, unit) result" where
  "effect_plan_validate steps = rbind (try_fold check_step validation_start steps) (\<lambda>_. Inr ())"

subsection \<open>The effect graph\<close>

record assignment =
  as_step :: effect_step
  as_source :: buffer_state

record 'l effect_graph =
  eg_initial :: "(nat \<times> 'l tensor) list"
  eg_states :: "nat \<rightharpoonup> buffer_state"
  eg_assignments :: "assignment list"

definition effect_graph_empty :: "'l effect_graph" where
  "effect_graph_empty = \<lparr>eg_initial = [], eg_states = Map.empty, eg_assignments = []\<rparr>"

definition state_for :: "nat \<Rightarrow> nat \<Rightarrow> 'l tensor \<Rightarrow> (effect_error, buffer_state) result" where
  "state_for buffer version t =
     rbind (ok_or EffectOverflow (checked_mul_u (td_len t) (itemsize (td_dtype t)))) (\<lambda>bytes.
     Inr \<lparr>bs_buffer = buffer, bs_version = version, bs_shape = td_shape t, bs_dtype = td_dtype t, bs_bytes = bytes\<rparr>)"

definition effect_insert ::
  "'l effect_graph \<Rightarrow> nat \<Rightarrow> 'l tensor \<Rightarrow> (effect_error, 'l effect_graph \<times> buffer_state) result" where
  "effect_insert g buffer t =
    (if eg_states g buffer \<noteq> None then Inl (DuplicateWrite buffer 0)
     else rbind (state_for buffer 0 t) (\<lambda>st.
          Inr (g\<lparr>eg_initial := eg_initial g @ [(buffer, t)], eg_states := (eg_states g)(buffer \<mapsto> st)\<rparr>, st)))"

text \<open>The write of an assignment, at construction on the initial values and at execution on snapshots.\<close>

definition store_into ::
  "affine_view option \<Rightarrow> index_plan option \<Rightarrow> 'l tensor \<Rightarrow> 'l tensor \<Rightarrow> (tensor_error, 'l tensor) result" where
  "store_into view plan base source =
    (case view of
       Some v \<Rightarrow> assign_view_from base v source
     | None \<Rightarrow> (case plan of Some p \<Rightarrow> static_index_update_from base p source | None \<Rightarrow> assign_from base source))"

definition store_err :: "effect_error \<Rightarrow> (tensor_error, 'a) result \<Rightarrow> (effect_error, 'a) result" where
  "store_err e = map_err (\<lambda>t. if t = LanePanic then EffectPanic else e)"

definition effect_assign ::
  "'l effect_graph \<Rightarrow> buffer_state \<Rightarrow> buffer_state \<Rightarrow> affine_view option \<Rightarrow> index_plan option \<Rightarrow>
   (effect_error, 'l effect_graph \<times> buffer_state) result" where
  "effect_assign g target source view plan =
     rbind (ok_or (MissingBuffer (bs_buffer target)) (eg_states g (bs_buffer target))) (\<lambda>current.
     if current \<noteq> target then Inl (used_before (length (eg_assignments g)) target)
     else rbind (ok_or (MissingBuffer (bs_buffer source)) (eg_states g (bs_buffer source))) (\<lambda>source_current.
     if bs_version source_current < bs_version source
     then Inl (used_before (length (eg_assignments g)) source)
     else if bs_dtype current \<noteq> bs_dtype source then Inl (mismatch_at target)
     else rbind (ok_or (MissingBuffer (bs_buffer target)) (map_of (eg_initial g) (bs_buffer target))) (\<lambda>probe.
     rbind (ok_or (MissingBuffer (bs_buffer source)) (map_of (eg_initial g) (bs_buffer source))) (\<lambda>value.
     rbind (case view of None \<Rightarrow> Inr () | Some v \<Rightarrow> validate_target_view current v) (\<lambda>_.
     rbind (store_err (mismatch_at target) (store_into view plan probe value)) (\<lambda>_.
     rbind (ok_or EffectOverflow (checked_add_u (bs_version current) 1)) (\<lambda>version.
     let next_state = current\<lparr>bs_version := version\<rparr>;
         step = \<lparr>es_id = length (eg_assignments g), es_reads = [target, source], es_write = next_state,
                 es_target_view = view, es_index_plan = plan,
                 es_after = (case eg_assignments g of [] \<Rightarrow> []
                             | _ \<Rightarrow> [es_id (as_step (last (eg_assignments g)))])\<rparr>
     in Inr (g\<lparr>eg_states := (eg_states g)(bs_buffer next_state \<mapsto> next_state),
               eg_assignments := eg_assignments g @ [\<lparr>as_step = step, as_source = source\<rparr>]\<rparr>,
             next_state))))))))"

text \<open>The public assignments and their guarded forms, which check the permit's state first.\<close>

definition assign_whole where
  "assign_whole g target source = effect_assign g target source None None"

definition assign_view where
  "assign_view g target source v = effect_assign g target source (Some (affine_of_view_map v)) None"

definition assign_affine_view where
  "assign_affine_view g target source v = effect_assign g target source (Some v) None"

definition static_index_assign where
  "static_index_assign g target source p = effect_assign g target source None (Some p)"

definition permits :: "buffer_state \<Rightarrow> buffer_state \<Rightarrow> (effect_error, unit) result" where
  "permits permit_state target =
    (if permit_state \<noteq> target then Inl (MutationPermitMismatch (bs_buffer target) (bs_version target)) else Inr ())"

definition assign_guarded where
  "assign_guarded permit_state g target source =
     rbind (permits permit_state target) (\<lambda>_. assign_whole g target source)"

definition assign_view_guarded where
  "assign_view_guarded permit_state g target source v =
     rbind (permits permit_state target) (\<lambda>_. assign_view g target source v)"

definition assign_affine_view_guarded where
  "assign_affine_view_guarded permit_state g target source v =
     rbind (permits permit_state target) (\<lambda>_. assign_affine_view g target source v)"

definition static_index_assign_guarded where
  "static_index_assign_guarded permit_state g target source p =
     rbind (permits permit_state target) (\<lambda>_. static_index_assign g target source p)"

definition effect_graph_plan :: "'l effect_graph \<Rightarrow> effect_plan" where
  "effect_graph_plan g = map as_step (eg_assignments g)"

definition effect_capture :: "'l effect_graph \<Rightarrow> (effect_error, unit) result" where
  "effect_capture g = Inl CaptureUnsupported"

definition effect_grad :: "'l effect_graph \<Rightarrow> (effect_error, unit) result" where
  "effect_grad g = Inl AutogradUnsupported"

subsection \<open>Execution\<close>

record 'l effect_commit =
  ec_values :: "nat \<rightharpoonup> 'l tensor"
  ec_states :: "nat \<rightharpoonup> buffer_state"
  ec_trace :: "nat list"

type_synonym 'l snapshots = "nat \<times> nat \<rightharpoonup> 'l tensor"

definition snapshot_of :: "'l snapshots \<Rightarrow> nat \<Rightarrow> buffer_state \<Rightarrow> (effect_error, 'l tensor) result" where
  "snapshot_of snaps step st = ok_or (used_before step st) (snaps (bs_buffer st, bs_version st))"

definition run_assignment ::
  "'l snapshots \<times> 'l effect_commit \<Rightarrow> assignment \<Rightarrow> (effect_error, 'l snapshots \<times> 'l effect_commit) result" where
  "run_assignment state a =
    (let (snaps, c) = state; step = as_step a; st = es_write step in
     rbind (snapshot_of snaps (es_id step) (es_reads step ! 0)) (\<lambda>target.
     rbind (snapshot_of snaps (es_id step) (as_source a)) (\<lambda>source.
     rbind (store_err (TransactionFailed (es_id step))
              (store_into (es_target_view step) (es_index_plan step) target source)) (\<lambda>candidate.
     Inr (snaps((bs_buffer st, bs_version st) \<mapsto> candidate),
          \<lparr>ec_values = (ec_values c)(bs_buffer st \<mapsto> candidate),
           ec_states = (ec_states c)(bs_buffer st \<mapsto> st),
           ec_trace = ec_trace c @ [es_id step]\<rparr>)))))"

definition initial_snapshots :: "(nat \<times> 'l tensor) list \<Rightarrow> 'l snapshots" where
  "initial_snapshots initial = (\<lambda>(buffer, version). if version = 0 then map_of initial buffer else None)"

definition initial_states :: "(nat \<times> 'l tensor) list \<Rightarrow> (effect_error, nat \<rightharpoonup> buffer_state) result" where
  "initial_states initial =
     rbind (try_map (\<lambda>(buffer, t). rbind (state_for buffer 0 t) (\<lambda>st. Inr (buffer, st))) initial) (\<lambda>sts.
     Inr (map_of sts))"

definition effect_execute :: "'l effect_graph \<Rightarrow> (effect_error, 'l effect_commit) result" where
  "effect_execute g =
     rbind (effect_plan_validate (effect_graph_plan g)) (\<lambda>_.
     rbind (initial_states (eg_initial g)) (\<lambda>states.
     rbind (try_fold run_assignment (initial_snapshots (eg_initial g),
              \<lparr>ec_values = map_of (eg_initial g), ec_states = states, ec_trace = []\<rparr>) (eg_assignments g)) (\<lambda>(_, c).
     Inr c)))"

end
