(* ===== verification/EffectTheorems.thy ===== *)
theory EffectTheorems
  imports Effects
begin

section \<open>What effect plans and their execution promise\<close>

text \<open>
  The validator accepts exactly the plans in which every buffer counts its versions up by one with
  one descriptor, and reads only initial or latest states. A graph built through the public interface
  executes to what an ordinary memory updated in place holds, unless a step reads a state that a later
  write has replaced, which the validator reports.
\<close>

subsection \<open>Validation\<close>

lemma try_each_eq_Inr: "try_each f xs = Inr u \<longleftrightarrow> (\<forall>x \<in> set xs. f x = Inr ())"
  unfolding try_each_def by (induction xs) (auto simp: result_simps)

text \<open>The writes to a buffer so far, and the state they leave it in.\<close>

definition writes_to :: "nat \<Rightarrow> effect_plan \<Rightarrow> effect_plan" where
  "writes_to b steps = filter (\<lambda>s. bs_buffer (es_write s) = b) steps"

abbreviation version_after :: "effect_plan \<Rightarrow> nat \<Rightarrow> nat" where
  "version_after steps b \<equiv> length (writes_to b steps)"

definition state_after :: "effect_plan \<Rightarrow> nat \<Rightarrow> buffer_state option" where
  "state_after steps b = (if writes_to b steps = [] then None else Some (es_write (last (writes_to b steps))))"

lemma writes_to_snoc:
  "writes_to b (steps @ [s]) = (if bs_buffer (es_write s) = b then writes_to b steps @ [s] else writes_to b steps)"
  by (simp add: writes_to_def)

lemma state_after_snoc:
  "state_after (steps @ [s]) = (state_after steps)(bs_buffer (es_write s) \<mapsto> es_write s)"
  by (rule ext) (auto simp: state_after_def writes_to_snoc)

lemma state_after_Nil [simp]: "state_after [] = Map.empty"
  by (rule ext) (simp add: state_after_def writes_to_def)

text \<open>What a step has to satisfy after the steps before it.\<close>

definition step_ok :: "effect_plan \<Rightarrow> effect_step \<Rightarrow> bool" where
  "step_ok earlier s \<longleftrightarrow>
     es_id s \<notin> es_id ` set earlier \<and> set (es_after s) \<subseteq> es_id ` set earlier \<and> check_target s = Inr () \<and>
     bs_version (es_write s) = Suc (version_after earlier (bs_buffer (es_write s))) \<and>
     bs_version (es_write s) \<le> usize_max \<and>
     (\<forall>e \<in> set earlier. bs_buffer (es_write e) = bs_buffer (es_write s) \<longrightarrow>
        same_descriptor (es_write e) (es_write s)) \<and>
     (\<exists>source. es_reads s =
          [(es_write s)\<lparr>bs_version := version_after earlier (bs_buffer (es_write s))\<rparr>, source] \<and>
        validate_buffer_state source = Inr () \<and> bs_dtype source = bs_dtype (es_write s) \<and>
        (bs_version source = 0 \<or> state_after earlier (bs_buffer source) = Some source))"

definition disciplined :: "effect_plan \<Rightarrow> bool" where
  "disciplined steps \<longleftrightarrow> (\<forall>i < length steps. step_ok (take i steps) (steps ! i))"

lemma disciplined_snoc: "disciplined (steps @ [s]) \<longleftrightarrow> disciplined steps \<and> step_ok steps s"
  by (auto simp: disciplined_def nth_append less_Suc_eq)

lemma disciplined_Nil [simp]: "disciplined []"
  by (simp add: disciplined_def)

definition validation_after :: "effect_plan \<Rightarrow> validation" where
  "validation_after steps = \<lparr>va_steps = es_id ` set steps, va_states = state_after steps,
     va_completed = es_id ` set steps\<rparr>"

lemma validation_after_Nil: "validation_after [] = validation_start"
  by (simp add: validation_after_def validation_start_def)

lemma validation_after_snoc:
  "validation_after (steps @ [s]) = \<lparr>va_steps = insert (es_id s) (va_steps (validation_after steps)),
     va_states = (va_states (validation_after steps))(bs_buffer (es_write s) \<mapsto> es_write s),
     va_completed = insert (es_id s) (va_completed (validation_after steps))\<rparr>"
  by (simp add: validation_after_def state_after_snoc)

lemma state_after_SomeD: "state_after steps b = Some st \<Longrightarrow> \<exists>s \<in> set steps. es_write s = st \<and> bs_buffer st = b"
proof -
  assume st: "state_after steps b = Some st"
  then have "writes_to b steps \<noteq> []" "st = es_write (last (writes_to b steps))"
    by (auto simp: state_after_def split: if_splits)
  moreover have "last (writes_to b steps) \<in> set (writes_to b steps)" using calculation(1) by simp
  ultimately show ?thesis by (auto simp: writes_to_def)
qed

text \<open>In a disciplined plan the version of a buffer is the number of its writes.\<close>

lemma disciplined_version:
  "disciplined steps \<Longrightarrow> state_after steps b = Some st \<Longrightarrow> bs_version st = version_after steps b"
proof (induction steps rule: rev_induct)
  case (snoc s steps)
  then show ?case
    by (auto simp: disciplined_snoc state_after_snoc writes_to_snoc step_ok_def split: if_splits)
qed simp

lemma state_after_None: "state_after steps b = None \<longleftrightarrow> version_after steps b = 0"
  by (auto simp: state_after_def)

lemma disciplined_descriptor:
  assumes "disciplined steps" and "s \<in> set steps" and "state_after steps (bs_buffer (es_write s)) = Some st"
  shows "same_descriptor (es_write s) st"
  using assms
proof (induction steps arbitrary: st rule: rev_induct)
  case (snoc e steps)
  from snoc.prems(1) have d: "disciplined steps" and ok: "step_ok steps e" by (auto simp: disciplined_snoc)
  show ?case
  proof (cases "bs_buffer (es_write e) = bs_buffer (es_write s)")
    case True
    with snoc.prems(3) have "st = es_write e" by (auto simp: state_after_snoc)
    with True ok snoc.prems(2) show ?thesis by (auto simp: step_ok_def same_descriptor_def)
  next
    case False
    with snoc.prems(2,3) have "s \<in> set steps" "state_after steps (bs_buffer (es_write s)) = Some st"
      by (auto simp: state_after_snoc)
    with snoc.IH [OF d] show ?thesis by blast
  qed
qed simp

lemma same_descriptor_sym: "same_descriptor a b \<longleftrightarrow> same_descriptor b a"
  by (auto simp: same_descriptor_def)

lemma same_descriptor_trans: "same_descriptor a b \<Longrightarrow> same_descriptor b c \<Longrightarrow> same_descriptor a c"
  by (auto simp: same_descriptor_def)

lemma validate_same_descriptor:
  "same_descriptor a b \<Longrightarrow> validate_buffer_state a = Inr () \<longleftrightarrow> validate_buffer_state b = Inr ()"
  by (auto simp: validate_buffer_state_def same_descriptor_def result_simps checked_defs split: if_splits)

lemma same_state_iff:
  "a = (b :: buffer_state) \<longleftrightarrow> bs_buffer a = bs_buffer b \<and> bs_version a = bs_version b \<and> same_descriptor a b"
  by (cases a, cases b) (auto simp: same_descriptor_def)

text \<open>The checks of one step, each as its fact.\<close>

lemma check_snapshot_iff:
  "check_snapshot snap w = Inr () \<longleftrightarrow> validate_buffer_state snap = Inr () \<and> bs_buffer snap = bs_buffer w \<and>
     same_descriptor snap w \<and> bs_version w = Suc (bs_version snap) \<and> bs_version w \<le> usize_max"
  by (auto simp: check_snapshot_def result_simps checked_defs)

lemma check_previous_iff:
  "check_previous prev w = Inr () \<longleftrightarrow>
     (case prev of None \<Rightarrow> bs_version w = 1
      | Some p \<Rightarrow> same_descriptor p w \<and> bs_version w = Suc (bs_version p) \<and> bs_version w \<le> usize_max)"
  by (auto simp: check_previous_def result_simps checked_defs split: option.splits)

lemma check_read_iff:
  "check_read states step r = Inr () \<longleftrightarrow>
     validate_buffer_state r = Inr () \<and> (states (bs_buffer r) = Some r \<or> bs_version r = 0)"
  by (auto simp: check_read_def result_simps)

lemma check_step_Inr_iff:
  "check_step va s = Inr va' \<longleftrightarrow>
     es_id s \<notin> va_steps va \<and> set (es_after s) \<subseteq> va_completed va \<and> check_target s = Inr () \<and>
     (\<exists>snap source. es_reads s = [snap, source] \<and> check_snapshot snap (es_write s) = Inr () \<and>
        validate_buffer_state source = Inr () \<and> bs_dtype source = bs_dtype (es_write s) \<and>
        check_previous (va_states va (bs_buffer (es_write s))) (es_write s) = Inr () \<and>
        check_read (va_states va) (es_id s) snap = Inr () \<and> check_read (va_states va) (es_id s) source = Inr ()) \<and>
     va' = \<lparr>va_steps = insert (es_id s) (va_steps va),
       va_states = (va_states va)(bs_buffer (es_write s) \<mapsto> es_write s),
       va_completed = insert (es_id s) (va_completed va)\<rparr>"
  by (auto simp: check_step_def result_simps try_each_eq_Inr split: if_splits list.splits)

lemma check_step_after:
  assumes d: "disciplined steps"
  shows "check_step (validation_after steps) s = Inr va' \<longleftrightarrow>
    step_ok steps s \<and> va' = validation_after (steps @ [s])"
proof -
  let ?w = "es_write s" and ?b = "bs_buffer (es_write s)"
  let ?snap = "?w\<lparr>bs_version := version_after steps ?b\<rparr>"
  have prev: "check_previous (state_after steps ?b) ?w = Inr () \<longleftrightarrow>
      bs_version ?w = Suc (version_after steps ?b) \<and>
      (state_after steps ?b \<noteq> None \<longrightarrow> bs_version ?w \<le> usize_max) \<and>
      (\<forall>e \<in> set steps. bs_buffer (es_write e) = ?b \<longrightarrow> same_descriptor (es_write e) ?w)"
  proof (cases "state_after steps ?b")
    case None
    then have "\<forall>e \<in> set steps. bs_buffer (es_write e) \<noteq> ?b"
      by (auto simp: state_after_None writes_to_def filter_empty_conv)
    moreover have "version_after steps ?b = 0" using None by (simp add: state_after_None)
    ultimately show ?thesis using None by (auto simp: check_previous_iff)
  next
    case (Some p)
    from state_after_SomeD [OF Some] obtain e where e: "e \<in> set steps" "es_write e = p" "bs_buffer p = ?b" by blast
    have "\<forall>e \<in> set steps. bs_buffer (es_write e) = ?b \<longrightarrow> same_descriptor (es_write e) p"
      using disciplined_descriptor [OF d] Some by fastforce
    with Some e show ?thesis
      by (auto simp: check_previous_iff disciplined_version [OF d Some] intro: same_descriptor_trans)
  qed
  have snap: "check_snapshot sn ?w = Inr () \<and> check_read (state_after steps) (es_id s) sn = Inr () \<longleftrightarrow>
      sn = ?snap \<and> bs_version ?w \<le> usize_max"
    if "check_target s = Inr ()" "check_previous (state_after steps ?b) ?w = Inr ()" for sn
  proof -
    have v: "validate_buffer_state ?w = Inr ()" using that(1) by (auto simp: check_target_def result_simps)
    have desc: "same_descriptor ?snap ?w" by (simp add: same_descriptor_def)
    show ?thesis
    proof
      assume "check_snapshot sn ?w = Inr () \<and> check_read (state_after steps) (es_id s) sn = Inr ()"
      then show "sn = ?snap \<and> bs_version ?w \<le> usize_max"
        using that(2) by (auto simp: prev check_snapshot_iff same_state_iff [of sn] same_descriptor_def)
    next
      assume r: "sn = ?snap \<and> bs_version ?w \<le> usize_max"
      have "state_after steps ?b = Some ?snap \<or> version_after steps ?b = 0"
      proof (cases "state_after steps ?b")
        case (Some p)
        from state_after_SomeD [OF Some] have "bs_buffer p = ?b" by blast
        moreover have "bs_version p = version_after steps ?b" using d Some by (rule disciplined_version)
        moreover have "same_descriptor p ?w" using that(2) Some by (simp add: check_previous_iff)
        ultimately show ?thesis using Some by (auto simp: same_state_iff [of p] same_descriptor_def)
      qed (simp add: state_after_None)
      with r that(2) show "check_snapshot sn ?w = Inr () \<and> check_read (state_after steps) (es_id s) sn = Inr ()"
        using validate_same_descriptor [OF desc] v desc
        by (auto simp: check_snapshot_iff check_read_iff prev)
    qed
  qed
  let ?source_ok = "\<lambda>source. validate_buffer_state source = Inr () \<and> bs_dtype source = bs_dtype ?w"
  have reads: "(\<exists>sn source. es_reads s = [sn, source] \<and> check_snapshot sn ?w = Inr () \<and>
        validate_buffer_state source = Inr () \<and> bs_dtype source = bs_dtype ?w \<and>
        check_previous (state_after steps ?b) ?w = Inr () \<and>
        check_read (state_after steps) (es_id s) sn = Inr () \<and> check_read (state_after steps) (es_id s) source = Inr ())
      \<longleftrightarrow> check_previous (state_after steps ?b) ?w = Inr () \<and> bs_version ?w \<le> usize_max \<and>
        (\<exists>source. es_reads s = [?snap, source] \<and> ?source_ok source \<and>
          (bs_version source = 0 \<or> state_after steps (bs_buffer source) = Some source))"
    if t: "check_target s = Inr ()"
  proof (cases "check_previous (state_after steps ?b) ?w = Inr ()")
    case True
    show ?thesis
      using snap [OF t True] True by (fastforce simp: check_read_iff)
  qed simp
  have "step_ok steps s \<longleftrightarrow> es_id s \<notin> es_id ` set steps \<and> set (es_after s) \<subseteq> es_id ` set steps \<and>
      check_target s = Inr () \<and> check_previous (state_after steps ?b) ?w = Inr () \<and> bs_version ?w \<le> usize_max \<and>
      (\<exists>source. es_reads s = [?snap, source] \<and> ?source_ok source \<and>
        (bs_version source = 0 \<or> state_after steps (bs_buffer source) = Some source))"
    unfolding step_ok_def prev by blast
  then show ?thesis
    unfolding check_step_Inr_iff validation_after_snoc using reads
    by (auto simp: validation_after_def)
qed

lemma try_fold_check_step:
  "try_fold check_step validation_start steps = Inr va \<longleftrightarrow> disciplined steps \<and> va = validation_after steps"
proof (induction steps arbitrary: va rule: rev_induct)
  case Nil
  then show ?case by (auto simp: validation_after_Nil)
next
  case (snoc s steps)
  then show ?case
    by (auto simp: try_fold_append result_simps disciplined_snoc check_step_after)
qed

text \<open>C34: the validator accepts exactly the disciplined plans: unique ids, after-edges to earlier steps,
  every write advancing its buffer by one version from exactly the state before it, under one
  descriptor per buffer, and every source an initial state or the latest state of its buffer.\<close>

theorem validate_iff_disciplined: "effect_plan_validate steps = Inr () \<longleftrightarrow> disciplined steps"
  by (simp add: effect_plan_validate_def result_simps try_fold_check_step)

end
