(* ===== verification/EffectExecution.thy ===== *)
theory EffectExecution
  imports EffectTheorems
begin

section \<open>Executing effect graphs\<close>

subsection \<open>Whether a store succeeds depends on shapes and types only\<close>

definition alike :: "'l tensor \<Rightarrow> 'l tensor \<Rightarrow> bool" where
  "alike t u \<longleftrightarrow> td_shape u = td_shape t \<and> td_dtype u = td_dtype t \<and> tensor_ok t \<and> tensor_ok u"

lemma alike_len: "alike t u \<Longrightarrow> td_len u = td_len t"
  by (auto simp: alike_def tensor_ok_def)

lemma alike_refl: "tensor_ok t \<Longrightarrow> alike t t"
  by (simp add: alike_def)

lemma alike_lanes: "alike t u \<Longrightarrow> length lanes = td_len u \<Longrightarrow> alike t (u\<lparr>td_lanes := lanes\<rparr>)"
  by (auto simp: alike_def intro: tensor_ok_lanes)

lemma splice_alike:
  "splice base ds lanes ss = Inr out \<Longrightarrow> length base' = length base \<Longrightarrow> length lanes' = length lanes \<Longrightarrow>
   \<exists>out'. splice base' ds lanes' ss = Inr out' \<and> length out' = length base'"
proof (induction ds arbitrary: base base' ss)
  case (Cons d ds)
  show ?case
  proof (cases ss)
    case (Cons s ss')
    from Cons.prems Cons have d: "d < length base" "s < length lanes"
      and rest: "splice (base[d := lanes ! s]) ds lanes ss' = Inr out"
      by (auto simp: splice_def result_simps index_lane_def split: if_splits)
    from Cons.IH [OF rest, of "base'[d := lanes' ! s]"] Cons.prems(2,3)
    have "\<exists>out'. splice (base'[d := lanes' ! s]) ds lanes' ss' = Inr out' \<and> length out' = length base'" by simp
    with d Cons Cons.prems(2,3) show ?thesis by (simp add: splice_def index_lane_def)
  qed (simp add: splice_def)
qed (simp add: splice_def)

lemma store_alike:
  assumes "store_into view plan t s = Inr r" and "alike t t'" and "alike s s'"
  shows "\<exists>r'. store_into view plan t' s' = Inr r' \<and> alike t r'"
proof -
  note same = alike_len [OF assms(2)] alike_len [OF assms(3)]
  have eqs: "td_shape t' = td_shape t" "td_dtype t' = td_dtype t" "td_shape s' = td_shape s" "td_dtype s' = td_dtype s"
    and ok: "tensor_ok t" "tensor_ok s" "tensor_ok t'" "tensor_ok s'" using assms(2,3) by (simp_all add: alike_def)
  show ?thesis
  proof (cases view)
    case (Some v)
    with assms(1) obtain offs out where ok_view: "\<not> (av_source v \<noteq> td_shape t \<or> av_logical v \<noteq> td_shape s \<or> td_dtype t \<noteq> td_dtype s)"
        "try_map (view_offset v) [0..<td_len s] = Inr offs" "distinct offs"
      and out: "splice (td_lanes t) offs (td_lanes s) [0..<td_len s] = Inr out"
      by (auto simp: store_into_def assign_view_from_def result_simps split: if_splits)
    from splice_alike [OF out same] obtain out' where
      "splice (td_lanes t') offs (td_lanes s') [0..<td_len s] = Inr out'" "length out' = td_len t'" by blast
    with ok_view Some eqs same alike_lanes [OF assms(2)] show ?thesis
      by (simp add: store_into_def assign_view_from_def)
  next
    case None
    show ?thesis
    proof (cases plan)
      case (Some p)
      with None assms(1) obtain offs out where ok_plan: "td_shape t = ip_source p" "td_dtype t = td_dtype s"
          "broadcasts_to (td_shape s) (ip_output p)"
          "try_map (broadcast_offset (ip_output p) (td_shape s)) [0..<length (ip_offsets p)] = Inr offs"
        and out: "splice (td_lanes t) (ip_offsets p) (td_lanes s) offs = Inr out"
        by (auto simp: store_into_def static_index_update_from_def result_simps split: if_splits)
      from splice_alike [OF out same] obtain out' where
        "splice (td_lanes t') (ip_offsets p) (td_lanes s') offs = Inr out'" "length out' = td_len t'" by blast
      with ok_plan None Some eqs alike_lanes [OF assms(2)] show ?thesis
        by (simp add: store_into_def static_index_update_from_def)
    next
      case none: None
      with None assms(1) have "broadcasts_to (td_shape s) (td_shape t)" "td_dtype t = td_dtype s"
        by (auto simp: store_into_def assign_from_eq [OF ok(1,2)] split: if_splits)
      with None none eqs assign_from_eq [OF ok(3,4)] alike_lanes [OF assms(2)] show ?thesis
        by (simp add: store_into_def same)
    qed
  qed
qed

subsection \<open>Graphs built through the interface\<close>

text \<open>
  A graph together with the state handles it has issued: a handle has no public constructor, so every
  operand of an assignment is one of them. An assignment names a view or an index plan, never both.
\<close>

inductive built :: "'l effect_graph \<Rightarrow> buffer_state set \<Rightarrow> bool" where
  start: "built effect_graph_empty {}"
| inserted: "built g hs \<Longrightarrow> tensor_ok t \<Longrightarrow> effect_insert g b t = Inr (g', h) \<Longrightarrow> built g' (insert h hs)"
| assigned: "built g hs \<Longrightarrow> target \<in> hs \<Longrightarrow> source \<in> hs \<Longrightarrow> view = None \<or> plan = None \<Longrightarrow>
    effect_assign g target source view plan = Inr (g', h) \<Longrightarrow> built g' (insert h hs)"

text \<open>The handle of a version of a buffer, given its initial tensor.\<close>

definition handle :: "nat \<Rightarrow> nat \<Rightarrow> 'l tensor \<Rightarrow> buffer_state" where
  "handle b v t = \<lparr>bs_buffer = b, bs_version = v, bs_shape = td_shape t, bs_dtype = td_dtype t,
     bs_bytes = td_len t * itemsize (td_dtype t)\<rparr>"

lemma handle_simps [simp]:
  "bs_buffer (handle b v t) = b" "bs_version (handle b v t) = v" "bs_shape (handle b v t) = td_shape t"
  "bs_dtype (handle b v t) = td_dtype t" "bs_bytes (handle b v t) = td_len t * itemsize (td_dtype t)"
  "(handle b v t)\<lparr>bs_version := w\<rparr> = handle b w t"
  by (simp_all add: handle_def)

lemma handle_inject: "handle b v t = handle b' v' t \<longleftrightarrow> b = b' \<and> v = v'"
  by (auto simp: handle_def)

definition fits :: "'l tensor \<Rightarrow> bool" where
  "fits t \<longleftrightarrow> tensor_ok t \<and> td_len t * itemsize (td_dtype t) \<le> usize_max"

lemma state_for_iff: "state_for b v t = Inr st \<longleftrightarrow> td_len t * itemsize (td_dtype t) \<le> usize_max \<and> st = handle b v t"
  by (auto simp: state_for_def handle_def result_simps checked_defs)

lemma validate_handle: "fits t \<Longrightarrow> validate_buffer_state (handle b v t) = Inr ()"
  by (auto simp: validate_buffer_state_def fits_def tensor_ok_def result_simps checked_defs)

abbreviation initial_of :: "'l effect_graph \<Rightarrow> nat \<rightharpoonup> 'l tensor" where
  "initial_of g \<equiv> map_of (eg_initial g)"

abbreviation steps_of :: "'l effect_graph \<Rightarrow> effect_plan" where
  "steps_of g \<equiv> effect_graph_plan g"

text \<open>What holds of the assignment added after the steps \<open>earlier\<close>.\<close>

definition assignment_ok :: "(nat \<rightharpoonup> 'l tensor) \<Rightarrow> effect_plan \<Rightarrow> assignment \<Rightarrow> bool" where
  "assignment_ok init earlier a \<longleftrightarrow>
     (\<exists>b t b' v' t' r. init b = Some t \<and> init b' = Some t' \<and> v' \<le> version_after earlier b' \<and>
        as_source a = handle b' v' t' \<and>
        es_reads (as_step a) = [handle b (version_after earlier b) t, as_source a] \<and>
        es_write (as_step a) = handle b (Suc (version_after earlier b)) t \<and>
        Suc (version_after earlier b) \<le> usize_max \<and> td_dtype t' = td_dtype t \<and>
        check_target (as_step a) = Inr () \<and>
        store_into (es_target_view (as_step a)) (es_index_plan (as_step a)) t t' = Inr r) \<and>
     es_id (as_step a) = length earlier \<and> set (es_after (as_step a)) \<subseteq> es_id ` set earlier"

definition graph_ok :: "'l effect_graph \<Rightarrow> bool" where
  "graph_ok g \<longleftrightarrow> distinct (map fst (eg_initial g)) \<and> (\<forall>(b, t) \<in> set (eg_initial g). fits t) \<and>
     (\<forall>b. eg_states g b = map_option (handle b (version_after (steps_of g) b)) (initial_of g b)) \<and>
     (\<forall>i < length (eg_assignments g). assignment_ok (initial_of g) (take i (steps_of g)) (eg_assignments g ! i))"

definition handles_of :: "'l effect_graph \<Rightarrow> buffer_state set" where
  "handles_of g = {handle b v t |b v t. initial_of g b = Some t \<and> v \<le> version_after (steps_of g) b}"

lemma handles_of_iff: "h \<in> handles_of g \<longleftrightarrow> (\<exists>t. initial_of g (bs_buffer h) = Some t \<and>
    bs_version h \<le> version_after (steps_of g) (bs_buffer h) \<and> h = handle (bs_buffer h) (bs_version h) t)"
  by (auto simp: handles_of_def)

lemma assignment_ok_mono:
  assumes "assignment_ok init earlier a" and "init \<subseteq>\<^sub>m init'"
  shows "assignment_ok init' earlier a"
proof -
  have "init' b = Some t" if "init b = Some t" for b t
    using assms(2) that by (metis domI map_le_def)
  with assms(1) show ?thesis unfolding assignment_ok_def by meson
qed

lemma built_steps [simp]: "length (steps_of g) = length (eg_assignments g)"
  by (simp add: effect_graph_plan_def)

lemma nth_steps: "i < length (eg_assignments g) \<Longrightarrow> steps_of g ! i = as_step (eg_assignments g ! i)"
  by (simp add: effect_graph_plan_def)

lemma written_buffers:
  assumes "graph_ok g" and "s \<in> set (steps_of g)"
  shows "initial_of g (bs_buffer (es_write s)) \<noteq> None"
proof -
  from assms(2) obtain i where i: "i < length (eg_assignments g)" "s = as_step (eg_assignments g ! i)"
    by (metis built_steps in_set_conv_nth nth_steps)
  with assms(1) have "assignment_ok (initial_of g) (take i (steps_of g)) (eg_assignments g ! i)"
    by (simp add: graph_ok_def)
  with i(2) show ?thesis by (auto simp: assignment_ok_def)
qed

lemma unwritten: "graph_ok g \<Longrightarrow> initial_of g b = None \<Longrightarrow> version_after (steps_of g) b = 0"
  using written_buffers [of g] by (fastforce simp: writes_to_def filter_empty_conv)

lemma graph_ok_fits: "graph_ok g \<Longrightarrow> initial_of g b = Some t \<Longrightarrow> fits t"
  by (auto simp: graph_ok_def dest: map_of_SomeD)

lemma graph_ok_empty: "graph_ok effect_graph_empty \<and> handles_of effect_graph_empty = {}"
  by (simp add: graph_ok_def handles_of_def effect_graph_empty_def)

lemma graph_ok_insert:
  assumes "graph_ok g" and "tensor_ok t" and "effect_insert g b t = Inr (g', h)"
  shows "graph_ok g' \<and> handles_of g' = insert h (handles_of g)"
proof -
  from assms(3) have none: "eg_states g b = None" and f: "fits t" and h: "h = handle b 0 t"
    and g': "g' = g\<lparr>eg_initial := eg_initial g @ [(b, t)], eg_states := (eg_states g)(b \<mapsto> h)\<rparr>"
    using assms(2) by (auto simp: effect_insert_def result_simps state_for_iff fits_def split: if_splits)
  from none assms(1) have new: "initial_of g b = None" by (simp add: graph_ok_def)
  have steps: "steps_of g' = steps_of g" and asgs: "eg_assignments g' = eg_assignments g"
    and states: "eg_states g' = (eg_states g)(b \<mapsto> h)"
    by (simp_all add: g' effect_graph_plan_def)
  have init: "initial_of g' = (initial_of g)(b \<mapsto> t)"
    using new by (auto simp: g' map_add_def fun_eq_iff split: option.splits)
  have zero: "version_after (steps_of g) b = 0" using assms(1) new by (rule unwritten)
  have le: "initial_of g \<subseteq>\<^sub>m initial_of g'" unfolding init using new by (auto simp: map_le_def dom_def)
  have "graph_ok g'"
    unfolding graph_ok_def
  proof (intro conjI allI impI)
    show "distinct (map fst (eg_initial g'))"
      using assms(1) new by (auto simp: g' graph_ok_def map_of_eq_None_iff)
    show "\<forall>(b, t) \<in> set (eg_initial g'). fits t" using assms(1) f by (auto simp: g' graph_ok_def)
    show "eg_states g' c = map_option (handle c (version_after (steps_of g') c)) (initial_of g' c)" for c
      using assms(1) zero h by (auto simp: steps init graph_ok_def states)
    show "assignment_ok (initial_of g') (take i (steps_of g')) (eg_assignments g' ! i)"
      if "i < length (eg_assignments g')" for i
      using assms(1) that assignment_ok_mono [OF _ le] by (auto simp: asgs steps graph_ok_def)
  qed
  moreover have "handles_of g' = insert h (handles_of g)"
    using new zero h by (auto simp: handles_of_def steps init) (metis option.distinct(1))
  ultimately show ?thesis ..
qed

lemma target_lane_shape:
  assumes "bs_shape st = bs_shape st'"
  shows "validate_target_view st v = Inr () \<longleftrightarrow> validate_target_view st' v = Inr ()"
proof -
  have "target_lane st v seen i = Inr r \<longleftrightarrow> target_lane st' v seen i = Inr r" for seen i r
    by (auto simp: target_lane_def result_simps)
  then have "try_fold (target_lane st v) seen is = Inr r \<longleftrightarrow> try_fold (target_lane st' v) seen is = Inr r" for seen "is" r
    by (induction "is" arbitrary: seen) (auto simp: result_simps)
  then show ?thesis using assms by (auto simp: validate_target_view_def result_simps split: if_splits)
qed

lemma effect_assign_Inr:
  assumes "effect_assign g target source view plan = Inr (g', h)"
  shows "\<exists>probe val r. eg_states g (bs_buffer target) = Some target \<and>
    bs_dtype target = bs_dtype source \<and> initial_of g (bs_buffer target) = Some probe \<and>
    initial_of g (bs_buffer source) = Some val \<and>
    (case view of None \<Rightarrow> True | Some v \<Rightarrow> validate_target_view target v = Inr ()) \<and>
    store_into view plan probe val = Inr r \<and> Suc (bs_version target) \<le> usize_max \<and>
    h = target\<lparr>bs_version := Suc (bs_version target)\<rparr> \<and>
    g' = g\<lparr>eg_states := (eg_states g)(bs_buffer target \<mapsto> h),
       eg_assignments := eg_assignments g @ [\<lparr>as_step =
         \<lparr>es_id = length (eg_assignments g), es_reads = [target, source], es_write = h, es_target_view = view,
          es_index_plan = plan, es_after = (case eg_assignments g of [] \<Rightarrow> []
            | _ \<Rightarrow> [es_id (as_step (last (eg_assignments g)))])\<rparr>, as_source = source\<rparr>]\<rparr>"
  using assms
  by (auto simp: effect_assign_def result_simps store_err_def checked_defs Let_def
      split: if_splits option.splits)

lemma graph_ok_assign:
  assumes ok: "graph_ok g" and "target \<in> handles_of g" and "source \<in> handles_of g"
    and excl: "view = None \<or> plan = None" and "effect_assign g target source view plan = Inr (g', h)"
  shows "graph_ok g' \<and> handles_of g' = insert h (handles_of g)"
proof -
  from effect_assign_Inr [OF assms(5)] obtain probe val r where
    cur: "eg_states g (bs_buffer target) = Some target" and dt: "bs_dtype target = bs_dtype source"
    and init: "initial_of g (bs_buffer target) = Some probe" "initial_of g (bs_buffer source) = Some val"
    and view: "case view of None \<Rightarrow> True | Some v \<Rightarrow> validate_target_view target v = Inr ()"
    and store: "store_into view plan probe val = Inr r" and max: "Suc (bs_version target) \<le> usize_max"
    and h: "h = target\<lparr>bs_version := Suc (bs_version target)\<rparr>"
    and g': "g' = g\<lparr>eg_states := (eg_states g)(bs_buffer target \<mapsto> h),
       eg_assignments := eg_assignments g @ [\<lparr>as_step =
         \<lparr>es_id = length (eg_assignments g), es_reads = [target, source], es_write = h, es_target_view = view,
          es_index_plan = plan, es_after = (case eg_assignments g of [] \<Rightarrow> []
            | _ \<Rightarrow> [es_id (as_step (last (eg_assignments g)))])\<rparr>, as_source = source\<rparr>]\<rparr>"
    by blast
  define b v where "b = bs_buffer target" and "v = version_after (steps_of g) b"
  have target: "target = handle b v probe"
    using ok cur init(1) by (auto simp: graph_ok_def b_def v_def)
  from assms(3) obtain b' v' where source: "source = handle b' v' val" and v': "v' \<le> version_after (steps_of g) b'"
    using init(2) by (auto simp: handles_of_def)
  define a where "a = last (eg_assignments g')"
  have asgs: "eg_assignments g' = eg_assignments g @ [a]" and inits: "initial_of g' = initial_of g"
    and steps: "steps_of g' = steps_of g @ [as_step a]"
    and states: "eg_states g' = (eg_states g)(bs_buffer target \<mapsto> h)"
    by (simp_all add: a_def g' effect_graph_plan_def)
  have h': "h = handle b (Suc v) probe" by (simp add: h target)
  have wr: "es_write (as_step a) = h" by (simp add: a_def g')
  have fit: "fits probe" using ok init(1) by (rule graph_ok_fits)
  have check: "check_target (as_step a) = Inr ()"
  proof -
    have "validate_target_view h w = Inr ()" if "view = Some w" for w
      using view that target_lane_shape [of h target w] by (simp add: h)
    moreover have "ip_source p = td_shape probe" if "plan = Some p" for p
      using store that excl by (auto simp: store_into_def static_index_update_from_def split: if_splits)
    ultimately show ?thesis
      using excl validate_handle [OF fit] by (auto simp: check_target_def a_def g' h' split: option.splits)
  qed
  have prev: "set (es_after (as_step a)) \<subseteq> es_id ` set (steps_of g)"
  proof -
    have "es_after (as_step a) = (if eg_assignments g = [] then [] else [es_id (as_step (last (eg_assignments g)))])"
      by (simp add: a_def g' split: list.split)
    then show ?thesis by (auto simp: effect_graph_plan_def)
  qed
  have fields: "as_source a = source" "es_reads (as_step a) = [target, source]"
    "es_target_view (as_step a) = view" "es_index_plan (as_step a) = plan"
    "es_id (as_step a) = length (steps_of g)" by (simp_all add: a_def g')
  have dtypes: "td_dtype val = td_dtype probe" using dt by (simp add: target source)
  have inits': "initial_of g b = Some probe" "initial_of g b' = Some val" using init by (simp_all add: b_def source)
  have max': "Suc v \<le> usize_max" using max by (simp add: target)
  have new: "assignment_ok (initial_of g) (steps_of g) a"
    unfolding assignment_ok_def fields wr
    apply (rule conjI)
     apply (rule exI [of _ b], rule exI [of _ probe], rule exI [of _ b'], rule exI [of _ v'], rule exI [of _ val], rule exI [of _ r])
     apply (use inits' max' v' dtypes check store in \<open>simp add: h' v_def target source\<close>)
    using prev by simp
  have "graph_ok g'"
    unfolding graph_ok_def
  proof (intro conjI allI impI)
    show "distinct (map fst (eg_initial g'))" "\<forall>(b, t) \<in> set (eg_initial g'). fits t"
      using ok by (auto simp: g' graph_ok_def)
    show "eg_states g' c = map_option (handle c (version_after (steps_of g') c)) (initial_of g' c)" for c
      using ok init(1) h' by (auto simp: steps inits writes_to_snoc wr graph_ok_def v_def b_def states)
    show "assignment_ok (initial_of g') (take i (steps_of g')) (eg_assignments g' ! i)"
      if "i < length (eg_assignments g')" for i
      using ok that new unfolding inits steps asgs
      by (auto simp: graph_ok_def nth_append less_Suc_eq)
  qed
  moreover have "handles_of g' = insert h (handles_of g)"
  proof -
    have "version_after (steps_of g') c = (if c = b then Suc v else version_after (steps_of g) c)" for c
      by (simp add: steps writes_to_snoc wr h' v_def)
    then show ?thesis
      using init(1) by (auto simp: set_eq_iff handles_of_iff inits h' b_def v_def le_Suc_eq split: if_splits)
  qed
  ultimately show ?thesis ..
qed

lemma built_ok: "built g hs \<Longrightarrow> graph_ok g \<and> handles_of g = hs"
proof (induction rule: built.induct)
  case start
  then show ?case by (rule graph_ok_empty)
next
  case (inserted g hs t b g' h)
  then show ?case using graph_ok_insert by blast
next
  case (assigned g hs target source view plan g' h)
  then show ?case using graph_ok_assign by blast
qed

subsection \<open>Validation of a built plan\<close>

text \<open>The source of an assignment is a state that a later write, before this assignment, replaced.\<close>

definition stale_at :: "'l effect_graph \<Rightarrow> nat \<Rightarrow> bool" where
  "stale_at g i \<longleftrightarrow> (let src = as_source (eg_assignments g ! i) in
     bs_version src \<noteq> 0 \<and> bs_version src \<noteq> version_after (take i (steps_of g)) (bs_buffer src))"

lemma take_Suc_steps: "i < length (eg_assignments g) \<Longrightarrow>
  take (Suc i) (steps_of g) = take i (steps_of g) @ [as_step (eg_assignments g ! i)]"
  by (simp add: take_Suc_conv_app_nth nth_steps)

lemma take_length_steps: "take (length (eg_assignments g)) (steps_of g) = steps_of g"
  by (simp add: effect_graph_plan_def)

lemma built_ids:
  assumes "graph_ok g" and "i \<le> length (eg_assignments g)"
  shows "map es_id (take i (steps_of g)) = [0..<i]"
proof (rule nth_equalityI)
  fix j assume "j < length (map es_id (take i (steps_of g)))"
  then have j: "j < i" "j < length (eg_assignments g)" by auto
  with assms(1) have "assignment_ok (initial_of g) (take j (steps_of g)) (eg_assignments g ! j)"
    by (simp add: graph_ok_def)
  with j show "map es_id (take i (steps_of g)) ! j = [0..<i] ! j" by (simp add: assignment_ok_def nth_steps)
qed (use assms(2) in simp)

lemma built_state_after:
  assumes "graph_ok g"
  shows "i \<le> length (eg_assignments g) \<Longrightarrow> initial_of g b = Some t \<Longrightarrow>
    state_after (take i (steps_of g)) b =
      (if version_after (take i (steps_of g)) b = 0 then None
       else Some (handle b (version_after (take i (steps_of g)) b) t))"
proof (induction i)
  case 0
  then show ?case by (simp add: writes_to_def)
next
  case (Suc i)
  then have "assignment_ok (initial_of g) (take i (steps_of g)) (eg_assignments g ! i)"
    using assms by (simp add: graph_ok_def)
  with Suc show ?case
    by (auto simp: take_Suc_steps state_after_snoc writes_to_snoc assignment_ok_def)
qed

lemma check_step_built:
  assumes ok: "graph_ok g" and i: "i < length (eg_assignments g)"
  shows "check_step (validation_after (take i (steps_of g))) (steps_of g ! i) =
    (if stale_at g i then Inl (used_before i (as_source (eg_assignments g ! i)))
     else Inr (validation_after (take (Suc i) (steps_of g))))"
proof -
  let ?A = "take i (steps_of g)" and ?a = "eg_assignments g ! i"
  from ok i have "assignment_ok (initial_of g) ?A ?a" by (simp add: graph_ok_def)
  then obtain b t b' v' t' where init: "initial_of g b = Some t" "initial_of g b' = Some t'"
    and src: "as_source ?a = handle b' v' t'" "v' \<le> version_after ?A b'"
    and reads: "es_reads (as_step ?a) = [handle b (version_after ?A b) t, as_source ?a]"
    and wr: "es_write (as_step ?a) = handle b (Suc (version_after ?A b)) t" "Suc (version_after ?A b) \<le> usize_max"
    and dt: "td_dtype t' = td_dtype t" and target: "check_target (as_step ?a) = Inr ()"
    and "id": "es_id (as_step ?a) = length ?A" and prev: "set (es_after (as_step ?a)) \<subseteq> es_id ` set ?A"
    by (auto simp: assignment_ok_def)
  have len: "length ?A = i" using i by simp
  have ids: "es_id ` set ?A = {0..<i}" using arg_cong [OF built_ids [OF ok, of i], of set] i by simp
  have fit: "fits t" "fits t'" using ok init by (auto intro: graph_ok_fits)
  have st: "state_after ?A c = (if version_after ?A c = 0 then None else Some (handle c (version_after ?A c) u))"
    if "initial_of g c = Some u" for c u
    using built_state_after [OF ok _ that, of i] i by simp
  have snap: "check_snapshot (handle b (version_after ?A b) t) (es_write (as_step ?a)) = Inr ()"
    using fit wr by (simp add: check_snapshot_iff validate_handle same_descriptor_def)
  have previous: "check_previous (state_after ?A b) (es_write (as_step ?a)) = Inr ()"
    using wr by (simp add: check_previous_iff st [OF init(1)] same_descriptor_def)
  have read1: "check_read (state_after ?A) i (handle b (version_after ?A b) t) = Inr ()"
    using fit by (simp add: check_read_iff st [OF init(1)] validate_handle)
  have read2: "check_read (state_after ?A) i (as_source ?a) =
      (if stale_at g i then Inl (used_before i (as_source ?a)) else Inr ())"
    using fit src by (auto simp: check_read_def stale_at_def st [OF init(2)] validate_handle handle_inject)
  have after: "try_each (\<lambda>a. if a \<in> {0..<i} then Inr () else Inl (MissingAfter i a)) (es_after (as_step ?a)) = Inr ()"
    using prev ids by (auto simp: try_each_eq_Inr)
  have va: "validation_after ?A = \<lparr>va_steps = {0..<i}, va_states = state_after ?A, va_completed = {0..<i}\<rparr>"
    by (simp add: validation_after_def ids)
  have out: "validation_after (take (Suc i) (steps_of g)) = \<lparr>va_steps = insert i {0..<i},
      va_states = (state_after ?A)(b \<mapsto> es_write (as_step ?a)), va_completed = insert i {0..<i}\<rparr>"
    unfolding take_Suc_steps [OF i] validation_after_snoc using i by (simp add: va "id" wr min_absorb2)
  have wb: "bs_buffer (es_write (as_step ?a)) = b" "bs_dtype (as_source ?a) = bs_dtype (es_write (as_step ?a))"
    using wr src dt by simp_all
  have valid: "validate_buffer_state (as_source ?a) = Inr ()" using fit src by (simp add: validate_handle)
  have step_id: "es_id (as_step ?a) = i" using "id" len by simp
  have each: "try_each (check_read (state_after ?A) i) [handle b (version_after ?A b) t, as_source ?a] =
      check_read (state_after ?A) i (as_source ?a)"
    by (cases "check_read (state_after ?A) i (as_source ?a)") (simp_all add: try_each_def read1)
  show ?thesis
    unfolding nth_steps [OF i] check_step_def va out validation.simps step_id reads wb(1)
    using after snap previous target valid wb(2) each read2 by simp
qed

lemma validate_prefix:
  assumes "graph_ok g"
  shows "i \<le> length (eg_assignments g) \<Longrightarrow> \<forall>j < i. \<not> stale_at g j \<Longrightarrow>
    try_fold check_step validation_start (take i (steps_of g)) = Inr (validation_after (take i (steps_of g)))"
proof (induction i)
  case 0
  then show ?case by (simp add: validation_after_Nil)
next
  case (Suc i)
  then have i: "i < length (eg_assignments g)" by simp
  have "take (Suc i) (steps_of g) = take i (steps_of g) @ [steps_of g ! i]"
    using i by (simp add: take_Suc_conv_app_nth)
  with Suc check_step_built [OF assms i] show ?case by (simp add: try_fold_append)
qed

lemma find_upt_None: "find P [0..<n] = None \<longleftrightarrow> (\<forall>i < n. \<not> P i)"
  by (auto simp: find_None_iff)

lemma find_upt_Some: "find P [0..<n] = Some i \<longleftrightarrow> i < n \<and> P i \<and> (\<forall>j < i. \<not> P j)"
  by (auto simp: find_Some_iff)

lemma validate_built:
  assumes "graph_ok g"
  shows "effect_plan_validate (steps_of g) =
    (case find (stale_at g) [0..<length (eg_assignments g)] of
       None \<Rightarrow> Inr () | Some i \<Rightarrow> Inl (used_before i (as_source (eg_assignments g ! i))))"
proof (cases "find (stale_at g) [0..<length (eg_assignments g)]")
  case None
  then have "\<forall>j < length (eg_assignments g). \<not> stale_at g j" by (simp add: find_upt_None)
  with validate_prefix [OF assms order_refl] None show ?thesis
    by (simp add: effect_plan_validate_def take_length_steps)
next
  case (Some i)
  then have i: "i < length (eg_assignments g)" "stale_at g i" "\<forall>j < i. \<not> stale_at g j"
    by (simp_all add: find_upt_Some)
  have split: "steps_of g = take i (steps_of g) @ steps_of g ! i # drop (Suc i) (steps_of g)"
    using i(1) by (simp add: id_take_nth_drop)
  have "try_fold check_step validation_start (steps_of g) = Inl (used_before i (as_source (eg_assignments g ! i)))"
    using validate_prefix [OF assms _ i(3)] check_step_built [OF assms i(1)] i(1,2)
    by (subst split, subst try_fold_append) simp
  with Some show ?thesis by (simp add: effect_plan_validate_def)
qed

subsection \<open>Execution\<close>

text \<open>
  The reference semantics: one memory, updated in place. A source of version 0 reads the initial value
  of its buffer, any other source what the buffer holds now.
\<close>

definition store_in_place ::
  "(nat \<rightharpoonup> 'l tensor) \<Rightarrow> (nat \<rightharpoonup> 'l tensor) \<Rightarrow> assignment \<Rightarrow> (nat \<rightharpoonup> 'l tensor)" where
  "store_in_place init memory a =
    (let s = as_step a; b = bs_buffer (es_write s); src = as_source a;
         source = (if bs_version src = 0 then init (bs_buffer src) else memory (bs_buffer src))
     in case (memory b, source) of
          (Some t, Some u) \<Rightarrow> (case store_into (es_target_view s) (es_index_plan s) t u of
             Inr r \<Rightarrow> memory(b \<mapsto> r) | Inl _ \<Rightarrow> memory)
        | _ \<Rightarrow> memory)"

definition memory_after :: "'l effect_graph \<Rightarrow> nat \<Rightarrow> (nat \<rightharpoonup> 'l tensor)" where
  "memory_after g i = foldl (store_in_place (initial_of g)) (initial_of g) (take i (eg_assignments g))"

lemma memory_after_Suc: "i < length (eg_assignments g) \<Longrightarrow>
  memory_after g (Suc i) = store_in_place (initial_of g) (memory_after g i) (eg_assignments g ! i)"
  by (simp add: memory_after_def take_Suc_conv_app_nth)

lemma initial_states_ok:
  assumes "\<forall>(b, t) \<in> set initial. fits t"
  shows "initial_states initial = Inr (\<lambda>b. map_option (handle b 0) (map_of initial b))"
proof -
  have "try_map (\<lambda>(buffer, t). rbind (state_for buffer 0 t) (\<lambda>st. Inr (buffer, st))) initial =
      Inr (map (\<lambda>(b, t). (b, handle b 0 t)) initial)"
    by (rule try_map_ok) (use assms in \<open>auto simp: result_simps state_for_iff fits_def\<close>)
  moreover have "map_of (map (\<lambda>(b, t). (b, handle b 0 t)) initial) = (\<lambda>b. map_option (handle b 0) (map_of initial b))"
    by (induction initial) auto
  ultimately show ?thesis by (simp add: initial_states_def)
qed

text \<open>What the executor has built after \<open>i\<close> assignments.\<close>

definition snapshots_ok :: "'l effect_graph \<Rightarrow> nat \<Rightarrow> 'l snapshots \<Rightarrow> bool" where
  "snapshots_ok g i snaps \<longleftrightarrow> (\<forall>b t. initial_of g b = Some t \<longrightarrow> snaps (b, 0) = Some t \<and>
     (\<exists>u. memory_after g i b = Some u \<and> alike t u \<and> snaps (b, version_after (take i (steps_of g)) b) = Some u))"

definition commit_after :: "'l effect_graph \<Rightarrow> nat \<Rightarrow> 'l effect_commit" where
  "commit_after g i = \<lparr>ec_values = memory_after g i,
     ec_states = (\<lambda>b. map_option (handle b (version_after (take i (steps_of g)) b)) (initial_of g b)),
     ec_trace = [0..<i]\<rparr>"

lemma run_assignment_built:
  assumes ok: "graph_ok g" and i: "i < length (eg_assignments g)" and fresh: "\<not> stale_at g i"
    and snaps: "snapshots_ok g i snaps"
  shows "\<exists>snaps'. run_assignment (snaps, commit_after g i) (eg_assignments g ! i) = Inr (snaps', commit_after g (Suc i)) \<and>
    snapshots_ok g (Suc i) snaps'"
proof -
  let ?A = "take i (steps_of g)" and ?a = "eg_assignments g ! i" and ?M = "memory_after g i"
  from ok i have "assignment_ok (initial_of g) ?A ?a" by (simp add: graph_ok_def)
  then obtain b t b' v' t' r where init: "initial_of g b = Some t" "initial_of g b' = Some t'"
    and src: "as_source ?a = handle b' v' t'"
    and reads: "es_reads (as_step ?a) = [handle b (version_after ?A b) t, as_source ?a]"
    and wr: "es_write (as_step ?a) = handle b (Suc (version_after ?A b)) t"
    and store: "store_into (es_target_view (as_step ?a)) (es_index_plan (as_step ?a)) t t' = Inr r"
    and "id": "es_id (as_step ?a) = i" using i by (auto simp: assignment_ok_def min_absorb2)
  from snaps init(1) obtain u where u: "?M b = Some u" "alike t u" "snaps (b, version_after ?A b) = Some u"
    unfolding snapshots_ok_def by blast
  from snaps init(2) obtain u' where u': "?M b' = Some u'" "alike t' u'" "snaps (b', version_after ?A b') = Some u'"
    and zero: "snaps (b', 0) = Some t'" unfolding snapshots_ok_def by blast
  define w where "w = (if v' = 0 then t' else u')"
  have read: "snaps (b', v') = Some w" "(if v' = 0 then initial_of g b' else ?M b') = Some w"
    using fresh u' zero init(2) src by (auto simp: w_def stale_at_def)
  have "alike t' w" using u'(2) graph_ok_fits [OF ok init(2)] by (auto simp: w_def fits_def intro: alike_refl)
  from store_alike [OF store u(2) this] obtain c where
    c: "store_into (es_target_view (as_step ?a)) (es_index_plan (as_step ?a)) u w = Inr c" "alike t c" by blast
  have mem: "memory_after g (Suc i) = ?M(b \<mapsto> c)"
    unfolding memory_after_Suc [OF i] store_in_place_def Let_def wr src handle_simps read(2) u(1)
    by (simp add: c(1))
  let ?snaps = "snaps((b, Suc (version_after ?A b)) \<mapsto> c)"
  have ver: "version_after (take (Suc i) (steps_of g)) d = (if d = b then Suc (version_after ?A b) else version_after ?A d)" for d
    by (simp add: take_Suc_steps [OF i] writes_to_snoc wr)
  have states: "(\<lambda>d. map_option (handle d (version_after ?A d)) (initial_of g d))
      (b \<mapsto> handle b (Suc (version_after ?A b)) t) =
      (\<lambda>d. map_option (handle d (version_after (take (Suc i) (steps_of g)) d)) (initial_of g d))"
    using init(1) by (auto simp: ver fun_eq_iff)
  have "run_assignment (snaps, commit_after g i) ?a = Inr (?snaps, commit_after g (Suc i))"
    using u(3) read(1) c(1)
    by (simp add: run_assignment_def commit_after_def snapshot_of_def reads src wr "id" store_err_def mem states)
  moreover have "snapshots_ok g (Suc i) ?snaps"
    using snaps c(2) init(1) unfolding snapshots_ok_def mem ver by auto
  ultimately show ?thesis by blast
qed

lemma run_built:
  assumes "graph_ok g"
  shows "i \<le> length (eg_assignments g) \<Longrightarrow> \<forall>j < i. \<not> stale_at g j \<Longrightarrow>
    \<exists>snaps. try_fold run_assignment (initial_snapshots (eg_initial g), commit_after g 0) (take i (eg_assignments g)) =
      Inr (snaps, commit_after g i) \<and> snapshots_ok g i snaps"
proof (induction i)
  case 0
  have "snapshots_ok g 0 (initial_snapshots (eg_initial g))"
    using graph_ok_fits [OF assms]
    by (auto simp: snapshots_ok_def initial_snapshots_def memory_after_def writes_to_def fits_def intro: alike_refl)
  then show ?case by simp
next
  case (Suc i)
  then have i: "i < length (eg_assignments g)" "\<not> stale_at g i" by simp_all
  from Suc obtain snaps where
    "try_fold run_assignment (initial_snapshots (eg_initial g), commit_after g 0) (take i (eg_assignments g)) =
      Inr (snaps, commit_after g i)" "snapshots_ok g i snaps" by auto
  moreover from run_assignment_built [OF assms i this(2)] obtain snaps' where
    "run_assignment (snaps, commit_after g i) (eg_assignments g ! i) = Inr (snaps', commit_after g (Suc i))"
    "snapshots_ok g (Suc i) snaps'" by blast
  ultimately show ?case using i(1) by (simp add: take_Suc_conv_app_nth try_fold_append)
qed

lemma execute_graph_ok:
  assumes "graph_ok g"
  shows "effect_execute g =
    (case find (stale_at g) [0..<length (eg_assignments g)] of
       Some i \<Rightarrow> Inl (used_before i (as_source (eg_assignments g ! i)))
     | None \<Rightarrow> Inr \<lparr>ec_values = memory_after g (length (eg_assignments g)), ec_states = eg_states g,
                   ec_trace = [0..<length (eg_assignments g)]\<rparr>)"
proof (cases "find (stale_at g) [0..<length (eg_assignments g)]")
  case None
  then have fresh: "\<forall>j < length (eg_assignments g). \<not> stale_at g j" by (simp add: find_upt_None)
  have "initial_states (eg_initial g) = Inr (ec_states (commit_after g 0))"
    using initial_states_ok [of "eg_initial g"] assms by (simp add: graph_ok_def commit_after_def writes_to_def)
  moreover have "\<lparr>ec_values = initial_of g, ec_states = ec_states (commit_after g 0), ec_trace = []\<rparr> = commit_after g 0"
    by (simp add: commit_after_def memory_after_def)
  moreover have "eg_states g = ec_states (commit_after g (length (eg_assignments g)))"
    using assms by (auto simp: graph_ok_def commit_after_def take_length_steps)
  ultimately show ?thesis
    using run_built [OF assms order_refl fresh] validate_built [OF assms] None
    by (auto simp: effect_execute_def commit_after_def)
next
  case (Some i)
  then show ?thesis using validate_built [OF assms] by (simp add: effect_execute_def)
qed

text \<open>C11: a graph built through the interface executes to what a memory updated in place holds, in the
  states the graph announced and with every step once in order; the only failure is a source state that
  a later write replaced before its use, reported at the first such step. No transaction fails midway
  and no lane access panics.\<close>

theorem execute_refines_memory:
  assumes "built g hs"
  shows "effect_execute g =
    (case find (stale_at g) [0..<length (eg_assignments g)] of
       Some i \<Rightarrow> Inl (used_before i (as_source (eg_assignments g ! i)))
     | None \<Rightarrow> Inr \<lparr>ec_values = memory_after g (length (eg_assignments g)), ec_states = eg_states g,
                   ec_trace = [0..<length (eg_assignments g)]\<rparr>)"
  using execute_graph_ok built_ok [OF assms] by blast

subsection \<open>A built graph, step by step\<close>

definition patch_row :: "nat tensor" where
  "patch_row = \<lparr>td_shape = [2], td_dtype = I32, td_lanes = [5, 6]\<rparr>"

definition demo1 where "demo1 = projr (effect_insert effect_graph_empty 1 grid)"
definition demo2 where "demo2 = projr (effect_insert (fst demo1) 2 row)"
definition demo3 where "demo3 = projr (effect_insert (fst demo2) 3 patch_row)"
definition demo4 where "demo4 = projr (assign_whole (fst demo3) (snd demo1) (snd demo2))"
definition demo5 where "demo5 = projr (assign_affine_view (fst demo4) (snd demo4) (snd demo3) patch_view)"
definition demo6 where "demo6 = projr (assign_whole (fst demo5) (snd demo5) (snd demo4))"

lemma projr_ok: "is_ok r \<Longrightarrow> r = Inr (projr r)"
  by (cases r) (simp_all add: is_ok_def)

lemma demo_built:
  "built (fst demo3) {snd demo3, snd demo2, snd demo1}"
  "built (fst demo5) {snd demo5, snd demo4, snd demo3, snd demo2, snd demo1}"
  "built (fst demo6) {snd demo6, snd demo5, snd demo4, snd demo3, snd demo2, snd demo1}"
proof -
  have ok: "is_ok (effect_insert effect_graph_empty 1 grid)" "is_ok (effect_insert (fst demo1) 2 row)"
    "is_ok (effect_insert (fst demo2) 3 patch_row)" "is_ok (assign_whole (fst demo3) (snd demo1) (snd demo2))"
    "is_ok (assign_affine_view (fst demo4) (snd demo4) (snd demo3) patch_view)"
    "is_ok (assign_whole (fst demo5) (snd demo5) (snd demo4))"
    by code_simp+
  have t: "tensor_ok grid" "tensor_ok row" "tensor_ok patch_row" by code_simp+
  note steps = ok [THEN projr_ok, folded demo1_def demo2_def demo3_def demo4_def demo5_def demo6_def]
  have b1: "built (fst demo1) {snd demo1}"
    using built.inserted [OF built.start t(1), of 1] steps(1) by simp
  have b2: "built (fst demo2) {snd demo2, snd demo1}"
    using built.inserted [OF b1 t(2), of 2] steps(2) by simp
  show b3: "built (fst demo3) {snd demo3, snd demo2, snd demo1}"
    using built.inserted [OF b2 t(3), of 3] steps(3) by simp
  have b4: "built (fst demo4) {snd demo4, snd demo3, snd demo2, snd demo1}"
    using built.assigned [OF b3, of "snd demo1" "snd demo2" None None] steps(4) by (simp add: assign_whole_def)
  show b5: "built (fst demo5) {snd demo5, snd demo4, snd demo3, snd demo2, snd demo1}"
    using built.assigned [OF b4, of "snd demo4" "snd demo3" "Some patch_view" None] steps(5)
    by (simp add: assign_affine_view_def)
  show "built (fst demo6) {snd demo6, snd demo5, snd demo4, snd demo3, snd demo2, snd demo1}"
    using built.assigned [OF b5, of "snd demo5" "snd demo4" None None] steps(6) by (simp add: assign_whole_def)
qed


theorem execute_refines_memory_witness:
  "(\<exists>c. effect_execute (fst demo5) = Inr c \<and> ec_trace c = [0, 1] \<and>
      map_option td_lanes (ec_values c 1) = Some [7, 5, 9, 7, 6, 9]) \<and>
   effect_execute (fst demo6) = Inl (UseBeforeState 2 1 1)"
proof -
  have "find (stale_at (fst demo5)) [0..<length (eg_assignments (fst demo5))] = None"
    "map_option td_lanes (memory_after (fst demo5) (length (eg_assignments (fst demo5))) 1) = Some [7, 5, 9, 7, 6, 9]"
    "[0..<length (eg_assignments (fst demo5))] = [0, 1]" by code_simp+
  with execute_refines_memory [OF demo_built(2)] have "\<exists>c. effect_execute (fst demo5) = Inr c \<and>
      ec_trace c = [0, 1] \<and> map_option td_lanes (ec_values c 1) = Some [7, 5, 9, 7, 6, 9]" by simp
  moreover have "find (stale_at (fst demo6)) [0..<length (eg_assignments (fst demo6))] = Some 2"
    "used_before 2 (as_source (eg_assignments (fst demo6) ! 2)) = UseBeforeState 2 1 1" by code_simp+
  with execute_refines_memory [OF demo_built(3)] have "effect_execute (fst demo6) = Inl (UseBeforeState 2 1 1)" by simp
  ultimately show ?thesis ..
qed

end
