(* ===== verification/EffectVjp.thy ===== *)
theory EffectVjp
  imports EffectExecution
begin

section \<open>The adjoint of a replacement write (src/src/effects/autograd.rs)\<close>

text \<open>
  A tape record keeps what one assignment wrote where, and \<open>vjp\<close> turns the gradient of the written
  tensor into the gradients of the tensor before the write and of the value written. The source computes
  with \<open>f32\<close>; the lanes here are of any type with addition, and the theorem is about exact arithmetic.
  An index past the end of a vector panics and is \<open>VjpPanic\<close>.
\<close>

datatype assignment_form = WholeForm | AffineForm affine_view | IndexedForm index_plan

record mutation_tape =
  mt_graph :: nat
  mt_pre_write :: buffer_state
  mt_rhs :: nat
  mt_rhs_shape :: shape
  mt_form :: assignment_form
  mt_after :: "nat list"

datatype vjp_error = VjpEffect effect_error | NonF32 | UpstreamShape | GraphNode nat | VjpPanic

record 'l mutation_vjp =
  mv_pre_write :: "'l tensor"
  mv_rhs_output :: "'l tensor"

text \<open>The bridge's provenance: its graph, the step and node of its binding, and the frozen operands.\<close>

record bridge_provenance =
  bp_graph :: nat
  bp_step :: nat
  bp_output :: nat
  bp_pre_write :: buffer_state
  bp_source :: buffer_state
  bp_after :: "nat list"

definition tape_from_bridge :: "bridge_provenance \<Rightarrow> 'l effect_graph \<Rightarrow> (vjp_error, mutation_tape) result" where
  "tape_from_bridge br g =
     rbind (ok_or (VjpEffect (MissingAfter (bp_step br) (bp_step br)))
              (find (\<lambda>s. es_id s = bp_step br) (effect_graph_plan g))) (\<lambda>step.
     if take 1 (es_reads step) \<noteq> [bp_pre_write br] \<or> take 1 (drop 1 (es_reads step)) \<noteq> [bp_source br] \<or>
        es_after step \<noteq> bp_after br
     then Inl (VjpEffect (mismatch_at (bp_source br)))
     else rbind (case (es_target_view step, es_index_plan step) of
              (Some v, None) \<Rightarrow> Inr (AffineForm v)
            | (None, Some p) \<Rightarrow> Inr (IndexedForm p)
            | (None, None) \<Rightarrow> Inr WholeForm
            | _ \<Rightarrow> Inl (VjpEffect (mismatch_at (es_write step)))) (\<lambda>form.
          Inr \<lparr>mt_graph = bp_graph br, mt_pre_write = bp_pre_write br, mt_rhs = bp_output br,
               mt_rhs_shape = bs_shape (bp_source br), mt_form = form, mt_after = bp_after br\<rparr>))"

definition adjoint_offset :: "shape \<Rightarrow> shape \<Rightarrow> nat \<Rightarrow> (vjp_error, nat) result" where
  "adjoint_offset source logical lane =
    (if length logical < length source then Inl UpstreamShape
     else let coordinates = rev (coords_down (rev logical) lane); pad = length logical - length source
       in try_fold (\<lambda>off (axis, dim).
            if dim \<noteq> 1 \<and> dim \<noteq> logical ! (pad + axis) then Inl UpstreamShape
            else let coordinate = if dim = 1 then 0 else coordinates ! (pad + axis)
              in ok_or (VjpEffect EffectOverflow)
                   (Option.bind (checked_mul_u off dim) (\<lambda>v. checked_add_u v coordinate)))
            0 (zip [0..<length source] source))"

definition vjp_index :: "'l list \<Rightarrow> nat \<Rightarrow> (vjp_error, 'l) result" where
  "vjp_index xs i = (if i < length xs then Inr (xs ! i) else Inl VjpPanic)"

definition add_at :: "'l :: plus list \<Rightarrow> nat \<Rightarrow> 'l \<Rightarrow> (vjp_error, 'l list) result" where
  "add_at xs i v = (if i < length xs then Inr (xs[i := xs ! i + v]) else Inl VjpPanic)"

definition accumulate_broadcast ::
  "'l :: plus list \<Rightarrow> shape \<Rightarrow> shape \<Rightarrow> 'l list \<Rightarrow> (vjp_error, 'l list) result" where
  "accumulate_broadcast destination source logical lanes =
     try_fold (\<lambda>acc (lane, v). rbind (adjoint_offset source logical lane) (\<lambda>off. add_at acc off v))
       destination (enumerate 0 lanes)"

text \<open>The upstream lanes the write left alone.\<close>

definition untouched :: "nat set \<Rightarrow> 'l :: zero list \<Rightarrow> 'l list" where
  "untouched touched up = map (\<lambda>(lane, v). if lane \<in> touched then 0 else v) (enumerate 0 up)"

definition vjp_affine ::
  "mutation_tape \<Rightarrow> affine_view \<Rightarrow> 'l :: {zero, plus} list \<Rightarrow> 'l list \<Rightarrow> (vjp_error, 'l list \<times> 'l list) result" where
  "vjp_affine tape v up rhs =
     rbind (map_err (\<lambda>_. VjpEffect (mismatch_at (mt_pre_write tape))) (validate_write v)) (\<lambda>_.
     rbind (map_err (\<lambda>_. VjpEffect EffectOverflow) (numel (av_logical v))) (\<lambda>n.
     rbind (try_fold (\<lambda>(touched, rhs) lane.
         rbind (map_err (\<lambda>_. VjpEffect EffectOverflow) (element_offset v lane)) (\<lambda>off.
         rbind (ok_or (VjpEffect EffectOverflow) (usize_of_int off)) (\<lambda>off.
         rbind (adjoint_offset (mt_rhs_shape tape) (av_logical v) lane) (\<lambda>rhs_off.
         rbind (vjp_index up off) (\<lambda>g.
         rbind (add_at rhs rhs_off g) (\<lambda>rhs. Inr (insert off touched, rhs)))))))
       ({}, rhs) [0..<n]) (\<lambda>(touched, rhs).
     Inr (untouched touched up, rhs))))"

definition final_writer :: "nat list \<Rightarrow> nat \<rightharpoonup> nat" where
  "final_writer offsets = fold (\<lambda>(lane, off) m. m(off \<mapsto> lane)) (enumerate 0 offsets) Map.empty"

definition vjp_indexed ::
  "mutation_tape \<Rightarrow> index_plan \<Rightarrow> 'l :: {zero, plus} list \<Rightarrow> 'l list \<Rightarrow> (vjp_error, 'l list \<times> 'l list) result" where
  "vjp_indexed tape p up rhs =
    (let offsets = ip_offsets p in
     rbind (try_fold (\<lambda>rhs off.
         rbind (adjoint_offset (mt_rhs_shape tape) (ip_output p) (the (final_writer offsets off))) (\<lambda>rhs_off.
         rbind (vjp_index up off) (\<lambda>g. add_at rhs rhs_off g)))
       rhs (sort (remdups offsets))) (\<lambda>rhs.
     Inr (untouched (set offsets) up, rhs)))"

definition vjp :: "mutation_tape \<Rightarrow> 'l :: {zero, plus} tensor \<Rightarrow> (vjp_error, 'l mutation_vjp) result" where
  "vjp tape upstream =
    (if bs_dtype (mt_pre_write tape) \<noteq> F32 \<or> td_dtype upstream \<noteq> F32 then Inl NonF32
     else if td_shape upstream \<noteq> bs_shape (mt_pre_write tape) then Inl UpstreamShape
     else rbind (map_err (\<lambda>_. VjpEffect EffectOverflow) (numel (mt_rhs_shape tape))) (\<lambda>n.
       let up = td_lanes upstream; rhs = replicate n 0 in
       rbind (case mt_form tape of
           WholeForm \<Rightarrow> rbind (accumulate_broadcast rhs (mt_rhs_shape tape) (bs_shape (mt_pre_write tape)) up)
             (\<lambda>rhs. Inr (replicate (length up) 0, rhs))
         | AffineForm v \<Rightarrow> vjp_affine tape v up rhs
         | IndexedForm p \<Rightarrow> vjp_indexed tape p up rhs) (\<lambda>(old, rhs).
       rbind (map_err (\<lambda>_. VjpEffect EffectOverflow) (from_storage (bs_shape (mt_pre_write tape)) F32 old)) (\<lambda>old.
       rbind (map_err (\<lambda>_. VjpEffect EffectOverflow) (from_storage (mt_rhs_shape tape) F32 rhs)) (\<lambda>rhs.
       Inr \<lparr>mv_pre_write = old, mv_rhs_output = rhs\<rparr>)))))"

end
