(* ===== verification/EffectVjpTheorems.thy ===== *)
theory EffectVjpTheorems
  imports EffectVjp
begin

section \<open>The tape's gradients are the adjoint of the write\<close>

definition dotp :: "'l :: comm_semiring_1 list \<Rightarrow> 'l list \<Rightarrow> 'l" where
  "dotp xs ys = sum_list (map2 (*) xs ys)"

lemma dotp_Nil [simp]: "dotp [] ys = 0" "dotp xs [] = 0"
  by (simp_all add: dotp_def)

lemma dotp_Cons [simp]: "dotp (x # xs) (y # ys) = x * y + dotp xs ys"
  by (simp add: dotp_def)

lemma dotp_sum: "length xs = length ys \<Longrightarrow> dotp xs ys = (\<Sum>i < length xs. xs ! i * ys ! i)"
  by (simp add: dotp_def sum_list_sum_nth atLeast0LessThan)

lemma dotp_replicate_zero: "dotp (replicate n 0) ys = 0"
  by (induction n arbitrary: ys) (simp, case_tac ys, auto simp: dotp_def)

lemma dotp_add_at:
  "i < length acc \<Longrightarrow> length acc = length src \<Longrightarrow> dotp (acc[i := acc ! i + v]) src = dotp acc src + v * src ! i"
proof (induction acc src arbitrary: i rule: list_induct2')
  case (4 a acc s src)
  then show ?case by (cases i) (auto simp: algebra_simps)
qed simp_all

subsection \<open>Accumulation\<close>

text \<open>The writes of an assignment as pairs of a written lane and the source lane it takes.\<close>

definition gathered :: "'l list \<Rightarrow> 'l list \<Rightarrow> (nat \<times> nat) list \<Rightarrow> 'l list" where
  "gathered base src ws = written base (map (\<lambda>(t, b). (t, src ! b)) ws)"

definition scattered :: "'l :: plus list \<Rightarrow> 'l list \<Rightarrow> (nat \<times> nat) list \<Rightarrow> 'l list" where
  "scattered acc up ws = foldl (\<lambda>acc (t, b). acc[b := acc ! b + up ! t]) acc ws"

lemma scattered_snoc: "scattered acc up (ws @ [(t, b)]) = (scattered acc up ws)[b := scattered acc up ws ! b + up ! t]"
  by (simp add: scattered_def)

lemma length_scattered [simp]: "length (scattered acc up ws) = length acc"
  unfolding scattered_def by (induction ws arbitrary: acc) auto

lemma dotp_scattered:
  "length acc = length src \<Longrightarrow> \<forall>(t, b) \<in> set ws. b < length src \<Longrightarrow>
   dotp (scattered acc up ws) src = dotp acc src + (\<Sum>(t, b) \<leftarrow> ws. up ! t * src ! b)"
proof (induction ws rule: rev_induct)
  case (snoc w ws)
  obtain t b where w: "w = (t, b)" by (cases w)
  have "dotp (scattered acc up (ws @ [w])) src = dotp (scattered acc up ws) src + up ! t * src ! b"
    unfolding w scattered_snoc by (rule dotp_add_at) (use snoc.prems w in auto)
  with snoc w show ?case by (simp add: add.assoc)
qed (simp add: scattered_def)

lemma length_untouched [simp]: "length (untouched ts up) = length up"
  by (simp add: untouched_def)

lemma nth_untouched: "i < length up \<Longrightarrow> untouched ts up ! i = (if i \<in> ts then 0 else up ! i)"
  by (simp add: untouched_def nth_enumerate_eq)

lemma sum_distinct_fst:
  assumes "distinct (map fst ws)"
  shows "(\<Sum>(t, b) \<leftarrow> ws. f t b) = (\<Sum>t \<in> fst ` set ws. f t (the (map_of ws t)))"
  using assms
proof (induction ws)
  case (Cons w ws)
  obtain t b where w: "w = (t, b)" by (cases w)
  have "(\<Sum>u \<in> fst ` set ws. f u (the (map_of (w # ws) u))) = (\<Sum>u \<in> fst ` set ws. f u (the (map_of ws u)))"
    using Cons.prems by (intro sum.cong) (auto simp: w)
  with Cons show ?case by (simp add: w)
qed simp

text \<open>The adjoint of a gather is the scatter, and the lanes not written pass through.\<close>

lemma gather_adjoint:
  assumes "distinct (map fst ws)" and "\<forall>(t, b) \<in> set ws. t < length base \<and> b < length src" and "length up = length base"
  shows "dotp up (gathered base src ws) =
    dotp (untouched (fst ` set ws) up) base + dotp (scattered (replicate (length src) 0) up ws) src"
proof -
  let ?ts = "fst ` set ws" and ?n = "length base"
  have len: "length (gathered base src ws) = ?n" by (simp add: gathered_def)
  have lane: "gathered base src ws ! t = (if t \<in> ?ts then src ! the (map_of ws t) else base ! t)" if "t < ?n" for t
  proof (cases "t \<in> ?ts")
    case True
    then obtain i where i: "i < length ws" "fst (ws ! i) = t" by (auto simp: in_set_conv_nth)
    have "\<forall>j < length ws. i < j \<longrightarrow> fst (ws ! j) \<noteq> fst (ws ! i)"
      using assms(1) i by (auto simp: distinct_conv_nth)
    then have "gathered base src ws ! t = src ! snd (ws ! i)"
      using written_last [of i "map (\<lambda>(t, b). (t, src ! b)) ws" base] i that
      by (simp add: gathered_def case_prod_beta)
    moreover have "map_of ws t = Some (snd (ws ! i))"
      using assms(1) i by (metis map_of_is_SomeI nth_mem prod.collapse)
    ultimately show ?thesis using True by simp
  next
    case False
    then have "t \<notin> fst ` set (map (\<lambda>(t, b). (t, src ! b)) ws)" by force
    with False written_frame show ?thesis unfolding gathered_def by metis
  qed
  have sub: "?ts \<subseteq> {..<?n}" using assms(2) by auto
  have "dotp up (gathered base src ws) = (\<Sum>t < ?n. up ! t * (if t \<in> ?ts then src ! the (map_of ws t) else base ! t))"
    using len assms(3) lane by (simp add: dotp_sum)
  also have "\<dots> = (\<Sum>t < ?n. (if t \<in> ?ts then 0 else up ! t) * base ! t) +
      (\<Sum>t < ?n. if t \<in> ?ts then up ! t * src ! the (map_of ws t) else 0)"
    unfolding sum.distrib [symmetric] by (intro sum.cong) auto
  also have "(\<Sum>t < ?n. (if t \<in> ?ts then 0 else up ! t) * base ! t) = dotp (untouched ?ts up) base"
    using assms(3) by (simp add: dotp_sum nth_untouched)
  also have "(\<Sum>t < ?n. if t \<in> ?ts then up ! t * src ! the (map_of ws t) else 0) =
      (\<Sum>t \<in> ?ts. up ! t * src ! the (map_of ws t))"
    using sub by (simp add: sum.If_cases Int_absorb1)
  also have "\<dots> = dotp (scattered (replicate (length src) 0) up ws) src"
  proof -
    have "\<forall>(t, b) \<in> set ws. b < length src" using assms(2) by auto
    with dotp_scattered [of "replicate (length src) 0" src ws up] show ?thesis
      by (simp add: dotp_replicate_zero sum_distinct_fst [OF assms(1), where f = "\<lambda>t b. up ! t * src ! b"])
  qed
  finally show ?thesis .
qed

subsection \<open>The offsets of the adjoint\<close>

lemma try_fold_map_err: "try_fold (\<lambda>s x. map_err h (f s x)) s xs = map_err h (try_fold f s xs)"
proof (induction xs arbitrary: s)
  case (Cons x xs)
  then show ?case by (cases "f s x") simp_all
qed simp

lemma map_err_ok_or: "map_err h (ok_or e o') = ok_or (h e) o'"
  by (cases o') simp_all

lemma adjoint_offset_ok:
  assumes "broadcasts_to source logical" and "n < prod_list logical" and "prod_list source \<le> usize_max"
  shows "adjoint_offset source logical n = Inr (broadcast_lane logical source n)"
proof -
  let ?pad = "length logical - length source" and ?c = "rev (coords_down (rev logical) n)"
  have le: "length source \<le> length logical" using assms(1) by (simp add: broadcasts_to_def)
  have dims: "dim = 1 \<or> dim = logical ! (?pad + axis)" if "(axis, dim) \<in> set (zip [0..<length source] source)" for axis dim
  proof -
    from that have a: "axis < length source" "dim = source ! axis" by (auto simp: in_set_zip)
    then have "(dim, logical ! (?pad + axis)) \<in> set (zip source (drop ?pad logical))"
      using le by (auto simp: in_set_zip intro!: exI [of _ axis])
    with assms(1) show ?thesis by (auto simp: broadcasts_to_zip)
  qed
  let ?h = "\<lambda>_ :: tensor_error. VjpEffect EffectOverflow"
  have "adjoint_offset source logical n = map_err ?h (broadcast_offset logical source n)"
    unfolding adjoint_offset_def broadcast_offset_def Let_def try_fold_map_err [symmetric]
    using le
    by (simp only: not_less [symmetric] if_False, intro try_fold_cong refl) (auto simp: map_err_ok_or dest: dims)
  then show ?thesis using broadcast_offset_ok [OF assms] by simp
qed

subsection \<open>What a store writes, and what the tape accumulates\<close>

lemma gathered_nth:
  assumes "distinct (map fst ws)" and "t < length base"
  shows "gathered base src ws ! t = (case map_of ws t of None \<Rightarrow> base ! t | Some b \<Rightarrow> src ! b)"
proof (cases "map_of ws t")
  case None
  then have "t \<notin> fst ` set (map (\<lambda>(t, b). (t, src ! b)) ws)" by (force simp: map_of_eq_None_iff)
  with None written_frame show ?thesis unfolding gathered_def by (metis option.simps(4))
next
  case (Some b)
  then obtain i where i: "i < length ws" "ws ! i = (t, b)" by (auto dest!: map_of_SomeD simp: in_set_conv_nth)
  then have "\<forall>j < length ws. i < j \<longrightarrow> fst (ws ! j) \<noteq> fst (ws ! i)"
    using assms(1) i(1) unfolding distinct_conv_nth by (metis length_map less_irrefl nth_map)
  then show ?thesis
    using Some written_last [of i "map (\<lambda>(t, b). (t, src ! b)) ws" base] i assms(2)
    by (simp add: gathered_def case_prod_beta)
qed

lemma scatter_fold:
  "\<forall>x \<in> set xs. b x < length acc \<Longrightarrow>
   (\<And>x acc'. x \<in> set xs \<Longrightarrow> length acc' = length acc \<Longrightarrow> f acc' x = Inr (acc'[b x := acc' ! b x + up ! t x])) \<Longrightarrow>
   try_fold f acc xs = Inr (scattered acc up (map (\<lambda>x. (t x, b x)) xs))"
proof (induction xs arbitrary: acc)
  case (Cons x xs)
  then have "try_fold f (acc[b x := acc ! b x + up ! t x]) xs =
      Inr (scattered (acc[b x := acc ! b x + up ! t x]) up (map (\<lambda>x. (t x, b x)) xs))"
    by (intro Cons.IH) auto
  with Cons.prems show ?case by (simp add: scattered_def)
qed (simp add: scattered_def)

lemma scatter_fold_pair:
  "\<forall>x \<in> set xs. b x < length acc \<Longrightarrow>
   (\<And>x T acc'. x \<in> set xs \<Longrightarrow> length acc' = length acc \<Longrightarrow>
      f (T, acc') x = Inr (insert (t x) T, acc'[b x := acc' ! b x + up ! t x])) \<Longrightarrow>
   try_fold f (T, acc) xs = Inr (T \<union> t ` set xs, scattered acc up (map (\<lambda>x. (t x, b x)) xs))"
proof (induction xs arbitrary: acc T)
  case (Cons x xs)
  then have "try_fold f (insert (t x) T, acc[b x := acc ! b x + up ! t x]) xs =
      Inr (insert (t x) T \<union> t ` set xs, scattered (acc[b x := acc ! b x + up ! t x]) up (map (\<lambda>x. (t x, b x)) xs))"
    by (intro Cons.IH) auto
  with Cons.prems show ?case by (simp add: scattered_def)
qed (simp add: scattered_def)

lemma splice_bounds:
  "splice base ds lanes ss = Inr out \<Longrightarrow> length ss = length ds \<Longrightarrow>
   (\<forall>d \<in> set ds. d < length base) \<and> (\<forall>s \<in> set ss. s < length lanes)"
proof (induction ds arbitrary: base ss)
  case (Cons d ds)
  then obtain s ss' where ss: "ss = s # ss'" by (cases ss) auto
  with Cons.prems have "d < length base" "s < length lanes" "splice (base[d := lanes ! s]) ds lanes ss' = Inr out"
    by (auto simp: splice_def result_simps index_lane_def split: if_splits)
  with Cons.IH [of "base[d := lanes ! s]" ss'] Cons.prems ss show ?case by auto
qed simp

lemma broadcast_lane_self:
  assumes "n < prod_list ds"
  shows "broadcast_lane ds ds n = n"
proof -
  have "0 \<notin> set ds" using assms prod_list_pos_iff [of ds] by simp
  then have r: "in_range ds (unravel ds n)" by (rule unravel_in_range)
  have "in_range ds cs \<Longrightarrow> broadcast_coords ds cs = cs" for cs
    by (induction ds arbitrary: cs) (simp, case_tac cs, auto)
  with r assms show ?thesis by (simp add: broadcast_lane_def ravel_unravel)
qed

lemma final_writer_snoc: "final_writer (offs @ [x]) = (final_writer offs)(x \<mapsto> length offs)"
  by (simp add: final_writer_def enumerate_append_eq)

lemma final_writer_last:
  "t \<in> set offs \<Longrightarrow> \<exists>i. final_writer offs t = Some i \<and> i < length offs \<and> offs ! i = t \<and>
     (\<forall>j < length offs. i < j \<longrightarrow> offs ! j \<noteq> t)"
proof (induction offs rule: rev_induct)
  case (snoc x offs)
  show ?case
  proof (cases "x = t")
    case True
    then show ?thesis by (auto simp: final_writer_snoc)
  next
    case False
    with snoc obtain i where "final_writer offs t = Some i" "i < length offs" "offs ! i = t"
      "\<forall>j < length offs. i < j \<longrightarrow> offs ! j \<noteq> t" by auto
    with False show ?thesis by (auto simp: final_writer_snoc nth_append less_Suc_eq)
  qed
qed simp

text \<open>A form of assignment, its store and its adjoint, brought to one list of writes.\<close>

definition writes_as :: "'l :: comm_ring_1 tensor \<Rightarrow> 'l tensor \<Rightarrow> 'l tensor \<Rightarrow> 'l list \<Rightarrow> 'l list \<times> 'l list \<Rightarrow> (nat \<times> nat) list \<Rightarrow> bool" where
  "writes_as base source new up grads ws \<longleftrightarrow> distinct (map fst ws) \<and>
     (\<forall>(t, b) \<in> set ws. t < td_len base \<and> b < td_len source) \<and>
     new = base\<lparr>td_lanes := gathered (td_lanes base) (td_lanes source) ws\<rparr> \<and>
     grads = (untouched (fst ` set ws) up, scattered (replicate (td_len source) 0) up ws)"

lemma whole_writes:
  fixes base :: "'l :: comm_ring_1 tensor"
  assumes ok: "tensor_ok base" "tensor_ok source" and new: "assign_from base source = Inr new"
    and up: "length up = td_len base"
  shows "\<exists>ws grads. rbind (accumulate_broadcast (replicate (td_len source) 0) (td_shape source) (td_shape base) up)
      (\<lambda>rhs. Inr (replicate (length up) 0, rhs)) = Inr grads \<and> writes_as base source new up grads ws"
proof -
  let ?b = "broadcast_lane (td_shape base) (td_shape source)" and ?n = "td_len base"
  let ?ws = "map (\<lambda>n. (n, ?b n)) [0..<?n]"
  note lens = tensor_ok_len [OF ok(1)] tensor_ok_len [OF ok(2)]
  from new have bc: "broadcasts_to (td_shape source) (td_shape base)"
    and lanes: "new = base\<lparr>td_lanes := map (\<lambda>n. td_lanes source ! ?b n) [0..<?n]\<rparr>"
    by (auto simp: assign_from_eq [OF ok] split: if_splits)
  have off: "adjoint_offset (td_shape source) (td_shape base) n = Inr (?b n)" "?b n < td_len source" if "n < ?n" for n
    using adjoint_offset_ok [OF bc] broadcast_offset_ok(2) [OF bc] that lens by auto
  have dist: "distinct (map fst ?ws)" by (simp add: comp_def)
  have "gathered (td_lanes base) (td_lanes source) ?ws = map (\<lambda>n. td_lanes source ! ?b n) [0..<?n]"
  proof (rule nth_equalityI)
    fix n assume "n < length (gathered (td_lanes base) (td_lanes source) ?ws)"
    then have n: "n < ?n" by (simp add: gathered_def)
    then have "map_of ?ws n = Some (?b n)" by (intro map_of_is_SomeI) (auto simp: comp_def)
    with gathered_nth [OF dist n] n show "gathered (td_lanes base) (td_lanes source) ?ws ! n =
      map (\<lambda>n. td_lanes source ! ?b n) [0..<?n] ! n" by simp
  qed (simp add: gathered_def)
  moreover have "accumulate_broadcast (replicate (td_len source) 0) (td_shape source) (td_shape base) up =
      Inr (scattered (replicate (td_len source) 0) up (map (\<lambda>x. (fst x, ?b (fst x))) (enumerate 0 up)))"
    unfolding accumulate_broadcast_def
    by (rule scatter_fold) (auto simp: off up add_at_def in_set_enumerate_eq)
  moreover have "map (\<lambda>x. (fst x, ?b (fst x))) (enumerate 0 up) = ?ws"
    by (rule nth_equalityI) (auto simp: up nth_enumerate_eq)
  moreover have "untouched (fst ` set ?ws) up = replicate (length up) 0"
    by (rule nth_equalityI) (auto simp: nth_untouched up image_image)
  ultimately show ?thesis using dist off(2) lanes
    by (intro exI [of _ ?ws] exI [of _ "(replicate (length up) 0, scattered (replicate (td_len source) 0) up ?ws)"])
      (auto simp: writes_as_def)
qed

lemma affine_writes:
  fixes base :: "'l :: comm_ring_1 tensor"
  assumes ok: "tensor_ok base" "tensor_ok source" and new: "assign_view_from base v source = Inr new"
    and view: "validate_write v = Inr ()" and up: "length up = td_len base" and rhs: "mt_rhs_shape tape = td_shape source"
  shows "\<exists>ws grads. vjp_affine tape v up (replicate (td_len source) 0) = Inr grads \<and> writes_as base source new up grads ws"
proof -
  let ?n = "td_len source"
  note lens = tensor_ok_len [OF ok(1)] tensor_ok_len [OF ok(2)]
  from new obtain offs out where logical: "av_logical v = td_shape source"
    and offs: "try_map (view_offset v) [0..<?n] = Inr offs" and dist: "distinct offs"
    and out: "splice (td_lanes base) offs (td_lanes source) [0..<?n] = Inr out"
    and lanes: "new = base\<lparr>td_lanes := out\<rparr>"
    by (auto simp: assign_view_from_def result_simps split: if_splits)
  have len: "length offs = ?n" using try_map_length [OF offs] by simp
  have inside: "\<forall>d \<in> set offs. d < td_len base" using splice_bounds [OF out] len by simp
  let ?ws = "map (\<lambda>n. (offs ! n, n)) [0..<?n]"
  have "map ((!) (td_lanes source)) [0..<?n] = td_lanes source" by (rule map_nth)
  moreover have "map (\<lambda>(t, b). (t, td_lanes source ! b)) ?ws = zip offs (td_lanes source)"
    by (rule nth_equalityI) (auto simp: len)
  ultimately have out': "out = gathered (td_lanes base) (td_lanes source) ?ws"
    using splice_ok [OF inside, of "[0..<?n]" "td_lanes source"] out by (simp add: gathered_def)
  have addr: "element_offset v n = Inr off \<Longrightarrow> usize_of_int off = Some (offs ! n)"
    "\<exists>off. element_offset v n = Inr off" if "n < ?n" for n off
    using offs that by (auto simp: try_map_Inr_iff view_offset_def result_simps)
  have off: "adjoint_offset (mt_rhs_shape tape) (av_logical v) n = Inr n" if "n < ?n" for n
  proof -
    have "broadcasts_to (td_shape source) (td_shape source)"
      by (simp add: broadcasts_to_def list_all_iff zip_same_conv_map)
    then show ?thesis
      using adjoint_offset_ok [of "td_shape source" "td_shape source" n] broadcast_lane_self [of n "td_shape source"]
        that lens by (simp add: rhs logical)
  qed
  have fold: "try_fold (\<lambda>(touched, rhs) lane.
         rbind (map_err (\<lambda>_. VjpEffect EffectOverflow) (element_offset v lane)) (\<lambda>off.
         rbind (ok_or (VjpEffect EffectOverflow) (usize_of_int off)) (\<lambda>off.
         rbind (adjoint_offset (mt_rhs_shape tape) (av_logical v) lane) (\<lambda>rhs_off.
         rbind (vjp_index up off) (\<lambda>g.
         rbind (add_at rhs rhs_off g) (\<lambda>rhs. Inr (insert off touched, rhs)))))))
       ({}, replicate ?n 0) [0..<?n] =
     Inr ({} \<union> (\<lambda>n. offs ! n) ` set [0..<?n], scattered (replicate ?n 0) up ?ws)"
  proof (rule scatter_fold_pair)
    fix n and T :: "nat set" and acc :: "'l list"
    assume "n \<in> set [0..<?n]" "length acc = length (replicate ?n (0 :: 'l))"
    then have n: "n < ?n" "length acc = ?n" by simp_all
    from addr(2) [OF n(1)] obtain o' where "element_offset v n = Inr o'" by blast
    moreover have "offs ! n < length up" using inside len n(1) up by simp
    ultimately show "(case (T, acc) of (touched, rhs) \<Rightarrow> \<lambda>lane.
         rbind (map_err (\<lambda>_. VjpEffect EffectOverflow) (element_offset v lane)) (\<lambda>off.
         rbind (ok_or (VjpEffect EffectOverflow) (usize_of_int off)) (\<lambda>off.
         rbind (adjoint_offset (mt_rhs_shape tape) (av_logical v) lane) (\<lambda>rhs_off.
         rbind (vjp_index up off) (\<lambda>g.
         rbind (add_at rhs rhs_off g) (\<lambda>rhs. Inr (insert off touched, rhs))))))) n =
      Inr (insert (offs ! n) T, acc[n := acc ! n + up ! (offs ! n)])"
      using addr(1) [OF n(1)] n by (simp add: off vjp_index_def add_at_def)
  qed simp
  have num: "numel (av_logical v) = Inr ?n" using ok(2) by (simp add: logical tensor_ok_def)
  let ?grads = "(untouched (fst ` set ?ws) up, scattered (replicate ?n 0) up ?ws)"
  have "fst ` set ?ws = (\<lambda>n. offs ! n) ` set [0..<?n]" by (simp add: image_image)
  then have "vjp_affine tape v up (replicate ?n 0) = Inr ?grads"
    unfolding vjp_affine_def view num map_err.simps rbind.simps fold by simp
  moreover have "map fst ?ws = offs" by (rule nth_equalityI) (auto simp: len)
  then have "writes_as base source new up ?grads ?ws"
    unfolding writes_as_def using dist inside len lanes out' by auto
  ultimately show ?thesis by blast
qed

lemma indexed_writes:
  fixes base :: "'l :: comm_ring_1 tensor"
  assumes ok: "tensor_ok base" "tensor_ok source" and new: "static_index_update_from base p source = Inr new"
    and size: "length (ip_offsets p) = prod_list (ip_output p)"
    and up: "length up = td_len base" and rhs: "mt_rhs_shape tape = td_shape source"
  shows "\<exists>ws grads. vjp_indexed tape p up (replicate (td_len source) 0) = Inr grads \<and> writes_as base source new up grads ws"
proof -
  let ?n = "td_len source" and ?offs = "ip_offsets p" and ?b = "broadcast_lane (ip_output p) (td_shape source)"
  note lens = tensor_ok_len [OF ok(1)] tensor_ok_len [OF ok(2)]
  from new obtain bs out where bc: "broadcasts_to (td_shape source) (ip_output p)"
    and bs: "try_map (broadcast_offset (ip_output p) (td_shape source)) [0..<length ?offs] = Inr bs"
    and out: "splice (td_lanes base) ?offs (td_lanes source) bs = Inr out"
    and lanes: "new = base\<lparr>td_lanes := out\<rparr>"
    by (auto simp: static_index_update_from_def result_simps split: if_splits)
  have b: "broadcast_offset (ip_output p) (td_shape source) i = Inr (?b i)" "?b i < ?n"
    "adjoint_offset (mt_rhs_shape tape) (ip_output p) i = Inr (?b i)" if "i < length ?offs" for i
    using broadcast_offset_ok [OF bc, of i] adjoint_offset_ok [OF bc, of i] lens that size rhs by auto
  have bs': "bs = map ?b [0..<length ?offs]"
    using bs b(1) by (intro nth_equalityI) (auto simp: try_map_Inr_iff)
  have inside: "\<forall>d \<in> set ?offs. d < td_len base" "\<forall>s \<in> set bs. s < ?n"
    using splice_bounds [OF out] bs' by auto
  let ?keys = "sort (remdups ?offs)" and ?at = "\<lambda>t. ?b (the (final_writer ?offs t))"
  let ?ws = "map (\<lambda>t. (t, ?at t)) ?keys"
  have at: "?at t < ?n \<and> the (final_writer ?offs t) < length ?offs" if "t \<in> set ?offs" for t
    using final_writer_last [OF that] b(2) by auto
  have dist: "distinct (map fst ?ws)" by (simp add: comp_def)
  have keys: "fst ` set ?ws = set ?offs" by (simp add: image_image)
  let ?pairs = "zip ?offs (map ((!) (td_lanes source)) bs)"
  have "out = written (td_lanes base) ?pairs" using splice_ok [OF inside(1,2)] out by simp
  also have "\<dots> = gathered (td_lanes base) (td_lanes source) ?ws"
  proof (rule nth_equalityI)
    fix t assume "t < length (written (td_lanes base) ?pairs)"
    then have t: "t < td_len base" by simp
    show "written (td_lanes base) ?pairs ! t = gathered (td_lanes base) (td_lanes source) ?ws ! t"
    proof (cases "t \<in> set ?offs")
      case True
      from final_writer_last [OF True] obtain i where i: "final_writer ?offs t = Some i" "i < length ?offs"
        "?offs ! i = t" "\<forall>j < length ?offs. i < j \<longrightarrow> ?offs ! j \<noteq> t" by blast
      have "map_of ?ws t = Some (?b i)" using True i(1) by (intro map_of_is_SomeI dist) auto
      with gathered_nth [OF dist t] have "gathered (td_lanes base) (td_lanes source) ?ws ! t = td_lanes source ! ?b i" by simp
      moreover have "written (td_lanes base) ?pairs ! t = td_lanes source ! ?b i"
        using written_last [of i ?pairs "td_lanes base"] i t by (simp add: bs')
      ultimately show ?thesis by simp
    next
      case False
      then have "map_of ?ws t = None" using keys by (simp add: map_of_eq_None_iff)
      moreover have "t \<notin> fst ` set ?pairs" using False by (auto dest: set_zip_leftD)
      ultimately show ?thesis using gathered_nth [OF dist t] written_frame by simp
    qed
  qed (simp add: gathered_def)
  finally have out': "out = gathered (td_lanes base) (td_lanes source) ?ws" .
  have "try_fold (\<lambda>rhs off. rbind (adjoint_offset (mt_rhs_shape tape) (ip_output p) (the (final_writer ?offs off)))
      (\<lambda>rhs_off. rbind (vjp_index up off) (\<lambda>g. add_at rhs rhs_off g))) (replicate ?n 0) ?keys =
    Inr (scattered (replicate ?n 0) up ?ws)"
    by (rule scatter_fold) (use at b(3) inside up in \<open>auto simp: vjp_index_def add_at_def\<close>)
  then have "vjp_indexed tape p up (replicate ?n 0) = Inr (untouched (fst ` set ?ws) up, scattered (replicate ?n 0) up ?ws)"
    by (simp add: vjp_indexed_def keys Let_def del: set_map)
  moreover have "writes_as base source new up (untouched (fst ` set ?ws) up, scattered (replicate ?n 0) up ?ws) ?ws"
    unfolding writes_as_def using dist inside(1) at lanes out' by auto
  ultimately show ?thesis by blast
qed

definition form_of :: "effect_step \<Rightarrow> assignment_form" where
  "form_of s = (case es_target_view s of Some v \<Rightarrow> AffineForm v
     | None \<Rightarrow> (case es_index_plan s of Some p \<Rightarrow> IndexedForm p | None \<Rightarrow> WholeForm))"

lemma vjp_writes:
  fixes base :: "'l :: comm_ring_1 tensor"
  assumes ok: "tensor_ok base" "tensor_ok source" "tensor_ok up"
    and new: "store_into (es_target_view s) (es_index_plan s) base source = Inr new"
    and view: "\<forall>v. es_target_view s = Some v \<longrightarrow> validate_write v = Inr ()"
    and plan: "\<forall>p. es_index_plan s = Some p \<longrightarrow> length (ip_offsets p) = prod_list (ip_output p)"
    and tape: "mt_form tape = form_of s" "mt_rhs_shape tape = td_shape source"
      "bs_shape (mt_pre_write tape) = td_shape base" "bs_dtype (mt_pre_write tape) = F32"
    and up: "td_shape up = td_shape base" "td_dtype up = F32"
  shows "\<exists>g. vjp tape up = Inr g \<and> td_shape (mv_pre_write g) = td_shape base \<and>
    td_shape (mv_rhs_output g) = td_shape source \<and>
    dotp (td_lanes up) (td_lanes new) =
      dotp (td_lanes (mv_pre_write g)) (td_lanes base) + dotp (td_lanes (mv_rhs_output g)) (td_lanes source)"
proof -
  let ?n = "td_len source" and ?up = "td_lanes up"
  have num: "numel (mt_rhs_shape tape) = Inr ?n" "numel (td_shape base) = Inr (td_len base)"
    using ok by (simp_all add: tensor_ok_def tape)
  have len: "length ?up = td_len base" using ok(1,3) up(1) by (simp add: tensor_ok_def)
  let ?run = "case mt_form tape of
      WholeForm \<Rightarrow> rbind (accumulate_broadcast (replicate ?n 0) (mt_rhs_shape tape) (bs_shape (mt_pre_write tape)) ?up)
        (\<lambda>rhs. Inr (replicate (length ?up) 0, rhs))
    | AffineForm v \<Rightarrow> vjp_affine tape v ?up (replicate ?n 0)
    | IndexedForm p \<Rightarrow> vjp_indexed tape p ?up (replicate ?n 0)"
  have "\<exists>ws grads. ?run = Inr grads \<and> writes_as base source new ?up grads ws"
  proof (cases "es_target_view s")
    case (Some v)
    with affine_writes [OF ok(1,2) _ _ len tape(2), of v new] new view show ?thesis
      by (simp add: tape(1) form_of_def store_into_def)
  next
    case None
    show ?thesis
    proof (cases "es_index_plan s")
      case (Some p)
      with None indexed_writes [OF ok(1,2) _ _ len tape(2), of p new] new plan show ?thesis
        by (simp add: tape(1) form_of_def store_into_def)
    next
      case none: None
      with None whole_writes [OF ok(1,2) _ len, of new] new show ?thesis
        by (simp add: tape form_of_def store_into_def)
    qed
  qed
  then obtain ws old rhs where run: "?run = Inr (old, rhs)" and w: "writes_as base source new ?up (old, rhs) ws"
    by (metis prod.exhaust)
  then have adj: "dotp ?up (td_lanes new) = dotp old (td_lanes base) + dotp rhs (td_lanes source)"
    and sizes: "length old = td_len base" "length rhs = ?n"
    using gather_adjoint [of ws "td_lanes base" "td_lanes source" ?up] len by (auto simp: writes_as_def)
  have "vjp tape up = Inr \<lparr>mv_pre_write = \<lparr>td_shape = td_shape base, td_dtype = F32, td_lanes = old\<rparr>,
      mv_rhs_output = \<lparr>td_shape = td_shape source, td_dtype = F32, td_lanes = rhs\<rparr>\<rparr>"
    using run sizes num tape(2-4) up unfolding vjp_def Let_def
    by (simp add: from_storage_def)
  with adj show ?thesis by simp
qed

lemma find_built_step:
  assumes "graph_ok g" and "find (\<lambda>s. es_id s = k) (steps_of g) = Some s"
  shows "\<exists>a. k < length (eg_assignments g) \<and> a = eg_assignments g ! k \<and> s = as_step a \<and>
    assignment_ok (initial_of g) (take k (steps_of g)) a"
proof -
  from assms(2) obtain i where i: "i < length (eg_assignments g)" "s = steps_of g ! i" "es_id s = k"
    by (auto simp: find_Some_iff)
  have "es_id (steps_of g ! i) = i"
    using arg_cong [OF built_ids [OF assms(1) order_refl], of "\<lambda>xs. xs ! i"] i(1) by (simp add: take_length_steps)
  with i assms(1) show ?thesis by (auto simp: graph_ok_def nth_steps)
qed

text \<open>C33: in exact arithmetic the gradients a tape returns are the adjoint of the write it records: for a
  step of a built graph, any tensors of its operands' shapes and any upstream gradient, the store and the
  vector-Jacobian product both succeed, and the upstream gradient paired with the written tensor is the
  pre-write gradient paired with the old tensor plus the right-hand gradient paired with the source.
  This covers broadcasts, views and indexed writes with repeated lanes.\<close>

theorem vjp_is_adjoint:
  fixes g :: "'l :: comm_ring_1 effect_graph" and base source up :: "'l tensor"
  assumes "built g hs" and "tape_from_bridge br g = Inr tape"
    and "find (\<lambda>s. es_id s = bp_step br) (effect_graph_plan g) = Some s"
    and "\<forall>p. es_index_plan s = Some p \<longrightarrow> plan_wf p"
    and "tensor_ok base" and "tensor_ok source" and "tensor_ok up"
    and "td_shape base = bs_shape (mt_pre_write tape)" and "td_shape source = mt_rhs_shape tape"
    and "td_shape up = bs_shape (mt_pre_write tape)" and "bs_dtype (mt_pre_write tape) = F32"
    and "td_dtype base = F32" and "td_dtype source = F32" and "td_dtype up = F32"
  shows "\<exists>new grads. store_into (es_target_view s) (es_index_plan s) base source = Inr new \<and> vjp tape up = Inr grads \<and>
    td_shape (mv_pre_write grads) = td_shape base \<and> td_shape (mv_rhs_output grads) = td_shape source \<and>
    dotp (td_lanes up) (td_lanes new) =
      dotp (td_lanes (mv_pre_write grads)) (td_lanes base) + dotp (td_lanes (mv_rhs_output grads)) (td_lanes source)"
proof -
  have g: "graph_ok g" using built_ok [OF assms(1)] by blast
  from find_built_step [OF g assms(3)] obtain a where a: "s = as_step a"
    "assignment_ok (initial_of g) (take (bp_step br) (steps_of g)) a" by blast
  then obtain b t b' v' t' r k where init: "initial_of g b = Some t" "initial_of g b' = Some t'"
    and reads: "es_reads s = [handle b k t, handle b' v' t']" and target: "check_target s = Inr ()"
    and dt: "td_dtype t' = td_dtype t"
    and store: "store_into (es_target_view s) (es_index_plan s) t t' = Inr r"
    by (auto simp: assignment_ok_def)
  from assms(2,3) have operands: "bp_pre_write br = handle b k t" "bp_source br = handle b' v' t'"
    by (auto simp: tape_from_bridge_def reads result_simps split: if_splits)
  from assms(2,3) have tape: "mt_pre_write tape = handle b k t" "mt_rhs_shape tape = td_shape t'" "mt_form tape = form_of s"
    by (auto simp: tape_from_bridge_def operands result_simps form_of_def split: if_splits option.splits)
  have fit: "tensor_ok t" "tensor_ok t'" using graph_ok_fits [OF g] init by (auto simp: fits_def)
  have "alike t base" "alike t' source"
    using assms(5-14) fit dt by (simp_all add: alike_def tape)
  from store_alike [OF store this] obtain new where
    new: "store_into (es_target_view s) (es_index_plan s) base source = Inr new" by blast
  have view: "\<forall>v. es_target_view s = Some v \<longrightarrow> validate_write v = Inr ()"
    using target by (auto simp: check_target_def validate_target_view_def result_simps split: if_splits)
  have plan: "\<forall>p. es_index_plan s = Some p \<longrightarrow> length (ip_offsets p) = prod_list (ip_output p)"
    using assms(4) by (simp add: plan_wf_def)
  from vjp_writes [OF assms(5-7) new view plan tape(3)] assms(8-14) new show ?thesis by fastforce
qed

text \<open>A scalar broadcast into two lanes.\<close>

definition floats :: "shape \<Rightarrow> int list \<Rightarrow> int tensor" where
  "floats s xs = \<lparr>td_shape = s, td_dtype = F32, td_lanes = xs\<rparr>"

definition float1 where "float1 = projr (effect_insert effect_graph_empty 1 (floats [2] [0, 0]))"
definition float2 where "float2 = projr (effect_insert (fst float1) 2 (floats [1] [0]))"
definition float3 where "float3 = projr (assign_whole (fst float2) (snd float1) (snd float2))"

definition float_bridge :: bridge_provenance where
  "float_bridge = \<lparr>bp_graph = 0, bp_step = 0, bp_output = 0, bp_pre_write = snd float1,
     bp_source = snd float2, bp_after = []\<rparr>"

definition float_tape where "float_tape = projr (tape_from_bridge float_bridge (fst float3))"
definition float_step where "float_step = the (find (\<lambda>s. es_id s = 0) (effect_graph_plan (fst float3)))"

theorem vjp_is_adjoint_witness:
  "\<exists>new grads. store_into (es_target_view float_step) (es_index_plan float_step) (floats [2] [10, 20]) (floats [1] [7]) = Inr new \<and>
     vjp float_tape (floats [2] [3, 4]) = Inr grads \<and>
     dotp [3, 4] (td_lanes new) = dotp (td_lanes (mv_pre_write grads)) [10, 20] + dotp (td_lanes (mv_rhs_output grads)) [7]"
proof -
  have ok: "is_ok (effect_insert effect_graph_empty 1 (floats [2] [0, 0]))"
    "is_ok (effect_insert (fst float1) 2 (floats [1] [0]))"
    "is_ok (assign_whole (fst float2) (snd float1) (snd float2))"
    "is_ok (tape_from_bridge float_bridge (fst float3))" by code_simp+
  have t: "tensor_ok (floats [2] [0, 0])" "tensor_ok (floats [1] [0])" by code_simp+
  note steps = ok [THEN projr_ok, folded float1_def float2_def float3_def float_tape_def]
  have b1: "built (fst float1) {snd float1}" using built.inserted [OF built.start t(1), of 1] steps(1) by simp
  have b2: "built (fst float2) {snd float2, snd float1}" using built.inserted [OF b1 t(2), of 2] steps(2) by simp
  have b3: "built (fst float3) {snd float3, snd float2, snd float1}"
    using built.assigned [OF b2, of "snd float1" "snd float2" None None] steps(3) by (simp add: assign_whole_def)
  have "find (\<lambda>s. es_id s = bp_step float_bridge) (effect_graph_plan (fst float3)) \<noteq> None" by code_simp
  then have step: "find (\<lambda>s. es_id s = bp_step float_bridge) (effect_graph_plan (fst float3)) = Some float_step"
    by (auto simp: float_step_def float_bridge_def)
  have "es_index_plan float_step = None" by code_simp
  then have plan: "\<forall>p. es_index_plan float_step = Some p \<longrightarrow> plan_wf p" by simp
  have shapes: "tensor_ok (floats [2] [10, 20])" "tensor_ok (floats [1] [7])" "tensor_ok (floats [2] [3, 4])"
    "td_shape (floats [2] [10, 20]) = bs_shape (mt_pre_write float_tape)"
    "td_shape (floats [1] [7]) = mt_rhs_shape float_tape"
    "td_shape (floats [2] [3, 4]) = bs_shape (mt_pre_write float_tape)" "bs_dtype (mt_pre_write float_tape) = F32"
    "td_dtype (floats [2] [10, 20]) = F32" "td_dtype (floats [1] [7]) = F32" "td_dtype (floats [2] [3, 4]) = F32"
    by code_simp+
  from vjp_is_adjoint [OF b3 steps(4) step plan shapes] show ?thesis by (auto simp: floats_def)
qed

end
