(* ===== verification/MemoryPlan.thy ===== *)
theory MemoryPlan
  imports Effects "HOL-Library.Product_Lexorder"
begin

section \<open>Allocation planning of schedule temporaries (src/src/memory_plan/mod.rs, src/src/schedule/mod.rs)\<close>

text \<open>
  A schedule is a list of items, each reading and writing buffers. The planner gives every
  compiler-owned temporary a host slot and lets a later temporary take over a slot whose value is
  dead. This theory holds the parts of \<open>Schedule\<close> the planner reads (the descriptors, the edges and
  the inventory of escaping values), the exact slot allocator, and the planner with all its checks.
  Identifiers and sizes are natural numbers with the checked operations written out; the strings of
  the errors are kept, except that \<open>InvalidSchedule\<close> carries the schedule error instead of its
  printed form. Fields the modelled code never reads have no counterpart.
\<close>

subsection \<open>Descriptors\<close>

record buffer_desc =
  bd_id :: nat
  bd_shape :: shape
  bd_dtype :: dtype
  bd_bytes :: nat
  bd_alignment :: nat
  bd_read_only :: bool
  bd_view :: "affine_view option"

datatype schedule_error = ScheduleOverflow | ScheduleBinding string

definition desc_view_ok :: "buffer_desc \<Rightarrow> (schedule_error, unit) result" where
  "desc_view_ok d =
    (case bd_view d of
       None \<Rightarrow> Inr ()
     | Some v \<Rightarrow>
         rbind (map_err (\<lambda>_. ScheduleBinding ''buffer descriptor view is invalid'') (validate_read v)) (\<lambda>_.
         if av_source v \<noteq> bd_shape d
         then Inl (ScheduleBinding ''buffer descriptor view source shape mismatch'') else Inr ()))"

definition validate_buffer_desc :: "buffer_desc \<Rightarrow> (schedule_error, unit) result" where
  "validate_buffer_desc d =
     rbind (map_err (\<lambda>_. ScheduleOverflow) (numel (bd_shape d))) (\<lambda>n.
     rbind (ok_or ScheduleOverflow (checked_mul_u n (itemsize (bd_dtype d)))) (\<lambda>expected.
     if bd_bytes d \<noteq> expected then Inl (ScheduleBinding ''buffer descriptor byte size mismatch'')
     else if bd_alignment d = 0 \<or> \<not> is_power_of_two (bd_alignment d)
     then Inl (ScheduleBinding ''buffer descriptor alignment is invalid'')
     else desc_view_ok d))"

subsection \<open>Schedule items\<close>

record schedule_item =
  si_id :: nat
  si_dependencies :: "nat list"
  si_consumers :: "nat list"
  si_inputs :: "buffer_desc list"
  si_outputs :: "buffer_desc list"

record requested_passthrough =
  rp_requested :: nat
  rp_source :: nat
  rp_desc :: buffer_desc

record schedule =
  sc_items :: "schedule_item list"
  sc_requested :: "nat list"
  sc_passthroughs :: "requested_passthrough list"

text \<open>\<open>ScheduledOutputs::new\<close>: the iterator stops at the first id it has seen.\<close>

fun repeats :: "nat list \<Rightarrow> nat list \<Rightarrow> bool" where
  "repeats seen [] = False"
| "repeats seen (x # xs) = (x \<in> set seen \<or> repeats (x # seen) xs)"

definition scheduled_outputs :: "buffer_desc list \<Rightarrow> (schedule_error, buffer_desc list) result" where
  "scheduled_outputs outs =
    (if outs = [] then Inl (ScheduleBinding ''scheduled outputs are empty'')
     else if repeats [] (map bd_id outs) then Inl (ScheduleBinding ''scheduled outputs are duplicated'')
     else Inr outs)"

definition passthrough_validate :: "requested_passthrough \<Rightarrow> (schedule_error, unit) result" where
  "passthrough_validate p =
    (if rp_requested p = rp_source p \<or> bd_id (rp_desc p) \<noteq> rp_source p \<or> \<not> bd_read_only (rp_desc p)
     then Inl (ScheduleBinding ''requested passthrough ownership is invalid'')
     else rbind (validate_buffer_desc (rp_desc p)) (\<lambda>_.
          case bd_view (rp_desc p) of
            None \<Rightarrow> Inl (ScheduleBinding ''requested passthrough affine view is absent'')
          | Some v \<Rightarrow>
              if av_source v \<noteq> bd_shape (rp_desc p)
              then Inl (ScheduleBinding ''requested passthrough source shape is invalid'') else Inr ()))"

text \<open>\<open>entry(k).or_default().push(x)\<close> on a map of lists.\<close>

definition push_entry :: "nat \<Rightarrow> nat \<Rightarrow> (nat \<rightharpoonup> nat list) \<Rightarrow> (nat \<rightharpoonup> nat list)" where
  "push_entry k x m = m(k \<mapsto> (case m k of None \<Rightarrow> [x] | Some xs \<Rightarrow> xs @ [x]))"

definition add_edge ::
  "nat list \<Rightarrow> nat \<Rightarrow> (nat \<rightharpoonup> nat list) \<Rightarrow> nat \<Rightarrow> (schedule_error, nat \<rightharpoonup> nat list) result" where
  "add_edge ids it m dep =
    (if dep \<notin> set ids then Inl (ScheduleBinding ''schedule dependency is absent'')
     else if it \<le> dep then Inl (ScheduleBinding ''schedule dependency is not topological'')
     else Inr (push_entry dep it m))"

definition add_item_edges ::
  "nat list \<Rightarrow> (nat \<rightharpoonup> nat list) \<Rightarrow> schedule_item \<Rightarrow> (schedule_error, nat \<rightharpoonup> nat list) result" where
  "add_item_edges ids m it =
    (if \<exists>i < length (si_dependencies it) - 1. si_dependencies it ! Suc i \<le> si_dependencies it ! i
     then Inl (ScheduleBinding ''schedule dependencies are not strictly ordered'')
     else try_fold (add_edge ids (si_id it)) m (si_dependencies it))"

definition take_consumers ::
  "(nat \<rightharpoonup> nat list) \<Rightarrow> schedule_item \<Rightarrow> (schedule_error, nat \<rightharpoonup> nat list) result" where
  "take_consumers m it =
    (if si_consumers it \<noteq> (case m (si_id it) of None \<Rightarrow> [] | Some xs \<Rightarrow> xs)
     then Inl (ScheduleBinding ''schedule consumer edges are not canonical'')
     else Inr (m(si_id it := None)))"

definition validate_dag_edges :: "schedule_item list \<Rightarrow> nat list \<Rightarrow> (schedule_error, unit) result" where
  "validate_dag_edges items ids =
     rbind (try_fold (add_item_edges ids) Map.empty items) (\<lambda>expected.
     rbind (try_fold take_consumers expected items) (\<lambda>_. Inr ()))"

text \<open>The outputs that may be reused: nothing requested, nothing behind a requested passthrough, nothing
  an item without consumers produces.\<close>

definition escaping :: "schedule \<Rightarrow> nat list \<Rightarrow> nat set" where
  "escaping s requested = set requested \<union> set (sc_requested s) \<union> set (map rp_source (sc_passthroughs s))"

definition internal_temporaries :: "schedule \<Rightarrow> nat list \<Rightarrow> buffer_desc list" where
  "internal_temporaries s requested =
     filter (\<lambda>out. bd_id out \<notin> escaping s requested)
       (concat (map si_outputs (filter (\<lambda>it. si_consumers it \<noteq> []) (sc_items s))))"

text \<open>The ids a schedule retains: a sorted set.\<close>

definition physical_requested :: "schedule_item list \<Rightarrow> requested_passthrough list \<Rightarrow> nat list \<Rightarrow> nat list" where
  "physical_requested items passthroughs requested =
    (let produced = concat (map (\<lambda>it. map bd_id (si_outputs it)) items)
     in sort (remdups (filter (\<lambda>b. b \<in> set produced) requested @
          filter (\<lambda>b. b \<in> set produced) (map (\<lambda>p. bd_id (rp_desc p)) passthroughs))))"

subsection \<open>Exact slots\<close>

datatype slot_policy = Absent | Private | Reusable

record ('i, 'c) slot_request =
  sr_identity :: 'i
  sr_compatibility :: 'c
  sr_producer :: nat
  sr_last :: nat
  sr_policy :: slot_policy

record 'i slot_assignment =
  sa_identity :: 'i
  sa_slot :: "nat option"
  sa_reused :: "'i option"

record ('i, 'c) physical_slot =
  ps_id :: nat
  ps_current :: 'i
  ps_compatibility :: 'c
  ps_last :: nat
  ps_reusable :: bool

text \<open>\<open>iter().position(..)\<close>.\<close>

fun position :: "('a \<Rightarrow> bool) \<Rightarrow> 'a list \<Rightarrow> nat option" where
  "position p [] = None"
| "position p (x # xs) = (if p x then Some 0 else map_option Suc (position p xs))"

definition takes_over :: "('i, 'c) slot_request \<Rightarrow> ('i, 'c) physical_slot \<Rightarrow> bool" where
  "takes_over r slot \<longleftrightarrow> ps_reusable slot \<and> ps_last slot < sr_producer r \<and> ps_compatibility slot = sr_compatibility r"

definition available_slot :: "('i, 'c) physical_slot list \<Rightarrow> ('i, 'c) slot_request \<Rightarrow> nat option" where
  "available_slot slots r = (if sr_policy r = Reusable then position (takes_over r) slots else None)"

definition assign_slot ::
  "('i, 'c) slot_request \<Rightarrow> ('i, 'c) physical_slot list \<Rightarrow> ('i, 'c) physical_slot list \<times> 'i slot_assignment" where
  "assign_slot r slots =
    (if sr_policy r = Absent
     then (slots, \<lparr>sa_identity = sr_identity r, sa_slot = None, sa_reused = None\<rparr>)
     else case available_slot slots r of
       Some index \<Rightarrow>
         (slots[index := (slots ! index)\<lparr>ps_current := sr_identity r, ps_compatibility := sr_compatibility r,
            ps_last := sr_last r\<rparr>],
          \<lparr>sa_identity = sr_identity r, sa_slot = Some (ps_id (slots ! index)),
           sa_reused = Some (ps_current (slots ! index))\<rparr>)
     | None \<Rightarrow>
         (slots @ [\<lparr>ps_id = length slots, ps_current = sr_identity r, ps_compatibility = sr_compatibility r,
            ps_last = sr_last r, ps_reusable = (sr_policy r = Reusable)\<rparr>],
          \<lparr>sa_identity = sr_identity r, sa_slot = Some (length slots), sa_reused = None\<rparr>))"

fun assign_from_slots ::
  "('i, 'c) physical_slot list \<Rightarrow> ('i, 'c) slot_request list \<Rightarrow> 'i slot_assignment list" where
  "assign_from_slots slots [] = []"
| "assign_from_slots slots (r # rs) =
    (let (slots', a) = assign_slot r slots in a # assign_from_slots slots' rs)"

definition assign_exact_slots :: "('i, 'c) slot_request list \<Rightarrow> 'i slot_assignment list" where
  "assign_exact_slots rs = assign_from_slots [] rs"

subsection \<open>The plan\<close>

datatype address_space = HostDense

record allocation_request =
  ar_buffer :: nat
  ar_elements :: nat
  ar_bytes :: nat
  ar_dtype :: dtype
  ar_shape :: shape
  ar_alignment :: nat
  ar_space :: address_space
  ar_producer :: nat
  ar_last :: nat

record temporary_allocation =
  ta_buffer :: nat
  ta_allocation :: "nat option"
  ta_producer :: nat
  ta_last :: nat
  ta_bytes :: nat
  ta_alignment :: nat
  ta_reused :: "nat option"

record memory_plan =
  mp_requests :: "allocation_request list"
  mp_temporaries :: "temporary_allocation list"
  mp_peak_allocations :: nat
  mp_peak_bytes :: nat

text \<open>The constructor \<open>PlanPanic\<close> is the panic of an absent map key, which the source has no error for.\<close>

datatype plan_error =
    InvalidSchedule schedule_error
  | PlanOverflow
  | DuplicateBuffer nat
  | UnsupportedMultiOutput nat
  | MissingProducer nat
  | UseBeforeProduce nat nat nat
  | InvalidConsumer nat nat nat
  | ConsumerMismatch nat
  | InvalidAlignment nat nat
  | AliasEscape nat
  | PlanPanic

definition alignment_ok :: "nat \<Rightarrow> nat \<Rightarrow> bool" where
  "alignment_ok bytes alignment \<longleftrightarrow>
     alignment \<noteq> 0 \<and> is_power_of_two alignment \<and> (bytes = 0 \<or> bytes mod alignment = 0)"

definition check_desc_alignment :: "buffer_desc \<Rightarrow> (plan_error, unit) result" where
  "check_desc_alignment d =
    (if alignment_ok (bd_bytes d) (bd_alignment d) then Inr () else Inl (InvalidAlignment (bd_id d) (bd_alignment d)))"

definition check_desc :: "buffer_desc \<Rightarrow> (plan_error, unit) result" where
  "check_desc d = map_err InvalidSchedule (validate_buffer_desc d)"

text \<open>The producer of each output, by item id and position; a buffer two items produce is refused.\<close>

definition add_producer ::
  "nat \<Rightarrow> schedule_item \<Rightarrow> (nat \<rightharpoonup> nat \<times> nat) \<Rightarrow> buffer_desc \<Rightarrow> (plan_error, nat \<rightharpoonup> nat \<times> nat) result" where
  "add_producer position_of it m out =
    (if m (bd_id out) \<noteq> None then Inl (DuplicateBuffer (bd_id out))
     else Inr (m(bd_id out \<mapsto> (si_id it, position_of))))"

definition add_item_producers ::
  "(nat \<rightharpoonup> nat \<times> nat) \<Rightarrow> nat \<times> schedule_item \<Rightarrow> (plan_error, nat \<rightharpoonup> nat \<times> nat) result" where
  "add_item_producers m = (\<lambda>(p, it). try_fold (add_producer p it) m (si_outputs it))"

definition producer_map :: "schedule_item list \<Rightarrow> (plan_error, nat \<rightharpoonup> nat \<times> nat) result" where
  "producer_map items = try_fold add_item_producers Map.empty (enumerate 0 items)"

definition reads_buffer :: "schedule_item \<Rightarrow> nat \<Rightarrow> bool" where
  "reads_buffer it b \<longleftrightarrow> b \<in> set (map bd_id (si_inputs it))"

definition users :: "schedule_item list \<Rightarrow> nat \<Rightarrow> (nat \<times> nat) list" where
  "users items b =
     map (\<lambda>(p, it). (p, si_id it)) (filter (\<lambda>(p, it). reads_buffer it b) (enumerate 0 items))"

definition expected_consumers :: "schedule_item list \<Rightarrow> schedule_item \<Rightarrow> nat list" where
  "expected_consumers items producer =
     map si_id (filter (\<lambda>it. list_ex (\<lambda>out. reads_buffer it (bd_id out)) (si_outputs producer)) items)"

definition allocation_request_of ::
  "schedule_item list \<Rightarrow> (nat \<rightharpoonup> nat \<times> nat) \<Rightarrow> buffer_desc \<Rightarrow> (plan_error, nat \<times> allocation_request) result" where
  "allocation_request_of items producers d =
    (if bd_view d \<noteq> None then Inl (AliasEscape (bd_id d))
     else rbind (ok_or (MissingProducer (bd_id d)) (producers (bd_id d))) (\<lambda>(producer, p).
     if si_consumers (items ! p) \<noteq> expected_consumers items (items ! p) then Inl (ConsumerMismatch producer)
     else let us = users items (bd_id d); last_use = (if us = [] then (p, producer) else last us)
     in if fst last_use < p then Inl (UseBeforeProduce (bd_id d) producer (snd last_use))
     else rbind (map_err (\<lambda>_. PlanOverflow) (numel (bd_shape d))) (\<lambda>elements.
          rbind (ok_or PlanOverflow (checked_mul_u elements (itemsize (bd_dtype d)))) (\<lambda>bytes.
          if bytes \<noteq> bd_bytes d then Inl PlanOverflow
          else if \<not> alignment_ok bytes (bd_alignment d) then Inl (InvalidAlignment (bd_id d) (bd_alignment d))
          else Inr (p, \<lparr>ar_buffer = bd_id d, ar_elements = elements, ar_bytes = bytes, ar_dtype = bd_dtype d,
            ar_shape = bd_shape d, ar_alignment = bd_alignment d, ar_space = HostDense,
            ar_producer = producer, ar_last = snd last_use\<rparr>)))))"

definition check_use ::
  "schedule_item list \<Rightarrow> (nat \<rightharpoonup> nat \<times> nat) \<Rightarrow> nat list \<Rightarrow> nat \<times> schedule_item \<Rightarrow> buffer_desc \<Rightarrow> (plan_error, unit) result" where
  "check_use items producers temporary_ids = (\<lambda>(p, it) input.
    if bd_id input \<in> set temporary_ids
    then rbind (ok_or (MissingProducer (bd_id input)) (producers (bd_id input))) (\<lambda>(_, producer_position).
         if p \<le> producer_position
         then Inl (UseBeforeProduce (bd_id input) (si_id (items ! producer_position)) (si_id it)) else Inr ())
    else Inr ())"

definition request_last_position :: "schedule_item list \<Rightarrow> allocation_request \<Rightarrow> (plan_error, nat) result" where
  "request_last_position items r =
     ok_or (InvalidConsumer (ar_buffer r) (ar_producer r) (ar_last r))
       (position (\<lambda>it. si_id it = ar_last r) items)"

type_synonym slot_key = "nat \<times> dtype \<times> shape \<times> nat \<times> address_space"

definition slot_key_of :: "allocation_request \<Rightarrow> slot_key" where
  "slot_key_of r = (ar_bytes r, ar_dtype r, ar_shape r, ar_alignment r, ar_space r)"

definition exact_request ::
  "schedule_item list \<Rightarrow> bool \<Rightarrow> nat \<times> allocation_request \<Rightarrow> (plan_error, (nat, slot_key) slot_request) result" where
  "exact_request items reuse = (\<lambda>(p, r).
     rbind (request_last_position items r) (\<lambda>last_position.
     Inr \<lparr>sr_identity = ar_buffer r, sr_compatibility = slot_key_of r, sr_producer = p, sr_last = last_position,
       sr_policy = (if ar_bytes r = 0 then Absent else if reuse then Reusable else Private)\<rparr>))"

definition temporary_of ::
  "nat slot_assignment list \<Rightarrow> nat \<times> allocation_request \<Rightarrow> (plan_error, temporary_allocation) result" where
  "temporary_of assignments = (\<lambda>(p, r).
     rbind (ok_or PlanPanic (map_of (rev (map (\<lambda>a. (sa_identity a, a)) assignments)) (ar_buffer r))) (\<lambda>a.
     Inr \<lparr>ta_buffer = ar_buffer r, ta_allocation = sa_slot a, ta_producer = ar_producer r, ta_last = ar_last r,
       ta_bytes = ar_bytes r, ta_alignment = ar_alignment r, ta_reused = sa_reused a\<rparr>))"

definition slot_bytes :: "temporary_allocation list \<Rightarrow> (nat \<times> nat) list" where
  "slot_bytes entries =
     fold (\<lambda>e m. case ta_allocation e of None \<Rightarrow> m | Some s \<Rightarrow> or_insert s (ta_bytes e) m) entries []"

definition peak :: "temporary_allocation list \<Rightarrow> (plan_error, nat \<times> nat) result" where
  "peak entries =
     rbind (try_fold (\<lambda>acc b. ok_or PlanOverflow (checked_add_u acc b)) 0 (map snd (slot_bytes entries))) (\<lambda>bytes.
     Inr (length (slot_bytes entries), bytes))"

definition check_inputs :: "schedule_item list \<Rightarrow> buffer_desc list \<Rightarrow> (plan_error, unit) result" where
  "check_inputs items temps =
     rbind (try_each check_desc_alignment temps) (\<lambda>_.
     rbind (try_each (\<lambda>it. rbind (try_each check_desc (si_outputs it)) (\<lambda>_. try_each check_desc (si_inputs it))) items) (\<lambda>_.
     try_each check_desc temps))"

definition allocate_requests ::
  "schedule_item list \<Rightarrow> bool \<Rightarrow> (nat \<times> allocation_request) list \<Rightarrow> (plan_error, memory_plan) result" where
  "allocate_requests items reuse unsorted =
    (let requests = sort_key (\<lambda>(p, r). (p, ar_buffer r)) unsorted in
     rbind (try_map (exact_request items reuse) requests) (\<lambda>exact.
     rbind (try_map (temporary_of (assign_exact_slots exact)) requests) (\<lambda>entries.
     rbind (peak entries) (\<lambda>(allocations, bytes).
     Inr \<lparr>mp_requests = map snd requests, mp_temporaries = sort_key ta_buffer entries,
       mp_peak_allocations = allocations, mp_peak_bytes = bytes\<rparr>))))"

definition build :: "schedule_item list \<Rightarrow> buffer_desc list \<Rightarrow> bool \<Rightarrow> (plan_error, memory_plan) result" where
  "build items temps reuse =
     rbind (check_inputs items temps) (\<lambda>_.
     if \<not> distinct (map si_id items) then Inl (DuplicateBuffer usize_max)
     else rbind (producer_map items) (\<lambda>producers.
     if \<not> distinct (map bd_id temps) then Inl (DuplicateBuffer usize_max)
     else rbind (try_map (allocation_request_of items producers) temps) (\<lambda>requests.
          rbind (try_each (\<lambda>(p, it). try_each (check_use items producers (map bd_id temps) (p, it)) (si_inputs it))
             (enumerate 0 items)) (\<lambda>_.
          allocate_requests items reuse requests))))"

definition from_temporaries :: "schedule_item list \<Rightarrow> buffer_desc list \<Rightarrow> bool \<Rightarrow> (plan_error, memory_plan) result" where
  "from_temporaries items temps reuse = build items temps reuse"

definition from_validated_schedule :: "schedule \<Rightarrow> nat list \<Rightarrow> bool \<Rightarrow> (plan_error, memory_plan) result" where
  "from_validated_schedule s requested reuse = build (sc_items s) (internal_temporaries s requested) reuse"

subsection \<open>Lifetimes of persistent buffers\<close>

record alias_lifetime =
  al_base :: nat
  al_predecessor :: nat
  al_successor :: nat
  al_view :: "affine_view option"
  al_producer :: nat
  al_last :: nat

record alias_plan =
  ap_lifetimes :: "alias_lifetime list"
  ap_bytes :: nat

definition alias_step ::
  "nat \<Rightarrow> alias_lifetime list \<times> nat \<Rightarrow> effect_step \<Rightarrow> (plan_error, alias_lifetime list \<times> nat) result" where
  "alias_step last_id = (\<lambda>(lifetimes, bytes) step.
     rbind (ok_or PlanOverflow (checked_add_u bytes (bs_bytes (es_write step)))) (\<lambda>bytes'.
     rbind (case es_reads step of [] \<Rightarrow> Inl PlanPanic | r # _ \<Rightarrow> Inr r) (\<lambda>previous.
     Inr (lifetimes @ [\<lparr>al_base = bs_buffer (es_write step), al_predecessor = bs_version previous,
       al_successor = bs_version (es_write step), al_view = es_target_view step,
       al_producer = es_id step, al_last = last_id\<rparr>], bytes'))))"

definition alias_from_effects :: "effect_plan \<Rightarrow> (plan_error, alias_plan) result" where
  "alias_from_effects steps =
     rbind (map_err (\<lambda>_. AliasEscape usize_max) (effect_plan_validate steps)) (\<lambda>_.
     rbind (try_fold (alias_step (if steps = [] then 0 else es_id (last steps))) ([], 0) steps) (\<lambda>(lifetimes, bytes).
     Inr \<lparr>ap_lifetimes = lifetimes, ap_bytes = bytes\<rparr>))"

end
