(* ===== verification/MemoryPlanSlots.thy ===== *)
theory MemoryPlanSlots
  imports MemoryPlan
begin

section \<open>The exact slot allocator\<close>

text \<open>
  What \<open>assign_exact_slots\<close> promises its callers, stated as two interfaces: a slot is shared only by
  compatible values with a strict gap between their lifetimes (\<open>exact_allocator\<close>), and with every slot
  reusable and the requests in producer order no conflict-free numbering needs fewer slots
  (\<open>frugal_allocator\<close>). The client lemmas are proved from the laws alone; the interpretation at the
  end discharges the laws for the code's allocator.
\<close>

lemma position_Some_iff:
  "position p xs = Some i \<longleftrightarrow> i < length xs \<and> p (xs ! i) \<and> (\<forall>j < i. \<not> p (xs ! j))"
proof (induction xs arbitrary: i)
  case (Cons x xs)
  show ?case
    by (cases i) (auto simp: Cons.IH less_Suc_eq_0_disj split: if_splits)
qed simp

lemma position_None_iff: "position p xs = None \<longleftrightarrow> (\<forall>x \<in> set xs. \<not> p x)"
  by (induction xs) auto

subsection \<open>Laws of the slot allocator\<close>

definition slots_numbered :: "('i, 'c) physical_slot list \<Rightarrow> bool" where
  "slots_numbered slots \<longleftrightarrow> (\<forall>i < length slots. ps_id (slots ! i) = i)"

lemma available_slot_SomeD:
  "available_slot slots r = Some i \<Longrightarrow> i < length slots \<and> takes_over r (slots ! i) \<and> sr_policy r = Reusable"
  by (auto simp: available_slot_def position_Some_iff split: if_splits)

lemma assign_slot_numbered: "slots_numbered slots \<Longrightarrow> slots_numbered (fst (assign_slot r slots))"
  by (auto simp: slots_numbered_def assign_slot_def nth_append nth_list_update less_Suc_eq
      dest!: available_slot_SomeD split: option.splits)

lemma assign_slot_grows: "length slots \<le> length (fst (assign_slot r slots))"
  by (auto simp: assign_slot_def split: option.splits)

text \<open>The slot a request gets holds the request afterwards; a slot that existed before was free for it.\<close>

lemma assign_slot_result:
  assumes "slots_numbered slots" and "sa_slot (snd (assign_slot r slots)) = Some s"
  shows "s < length (fst (assign_slot r slots))"
    and "ps_last (fst (assign_slot r slots) ! s) = sr_last r"
    and "ps_compatibility (fst (assign_slot r slots) ! s) = sr_compatibility r"
    and "s < length slots \<longrightarrow> takes_over r (slots ! s)"
  using assms
  by (auto simp: assign_slot_def slots_numbered_def nth_append dest!: available_slot_SomeD
      split: if_splits option.splits)

lemma assign_slot_other:
  assumes "slots_numbered slots" and "s < length slots" and "sa_slot (snd (assign_slot r slots)) \<noteq> Some s"
  shows "fst (assign_slot r slots) ! s = slots ! s"
  using assms
  by (auto simp: assign_slot_def slots_numbered_def nth_append nth_list_update dest!: available_slot_SomeD
      split: if_splits option.splits)

lemma assign_from_slots_Cons:
  "assign_from_slots slots (r # rs) =
     snd (assign_slot r slots) # assign_from_slots (fst (assign_slot r slots)) rs"
  by (simp add: case_prod_beta)

lemma assign_from_slots_length [simp]: "length (assign_from_slots slots rs) = length rs"
  by (induction rs arbitrary: slots) (simp_all add: case_prod_beta)

lemma assign_from_slots_identity: "map sa_identity (assign_from_slots slots rs) = map sr_identity rs"
  by (induction rs arbitrary: slots) (simp_all add: case_prod_beta assign_slot_def split: option.splits)

lemma assign_from_slots_absent:
  "j < length rs \<Longrightarrow> sa_slot (assign_from_slots slots rs ! j) = None \<longleftrightarrow> sr_policy (rs ! j) = Absent"
proof (induction rs arbitrary: slots j)
  case (Cons r rs)
  then show ?case
    by (cases j) (simp_all add: case_prod_beta assign_slot_def split: option.splits)
qed simp

text \<open>A request never gets a slot whose value is still live.\<close>

lemma assign_from_slots_free:
  assumes "slots_numbered slots" and "\<forall>r \<in> set rs. sr_producer r \<le> sr_last r"
    and "j < length rs" and "sa_slot (assign_from_slots slots rs ! j) = Some s" and "s < length slots"
  shows "ps_last (slots ! s) < sr_producer (rs ! j) \<and> ps_compatibility (slots ! s) = sr_compatibility (rs ! j)"
  using assms
proof (induction rs arbitrary: slots j)
  case (Cons r rs)
  let ?step = "assign_slot r slots"
  show ?case
  proof (cases j)
    case 0
    with Cons.prems have "sa_slot (snd ?step) = Some s" by (simp add: case_prod_beta)
    with Cons.prems(1,5) have "takes_over r (slots ! s)" by (auto dest: assign_slot_result(4))
    with 0 show ?thesis by (simp add: takes_over_def)
  next
    case (Suc i)
    then have i: "i < length rs" "sa_slot (assign_from_slots (fst ?step) rs ! i) = Some s"
      using Cons.prems by (simp_all add: case_prod_beta)
    have len: "s < length (fst ?step)" using Cons.prems(5) assign_slot_grows [of slots r] by simp
    have ih: "ps_last (fst ?step ! s) < sr_producer (rs ! i)"
      "ps_compatibility (fst ?step ! s) = sr_compatibility (rs ! i)"
      using Cons.IH [OF assign_slot_numbered [OF Cons.prems(1)] _ i len] Cons.prems(2) by auto
    show ?thesis
    proof (cases "sa_slot (snd ?step) = Some s")
      case True
      from assign_slot_result [OF Cons.prems(1) True] Cons.prems(2,5) ih Suc show ?thesis
        by (auto simp: takes_over_def)
    next
      case False
      from assign_slot_other [OF Cons.prems(1,5) False] ih Suc show ?thesis by simp
    qed
  qed
qed simp

lemma assign_from_slots_separate:
  assumes "slots_numbered slots" and "\<forall>r \<in> set rs. sr_producer r \<le> sr_last r"
    and "j < k" and "k < length rs"
    and "sa_slot (assign_from_slots slots rs ! j) = Some s" and "sa_slot (assign_from_slots slots rs ! k) = Some s"
  shows "sr_last (rs ! j) < sr_producer (rs ! k) \<and> sr_compatibility (rs ! j) = sr_compatibility (rs ! k)"
  using assms
proof (induction rs arbitrary: slots j k)
  case (Cons r rs)
  let ?step = "assign_slot r slots"
  obtain i where k: "k = Suc i" using Cons.prems(3) by (cases k) auto
  then have i: "i < length rs" "sa_slot (assign_from_slots (fst ?step) rs ! i) = Some s"
    using Cons.prems by (simp_all add: case_prod_beta)
  note numbered = assign_slot_numbered [OF Cons.prems(1), of r]
  show ?case
  proof (cases j)
    case 0
    with Cons.prems have s: "sa_slot (snd ?step) = Some s" by (simp add: case_prod_beta)
    note res = assign_slot_result [OF Cons.prems(1) s]
    from assign_from_slots_free [OF numbered _ i res(1)] Cons.prems(2) res(2,3) 0 k show ?thesis by simp
  next
    case (Suc j')
    with Cons.prems k show ?thesis
      using Cons.IH [OF numbered, of j' i] by (simp add: case_prod_beta)
  qed
qed simp

text \<open>With every slot reusable and the requests in the order of their producers, a slot is opened only when
  every compatible slot holds a value still live: each slot then has a request in conflict with those of
  all others.\<close>

definition in_conflict :: "('i, 'c) slot_request \<Rightarrow> ('i, 'c) slot_request \<Rightarrow> bool" where
  "in_conflict q r \<longleftrightarrow> sr_compatibility q \<noteq> sr_compatibility r \<or>
     sr_producer q \<le> sr_last r \<and> sr_producer r \<le> sr_last q"

text \<open>\<open>occ\<close> names the request each slot holds, \<open>h\<close> the pairwise conflicting ones.\<close>

definition crowded ::
  "('i, 'c) slot_request list \<Rightarrow> ('i, 'c) physical_slot list \<Rightarrow> (nat \<Rightarrow> ('i, 'c) slot_request) \<Rightarrow>
   (nat \<Rightarrow> ('i, 'c) slot_request) \<Rightarrow> bool" where
  "crowded P slots occ h \<longleftrightarrow> slots_numbered slots \<and> inj_on occ {..<length slots} \<and> inj_on h {..<length slots} \<and>
     (\<forall>i < length slots. ps_reusable (slots ! i) \<and>
        occ i \<in> set P \<and> sr_last (occ i) = ps_last (slots ! i) \<and> sr_compatibility (occ i) = ps_compatibility (slots ! i) \<and>
        h i \<in> set P \<and> sr_policy (h i) = Reusable \<and> sr_policy (occ i) = Reusable \<and>
        sr_compatibility (h i) = ps_compatibility (slots ! i)) \<and>
     (\<forall>i < length slots. \<forall>j < length slots. i \<noteq> j \<longrightarrow> in_conflict (h i) (h j))"

lemma crowded_step:
  assumes crowded: "crowded P slots occ h" and new: "r \<notin> set P" and policy: "sr_policy r \<noteq> Private"
    and later: "\<forall>q \<in> set P. sr_producer q \<le> sr_producer r" and live: "sr_producer r \<le> sr_last r"
  shows "\<exists>occ' h'. crowded (P @ [r]) (fst (assign_slot r slots)) occ' h'"
proof (cases "sr_policy r = Absent")
  case True
  with crowded show ?thesis
    by (intro exI [of _ occ] exI [of _ h]) (auto simp: crowded_def assign_slot_def)
next
  case False
  with policy have reusable: "sr_policy r = Reusable" by (cases "sr_policy r") auto
  show ?thesis
  proof (cases "available_slot slots r")
    case (Some k)
    from available_slot_SomeD [OF Some] have k: "k < length slots" "takes_over r (slots ! k)" by auto
    have "inj_on (occ(k := r)) {..<length slots}"
      using crowded new by (intro inj_on_fun_updI) (auto simp: crowded_def)
    with crowded k reusable Some show ?thesis
      by (intro exI [of _ "occ(k := r)"] exI [of _ h])
        (auto simp: crowded_def assign_slot_def takes_over_def nth_list_update slots_numbered_def)
  next
    case None
    then have full: "ps_compatibility (slots ! i) = sr_compatibility r \<Longrightarrow> sr_producer r \<le> ps_last (slots ! i)"
      if "i < length slots" for i
      using that crowded reusable
      by (auto simp: available_slot_def position_None_iff takes_over_def crowded_def) (metis leI nth_mem)
    let ?h = "\<lambda>i. if i = length slots then r
      else if ps_compatibility (slots ! i) = sr_compatibility r then occ i else h i"
    have mem: "occ i \<in> set P" "h i \<in> set P" "sr_compatibility (occ i) = ps_compatibility (slots ! i)"
        "sr_compatibility (h i) = ps_compatibility (slots ! i)" if "i < length slots" for i
      using that crowded by (auto simp: crowded_def)
    have old: "occ i \<noteq> occ j" "h i \<noteq> h j" if "i < j" "j < length slots" for i j
      using that crowded inj_onD [of occ "{..<length slots}" i j] inj_onD [of h "{..<length slots}" i j]
      by (auto simp: crowded_def)
    have apart_occ: "(occ(length slots := r)) i \<noteq> (occ(length slots := r)) j" if "i < j" "j < Suc (length slots)" for i j
      using that old(1) [of i j] mem(1) [of i] new by (cases "j = length slots") auto
    have apart_h: "?h i \<noteq> ?h j" if "i < j" "j < Suc (length slots)" for i j
    proof (cases "j = length slots")
      case True
      then show ?thesis using that mem [of i] new by auto
    next
      case False
      then have j: "j < length slots" "i < length slots" using that by auto
      show ?thesis
        using old [OF that(1) j(1)] mem(3,4) [OF j(1)] mem(3,4) [OF j(2)] j
        by (cases "ps_compatibility (slots ! i) = sr_compatibility r";
            cases "ps_compatibility (slots ! j) = sr_compatibility r") auto
    qed
    have inj: "inj_on ?h {..<Suc (length slots)}" "inj_on (occ(length slots := r)) {..<Suc (length slots)}"
      using apart_h apart_occ by (auto intro!: linorder_inj_onI')
    have sym: "in_conflict q q' \<longleftrightarrow> in_conflict q' q" for q q' :: "('a, 'b) slot_request"
      by (auto simp: in_conflict_def)
    have occ_r: "sr_producer (occ i) \<le> sr_producer r" "sr_producer r \<le> sr_last (occ i)"
      if "i < length slots" "ps_compatibility (slots ! i) = sr_compatibility r" for i
      using that full [OF that(1)] later mem(1) [OF that(1)] crowded by (auto simp: crowded_def)
    have conf_lt: "in_conflict (?h i) (?h j)" if "i < j" "j < Suc (length slots)" for i j
    proof (cases "j = length slots")
      case True
      then show ?thesis using that mem(4) [of i] occ_r [of i] live by (auto simp: in_conflict_def)
    next
      case False
      then have j: "j < length slots" "i < length slots" using that by auto
      have "in_conflict (h i) (h j)" using crowded j that(1) by (auto simp: crowded_def)
      then show ?thesis
        using occ_r [OF j(1)] occ_r [OF j(2)] mem(3,4) [OF j(1)] mem(3,4) [OF j(2)] j
        by (cases "ps_compatibility (slots ! i) = sr_compatibility r";
            cases "ps_compatibility (slots ! j) = sr_compatibility r") (auto simp: in_conflict_def)
    qed
    have conf: "in_conflict (?h i) (?h j)" if "i < Suc (length slots)" "j < Suc (length slots)" "i \<noteq> j" for i j
      using conf_lt [of i j] conf_lt [of j i] sym that by (metis linorder_neqE_nat)
    show ?thesis
      using crowded inj conf None reusable
      by (intro exI [of _ "occ(length slots := r)"] exI [of _ ?h])
        (auto simp: crowded_def assign_slot_def nth_append less_Suc_eq slots_numbered_def)
  qed
qed

definition final_slots ::
  "('i, 'c) physical_slot list \<Rightarrow> ('i, 'c) slot_request list \<Rightarrow> ('i, 'c) physical_slot list" where
  "final_slots slots rs = fold (\<lambda>r slots. fst (assign_slot r slots)) rs slots"

definition used_slots :: "'i slot_assignment list \<Rightarrow> nat set" where
  "used_slots as = {s. \<exists>a \<in> set as. sa_slot a = Some s}"

lemma assign_slot_used:
  "slots_numbered slots \<Longrightarrow>
   {..<length (fst (assign_slot r slots))} = {..<length slots} \<union> set_option (sa_slot (snd (assign_slot r slots)))"
  by (auto simp: assign_slot_def slots_numbered_def dest!: available_slot_SomeD split: option.splits)

lemma final_slots_used:
  "slots_numbered slots \<Longrightarrow>
   {..<length (final_slots slots rs)} = {..<length slots} \<union> used_slots (assign_from_slots slots rs)"
proof (induction rs arbitrary: slots)
  case Nil
  then show ?case by (simp add: final_slots_def used_slots_def)
next
  case (Cons r rs)
  let ?step = "assign_slot r slots"
  have "{..<length (final_slots slots (r # rs))} =
      {..<length (fst ?step)} \<union> used_slots (assign_from_slots (fst ?step) rs)"
    using Cons.IH [OF assign_slot_numbered [OF Cons.prems]] by (simp add: final_slots_def)
  also have "\<dots> = {..<length slots} \<union> used_slots (assign_from_slots slots (r # rs))"
    unfolding assign_slot_used [OF Cons.prems] assign_from_slots_Cons used_slots_def
    by auto
  finally show ?case .
qed

lemma crowded_final:
  assumes "crowded P slots occ h" and "distinct (map sr_identity (P @ rs))"
    and "sorted (map sr_producer (P @ rs))" and "\<forall>r \<in> set rs. sr_producer r \<le> sr_last r \<and> sr_policy r \<noteq> Private"
  shows "\<exists>occ h. crowded (P @ rs) (final_slots slots rs) occ h"
  using assms
proof (induction rs arbitrary: P slots occ h)
  case Nil
  then show ?case by (auto simp: final_slots_def)
next
  case (Cons r rs)
  have "\<exists>occ' h'. crowded (P @ [r]) (fst (assign_slot r slots)) occ' h'"
    using Cons.prems by (intro crowded_step) (auto simp: sorted_append)
  then obtain occ' h' where "crowded (P @ [r]) (fst (assign_slot r slots)) occ' h'" by blast
  from Cons.IH [OF this] Cons.prems show ?case by (simp add: final_slots_def)
qed

lemma assign_witness:
  assumes "distinct (map sr_identity rs)" and "sorted (map sr_producer rs)"
    and "\<forall>r \<in> set rs. sr_producer r \<le> sr_last r \<and> sr_policy r \<noteq> Private"
  shows "\<exists>h. inj_on h (used_slots (assign_exact_slots rs)) \<and>
    (\<forall>i \<in> used_slots (assign_exact_slots rs). h i \<in> set rs \<and> sr_policy (h i) = Reusable \<and>
       (\<forall>j \<in> used_slots (assign_exact_slots rs). i \<noteq> j \<longrightarrow> in_conflict (h i) (h j)))"
proof -
  have "crowded [] [] h h" for h :: "nat \<Rightarrow> ('a, 'b) slot_request" by (simp add: crowded_def slots_numbered_def)
  from crowded_final [OF this, of rs] assms obtain occ h where "crowded rs (final_slots [] rs) occ h" by auto
  moreover have "used_slots (assign_exact_slots rs) = {..<length (final_slots [] rs)}"
    using final_slots_used [of "[]" rs] by (simp add: slots_numbered_def assign_exact_slots_def)
  ultimately show ?thesis by (intro exI [of _ h]) (auto simp: crowded_def)
qed

text \<open>What a planner relies on: one assignment per request, a slot exactly for the requests with storage, and
  a shared slot only for compatible values with a strict gap between their lifetimes.\<close>

locale exact_allocator =
  fixes assign :: "('i, 'c) slot_request list \<Rightarrow> 'i slot_assignment list"
  assumes assign_identity: "map sa_identity (assign rs) = map sr_identity rs"
    and assign_absent: "j < length rs \<Longrightarrow> sa_slot (assign rs ! j) = None \<longleftrightarrow> sr_policy (rs ! j) = Absent"
    and assign_separate: "\<forall>r \<in> set rs. sr_producer r \<le> sr_last r \<Longrightarrow> j < k \<Longrightarrow> k < length rs \<Longrightarrow>
      sa_slot (assign rs ! j) = Some s \<Longrightarrow> sa_slot (assign rs ! k) = Some s \<Longrightarrow>
      sr_last (rs ! j) < sr_producer (rs ! k) \<and> sr_compatibility (rs ! j) = sr_compatibility (rs ! k)"
begin

lemma assign_length: "length (assign rs) = length rs"
  using assign_identity [of rs] by (metis length_map)

lemma assign_lookup:
  assumes "distinct (map sr_identity rs)" and "j < length rs"
  shows "map_of (rev (map (\<lambda>a. (sa_identity a, a)) (assign rs))) (sr_identity (rs ! j)) = Some (assign rs ! j)"
proof -
  let ?al = "map (\<lambda>a. (sa_identity a, a)) (assign rs)"
  have keys: "map fst ?al = map sr_identity rs" by (simp add: assign_identity comp_def)
  have "sa_identity (assign rs ! j) = sr_identity (rs ! j)"
    using assign_identity [of rs] assms(2) assign_length [of rs] by (metis nth_map)
  then have "(sr_identity (rs ! j), assign rs ! j) \<in> set ?al"
    using assms(2) assign_length [of rs] by (metis (no_types, lifting) image_eqI list.set_map nth_mem)
  moreover have "distinct (map fst (rev ?al))" unfolding rev_map [symmetric] keys
    using assms(1) by (simp add: keys rev_map [symmetric])
  ultimately show ?thesis by (intro map_of_is_SomeI) auto
qed

lemma shared_slot:
  assumes "\<forall>r \<in> set rs. sr_producer r \<le> sr_last r" and "j < length rs" and "k < length rs" and "j \<noteq> k"
    and "sa_slot (assign rs ! j) = Some s" and "sa_slot (assign rs ! k) = Some s"
  shows "(sr_last (rs ! j) < sr_producer (rs ! k) \<or> sr_last (rs ! k) < sr_producer (rs ! j)) \<and>
    sr_compatibility (rs ! j) = sr_compatibility (rs ! k)"
  using assign_separate [OF assms(1), of j k s] assign_separate [OF assms(1), of k j s] assms
  by (metis linorder_neqE_nat)

end

text \<open>An allocator whose every slot is forced: no conflict-free numbering needs fewer.\<close>

locale frugal_allocator = exact_allocator assign
  for assign :: "('i, 'c) slot_request list \<Rightarrow> 'i slot_assignment list" +
  assumes assign_forced: "distinct (map sr_identity rs) \<Longrightarrow> sorted (map sr_producer rs) \<Longrightarrow>
      \<forall>r \<in> set rs. sr_producer r \<le> sr_last r \<and> sr_policy r \<noteq> Private \<Longrightarrow>
      \<exists>h. inj_on h (used_slots (assign rs)) \<and>
        (\<forall>i \<in> used_slots (assign rs). h i \<in> set rs \<and> sr_policy (h i) = Reusable \<and>
           (\<forall>j \<in> used_slots (assign rs). i \<noteq> j \<longrightarrow> in_conflict (h i) (h j)))"
begin

lemma fewest:
  assumes "distinct (map sr_identity rs)" and "sorted (map sr_producer rs)"
    and "\<forall>r \<in> set rs. sr_producer r \<le> sr_last r \<and> sr_policy r \<noteq> Private"
    and apart: "\<And>q r. q \<in> set rs \<Longrightarrow> r \<in> set rs \<Longrightarrow> q \<noteq> r \<Longrightarrow> sr_policy q = Reusable \<Longrightarrow>
      sr_policy r = Reusable \<Longrightarrow> in_conflict q r \<Longrightarrow> g q \<noteq> g r"
  shows "card (used_slots (assign rs)) \<le> card (g ` {r \<in> set rs. sr_policy r = Reusable})"
proof -
  from assign_forced [OF assms(1-3)] obtain h where inj: "inj_on h (used_slots (assign rs))"
    and h: "\<And>i. i \<in> used_slots (assign rs) \<Longrightarrow> h i \<in> set rs \<and> sr_policy (h i) = Reusable"
    and conf: "\<And>i j. i \<in> used_slots (assign rs) \<Longrightarrow> j \<in> used_slots (assign rs) \<Longrightarrow> i \<noteq> j \<Longrightarrow> in_conflict (h i) (h j)"
    by auto
  have "inj_on (g \<circ> h) (used_slots (assign rs))"
    using inj h conf apart by (auto simp: inj_on_def) metis
  moreover have "(g \<circ> h) ` used_slots (assign rs) \<subseteq> g ` {r \<in> set rs. sr_policy r = Reusable}"
    using h by auto
  ultimately show ?thesis by (rule card_inj_on_le) simp
qed

end

interpretation slots: frugal_allocator assign_exact_slots
  by unfold_locales
    (simp_all add: assign_exact_slots_def assign_from_slots_identity assign_from_slots_absent
      assign_from_slots_separate [of "[]"] slots_numbered_def
      assign_witness [unfolded assign_exact_slots_def, simplified])

end
