(* ===== verification/MemoryPlanTheorems.thy ===== *)
theory MemoryPlanTheorems
  imports MemoryPlanSlots
begin

section \<open>Memory plans keep every value\<close>

text \<open>
  What an accepted plan means for an execution of its schedule. \<open>born\<close> and \<open>dies\<close> are the positions of
  the item that writes a buffer and of the last item that reads it. \<open>build_planned\<close> reads off the facts
  an accepted plan carries; from there a plan is a map from buffers to places, and running the items with
  shared places is compared with running them with one place per buffer. The last part shows that the
  edges of a validated schedule mirror its dependencies.
\<close>

subsection \<open>Lifetimes\<close>

definition writes_buffer :: "schedule_item \<Rightarrow> nat \<Rightarrow> bool" where
  "writes_buffer it b \<longleftrightarrow> b \<in> set (map bd_id (si_outputs it))"

definition born :: "schedule_item list \<Rightarrow> nat \<Rightarrow> nat" where
  "born items b = (case position (\<lambda>it. writes_buffer it b) items of Some p \<Rightarrow> p | None \<Rightarrow> length items)"

definition reading_positions :: "schedule_item list \<Rightarrow> nat \<Rightarrow> nat list" where
  "reading_positions items b = filter (\<lambda>p. reads_buffer (items ! p) b) [0..<length items]"

definition dies :: "schedule_item list \<Rightarrow> nat \<Rightarrow> nat" where
  "dies items b = (if reading_positions items b = [] then born items b else last (reading_positions items b))"

lemma enumerate_nth: "enumerate 0 xs = map (\<lambda>i. (i, xs ! i)) [0..<length xs]"
  by (rule nth_equalityI) (simp_all add: nth_enumerate_eq)

lemma users_eq: "users items b = map (\<lambda>p. (p, si_id (items ! p))) (reading_positions items b)"
  by (simp add: users_def reading_positions_def enumerate_nth filter_map comp_def)

lemma position_append:
  "position p (xs @ [x]) = (case position p xs of Some i \<Rightarrow> Some i | None \<Rightarrow> if p x then Some (length xs) else None)"
  by (induction xs) (auto split: option.splits)

text \<open>A producer map exists exactly when every buffer has one producer, and then holds its position.\<close>

definition written_once :: "schedule_item list \<Rightarrow> bool" where
  "written_once items \<longleftrightarrow> (\<forall>p < length items. distinct (map bd_id (si_outputs (items ! p)))) \<and>
     (\<forall>p q b. p < length items \<longrightarrow> q < length items \<longrightarrow> writes_buffer (items ! p) b \<longrightarrow> writes_buffer (items ! q) b \<longrightarrow> p = q)"

definition producer_of :: "schedule_item list \<Rightarrow> nat \<Rightarrow> (nat \<times> nat) option" where
  "producer_of items b = map_option (\<lambda>p. (si_id (items ! p), p)) (position (\<lambda>it. writes_buffer it b) items)"

lemma add_producers_Inr:
  "try_fold (add_producer p it) m outs = Inr m' \<Longrightarrow>
   distinct (map bd_id outs) \<and> (\<forall>out \<in> set outs. m (bd_id out) = None) \<and>
   m' = (\<lambda>b. if b \<in> bd_id ` set outs then Some (si_id it, p) else m b)"
proof (induction outs arbitrary: m)
  case (Cons out outs)
  then have "rbind (add_producer p it m out) (\<lambda>m. try_fold (add_producer p it) m outs) = Inr m'" by simp
  then have new: "m (bd_id out) = None" and rest: "try_fold (add_producer p it) (m(bd_id out \<mapsto> (si_id it, p))) outs = Inr m'"
    unfolding add_producer_def [of p it m out] by (cases "m (bd_id out)"; simp)+
  note ih = Cons.IH [OF rest]
  have old: "m (bd_id x) = None \<and> bd_id x \<noteq> bd_id out" if "x \<in> set outs" for x
    using ih that by (metis fun_upd_apply option.distinct(1))
  from ih have "m' = (\<lambda>b. if b \<in> bd_id ` set (out # outs) then Some (si_id it, p) else m b)" by auto
  with ih old new show ?case by fastforce
qed simp

lemma producer_map_Inr:
  assumes "producer_map items = Inr m"
  shows "written_once items \<and> m = producer_of items"
  using assms
proof (induction items arbitrary: m rule: rev_induct)
  case Nil
  then show ?case by (simp add: producer_map_def written_once_def producer_of_def)
next
  case (snoc it items)
  then obtain m0 where m0: "producer_map items = Inr m0"
    and step: "try_fold (add_producer (length items) it) m0 (si_outputs it) = Inr m"
    by (auto simp: producer_map_def enumerate_append_eq try_fold_append result_simps add_item_producers_def)
  from snoc.IH [OF m0] have once: "written_once items" and prod: "m0 = producer_of items" by auto
  from add_producers_Inr [OF step] have fresh: "distinct (map bd_id (si_outputs it))"
    "\<And>out. out \<in> set (si_outputs it) \<Longrightarrow> producer_of items (bd_id out) = None"
    and m: "m = (\<lambda>b. if b \<in> bd_id ` set (si_outputs it) then Some (si_id it, length items) else producer_of items b)"
    using prod by auto
  have apart: "\<not> writes_buffer (items ! p) b" if "p < length items" "writes_buffer it b" for p b
    using that fresh(2) nth_mem [OF that(1)] by (fastforce simp: writes_buffer_def producer_of_def position_None_iff)
  have "written_once (items @ [it])"
    using once fresh(1) apart unfolding written_once_def
    by (auto simp: nth_append less_Suc_eq)
  moreover have "m b = producer_of (items @ [it]) b" for b
    using apart unfolding m
    by (auto simp: producer_of_def position_append writes_buffer_def nth_append position_None_iff position_Some_iff
        in_set_conv_nth split: option.splits)
  ultimately show ?case by auto
qed

lemma producer_of_Some:
  "producer_of items b = Some (i, p) \<Longrightarrow> p = born items b \<and> p < length items \<and> i = si_id (items ! p) \<and> writes_buffer (items ! p) b"
  by (cases "position (\<lambda>it. writes_buffer it b) items") (auto simp: producer_of_def born_def dest: position_Some_iff [THEN iffD1])

lemma born_unique:
  assumes "written_once items" and "p < length items" and "writes_buffer (items ! p) b"
  shows "born items b = p"
proof (cases "position (\<lambda>it. writes_buffer it b) items")
  case None
  with assms show ?thesis by (auto simp: position_None_iff)
next
  case (Some q)
  then have "q < length items" "writes_buffer (items ! q) b" by (auto simp: position_Some_iff)
  with assms have "q = p" unfolding written_once_def by blast
  with Some show ?thesis by (simp add: born_def)
qed

lemma position_id:
  assumes "distinct (map si_id items)" and "p < length items"
  shows "position (\<lambda>it. si_id it = si_id (items ! p)) items = Some p"
  using assms by (auto simp: position_Some_iff distinct_conv_nth)

lemma dies_read: "p < length items \<Longrightarrow> reads_buffer (items ! p) b \<Longrightarrow> p \<le> dies items b"
proof -
  assume "p < length items" "reads_buffer (items ! p) b"
  then have mem: "p \<in> set (reading_positions items b)" by (simp add: reading_positions_def)
  have "sorted (reading_positions items b)" by (simp add: reading_positions_def sorted_wrt_filter)
  with mem have "p \<le> last (reading_positions items b)"
    by (cases "reading_positions items b" rule: rev_cases) (auto simp: sorted_append)
  with mem show "p \<le> dies items b" by (auto simp: dies_def)
qed

subsection \<open>What an accepted request says\<close>

definition request_for :: "schedule_item list \<Rightarrow> buffer_desc \<Rightarrow> allocation_request" where
  "request_for items d = \<lparr>ar_buffer = bd_id d, ar_elements = prod_list (bd_shape d), ar_bytes = bd_bytes d,
     ar_dtype = bd_dtype d, ar_shape = bd_shape d, ar_alignment = bd_alignment d, ar_space = HostDense,
     ar_producer = si_id (items ! born items (bd_id d)), ar_last = si_id (items ! dies items (bd_id d))\<rparr>"

lemma allocation_request_Inr:
  assumes "allocation_request_of items (producer_of items) d = Inr pr"
  shows "pr = (born items (bd_id d), request_for items d) \<and> born items (bd_id d) \<le> dies items (bd_id d) \<and>
    born items (bd_id d) < length items \<and> dies items (bd_id d) < length items \<and>
    writes_buffer (items ! born items (bd_id d)) (bd_id d) \<and> bd_view d = None"
proof -
  from assms obtain i p where prod: "producer_of items (bd_id d) = Some (i, p)"
    by (auto simp: allocation_request_of_def result_simps split: if_splits)
  note p = producer_of_Some [OF prod]
  let ?ps = "reading_positions items (bd_id d)"
  have last: "(if users items (bd_id d) = [] then (p, i) else last (users items (bd_id d))) =
      (dies items (bd_id d), si_id (items ! dies items (bd_id d)))"
    using p by (auto simp: users_eq dies_def last_map)
  have "dies items (bd_id d) < length items"
    using p last_in_set [of ?ps] by (auto simp: dies_def reading_positions_def)
  moreover note assms [unfolded allocation_request_of_def prod ok_or.simps rbind.simps prod.case Let_def last]
  ultimately show ?thesis
    using p by (auto simp: result_simps request_for_def checked_defs dest!: numel_InrD split: if_splits)
qed

text \<open>The exact request of a temporary.\<close>

definition exact_for :: "schedule_item list \<Rightarrow> bool \<Rightarrow> buffer_desc \<Rightarrow> (nat, slot_key) slot_request" where
  "exact_for items reuse d = \<lparr>sr_identity = bd_id d,
     sr_compatibility = (bd_bytes d, bd_dtype d, bd_shape d, bd_alignment d, HostDense),
     sr_producer = born items (bd_id d), sr_last = dies items (bd_id d),
     sr_policy = (if bd_bytes d = 0 then Absent else if reuse then Reusable else Private)\<rparr>"

definition in_order :: "schedule_item list \<Rightarrow> buffer_desc list \<Rightarrow> buffer_desc list" where
  "in_order items temps = sort_key (\<lambda>d. (born items (bd_id d), bd_id d)) temps"

lemma sort_key_map: "sort_key f (map g xs) = map g (sort_key (f \<circ> g) xs)"
proof -
  have "insort_key f (g x) (map g ys) = map g (insort_key (f \<circ> g) x ys)" for x ys
    by (induction ys) auto
  then show ?thesis by (induction xs) (simp_all add: sort_key_simps)
qed

definition entry_for :: "nat slot_assignment list \<Rightarrow> schedule_item list \<Rightarrow> buffer_desc \<Rightarrow> nat slot_assignment \<Rightarrow> temporary_allocation" where
  "entry_for as items d a = \<lparr>ta_buffer = bd_id d, ta_allocation = sa_slot a,
     ta_producer = si_id (items ! born items (bd_id d)), ta_last = si_id (items ! dies items (bd_id d)),
     ta_bytes = bd_bytes d, ta_alignment = bd_alignment d, ta_reused = sa_reused a\<rparr>"

text \<open>A plan is the exact allocation of its temporaries in the order of their producers.\<close>

definition assignments :: "schedule_item list \<Rightarrow> buffer_desc list \<Rightarrow> bool \<Rightarrow> nat slot_assignment list" where
  "assignments items temps reuse = assign_exact_slots (map (exact_for items reuse) (in_order items temps))"

definition entries :: "schedule_item list \<Rightarrow> buffer_desc list \<Rightarrow> bool \<Rightarrow> temporary_allocation list" where
  "entries items temps reuse =
     map2 (entry_for (assignments items temps reuse) items) (in_order items temps) (assignments items temps reuse)"

definition planned :: "schedule_item list \<Rightarrow> buffer_desc list \<Rightarrow> bool \<Rightarrow> memory_plan \<Rightarrow> bool" where
  "planned items temps reuse plan \<longleftrightarrow> distinct (map si_id items) \<and> distinct (map bd_id temps) \<and> written_once items \<and>
     (\<forall>d \<in> set temps. born items (bd_id d) \<le> dies items (bd_id d) \<and> dies items (bd_id d) < length items \<and>
        writes_buffer (items ! born items (bd_id d)) (bd_id d) \<and> bd_view d = None) \<and>
     (\<forall>p < length items. \<forall>d \<in> set temps. reads_buffer (items ! p) (bd_id d) \<longrightarrow> born items (bd_id d) < p) \<and>
     mp_temporaries plan = sort_key ta_buffer (entries items temps reuse) \<and>
     peak (entries items temps reuse) = Inr (mp_peak_allocations plan, mp_peak_bytes plan)"

lemma try_each_InrD: "try_each f xs = Inr u \<Longrightarrow> x \<in> set xs \<Longrightarrow> f x = Inr ()"
  unfolding try_each_def by (induction xs) (auto simp: result_simps)

lemma in_order_simps [simp]: "set (in_order items temps) = set temps" "length (in_order items temps) = length temps"
  by (simp_all add: in_order_def)

lemma in_order_distinct: "distinct (map bd_id temps) \<Longrightarrow> distinct (map bd_id (in_order items temps))"
  by (metis in_order_simps(1,2) card_distinct distinct_card length_map list.set_map)

lemma assignments_length: "length (assignments items temps reuse) = length temps"
  by (simp add: assignments_def slots.assign_length)

lemma build_planned:
  assumes "build items temps reuse = Inr plan"
  shows "planned items temps reuse plan"
proof -
  from assms obtain requests where ids: "distinct (map si_id items)" "distinct (map bd_id temps)"
    and once: "written_once items"
    and req: "try_map (allocation_request_of items (producer_of items)) temps = Inr requests"
    and uses: "try_each (\<lambda>(p, it). try_each (check_use items (producer_of items) (map bd_id temps) (p, it)) (si_inputs it))
             (enumerate 0 items) = Inr ()"
    and alloc: "allocate_requests items reuse requests = Inr plan"
    unfolding build_def by (auto simp: result_simps dest!: producer_map_Inr split: if_splits)
  have each: "allocation_request_of items (producer_of items) d = Inr (born items (bd_id d), request_for items d) \<and>
     born items (bd_id d) \<le> dies items (bd_id d) \<and> dies items (bd_id d) < length items \<and>
     writes_buffer (items ! born items (bd_id d)) (bd_id d) \<and> bd_view d = None" if "d \<in> set temps" for d
    using try_map_mem_ok [OF req that] allocation_request_Inr by blast
  have "requests = map (\<lambda>d. (born items (bd_id d), request_for items d)) temps"
    using each req by (subst (asm) try_map_ok) auto
  then have sorted: "sort_key (\<lambda>(p, r). (p, ar_buffer r)) requests =
      map (\<lambda>d. (born items (bd_id d), request_for items d)) (in_order items temps)"
    by (simp add: sort_key_map comp_def in_order_def request_for_def)
  have exact: "try_map (exact_request items reuse) (map (\<lambda>d. (born items (bd_id d), request_for items d)) (in_order items temps)) =
      Inr (map (exact_for items reuse) (in_order items temps))"
    unfolding try_map_Inr_iff
  proof (intro conjI allI impI)
    fix j assume "j < length (map (\<lambda>d. (born items (bd_id d), request_for items d)) (in_order items temps))"
    then have j: "j < length temps" and d: "in_order items temps ! j \<in> set temps"
      using nth_mem [of j "in_order items temps"] by simp_all
    from each [OF d] have "request_last_position items (request_for items (in_order items temps ! j)) =
        Inr (dies items (bd_id (in_order items temps ! j)))"
      using position_id [OF ids(1)] by (simp add: request_last_position_def request_for_def)
    with j show "exact_request items reuse
        (map (\<lambda>d. (born items (bd_id d), request_for items d)) (in_order items temps) ! j) =
        Inr (map (exact_for items reuse) (in_order items temps) ! j)"
      by (simp add: exact_request_def exact_for_def slot_key_of_def) (simp add: request_for_def)
  qed simp
  have ents: "try_map (temporary_of (assignments items temps reuse))
      (map (\<lambda>d. (born items (bd_id d), request_for items d)) (in_order items temps)) = Inr (entries items temps reuse)"
    unfolding try_map_Inr_iff
  proof (intro conjI allI impI)
    fix j assume j: "j < length (map (\<lambda>d. (born items (bd_id d), request_for items d)) (in_order items temps))"
    have "distinct (map sr_identity (map (exact_for items reuse) (in_order items temps)))"
      using in_order_distinct [OF ids(2)] by (simp add: comp_def exact_for_def)
    from slots.assign_lookup [OF this, of j] j show "temporary_of (assignments items temps reuse)
        (map (\<lambda>d. (born items (bd_id d), request_for items d)) (in_order items temps) ! j) =
        Inr (entries items temps reuse ! j)"
      by (simp add: temporary_of_def entries_def assignments_def exact_for_def request_for_def entry_for_def slots.assign_length)
  qed (simp add: entries_def assignments_length)
  have "born items (bd_id d) < p" if p: "p < length items" and d: "d \<in> set temps" and rd: "reads_buffer (items ! p) (bd_id d)" for p d
  proof -
    from rd obtain input where input: "input \<in> set (si_inputs (items ! p))" "bd_id input = bd_id d"
      by (auto simp: reads_buffer_def)
    have "try_each (check_use items (producer_of items) (map bd_id temps) (p, items ! p)) (si_inputs (items ! p)) = Inr ()"
      using try_each_InrD [OF uses, of "(p, items ! p)"] p by (simp add: enumerate_nth)
    from try_each_InrD [OF this input(1)] input d show ?thesis
      by (auto simp: check_use_def result_simps dest!: producer_of_Some split: if_splits)
  qed
  with alloc sorted exact ents ids once each show ?thesis
    unfolding allocate_requests_def planned_def by (auto simp: result_simps Let_def assignments_def [symmetric])
qed

subsection \<open>Sharing slots keeps every value\<close>

text \<open>The place a plan gives a buffer: its slot, or storage of its own.\<close>

datatype place = SlotAt nat | OwnBuffer nat

definition allocation_of :: "memory_plan \<Rightarrow> nat \<Rightarrow> nat option" where
  "allocation_of plan b =
    (case map_of (map (\<lambda>e. (ta_buffer e, ta_allocation e)) (mp_temporaries plan)) b of Some a \<Rightarrow> a | None \<Rightarrow> None)"

definition place_of :: "memory_plan \<Rightarrow> nat \<Rightarrow> place" where
  "place_of plan b = (case allocation_of plan b of Some s \<Rightarrow> SlotAt s | None \<Rightarrow> OwnBuffer b)"

text \<open>Executing items in order, with any kernels: \<open>f p ins i\<close> is the value the item at position \<open>p\<close> gives its
  \<open>i\<close>th output from its inputs.\<close>

type_synonym 'v kernels = "nat \<Rightarrow> 'v list \<Rightarrow> nat \<Rightarrow> 'v"

definition item_inputs :: "(nat \<Rightarrow> place) \<Rightarrow> (place \<Rightarrow> 'v) \<Rightarrow> schedule_item \<Rightarrow> 'v list" where
  "item_inputs at mem it = map (\<lambda>d. mem (at (bd_id d))) (si_inputs it)"

definition run_item :: "'v kernels \<Rightarrow> (nat \<Rightarrow> place) \<Rightarrow> nat \<times> schedule_item \<Rightarrow> (place \<Rightarrow> 'v) \<Rightarrow> (place \<Rightarrow> 'v)" where
  "run_item f at = (\<lambda>(p, it) mem.
     fold (\<lambda>(i, d) m. m(at (bd_id d) := f p (item_inputs at mem it) i)) (enumerate 0 (si_outputs it)) mem)"

definition run_items :: "'v kernels \<Rightarrow> (nat \<Rightarrow> place) \<Rightarrow> schedule_item list \<Rightarrow> (place \<Rightarrow> 'v) \<Rightarrow> (place \<Rightarrow> 'v)" where
  "run_items f at items mem = fold (run_item f at) (enumerate 0 items) mem"

lemma entries_lookup:
  assumes "planned items temps reuse plan" and "j < length temps"
  shows "allocation_of plan (bd_id (in_order items temps ! j)) = sa_slot (assignments items temps reuse ! j)"
proof -
  let ?E = "entries items temps reuse"
  have len: "length ?E = length temps" by (simp add: entries_def assignments_length)
  have bufs: "map ta_buffer ?E = map bd_id (in_order items temps)"
    by (rule nth_equalityI) (simp_all add: entries_def assignments_length entry_for_def)
  then have "distinct (map ta_buffer ?E)"
    using assms(1) in_order_distinct by (simp add: planned_def)
  then have "distinct (map ta_buffer (sort_key ta_buffer ?E))"
    by (metis distinct_card card_distinct length_map length_sort list.set_map set_sort)
  then have "distinct (map fst (map (\<lambda>e. (ta_buffer e, ta_allocation e)) (sort_key ta_buffer ?E)))"
    by (simp add: comp_def)
  moreover have "(ta_buffer (?E ! j), ta_allocation (?E ! j)) \<in>
      set (map (\<lambda>e. (ta_buffer e, ta_allocation e)) (sort_key ta_buffer ?E))"
    using assms(2) len by auto
  moreover have "ta_buffer (?E ! j) = bd_id (in_order items temps ! j)"
    "ta_allocation (?E ! j) = sa_slot (assignments items temps reuse ! j)"
    using assms(2) by (simp_all add: entries_def assignments_length entry_for_def)
  ultimately show ?thesis
    using assms(1) map_of_is_SomeI [of "map (\<lambda>e. (ta_buffer e, ta_allocation e)) (sort_key ta_buffer ?E)"]
    by (simp add: allocation_of_def planned_def)
qed

lemma allocation_temporary:
  assumes "planned items temps reuse plan" and "allocation_of plan b = Some s"
  shows "\<exists>d \<in> set temps. bd_id d = b"
proof -
  from assms obtain e where "e \<in> set (entries items temps reuse)" "ta_buffer e = b"
    by (auto simp: allocation_of_def planned_def split: option.splits dest!: map_of_SomeD)
  then show ?thesis
    by (auto simp: entries_def entry_for_def dest!: set_zip_leftD)
qed

definition same_kind :: "buffer_desc \<Rightarrow> buffer_desc \<Rightarrow> bool" where
  "same_kind d e \<longleftrightarrow> bd_bytes d = bd_bytes e \<and> bd_dtype d = bd_dtype e \<and> bd_shape d = bd_shape e \<and>
     bd_alignment d = bd_alignment e"

definition lives_meet :: "schedule_item list \<Rightarrow> nat \<Rightarrow> nat \<Rightarrow> bool" where
  "lives_meet items b c \<longleftrightarrow> born items b \<le> dies items c \<and> born items c \<le> dies items b"

lemma planned_separate:
  assumes plan: "planned items temps reuse plan" and d: "d \<in> set temps" and e: "e \<in> set temps" and ne: "bd_id d \<noteq> bd_id e"
    and s: "allocation_of plan (bd_id d) = Some s" "allocation_of plan (bd_id e) = Some s"
  shows "same_kind d e \<and> \<not> lives_meet items (bd_id d) (bd_id e)"
proof -
  let ?rs = "map (exact_for items reuse) (in_order items temps)"
  from d e obtain j k where j: "j < length temps" "in_order items temps ! j = d"
    and k: "k < length temps" "in_order items temps ! k = e"
    by (metis in_order_simps in_set_conv_nth)
  have live: "\<forall>r \<in> set ?rs. sr_producer r \<le> sr_last r"
    using plan by (auto simp: planned_def exact_for_def)
  have "sa_slot (assign_exact_slots ?rs ! j) = Some s" "sa_slot (assign_exact_slots ?rs ! k) = Some s"
    using entries_lookup [OF plan j(1)] entries_lookup [OF plan k(1)] j(2) k(2) s by (simp_all add: assignments_def)
  from slots.shared_slot [OF live _ _ _ this] j k have "j \<noteq> k \<Longrightarrow> ?thesis"
    by (auto simp: exact_for_def same_kind_def lives_meet_def)
  with j k ne show ?thesis by blast
qed

lemma planned_slot_iff:
  assumes "planned items temps reuse plan" and "d \<in> set temps"
  shows "allocation_of plan (bd_id d) = None \<longleftrightarrow> bd_bytes d = 0"
proof -
  from assms(2) obtain j where j: "j < length temps" "in_order items temps ! j = d"
    by (metis in_order_simps in_set_conv_nth)
  with entries_lookup [OF assms(1) j(1)] show ?thesis
    by (simp add: assignments_def slots.assign_absent exact_for_def)
qed

text \<open>After the writes of one item.\<close>

lemma fold_writes:
  assumes "distinct (map g ds)"
  shows "(\<forall>i < length ds. fold (\<lambda>(i, d) m. m(g d := v i)) (enumerate n ds) mem (g (ds ! i)) = v (n + i)) \<and>
    (\<forall>a. a \<notin> g ` set ds \<longrightarrow> fold (\<lambda>(i, d) m. m(g d := v i)) (enumerate n ds) mem a = mem a)"
  using assms
proof (induction ds arbitrary: n mem)
  case (Cons d ds)
  then show ?case by (auto simp: less_Suc_eq_0_disj)
qed simp

definition agree ::
  "schedule_item list \<Rightarrow> buffer_desc list \<Rightarrow> memory_plan \<Rightarrow> nat \<Rightarrow> (place \<Rightarrow> 'v) \<Rightarrow> (place \<Rightarrow> 'v) \<Rightarrow> bool" where
  "agree items temps plan k shared own \<longleftrightarrow>
     (\<forall>b. b \<notin> bd_id ` set temps \<longrightarrow> shared (OwnBuffer b) = own (OwnBuffer b)) \<and>
     (\<forall>d \<in> set temps. born items (bd_id d) < k \<longrightarrow> k \<le> dies items (bd_id d) \<longrightarrow>
        shared (place_of plan (bd_id d)) = own (OwnBuffer (bd_id d)))"

lemma agree_inputs:
  assumes "planned items temps reuse plan" and "agree items temps plan k shared own" and "k < length items"
  shows "item_inputs (place_of plan) shared (items ! k) = item_inputs OwnBuffer own (items ! k)"
proof -
  have "shared (place_of plan (bd_id d)) = own (OwnBuffer (bd_id d))" if "d \<in> set (si_inputs (items ! k))" for d
  proof (cases "bd_id d \<in> bd_id ` set temps")
    case True
    then obtain t where t: "t \<in> set temps" "bd_id t = bd_id d" by auto
    have rd: "reads_buffer (items ! k) (bd_id t)" using that t by (auto simp: reads_buffer_def)
    then have "born items (bd_id t) < k" "k \<le> dies items (bd_id t)"
      using assms(1,3) t(1) dies_read [OF assms(3)] unfolding planned_def by blast+
    with assms(2) t show ?thesis by (auto simp: agree_def)
  next
    case False
    with allocation_temporary [OF assms(1)] have "allocation_of plan (bd_id d) = None"
      by (metis imageI not_None_eq)
    with False assms(2) show ?thesis by (simp add: agree_def place_of_def)
  qed
  then show ?thesis by (simp add: item_inputs_def)
qed

lemma place_collision:
  assumes plan: "planned items temps reuse plan" and "place_of plan b = place_of plan c" and "b \<noteq> c"
  shows "\<exists>d \<in> set temps. \<exists>e \<in> set temps. bd_id d = b \<and> bd_id e = c \<and> \<not> lives_meet items b c"
proof -
  from assms(2,3) obtain s where s: "allocation_of plan b = Some s" "allocation_of plan c = Some s"
    by (auto simp: place_of_def split: option.splits)
  from allocation_temporary [OF plan s(1)] allocation_temporary [OF plan s(2)] obtain d e where
    "d \<in> set temps" "bd_id d = b" "e \<in> set temps" "bd_id e = c" by auto
  with planned_separate [OF plan] s assms(3) show ?thesis by blast
qed

lemma agree_step:
  assumes plan: "planned items temps reuse plan" and agree: "agree items temps plan k shared own" and k: "k < length items"
  shows "agree items temps plan (Suc k) (run_item f (place_of plan) (k, items ! k) shared)
    (run_item f OwnBuffer (k, items ! k) own)"
proof -
  let ?outs = "si_outputs (items ! k)"
  let ?v = "f k (item_inputs OwnBuffer own (items ! k))"
  have once: "written_once items" using plan by (simp add: planned_def)
  have wr: "writes_buffer (items ! k) (bd_id d)" if "d \<in> set ?outs" for d using that by (auto simp: writes_buffer_def)
  have ids: "distinct (map bd_id ?outs)" using once k by (auto simp: written_once_def)
  have sep: "place_of plan b \<noteq> place_of plan (bd_id d)"
    if "d \<in> set ?outs" "b \<noteq> bd_id d" "born items b \<le> k" "k \<le> dies items b" for d b
  proof
    assume "place_of plan b = place_of plan (bd_id d)"
    from place_collision [OF plan this that(2)] obtain e where "e \<in> set temps" "bd_id e = bd_id d"
      and "\<not> lives_meet items b (bd_id d)" by auto
    moreover have "born items (bd_id d) = k" using born_unique [OF once k wr [OF that(1)]] .
    moreover have "born items (bd_id e) \<le> dies items (bd_id e)" using plan \<open>e \<in> set temps\<close> by (simp add: planned_def)
    ultimately show False using that by (simp add: lives_meet_def)
  qed
  have out_live: "born items (bd_id d) = k" if "d \<in> set ?outs" for d using born_unique [OF once k wr [OF that]] .
  have dist: "distinct (map (\<lambda>d. place_of plan (bd_id d)) ?outs)" "distinct (map (\<lambda>d. OwnBuffer (bd_id d)) ?outs)"
  proof -
    have "place_of plan (bd_id d) \<noteq> place_of plan (bd_id e)" if "d \<in> set ?outs" "e \<in> set ?outs" "bd_id d \<noteq> bd_id e" for d e
    proof
      assume "place_of plan (bd_id d) = place_of plan (bd_id e)"
      from place_collision [OF plan this that(3)] obtain d' e' where *: "d' \<in> set temps" "bd_id d' = bd_id d"
        "e' \<in> set temps" "bd_id e' = bd_id e" "\<not> lives_meet items (bd_id d) (bd_id e)" by auto
      then have "born items (bd_id d) \<le> dies items (bd_id d)" "born items (bd_id e) \<le> dies items (bd_id e)"
        using plan by (metis planned_def)+
      with * out_live [OF that(1)] out_live [OF that(2)] show False by (simp add: lives_meet_def)
    qed
    with ids show "distinct (map (\<lambda>d. place_of plan (bd_id d)) ?outs)"
      by (auto simp: distinct_conv_nth)
    show "distinct (map (\<lambda>d. OwnBuffer (bd_id d)) ?outs)"
      using ids by (auto simp: distinct_conv_nth)
  qed
  have shared': "run_item f (place_of plan) (k, items ! k) shared =
      fold (\<lambda>(i, d) m. m(place_of plan (bd_id d) := ?v i)) (enumerate 0 ?outs) shared"
    by (simp add: run_item_def agree_inputs [OF plan agree k])
  have own': "run_item f OwnBuffer (k, items ! k) own =
      fold (\<lambda>(i, d) m. m(OwnBuffer (bd_id d) := ?v i)) (enumerate 0 ?outs) own"
    by (simp add: run_item_def)
  note ws = fold_writes [OF dist(1), where n = 0 and v = ?v and mem = shared, folded shared']
    fold_writes [OF dist(2), where n = 0 and v = ?v and mem = own, folded own']
  have same: "run_item f (place_of plan) (k, items ! k) shared (place_of plan (bd_id d)) =
      run_item f OwnBuffer (k, items ! k) own (OwnBuffer (bd_id d))" if "d \<in> set ?outs" for d
    using that ws by (auto simp: in_set_conv_nth)
  have untouched: "run_item f (place_of plan) (k, items ! k) shared (place_of plan b) = shared (place_of plan b)"
    "run_item f OwnBuffer (k, items ! k) own (OwnBuffer b) = own (OwnBuffer b)"
    if "b \<notin> bd_id ` set ?outs" "\<And>d. d \<in> set ?outs \<Longrightarrow> place_of plan b \<noteq> place_of plan (bd_id d)" for b
    using that ws by (auto simp: image_iff)
  have own_place: "place_of plan b = OwnBuffer b" if "b \<notin> bd_id ` set temps" for b
    using allocation_temporary [OF plan, of b] that by (cases "allocation_of plan b") (auto simp: place_of_def)
  show ?thesis
    unfolding agree_def
  proof (intro conjI allI ballI impI)
    fix b assume b: "b \<notin> bd_id ` set temps"
    show "run_item f (place_of plan) (k, items ! k) shared (OwnBuffer b) = run_item f OwnBuffer (k, items ! k) own (OwnBuffer b)"
    proof (cases "b \<in> bd_id ` set ?outs")
      case True
      then show ?thesis using same own_place [OF b] by force
    next
      case False
      moreover have "place_of plan b \<noteq> place_of plan (bd_id d)" if "d \<in> set ?outs" for d
        using place_collision [OF plan, of b "bd_id d"] b False that by fastforce
      ultimately show ?thesis using untouched [of b] own_place [OF b] agree b by (simp add: agree_def)
    qed
  next
    fix d assume d: "d \<in> set temps" "born items (bd_id d) < Suc k" "Suc k \<le> dies items (bd_id d)"
    show "run_item f (place_of plan) (k, items ! k) shared (place_of plan (bd_id d)) =
        run_item f OwnBuffer (k, items ! k) own (OwnBuffer (bd_id d))"
    proof (cases "bd_id d \<in> bd_id ` set ?outs")
      case True
      then show ?thesis using same by force
    next
      case False
      have "born items (bd_id d) \<noteq> k"
        using plan d(1) False by (auto simp: planned_def writes_buffer_def)
      moreover have "place_of plan (bd_id d) \<noteq> place_of plan (bd_id e)" if "e \<in> set ?outs" for e
        using sep [OF that, of "bd_id d"] False that d by auto
      ultimately show ?thesis using untouched [of "bd_id d"] False agree d by (simp add: agree_def)
    qed
  qed
qed

lemma run_items_agree:
  assumes plan: "planned items temps reuse plan"
    and start: "\<forall>b. b \<notin> bd_id ` set temps \<longrightarrow> shared (OwnBuffer b) = own (OwnBuffer b)" and k: "k \<le> length items"
  shows "agree items temps plan k (run_items f (place_of plan) (take k items) shared)
    (run_items f OwnBuffer (take k items) own)"
  using k
proof (induction k)
  case 0
  then show ?case using start by (simp add: agree_def run_items_def)
next
  case (Suc k)
  then have "k < length items" by simp
  with Suc.IH agree_step [OF plan _ this] show ?case
    by (simp add: run_items_def take_Suc_conv_app_nth enumerate_append_eq)
qed


subsection \<open>Peaks\<close>

lemma slot_bytes_keys:
  "distinct (map fst (slot_bytes es)) \<and> fst ` set (slot_bytes es) = {s. \<exists>e \<in> set es. ta_allocation e = Some s}"
proof -
  have "distinct (map fst m) \<Longrightarrow>
    distinct (map fst (fold (\<lambda>e m. case ta_allocation e of None \<Rightarrow> m | Some s \<Rightarrow> or_insert s (ta_bytes e) m) es m)) \<and>
    fst ` set (fold (\<lambda>e m. case ta_allocation e of None \<Rightarrow> m | Some s \<Rightarrow> or_insert s (ta_bytes e) m) es m) =
      fst ` set m \<union> {s. \<exists>e \<in> set es. ta_allocation e = Some s}" for m
  proof (induction es arbitrary: m)
    case (Cons e es)
    then show ?case
      by (cases "ta_allocation e") (auto simp: or_insert_keys or_insert_distinct)
  qed auto
  from this [of "[]"] show ?thesis by (simp add: slot_bytes_def)
qed

lemma ex_image_iff: "(\<exists>x \<in> A. h x = y) \<longleftrightarrow> y \<in> h ` A"
  by auto

lemma planned_peak:
  assumes "planned items temps reuse plan"
  shows "mp_peak_allocations plan = card (used_slots (assignments items temps reuse))"
proof -
  let ?E = "entries items temps reuse"
  have "mp_peak_allocations plan = length (slot_bytes ?E)"
    using assms by (auto simp: planned_def peak_def result_simps)
  also have "\<dots> = card (fst ` set (slot_bytes ?E))"
    using slot_bytes_keys [of ?E] by (metis distinct_card length_map list.set_map)
  also have "fst ` set (slot_bytes ?E) = used_slots (assignments items temps reuse)"
  proof -
    have "map ta_allocation ?E = map sa_slot (assignments items temps reuse)"
      by (rule nth_equalityI) (simp_all add: entries_def entry_for_def assignments_length)
    then have "ta_allocation ` set ?E = sa_slot ` set (assignments items temps reuse)" by (metis list.set_map)
    then show ?thesis unfolding conjunct2 [OF slot_bytes_keys] used_slots_def by (simp only: ex_image_iff)
  qed
  finally show ?thesis .
qed

lemma planned_fewest:
  assumes plan: "planned items temps True plan"
    and apart: "\<And>d e. d \<in> set temps \<Longrightarrow> e \<in> set temps \<Longrightarrow> bd_id d \<noteq> bd_id e \<Longrightarrow> bd_bytes d \<noteq> 0 \<Longrightarrow>
      bd_bytes e \<noteq> 0 \<Longrightarrow> \<not> same_kind d e \<or> lives_meet items (bd_id d) (bd_id e) \<Longrightarrow> g (bd_id d) \<noteq> g (bd_id e)"
  shows "mp_peak_allocations plan \<le> card (g ` bd_id ` {d \<in> set temps. bd_bytes d \<noteq> 0})"
proof -
  let ?rs = "map (exact_for items True) (in_order items temps)"
  have ids: "distinct (map sr_identity ?rs)"
    using plan in_order_distinct by (simp add: planned_def comp_def exact_for_def)
  have "sorted (map (\<lambda>d. (born items (bd_id d), bd_id d)) (in_order items temps))"
    unfolding in_order_def by (rule sorted_sort_key)
  then have sorted: "sorted (map sr_producer ?rs)"
    by (auto simp: sorted_iff_nth_mono exact_for_def less_eq_prod_def)
      (metis (no_types, lifting) in_order_simps(2) dual_order.strict_implies_order order_refl)
  have live: "\<forall>r \<in> set ?rs. sr_producer r \<le> sr_last r \<and> sr_policy r \<noteq> Private"
    using plan by (auto simp: planned_def exact_for_def)
  have "card (used_slots (assign_exact_slots ?rs)) \<le>
      card ((g \<circ> sr_identity) ` {r \<in> set ?rs. sr_policy r = Reusable})"
  proof (rule slots.fewest [OF ids sorted live])
    fix q r assume qr: "q \<in> set ?rs" "r \<in> set ?rs" "q \<noteq> r" "sr_policy q = Reusable" "sr_policy r = Reusable"
      and conf: "in_conflict q r"
    then obtain d e where d: "d \<in> set temps" "q = exact_for items True d" and e: "e \<in> set temps" "r = exact_for items True e"
      by auto
    moreover have "bd_id d \<noteq> bd_id e"
      using plan d e qr(3) by (auto simp: planned_def distinct_map inj_on_def)
    ultimately show "(g \<circ> sr_identity) q \<noteq> (g \<circ> sr_identity) r"
      using apart [OF d(1) e(1)] qr(4,5) conf
      by (auto simp: exact_for_def in_conflict_def same_kind_def lives_meet_def split: if_splits)
  qed
  also have "(g \<circ> sr_identity) ` {r \<in> set ?rs. sr_policy r = Reusable} = g ` bd_id ` {d \<in> set temps. bd_bytes d \<noteq> 0}"
  proof -
    have "{r \<in> set ?rs. sr_policy r = Reusable} = exact_for items True ` {d \<in> set temps. bd_bytes d \<noteq> 0}"
    proof -
      have "sr_policy (exact_for items True d) = Reusable \<longleftrightarrow> bd_bytes d \<noteq> 0" for d by (simp add: exact_for_def)
      then show ?thesis by auto
    qed
    then show ?thesis by (simp add: image_image) (simp add: exact_for_def)
  qed
  finally show ?thesis by (simp add: planned_peak [OF plan] assignments_def)
qed

subsection \<open>Consumer lists mirror dependencies\<close>

definition edges_ok :: "nat list \<Rightarrow> schedule_item \<Rightarrow> bool" where
  "edges_ok ids it \<longleftrightarrow> sorted_wrt (<) (si_dependencies it) \<and>
     (\<forall>d \<in> set (si_dependencies it). d \<in> set ids \<and> d < si_id it)"

definition pushed :: "(nat \<rightharpoonup> nat list) \<Rightarrow> nat \<Rightarrow> nat list" where
  "pushed m b = (case m b of None \<Rightarrow> [] | Some xs \<Rightarrow> xs)"

lemma strict_iff: "sorted_wrt (<) xs \<longleftrightarrow> \<not> (\<exists>i < length xs - 1. xs ! Suc i \<le> (xs ! i :: nat))"
  by (auto simp: sorted_wrt_iff_nth_Suc_transp not_le less_diff_conv)

lemma add_edges_iff:
  "is_ok (try_fold (add_edge ids it) m deps) \<longleftrightarrow> (\<forall>d \<in> set deps. d \<in> set ids \<and> d < it)"
  "try_fold (add_edge ids it) m deps = Inr m' \<Longrightarrow> distinct deps \<Longrightarrow>
     pushed m' b = pushed m b @ (if b \<in> set deps then [it] else [])"
proof (induction deps arbitrary: m)
  case (Cons d deps)
  case 1
  show ?case
    unfolding try_fold.simps add_edge_def [of ids it m d] by (auto simp: Cons.IH(1) not_le)
next
  case (Cons d deps)
  case 2
  then have rest: "try_fold (add_edge ids it) (push_entry d it m) deps = Inr m'"
    unfolding try_fold.simps add_edge_def [of ids it m d] by (simp split: if_splits)
  have "pushed (push_entry d it m) b = pushed m b @ (if b = d then [it] else [])"
    by (auto simp: push_entry_def pushed_def split: option.splits)
  with Cons.IH(2) [OF rest] 2(2) show ?case by auto
qed simp_all

lemma add_item_edges_iff:
  "is_ok (add_item_edges ids m it) \<longleftrightarrow> edges_ok ids it"
  "add_item_edges ids m it = Inr m' \<Longrightarrow>
     pushed m' b = pushed m b @ (if b \<in> set (si_dependencies it) then [si_id it] else [])"
proof -
  show "is_ok (add_item_edges ids m it) \<longleftrightarrow> edges_ok ids it"
    unfolding add_item_edges_def edges_ok_def strict_iff by (simp add: add_edges_iff(1))
  assume ok: "add_item_edges ids m it = Inr m'"
  then have "sorted_wrt (<) (si_dependencies it)"
    and "try_fold (add_edge ids (si_id it)) m (si_dependencies it) = Inr m'"
    unfolding add_item_edges_def strict_iff by (simp_all split: if_splits)
  then show "pushed m' b = pushed m b @ (if b \<in> set (si_dependencies it) then [si_id it] else [])"
    using add_edges_iff(2) strict_sorted_iff by blast
qed

lemma add_all_edges_iff:
  "is_ok (try_fold (add_item_edges ids) m items) \<longleftrightarrow> (\<forall>it \<in> set items. edges_ok ids it)"
  "try_fold (add_item_edges ids) m items = Inr m' \<Longrightarrow>
     pushed m' b = pushed m b @ map si_id (filter (\<lambda>it. b \<in> set (si_dependencies it)) items)"
proof (induction items arbitrary: m)
  case (Cons it items)
  case 1
  then show ?case
    using add_item_edges_iff(1) [of ids m it] by (cases "add_item_edges ids m it") (simp_all add: Cons.IH(1))
next
  case (Cons it items)
  case 2
  then obtain m1 where m1: "add_item_edges ids m it = Inr m1" "try_fold (add_item_edges ids) m1 items = Inr m'"
    by (auto simp: result_simps)
  from Cons.IH(2) [OF m1(2)] add_item_edges_iff(2) [OF m1(1)] show ?case by simp
qed simp_all

lemma take_consumers_iff:
  "distinct (map si_id items) \<Longrightarrow>
   is_ok (try_fold take_consumers m items) \<longleftrightarrow> (\<forall>it \<in> set items. si_consumers it = pushed m (si_id it))"
proof (induction items arbitrary: m)
  case (Cons it items)
  have "pushed (m(si_id it := None)) (si_id c) = pushed m (si_id c)" if "c \<in> set items" for c
  proof -
    from Cons.prems have "si_id it \<notin> si_id ` set items" by simp
    with that have "si_id c \<noteq> si_id it" by (metis imageI)
    then show ?thesis by (simp add: pushed_def)
  qed
  with Cons show ?case by (auto simp: take_consumers_def pushed_def [of m "si_id it", symmetric])
qed simp

lemma dag_edges_iff:
  assumes "distinct (map si_id items)"
  shows "is_ok (validate_dag_edges items ids) \<longleftrightarrow> (\<forall>it \<in> set items. edges_ok ids it \<and>
    si_consumers it = map si_id (filter (\<lambda>c. si_id it \<in> set (si_dependencies c)) items))"
proof (cases "try_fold (add_item_edges ids) Map.empty items")
  case (Inl e)
  then show ?thesis
    using add_all_edges_iff(1) [of ids Map.empty items] by (auto simp: validate_dag_edges_def)
next
  case (Inr m)
  from add_all_edges_iff(2) [OF Inr] have "pushed m b = map si_id (filter (\<lambda>c. b \<in> set (si_dependencies c)) items)" for b
    by (simp add: pushed_def)
  with take_consumers_iff [OF assms, of m] Inr add_all_edges_iff(1) [of ids Map.empty items] show ?thesis
    by (cases "try_fold take_consumers m items") (auto simp: validate_dag_edges_def)
qed

subsection \<open>Properties\<close>

definition vec2 :: "nat \<Rightarrow> buffer_desc" where
  "vec2 b = \<lparr>bd_id = b, bd_shape = [2], bd_dtype = F32, bd_bytes = 8, bd_alignment = 8, bd_read_only = False, bd_view = None\<rparr>"

definition chain_item :: "nat \<Rightarrow> nat list \<Rightarrow> nat list \<Rightarrow> nat \<Rightarrow> schedule_item" where
  "chain_item i deps cons b = \<lparr>si_id = i, si_dependencies = deps, si_consumers = cons, si_inputs = [vec2 b], si_outputs = [vec2 i]\<rparr>"

definition chain :: schedule where
  "chain = \<lparr>sc_items = [chain_item 0 [] [1] 9, chain_item 1 [0] [2] 0, chain_item 2 [1] [3] 1, chain_item 3 [2] [] 2],
     sc_requested = [3], sc_passthroughs = []\<rparr>"

text \<open>C23: on every schedule and with any kernels, executing with the slots of an accepted plan gives every
  item the inputs it has when each buffer keeps storage of its own, and leaves every buffer that escapes
  the schedule with the same final contents.\<close>

theorem slots_keep_values:
  assumes "from_validated_schedule s requested reuse = Inr plan"
  shows "(\<forall>k < length (sc_items s).
      item_inputs (place_of plan) (run_items f (place_of plan) (take k (sc_items s)) mem) (sc_items s ! k) =
      item_inputs OwnBuffer (run_items f OwnBuffer (take k (sc_items s)) mem) (sc_items s ! k)) \<and>
    (\<forall>b \<in> escaping s requested.
      run_items f (place_of plan) (sc_items s) mem (OwnBuffer b) = run_items f OwnBuffer (sc_items s) mem (OwnBuffer b))"
proof -
  let ?T = "internal_temporaries s requested"
  have plan: "planned (sc_items s) ?T reuse plan"
    using assms build_planned by (simp add: from_validated_schedule_def)
  note agree = run_items_agree [OF plan, of mem mem _ f]
  have "b \<notin> bd_id ` set ?T" if "b \<in> escaping s requested" for b
    using that by (auto simp: internal_temporaries_def)
  with agree [of "length (sc_items s)"] agree_inputs [OF plan agree] show ?thesis by (auto simp: agree_def)
qed

theorem slots_keep_values_witness:
  "\<exists>plan. from_validated_schedule chain [] True = Inr plan \<and> mp_peak_allocations plan = 2 \<and>
     place_of plan 0 = place_of plan 2 \<and>
     run_items (\<lambda>p ins i. sum_list ins + 1) (place_of plan) (sc_items chain) (\<lambda>_. 5) (OwnBuffer 3) = (9 :: nat)"
proof -
  obtain plan where plan: "from_validated_schedule chain [] True = Inr plan"
    and facts: "mp_peak_allocations plan = 2 \<and> place_of plan 0 = place_of plan 2"
  proof (cases "from_validated_schedule chain [] True")
    case (Inl e)
    moreover have "is_ok (from_validated_schedule chain [] True)" by code_simp
    ultimately show ?thesis by simp
  next
    case (Inr plan)
    moreover have "case from_validated_schedule chain [] True of Inl _ \<Rightarrow> False
        | Inr plan \<Rightarrow> mp_peak_allocations plan = 2 \<and> place_of plan 0 = place_of plan 2" by code_simp
    ultimately show ?thesis using that by simp
  qed
  have "run_items (\<lambda>p ins i. sum_list ins + 1) OwnBuffer (sc_items chain) (\<lambda>_. 5) (OwnBuffer 3) = (9 :: nat)"
    by code_simp
  moreover have "3 \<in> escaping chain []" by code_simp
  ultimately have "run_items (\<lambda>p ins i. sum_list ins + 1) (place_of plan) (sc_items chain) (\<lambda>_. 5) (OwnBuffer 3) = (9 :: nat)"
    using slots_keep_values [OF plan, of "\<lambda>p ins i. sum_list ins + 1" "\<lambda>_. 5 :: nat"] by (metis (no_types, lifting))
  with plan facts show ?thesis by blast
qed

text \<open>C24: two temporaries of an accepted plan share a slot only when they have the same bytes, type, shape and
  alignment and one is dead before the other is produced; exactly the empty temporaries have no slot.\<close>

theorem shared_slots_disjoint:
  assumes "build items temps reuse = Inr plan" and "d \<in> set temps"
  shows "(allocation_of plan (bd_id d) = None \<longleftrightarrow> bd_bytes d = 0) \<and>
    (\<forall>e \<in> set temps. bd_id d \<noteq> bd_id e \<and> bd_bytes d \<noteq> 0 \<and> allocation_of plan (bd_id d) = allocation_of plan (bd_id e) \<longrightarrow>
       same_kind d e \<and> (dies items (bd_id d) < born items (bd_id e) \<or> dies items (bd_id e) < born items (bd_id d)))"
proof -
  note plan = build_planned [OF assms(1)]
  have "same_kind d e \<and> (dies items (bd_id d) < born items (bd_id e) \<or> dies items (bd_id e) < born items (bd_id d))"
    if e: "e \<in> set temps" "bd_id d \<noteq> bd_id e" "bd_bytes d \<noteq> 0" "allocation_of plan (bd_id d) = allocation_of plan (bd_id e)" for e
  proof -
    from planned_slot_iff [OF plan assms(2)] e obtain s where "allocation_of plan (bd_id d) = Some s" by auto
    moreover from this e(4) have "allocation_of plan (bd_id e) = Some s" by simp
    ultimately show ?thesis
      using planned_separate [OF plan assms(2) e(1,2)] by (auto simp: lives_meet_def not_le)
  qed
  with planned_slot_iff [OF plan assms(2)] show ?thesis by blast
qed

theorem shared_slots_disjoint_witness:
  "\<exists>plan. build (sc_items chain) [vec2 0, vec2 1, vec2 2] True = Inr plan \<and>
     allocation_of plan 0 = allocation_of plan 2 \<and> dies (sc_items chain) 0 < born (sc_items chain) 2"
proof -
  obtain plan where plan: "build (sc_items chain) [vec2 0, vec2 1, vec2 2] True = Inr plan"
    and same: "allocation_of plan 0 = allocation_of plan 2"
  proof (cases "build (sc_items chain) [vec2 0, vec2 1, vec2 2] True")
    case (Inl e)
    moreover have "is_ok (build (sc_items chain) [vec2 0, vec2 1, vec2 2] True)" by code_simp
    ultimately show ?thesis by simp
  next
    case (Inr plan)
    moreover have "case build (sc_items chain) [vec2 0, vec2 1, vec2 2] True of Inl _ \<Rightarrow> False
        | Inr plan \<Rightarrow> allocation_of plan 0 = allocation_of plan 2" by code_simp
    ultimately show ?thesis using that by simp
  qed
  have "\<not> dies (sc_items chain) 2 < born (sc_items chain) 0" by code_simp
  with shared_slots_disjoint [OF plan, of "vec2 0"] same plan show ?thesis by (auto simp: vec2_def)
qed

text \<open>C25: with reuse, a plan uses the fewest slots possible: any numbering that keeps temporaries apart
  whenever their kinds differ or their lifetimes meet has at least \<open>peak_allocations\<close> numbers.\<close>

theorem fewest_slots:
  assumes "build items temps True = Inr plan"
    and "\<And>d e. d \<in> set temps \<Longrightarrow> e \<in> set temps \<Longrightarrow> bd_id d \<noteq> bd_id e \<Longrightarrow> bd_bytes d \<noteq> 0 \<Longrightarrow> bd_bytes e \<noteq> 0 \<Longrightarrow>
      \<not> same_kind d e \<or> lives_meet items (bd_id d) (bd_id e) \<Longrightarrow> g (bd_id d) \<noteq> g (bd_id e)"
  shows "mp_peak_allocations plan \<le> card (g ` bd_id ` {d \<in> set temps. bd_bytes d \<noteq> 0})"
  using planned_fewest [OF build_planned [OF assms(1)], of g] assms(2) by blast

theorem fewest_slots_witness:
  "\<exists>plan. build (sc_items chain) [vec2 0, vec2 1, vec2 2] True = Inr plan \<and>
     mp_peak_allocations plan \<le> card ((\<lambda>b. b mod 2) ` bd_id ` {d \<in> set [vec2 0, vec2 1, vec2 2]. bd_bytes d \<noteq> 0})"
proof -
  obtain plan where plan: "build (sc_items chain) [vec2 0, vec2 1, vec2 2] True = Inr plan"
  proof (cases "build (sc_items chain) [vec2 0, vec2 1, vec2 2] True")
    case (Inl e)
    moreover have "is_ok (build (sc_items chain) [vec2 0, vec2 1, vec2 2] True)" by code_simp
    ultimately show ?thesis by simp
  qed
  have "\<forall>d \<in> set [vec2 0, vec2 1, vec2 2]. \<forall>e \<in> set [vec2 0, vec2 1, vec2 2].
      bd_id d \<noteq> bd_id e \<longrightarrow> \<not> same_kind d e \<or> lives_meet (sc_items chain) (bd_id d) (bd_id e) \<longrightarrow> bd_id d mod 2 \<noteq> bd_id e mod 2"
    by code_simp
  then show ?thesis using fewest_slots [OF plan, of "\<lambda>b. b mod 2"] plan by blast
qed

end
