(* ===== verification/HostPool.thy ===== *)
theory HostPool
  imports Tensors
begin

section \<open>Generation-checked host storage (src/src/host_buffer.rs)\<close>

text \<open>
  A pool of slots, each with two banks of which one is active. A lease owns one generation of a slot,
  views and windows borrow from it, and every capability names its slot and generation, which the pool
  checks on use. The \<open>Arc\<close> of a pool is its identity \<open>po_id\<close>; the two banks are indexed by a truth value
  (\<open>1 - active\<close> is its negation); the lock is never poisoned. An operation that can change the pool and
  still fail returns the pool beside its result.
\<close>

record host_desc =
  hd_id :: nat
  hd_dtype :: dtype
  hd_shape :: shape
  hd_bytes :: nat
  hd_alignment :: nat
  hd_lanes :: nat

datatype host_error =
    HostOverflow
  | OwnerMismatch
  | StaleGeneration nat nat
  | LogicalBounds nat nat
  | IncompatibleDescriptor
  | DoubleRelease nat
  | OutstandingBorrow nat
  | MissingSlot nat
  | MissingValue nat

record 'l slot =
  sl_generation :: nat
  sl_capacity :: nat
  sl_descriptor :: "host_desc option"
  sl_banks :: "bool \<Rightarrow> 'l tensor option"
  sl_active :: bool
  sl_leased :: bool
  sl_views :: nat
  sl_window :: bool

record 'l pool =
  po_id :: nat
  po_slots :: "nat \<rightharpoonup> 'l slot"
  po_next_sentinel :: nat

record lease =
  le_owner :: nat
  le_slot :: nat
  le_generation :: nat
  le_descriptor :: host_desc
  le_released :: bool

record view_cap =
  vw_slot :: nat
  vw_generation :: nat
  vw_descriptor :: host_desc

record window =
  wi_slot :: nat
  wi_generation :: nat
  wi_start :: nat
  wi_end :: nat
  wi_mutable :: bool

record 'l host_write =
  hw_owner :: nat
  hw_slot :: nat
  hw_generation :: nat
  hw_descriptor :: host_desc
  hw_value :: "'l tensor"

definition pool_new :: "nat \<Rightarrow> 'l pool" where
  "pool_new i = \<lparr>po_id = i, po_slots = Map.empty, po_next_sentinel = 0\<rparr>"

definition live_slot :: "'l pool \<Rightarrow> nat \<Rightarrow> nat \<Rightarrow> (host_error, 'l slot) result" where
  "live_slot p slot generation =
     rbind (ok_or (MissingSlot slot) (po_slots p slot)) (\<lambda>sl.
     if sl_generation sl \<noteq> generation \<or> \<not> sl_leased sl then Inl (StaleGeneration slot generation) else Inr sl)"

definition set_slot :: "'l pool \<Rightarrow> nat \<Rightarrow> 'l slot \<Rightarrow> 'l pool" where
  "set_slot p slot sl = p\<lparr>po_slots := (po_slots p)(slot \<mapsto> sl)\<rparr>"

definition checked_range :: "host_desc \<Rightarrow> nat \<Rightarrow> nat \<Rightarrow> (host_error, nat \<times> nat) result" where
  "checked_range d offset bytes =
     rbind (ok_or HostOverflow (checked_add_u offset bytes)) (\<lambda>stop.
     if hd_bytes d < stop then Inl (LogicalBounds stop (hd_bytes d)) else Inr (offset, stop))"

subsection \<open>Leases\<close>

definition fresh_slot :: "host_desc \<Rightarrow> 'l slot" where
  "fresh_slot d = \<lparr>sl_generation = 0, sl_capacity = hd_bytes d, sl_descriptor = None, sl_banks = (\<lambda>_. None),
     sl_active = False, sl_leased = False, sl_views = 0, sl_window = False\<rparr>"

definition same_layout :: "host_desc \<Rightarrow> host_desc \<Rightarrow> bool" where
  "same_layout a b \<longleftrightarrow> hd_dtype a = hd_dtype b \<and> hd_shape a = hd_shape b \<and> hd_alignment a = hd_alignment b \<and>
     hd_lanes a = hd_lanes b \<and> hd_bytes a = hd_bytes b"

text \<open>\<open>HostSlotPool::lease\<close>: without a physical slot the pool takes a private sentinel, counted down from
  the largest \<open>u64\<close>.\<close>

definition host_lease :: "'l pool \<Rightarrow> nat option \<Rightarrow> host_desc \<Rightarrow> 'l pool \<times> (host_error, lease) result" where
  "host_lease p physical d =
    (let (p, slot) = (case physical of Some s \<Rightarrow> (p, s)
           | None \<Rightarrow> (p\<lparr>po_next_sentinel := Suc (po_next_sentinel p)\<rparr>, usize_max - po_next_sentinel p));
         sl = (case po_slots p slot of Some sl \<Rightarrow> sl | None \<Rightarrow> fresh_slot d);
         p = set_slot p slot sl
     in if sl_leased sl \<or> sl_views sl \<noteq> 0 \<or> sl_window sl then (p, Inl (OutstandingBorrow slot))
        else if physical \<noteq> None \<and> sl_capacity sl \<noteq> hd_bytes d
        then (p, Inl (LogicalBounds (hd_bytes d) (sl_capacity sl)))
        else if (case sl_descriptor sl of Some old \<Rightarrow> \<not> same_layout old d | None \<Rightarrow> False)
        then (p, Inl IncompatibleDescriptor)
        else case checked_add_u (sl_generation sl) 1 of
            None \<Rightarrow> (p, Inl HostOverflow)
          | Some generation \<Rightarrow>
              (set_slot p slot (sl\<lparr>sl_generation := generation, sl_descriptor := Some d, sl_banks := (\<lambda>_. None),
                 sl_active := False, sl_leased := True\<rparr>),
               Inr \<lparr>le_owner = po_id p, le_slot = slot, le_generation = generation, le_descriptor = d,
                    le_released = False\<rparr>))"

definition fits_desc :: "'l tensor \<Rightarrow> host_desc \<Rightarrow> bool" where
  "fits_desc t d \<longleftrightarrow> td_shape t = hd_shape d \<and> td_dtype t = hd_dtype d"

definition lease_write :: "'l pool \<Rightarrow> lease \<Rightarrow> 'l tensor \<Rightarrow> (host_error, 'l pool) result" where
  "lease_write p l t =
     rbind (live_slot p (le_slot l) (le_generation l)) (\<lambda>sl.
     if \<not> fits_desc t (le_descriptor l) then Inl IncompatibleDescriptor
     else Inr (set_slot p (le_slot l) (sl\<lparr>sl_banks := (sl_banks sl)(sl_active sl := Some t)\<rparr>)))"

definition staged_write :: "lease \<Rightarrow> 'l tensor \<Rightarrow> (host_error, 'l host_write) result" where
  "staged_write l t =
    (if \<not> fits_desc t (le_descriptor l) then Inl IncompatibleDescriptor
     else Inr \<lparr>hw_owner = le_owner l, hw_slot = le_slot l, hw_generation = le_generation l,
               hw_descriptor = le_descriptor l, hw_value = t\<rparr>)"

definition release_lease :: "'l pool \<Rightarrow> lease \<Rightarrow> (host_error, 'l pool \<times> lease) result" where
  "release_lease p l =
    (if le_released l then Inl (DoubleRelease (le_slot l))
     else rbind (live_slot p (le_slot l) (le_generation l)) (\<lambda>sl.
          if sl_views sl \<noteq> 0 then Inl (OutstandingBorrow (le_slot l))
          else Inr (set_slot p (le_slot l) (sl\<lparr>sl_leased := False, sl_banks := (\<lambda>_. None)\<rparr>),
                    l\<lparr>le_released := True\<rparr>)))"

text \<open>Dropping a lease releases it and ignores a failure.\<close>

definition drop_lease :: "'l pool \<Rightarrow> lease \<Rightarrow> 'l pool" where
  "drop_lease p l = (case release_lease p l of Inr (p', _) \<Rightarrow> p' | Inl _ \<Rightarrow> p)"

subsection \<open>Commits\<close>

definition check_write ::
  "'l pool \<Rightarrow> nat list \<Rightarrow> 'l host_write \<Rightarrow> (host_error, nat list) result" where
  "check_write p seen w =
    (if hw_owner w \<noteq> po_id p then Inl OwnerMismatch
     else if hw_slot w \<in> set seen then Inl (OutstandingBorrow (hw_slot w))
     else rbind (live_slot p (hw_slot w) (hw_generation w)) (\<lambda>sl.
          if sl_views sl \<noteq> 0 \<or> sl_window sl then Inl (OutstandingBorrow (hw_slot w))
          else if sl_descriptor sl \<noteq> Some (hw_descriptor w) \<or> \<not> fits_desc (hw_value w) (hw_descriptor w)
          then Inl IncompatibleDescriptor
          else Inr (hw_slot w # seen)))"

text \<open>\<open>slots.get_mut\<close> on a slot the checks have found.\<close>

definition alter_slot :: "nat \<Rightarrow> ('l slot \<Rightarrow> 'l slot) \<Rightarrow> 'l pool \<Rightarrow> 'l pool" where
  "alter_slot k f p = p\<lparr>po_slots := (po_slots p)(k := map_option f (po_slots p k))\<rparr>"

definition fill_bank :: "'l tensor \<Rightarrow> 'l slot \<Rightarrow> 'l slot" where
  "fill_bank t sl = sl\<lparr>sl_banks := (sl_banks sl)(\<not> sl_active sl := Some t)\<rparr>"

definition flip_bank :: "'l slot \<Rightarrow> 'l slot" where
  "flip_bank sl = sl\<lparr>sl_active := \<not> sl_active sl\<rparr>"

definition stage_write :: "'l host_write \<Rightarrow> 'l pool \<Rightarrow> 'l pool" where
  "stage_write w = alter_slot (hw_slot w) (fill_bank (hw_value w))"

definition flip_slot :: "nat \<Rightarrow> 'l pool \<Rightarrow> 'l pool" where
  "flip_slot k = alter_slot k flip_bank"

definition pool_commit :: "'l pool \<Rightarrow> 'l host_write list \<Rightarrow> (host_error, 'l pool) result" where
  "pool_commit p ws =
     rbind (try_fold (check_write p) [] ws) (\<lambda>_. Inr (fold flip_slot (map hw_slot ws) (fold stage_write ws p)))"

subsection \<open>Views and windows\<close>

definition lease_view :: "'l pool \<Rightarrow> lease \<Rightarrow> (host_error, 'l pool \<times> view_cap) result" where
  "lease_view p l =
     rbind (live_slot p (le_slot l) (le_generation l)) (\<lambda>sl.
     rbind (ok_or HostOverflow (checked_add_u (sl_views sl) 1)) (\<lambda>n.
     Inr (set_slot p (le_slot l) (sl\<lparr>sl_views := n\<rparr>),
          \<lparr>vw_slot = le_slot l, vw_generation = le_generation l, vw_descriptor = le_descriptor l\<rparr>)))"

definition view_tensor :: "'l pool \<Rightarrow> view_cap \<Rightarrow> (host_error, 'l tensor) result" where
  "view_tensor p v =
     rbind (checked_range (vw_descriptor v) 0 (hd_bytes (vw_descriptor v))) (\<lambda>_.
     rbind (live_slot p (vw_slot v) (vw_generation v)) (\<lambda>sl.
     ok_or (MissingValue (hd_id (vw_descriptor v))) (sl_banks sl (sl_active sl))))"

definition drop_view :: "'l pool \<Rightarrow> view_cap \<Rightarrow> 'l pool" where
  "drop_view p v =
    (case po_slots p (vw_slot v) of
       Some sl \<Rightarrow> if sl_generation sl = vw_generation v \<and> sl_views sl \<noteq> 0
         then set_slot p (vw_slot v) (sl\<lparr>sl_views := sl_views sl - 1\<rparr>) else p
     | None \<Rightarrow> p)"

text \<open>A mutable window through a lease excludes every view; through a view, every other view.\<close>

definition acquire_window ::
  "nat \<Rightarrow> 'l pool \<Rightarrow> nat \<Rightarrow> nat \<Rightarrow> host_desc \<Rightarrow> nat \<Rightarrow> nat \<Rightarrow> (host_error, 'l pool \<times> window) result" where
  "acquire_window borrows p slot generation d offset bytes =
     rbind (checked_range d offset bytes) (\<lambda>(start, stop).
     rbind (live_slot p slot generation) (\<lambda>sl.
     if sl_views sl \<noteq> borrows \<or> sl_window sl then Inl (OutstandingBorrow slot)
     else Inr (set_slot p slot (sl\<lparr>sl_window := True\<rparr>),
               \<lparr>wi_slot = slot, wi_generation = generation, wi_start = start, wi_end = stop, wi_mutable = True\<rparr>)))"

definition lease_window where
  "lease_window p l = acquire_window 0 p (le_slot l) (le_generation l) (le_descriptor l)"

definition view_window where
  "view_window p v = acquire_window 1 p (vw_slot v) (vw_generation v) (vw_descriptor v)"

definition byte_window :: "view_cap \<Rightarrow> nat \<Rightarrow> nat \<Rightarrow> (host_error, window) result" where
  "byte_window v offset bytes =
     rbind (checked_range (vw_descriptor v) offset bytes) (\<lambda>(start, stop).
     Inr \<lparr>wi_slot = vw_slot v, wi_generation = vw_generation v, wi_start = start, wi_end = stop, wi_mutable = False\<rparr>)"

definition window_validate :: "'l pool \<Rightarrow> window \<Rightarrow> (host_error, unit) result" where
  "window_validate p w =
     rbind (live_slot p (wi_slot w) (wi_generation w)) (\<lambda>sl.
     if sl_capacity sl < wi_end w then Inl (LogicalBounds (wi_end w) (sl_capacity sl)) else Inr ())"

definition drop_window :: "'l pool \<Rightarrow> window \<Rightarrow> 'l pool" where
  "drop_window p w =
    (case po_slots p (wi_slot w) of
       Some sl \<Rightarrow> if wi_mutable w \<and> sl_generation sl = wi_generation w
         then set_slot p (wi_slot w) (sl\<lparr>sl_window := False\<rparr>) else p
     | None \<Rightarrow> p)"

subsection \<open>Authenticated reads\<close>

definition matches_desc :: "'l tensor \<Rightarrow> host_desc \<Rightarrow> bool" where
  "matches_desc t d \<longleftrightarrow> fits_desc t d \<and> checked_mul_u (td_len t) (itemsize (td_dtype t)) = Some (hd_bytes d)"

definition check_request ::
  "'l pool \<Rightarrow> nat list \<Rightarrow> lease \<Rightarrow> (host_error, nat list) result" where
  "check_request p seen l =
    (if le_owner l \<noteq> po_id p \<or> le_slot l \<in> set seen then Inl OwnerMismatch
     else rbind (live_slot p (le_slot l) (le_generation l)) (\<lambda>sl.
          if sl_window sl then Inl (OutstandingBorrow (le_slot l))
          else if sl_descriptor sl \<noteq> Some (le_descriptor l) then Inl IncompatibleDescriptor
          else rbind (ok_or (MissingValue (hd_id (le_descriptor l))) (sl_banks sl (sl_active sl))) (\<lambda>t.
               if \<not> matches_desc t (le_descriptor l) then Inl IncompatibleDescriptor
               else Inr (le_slot l # seen))))"

definition active_tensors :: "'l pool \<Rightarrow> lease list \<Rightarrow> (host_error, (nat \<times> nat \<times> 'l tensor) list) result" where
  "active_tensors p ls =
     rbind (try_fold (check_request p) [] ls) (\<lambda>_.
     Inr (map (\<lambda>(ordinal, l). (ordinal, hd_id (le_descriptor l),
       the (case po_slots p (le_slot l) of Some sl \<Rightarrow> sl_banks sl (sl_active sl) | None \<Rightarrow> None))) (enumerate 0 ls)))"

subsection \<open>What a pool shows\<close>

text \<open>The value a reader finds in a slot, and the one in its other bank.\<close>

definition visible :: "'l pool \<Rightarrow> nat \<rightharpoonup> 'l tensor" where
  "visible p s = (case po_slots p s of None \<Rightarrow> None | Some sl \<Rightarrow> sl_banks sl (sl_active sl))"

definition standby :: "'l pool \<Rightarrow> nat \<rightharpoonup> 'l tensor" where
  "standby p s = (case po_slots p s of None \<Rightarrow> None | Some sl \<Rightarrow> sl_banks sl (\<not> sl_active sl))"

subsection \<open>Reading and altering slots\<close>

lemma set_slot_simps [simp]:
  "po_id (set_slot p s sl) = po_id p" "po_slots (set_slot p s sl) = (po_slots p)(s \<mapsto> sl)"
  "po_next_sentinel (set_slot p s sl) = po_next_sentinel p"
  by (simp_all add: set_slot_def)

lemma live_slot_Inr: "live_slot p s g = Inr sl \<longleftrightarrow> po_slots p s = Some sl \<and> sl_generation sl = g \<and> sl_leased sl"
  by (auto simp: live_slot_def result_simps)

text \<open>Altering slots one after another, each at most once.\<close>

lemma alter_slot_simps [simp]:
  "po_id (alter_slot k f p) = po_id p" "po_next_sentinel (alter_slot k f p) = po_next_sentinel p"
  "po_slots (alter_slot k f p) = (po_slots p)(k := map_option f (po_slots p k))"
  by (simp_all add: alter_slot_def)

lemma fold_alter_id [simp]: "po_id (fold (\<lambda>x. alter_slot (key x) (f x)) xs p) = po_id p"
  by (induction xs arbitrary: p) simp_all

lemma fold_alter:
  "distinct (map key xs) \<Longrightarrow> po_slots (fold (\<lambda>x. alter_slot (key x) (f x)) xs p) s =
     (case map_of (map (\<lambda>x. (key x, f x)) xs) s of None \<Rightarrow> po_slots p s | Some g \<Rightarrow> map_option g (po_slots p s))"
proof (induction xs arbitrary: p)
  case (Cons x xs)
  then have "map_of (map (\<lambda>x. (key x, f x)) xs) (key x) = None"
    by (auto simp: map_of_eq_None_iff)
  with Cons show ?case by (auto split: option.split)
qed simp

lemma map_of_map_value: "map_of (map (\<lambda>x. (key x, f (g x))) xs) s = map_option f (map_of (map (\<lambda>x. (key x, g x)) xs) s)"
  by (induction xs) auto

lemma map_of_map_const: "map_of (map (\<lambda>x. (key x, c)) xs) s = (if s \<in> key ` set xs then Some c else None)"
  by (induction xs) auto

end
