(* ===== verification/HostBanks.thy ===== *)
theory HostBanks
  imports HostPool
begin

section \<open>Bank transactions of the host pool (src/src/host_buffer.rs)\<close>

text \<open>
  A transaction borrows the active bank of every requested slot for reading and, unless the request
  retains it, the inactive bank for writing; when the callback succeeds the inactive banks become
  active together. The callback sees the banks and can change only the inactive ones, so it is a
  function from the banks to a new value for each position and its own result. The zero lane of an
  element type is a parameter, like the lanes themselves. \<open>slots\<close> is a \<open>BTreeMap\<close>: a loop over it visits
  \<open>slot_keys\<close>.
\<close>

record bank_request =
  br_owner :: nat
  br_slot :: nat
  br_generation :: nat
  br_descriptor :: host_desc
  br_retain :: bool

record 'l bank =
  bk_ordinal :: nat
  bk_buffer :: nat
  bk_active :: "'l tensor"
  bk_inactive :: "'l tensor option"

datatype 'e bank_error = BankHost host_error | BankStage 'e

type_synonym ('l, 'e, 't) stage = "'l bank list \<Rightarrow> (nat \<Rightarrow> 'l tensor) \<times> ('e, 't) result"

definition lease_request :: "lease \<Rightarrow> bool \<Rightarrow> bank_request" where
  "lease_request l retain = \<lparr>br_owner = le_owner l, br_slot = le_slot l, br_generation = le_generation l,
     br_descriptor = le_descriptor l, br_retain = retain\<rparr>"

definition slot_keys :: "'l pool \<Rightarrow> nat list" where
  "slot_keys p = sorted_list_of_set (dom (po_slots p))"

text \<open>The accounting of the pool.\<close>

record pool_stats =
  st_physical_slots :: nat
  st_leased_slots :: nat
  st_live_views :: nat
  st_mutable_windows :: nat
  st_zero_byte_sentinels :: nat

definition host_stats :: "'l pool \<Rightarrow> pool_stats" where
  "host_stats p = (let slots = map (\<lambda>k. the (po_slots p k)) (slot_keys p) in
     \<lparr>st_physical_slots = length (filter (\<lambda>sl. sl_capacity sl \<noteq> 0) slots),
      st_leased_slots = length (filter sl_leased slots),
      st_live_views = sum_list (map sl_views slots),
      st_mutable_windows = length (filter sl_window slots),
      st_zero_byte_sentinels = length (filter (\<lambda>sl. sl_capacity sl = 0) slots)\<rparr>)"

definition zeros_with_dtype :: "(dtype \<Rightarrow> 'l) \<Rightarrow> shape \<Rightarrow> dtype \<Rightarrow> (tensor_error, 'l tensor) result" where
  "zeros_with_dtype zero s d = rbind (numel s) (\<lambda>n. from_storage s d (replicate n (zero d)))"

subsection \<open>Preparing the requested slots\<close>

definition prepare_bank_slot ::
  "(dtype \<Rightarrow> 'l) \<Rightarrow> 'l slot \<Rightarrow> bank_request \<Rightarrow> (host_error, 'l slot) result" where
  "prepare_bank_slot zero sl r =
    (if sl_generation sl \<noteq> br_generation r \<or> \<not> sl_leased sl then Inl (StaleGeneration (br_slot r) (br_generation r))
     else if sl_views sl \<noteq> 0 \<or> sl_window sl then Inl (OutstandingBorrow (br_slot r))
     else if sl_descriptor sl \<noteq> Some (br_descriptor r) then Inl IncompatibleDescriptor
     else if \<not> br_retain r \<and> (case sl_banks sl (\<not> sl_active sl) of None \<Rightarrow> True
            | Some t \<Rightarrow> \<not> matches_desc t (br_descriptor r))
     then rbind (map_err (\<lambda>_. IncompatibleDescriptor)
            (zeros_with_dtype zero (hd_shape (br_descriptor r)) (hd_dtype (br_descriptor r)))) (\<lambda>t.
          Inr (sl\<lparr>sl_banks := (sl_banks sl)(\<not> sl_active sl := Some t)\<rparr>))
     else Inr sl)"

text \<open>The ordered path walks the slots themselves, the other looks each request up.\<close>

fun prepare_ordered ::
  "(dtype \<Rightarrow> 'l) \<Rightarrow> 'l pool \<Rightarrow> (bank_request \<times> nat) list \<Rightarrow> 'l pool \<times> (host_error, unit) result" where
  "prepare_ordered zero p [] = (p, Inr ())"
| "prepare_ordered zero p ((r, k) # rest) =
    (if br_owner r \<noteq> po_id p then (p, Inl OwnerMismatch)
     else case prepare_bank_slot zero (the (po_slots p k)) r of
         Inl e \<Rightarrow> (p, Inl e)
       | Inr sl \<Rightarrow> prepare_ordered zero (set_slot p k sl) rest)"

fun prepare_requested ::
  "(dtype \<Rightarrow> 'l) \<Rightarrow> 'l pool \<Rightarrow> (nat \<rightharpoonup> nat) \<Rightarrow> (nat \<times> bank_request) list \<Rightarrow>
   'l pool \<times> (host_error, nat \<rightharpoonup> nat) result" where
  "prepare_requested zero p requested [] = (p, Inr requested)"
| "prepare_requested zero p requested ((ordinal, r) # rest) =
    (if br_owner r \<noteq> po_id p \<or> requested (br_slot r) \<noteq> None then (p, Inl OwnerMismatch)
     else case po_slots p (br_slot r) of
         None \<Rightarrow> (p, Inl (MissingSlot (br_slot r)))
       | Some sl \<Rightarrow> (case prepare_bank_slot zero sl r of
             Inl e \<Rightarrow> (p, Inl e)
           | Inr sl' \<Rightarrow> prepare_requested zero (set_slot p (br_slot r) sl') (requested(br_slot r \<mapsto> ordinal)) rest))"

subsection \<open>Borrowing the banks\<close>

definition bank_of :: "'l pool \<Rightarrow> bank_request list \<Rightarrow> nat \<times> nat \<Rightarrow> (host_error, 'l bank) result" where
  "bank_of p rs ko =
    (let (k, ordinal) = ko; r = rs ! ordinal; sl = the (po_slots p k) in
     rbind (ok_or (MissingValue (hd_id (br_descriptor r))) (sl_banks sl (sl_active sl))) (\<lambda>t.
     Inr \<lparr>bk_ordinal = ordinal, bk_buffer = hd_id (br_descriptor r), bk_active = t,
          bk_inactive = (if br_retain r then None else sl_banks sl (\<not> sl_active sl))\<rparr>))"

definition successor :: "'l bank \<Rightarrow> 'l tensor" where
  "successor b = (case bk_inactive b of Some t \<Rightarrow> t | None \<Rightarrow> bk_active b)"

definition staged_banks :: "(nat \<Rightarrow> 'l tensor) \<Rightarrow> 'l bank list \<Rightarrow> 'l bank list" where
  "staged_banks new banks =
     map (\<lambda>(i, b). b\<lparr>bk_inactive := map_option (\<lambda>_. new i) (bk_inactive b)\<rparr>) (enumerate 0 banks)"

text \<open>The banks borrow from the slots, so what the callback writes is in the pool at once.\<close>

definition keep_bank :: "bank_request list \<Rightarrow> 'l bank \<Rightarrow> 'l pool \<Rightarrow> 'l pool" where
  "keep_bank rs b = (case bk_inactive b of None \<Rightarrow> id
     | Some t \<Rightarrow> alter_slot (br_slot (rs ! bk_ordinal b)) (fill_bank t))"

subsection \<open>Transactions\<close>

text \<open>What follows the preparation, with the map of requested slots (empty on the ordered path).\<close>

definition transact_prepared ::
  "bool \<Rightarrow> (nat \<rightharpoonup> nat) \<Rightarrow> 'l pool \<Rightarrow> bank_request list \<Rightarrow> ('l, 'e, 't) stage \<Rightarrow>
   'l pool \<times> ('e bank_error, 't) result" where
  "transact_prepared ordered requested p rs stage =
    (case try_map (bank_of p rs) (if ordered then zip (slot_keys p) [0..<length (slot_keys p)]
         else map (\<lambda>k. (k, the (requested k))) (filter (\<lambda>k. requested k \<noteq> None) (slot_keys p))) of
       Inl e \<Rightarrow> (p, Inl (BankHost e))
     | Inr banks \<Rightarrow>
         if length banks \<noteq> length rs then (p, Inl (BankHost OwnerMismatch))
         else let (new, outcome) = stage (if ordered then banks else sort_key bk_ordinal banks);
                  banks = staged_banks new (if ordered then banks else sort_key bk_ordinal banks);
                  q = fold (keep_bank rs) banks p
              in case outcome of
                  Inl e \<Rightarrow> (q, Inl (BankStage e))
                | Inr x \<Rightarrow>
                    if list_ex (\<lambda>b. \<not> matches_desc (successor b) (br_descriptor (rs ! bk_ordinal b))) banks
                    then (q, Inl (BankHost IncompatibleDescriptor))
                    else (fold flip_slot (if ordered
                            then map snd (filter (\<lambda>(r, k). \<not> br_retain r) (zip rs (slot_keys q)))
                            else map br_slot (filter (\<lambda>r. \<not> br_retain r) rs)) q, Inr x))"

definition ordered_frontier :: "'l pool \<Rightarrow> bank_request list \<Rightarrow> bool" where
  "ordered_frontier p rs \<longleftrightarrow> length rs = length (slot_keys p) \<and>
     list_all (\<lambda>r. hd_bytes (br_descriptor r) \<noteq> 0) rs \<and>
     list_all (\<lambda>(r, k). br_slot r = k) (zip rs (slot_keys p))"

definition host_transact ::
  "(dtype \<Rightarrow> 'l) \<Rightarrow> bool \<Rightarrow> 'l pool \<Rightarrow> bank_request list \<Rightarrow> ('l, 'e, 't) stage \<Rightarrow>
   'l pool \<times> ('e bank_error, 't) result" where
  "host_transact zero prefer_ordered p rs stage =
    (let ordered = (prefer_ordered \<and> ordered_frontier p rs);
         (p, requested) = (if ordered
           then (case prepare_ordered zero p (zip rs (slot_keys p)) of (p, r) \<Rightarrow> (p, rbind r (\<lambda>_. Inr Map.empty)))
           else prepare_requested zero p Map.empty (enumerate 0 rs))
     in case requested of
         Inl e \<Rightarrow> (p, Inl (BankHost e))
       | Inr requested \<Rightarrow> transact_prepared ordered requested p rs stage)"

end
