(* ===== verification/EffectSchedules.thy ===== *)
theory EffectSchedules
  imports Effects
begin

section \<open>Building, batching and lowering effect plans (src/src/effects/)\<close>

text \<open>
  The descriptor-only builder of whole-buffer replacements (\<open>replacement.rs\<close>), the rebasing of
  independently built plans onto persistent states (\<open>batch.rs\<close>) and the STORE/AFTER schedule
  (\<open>schedule.rs\<close>). The hash of a schedule comes from the standard library's \<open>DefaultHasher\<close> and is a
  parameter.
\<close>

subsection \<open>Whole-buffer replacements\<close>

record plan_builder =
  pb_states :: "nat \<rightharpoonup> buffer_state"
  pb_steps :: effect_plan

definition plan_builder_empty :: plan_builder where
  "plan_builder_empty = \<lparr>pb_states = Map.empty, pb_steps = []\<rparr>"

definition builder_push ::
  "plan_builder \<Rightarrow> buffer_state \<Rightarrow> nat \<Rightarrow> (effect_error, plan_builder) result" where
  "builder_push pb destination source_buffer =
    (if pb_states pb (bs_buffer destination) \<noteq> None then Inl (DuplicateWrite (bs_buffer destination) 0)
     else rbind (validate_buffer_state destination) (\<lambda>_.
       let states = (pb_states pb)(bs_buffer destination \<mapsto> destination);
           source = destination\<lparr>bs_buffer := source_buffer, bs_version := 0\<rparr>
       in if states source_buffer \<noteq> None then Inl (DuplicateWrite source_buffer 0)
          else rbind (validate_buffer_state source) (\<lambda>_.
               rbind (ok_or EffectOverflow (checked_add_u (bs_version destination) 1)) (\<lambda>version.
               let next_state = destination\<lparr>bs_version := version\<rparr>;
                   step = \<lparr>es_id = length (pb_steps pb), es_reads = [destination, source], es_write = next_state,
                           es_target_view = None, es_index_plan = None,
                           es_after = (case pb_steps pb of [] \<Rightarrow> [] | _ \<Rightarrow> [es_id (last (pb_steps pb))])\<rparr>
               in Inr \<lparr>pb_states = states(source_buffer \<mapsto> source, bs_buffer next_state \<mapsto> next_state),
                       pb_steps = pb_steps pb @ [step]\<rparr>))))"

text \<open>A \<open>BTreeMap\<close> from buffer and version, as a list sorted by key.\<close>

type_synonym inventory = "((nat \<times> nat) \<times> buffer_state) list"

fun inventory_insert :: "buffer_state \<Rightarrow> inventory \<Rightarrow> inventory" where
  "inventory_insert st [] = [((bs_buffer st, bs_version st), st)]"
| "inventory_insert st (((b, v), old) # rest) =
    (if bs_buffer st = b \<and> bs_version st = v then ((b, v), st) # rest
     else if bs_buffer st < b \<or> bs_buffer st = b \<and> bs_version st < v
     then ((bs_buffer st, bs_version st), st) # ((b, v), old) # rest
     else ((b, v), old) # inventory_insert st rest)"

definition builder_finish :: "plan_builder \<Rightarrow> (effect_error, effect_plan \<times> buffer_state list) result" where
  "builder_finish pb =
     rbind (effect_plan_validate (pb_steps pb)) (\<lambda>_.
     Inr (pb_steps pb,
       map snd (fold inventory_insert (concat (map (\<lambda>s. es_reads s @ [es_write s]) (pb_steps pb))) [])))"

subsection \<open>Batches\<close>

record 'l batch_entry =
  be_plan :: effect_plan
  be_starts :: "nat \<rightharpoonup> buffer_state"
  be_sources :: "nat \<rightharpoonup> 'l tensor"

record 'l rebased_step =
  rs_entry :: nat
  rs_step :: nat
  rs_effect :: effect_step
  rs_source :: "'l tensor option"

definition rebase_state :: "(nat \<rightharpoonup> buffer_state) \<Rightarrow> buffer_state \<Rightarrow> (effect_error, buffer_state) result" where
  "rebase_state starts st =
     rbind (ok_or (MissingBuffer (bs_buffer st)) (starts (bs_buffer st))) (\<lambda>start.
     if \<not> same_descriptor start st then Inl (mismatch_at st)
     else rbind (ok_or EffectOverflow (checked_add_u (bs_version start) (bs_version st))) (\<lambda>version.
          Inr (st\<lparr>bs_version := version\<rparr>)))"

definition rebase_step :: "effect_step \<Rightarrow> (nat \<rightharpoonup> buffer_state) \<Rightarrow> (effect_error, effect_step) result" where
  "rebase_step step starts =
     rbind (try_map (rebase_state starts) (es_reads step)) (\<lambda>reads.
     rbind (rebase_state starts (es_write step)) (\<lambda>w.
     Inr (step\<lparr>es_reads := reads, es_write := w\<rparr>)))"

text \<open>The buffers an entry needs a start for, in the order of the source's \<open>BTreeSet\<close>.\<close>

definition required_buffers :: "'l batch_entry \<Rightarrow> nat list" where
  "required_buffers e = sort (remdups (concat (map (\<lambda>s.
     bs_buffer (es_write s) #
     map bs_buffer (filter (\<lambda>r. be_sources e (es_id s) = None \<or> r \<noteq> es_reads s ! 1) (es_reads s))) (be_plan e))))"

definition check_start ::
  "(nat \<rightharpoonup> buffer_state) \<Rightarrow> 'l batch_entry \<Rightarrow> nat \<Rightarrow> (effect_error, unit) result" where
  "check_start produced e buffer =
     rbind (ok_or (MissingBuffer buffer) (be_starts e buffer)) (\<lambda>start.
     rbind (validate_buffer_state start) (\<lambda>_.
     case produced buffer of
       Some p \<Rightarrow> if p \<noteq> start then Inl (InvalidVersion buffer (bs_version p) (bs_version start)) else Inr ()
     | None \<Rightarrow> Inr ()))"

type_synonym 'l batch_state = "(nat \<rightharpoonup> buffer_state) \<times> 'l rebased_step list"

definition rebase_into ::
  "nat \<Rightarrow> 'l batch_entry \<Rightarrow> 'l batch_state \<Rightarrow> effect_step \<Rightarrow> (effect_error, 'l batch_state) result" where
  "rebase_into entry_index e state step =
     rbind (rebase_step step (be_starts e)) (\<lambda>rebased.
     let operand = es_reads rebased ! 1 in
     if (case be_sources e (es_id step) of
           Some t \<Rightarrow> td_shape t \<noteq> bs_shape operand \<or> td_dtype t \<noteq> bs_dtype operand | None \<Rightarrow> False)
     then Inl (mismatch_at operand)
     else Inr ((fst state)(bs_buffer (es_write rebased) \<mapsto> es_write rebased),
               snd state @ [\<lparr>rs_entry = entry_index, rs_step = es_id step, rs_effect = rebased,
                             rs_source = be_sources e (es_id step)\<rparr>]))"

definition rebase_entry ::
  "'l batch_state \<Rightarrow> nat \<times> 'l batch_entry \<Rightarrow> (effect_error, 'l batch_state) result" where
  "rebase_entry state ie =
    (let (entry_index, e) = ie in
     rbind (effect_plan_validate (be_plan e)) (\<lambda>_.
     if be_plan e = [] then Inl EffectCycle
     else rbind (try_each (check_start (fst state) e) (required_buffers e)) (\<lambda>_.
          try_fold (rebase_into entry_index e) state (be_plan e))))"

definition rebased_steps :: "'l batch_entry list \<Rightarrow> (effect_error, 'l rebased_step list) result" where
  "rebased_steps entries =
    (if entries = [] then Inl EffectCycle
     else rbind (try_fold rebase_entry (Map.empty, []) (enumerate 0 entries)) (\<lambda>(_, out). Inr out))"

definition effect_batch_new :: "'l batch_entry list \<Rightarrow> (effect_error, 'l batch_entry list) result" where
  "effect_batch_new entries = rbind (rebased_steps entries) (\<lambda>_. Inr entries)"

subsection \<open>Schedules\<close>

record effect_payload =
  ep_step :: nat
  ep_target :: buffer_state
  ep_source :: buffer_state
  ep_snapshot :: buffer_state
  ep_target_view :: "affine_view option"
  ep_index_plan :: "index_plan option"

definition validate_effect_payload :: "effect_payload \<Rightarrow> (effect_error, unit) result" where
  "validate_effect_payload p =
    (let t = ep_target p; sn = ep_snapshot p in
     rbind (validate_buffer_state t) (\<lambda>_.
     rbind (validate_buffer_state (ep_source p)) (\<lambda>_.
     rbind (validate_buffer_state sn) (\<lambda>_.
     if bs_buffer t \<noteq> bs_buffer sn then Inl (mismatch_at t)
     else rbind (ok_or EffectOverflow (checked_add_u (bs_version sn) 1)) (\<lambda>version.
     if bs_version t \<noteq> version \<or> \<not> same_descriptor t sn \<or> bs_dtype t \<noteq> bs_dtype (ep_source p)
     then Inl (mismatch_at t)
     else rbind (case ep_target_view p of None \<Rightarrow> Inr () | Some v \<Rightarrow> validate_target_view t v) (\<lambda>_.
     case ep_index_plan p of
       None \<Rightarrow> Inr ()
     | Some i \<Rightarrow> if ep_target_view p \<noteq> None \<or> ip_source i \<noteq> bs_shape t then Inl (mismatch_at t) else Inr ()))))))"

record schedule_node =
  sn_payload :: effect_payload
  sn_predecessors :: "nat list"

definition node_assignment :: "effect_payload \<Rightarrow> nat list \<Rightarrow> (effect_error, schedule_node) result" where
  "node_assignment p predecessors =
     rbind (validate_effect_payload p) (\<lambda>_. Inr \<lparr>sn_payload = p, sn_predecessors = predecessors\<rparr>)"

text \<open>The rules of the \<open>EffectStore\<close> and \<open>After\<close> operations that \<open>UOp::validate\<close> applies to the two nodes
  \<open>after_uop\<close> builds; the other checks of that function concern operations these nodes have none of.\<close>

definition effect_store_valid :: "effect_payload \<Rightarrow> bool" where
  "effect_store_valid p \<longleftrightarrow>
     bs_buffer (ep_target p) = bs_buffer (ep_snapshot p) \<and>
     checked_add_u (bs_version (ep_snapshot p)) 1 = Some (bs_version (ep_target p)) \<and>
     bs_dtype (ep_target p) = bs_dtype (ep_source p) \<and> bs_shape (ep_target p) = bs_shape (ep_snapshot p) \<and>
     bs_bytes (ep_target p) = bs_bytes (ep_snapshot p)"

definition node_validate :: "schedule_node \<Rightarrow> (effect_error, unit) result" where
  "node_validate n =
     rbind (validate_effect_payload (sn_payload n)) (\<lambda>_.
     if effect_store_valid (sn_payload n) then Inr () else Inl EffectCycle)"

record effect_schedule =
  sc_nodes :: "schedule_node list"
  sc_cache_key :: nat

definition schedule_step :: "nat set \<Rightarrow> schedule_node \<Rightarrow> (effect_error, nat set) result" where
  "schedule_step completed n =
    (let p = sn_payload n in
     rbind (node_validate n) (\<lambda>_.
     if ep_step p \<in> completed then Inl (DuplicateStep (ep_step p))
     else let completed = insert (ep_step p) completed in
       rbind (try_each (\<lambda>a. if ep_step p \<le> a \<or> a \<notin> completed then Inl (MissingAfter (ep_step p) a) else Inr ())
                (sn_predecessors n)) (\<lambda>_.
       Inr completed)))"

definition schedule_validate :: "schedule_node list \<Rightarrow> (effect_error, unit) result" where
  "schedule_validate nodes = rbind (try_fold schedule_step {} nodes) (\<lambda>_. Inr ())"

definition lower_step :: "effect_step \<Rightarrow> (effect_error, schedule_node) result" where
  "lower_step s =
     rbind (ok_or (used_before (es_id s) (es_write s)) (case es_reads s of [] \<Rightarrow> None | r # _ \<Rightarrow> Some r)) (\<lambda>snapshot.
     rbind (ok_or (used_before (es_id s) (es_write s)) (case es_reads s of _ # r # _ \<Rightarrow> Some r | _ \<Rightarrow> None)) (\<lambda>source.
     node_assignment \<lparr>ep_step = es_id s, ep_target = es_write s, ep_source = source, ep_snapshot = snapshot,
       ep_target_view = es_target_view s, ep_index_plan = es_index_plan s\<rparr> (es_after s)))"

definition lower_validated ::
  "(schedule_node list \<Rightarrow> nat) \<Rightarrow> effect_plan \<Rightarrow> (effect_error, effect_schedule) result" where
  "lower_validated hash steps =
     rbind (try_map lower_step steps) (\<lambda>nodes.
     rbind (schedule_validate nodes) (\<lambda>_.
     Inr \<lparr>sc_nodes = nodes, sc_cache_key = hash nodes\<rparr>))"

definition schedule_lower ::
  "(schedule_node list \<Rightarrow> nat) \<Rightarrow> 'l effect_graph \<Rightarrow> (effect_error, effect_schedule) result" where
  "schedule_lower hash g =
     rbind (effect_plan_validate (effect_graph_plan g)) (\<lambda>_. lower_validated hash (effect_graph_plan g))"

definition schedule_execute ::
  "effect_schedule \<Rightarrow> 'l effect_graph \<Rightarrow> nat option \<Rightarrow> (effect_error, 'l effect_commit) result" where
  "schedule_execute s g fail_at =
     rbind (schedule_validate (sc_nodes s)) (\<lambda>_.
     case fail_at of
       Some step \<Rightarrow>
         if list_ex (\<lambda>n. ep_step (sn_payload n) = step) (sc_nodes s) then Inl (TransactionFailed step)
         else effect_execute g
     | None \<Rightarrow> effect_execute g)"

end
