(* ===== verification/EffectRuntime.thy ===== *)
theory EffectRuntime
  imports HostBanks EffectExecution EffectSchedules
begin

section \<open>Persistent effect storage (src/src/effects/runtime.rs, recurrent_transaction.rs)\<close>

text \<open>
  The runtime holds one leased host slot for every registered buffer, with the logical state it shows. A
  plan is executed on immutable snapshots of all slots and its last values are committed together; a
  recurrent transaction writes the inactive banks in place. The pool sits behind a lock and changes even
  under a shared reference, so an operation that can fail after touching it returns the runtime beside
  its result. \<open>slots\<close> is a \<open>BTreeMap\<close>: a list sorted by buffer.
\<close>

record persistent_slot =
  ps_state :: buffer_state
  ps_lease :: lease

record 'l runtime =
  rt_pool :: "'l pool"
  rt_slots :: "(nat \<times> persistent_slot) list"

datatype runtime_error =
    RtEffect effect_error
  | RtHost host_error
  | DuplicateBuffer nat
  | RtMissingBuffer nat
  | StaleState nat nat
  | InjectedFailure nat

abbreviation stale :: "buffer_state \<Rightarrow> runtime_error" where
  "stale st \<equiv> StaleState (bs_buffer st) (bs_version st)"

text \<open>\<open>BTreeMap::insert\<close> on the sorted list of entries.\<close>

fun tree_insert :: "nat \<Rightarrow> 'a \<Rightarrow> (nat \<times> 'a) list \<Rightarrow> (nat \<times> 'a) list" where
  "tree_insert k x [] = [(k, x)]"
| "tree_insert k x ((j, y) # rest) =
    (if k < j then (k, x) # (j, y) # rest else if k = j then (k, x) # rest else (j, y) # tree_insert k x rest)"

definition runtime_new :: "nat \<Rightarrow> 'l runtime" where
  "runtime_new i = \<lparr>rt_pool = pool_new i, rt_slots = []\<rparr>"

definition host_desc_of :: "buffer_state \<Rightarrow> host_desc" where
  "host_desc_of st = \<lparr>hd_id = bs_buffer st, hd_dtype = bs_dtype st, hd_shape = bs_shape st, hd_bytes = bs_bytes st,
     hd_alignment = max (itemsize (bs_dtype st)) 1, hd_lanes = 1\<rparr>"

definition state_at_zero :: "nat \<Rightarrow> 'l tensor \<Rightarrow> (runtime_error, buffer_state) result" where
  "state_at_zero buffer t =
     rbind (ok_or (RtHost HostOverflow) (checked_mul_u (td_len t) (itemsize (td_dtype t)))) (\<lambda>bytes.
     Inr \<lparr>bs_buffer = buffer, bs_version = 0, bs_shape = td_shape t, bs_dtype = td_dtype t, bs_bytes = bytes\<rparr>)"

text \<open>Leasing a slot for a state and filling it; a lease whose write fails is dropped.\<close>

definition lease_state :: "'l pool \<Rightarrow> buffer_state \<Rightarrow> 'l tensor \<Rightarrow> 'l pool \<times> (runtime_error, lease) result" where
  "lease_state p st t =
    (case host_lease p (if bs_bytes st \<noteq> 0 then Some (bs_buffer st) else None) (host_desc_of st) of
       (p, Inl e) \<Rightarrow> (p, Inl (RtHost e))
     | (p, Inr l) \<Rightarrow> (case lease_write p l t of
           Inl e \<Rightarrow> (drop_lease p l, Inl (RtHost e))
         | Inr p' \<Rightarrow> (p', Inr l)))"

definition runtime_register ::
  "'l runtime \<Rightarrow> nat \<Rightarrow> 'l tensor \<Rightarrow> 'l runtime \<times> (runtime_error, buffer_state) result" where
  "runtime_register r buffer t =
    (if map_of (rt_slots r) buffer \<noteq> None then (r, Inl (DuplicateBuffer buffer))
     else case state_at_zero buffer t of
         Inl e \<Rightarrow> (r, Inl e)
       | Inr st \<Rightarrow> (case lease_state (rt_pool r) st t of
             (p, Inl e) \<Rightarrow> (r\<lparr>rt_pool := p\<rparr>, Inl e)
           | (p, Inr l) \<Rightarrow> (\<lparr>rt_pool = p, rt_slots = tree_insert buffer \<lparr>ps_state = st, ps_lease = l\<rparr> (rt_slots r)\<rparr>,
               Inr st)))"

subsection \<open>Registering a set of states\<close>

definition check_initial ::
  "'l runtime \<Rightarrow> nat list \<Rightarrow> buffer_state \<times> 'l tensor \<Rightarrow> (runtime_error, nat list) result" where
  "check_initial r seen sv =
    (let (st, t) = sv in
     rbind (map_err RtEffect (validate_buffer_state st)) (\<lambda>_.
     rbind (ok_or (RtHost HostOverflow) (checked_mul_u (td_len t) (itemsize (td_dtype t)))) (\<lambda>bytes.
     if td_shape t \<noteq> bs_shape st \<or> td_dtype t \<noteq> bs_dtype st \<or> bytes \<noteq> bs_bytes st
     then Inl (RtEffect (mismatch_at st))
     else if bs_buffer st \<in> set seen \<or> map_of (rt_slots r) (bs_buffer st) \<noteq> None
     then Inl (DuplicateBuffer (bs_buffer st)) else Inr (bs_buffer st # seen))))"

text \<open>An error drops the leases staged so far.\<close>

fun lease_initial ::
  "'l pool \<Rightarrow> persistent_slot list \<Rightarrow> (buffer_state \<times> 'l tensor) list \<Rightarrow>
   'l pool \<times> (runtime_error, persistent_slot list) result" where
  "lease_initial p staged [] = (p, Inr staged)"
| "lease_initial p staged ((st, t) # rest) =
    (case lease_state p st t of
       (p', Inl e) \<Rightarrow> (fold (\<lambda>ps p. drop_lease p (ps_lease ps)) staged p', Inl e)
     | (p', Inr l) \<Rightarrow> lease_initial p' (staged @ [\<lparr>ps_state = st, ps_lease = l\<rparr>]) rest)"

definition register_initial_snapshots ::
  "'l runtime \<Rightarrow> (buffer_state \<times> 'l tensor) list \<Rightarrow> 'l runtime \<times> (runtime_error, buffer_state list) result" where
  "register_initial_snapshots r vs =
    (case try_fold (check_initial r) [] vs of
       Inl e \<Rightarrow> (r, Inl e)
     | Inr _ \<Rightarrow> (case lease_initial (rt_pool r) [] vs of
           (p, Inl e) \<Rightarrow> (r\<lparr>rt_pool := p\<rparr>, Inl e)
         | (p, Inr staged) \<Rightarrow>
             (\<lparr>rt_pool = p, rt_slots = fold (\<lambda>ps. tree_insert (bs_buffer (ps_state ps)) ps) staged (rt_slots r)\<rparr>,
              Inr (map ps_state staged))))"

definition register_initial_states ::
  "'l runtime \<Rightarrow> (nat \<times> 'l tensor) list \<Rightarrow> 'l runtime \<times> (runtime_error, buffer_state list) result" where
  "register_initial_states r vs =
    (case try_map (\<lambda>(buffer, t). rbind (state_at_zero buffer t) (\<lambda>st. Inr (st, t))) vs of
       Inl e \<Rightarrow> (r, Inl e)
     | Inr states \<Rightarrow> register_initial_snapshots r states)"

subsection \<open>Snapshots\<close>

definition slot_for :: "'l runtime \<Rightarrow> buffer_state \<Rightarrow> (runtime_error, persistent_slot) result" where
  "slot_for r st =
     rbind (ok_or (RtMissingBuffer (bs_buffer st)) (map_of (rt_slots r) (bs_buffer st))) (\<lambda>ps.
     if ps_state ps \<noteq> st then Inl (stale st) else Inr ps)"

text \<open>The view lives until the end of the call.\<close>

definition runtime_snapshot ::
  "'l runtime \<Rightarrow> buffer_state \<Rightarrow> 'l runtime \<times> (runtime_error, buffer_state \<times> 'l tensor) result" where
  "runtime_snapshot r st =
    (case slot_for r st of
       Inl e \<Rightarrow> (r, Inl e)
     | Inr ps \<Rightarrow> (case lease_view (rt_pool r) (ps_lease ps) of
           Inl e \<Rightarrow> (r, Inl (RtHost e))
         | Inr (p, v) \<Rightarrow> (r\<lparr>rt_pool := drop_view p v\<rparr>,
             rbind (map_err RtHost (view_tensor p v)) (\<lambda>t. Inr (st, t)))))"

definition slot_identity :: "'l runtime \<Rightarrow> buffer_state \<Rightarrow> (runtime_error, nat \<times> nat) result" where
  "slot_identity r st = rbind (slot_for r st) (\<lambda>ps. Inr (le_slot (ps_lease ps), le_generation (ps_lease ps)))"

subsection \<open>Executing a plan\<close>

fun snapshot_all ::
  "'l runtime \<Rightarrow> 'l snapshots \<Rightarrow> (nat \<times> persistent_slot) list \<Rightarrow> 'l runtime \<times> (runtime_error, 'l snapshots) result" where
  "snapshot_all r snaps [] = (r, Inr snaps)"
| "snapshot_all r snaps ((buffer, ps) # rest) =
    (case runtime_snapshot r (ps_state ps) of
       (r', Inl e) \<Rightarrow> (r', Inl e)
     | (r', Inr (_, t)) \<Rightarrow> snapshot_all r' (snaps((buffer, bs_version (ps_state ps)) \<mapsto> t)) rest)"

definition check_live_target :: "'l runtime \<Rightarrow> effect_step \<Rightarrow> (runtime_error, unit) result" where
  "check_live_target r step =
    (let w = es_write step in
     rbind (ok_or (RtMissingBuffer (bs_buffer w)) (map_of (rt_slots r) (bs_buffer w))) (\<lambda>ps.
     if \<not> same_descriptor (ps_state ps) w then Inl (stale w) else Inr ()))"

definition live_snapshot :: "'l snapshots \<Rightarrow> buffer_state \<Rightarrow> (runtime_error, 'l tensor) result" where
  "live_snapshot snaps st = ok_or (stale st) (snaps (bs_buffer st, bs_version st))"

type_synonym 'l candidates = "'l snapshots \<times> (buffer_state \<times> 'l tensor) list"

text \<open>One candidate: the target snapshot with the source stored into it.\<close>

definition stage_candidate ::
  "'l candidates \<Rightarrow> effect_step \<Rightarrow> (runtime_error, 'l tensor) result \<Rightarrow> (runtime_error, 'l candidates) result" where
  "stage_candidate state step source =
    (let (snaps, candidates) = state; w = es_write step in
     rbind (live_snapshot snaps (es_reads step ! 0)) (\<lambda>target.
     rbind source (\<lambda>source.
     rbind (map_err RtEffect (store_err (TransactionFailed (es_id step))
       (store_into (es_target_view step) (es_index_plan step) target source))) (\<lambda>candidate.
     Inr (snaps((bs_buffer w, bs_version w) \<mapsto> candidate), candidates @ [(w, candidate)])))))"

definition source_of ::
  "(nat \<rightharpoonup> 'l tensor) \<Rightarrow> 'l snapshots \<Rightarrow> effect_step \<Rightarrow> (runtime_error, 'l tensor) result" where
  "source_of sources snaps step =
    (let read = es_reads step ! 1 in
     case sources (es_id step) of
       Some t \<Rightarrow> if td_shape t \<noteq> bs_shape read \<or> td_dtype t \<noteq> bs_dtype read
         then Inl (RtEffect (mismatch_at read)) else Inr t
     | None \<Rightarrow> live_snapshot snaps read)"

definition run_candidate ::
  "(nat \<rightharpoonup> 'l tensor) \<Rightarrow> nat option \<Rightarrow> 'l candidates \<Rightarrow> effect_step \<Rightarrow> (runtime_error, 'l candidates) result" where
  "run_candidate sources fail state step =
    (if fail = Some (es_id step) then Inl (InjectedFailure (es_id step))
     else stage_candidate state step (source_of sources (fst state) step))"

text \<open>The last candidate of each buffer is committed.\<close>

definition final_values :: "(buffer_state \<times> 'l tensor) list \<Rightarrow> (nat \<times> (buffer_state \<times> 'l tensor)) list" where
  "final_values candidates = fold (\<lambda>(st, t). tree_insert (bs_buffer st) (st, t)) candidates []"

definition commit_candidates ::
  "'l runtime \<Rightarrow> (buffer_state \<times> 'l tensor) list \<Rightarrow> (runtime_error, 'l runtime) result" where
  "commit_candidates r candidates =
     rbind (try_map (\<lambda>(buffer, st, t). map_err RtHost (staged_write (ps_lease (the (map_of (rt_slots r) buffer))) t))
       (final_values candidates)) (\<lambda>writes.
     rbind (map_err RtHost (pool_commit (rt_pool r) writes)) (\<lambda>p.
     Inr \<lparr>rt_pool = p, rt_slots = map (\<lambda>(b, ps). (b, case map_of (final_values candidates) b of
            Some (st, _) \<Rightarrow> ps\<lparr>ps_state := st\<rparr> | None \<Rightarrow> ps)) (rt_slots r)\<rparr>))"

definition runtime_execute ::
  "'l runtime \<Rightarrow> effect_plan \<Rightarrow> (nat \<rightharpoonup> 'l tensor) \<Rightarrow> nat option \<Rightarrow>
   'l runtime \<times> (runtime_error, buffer_state list) result" where
  "runtime_execute r steps sources fail =
    (case effect_plan_validate steps of
       Inl e \<Rightarrow> (r, Inl (RtEffect e))
     | Inr _ \<Rightarrow> (case snapshot_all r Map.empty (rt_slots r) of
           (r', Inl e) \<Rightarrow> (r', Inl e)
         | (r', Inr snaps) \<Rightarrow>
             (case rbind (try_fold (\<lambda>_. check_live_target r') () steps) (\<lambda>_.
                   rbind (try_fold (run_candidate sources fail) (snaps, []) steps) (\<lambda>(_, candidates).
                   rbind (commit_candidates r' candidates) (\<lambda>r''. Inr (r'', map fst candidates)))) of
                Inl e \<Rightarrow> (r', Inl e)
              | Inr (r'', states) \<Rightarrow> (r'', Inr states))))"

subsection \<open>Executing a batch\<close>

definition overridden_sources :: "'l batch_entry \<Rightarrow> nat list" where
  "overridden_sources e =
     map (\<lambda>s. bs_buffer (es_reads s ! 1)) (filter (\<lambda>s. be_sources e (es_id s) \<noteq> None) (be_plan e))"

definition persistent_buffers :: "'l batch_entry \<Rightarrow> nat list" where
  "persistent_buffers e = concat (map (\<lambda>s. [bs_buffer (es_write s), bs_buffer (es_reads s ! 0)] @
     (if be_sources e (es_id s) = None then [bs_buffer (es_reads s ! 1)] else [])) (be_plan e))"

text \<open>The starts of an entry are the states earlier entries produced, or the persistent ones.\<close>

fun batch_starts ::
  "'l runtime \<Rightarrow> 'l snapshots \<Rightarrow> (nat \<rightharpoonup> buffer_state) \<Rightarrow> 'l batch_entry \<Rightarrow> nat list \<Rightarrow>
   'l runtime \<times> (runtime_error, 'l snapshots) result" where
  "batch_starts r snaps produced e [] = (r, Inr snaps)"
| "batch_starts r snaps produced e (buffer # rest) =
    (let start = the (be_starts e buffer) in
     if buffer \<in> set (overridden_sources e) \<and> buffer \<notin> set (persistent_buffers e)
     then batch_starts r snaps produced e rest
     else case produced buffer of
       Some previous \<Rightarrow> if previous \<noteq> start then (r, Inl (StaleState buffer (bs_version start)))
         else batch_starts r snaps produced e rest
     | None \<Rightarrow> (case map_of (rt_slots r) buffer of
           None \<Rightarrow> (r, Inl (RtMissingBuffer buffer))
         | Some ps \<Rightarrow> if ps_state ps \<noteq> start then (r, Inl (StaleState buffer (bs_version start)))
             else (case runtime_snapshot r start of
                 (r', Inl err) \<Rightarrow> (r', Inl err)
               | (r', Inr (_, t)) \<Rightarrow> batch_starts r' (snaps((buffer, bs_version start) \<mapsto> t)) produced e rest)))"

definition produce :: "'l batch_entry \<Rightarrow> (nat \<rightharpoonup> buffer_state) \<Rightarrow> effect_step \<Rightarrow> (runtime_error, nat \<rightharpoonup> buffer_state) result" where
  "produce e produced s =
    (let w = es_write s; start = the (be_starts e (bs_buffer w)) in
     rbind (ok_or (RtEffect EffectOverflow) (checked_add_u (bs_version start) (bs_version w))) (\<lambda>version.
     Inr (produced(bs_buffer w \<mapsto> w\<lparr>bs_version := version\<rparr>))))"

fun batch_snapshots ::
  "'l runtime \<Rightarrow> 'l snapshots \<Rightarrow> (nat \<rightharpoonup> buffer_state) \<Rightarrow> 'l batch_entry list \<Rightarrow>
   'l runtime \<times> (runtime_error, 'l snapshots) result" where
  "batch_snapshots r snaps produced [] = (r, Inr snaps)"
| "batch_snapshots r snaps produced (e # rest) =
    (case batch_starts r snaps produced e (sorted_list_of_set (dom (be_starts e))) of
       (r', Inl err) \<Rightarrow> (r', Inl err)
     | (r', Inr snaps') \<Rightarrow> (case try_fold (produce e) produced (be_plan e) of
           Inl err \<Rightarrow> (r', Inl err)
         | Inr produced' \<Rightarrow> batch_snapshots r' snaps' produced' rest))"

definition run_rebased ::
  "(nat \<times> nat) option \<Rightarrow> 'l candidates \<Rightarrow> 'l rebased_step \<Rightarrow> (runtime_error, 'l candidates) result" where
  "run_rebased fail state s =
    (if fail = Some (rs_entry s, rs_step s) then Inl (InjectedFailure (es_id (rs_effect s)))
     else stage_candidate state (rs_effect s) (case rs_source s of Some t \<Rightarrow> Inr t
            | None \<Rightarrow> live_snapshot (fst state) (es_reads (rs_effect s) ! 1)))"

definition runtime_execute_batch ::
  "'l runtime \<Rightarrow> 'l batch_entry list \<Rightarrow> (nat \<times> nat) option \<Rightarrow>
   'l runtime \<times> (runtime_error, buffer_state list) result" where
  "runtime_execute_batch r entries fail =
    (case rebased_steps entries of
       Inl e \<Rightarrow> (r, Inl (RtEffect e))
     | Inr steps \<Rightarrow> (case batch_snapshots r Map.empty Map.empty entries of
           (r', Inl e) \<Rightarrow> (r', Inl e)
         | (r', Inr snaps) \<Rightarrow>
             (case rbind (try_fold (\<lambda>_ s. check_live_target r' (rs_effect s)) () steps) (\<lambda>_.
                   rbind (try_fold (run_rebased fail) (snaps, []) steps) (\<lambda>(_, candidates).
                   rbind (commit_candidates r' candidates) (\<lambda>r''. Inr (r'', map fst candidates)))) of
                Inl e \<Rightarrow> (r', Inl e)
              | Inr (r'', states) \<Rightarrow> (r'', Inr states))))"

subsection \<open>Recurrent transactions\<close>

datatype bank_mode = Replace | Retain

datatype 'e recurrent_error = RecRuntime runtime_error | RecStage 'e | RecContract string

definition from_bank_error :: "'e bank_error \<Rightarrow> 'e recurrent_error" where
  "from_bank_error e = (case e of BankHost h \<Rightarrow> RecRuntime (RtHost h) | BankStage x \<Rightarrow> RecStage x)"

definition check_frontier ::
  "'l runtime \<Rightarrow> nat list \<times> lease list \<Rightarrow> buffer_state \<Rightarrow> ('e recurrent_error, nat list \<times> lease list) result" where
  "check_frontier r acc st =
    (let (seen, leases) = acc in
     rbind (map_err (RecRuntime \<circ> RtEffect) (validate_buffer_state st)) (\<lambda>_.
     if bs_buffer st \<in> set seen then Inl (RecContract ''active state frontier contains duplicate buffers'')
     else rbind (map_err RecRuntime (slot_for r st)) (\<lambda>ps. Inr (bs_buffer st # seen, leases @ [ps_lease ps]))))"

definition with_active_state_tensors ::
  "'l runtime \<Rightarrow> buffer_state list \<Rightarrow> ((nat \<times> nat \<times> 'l tensor) list \<Rightarrow> ('e, 't) result) \<Rightarrow>
   ('e recurrent_error, 't) result" where
  "with_active_state_tensors r states read =
    (if states = [] then Inl (RecContract ''active state frontier is empty'')
     else rbind (try_fold (check_frontier r) ([], []) states) (\<lambda>(_, leases).
          rbind (map_err (RecRuntime \<circ> RtHost) (active_tensors (rt_pool r) leases)) (\<lambda>reads.
          map_err RecStage (read reads))))"

definition check_transition ::
  "'l runtime \<Rightarrow> nat list \<times> bank_request list \<Rightarrow> (buffer_state \<times> buffer_state) \<times> bank_mode \<Rightarrow>
   ('e recurrent_error, nat list \<times> bank_request list) result" where
  "check_transition r acc cnm =
    (let (seen, requests) = acc; ((current, next_state), mode) = cnm in
     rbind (map_err (RecRuntime \<circ> RtEffect) (validate_buffer_state current)) (\<lambda>_.
     rbind (map_err (RecRuntime \<circ> RtEffect) (validate_buffer_state next_state)) (\<lambda>_.
     if bs_buffer current \<noteq> bs_buffer next_state \<or> \<not> same_descriptor current next_state \<or>
        checked_add_u (bs_version current) 1 \<noteq> Some (bs_version next_state) \<or> bs_buffer current \<in> set seen
     then Inl (RecContract ''recurrent replacement state mismatch'')
     else rbind (map_err RecRuntime (slot_for r current)) (\<lambda>ps.
          Inr (bs_buffer current # seen, requests @ [lease_request (ps_lease ps) (mode = Retain)])))))"

definition publish_states :: "buffer_state list \<Rightarrow> (nat \<times> persistent_slot) list \<Rightarrow> (nat \<times> persistent_slot) list" where
  "publish_states states slots =
     map (\<lambda>(b, ps). (b, case map_of (map (\<lambda>st. (bs_buffer st, st)) states) b of
       Some st \<Rightarrow> ps\<lparr>ps_state := st\<rparr> | None \<Rightarrow> ps)) slots"

definition transact_retaining ::
  "(dtype \<Rightarrow> 'l) \<Rightarrow> 'l runtime \<Rightarrow> buffer_state list \<Rightarrow> buffer_state list \<Rightarrow> bank_mode list \<Rightarrow> ('l, 'e, 't) stage \<Rightarrow>
   'l runtime \<times> ('e recurrent_error, 't) result" where
  "transact_retaining zero r current next_states modes stage =
    (if current = [] \<or> length current \<noteq> length next_states \<or> length current \<noteq> length modes
     then (r, Inl (RecContract ''recurrent replacement frontier cardinality mismatch''))
     else case try_fold (check_transition r) ([], []) (zip (zip current next_states) modes) of
       Inl e \<Rightarrow> (r, Inl e)
     | Inr (_, requests) \<Rightarrow> (case host_transact zero False (rt_pool r) requests stage of
           (p, Inl e) \<Rightarrow> (r\<lparr>rt_pool := p\<rparr>, Inl (from_bank_error e))
         | (p, Inr x) \<Rightarrow> (\<lparr>rt_pool = p, rt_slots = publish_states next_states (rt_slots r)\<rparr>, Inr x)))"

subsection \<open>Prepared recurrent transactions\<close>

record transaction_schema =
  ts_owner :: nat
  ts_initial :: "buffer_state list"
  ts_modes :: "bank_mode list"

datatype prepare_error = PrepareOwner | PrepareCardinality | PrepareDescriptor | PrepareVersionOverflow

text \<open>A prepared transaction is its schema and the admitted frontier.\<close>

record prepared_transaction =
  pt_schema :: transaction_schema
  pt_current :: "buffer_state list"

definition check_schema_state :: "nat option \<Rightarrow> buffer_state \<Rightarrow> (string, nat option) result" where
  "check_schema_state previous st =
     rbind (map_err (\<lambda>_. ''recurrent replacement state mismatch'') (validate_buffer_state st)) (\<lambda>_.
     if (case previous of Some b \<Rightarrow> bs_buffer st \<le> b | None \<Rightarrow> False)
     then Inl ''recurrent replacement state mismatch'' else Inr (Some (bs_buffer st)))"

definition schema_new ::
  "nat \<Rightarrow> buffer_state list \<Rightarrow> bank_mode list \<Rightarrow> (string, transaction_schema) result" where
  "schema_new own initial modes =
    (if initial = [] \<or> length initial \<noteq> length modes then Inl ''recurrent replacement frontier cardinality mismatch''
     else rbind (try_fold check_schema_state None initial) (\<lambda>_.
          Inr \<lparr>ts_owner = own, ts_initial = initial, ts_modes = modes\<rparr>))"

definition schema_prepare ::
  "transaction_schema \<Rightarrow> nat \<Rightarrow> buffer_state list \<Rightarrow> (prepare_error, prepared_transaction) result" where
  "schema_prepare s own current =
    (if ts_owner s \<noteq> own then Inl PrepareOwner
     else if length current \<noteq> length (ts_initial s) then Inl PrepareCardinality
     else if list_ex (\<lambda>(actual, initial). bs_buffer actual \<noteq> bs_buffer initial \<or> bs_version actual < bs_version initial \<or>
            \<not> same_descriptor actual initial) (zip current (ts_initial s))
     then Inl PrepareDescriptor
     else if list_ex (\<lambda>st. checked_add_u (bs_version st) 1 = None) current then Inl PrepareVersionOverflow
     else Inr \<lparr>pt_schema = s, pt_current = current\<rparr>)"

definition advance :: "buffer_state \<Rightarrow> buffer_state" where
  "advance st = st\<lparr>bs_version := the (checked_add_u (bs_version st) 1)\<rparr>"

definition advance_all :: "prepared_transaction \<Rightarrow> buffer_state list" where
  "advance_all t = map advance (pt_current t)"

definition transact_frontier ::
  "(dtype \<Rightarrow> 'l) \<Rightarrow> 'l runtime \<Rightarrow> prepared_transaction \<Rightarrow> ('l, 'e, 't) stage \<Rightarrow>
   'l runtime \<times> ('e recurrent_error, 't) result" where
  "transact_frontier zero r t stage =
    (let current = pt_current t; modes = ts_modes (pt_schema t) in
     if \<not> (length current = length (rt_slots r) \<and> map bs_buffer current = map fst (rt_slots r))
     then transact_retaining zero r current (map (\<lambda>st. st\<lparr>bs_version := bs_version (advance st)\<rparr>) current) modes stage
     else case try_map (\<lambda>(((current, initial), mode), (b, ps)).
            if ps_state ps \<noteq> current then Inl (RecRuntime (stale current))
            else Inr (lease_request (ps_lease ps) (mode = Retain)))
            (zip (zip (zip current (ts_initial (pt_schema t))) modes) (rt_slots r)) of
       Inl e \<Rightarrow> (r, Inl e)
     | Inr requests \<Rightarrow> (case host_transact zero True (rt_pool r) requests stage of
           (p, Inl e) \<Rightarrow> (r\<lparr>rt_pool := p\<rparr>, Inl (from_bank_error e))
         | (p, Inr x) \<Rightarrow> (\<lparr>rt_pool = p, rt_slots = map (\<lambda>(ordinal, (b, ps)).
               (b, ps\<lparr>ps_state := (ps_state ps)\<lparr>bs_version := bs_version (advance (current ! ordinal))\<rparr>\<rparr>))
               (enumerate 0 (rt_slots r))\<rparr>, Inr x)))"

end
