(* ===== verification/HostBankTheorems.thy ===== *)
theory HostBankTheorems
  imports HostBanks
begin

section \<open>Bank transactions are atomic, on both paths\<close>

subsection \<open>What a transaction needs of its requests\<close>

definition slot_fits :: "'l slot \<Rightarrow> bank_request \<Rightarrow> bool" where
  "slot_fits sl r \<longleftrightarrow> sl_generation sl = br_generation r \<and> sl_leased sl \<and> sl_views sl = 0 \<and> \<not> sl_window sl \<and>
     sl_descriptor sl = Some (br_descriptor r) \<and>
     (br_retain r \<or> is_ok (numel (hd_shape (br_descriptor r))) \<or>
      (\<exists>t. sl_banks sl (\<not> sl_active sl) = Some t \<and> matches_desc t (br_descriptor r)))"

definition blank :: "(dtype \<Rightarrow> 'l) \<Rightarrow> host_desc \<Rightarrow> 'l tensor" where
  "blank zero d = projr (zeros_with_dtype zero (hd_shape d) (hd_dtype d))"

text \<open>The inactive bank the callback finds.\<close>

definition spare_bank :: "(dtype \<Rightarrow> 'l) \<Rightarrow> 'l slot \<Rightarrow> bank_request \<Rightarrow> 'l tensor" where
  "spare_bank zero sl r = (case sl_banks sl (\<not> sl_active sl) of
     Some t \<Rightarrow> if matches_desc t (br_descriptor r) then t else blank zero (br_descriptor r)
   | None \<Rightarrow> blank zero (br_descriptor r))"

definition prepared :: "(dtype \<Rightarrow> 'l) \<Rightarrow> bank_request \<Rightarrow> 'l slot \<Rightarrow> 'l slot" where
  "prepared zero r sl = (if br_retain r then sl else fill_bank (spare_bank zero sl r) sl)"

lemma zeros_ok: "is_ok (numel s) \<Longrightarrow> \<exists>t. zeros_with_dtype zero s d = Inr t"
  by (auto simp: zeros_with_dtype_def from_storage_def is_ok_iff)

lemma zeros_Inr: "zeros_with_dtype zero s d = Inr t \<Longrightarrow> is_ok (numel s)"
  by (auto simp: zeros_with_dtype_def is_ok_iff result_simps)

lemma fill_same: "sl_banks sl (\<not> sl_active sl) = Some t \<Longrightarrow> fill_bank t sl = sl"
  by (simp add: fill_bank_def fun_upd_idem)

lemma prepare_Inr_iff:
  "prepare_bank_slot zero sl r = Inr sl' \<longleftrightarrow> slot_fits sl r \<and> sl' = prepared zero r sl"
proof -
  let ?d = "br_descriptor r" and ?old = "sl_banks sl (\<not> sl_active sl)"
  have zero: "zeros_with_dtype zero (hd_shape ?d) (hd_dtype ?d) = Inr t \<longleftrightarrow>
      is_ok (numel (hd_shape ?d)) \<and> t = blank zero ?d" for t
    using zeros_ok [of "hd_shape ?d" zero "hd_dtype ?d"] zeros_Inr [of zero "hd_shape ?d" "hd_dtype ?d"]
    by (auto simp: blank_def)
  show ?thesis
  proof (cases "br_retain r \<or> (\<exists>t. ?old = Some t \<and> matches_desc t ?d)")
    case True
    then have "prepared zero r sl = sl" by (auto simp: prepared_def spare_bank_def fill_same)
    with True show ?thesis by (auto simp: prepare_bank_slot_def slot_fits_def split: option.splits)
  next
    case False
    then have none: "case ?old of None \<Rightarrow> True | Some t \<Rightarrow> \<not> matches_desc t ?d" and "\<not> br_retain r"
      by (auto split: option.splits)
    moreover from this have "prepared zero r sl = fill_bank (blank zero ?d) sl"
      by (auto simp: prepared_def spare_bank_def split: option.splits)
    ultimately show ?thesis using False
      by (auto simp: prepare_bank_slot_def slot_fits_def result_simps zero fill_bank_def)
  qed
qed

text \<open>Nothing a reader can see changes while a transaction is prepared or staged.\<close>

definition same_front :: "'l slot \<Rightarrow> 'l slot \<Rightarrow> bool" where
  "same_front sl sl' \<longleftrightarrow> (\<exists>x. sl' = sl\<lparr>sl_banks := (sl_banks sl)(\<not> sl_active sl := x)\<rparr>)"

definition rear_only :: "'l pool \<Rightarrow> 'l pool \<Rightarrow> bool" where
  "rear_only p q \<longleftrightarrow> po_id q = po_id p \<and> (\<forall>s. rel_option same_front (po_slots p s) (po_slots q s))"

lemma same_front_refl: "same_front sl sl"
  unfolding same_front_def by (rule exI [of _ "sl_banks sl (\<not> sl_active sl)"]) simp

lemma same_front_trans: "same_front a b \<Longrightarrow> same_front b c \<Longrightarrow> same_front a c"
  by (auto simp: same_front_def)

lemma same_front_fill: "same_front sl (fill_bank t sl)"
  by (auto simp: same_front_def fill_bank_def)

lemma same_front_prepared: "same_front sl (prepared zero r sl)"
  by (simp add: prepared_def same_front_refl same_front_fill)

lemma rear_only_refl: "rear_only p p"
  by (simp add: rear_only_def option.rel_refl same_front_refl)

lemma rear_only_trans:
  assumes "rear_only p q" and "rear_only q r"
  shows "rear_only p r"
proof -
  have "rel_option same_front (po_slots p s) (po_slots r s)" for s
    using assms [unfolded rear_only_def, THEN conjunct2, THEN spec, of s]
    by (cases "po_slots p s"; cases "po_slots q s"; cases "po_slots r s") (auto intro: same_front_trans)
  with assms show ?thesis by (simp add: rear_only_def)
qed

lemma rear_only_alter: "(\<And>sl. same_front sl (f sl)) \<Longrightarrow> rear_only p (alter_slot k f p)"
  by (auto simp: rear_only_def option.rel_map intro!: option.rel_refl same_front_refl)

lemma rear_only_set:
  "po_slots p k = Some sl \<Longrightarrow> same_front sl sl' \<Longrightarrow> rear_only p (set_slot p k sl')"
  by (auto simp: rear_only_def intro!: option.rel_refl same_front_refl)

lemma rear_only_visible: "rear_only p q \<Longrightarrow> visible q = visible p"
proof
  fix s
  assume "rear_only p q"
  then have "rel_option same_front (po_slots p s) (po_slots q s)" by (simp add: rear_only_def)
  then show "visible q s = visible p s" by (cases rule: option.rel_cases) (auto simp: visible_def same_front_def)
qed

lemma rear_only_dom: "rear_only p q \<Longrightarrow> dom (po_slots q) = dom (po_slots p)"
  by (force simp: rear_only_def dom_def option.rel_sel)

lemma rear_only_keys: "rear_only p q \<Longrightarrow> slot_keys q = slot_keys p"
  by (simp add: slot_keys_def rear_only_dom)

lemma rear_only_keep: "rear_only p (fold (keep_bank rs) banks p)"
proof (induction banks arbitrary: p)
  case (Cons b banks)
  have "rear_only p (keep_bank rs b p)"
    by (auto simp: keep_bank_def rear_only_refl intro: rear_only_alter same_front_fill split: option.split)
  with Cons show ?case by (auto intro: rear_only_trans)
qed (simp add: rear_only_refl)

subsection \<open>Preparation\<close>

definition request_ok :: "'l pool \<Rightarrow> bank_request \<Rightarrow> bool" where
  "request_ok p r \<longleftrightarrow> br_owner r = po_id p \<and> (\<exists>sl. po_slots p (br_slot r) = Some sl \<and> slot_fits sl r)"

definition prepared_pool :: "(dtype \<Rightarrow> 'l) \<Rightarrow> bank_request list \<Rightarrow> 'l pool \<Rightarrow> 'l pool" where
  "prepared_pool zero rs = fold (\<lambda>r. alter_slot (br_slot r) (prepared zero r)) rs"

lemma request_ok_alter: "br_slot r \<noteq> k \<Longrightarrow> request_ok (alter_slot k f p) r \<longleftrightarrow> request_ok p r"
  by (simp add: request_ok_def)

lemma set_slot_alter: "po_slots p k = Some sl \<Longrightarrow> set_slot p k (f sl) = alter_slot k f p"
  by (simp add: set_slot_def alter_slot_def)

lemma map_add_late: "f k = None \<Longrightarrow> m(k \<mapsto> v) ++ f = m ++ f(k \<mapsto> v)"
  by (auto simp: map_add_def fun_eq_iff split: option.splits)

lemma prepare_requested_Inr_iff:
  "prepare_requested zero p m (enumerate n rs) = (q, Inr m') \<longleftrightarrow>
     distinct (map br_slot rs) \<and> (\<forall>r \<in> set rs. m (br_slot r) = None \<and> request_ok p r) \<and>
     q = prepared_pool zero rs p \<and> m' = m ++ map_of (zip (map br_slot rs) [n..<n + length rs])"
proof (induction rs arbitrary: p m n)
  case Nil
  show ?case by (auto simp: prepared_pool_def)
next
  case (Cons r rs)
  let ?k = "br_slot r" and ?step = "alter_slot (br_slot r) (prepared zero r)"
  show ?case
  proof (cases "m ?k = None \<and> request_ok p r")
    case True
    then obtain sl where sl: "po_slots p ?k = Some sl" "slot_fits sl r" and own: "br_owner r = po_id p"
      by (auto simp: request_ok_def)
    then have "prepare_bank_slot zero sl r = Inr (prepared zero r sl)" by (simp add: prepare_Inr_iff)
    with True sl own have step: "prepare_requested zero p m (enumerate n (r # rs)) =
        prepare_requested zero (?step p) (m(?k \<mapsto> n)) (enumerate (Suc n) rs)"
      by (simp add: set_slot_alter [symmetric])
    have upd: "m(?k \<mapsto> n) ++ map_of (zip (map br_slot rs) [Suc n..<Suc n + length rs]) =
        m ++ map_of (zip (map br_slot (r # rs)) [n..<n + length (r # rs)])" if "?k \<notin> br_slot ` set rs"
    proof -
      have "[n..<n + length (r # rs)] = n # [Suc n..<Suc n + length rs]" by (simp add: upt_conv_Cons del: upt_Suc)
      moreover have "map_of (zip (map br_slot rs) xs) ?k = None" for xs :: "nat list"
        using that by (auto simp: map_of_eq_None_iff dest: set_zip_leftD)
      ultimately show ?thesis
        by (simp only: list.map zip_Cons_Cons map_of.simps fst_conv snd_conv map_add_late)
    qed
    have fresh: "(\<forall>r' \<in> set rs. (m(?k \<mapsto> n)) (br_slot r') = None \<and> request_ok (?step p) r') \<longleftrightarrow>
        ?k \<notin> br_slot ` set rs \<and> (\<forall>r' \<in> set rs. m (br_slot r') = None \<and> request_ok p r')"
      using request_ok_alter [of _ ?k "prepared zero r" p] by (auto simp: image_iff split: if_splits)
    have split: "prepared_pool zero (r # rs) p = prepared_pool zero rs (?step p)"
      "(\<forall>r' \<in> set (r # rs). m (br_slot r') = None \<and> request_ok p r') \<longleftrightarrow>
         (\<forall>r' \<in> set rs. m (br_slot r') = None \<and> request_ok p r')"
      "distinct (map br_slot (r # rs)) \<longleftrightarrow> ?k \<notin> br_slot ` set rs \<and> distinct (map br_slot rs)"
      using True by (simp_all add: prepared_pool_def)
    show ?thesis
      unfolding step Cons.IH fresh split using upd by (cases "?k \<in> br_slot ` set rs") (simp_all only: simp_thms)
  next
    case False
    then show ?thesis
      by (auto simp: request_ok_def prepare_Inr_iff split: option.splits sum.splits if_splits)
  qed
qed

lemma prepare_requested_rear: "rear_only p (fst (prepare_requested zero p m xs))"
proof (induction xs arbitrary: p m)
  case (Cons x rest)
  obtain ordinal r where x: "x = (ordinal, r)" by (cases x)
  show ?case
  proof (cases "\<exists>sl sl'. br_owner r = po_id p \<and> m (br_slot r) = None \<and> po_slots p (br_slot r) = Some sl \<and>
      prepare_bank_slot zero sl r = Inr sl'")
    case True
    then obtain sl sl' where sl: "br_owner r = po_id p" "m (br_slot r) = None" "po_slots p (br_slot r) = Some sl"
      "prepare_bank_slot zero sl r = Inr sl'" by blast
    then have "same_front sl sl'" by (simp add: prepare_Inr_iff same_front_prepared)
    with sl have "rear_only p (set_slot p (br_slot r) sl')" by (intro rear_only_set)
    from rear_only_trans [OF this Cons.IH] sl x show ?thesis by simp
  next
    case False
    then have "fst (prepare_requested zero p m (x # rest)) = p"
      unfolding x by (auto split: option.split sum.split)
    then show ?thesis by (simp only: rear_only_refl)
  qed
qed (simp add: rear_only_refl)

text \<open>With the slots in the order of the requests, both paths prepare alike.\<close>

lemma prepare_ordered_eq:
  "distinct (map br_slot rs) \<Longrightarrow> (\<forall>r \<in> set rs. m (br_slot r) = None \<and> br_slot r \<in> dom (po_slots p)) \<Longrightarrow>
   prepare_ordered zero p (zip rs (map br_slot rs)) =
     (case prepare_requested zero p m (enumerate n rs) of (q, res) \<Rightarrow> (q, rbind res (\<lambda>_. Inr ())))"
proof (induction rs arbitrary: p m n)
  case (Cons r rs)
  from Cons.prems obtain sl where sl: "po_slots p (br_slot r) = Some sl" "m (br_slot r) = None" by auto
  show ?case
  proof (cases "br_owner r = po_id p")
    case True
    show ?thesis
    proof (cases "prepare_bank_slot zero sl r")
      case (Inr sl')
      have "prepare_ordered zero (set_slot p (br_slot r) sl') (zip rs (map br_slot rs)) =
          (case prepare_requested zero (set_slot p (br_slot r) sl') (m(br_slot r \<mapsto> n)) (enumerate (Suc n) rs) of
             (q, res) \<Rightarrow> (q, rbind res (\<lambda>_. Inr ())))"
        using Cons.prems by (intro Cons.IH) (auto simp: image_iff)
      with True Inr sl show ?thesis by simp
    qed (use True sl in simp)
  qed (use sl in simp)
qed simp

subsection \<open>The ordered path\<close>

lemma slot_keys_distinct: "distinct (slot_keys p)"
  by (simp add: slot_keys_def)

lemma ordered_frontier_keys:
  assumes "ordered_frontier p rs"
  shows "slot_keys p = map br_slot rs"
proof (rule sym, rule nth_equalityI)
  fix i assume i: "i < length (map br_slot rs)"
  with assms have "list_all (\<lambda>(r, k). br_slot r = k) (zip rs (slot_keys p))" "i < length (zip rs (slot_keys p))"
    by (simp_all add: ordered_frontier_def)
  from this(1) [unfolded list_all_length, rule_format, OF this(2)] i
  show "map br_slot rs ! i = slot_keys p ! i" using assms by (simp add: ordered_frontier_def)
qed (use assms in \<open>simp add: ordered_frontier_def\<close>)

lemma slot_keys_dom: "k \<in> set (slot_keys p) \<Longrightarrow> k \<in> dom (po_slots p)"
  unfolding slot_keys_def by (metis empty_iff list.set(1) set_sorted_list_of_set sorted_list_of_set.fold_insort_key.infinite)

lemma bank_of_ordinal: "bank_of p rs ko = Inr b \<Longrightarrow> bk_ordinal b = snd ko"
  by (auto simp: bank_of_def result_simps Let_def split: prod.splits)

lemma bank_of_ordinals:
  assumes "try_map (bank_of p rs) kos = Inr banks"
  shows "map bk_ordinal banks = map snd kos"
  using assms by (intro nth_equalityI) (auto simp: try_map_Inr_iff bank_of_ordinal)

lemma map_of_zip_nth: "distinct ks \<Longrightarrow> i < length ks \<Longrightarrow> map_of (zip ks [0..<length ks]) (ks ! i) = Some i"
  by (simp add: map_of_zip_nth)

lemma requested_inputs:
  assumes "distinct ks"
  shows "map (\<lambda>k. (k, the (map_of (zip ks [0..<length ks]) k))) (filter (\<lambda>k. map_of (zip ks [0..<length ks]) k \<noteq> None) ks)
    = zip ks [0..<length ks]"
proof -
  have "filter (\<lambda>k. map_of (zip ks [0..<length ks]) k \<noteq> None) ks = ks"
    by (rule filter_True) (use assms in \<open>auto simp: in_set_conv_nth map_of_zip_nth\<close>)
  then show ?thesis using assms by (intro nth_equalityI) (simp_all add: map_of_zip_nth)
qed

lemma filter_zip_map: "map snd (filter (\<lambda>(r, k). P r) (zip rs (map f rs))) = map f (filter P rs)"
  by (induction rs) auto

lemma transact_prepared_ordered:
  assumes "slot_keys p = map br_slot rs"
  shows "transact_prepared True Map.empty p rs stage =
    transact_prepared False (map_of (zip (map br_slot rs) [0..<length rs])) p rs stage"
proof -
  let ?ks = "map br_slot rs"
  have dist: "distinct ?ks" using slot_keys_distinct [of p] assms by simp
  have inputs: "map (\<lambda>k. (k, the (map_of (zip ?ks [0..<length rs]) k)))
      (filter (\<lambda>k. map_of (zip ?ks [0..<length rs]) k \<noteq> None) ?ks) = zip ?ks [0..<length rs]"
    using requested_inputs [OF dist] by simp
  have sorted: "sort_key bk_ordinal banks = banks" if "try_map (bank_of p rs) (zip ?ks [0..<length rs]) = Inr banks" for banks
    using bank_of_ordinals [OF that] by (intro sort_key_id_if_sorted) simp
  have keys: "slot_keys (fold (keep_bank rs) banks p) = ?ks" for banks
    by (simp only: rear_only_keys [OF rear_only_keep] assms)
  show ?thesis
    unfolding transact_prepared_def assms inputs if_True if_False length_map
    by (cases "try_map (bank_of p rs) (zip ?ks [0..<length rs])")
      (simp_all add: sorted keys filter_zip_map Let_def split: prod.split sum.split)
qed

lemma transact_ordered_eq: "host_transact zero True p rs stage = host_transact zero False p rs stage"
proof (cases "ordered_frontier p rs")
  case True
  note keys = ordered_frontier_keys [OF True]
  have dist: "distinct (map br_slot rs)" using slot_keys_distinct [of p] keys by simp
  have "\<forall>r \<in> set rs. br_slot r \<in> set (slot_keys p)" by (simp add: keys)
  then have known: "\<forall>r \<in> set rs. Map.empty (br_slot r) = None \<and> br_slot r \<in> dom (po_slots p)"
    using slot_keys_dom [of _ p] by simp
  obtain q res where req: "prepare_requested zero p Map.empty (enumerate 0 rs) = (q, res)" by fastforce
  have same: "slot_keys q = slot_keys p" using rear_only_keys prepare_requested_rear [of p zero Map.empty "enumerate 0 rs"] req by fastforce
  show ?thesis
  proof (cases res)
    case (Inl e)
    with True req show ?thesis by (simp add: host_transact_def keys prepare_ordered_eq [OF dist known, of zero 0])
  next
    case (Inr m)
    from prepare_requested_Inr_iff [of zero p Map.empty 0 rs q m] req Inr
    have m: "m = map_of (zip (map br_slot rs) [0..<length rs])" by simp
    from True req Inr show ?thesis
      by (simp add: host_transact_def keys prepare_ordered_eq [OF dist known, of zero 0] m
          transact_prepared_ordered [OF same [unfolded keys]])
  qed
qed (simp add: host_transact_def)

subsection \<open>What the callback sees\<close>

definition offered :: "(dtype \<Rightarrow> 'l) \<Rightarrow> 'l pool \<Rightarrow> bank_request list \<Rightarrow> 'l bank list" where
  "offered zero p rs = map (\<lambda>(i, r). \<lparr>bk_ordinal = i, bk_buffer = hd_id (br_descriptor r),
     bk_active = the (visible p (br_slot r)),
     bk_inactive = (if br_retain r then None else Some (spare_bank zero (the (po_slots p (br_slot r))) r))\<rparr>) (enumerate 0 rs)"

lemma prepared_pool_slots:
  assumes "distinct (map br_slot rs)"
  shows "po_slots (prepared_pool zero rs p) s =
     (case map_of (map (\<lambda>r. (br_slot r, r)) rs) s of None \<Rightarrow> po_slots p s | Some r \<Rightarrow> map_option (prepared zero r) (po_slots p s))"
proof -
  have "map_of (map (\<lambda>r. (br_slot r, prepared zero r)) rs) s = map_option (prepared zero) (map_of (map (\<lambda>r. (br_slot r, r)) rs) s)"
    by (induction rs) auto
  then show ?thesis
    unfolding prepared_pool_def by (simp add: fold_alter [OF assms] split: option.split)
qed

lemma map_of_requests:
  "distinct (map br_slot rs) \<Longrightarrow> r \<in> set rs \<Longrightarrow> map_of (map (\<lambda>r. (br_slot r, f r)) rs) (br_slot r) = Some (f r)"
  by (induction rs) (auto simp: image_iff)

lemma prepared_at:
  "distinct (map br_slot rs) \<Longrightarrow> r \<in> set rs \<Longrightarrow>
   po_slots (prepared_pool zero rs p) (br_slot r) = map_option (prepared zero r) (po_slots p (br_slot r))"
  by (simp add: prepared_pool_slots map_of_requests)

lemma prepared_pool_rear: "rear_only p (prepared_pool zero rs p)"
  unfolding prepared_pool_def
proof (induction rs arbitrary: p)
  case (Cons r rs)
  have "rear_only p (alter_slot (br_slot r) (prepared zero r) p)" by (rule rear_only_alter) (rule same_front_prepared)
  from rear_only_trans [OF this Cons.IH] show ?case by simp
qed (simp add: rear_only_refl)

text \<open>Sorting the banks by ordinal restores the order of the requests.\<close>

lemma sorted_banks:
  assumes dist: "distinct (map br_slot rs)" and m: "m = map_of (zip (map br_slot rs) [0..<length rs])"
    and banks: "try_map (bank_of q rs) (map (\<lambda>k. (k, the (m k))) (filter (\<lambda>k. m k \<noteq> None) (slot_keys q))) = Inr banks"
    and len: "length banks = length rs"
  shows "try_map (bank_of q rs) (zip (map br_slot rs) [0..<length rs]) = Inr (sort_key bk_ordinal banks)"
proof -
  let ?ks = "map br_slot rs" and ?n = "length rs"
  define kos where "kos = map (\<lambda>k. (k, the (m k))) (filter (\<lambda>k. m k \<noteq> None) (slot_keys q))"
  have mem: "\<exists>i < ?n. ko = (?ks ! i, i)" if ko: "ko \<in> set kos" for ko
  proof -
    from ko obtain k i where "ko = (k, i)" "m k = Some i" by (auto simp: kos_def)
    then have "(k, i) \<in> set (zip ?ks [0..<?n])" unfolding m by (auto dest: map_of_SomeD)
    with \<open>ko = (k, i)\<close> show ?thesis by (auto simp: set_zip)
  qed
  have "distinct (map fst kos)" by (simp add: kos_def comp_def slot_keys_distinct)
  have inj: "inj_on snd (set kos)"
  proof (rule inj_onI)
    fix a b assume "a \<in> set kos" "b \<in> set kos" "snd a = snd b"
    with mem [of a] mem [of b] show "a = b" by auto
  qed
  have ords: "map bk_ordinal banks = map snd kos" using bank_of_ordinals [OF banks] by (simp add: kos_def)
  have "distinct kos" using \<open>distinct (map fst kos)\<close> by (simp add: distinct_map)
  then have dist_ord: "distinct (map bk_ordinal banks)" unfolding ords using inj by (simp add: distinct_map)
  have "set (map bk_ordinal banks) \<subseteq> {0..<?n}" unfolding ords using mem by fastforce
  moreover have "card (set (map bk_ordinal banks)) = ?n" using distinct_card [OF dist_ord] len by simp
  ultimately have all: "set (map bk_ordinal banks) = {0..<?n}" by (intro card_subset_eq) simp_all
  define L where "L = sort_key bk_ordinal banks"
  have ordinals: "map bk_ordinal L = [0..<?n]"
  proof (rule sorted_distinct_set_unique)
    have "mset (map bk_ordinal L) = mset (map bk_ordinal banks)" by (simp add: L_def)
    with dist_ord show "distinct (map bk_ordinal L)" by (metis mset_eq_imp_distinct_iff)
    show "sorted (map bk_ordinal L)" by (simp add: L_def)
    show "set (map bk_ordinal L) = set [0..<?n]" using all by (simp add: L_def)
  qed simp_all
  have "bk_ordinal (L ! i) = i" if "i < ?n" for i
    using arg_cong [OF ordinals, of "\<lambda>xs. xs ! i"] that len by (simp add: L_def)
  note nth = this
  have lenL: "length L = ?n" using len by (simp add: L_def)
  have "bank_of q rs (?ks ! i, i) = Inr (L ! i)" if i: "i < ?n" for i
  proof -
    have "L ! i \<in> set banks" using i lenL nth_mem [of i L] by (simp add: L_def)
    from try_map_memD [OF banks [folded kos_def] this] obtain ko where
      ko: "ko \<in> set kos" "bank_of q rs ko = Inr (L ! i)" by blast
    with mem [OF ko(1)] bank_of_ordinal [OF ko(2)] nth [OF i] show ?thesis by auto
  qed
  then show ?thesis unfolding try_map_Inr_iff L_def [symmetric] using lenL by simp
qed

lemma offered_prepared:
  assumes dist: "distinct (map br_slot rs)" and ok: "\<forall>r \<in> set rs. request_ok p r"
    and banks: "try_map (bank_of (prepared_pool zero rs p) rs) (zip (map br_slot rs) [0..<length rs]) = Inr banks"
  shows "banks = offered zero p rs \<and> (\<forall>r \<in> set rs. visible p (br_slot r) \<noteq> None)"
proof -
  let ?q = "prepared_pool zero rs p"
  have step: "visible p (br_slot (rs ! i)) \<noteq> None \<and> banks ! i = offered zero p rs ! i" if i: "i < length rs" for i
  proof -
    let ?r = "rs ! i"
    have mem: "?r \<in> set rs" using i by simp
    with ok obtain sl where sl: "po_slots p (br_slot ?r) = Some sl" by (auto simp: request_ok_def)
    have "po_slots ?q (br_slot ?r) = Some (prepared zero ?r sl)" using prepared_at [OF dist mem, of zero p] sl by simp
    moreover have "bank_of ?q rs (br_slot ?r, i) = Inr (banks ! i)" using banks i by (simp add: try_map_Inr_iff)
    ultimately show ?thesis using i sl
      by (auto simp: bank_of_def Let_def result_simps offered_def nth_enumerate_eq visible_def prepared_def fill_bank_def)
  qed
  have "length banks = length rs" using banks by (simp add: try_map_Inr_iff)
  then have "banks = offered zero p rs" using step by (intro nth_equalityI) (simp_all add: offered_def)
  with step show ?thesis by (auto simp: in_set_conv_nth)
qed

subsection \<open>What a transaction leaves\<close>

lemma transact_prepared_rear:
  "transact_prepared False m p rs stage = (p', Inl e) \<Longrightarrow> rear_only p p'"
  by (auto simp: transact_prepared_def Let_def rear_only_refl rear_only_keep
      split: sum.splits prod.splits if_splits)

lemma transact_failure:
  assumes "host_transact zero o' p rs stage = (p', Inl e)"
  shows "rear_only p p'"
proof -
  have run: "host_transact zero False p rs stage = (p', Inl e)" using assms transact_ordered_eq [of zero p rs stage] by (cases o') simp_all
  obtain q res where req: "prepare_requested zero p Map.empty (enumerate 0 rs) = (q, res)" by fastforce
  have rear: "rear_only p q" using prepare_requested_rear [of p zero Map.empty "enumerate 0 rs"] req by simp
  show ?thesis
  proof (cases res)
    case (Inl e')
    with run req rear show ?thesis by (simp add: host_transact_def)
  next
    case (Inr m)
    with run req have "transact_prepared False m q rs stage = (p', Inl e)" by (simp add: host_transact_def)
    from rear_only_trans [OF rear transact_prepared_rear [OF this]] show ?thesis .
  qed
qed

definition replaced_slot :: "(nat \<Rightarrow> 'l tensor) \<Rightarrow> nat \<times> bank_request \<Rightarrow> 'l slot \<Rightarrow> 'l slot" where
  "replaced_slot new ir sl = (if br_retain (snd ir) then sl else flip_bank (fill_bank (new (fst ir)) sl))"

text \<open>The requests by slot, with their positions.\<close>

abbreviation request_at :: "bank_request list \<Rightarrow> nat \<rightharpoonup> nat \<times> bank_request" where
  "request_at rs \<equiv> map_of (map (\<lambda>(i, r). (br_slot r, (i, r))) (enumerate 0 rs))"

lemma fill_fill: "fill_bank t (fill_bank u sl) = fill_bank t sl"
  by (simp add: fill_bank_def)

lemma request_at_iff:
  assumes "distinct (map br_slot rs)"
  shows "request_at rs s = Some (i, r) \<longleftrightarrow> i < length rs \<and> rs ! i = r \<and> br_slot r = s"
proof -
  have "distinct (map fst (map (\<lambda>(i, r). (br_slot r, (i, r))) (enumerate 0 rs)))"
    using assms by (simp add: case_prod_beta comp_def flip: map_map [of br_slot snd, unfolded comp_def])
  then show ?thesis by (auto simp: in_set_enumerate_eq image_iff intro!: bexI [of _ "(i, r)"])
qed

lemma request_at_None: "request_at rs s = None \<longleftrightarrow> s \<notin> br_slot ` set rs"
proof -
  have "fst ` set (map (\<lambda>(i, r). (br_slot r, (i, r))) (enumerate 0 rs)) = br_slot ` snd ` set (enumerate 0 rs)"
    by (force simp: image_iff)
  also have "\<dots> = br_slot ` set rs" by (metis map_snd_enumerate set_map)
  finally show ?thesis by (simp add: map_of_eq_None_iff)
qed

lemma flips_at:
  assumes "distinct (map br_slot rs)"
  shows "po_slots (fold flip_slot (map br_slot (filter (\<lambda>r. \<not> br_retain r) rs)) q) s =
    (case request_at rs s of None \<Rightarrow> po_slots q s
     | Some (i, r) \<Rightarrow> if br_retain r then po_slots q s else map_option flip_bank (po_slots q s))"
proof -
  have d: "distinct (map br_slot (filter (\<lambda>r. \<not> br_retain r) rs))" using assms by (rule distinct_map_filter)
  have e: "fold flip_slot (map br_slot (filter (\<lambda>r. \<not> br_retain r) rs)) =
      fold (\<lambda>r. alter_slot (br_slot r) flip_bank) (filter (\<lambda>r. \<not> br_retain r) rs)"
    by (simp add: fold_map comp_def flip_slot_def [abs_def])
  have m: "s \<in> br_slot ` set (filter (\<lambda>r. \<not> br_retain r) rs) \<longleftrightarrow>
      (case request_at rs s of None \<Rightarrow> False | Some (i, r) \<Rightarrow> \<not> br_retain r)"
  proof (cases "request_at rs s")
    case None
    with request_at_None show ?thesis by fastforce
  next
    case (Some ir)
    obtain i r where ir: "ir = (i, r)" by (cases ir)
    with Some request_at_iff [OF assms] have i: "i < length rs" "rs ! i = r" "br_slot r = s" by simp_all
    have rset: "r \<in> set rs" using i(1,2) by auto
    have uniq: "r' = r" if "r' \<in> set rs" "br_slot r' = s" for r'
      using that i(3) rset assms by (metis distinct_map inj_onD)
    have "s \<in> br_slot ` set (filter (\<lambda>r. \<not> br_retain r) rs) \<longleftrightarrow> \<not> br_retain r"
    proof
      assume "s \<in> br_slot ` set (filter (\<lambda>r. \<not> br_retain r) rs)"
      then obtain r' where "r' \<in> set rs" "\<not> br_retain r'" "s = br_slot r'" by auto
      with uniq [of r'] show "\<not> br_retain r" by simp
    next
      assume "\<not> br_retain r"
      with rset i(3) show "s \<in> br_slot ` set (filter (\<lambda>r. \<not> br_retain r) rs)" by (intro image_eqI [of _ _ r]) simp_all
    qed
    then show ?thesis by (simp only: Some ir option.case prod.case)
  qed
  show ?thesis
    unfolding e fold_alter [OF d] map_of_map_const m by (auto split: option.split prod.split)
qed

lemma keeps_at:
  assumes dist: "distinct (map br_slot rs)" and banks: "length banks = length rs"
    "\<And>i. i < length rs \<Longrightarrow> bk_ordinal (banks ! i) = i"
  shows "po_slots (fold (keep_bank rs) banks q) s =
    (case request_at rs s of None \<Rightarrow> po_slots q s
     | Some (i, r) \<Rightarrow> (case bk_inactive (banks ! i) of None \<Rightarrow> po_slots q s | Some t \<Rightarrow> map_option (fill_bank t) (po_slots q s)))"
proof -
  let ?key = "\<lambda>b. br_slot (rs ! bk_ordinal b)" and ?f = "\<lambda>b. case bk_inactive b of None \<Rightarrow> id | Some t \<Rightarrow> fill_bank t"
  have keep: "keep_bank rs = (\<lambda>b. alter_slot (?key b) (?f b))"
    by (auto simp: fun_eq_iff keep_bank_def alter_slot_def option.map_id split: option.split)
  have keys: "map ?key banks = map br_slot rs" using banks by (intro nth_equalityI) simp_all
  then have "distinct (map ?key banks)" using dist by simp
  moreover have "map_of (map (\<lambda>b. (?key b, ?f b)) banks) s = map_option (\<lambda>(i, r). ?f (banks ! i)) (request_at rs s)"
  proof (cases "request_at rs s")
    case None
    then have "s \<notin> set (map ?key banks)" unfolding keys by (simp add: request_at_None)
    then have "map_of (map (\<lambda>b. (?key b, ?f b)) banks) s = None" by (auto simp: map_of_eq_None_iff)
    with None show ?thesis by simp
  next
    case (Some ir)
    obtain i r where ir: "ir = (i, r)" by (cases ir)
    with Some request_at_iff [OF dist] have i: "i < length rs" "rs ! i = r" "br_slot r = s" by simp_all
    have "(s, ?f (banks ! i)) \<in> set (map (\<lambda>b. (?key b, ?f b)) banks)"
      using i banks by (auto intro!: image_eqI [of _ _ "banks ! i"])
    moreover have "distinct (map fst (map (\<lambda>b. (?key b, ?f b)) banks))"
      using calculation dist keys by (simp add: comp_def)
    ultimately have "map_of (map (\<lambda>b. (?key b, ?f b)) banks) s = Some (?f (banks ! i))" by simp
    with Some ir show ?thesis by simp
  qed
  ultimately show ?thesis
    unfolding keep by (auto simp: fold_alter option.map_id split: option.split prod.split)
qed

lemma staged_banks_nth:
  "i < length banks \<Longrightarrow> staged_banks new banks ! i = (banks ! i)\<lparr>bk_inactive := map_option (\<lambda>_. new i) (bk_inactive (banks ! i))\<rparr>"
  by (simp add: staged_banks_def nth_enumerate_eq)

lemma staged_banks_length [simp]: "length (staged_banks new banks) = length banks"
  by (simp add: staged_banks_def)

lemma offered_length [simp]: "length (offered zero p rs) = length rs"
  by (simp add: offered_def)

lemma offered_nth:
  "i < length rs \<Longrightarrow> offered zero p rs ! i = \<lparr>bk_ordinal = i, bk_buffer = hd_id (br_descriptor (rs ! i)),
     bk_active = the (visible p (br_slot (rs ! i))),
     bk_inactive = (if br_retain (rs ! i) then None else Some (spare_bank zero (the (po_slots p (br_slot (rs ! i)))) (rs ! i)))\<rparr>"
  by (simp add: offered_def nth_enumerate_eq)

definition successor_of :: "'l pool \<Rightarrow> (nat \<Rightarrow> 'l tensor) \<Rightarrow> bank_request list \<Rightarrow> nat \<Rightarrow> 'l tensor" where
  "successor_of p new rs i = (if br_retain (rs ! i) then the (visible p (br_slot (rs ! i))) else new i)"

lemma staged_offered:
  "i < length rs \<Longrightarrow> bk_ordinal (staged_banks new (offered zero p rs) ! i) = i \<and>
     successor (staged_banks new (offered zero p rs) ! i) = successor_of p new rs i \<and>
     bk_inactive (staged_banks new (offered zero p rs) ! i) = (if br_retain (rs ! i) then None else Some (new i))"
  by (simp add: staged_banks_nth offered_nth successor_def successor_of_def)

text \<open>A successful transaction, step by step.\<close>

lemma transact_success:
  assumes "host_transact zero o' p rs stage = (p', Inr x)" and banks: "banks = offered zero p rs" and new: "new = fst (stage banks)"
  shows "distinct (map br_slot rs) \<and> (\<forall>r \<in> set rs. request_ok p r \<and> visible p (br_slot r) \<noteq> None) \<and>
    snd (stage banks) = Inr x \<and> (\<forall>i < length rs. matches_desc (successor_of p new rs i) (br_descriptor (rs ! i))) \<and>
    po_id p' = po_id p \<and>
    (\<forall>s. po_slots p' s = (case request_at rs s of None \<Rightarrow> po_slots p s
       | Some ir \<Rightarrow> map_option (replaced_slot new ir) (po_slots p s)))"
proof -
  let ?q = "prepared_pool zero rs p" and ?m = "map_of (zip (map br_slot rs) [0..<length rs])"
  have run: "host_transact zero False p rs stage = (p', Inr x)" using assms(1) transact_ordered_eq [of zero p rs stage] by (cases o') simp_all
  then obtain q m where req: "prepare_requested zero p Map.empty (enumerate 0 rs) = (q, Inr m)"
    and rest: "transact_prepared False m q rs stage = (p', Inr x)"
    by (auto simp: host_transact_def split: prod.splits sum.splits)
  from req [unfolded prepare_requested_Inr_iff] have dist: "distinct (map br_slot rs)" and ok: "\<forall>r \<in> set rs. request_ok p r"
    and q: "q = ?q" and m: "m = ?m" by simp_all
  from rest obtain found where found: "try_map (bank_of q rs) (map (\<lambda>k. (k, the (m k))) (filter (\<lambda>k. m k \<noteq> None) (slot_keys q))) = Inr found"
    and len: "length found = length rs"
    by (auto simp: transact_prepared_def split: sum.splits if_splits)
  from offered_prepared [OF dist ok, of zero] sorted_banks [OF dist m found len] q
  have sorted: "sort_key bk_ordinal found = banks" and vis: "\<forall>r \<in> set rs. visible p (br_slot r) \<noteq> None"
    by (auto simp: banks)
  let ?staged = "staged_banks new banks"
  from rest found len sorted new have outcome: "snd (stage banks) = Inr x"
    and match: "\<not> list_ex (\<lambda>b. \<not> matches_desc (successor b) (br_descriptor (rs ! bk_ordinal b))) ?staged"
    and p': "p' = fold flip_slot (map br_slot (filter (\<lambda>r. \<not> br_retain r) rs)) (fold (keep_bank rs) ?staged q)"
    by (auto simp: transact_prepared_def Let_def split: prod.splits sum.splits if_splits)
  have matches: "matches_desc (successor_of p new rs i) (br_descriptor (rs ! i))" if i: "i < length rs" for i
  proof -
    have "?staged ! i \<in> set ?staged" using i banks by simp
    with match show ?thesis using staged_offered [OF i, of new zero p] by (auto simp: list_ex_iff banks)
  qed
  have slots: "po_slots p' s = (case request_at rs s of None \<Rightarrow> po_slots p s
      | Some ir \<Rightarrow> map_option (replaced_slot new ir) (po_slots p s))" for s
  proof (cases "request_at rs s")
    case None
    then have "s \<notin> br_slot ` set rs" using request_at_None [of rs s] by blast
    then have "map_of (map (\<lambda>r. (br_slot r, r)) rs) s = None" by (auto simp: map_of_eq_None_iff)
    then have "po_slots q s = po_slots p s" by (simp add: q prepared_pool_slots [OF dist])
    then show ?thesis using None unfolding p' flips_at [OF dist]
      by (simp add: keeps_at [OF dist] banks staged_offered)
  next
    case (Some ir)
    obtain i r where ir: "ir = (i, r)" by (cases ir)
    with Some request_at_iff [OF dist] have i: "i < length rs" "rs ! i = r" "br_slot r = s" by simp_all
    have qs: "po_slots q s = map_option (prepared zero r) (po_slots p s)"
      using prepared_at [OF dist, of r zero p] i by (auto simp: q)
    show ?thesis
      unfolding p' flips_at [OF dist]
      using Some ir i(1,2) by (cases "po_slots p s")
        (simp_all add: keeps_at [OF dist] banks staged_offered qs replaced_slot_def prepared_def fill_fill)
  qed
  have "po_id p' = po_id p"
  proof -
    have "po_id (fold flip_slot ss r) = po_id r" for ss and r :: "'a pool"
      by (induction ss arbitrary: r) (simp_all add: flip_slot_def)
    moreover have "po_id (fold (keep_bank rs) ?staged q) = po_id p"
      using rear_only_keep [of q rs ?staged] prepared_pool_rear [of p zero rs] by (simp add: rear_only_def q)
    ultimately show ?thesis by (simp only: p')
  qed
  with dist ok vis outcome matches slots show ?thesis by simp
qed

text \<open>Nothing else can refuse it.\<close>

lemma requested_slots:
  assumes "distinct (map br_slot rs)" and "finite (dom (po_slots q))" and "br_slot ` set rs \<subseteq> dom (po_slots q)"
  shows "length (filter (\<lambda>k. map_of (zip (map br_slot rs) [0..<length rs]) k \<noteq> None) (slot_keys q)) = length rs"
proof -
  let ?ks = "filter (\<lambda>k. map_of (zip (map br_slot rs) [0..<length rs]) k \<noteq> None) (slot_keys q)"
  have "map_of (zip (map br_slot rs) [0..<length rs]) k \<noteq> None \<longleftrightarrow> k \<in> br_slot ` set rs" for k
  proof -
    have "map fst (zip (map br_slot rs) [0..<length rs]) = map br_slot rs" by (simp add: map_fst_zip)
    then have "fst ` set (zip (map br_slot rs) [0..<length rs]) = br_slot ` set rs" by (metis set_map)
    then show ?thesis by (simp only: map_of_eq_None_iff not_not)
  qed
  then have "set ?ks = br_slot ` set rs" using assms(2,3) by (auto simp: slot_keys_def)
  moreover have "distinct ?ks" using slot_keys_distinct by (rule distinct_filter)
  ultimately have "length ?ks = card (br_slot ` set rs)" by (metis distinct_card)
  also have "\<dots> = length rs" using distinct_card [OF assms(1)] by simp
  finally show ?thesis .
qed

lemma transact_completes:
  assumes fin: "finite (dom (po_slots p))" and dist: "distinct (map br_slot rs)"
    and ok: "\<forall>r \<in> set rs. request_ok p r \<and> visible p (br_slot r) \<noteq> None"
    and banks: "banks = offered zero p rs" and outcome: "stage banks = (new, Inr x)"
    and matches: "\<forall>i < length rs. matches_desc (successor_of p new rs i) (br_descriptor (rs ! i))"
  shows "\<exists>p'. host_transact zero False p rs stage = (p', Inr x)"
proof -
  let ?m = "map_of (zip (map br_slot rs) [0..<length rs])"
  define q where "q = prepared_pool zero rs p"
  have req: "prepare_requested zero p Map.empty (enumerate 0 rs) = (q, Inr ?m)"
    unfolding prepare_requested_Inr_iff using dist ok by (simp add: q_def)
  have rear: "rear_only p q" unfolding q_def by (rule prepared_pool_rear)
  let ?kos = "map (\<lambda>k. (k, the (?m k))) (filter (\<lambda>k. ?m k \<noteq> None) (slot_keys q))"
  have slot: "\<exists>i < length rs. k = br_slot (rs ! i) \<and> ?m k = Some i" if "?m k \<noteq> None" for k
  proof -
    from that obtain i where i: "?m k = Some i" by blast
    from map_of_SomeD [OF i] have "i < length rs" "k = br_slot (rs ! i)" by (auto simp: set_zip)
    with i show ?thesis by blast
  qed
  have each: "\<exists>b. bank_of q rs ko = Inr b" if "ko \<in> set ?kos" for ko
  proof -
    from that obtain k where k: "ko = (k, the (?m k))" "?m k \<noteq> None" by auto
    from slot [OF k(2)] obtain i where i: "i < length rs" "k = br_slot (rs ! i)" "?m k = Some i" by blast
    with ok have "visible q k \<noteq> None" using rear_only_visible [OF rear] by simp
    then obtain sl t where "po_slots q k = Some sl" "sl_banks sl (sl_active sl) = Some t"
      by (auto simp: visible_def split: option.splits)
    then show ?thesis using k(1) i(3) by (simp add: bank_of_def Let_def)
  qed
  have "try_map (bank_of q rs) ?kos = Inr (map (\<lambda>ko. projr (bank_of q rs ko)) ?kos)"
  proof (rule try_map_ok)
    fix ko assume "ko \<in> set ?kos"
    then obtain b where "bank_of q rs ko = Inr b" using each by blast
    then show "bank_of q rs ko = Inr (projr (bank_of q rs ko))" by simp
  qed
  then obtain found where found: "try_map (bank_of q rs) ?kos = Inr found" by blast
  have "br_slot ` set rs \<subseteq> dom (po_slots q)" using ok rear_only_dom [OF rear] by (auto simp: request_ok_def)
  with requested_slots [OF dist, of q] fin rear_only_dom [OF rear] try_map_length [OF found] have len: "length found = length rs" by simp
  from offered_prepared [OF dist, of p zero] sorted_banks [OF dist refl found len] ok q_def
  have sorted: "sort_key bk_ordinal found = banks" by (auto simp: banks)
  have "\<not> list_ex (\<lambda>b. \<not> matches_desc (successor b) (br_descriptor (rs ! bk_ordinal b))) (staged_banks new banks)"
    using matches staged_offered [of _ rs new zero p] by (auto simp: list_ex_length banks)
  then have "\<exists>p'. transact_prepared False ?m q rs stage = (p', Inr x)"
    unfolding transact_prepared_def if_False found sum.case using len sorted outcome by (simp add: Let_def)
  then show ?thesis by (simp add: host_transact_def req)
qed

subsection \<open>A pool at work\<close>

definition demo_desc :: host_desc where
  "demo_desc = \<lparr>hd_id = 7, hd_dtype = I32, hd_shape = [2], hd_bytes = 8, hd_alignment = 4, hd_lanes = 1\<rparr>"

definition demo_values :: "nat \<Rightarrow> nat tensor" where
  "demo_values x = \<lparr>td_shape = [2], td_dtype = I32, td_lanes = [x, x + 1]\<rparr>"

definition demo_leased :: "nat pool \<times> (host_error, lease) result" where
  "demo_leased = host_lease (pool_new 0) (Some 7) demo_desc"

definition demo_lease :: lease where
  "demo_lease = projr (snd demo_leased)"

definition demo_pool :: "nat pool" where
  "demo_pool = projr (lease_write (fst demo_leased) demo_lease (demo_values 5))"

definition demo_requests :: "bank_request list" where
  "demo_requests = [lease_request demo_lease False]"

definition demo_stage :: "(nat, unit, unit) stage" where
  "demo_stage banks = ((\<lambda>_. demo_values 9), Inr ())"

lemma demo_pool_dom: "dom (po_slots demo_pool) = {7}"
  by (simp add: demo_pool_def demo_lease_def demo_leased_def demo_desc_def demo_values_def host_lease_def pool_new_def
      lease_write_def live_slot_def set_slot_def fresh_slot_def fits_desc_def checked_add_u_def checked_u_def usize_max_eq)

subsection \<open>Properties\<close>

text \<open>The fast path of a bank transaction, which walks all slots in order and skips the request map and
  the sort, gives the same pool, the same value and the same errors as the general path.\<close>

lemma ordered_banks_equivalent:
  "host_transact zero True p rs stage = host_transact zero False p rs stage"
  by (rule transact_ordered_eq)

text \<open>C19: A bank transaction is all or nothing. It succeeds exactly when every request names its own live,
  unborrowed slot with a value, the callback succeeds on the banks in request order, and every successor
  has its descriptor; then each slot shows its successor and no other slot changes. When it fails, at
  any point and whatever the callback wrote, every slot shows what it did.\<close>

theorem bank_transaction_atomic:
  assumes "finite (dom (po_slots p))" and "host_transact zero o' p rs stage = (p', outcome)"
    and "banks = offered zero p rs" and "new = fst (stage banks)"
  shows "(is_ok outcome \<longleftrightarrow> distinct (map br_slot rs) \<and> (\<forall>r \<in> set rs. request_ok p r \<and> visible p (br_slot r) \<noteq> None) \<and>
           is_ok (snd (stage banks)) \<and> (\<forall>i < length rs. matches_desc (successor_of p new rs i) (br_descriptor (rs ! i)))) \<and>
    (case outcome of
       Inl e \<Rightarrow> visible p' = visible p
     | Inr x \<Rightarrow> snd (stage banks) = Inr x \<and> (\<forall>s. visible p' s = (case request_at rs s of None \<Rightarrow> visible p s
         | Some (i, r) \<Rightarrow> Some (successor_of p new rs i))))"
proof (cases outcome)
  case (Inl e)
  have run: "host_transact zero False p rs stage = (p', Inl e)"
    using assms(2) transact_ordered_eq [of zero p rs stage] Inl by (cases o') simp_all
  have "\<nexists>x. distinct (map br_slot rs) \<and> (\<forall>r \<in> set rs. request_ok p r \<and> visible p (br_slot r) \<noteq> None) \<and>
      snd (stage banks) = Inr x \<and> (\<forall>i < length rs. matches_desc (successor_of p new rs i) (br_descriptor (rs ! i)))"
  proof
    assume "\<exists>x. distinct (map br_slot rs) \<and> (\<forall>r \<in> set rs. request_ok p r \<and> visible p (br_slot r) \<noteq> None) \<and>
      snd (stage banks) = Inr x \<and> (\<forall>i < length rs. matches_desc (successor_of p new rs i) (br_descriptor (rs ! i)))"
    then obtain x where "distinct (map br_slot rs)" "\<forall>r \<in> set rs. request_ok p r \<and> visible p (br_slot r) \<noteq> None"
      "stage banks = (new, Inr x)" "\<forall>i < length rs. matches_desc (successor_of p new rs i) (br_descriptor (rs ! i))"
      using assms(4) by (metis prod.collapse)
    from transact_completes [OF assms(1) this(1,2) assms(3), of stage new x] this(3,4) run show False by simp
  qed
  then show ?thesis using Inl rear_only_visible [OF transact_failure [OF run]] by (auto simp: is_ok_iff)
next
  case (Inr x)
  note won = transact_success [OF assms(2) [unfolded Inr] assms(3,4)]
  have "visible p' s = (case request_at rs s of None \<Rightarrow> visible p s | Some (i, r) \<Rightarrow> Some (successor_of p new rs i))" for s
  proof (cases "request_at rs s")
    case None
    with won show ?thesis by (simp add: visible_def)
  next
    case (Some ir)
    obtain i r where ir: "ir = (i, r)" by (cases ir)
    with Some won request_at_iff [of rs s i r] have i: "i < length rs" "rs ! i = r" "br_slot r = s" by simp_all
    then have "r \<in> set rs" by auto
    with won i obtain sl t where "po_slots p s = Some sl" "sl_banks sl (sl_active sl) = Some t"
      by (fastforce simp: visible_def split: option.splits)
    with Some ir won i(2,3) show ?thesis
      by (simp add: visible_def replaced_slot_def successor_of_def flip_bank_def fill_bank_def)
  qed
  with won Inr show ?thesis by (auto simp: is_ok_iff)
qed

theorem bank_transaction_atomic_witness:
  "is_ok (snd (host_transact (\<lambda>_. 0) True demo_pool demo_requests demo_stage)) \<and>
   visible (fst (host_transact (\<lambda>_. 0) True demo_pool demo_requests demo_stage)) 7 = Some (demo_values 9)"
proof -
  have cap: "le_slot demo_lease = 7" "le_generation demo_lease = 1" "le_owner demo_lease = po_id demo_pool"
    "le_descriptor demo_lease = demo_desc" "visible demo_pool 7 = Some (demo_values 5)" "matches_desc (demo_values 9) demo_desc"
    "case po_slots demo_pool 7 of Some sl \<Rightarrow> sl_generation sl = 1 \<and> sl_leased sl \<and> sl_views sl = 0 \<and> \<not> sl_window sl \<and>
       sl_descriptor sl = Some demo_desc | None \<Rightarrow> False" "is_ok (numel (hd_shape demo_desc))"
    by code_simp+
  obtain p' outcome where run: "host_transact (\<lambda>_. 0) True demo_pool demo_requests demo_stage = (p', outcome)" by fastforce
  have new: "fst (demo_stage banks) = (\<lambda>_. demo_values 9)" "snd (demo_stage banks) = Inr ()" for banks by (simp_all add: demo_stage_def)
  have ok: "\<forall>r \<in> set demo_requests. request_ok demo_pool r \<and> visible demo_pool (br_slot r) \<noteq> None"
    using cap by (auto simp: demo_requests_def lease_request_def request_ok_def slot_fits_def split: option.splits)
  have "finite (dom (po_slots demo_pool))" by (simp add: demo_pool_dom)
  note atomic = bank_transaction_atomic [OF this run refl refl]
  have "is_ok outcome"
    using atomic ok cap(6) by (simp add: new demo_requests_def lease_request_def cap successor_of_def)
  then obtain x where x: "outcome = Inr x" by (auto simp: is_ok_iff)
  have "request_at demo_requests 7 = Some (0, lease_request demo_lease False)"
    by (simp add: demo_requests_def lease_request_def cap)
  with atomic x have "visible p' 7 = Some (demo_values 9)"
    by (simp add: new successor_of_def demo_requests_def lease_request_def)
  with run \<open>is_ok outcome\<close> show ?thesis by simp
qed

end
