(* ===== verification/HostPoolTheorems.thy ===== *)
theory HostPoolTheorems
  imports HostBankTheorems "HOL-Library.Multiset"
begin

section \<open>What the host pool promises\<close>

text \<open>
  The pool and the capabilities it has handed out, as a step relation: every step is one operation of
  the source, and dropping a capability gives it back. Window capabilities are the mutable ones; a
  read-only byte window holds nothing in the pool.
\<close>

type_synonym 'l system = "'l pool \<times> lease multiset \<times> view_cap multiset \<times> window multiset"

inductive pool_step :: "'l system \<Rightarrow> 'l system \<Rightarrow> bool" where
  leased: "host_lease p physical d = (p', Inr l) \<Longrightarrow> pool_step (p, ls, vs, ws) (p', add_mset l ls, vs, ws)"
| lease_refused: "host_lease p physical d = (p', Inl e) \<Longrightarrow> pool_step (p, ls, vs, ws) (p', ls, vs, ws)"
| wrote: "l \<in># ls \<Longrightarrow> lease_write p l t = Inr p' \<Longrightarrow> pool_step (p, ls, vs, ws) (p', ls, vs, ws)"
| committed: "pool_commit p writes = Inr p' \<Longrightarrow> pool_step (p, ls, vs, ws) (p', ls, vs, ws)"
| transacted: "host_transact zero ordered p rs stage = (p', outcome :: (unit bank_error, unit) result) \<Longrightarrow>
    pool_step (p, ls, vs, ws) (p', ls, vs, ws)"
| released: "l \<in># ls \<Longrightarrow> release_lease p l = Inr (p', l') \<Longrightarrow> pool_step (p, ls, vs, ws) (p', ls - {#l#}, vs, ws)"
| dropped: "l \<in># ls \<Longrightarrow> pool_step (p, ls, vs, ws) (drop_lease p l, ls - {#l#}, vs, ws)"
| viewed: "l \<in># ls \<Longrightarrow> lease_view p l = Inr (p', v) \<Longrightarrow> pool_step (p, ls, vs, ws) (p', ls, add_mset v vs, ws)"
| view_dropped: "v \<in># vs \<Longrightarrow> pool_step (p, ls, vs, ws) (drop_view p v, ls, vs - {#v#}, ws)"
| lease_windowed: "l \<in># ls \<Longrightarrow> lease_window p l offset bytes = Inr (p', w) \<Longrightarrow>
    pool_step (p, ls, vs, ws) (p', ls, vs, add_mset w ws)"
| view_windowed: "v \<in># vs \<Longrightarrow> view_window p v offset bytes = Inr (p', w) \<Longrightarrow>
    pool_step (p, ls, vs, ws) (p', ls, vs, add_mset w ws)"
| window_dropped: "w \<in># ws \<Longrightarrow> pool_step (p, ls, vs, ws) (drop_window p w, ls, vs, ws - {#w#})"

inductive pool_reach :: "'l system \<Rightarrow> bool" where
  start: "pool_reach (pool_new i, {#}, {#}, {#})"
| step: "pool_reach s \<Longrightarrow> pool_step s s' \<Longrightarrow> pool_reach s'"

subsection \<open>The invariant of one slot\<close>

definition slot_ok ::
  "nat \<Rightarrow> 'l slot option \<Rightarrow> lease multiset \<Rightarrow> view_cap multiset \<Rightarrow> window multiset \<Rightarrow> bool" where
  "slot_ok i entry ls vs ws \<longleftrightarrow>
    (case entry of
       None \<Rightarrow> ls = {#} \<and> vs = {#} \<and> ws = {#}
     | Some sl \<Rightarrow>
         size ls \<le> 1 \<and> sl_views sl = size vs \<and> size ws = (if sl_window sl then 1 else 0) \<and>
         (\<forall>l \<in># ls. sl_leased sl \<and> le_generation l = sl_generation sl \<and> sl_descriptor sl = Some (le_descriptor l) \<and>
            le_owner l = i \<and> \<not> le_released l) \<and>
         (\<forall>v \<in># vs. sl_leased sl \<and> vw_generation v = sl_generation sl \<and> sl_descriptor sl = Some (vw_descriptor v)) \<and>
         (\<forall>w \<in># ws. wi_mutable w \<and> wi_generation w = sl_generation sl) \<and>
         (\<forall>t. sl_banks sl (sl_active sl) = Some t \<longrightarrow> (\<exists>d. sl_descriptor sl = Some d \<and> fits_desc t d)))"

abbreviation leases_at :: "nat \<Rightarrow> lease multiset \<Rightarrow> lease multiset" where
  "leases_at s \<equiv> filter_mset (\<lambda>l. le_slot l = s)"
abbreviation views_at :: "nat \<Rightarrow> view_cap multiset \<Rightarrow> view_cap multiset" where
  "views_at s \<equiv> filter_mset (\<lambda>v. vw_slot v = s)"
abbreviation windows_at :: "nat \<Rightarrow> window multiset \<Rightarrow> window multiset" where
  "windows_at s \<equiv> filter_mset (\<lambda>w. wi_slot w = s)"

definition pool_inv :: "'l system \<Rightarrow> bool" where
  "pool_inv sys \<longleftrightarrow> (let (p, ls, vs, ws) = sys in
     \<forall>s. slot_ok (po_id p) (po_slots p s) (leases_at s ls) (views_at s vs) (windows_at s ws))"

lemma pool_invD: "pool_inv (p, ls, vs, ws) \<Longrightarrow> slot_ok (po_id p) (po_slots p s) (leases_at s ls) (views_at s vs) (windows_at s ws)"
  by (simp add: pool_inv_def)

text \<open>A step that changes one slot keeps the invariant of the others.\<close>

lemma pool_inv_update:
  assumes "pool_inv (p, ls, vs, ws)" and "po_id p' = po_id p" and "\<And>s. s \<noteq> k \<Longrightarrow> po_slots p' s = po_slots p s"
    and "\<And>s. s \<noteq> k \<Longrightarrow> leases_at s ls' = leases_at s ls \<and> views_at s vs' = views_at s vs \<and> windows_at s ws' = windows_at s ws"
    and "slot_ok (po_id p) (po_slots p' k) (leases_at k ls') (views_at k vs') (windows_at k ws')"
  shows "pool_inv (p', ls', vs', ws')"
  unfolding pool_inv_def
proof (clarsimp simp: assms(2))
  fix s
  show "slot_ok (po_id p) (po_slots p' s) (leases_at s ls') (views_at s vs') (windows_at s ws')"
    using assms(1,3-5) by (cases "s = k") (auto simp: pool_inv_def)
qed

lemma mset_single: "x \<in># M \<Longrightarrow> size M \<le> 1 \<Longrightarrow> M = {#x#}"
  by (auto dest!: multi_member_split)

lemma mset_nonempty: "x \<in># M \<Longrightarrow> size M \<noteq> 0"
  by auto

lemma size_at_mem: "x \<in># M \<Longrightarrow> size (M - {#x#}) = size M - 1"
  by (simp add: size_Diff_singleton)

lemma host_lease_cases:
  assumes "host_lease p physical d = (p', r)"
  obtains (refused) e slot sl where "r = Inl e" "po_id p' = po_id p"
      "po_slots p' = (po_slots p)(slot \<mapsto> sl)" "sl = (case po_slots p slot of Some sl \<Rightarrow> sl | None \<Rightarrow> fresh_slot d)"
  | (granted) slot sl generation where
      "sl = (case po_slots p slot of Some sl \<Rightarrow> sl | None \<Rightarrow> fresh_slot d)"
      "\<not> sl_leased sl" "sl_views sl = 0" "\<not> sl_window sl" "generation = Suc (sl_generation sl)"
      "r = Inr \<lparr>le_owner = po_id p, le_slot = slot, le_generation = generation, le_descriptor = d, le_released = False\<rparr>"
      "po_id p' = po_id p"
      "po_slots p' = (po_slots p)(slot \<mapsto> sl\<lparr>sl_generation := generation, sl_descriptor := Some d,
         sl_banks := (\<lambda>_. None), sl_active := False, sl_leased := True\<rparr>)"
proof -
  define slot where "slot = (case physical of Some s \<Rightarrow> s | None \<Rightarrow> usize_max - po_next_sentinel p)"
  define p1 where "p1 = (case physical of Some s \<Rightarrow> p | None \<Rightarrow> p\<lparr>po_next_sentinel := Suc (po_next_sentinel p)\<rparr>)"
  define sl where "sl = (case po_slots p slot of Some sl \<Rightarrow> sl | None \<Rightarrow> fresh_slot d)"
  have p1: "po_id p1 = po_id p" "po_slots p1 = po_slots p" by (auto simp: p1_def split: option.splits)
  have pair: "(case physical of Some s \<Rightarrow> (p, s) | None \<Rightarrow> (p\<lparr>po_next_sentinel := Suc (po_next_sentinel p)\<rparr>,
      usize_max - po_next_sentinel p)) = (p1, slot)"
    by (simp add: p1_def slot_def split: option.split)
  have eq: "host_lease p physical d =
      (if sl_leased sl \<or> sl_views sl \<noteq> 0 \<or> sl_window sl then (set_slot p1 slot sl, Inl (OutstandingBorrow slot))
       else if physical \<noteq> None \<and> sl_capacity sl \<noteq> hd_bytes d
       then (set_slot p1 slot sl, Inl (LogicalBounds (hd_bytes d) (sl_capacity sl)))
       else if (case sl_descriptor sl of Some old \<Rightarrow> \<not> same_layout old d | None \<Rightarrow> False)
       then (set_slot p1 slot sl, Inl IncompatibleDescriptor)
       else case checked_add_u (sl_generation sl) 1 of
           None \<Rightarrow> (set_slot p1 slot sl, Inl HostOverflow)
         | Some generation \<Rightarrow>
             (set_slot (set_slot p1 slot sl) slot (sl\<lparr>sl_generation := generation, sl_descriptor := Some d,
                sl_banks := (\<lambda>_. None), sl_active := False, sl_leased := True\<rparr>),
              Inr \<lparr>le_owner = po_id p, le_slot = slot, le_generation = generation, le_descriptor = d, le_released = False\<rparr>))"
    unfolding host_lease_def pair by (simp add: Let_def sl_def p1 split: option.split)
  show thesis
  proof (cases "(\<exists>e. r = Inl e)")
    case True
    then obtain e where "r = Inl e" by blast
    moreover from this assms have "p' = set_slot p1 slot sl"
      unfolding eq by (auto split: if_splits option.splits)
    ultimately show thesis using refused [of e slot sl] by (simp add: p1 sl_def)
  next
    case False
    then have "\<not> (sl_leased sl \<or> sl_views sl \<noteq> 0 \<or> sl_window sl)"
      and "checked_add_u (sl_generation sl) 1 = Some (Suc (sl_generation sl))"
      and "p' = set_slot (set_slot p1 slot sl) slot (sl\<lparr>sl_generation := Suc (sl_generation sl), sl_descriptor := Some d,
          sl_banks := (\<lambda>_. None), sl_active := False, sl_leased := True\<rparr>)"
      and "r = Inr \<lparr>le_owner = po_id p, le_slot = slot, le_generation = Suc (sl_generation sl), le_descriptor = d, le_released = False\<rparr>"
      using assms unfolding eq by (auto split: if_splits option.splits simp: checked_defs)
    then show thesis using granted [of sl slot "Suc (sl_generation sl)"] by (simp add: p1 sl_def)
  qed
qed

lemma slot_ok_fresh: "slot_ok i None ls vs ws \<Longrightarrow> slot_ok i (Some (fresh_slot d)) ls vs ws"
  by (simp add: slot_ok_def fresh_slot_def)

lemma slot_ok_entry:
  "slot_ok i o' ls vs ws \<Longrightarrow> slot_ok i (Some (case o' of Some sl \<Rightarrow> sl | None \<Rightarrow> fresh_slot d)) ls vs ws"
  by (cases o') (auto simp: slot_ok_fresh)

lemma inv_lease:
  assumes "pool_inv (p, ls, vs, ws)" and "host_lease p physical d = (p', r)"
  shows "pool_inv (p', (case r of Inr l \<Rightarrow> add_mset l ls | Inl _ \<Rightarrow> ls), vs, ws)"
  using assms(2)
proof (cases rule: host_lease_cases)
  case (refused e slot sl)
  show ?thesis
    by (rule pool_inv_update [OF assms(1), of _ slot])
      (use refused slot_ok_entry [OF pool_invD [OF assms(1), of slot], of d] in auto)
next
  case (granted slot sl generation)
  have ok: "slot_ok (po_id p) (Some sl) (leases_at slot ls) (views_at slot vs) (windows_at slot ws)"
    unfolding granted(1) by (rule slot_ok_entry [OF pool_invD [OF assms(1)]])
  show ?thesis
    by (rule pool_inv_update [OF assms(1), of _ slot]) (use granted ok in \<open>auto simp: slot_ok_def\<close>)
qed

lemma inv_slot:
  assumes "pool_inv (p, ls, vs, ws)"
    and "\<And>s. s \<noteq> k \<Longrightarrow> leases_at s ls' = leases_at s ls \<and> views_at s vs' = views_at s vs \<and> windows_at s ws' = windows_at s ws"
    and "slot_ok (po_id p) (Some sl') (leases_at k ls') (views_at k vs') (windows_at k ws')"
  shows "pool_inv (set_slot p k sl', ls', vs', ws')"
  by (rule pool_inv_update [OF assms(1), of _ k]) (use assms in auto)

text \<open>A held lease and a live view find their slot live.\<close>

lemma inv_held:
  assumes "pool_inv (p, ls, vs, ws)" and "l \<in># ls"
  shows "\<exists>sl. po_slots p (le_slot l) = Some sl \<and> sl_leased sl \<and> sl_generation sl = le_generation l \<and>
    sl_descriptor sl = Some (le_descriptor l) \<and> leases_at (le_slot l) ls = {#l#} \<and> \<not> le_released l \<and> le_owner l = po_id p"
proof -
  let ?L = "leases_at (le_slot l) ls"
  have l: "l \<in># ?L" using assms(2) by simp
  with pool_invD [OF assms(1), of "le_slot l"] obtain sl where sl: "po_slots p (le_slot l) = Some sl"
    "size ?L \<le> 1" "\<forall>l \<in># ?L. sl_leased sl \<and> le_generation l = sl_generation sl \<and>
      sl_descriptor sl = Some (le_descriptor l) \<and> le_owner l = po_id p \<and> \<not> le_released l"
    by (auto simp: slot_ok_def split: option.splits)
  from l sl(2) have "?L = {#l#}" by (rule mset_single)
  with sl l show ?thesis by auto
qed

lemma inv_view:
  assumes "pool_inv (p, ls, vs, ws)" and "v \<in># vs"
  shows "\<exists>sl. po_slots p (vw_slot v) = Some sl \<and> sl_leased sl \<and> sl_generation sl = vw_generation v \<and>
    sl_descriptor sl = Some (vw_descriptor v) \<and> sl_views sl \<noteq> 0"
proof -
  let ?V = "views_at (vw_slot v) vs"
  have v: "v \<in># ?V" using assms(2) by simp
  with pool_invD [OF assms(1), of "vw_slot v"] obtain sl where sl: "po_slots p (vw_slot v) = Some sl"
    "sl_views sl = size ?V" "\<forall>v \<in># ?V. sl_leased sl \<and> vw_generation v = sl_generation sl \<and>
      sl_descriptor sl = Some (vw_descriptor v)"
    by (auto simp: slot_ok_def split: option.splits)
  have "sl_views sl \<noteq> 0" unfolding sl(2) by (rule mset_nonempty [OF v])
  with sl(1,3) v show ?thesis by auto
qed

lemma inv_window:
  assumes "pool_inv (p, ls, vs, ws)" and "w \<in># ws"
  shows "\<exists>sl. po_slots p (wi_slot w) = Some sl \<and> sl_generation sl = wi_generation w \<and> wi_mutable w \<and>
    sl_window sl \<and> windows_at (wi_slot w) ws = {#w#}"
proof -
  let ?W = "windows_at (wi_slot w) ws"
  have w: "w \<in># ?W" using assms(2) by simp
  with pool_invD [OF assms(1), of "wi_slot w"] obtain sl where sl: "po_slots p (wi_slot w) = Some sl"
    "size ?W = (if sl_window sl then 1 else 0)" "\<forall>w \<in># ?W. wi_mutable w \<and> wi_generation w = sl_generation sl"
    by (auto simp: slot_ok_def split: option.splits)
  moreover from mset_nonempty [OF w] sl(2) have "sl_window sl" "size ?W = 1" by (auto split: if_splits)
  moreover from w have "?W = {#w#}" by (rule mset_single) (simp add: calculation(5))
  ultimately show ?thesis using w by auto
qed

text \<open>Every operation keeps the invariant.\<close>

lemma inv_write:
  assumes inv: "pool_inv (p, ls, vs, ws)" and l: "l \<in># ls" and r: "lease_write p l t = Inr p'"
  shows "pool_inv (p', ls, vs, ws)"
proof -
  from inv_held [OF inv l] r obtain sl where sl: "po_slots p (le_slot l) = Some sl"
    "sl_descriptor sl = Some (le_descriptor l)" "fits_desc t (le_descriptor l)"
    and p': "p' = set_slot p (le_slot l) (sl\<lparr>sl_banks := (sl_banks sl)(sl_active sl := Some t)\<rparr>)"
    by (auto simp: lease_write_def result_simps live_slot_Inr split: if_splits)
  show ?thesis unfolding p'
    by (rule inv_slot [OF inv]) (use pool_invD [OF inv, of "le_slot l"] sl in \<open>auto simp: slot_ok_def\<close>)
qed

lemma inv_release:
  assumes inv: "pool_inv (p, ls, vs, ws)" and l: "l \<in># ls" and r: "release_lease p l = Inr (p', l')"
  shows "pool_inv (p', ls - {#l#}, vs, ws)"
proof -
  from inv_held [OF inv l] obtain sl where sl: "po_slots p (le_slot l) = Some sl" "leases_at (le_slot l) ls = {#l#}" by blast
  with r have v: "sl_views sl = 0"
    and p': "p' = set_slot p (le_slot l) (sl\<lparr>sl_leased := False, sl_banks := (\<lambda>_. None)\<rparr>)"
    by (auto simp: release_lease_def result_simps live_slot_Inr split: if_splits)
  have "leases_at (le_slot l) (ls - {#l#}) = {#}" using sl(2) by simp
  then show ?thesis unfolding p'
    by (intro inv_slot [OF inv]) (use pool_invD [OF inv, of "le_slot l"] sl(1) v in \<open>auto simp: slot_ok_def\<close>)
qed

text \<open>A dropped lease whose release was refused leaves its slot as it is.\<close>

lemma inv_forget:
  assumes inv: "pool_inv (p, ls, vs, ws)" and l: "l \<in># ls"
  shows "pool_inv (p, ls - {#l#}, vs, ws)"
proof (rule pool_inv_update [OF inv, of _ "le_slot l"])
  from inv_held [OF inv l] obtain sl where sl: "po_slots p (le_slot l) = Some sl" "leases_at (le_slot l) ls = {#l#}" by blast
  then have "leases_at (le_slot l) (ls - {#l#}) = {#}" by simp
  with pool_invD [OF inv, of "le_slot l"] sl
  show "slot_ok (po_id p) (po_slots p (le_slot l)) (leases_at (le_slot l) (ls - {#l#}))
      (views_at (le_slot l) vs) (windows_at (le_slot l) ws)"
    by (auto simp: slot_ok_def)
qed auto

lemma inv_drop_lease:
  assumes "pool_inv (p, ls, vs, ws)" and "l \<in># ls"
  shows "pool_inv (drop_lease p l, ls - {#l#}, vs, ws)"
  using inv_release [OF assms] inv_forget [OF assms] by (auto simp: drop_lease_def split: sum.split)

lemma inv_lease_view:
  assumes inv: "pool_inv (p, ls, vs, ws)" and l: "l \<in># ls" and r: "lease_view p l = Inr (p', v)"
  shows "pool_inv (p', ls, add_mset v vs, ws)"
proof -
  from inv_held [OF inv l] r obtain sl where sl: "po_slots p (le_slot l) = Some sl" "sl_leased sl"
    "sl_generation sl = le_generation l" "sl_descriptor sl = Some (le_descriptor l)"
    and p': "p' = set_slot p (le_slot l) (sl\<lparr>sl_views := Suc (sl_views sl)\<rparr>)"
    and v: "v = \<lparr>vw_slot = le_slot l, vw_generation = le_generation l, vw_descriptor = le_descriptor l\<rparr>"
    by (auto simp: lease_view_def result_simps live_slot_Inr checked_defs)
  show ?thesis unfolding p'
    by (rule inv_slot [OF inv]) (use pool_invD [OF inv, of "le_slot l"] sl v in \<open>auto simp: slot_ok_def\<close>)
qed

lemma inv_drop_view:
  assumes inv: "pool_inv (p, ls, vs, ws)" and v: "v \<in># vs"
  shows "pool_inv (drop_view p v, ls, vs - {#v#}, ws)"
proof -
  from inv_view [OF inv v] obtain sl where sl: "po_slots p (vw_slot v) = Some sl"
    and p': "drop_view p v = set_slot p (vw_slot v) (sl\<lparr>sl_views := sl_views sl - 1\<rparr>)"
    by (auto simp: drop_view_def)
  have V: "views_at (vw_slot v) (vs - {#v#}) = views_at (vw_slot v) vs - {#v#}" by simp
  have "v \<in># views_at (vw_slot v) vs" using v by simp
  then have size: "size (views_at (vw_slot v) vs - {#v#}) = size (views_at (vw_slot v) vs) - 1" by (rule size_at_mem)
  show ?thesis unfolding p'
  proof (rule inv_slot [OF inv])
    show "slot_ok (po_id p) (Some (sl\<lparr>sl_views := sl_views sl - 1\<rparr>)) (leases_at (vw_slot v) ls)
        (views_at (vw_slot v) (vs - {#v#})) (windows_at (vw_slot v) ws)"
      using pool_invD [OF inv, of "vw_slot v"] sl unfolding V by (auto simp: slot_ok_def size dest: in_diffD)
  qed auto
qed

lemma inv_acquire:
  assumes inv: "pool_inv (p, ls, vs, ws)" and r: "acquire_window n p s g d offset bytes = Inr (p', w)"
  shows "pool_inv (p', ls, vs, add_mset w ws)"
proof -
  from r obtain sl where sl: "po_slots p s = Some sl" "sl_generation sl = g" "\<not> sl_window sl"
    and p': "p' = set_slot p s (sl\<lparr>sl_window := True\<rparr>)"
    and w: "wi_slot w = s" "wi_generation w = g" "wi_mutable w"
    by (auto simp: acquire_window_def result_simps live_slot_Inr split: prod.splits if_splits)
  show ?thesis unfolding p'
    by (rule inv_slot [OF inv]) (use pool_invD [OF inv, of s] sl w in \<open>auto simp: slot_ok_def\<close>)
qed

lemma inv_drop_window:
  assumes inv: "pool_inv (p, ls, vs, ws)" and w: "w \<in># ws"
  shows "pool_inv (drop_window p w, ls, vs, ws - {#w#})"
proof -
  from inv_window [OF inv w] obtain sl where sl: "po_slots p (wi_slot w) = Some sl" "windows_at (wi_slot w) ws = {#w#}"
    and p': "drop_window p w = set_slot p (wi_slot w) (sl\<lparr>sl_window := False\<rparr>)"
    by (auto simp: drop_window_def)
  have "windows_at (wi_slot w) (ws - {#w#}) = {#}" using sl(2) by simp
  then show ?thesis unfolding p'
    by (intro inv_slot [OF inv]) (use pool_invD [OF inv, of "wi_slot w"] sl(1) in \<open>auto simp: slot_ok_def\<close>)
qed

subsection \<open>Commits\<close>

definition write_ok :: "'l pool \<Rightarrow> 'l host_write \<Rightarrow> bool" where
  "write_ok p w \<longleftrightarrow> hw_owner w = po_id p \<and> (\<exists>sl. po_slots p (hw_slot w) = Some sl \<and> sl_leased sl \<and>
      sl_generation sl = hw_generation w \<and> sl_views sl = 0 \<and> \<not> sl_window sl \<and>
      sl_descriptor sl = Some (hw_descriptor w) \<and> fits_desc (hw_value w) (hw_descriptor w))"

lemma check_writes_Inr:
  "try_fold (check_write p) seen ws = Inr seen' \<Longrightarrow>
   distinct (map hw_slot ws) \<and> set (map hw_slot ws) \<inter> set seen = {} \<and>
   (\<forall>w \<in> set ws. write_ok p w)"
proof (induction ws arbitrary: seen)
  case (Cons w ws)
  from Cons.prems obtain mid where mid: "check_write p seen w = Inr mid" "try_fold (check_write p) mid ws = Inr seen'"
    by (auto simp: result_simps)
  from Cons.IH [OF mid(2)] mid(1) show ?case
    by (auto simp: check_write_def result_simps live_slot_Inr write_ok_def split: if_splits)
qed simp

lemma check_writes_ok:
  "distinct (map hw_slot ws) \<Longrightarrow> set (map hw_slot ws) \<inter> set seen = {} \<Longrightarrow>
   (\<forall>w \<in> set ws. write_ok p w) \<Longrightarrow>
   \<exists>seen'. try_fold (check_write p) seen ws = Inr seen'"
proof (induction ws arbitrary: seen)
  case (Cons w ws)
  then obtain sl where "live_slot p (hw_slot w) (hw_generation w) = Inr sl" "sl_views sl = 0" "\<not> sl_window sl"
    "sl_descriptor sl = Some (hw_descriptor w)" "hw_owner w = po_id p" "fits_desc (hw_value w) (hw_descriptor w)"
    by (auto simp: live_slot_Inr write_ok_def)
  with Cons.prems(2) have "check_write p seen w = Inr (hw_slot w # seen)" by (simp add: check_write_def)
  with Cons show ?case by auto
qed simp

text \<open>What a commit does to each slot: the written ones show the new value in the other bank.\<close>

abbreviation written_values :: "'l host_write list \<Rightarrow> nat \<rightharpoonup> 'l tensor" where
  "written_values ws \<equiv> map_of (map (\<lambda>w. (hw_slot w, hw_value w)) ws)"

definition committed_slot :: "'l host_write list \<Rightarrow> nat \<Rightarrow> 'l slot \<Rightarrow> 'l slot" where
  "committed_slot ws s sl = (case written_values ws s of None \<Rightarrow> sl
   | Some t \<Rightarrow> sl\<lparr>sl_banks := (sl_banks sl)(\<not> sl_active sl := Some t), sl_active := \<not> sl_active sl\<rparr>)"

lemma commit_slots:
  assumes "pool_commit p ws = Inr p'"
  shows "po_id p' = po_id p \<and> po_slots p' s = map_option (committed_slot ws s) (po_slots p s)"
proof -
  from assms obtain seen where seen: "try_fold (check_write p) [] ws = Inr seen"
    and p': "p' = fold flip_slot (map hw_slot ws) (fold stage_write ws p)"
    by (auto simp: pool_commit_def result_simps)
  from check_writes_Inr [OF seen] have dist: "distinct (map hw_slot ws)" by simp
  have stage: "fold stage_write ws = fold (\<lambda>w. alter_slot (hw_slot w) (fill_bank (hw_value w))) ws"
    and flip: "fold flip_slot (map hw_slot ws) = fold (\<lambda>w. alter_slot (hw_slot w) flip_bank) ws"
    by (simp_all add: fold_map comp_def flip_slot_def [abs_def] stage_write_def [abs_def])
  have dom: "s \<in> hw_slot ` set ws \<longleftrightarrow> written_values ws s \<noteq> None"
    by (auto simp: map_of_eq_None_iff image_image)
  show ?thesis
    unfolding p' stage flip
    by (cases "po_slots p s")
      (auto simp: fold_alter [OF dist] map_of_map_value map_of_map_const dom committed_slot_def fill_bank_def flip_bank_def
        split: option.splits)
qed

lemma inv_transact:
  assumes inv: "pool_inv (p, ls, vs, ws)" and r: "host_transact zero o' p rs stage = (p', outcome)"
  shows "pool_inv (p', ls, vs, ws)"
proof (cases outcome)
  case (Inl e)
  from transact_failure [OF r [unfolded Inl]] have rear: "po_id p' = po_id p" "rel_option same_front (po_slots p s) (po_slots p' s)" for s
    by (simp_all add: rear_only_def)
  have "slot_ok (po_id p) (po_slots p' s) (leases_at s ls) (views_at s vs) (windows_at s ws)" for s
    using rear(2) [of s] pool_invD [OF inv, of s]
    by (cases rule: option.rel_cases) (auto simp: slot_ok_def same_front_def)
  with rear(1) show ?thesis by (simp add: pool_inv_def)
next
  case (Inr x)
  define banks new where "banks = offered zero p rs" and "new = fst (stage banks)"
  note won = transact_success [OF r [unfolded Inr] banks_def new_def]
  have "slot_ok (po_id p) (po_slots p' s) (leases_at s ls) (views_at s vs) (windows_at s ws)" for s
  proof (cases "request_at rs s")
    case None
    with won pool_invD [OF inv, of s] show ?thesis by simp
  next
    case (Some ir)
    obtain i r where ir: "ir = (i, r)" by (cases ir)
    with Some won request_at_iff [of rs s i r] have i: "i < length rs" "rs ! i = r" "br_slot r = s" by simp_all
    then have "r \<in> set rs" by auto
    with won i obtain sl where sl: "po_slots p s = Some sl" "sl_descriptor sl = Some (br_descriptor r)"
      by (auto simp: request_ok_def slot_fits_def)
    have "\<not> br_retain r \<Longrightarrow> fits_desc (new i) (br_descriptor r)"
      using won i(1,2) by (force simp: successor_of_def matches_desc_def)
    moreover have "po_slots p' s = Some (replaced_slot new ir sl)" using won Some sl(1) by simp
    ultimately show ?thesis using pool_invD [OF inv, of s] sl
      by (auto simp: slot_ok_def ir replaced_slot_def flip_bank_def fill_bank_def)
  qed
  with won show ?thesis by (simp add: pool_inv_def)
qed

lemma inv_commit:
  assumes inv: "pool_inv (p, ls, vs, ws)" and r: "pool_commit p writes = Inr p'"
  shows "pool_inv (p', ls, vs, ws)"
proof -
  from r obtain seen where seen: "try_fold (check_write p) [] writes = Inr seen" by (auto simp: pool_commit_def result_simps)
  note slots = commit_slots [OF r]
  have "slot_ok (po_id p) (po_slots p' s) (leases_at s ls) (views_at s vs) (windows_at s ws)" for s
  proof (cases "written_values writes s")
    case None
    then have "committed_slot writes s = id" by (rule_tac ext) (simp add: committed_slot_def)
    with slots [of s] pool_invD [OF inv, of s] show ?thesis by (simp add: option.map_id)
  next
    case (Some t)
    then obtain w where w: "w \<in> set writes" "hw_slot w = s" "hw_value w = t" by (auto dest!: map_of_SomeD)
    with check_writes_Inr [OF seen] obtain sl where sl: "po_slots p s = Some sl"
      "sl_descriptor sl = Some (hw_descriptor w)" "fits_desc t (hw_descriptor w)" by (auto simp: write_ok_def)
    with slots [of s] Some pool_invD [OF inv, of s] show ?thesis
      by (auto simp: slot_ok_def committed_slot_def)
  qed
  then show ?thesis using slots by (simp add: pool_inv_def)
qed

subsection \<open>Reachable pools\<close>

lemma pool_inv_new: "pool_inv (pool_new i, {#}, {#}, {#})"
  by (simp add: pool_inv_def pool_new_def slot_ok_def)

lemma pool_inv_step: "pool_step s s' \<Longrightarrow> pool_inv s \<Longrightarrow> pool_inv s'"
proof (induction rule: pool_step.induct)
  case (leased p physical d p' l ls vs ws)
  with inv_lease [of p ls vs ws physical d p' "Inr l"] show ?case by simp
next
  case (lease_refused p physical d p' e ls vs ws)
  with inv_lease [of p ls vs ws physical d p' "Inl e"] show ?case by simp
qed (auto intro: inv_write inv_commit inv_transact inv_release inv_drop_lease inv_lease_view inv_drop_view inv_drop_window inv_acquire
    simp: lease_window_def view_window_def)

lemma pool_reach_inv: "pool_reach s \<Longrightarrow> pool_inv s"
  by (induction rule: pool_reach.induct) (auto intro: pool_inv_new pool_inv_step)


lemma view_tensor_fits:
  assumes "pool_inv (p, ls, vs, ws)" and "v \<in># vs" and "view_tensor p v = Inr t"
  shows "fits_desc t (vw_descriptor v)"
proof -
  from inv_view [OF assms(1,2)] assms(3) obtain sl where sl: "po_slots p (vw_slot v) = Some sl"
    "sl_descriptor sl = Some (vw_descriptor v)" "sl_banks sl (sl_active sl) = Some t"
    by (auto simp: view_tensor_def result_simps live_slot_Inr split: prod.splits)
  with pool_invD [OF assms(1), of "vw_slot v"] show ?thesis by (auto simp: slot_ok_def)
qed

subsection \<open>Generations only grow\<close>

definition slot_grows :: "'l slot \<Rightarrow> 'l slot \<Rightarrow> bool" where
  "slot_grows sl sl' \<longleftrightarrow> sl_generation sl \<le> sl_generation sl' \<and>
     (sl_generation sl' = sl_generation sl \<longrightarrow> sl_leased sl' \<longrightarrow> sl_leased sl)"

definition pool_grows :: "'l pool \<Rightarrow> 'l pool \<Rightarrow> bool" where
  "pool_grows p p' \<longleftrightarrow> (\<forall>s sl. po_slots p s = Some sl \<longrightarrow> (\<exists>sl'. po_slots p' s = Some sl' \<and> slot_grows sl sl'))"

definition expired :: "'l pool \<Rightarrow> nat \<Rightarrow> nat \<Rightarrow> bool" where
  "expired p s g \<longleftrightarrow> (\<exists>sl. po_slots p s = Some sl \<and> g \<le> sl_generation sl \<and> (sl_generation sl = g \<longrightarrow> \<not> sl_leased sl))"

lemma expired_stale: "expired p s g \<Longrightarrow> live_slot p s g = Inl (StaleGeneration s g)"
  by (auto simp: expired_def live_slot_def)

lemma expired_grows: "pool_grows p p' \<Longrightarrow> expired p s g \<Longrightarrow> expired p' s g"
  by (fastforce simp: expired_def pool_grows_def slot_grows_def)

lemma slot_grows_refl: "slot_grows sl sl"
  by (simp add: slot_grows_def)

lemma pool_grows_refl: "pool_grows p p"
  by (auto simp: pool_grows_def slot_grows_refl)

lemma pool_grows_set:
  "(\<And>old. po_slots p k = Some old \<Longrightarrow> slot_grows old sl) \<Longrightarrow> pool_grows p (set_slot p k sl)"
  by (auto simp: pool_grows_def slot_grows_refl)

lemma grows_lease: "host_lease p physical d = (p', r) \<Longrightarrow> pool_grows p p'"
  by (cases rule: host_lease_cases) (auto simp: pool_grows_def slot_grows_def split: option.splits)

lemma grows_commit: "pool_commit p ws = Inr p' \<Longrightarrow> pool_grows p p'"
  using commit_slots [of p ws p'] by (auto simp: pool_grows_def slot_grows_def committed_slot_def split: option.splits)

lemma rear_only_grows: "rear_only p p' \<Longrightarrow> pool_grows p p'"
  unfolding pool_grows_def
proof (intro allI impI)
  fix s sl assume "rear_only p p'" "po_slots p s = Some sl"
  then have "rel_option same_front (Some sl) (po_slots p' s)" by (metis rear_only_def)
  then show "\<exists>sl'. po_slots p' s = Some sl' \<and> slot_grows sl sl'"
    by (cases rule: option.rel_cases) (auto simp: same_front_def slot_grows_def)
qed

lemma grows_transact:
  assumes "host_transact zero o' p rs stage = (p', outcome)"
  shows "pool_grows p p'"
proof (cases outcome)
  case (Inl e)
  show ?thesis by (rule rear_only_grows [OF transact_failure [OF assms [unfolded Inl]]])
next
  case (Inr x)
  from transact_success [OF assms [unfolded Inr] refl refl] show ?thesis
    by (auto simp: pool_grows_def slot_grows_def replaced_slot_def flip_bank_def fill_bank_def split: option.splits)
qed

lemma grows_release: "release_lease p l = Inr (p', l') \<Longrightarrow> pool_grows p p'"
  by (auto simp: release_lease_def result_simps live_slot_Inr slot_grows_def intro!: pool_grows_set split: if_splits)

lemma grows_step: "pool_step s s' \<Longrightarrow> pool_grows (fst s) (fst s')"
proof (induction rule: pool_step.induct)
  case (dropped l ls p vs ws)
  show ?case using grows_release [of p l] by (auto simp: drop_lease_def pool_grows_refl split: sum.split)
qed (auto simp: grows_lease grows_commit grows_transact grows_release lease_write_def lease_view_def drop_view_def lease_window_def
    view_window_def acquire_window_def drop_window_def result_simps live_slot_Inr slot_grows_def pool_grows_refl
    intro!: pool_grows_set split: if_splits prod.splits option.split)

lemma grows_steps: "pool_step\<^sup>*\<^sup>* s s' \<Longrightarrow> expired (fst s) k g \<Longrightarrow> expired (fst s') k g"
  by (induction rule: rtranclp_induct) (auto intro: expired_grows grows_step)

lemma release_expires: "release_lease p l = Inr (p', l') \<Longrightarrow> expired p' (le_slot l) (le_generation l)"
  by (auto simp: release_lease_def result_simps live_slot_Inr expired_def split: if_splits)

lemma commit_stale:
  assumes "expired p (hw_slot w) (hw_generation w)" and "w \<in> set writes"
  shows "\<not> is_ok (pool_commit p writes)"
proof
  assume "is_ok (pool_commit p writes)"
  then obtain seen where "try_fold (check_write p) [] writes = Inr seen" by (auto simp: is_ok_iff pool_commit_def result_simps)
  from check_writes_Inr [OF this] assms(2) have "write_ok p w" by simp
  with assms(1) show False by (auto simp: write_ok_def expired_def)
qed

lemma expired_slot: "expired p s g \<Longrightarrow> \<exists>sl. po_slots p s = Some sl \<and> (sl_generation sl \<noteq> g \<or> \<not> sl_leased sl)"
  by (auto simp: expired_def)

lemma read_stale:
  assumes "expired p (le_slot l) (le_generation l)" and "l \<in> set ls"
  shows "\<not> is_ok (active_tensors p ls)"
proof -
  have "\<nexists>seen'. try_fold (check_request p) seen ls = Inr seen'" for seen
    using assms(2)
  proof (induction ls arbitrary: seen)
    case (Cons a ls)
    show ?case
    proof (cases "a = l")
      case True
      then show ?thesis using expired_stale [OF assms(1)] by (auto simp: check_request_def)
    next
      case False
      with Cons show ?thesis by (auto simp: result_simps)
    qed
  qed simp
  then show ?thesis by (auto simp: active_tensors_def is_ok_iff result_simps)
qed

lemma transact_stale:
  assumes "expired p (br_slot r) (br_generation r)" and "r \<in> set rs"
  shows "\<exists>p' e. host_transact zero ordered p rs stage = (p', Inl e) \<and> visible p' = visible p"
proof -
  obtain p' outcome where run: "host_transact zero ordered p rs stage = (p', outcome)" by fastforce
  obtain e where "outcome = Inl e"
  proof (cases outcome)
    case (Inr x)
    from transact_success [OF run [unfolded Inr] refl refl] assms(2) have "request_ok p r" by blast
    then show ?thesis using expired_slot [OF assms(1)] by (auto simp: request_ok_def slot_fits_def)
  qed (use that in blast)
  with run rear_only_visible [OF transact_failure [of zero ordered p rs stage p' e]] show ?thesis by blast
qed

lemma transact_first_stale:
  assumes "expired p (br_slot r) (br_generation r)" and "br_owner r = po_id p"
  shows "snd (host_transact zero ordered p (r # rs) stage) = Inl (BankHost (StaleGeneration (br_slot r) (br_generation r)))"
proof -
  from expired_slot [OF assms(1)] obtain sl where "po_slots p (br_slot r) = Some sl" "sl_generation sl \<noteq> br_generation r \<or> \<not> sl_leased sl" by blast
  then have "host_transact zero False p (r # rs) stage = (p, Inl (BankHost (StaleGeneration (br_slot r) (br_generation r))))"
    using assms(2) by (simp add: host_transact_def prepare_bank_slot_def)
  then show ?thesis using transact_ordered_eq [of zero p "r # rs" stage] by (cases ordered) simp_all
qed

lemma stale_operations:
  assumes "expired q s g"
  shows "\<And>l t. le_slot l = s \<Longrightarrow> le_generation l = g \<Longrightarrow> lease_write q l t = Inl (StaleGeneration s g)"
    and "\<And>l. le_slot l = s \<Longrightarrow> le_generation l = g \<Longrightarrow> lease_view q l = Inl (StaleGeneration s g)"
    and "\<And>l. le_slot l = s \<Longrightarrow> le_generation l = g \<Longrightarrow> \<not> le_released l \<Longrightarrow> release_lease q l = Inl (StaleGeneration s g)"
    and "\<And>b d offset bytes. acquire_window b q s g d offset bytes = rbind (checked_range d offset bytes) (\<lambda>_. Inl (StaleGeneration s g))"
    and "\<And>v. vw_slot v = s \<Longrightarrow> vw_generation v = g \<Longrightarrow> view_tensor q v =
      rbind (checked_range (vw_descriptor v) 0 (hd_bytes (vw_descriptor v))) (\<lambda>_. Inl (StaleGeneration s g))"
    and "\<And>w. wi_slot w = s \<Longrightarrow> wi_generation w = g \<Longrightarrow> window_validate q w = Inl (StaleGeneration s g)"
    and "\<And>w writes. hw_slot w = s \<Longrightarrow> hw_generation w = g \<Longrightarrow> hw_owner w = po_id q \<Longrightarrow> pool_commit q (w # writes) = Inl (StaleGeneration s g)"
    and "\<And>l ls. le_slot l = s \<Longrightarrow> le_generation l = g \<Longrightarrow> le_owner l = po_id q \<Longrightarrow> active_tensors q (l # ls) = Inl (StaleGeneration s g)"
  using expired_stale [OF assms]
  by (simp_all add: lease_write_def lease_view_def release_lease_def acquire_window_def view_tensor_def window_validate_def
      pool_commit_def check_write_def active_tensors_def check_request_def split_def)

subsection \<open>Leases, views and commits at work\<close>

definition demo_viewed :: "nat pool \<times> view_cap" where
  "demo_viewed = projr (lease_view demo_pool demo_lease)"

definition demo_released :: "nat pool \<times> lease" where
  "demo_released = projr (release_lease demo_pool demo_lease)"

definition demo_again :: "nat pool \<times> (host_error, lease) result" where
  "demo_again = host_lease (fst demo_released) (Some 7) demo_desc"

definition demo_write :: "nat host_write" where
  "demo_write = projr (staged_write demo_lease (demo_values 8))"

definition demo_committed :: "nat pool" where
  "demo_committed = projr (pool_commit demo_pool [demo_write])"

lemma demo_ok:
  "is_ok (snd demo_leased)" "is_ok (lease_write (fst demo_leased) demo_lease (demo_values 5))"
  "is_ok (lease_view demo_pool demo_lease)" "is_ok (release_lease demo_pool demo_lease)" "is_ok (snd demo_again)"
  "is_ok (pool_commit demo_pool [demo_write])"
  by code_simp+

lemma demo_results:
  "snd demo_leased = Inr demo_lease" "lease_write (fst demo_leased) demo_lease (demo_values 5) = Inr demo_pool"
  "lease_view demo_pool demo_lease = Inr demo_viewed" "release_lease demo_pool demo_lease = Inr demo_released"
  "snd demo_again = Inr (projr (snd demo_again))" "pool_commit demo_pool [demo_write] = Inr demo_committed"
  using demo_ok by (simp_all add: is_ok_iff demo_lease_def demo_pool_def demo_viewed_def demo_released_def demo_committed_def)
    (metis sum.sel(2))+

lemma demo_reach: "pool_reach (fst demo_viewed, {#demo_lease#}, {#snd demo_viewed#}, {#})"
proof -
  have "host_lease (pool_new 0) (Some 7) demo_desc = (fst demo_leased, Inr demo_lease)"
    using demo_results(1) by (simp add: demo_leased_def [symmetric] prod_eq_iff)
  from pool_step.leased [OF this] have "pool_reach (fst demo_leased, {#demo_lease#}, {#}, {#})"
    by (rule pool_reach.step [OF pool_reach.start])
  then have "pool_reach (demo_pool, {#demo_lease#}, {#}, {#})"
    by (rule pool_reach.step) (rule pool_step.wrote [OF _ demo_results(2)], simp)
  then show ?thesis
    by (rule pool_reach.step) (rule pool_step.viewed [where l = demo_lease], simp, simp add: demo_results(3))
qed

lemma demo_again_step:
  "pool_step\<^sup>*\<^sup>* (fst demo_released, {#}, {#}, {#}) (fst demo_again, {#projr (snd demo_again)#}, {#}, {#})"
proof (rule r_into_rtranclp)
  have "host_lease (fst demo_released) (Some 7) demo_desc = (fst demo_again, Inr (projr (snd demo_again)))"
    using demo_results(5) by (simp add: demo_again_def [symmetric] prod_eq_iff)
  then show "pool_step (fst demo_released, {#}, {#}, {#}) (fst demo_again, {#projr (snd demo_again)#}, {#}, {#})"
    by (rule pool_step.leased)
qed

subsection \<open>Three corners of the pool\<close>

text \<open>A lease dropped while a view is live is never released: once the view is gone, too, no capability
  holds the slot, and it still cannot be leased.\<close>

lemma dropped_lease_leaks_slot:
  "snd (host_lease (drop_view (drop_lease (fst demo_viewed) demo_lease) (snd demo_viewed)) (Some 7) demo_desc) =
   Inl (OutstandingBorrow 7)"
  by code_simp

text \<open>A lease gives a view while a mutable window is live, but no window while a view is.\<close>

lemma view_beside_window:
  "is_ok (rbind (lease_window demo_pool demo_lease 0 4) (\<lambda>(p, w). lease_view p demo_lease)) \<and>
   \<not> is_ok (rbind (lease_view demo_pool demo_lease) (\<lambda>(p, v). lease_window p demo_lease 0 4))"
  by code_simp

text \<open>The first private slot is the largest physical id.\<close>

lemma sentinel_collides:
  "snd (host_lease (fst (host_lease (pool_new 0) (Some usize_max) demo_desc)) None (demo_desc\<lparr>hd_shape := [0], hd_bytes := 0\<rparr>)) =
   Inl (OutstandingBorrow usize_max)"
  by (simp add: host_lease_def pool_new_def set_slot_def fresh_slot_def demo_desc_def checked_add_u_def checked_u_def usize_max_eq)

subsection \<open>Properties\<close>

text \<open>C20: In every reachable pool a held lease and a live view find their slot live at their generation and
  with their descriptor. A slot has at most one lease, its counter is the number of live views, at most
  one mutable window borrows from it, and what a view reads has the shape and type of its descriptor.\<close>

theorem pool_capabilities_live:
  assumes "pool_reach (p, ls, vs, ws)"
  shows "(\<forall>l \<in># ls. \<exists>sl. live_slot p (le_slot l) (le_generation l) = Inr sl \<and> sl_descriptor sl = Some (le_descriptor l) \<and>
           leases_at (le_slot l) ls = {#l#}) \<and>
    (\<forall>v \<in># vs. \<exists>sl. live_slot p (vw_slot v) (vw_generation v) = Inr sl \<and> sl_descriptor sl = Some (vw_descriptor v) \<and>
           (\<forall>t. view_tensor p v = Inr t \<longrightarrow> fits_desc t (vw_descriptor v))) \<and>
    (\<forall>w \<in># ws. windows_at (wi_slot w) ws = {#w#}) \<and>
    (\<forall>s sl. po_slots p s = Some sl \<longrightarrow> sl_views sl = size (views_at s vs) \<and> sl_window sl = (windows_at s ws \<noteq> {#}))"
proof -
  note inv = pool_reach_inv [OF assms]
  have views: "sl_views sl = size (views_at s vs) \<and> sl_window sl = (windows_at s ws \<noteq> {#})" if "po_slots p s = Some sl" for s sl
  proof -
    have "sl_views sl = size (views_at s vs)" "size (windows_at s ws) = (if sl_window sl then 1 else 0)"
      using pool_invD [OF inv, of s] that by (simp_all add: slot_ok_def)
    moreover from this(2) have "sl_window sl = (windows_at s ws \<noteq> {#})" by (metis size_empty size_eq_0_iff_empty zero_neq_one)
    ultimately show ?thesis by blast
  qed
  show ?thesis
    using inv_held [OF inv] inv_view [OF inv] inv_window [OF inv] view_tensor_fits [OF inv] views
    by (fastforce simp: live_slot_Inr)
qed

theorem pool_capabilities_live_witness:
  "\<exists>sl. live_slot (fst demo_viewed) 7 1 = Inr sl \<and> sl_descriptor sl = Some demo_desc"
proof -
  have cap: "vw_slot (snd demo_viewed) = 7" "vw_generation (snd demo_viewed) = 1" "vw_descriptor (snd demo_viewed) = demo_desc"
    by code_simp+
  have "\<exists>sl. live_slot (fst demo_viewed) (vw_slot (snd demo_viewed)) (vw_generation (snd demo_viewed)) = Inr sl \<and>
      sl_descriptor sl = Some (vw_descriptor (snd demo_viewed))"
    using pool_capabilities_live [OF demo_reach] by auto
  then show ?thesis by (simp only: cap)
qed

text \<open>C21: Once a lease is released, its generation is dead for good, whatever the pool does next. Writing, viewing,
  releasing and opening a window under it, reading or opening a window through a view of it, validating a window of it,
  and a commit, an authenticated read or a bank transaction whose first entry names it answer that the generation is
  stale (after their own range and owner checks); a commit, read or bank transaction that names it anywhere fails, and
  the failed transaction leaves every visible value in place.\<close>

theorem released_stays_stale:
  assumes "release_lease p l = Inr (p', l')" and "pool_step\<^sup>*\<^sup>* (p', ls, vs, ws) (q, ls', vs', ws')"
  shows "let s = le_slot l; g = le_generation l; stale = StaleGeneration s g in
    lease_write q l t = Inl stale \<and> lease_view q l = Inl stale \<and> release_lease q l = Inl stale \<and>
    lease_window q l offset bytes = rbind (checked_range (le_descriptor l) offset bytes) (\<lambda>_. Inl stale) \<and>
    (\<forall>v. vw_slot v = s \<and> vw_generation v = g \<longrightarrow>
       view_tensor q v = rbind (checked_range (vw_descriptor v) 0 (hd_bytes (vw_descriptor v))) (\<lambda>_. Inl stale) \<and>
       view_window q v offset bytes = rbind (checked_range (vw_descriptor v) offset bytes) (\<lambda>_. Inl stale)) \<and>
    (\<forall>w. wi_slot w = s \<and> wi_generation w = g \<longrightarrow> window_validate q w = Inl stale) \<and>
    (\<forall>w. hw_slot w = s \<and> hw_generation w = g \<longrightarrow>
       (hw_owner w = po_id q \<longrightarrow> pool_commit q (w # writes) = Inl stale) \<and> (w \<in> set writes \<longrightarrow> \<not> is_ok (pool_commit q writes))) \<and>
    (le_owner l = po_id q \<longrightarrow> active_tensors q (l # leases) = Inl stale) \<and> (l \<in> set leases \<longrightarrow> \<not> is_ok (active_tensors q leases)) \<and>
    (\<forall>r. br_slot r = s \<and> br_generation r = g \<longrightarrow>
       (br_owner r = po_id q \<longrightarrow> snd (host_transact zero ordered q (r # rs) stage) = Inl (BankHost stale)) \<and>
       (r \<in> set rs \<longrightarrow> (\<exists>q' e. host_transact zero ordered q rs stage = (q', Inl e) \<and> visible q' = visible q)))"
proof -
  from grows_steps [OF assms(2)] release_expires [OF assms(1)] have gone: "expired q (le_slot l) (le_generation l)" by simp
  have "\<not> le_released l" using assms(1) by (auto simp: release_lease_def split: if_splits)
  note single = stale_operations [OF gone]
  have "\<not> is_ok (pool_commit q writes)" if "hw_slot w = le_slot l" "hw_generation w = le_generation l" "w \<in> set writes" for w :: "'a host_write"
    using commit_stale [of q w writes] gone that by simp
  moreover have "\<exists>q' e. host_transact zero ordered q rs stage = (q', Inl e) \<and> visible q' = visible q"
    if "br_slot r = le_slot l" "br_generation r = le_generation l" "r \<in> set rs" for r
    using transact_stale [of q r rs zero ordered stage] gone that by simp
  moreover have "snd (host_transact zero ordered q (r # rs) stage) = Inl (BankHost (StaleGeneration (le_slot l) (le_generation l)))"
    if "br_slot r = le_slot l" "br_generation r = le_generation l" "br_owner r = po_id q" for r
    using transact_first_stale [of q r zero ordered rs stage] gone that by simp
  ultimately show ?thesis unfolding Let_def lease_window_def view_window_def
    using single(1) [of l t] single(2,3) [of l] single(4-7) single(8) [of l leases] read_stale [OF gone, of leases] \<open>\<not> le_released l\<close>
    by simp blast
qed

theorem released_stays_stale_witness:
  "lease_write (fst demo_again) demo_lease (demo_values 1) = Inl (StaleGeneration 7 1)"
proof -
  have cap: "le_slot demo_lease = 7" "le_generation demo_lease = 1" by code_simp+
  have "release_lease demo_pool demo_lease = Inr (fst demo_released, snd demo_released)" by (simp add: demo_results(4))
  from released_stays_stale [OF this demo_again_step, of "demo_values 1", unfolded Let_def cap] show ?thesis by (rule conjunct1)
qed

lemma commit_ok_iff: "is_ok (pool_commit p ws) \<longleftrightarrow> distinct (map hw_slot ws) \<and> (\<forall>w \<in> set ws. write_ok p w)"
proof -
  have "is_ok (pool_commit p ws) \<longleftrightarrow> (\<exists>seen. try_fold (check_write p) [] ws = Inr seen)"
    by (auto simp: is_ok_iff pool_commit_def result_simps)
  then show ?thesis using check_writes_Inr [of p "[]" ws] check_writes_ok [of ws "[]" p] by auto
qed

lemma written_slot:
  assumes "pool_commit p ws = Inr p'" and "written_values ws s = Some t"
  shows "\<exists>w sl. w \<in> set ws \<and> hw_slot w = s \<and> hw_value w = t \<and> po_slots p s = Some sl \<and>
    po_slots p' s = Some (sl\<lparr>sl_banks := (sl_banks sl)(\<not> sl_active sl := Some t), sl_active := \<not> sl_active sl\<rparr>)"
proof -
  from assms(2) obtain w where w: "w \<in> set ws" "hw_slot w = s" "hw_value w = t" by (auto dest!: map_of_SomeD)
  from assms(1) commit_ok_iff [of p ws] have "\<forall>w \<in> set ws. write_ok p w" by simp
  with w obtain sl where "po_slots p s = Some sl" by (auto simp: write_ok_def)
  with w commit_slots [OF assms(1), of s] assms(2) show ?thesis by (auto simp: committed_slot_def)
qed

lemma commit_visible:
  assumes "pool_commit p ws = Inr p'"
  shows "visible p' = visible p ++ written_values ws"
proof
  fix s
  show "visible p' s = (visible p ++ written_values ws) s"
  proof (cases "written_values ws s")
    case None
    with commit_slots [OF assms, of s] show ?thesis
      by (auto simp: visible_def map_add_def committed_slot_def split: option.splits)
  next
    case (Some t)
    from written_slot [OF assms this] Some show ?thesis by (auto simp: visible_def map_add_def)
  qed
qed

lemma commit_standby:
  assumes "pool_commit p ws = Inr p'"
  shows "standby p' s = (if written_values ws s = None then standby p s else visible p s)"
proof (cases "written_values ws s")
  case None
  with commit_slots [OF assms, of s] show ?thesis
    by (auto simp: standby_def committed_slot_def split: option.splits)
next
  case (Some t)
  from written_slot [OF assms this] Some show ?thesis by (auto simp: standby_def visible_def)
qed

text \<open>C22: A commit is all or nothing. It succeeds exactly when every write owns its live, unborrowed slot and
  no slot is written twice; then every written slot shows its new value and keeps the old one in its
  other bank, and no other slot changes what it shows.\<close>

theorem commit_is_atomic:
  "(is_ok (pool_commit p ws) \<longleftrightarrow> distinct (map hw_slot ws) \<and> (\<forall>w \<in> set ws. write_ok p w)) \<and>
   (pool_commit p ws = Inr p' \<longrightarrow> visible p' = visible p ++ written_values ws \<and>
      (\<forall>s. standby p' s = (if written_values ws s = None then standby p s else visible p s)))"
  using commit_ok_iff [of p ws] commit_visible [of p ws p'] commit_standby [of p ws p'] by blast

theorem commit_is_atomic_witness:
  "visible demo_committed 7 = Some (demo_values 8) \<and> standby demo_committed 7 = Some (demo_values 5)"
proof -
  have cap: "hw_slot demo_write = 7" "hw_value demo_write = demo_values 8" "visible demo_pool 7 = Some (demo_values 5)"
    by code_simp+
  show ?thesis
    using commit_is_atomic [of demo_pool "[demo_write]" demo_committed] demo_results(6)
    by (simp add: cap)
qed

end
