(* ===== verification/RuntimeTheorems.thy ===== *)
theory RuntimeTheorems
  imports EffectRuntime HostPoolTheorems
begin

section \<open>What the effect runtime promises\<close>

subsection \<open>Sorted entries\<close>

lemma tree_insert_map: "map_of (tree_insert k x xs) = (map_of xs)(k \<mapsto> x)"
  if "sorted_wrt (<) (map fst xs)"
  using that
proof (induction xs)
  case (Cons e xs)
  obtain j y where e: "e = (j, y)" by (cases e)
  with Cons have "k < j \<Longrightarrow> map_of xs k = None" by (fastforce simp: map_of_eq_None_iff)
  with e Cons show ?case by auto
qed simp

lemma tree_insert_keys: "fst ` set (tree_insert k x xs) = insert k (fst ` set xs)"
  by (induction k x xs rule: tree_insert.induct) auto

lemma tree_insert_sorted: "sorted_wrt (<) (map fst xs) \<Longrightarrow> sorted_wrt (<) (map fst (tree_insert k x xs))"
proof (induction xs)
  case (Cons e xs)
  obtain j y where e: "e = (j, y)" by (cases e)
  from Cons have "\<forall>i \<in> fst ` set xs. j < i" "sorted_wrt (<) (map fst (tree_insert k x xs))" by (simp_all add: e)
  with Cons.prems show ?case
    unfolding e using tree_insert_keys [of k x xs] by auto
qed simp

lemma sorted_distinct: "sorted_wrt (<) (ks :: nat list) \<Longrightarrow> distinct ks"
  by (simp add: strict_sorted_iff)

lemma tree_insert_fresh: "map_of xs k = None \<Longrightarrow> mset (map snd (tree_insert k x xs)) = add_mset x (mset (map snd xs))"
  by (induction k x xs rule: tree_insert.induct) (auto split: if_splits)

lemma final_values_map:
  "sorted_wrt (<) (map fst (final_values cs)) \<and>
   map_of (final_values cs) = map_of (rev (map (\<lambda>(st, t). (bs_buffer st, (st, t))) cs))"
proof -
  have "sorted_wrt (<) (map fst (fold (\<lambda>(st, t). tree_insert (bs_buffer st) (st, t)) cs xs)) \<and>
      map_of (fold (\<lambda>(st, t). tree_insert (bs_buffer st) (st, t)) cs xs) =
        map_of (rev (map (\<lambda>(st, t). (bs_buffer st, (st, t))) cs) @ xs)"
    if "sorted_wrt (<) (map fst xs)" for xs
    using that
  proof (induction cs arbitrary: xs)
    case (Cons c cs)
    obtain st t where c: "c = (st, t)" by (cases c)
    from Cons.IH [OF tree_insert_sorted [OF Cons.prems], of "bs_buffer st" "(st, t)"] tree_insert_map [OF Cons.prems]
    show ?case by (simp add: c map_of_append)
  qed simp
  from this [of "[]"] show ?thesis by (simp add: final_values_def)
qed

subsection \<open>The invariant\<close>

definition slot_state_ok :: "'l pool \<Rightarrow> nat \<times> persistent_slot \<Rightarrow> bool" where
  "slot_state_ok p bp \<longleftrightarrow> (let (b, ps) = bp in
     bs_buffer (ps_state ps) = b \<and> le_descriptor (ps_lease ps) = host_desc_of (ps_state ps) \<and>
     bs_bytes (ps_state ps) \<le> usize_max \<and> visible p (le_slot (ps_lease ps)) \<noteq> None)"

definition leases_of :: "(nat \<times> persistent_slot) list \<Rightarrow> lease multiset" where
  "leases_of slots = mset (map (ps_lease \<circ> snd) slots)"

definition runtime_inv :: "'l runtime \<Rightarrow> bool" where
  "runtime_inv r \<longleftrightarrow> pool_inv (rt_pool r, leases_of (rt_slots r), {#}, {#}) \<and>
     sorted_wrt (<) (map fst (rt_slots r)) \<and> (\<forall>bp \<in> set (rt_slots r). slot_state_ok (rt_pool r) bp)"

text \<open>What the runtime shows: the state and the value of each buffer.\<close>

definition persistent :: "'l runtime \<Rightarrow> nat \<rightharpoonup> buffer_state \<times> 'l tensor" where
  "persistent r b = (case map_of (rt_slots r) b of None \<Rightarrow> None
     | Some ps \<Rightarrow> map_option (Pair (ps_state ps)) (visible (rt_pool r) (le_slot (ps_lease ps))))"

lemma runtime_slot:
  assumes "runtime_inv r" and "map_of (rt_slots r) b = Some ps"
  shows "\<exists>sl t. po_slots (rt_pool r) (le_slot (ps_lease ps)) = Some sl \<and> sl_leased sl \<and>
    sl_generation sl = le_generation (ps_lease ps) \<and> sl_descriptor sl = Some (host_desc_of (ps_state ps)) \<and>
    le_descriptor (ps_lease ps) = host_desc_of (ps_state ps) \<and>
    sl_views sl = 0 \<and> \<not> sl_window sl \<and> sl_banks sl (sl_active sl) = Some t \<and> fits_desc t (host_desc_of (ps_state ps)) \<and>
    visible (rt_pool r) (le_slot (ps_lease ps)) = Some t \<and> persistent r b = Some (ps_state ps, t) \<and>
    leases_at (le_slot (ps_lease ps)) (leases_of (rt_slots r)) = {#ps_lease ps#} \<and>
    le_owner (ps_lease ps) = po_id (rt_pool r) \<and> \<not> le_released (ps_lease ps) \<and>
    bs_buffer (ps_state ps) = b \<and> bs_bytes (ps_state ps) \<le> usize_max"
proof -
  from assms have inv: "pool_inv (rt_pool r, leases_of (rt_slots r), {#}, {#})"
    and ok: "slot_state_ok (rt_pool r) (b, ps)" by (auto simp: runtime_inv_def dest: map_of_SomeD)
  have "ps_lease ps \<in># leases_of (rt_slots r)"
    using map_of_SomeD [OF assms(2)] by (force simp: leases_of_def image_iff)
  from inv_held [OF inv this] obtain sl where sl: "po_slots (rt_pool r) (le_slot (ps_lease ps)) = Some sl" "sl_leased sl"
    "sl_generation sl = le_generation (ps_lease ps)" "sl_descriptor sl = Some (le_descriptor (ps_lease ps))"
    "leases_at (le_slot (ps_lease ps)) (leases_of (rt_slots r)) = {#ps_lease ps#}"
    "\<not> le_released (ps_lease ps)" "le_owner (ps_lease ps) = po_id (rt_pool r)" by blast
  with ok obtain t where t: "sl_banks sl (sl_active sl) = Some t" by (auto simp: slot_state_ok_def visible_def)
  with pool_invD [OF inv, of "le_slot (ps_lease ps)"] sl ok assms(2) show ?thesis
    by (auto simp: slot_ok_def slot_state_ok_def visible_def persistent_def split: if_splits)
qed

lemma runtime_inv_new: "runtime_inv (runtime_new i)"
  by (simp add: runtime_inv_def runtime_new_def leases_of_def pool_inv_new)

subsection \<open>Snapshots\<close>

lemma set_same_slot: "po_slots p k = Some sl \<Longrightarrow> set_slot p k sl = p"
  by (simp add: set_slot_def fun_upd_idem)

lemma no_views: "sl_views sl = 0 \<Longrightarrow> sl\<lparr>sl_views := 0\<rparr> = sl"
  by (cases sl) simp

lemma snapshot_slot:
  assumes "runtime_inv r" and "map_of (rt_slots r) b = Some ps"
  shows "\<exists>t. runtime_snapshot r (ps_state ps) = (r, Inr (ps_state ps, t)) \<and> persistent r b = Some (ps_state ps, t)"
proof -
  let ?p = "rt_pool r" and ?l = "ps_lease ps"
  from runtime_slot [OF assms] obtain sl t where sl: "po_slots ?p (le_slot ?l) = Some sl" "sl_leased sl"
    "sl_generation sl = le_generation ?l" "le_descriptor ?l = host_desc_of (ps_state ps)"
    "sl_views sl = 0" "sl_banks sl (sl_active sl) = Some t" "persistent r b = Some (ps_state ps, t)"
    "bs_buffer (ps_state ps) = b" "bs_bytes (ps_state ps) \<le> usize_max" by blast
  let ?v = "\<lparr>vw_slot = le_slot ?l, vw_generation = le_generation ?l, vw_descriptor = le_descriptor ?l\<rparr>"
  have view: "lease_view ?p ?l = Inr (set_slot ?p (le_slot ?l) (sl\<lparr>sl_views := 1\<rparr>), ?v)"
    using sl by (simp add: lease_view_def live_slot_def checked_add_u_def checked_u_def usize_max_eq)
  have read: "view_tensor (set_slot ?p (le_slot ?l) (sl\<lparr>sl_views := 1\<rparr>)) ?v = Inr t"
    using sl by (simp add: view_tensor_def checked_range_def host_desc_of_def checked_add_u_def checked_u_def live_slot_def)
  have "drop_view (set_slot ?p (le_slot ?l) (sl\<lparr>sl_views := 1\<rparr>)) ?v = set_slot ?p (le_slot ?l) sl"
    using sl by (simp add: drop_view_def set_slot_def no_views)
  then have "drop_view (set_slot ?p (le_slot ?l) (sl\<lparr>sl_views := 1\<rparr>)) ?v = ?p" by (simp add: set_same_slot sl(1))
  with view read sl(7,8) assms(2) show ?thesis
    by (simp add: runtime_snapshot_def slot_for_def)
qed

text \<open>The snapshots a plan starts from.\<close>

definition live_snaps :: "'l runtime \<Rightarrow> 'l snapshots" where
  "live_snaps r = (\<lambda>(b, v). case persistent r b of None \<Rightarrow> None
     | Some (st, t) \<Rightarrow> if bs_version st = v then Some t else None)"

lemma snapshot_all_ok:
  assumes "runtime_inv r"
  shows "snapshot_all r Map.empty (rt_slots r) = (r, Inr (live_snaps r))"
proof -
  have "\<exists>snaps'. snapshot_all r snaps xs = (r, Inr snaps') \<and>
      (\<forall>b v. snaps' (b, v) = (if b \<in> fst ` set xs \<and> live_snaps r (b, v) \<noteq> None then live_snaps r (b, v) else snaps (b, v)))"
    if "set xs \<subseteq> set (rt_slots r)" "distinct (map fst xs)" for xs snaps
    using that
  proof (induction xs arbitrary: snaps)
    case (Cons x xs)
    obtain b ps where x: "x = (b, ps)" by (cases x)
    have "distinct (map fst (rt_slots r))" using assms by (simp add: runtime_inv_def sorted_distinct)
    with Cons.prems x have "map_of (rt_slots r) b = Some ps" by simp
    from snapshot_slot [OF assms this] obtain t where t: "runtime_snapshot r (ps_state ps) = (r, Inr (ps_state ps, t))"
      "persistent r b = Some (ps_state ps, t)" by blast
    define mid where "mid = snaps((b, bs_version (ps_state ps)) \<mapsto> t)"
    have "\<exists>snaps'. snapshot_all r mid xs = (r, Inr snaps') \<and>
        (\<forall>b v. snaps' (b, v) = (if b \<in> fst ` set xs \<and> live_snaps r (b, v) \<noteq> None then live_snaps r (b, v) else mid (b, v)))"
      by (rule Cons.IH) (use Cons.prems in auto)
    then obtain snaps' where snaps': "snapshot_all r mid xs = (r, Inr snaps')"
      "\<And>c v. snaps' (c, v) = (if c \<in> fst ` set xs \<and> live_snaps r (c, v) \<noteq> None then live_snaps r (c, v) else mid (c, v))"
      by blast
    have "snaps' (c, v) = (if c \<in> fst ` set (x # xs) \<and> live_snaps r (c, v) \<noteq> None then live_snaps r (c, v) else snaps (c, v))" for c v
      using Cons.prems(2) unfolding snaps'(2) by (auto simp: x live_snaps_def t(2) mid_def)
    moreover have "snapshot_all r snaps (x # xs) = (r, Inr snaps')" using snaps'(1) t(1) by (simp add: x mid_def)
    ultimately show ?case by blast
  qed simp
  from this [of "rt_slots r" Map.empty] assms obtain snaps' where
    snaps': "snapshot_all r Map.empty (rt_slots r) = (r, Inr snaps')"
    "\<And>b v. snaps' (b, v) = (if b \<in> fst ` set (rt_slots r) \<and> live_snaps r (b, v) \<noteq> None then live_snaps r (b, v) else None)"
    by (auto simp: runtime_inv_def sorted_distinct)
  have "snaps' (b, v) = live_snaps r (b, v)" for b v
  proof (cases "live_snaps r (b, v)")
    case None
    then show ?thesis by (simp add: snaps'(2))
  next
    case (Some t)
    then have "b \<in> fst ` set (rt_slots r)"
      by (force simp: live_snaps_def persistent_def split: option.splits dest: map_of_SomeD)
    with Some show ?thesis by (simp add: snaps'(2))
  qed
  then have "snaps' = live_snaps r" by auto
  with snaps'(1) show ?thesis by simp
qed

subsection \<open>Committing candidates\<close>

lemma map_of_map_keyed: "map_of (map (\<lambda>(k, x). (k, f k x)) xs) k = map_option (f k) (map_of xs k)"
  by (induction xs) auto

lemma lease_slots_inj:
  assumes "runtime_inv r" and "map_of (rt_slots r) b = Some ps" and "map_of (rt_slots r) c = Some qs"
    and "le_slot (ps_lease ps) = le_slot (ps_lease qs)"
  shows "b = c"
proof -
  from runtime_slot [OF assms(1,2)] runtime_slot [OF assms(1,3)] assms(4)
  have "{#ps_lease ps#} = {#ps_lease qs#}" by metis
  moreover have "hd_id (le_descriptor (ps_lease ps)) = b" "hd_id (le_descriptor (ps_lease qs)) = c"
    using runtime_slot [OF assms(1,2)] runtime_slot [OF assms(1,3)] by (auto simp: host_desc_of_def)
  ultimately show ?thesis by simp
qed

definition candidate_ok :: "'l runtime \<Rightarrow> buffer_state \<times> 'l tensor \<Rightarrow> bool" where
  "candidate_ok r c \<longleftrightarrow> (\<exists>ps. map_of (rt_slots r) (bs_buffer (fst c)) = Some ps \<and>
     same_descriptor (ps_state ps) (fst c) \<and> fits_desc (snd c) (host_desc_of (fst c)))"

lemma final_candidate: "(b, c) \<in> set (final_values cs) \<Longrightarrow> c \<in> set cs \<and> bs_buffer (fst c) = b"
proof -
  assume "(b, c) \<in> set (final_values cs)"
  moreover have "distinct (map fst (final_values cs))" using final_values_map [of cs] by (simp add: sorted_distinct)
  ultimately have "map_of (final_values cs) b = Some c" by simp
  then have "map_of (rev (map (\<lambda>(st, t). (bs_buffer st, (st, t))) cs)) b = Some c" using final_values_map [of cs] by simp
  then show ?thesis by (auto dest!: map_of_SomeD)
qed

definition lease_for :: "'l runtime \<Rightarrow> nat \<Rightarrow> lease" where
  "lease_for r b = ps_lease (the (map_of (rt_slots r) b))"

definition write_for :: "'l runtime \<Rightarrow> nat \<times> (buffer_state \<times> 'l tensor) \<Rightarrow> 'l host_write" where
  "write_for r bc = (let l = lease_for r (fst bc) in \<lparr>hw_owner = le_owner l, hw_slot = le_slot l,
     hw_generation = le_generation l, hw_descriptor = le_descriptor l, hw_value = snd (snd bc)\<rparr>)"

lemma write_for_simps [simp]:
  "hw_owner (write_for r bc) = le_owner (lease_for r (fst bc))" "hw_slot (write_for r bc) = le_slot (lease_for r (fst bc))"
  "hw_generation (write_for r bc) = le_generation (lease_for r (fst bc))"
  "hw_descriptor (write_for r bc) = le_descriptor (lease_for r (fst bc))" "hw_value (write_for r bc) = snd (snd bc)"
  by (simp_all add: write_for_def Let_def)

lemma commit_writes:
  assumes inv: "runtime_inv r" and cands: "\<forall>c \<in> set cs. candidate_ok r c"
  shows "try_map (\<lambda>(buffer, st, t). map_err RtHost (staged_write (ps_lease (the (map_of (rt_slots r) buffer))) t))
      (final_values cs) = Inr (map (write_for r) (final_values cs))" (is ?writes)
    and "is_ok (pool_commit (rt_pool r) (map (write_for r) (final_values cs)))" (is ?commits)
proof -
  have known: "\<exists>ps. map_of (rt_slots r) b = Some ps \<and> lease_for r b = ps_lease ps \<and> same_descriptor (ps_state ps) st \<and>
      fits_desc t (host_desc_of st)" if "(b, st, t) \<in> set (final_values cs)" for b st t
    using final_candidate [OF that] cands by (auto simp: candidate_ok_def lease_for_def)
  have fits: "fits_desc t (le_descriptor (lease_for r b)) \<and> write_ok (rt_pool r) (write_for r (b, st, t))"
    if "(b, st, t) \<in> set (final_values cs)" for b st t
  proof -
    from known [OF that] obtain ps where ps: "map_of (rt_slots r) b = Some ps" "lease_for r b = ps_lease ps"
      "same_descriptor (ps_state ps) st" "fits_desc t (host_desc_of st)" by blast
    then have "fits_desc t (host_desc_of (ps_state ps))" by (simp add: fits_desc_def host_desc_of_def same_descriptor_def)
    with runtime_slot [OF inv ps(1)] ps(2) show ?thesis by (auto simp: write_ok_def)
  qed
  show ?writes
  proof (rule try_map_ok)
    fix bc assume "bc \<in> set (final_values cs)"
    moreover obtain b st t where "bc = (b, st, t)" by (cases bc)
    ultimately show "(case bc of (buffer, st, t) \<Rightarrow> map_err RtHost (staged_write (ps_lease (the (map_of (rt_slots r) buffer))) t)) =
        Inr (write_for r bc)"
      using fits by (simp add: staged_write_def write_for_def Let_def lease_for_def)
  qed
  have "distinct (map (\<lambda>bc. le_slot (lease_for r (fst bc))) (final_values cs))"
  proof -
    have keys: "distinct (map fst (final_values cs))" using final_values_map [of cs] by (simp add: sorted_distinct)
    have "inj_on (\<lambda>b. le_slot (lease_for r b)) (fst ` set (final_values cs))"
    proof (rule inj_onI)
      fix b c assume mem: "b \<in> fst ` set (final_values cs)" "c \<in> fst ` set (final_values cs)"
        and eq: "le_slot (lease_for r b) = le_slot (lease_for r c)"
      from mem obtain st t st' t' where "(b, st, t) \<in> set (final_values cs)" "(c, st', t') \<in> set (final_values cs)" by auto
      from known [OF this(1)] known [OF this(2)] obtain ps qs where
        ps: "map_of (rt_slots r) b = Some ps" "map_of (rt_slots r) c = Some qs"
        "lease_for r b = ps_lease ps" "lease_for r c = ps_lease qs" by blast
      show "b = c" by (rule lease_slots_inj [OF inv ps(1,2)]) (use eq ps(3,4) in argo)
    qed
    with keys have "distinct (map (\<lambda>b. le_slot (lease_for r b)) (map fst (final_values cs)))"
      unfolding distinct_map [of "\<lambda>b. le_slot (lease_for r b)"] by simp
    then show ?thesis by (simp add: comp_def)
  qed
  moreover have "\<forall>w \<in> set (map (write_for r) (final_values cs)). write_ok (rt_pool r) w" using fits by auto
  ultimately show ?commits unfolding commit_ok_iff by (simp only: map_map comp_def write_for_simps simp_thms)
qed

lemma commit_candidates_ok:
  assumes inv: "runtime_inv r" and cands: "\<forall>c \<in> set cs. candidate_ok r c"
  shows "\<exists>r'. commit_candidates r cs = Inr r' \<and> runtime_inv r' \<and> persistent r' = persistent r ++ map_of (final_values cs)"
proof -
  let ?fs = "final_values cs" and ?ws = "map (write_for r) (final_values cs)"
  from commit_writes [OF assms] obtain p' where p': "pool_commit (rt_pool r) ?ws = Inr p'" by (auto simp: is_ok_iff)
  define upd :: "nat \<times> persistent_slot \<Rightarrow> nat \<times> persistent_slot" where "upd = (\<lambda>(b, ps). (b, case map_of ?fs b of Some (st, _) \<Rightarrow> ps\<lparr>ps_state := st\<rparr> | None \<Rightarrow> ps))"
  define r' where "r' = \<lparr>rt_pool = p', rt_slots = map upd (rt_slots r)\<rparr>"
  have run: "commit_candidates r cs = Inr r'"
    using commit_writes(1) [OF assms] p' by (simp add: commit_candidates_def r'_def upd_def)
  have keys: "map fst (rt_slots r') = map fst (rt_slots r)" and leases: "leases_of (rt_slots r') = leases_of (rt_slots r)"
  proof -
    have "fst (upd x) = fst x" "ps_lease (snd (upd x)) = ps_lease (snd x)" for x
      by (auto simp: upd_def split: prod.split option.split)
    then show "map fst (rt_slots r') = map fst (rt_slots r)" "leases_of (rt_slots r') = leases_of (rt_slots r)"
      by (simp_all add: r'_def leases_of_def comp_def)
  qed
  have pool: "rt_pool r' = p'" by (simp add: r'_def)
  have lookup: "map_of (rt_slots r') b = map_option (\<lambda>ps. snd (upd (b, ps))) (map_of (rt_slots r) b)" for b
    unfolding r'_def upd_def runtime.simps by (simp add: map_of_map_keyed)
  have slots: "visible p' (le_slot (ps_lease ps)) = (case map_of ?fs b of None \<Rightarrow> visible (rt_pool r) (le_slot (ps_lease ps))
      | Some (st, t) \<Rightarrow> Some t)" if ps: "map_of (rt_slots r) b = Some ps" for b ps
  proof -
    have keys: "distinct (map fst ?fs)" using final_values_map [of cs] by (simp add: sorted_distinct)
    have "written_values ?ws (le_slot (ps_lease ps)) = map_option snd (map_of ?fs b)"
    proof (cases "map_of ?fs b")
      case (Some c)
      from commit_ok_iff [of "rt_pool r" ?ws] p' have "distinct (map fst (map (\<lambda>w. (hw_slot w, hw_value w)) ?ws))" by (simp add: comp_def)
      moreover have "(le_slot (ps_lease ps), snd c) \<in> set (map (\<lambda>w. (hw_slot w, hw_value w)) ?ws)"
        using map_of_SomeD [OF Some] ps by (force simp: image_iff lease_for_def)
      ultimately show ?thesis using Some by simp
    next
      case None
      have "le_slot (ps_lease ps) \<notin> hw_slot ` set ?ws"
      proof
        assume "le_slot (ps_lease ps) \<in> hw_slot ` set ?ws"
        then obtain c d where c: "(c, d) \<in> set ?fs" "le_slot (ps_lease ps) = le_slot (lease_for r c)" by auto
        with final_candidate [OF c(1)] cands obtain qs where "map_of (rt_slots r) c = Some qs" by (auto simp: candidate_ok_def)
        with lease_slots_inj [OF inv ps this] c(2) have "b = c" by (simp add: lease_for_def)
        with c(1) None show False by (force simp: map_of_eq_None_iff)
      qed
      then have "written_values ?ws (le_slot (ps_lease ps)) = None" by (force simp: map_of_eq_None_iff)
      with None show ?thesis by simp
    qed
    then show ?thesis using commit_visible [OF p'] by (auto simp: map_add_def split: option.splits)
  qed
  have same: "persistent r' b = (persistent r ++ map_of ?fs) b" for b
  proof (cases "map_of (rt_slots r) b")
    case None
    then have "map_of ?fs b = None"
      using final_candidate [of b _ cs] cands by (cases "map_of ?fs b") (fastforce simp: candidate_ok_def dest: map_of_SomeD)+
    with None show ?thesis by (simp add: persistent_def lookup map_add_def)
  next
    case (Some ps)
    then show ?thesis using slots [OF Some]
      by (auto simp: persistent_def lookup upd_def map_add_def pool split: option.split)
  qed
  have "slot_state_ok p' (upd (b, ps))" if mem: "(b, ps) \<in> set (rt_slots r)" for b ps
  proof -
    have "distinct (map fst (rt_slots r))" using inv by (simp add: runtime_inv_def sorted_distinct)
    with mem have ps: "map_of (rt_slots r) b = Some ps" by simp
    note slot = runtime_slot [OF inv ps]
    show ?thesis
    proof (cases "map_of ?fs b")
      case None
      with slot slots [OF ps] show ?thesis by (auto simp: slot_state_ok_def upd_def)
    next
      case (Some c)
      with final_candidate map_of_SomeD [OF Some] cands have "candidate_ok r c" "bs_buffer (fst c) = b" by fastforce+
      with ps have "same_descriptor (ps_state ps) (fst c)" "bs_buffer (fst c) = b" by (auto simp: candidate_ok_def)
      with slot slots [OF ps] Some show ?thesis
        by (cases c) (auto simp: slot_state_ok_def upd_def host_desc_of_def same_descriptor_def)
    qed
  qed
  moreover have "pool_inv (p', leases_of (rt_slots r), {#}, {#})" using inv inv_commit [OF _ p'] by (simp add: runtime_inv_def)
  moreover have "set (rt_slots r') = upd ` set (rt_slots r)" by (simp add: r'_def)
  moreover have "sorted_wrt (<) (map fst (rt_slots r'))" using inv unfolding keys by (simp add: runtime_inv_def)
  ultimately have "runtime_inv r'" unfolding runtime_inv_def leases pool by auto
  with run same show ?thesis by auto
qed

subsection \<open>Building candidates\<close>

lemma store_into_descriptor:
  "store_into view plan t s = Inr c \<Longrightarrow> td_shape c = td_shape t \<and> td_dtype c = td_dtype t"
  by (auto simp: store_into_def assign_view_from_def static_index_update_from_def assign_from_def result_simps Let_def
      split: if_splits option.splits)

definition snaps_fit :: "'l runtime \<Rightarrow> 'l snapshots \<Rightarrow> bool" where
  "snaps_fit r snaps \<longleftrightarrow> (\<forall>b v t ps. snaps (b, v) = Some t \<longrightarrow> map_of (rt_slots r) b = Some ps \<longrightarrow>
     fits_desc t (host_desc_of (ps_state ps)))"

lemma live_snaps_fit: "runtime_inv r \<Longrightarrow> snaps_fit r (live_snaps r)"
  using runtime_slot [of r] by (fastforce simp: snaps_fit_def live_snaps_def split: option.splits prod.splits if_splits)

lemma stage_candidate_ok:
  assumes "stage_candidate (snaps, cs) step src = Inr (snaps', cs')" and "snaps_fit r snaps"
    and "check_live_target r step = Inr ()" and "bs_buffer (es_reads step ! 0) = bs_buffer (es_write step)"
  shows "\<exists>c. cs' = cs @ [(es_write step, c)] \<and> snaps' = snaps((bs_buffer (es_write step), bs_version (es_write step)) \<mapsto> c) \<and>
    candidate_ok r (es_write step, c) \<and> snaps_fit r snaps'"
proof -
  let ?w = "es_write step"
  from assms(1) obtain t s c where t: "live_snapshot snaps (es_reads step ! 0) = Inr t"
    and c: "store_into (es_target_view step) (es_index_plan step) t s = Inr c"
    and out: "cs' = cs @ [(?w, c)]" "snaps' = snaps((bs_buffer ?w, bs_version ?w) \<mapsto> c)"
    by (auto simp: stage_candidate_def result_simps store_err_def Let_def split: sum.splits if_splits)
  from assms(3) obtain ps where ps: "map_of (rt_slots r) (bs_buffer ?w) = Some ps" "same_descriptor (ps_state ps) ?w"
    by (auto simp: check_live_target_def result_simps Let_def split: if_splits)
  from t assms(2,4) ps(1) have "fits_desc t (host_desc_of (ps_state ps))"
    by (auto simp: live_snapshot_def snaps_fit_def result_simps)
  with store_into_descriptor [OF c] have fit: "fits_desc c (host_desc_of (ps_state ps))" by (simp add: fits_desc_def)
  then have "fits_desc c (host_desc_of ?w)" using ps(2) by (simp add: fits_desc_def host_desc_of_def same_descriptor_def)
  with ps have "candidate_ok r (?w, c)" by (simp add: candidate_ok_def)
  moreover have "snaps_fit r snaps'" using assms(2) fit ps(1) by (auto simp: snaps_fit_def out(2))
  ultimately show ?thesis using out by blast
qed

lemma stage_all_ok:
  assumes step: "\<And>state s state'. s \<in> set ss \<Longrightarrow> run state s = Inr state' \<Longrightarrow> \<exists>src. stage_candidate state (eff s) src = Inr state'"
    and "try_fold run (snaps, cs) ss = Inr (snaps', cs')" and "snaps_fit r snaps"
    and "\<forall>s \<in> set ss. check_live_target r (eff s) = Inr () \<and> bs_buffer (es_reads (eff s) ! 0) = bs_buffer (es_write (eff s))"
    and "\<forall>c \<in> set cs. candidate_ok r c"
  shows "(\<forall>c \<in> set cs'. candidate_ok r c) \<and> map fst cs' = map fst cs @ map (\<lambda>s. es_write (eff s)) ss"
  using assms
proof (induction ss arbitrary: snaps cs)
  case (Cons s ss)
  from Cons.prems(2) obtain snaps1 cs1 where one: "run (snaps, cs) s = Inr (snaps1, cs1)"
    and rest: "try_fold run (snaps1, cs1) ss = Inr (snaps', cs')" by (auto simp: result_simps)
  from Cons.prems(1) [OF _ one] obtain src where "stage_candidate (snaps, cs) (eff s) src = Inr (snaps1, cs1)" by auto
  from stage_candidate_ok [OF this Cons.prems(3)] Cons.prems(4) obtain c where
    c: "cs1 = cs @ [(es_write (eff s), c)]" "candidate_ok r (es_write (eff s), c)" "snaps_fit r snaps1" by auto
  have "(\<forall>c \<in> set cs'. candidate_ok r c) \<and> map fst cs' = map fst cs1 @ map (\<lambda>s. es_write (eff s)) ss"
    by (rule Cons.IH [OF _ rest]) (use Cons.prems c in auto)
  with c(1) show ?case by simp
qed simp

lemma checks_Inr: "try_fold (\<lambda>_. f) () xs = Inr u \<longleftrightarrow> (\<forall>x \<in> set xs. f x = Inr ())"
  by (induction xs) (auto simp: result_simps)

lemma disciplined_read: "disciplined steps \<Longrightarrow> s \<in> set steps \<Longrightarrow> bs_buffer (es_reads s ! 0) = bs_buffer (es_write s)"
  by (auto simp: disciplined_def in_set_conv_nth step_ok_def)

lemma validated_disciplined: "effect_plan_validate steps = Inr u \<Longrightarrow> disciplined steps"
  by (auto simp: effect_plan_validate_def result_simps try_fold_check_step)

lemma run_candidate_stage: "run_candidate sources fail state s = Inr state' \<Longrightarrow> \<exists>src. stage_candidate state s src = Inr state'"
  by (auto simp: run_candidate_def split: if_splits)

lemma run_rebased_stage: "run_rebased fail state s = Inr state' \<Longrightarrow> \<exists>src. stage_candidate state (rs_effect s) src = Inr state'"
  by (auto simp: run_rebased_def split: if_splits)

text \<open>An execution that fails leaves the runtime as it was; one that succeeds keeps the invariant.\<close>

lemma execute_outcome:
  assumes inv: "runtime_inv r" and run: "runtime_execute r steps sources fail = (r', outcome)"
  shows "(case outcome of Inl e \<Rightarrow> r' = r
    | Inr states \<Rightarrow> states = map es_write steps \<and> runtime_inv r' \<and>
        (\<exists>snaps cs. try_fold (run_candidate sources fail) (live_snaps r, []) steps = Inr (snaps, cs) \<and>
           map fst cs = states \<and> persistent r' = persistent r ++ map_of (final_values cs)))"
proof (cases outcome)
  case (Inl e)
  with run show ?thesis
    by (auto simp: runtime_execute_def snapshot_all_ok [OF inv] split: sum.splits)
next
  case (Inr states)
  with run obtain snaps cs where valid: "effect_plan_validate steps = Inr ()"
    and live: "\<forall>s \<in> set steps. check_live_target r s = Inr ()"
    and loop: "try_fold (run_candidate sources fail) (live_snaps r, []) steps = Inr (snaps, cs)"
    and commit: "commit_candidates r cs = Inr r'" and states: "states = map fst cs"
    by (auto simp: runtime_execute_def snapshot_all_ok [OF inv] result_simps checks_Inr split: sum.splits)
  have "(\<forall>c \<in> set cs. candidate_ok r c) \<and> map fst cs = map es_write steps"
    using stage_all_ok [where eff = "\<lambda>s. s" and r = r, OF run_candidate_stage loop live_snaps_fit [OF inv]]
      live disciplined_read [OF validated_disciplined [OF valid]] by simp
  with commit_candidates_ok [OF inv, of cs] commit loop states Inr show ?thesis by auto
qed

subsection \<open>Effect graphs on the runtime\<close>

lemma map_le_updates: "f \<subseteq>\<^sub>m g \<Longrightarrow> f(x \<mapsto> y) \<subseteq>\<^sub>m g(x \<mapsto> y)"
  by (auto simp: map_le_def)

lemma map_leD: "f \<subseteq>\<^sub>m g \<Longrightarrow> f x = Some y \<Longrightarrow> g x = Some y"
  by (force simp: map_le_def dom_def)

abbreviation last_values :: "(buffer_state \<times> 'l tensor) list \<Rightarrow> nat \<rightharpoonup> buffer_state \<times> 'l tensor" where
  "last_values cs \<equiv> map_of (rev (map (\<lambda>(st, t). (bs_buffer st, (st, t))) cs))"

lemma last_values_snoc: "last_values (cs @ [(st, t)]) = (last_values cs)(bs_buffer st \<mapsto> (st, t))"
  by simp

text \<open>The executor of a graph and the runtime make the same candidates.\<close>

definition committed :: "(nat \<rightharpoonup> 'l tensor) \<Rightarrow> (nat \<rightharpoonup> buffer_state) \<Rightarrow> (buffer_state \<times> 'l tensor) list \<Rightarrow> 'l effect_commit \<Rightarrow> bool" where
  "committed vs sts cs c \<longleftrightarrow> (\<forall>b. ec_values c b = (case last_values cs b of None \<Rightarrow> vs b | Some (st, t) \<Rightarrow> Some t) \<and>
     ec_states c b = (case last_values cs b of None \<Rightarrow> sts b | Some (st, t) \<Rightarrow> Some st))"

lemma candidate_simulates:
  assumes "run_assignment (snaps, c) a = Inr (snaps', c')" and "es_reads (as_step a) ! 1 = as_source a"
    and "snaps \<subseteq>\<^sub>m live" and "committed vs sts cs c"
  shows "\<exists>live' x. run_candidate Map.empty None (live, cs) (as_step a) = Inr (live', cs @ [x]) \<and>
    snaps' \<subseteq>\<^sub>m live' \<and> committed vs sts (cs @ [x]) c' \<and> fst x = es_write (as_step a)"
proof -
  let ?s = "as_step a" and ?w = "es_write (as_step a)"
  from assms(1) obtain t u v where t: "snaps (bs_buffer (es_reads ?s ! 0), bs_version (es_reads ?s ! 0)) = Some t"
    and u: "snaps (bs_buffer (as_source a), bs_version (as_source a)) = Some u"
    and v: "store_into (es_target_view ?s) (es_index_plan ?s) t u = Inr v"
    and out: "snaps' = snaps((bs_buffer ?w, bs_version ?w) \<mapsto> v)"
      "c' = \<lparr>ec_values = (ec_values c)(bs_buffer ?w \<mapsto> v), ec_states = (ec_states c)(bs_buffer ?w \<mapsto> ?w),
             ec_trace = ec_trace c @ [es_id ?s]\<rparr>"
    by (auto simp: run_assignment_def snapshot_of_def result_simps store_err_def Let_def)
  have "run_candidate Map.empty None (live, cs) ?s =
      Inr (live((bs_buffer ?w, bs_version ?w) \<mapsto> v), cs @ [(?w, v)])"
    using map_leD [OF assms(3) t] map_leD [OF assms(3) u] v
    by (simp add: run_candidate_def stage_candidate_def source_of_def live_snapshot_def store_err_def assms(2) [unfolded One_nat_def] Let_def)
  moreover have "committed vs sts (cs @ [(?w, v)]) c'"
    unfolding committed_def last_values_snoc out(2) using assms(4) by (simp add: committed_def)
  ultimately show ?thesis using map_le_updates [OF assms(3)] out(1) by fastforce
qed

lemma candidates_simulate:
  "try_fold run_assignment (snaps, c) as = Inr (snaps', c') \<Longrightarrow> \<forall>a \<in> set as. es_reads (as_step a) ! 1 = as_source a \<Longrightarrow>
   snaps \<subseteq>\<^sub>m live \<Longrightarrow> committed vs sts cs c \<Longrightarrow>
   \<exists>live' new. try_fold (run_candidate Map.empty None) (live, cs) (map as_step as) = Inr (live', cs @ new) \<and>
     committed vs sts (cs @ new) c' \<and> map fst new = map (\<lambda>a. es_write (as_step a)) as"
proof (induction as arbitrary: snaps c live cs)
  case (Cons a as)
  from Cons.prems(1) obtain snaps1 c1 where one: "run_assignment (snaps, c) a = Inr (snaps1, c1)"
    and rest: "try_fold run_assignment (snaps1, c1) as = Inr (snaps', c')" by (auto simp: result_simps)
  from candidate_simulates [OF one _ Cons.prems(3,4)] Cons.prems(2) obtain live1 x where
    x: "run_candidate Map.empty None (live, cs) (as_step a) = Inr (live1, cs @ [x])" "snaps1 \<subseteq>\<^sub>m live1"
      "committed vs sts (cs @ [x]) c1" "fst x = es_write (as_step a)" by auto
  from Cons.IH [OF rest _ x(2,3)] Cons.prems(2) obtain live2 new where
    "try_fold (run_candidate Map.empty None) (live1, cs @ [x]) (map as_step as) = Inr (live2, (cs @ [x]) @ new)"
    "committed vs sts ((cs @ [x]) @ new) c'" "map fst new = map (\<lambda>a. es_write (as_step a)) as" by auto
  with x(1,4) have "try_fold (run_candidate Map.empty None) (live, cs) (map as_step (a # as)) = Inr (live2, cs @ x # new) \<and>
     committed vs sts (cs @ x # new) c' \<and> map fst (x # new) = map (\<lambda>a. es_write (as_step a)) (a # as)" by simp
  then show ?case by blast
qed (auto intro: exI [of _ "[]"])

text \<open>A runtime that holds the initial values of a graph.\<close>

definition holds_initial :: "'l runtime \<Rightarrow> 'l effect_graph \<Rightarrow> bool" where
  "holds_initial r g \<longleftrightarrow> (\<forall>b t. initial_of g b = Some t \<longrightarrow> persistent r b = Some (handle b 0 t, t))"

lemma persistent_slot_of: "persistent r b = Some (st, t) \<Longrightarrow> \<exists>ps. map_of (rt_slots r) b = Some ps \<and> ps_state ps = st"
  by (auto simp: persistent_def split: option.splits)

lemma execute_graph:
  assumes inv: "runtime_inv r" and ok: "graph_ok g" and holds: "holds_initial r g"
    and run: "runtime_execute r (steps_of g) Map.empty None = (r', outcome)"
  shows "case effect_execute g of
      Inl e \<Rightarrow> r' = r \<and> outcome = Inl (RtEffect e)
    | Inr c \<Rightarrow> runtime_inv r' \<and> outcome = Inr (map es_write (steps_of g)) \<and>
        persistent r' = (\<lambda>b. case initial_of g b of None \<Rightarrow> persistent r b
          | Some _ \<Rightarrow> Some (the (ec_states c b), the (ec_values c b)))"
proof (cases "effect_execute g")
  case (Inl e)
  have "effect_plan_validate (steps_of g) = Inl e"
    using Inl execute_graph_ok [OF ok] validate_built [OF ok] by (auto split: option.splits)
  with run Inl show ?thesis by (auto simp: runtime_execute_def)
next
  case (Inr c)
  then obtain sts snaps' where valid: "effect_plan_validate (steps_of g) = Inr ()"
    and sts: "initial_states (eg_initial g) = Inr sts"
    and loop: "try_fold run_assignment (initial_snapshots (eg_initial g),
      \<lparr>ec_values = initial_of g, ec_states = sts, ec_trace = []\<rparr>) (eg_assignments g) = Inr (snaps', c)"
    by (auto simp: effect_execute_def result_simps)
  from ok have "\<forall>(b, t) \<in> set (eg_initial g). fits t" by (simp add: graph_ok_def)
  with initial_states_ok sts have sts: "sts = (\<lambda>b. map_option (handle b 0) (initial_of g b))" by fastforce
  have assigned: "assignment_ok (initial_of g) (take i (steps_of g)) (eg_assignments g ! i)" if "i < length (eg_assignments g)" for i
    using ok that by (simp add: graph_ok_def)
  then have reads: "\<forall>a \<in> set (eg_assignments g). es_reads (as_step a) ! 1 = as_source a"
    by (fastforce simp: in_set_conv_nth assignment_ok_def)
  have "initial_snapshots (eg_initial g) \<subseteq>\<^sub>m live_snaps r"
    using holds by (auto simp: map_le_def initial_snapshots_def live_snaps_def holds_initial_def split: if_splits)
  from candidates_simulate [OF loop reads this, of "initial_of g" sts "[]"] obtain live' cs where
    cs: "try_fold (run_candidate Map.empty None) (live_snaps r, []) (steps_of g) = Inr (live', cs)"
      "committed (initial_of g) sts cs c" "map fst cs = map es_write (steps_of g)"
    by (auto simp: committed_def effect_graph_plan_def comp_def)
  have live: "check_live_target r s = Inr ()" if "s \<in> set (steps_of g)" for s
  proof -
    from that obtain i where "i < length (eg_assignments g)" "s = as_step (eg_assignments g ! i)"
      by (metis built_steps in_set_conv_nth nth_steps)
    with assigned [of i] obtain b v t where w: "initial_of g b = Some t" "es_write s = handle b v t"
      by (auto simp: assignment_ok_def)
    with holds have "persistent r b = Some (handle b 0 t, t)" by (simp add: holds_initial_def)
    with persistent_slot_of obtain ps where "map_of (rt_slots r) b = Some ps" "ps_state ps = handle b 0 t" by blast
    with w show ?thesis by (simp add: check_live_target_def same_descriptor_def)
  qed
  have "(\<forall>x \<in> set cs. candidate_ok r x)"
    using stage_all_ok [where eff = "\<lambda>s. s" and r = r, OF run_candidate_stage cs(1) live_snaps_fit [OF inv]]
      live disciplined_read [OF validated_disciplined [OF valid]] by simp
  from commit_candidates_ok [OF inv this] obtain r1 where r1: "commit_candidates r cs = Inr r1" "runtime_inv r1"
    "persistent r1 = persistent r ++ map_of (final_values cs)" by blast
  have checks: "try_fold (\<lambda>_. check_live_target r) () (steps_of g) = Inr ()" using live by (simp add: checks_Inr)
  have fin: "r' = r1" "outcome = Inr (map es_write (steps_of g))"
    using run valid checks cs r1(1) by (simp_all add: runtime_execute_def snapshot_all_ok [OF inv])
  have known: "\<exists>t. initial_of g b = Some t" if "last_values cs b = Some x" for b x
  proof -
    from that obtain st t where "(st, t) \<in> set cs" "bs_buffer st = b" by (auto dest!: map_of_SomeD)
    then have "st \<in> set (map fst cs)" by force
    then have "st \<in> es_write ` set (steps_of g)" by (simp add: cs(3))
    then obtain s where "s \<in> set (steps_of g)" "es_write s = st" by blast
    with written_buffers [OF ok] \<open>bs_buffer st = b\<close> show ?thesis by fastforce
  qed
  have "persistent r1 b = (case initial_of g b of None \<Rightarrow> persistent r b
      | Some _ \<Rightarrow> Some (the (ec_states c b), the (ec_values c b)))" for b
  proof (cases "last_values cs b")
    case None
    with cs(2) have "ec_values c b = initial_of g b" "ec_states c b = sts b" by (simp_all add: committed_def)
    with None holds show ?thesis
      unfolding r1(3) using final_values_map [of cs] by (auto simp: map_add_def sts holds_initial_def split: option.split)
  next
    case (Some x)
    obtain st t where x: "x = (st, t)" by (cases x)
    with Some cs(2) have "ec_values c b = Some t" "ec_states c b = Some st" by (simp_all add: committed_def)
    with Some x known [OF Some] show ?thesis
      unfolding r1(3) using final_values_map [of cs] by (auto simp: map_add_def)
  qed
  with Inr fin r1(2) show ?thesis by auto
qed

subsection \<open>Registration\<close>

lemma visible_set: "visible (set_slot p k sl) = (visible p)(k := sl_banks sl (sl_active sl))"
  by (auto simp: visible_def fun_eq_iff)

lemma lease_visible:
  assumes "host_lease p physical d = (p', res)"
  shows "(\<forall>s. (\<forall>l. res = Inr l \<longrightarrow> s \<noteq> le_slot l) \<longrightarrow> visible p' s = visible p s)"
  using assms
  by (cases rule: host_lease_cases) (auto simp: visible_def fresh_slot_def split: option.splits)

lemma lease_descriptor: "host_lease p physical d = (p', Inr l) \<Longrightarrow> le_descriptor l = d \<and> \<not> le_released l"
  by (erule host_lease_cases) auto

lemma lease_state_ok:
  assumes inv: "pool_inv (p, ls, vs, ws)" and fits: "fits_desc t (host_desc_of st)" and run: "lease_state p st t = (p', res)"
  shows "case res of
      Inl e \<Rightarrow> pool_inv (p', ls, vs, ws) \<and> visible p' = visible p
    | Inr l \<Rightarrow> pool_inv (p', add_mset l ls, vs, ws) \<and> le_descriptor l = host_desc_of st \<and>
        visible p' (le_slot l) = Some t \<and> (\<forall>s. s \<noteq> le_slot l \<longrightarrow> visible p' s = visible p s)"
proof -
  define physical where "physical = (if bs_bytes st \<noteq> 0 then Some (bs_buffer st) else None)"
  obtain p1 r1 where lease: "host_lease p physical (host_desc_of st) = (p1, r1)" by fastforce
  note inv1 = inv_lease [OF inv lease]
  show ?thesis
  proof (cases r1)
    case (Inl e)
    with lease run have "p' = p1" "res = Inl (RtHost e)" by (simp_all add: lease_state_def physical_def)
    with Inl inv1 lease_visible [OF lease] show ?thesis by (auto simp: fun_eq_iff)
  next
    case (Inr l)
    with inv1 have inv1: "pool_inv (p1, add_mset l ls, vs, ws)" by simp
    from lease_descriptor lease Inr have desc: "le_descriptor l = host_desc_of st" by blast
    from inv_held [OF inv1, of l] obtain sl where sl: "po_slots p1 (le_slot l) = Some sl" "sl_leased sl"
      "sl_generation sl = le_generation l" by auto
    define p2 where "p2 = set_slot p1 (le_slot l) (sl\<lparr>sl_banks := (sl_banks sl)(sl_active sl := Some t)\<rparr>)"
    have wrote: "lease_write p1 l t = Inr p2"
      using sl fits desc by (simp add: lease_write_def live_slot_def p2_def)
    have "p' = p2" "res = Inr l" using run lease Inr wrote by (simp_all add: lease_state_def physical_def)
    moreover have "visible p2 = (visible p1)(le_slot l \<mapsto> t)" by (simp add: p2_def visible_set)
    moreover have "visible p1 s = visible p s" if "s \<noteq> le_slot l" for s
      using lease_visible [OF lease] that Inr by simp
    ultimately show ?thesis using inv_write [OF inv1 _ wrote] desc by simp
  qed
qed

lemma slot_fresh:
  assumes "pool_inv (p, add_mset l ls, vs, ws)" and "l' \<in># ls"
  shows "le_slot l' \<noteq> le_slot l"
proof
  assume eq: "le_slot l' = le_slot l"
  from inv_held [OF assms(1), of l] have "leases_at (le_slot l) (add_mset l ls) = {#l#}" by auto
  then have "leases_at (le_slot l) ls = {#}" by simp
  moreover have "l' \<in># leases_at (le_slot l) ls" using assms(2) eq by simp
  ultimately show False by (simp only: empty_not_add_mset set_mset_empty empty_iff)
qed

lemma held_slots: "(b, ps) \<in> set slots \<Longrightarrow> ps_lease ps \<in># leases_of slots"
  by (force simp: leases_of_def image_iff)

lemma leases_of_insert: "map_of slots b = None \<Longrightarrow> leases_of (tree_insert b ps slots) = add_mset (ps_lease ps) (leases_of slots)"
proof -
  assume new: "map_of slots b = None"
  have "leases_of xs = image_mset ps_lease (mset (map snd xs))" for xs :: "(nat \<times> persistent_slot) list"
    by (simp add: leases_of_def image_mset.compositionality comp_def)
  then show ?thesis using tree_insert_fresh [OF new, of ps] by simp
qed

text \<open>Adding one registered buffer.\<close>

lemma add_slot:
  assumes inv: "runtime_inv r" and new: "map_of (rt_slots r) b = None"
    and fits: "fits_desc t (host_desc_of st)" "bs_buffer st = b" "bs_bytes st \<le> usize_max"
    and run: "lease_state (rt_pool r) st t = (p', Inr l)"
    and r': "r' = \<lparr>rt_pool = p', rt_slots = tree_insert b \<lparr>ps_state = st, ps_lease = l\<rparr> (rt_slots r)\<rparr>"
  shows "runtime_inv r' \<and> persistent r' = (persistent r)(b \<mapsto> (st, t))"
proof -
  let ?ps = "\<lparr>ps_state = st, ps_lease = l\<rparr>"
  have pinv: "pool_inv (rt_pool r, leases_of (rt_slots r), {#}, {#})" and sorted: "sorted_wrt (<) (map fst (rt_slots r))"
    using inv by (simp_all add: runtime_inv_def)
  from lease_state_ok [OF pinv fits(1) run] have ok: "pool_inv (p', add_mset l (leases_of (rt_slots r)), {#}, {#})"
    "le_descriptor l = host_desc_of st" "visible p' (le_slot l) = Some t"
    and others: "\<And>s. s \<noteq> le_slot l \<Longrightarrow> visible p' s = visible (rt_pool r) s" by simp_all
  have same: "visible p' (le_slot (ps_lease ps)) = visible (rt_pool r) (le_slot (ps_lease ps))" if "(c, ps) \<in> set (rt_slots r)" for c ps
    by (rule others) (rule slot_fresh [OF ok(1) held_slots [OF that]])
  have lookup: "map_of (rt_slots r') = (map_of (rt_slots r))(b \<mapsto> ?ps)" by (simp add: r' tree_insert_map [OF sorted])
  have sorted': "sorted_wrt (<) (map fst (rt_slots r'))" by (simp add: r' tree_insert_sorted [OF sorted])
  have "slot_state_ok p' (c, ps)" if mem: "(c, ps) \<in> set (rt_slots r')" for c ps
  proof -
    from mem sorted_distinct [OF sorted'] have "map_of (rt_slots r') c = Some ps" by simp
    then consider "c = b" "ps = ?ps" | "(c, ps) \<in> set (rt_slots r)" by (auto simp: lookup split: if_splits dest: map_of_SomeD)
    then show ?thesis
    proof cases
      case 1
      with ok fits show ?thesis by (simp add: slot_state_ok_def)
    next
      case 2
      with inv same [OF 2] show ?thesis by (auto simp: runtime_inv_def slot_state_ok_def)
    qed
  qed
  moreover have "leases_of (rt_slots r') = add_mset l (leases_of (rt_slots r))" by (simp add: r' leases_of_insert [OF new])
  ultimately have "runtime_inv r'" using ok(1) sorted' by (auto simp: runtime_inv_def r')
  moreover have "persistent r' c = ((persistent r)(b \<mapsto> (st, t))) c" for c
  proof (cases "map_of (rt_slots r) c")
    case None
    then show ?thesis using ok(3) by (simp add: persistent_def lookup) (simp add: r')
  next
    case (Some ps)
    with new have "c \<noteq> b" by auto
    with Some same [OF map_of_SomeD [OF Some]] show ?thesis by (simp add: persistent_def lookup) (simp add: r')
  qed
  ultimately show ?thesis by auto
qed

lemma keep_slots:
  assumes inv: "runtime_inv r" and "pool_inv (p', leases_of (rt_slots r), {#}, {#})"
    and vis: "\<And>l. l \<in># leases_of (rt_slots r) \<Longrightarrow> visible p' (le_slot l) = visible (rt_pool r) (le_slot l)"
  shows "runtime_inv (r\<lparr>rt_pool := p'\<rparr>) \<and> persistent (r\<lparr>rt_pool := p'\<rparr>) = persistent r"
proof
  show "runtime_inv (r\<lparr>rt_pool := p'\<rparr>)"
    using inv assms(2) vis held_slots [of _ _ "rt_slots r"] by (force simp: runtime_inv_def slot_state_ok_def)
  show "persistent (r\<lparr>rt_pool := p'\<rparr>) = persistent r"
  proof
    fix b
    show "persistent (r\<lparr>rt_pool := p'\<rparr>) b = persistent r b"
      using vis held_slots [OF map_of_SomeD, of "rt_slots r" b] by (auto simp: persistent_def split: option.split)
  qed
qed

lemma state_at_zero_Inr: "state_at_zero b t = Inr st \<longleftrightarrow> td_len t * itemsize (td_dtype t) \<le> usize_max \<and> st = handle b 0 t"
  by (auto simp: state_at_zero_def handle_def result_simps checked_defs)

lemma register_outcome:
  assumes inv: "runtime_inv r" and run: "runtime_register r b t = (r', outcome)"
  shows "runtime_inv r' \<and> (case outcome of Inl e \<Rightarrow> persistent r' = persistent r
    | Inr st \<Rightarrow> st = handle b 0 t \<and> persistent r b = None \<and> persistent r' = (persistent r)(b \<mapsto> (st, t)))"
proof (cases "map_of (rt_slots r) b = None \<and> td_len t * itemsize (td_dtype t) \<le> usize_max")
  case False
  then have "map_of (rt_slots r) b \<noteq> None \<or> (\<exists>e. state_at_zero b t = Inl e)"
    using state_at_zero_Inr [of b t] by (cases "state_at_zero b t") auto
  then have "r' = r \<and> (\<exists>e. outcome = Inl e)"
  proof
    assume "\<exists>e. state_at_zero b t = Inl e"
    then obtain e where e: "state_at_zero b t = Inl e" by blast
    have "(r', outcome) = (r, Inl (DuplicateBuffer b)) \<or> (r', outcome) = (r, Inl e)"
      unfolding run [symmetric] by (simp add: runtime_register_def e)
    then show ?thesis by auto
  qed (use run in \<open>auto simp: runtime_register_def\<close>)
  with inv show ?thesis by auto
next
  case True
  let ?st = "handle b 0 t"
  obtain p' res where lease: "lease_state (rt_pool r) ?st t = (p', res)" by fastforce
  have zero: "state_at_zero b t = Inr ?st" using True by (simp add: state_at_zero_Inr)
  have fits: "fits_desc t (host_desc_of ?st)" by (simp add: fits_desc_def host_desc_of_def)
  show ?thesis
  proof (cases res)
    case (Inl e)
    with run True zero lease have r': "r' = r\<lparr>rt_pool := p'\<rparr>" "outcome = Inl e" by (simp_all add: runtime_register_def)
    from inv have "pool_inv (rt_pool r, leases_of (rt_slots r), {#}, {#})" by (simp add: runtime_inv_def)
    from lease_state_ok [OF this fits lease] Inl have "pool_inv (p', leases_of (rt_slots r), {#}, {#})" "visible p' = visible (rt_pool r)" by simp_all
    with keep_slots [OF inv] r' show ?thesis by simp
  next
    case (Inr l)
    with run True zero lease have r': "r' = \<lparr>rt_pool = p', rt_slots = tree_insert b \<lparr>ps_state = ?st, ps_lease = l\<rparr> (rt_slots r)\<rparr>"
      "outcome = Inr ?st" by (simp_all add: runtime_register_def)
    from add_slot [OF inv _ fits _ _ lease [unfolded Inr] r'(1)] True r'(2) show ?thesis by (auto simp: persistent_def)
  qed
qed

subsection \<open>Registering a set of states\<close>

lemma check_initial_Inr:
  "try_fold (check_initial r) seen vs = Inr seen' \<Longrightarrow>
   (\<forall>(st, t) \<in> set vs. fits_desc t (host_desc_of st) \<and> bs_bytes st \<le> usize_max \<and> map_of (rt_slots r) (bs_buffer st) = None) \<and>
   distinct (map (bs_buffer \<circ> fst) vs) \<and> set (map (bs_buffer \<circ> fst) vs) \<inter> set seen = {}"
proof (induction vs arbitrary: seen)
  case (Cons v vs)
  obtain st t where v: "v = (st, t)" by (cases v)
  with Cons.prems obtain mid where mid: "check_initial r seen (st, t) = Inr mid" "try_fold (check_initial r) mid vs = Inr seen'"
    by (auto simp: result_simps)
  from mid(1) have "mid = bs_buffer st # seen" "bs_buffer st \<notin> set seen" "map_of (rt_slots r) (bs_buffer st) = None"
    "fits_desc t (host_desc_of st)" "bs_bytes st \<le> usize_max"
    by (auto simp: check_initial_def result_simps checked_defs fits_desc_def host_desc_of_def split: if_splits)
  with Cons.IH [OF mid(2)] show ?case by (auto simp: v)
qed simp

definition insert_slots :: "persistent_slot list \<Rightarrow> (nat \<times> persistent_slot) list \<Rightarrow> (nat \<times> persistent_slot) list" where
  "insert_slots staged slots = fold (\<lambda>ps. tree_insert (bs_buffer (ps_state ps)) ps) staged slots"

definition given :: "(buffer_state \<times> 'l tensor) list \<Rightarrow> nat \<rightharpoonup> buffer_state \<times> 'l tensor" where
  "given vs = map_of (map (\<lambda>(st, t). (bs_buffer st, (st, t))) vs)"

lemma lease_initial_success:
  "lease_initial p staged vs = (p', Inr out) \<Longrightarrow>
   r = \<lparr>rt_pool = p, rt_slots = insert_slots staged slots\<rparr> \<Longrightarrow> runtime_inv r \<Longrightarrow>
   \<forall>(st, t) \<in> set vs. fits_desc t (host_desc_of st) \<and> bs_bytes st \<le> usize_max \<and> map_of (rt_slots r) (bs_buffer st) = None \<Longrightarrow>
   distinct (map (bs_buffer \<circ> fst) vs) \<Longrightarrow>
   runtime_inv \<lparr>rt_pool = p', rt_slots = insert_slots out slots\<rparr> \<and>
   persistent \<lparr>rt_pool = p', rt_slots = insert_slots out slots\<rparr> = persistent r ++ given vs \<and>
   map ps_state out = map ps_state staged @ map fst vs"
proof (induction vs arbitrary: p staged r)
  case Nil
  then show ?case by (simp add: given_def)
next
  case (Cons v vs)
  obtain st t where v: "v = (st, t)" by (cases v)
  from Cons.prems(1) obtain p1 l where lease: "lease_state p st t = (p1, Inr l)"
    and rest: "lease_initial p1 (staged @ [\<lparr>ps_state = st, ps_lease = l\<rparr>]) vs = (p', Inr out)"
    by (auto simp: v split: prod.splits sum.splits)
  let ?ps = "\<lparr>ps_state = st, ps_lease = l\<rparr>"
  define r1 where "r1 = \<lparr>rt_pool = p1, rt_slots = insert_slots (staged @ [?ps]) slots\<rparr>"
  have sorted: "sorted_wrt (<) (map fst (rt_slots r))" using Cons.prems(3) by (simp add: runtime_inv_def)
  have slots1: "rt_slots r1 = tree_insert (bs_buffer st) ?ps (rt_slots r)"
    by (simp add: r1_def insert_slots_def Cons.prems(2))
  have add: "runtime_inv r1 \<and> persistent r1 = (persistent r)(bs_buffer st \<mapsto> (st, t))"
  proof (rule add_slot [OF Cons.prems(3)])
    show "lease_state (rt_pool r) st t = (p1, Inr l)" using lease by (simp add: Cons.prems(2))
    show "r1 = \<lparr>rt_pool = p1, rt_slots = tree_insert (bs_buffer st) ?ps (rt_slots r)\<rparr>"
      using slots1 by (simp add: r1_def)
  qed (use Cons.prems(4) in \<open>auto simp: v\<close>)
  have "\<forall>(st, t) \<in> set vs. fits_desc t (host_desc_of st) \<and> bs_bytes st \<le> usize_max \<and> map_of (rt_slots r1) (bs_buffer st) = None"
    using Cons.prems(4,5) unfolding slots1 tree_insert_map [OF sorted] by (force simp: v)
  from Cons.IH [OF rest r1_def conjunct1 [OF add] this] Cons.prems(5) have
    tail: "runtime_inv \<lparr>rt_pool = p', rt_slots = insert_slots out slots\<rparr>"
      "persistent \<lparr>rt_pool = p', rt_slots = insert_slots out slots\<rparr> = persistent r1 ++ given vs"
      "map ps_state out = map ps_state (staged @ [?ps]) @ map fst vs" by auto
  have "given vs (bs_buffer st) = None"
    using Cons.prems(5) by (force simp: v given_def map_of_eq_None_iff)
  then have "persistent r1 ++ given vs = persistent r ++ given (v # vs)"
    using add by (auto simp: v given_def map_add_def fun_eq_iff split: option.split)
  with tail show ?case by (simp add: v)
qed

lemma drop_lease_visible: "s \<noteq> le_slot l \<Longrightarrow> visible (drop_lease p l) s = visible p s"
  by (auto simp: drop_lease_def release_lease_def result_simps visible_set split: sum.split if_splits)

lemma drop_staged:
  "pool_inv (p, mset (map ps_lease staged) + ls, vs, ws) \<Longrightarrow>
   pool_inv (fold (\<lambda>ps p. drop_lease p (ps_lease ps)) staged p, ls, vs, ws) \<and>
   (\<forall>l \<in># ls. visible (fold (\<lambda>ps p. drop_lease p (ps_lease ps)) staged p) (le_slot l) = visible p (le_slot l))"
proof (induction staged arbitrary: p)
  case (Cons ps staged)
  let ?p = "drop_lease p (ps_lease ps)" and ?ls = "mset (map ps_lease staged) + ls"
  from Cons.prems have inv: "pool_inv (p, add_mset (ps_lease ps) ?ls, vs, ws)" by simp
  then have "pool_inv (?p, ?ls, vs, ws)" using inv_drop_lease [OF inv, of "ps_lease ps"] by simp
  from Cons.IH [OF this] show ?case
    using slot_fresh [OF inv] drop_lease_visible [of _ "ps_lease ps" p] by simp
qed simp

lemma lease_initial_failure:
  "lease_initial p staged vs = (p', Inl e) \<Longrightarrow> pool_inv (p, mset (map ps_lease staged) + ls, {#}, {#}) \<Longrightarrow>
   \<forall>(st, t) \<in> set vs. fits_desc t (host_desc_of st) \<Longrightarrow>
   pool_inv (p', ls, {#}, {#}) \<and> (\<forall>l \<in># ls. visible p' (le_slot l) = visible p (le_slot l))"
proof (induction vs arbitrary: p staged)
  case (Cons v vs)
  obtain st t where v: "v = (st, t)" by (cases v)
  obtain p1 res where lease: "lease_state p st t = (p1, res)" by fastforce
  have fits: "fits_desc t (host_desc_of st)" using Cons.prems(3) by (simp add: v)
  note ok = lease_state_ok [OF Cons.prems(2) fits lease]
  show ?case
  proof (cases res)
    case (Inl e')
    with Cons.prems(1) lease have "p' = fold (\<lambda>ps p. drop_lease p (ps_lease ps)) staged p1" by (simp add: v)
    moreover from ok Inl have "pool_inv (p1, mset (map ps_lease staged) + ls, {#}, {#})" "visible p1 = visible p" by simp_all
    ultimately show ?thesis using drop_staged [of p1 staged ls "{#}" "{#}"] by metis
  next
    case (Inr l)
    with Cons.prems(1) lease have rest: "lease_initial p1 (staged @ [\<lparr>ps_state = st, ps_lease = l\<rparr>]) vs = (p', Inl e)" by (simp add: v)
    from ok Inr have inv: "pool_inv (p1, add_mset l (mset (map ps_lease staged) + ls), {#}, {#})"
      and others: "\<forall>s. s \<noteq> le_slot l \<longrightarrow> visible p1 s = visible p s" by simp_all
    from Cons.IH [OF rest] inv Cons.prems(3) have
      "pool_inv (p', ls, {#}, {#}) \<and> (\<forall>l \<in># ls. visible p' (le_slot l) = visible p1 (le_slot l))" by simp
    with others slot_fresh [OF inv] show ?thesis by simp
  qed
qed simp

lemma register_initial_outcome:
  assumes inv: "runtime_inv r" and run: "register_initial_snapshots r vs = (r', outcome)"
  shows "runtime_inv r' \<and> (case outcome of Inl e \<Rightarrow> persistent r' = persistent r
    | Inr sts \<Rightarrow> sts = map fst vs \<and> persistent r' = persistent r ++ given vs)"
proof (cases "try_fold (check_initial r) [] vs")
  case (Inl e)
  with run inv show ?thesis by (auto simp: register_initial_snapshots_def)
next
  case (Inr seen)
  note ok = check_initial_Inr [OF this]
  obtain p' res where lease: "lease_initial (rt_pool r) [] vs = (p', res)" by fastforce
  show ?thesis
  proof (cases res)
    case l: (Inl e)
    with run Inr lease have r': "r' = r\<lparr>rt_pool := p'\<rparr>" "outcome = Inl e" by (simp_all add: register_initial_snapshots_def)
    have "pool_inv (rt_pool r, mset (map ps_lease []) + leases_of (rt_slots r), {#}, {#})" using inv by (simp add: runtime_inv_def)
    from lease_initial_failure [OF lease [unfolded l] this] ok
    have "pool_inv (p', leases_of (rt_slots r), {#}, {#})"
      "\<forall>l \<in># leases_of (rt_slots r). visible p' (le_slot l) = visible (rt_pool r) (le_slot l)" by auto
    with keep_slots [OF inv] r' show ?thesis by simp
  next
    case o': (Inr out)
    with run Inr lease have r': "r' = \<lparr>rt_pool = p', rt_slots = insert_slots out (rt_slots r)\<rparr>" "outcome = Inr (map ps_state out)"
      by (simp_all add: register_initial_snapshots_def insert_slots_def)
    have "r = \<lparr>rt_pool = rt_pool r, rt_slots = insert_slots [] (rt_slots r)\<rparr>" by (simp add: insert_slots_def)
    from lease_initial_success [OF lease [unfolded o'] this inv] ok r' show ?thesis by auto
  qed
qed

end
