(* ===== verification/EffectScheduleTheorems.thy ===== *)
theory EffectScheduleTheorems
  imports EffectExecution EffectSchedules
begin

section \<open>What effect builders, batches and schedules promise\<close>

subsection \<open>The whole-buffer builder\<close>

text \<open>One replacement through the graph: two insertions and an assignment.\<close>

type_synonym 'l replacement = "nat \<times> 'l tensor \<times> nat \<times> 'l tensor"

definition replace_through_graph ::
  "'l effect_graph \<Rightarrow> 'l replacement \<Rightarrow> (effect_error, 'l effect_graph) result" where
  "replace_through_graph g r =
    (let (b, t, s, u) = r in
     rbind (effect_insert g b t) (\<lambda>(g, target).
     rbind (effect_insert g s u) (\<lambda>(g, source).
     rbind (assign_whole g target source) (\<lambda>(g, _). Inr g))))"

definition replacement_ok :: "'l replacement \<Rightarrow> bool" where
  "replacement_ok r \<longleftrightarrow> (let (b, t, s, u) = r in
     tensor_ok t \<and> tensor_ok u \<and> td_shape u = td_shape t \<and> td_dtype u = td_dtype t)"

definition push_replacement ::
  "plan_builder \<Rightarrow> 'l replacement \<Rightarrow> (effect_error, plan_builder) result" where
  "push_replacement pb r = (let (b, t, s, u) = r in builder_push pb (handle b 0 t) s)"

definition mirrors :: "plan_builder \<Rightarrow> 'l effect_graph \<Rightarrow> bool" where
  "mirrors pb g \<longleftrightarrow> graph_ok g \<and> pb_states pb = eg_states g \<and> pb_steps pb = effect_graph_plan g \<and>
     (\<forall>a \<in> set (eg_assignments g). bs_version (as_source a) = 0)"

definition same_result :: "('a \<Rightarrow> 'b \<Rightarrow> bool) \<Rightarrow> ('e, 'a) result \<Rightarrow> ('e, 'b) result \<Rightarrow> bool" where
  "same_result R x y \<longleftrightarrow> (case (x, y) of (Inl e, Inl f) \<Rightarrow> e = f | (Inr a, Inr b) \<Rightarrow> R a b | _ \<Rightarrow> False)"

lemma same_result_fold:
  "R s t \<Longrightarrow> (\<And>s t x. R s t \<Longrightarrow> x \<in> set xs \<Longrightarrow> same_result R (f s x) (g t x)) \<Longrightarrow>
   same_result R (try_fold f s xs) (try_fold g t xs)"
proof (induction xs arbitrary: s t)
  case (Cons x xs)
  from Cons.prems have "same_result R (f s x) (g t x)" by simp
  with Cons show ?case
    by (cases "f s x"; cases "g t x") (auto simp: same_result_def)
qed (simp add: same_result_def)

lemma broadcasts_to_self: "broadcasts_to s s"
  by (simp add: broadcasts_to_def list_all_iff zip_same_conv_map)

lemma validate_handle_iff:
  "tensor_ok t \<Longrightarrow> validate_buffer_state (handle b v t) = (if fits t then Inr () else Inl EffectOverflow)"
  by (auto simp: validate_buffer_state_def fits_def tensor_ok_def checked_mul_u_def checked_u_def)

lemma state_for_eq:
  "tensor_ok t \<Longrightarrow> state_for b v t = (if fits t then Inr (handle b v t) else Inl EffectOverflow)"
  by (auto simp: state_for_def handle_def fits_def checked_mul_u_def checked_u_def)

lemma push_mirrors:
  assumes m: "mirrors pb g" and r: "replacement_ok (b, t, s, u)"
  shows "same_result mirrors (push_replacement pb (b, t, s, u)) (replace_through_graph g (b, t, s, u))"
proof -
  from r have ok: "tensor_ok t" "tensor_ok u" and eq: "td_shape u = td_shape t" "td_dtype u = td_dtype t"
    by (simp_all add: replacement_ok_def)
  have len: "td_len u = td_len t" using ok eq by (simp add: tensor_ok_def)
  from m have g: "graph_ok g" and st: "pb_states pb = eg_states g" "pb_steps pb = effect_graph_plan g"
    by (simp_all add: mirrors_def)
  have source: "(handle b 0 t)\<lparr>bs_buffer := s, bs_version := 0\<rparr> = handle s 0 u"
    by (simp add: handle_def eq len)
  show ?thesis
  proof (cases "eg_states g b = None \<and> fits t \<and> s \<noteq> b \<and> eg_states g s = None")
    case False
    then show ?thesis
      using ok st source
      by (auto simp: same_result_def push_replacement_def builder_push_def replace_through_graph_def
          effect_insert_def validate_handle_iff state_for_eq)
  next
    case True
    then have "fits u" using len eq ok by (simp add: fits_def)
    define g2 where "g2 = g\<lparr>eg_initial := eg_initial g @ [(b, t), (s, u)],
      eg_states := (eg_states g)(b \<mapsto> handle b 0 t, s \<mapsto> handle s 0 u)\<rparr>"
    have ins1: "effect_insert g b t = Inr (g\<lparr>eg_initial := eg_initial g @ [(b, t)],
        eg_states := (eg_states g)(b \<mapsto> handle b 0 t)\<rparr>, handle b 0 t)" (is "_ = Inr (?g1, _)")
      using True ok by (simp add: effect_insert_def state_for_eq)
    have ins2: "effect_insert ?g1 s u = Inr (g2, handle s 0 u)"
      using True ok \<open>fits u\<close> by (simp add: effect_insert_def state_for_eq g2_def)
    have ok1: "graph_ok ?g1" using graph_ok_insert [OF g ok(1) ins1] by blast
    have ok2: "graph_ok g2" "handles_of g2 = insert (handle s 0 u) (insert (handle b 0 t) (handles_of g))"
      using graph_ok_insert [OF ok1 ok(2) ins2] graph_ok_insert [OF g ok(1) ins1] by blast+
    have none: "initial_of g b = None" "initial_of g s = None" using g True by (simp_all add: graph_ok_def)
    then have init: "initial_of g2 b = Some t" "initial_of g2 s = Some u"
      using True by (auto simp: g2_def map_add_def)
    have plan: "effect_graph_plan g2 = effect_graph_plan g" "eg_assignments g2 = eg_assignments g"
      by (simp_all add: g2_def effect_graph_plan_def)
    have store: "store_into None None t u = Inr (t\<lparr>td_lanes :=
        map (\<lambda>n. td_lanes u ! broadcast_lane (td_shape t) (td_shape u) n) [0..<td_len t]\<rparr>)"
      using assign_from_eq [OF ok] eq by (simp add: store_into_def broadcasts_to_self)
    define step where "step = \<lparr>es_id = length (eg_assignments g), es_reads = [handle b 0 t, handle s 0 u],
      es_write = handle b 1 t, es_target_view = None, es_index_plan = None,
      es_after = (case eg_assignments g of [] \<Rightarrow> [] | _ \<Rightarrow> [es_id (as_step (last (eg_assignments g)))])\<rparr>"
    define g3 where "g3 = g2\<lparr>eg_states := (eg_states g2)(b \<mapsto> handle b 1 t),
      eg_assignments := eg_assignments g @ [\<lparr>as_step = step, as_source = handle s 0 u\<rparr>]\<rparr>"
    have asg: "assign_whole g2 (handle b 0 t) (handle s 0 u) = Inr (g3, handle b 1 t)"
      using True eq init store
      by (simp add: assign_whole_def effect_assign_def g2_def [THEN arg_cong [where f = eg_states]] plan(2)
          store_err_def Let_def g3_def step_def checked_add_u_def checked_u_def usize_max_def split: list.split)
    have "graph_ok g3"
      using graph_ok_assign [OF ok2(1) _ _ _ asg [unfolded assign_whole_def]] ok2(2) by simp
    moreover have "push_replacement pb (b, t, s, u) = Inr \<lparr>pb_states = (eg_states g2)(b \<mapsto> handle b 1 t),
        pb_steps = effect_graph_plan g @ [step]\<rparr>"
    proof -
      have "(case effect_graph_plan g of [] \<Rightarrow> [] | _ \<Rightarrow> [es_id (last (effect_graph_plan g))]) = es_after step"
        by (simp add: step_def effect_graph_plan_def last_map split: list.split)
      then show ?thesis
        using True ok source \<open>fits u\<close> unfolding push_replacement_def builder_push_def st
        by (simp add: validate_handle_iff Let_def step_def g2_def
            checked_add_u_def checked_u_def usize_max_def)
    qed
    moreover have "replace_through_graph g (b, t, s, u) = Inr g3"
      by (simp add: replace_through_graph_def ins1 ins2 asg)
    moreover have "effect_graph_plan g3 = effect_graph_plan g @ [step]" "eg_states g3 = (eg_states g2)(b \<mapsto> handle b 1 t)"
      "\<forall>a \<in> set (eg_assignments g3). bs_version (as_source a) = 0"
      using m by (auto simp: g3_def effect_graph_plan_def mirrors_def)
    ultimately show ?thesis by (simp add: same_result_def mirrors_def)
  qed
qed

lemma mirrors_empty: "mirrors plan_builder_empty (effect_graph_empty :: 'l effect_graph)"
  by (simp add: mirrors_def plan_builder_empty_def effect_graph_empty_def effect_graph_plan_def graph_ok_def)

lemma replacements_mirror:
  assumes "list_all replacement_ok rs"
  shows "same_result mirrors (try_fold push_replacement plan_builder_empty rs)
    (try_fold replace_through_graph effect_graph_empty rs)"
  using assms mirrors_empty
proof (intro same_result_fold)
  fix pb :: plan_builder and g :: "'a effect_graph" and r
  assume "mirrors pb g" "r \<in> set rs"
  with assms show "same_result mirrors (push_replacement pb r) (replace_through_graph g r)"
    by (cases r) (auto simp: list_all_iff intro: push_mirrors)
qed auto

abbreviation state_key :: "buffer_state \<Rightarrow> nat \<times> nat" where
  "state_key st \<equiv> (bs_buffer st, bs_version st)"

abbreviation key_less :: "nat \<times> nat \<Rightarrow> nat \<times> nat \<Rightarrow> bool" where
  "key_less k l \<equiv> fst k < fst l \<or> fst k = fst l \<and> snd k < snd l"

definition inventory_ok :: "inventory \<Rightarrow> bool" where
  "inventory_ok rows \<longleftrightarrow> (\<forall>(k, st) \<in> set rows. k = state_key st) \<and> sorted_wrt key_less (map fst rows)"

lemma inventory_insert_ok:
  assumes "inventory_ok rows"
  shows "inventory_ok (inventory_insert st rows)"
    and "snd ` set (inventory_insert st rows) = insert st {x \<in> snd ` set rows. state_key x \<noteq> state_key st}"
proof -
  have "inventory_ok (inventory_insert st rows) \<and> fst ` set (inventory_insert st rows) = insert (state_key st) (fst ` set rows) \<and>
    snd ` set (inventory_insert st rows) = insert st {x \<in> snd ` set rows. state_key x \<noteq> state_key st}"
    using assms
  proof (induction rows)
    case (Cons e rows)
    obtain b v old where e: "e = ((b, v), old)" by (metis prod.exhaust)
    from Cons.prems have "inventory_ok rows" by (simp add: inventory_ok_def)
    with Cons.IH have IH: "inventory_ok (inventory_insert st rows)"
      "fst ` set (inventory_insert st rows) = insert (state_key st) (fst ` set rows)"
      "snd ` set (inventory_insert st rows) = insert st {x \<in> snd ` set rows. state_key x \<noteq> state_key st}" by auto
    from Cons.prems have old: "(b, v) = state_key old" "\<forall>k \<in> fst ` set rows. key_less (b, v) k"
      and keys: "\<forall>(k, x) \<in> set rows. k = state_key x"
      by (auto simp: inventory_ok_def e)
    consider "bs_buffer st = b \<and> bs_version st = v" | "key_less (state_key st) (b, v)" | "key_less (b, v) (state_key st)"
      by force
    then show ?case
    proof cases
      case 1
      have "state_key x \<noteq> state_key st" if "x \<in> snd ` set rows" for x
        using that old(2) keys 1 by fastforce
      with 1 Cons.prems old show ?thesis by (auto simp: e inventory_ok_def)
    next
      case 2
      have "state_key x \<noteq> state_key st" if "x \<in> insert old (snd ` set rows)" for x
        using that old keys 2 by fastforce
      then have keep: "{x \<in> snd ` set (e # rows). state_key x \<noteq> state_key st} = snd ` set (e # rows)"
        by (auto simp: e)
      have less: "\<forall>k \<in> fst ` set rows. key_less (state_key st) k" using old(2) 2 by force
      have "inventory_insert st (e # rows) = (state_key st, st) # e # rows" using 2 by (auto simp: e)
      moreover have "inventory_ok ((state_key st, st) # e # rows)"
        using Cons.prems 2 less by (auto simp: inventory_ok_def e)
      ultimately show ?thesis unfolding keep by simp
    next
      case 3
      then have "inventory_insert st (e # rows) = e # inventory_insert st rows" by (auto simp: e)
      moreover have "inventory_ok (e # inventory_insert st rows)"
        using IH(1,2) old 3 by (auto simp: inventory_ok_def e)
      moreover have "state_key old \<noteq> state_key st" using 3 old(1) by auto
      ultimately show ?thesis using IH(2,3) by (auto simp: e)
    qed
  qed (simp add: inventory_ok_def)
  then show "inventory_ok (inventory_insert st rows)"
    "snd ` set (inventory_insert st rows) = insert st {x \<in> snd ` set rows. state_key x \<noteq> state_key st}" by blast+
qed

lemma inventory_fold:
  assumes "inventory_ok rows" and "inj_on state_key (set sts \<union> snd ` set rows)"
  shows "inventory_ok (fold inventory_insert sts rows) \<and> snd ` set (fold inventory_insert sts rows) = set sts \<union> snd ` set rows"
  using assms
proof (induction sts arbitrary: rows)
  case (Cons st sts)
  have set: "snd ` set (inventory_insert st rows) = insert st (snd ` set rows)"
  proof -
    have "x = st" if "x \<in> snd ` set rows" "state_key x = state_key st" for x
      by (rule inj_onD [OF Cons.prems(2) that(2)]) (use that(1) in auto)
    then show ?thesis unfolding inventory_insert_ok(2) [OF Cons.prems(1)] by blast
  qed
  have inj: "inj_on state_key (set sts \<union> snd ` set (inventory_insert st rows))"
    unfolding set using Cons.prems(2) by (rule inj_on_subset) auto
  show ?case using Cons.IH [OF inventory_insert_ok(1) [OF Cons.prems(1)] inj] set by auto
qed simp

text \<open>The states a plan mentions.\<close>

definition plan_states :: "effect_plan \<Rightarrow> buffer_state set" where
  "plan_states steps = (\<Union>s \<in> set steps. insert (es_write s) (set (es_reads s)))"

lemma plan_states_handles:
  assumes "graph_ok g" and "st \<in> plan_states (effect_graph_plan g)"
  shows "\<exists>t. map_of (eg_initial g) (bs_buffer st) = Some t \<and> st = handle (bs_buffer st) (bs_version st) t"
proof -
  from assms(2) obtain a where a: "a \<in> set (eg_assignments g)"
    "st \<in> insert (es_write (as_step a)) (set (es_reads (as_step a)))"
    by (auto simp: plan_states_def effect_graph_plan_def)
  then obtain i where i: "i < length (eg_assignments g)" "a = eg_assignments g ! i"
    by (auto simp: in_set_conv_nth)
  with assms(1) have "assignment_ok (initial_of g) (take i (effect_graph_plan g)) (eg_assignments g ! i)"
    by (simp add: graph_ok_def)
  with i(2) a(2) show ?thesis by (auto simp: assignment_ok_def)
qed

lemma builder_finish_mirrors:
  assumes "mirrors pb g"
  shows "\<exists>states. builder_finish pb = Inr (effect_graph_plan g, states) \<and>
    set states = plan_states (effect_graph_plan g) \<and> sorted_wrt key_less (map state_key states)"
proof -
  from assms have g: "graph_ok g" and steps: "pb_steps pb = effect_graph_plan g"
    and zero: "\<forall>a \<in> set (eg_assignments g). bs_version (as_source a) = 0" by (auto simp: mirrors_def)
  have "find (stale_at g) [0..<length (eg_assignments g)] = None"
    using zero by (auto simp: find_upt_None stale_at_def Let_def)
  then have valid: "effect_plan_validate (pb_steps pb) = Inr ()"
    using validate_built [OF g] steps by simp
  let ?sts = "concat (map (\<lambda>s. es_reads s @ [es_write s]) (pb_steps pb))"
  let ?rows = "fold inventory_insert ?sts []"
  have set: "set ?sts = plan_states (effect_graph_plan g)" by (auto simp: plan_states_def steps)
  have inj: "inj_on state_key (set ?sts)"
  proof (rule inj_onI)
    fix x y assume "x \<in> set ?sts" "y \<in> set ?sts" "state_key x = state_key y"
    with plan_states_handles [OF g, of x] plan_states_handles [OF g, of y] set show "x = y" by auto
  qed
  have rows: "inventory_ok ?rows" "snd ` set ?rows = set ?sts"
    using inventory_fold [of "[]" ?sts] inj by (auto simp: inventory_ok_def)
  have keys: "map state_key (map snd ?rows) = map fst ?rows"
    using rows(1) by (auto simp: inventory_ok_def)
  have "builder_finish pb = Inr (effect_graph_plan g, map snd ?rows)"
    using valid by (simp add: builder_finish_def steps)
  moreover have "set (map snd ?rows) = plan_states (effect_graph_plan g)" using rows(2) set by simp
  moreover have "sorted_wrt key_less (map state_key (map snd ?rows))"
    using rows(1) unfolding keys inventory_ok_def by blast
  ultimately show ?thesis by blast
qed

text \<open>The descriptor-only builder mirrors the effect graph: a sequence of replacements fails in both
  with the same error or gives both the same plan, which the builder then seals, with every state of
  the plan once in the order of buffer and version.\<close>

lemma builder_mirrors_graph:
  assumes "list_all replacement_ok rs"
  shows "case (try_fold push_replacement plan_builder_empty rs, try_fold replace_through_graph effect_graph_empty rs) of
      (Inl e, Inl f) \<Rightarrow> e = f
    | (Inr pb, Inr g) \<Rightarrow> (\<exists>states. builder_finish pb = Inr (effect_graph_plan g, states) \<and>
        set states = plan_states (effect_graph_plan g) \<and> sorted_wrt key_less (map state_key states))
    | _ \<Rightarrow> False"
  using replacements_mirror [OF assms] builder_finish_mirrors
  by (auto simp: same_result_def split: sum.splits)

theorem builder_mirrors_graph_witness:
  "\<exists>pb g states. try_fold push_replacement plan_builder_empty [(1, grid, 2, grid), (3, row, 4, row)] = Inr pb \<and>
     try_fold replace_through_graph effect_graph_empty [(1, grid, 2, grid), (3, row, 4, row)] = Inr g \<and>
     builder_finish pb = Inr (effect_graph_plan g, states)"
proof -
  let ?rs = "[(1, grid, 2, grid), (3, row, 4, row)]"
  have "is_ok (try_fold push_replacement plan_builder_empty ?rs)"
    "is_ok (try_fold replace_through_graph effect_graph_empty ?rs)" by code_simp+
  then obtain pb g where ok: "try_fold push_replacement plan_builder_empty ?rs = Inr pb"
    "try_fold replace_through_graph effect_graph_empty ?rs = Inr g" by (auto simp: is_ok_iff)
  have "list_all replacement_ok ?rs" by code_simp
  from builder_mirrors_graph [OF this] ok show ?thesis by auto
qed

subsection \<open>Schedules\<close>

lemma check_target_eqs:
  "check_target s = Inr () \<Longrightarrow> validate_buffer_state (es_write s) = Inr () \<and>
     (case es_target_view s of None \<Rightarrow> Inr () | Some v \<Rightarrow> validate_target_view (es_write s) v) = Inr () \<and>
     (\<forall>p. es_index_plan s = Some p \<longrightarrow> es_target_view s = None \<and> ip_source p = bs_shape (es_write s))"
  by (auto simp: check_target_def result_simps split: option.splits if_splits)

lemma lower_step_ok:
  assumes "step_ok earlier s"
  shows "\<exists>n. lower_step s = Inr n \<and> ep_step (sn_payload n) = es_id s \<and> sn_predecessors n = es_after s \<and>
    node_validate n = Inr ()"
proof -
  let ?w = "es_write s" and ?v = "version_after earlier (bs_buffer (es_write s))"
  let ?snap = "?w\<lparr>bs_version := ?v\<rparr>"
  from assms obtain source where reads: "es_reads s = [?snap, source]" "validate_buffer_state source = Inr ()"
      "bs_dtype source = bs_dtype ?w" and version: "bs_version ?w = Suc ?v" "Suc ?v \<le> usize_max"
    and target: "check_target s = Inr ()" by (auto simp: step_ok_def)
  note t = check_target_eqs [OF target]
  have desc: "same_descriptor ?w ?snap" by (simp add: same_descriptor_def)
  then have snap: "validate_buffer_state ?snap = Inr ()" using t validate_same_descriptor by blast
  define p where "p = \<lparr>ep_step = es_id s, ep_target = ?w, ep_source = source, ep_snapshot = ?snap,
    ep_target_view = es_target_view s, ep_index_plan = es_index_plan s\<rparr>"
  have next_version: "checked_add_u ?v 1 = Some (bs_version ?w)" using version by (simp add: checked_defs)
  have index: "(case es_index_plan s of None \<Rightarrow> Inr ()
      | Some i \<Rightarrow> if es_target_view s \<noteq> None \<or> ip_source i \<noteq> bs_shape ?w then Inl (mismatch_at ?w) else Inr ()) = Inr ()"
    using t by (simp split: option.split)
  have valid: "validate_effect_payload p = Inr ()"
    unfolding validate_effect_payload_def Let_def p_def effect_payload.simps
    using t snap reads(2,3) desc next_version index by simp
  have "effect_store_valid p" using next_version reads(3) by (simp add: effect_store_valid_def p_def)
  with valid have "node_validate \<lparr>sn_payload = p, sn_predecessors = es_after s\<rparr> = Inr ()" by (simp add: node_validate_def)
  moreover have "lower_step s = Inr \<lparr>sn_payload = p, sn_predecessors = es_after s\<rparr>"
    using valid by (simp add: lower_step_def reads(1) node_assignment_def p_def)
  ultimately show ?thesis by (simp add: p_def)
qed

text \<open>The nodes of a lowered plan, and the validation of a schedule whose ids are its positions.\<close>

lemma lower_steps_ok:
  assumes "disciplined steps"
  shows "\<exists>nodes. try_map lower_step steps = Inr nodes \<and> list_all2 (\<lambda>s n. ep_step (sn_payload n) = es_id s \<and>
    sn_predecessors n = es_after s \<and> node_validate n = Inr ()) steps nodes"
proof -
  have "\<exists>n. lower_step (steps ! i) = Inr n \<and> ep_step (sn_payload n) = es_id (steps ! i) \<and>
      sn_predecessors n = es_after (steps ! i) \<and> node_validate n = Inr ()" if "i < length steps" for i
    using assms that lower_step_ok by (auto simp: disciplined_def)
  then obtain f where f: "\<forall>i < length steps. lower_step (steps ! i) = Inr (f i) \<and>
      ep_step (sn_payload (f i)) = es_id (steps ! i) \<and> sn_predecessors (f i) = es_after (steps ! i) \<and>
      node_validate (f i) = Inr ()" by metis
  then have "try_map lower_step steps = Inr (map f [0..<length steps])" by (simp add: try_map_Inr_iff)
  moreover have "list_all2 (\<lambda>s n. ep_step (sn_payload n) = es_id s \<and> sn_predecessors n = es_after s \<and>
      node_validate n = Inr ()) steps (map f [0..<length steps])"
    using f by (simp add: list_all2_conv_all_nth)
  ultimately show ?thesis by blast
qed

lemma schedule_positions:
  assumes "\<And>i. i < length nodes \<Longrightarrow> ep_step (sn_payload (nodes ! i)) = i \<and>
    set (sn_predecessors (nodes ! i)) \<subseteq> {0..<i} \<and> node_validate (nodes ! i) = Inr ()"
  shows "k \<le> length nodes \<Longrightarrow> try_fold schedule_step {} (take k nodes) = Inr {0..<k}"
proof (induction k)
  case (Suc k)
  then have k: "k < length nodes" by simp
  have "try_each (\<lambda>a. if k \<le> a \<or> a \<notin> insert k {0..<k} then Inl (MissingAfter k a) else Inr ())
      (sn_predecessors (nodes ! k)) = Inr ()"
    using assms [OF k] by (auto simp: try_each_eq_Inr)
  moreover have e: "ep_step (sn_payload (nodes ! k)) = k" "node_validate (nodes ! k) = Inr ()" using assms [OF k] by auto
  ultimately have "schedule_step {0..<k} (nodes ! k) = Inr (insert k {0..<k})"
    unfolding schedule_step_def Let_def e by simp
  with Suc k show ?case by (simp add: take_Suc_conv_app_nth try_fold_append atLeast0_lessThan_Suc)
qed simp

lemma lower_graph_ok:
  assumes g: "graph_ok g" and valid: "effect_plan_validate (steps_of g) = Inr ()"
  shows "\<exists>s. schedule_lower hash g = Inr s \<and> map (ep_step \<circ> sn_payload) (sc_nodes s) = [0..<length (eg_assignments g)] \<and>
    schedule_validate (sc_nodes s) = Inr ()"
proof -
  let ?n = "length (eg_assignments g)"
  from valid have disc: "disciplined (steps_of g)" by (simp add: effect_plan_validate_def result_simps try_fold_check_step)
  from lower_steps_ok [OF disc] obtain nodes where nodes: "try_map lower_step (steps_of g) = Inr nodes"
    and rel: "list_all2 (\<lambda>s n. ep_step (sn_payload n) = es_id s \<and> sn_predecessors n = es_after s \<and>
      node_validate n = Inr ()) (steps_of g) nodes" by blast
  then have len: "length nodes = ?n" by (auto dest: list_all2_lengthD)
  have node: "ep_step (sn_payload (nodes ! i)) = i \<and> set (sn_predecessors (nodes ! i)) \<subseteq> {0..<i} \<and>
      node_validate (nodes ! i) = Inr ()" if "i < ?n" for i
  proof -
    have "step_ok (take i (steps_of g)) (steps_of g ! i)" using disc that by (simp add: disciplined_def)
    moreover have "es_id ` set (take i (steps_of g)) = {0..<i}"
      using arg_cong [OF built_ids [OF g, of i], of set] that by simp
    moreover have "es_id (steps_of g ! i) = i"
      using arg_cong [OF built_ids [OF g order_refl], of "\<lambda>xs. xs ! i"] that by (simp add: take_length_steps)
    ultimately show ?thesis using rel that by (auto simp: list_all2_conv_all_nth step_ok_def)
  qed
  then have "schedule_validate nodes = Inr ()"
    using schedule_positions [of nodes "length nodes"] len by (simp add: schedule_validate_def)
  moreover have "map (ep_step \<circ> sn_payload) nodes = [0..<?n]"
    by (rule nth_equalityI) (use len node in auto)
  ultimately show ?thesis using nodes valid by (simp add: schedule_lower_def lower_validated_def)
qed

text \<open>C36: lowering a built graph fails exactly when executing it fails and with the same error; the
  lowered schedule has one node per step in order, executes to what the graph executes to, and an
  injected failure at one of its steps, and at no other number, aborts it.\<close>

theorem schedule_executes_graph:
  assumes "built g hs"
  shows "case schedule_lower hash g of
      Inl e \<Rightarrow> effect_execute g = Inl e
    | Inr s \<Rightarrow> map (ep_step \<circ> sn_payload) (sc_nodes s) = [0..<length (eg_assignments g)] \<and>
        is_ok (effect_execute g) \<and> schedule_execute s g None = effect_execute g \<and>
        (\<forall>k. schedule_execute s g (Some k) =
          (if k < length (eg_assignments g) then Inl (TransactionFailed k) else effect_execute g))"
proof -
  have g: "graph_ok g" using built_ok [OF assms] by blast
  show ?thesis
  proof (cases "effect_plan_validate (steps_of g)")
    case (Inl e)
    then show ?thesis by (simp add: schedule_lower_def effect_execute_def)
  next
    case (Inr u)
    then have valid: "effect_plan_validate (steps_of g) = Inr ()" by simp
    from lower_graph_ok [OF g valid] obtain s where s: "schedule_lower hash g = Inr s"
      "map (ep_step \<circ> sn_payload) (sc_nodes s) = [0..<length (eg_assignments g)]"
      "schedule_validate (sc_nodes s) = Inr ()" by blast
    have "find (stale_at g) [0..<length (eg_assignments g)] = None"
      using valid unfolding validate_built [OF g] by (simp split: option.splits)
    then have "is_ok (effect_execute g)" using execute_graph_ok [OF g] by simp
    moreover have "list_ex (\<lambda>n. ep_step (sn_payload n) = k) (sc_nodes s) \<longleftrightarrow> k < length (eg_assignments g)" for k
      using arg_cong [OF s(2), of "\<lambda>xs. k \<in> set xs"] by (auto simp: list_ex_iff)
    ultimately show ?thesis using s by (simp add: schedule_execute_def)
  qed
qed

theorem schedule_executes_graph_witness:
  "\<exists>s c. schedule_lower length (fst demo5) = Inr s \<and> schedule_execute s (fst demo5) None = Inr c \<and>
     schedule_execute s (fst demo5) (Some 1) = Inl (TransactionFailed 1)"
proof -
  have "is_ok (schedule_lower length (fst demo5))" by code_simp
  then obtain s where s: "schedule_lower length (fst demo5) = Inr s" by (auto simp: is_ok_iff)
  have len: "length (eg_assignments (fst demo5)) = 2" by code_simp
  from schedule_executes_graph [OF demo_built(2), where hash = length] s len show ?thesis
    by (auto simp: is_ok_iff)
qed

subsection \<open>Batches\<close>

lemma rebase_state_Inr:
  "rebase_state starts st = Inr st' \<longleftrightarrow> (\<exists>start. starts (bs_buffer st) = Some start \<and> same_descriptor start st \<and>
     bs_version start + bs_version st \<le> usize_max \<and> st' = st\<lparr>bs_version := bs_version start + bs_version st\<rparr>)"
  by (auto simp: rebase_state_def result_simps checked_defs split: if_splits)

text \<open>Every step overwrites exactly the state the buffer was last left in.\<close>

definition continues :: "effect_plan \<Rightarrow> effect_step \<Rightarrow> bool" where
  "continues earlier s \<longleftrightarrow> (case state_after earlier (bs_buffer (es_write s)) of
       None \<Rightarrow> True
     | Some p \<Rightarrow> es_reads s ! 0 = p \<and> bs_version (es_write s) = Suc (bs_version p) \<and> same_descriptor p (es_write s))"

definition chained :: "effect_plan \<Rightarrow> bool" where
  "chained steps \<longleftrightarrow> (\<forall>i < length steps. continues (take i steps) (steps ! i))"

lemma chained_snoc: "chained (steps @ [s]) \<longleftrightarrow> chained steps \<and> continues steps s"
  by (auto simp: chained_def nth_append less_Suc_eq)

text \<open>What the loop over the steps of one entry keeps: what earlier entries produced is kept, and the
  entry's steps so far have been rebased onto its starts.\<close>

definition batch_ok :: "(nat \<rightharpoonup> buffer_state) \<Rightarrow> effect_plan \<Rightarrow> 'l batch_state \<Rightarrow> effect_plan \<Rightarrow> bool" where
  "batch_ok starts before state prior \<longleftrightarrow>
     chained (map rs_effect (snd state)) \<and> fst state = state_after (map rs_effect (snd state)) \<and>
     (\<forall>b. case state_after prior b of
        None \<Rightarrow> fst state b = state_after before b
      | Some st \<Rightarrow> (\<exists>start. starts b = Some start \<and>
          fst state b = Some (st\<lparr>bs_version := bs_version start + bs_version st\<rparr>)))"

lemma rebase_into_ok:
  assumes d: "disciplined (prior @ [s])" and step: "rebase_into k e state s = Inr state'"
    and inv: "batch_ok (be_starts e) before state prior"
    and starts: "\<And>p. state_after before (bs_buffer (es_write s)) = Some p \<Longrightarrow> be_starts e (bs_buffer (es_write s)) = Some p"
  shows "batch_ok (be_starts e) before state' (prior @ [s])"
proof -
  let ?w = "es_write s" and ?b = "bs_buffer (es_write s)"
  from d have dr: "disciplined prior" and ok: "step_ok prior s" by (auto simp: disciplined_snoc)
  from ok obtain source where reads: "es_reads s = [?w\<lparr>bs_version := version_after prior ?b\<rparr>, source]"
    and ver: "bs_version ?w = Suc (version_after prior ?b)" by (auto simp: step_ok_def)
  from step obtain r where r: "rebase_step s (be_starts e) = Inr r"
    and fst': "fst state' = (fst state)(bs_buffer (es_write r) \<mapsto> es_write r)"
    and snd': "map rs_effect (snd state') = map rs_effect (snd state) @ [r]"
    by (auto simp: rebase_into_def result_simps Let_def split: if_splits)
  from r reads obtain start where start: "be_starts e ?b = Some start" "same_descriptor start ?w"
    and w: "es_write r = ?w\<lparr>bs_version := bs_version start + bs_version ?w\<rparr>"
    and sn: "es_reads r ! 0 = ?w\<lparr>bs_version := bs_version start + version_after prior ?b\<rparr>"
    by (auto simp: rebase_step_def result_simps rebase_state_Inr)
  have b: "bs_buffer (es_write r) = ?b" by (simp add: w)
  have at: "case state_after prior ?b of None \<Rightarrow> fst state ?b = state_after before ?b
      | Some st \<Rightarrow> (\<exists>start. be_starts e ?b = Some start \<and>
          fst state ?b = Some (st\<lparr>bs_version := bs_version start + bs_version st\<rparr>))"
    using inv by (simp add: batch_ok_def)
  have "continues (map rs_effect (snd state)) r"
  proof (cases "state_after (map rs_effect (snd state)) ?b")
    case None
    then show ?thesis by (simp add: continues_def b)
  next
    case (Some p)
    have "p = ?w\<lparr>bs_version := bs_version start + version_after prior ?b\<rparr>"
    proof (cases "state_after prior ?b")
      case None
      with at inv Some have "state_after before ?b = Some p" by (simp add: batch_ok_def)
      from starts [OF this] start have "p = start" by simp
      moreover have "bs_buffer p = ?b" using state_after_SomeD [OF Some] by blast
      ultimately show ?thesis using None start(2) by (auto simp: same_state_iff same_descriptor_def state_after_None)
    next
      case (Some st)
      with at inv start(1) \<open>state_after (map rs_effect (snd state)) ?b = Some p\<close>
      have p: "p = st\<lparr>bs_version := bs_version start + bs_version st\<rparr>" by (simp add: batch_ok_def)
      from state_after_SomeD [OF Some] obtain s' where s': "s' \<in> set prior" "es_write s' = st" "bs_buffer st = ?b" by blast
      with ok have "same_descriptor st ?w" by (auto simp: step_ok_def)
      moreover have "bs_version st = version_after prior ?b" by (rule disciplined_version [OF dr Some])
      ultimately show ?thesis using p s'(3) by (auto simp: same_state_iff same_descriptor_def)
    qed
    then show ?thesis using Some ver
      by (simp add: continues_def b sn w same_descriptor_def)
  qed
  then have "chained (map rs_effect (snd state'))" using inv by (simp add: batch_ok_def snd' chained_snoc)
  moreover have "fst state' = state_after (map rs_effect (snd state'))"
    using inv by (simp add: batch_ok_def fst' snd' state_after_snoc)
  moreover have "case state_after (prior @ [s]) c of None \<Rightarrow> fst state' c = state_after before c
      | Some st \<Rightarrow> (\<exists>start. be_starts e c = Some start \<and>
          fst state' c = Some (st\<lparr>bs_version := bs_version start + bs_version st\<rparr>))" for c
  proof (cases "c = ?b")
    case True
    then show ?thesis using start w by (simp add: state_after_snoc fst')
  next
    case False
    then have eqs: "fst state' c = fst state c" "state_after (prior @ [s]) c = state_after prior c"
      using b by (simp_all add: fst' state_after_snoc)
    show ?thesis unfolding eqs using inv unfolding batch_ok_def by blast
  qed
  ultimately show ?thesis by (simp add: batch_ok_def)
qed

lemma disciplined_prefix: "disciplined (a @ b) \<Longrightarrow> disciplined a"
  by (induction b rule: rev_induct) (auto simp: disciplined_snoc simp flip: append_assoc)

lemma rebase_loop_ok:
  "try_fold (rebase_into k e) state steps = Inr state' \<Longrightarrow> disciplined (prior @ steps) \<Longrightarrow>
   batch_ok (be_starts e) before state prior \<Longrightarrow>
   (\<And>s p. s \<in> set steps \<Longrightarrow> state_after before (bs_buffer (es_write s)) = Some p \<Longrightarrow>
      be_starts e (bs_buffer (es_write s)) = Some p) \<Longrightarrow>
   batch_ok (be_starts e) before state' (prior @ steps)"
proof (induction steps arbitrary: state prior)
  case (Cons s steps)
  from Cons.prems(1) obtain mid where mid: "rebase_into k e state s = Inr mid"
    "try_fold (rebase_into k e) mid steps = Inr state'" by (auto simp: result_simps)
  have "disciplined (prior @ [s])" by (rule disciplined_prefix [of _ steps]) (use Cons.prems(2) in simp)
  then have "batch_ok (be_starts e) before mid (prior @ [s])"
    using rebase_into_ok [OF _ mid(1) Cons.prems(3)] Cons.prems(4) by simp
  with Cons.IH [OF mid(2), of "prior @ [s]"] Cons.prems(2,4) show ?case by simp
qed simp

lemma required_writes: "s \<in> set (be_plan e) \<Longrightarrow> bs_buffer (es_write s) \<in> set (required_buffers e)"
  by (auto simp: required_buffers_def)

definition step_names :: "'l rebased_step list \<Rightarrow> (nat \<times> nat) list" where
  "step_names out = map (\<lambda>r. (rs_entry r, rs_step r)) out"

lemma rebase_loop_names:
  "try_fold (rebase_into k e) state steps = Inr state' \<Longrightarrow>
   step_names (snd state') = step_names (snd state) @ map (\<lambda>s. (k, es_id s)) steps"
proof (induction steps arbitrary: state)
  case (Cons s steps)
  then obtain mid where mid: "rebase_into k e state s = Inr mid"
    "try_fold (rebase_into k e) mid steps = Inr state'" by (auto simp: result_simps)
  from mid(1) have "step_names (snd mid) = step_names (snd state) @ [(k, es_id s)]"
    by (auto simp: rebase_into_def result_simps Let_def step_names_def split: if_splits)
  with Cons.IH [OF mid(2)] show ?case by simp
qed simp

definition produced_ok :: "'l batch_state \<Rightarrow> bool" where
  "produced_ok state \<longleftrightarrow> chained (map rs_effect (snd state)) \<and> fst state = state_after (map rs_effect (snd state))"

lemma rebase_entry_ok:
  assumes entry: "rebase_entry state (k, e) = Inr state'" and ok: "produced_ok state"
  shows "produced_ok state' \<and> step_names (snd state') = step_names (snd state) @ map (\<lambda>s. (k, es_id s)) (be_plan e)"
proof -
  let ?before = "map rs_effect (snd state)"
  from entry have disc: "disciplined (be_plan e)"
    and checks: "\<forall>b \<in> set (required_buffers e). check_start (fst state) e b = Inr ()"
    and loop: "try_fold (rebase_into k e) state (be_plan e) = Inr state'"
    by (auto simp: rebase_entry_def result_simps try_each_eq_Inr effect_plan_validate_def try_fold_check_step split: if_splits)
  have "batch_ok (be_starts e) ?before state []" using ok by (simp add: batch_ok_def produced_ok_def)
  moreover have "be_starts e (bs_buffer (es_write s)) = Some p"
    if "s \<in> set (be_plan e)" "state_after ?before (bs_buffer (es_write s)) = Some p" for s p
  proof -
    have "check_start (fst state) e (bs_buffer (es_write s)) = Inr ()" using checks required_writes [OF that(1)] by blast
    then show ?thesis using that(2) ok by (auto simp: check_start_def produced_ok_def result_simps split: if_splits)
  qed
  ultimately have "batch_ok (be_starts e) ?before state' (be_plan e)"
    using rebase_loop_ok [OF loop, of "[]" ?before] disc by simp
  then show ?thesis using rebase_loop_names [OF loop] by (simp add: batch_ok_def produced_ok_def)
qed

lemma rebase_entries_ok:
  "try_fold rebase_entry state ies = Inr state' \<Longrightarrow> produced_ok state \<Longrightarrow>
   produced_ok state' \<and> step_names (snd state') =
     step_names (snd state) @ concat (map (\<lambda>(k, e). map (\<lambda>s. (k, es_id s)) (be_plan e)) ies)"
proof (induction ies arbitrary: state)
  case (Cons ie ies)
  obtain k e where ie: "ie = (k, e)" by (cases ie)
  from Cons.prems(1) ie obtain mid where mid: "rebase_entry state (k, e) = Inr mid"
    "try_fold rebase_entry mid ies = Inr state'" by (auto simp: result_simps)
  from rebase_entry_ok [OF mid(1) Cons.prems(2)] Cons.IH [OF mid(2)] show ?case by (simp add: ie)
qed simp

text \<open>C35: an accepted batch is one chain: it holds every step of every plan once and in order, and each
  step that writes a buffer an earlier step of any entry wrote overwrites exactly the state that step
  left, advancing its version by one under the same descriptor. No later entry resets a buffer.\<close>

theorem batch_chains_entries:
  assumes "rebased_steps entries = Inr out"
  shows "chained (map rs_effect out) \<and>
    step_names out = concat (map (\<lambda>(k, e). map (\<lambda>s. (k, es_id s)) (be_plan e)) (enumerate 0 entries))"
proof -
  from assms obtain final where fold: "try_fold rebase_entry (Map.empty, []) (enumerate 0 entries) = Inr final"
    and out: "out = snd final" by (auto simp: rebased_steps_def result_simps split: if_splits)
  have "produced_ok (Map.empty, [])" by (simp add: produced_ok_def chained_def)
  from rebase_entries_ok [OF fold this] show ?thesis by (simp add: out produced_ok_def step_names_def)
qed

text \<open>Two entries, the second starting where the first ends; and one that starts over.\<close>

definition demo_entry :: "nat \<Rightarrow> nat batch_entry" where
  "demo_entry v = \<lparr>be_plan = effect_graph_plan (fst demo4),
     be_starts = [1 \<mapsto> handle 1 v grid, 2 \<mapsto> handle 2 0 row], be_sources = Map.empty\<rparr>"

theorem batch_chains_entries_witness:
  "(\<exists>out. rebased_steps [demo_entry 0, demo_entry 1] = Inr out \<and> chained (map rs_effect out) \<and>
     step_names out = [(0, 0), (1, 0)]) \<and>
   rebased_steps [demo_entry 0, demo_entry 0] = Inl (InvalidVersion 1 1 0)"
proof -
  have "is_ok (rebased_steps [demo_entry 0, demo_entry 1])" by code_simp
  then obtain out where out: "rebased_steps [demo_entry 0, demo_entry 1] = Inr out" by (auto simp: is_ok_iff)
  have "concat (map (\<lambda>(k, e). map (\<lambda>s. (k, es_id s)) (be_plan e)) (enumerate 0 [demo_entry 0, demo_entry 1])) =
    [(0, 0), (1, 0)]" by code_simp
  with batch_chains_entries [OF out] out have "\<exists>out. rebased_steps [demo_entry 0, demo_entry 1] = Inr out \<and>
     chained (map rs_effect out) \<and> step_names out = [(0, 0), (1, 0)]" by auto
  moreover have "case rebased_steps [demo_entry 0, demo_entry 0] of Inl e \<Rightarrow> e = InvalidVersion 1 1 0 | Inr _ \<Rightarrow> False"
    by code_simp
  then have "rebased_steps [demo_entry 0, demo_entry 0] = Inl (InvalidVersion 1 1 0)" by (auto split: sum.splits)
  ultimately show ?thesis ..
qed

end
