(* ===== verification/RuntimeBatches.thy ===== *)
theory RuntimeBatches
  imports RuntimeTheorems EffectScheduleTheorems
begin

section \<open>A batch is its entries, one after another\<close>

subsection \<open>The reference: entries run in order on one memory\<close>

text \<open>
  Inside an entry a source of version 0 is what the entry found, any other source what the buffer holds
  now; a source override replaces the read.
\<close>

definition entry_step :: "(nat \<rightharpoonup> 'l tensor) \<Rightarrow> 'l batch_entry \<Rightarrow> (nat \<rightharpoonup> 'l tensor) \<Rightarrow> effect_step \<Rightarrow> (nat \<rightharpoonup> 'l tensor)" where
  "entry_step found e memory s =
    (let b = bs_buffer (es_write s); src = es_reads s ! 1;
         source = (case be_sources e (es_id s) of Some t \<Rightarrow> Some t
           | None \<Rightarrow> if bs_version src = 0 then found (bs_buffer src) else memory (bs_buffer src))
     in case (memory b, source) of
          (Some t, Some u) \<Rightarrow> (case store_into (es_target_view s) (es_index_plan s) t u of
             Inr c \<Rightarrow> memory(b \<mapsto> c) | Inl _ \<Rightarrow> memory)
        | _ \<Rightarrow> memory)"

definition entry_memory :: "(nat \<rightharpoonup> 'l tensor) \<Rightarrow> 'l batch_entry \<Rightarrow> (nat \<rightharpoonup> 'l tensor)" where
  "entry_memory memory e = foldl (entry_step memory e) memory (be_plan e)"

definition batch_memory :: "'l batch_entry list \<Rightarrow> (nat \<rightharpoonup> 'l tensor) \<Rightarrow> (nat \<rightharpoonup> 'l tensor)" where
  "batch_memory es memory = foldl entry_memory memory es"

definition values_of :: "'l runtime \<Rightarrow> nat \<rightharpoonup> 'l tensor" where
  "values_of r b = map_option snd (persistent r b)"

subsection \<open>Rebased steps\<close>

definition rebases :: "'l batch_entry \<Rightarrow> effect_step \<Rightarrow> 'l rebased_step \<Rightarrow> bool" where
  "rebases e s x \<longleftrightarrow> rebase_step s (be_starts e) = Inr (rs_effect x) \<and> rs_source x = be_sources e (es_id s)"

lemma rebase_loop_list:
  "try_fold (rebase_into k e) state steps = Inr state' \<Longrightarrow>
   \<exists>xs. snd state' = snd state @ xs \<and> list_all2 (rebases e) steps xs"
proof (induction steps arbitrary: state)
  case (Cons s steps)
  then obtain mid where mid: "rebase_into k e state s = Inr mid"
    "try_fold (rebase_into k e) mid steps = Inr state'" by (auto simp: result_simps)
  define x where "x = \<lparr>rs_entry = k, rs_step = es_id s, rs_effect = projr (rebase_step s (be_starts e)), rs_source = be_sources e (es_id s)\<rparr>"
  from mid(1) have "snd mid = snd state @ [x]" "rebases e s x"
    by (auto simp: rebase_into_def result_simps Let_def rebases_def x_def split: if_splits)
  with Cons.IH [OF mid(2)] show ?case by (fastforce)
qed simp

fun entries_rebase :: "'l batch_entry list \<Rightarrow> 'l rebased_step list \<Rightarrow> bool" where
  "entries_rebase [] xs \<longleftrightarrow> xs = []"
| "entries_rebase (e # es) xs \<longleftrightarrow> disciplined (be_plan e) \<and>
     (\<exists>ys zs. xs = ys @ zs \<and> list_all2 (rebases e) (be_plan e) ys \<and> entries_rebase es zs)"

lemma rebase_entries_list:
  "try_fold rebase_entry state (enumerate k es) = Inr state' \<Longrightarrow>
   \<exists>xs. snd state' = snd state @ xs \<and> entries_rebase es xs"
proof (induction es arbitrary: state k)
  case (Cons e es)
  from Cons.prems obtain mid where mid: "rebase_entry state (k, e) = Inr mid"
    "try_fold rebase_entry mid (enumerate (Suc k) es) = Inr state'" by (auto simp: result_simps)
  from mid(1) have disc: "disciplined (be_plan e)" and loop: "try_fold (rebase_into k e) state (be_plan e) = Inr mid"
    by (auto simp: rebase_entry_def result_simps validated_disciplined split: if_splits)
  from rebase_loop_list [OF loop] Cons.IH [OF mid(2)] disc show ?case by fastforce
qed simp

lemma rebased_steps_list: "rebased_steps entries = Inr xs \<Longrightarrow> entries_rebase entries xs"
  using rebase_entries_list [of "(Map.empty, [])" 0 entries]
  by (auto simp: rebased_steps_def result_simps split: if_splits)

text \<open>One step and its rebased form.\<close>

lemma rebases_step:
  assumes "rebases e s x" and "step_ok prior s"
  shows "\<exists>start source start'. let w = es_write s in be_starts e (bs_buffer w) = Some start \<and> same_descriptor start w \<and>
    es_reads s ! 1 = source \<and> be_starts e (bs_buffer source) = Some start' \<and>
    (bs_version source = 0 \<or> state_after prior (bs_buffer source) = Some source) \<and>
    bs_version w = Suc (version_after prior (bs_buffer w)) \<and>
    es_write (rs_effect x) = w\<lparr>bs_version := bs_version start + bs_version w\<rparr> \<and>
    es_reads (rs_effect x) ! 0 = w\<lparr>bs_version := bs_version start + version_after prior (bs_buffer w)\<rparr> \<and>
    es_reads (rs_effect x) ! 1 = source\<lparr>bs_version := bs_version start' + bs_version source\<rparr> \<and>
    es_target_view (rs_effect x) = es_target_view s \<and> es_index_plan (rs_effect x) = es_index_plan s"
proof -
  let ?w = "es_write s"
  from assms(2) obtain source where reads: "es_reads s = [?w\<lparr>bs_version := version_after prior (bs_buffer ?w)\<rparr>, source]"
    and src: "bs_version source = 0 \<or> state_after prior (bs_buffer source) = Some source"
    and ver: "bs_version ?w = Suc (version_after prior (bs_buffer ?w))" by (auto simp: step_ok_def)
  obtain r where r: "rebase_step s (be_starts e) = Inr r" "rs_effect x = r" using assms(1) by (simp add: rebases_def)
  from r(1) reads src ver show ?thesis
    unfolding r(2) by (auto simp: rebase_step_def result_simps rebase_state_Inr Let_def)
qed

lemma rebases_starts:
  assumes "disciplined (be_plan e)" and "list_all2 (rebases e) (be_plan e) xs" and "b \<in> set (persistent_buffers e)"
  shows "\<exists>start. be_starts e b = Some start"
proof -
  from assms(3) obtain s where s: "s \<in> set (be_plan e)" "b \<in> {bs_buffer (es_write s), bs_buffer (es_reads s ! 0), bs_buffer (es_reads s ! 1)}"
    by (auto simp: persistent_buffers_def split: if_splits)
  then obtain i where i: "i < length (be_plan e)" "be_plan e ! i = s" by (auto simp: in_set_conv_nth)
  with assms(1,2) have "step_ok (take i (be_plan e)) s" "rebases e s (xs ! i)"
    by (auto simp: disciplined_def list_all2_conv_all_nth)
  from rebases_step [OF this(2,1)] s(2) disciplined_read [OF assms(1) s(1)] show ?thesis by (auto simp: Let_def)
qed

subsection \<open>The starts of the entries\<close>

text \<open>A state after the writes of some steps.\<close>

definition after :: "effect_plan \<Rightarrow> buffer_state \<Rightarrow> buffer_state" where
  "after steps st = st\<lparr>bs_version := bs_version st + version_after steps (bs_buffer st)\<rparr>"

lemma after_simps [simp]: "bs_buffer (after steps st) = bs_buffer st"
  "bs_version (after steps st) = bs_version st + version_after steps (bs_buffer st)"
  "same_descriptor (after steps st) st' \<longleftrightarrow> same_descriptor st st'"
  by (simp_all add: after_def same_descriptor_def)

lemma version_after_append: "version_after (xs @ ys) b = version_after xs b + version_after ys b"
  by (simp add: writes_to_def)

definition starts_at :: "'l runtime \<Rightarrow> effect_plan \<Rightarrow> 'l batch_entry \<Rightarrow> bool" where
  "starts_at r before e \<longleftrightarrow> (\<forall>b \<in> set (persistent_buffers e). \<exists>st t. persistent r b = Some (st, t) \<and>
     be_starts e b = Some (after before st))"

fun all_start :: "'l runtime \<Rightarrow> effect_plan \<Rightarrow> 'l batch_entry list \<Rightarrow> bool" where
  "all_start r before [] \<longleftrightarrow> True"
| "all_start r before (e # es) \<longleftrightarrow> starts_at r before e \<and> all_start r (before @ be_plan e) es"

text \<open>The states earlier entries produced.\<close>

definition produced_by :: "'l runtime \<Rightarrow> effect_plan \<Rightarrow> nat \<rightharpoonup> buffer_state" where
  "produced_by r before b = (if version_after before b = 0 then None
     else map_option (\<lambda>(st, t). after before st) (persistent r b))"

lemma persistent_buffer: "runtime_inv r \<Longrightarrow> persistent r b = Some (st, t) \<Longrightarrow> bs_buffer st = b"
  using runtime_slot [of r b] persistent_slot_of [of r b st t] by blast

lemma runtime_snapshot_persistent:
  "runtime_inv r \<Longrightarrow> map_of (rt_slots r) b = Some ps \<Longrightarrow>
   \<exists>t. runtime_snapshot r (ps_state ps) = (r, Inr (ps_state ps, t)) \<and> persistent r b = Some (ps_state ps, t)"
  by (rule snapshot_slot)

lemma batch_starts_ok:
  assumes inv: "runtime_inv r"
  shows "batch_starts r snaps (produced_by r before) e bs = (r', res) \<Longrightarrow> snaps \<subseteq>\<^sub>m live_snaps r \<Longrightarrow>
    (\<And>b. b \<in> set bs \<Longrightarrow> \<exists>start. be_starts e b = Some start) \<Longrightarrow>
    r' = r \<and> (\<forall>snaps'. res = Inr snaps' \<longrightarrow> snaps' \<subseteq>\<^sub>m live_snaps r \<and>
      (\<forall>b \<in> set bs. b \<in> set (persistent_buffers e) \<longrightarrow>
         (\<exists>st t. persistent r b = Some (st, t) \<and> be_starts e b = Some (after before st))))"
proof (induction bs arbitrary: snaps)
  case Nil
  then have "r' = r" "res = Inr snaps" by simp_all
  with Nil.prems(2) show ?case by simp
next
  case (Cons b bs)
  obtain start where start: "be_starts e b = Some start" using Cons.prems(3) [of b] by auto
  note IH = Cons.IH [OF _ _ Cons.prems(3)]
  let ?skip = "b \<in> set (overridden_sources e) \<and> b \<notin> set (persistent_buffers e)"
  show ?case
  proof (cases ?skip)
    case True
    with Cons.prems(1) have "batch_starts r snaps (produced_by r before) e bs = (r', res)" by simp
    from IH [OF this Cons.prems(2)] True show ?thesis by auto
  next
    case keep: False
    from Cons.prems(1) have run: "(case produced_by r before b of
        Some previous \<Rightarrow> if previous \<noteq> start then (r, Inl (StaleState b (bs_version start)))
          else batch_starts r snaps (produced_by r before) e bs
      | None \<Rightarrow> (case map_of (rt_slots r) b of
            None \<Rightarrow> (r, Inl (RtMissingBuffer b))
          | Some ps \<Rightarrow> if ps_state ps \<noteq> start then (r, Inl (StaleState b (bs_version start)))
              else (case runtime_snapshot r start of
                  (r', Inl err) \<Rightarrow> (r', Inl err)
                | (r', Inr (_, t)) \<Rightarrow>
                    batch_starts r' (snaps((b, bs_version start) \<mapsto> t)) (produced_by r before) e bs))) = (r', res)"
      by (simp only: batch_starts.simps Let_def start option.sel if_not_P [OF keep])
    show ?thesis
    proof (cases "produced_by r before b")
      case (Some p)
      then obtain st t where st: "persistent r b = Some (st, t)" "p = after before st"
        by (auto simp: produced_by_def split: if_splits)
      show ?thesis
      proof (cases "p = start")
        case True
        with run Some have "batch_starts r snaps (produced_by r before) e bs = (r', res)" by simp
        from IH [OF this Cons.prems(2)] st start True show ?thesis by auto
      next
        case False
        with run Some show ?thesis by auto
      qed
    next
      case None
      show ?thesis
      proof (cases "\<exists>ps. map_of (rt_slots r) b = Some ps \<and> ps_state ps = start")
        case True
        then obtain ps where ps: "map_of (rt_slots r) b = Some ps" "ps_state ps = start" by blast
        from snapshot_slot [OF inv ps(1)] ps(2) obtain t where
          t: "runtime_snapshot r start = (r, Inr (start, t))" "persistent r b = Some (start, t)" by auto
        let ?snaps = "snaps((b, bs_version start) \<mapsto> t)"
        have rest: "batch_starts r ?snaps (produced_by r before) e bs = (r', res)"
          using run None ps t(1) by simp
        have le: "?snaps \<subseteq>\<^sub>m live_snaps r" using Cons.prems(2) t(2) by (auto simp: map_le_def live_snaps_def)
        have "after before start = start"
          using None t(2) persistent_buffer [OF inv t(2)] by (auto simp: produced_by_def after_def split: if_splits)
        with IH [OF rest le] t(2) start show ?thesis by auto
      next
        case False
        with run None show ?thesis by (auto split: option.splits)
      qed
    qed
  qed
qed

lemma produce_loop:
  assumes inv: "runtime_inv r"
  shows "try_fold (produce e) (produced_by r (before @ prior)) steps = Inr produced' \<Longrightarrow>
    disciplined (prior @ steps) \<Longrightarrow> set steps \<subseteq> set (be_plan e) \<Longrightarrow> starts_at r before e \<Longrightarrow>
    (\<And>s start. s \<in> set steps \<Longrightarrow> be_starts e (bs_buffer (es_write s)) = Some start \<Longrightarrow> same_descriptor start (es_write s)) \<Longrightarrow>
    produced' = produced_by r (before @ prior @ steps)"
proof (induction steps arbitrary: prior)
  case (Cons s steps)
  let ?w = "es_write s" and ?b = "bs_buffer (es_write s)"
  from Cons.prems(1) obtain mid where mid: "produce e (produced_by r (before @ prior)) s = Inr mid"
    "try_fold (produce e) mid steps = Inr produced'" by (auto simp: result_simps)
  have "?b \<in> set (persistent_buffers e)" using Cons.prems(3) by (auto simp: persistent_buffers_def)
  with Cons.prems(4) obtain st t where st: "persistent r ?b = Some (st, t)" "be_starts e ?b = Some (after before st)"
    by (auto simp: starts_at_def)
  have b: "bs_buffer st = ?b" by (rule persistent_buffer [OF inv st(1)])
  have "disciplined (prior @ [s])" by (rule disciplined_prefix [of _ steps]) (use Cons.prems(2) in simp)
  then have ver: "bs_version ?w = Suc (version_after prior ?b)" by (simp add: disciplined_snoc step_ok_def)
  have "same_descriptor st ?w" using Cons.prems(5) [of s, OF _ st(2)] by simp
  then have w: "?w\<lparr>bs_version := bs_version (after before st) + bs_version ?w\<rparr> = after (before @ prior @ [s]) st"
    using b ver by (simp add: same_state_iff same_descriptor_def after_def version_after_append writes_to_def)
  have "mid = (produced_by r (before @ prior))(?b \<mapsto> after (before @ prior @ [s]) st)"
    using mid(1) st(2) unfolding w [symmetric] by (auto simp: produce_def result_simps checked_defs Let_def)
  also have "\<dots> = produced_by r (before @ prior @ [s])"
  proof
    fix c
    show "((produced_by r (before @ prior))(?b \<mapsto> after (before @ prior @ [s]) st)) c = produced_by r (before @ prior @ [s]) c"
    proof (cases "c = ?b")
      case True
      with st(1) show ?thesis by (simp add: produced_by_def version_after_append writes_to_def)
    next
      case False
      then have "writes_to c (before @ prior @ [s]) = writes_to c (before @ prior)" by (simp add: writes_to_def)
      moreover from this have "map_option (\<lambda>(st, t). after (before @ prior @ [s]) st) (persistent r c) =
          map_option (\<lambda>(st, t). after (before @ prior) st) (persistent r c)"
        using persistent_buffer [OF inv, of c] by (cases "persistent r c") (auto simp: after_def)
      ultimately show ?thesis using False by (simp add: produced_by_def)
    qed
  qed
  finally have "try_fold (produce e) (produced_by r (before @ prior @ [s])) steps = Inr produced'" using mid(2) by simp
  from Cons.IH [of "prior @ [s]"] this Cons.prems(2-5) show ?case by simp
qed simp

lemma batch_snapshots_ok:
  assumes inv: "runtime_inv r"
  shows "batch_snapshots r snaps (produced_by r before) es = (r', res) \<Longrightarrow> snaps \<subseteq>\<^sub>m live_snaps r \<Longrightarrow>
    entries_rebase es xs \<Longrightarrow> (\<forall>e \<in> set es. finite (dom (be_starts e))) \<Longrightarrow>
    r' = r \<and> (\<forall>snaps'. res = Inr snaps' \<longrightarrow> snaps' \<subseteq>\<^sub>m live_snaps r \<and> all_start r before es)"
proof (induction es arbitrary: snaps before xs)
  case Nil
  then have "r' = r" "res = Inr snaps" by simp_all
  with Nil.prems(2) show ?case by simp
next
  case (Cons e es)
  let ?bs = "sorted_list_of_set (dom (be_starts e))"
  from Cons.prems(3) obtain ys zs where disc: "disciplined (be_plan e)" and ys: "list_all2 (rebases e) (be_plan e) ys"
    and zs: "entries_rebase es zs" by auto
  have bs: "set ?bs = dom (be_starts e)" using Cons.prems(4) by simp
  obtain r1 res1 where first: "batch_starts r snaps (produced_by r before) e ?bs = (r1, res1)" by fastforce
  from batch_starts_ok [OF inv first Cons.prems(2)] bs have r1: "r1 = r"
    and starts: "\<And>snaps'. res1 = Inr snaps' \<Longrightarrow> snaps' \<subseteq>\<^sub>m live_snaps r \<and>
      (\<forall>b \<in> set ?bs. b \<in> set (persistent_buffers e) \<longrightarrow>
         (\<exists>st t. persistent r b = Some (st, t) \<and> be_starts e b = Some (after before st)))" by auto
  show ?case
  proof (cases res1)
    case (Inl err)
    with Cons.prems(1) first r1 show ?thesis by auto
  next
    case (Inr snaps1)
    have at: "starts_at r before e"
      unfolding starts_at_def
    proof
      fix b assume b: "b \<in> set (persistent_buffers e)"
      from rebases_starts [OF disc ys b] bs have "b \<in> set ?bs" by auto
      with starts [OF Inr] b show "\<exists>st t. persistent r b = Some (st, t) \<and> be_starts e b = Some (after before st)" by blast
    qed
    show ?thesis
    proof (cases "try_fold (produce e) (produced_by r before) (be_plan e)")
      case (Inl err)
      with Cons.prems(1) first r1 Inr show ?thesis by auto
    next
      case p: (Inr produced')
      have "same_descriptor start (es_write s)" if s: "s \<in> set (be_plan e)" "be_starts e (bs_buffer (es_write s)) = Some start" for s start
      proof -
        from s(1) obtain i where i: "i < length (be_plan e)" "be_plan e ! i = s" by (auto simp: in_set_conv_nth)
        with disc ys have "step_ok (take i (be_plan e)) s" "rebases e s (ys ! i)"
          by (auto simp: disciplined_def list_all2_conv_all_nth)
        from rebases_step [OF this(2,1)] s(2) show ?thesis by (auto simp: Let_def)
      qed
      with produce_loop [OF inv, of e before "[]" "be_plan e" produced'] p disc at
      have "produced' = produced_by r (before @ be_plan e)" by simp
      with Cons.prems(1) first r1 Inr p have "batch_snapshots r snaps1 (produced_by r (before @ be_plan e)) es = (r', res)" by simp
      from Cons.IH [OF this _ zs] starts [OF Inr] Cons.prems(4) at show ?thesis by auto
    qed
  qed
qed

subsection \<open>Running the steps\<close>

text \<open>What the loop has built after the steps \<open>past\<close>: each buffer has its value in the reference memory
  under its current version, and the candidates hold the buffers written so far.\<close>

definition batch_at ::
  "'l runtime \<Rightarrow> effect_plan \<Rightarrow> 'l snapshots \<Rightarrow> (buffer_state \<times> 'l tensor) list \<Rightarrow> (nat \<rightharpoonup> 'l tensor) \<Rightarrow> bool" where
  "batch_at r past snaps cs memory \<longleftrightarrow>
     (\<forall>b st t. persistent r b = Some (st, t) \<longrightarrow>
        (\<exists>u. memory b = Some u \<and> (\<forall>x. snaps (b, bs_version (after past st)) = Some x \<longrightarrow> x = u) \<and>
           (version_after past b = 0 \<longrightarrow> u = t) \<and>
           last_values cs b = (if version_after past b = 0 then None else Some (after past st, u)))) \<and>
     (\<forall>b. persistent r b = None \<longrightarrow> version_after past b = 0 \<and> last_values cs b = None \<and> memory b = None)"

lemma batch_atD:
  "batch_at r past snaps cs memory \<Longrightarrow> persistent r b = Some (st, t) \<Longrightarrow>
   \<exists>u. memory b = Some u \<and> (\<forall>x. snaps (b, bs_version (after past st)) = Some x \<longrightarrow> x = u)"
  unfolding batch_at_def by blast

text \<open>What an entry found under its starts.\<close>

definition found_at :: "'l batch_entry \<Rightarrow> 'l snapshots \<Rightarrow> (nat \<rightharpoonup> 'l tensor) \<Rightarrow> bool" where
  "found_at e snaps found \<longleftrightarrow> (\<forall>b \<in> set (persistent_buffers e). \<forall>start x. be_starts e b = Some start \<longrightarrow>
     snaps (b, bs_version start) = Some x \<longrightarrow> found b = Some x)"

lemma batch_at_found:
  assumes "runtime_inv r" and "batch_at r before snaps cs memory" and "starts_at r before e"
  shows "found_at e snaps memory"
  unfolding found_at_def
proof (intro ballI allI impI)
  fix b start x assume b: "b \<in> set (persistent_buffers e)" "be_starts e b = Some start" "snaps (b, bs_version start) = Some x"
  with assms(3) obtain st t where st: "persistent r b = Some (st, t)" "be_starts e b = Some (after before st)"
    by (auto simp: starts_at_def)
  with batch_atD [OF assms(2) st(1)] b show "memory b = Some x" by auto
qed

lemma candidate_at:
  assumes inv: "runtime_inv r" and at: "batch_at r (before @ prior) snaps cs memory"
    and found: "found_at e snaps found" and starts: "starts_at r before e" and s: "s \<in> set (be_plan e)"
    and ok: "step_ok prior s" and x: "rebases e s x" and disc: "disciplined prior"
    and run: "run_rebased fail (snaps, cs) x = Inr (snaps', cs')"
  shows "batch_at r (before @ prior @ [s]) snaps' cs' (entry_step found e memory s) \<and> found_at e snaps' found"
proof -
  let ?w = "es_write s" and ?b = "bs_buffer (es_write s)"
  from rebases_step [OF x ok] obtain start source start' where
    start: "be_starts e ?b = Some start" "same_descriptor start ?w" and source: "es_reads s ! 1 = source"
    and start': "be_starts e (bs_buffer source) = Some start'"
    and fresh: "bs_version source = 0 \<or> state_after prior (bs_buffer source) = Some source"
    and ver: "bs_version ?w = Suc (version_after prior ?b)"
    and wr: "es_write (rs_effect x) = ?w\<lparr>bs_version := bs_version start + bs_version ?w\<rparr>"
    and r0: "es_reads (rs_effect x) ! 0 = ?w\<lparr>bs_version := bs_version start + version_after prior ?b\<rparr>"
    and r1: "es_reads (rs_effect x) ! 1 = source\<lparr>bs_version := bs_version start' + bs_version source\<rparr>"
    and form: "es_target_view (rs_effect x) = es_target_view s" "es_index_plan (rs_effect x) = es_index_plan s"
    by (auto simp: Let_def)
  have over: "rs_source x = be_sources e (es_id s)" using x by (simp add: rebases_def)
  have pb: "?b \<in> set (persistent_buffers e)" using s by (auto simp: persistent_buffers_def)
  with starts start obtain st t where st: "persistent r ?b = Some (st, t)" "start = after before st"
    by (auto simp: starts_at_def)
  have b: "bs_buffer st = ?b" by (rule persistent_buffer [OF inv st(1)])
  define given where "given = (case rs_source x of Some t \<Rightarrow> Inr t | None \<Rightarrow> live_snapshot snaps (es_reads (rs_effect x) ! 1))"
  from run have "stage_candidate (snaps, cs) (rs_effect x) given = Inr (snaps', cs')"
    unfolding run_rebased_def given_def fst_conv by (simp only: split: if_splits) simp
  then obtain base u c where base: "snaps (?b, bs_version start + version_after prior ?b) = Some base"
    and u: "given = Inr u"
    and c: "store_into (es_target_view s) (es_index_plan s) base u = Inr c"
    and out: "snaps' = snaps((?b, bs_version start + bs_version ?w) \<mapsto> c)" "cs' = cs @ [(es_write (rs_effect x), c)]"
    by (auto simp: stage_candidate_def result_simps store_err_def live_snapshot_def Let_def wr r0 form)
  have target: "memory ?b = Some base"
    using batch_atD [OF at st(1)] base b by (auto simp: st(2) version_after_append add.assoc)
  have src: "(case be_sources e (es_id s) of Some t \<Rightarrow> Some t
      | None \<Rightarrow> if bs_version source = 0 then found (bs_buffer source) else memory (bs_buffer source)) = Some u"
  proof (cases "be_sources e (es_id s)")
    case (Some v)
    with u over show ?thesis by (simp add: given_def)
  next
    case None
    then have pb': "bs_buffer source \<in> set (persistent_buffers e)"
      using s source by (auto simp: persistent_buffers_def intro!: bexI [of _ s])
    have read: "snaps (bs_buffer source, bs_version start' + bs_version source) = Some u"
      using u None over by (auto simp: given_def live_snapshot_def r1 [unfolded One_nat_def] result_simps)
    show ?thesis
    proof (cases "bs_version source = 0")
      case True
      with found pb' start' read None show ?thesis by (auto simp: found_at_def)
    next
      case False
      with fresh have after: "state_after prior (bs_buffer source) = Some source" by simp
      from starts pb' start' obtain st' t' where st': "persistent r (bs_buffer source) = Some (st', t')" "start' = after before st'"
        by (auto simp: starts_at_def)
      have "bs_version source = version_after prior (bs_buffer source)" by (rule disciplined_version [OF disc after])
      then have "snaps (bs_buffer source, bs_version (after (before @ prior) st')) = Some u"
        using read persistent_buffer [OF inv st'(1)] by (simp add: st'(2) version_after_append add.assoc)
      with batch_atD [OF at st'(1)] None False show ?thesis by auto
    qed
  qed
  have mem: "entry_step found e memory s = memory(?b \<mapsto> c)"
    unfolding entry_step_def Let_def source src target option.case prod.case c sum.case ..
  have w: "es_write (rs_effect x) = after (before @ prior @ [s]) st"
    using b ver start(2) unfolding wr st(2)
    by (simp add: same_state_iff same_descriptor_def after_def version_after_append writes_to_def)
  have same: "version_after (before @ prior @ [s]) d = version_after (before @ prior) d" if "d \<noteq> ?b" for d
    using that by (simp add: writes_to_def)
  have same_state: "after (before @ prior @ [s]) st' = after (before @ prior) st'" if "bs_buffer st' \<noteq> ?b" for st'
    using same [OF that] by (simp add: after_def)
  have key: "bs_version start + bs_version ?w = bs_version (after (before @ prior @ [s]) st)"
    using wr w by (metis buffer_state.select_convs(2) buffer_state.surjective buffer_state.update_convs(2))
  have "batch_at r (before @ prior @ [s]) snaps' cs' (memory(?b \<mapsto> c))"
    unfolding batch_at_def
  proof (intro conjI allI impI)
    fix d st' t' assume d: "persistent r d = Some (st', t')"
    show "\<exists>u. (memory(?b \<mapsto> c)) d = Some u \<and>
        (\<forall>x. snaps' (d, bs_version (after (before @ prior @ [s]) st')) = Some x \<longrightarrow> x = u) \<and>
        (version_after (before @ prior @ [s]) d = 0 \<longrightarrow> u = t') \<and>
        last_values cs' d = (if version_after (before @ prior @ [s]) d = 0 then None
          else Some (after (before @ prior @ [s]) st', u))"
    proof (cases "d = ?b")
      case True
      with d st have "st' = st" by simp
      with True show ?thesis
        by (simp add: out key last_values_snoc w b del: append_assoc) (simp add: version_after_append writes_to_def)
    next
      case False
      from at d obtain u where "memory d = Some u"
        "\<forall>x. snaps (d, bs_version (after (before @ prior) st')) = Some x \<longrightarrow> x = u"
        "version_after (before @ prior) d = 0 \<longrightarrow> u = t'"
        "last_values cs d = (if version_after (before @ prior) d = 0 then None else Some (after (before @ prior) st', u))"
        unfolding batch_at_def by blast
      then show ?thesis
        using False same [OF False] same_state [of st'] persistent_buffer [OF inv d]
        by (simp add: out last_values_snoc w b)
    qed
  next
    fix d assume d: "persistent r d = None"
    with st(1) have "d \<noteq> ?b" by auto
    with at d show "version_after (before @ prior @ [s]) d = 0" "last_values cs' d = None" "(memory(?b \<mapsto> c)) d = None"
      unfolding batch_at_def by (simp_all add: same out last_values_snoc w b)
  qed
  moreover have "found_at e snaps' found"
    unfolding found_at_def
  proof (intro ballI allI impI)
    fix d start1 x1 assume d: "d \<in> set (persistent_buffers e)" "be_starts e d = Some start1" "snaps' (d, bs_version start1) = Some x1"
    have "(d, bs_version start1) \<noteq> (?b, bs_version start + bs_version ?w)" using d(2) start(1) ver by auto
    with d found show "found d = Some x1" by (auto simp: found_at_def out(1))
  qed
  ultimately show ?thesis by (simp add: mem)
qed

lemma entry_steps_at:
  assumes inv: "runtime_inv r" and starts: "starts_at r before e"
  shows "list_all2 (rebases e) steps xs \<Longrightarrow> try_fold (run_rebased fail) (snaps, cs) xs = Inr (snaps', cs') \<Longrightarrow>
    set steps \<subseteq> set (be_plan e) \<Longrightarrow> disciplined (prior @ steps) \<Longrightarrow>
    batch_at r (before @ prior) snaps cs memory \<Longrightarrow> found_at e snaps found \<Longrightarrow>
    batch_at r (before @ prior @ steps) snaps' cs' (foldl (entry_step found e) memory steps)"
proof (induction steps arbitrary: prior xs snaps cs memory)
  case (Cons s steps)
  from Cons.prems(1) obtain x ys where xs: "xs = x # ys" "rebases e s x" "list_all2 (rebases e) steps ys"
    by (auto simp: list_all2_Cons1)
  with Cons.prems(2) obtain snaps1 cs1 where one: "run_rebased fail (snaps, cs) x = Inr (snaps1, cs1)"
    and rest: "try_fold (run_rebased fail) (snaps1, cs1) ys = Inr (snaps', cs')" by (auto simp: result_simps)
  have "disciplined (prior @ [s])" by (rule disciplined_prefix [of _ steps]) (use Cons.prems(4) in simp)
  then have "step_ok prior s" "disciplined prior" by (simp_all add: disciplined_snoc)
  from candidate_at [OF inv Cons.prems(5,6) starts _ this(1) xs(2) this(2) one] Cons.prems(3)
  have "batch_at r (before @ prior @ [s]) snaps1 cs1 (entry_step found e memory s)" "found_at e snaps1 found" by auto
  from Cons.IH [OF xs(3) rest, of "prior @ [s]"] this Cons.prems(3,4) show ?case by simp
qed simp

lemma entries_at:
  assumes inv: "runtime_inv r"
  shows "entries_rebase es xs \<Longrightarrow> try_fold (run_rebased fail) (snaps, cs) xs = Inr (snaps', cs') \<Longrightarrow>
    all_start r before es \<Longrightarrow> batch_at r before snaps cs memory \<Longrightarrow>
    batch_at r (before @ concat (map be_plan es)) snaps' cs' (batch_memory es memory)"
proof (induction es arbitrary: before xs snaps cs memory)
  case (Cons e es)
  from Cons.prems(1) obtain ys zs where xs: "xs = ys @ zs" "disciplined (be_plan e)"
    "list_all2 (rebases e) (be_plan e) ys" "entries_rebase es zs" by auto
  from Cons.prems(3) have starts: "starts_at r before e" "all_start r (before @ be_plan e) es" by simp_all
  from Cons.prems(2) xs(1) obtain snaps1 cs1 where one: "try_fold (run_rebased fail) (snaps, cs) ys = Inr (snaps1, cs1)"
    and rest: "try_fold (run_rebased fail) (snaps1, cs1) zs = Inr (snaps', cs')"
    by (fastforce simp: try_fold_append result_simps)
  from entry_steps_at [OF inv starts(1) xs(3) one, of "[]" memory memory] xs(2) Cons.prems(4)
    batch_at_found [OF inv Cons.prems(4) starts(1)]
  have "batch_at r (before @ be_plan e) snaps1 cs1 (entry_memory memory e)" by (simp add: entry_memory_def)
  from Cons.IH [OF xs(4) rest starts(2) this] show ?case by (simp add: batch_memory_def)
qed (simp add: batch_memory_def)

lemma batch_at_start:
  assumes inv: "runtime_inv r" and le: "snaps \<subseteq>\<^sub>m live_snaps r"
  shows "batch_at r [] snaps [] (values_of r)"
  unfolding batch_at_def
proof (intro conjI allI impI)
  fix b st t assume st: "persistent r b = Some (st, t)"
  have "x = t" if "snaps (b, bs_version (after [] st)) = Some x" for x
    using map_leD [OF le that] st by (simp add: live_snaps_def writes_to_def)
  with st show "\<exists>u. values_of r b = Some u \<and> (\<forall>x. snaps (b, bs_version (after [] st)) = Some x \<longrightarrow> x = u) \<and>
      (version_after [] b = 0 \<longrightarrow> u = t) \<and>
      last_values [] b = (if version_after [] b = 0 then None else Some (after [] st, u))"
    by (simp add: values_of_def writes_to_def)
qed (simp_all add: values_of_def writes_to_def)

lemma rebased_target:
  assumes "disciplined (be_plan e)" and "list_all2 (rebases e) (be_plan e) xs" and "x \<in> set xs"
  shows "bs_buffer (es_reads (rs_effect x) ! 0) = bs_buffer (es_write (rs_effect x))"
proof -
  from assms(2,3) obtain i where i: "i < length (be_plan e)" "xs ! i = x" "rebases e (be_plan e ! i) x"
    by (auto simp: in_set_conv_nth list_all2_conv_all_nth)
  with assms(1) have "step_ok (take i (be_plan e)) (be_plan e ! i)" by (simp add: disciplined_def)
  from rebases_step [OF i(3) this] show ?thesis by (auto simp: Let_def)
qed

lemma rebased_targets: "entries_rebase es xs \<Longrightarrow> x \<in> set xs \<Longrightarrow>
    bs_buffer (es_reads (rs_effect x) ! 0) = bs_buffer (es_write (rs_effect x))"
  by (induction es arbitrary: xs) (auto dest: rebased_target)

lemma committed_memory:
  assumes "runtime_inv r" and "batch_at r past snaps cs memory"
    and "persistent r' = persistent r ++ map_of (final_values cs)"
  shows "persistent r' b = (case persistent r b of None \<Rightarrow> None | Some (st, t) \<Rightarrow> Some (after past st, the (memory b)))"
proof (cases "persistent r b")
  case None
  with assms(2) have "last_values cs b = None" unfolding batch_at_def by blast
  with None show ?thesis by (simp add: assms(3) map_add_def final_values_map [THEN conjunct2])
next
  case (Some x)
  obtain st t where st: "x = (st, t)" by (cases x)
  with assms(2) Some obtain u where u: "memory b = Some u" "version_after past b = 0 \<longrightarrow> u = t"
    "last_values cs b = (if version_after past b = 0 then None else Some (after past st, u))"
    unfolding batch_at_def by blast
  have "bs_buffer st = b" by (rule persistent_buffer [OF assms(1)]) (simp add: Some st)
  then have "version_after past b = 0 \<Longrightarrow> after past st = st" by (simp add: after_def)
  with Some st u show ?thesis by (auto simp: assms(3) map_add_def final_values_map [THEN conjunct2] split: if_splits)
qed

lemma batch_outcome:
  assumes inv: "runtime_inv r" and fin: "\<forall>e \<in> set entries. finite (dom (be_starts e))"
    and run: "runtime_execute_batch r entries fail = (r', outcome)"
  shows "(case outcome of Inl e \<Rightarrow> r' = r
    | Inr states \<Rightarrow> runtime_inv r' \<and> (\<forall>b. persistent r' b = (case persistent r b of None \<Rightarrow> None
        | Some (st, t) \<Rightarrow> Some (after (concat (map be_plan entries)) st, the (batch_memory entries (values_of r) b)))) \<and>
      (\<forall>b st t. persistent r b = Some (st, t) \<longrightarrow> version_after (concat (map be_plan entries)) b = 0 \<longrightarrow>
         batch_memory entries (values_of r) b = Some t))"
proof (cases "rebased_steps entries")
  case (Inl e)
  with run show ?thesis by (auto simp: runtime_execute_batch_def)
next
  case (Inr steps)
  from rebased_steps_list [OF this] have rb: "entries_rebase entries steps" .
  obtain r1 res where bsn: "batch_snapshots r Map.empty Map.empty entries = (r1, res)" by fastforce
  have empty: "produced_by r [] = Map.empty" by (rule ext) (simp add: produced_by_def writes_to_def)
  have "batch_snapshots r Map.empty (produced_by r []) entries = (r1, res)" using bsn by (simp only: empty)
  from batch_snapshots_ok [OF inv this _ rb fin] have r1: "r1 = r"
    and snaps: "\<And>snaps. res = Inr snaps \<Longrightarrow> snaps \<subseteq>\<^sub>m live_snaps r \<and> all_start r [] entries" by auto
  show ?thesis
  proof (cases outcome)
    case (Inl e)
    with run bsn r1 \<open>rebased_steps entries = Inr steps\<close> show ?thesis
      by (auto simp: runtime_execute_batch_def split: sum.splits)
  next
    case out: (Inr states)
    with run bsn r1 \<open>rebased_steps entries = Inr steps\<close> obtain sn snaps' cs where res: "res = Inr sn"
      and live: "try_fold (\<lambda>_ s. check_live_target r (rs_effect s)) () steps = Inr ()"
      and loop: "try_fold (run_rebased fail) (sn, []) steps = Inr (snaps', cs)"
      and commit: "commit_candidates r cs = Inr r'"
      by (auto simp: runtime_execute_batch_def result_simps split: sum.splits)
    from snaps [OF res] have sn: "sn \<subseteq>\<^sub>m live_snaps r" "all_start r [] entries" by auto
    from entries_at [OF inv rb loop sn(2) batch_at_start [OF inv sn(1)]]
    have at: "batch_at r (concat (map be_plan entries)) snaps' cs (batch_memory entries (values_of r))" by simp
    have fit: "snaps_fit r sn" using live_snaps_fit [OF inv] sn(1) by (auto simp: snaps_fit_def dest: map_leD)
    have "\<forall>s \<in> set steps. check_live_target r (rs_effect s) = Inr ()" using live by (simp add: checks_Inr)
    with stage_all_ok [where eff = rs_effect and r = r, OF run_rebased_stage loop fit] rebased_targets [OF rb]
    have "\<forall>c \<in> set cs. candidate_ok r c" by simp
    from commit_candidates_ok [OF inv this] commit have "runtime_inv r'"
      "persistent r' = persistent r ++ map_of (final_values cs)" by auto
    moreover have "batch_memory entries (values_of r) b = Some t"
      if "persistent r b = Some (st, t)" "version_after (concat (map be_plan entries)) b = 0" for b st t
      using at that unfolding batch_at_def by blast
    ultimately show ?thesis using committed_memory [OF inv at] out by simp
  qed
qed

end
