(* ===== verification/RuntimeTransactions.thy ===== *)
theory RuntimeTransactions
  imports RuntimeBatches
begin

section \<open>Recurrent transactions on the runtime\<close>

subsection \<open>Publishing new states\<close>

definition named :: "buffer_state list \<Rightarrow> nat \<rightharpoonup> buffer_state" where
  "named sts = map_of (map (\<lambda>st. (bs_buffer st, st)) sts)"

lemma named_SomeD: "named sts b = Some st \<Longrightarrow> st \<in> set sts \<and> bs_buffer st = b"
  by (auto simp: named_def dest!: map_of_SomeD)

lemma named_None: "named sts b = None \<longleftrightarrow> b \<notin> bs_buffer ` set sts"
  by (auto simp: named_def map_of_eq_None_iff image_iff)

lemma map_of_nth:
  "distinct (map f xs) \<Longrightarrow> i < length xs \<Longrightarrow> map_of (map (\<lambda>i. (f (xs ! i), g i)) [0..<length xs]) (f (xs ! i)) = Some (g i)"
proof -
  assume dist: "distinct (map f xs)" and i: "i < length xs"
  have "map fst (map (\<lambda>i. (f (xs ! i), g i)) [0..<length xs]) = map f xs" by (intro nth_equalityI) simp_all
  with dist have "distinct (map fst (map (\<lambda>i. (f (xs ! i), g i)) [0..<length xs]))" by (simp only:)
  moreover have "(f (xs ! i), g i) \<in> set (map (\<lambda>i. (f (xs ! i), g i)) [0..<length xs])" using i by auto
  ultimately show ?thesis by (rule map_of_is_SomeI)
qed

lemma named_nth: "distinct (map bs_buffer sts) \<Longrightarrow> i < length sts \<Longrightarrow> named sts (bs_buffer (sts ! i)) = Some (sts ! i)"
  unfolding named_def by (rule map_of_is_SomeI) (auto simp: comp_def intro!: image_eqI nth_mem)

lemma publish_lookup:
  "map_of (publish_states sts slots) b = map_option (\<lambda>ps. case named sts b of Some st \<Rightarrow> ps\<lparr>ps_state := st\<rparr> | None \<Rightarrow> ps)
     (map_of slots b)"
  unfolding publish_states_def named_def by (rule map_of_map_keyed)

lemma publish_keys: "map fst (publish_states sts slots) = map fst slots"
  by (simp add: publish_states_def comp_def case_prod_beta)

lemma publish_leases: "leases_of (publish_states sts slots) = leases_of slots"
  unfolding leases_of_def publish_states_def map_map
  by (rule arg_cong [of _ _ mset], rule map_cong) (auto split: option.split)

text \<open>Successors of registered states on a pool that keeps its invariant and still shows every slot.\<close>

lemma publish_inv:
  assumes inv: "runtime_inv r" and pool: "pool_inv (p, leases_of (rt_slots r), {#}, {#})"
    and shown: "\<And>b ps. map_of (rt_slots r) b = Some ps \<Longrightarrow> visible p (le_slot (ps_lease ps)) \<noteq> None"
    and next_ok: "\<And>st ps. st \<in> set sts \<Longrightarrow> map_of (rt_slots r) (bs_buffer st) = Some ps \<Longrightarrow> same_descriptor (ps_state ps) st"
  shows "runtime_inv \<lparr>rt_pool = p, rt_slots = publish_states sts (rt_slots r)\<rparr>"
proof -
  let ?slots = "publish_states sts (rt_slots r)"
  have sorted: "sorted_wrt (<) (map fst (rt_slots r))" using inv by (simp add: runtime_inv_def)
  have "slot_state_ok p (b, ps)" if mem: "(b, ps) \<in> set ?slots" for b ps
  proof -
    have "distinct (map fst ?slots)" using sorted by (simp add: publish_keys sorted_distinct)
    with mem have "map_of ?slots b = Some ps" by simp
    then obtain qs where qs: "map_of (rt_slots r) b = Some qs"
      "ps = (case named sts b of Some st \<Rightarrow> qs\<lparr>ps_state := st\<rparr> | None \<Rightarrow> qs)" by (auto simp: publish_lookup)
    note slot = runtime_slot [OF inv qs(1)]
    show ?thesis
    proof (cases "named sts b")
      case None
      with slot qs shown [OF qs(1)] show ?thesis by (auto simp: slot_state_ok_def)
    next
      case (Some st)
      from named_SomeD [OF Some] next_ok [of st qs] qs(1) have "same_descriptor (ps_state qs) st" "bs_buffer st = b" by auto
      with slot qs Some shown [OF qs(1)] show ?thesis
        by (auto simp: slot_state_ok_def host_desc_of_def same_descriptor_def)
    qed
  qed
  with pool sorted show ?thesis by (auto simp: runtime_inv_def publish_keys publish_leases)
qed

subsection \<open>The frontier of a transaction\<close>

definition transition_ok :: "'l runtime \<Rightarrow> buffer_state \<times> buffer_state \<Rightarrow> bool" where
  "transition_ok r cn \<longleftrightarrow> (let (current, next_state) = cn in
     validate_buffer_state current = Inr () \<and> validate_buffer_state next_state = Inr () \<and>
     bs_buffer current = bs_buffer next_state \<and> same_descriptor current next_state \<and>
     checked_add_u (bs_version current) 1 = Some (bs_version next_state) \<and>
     (\<exists>ps. map_of (rt_slots r) (bs_buffer current) = Some ps \<and> ps_state ps = current))"

definition request_of :: "'l runtime \<Rightarrow> buffer_state \<times> bank_mode \<Rightarrow> bank_request" where
  "request_of r sm = lease_request (lease_for r (bs_buffer (fst sm))) (snd sm = Retain)"

lemma slot_for_Inr: "slot_for r st = Inr ps \<longleftrightarrow> map_of (rt_slots r) (bs_buffer st) = Some ps \<and> ps_state ps = st"
  by (auto simp: slot_for_def result_simps split: if_splits)

lemma check_transitions:
  "try_fold (check_transition r) (seen, requests) xs = (Inr (seen', requests') :: ('e recurrent_error, _) result) \<Longrightarrow>
   (\<forall>(cn, m) \<in> set xs. transition_ok r cn) \<and>
   requests' = requests @ map (\<lambda>((c, n), m). request_of r (c, m)) xs \<and>
   distinct (map (\<lambda>((c, n), m). bs_buffer c) xs) \<and> set (map (\<lambda>((c, n), m). bs_buffer c) xs) \<inter> set seen = {}"
proof (induction xs arbitrary: seen requests)
  case (Cons x xs)
  obtain c n m where x: "x = ((c, n), m)" by (metis prod.collapse)
  from Cons.prems obtain mid where "check_transition r (seen, requests) x = (Inr mid :: ('e recurrent_error, _) result)"
    "try_fold (check_transition r) mid xs = (Inr (seen', requests') :: ('e recurrent_error, _) result)"
    unfolding try_fold.simps rbind_eq_Inr by blast
  then obtain seen1 req1 where mid: "check_transition r (seen, requests) ((c, n), m) = (Inr (seen1, req1) :: ('e recurrent_error, _) result)"
    "try_fold (check_transition r) (seen1, req1) xs = (Inr (seen', requests') :: ('e recurrent_error, _) result)"
    by (cases mid) (simp add: x)
  from mid(1) have one: "transition_ok r (c, n)" "bs_buffer c \<notin> set seen"
    "seen1 = bs_buffer c # seen" "req1 = requests @ [request_of r (c, m)]"
    by (auto simp: check_transition_def transition_ok_def request_of_def lease_for_def result_simps slot_for_Inr split: if_splits)
  from Cons.IH [OF mid(2)] one show ?case by (auto simp: x)
qed simp

text \<open>The frontier, its successors and their requests.\<close>

lemma frontier_ok:
  assumes "length current = length next_states" and "length current = length modes"
    and "try_fold (check_transition r) ([], []) (zip (zip current next_states) modes) = Inr (seen, requests)"
  shows "(\<forall>i < length current. transition_ok r (current ! i, next_states ! i)) \<and>
    requests = map (request_of r) (zip current modes) \<and> distinct (map bs_buffer current) \<and>
    map bs_buffer next_states = map bs_buffer current"
proof -
  let ?xs = "zip (zip current next_states) modes"
  note ok = check_transitions [OF assms(3)]
  have each: "transition_ok r (current ! i, next_states ! i)" if "i < length current" for i
  proof -
    have "((current ! i, next_states ! i), modes ! i) \<in> set ?xs" using that assms(1,2) by (force simp: set_zip)
    with ok show ?thesis by auto
  qed
  have "map (\<lambda>((c, n), m). bs_buffer c) ?xs = map bs_buffer current"
    using assms(1,2) by (intro nth_equalityI) simp_all
  with ok have "distinct (map bs_buffer current)" by simp
  moreover have "map (\<lambda>((c, n), m). request_of r (c, m)) ?xs = map (request_of r) (zip current modes)"
    using assms(1,2) by (intro nth_equalityI) simp_all
  moreover have "map bs_buffer next_states = map bs_buffer current"
    using each assms(1) by (intro nth_equalityI) (auto simp: transition_ok_def)
  ultimately show ?thesis using ok each by simp
qed

text \<open>The request for a buffer, by its slot.\<close>

lemma request_of_slot: "br_slot (request_of r (st, m)) = le_slot (lease_for r (bs_buffer st))"
  by (simp add: request_of_def lease_request_def)

lemma request_at_buffer:
  assumes inv: "runtime_inv r" and modes: "length current = length modes" and i: "i < length current"
    and dist: "distinct (map br_slot (map (request_of r) (zip current modes)))"
    and ps: "map_of (rt_slots r) (bs_buffer (current ! i)) = Some ps"
  shows "request_at (map (request_of r) (zip current modes)) (le_slot (ps_lease ps)) =
    Some (i, request_of r (current ! i, modes ! i))"
proof -
  have "br_slot (map (request_of r) (zip current modes) ! i) = le_slot (ps_lease ps)"
    using i modes ps by (simp add: request_of_slot lease_for_def)
  with request_at_iff [OF dist, of "le_slot (ps_lease ps)" i] i modes show ?thesis by simp
qed

lemma request_elsewhere:
  assumes inv: "runtime_inv r" and modes: "length current = length modes"
    and known: "\<forall>st \<in> set current. map_of (rt_slots r) (bs_buffer st) \<noteq> None"
    and ps: "map_of (rt_slots r) b = Some ps" "b \<notin> bs_buffer ` set current"
  shows "request_at (map (request_of r) (zip current modes)) (le_slot (ps_lease ps)) = None"
  unfolding request_at_None
proof
  assume "le_slot (ps_lease ps) \<in> br_slot ` set (map (request_of r) (zip current modes))"
  then obtain st m where st: "(st, m) \<in> set (zip current modes)" "le_slot (ps_lease ps) = le_slot (lease_for r (bs_buffer st))"
    by (auto simp: request_of_slot)
  then have mem: "st \<in> set current" by (auto dest: set_zip_leftD)
  with known obtain qs where qs: "map_of (rt_slots r) (bs_buffer st) = Some qs" by blast
  with lease_slots_inj [OF inv ps(1) qs] st(2) have "b = bs_buffer st" by (simp add: lease_for_def)
  with mem ps(2) show False by simp
qed

subsection \<open>What a transaction does\<close>

text \<open>The value a buffer of the frontier has afterwards.\<close>

definition transacted_value :: "'l runtime \<Rightarrow> (nat \<Rightarrow> 'l tensor) \<Rightarrow> (buffer_state \<times> bank_mode) list \<Rightarrow> nat \<Rightarrow> 'l tensor" where
  "transacted_value r new frontier i =
    (if snd (frontier ! i) = Retain then the (values_of r (bs_buffer (fst (frontier ! i)))) else new i)"

lemma transact_outcome:
  assumes inv: "runtime_inv r" and run: "transact_retaining zero r current next_states modes (stage :: ('l, 'e, 't) stage) = (r', outcome)"
    and requests: "requests = map (request_of r) (zip current modes)"
    and new: "new = fst (stage (offered zero (rt_pool r) requests))"
  shows "runtime_inv r' \<and> (case outcome of
      Inl e \<Rightarrow> persistent r' = persistent r
    | Inr x \<Rightarrow> length current = length next_states \<and> length current = length modes \<and>
        (\<forall>i < length current. transition_ok r (current ! i, next_states ! i)) \<and> distinct (map bs_buffer current) \<and>
        snd (stage (offered zero (rt_pool r) requests)) = Inr x \<and>
        persistent r' = persistent r ++ map_of (map (\<lambda>i. (bs_buffer (current ! i),
          (next_states ! i, transacted_value r new (zip current modes) i))) [0..<length current]))"
proof (cases "current = [] \<or> length current \<noteq> length next_states \<or> length current \<noteq> length modes")
  case True
  with run have "r' = r" "outcome = Inl (RecContract ''recurrent replacement frontier cardinality mismatch'')"
    by (simp_all add: transact_retaining_def)
  with inv show ?thesis by simp
next
  case False
  then have len: "length current = length next_states" "length current = length modes" by auto
  show ?thesis
  proof (cases "try_fold (check_transition r) ([], []) (zip (zip current next_states) modes)
      :: ('e recurrent_error, nat list \<times> bank_request list) result")
    case (Inl e)
    with run False inv show ?thesis by (auto simp: transact_retaining_def)
  next
    case (Inr sr)
    obtain seen reqs where sr: "sr = (seen, reqs)" by (cases sr)
    note front = frontier_ok [OF len Inr [unfolded sr]]
    then have reqs: "reqs = requests" by (simp add: requests)
    have pinv: "pool_inv (rt_pool r, leases_of (rt_slots r), {#}, {#})" using inv by (simp add: runtime_inv_def)
    obtain p res where host: "host_transact zero False (rt_pool r) requests stage = (p, res)" by fastforce
    note pinv' = inv_transact [OF pinv host]
    show ?thesis
    proof (cases res)
      case l: (Inl e)
      with run False Inr sr reqs host have r': "r' = r\<lparr>rt_pool := p\<rparr>" "outcome = Inl (from_bank_error e)"
        by (simp_all add: transact_retaining_def)
      with keep_slots [OF inv pinv'] rear_only_visible [OF transact_failure [OF host [unfolded l]]] show ?thesis by simp
    next
      case x: (Inr x)
      with run False Inr sr reqs host have r': "r' = \<lparr>rt_pool = p, rt_slots = publish_states next_states (rt_slots r)\<rparr>"
        "outcome = Inr x" by (simp_all add: transact_retaining_def)
      note won = transact_success [OF host [unfolded x] refl new]
      have state: "\<exists>ps. map_of (rt_slots r) (bs_buffer (current ! i)) = Some ps \<and> ps_state ps = current ! i \<and>
          same_descriptor (current ! i) (next_states ! i) \<and> bs_buffer (next_states ! i) = bs_buffer (current ! i)"
        if "i < length current" for i using front that by (auto simp: transition_ok_def)
      have known: "\<forall>st \<in> set current. map_of (rt_slots r) (bs_buffer st) \<noteq> None"
        using state by (fastforce simp: in_set_conv_nth)
      have dist: "distinct (map br_slot requests)" using won by blast
      let ?held = "transacted_value r new (zip current modes)"
      let ?news = "map (\<lambda>i. (bs_buffer (current ! i), (next_states ! i, ?held i))) [0..<length current]"
      have at: "visible p (le_slot (ps_lease ps)) = Some (?held i)"
        if i: "i < length current" and ps: "map_of (rt_slots r) (bs_buffer (current ! i)) = Some ps" for i ps
      proof -
        let ?rq = "request_of r (current ! i, modes ! i)"
        have rq: "request_at requests (le_slot (ps_lease ps)) = Some (i, ?rq)" "requests ! i = ?rq" "br_slot ?rq = le_slot (ps_lease ps)"
          using request_at_buffer [OF inv len(2) i dist [unfolded requests] ps] i len ps
          by (simp_all add: requests request_of_slot lease_for_def)
        note slot = runtime_slot [OF inv ps]
        then obtain sl t where sl: "po_slots (rt_pool r) (le_slot (ps_lease ps)) = Some sl" "sl_banks sl (sl_active sl) = Some t"
          "values_of r (bs_buffer (current ! i)) = Some t" by (auto simp: values_of_def)
        have "po_slots p (le_slot (ps_lease ps)) = Some (replaced_slot new (i, ?rq) sl)"
          using won rq(1) sl(1) by simp
        then show ?thesis using sl i len
          by (auto simp: visible_def replaced_slot_def transacted_value_def flip_bank_def fill_bank_def request_of_def lease_request_def)
      qed
      have elsewhere: "visible p (le_slot (ps_lease ps)) = visible (rt_pool r) (le_slot (ps_lease ps))"
        if ps: "map_of (rt_slots r) b = Some ps" "b \<notin> bs_buffer ` set current" for b ps
        using request_elsewhere [OF inv len(2) known ps] won by (simp add: visible_def requests)
      have shown: "visible p (le_slot (ps_lease ps)) \<noteq> None" if ps: "map_of (rt_slots r) b = Some ps" for b ps
      proof (cases "b \<in> bs_buffer ` set current")
        case True
        then obtain i where "i < length current" "b = bs_buffer (current ! i)" by (auto simp: in_set_conv_nth)
        with at ps show ?thesis by simp
      next
        case False
        with elsewhere [OF ps] runtime_slot [OF inv ps] show ?thesis by auto
      qed
      have next_ok: "same_descriptor (ps_state ps) st" if "st \<in> set next_states" "map_of (rt_slots r) (bs_buffer st) = Some ps" for st ps
      proof -
        from that(1) len obtain i where "i < length current" "st = next_states ! i" by (auto simp: in_set_conv_nth)
        with state that(2) show ?thesis by fastforce
      qed
      have inv': "runtime_inv r'" unfolding r'(1) by (rule publish_inv [OF inv pinv' shown next_ok])
      have "persistent r' b = (persistent r ++ map_of ?news) b" for b
      proof (cases "b \<in> bs_buffer ` set current")
        case True
        then obtain i where i: "i < length current" "b = bs_buffer (current ! i)" by (auto simp: in_set_conv_nth)
        from state [OF i(1)] i(2) obtain ps where ps: "map_of (rt_slots r) b = Some ps" by blast
        have "named next_states b = Some (next_states ! i)"
          using named_nth [of next_states i] front state [OF i(1)] i len by fastforce
        moreover have "map_of ?news b = Some (next_states ! i, ?held i)"
          using map_of_nth [of bs_buffer current i] front i by simp
        ultimately show ?thesis using ps at [OF i(1), of ps] i(2) by (simp add: r' persistent_def publish_lookup map_add_def)
      next
        case False
        have "bs_buffer ` set next_states = bs_buffer ` set current" using front by (metis list.set_map)
        with False have "named next_states b = None" by (simp add: named_None)
        moreover have "map_of ?news b = None" unfolding map_of_eq_None_iff using False by (auto simp: image_iff)
        ultimately have "named next_states b = None" "map_of ?news b = None" by simp_all
        with elsewhere [of b] False show ?thesis
          by (auto simp: r' persistent_def publish_lookup map_add_def split: option.split)
      qed
      then have "persistent r' = persistent r ++ map_of ?news" ..
      with inv' front len won r'(2) show ?thesis by simp
    qed
  qed
qed

subsection \<open>Prepared transactions\<close>

lemma validate_descriptor:
  "same_descriptor a b \<Longrightarrow> validate_buffer_state a = Inr () \<longleftrightarrow> validate_buffer_state b = Inr ()"
  by (auto simp: validate_buffer_state_def result_simps same_descriptor_def split: if_splits)

lemma schema_states:
  "try_fold check_schema_state previous sts = Inr res \<Longrightarrow> \<forall>st \<in> set sts. validate_buffer_state st = Inr ()"
proof (induction sts arbitrary: previous)
  case (Cons st sts)
  from Cons.prems obtain mid where mid: "check_schema_state previous st = Inr mid" "try_fold check_schema_state mid sts = Inr res"
    unfolding try_fold.simps rbind_eq_Inr by blast
  from mid(1) have "validate_buffer_state st = Inr ()" by (auto simp: check_schema_state_def result_simps)
  with Cons.IH [OF mid(2)] show ?case by simp
qed simp

definition admitted :: "buffer_state \<Rightarrow> bool" where
  "admitted st \<longleftrightarrow> validate_buffer_state st = Inr () \<and> checked_add_u (bs_version st) 1 \<noteq> None"

lemma schema_admits:
  assumes "schema_new own initial modes = Inr s" and "schema_prepare s own' current = Inr t"
  shows "current \<noteq> [] \<and> length initial = length current \<and> length modes = length current \<and>
    (\<forall>st \<in> set current. admitted st) \<and> pt_schema t = s \<and> pt_current t = current \<and> ts_initial s = initial \<and> ts_modes s = modes"
proof -
  from assms(1) have s: "initial \<noteq> []" "length initial = length modes" "ts_initial s = initial" "ts_modes s = modes"
    and valid: "\<forall>st \<in> set initial. validate_buffer_state st = Inr ()"
    by (auto simp: schema_new_def result_simps dest!: schema_states split: if_splits)
  from assms(2) s(3) have t: "length current = length initial" "pt_schema t = s" "pt_current t = current"
    and same: "\<forall>(a, i) \<in> set (zip current initial). same_descriptor a i"
    and fits: "\<forall>st \<in> set current. checked_add_u (bs_version st) 1 \<noteq> None"
    by (auto simp: schema_prepare_def list_ex_iff split: if_splits)
  have "validate_buffer_state st = Inr ()" if st: "st \<in> set current" for st
  proof -
    from st obtain i where i: "i < length current" "st = current ! i" by (auto simp: in_set_conv_nth)
    with t(1) have "(current ! i, initial ! i) \<in> set (zip current initial)" by (force simp: set_zip)
    with same have "same_descriptor st (initial ! i)" using i(2) by auto
    with valid i t(1) show ?thesis using validate_descriptor by (metis nth_mem)
  qed
  with s t fits show ?thesis by (auto simp: admitted_def)
qed

lemma advance_fields:
  "admitted st \<Longrightarrow> bs_buffer (advance st) = bs_buffer st \<and> same_descriptor st (advance st) \<and>
   checked_add_u (bs_version st) 1 = Some (bs_version (advance st)) \<and> validate_buffer_state (advance st) = Inr ()"
  using validate_descriptor [of st "advance st"] by (auto simp: admitted_def advance_def same_descriptor_def)

abbreviation ordered_request ::
  "((buffer_state \<times> buffer_state) \<times> bank_mode) \<times> nat \<times> persistent_slot \<Rightarrow> ('e recurrent_error, bank_request) result" where
  "ordered_request \<equiv> \<lambda>(((current, initial), mode), (b, ps)).
     if ps_state ps \<noteq> current then Inl (RecRuntime (stale current)) else Inr (lease_request (ps_lease ps) (mode = Retain))"

lemma frontier_requests:
  "length is = length cs \<Longrightarrow> length ms = length cs \<Longrightarrow> map bs_buffer cs = map fst slots \<Longrightarrow> distinct (map fst slots) \<Longrightarrow>
   \<forall>c \<in> set cs. admitted c \<Longrightarrow> \<forall>(b, ps) \<in> set slots. map_of (rt_slots r) b = Some ps \<Longrightarrow>
   set seen \<inter> bs_buffer ` set cs = {} \<Longrightarrow>
   try_fold (check_transition r) (seen, reqs) (zip (zip cs (map advance cs)) ms) =
   (case try_map ordered_request (zip (zip (zip cs is) ms) slots) of
      Inl e \<Rightarrow> Inl (e :: 'e recurrent_error)
    | Inr rs \<Rightarrow> Inr (rev (map bs_buffer cs) @ seen, reqs @ rs))"
proof (induction cs arbitrary: "is" ms slots seen reqs)
  case (Cons c cs)
  obtain i ist m mst where lists: "is = i # ist" "ms = m # mst" using Cons.prems(1,2) by (cases "is"; cases ms) auto
  obtain ps slot_rest where slots: "slots = (bs_buffer c, ps) # slot_rest" using Cons.prems(3) by (cases slots) auto
  from Cons.prems have ps: "map_of (rt_slots r) (bs_buffer c) = Some ps" and c: "admitted c" "bs_buffer c \<notin> set seen"
    by (auto simp: slots)
  have rest: "try_fold (check_transition r) (bs_buffer c # seen, reqs @ [lease_request (ps_lease ps) (m = Retain)])
       (zip (zip cs (map advance cs)) mst) =
     (case try_map ordered_request (zip (zip (zip cs ist) mst) slot_rest) of
        Inl e \<Rightarrow> Inl (e :: 'e recurrent_error)
      | Inr rs \<Rightarrow> Inr (rev (map bs_buffer cs) @ bs_buffer c # seen, (reqs @ [lease_request (ps_lease ps) (m = Retain)]) @ rs))"
  proof (rule Cons.IH)
    have "map bs_buffer cs = map fst slot_rest" using Cons.prems(3) by (simp add: slots)
    then have "bs_buffer ` set cs = fst ` set slot_rest" by (metis list.set_map)
    then show "set (bs_buffer c # seen) \<inter> bs_buffer ` set cs = {}" using Cons.prems(4,7) by (auto simp: slots)
  qed (use Cons.prems in \<open>simp_all add: lists slots\<close>)
  show ?case
  proof (cases "ps_state ps = c")
    case False
    with ps c advance_fields [OF c(1)] show ?thesis
      by (simp add: lists slots check_transition_def slot_for_def admitted_def)
  next
    case True
    with ps c advance_fields [OF c(1)]
    have "check_transition r (seen, reqs) ((c, advance c), m) =
        (Inr (bs_buffer c # seen, reqs @ [lease_request (ps_lease ps) (m = Retain)]) :: ('e recurrent_error, _) result)"
      by (simp add: check_transition_def slot_for_def admitted_def)
    with True rest show ?thesis by (simp add: lists slots split: sum.split)
  qed
qed simp

lemma ordered_states:
  "try_map ordered_request (zip (zip (zip cs is) ms) slots) = Inr rs \<Longrightarrow> length is = length cs \<Longrightarrow> length ms = length cs \<Longrightarrow>
   length slots = length cs \<Longrightarrow> i < length cs \<Longrightarrow> ps_state (snd (slots ! i)) = cs ! i"
  by (cases "slots ! i") (auto simp: try_map_Inr_iff split: prod.splits if_splits)

lemma published_in_order:
  assumes "map bs_buffer cs = map fst slots" and "distinct (map fst slots)"
    and states: "\<And>i. i < length cs \<Longrightarrow> ps_state (snd (slots ! i)) = cs ! i"
  shows "map (\<lambda>(ordinal, (b, ps)). (b, ps\<lparr>ps_state := (ps_state ps)\<lparr>bs_version := bs_version (advance (cs ! ordinal))\<rparr>\<rparr>))
      (enumerate 0 slots) = publish_states (map advance cs) slots"
proof (rule nth_equalityI)
  fix i assume "i < length (map (\<lambda>(ordinal, (b, ps)). (b, ps\<lparr>ps_state := (ps_state ps)\<lparr>bs_version := bs_version (advance (cs ! ordinal))\<rparr>\<rparr>)) (enumerate 0 slots))"
  then have i: "i < length slots" "i < length cs" using map_eq_imp_length_eq [OF assms(1)] by simp_all
  obtain b ps where slot: "slots ! i = (b, ps)" by (cases "slots ! i")
  have b: "bs_buffer (cs ! i) = b" using assms(1) i slot by (metis fst_conv nth_map)
  have "map bs_buffer (map advance cs) = map bs_buffer cs" by (simp add: advance_def)
  then have "distinct (map bs_buffer (map advance cs))" using assms(1,2) by simp
  from named_nth [OF this, of i] i b have "named (map advance cs) b = Some (advance (cs ! i))" by (simp add: advance_def)
  moreover have "(cs ! i)\<lparr>bs_version := bs_version (advance (cs ! i))\<rparr> = advance (cs ! i)" by (simp add: advance_def)
  ultimately show "map (\<lambda>(ordinal, (b, ps)). (b, ps\<lparr>ps_state := (ps_state ps)\<lparr>bs_version := bs_version (advance (cs ! ordinal))\<rparr>\<rparr>)) (enumerate 0 slots) ! i =
      publish_states (map advance cs) slots ! i"
    using i slot states [OF i(2)] by (simp add: publish_states_def nth_enumerate_eq named_def)
qed (simp add: publish_states_def)

lemma frontier_equivalent:
  assumes inv: "runtime_inv r" and schema: "schema_new own initial modes = Inr s" and prep: "schema_prepare s own' current = Inr t"
  shows "transact_frontier zero r t (stage :: ('l, 'e, 't) stage) = transact_retaining zero r current (advance_all t) modes stage"
proof -
  note ok = schema_admits [OF schema prep]
  let ?slots = "rt_slots r"
  show ?thesis
  proof (cases "length current = length ?slots \<and> map bs_buffer current = map fst ?slots")
    case False
    have "map (\<lambda>st. st\<lparr>bs_version := bs_version (advance st)\<rparr>) current = advance_all t"
      using ok by (simp add: advance_all_def advance_def)
    moreover have "pt_current t = current" "ts_modes (pt_schema t) = modes" using ok by simp_all
    ultimately show ?thesis unfolding transact_frontier_def Let_def by (simp only: False not_False_eq_True if_True)
  next
    case True
    have dist: "distinct (map fst ?slots)" using inv by (simp add: runtime_inv_def sorted_distinct)
    then have known: "\<forall>(b, ps) \<in> set ?slots. map_of ?slots b = Some ps" by auto
    let ?rq = "try_map ordered_request (zip (zip (zip current initial) modes) ?slots) :: ('e recurrent_error, _) result"
    have req: "try_fold (check_transition r) ([], []) (zip (zip current (map advance current)) modes) =
        (case ?rq of Inl e \<Rightarrow> Inl e | Inr rs \<Rightarrow> Inr (rev (map bs_buffer current) @ [], [] @ rs))"
      by (rule frontier_requests) (use ok True dist known in auto)
    have slow: "transact_retaining zero r current (advance_all t) modes stage =
      (case ?rq of Inl e \<Rightarrow> (r, Inl e)
       | Inr requests \<Rightarrow> (case host_transact zero False (rt_pool r) requests stage of
             (p, Inl e) \<Rightarrow> (r\<lparr>rt_pool := p\<rparr>, Inl (from_bank_error e))
           | (p, Inr x) \<Rightarrow> (\<lparr>rt_pool = p, rt_slots = publish_states (map advance current) ?slots\<rparr>, Inr x)))"
      using ok by (simp add: transact_retaining_def req advance_all_def split: sum.split)
    have fast: "transact_frontier zero r t stage =
      (case ?rq of Inl e \<Rightarrow> (r, Inl e)
       | Inr requests \<Rightarrow> (case host_transact zero True (rt_pool r) requests stage of
             (p, Inl e) \<Rightarrow> (r\<lparr>rt_pool := p\<rparr>, Inl (from_bank_error e))
           | (p, Inr x) \<Rightarrow> (\<lparr>rt_pool = p, rt_slots = map (\<lambda>(ordinal, (b, ps)).
               (b, ps\<lparr>ps_state := (ps_state ps)\<lparr>bs_version := bs_version (advance (current ! ordinal))\<rparr>\<rparr>))
               (enumerate 0 ?slots)\<rparr>, Inr x)))"
      using ok True by (simp add: transact_frontier_def)
    show ?thesis
    proof (cases ?rq)
      case (Inl e)
      then show ?thesis by (simp add: slow fast)
    next
      case (Inr rs)
      have "ps_state (snd (?slots ! i)) = current ! i" if "i < length current" for i
        by (rule ordered_states [OF Inr]) (use ok True that in auto)
      from published_in_order [OF conjunct2 [OF True] dist this] Inr show ?thesis
        by (simp add: slow fast transact_ordered_eq [of zero "rt_pool r" rs stage])
    qed
  qed
qed

subsection \<open>A transaction that can complete does\<close>

lemma check_transitions_ok:
  "\<forall>(cn, m) \<in> set xs. transition_ok r cn \<Longrightarrow> distinct (map (\<lambda>((c, n), m). bs_buffer c) xs) \<Longrightarrow>
   set (map (\<lambda>((c, n), m). bs_buffer c) xs) \<inter> set seen = {} \<Longrightarrow>
   \<exists>seen'. try_fold (check_transition r) (seen, requests) xs =
     (Inr (seen', requests @ map (\<lambda>((c, n), m). request_of r (c, m)) xs) :: ('e recurrent_error, _) result)"
proof (induction xs arbitrary: seen requests)
  case (Cons x xs)
  obtain c n m where x: "x = ((c, n), m)" by (metis prod.collapse)
  from Cons.prems(1) obtain ps where c: "validate_buffer_state c = Inr ()" "validate_buffer_state n = Inr ()"
    "bs_buffer c = bs_buffer n" "same_descriptor c n" "checked_add_u (bs_version c) 1 = Some (bs_version n)"
    "map_of (rt_slots r) (bs_buffer c) = Some ps" "ps_state ps = c" by (auto simp: x transition_ok_def)
  have "check_transition r (seen, requests) x =
      (Inr (bs_buffer c # seen, requests @ [request_of r (c, m)]) :: ('e recurrent_error, _) result)"
    using c Cons.prems(3) by (simp add: x check_transition_def slot_for_def request_of_def lease_for_def)
  moreover obtain seen' where "try_fold (check_transition r) (bs_buffer c # seen, requests @ [request_of r (c, m)]) xs =
      (Inr (seen', (requests @ [request_of r (c, m)]) @ map (\<lambda>((c, n), m). request_of r (c, m)) xs) :: ('e recurrent_error, _) result)"
    using Cons.IH [of "bs_buffer c # seen" "requests @ [request_of r (c, m)]"] Cons.prems by (auto simp: x)
  ultimately show ?case by (auto simp: x)
qed simp

definition admissible ::
  "'l runtime \<Rightarrow> buffer_state list \<Rightarrow> buffer_state list \<Rightarrow> bank_mode list \<Rightarrow> (nat \<Rightarrow> 'l tensor) \<Rightarrow> bool" where
  "admissible r current next_states modes new \<longleftrightarrow>
     current \<noteq> [] \<and> length next_states = length current \<and> length modes = length current \<and> distinct (map bs_buffer current) \<and>
     (\<forall>i < length current. transition_ok r (current ! i, next_states ! i) \<and>
        matches_desc (transacted_value r new (zip current modes) i) (host_desc_of (current ! i)))"

lemma request_fits:
  assumes inv: "runtime_inv r" and ok: "transition_ok r (c, n)"
  shows "request_ok (rt_pool r) (request_of r (c, m)) \<and> br_descriptor (request_of r (c, m)) = host_desc_of c \<and>
    visible (rt_pool r) (br_slot (request_of r (c, m))) = values_of r (bs_buffer c) \<and> values_of r (bs_buffer c) \<noteq> None"
proof -
  from ok obtain ps where ps: "map_of (rt_slots r) (bs_buffer c) = Some ps" "ps_state ps = c"
    and valid: "validate_buffer_state c = Inr ()" by (auto simp: transition_ok_def)
  from valid have "is_ok (numel (bs_shape c))" by (auto simp: validate_buffer_state_def result_simps is_ok_iff)
  with runtime_slot [OF inv ps(1)] ps show ?thesis
    by (auto simp: request_ok_def slot_fits_def request_of_def lease_request_def lease_for_def host_desc_of_def values_of_def)
qed

lemma transact_progress:
  assumes inv: "runtime_inv r" and fin: "finite (dom (po_slots (rt_pool r)))"
    and adm: "admissible r current next_states modes new"
    and outcome: "stage (offered zero (rt_pool r) (map (request_of r) (zip current modes))) = (new, Inr x)"
  shows "\<exists>r'. transact_retaining zero r current next_states modes (stage :: ('l, 'e, 't) stage) = (r', Inr x)"
proof -
  let ?rs = "map (request_of r) (zip current modes)" and ?xs = "zip (zip current next_states) modes"
  have len: "length next_states = length current" "length modes = length current" and ne: "current \<noteq> []"
    and dist: "distinct (map bs_buffer current)"
    and each: "\<And>i. i < length current \<Longrightarrow> transition_ok r (current ! i, next_states ! i)"
    and fits: "\<And>i. i < length current \<Longrightarrow> matches_desc (transacted_value r new (zip current modes) i) (host_desc_of (current ! i))"
    using adm by (auto simp: admissible_def)
  have buffers: "map (\<lambda>((c, n), m). bs_buffer c) ?xs = map bs_buffer current" using len by (intro nth_equalityI) simp_all
  have rs: "map (\<lambda>((c, n), m). request_of r (c, m)) ?xs = ?rs" using len by (intro nth_equalityI) simp_all
  have all: "\<forall>(cn, m) \<in> set ?xs. transition_ok r cn" using each len by (auto simp: set_zip)
  have "\<exists>seen. try_fold (check_transition r) ([], []) ?xs =
      (Inr (seen, [] @ map (\<lambda>((c, n), m). request_of r (c, m)) ?xs) :: ('e recurrent_error, _) result)"
    by (rule check_transitions_ok [OF all]) (use buffers dist in simp_all)
  then obtain seen where front: "try_fold (check_transition r) ([], []) ?xs = (Inr (seen, ?rs) :: ('e recurrent_error, _) result)"
    unfolding rs by auto
  have known: "\<exists>ps. map_of (rt_slots r) (bs_buffer c) = Some ps" if "c \<in> set current" for c
    using that each by (fastforce simp: in_set_conv_nth transition_ok_def)
  have "inj_on (\<lambda>c. le_slot (lease_for r (bs_buffer c))) (set current)"
  proof (rule inj_onI)
    fix c d assume cd: "c \<in> set current" "d \<in> set current" "le_slot (lease_for r (bs_buffer c)) = le_slot (lease_for r (bs_buffer d))"
    from known [OF cd(1)] known [OF cd(2)] cd(3) have "bs_buffer c = bs_buffer d"
      by (auto simp: lease_for_def dest: lease_slots_inj [OF inv])
    with dist cd show "c = d" by (auto simp: distinct_map dest: inj_onD)
  qed
  moreover have "map br_slot ?rs = map (\<lambda>c. le_slot (lease_for r (bs_buffer c))) current"
    using len by (intro nth_equalityI) (simp_all add: request_of_slot)
  ultimately have slots: "distinct (map br_slot ?rs)" using dist by (simp add: distinct_map)
  have ok: "\<forall>q \<in> set ?rs. request_ok (rt_pool r) q \<and> visible (rt_pool r) (br_slot q) \<noteq> None"
  proof
    fix q assume "q \<in> set ?rs"
    then obtain i where i: "i < length current" "q = request_of r (current ! i, modes ! i)" using len by (auto simp: set_zip)
    from request_fits [OF inv each [OF i(1)], of "modes ! i"] i(2)
    show "request_ok (rt_pool r) q \<and> visible (rt_pool r) (br_slot q) \<noteq> None" by simp
  qed
  have matches: "\<forall>i < length ?rs. matches_desc (successor_of (rt_pool r) new ?rs i) (br_descriptor (?rs ! i))"
  proof (intro allI impI)
    fix i assume "i < length ?rs"
    then have i: "i < length current" by simp
    have "zip current modes ! i = (current ! i, modes ! i)" using i len by simp
    then have "transacted_value r new (zip current modes) i =
        (if modes ! i = Retain then the (values_of r (bs_buffer (current ! i))) else new i)"
      unfolding transacted_value_def by simp
    with request_fits [OF inv each [OF i], of "modes ! i"] fits [OF i] i len
    show "matches_desc (successor_of (rt_pool r) new ?rs i) (br_descriptor (?rs ! i))"
      by (auto simp: successor_of_def request_of_def lease_request_def split: if_splits)
  qed
  from transact_completes [where stage = stage, OF fin slots ok refl outcome matches] obtain p where
    "host_transact zero False (rt_pool r) ?rs stage = (p, Inr x)" by blast
  with ne len front show ?thesis by (simp add: transact_retaining_def)
qed

subsection \<open>A pool has finitely many slots\<close>

definition bounded :: "'l pool \<Rightarrow> bool" where
  "bounded p \<longleftrightarrow> finite (dom (po_slots p))"

lemma bounded_set [simp]: "bounded (set_slot p k sl) = bounded p"
  by (simp add: bounded_def set_slot_def)

lemma bounded_lease: "host_lease p physical d = (p', res) \<Longrightarrow> bounded p \<Longrightarrow> bounded p'"
  by (cases rule: host_lease_cases) (auto simp: bounded_def)

lemma bounded_release: "release_lease p l = Inr (p', l') \<Longrightarrow> bounded p' = bounded p"
  by (auto simp: release_lease_def result_simps split: if_splits)

lemma bounded_drop: "bounded (drop_lease p l) = bounded p"
  using bounded_release [of p l] by (auto simp: drop_lease_def split: sum.split)

lemma bounded_lease_state: "lease_state p st t = (p', res) \<Longrightarrow> bounded p \<Longrightarrow> bounded p'"
  by (auto simp: lease_state_def lease_write_def bounded_drop result_simps split: prod.splits sum.splits if_splits
      dest: bounded_lease)

lemma bounded_drops: "bounded (fold (\<lambda>ps p. drop_lease p (ps_lease ps)) staged p) = bounded p"
  by (induction staged arbitrary: p) (simp_all add: bounded_drop)

lemma bounded_initial: "lease_initial p staged vs = (p', res) \<Longrightarrow> bounded p \<Longrightarrow> bounded p'"
  by (induction p staged vs rule: lease_initial.induct)
    (auto simp: bounded_drops split: prod.splits sum.splits dest: bounded_lease_state)

lemma bounded_commit:
  assumes "pool_commit p ws = Inr p'" and "bounded p"
  shows "bounded p'"
proof -
  from commit_slots [OF assms(1)] have "dom (po_slots p') = dom (po_slots p)" by (auto simp: dom_def)
  with assms(2) show ?thesis by (simp add: bounded_def)
qed

lemma bounded_transact:
  assumes "host_transact zero o' p rs stage = (p', res)" and "bounded p"
  shows "bounded p'"
proof (cases res)
  case (Inl e)
  from rear_only_dom [OF transact_failure [OF assms(1) [unfolded Inl]]] assms(2) show ?thesis by (simp add: bounded_def)
next
  case (Inr x)
  from transact_success [OF assms(1) [unfolded Inr] refl refl] have slots: "po_slots p' s = (case request_at rs s of
      None \<Rightarrow> po_slots p s | Some ir \<Rightarrow> map_option (replaced_slot (fst (stage (offered zero p rs))) ir) (po_slots p s))" for s
    by blast
  have "dom (po_slots p') \<subseteq> dom (po_slots p)" by (rule subsetI) (simp add: domIff slots split: option.splits)
  with assms(2) show ?thesis by (auto simp: bounded_def intro: finite_subset)
qed

lemma bounded_commits: "commit_candidates r cs = Inr r' \<Longrightarrow> bounded (rt_pool r) \<Longrightarrow> bounded (rt_pool r')"
  by (auto simp: commit_candidates_def result_simps dest: bounded_commit)

end
