(* ===== verification/RuntimeReach.thy ===== *)
theory RuntimeReach
  imports RuntimeTransactions
begin

section \<open>What the effect runtime promises\<close>

text \<open>
  Every operation of the runtime as a step, with whether it completed, and what holds in every runtime
  such steps reach.
\<close>

subsection \<open>Reachable runtimes\<close>

inductive runtime_step :: "(dtype \<Rightarrow> 'l) \<Rightarrow> 'l runtime \<Rightarrow> bool \<Rightarrow> 'l runtime \<Rightarrow> bool" for zero where
  registered: "runtime_register r b t = (r', outcome) \<Longrightarrow> runtime_step zero r (is_ok outcome) r'"
| states_registered: "register_initial_states r bts = (r', outcome) \<Longrightarrow> runtime_step zero r (is_ok outcome) r'"
| snapshots_registered: "register_initial_snapshots r vs = (r', outcome) \<Longrightarrow> runtime_step zero r (is_ok outcome) r'"
| snapshot_taken: "runtime_snapshot r st = (r', outcome) \<Longrightarrow> runtime_step zero r (is_ok outcome) r'"
| executed: "runtime_execute r steps sources fail = (r', outcome) \<Longrightarrow> runtime_step zero r (is_ok outcome) r'"
| batch_executed: "\<forall>e \<in> set entries. finite (dom (be_starts e)) \<Longrightarrow>
    runtime_execute_batch r entries fail_at = (r', outcome) \<Longrightarrow> runtime_step zero r (is_ok outcome) r'"
| transacted: "transact_retaining zero r current next_states modes stage = (r', outcome :: (unit recurrent_error, unit) result) \<Longrightarrow>
    runtime_step zero r (is_ok outcome) r'"
| frontier_transacted: "schema_new own initial modes = Inr s \<Longrightarrow> schema_prepare s own' current = Inr p \<Longrightarrow>
    transact_frontier zero r p stage = (r', outcome :: (unit recurrent_error, unit) result) \<Longrightarrow>
    runtime_step zero r (is_ok outcome) r'"

inductive runtime_reach :: "(dtype \<Rightarrow> 'l) \<Rightarrow> 'l runtime \<Rightarrow> bool" for zero where
  fresh: "runtime_reach zero (runtime_new i)"
| stepped: "runtime_reach zero r \<Longrightarrow> runtime_step zero r completed r' \<Longrightarrow> runtime_reach zero r'"

text \<open>Buffers stay, keep their descriptor, and never show two values under one version.\<close>

definition runtime_grows :: "'l runtime \<Rightarrow> 'l runtime \<Rightarrow> bool" where
  "runtime_grows r r' \<longleftrightarrow> (\<forall>b st t. persistent r b = Some (st, t) \<longrightarrow>
     (\<exists>st' t'. persistent r' b = Some (st', t') \<and> same_descriptor st st' \<and> bs_version st \<le> bs_version st' \<and>
        (bs_version st' = bs_version st \<longrightarrow> t' = t)))"

lemma runtime_growsD:
  "runtime_grows r r' \<Longrightarrow> persistent r b = Some (st, t) \<Longrightarrow> \<exists>st' t'. persistent r' b = Some (st', t') \<and> same_descriptor st st' \<and>
     bs_version st \<le> bs_version st' \<and> (bs_version st' = bs_version st \<longrightarrow> t' = t)"
  unfolding runtime_grows_def by blast

lemma same_descriptor_refl: "same_descriptor st st"
  by (simp add: same_descriptor_def)

lemma runtime_grows_same: "persistent r' = persistent r \<Longrightarrow> runtime_grows r r'"
  by (simp add: runtime_grows_def same_descriptor_refl)

lemma runtime_grows_trans:
  assumes "runtime_grows q r" and "runtime_grows r s"
  shows "runtime_grows q s"
  unfolding runtime_grows_def
proof (intro allI impI)
  fix b st t assume "persistent q b = Some (st, t)"
  from runtime_growsD [OF assms(1) this] obtain st1 t1 where one: "persistent r b = Some (st1, t1)" "same_descriptor st st1"
    "bs_version st \<le> bs_version st1" "bs_version st1 = bs_version st \<longrightarrow> t1 = t" by blast
  from runtime_growsD [OF assms(2) one(1)] obtain st2 t2 where "persistent s b = Some (st2, t2)" "same_descriptor st1 st2"
    "bs_version st1 \<le> bs_version st2" "bs_version st2 = bs_version st1 \<longrightarrow> t2 = t1" by blast
  with one show "\<exists>st' t'. persistent s b = Some (st', t') \<and> same_descriptor st st' \<and> bs_version st \<le> bs_version st' \<and>
      (bs_version st' = bs_version st \<longrightarrow> t' = t)" by (auto simp: same_descriptor_def)
qed

text \<open>New versions over registered states.\<close>

lemma grows_updates:
  assumes "persistent r' = persistent r ++ news"
    and "\<And>b st t st' t'. persistent r b = Some (st, t) \<Longrightarrow> news b = Some (st', t') \<Longrightarrow> same_descriptor st st' \<and> bs_version st < bs_version st'"
  shows "runtime_grows r r'"
  unfolding runtime_grows_def
proof (intro allI impI)
  fix b st t assume st: "persistent r b = Some (st, t)"
  show "\<exists>st' t'. persistent r' b = Some (st', t') \<and> same_descriptor st st' \<and> bs_version st \<le> bs_version st' \<and>
      (bs_version st' = bs_version st \<longrightarrow> t' = t)"
  proof (cases "news b")
    case None
    with st show ?thesis by (simp add: assms(1) map_add_def same_descriptor_refl)
  next
    case (Some x)
    obtain st' t' where x: "x = (st', t')" by (cases x)
    with assms(2) [OF st] Some have "same_descriptor st st'" "bs_version st < bs_version st'" by blast+
    with Some x show ?thesis by (simp add: assms(1) map_add_def)
  qed
qed

subsection \<open>Executions advance the version\<close>

definition fresher :: "'l runtime \<Rightarrow> 'l candidates \<Rightarrow> bool" where
  "fresher r state \<longleftrightarrow>
     (\<forall>b v st t. fst state (b, v) \<noteq> None \<longrightarrow> persistent r b = Some (st, t) \<longrightarrow> bs_version st \<le> v) \<and>
     (\<forall>c \<in> set (snd state). \<forall>st t. persistent r (bs_buffer (fst c)) = Some (st, t) \<longrightarrow>
        same_descriptor st (fst c) \<and> bs_version st < bs_version (fst c))"

lemma stage_fresher:
  assumes inv: "runtime_inv r" and "fresher r (snaps, cs)" and "stage_candidate (snaps, cs) step src = Inr state'"
    and "check_live_target r step = Inr ()" and "bs_buffer (es_reads step ! 0) = bs_buffer (es_write step)"
    and "bs_version (es_write step) = Suc (bs_version (es_reads step ! 0))"
  shows "fresher r state'"
proof -
  let ?w = "es_write step"
  from assms(3) obtain t c where t: "live_snapshot snaps (es_reads step ! 0) = Inr t"
    and out: "state' = (snaps((bs_buffer ?w, bs_version ?w) \<mapsto> c), cs @ [(?w, c)])"
    by (auto simp: stage_candidate_def result_simps Let_def split: sum.splits if_splits)
  have new: "same_descriptor st ?w \<and> bs_version st < bs_version ?w" if st: "persistent r (bs_buffer ?w) = Some (st, x)" for st x
  proof -
    from t assms(2,5) st have "bs_version st \<le> bs_version (es_reads step ! 0)"
      by (auto simp: live_snapshot_def fresher_def result_simps)
    moreover from persistent_slot_of [OF st] assms(4) have "same_descriptor st ?w"
      by (auto simp: check_live_target_def result_simps Let_def split: if_splits)
    ultimately show ?thesis using assms(6) by simp
  qed
  then have "fresher r (snaps((bs_buffer ?w, bs_version ?w) \<mapsto> c), cs @ [(?w, c)])"
    using assms(2) unfolding fresher_def by (auto simp: less_imp_le)
  then show ?thesis by (simp add: out)
qed

lemma execute_grows:
  assumes inv: "runtime_inv r" and run: "runtime_execute r steps sources fail = (r', Inr states)"
  shows "runtime_grows r r'"
proof -
  from run have valid: "disciplined steps" and live: "\<forall>s \<in> set steps. check_live_target r s = Inr ()"
    by (auto simp: runtime_execute_def snapshot_all_ok [OF inv] result_simps checks_Inr validated_disciplined split: sum.splits)
  from execute_outcome [OF inv run] obtain snaps cs where
    loop: "try_fold (run_candidate sources fail) (live_snaps r, []) steps = Inr (snaps, cs)"
    and after: "persistent r' = persistent r ++ map_of (final_values cs)" by auto
  have fold: "fresher r state'" if "try_fold (run_candidate sources fail) state ss = Inr state'" "fresher r state" "set ss \<subseteq> set steps"
    for state ss state'
    using that
  proof (induction ss arbitrary: state)
    case (Cons s ss)
    from Cons.prems(1) obtain mid where mid: "run_candidate sources fail state s = Inr mid"
      "try_fold (run_candidate sources fail) mid ss = Inr state'" unfolding try_fold.simps rbind_eq_Inr by blast
    from Cons.prems(3) obtain i where i: "i < length steps" "steps ! i = s" by (auto simp: in_set_conv_nth)
    with valid have "step_ok (take i steps) s" by (auto simp: disciplined_def)
    then have "bs_buffer (es_reads s ! 0) = bs_buffer (es_write s)" "bs_version (es_write s) = Suc (bs_version (es_reads s ! 0))"
      by (auto simp: step_ok_def)
    moreover obtain snaps cs where st: "state = (snaps, cs)" by (cases state)
    moreover from run_candidate_stage [OF mid(1)] obtain src where "stage_candidate state s src = Inr mid" by blast
    ultimately have "fresher r mid" using stage_fresher [OF inv] Cons.prems(2,3) live by fastforce
    with Cons.IH [OF mid(2)] Cons.prems(3) show ?case by simp
  qed simp
  have "fresher r (live_snaps r, [])" by (auto simp: fresher_def live_snaps_def split: option.splits prod.splits if_splits)
  from fold [OF loop this] have fin: "fresher r (snaps, cs)" by simp
  show ?thesis
  proof (rule grows_updates [OF after])
    fix b st t st' t' assume st: "persistent r b = Some (st, t)" and new: "map_of (final_values cs) b = Some (st', t')"
    from final_candidate [OF map_of_SomeD [OF new]] have "(st', t') \<in> set cs" "bs_buffer st' = b" by auto
    with fin st show "same_descriptor st st' \<and> bs_version st < bs_version st'" by (fastforce simp: fresher_def)
  qed
qed

lemma batch_grows:
  assumes inv: "runtime_inv r" and fin: "\<forall>e \<in> set entries. finite (dom (be_starts e))"
    and run: "runtime_execute_batch r entries fail = (r', Inr states)"
  shows "runtime_grows r r'"
proof -
  let ?plan = "concat (map be_plan entries)"
  from batch_outcome [OF inv fin run] have after: "\<forall>b. persistent r' b = (case persistent r b of None \<Rightarrow> None
      | Some (st, t) \<Rightarrow> Some (after ?plan st, the (batch_memory entries (values_of r) b)))"
    and same: "\<forall>b st t. persistent r b = Some (st, t) \<longrightarrow> version_after ?plan b = 0 \<longrightarrow> batch_memory entries (values_of r) b = Some t"
    by simp_all
  show ?thesis
    unfolding runtime_grows_def
  proof (intro allI impI)
    fix b st t assume st: "persistent r b = Some (st, t)"
    from persistent_buffer [OF inv st] have "version_after ?plan (bs_buffer st) = 0 \<Longrightarrow> the (batch_memory entries (values_of r) b) = t"
      using same st by auto
    with after st show "\<exists>st' t'. persistent r' b = Some (st', t') \<and> same_descriptor st st' \<and> bs_version st \<le> bs_version st' \<and>
        (bs_version st' = bs_version st \<longrightarrow> t' = t)" by (auto simp: after_def same_descriptor_def)
  qed
qed

lemma transact_grows:
  assumes inv: "runtime_inv r" and run: "transact_retaining zero r current next_states modes stage = (r', Inr x)"
  shows "runtime_grows r r'"
proof -
  note out = transact_outcome [OF inv run refl refl, simplified]
  let ?new = "transacted_value r (fst (stage (offered zero (rt_pool r) (map (request_of r) (zip current modes))))) (zip current modes)"
  let ?news = "map (\<lambda>i. (bs_buffer (current ! i), (next_states ! i, ?new i))) [0..<length current]"
  from out have ok: "\<forall>i < length current. transition_ok r (current ! i, next_states ! i)"
    and after: "persistent r' = persistent r ++ map_of ?news" by auto
  show ?thesis
  proof (rule grows_updates [OF after])
    fix b st t st' t' assume st: "persistent r b = Some (st, t)" and new: "map_of ?news b = Some (st', t')"
    from map_of_SomeD [OF new] obtain i where i: "i < length current" "b = bs_buffer (current ! i)" "st' = next_states ! i" by auto
    with ok have "transition_ok r (current ! i, next_states ! i)" by simp
    moreover from persistent_slot_of [OF st] obtain ps where "map_of (rt_slots r) b = Some ps" "ps_state ps = st" by blast
    ultimately show "same_descriptor st st' \<and> bs_version st < bs_version st'"
      using i by (auto simp: transition_ok_def checked_add_u_def checked_u_def split: if_splits)
  qed
qed

text \<open>Every operation keeps the invariant, a failed one shows nothing, a completed one only grows.\<close>

definition good_step :: "'l runtime \<Rightarrow> bool \<Rightarrow> 'l runtime \<Rightarrow> bool" where
  "good_step r completed r' \<longleftrightarrow> runtime_inv r' \<and> (\<not> completed \<longrightarrow> persistent r' = persistent r) \<and> runtime_grows r r'"

lemma good_same: "runtime_inv r' \<Longrightarrow> persistent r' = persistent r \<Longrightarrow> good_step r completed r'"
  by (simp add: good_step_def runtime_grows_same)

lemma good_register:
  assumes inv: "runtime_inv r" and run: "runtime_register r b t = (r', outcome)"
  shows "good_step r (is_ok outcome) r'"
proof (cases outcome)
  case (Inl e)
  with register_outcome [OF assms] show ?thesis by (intro good_same) auto
next
  case (Inr st)
  with register_outcome [OF assms] have "runtime_inv r'" "persistent r b = None" "persistent r' = persistent r ++ [b \<mapsto> (st, t)]"
    by auto
  moreover from this(3) have "runtime_grows r r'" by (rule grows_updates) (use \<open>persistent r b = None\<close> in \<open>auto split: if_splits\<close>)
  ultimately show ?thesis using Inr by (simp add: good_step_def)
qed

lemma good_snapshots:
  assumes inv: "runtime_inv r" and run: "register_initial_snapshots r vs = (r', outcome)"
  shows "good_step r (is_ok outcome) r'"
proof (cases outcome)
  case (Inl e)
  with register_initial_outcome [OF assms] show ?thesis by (intro good_same) auto
next
  case (Inr sts)
  with register_initial_outcome [OF assms] have r': "runtime_inv r'" "persistent r' = persistent r ++ given vs" by auto
  from run Inr obtain seen where "try_fold (check_initial r) [] vs = Inr seen"
    by (auto simp: register_initial_snapshots_def split: sum.splits)
  note ok = check_initial_Inr [OF this]
  have "runtime_grows r r'"
  proof (rule grows_updates [OF r'(2)])
    fix b st t st' t' assume st: "persistent r b = Some (st, t)" and new: "given vs b = Some (st', t')"
    from map_of_SomeD [OF new [unfolded given_def]] ok have "map_of (rt_slots r) b = None" by auto
    with st show "same_descriptor st st' \<and> bs_version st < bs_version st'" by (simp add: persistent_def)
  qed
  with r' Inr show ?thesis by (simp add: good_step_def)
qed

lemma good_transact:
  assumes inv: "runtime_inv r" and run: "transact_retaining zero r current next_states modes stage = (r', outcome)"
  shows "good_step r (is_ok outcome) r'"
proof (cases outcome)
  case (Inl e)
  with transact_outcome [OF assms refl refl] show ?thesis by (intro good_same) auto
next
  case (Inr x)
  with transact_outcome [OF assms refl refl] transact_grows [OF inv run [unfolded Inr]] show ?thesis by (simp add: good_step_def)
qed

lemma snapshot_same:
  assumes inv: "runtime_inv r" and run: "runtime_snapshot r st = (r', outcome)"
  shows "r' = r"
proof (cases "slot_for r st")
  case (Inl e)
  with run show ?thesis by (simp add: runtime_snapshot_def)
next
  case (Inr ps)
  then have "map_of (rt_slots r) (bs_buffer st) = Some ps" "ps_state ps = st" by (simp_all add: slot_for_Inr)
  from snapshot_slot [OF inv this(1)] this(2) run show ?thesis by auto
qed

lemma runtime_step_good: "runtime_step zero r completed r' \<Longrightarrow> runtime_inv r \<Longrightarrow> good_step r completed r'"
proof (induction rule: runtime_step.induct)
  case (states_registered r bts r' outcome)
  show ?case
  proof (cases "try_map (\<lambda>(buffer, t). rbind (state_at_zero buffer t) (\<lambda>st. Inr (st, t))) bts")
    case (Inl e)
    with states_registered show ?thesis by (intro good_same) (auto simp: register_initial_states_def)
  next
    case (Inr states)
    with states_registered have "register_initial_snapshots r states = (r', outcome)" by (simp add: register_initial_states_def)
    with states_registered.prems show ?thesis by (rule good_snapshots)
  qed
next
  case (executed r steps sources fail r' outcome)
  then show ?case
    using execute_outcome [OF executed.prems executed.hyps] execute_grows [OF executed.prems]
    by (cases outcome) (auto simp: good_step_def runtime_grows_same)
next
  case (batch_executed entries r fail_at r' outcome)
  then show ?case
    using batch_outcome [OF batch_executed.prems batch_executed.hyps] batch_grows [OF batch_executed.prems batch_executed.hyps(1)]
    by (cases outcome) (auto simp: good_step_def runtime_grows_same)
next
  case (frontier_transacted own initial modes s own' current p r stage r' outcome)
  have "transact_retaining zero r current (advance_all p) modes stage = (r', outcome)"
    using frontier_transacted.hyps(3) frontier_equivalent [OF frontier_transacted.prems frontier_transacted.hyps(1,2), of zero stage] by simp
  with frontier_transacted.prems show ?case by (rule good_transact)
next
  case (snapshot_taken r st r' outcome)
  with snapshot_same show ?case by (intro good_same) auto
qed (auto intro: good_register good_snapshots good_transact)

lemma runtime_reach_inv: "runtime_reach zero r \<Longrightarrow> runtime_inv r"
  by (induction rule: runtime_reach.induct) (auto simp: runtime_inv_new good_step_def dest: runtime_step_good)

lemma step_bounded:
  "runtime_step zero r completed r' \<Longrightarrow> runtime_inv r \<Longrightarrow> bounded (rt_pool r) \<Longrightarrow> bounded (rt_pool r')"
proof (induction rule: runtime_step.induct)
  case (registered r b t r' outcome)
  then show ?case
    by (auto simp: runtime_register_def split: if_splits sum.splits prod.splits dest: bounded_lease_state)
next
  case (states_registered r bts r' outcome)
  then show ?case
    by (auto simp: register_initial_states_def register_initial_snapshots_def split: sum.splits prod.splits dest: bounded_initial)
next
  case (snapshots_registered r vs r' outcome)
  then show ?case
    by (auto simp: register_initial_snapshots_def split: sum.splits prod.splits dest: bounded_initial)
next
  case (snapshot_taken r st r' outcome)
  from snapshot_same [OF snapshot_taken.prems(1) snapshot_taken.hyps] snapshot_taken.prems(2) show ?case by simp
next
  case (executed r steps sources fail r' outcome)
  then show ?case
    by (auto simp: runtime_execute_def snapshot_all_ok result_simps split: sum.splits dest: bounded_commits)
next
  case (batch_executed entries r fail_at r' outcome)
  show ?case
  proof (cases outcome)
    case (Inl e)
    with batch_outcome [OF batch_executed.prems(1) batch_executed.hyps] batch_executed.prems show ?thesis by simp
  next
    case (Inr states)
    from batch_executed.hyps(2) obtain steps where "rebased_steps entries = Inr steps"
      using Inr by (auto simp: runtime_execute_batch_def split: sum.splits)
    moreover obtain q res where "batch_snapshots r Map.empty Map.empty entries = (q, res)" by fastforce
    moreover have "entries_rebase entries steps" by (rule rebased_steps_list) fact
    moreover have "produced_by r [] = Map.empty" by (rule ext) (simp add: produced_by_def writes_to_def)
    ultimately have "q = r"
      using batch_snapshots_ok [OF batch_executed.prems(1), of Map.empty "[]" entries q res] batch_executed.hyps(1) by simp
    with \<open>rebased_steps entries = Inr steps\<close> \<open>batch_snapshots r Map.empty Map.empty entries = (q, res)\<close>
      batch_executed.hyps(2) Inr batch_executed.prems(2) show ?thesis
      by (auto simp: runtime_execute_batch_def result_simps split: sum.splits dest: bounded_commits)
  qed
next
  case (transacted r current next_states modes stage r' outcome)
  then show ?case
    by (auto simp: transact_retaining_def split: if_splits sum.splits prod.splits dest: bounded_transact)
next
  case (frontier_transacted own initial modes s own' current p r stage r' outcome)
  then have "transact_retaining zero r current (advance_all p) modes stage = (r', outcome)"
    using frontier_equivalent [OF frontier_transacted.prems(1) frontier_transacted.hyps(1,2), of zero stage] by simp
  with frontier_transacted.prems show ?case
    by (auto simp: transact_retaining_def split: if_splits sum.splits prod.splits dest: bounded_transact)
qed

lemma runtime_reach_bounded: "runtime_reach zero r \<Longrightarrow> bounded (rt_pool r)"
proof (induction rule: runtime_reach.induct)
  case (fresh i)
  show ?case by (simp add: runtime_new_def pool_new_def bounded_def)
next
  case (stepped r completed r')
  from step_bounded [OF stepped.hyps(2) runtime_reach_inv [OF stepped.hyps(1)] stepped.IH] show ?case .
qed

subsection \<open>A runtime at work\<close>

definition demo_states :: "(nat \<times> nat tensor) list" where
  "demo_states = [(1, grid), (2, row), (3, patch_row)]"

definition demo_registered :: "nat runtime \<times> (runtime_error, buffer_state list) result" where
  "demo_registered = register_initial_states (runtime_new 0) demo_states"

abbreviation demo_runtime :: "nat runtime" where
  "demo_runtime \<equiv> fst demo_registered"

lemma demo_registered_ok:
  "snd demo_registered = Inr [handle 1 0 grid, handle 2 0 row, handle 3 0 patch_row]"
  "persistent demo_runtime 1 = Some (handle 1 0 grid, grid)"
  "persistent demo_runtime 2 = Some (handle 2 0 row, row)"
  "persistent demo_runtime 3 = Some (handle 3 0 patch_row, patch_row)"
  by code_simp+

lemma demo_runtime_reach: "runtime_reach zero demo_runtime"
proof -
  have "register_initial_states (runtime_new 0) demo_states = (demo_runtime, snd demo_registered)" by (simp add: demo_registered_def)
  from runtime_reach.stepped [OF runtime_reach.fresh runtime_step.states_registered [OF this]] show ?thesis .
qed

subsection \<open>Properties\<close>

text \<open>C16: In every reachable runtime each registered buffer shows a value of exactly its shape and type under
  the state recorded for it, its byte length fits the machine word, and it alone holds its host slot,
  live at the generation of its lease and without views or windows.\<close>

theorem registered_slots_typed:
  assumes "runtime_reach zero r" and "map_of (rt_slots r) b = Some ps"
  shows "\<exists>sl t. live_slot (rt_pool r) (le_slot (ps_lease ps)) (le_generation (ps_lease ps)) = Inr sl \<and>
    sl_views sl = 0 \<and> \<not> sl_window sl \<and> sl_descriptor sl = Some (host_desc_of (ps_state ps)) \<and>
    bs_buffer (ps_state ps) = b \<and> bs_bytes (ps_state ps) \<le> usize_max \<and>
    persistent r b = Some (ps_state ps, t) \<and> td_shape t = bs_shape (ps_state ps) \<and> td_dtype t = bs_dtype (ps_state ps) \<and>
    (\<forall>c qs. map_of (rt_slots r) c = Some qs \<longrightarrow> le_slot (ps_lease qs) = le_slot (ps_lease ps) \<longrightarrow> c = b)"
proof -
  note inv = runtime_reach_inv [OF assms(1)]
  from runtime_slot [OF inv assms(2)] show ?thesis
    using lease_slots_inj [OF inv _ assms(2)] by (fastforce simp: live_slot_Inr fits_desc_def host_desc_of_def)
qed

theorem registered_slots_typed_witness:
  "\<exists>ps t. map_of (rt_slots demo_runtime) 2 = Some ps \<and> persistent demo_runtime 2 = Some (ps_state ps, t) \<and>
     td_shape t = bs_shape (ps_state ps)"
proof -
  from persistent_slot_of [OF demo_registered_ok(3)] obtain ps where "map_of (rt_slots demo_runtime) 2 = Some ps" by blast
  from registered_slots_typed [OF demo_runtime_reach this] this show ?thesis by blast
qed

text \<open>C14: An operation that fails shows nothing: whatever registration, snapshot, execution, batch or
  transaction it was and wherever it stopped, every buffer keeps its state and its value.\<close>

theorem failed_operation_shows_nothing:
  assumes "runtime_reach zero r" and "runtime_step zero r False r'"
  shows "persistent r' = persistent r"
  using runtime_step_good [OF assms(2) runtime_reach_inv [OF assms(1)]] by (simp add: good_step_def)

theorem failed_operation_shows_nothing_witness:
  "persistent (fst (runtime_execute demo_runtime (effect_graph_plan (fst demo5)) Map.empty (Some 1))) 1 = Some (handle 1 0 grid, grid)"
proof -
  obtain r' outcome where run: "runtime_execute demo_runtime (effect_graph_plan (fst demo5)) Map.empty (Some 1) = (r', outcome)" by fastforce
  have "\<not> is_ok (snd (runtime_execute demo_runtime (effect_graph_plan (fst demo5)) Map.empty (Some 1)))" by code_simp
  with runtime_step.executed [OF run] run have "runtime_step (\<lambda>_. 0) demo_runtime False r'" by simp
  from failed_operation_shows_nothing [OF demo_runtime_reach this] run demo_registered_ok(2) show ?thesis by simp
qed

text \<open>C15: A state names one value for good. However many operations follow, a registered buffer stays, keeps
  its shape, type and size, its version never goes back, and while its version is the same its value is.\<close>

theorem state_names_one_value:
  assumes "runtime_reach zero r" and "(\<lambda>q q'. \<exists>completed. runtime_step zero q completed q')\<^sup>*\<^sup>* r r'"
    and "persistent r b = Some (st, t)"
  shows "\<exists>st' t'. persistent r' b = Some (st', t') \<and> same_descriptor st st' \<and> bs_version st \<le> bs_version st' \<and>
    (bs_version st' = bs_version st \<longrightarrow> t' = t)"
proof -
  from assms(2) have "runtime_grows r r' \<and> runtime_reach zero r'"
  proof (induction rule: rtranclp_induct)
    case (step q q')
    then obtain completed where s: "runtime_step zero q completed q'" by blast
    with step.IH runtime_step_good [OF s runtime_reach_inv] show ?case
      by (auto simp: good_step_def intro: runtime_grows_trans runtime_reach.stepped)
  qed (simp add: runtime_grows_same assms(1))
  with assms(3) show ?thesis by (blast dest: runtime_growsD)
qed

theorem state_names_one_value_witness:
  "\<exists>st' t'. persistent (fst (runtime_execute demo_runtime (effect_graph_plan (fst demo5)) Map.empty None)) 2 = Some (st', t') \<and>
     same_descriptor (handle 2 0 row) st'"
proof -
  let ?q = "fst (runtime_execute demo_runtime (effect_graph_plan (fst demo5)) Map.empty None)"
  have "runtime_step (\<lambda>_. 0) demo_runtime
      (is_ok (snd (runtime_execute demo_runtime (effect_graph_plan (fst demo5)) Map.empty None))) ?q"
    by (rule runtime_step.executed) (rule prod.collapse [symmetric])
  then have "(\<lambda>q q'. \<exists>completed. runtime_step (\<lambda>_. 0) q completed q')\<^sup>*\<^sup>* demo_runtime ?q" by blast
  from state_names_one_value [OF demo_runtime_reach this demo_registered_ok(3)] show ?thesis by blast
qed

text \<open>C12: On a runtime that holds the initial values of a built graph, executing the graph's plan does what
  executing the graph does: the same error and no change, or every written state in plan order, each of
  the graph's buffers in the state and with the value the graph ends with, and no other buffer touched.\<close>

theorem runtime_executes_graph:
  assumes "runtime_reach zero r" and "built g hs" and "holds_initial r g"
    and "runtime_execute r (effect_graph_plan g) Map.empty None = (r', outcome)"
  shows "case effect_execute g of
      Inl e \<Rightarrow> r' = r \<and> outcome = Inl (RtEffect e)
    | Inr c \<Rightarrow> outcome = Inr (map es_write (effect_graph_plan g)) \<and>
        persistent r' = (\<lambda>b. case initial_of g b of None \<Rightarrow> persistent r b
          | Some _ \<Rightarrow> Some (the (ec_states c b), the (ec_values c b)))"
  using execute_graph [OF runtime_reach_inv [OF assms(1)] _ assms(3), of r' outcome] built_ok [OF assms(2)] assms(4)
  by (auto simp: effect_graph_plan_def split: sum.splits)

theorem runtime_executes_graph_witness:
  "(\<exists>c. effect_execute (fst demo5) = Inr c \<and>
     persistent (fst (runtime_execute demo_runtime (effect_graph_plan (fst demo5)) Map.empty None)) 1 =
       Some (the (ec_states c 1), the (ec_values c 1))) \<and>
   snd (runtime_execute demo_runtime (effect_graph_plan (fst demo6)) Map.empty None) = Inl (RtEffect (UseBeforeState 2 1 1))"
proof -
  have init: "eg_initial (fst demo5) = demo_states" "eg_initial (fst demo6) = demo_states" by code_simp+
  have holds: "holds_initial demo_runtime (fst demo5)" "holds_initial demo_runtime (fst demo6)"
    unfolding holds_initial_def init by (auto simp: demo_states_def demo_registered_ok demo_registered_ok [unfolded One_nat_def] split: if_splits)
  let ?run = "\<lambda>g. runtime_execute demo_runtime (effect_graph_plan g) Map.empty None"
  have ok: "is_ok (snd (?run (fst demo5)))" "case snd (?run (fst demo6)) of Inl e \<Rightarrow> e = RtEffect (UseBeforeState 2 1 1) | Inr _ \<Rightarrow> False"
    by code_simp+
  note executes = runtime_executes_graph [OF demo_runtime_reach [of "\<lambda>_. 0"] _ _ prod.collapse [symmetric]]
  obtain c where c: "effect_execute (fst demo5) = Inr c"
    using executes [OF demo_built(2) holds(1)] ok(1) by (auto split: sum.splits)
  with executes [OF demo_built(2) holds(1)] have "persistent (fst (?run (fst demo5))) 1 = Some (the (ec_states c 1), the (ec_values c 1))"
    by (simp add: init demo_states_def)
  with c ok(2) show ?thesis by (auto split: sum.splits)
qed

text \<open>C13: A batch that completes has run its entries one after another: every buffer holds what the entries
  leave when they are executed in order on one memory, each reading what it found or the overriding
  source, and its version is advanced by the number of steps that wrote it. A batch that fails at any
  check, step or injected failure leaves the runtime exactly as it was.\<close>

theorem batch_runs_entries_in_order:
  assumes "runtime_reach zero r" and "\<forall>e \<in> set entries. finite (dom (be_starts e))"
    and "runtime_execute_batch r entries fail_at = (r', outcome)"
  shows "case outcome of
      Inl e \<Rightarrow> r' = r
    | Inr states \<Rightarrow> persistent r' = (\<lambda>b. case persistent r b of None \<Rightarrow> None
        | Some (st, t) \<Rightarrow> Some (st\<lparr>bs_version := bs_version st + length (writes_to b (concat (map be_plan entries)))\<rparr>,
            the (batch_memory entries (values_of r) b)))"
proof -
  note inv = runtime_reach_inv [OF assms(1)]
  have "after steps st = st\<lparr>bs_version := bs_version st + length (writes_to b steps)\<rparr>"
    if "persistent r b = Some (st, t)" for steps b st t
    using persistent_buffer [OF inv that] by (simp add: after_def)
  with batch_outcome [OF inv assms(2,3)] show ?thesis
    by (auto simp: fun_eq_iff split: sum.splits option.splits)
qed

theorem batch_runs_entries_in_order_witness:
  "let r' = fst (runtime_execute_batch demo_runtime [demo_entry 0, demo_entry 1] None)
   in persistent r' 1 = Some (handle 1 2 grid, grid\<lparr>td_lanes := [7, 8, 9, 7, 8, 9]\<rparr>) \<and>
      runtime_execute_batch demo_runtime [demo_entry 0, demo_entry 1] (Some (1, 0)) = (demo_runtime, Inl (InjectedFailure 0))"
proof -
  have dom: "dom (be_starts (demo_entry v)) = {1, 2}" for v by (auto simp: demo_entry_def)
  then have keys: "sorted_list_of_set (dom (be_starts (demo_entry v))) = [1, 2]" for v by simp
  have fin: "\<forall>e \<in> set [demo_entry 0, demo_entry 1]. finite (dom (be_starts e))" by (simp add: dom)
  let ?run = "runtime_execute_batch demo_runtime [demo_entry 0, demo_entry 1]"
  have ok: "is_ok (snd (?run None))" "case snd (?run (Some (1, 0))) of Inl e \<Rightarrow> e = InjectedFailure 0 | Inr _ \<Rightarrow> False"
    unfolding runtime_execute_batch_def batch_snapshots.simps keys by code_simp+
  have lanes: "batch_memory [demo_entry 0, demo_entry 1] (values_of demo_runtime) 1 = Some (grid\<lparr>td_lanes := [7, 8, 9, 7, 8, 9]\<rparr>)"
    "length (writes_to 1 (concat (map be_plan [demo_entry 0, demo_entry 1]))) = 2" by code_simp+
  note runs = batch_runs_entries_in_order [OF demo_runtime_reach [of "\<lambda>_. 0"] fin prod.collapse [symmetric]]
  obtain sts where "snd (?run None) = Inr sts" using ok(1) by (auto simp: is_ok_iff)
  with runs [of None] have "persistent (fst (?run None)) = (\<lambda>b. case persistent demo_runtime b of None \<Rightarrow> None
      | Some (st, t) \<Rightarrow> Some (st\<lparr>bs_version := bs_version st + length (writes_to b (concat (map be_plan [demo_entry 0, demo_entry 1])))\<rparr>,
          the (batch_memory [demo_entry 0, demo_entry 1] (values_of demo_runtime) b)))" by (simp only: sum.case)
  from fun_cong [OF this, of 1] have "persistent (fst (?run None)) 1 = Some (handle 1 2 grid, grid\<lparr>td_lanes := [7, 8, 9, 7, 8, 9]\<rparr>)"
    unfolding demo_registered_ok option.case prod.case lanes option.sel by (simp add: handle_def)
  moreover have "?run (Some (1, 0)) = (demo_runtime, Inl (InjectedFailure 0))"
    using runs [of "Some (1, 0)"] ok(2) by (auto simp: prod_eq_iff split: sum.splits)
  ultimately show ?thesis by (simp add: Let_def)
qed

text \<open>C17: A recurrent transaction that completes publishes its frontier and nothing else: every current state
  was the registered one, its successor advances the version by one, a replaced buffer holds what the
  callback wrote for it and a retained one its old value. One that fails, in a check or in the callback,
  changes no state and no value.\<close>

theorem transaction_publishes_frontier:
  assumes "runtime_reach zero r" and "transact_retaining zero r current next_states modes stage = (r', outcome)"
    and "requests = map (request_of r) (zip current modes)" and "new = fst (stage (offered zero (rt_pool r) requests))"
  shows "case outcome of
      Inl e \<Rightarrow> persistent r' = persistent r
    | Inr x \<Rightarrow> length next_states = length current \<and> length modes = length current \<and> distinct (map bs_buffer current) \<and>
        (\<forall>i < length current. transition_ok r (current ! i, next_states ! i)) \<and>
        snd (stage (offered zero (rt_pool r) requests)) = Inr x \<and>
        persistent r' = persistent r ++ map_of (map (\<lambda>i. (bs_buffer (current ! i),
          (next_states ! i, transacted_value r new (zip current modes) i))) [0..<length current])"
  using transact_outcome [OF runtime_reach_inv [OF assms(1)] assms(2-4)] by (auto split: sum.splits)

definition demo_frontier :: "buffer_state list" where
  "demo_frontier = [handle 1 0 grid, handle 2 0 row]"

definition demo_next :: "buffer_state list" where
  "demo_next = [handle 1 1 grid, handle 2 1 row]"

definition demo_fill :: "(nat, unit, unit) stage" where
  "demo_fill banks = ((\<lambda>_. grid\<lparr>td_lanes := [1, 2, 3, 4, 5, 6]\<rparr>), Inr ())"

abbreviation demo_transacted :: "nat runtime \<times> (unit recurrent_error, unit) result" where
  "demo_transacted \<equiv> transact_retaining (\<lambda>_. 0) demo_runtime demo_frontier demo_next [Replace, Retain] demo_fill"

lemma demo_admissible: "admissible demo_runtime demo_frontier demo_next [Replace, Retain] (\<lambda>_. grid\<lparr>td_lanes := [1, 2, 3, 4, 5, 6]\<rparr>)"
proof -
  have slots: "map_option ps_state (map_of (rt_slots demo_runtime) 1) = Some (handle 1 0 grid)"
    "map_option ps_state (map_of (rt_slots demo_runtime) 2) = Some (handle 2 0 row)" by code_simp+
  have each: "validate_buffer_state (handle 1 v grid) = Inr ()" "validate_buffer_state (handle 2 v row) = Inr ()" for v
    by (code_simp, code_simp)
  have fits: "matches_desc (grid\<lparr>td_lanes := [1, 2, 3, 4, 5, 6]\<rparr>) (host_desc_of (handle 1 0 grid))" "matches_desc row (host_desc_of (handle 2 0 row))"
    by code_simp+
  have "transition_ok demo_runtime (handle 1 0 grid, handle 1 1 grid)" "transition_ok demo_runtime (handle 2 0 row, handle 2 1 row)"
    using slots each by (auto simp: transition_ok_def same_descriptor_def checked_add_u_def checked_u_def usize_max_eq)
  then show ?thesis
    using fits demo_registered_ok(3)
    by (auto simp: admissible_def demo_frontier_def demo_next_def transacted_value_def values_of_def less_Suc_eq nth_Cons')
qed

theorem transaction_publishes_frontier_witness:
  "is_ok (snd demo_transacted) \<and>
   persistent (fst demo_transacted) 1 = Some (handle 1 1 grid, grid\<lparr>td_lanes := [1, 2, 3, 4, 5, 6]\<rparr>) \<and>
   persistent (fst demo_transacted) 2 = Some (handle 2 1 row, row)"
proof -
  let ?new = "\<lambda>_. grid\<lparr>td_lanes := [1, 2, 3, 4, 5, 6]\<rparr>"
  have stage: "demo_fill banks = (?new, Inr ())" for banks by (simp add: demo_fill_def)
  have "finite (dom (po_slots (rt_pool demo_runtime)))" using runtime_reach_bounded [OF demo_runtime_reach] by (simp add: bounded_def)
  from transact_progress [where stage = demo_fill, OF runtime_reach_inv [OF demo_runtime_reach] this demo_admissible stage]
  obtain r' where run: "demo_transacted = (r', Inr ())" by blast
  from transaction_publishes_frontier [OF demo_runtime_reach run refl refl]
  have "persistent r' = persistent demo_runtime ++ map_of (map (\<lambda>i. (bs_buffer (demo_frontier ! i),
      (demo_next ! i, transacted_value demo_runtime ?new (zip demo_frontier [Replace, Retain]) i))) [0..<length demo_frontier])"
    by (simp add: stage)
  then have "persistent r' = persistent demo_runtime ++ map_of [(1, (handle 1 1 grid, ?new 0)), (2, (handle 2 1 row, row))]"
    by (simp add: demo_frontier_def demo_next_def transacted_value_def values_of_def demo_registered_ok)
  with run show ?thesis by simp
qed

text \<open>C18: A transaction that can complete does: when the current states are the registered ones of distinct
  buffers, each next state is its successor, and the callback succeeds with values of the right shape,
  type and size, nothing else in a reachable runtime can refuse it, and the callback's value is returned.\<close>

theorem admissible_transaction_completes:
  assumes "runtime_reach zero r" and "admissible r current next_states modes new"
    and "stage (offered zero (rt_pool r) (map (request_of r) (zip current modes))) = (new, Inr x)"
  shows "\<exists>r'. transact_retaining zero r current next_states modes stage = (r', Inr x)"
  by (rule transact_progress [where stage = stage, OF runtime_reach_inv [OF assms(1)] _ assms(2,3)])
    (use runtime_reach_bounded [OF assms(1)] in \<open>simp add: bounded_def\<close>)

theorem admissible_transaction_completes_witness: "is_ok (snd demo_transacted)"
proof -
  have "demo_fill banks = ((\<lambda>_. grid\<lparr>td_lanes := [1, 2, 3, 4, 5, 6]\<rparr>), Inr ())" for banks by (simp add: demo_fill_def)
  from admissible_transaction_completes [where stage = demo_fill, OF demo_runtime_reach [of "\<lambda>_. 0"] demo_admissible this]
  show ?thesis by (auto simp: is_ok_iff)
qed

text \<open>A prepared transaction gives the same runtime, value and error as the general transaction on the
  same frontier and its advanced states, whether it takes the ordered path over all slots or not.\<close>

lemma prepared_frontier_equivalent:
  assumes "runtime_reach zero r" and "schema_new own initial modes = Inr s" and "schema_prepare s own' current = Inr t"
  shows "transact_frontier zero r t stage = transact_retaining zero r current (advance_all t) modes stage"
  by (rule frontier_equivalent [OF runtime_reach_inv [OF assms(1)] assms(2,3)])

text \<open>The frontier of all registered buffers, in order.\<close>

definition demo_schema :: transaction_schema where
  "demo_schema = projr (schema_new 0 (demo_frontier @ [handle 3 0 patch_row]) [Replace, Retain, Retain])"

definition demo_prepared :: prepared_transaction where
  "demo_prepared = projr (schema_prepare demo_schema 0 (demo_frontier @ [handle 3 0 patch_row]))"

theorem prepared_frontier_equivalent_witness:
  "transact_frontier (\<lambda>_. 0) demo_runtime demo_prepared demo_fill =
   transact_retaining (\<lambda>_. 0) demo_runtime (demo_frontier @ [handle 3 0 patch_row])
     (demo_next @ [handle 3 1 patch_row]) [Replace, Retain, Retain] demo_fill"
proof -
  have ok: "is_ok (schema_new 0 (demo_frontier @ [handle 3 0 patch_row]) [Replace, Retain, Retain])"
    "is_ok (schema_prepare demo_schema 0 (demo_frontier @ [handle 3 0 patch_row]))"
    "advance_all demo_prepared = demo_next @ [handle 3 1 patch_row]" by code_simp+
  note steps = ok(1,2) [THEN projr_ok, folded demo_schema_def demo_prepared_def]
  from prepared_frontier_equivalent [OF demo_runtime_reach steps] ok(3) show ?thesis by simp
qed

end
