(* ===== verification/Sharding.thy ===== *)
theory Sharding
  imports Tensors Collective
begin

section \<open>Sharding (src/src/sharding.rs)\<close>

text \<open>
  Layouts of a tensor over an ordered device group, their validation, exact host movement of shards, and
  the decision whether a movement operation stays local to the shards. The cache identity of a layout is
  the debug text of its fields, printed by the standard library: the printer is a parameter \<open>canon\<close>.
  Panics are \<open>LanePanic\<close>; a product the source leaves unchecked wraps.
\<close>

record shard_range =
  rg_start :: nat
  rg_end :: nat

definition range_len :: "shard_range \<Rightarrow> nat" where
  "range_len r = rg_end r - rg_start r"

datatype shard_distribution = Replicated | AxisSharded nat "shard_range list"

record shard_layout =
  sl_group :: "device_id list"
  sl_shape :: shape
  sl_dtype :: dtype
  sl_distribution :: shard_distribution
  sl_key :: string

type_synonym layout_printer = "device_id list \<Rightarrow> shape \<Rightarrow> dtype \<Rightarrow> shard_distribution \<Rightarrow> string"

definition shard_error :: "string \<Rightarrow> (tensor_error, 'a) result" where
  "shard_error reason = Inl (CollectiveError reason)"

definition check_range :: "nat \<Rightarrow> nat \<Rightarrow> shard_range \<Rightarrow> (tensor_error, nat) result" where
  "check_range dim cursor r =
    (if rg_start r \<noteq> cursor \<or> rg_end r < rg_start r \<or> dim < rg_end r
     then shard_error ''shard ranges must exactly cover the global axis in device order'' else Inr (rg_end r))"

definition check_distribution :: "device_id list \<Rightarrow> shape \<Rightarrow> shard_distribution \<Rightarrow> (tensor_error, unit) result" where
  "check_distribution grp s d =
    (case d of
       Replicated \<Rightarrow> Inr ()
     | AxisSharded axis ranges \<Rightarrow>
         if length s \<le> axis \<or> length ranges \<noteq> length grp then shard_error ''invalid axis-sharded layout''
         else rbind (try_fold (check_range (s ! axis)) 0 ranges) (\<lambda>cursor.
              if cursor \<noteq> s ! axis then shard_error ''shard ranges do not cover global axis'' else Inr ()))"

definition layout_validate :: "layout_printer \<Rightarrow> shard_layout \<Rightarrow> (tensor_error, unit) result" where
  "layout_validate canon L =
    (if sl_group L = [] \<or> card (set (sl_group L)) \<noteq> length (sl_group L)
     then shard_error ''shard layout requires distinct nonempty device owners''
     else rbind (numel (sl_shape L)) (\<lambda>_.
          rbind (check_distribution (sl_group L) (sl_shape L) (sl_distribution L)) (\<lambda>_.
          if sl_key L \<noteq> canon (sl_group L) (sl_shape L) (sl_dtype L) (sl_distribution L)
          then shard_error ''shard layout cache identity is noncanonical'' else Inr ())))"

definition layout_build ::
  "layout_printer \<Rightarrow> device_id list \<Rightarrow> shape \<Rightarrow> dtype \<Rightarrow> shard_distribution \<Rightarrow> (tensor_error, shard_layout) result" where
  "layout_build canon grp s d dist =
    (let L = \<lparr>sl_group = grp, sl_shape = s, sl_dtype = d, sl_distribution = dist, sl_key = canon grp s d dist\<rparr>
     in rbind (layout_validate canon L) (\<lambda>_. Inr L))"

definition layout_replicated :: "layout_printer \<Rightarrow> device_id list \<Rightarrow> shape \<Rightarrow> dtype \<Rightarrow> (tensor_error, shard_layout) result" where
  "layout_replicated canon grp s d = layout_build canon grp s d Replicated"

definition shard_axis :: "int \<Rightarrow> nat \<Rightarrow> (tensor_error, nat) result" where
  "shard_axis axis rank =
     rbind (if axis < 0 then ok_or (CollectiveError ''axis is outside tensor rank'') (usize_of_int (int rank + axis))
            else Inr (nat axis)) (\<lambda>a.
     if rank \<le> a then shard_error ''axis is outside tensor rank'' else Inr a)"

definition even_ranges :: "nat \<Rightarrow> nat \<Rightarrow> shard_range list" where
  "even_ranges n width = map (\<lambda>i. \<lparr>rg_start = i * width, rg_end = (i + 1) * width\<rparr>) [0..<n]"

text \<open>A remainder by an empty group panics.\<close>

definition axis_sharded ::
  "layout_printer \<Rightarrow> device_id list \<Rightarrow> shape \<Rightarrow> dtype \<Rightarrow> int \<Rightarrow> (tensor_error, shard_layout) result" where
  "axis_sharded canon grp s d axis =
    (if length s = 0 then layout_replicated canon grp s d
     else rbind (shard_axis axis (length s)) (\<lambda>a.
          if grp = [] then Inl LanePanic
          else if s ! a mod length grp \<noteq> 0 then shard_error ''multi axis uneven''
          else layout_build canon grp s d (AxisSharded a (even_ranges (length grp) (s ! a div length grp)))))"

definition local_shape :: "layout_printer \<Rightarrow> shard_layout \<Rightarrow> nat \<Rightarrow> (tensor_error, shape) result" where
  "local_shape canon L i =
     rbind (layout_validate canon L) (\<lambda>_.
     if length (sl_group L) \<le> i then shard_error ''device index is outside layout group''
     else Inr (case sl_distribution L of
       Replicated \<Rightarrow> sl_shape L
     | AxisSharded axis ranges \<Rightarrow> (sl_shape L)[axis := range_len (ranges ! i)]))"

subsection \<open>Global positions of a shard\<close>

text \<open>The strides loop leaves the first extent out of its checked products.\<close>

fun shard_strides_loop :: "nat list \<Rightarrow> nat list option" where
  "shard_strides_loop [] = Some []"
| "shard_strides_loop [d] = Some [1]"
| "shard_strides_loop (d # e # ds) =
    (case shard_strides_loop (e # ds) of
       None \<Rightarrow> None
     | Some ss \<Rightarrow> (case checked_mul_u (hd ss) e of None \<Rightarrow> None | Some p \<Rightarrow> Some (p # ss)))"

definition shard_strides :: "shape \<Rightarrow> (tensor_error, nat list) result" where
  "shard_strides s = ok_or (ShapeOverflow s) (shard_strides_loop s)"

definition global_position :: "nat \<Rightarrow> nat \<Rightarrow> shape \<Rightarrow> nat list \<Rightarrow> nat list \<Rightarrow> nat \<Rightarrow> nat" where
  "global_position axis start local_dims local_strides global_strides linear =
     foldl (\<lambda>global dimension.
       let coordinate = linear div (local_strides ! dimension) mod (local_dims ! dimension);
           coordinate = (if dimension = axis then coordinate + start else coordinate)
       in global + coordinate * (global_strides ! dimension)) 0 [0..<length local_dims]"

definition local_global_indices :: "layout_printer \<Rightarrow> shard_layout \<Rightarrow> nat \<Rightarrow> (tensor_error, nat list) result" where
  "local_global_indices canon L device =
     rbind (layout_validate canon L) (\<lambda>_.
     rbind (local_shape canon L device) (\<lambda>dims.
     rbind (numel dims) (\<lambda>len.
     case sl_distribution L of
       Replicated \<Rightarrow> Inr [0..<len]
     | AxisSharded axis ranges \<Rightarrow>
         rbind (shard_strides (sl_shape L)) (\<lambda>gs.
         rbind (shard_strides dims) (\<lambda>ls.
         Inr (map (global_position axis (rg_start (ranges ! device)) dims ls gs) [0..<len]))))))"

subsection \<open>Sharded tensors\<close>

record 'l device_shard =
  ds_device :: device_id
  ds_data :: "'l tensor"

record 'l sharded_tensor =
  st_layout :: shard_layout
  st_shards :: "'l device_shard list"

text \<open>Float8 storages are compared by none of the cases of \<open>same_storage\<close>.\<close>

definition same_storage :: "'l tensor \<Rightarrow> 'l tensor \<Rightarrow> bool" where
  "same_storage a b \<longleftrightarrow> \<not> is_float8 (td_dtype a) \<and> td_dtype a = td_dtype b \<and> td_lanes a = td_lanes b"

definition check_shard :: "layout_printer \<Rightarrow> shard_layout \<Rightarrow> unit \<Rightarrow> nat \<times> 'l device_shard \<Rightarrow> (tensor_error, unit) result" where
  "check_shard canon L = (\<lambda>_ (i, sh).
    (if ds_device sh \<noteq> sl_group L ! i then shard_error ''shards must appear once in DeviceGroup order''
     else if td_dtype (ds_data sh) \<noteq> sl_dtype L then shard_error ''shard dtype does not match layout''
     else rbind (local_shape canon L i) (\<lambda>s.
          if td_shape (ds_data sh) \<noteq> s then shard_error ''shard shape does not match layout'' else Inr ())))"

definition sharded_new :: "layout_printer \<Rightarrow> shard_layout \<Rightarrow> 'l device_shard list \<Rightarrow> (tensor_error, 'l sharded_tensor) result" where
  "sharded_new canon L shards =
     rbind (layout_validate canon L) (\<lambda>_.
     if length shards \<noteq> length (sl_group L) then shard_error ''shard count does not match device group''
     else rbind (try_fold (check_shard canon L) () (enumerate 0 shards)) (\<lambda>_.
          if sl_distribution L = Replicated \<and>
             list_ex (\<lambda>(a, b). \<not> same_storage (ds_data a) (ds_data b)) (zip shards (tl shards))
          then shard_error ''replicated shards must contain identical raw storage''
          else Inr \<lparr>st_layout = L, st_shards = shards\<rparr>))"

definition cut_shard :: "layout_printer \<Rightarrow> shard_layout \<Rightarrow> 'l tensor \<Rightarrow> nat \<Rightarrow> (tensor_error, 'l device_shard) result" where
  "cut_shard canon L t i =
     rbind (local_shape canon L i) (\<lambda>s.
     rbind (local_global_indices canon L i) (\<lambda>indices.
     rbind (try_map (index_lane (td_lanes t)) indices) (\<lambda>lanes.
     rbind (from_storage s (td_dtype t) lanes) (\<lambda>data.
     Inr \<lparr>ds_device = sl_group L ! i, ds_data = data\<rparr>))))"

definition shard :: "layout_printer \<Rightarrow> 'l tensor \<Rightarrow> device_id list \<Rightarrow> int option \<Rightarrow> (tensor_error, 'l sharded_tensor) result" where
  "shard canon t grp axis =
     rbind (case axis of
              Some a \<Rightarrow> axis_sharded canon grp (td_shape t) (td_dtype t) a
            | None \<Rightarrow> layout_replicated canon grp (td_shape t) (td_dtype t)) (\<lambda>L.
     rbind (try_map (cut_shard canon L t) [0..<length (sl_group L)]) (\<lambda>shards.
     sharded_new canon L shards))"

definition enter_location ::
  "nat \<Rightarrow> (nat \<times> nat) option list \<Rightarrow> nat \<times> nat \<Rightarrow> (tensor_error, (nat \<times> nat) option list) result" where
  "enter_location i per = (\<lambda>(l, global).
    (if global < length per then Inr (per[global := Some (i, l)]) else Inl LanePanic))"

definition enter_shard ::
  "layout_printer \<Rightarrow> shard_layout \<Rightarrow> (nat \<times> nat) option list \<Rightarrow> nat \<Rightarrow> (tensor_error, (nat \<times> nat) option list) result" where
  "enter_shard canon L per i =
     rbind (local_global_indices canon L i) (\<lambda>globals. try_fold (enter_location i) per (enumerate 0 globals))"

definition read_shard :: "'l device_shard list \<Rightarrow> nat \<times> nat \<Rightarrow> (tensor_error, 'l) result" where
  "read_shard shards = (\<lambda>(s, i).
    (if length shards \<le> s \<or> td_dtype (ds_data (shards ! s)) \<noteq> td_dtype (ds_data (shards ! 0)) then Inl LanePanic
     else index_lane (td_lanes (ds_data (shards ! s))) i))"

definition gather :: "layout_printer \<Rightarrow> 'l sharded_tensor \<Rightarrow> (tensor_error, 'l tensor) result" where
  "gather canon S =
    (let L = st_layout S; shards = st_shards S;
         ranks = (if sl_distribution L = Replicated then take 1 [0..<length shards] else [0..<length shards])
     in rbind (layout_validate canon L) (\<lambda>_.
        rbind (numel (sl_shape L)) (\<lambda>n.
        rbind (try_fold (enter_shard canon L) (replicate n None) ranks) (\<lambda>per.
        rbind (try_map (ok_or (CollectiveError ''missing global element'')) per) (\<lambda>indexes.
        if shards = [] then Inl LanePanic
        else rbind (try_map (read_shard shards) indexes) (\<lambda>lanes.
             from_storage (sl_shape L) (td_dtype (ds_data (shards ! 0))) lanes))))))"

definition redistribute ::
  "layout_printer \<Rightarrow> 'l sharded_tensor \<Rightarrow> device_id list \<Rightarrow> int option \<Rightarrow> (tensor_error, 'l sharded_tensor) result" where
  "redistribute canon S grp axis = rbind (gather canon S) (\<lambda>t. shard canon t grp axis)"

subsection \<open>Movement\<close>

datatype layout_transform =
    ReshapeTo shape
  | PermuteBy "nat list"
  | ExpandTo shape
  | ShrinkBy "(nat \<times> nat) list"
  | StrideBy "nat list"

datatype movement_decision = MoveLocal shard_layout | NeedsRedistribution string

definition valid_permutation :: "nat list \<Rightarrow> nat \<Rightarrow> bool" where
  "valid_permutation axes rank \<longleftrightarrow> length axes = rank \<and> list_all (\<lambda>a. a < rank) axes \<and> distinct axes"

definition permuted_shape :: "shape \<Rightarrow> nat list \<Rightarrow> shape" where
  "permuted_shape s axes = map (\<lambda>a. s ! a) axes"

fun axis_position :: "nat \<Rightarrow> nat list \<Rightarrow> nat" where
  "axis_position x [] = 0"
| "axis_position x (y # ys) = (if y = x then 0 else Suc (axis_position x ys))"

text \<open>The axes of a reshape at which the product of the extents before is that of the shard axis; the last one counts.\<close>

definition reshape_axis :: "nat \<Rightarrow> shape \<Rightarrow> (tensor_error, nat option) result" where
  "reshape_axis before s =
     rbind (try_fold (\<lambda>(running, candidate) (i, d).
        let candidate = (if running = before then Some i else candidate)
        in rbind (ok_or (ShapeOverflow s) (checked_mul_u running d)) (\<lambda>running. Inr (running, candidate)))
       (1, None) (enumerate 0 s)) (\<lambda>(running, candidate).
     Inr (if running = before then Some (length s) else candidate))"

definition movement :: "layout_printer \<Rightarrow> shard_layout \<Rightarrow> layout_transform \<Rightarrow> (tensor_error, movement_decision) result" where
  "movement canon L transform =
     rbind (layout_validate canon L) (\<lambda>_.
     case sl_distribution L of
       Replicated \<Rightarrow> Inr (MoveLocal L)
     | AxisSharded axis _ \<Rightarrow>
       (let local = (\<lambda>s a. rbind (axis_sharded canon (sl_group L) s (sl_dtype L) a) (\<lambda>L'. Inr (MoveLocal L')));
            changed = Inr (NeedsRedistribution ''transform changes provable shard ownership'')
        in case transform of
          PermuteBy axes \<Rightarrow>
            if valid_permutation axes (length (sl_shape L))
            then local (permuted_shape (sl_shape L) axes) (int (axis_position axis axes)) else changed
        | ReshapeTo s \<Rightarrow>
            rbind (reshape_axis (prod_list (take axis (sl_shape L)) mod 2 ^ 64) s) (\<lambda>candidate.
            case candidate of
              Some next \<Rightarrow>
                if next < length s \<and> s ! next mod length (sl_group L) = 0 then local s (int next)
                else Inr (NeedsRedistribution ''reshape moves elements across shard boundaries'')
            | None \<Rightarrow> Inr (NeedsRedistribution ''reshape moves elements across shard boundaries''))
        | ExpandTo s \<Rightarrow>
            if length s < length (sl_shape L) then Inr (NeedsRedistribution ''expand lowers rank'')
            else if s ! (length s - length (sl_shape L) + axis) \<noteq> sl_shape L ! axis
            then Inr (NeedsRedistribution ''expand broadcasts shard axis'')
            else local s (int (axis + (length s - length (sl_shape L))))
        | ShrinkBy bounds \<Rightarrow>
            if length bounds = length (sl_shape L) \<and> fst (bounds ! axis) = 0 \<and> snd (bounds ! axis) = sl_shape L ! axis
            then Inr (MoveLocal L) else changed
        | StrideBy steps \<Rightarrow>
            if length steps = length (sl_shape L) \<and> steps ! axis = 1 then Inr (MoveLocal L) else changed))"

subsection \<open>Lowering decisions\<close>

datatype shard_execution_plan =
    LocalPlan shard_layout string
  | PeerRedistribute shard_layout shard_layout
  | GatherPlan shard_layout
  | SumAllReduce shard_layout nat
  | RedistributionPlan string

definition plan_elementwise :: "shard_layout \<Rightarrow> shard_execution_plan" where
  "plan_elementwise L = LocalPlan L ''elementwise''"

definition plan_binary :: "shard_layout \<Rightarrow> shard_layout \<Rightarrow> shard_execution_plan" where
  "plan_binary lhs rhs = (if lhs = rhs then plan_elementwise lhs else PeerRedistribute rhs lhs)"

definition plan_reduce_sum :: "shard_layout \<Rightarrow> nat \<Rightarrow> shard_execution_plan" where
  "plan_reduce_sum L axis =
    (case sl_distribution L of
       AxisSharded own _ \<Rightarrow> if axis = own then SumAllReduce L axis else LocalPlan L ''reduce''
     | Replicated \<Rightarrow> LocalPlan L ''reduce'')"

definition plan_matmul :: "shard_layout \<Rightarrow> shard_layout \<Rightarrow> nat \<Rightarrow> nat \<Rightarrow> shard_execution_plan" where
  "plan_matmul lhs rhs lhs_contracting rhs_contracting =
    (let shards_on = (\<lambda>L contracting. case sl_distribution L of AxisSharded axis _ \<Rightarrow> axis = contracting | Replicated \<Rightarrow> False)
     in if shards_on lhs lhs_contracting then SumAllReduce lhs lhs_contracting
        else if shards_on rhs rhs_contracting then SumAllReduce rhs rhs_contracting
        else LocalPlan lhs ''matmul'')"

end
