(* ===== verification/ShardingLayouts.thy ===== *)
theory ShardingLayouts
  imports Sharding TensorTheorems
begin

section \<open>Layouts and coordinates\<close>

text \<open>
  A valid layout covers its sharded axis; the positions of a shard are its coordinates shifted along that
  axis; evenly sharded axes cut the lanes into blocks that depend only on the product of the extents before.
\<close>

subsection \<open>Ranges\<close>

lemma check_range_Inr:
  "check_range dim cursor r = Inr c \<longleftrightarrow> rg_start r = cursor \<and> cursor \<le> rg_end r \<and> rg_end r \<le> dim \<and> c = rg_end r"
  by (auto simp: check_range_def shard_error_def)

lemma ranges_cover:
  "try_fold (check_range dim) cursor ranges = Inr final \<Longrightarrow> cursor \<le> x \<Longrightarrow> x < final \<Longrightarrow>
     \<exists>i < length ranges. rg_start (ranges ! i) \<le> x \<and> x < rg_end (ranges ! i)"
proof (induction ranges arbitrary: cursor)
  case (Cons r ranges)
  then have r: "rg_start r = cursor" and rest: "try_fold (check_range dim) (rg_end r) ranges = Inr final"
    by (auto simp: result_simps check_range_Inr)
  show ?case
  proof (cases "x < rg_end r")
    case True
    with r Cons.prems(2) show ?thesis by (intro exI [of _ 0]) simp
  next
    case False
    then have "rg_end r \<le> x" by simp
    from Cons.IH [OF rest this Cons.prems(3)] obtain i where "i < length ranges" "rg_start (ranges ! i) \<le> x" "x < rg_end (ranges ! i)" by blast
    then show ?thesis by (intro exI [of _ "Suc i"]) simp
  qed
qed simp

lemma ranges_bound:
  "try_fold (check_range dim) cursor ranges = Inr final \<Longrightarrow> r \<in> set ranges \<Longrightarrow> rg_start r \<le> rg_end r \<and> rg_end r \<le> dim"
proof (induction ranges arbitrary: cursor)
  case (Cons q ranges)
  then have q: "rg_start q = cursor" "cursor \<le> rg_end q" "rg_end q \<le> dim"
    and rest: "try_fold (check_range dim) (rg_end q) ranges = Inr final"
    by (auto simp: result_simps check_range_Inr)
  with Cons show ?case by auto
qed simp

lemma even_ranges_ok: "try_fold (check_range (n * w)) (k * w) (map (\<lambda>i. \<lparr>rg_start = i * w, rg_end = (i + 1) * w\<rparr>) [k..<n]) = Inr (max n k * w)"
proof (induction "n - k" arbitrary: k)
  case (Suc m)
  then have k: "k < n" and m: "m = n - Suc k" by auto
  have "(k + 1) * w \<le> n * w" using k by (intro mult_right_mono) auto
  then have "check_range (n * w) (k * w) \<lparr>rg_start = k * w, rg_end = (k + 1) * w\<rparr> = Inr ((k + 1) * w)"
    by (simp add: check_range_Inr)
  then show ?case using Suc(1) [OF m] k by (simp add: upt_conv_Cons max_def)
qed (simp add: max_def)

text \<open>What a valid layout is.\<close>

definition layout_ok :: "layout_printer \<Rightarrow> shard_layout \<Rightarrow> bool" where
  "layout_ok canon L \<longleftrightarrow> layout_validate canon L = Inr ()"

lemma layout_validate_Inr:
  "layout_ok canon L \<longleftrightarrow> sl_group L \<noteq> [] \<and> distinct (sl_group L) \<and> numel (sl_shape L) = Inr (prod_list (sl_shape L)) \<and>
     check_distribution (sl_group L) (sl_shape L) (sl_distribution L) = Inr () \<and>
     sl_key L = canon (sl_group L) (sl_shape L) (sl_dtype L) (sl_distribution L)"
  by (auto simp: layout_ok_def layout_validate_def result_simps shard_error_def card_distinct distinct_card dest: numel_InrD split: if_splits)

lemma check_distribution_Inr:
  "check_distribution g s (AxisSharded axis ranges) = Inr () \<longleftrightarrow> axis < length s \<and> length ranges = length g \<and>
     try_fold (check_range (s ! axis)) 0 ranges = Inr (s ! axis)"
  by (auto simp: check_distribution_def shard_error_def result_simps not_le)

subsection \<open>Strides\<close>

lemma shard_strides_exact: "shard_strides_loop s = Some ss \<Longrightarrow> ss = suffix_products s"
proof (induction s arbitrary: ss rule: shard_strides_loop.induct)
  case (3 d e ds)
  then show ?case by (auto simp: checked_mul_u_eq_Some mult.commute split: option.splits)
qed auto

lemma shard_strides_ok: "prod_list s \<le> usize_max \<Longrightarrow> 0 \<notin> set s \<Longrightarrow> shard_strides_loop s = Some (suffix_products s)"
proof (induction s rule: shard_strides_loop.induct)
  case (3 d e ds)
  then have "1 \<le> d" by auto
  then have "1 * (e * prod_list ds) \<le> d * (e * prod_list ds)" by (intro mult_right_mono) auto
  also have "\<dots> \<le> usize_max" using 3(2) by simp
  finally have "e * prod_list ds \<le> usize_max" by simp
  with 3 show ?case by (simp add: checked_mul_u_def checked_u_def mult.commute)
qed auto

subsection \<open>Positions\<close>

definition shift_axis :: "nat \<Rightarrow> nat \<Rightarrow> nat list \<Rightarrow> nat list" where
  "shift_axis axis start c = c[axis := c ! axis + start]"

lemma foldl_add_upt: "foldl (\<lambda>g d. g + f d) a [0..<n] = a + sum_list (map f [0..<n] :: nat list)"
  by (induction n) auto

lemma global_position_eq:
  assumes "length dims = length gs" and "axis < length gs"
  shows "global_position axis start dims (suffix_products dims) (suffix_products gs) n = ravel gs (shift_axis axis start (unravel dims n))"
proof -
  let ?c = "shift_axis axis start (unravel dims n)"
  have un: "unravel dims n ! i = n div (suffix_products dims ! i) mod (dims ! i)" if "i < length dims" for i
    using unravel_by_strides [of n dims, symmetric] that by simp
  have "global_position axis start dims (suffix_products dims) (suffix_products gs) n =
      sum_list (map (\<lambda>i. ?c ! i * (suffix_products gs ! i)) [0..<length gs])"
    unfolding global_position_def Let_def foldl_add_upt using assms
    by (auto simp: shift_axis_def un nth_list_update intro!: arg_cong [of _ _ sum_list])
  also have "\<dots> = ravel gs ?c"
    using assms by (subst ravel_suffix_products)
      (auto simp: shift_axis_def intro!: arg_cong [of _ _ sum_list] nth_equalityI)
  finally show ?thesis .
qed

lemma shift_in_range:
  assumes "in_range (gs[axis := w]) c" and "axis < length gs" and "start + w \<le> gs ! axis"
  shows "in_range gs (shift_axis axis start c)"
proof -
  have len: "length c = length gs" using assms(1) by (simp add: in_range_nth)
  have "c ! axis < w" using assms(1,2) by (auto simp: in_range_nth)
  moreover have "c ! i < gs ! i" if "i < length gs" "i \<noteq> axis" for i
    using assms(1) that by (auto simp: in_range_nth)
  ultimately show ?thesis using assms(2,3) len by (auto simp: in_range_nth shift_axis_def nth_list_update)
qed

text \<open>Every coordinate inside a range is the shift of one inside the shard.\<close>

lemma shift_onto:
  assumes c: "in_range gs c" and axis: "axis < length gs" and r: "start \<le> c ! axis" "c ! axis < start + w"
  shows "in_range (gs[axis := w]) (c[axis := c ! axis - start]) \<and> shift_axis axis start (c[axis := c ! axis - start]) = c"
proof -
  have len: "length c = length gs" using c by (simp add: in_range_nth)
  have "c ! axis - start < w" using r by auto
  then have "in_range (gs[axis := w]) (c[axis := c ! axis - start])"
    using c axis len by (auto simp: in_range_nth nth_list_update)
  moreover have "shift_axis axis start (c[axis := c ! axis - start]) = c"
    using len axis r(1) by (auto simp: shift_axis_def list_eq_iff_nth_eq nth_list_update)
  ultimately show ?thesis ..
qed

subsection \<open>The positions of a valid layout\<close>

definition shard_dims :: "shard_layout \<Rightarrow> nat \<Rightarrow> shape" where
  "shard_dims L i = (case sl_distribution L of Replicated \<Rightarrow> sl_shape L
     | AxisSharded axis ranges \<Rightarrow> (sl_shape L)[axis := range_len (ranges ! i)])"

definition shard_positions :: "shard_layout \<Rightarrow> nat \<Rightarrow> nat list" where
  "shard_positions L i = (case sl_distribution L of Replicated \<Rightarrow> [0..<prod_list (sl_shape L)]
     | AxisSharded axis ranges \<Rightarrow> map (\<lambda>n. ravel (sl_shape L) (shift_axis axis (rg_start (ranges ! i)) (unravel (shard_dims L i) n)))
         [0..<prod_list (shard_dims L i)])"

lemma local_shape_eq: "layout_ok canon L \<Longrightarrow> i < length (sl_group L) \<Longrightarrow> local_shape canon L i = Inr (shard_dims L i)"
  by (simp add: local_shape_def layout_ok_def shard_dims_def)

lemma local_shape_Inr: "local_shape canon L i = Inr s \<Longrightarrow> layout_ok canon L \<and> i < length (sl_group L) \<and> s = shard_dims L i"
  by (auto simp: local_shape_def layout_ok_def shard_dims_def shard_error_def result_simps split: if_splits)

lemma layout_axis:
  assumes "layout_ok canon L" and "sl_distribution L = AxisSharded axis ranges" and "i < length (sl_group L)"
  shows "axis < length (sl_shape L)" and "length ranges = length (sl_group L)"
    and "rg_start (ranges ! i) + range_len (ranges ! i) \<le> sl_shape L ! axis"
proof -
  from assms(1,2) have ok: "axis < length (sl_shape L)" "length ranges = length (sl_group L)"
    "try_fold (check_range (sl_shape L ! axis)) 0 ranges = Inr (sl_shape L ! axis)"
    by (auto simp: layout_validate_Inr check_distribution_Inr)
  then show "axis < length (sl_shape L)" "length ranges = length (sl_group L)" by blast+
  from ranges_bound [OF ok(3), of "ranges ! i"] assms(3) ok(2)
  show "rg_start (ranges ! i) + range_len (ranges ! i) \<le> sl_shape L ! axis" by (simp add: range_len_def)
qed

lemma local_global_indices_Inr:
  assumes "local_global_indices canon L i = Inr gl"
  shows "layout_ok canon L \<and> i < length (sl_group L) \<and> gl = shard_positions L i \<and> numel (shard_dims L i) = Inr (length gl)"
proof -
  from assms obtain dims len where ok: "local_shape canon L i = Inr dims" and len: "numel dims = Inr len"
    and rest: "(case sl_distribution L of Replicated \<Rightarrow> Inr [0..<len] | AxisSharded axis ranges \<Rightarrow>
         rbind (shard_strides (sl_shape L)) (\<lambda>gs. rbind (shard_strides dims) (\<lambda>ls.
         Inr (map (global_position axis (rg_start (ranges ! i)) dims ls gs) [0..<len])))) = Inr gl"
    by (auto simp: local_global_indices_def result_simps)
  note facts = local_shape_Inr [OF ok]
  have prod: "len = prod_list dims" using len by (blast dest: numel_InrD)
  show ?thesis
  proof (cases "sl_distribution L")
    case Replicated
    with facts rest have "gl = [0..<len]" "dims = sl_shape L" by (auto simp: shard_dims_def)
    with facts len prod Replicated show ?thesis by (auto simp: shard_positions_def)
  next
    case (AxisSharded axis ranges)
    from rest AxisSharded have "gl = map (global_position axis (rg_start (ranges ! i)) dims (suffix_products dims) (suffix_products (sl_shape L))) [0..<len]"
      by (auto simp: result_simps shard_strides_def dest!: shard_strides_exact)
    moreover have "axis < length (sl_shape L)" using layout_axis(1) [OF _ AxisSharded] facts by blast
    moreover have "length dims = length (sl_shape L)" using facts AxisSharded by (simp add: shard_dims_def)
    ultimately have "gl = shard_positions L i"
      using facts prod AxisSharded by (simp add: shard_positions_def global_position_eq)
    with facts len show ?thesis by (simp add: prod shard_positions_def AxisSharded)
  qed
qed

lemma shard_dims_le: "layout_ok canon L \<Longrightarrow> i < length (sl_group L) \<Longrightarrow> prod_list (shard_dims L i) \<le> prod_list (sl_shape L)"
proof (cases "sl_distribution L")
  case (AxisSharded axis ranges)
  assume ok: "layout_ok canon L" "i < length (sl_group L)"
  note ax = layout_axis [OF ok(1) AxisSharded ok(2)]
  have "range_len (ranges ! i) \<le> sl_shape L ! axis" using ax(3) by simp
  then have "prod_list (take axis (sl_shape L)) * range_len (ranges ! i) * prod_list (drop (Suc axis) (sl_shape L)) \<le>
      prod_list (take axis (sl_shape L)) * sl_shape L ! axis * prod_list (drop (Suc axis) (sl_shape L))"
    by (intro mult_mono) auto
  moreover have "prod_list (sl_shape L) = prod_list (take axis (sl_shape L)) * sl_shape L ! axis * prod_list (drop (Suc axis) (sl_shape L))"
    using ax(1) by (metis id_take_nth_drop mult.assoc prod_list.Cons prod_list.append)
  moreover have "shard_dims L i = take axis (sl_shape L) @ range_len (ranges ! i) # drop (Suc axis) (sl_shape L)"
    using ax(1) AxisSharded by (simp add: shard_dims_def upd_conv_take_nth_drop)
  ultimately show ?thesis by (simp add: mult.assoc)
qed (simp add: shard_dims_def)

lemma local_global_indices_ok:
  assumes ok: "layout_ok canon L" and i: "i < length (sl_group L)" and pos: "0 \<notin> set (sl_shape L)" and local: "0 \<notin> set (shard_dims L i)"
  shows "local_global_indices canon L i = Inr (shard_positions L i)"
proof -
  have small: "prod_list (sl_shape L) \<le> usize_max" using ok by (auto simp: layout_validate_Inr dest: numel_InrD)
  with shard_dims_le [OF ok i] have small': "prod_list (shard_dims L i) \<le> usize_max" by simp
  have "numel (shard_dims L i) = Inr (prod_list (shard_dims L i))" using small' local by (intro numel_ok)
  moreover have "shard_strides (sl_shape L) = Inr (suffix_products (sl_shape L))" "shard_strides (shard_dims L i) = Inr (suffix_products (shard_dims L i))"
    using shard_strides_ok small small' pos local by (simp_all add: shard_strides_def)
  ultimately have "\<exists>gl. local_global_indices canon L i = Inr gl"
    using ok local_shape_eq [OF ok i] by (cases "sl_distribution L") (simp_all add: local_global_indices_def layout_ok_def)
  then show ?thesis using local_global_indices_Inr by blast
qed

end
