(* ===== verification/ShardingRoundtrip.thy ===== *)
theory ShardingRoundtrip
  imports ShardingLayouts
begin

subsection \<open>Shards tile the global positions\<close>

lemma positions_bound:
  assumes ok: "layout_ok canon L" and i: "i < length (sl_group L)" and m: "m \<in> set (shard_positions L i)"
  shows "m < prod_list (sl_shape L)"
proof (cases "sl_distribution L")
  case (AxisSharded axis ranges)
  note ax = layout_axis [OF ok AxisSharded i]
  from m AxisSharded obtain n where n: "n < prod_list (shard_dims L i)"
    "m = ravel (sl_shape L) (shift_axis axis (rg_start (ranges ! i)) (unravel (shard_dims L i) n))" by (auto simp: shard_positions_def)
  from n(1) have "0 < prod_list (shard_dims L i)" by simp
  then have "0 \<notin> set (shard_dims L i)" by (simp add: prod_list_pos_iff)
  then have "in_range ((sl_shape L)[axis := range_len (ranges ! i)]) (unravel (shard_dims L i) n)"
    using unravel_in_range [of "shard_dims L i" n] AxisSharded by (simp add: shard_dims_def)
  from ravel_less [OF shift_in_range [OF this ax(1,3)]] n(2) show ?thesis by simp
qed (use m in \<open>simp add: shard_positions_def\<close>)

lemma positions_cover:
  assumes ok: "layout_ok canon L" and m: "m < prod_list (sl_shape L)"
  shows "\<exists>i < length (sl_group L). m \<in> set (shard_positions L i)"
proof (cases "sl_distribution L")
  case Replicated
  have "0 < length (sl_group L)" using ok by (simp add: layout_validate_Inr)
  with Replicated m show ?thesis by (auto simp: shard_positions_def)
next
  case (AxisSharded axis ranges)
  from ok AxisSharded have axis: "axis < length (sl_shape L)" and lens: "length ranges = length (sl_group L)"
    and cover: "try_fold (check_range (sl_shape L ! axis)) 0 ranges = Inr (sl_shape L ! axis)"
    by (auto simp: layout_validate_Inr check_distribution_Inr)
  let ?c = "unravel (sl_shape L) m"
  have "0 < prod_list (sl_shape L)" using m by simp
  then have c: "in_range (sl_shape L) ?c" by (simp add: unravel_in_range prod_list_pos_iff)
  then have "?c ! axis < sl_shape L ! axis" using axis by (simp add: in_range_nth)
  from ranges_cover [OF cover _ this] obtain i where
    i: "i < length ranges" "rg_start (ranges ! i) \<le> ?c ! axis" "?c ! axis < rg_end (ranges ! i)" by auto
  have "?c ! axis < rg_start (ranges ! i) + range_len (ranges ! i)" using i(2,3) by (simp add: range_len_def)
  from shift_onto [OF c axis i(2) this] have
    d: "in_range (shard_dims L i) (?c[axis := ?c ! axis - rg_start (ranges ! i)])" and
    eq: "shift_axis axis (rg_start (ranges ! i)) (?c[axis := ?c ! axis - rg_start (ranges ! i)]) = ?c"
    using AxisSharded by (simp_all add: shard_dims_def)
  let ?l = "ravel (shard_dims L i) (?c[axis := ?c ! axis - rg_start (ranges ! i)])"
  have "ravel (sl_shape L) (shift_axis axis (rg_start (ranges ! i)) (unravel (shard_dims L i) ?l)) = m"
    using m by (simp add: unravel_ravel [OF d] eq ravel_unravel)
  then have "m \<in> set (shard_positions L i)"
    using ravel_less [OF d] AxisSharded by (auto simp: shard_positions_def image_iff intro!: bexI [of _ ?l])
  with i(1) lens show ?thesis by auto
qed

subsection \<open>Gathering\<close>

definition located :: "nat set \<Rightarrow> (nat \<Rightarrow> nat list) \<Rightarrow> (nat \<times> nat) option \<Rightarrow> nat \<Rightarrow> bool" where
  "located A G o' m \<longleftrightarrow> (\<forall>i l. o' = Some (i, l) \<longrightarrow> i \<in> A \<and> l < length (G i) \<and> G i ! l = m)"

lemma enter_locations:
  "\<forall>m \<in> set gl. m < length per \<Longrightarrow> \<exists>per'. try_fold (enter_location i) per (enumerate k gl) = Inr per' \<and> length per' = length per \<and>
     (\<forall>m < length per. per' ! m = per ! m \<or> (\<exists>l < length gl. per' ! m = Some (i, k + l) \<and> gl ! l = m)) \<and>
     (\<forall>m \<in> set gl. \<exists>l < length gl. per' ! m = Some (i, k + l) \<and> gl ! l = m)"
proof (induction gl arbitrary: k per)
  case (Cons g gl)
  let ?per = "per[g := Some (i, k)]"
  have g: "g < length per" using Cons.prems by simp
  from Cons.IH [of ?per "Suc k"] Cons.prems obtain per' where
    per': "try_fold (enter_location i) ?per (enumerate (Suc k) gl) = Inr per'" "length per' = length per" and
    old: "\<And>m. m < length per \<Longrightarrow> per' ! m = ?per ! m \<or> (\<exists>l < length gl. per' ! m = Some (i, Suc k + l) \<and> gl ! l = m)" and
    new: "\<And>m. m \<in> set gl \<Longrightarrow> \<exists>l < length gl. per' ! m = Some (i, Suc k + l) \<and> gl ! l = m" by auto
  have later: "\<exists>l < length (g # gl). per' ! m = Some (i, k + l) \<and> (g # gl) ! l = m"
    if "\<exists>l < length gl. per' ! m = Some (i, Suc k + l) \<and> gl ! l = m" for m
  proof -
    from that obtain l where "l < length gl" "per' ! m = Some (i, Suc k + l)" "gl ! l = m" by blast
    then show ?thesis by (intro exI [of _ "Suc l"]) simp
  qed
  have here: "\<exists>l < length (g # gl). per' ! g = Some (i, k + l) \<and> (g # gl) ! l = g"
    using old [OF g] later [of g] g by (cases "per' ! g = ?per ! g") auto
  have "try_fold (enter_location i) per (enumerate k (g # gl)) = Inr per'" using per'(1) g by (simp add: enter_location_def)
  moreover have "per' ! m = per ! m \<or> (\<exists>l < length (g # gl). per' ! m = Some (i, k + l) \<and> (g # gl) ! l = m)" if "m < length per" for m
    using old [OF that] later [of m] here by (cases "m = g") auto
  moreover have "\<exists>l < length (g # gl). per' ! m = Some (i, k + l) \<and> (g # gl) ! l = m" if "m \<in> set (g # gl)" for m
    using that new [of m] later [of m] here by auto
  ultimately show ?case using per'(2) by blast
qed simp

lemma enter_shards:
  assumes gl: "\<forall>i \<in> set ranks. local_global_indices canon L i = Inr (G i) \<and> (\<forall>m \<in> set (G i). m < length per)"
    and "set ranks \<subseteq> A" and per: "\<forall>m < length per. located A G (per ! m) m"
  shows "\<exists>per'. try_fold (enter_shard canon L) per ranks = Inr per' \<and> length per' = length per \<and>
     (\<forall>m < length per. located A G (per' ! m) m \<and> (per ! m \<noteq> None \<longrightarrow> per' ! m \<noteq> None)) \<and>
     (\<forall>i \<in> set ranks. \<forall>m \<in> set (G i). per' ! m \<noteq> None)"
  using assms
proof (induction ranks arbitrary: per)
  case (Cons i ranks)
  from Cons.prems(1) have i: "local_global_indices canon L i = Inr (G i)" "\<forall>m \<in> set (G i). m < length per" by simp_all
  from enter_locations [OF i(2), of i 0] obtain per1 where
    per1: "try_fold (enter_location i) per (enumerate 0 (G i)) = Inr per1" "length per1 = length per" and
    old: "\<And>m. m < length per \<Longrightarrow> per1 ! m = per ! m \<or> (\<exists>l < length (G i). per1 ! m = Some (i, 0 + l) \<and> G i ! l = m)" and
    new: "\<And>m. m \<in> set (G i) \<Longrightarrow> \<exists>l < length (G i). per1 ! m = Some (i, 0 + l) \<and> G i ! l = m" by blast
  have located1: "\<forall>m < length per1. located A G (per1 ! m) m"
  proof (intro allI impI)
    fix m assume m: "m < length per1"
    with old [of m] per1(2) consider "per1 ! m = per ! m" | l where "l < length (G i)" "per1 ! m = Some (i, l)" "G i ! l = m" by auto
    then show "located A G (per1 ! m) m"
      using Cons.prems(2,3) m per1(2) by cases (auto simp: located_def)
  qed
  have some1: "per ! m \<noteq> None \<Longrightarrow> m < length per \<Longrightarrow> per1 ! m \<noteq> None" for m using old [of m] by auto
  from Cons.IH [OF _ _ located1] Cons.prems(1,2) per1(2) obtain per' where
    per': "try_fold (enter_shard canon L) per1 ranks = Inr per'" "length per' = length per" and
    rest: "\<And>m. m < length per \<Longrightarrow> located A G (per' ! m) m \<and> (per1 ! m \<noteq> None \<longrightarrow> per' ! m \<noteq> None)" and
    filled: "\<And>j m. j \<in> set ranks \<Longrightarrow> m \<in> set (G j) \<Longrightarrow> per' ! m \<noteq> None" by auto
  have "per' ! m \<noteq> None" if "j \<in> set (i # ranks)" "m \<in> set (G j)" for j m
  proof (cases "j = i")
    case True
    with that new [of m] i(2) rest [of m] show ?thesis by auto
  next
    case False
    with that filled show ?thesis by auto
  qed
  moreover have "try_fold (enter_shard canon L) per (i # ranks) = Inr per'"
    using per1(1) per'(1) i(1) by (simp add: enter_shard_def)
  ultimately show ?case using per'(2) rest some1 by (intro exI [of _ per']) auto
qed simp

lemma index_lanes_Inr: "try_map (index_lane lanes) idx = Inr ls \<longleftrightarrow> (\<forall>i \<in> set idx. i < length lanes) \<and> ls = map (\<lambda>i. lanes ! i) idx"
  by (induction idx arbitrary: ls) (auto simp: index_lane_def result_simps split: if_splits)

lemma cut_shard_Inr:
  assumes "cut_shard canon L t i = Inr sh"
  shows "layout_ok canon L \<and> i < length (sl_group L) \<and> local_global_indices canon L i = Inr (shard_positions L i) \<and>
    ds_device sh = sl_group L ! i \<and> td_dtype (ds_data sh) = td_dtype t \<and> td_shape (ds_data sh) = shard_dims L i \<and>
    td_lanes (ds_data sh) = map (\<lambda>m. td_lanes t ! m) (shard_positions L i)"
  using assms local_global_indices_Inr [of canon L i]
  by (auto simp: cut_shard_def from_storage_def result_simps index_lanes_Inr dest!: local_shape_Inr split: if_splits)

text \<open>Gathering what was cut gives the tensor back.\<close>

lemma gather_cut:
  assumes t: "tensor_ok t" and shape: "sl_shape L = td_shape t" and cuts: "try_map (cut_shard canon L t) [0..<length (sl_group L)] = Inr shards"
    and ok: "layout_ok canon L"
  shows "gather canon \<lparr>st_layout = L, st_shards = shards\<rparr> = Inr t"
proof -
  let ?n = "prod_list (sl_shape L)" and ?G = "shard_positions L"
  have len: "length shards = length (sl_group L)" using try_map_length [OF cuts] by simp
  have cut: "cut_shard canon L t i = Inr (shards ! i)" if "i < length (sl_group L)" for i
    using cuts that by (simp add: try_map_Inr_iff)
  have ne: "shards \<noteq> []" using len ok by (auto simp: layout_validate_Inr)
  let ?ranks = "if sl_distribution L = Replicated then take 1 [0..<length shards] else [0..<length shards]"
  have ranks: "set ?ranks \<subseteq> {..<length (sl_group L)}" using len by (auto dest: in_set_takeD)
  have gl: "\<forall>i \<in> set ?ranks. local_global_indices canon L i = Inr (?G i) \<and> (\<forall>m \<in> set (?G i). m < length (replicate ?n (None :: (nat \<times> nat) option)))"
    using ranks cut_shard_Inr [OF cut] positions_bound [OF ok] by auto
  from enter_shards [OF gl order_refl] obtain per where
    per: "try_fold (enter_shard canon L) (replicate ?n None) ?ranks = Inr per" "length per = ?n" and
    loc: "\<And>m. m < ?n \<Longrightarrow> located (set ?ranks) ?G (per ! m) m" and filled: "\<And>i m. i \<in> set ?ranks \<Longrightarrow> m \<in> set (?G i) \<Longrightarrow> per ! m \<noteq> None"
    by (auto simp: located_def)
  have some: "per ! m \<noteq> None" if m: "m < ?n" for m
  proof (cases "sl_distribution L = Replicated")
    case True
    have "[0..<length shards] = 0 # [Suc 0..<length shards]" using ne by (simp add: upt_conv_Cons)
    then have "0 \<in> set ?ranks" using True by simp
    moreover have "m \<in> set (?G 0)" using True m by (simp add: shard_positions_def)
    ultimately show ?thesis using filled by blast
  next
    case False
    from positions_cover [OF ok m] obtain i where "i < length (sl_group L)" "m \<in> set (?G i)" by blast
    with False filled [of i m] len show ?thesis by auto
  qed
  define idx where "idx = map the per"
  have locations: "try_map (ok_or (CollectiveError ''missing global element'')) per = Inr idx"
  proof -
    have "ok_or (CollectiveError ''missing global element'') (per ! m) = Inr (the (per ! m))" if "m < ?n" for m
      using some [OF that] by (cases "per ! m") auto
    then show ?thesis using per(2) by (simp add: try_map_Inr_iff idx_def)
  qed
  have "0 < length (sl_group L)" using ne len by (metis length_greater_0_conv)
  then have dtype0: "td_dtype (ds_data (shards ! 0)) = td_dtype t" using cut_shard_Inr [OF cut, of 0] by blast
  have read: "read_shard shards (idx ! m) = Inr (td_lanes t ! m)" if m: "m < ?n" for m
  proof -
    from some [OF m] obtain i l where il: "per ! m = Some (i, l)" by auto
    with loc [OF m] have l: "i \<in> set ?ranks" "l < length (?G i)" "?G i ! l = m" unfolding located_def by blast+
    have i: "i < length (sl_group L)" using l(1) ranks by blast
    have "idx ! m = (i, l)" using il m per(2) by (simp add: idx_def)
    with cut_shard_Inr [OF cut [OF i]] dtype0 i l(2,3) len show ?thesis
      by (auto simp: read_shard_def index_lane_def)
  qed
  have lanes: "try_map (read_shard shards) idx = Inr (td_lanes t)"
    using read tensor_ok_len [OF t] shape per(2) by (simp add: try_map_Inr_iff idx_def)
  have "numel (sl_shape L) = Inr ?n" using ok by (simp add: layout_validate_Inr)
  then show ?thesis
    using ok per(1) locations lanes ne t shape dtype0
    by (simp add: gather_def layout_ok_def from_storage_def tensor_ok_def Let_def)
qed

end
