(* ===== verification/ShardingTheorems.thy ===== *)
theory ShardingTheorems
  imports ShardingRoundtrip
begin

section \<open>Correctness of sharding\<close>

text \<open>
  When a tensor can be sharded, that gathering inverts it, and that a movement the planner keeps local may be
  applied shard by shard.
\<close>

subsection \<open>Success and round trip\<close>

text \<open>How a tensor is distributed, if it can be.\<close>

definition distribution_of :: "shape \<Rightarrow> nat \<Rightarrow> int option \<Rightarrow> shard_distribution option" where
  "distribution_of s n axis =
    (case axis of
       None \<Rightarrow> Some Replicated
     | Some a \<Rightarrow>
         if s = [] then Some Replicated
         else if a < - int (length s) \<or> int (length s) \<le> a then None
         else let k = nat (if a < 0 then a + int (length s) else a) in
              if n dvd s ! k then Some (AxisSharded k (even_ranges n (s ! k div n))) else None)"

definition even_layout :: "layout_printer \<Rightarrow> device_id list \<Rightarrow> shape \<Rightarrow> dtype \<Rightarrow> shard_distribution \<Rightarrow> shard_layout" where
  "even_layout canon grp s d dist = \<lparr>sl_group = grp, sl_shape = s, sl_dtype = d, sl_distribution = dist, sl_key = canon grp s d dist\<rparr>"

lemma shard_axis_Inr:
  "rank \<le> usize_max \<Longrightarrow> shard_axis a rank = Inr k \<longleftrightarrow> - int rank \<le> a \<and> a < int rank \<and> k = nat (if a < 0 then a + int rank else a)"
  by (auto simp: shard_axis_def shard_error_def result_simps usize_of_int_def split: if_splits)

lemma even_distribution_ok:
  assumes "k < length s" and "n dvd s ! k" and "length grp = n" and "0 < n"
  shows "check_distribution grp s (AxisSharded k (even_ranges n (s ! k div n))) = Inr ()"
proof -
  have "s ! k = n * (s ! k div n)" using assms(2) by simp
  then have "try_fold (check_range (s ! k)) 0 (even_ranges n (s ! k div n)) = Inr (s ! k)"
    using even_ranges_ok [of n "s ! k div n" 0] unfolding even_ranges_def by (metis max_nat.right_neutral mult_0)
  with assms show ?thesis by (simp add: check_distribution_Inr even_ranges_def)
qed

lemma layout_build_Inr:
  "layout_build canon grp s d dist = Inr L \<longleftrightarrow> L = even_layout canon grp s d dist \<and> layout_ok canon L"
  by (auto simp: layout_build_def layout_ok_def even_layout_def result_simps Let_def)

lemma axis_sharded_Inr:
  assumes "length s \<le> usize_max" and "s \<noteq> []"
  shows "axis_sharded canon grp s d a = Inr L \<longleftrightarrow> grp \<noteq> [] \<and> layout_ok canon L \<and>
    (\<exists>dist. distribution_of s (length grp) (Some a) = Some dist \<and> L = even_layout canon grp s d dist)"
proof (cases "- int (length s) \<le> a \<and> a < int (length s)")
  case True
  then have "shard_axis a (length s) = Inr (nat (if a < 0 then a + int (length s) else a))"
    using shard_axis_Inr [OF assms(1)] by blast
  with True assms(2) show ?thesis
    by (auto simp: axis_sharded_def distribution_of_def layout_build_Inr shard_error_def Let_def dvd_eq_mod_eq_0)
next
  case False
  have "shard_axis a (length s) \<noteq> Inr k" for k using False shard_axis_Inr [OF assms(1), of a k] by auto
  then obtain e where "shard_axis a (length s) = Inl e" by (cases "shard_axis a (length s)") auto
  with False assms(2) show ?thesis by (auto simp: axis_sharded_def distribution_of_def)
qed

lemma shard_layout_Inr:
  assumes "length s \<le> usize_max"
  shows "(case axis of Some a \<Rightarrow> axis_sharded canon grp s d a | None \<Rightarrow> layout_replicated canon grp s d) = Inr L \<longleftrightarrow>
    grp \<noteq> [] \<and> layout_ok canon L \<and> (\<exists>dist. distribution_of s (length grp) axis = Some dist \<and> L = even_layout canon grp s d dist)"
proof -
  have replicated: "layout_replicated canon grp s d = Inr L \<longleftrightarrow> grp \<noteq> [] \<and> layout_ok canon L \<and> L = even_layout canon grp s d Replicated"
    by (auto simp: layout_replicated_def layout_build_Inr even_layout_def layout_validate_Inr)
  show ?thesis
  proof (cases "axis = None \<or> s = []")
    case True
    then show ?thesis using replicated by (auto simp: distribution_of_def axis_sharded_def split: option.splits)
  next
    case False
    then obtain a where "axis = Some a" "s \<noteq> []" by auto
    with axis_sharded_Inr [OF assms] show ?thesis by simp
  qed
qed

lemma check_replicated [simp]: "check_distribution grp s Replicated = Inr ()"
  by (simp add: check_distribution_def)

lemma layout_okI:
  assumes "tensor_ok t" and "distribution_of (td_shape t) (length grp) axis = Some dist" and "grp \<noteq> []" "distinct grp"
  shows "layout_ok canon (even_layout canon grp (td_shape t) (td_dtype t) dist)"
proof -
  have "numel (td_shape t) = Inr (prod_list (td_shape t))"
    using assms(1) tensor_ok_len [OF assms(1)] by (simp add: tensor_ok_def)
  moreover have "check_distribution grp (td_shape t) dist = Inr ()"
    using assms(2,3) even_distribution_ok [of _ "td_shape t" "length grp" grp]
    by (auto simp: distribution_of_def Let_def split: option.splits if_splits)
  ultimately show ?thesis using assms(3,4) by (simp add: layout_validate_Inr even_layout_def)
qed

lemma try_fold_checked: "\<forall>x \<in> set xs. f () x = Inr () \<Longrightarrow> try_fold f () xs = Inr ()"
  by (induction xs) auto

lemma sharded_new_cut:
  assumes ok: "layout_ok canon L" and dtype: "sl_dtype L = td_dtype t" and cuts: "try_map (cut_shard canon L t) [0..<length (sl_group L)] = Inr shards"
  shows "sharded_new canon L shards = (if sl_distribution L = Replicated \<and> is_float8 (td_dtype t) \<and> 1 < length (sl_group L)
    then shard_error ''replicated shards must contain identical raw storage'' else Inr \<lparr>st_layout = L, st_shards = shards\<rparr>)"
proof -
  have len: "length shards = length (sl_group L)" using try_map_length [OF cuts] by simp
  have cut: "cut_shard canon L t i = Inr (shards ! i)" if "i < length (sl_group L)" for i
    using cuts that by (simp add: try_map_Inr_iff)
  have step: "check_shard canon L () (i, shards ! i) = Inr ()" if "i < length (sl_group L)" for i
    using cut_shard_Inr [OF cut [OF that]] local_shape_eq [OF ok that] dtype by (simp add: check_shard_def)
  have "try_fold (check_shard canon L) () (enumerate 0 shards) = Inr ()"
  proof (rule try_fold_checked)
    show "\<forall>x \<in> set (enumerate 0 shards). check_shard canon L () x = Inr ()"
      using step len by (auto simp: in_set_enumerate_eq)
  qed
  moreover have "list_ex (\<lambda>(a, b). \<not> same_storage (ds_data a) (ds_data b)) (zip shards (tl shards)) \<longleftrightarrow>
      is_float8 (td_dtype t) \<and> 1 < length (sl_group L)" if rep: "sl_distribution L = Replicated"
  proof -
    have "same_storage (ds_data (shards ! i)) (ds_data (shards ! Suc i)) \<longleftrightarrow> \<not> is_float8 (td_dtype t)" if i: "Suc i < length (sl_group L)" for i
      using cut_shard_Inr [OF cut [OF i]] cut_shard_Inr [OF cut [OF Suc_lessD [OF i]]] rep
      by (simp add: same_storage_def shard_positions_def)
    then have bad: "\<not> same_storage (ds_data (shards ! i)) (ds_data (shards ! Suc i)) \<longleftrightarrow> is_float8 (td_dtype t)"
      if "Suc i < length (sl_group L)" for i using that by blast
    show ?thesis
    proof (cases "1 < length (sl_group L)")
      case True
      then have "(shards ! 0, shards ! Suc 0) \<in> set (zip shards (tl shards))" using len by (force simp: set_zip nth_tl)
      with True bad len show ?thesis unfolding list_ex_iff by (fastforce simp: set_zip nth_tl)
    next
      case False
      with len have "length (tl shards) = 0" by simp
      then have "tl shards = []" by blast
      with False show ?thesis by simp
    qed
  qed
  ultimately show ?thesis using ok len by (auto simp: sharded_new_def layout_ok_def)
qed

lemma distribution_even:
  assumes "distribution_of s n axis = Some dist" and "0 < n"
  shows "dist = Replicated \<or> (\<exists>k < length s. n dvd s ! k \<and> dist = AxisSharded k (even_ranges n (s ! k div n)))"
  using assms by (auto simp: distribution_of_def Let_def split: option.splits if_splits)

lemma even_range_len: "i < n \<Longrightarrow> range_len (even_ranges n w ! i) = w" "i < n \<Longrightarrow> rg_start (even_ranges n w ! i) = i * w"
  by (simp_all add: even_ranges_def range_len_def)

lemma even_dims_pos:
  assumes "distribution_of s (length grp) axis = Some dist" and "0 \<notin> set s" and "i < length grp"
  shows "0 \<notin> set (shard_dims (even_layout canon grp s d dist) i)"
proof -
  from assms(3) have "0 < length grp" by linarith
  from distribution_even [OF assms(1) this] show ?thesis
  proof (elim disjE exE conjE)
    fix k assume k: "k < length s" "length grp dvd s ! k" "dist = AxisSharded k (even_ranges (length grp) (s ! k div length grp))"
    have "s ! k \<noteq> 0" using assms(2) k(1) by (metis nth_mem)
    then have "s ! k div length grp \<noteq> 0" using k(2) by (auto elim!: dvdE)
    then show ?thesis using assms(2,3) k(1,3)
      by (auto simp: shard_dims_def even_layout_def even_range_len dest: set_update_subset_insert [THEN subsetD])
  qed (use assms(2) in \<open>simp add: shard_dims_def even_layout_def\<close>)
qed

lemma cut_shard_ok:
  assumes t: "tensor_ok t" and shape: "sl_shape L = td_shape t" and ok: "layout_ok canon L" and i: "i < length (sl_group L)"
    and gl: "local_global_indices canon L i = Inr (shard_positions L i)"
  shows "\<exists>sh. cut_shard canon L t i = Inr sh"
proof -
  have "\<forall>m \<in> set (shard_positions L i). m < td_len t"
    using positions_bound [OF ok i] shape tensor_ok_len [OF t] by auto
  then have "try_map (index_lane (td_lanes t)) (shard_positions L i) = Inr (map (\<lambda>m. td_lanes t ! m) (shard_positions L i))"
    by (simp add: index_lanes_Inr)
  moreover have "numel (shard_dims L i) = Inr (length (shard_positions L i))" using local_global_indices_Inr [OF gl] by blast
  ultimately show ?thesis using local_shape_eq [OF ok i] gl by (simp add: cut_shard_def from_storage_def)
qed

lemma guarded_Inr: "(if b then shard_error r else Inr x) = Inr y \<longleftrightarrow> \<not> b \<and> y = x"
  by (auto simp: shard_error_def)

lemma try_map_succeeds: "\<forall>x \<in> set xs. \<exists>y. f x = Inr y \<Longrightarrow> \<exists>ys. try_map f xs = Inr ys"
  by (induction xs) auto

lemma shard_unfold:
  assumes t: "tensor_ok t" and grp: "grp \<noteq> []" and dist: "distribution_of (td_shape t) (length grp) axis = Some dist"
    and L: "L = even_layout canon grp (td_shape t) (td_dtype t) dist" and ok: "layout_ok canon L"
    and cuts: "try_map (cut_shard canon L t) [0..<length grp] = Inr shards" and rank: "length (td_shape t) \<le> usize_max"
  shows "shard canon t grp axis = (if dist = Replicated \<and> is_float8 (td_dtype t) \<and> 1 < length grp
    then shard_error ''replicated shards must contain identical raw storage'' else Inr \<lparr>st_layout = L, st_shards = shards\<rparr>)"
proof -
  have fields: "sl_group L = grp" "sl_dtype L = td_dtype t" "sl_distribution L = dist" using L by (simp_all add: even_layout_def)
  have "(case axis of Some a \<Rightarrow> axis_sharded canon grp (td_shape t) (td_dtype t) a
      | None \<Rightarrow> layout_replicated canon grp (td_shape t) (td_dtype t)) = Inr L"
    using shard_layout_Inr [OF rank, where axis = axis and canon = canon and grp = grp and d = "td_dtype t" and L = L] grp ok dist L by blast
  moreover have "sharded_new canon L shards = (if dist = Replicated \<and> is_float8 (td_dtype t) \<and> 1 < length grp
    then shard_error ''replicated shards must contain identical raw storage'' else Inr \<lparr>st_layout = L, st_shards = shards\<rparr>)"
    using sharded_new_cut [OF ok fields(2), of shards] cuts fields by simp
  ultimately show ?thesis using cuts fields(1) by (simp add: shard_def)
qed

lemma shard_facts:
  assumes "shard canon t grp axis = Inr S" and rank: "length (td_shape t) \<le> usize_max"
  shows "\<exists>L shards dist. S = \<lparr>st_layout = L, st_shards = shards\<rparr> \<and> layout_ok canon L \<and> grp \<noteq> [] \<and>
    distribution_of (td_shape t) (length grp) axis = Some dist \<and> L = even_layout canon grp (td_shape t) (td_dtype t) dist \<and>
    try_map (cut_shard canon L t) [0..<length grp] = Inr shards \<and> \<not> (dist = Replicated \<and> is_float8 (td_dtype t) \<and> 1 < length grp)"
proof -
  from assms(1) obtain L shards where
    L: "(case axis of Some a \<Rightarrow> axis_sharded canon grp (td_shape t) (td_dtype t) a
      | None \<Rightarrow> layout_replicated canon grp (td_shape t) (td_dtype t)) = Inr L"
    and cuts: "try_map (cut_shard canon L t) [0..<length (sl_group L)] = Inr shards" and new: "sharded_new canon L shards = Inr S"
    unfolding shard_def result_simps by blast
  from L shard_layout_Inr [OF rank, where axis = axis and canon = canon and grp = grp and d = "td_dtype t" and L = L] obtain dist where
    ok: "grp \<noteq> []" "layout_ok canon L" "distribution_of (td_shape t) (length grp) axis = Some dist"
    and eq: "L = even_layout canon grp (td_shape t) (td_dtype t) dist" by blast
  have fields: "sl_group L = grp" "sl_dtype L = td_dtype t" "sl_distribution L = dist" using eq by (simp_all add: even_layout_def)
  have "(if dist = Replicated \<and> is_float8 (td_dtype t) \<and> 1 < length grp
    then shard_error ''replicated shards must contain identical raw storage'' else Inr \<lparr>st_layout = L, st_shards = shards\<rparr>) = Inr S"
    using sharded_new_cut [OF ok(2) fields(2) cuts] new unfolding fields by simp
  then have "S = \<lparr>st_layout = L, st_shards = shards\<rparr>" "\<not> (dist = Replicated \<and> is_float8 (td_dtype t) \<and> 1 < length grp)"
    unfolding guarded_Inr by blast+
  note S = this
  from cuts fields(1) have "try_map (cut_shard canon L t) [0..<length grp] = Inr shards" by simp
  from S(1) ok(2,1,3) eq this S(2) show ?thesis by (intro exI conjI)
qed

text \<open>
  A tensor of positive extents can be sharded exactly when the group is nonempty and without
  repetition, the axis (negative ones count from the end) is one of the tensor, its extent is a multiple of the
  number of devices, and the copies of a replicated tensor can be compared: replicated Float8 tensors on more than
  one device are rejected. A scalar is always replicated.
\<close>

lemma shard_succeeds_iff:
  assumes t: "tensor_ok t" and rank: "length (td_shape t) \<le> usize_max" and pos: "0 \<notin> set (td_shape t)"
  shows "(\<exists>S. shard canon t grp axis = Inr S) \<longleftrightarrow> grp \<noteq> [] \<and> distinct grp \<and>
    (\<exists>dist. distribution_of (td_shape t) (length grp) axis = Some dist \<and>
      \<not> (dist = Replicated \<and> is_float8 (td_dtype t) \<and> 1 < length grp))"
proof
  assume "\<exists>S. shard canon t grp axis = Inr S"
  then obtain S where "shard canon t grp axis = Inr S" ..
  from shard_facts [OF this rank] obtain L dist where L: "layout_ok canon L" "grp \<noteq> []"
    and dist: "distribution_of (td_shape t) (length grp) axis = Some dist" "\<not> (dist = Replicated \<and> is_float8 (td_dtype t) \<and> 1 < length grp)"
    and eq: "L = even_layout canon grp (td_shape t) (td_dtype t) dist" by blast
  have "distinct grp" using L(1) eq by (simp add: layout_validate_Inr even_layout_def)
  with L(2) dist show "grp \<noteq> [] \<and> distinct grp \<and> (\<exists>dist. distribution_of (td_shape t) (length grp) axis = Some dist \<and>
      \<not> (dist = Replicated \<and> is_float8 (td_dtype t) \<and> 1 < length grp))" by blast
next
  assume "grp \<noteq> [] \<and> distinct grp \<and> (\<exists>dist. distribution_of (td_shape t) (length grp) axis = Some dist \<and>
      \<not> (dist = Replicated \<and> is_float8 (td_dtype t) \<and> 1 < length grp))"
  then obtain dist where grp: "grp \<noteq> []" "distinct grp" and dist: "distribution_of (td_shape t) (length grp) axis = Some dist"
    and float: "\<not> (dist = Replicated \<and> is_float8 (td_dtype t) \<and> 1 < length grp)" by blast
  let ?L = "even_layout canon grp (td_shape t) (td_dtype t) dist"
  note ok = layout_okI [OF t dist grp, of canon]
  have "\<exists>sh. cut_shard canon ?L t i = Inr sh" if "i < length grp" for i
  proof (rule cut_shard_ok [OF t _ ok])
    show "local_global_indices canon ?L i = Inr (shard_positions ?L i)"
      using local_global_indices_ok [OF ok, of i] even_dims_pos [OF dist pos that] that pos by (simp add: even_layout_def)
  qed (use that in \<open>simp_all add: even_layout_def\<close>)
  then have "\<forall>i \<in> set [0..<length grp]. \<exists>sh. cut_shard canon ?L t i = Inr sh" by simp
  then obtain shards where "try_map (cut_shard canon ?L t) [0..<length grp] = Inr shards"
    using try_map_succeeds by blast
  from shard_unfold [OF t grp(1) dist refl ok this rank] float
  show "\<exists>S. shard canon t grp axis = Inr S" by auto
qed

lemma shard_rows_example:
  "\<exists>S. shard (\<lambda>_ _ _ _. '''') \<lparr>td_shape = [2, 4], td_dtype = I32, td_lanes = [0..<8]\<rparr> [''a'', ''b''] (Some (- 1)) = Inr S"
  using shard_succeeds_iff [of "\<lparr>td_shape = [2, 4], td_dtype = I32, td_lanes = [0..<8]\<rparr>" "\<lambda>_ _ _ _. ''''" "[''a'', ''b'']" "Some (- 1)"]
  by (simp add: tensor_ok_def numel_ok usize_max_eq distribution_of_def dvd_eq_mod_eq_0 flip: numeral_2_eq_2)

text \<open>C38: whatever the axis and the devices, gathering a sharded tensor gives the tensor back, lane for lane;
  so redistributing it is sharding the tensor anew.\<close>

theorem shard_roundtrip:
  assumes "tensor_ok t" and "length (td_shape t) \<le> usize_max" and "shard canon t grp axis = Inr S"
  shows "gather canon S = Inr t \<and> redistribute canon S grp' axis' = shard canon t grp' axis'"
proof -
  from shard_facts [OF assms(3,2)] obtain L shards dist where S: "S = \<lparr>st_layout = L, st_shards = shards\<rparr>" "layout_ok canon L"
    and eq: "L = even_layout canon grp (td_shape t) (td_dtype t) dist" and cuts: "try_map (cut_shard canon L t) [0..<length grp] = Inr shards" by blast
  from gather_cut [OF assms(1), of L canon shards] S eq cuts have "gather canon S = Inr t" by (simp add: even_layout_def)
  then show ?thesis by (simp add: redistribute_def)
qed

theorem shard_roundtrip_witness:
  "\<exists>S. shard (\<lambda>_ _ _ _. '''') \<lparr>td_shape = [2, 2], td_dtype = I32, td_lanes = [5, 6, 7, 8 :: nat]\<rparr> [''a'', ''b''] (Some 1) = Inr S \<and>
    map (td_lanes \<circ> ds_data) (st_shards S) = [[5, 7], [6, 8]] \<and>
    gather (\<lambda>_ _ _ _. '''') S = Inr \<lparr>td_shape = [2, 2], td_dtype = I32, td_lanes = [5, 6, 7, 8]\<rparr>"
proof -
  let ?t = "\<lparr>td_shape = [2, 2], td_dtype = I32, td_lanes = [5, 6, 7, 8 :: nat]\<rparr>"
  let ?L = "\<lparr>sl_group = [''a'', ''b''], sl_shape = [2, 2], sl_dtype = I32,
    sl_distribution = AxisSharded 1 [\<lparr>rg_start = 0, rg_end = 1\<rparr>, \<lparr>rg_start = 1, rg_end = 2\<rparr>], sl_key = ''''\<rparr>"
  let ?S = "\<lparr>st_layout = ?L, st_shards = [\<lparr>ds_device = ''a'', ds_data = \<lparr>td_shape = [2, 1], td_dtype = I32, td_lanes = [5, 7]\<rparr>\<rparr>,
    \<lparr>ds_device = ''b'', ds_data = \<lparr>td_shape = [2, 1], td_dtype = I32, td_lanes = [6, 8]\<rparr>\<rparr>]\<rparr>"
  have S: "shard (\<lambda>_ _ _ _. '''') ?t [''a'', ''b''] (Some 1) = Inr ?S"
    by code_simp
  have "gather (\<lambda>_ _ _ _. '''') ?S = Inr ?t"
    using shard_roundtrip [OF _ _ S] by (simp add: tensor_ok_def numel_ok usize_max_eq)
  with S show ?thesis by simp
qed

end
