(* ===== verification/ShardingMovement.thy ===== *)
theory ShardingMovement
  imports ShardingTheorems
begin

section \<open>Movement that stays local\<close>

text \<open>
  The elements a device holds when a layout is cut evenly, in closed form, and what it means for a reshape or a
  permutation that no element has to leave its device.
\<close>

subsection \<open>Positions of an even cut\<close>

lemma ravel_shift:
  "k < length ds \<Longrightarrow> length c = length ds \<Longrightarrow> ravel ds (shift_axis k start c) = ravel ds c + start * prod_list (drop (Suc k) ds)"
proof (induction ds arbitrary: k c)
  case (Cons d ds)
  then obtain x xs where "c = x # xs" by (cases c) auto
  with Cons show ?case by (cases k) (auto simp: shift_axis_def algebra_simps)
qed simp

lemma ravel_post: "ravel post (unravel post n) = n mod prod_list post"
  by (rule ravel_unravel)

lemma ravel_widened:
  "ravel (pre @ d # post) (unravel (pre @ w # post) n) =
     n div (w * prod_list post) mod prod_list pre * (d * prod_list post) + n mod (w * prod_list post)"
proof (induction pre)
  case Nil
  show ?case using mod_mult2_eq [of n "prod_list post" w] by (simp add: ravel_post mult.commute)
next
  case (Cons p pre)
  let ?b = "w * prod_list post"
  have "n div (?b * prod_list pre) mod p * prod_list pre + n div ?b mod prod_list pre = n div ?b mod (prod_list pre * p)"
    using mod_mult2_eq [of "n div ?b" "prod_list pre" p] div_mult2_eq [of n ?b "prod_list pre"] by (simp only: mult.commute)
  note step = this
  have "ravel ((p # pre) @ d # post) (unravel ((p # pre) @ w # post) n) =
      (n div (?b * prod_list pre) mod p * prod_list pre + n div ?b mod prod_list pre) * (d * prod_list post) + n mod ?b"
    using Cons by (simp add: mult.commute mult.left_commute distrib_left)
  then show ?case unfolding step by (simp add: mult.commute)
qed

text \<open>The positions of device \<open>i\<close>: in each of the outer blocks, the \<open>i\<close>-th of the equal pieces.\<close>

definition piece_positions :: "nat \<Rightarrow> nat \<Rightarrow> nat \<Rightarrow> nat \<Rightarrow> nat list" where
  "piece_positions outer n piece i = map (\<lambda>m. m div piece * (n * piece) + i * piece + m mod piece) [0..<outer * piece]"

lemma split_axis: "k < length s \<Longrightarrow> s = take k s @ s ! k # drop (Suc k) s"
  by (rule id_take_nth_drop)

lemma even_positions:
  assumes k: "k < length s" and n: "n dvd s ! k" and i: "i < n" and grp: "length grp = n"
  shows "shard_positions (even_layout canon grp s d (AxisSharded k (even_ranges n (s ! k div n)))) i =
     piece_positions (prod_list (take k s)) n (s ! k div n * prod_list (drop (Suc k) s)) i"
proof -
  let ?w = "s ! k div n" and ?pre = "take k s" and ?post = "drop (Suc k) s"
  let ?L = "even_layout canon grp s d (AxisSharded k (even_ranges n ?w))"
  have dims: "shard_dims ?L i = ?pre @ ?w # ?post"
    using k i by (simp add: shard_dims_def even_layout_def even_range_len upd_conv_take_nth_drop)
  have whole: "s = ?pre @ s ! k # ?post" by (rule split_axis [OF k])
  have "ravel s (shift_axis k (i * ?w) (unravel (?pre @ ?w # ?post) m)) = m div (?w * prod_list ?post) * (n * (?w * prod_list ?post)) +
      i * (?w * prod_list ?post) + m mod (?w * prod_list ?post)" if "m < prod_list ?pre * (?w * prod_list ?post)" for m
  proof -
    have "m div (?w * prod_list ?post) < prod_list ?pre" using that by (simp add: less_mult_imp_div_less)
    moreover have "length (?pre @ ?w # ?post) = length s" using k by simp
    moreover have "s ! k = n * ?w" using n by simp
    ultimately show ?thesis
      using ravel_shift [OF k, of "unravel (?pre @ ?w # ?post) m" "i * ?w"] ravel_widened [of ?pre "s ! k" ?post ?w m, folded whole]
      by (simp add: mult.assoc)
  qed
  then show ?thesis
    using i unfolding shard_positions_def dims by (simp add: even_layout_def even_range_len piece_positions_def)
qed

subsection \<open>Reshape\<close>

lemma reshape_fold:
  "try_fold (\<lambda>(running, candidate) (i, d).
        let candidate = (if running = before then Some i else candidate)
        in rbind (ok_or (ShapeOverflow s) (checked_mul_u running d)) (\<lambda>running. Inr (running, candidate)))
       (run, cand) (enumerate j ds) = Inr (run', cand') \<Longrightarrow>
     run' = run * prod_list ds \<and> (cand' = cand \<or> (\<exists>k < length ds. cand' = Some (j + k) \<and> run * prod_list (take k ds) = before))"
proof (induction ds arbitrary: run cand j)
  case (Cons d ds)
  let ?cand = "if run = before then Some j else cand"
  from Cons.prems have rest: "try_fold (\<lambda>(running, candidate) (i, d).
        let candidate = (if running = before then Some i else candidate)
        in rbind (ok_or (ShapeOverflow s) (checked_mul_u running d)) (\<lambda>running. Inr (running, candidate)))
       (run * d, ?cand) (enumerate (Suc j) ds) = Inr (run', cand')"
    by (auto simp: result_simps Let_def checked_mul_u_def checked_u_def split: if_splits)
  from Cons.IH [OF this] show ?case
  proof (elim conjE disjE exE)
    assume "run' = run * d * prod_list ds" "cand' = ?cand"
    then show ?thesis by (cases "run = before") (auto intro!: exI [of _ 0])
  next
    fix k assume "run' = run * d * prod_list ds" "k < length ds" "cand' = Some (Suc j + k)" "run * d * prod_list (take k ds) = before"
    then show ?thesis by (auto intro!: exI [of _ "Suc k"] simp: mult.assoc)
  qed
qed simp

lemma reshape_axis_Inr:
  assumes "reshape_axis before s = Inr (Some k)" and "k < length s"
  shows "prod_list (take k s) = before"
  using assms reshape_fold [of before s 1 None 0 s]
  by (auto simp: reshape_axis_def result_simps split: if_splits prod.splits)

lemma axis_sharded_even:
  assumes "axis_sharded canon grp s d a = Inr L" and "s \<noteq> []" and "length s \<le> usize_max"
  shows "\<exists>k < length s. length grp dvd s ! k \<and> 0 < length grp \<and> layout_ok canon L \<and>
    L = even_layout canon grp s d (AxisSharded k (even_ranges (length grp) (s ! k div length grp)))"
proof -
  from axis_sharded_Inr [OF assms(3,2)] assms(1) obtain dist where
    L: "grp \<noteq> []" "layout_ok canon L" "distribution_of s (length grp) (Some a) = Some dist" "L = even_layout canon grp s d dist" by blast
  moreover have "\<exists>k < length s. length grp dvd s ! k \<and> dist = AxisSharded k (even_ranges (length grp) (s ! k div length grp))"
    using L(3) assms(2) by (auto simp: distribution_of_def Let_def split: if_splits)
  ultimately show ?thesis by auto
qed

lemma axis_sharded_at:
  assumes "axis_sharded canon grp s d (int k) = Inr L" and "k < length s" and "length s \<le> usize_max"
  shows "length grp dvd s ! k \<and> layout_ok canon L \<and> L = even_layout canon grp s d (AxisSharded k (even_ranges (length grp) (s ! k div length grp)))"
proof -
  from assms(2) have "s \<noteq> []" by auto
  from axis_sharded_Inr [OF assms(3) this] assms(1) obtain dist where
    L: "layout_ok canon L" "distribution_of s (length grp) (Some (int k)) = Some dist" "L = even_layout canon grp s d dist" by blast
  moreover have "length grp dvd s ! k \<and> dist = AxisSharded k (even_ranges (length grp) (s ! k div length grp))"
    using L(2) assms(2) \<open>s \<noteq> []\<close> by (auto simp: distribution_of_def Let_def split: if_splits)
  ultimately show ?thesis by simp
qed

lemma prod_split: "k < length s \<Longrightarrow> prod_list (s :: shape) = prod_list (take k s) * (s ! k * prod_list (drop (Suc k) s))"
  by (metis id_take_nth_drop prod_list.Cons prod_list.append)

lemma piece_width:
  fixes s :: shape
  assumes "k < length s" and "n dvd s ! k"
  shows "prod_list s = prod_list (take k s) * (n * (s ! k div n * prod_list (drop (Suc k) s)))"
proof -
  have "n * (s ! k div n) = s ! k" using assms(2) by (rule dvd_mult_div_cancel)
  then show ?thesis using prod_split [OF assms(1)] by (simp only: mult.assoc [symmetric])
qed

lemma even_dims_nonzero:
  assumes "k < length s" and "n dvd s ! k" and "0 \<notin> set s" and "i < n" and "length grp = n"
  shows "0 \<notin> set (shard_dims (even_layout canon grp s d (AxisSharded k (even_ranges n (s ! k div n)))) i)"
proof -
  have "s ! k \<noteq> 0" using assms(1,3) by (metis nth_mem)
  then have "s ! k div n \<noteq> 0" using assms(2) by (auto elim!: dvdE)
  then show ?thesis using assms
    by (auto simp: shard_dims_def even_layout_def even_range_len dest: set_update_subset_insert [THEN subsetD])
qed

lemma movement_reshape:
  assumes "movement canon L (ReshapeTo s') = Inr (MoveLocal L')" and "sl_distribution L = AxisSharded k ranges"
  shows "\<exists>k' < length s'. prod_list (take k' s') = prod_list (take k (sl_shape L)) mod 2 ^ 64 \<and>
    axis_sharded canon (sl_group L) s' (sl_dtype L) (int k') = Inr L'"
  using assms by (auto simp: movement_def result_simps split: option.splits if_splits dest!: reshape_axis_Inr)

text \<open>A reshape kept local keeps every device's elements.\<close>

lemma local_reshape:
  assumes L: "axis_sharded canon grp s d a = Inr L" and s: "s \<noteq> []" "length s \<le> usize_max" "0 \<notin> set s"
    and mv: "movement canon L (ReshapeTo s') = Inr (MoveLocal L')" and len: "prod_list s' = prod_list s" "length s' \<le> usize_max"
    and i: "i < length grp"
  shows "sl_shape L' = s' \<and> local_global_indices canon L' i = local_global_indices canon L i"
proof -
  let ?n = "length grp"
  from axis_sharded_even [OF L s(1,2)] obtain k where
    k: "k < length s" "?n dvd s ! k" "0 < ?n" "layout_ok canon L" and eqL: "L = even_layout canon grp s d (AxisSharded k (even_ranges ?n (s ! k div ?n)))" by blast
  have fields: "sl_group L = grp" "sl_shape L = s" "sl_dtype L = d" "sl_distribution L = AxisSharded k (even_ranges ?n (s ! k div ?n))"
    using eqL by (simp_all add: even_layout_def)
  from movement_reshape [OF mv fields(4)] fields obtain k' where
    k': "k' < length s'" "prod_list (take k' s') = prod_list (take k s) mod 2 ^ 64" "axis_sharded canon grp s' d (int k') = Inr L'" by auto
  have small: "prod_list s \<le> usize_max" using k(4) fields(2) by (auto simp: layout_validate_Inr dest: numel_InrD)
  have pos: "0 < prod_list s" using s(3) by (simp add: prod_list_pos_iff)
  then have pos': "0 \<notin> set s'" unfolding len(1) [symmetric] by (simp add: prod_list_pos_iff)
  have "prod_list (take k s) \<le> prod_list s" using prod_split [OF k(1)] pos by (cases "s ! k * prod_list (drop (Suc k) s)") auto
  with small have "prod_list (take k s) < 2 ^ 64" by (simp add: usize_max_def)
  with k'(2) have outer: "prod_list (take k' s') = prod_list (take k s)" by simp
  from axis_sharded_at [OF k'(3,1) len(2)] have
    dvd: "?n dvd s' ! k'" and ok': "layout_ok canon L'" and eqL': "L' = even_layout canon grp s' d (AxisSharded k' (even_ranges ?n (s' ! k' div ?n)))" by blast+
  have "prod_list (take k s) * (?n * (s ! k div ?n * prod_list (drop (Suc k) s))) =
      prod_list (take k s) * (?n * (s' ! k' div ?n * prod_list (drop (Suc k') s')))"
    using piece_width [OF k(1,2)] piece_width [OF k'(1) dvd] len(1) outer by simp
  moreover have "prod_list (take k s) \<noteq> 0" using pos prod_split [OF k(1)] by auto
  ultimately have piece: "s ! k div ?n * prod_list (drop (Suc k) s) = s' ! k' div ?n * prod_list (drop (Suc k') s')"
    using k(3) by simp
  have "local_global_indices canon L i = Inr (shard_positions L i)"
  proof (rule local_global_indices_ok [OF k(4)])
    show "0 \<notin> set (shard_dims L i)" unfolding eqL by (rule even_dims_nonzero [OF k(1,2) s(3) i refl])
  qed (use i s(3) fields in simp_all)
  moreover have "local_global_indices canon L' i = Inr (shard_positions L' i)"
  proof (rule local_global_indices_ok [OF ok'])
    show "0 \<notin> set (shard_dims L' i)" unfolding eqL' by (rule even_dims_nonzero [OF k'(1) dvd pos' i refl])
  qed (simp_all add: eqL' even_layout_def i pos')
  moreover have "shard_positions L' i = shard_positions L i"
    unfolding eqL eqL' even_positions [OF k(1,2) i refl] even_positions [OF k'(1) dvd i refl] outer piece ..
  ultimately show ?thesis using eqL' by (simp add: even_layout_def)
qed

text \<open>C39: a reshape the planner keeps local moves no element between devices: when the number of elements is
  unchanged, every device holds in the new layout the same global elements, in the same order, as in the old one.\<close>

theorem local_reshape_keeps_shards:
  assumes "axis_sharded canon grp s d a = Inr L" and "s \<noteq> []" "length s \<le> usize_max" "0 \<notin> set s"
    and "movement canon L (ReshapeTo s') = Inr (MoveLocal L')" and "prod_list s' = prod_list s" "length s' \<le> usize_max"
  shows "sl_shape L' = s' \<and> (\<forall>i < length grp. local_global_indices canon L' i = local_global_indices canon L i)"
proof -
  have "grp \<noteq> []" using axis_sharded_even [OF assms(1-3)] by auto
  then have "sl_shape L' = s'" using local_reshape [OF assms, of 0] by simp
  then show ?thesis using local_reshape [OF assms] by blast
qed

theorem local_reshape_keeps_shards_witness:
  "\<exists>L L'. axis_sharded (\<lambda>_ _ _ _. '''') [''a'', ''b''] [4, 6] I32 0 = Inr L \<and>
    movement (\<lambda>_ _ _ _. '''') L (ReshapeTo [2, 3, 4]) = Inr (MoveLocal L') \<and>
    local_global_indices (\<lambda>_ _ _ _. '''') L' 1 = local_global_indices (\<lambda>_ _ _ _. '''') L 1"
proof -
  let ?canon = "\<lambda>_ _ _ _. ''''"
  let ?L = "\<lambda>s w. \<lparr>sl_group = [''a'', ''b''], sl_shape = s, sl_dtype = I32,
    sl_distribution = AxisSharded 0 [\<lparr>rg_start = 0, rg_end = w\<rparr>, \<lparr>rg_start = w, rg_end = 2 * w\<rparr>], sl_key = ''''\<rparr>"
  have L: "axis_sharded ?canon [''a'', ''b''] [4, 6] I32 0 = Inr (?L [4, 6] 2)"
    by code_simp
  have L': "movement ?canon (?L [4, 6] 2) (ReshapeTo [2, 3, 4]) = Inr (MoveLocal (?L [2, 3, 4] 1))"
    by (simp add: movement_def layout_validate_def check_distribution_def check_range_def numel_ok reshape_axis_def checked_mul_u_def
        checked_u_def usize_max_eq axis_sharded_def shard_axis_def layout_build_def even_ranges_def Let_def upt_rec flip: numeral_2_eq_2)
  have "local_global_indices ?canon (?L [2, 3, 4] 1) 1 = local_global_indices ?canon (?L [4, 6] 2) 1"
    using local_reshape_keeps_shards [OF L _ _ _ L'] by (simp add: usize_max_eq)
  with L L' show ?thesis by blast
qed

subsection \<open>Permutation\<close>

lemma axis_position_nth: "x \<in> set xs \<Longrightarrow> axis_position x xs < length xs \<and> xs ! axis_position x xs = x"
  by (induction xs) auto

lemma permutes_all: "length axes = n \<Longrightarrow> \<forall>a \<in> set axes. a < n \<Longrightarrow> distinct axes \<Longrightarrow> k < n \<Longrightarrow> k \<in> set axes"
proof -
  assume axes: "length axes = n" "\<forall>a \<in> set axes. a < n" "distinct axes" and k: "k < n"
  have "set axes \<subseteq> {..<n}" using axes(2) by auto
  moreover have "card (set axes) = card {..<n}" using axes(1,3) by (simp add: distinct_card)
  ultimately have "set axes = {..<n}" by (intro card_subset_eq) auto
  with k show ?thesis by simp
qed

lemma permuted_update:
  assumes "distinct axes" and "j < length axes" and "\<forall>a \<in> set axes. a < length c"
  shows "permuted_shape (c[axes ! j := x]) axes = (permuted_shape c axes)[j := x]"
  using assms by (auto simp: permuted_shape_def list_eq_iff_nth_eq nth_list_update nth_eq_iff_index_eq)

lemma permuted_shift:
  assumes "distinct axes" and "j < length axes" and "\<forall>a \<in> set axes. a < length c"
  shows "permuted_shape (shift_axis (axes ! j) start c) axes = shift_axis j start (permuted_shape c axes)"
  using permuted_update [OF assms] assms(2) by (simp add: shift_axis_def permuted_shape_def)

lemma permuted_in_range:
  assumes "in_range ds c" and "\<forall>a \<in> set axes. a < length ds"
  shows "in_range (permuted_shape ds axes) (permuted_shape c axes)"
  using assms by (auto simp: in_range_nth permuted_shape_def)

lemma movement_permute:
  assumes "movement canon L (PermuteBy axes) = Inr (MoveLocal L')" and "sl_distribution L = AxisSharded k ranges" and "k < length (sl_shape L)"
  shows "valid_permutation axes (length (sl_shape L)) \<and> axis_position k axes < length axes \<and> axes ! axis_position k axes = k \<and>
    axis_sharded canon (sl_group L) (permuted_shape (sl_shape L) axes) (sl_dtype L) (int (axis_position k axes)) = Inr L'"
proof -
  from assms have valid: "valid_permutation axes (length (sl_shape L))"
    and sharded: "axis_sharded canon (sl_group L) (permuted_shape (sl_shape L) axes) (sl_dtype L) (int (axis_position k axes)) = Inr L'"
    by (auto simp: movement_def result_simps split: if_splits)
  have "k \<in> set axes" using permutes_all [of axes _ k] valid assms(3) by (auto simp: valid_permutation_def list_all_iff)
  from axis_position_nth [OF this] valid sharded show ?thesis by blast
qed

lemma position_of_coordinates:
  assumes "sl_distribution L = AxisSharded axis ranges" and "in_range (shard_dims L i) c"
  shows "shard_positions L i ! ravel (shard_dims L i) c = ravel (sl_shape L) (shift_axis axis (rg_start (ranges ! i)) c)"
  using assms ravel_less [OF assms(2)] unravel_ravel [OF assms(2)] by (simp add: shard_positions_def)

lemma local_permute:
  assumes L: "axis_sharded canon grp s d a = Inr L" and s: "s \<noteq> []" "length s \<le> usize_max" "0 \<notin> set s"
    and mv: "movement canon L (PermuteBy axes) = Inr (MoveLocal L')" and i: "i < length grp"
  shows "sl_shape L' = permuted_shape s axes \<and> (\<exists>dims ps ps'. local_shape canon L i = Inr dims \<and>
    local_shape canon L' i = Inr (permuted_shape dims axes) \<and> local_global_indices canon L i = Inr ps \<and> local_global_indices canon L' i = Inr ps' \<and>
    (\<forall>c. in_range dims c \<longrightarrow> ps' ! ravel (permuted_shape dims axes) (permuted_shape c axes) =
       ravel (permuted_shape s axes) (permuted_shape (unravel s (ps ! ravel dims c)) axes)))"
proof -
  let ?n = "length grp"
  from axis_sharded_even [OF L s(1,2)] obtain k where
    k: "k < length s" "?n dvd s ! k" "0 < ?n" "layout_ok canon L" and eqL: "L = even_layout canon grp s d (AxisSharded k (even_ranges ?n (s ! k div ?n)))" by blast
  let ?w = "s ! k div ?n" and ?j = "axis_position k axes" and ?p = "\<lambda>c. permuted_shape c axes"
  have fields: "sl_group L = grp" "sl_shape L = s" "sl_dtype L = d" "sl_distribution L = AxisSharded k (even_ranges ?n ?w)"
    using eqL by (simp_all add: even_layout_def)
  from movement_permute [OF mv fields(4)] fields k(1) have
    axes: "length axes = length s" "\<forall>a \<in> set axes. a < length s" "distinct axes" and j: "?j < length axes" "axes ! ?j = k"
    and sharded: "axis_sharded canon grp (?p s) d (int ?j) = Inr L'" by (auto simp: valid_permutation_def list_all_iff)
  have at: "?p s ! ?j = s ! k" "length (?p s) = length s" using j axes(1) by (simp_all add: permuted_shape_def)
  from axis_sharded_at [OF sharded] j(1) axes(1) at s(2) have
    ok': "layout_ok canon L'" and eqL': "L' = even_layout canon grp (?p s) d (AxisSharded ?j (even_ranges ?n ?w))" by auto
  have fields': "sl_shape L' = ?p s" "sl_distribution L' = AxisSharded ?j (even_ranges ?n ?w)" "sl_group L' = grp" using eqL' by (simp_all add: even_layout_def)
  have dims: "shard_dims L i = s[k := ?w]" "shard_dims L' i = (?p s)[?j := ?w]"
    using fields fields' i by (simp_all add: shard_dims_def even_range_len)
  have dims': "shard_dims L' i = ?p (shard_dims L i)"
    unfolding dims using permuted_update [OF axes(3) j(1), of s ?w] axes(2) j(2) by simp
  have pos': "0 \<notin> set (?p s)" using s(3) axes(2) by (auto simp: permuted_shape_def) (metis nth_mem)
  have "0 \<notin> set (shard_dims L i)" unfolding eqL by (rule even_dims_nonzero [OF k(1,2) s(3) i refl])
  then have ps: "local_global_indices canon L i = Inr (shard_positions L i)"
    using local_global_indices_ok [OF k(4), of i] i s(3) fields by simp
  have dvd: "?n dvd ?p s ! ?j" using k(2) at(1) by simp
  have "0 \<notin> set (shard_dims L' i)" using even_dims_nonzero [OF _ dvd pos' i refl, of canon d] j(1) axes(1) at eqL' by simp
  then have ps': "local_global_indices canon L' i = Inr (shard_positions L' i)"
    using local_global_indices_ok [OF ok', of i] i pos' fields' by simp
  have "shard_positions L' i ! ravel (?p (shard_dims L i)) (?p c) = ravel (?p s) (?p (unravel s (shard_positions L i ! ravel (shard_dims L i) c)))"
    if c: "in_range (shard_dims L i) c" for c
  proof -
    have len: "length c = length s" using c dims by (simp add: in_range_nth)
    have "in_range s (shift_axis k (i * ?w) c)"
      using shift_in_range [of s k ?w c "i * ?w"] c dims layout_axis(3) [OF k(4) fields(4), of i] fields(1,2) i k(1) by (simp add: even_range_len)
    then have "unravel s (shard_positions L i ! ravel (shard_dims L i) c) = shift_axis k (i * ?w) c"
      using position_of_coordinates [OF fields(4) c] fields(2) i by (simp add: even_range_len unravel_ravel)
    moreover have "in_range (shard_dims L' i) (?p c)" unfolding dims' using permuted_in_range [OF c] axes(2) dims by simp
    from position_of_coordinates [OF fields'(2) this] have
      "shard_positions L' i ! ravel (?p (shard_dims L i)) (?p c) = ravel (?p s) (shift_axis ?j (i * ?w) (?p c))"
      using dims' fields'(1) i by (simp add: even_range_len)
    moreover have "shift_axis ?j (i * ?w) (?p c) = ?p (shift_axis k (i * ?w) c)"
      using permuted_shift [OF axes(3) j(1), of c "i * ?w"] axes(2) len j(2) by simp
    ultimately show ?thesis by simp
  qed
  with ps ps' local_shape_eq [OF k(4), of i] local_shape_eq [OF ok', of i] fields fields' dims' i show ?thesis by simp
qed

end
