(* ===== verification/Symbolic.thy ===== *)
theory Symbolic
  imports Prelude "HOL-Library.List_Lexorder" "HOL-Library.Signed_Division"
begin

section \<open>Symbolic integers (src/src/symbolic.rs)\<close>

text \<open>
  The expression trees shape specialization works on: variables with declared bounds, checked
  \<open>i64\<close> evaluation, interval bounds, substitution and the rewriting simplifier, each function as
  the source has it. A \<open>BTreeMap\<close> or \<open>BTreeSet\<close> is the list of its entries in key order; an
  indexing \<open>b[v]\<close> that the map does not hold panics, which is the error value \<open>MissingKeyPanic\<close>.
  The trace of the simplifier is threaded as the source threads its \<open>&mut Vec\<close>.
\<close>

subsection \<open>Variables and identities\<close>

datatype symbolic_var =
  SymVar (sv_id: nat) (sv_name: string) (sv_min: int) (sv_max: int)

datatype bounds = Bounds (bmin: int) (bmax: int)

datatype symbolic_error =
    InvalidBounds int int
  | IdentityExhausted
  | DivisionByZero
  | Overflow string
  | MissingBinding symbolic_var
  | ExtraBinding symbolic_var
  | OutOfBounds symbolic_var int
  | InvalidSubstitution symbolic_var bounds
  | NotUsize int
  | RewriteLimit
  | MissingKeyPanic symbolic_var

definition bounds_constant :: "bounds \<Rightarrow> int option" where
  "bounds_constant b = (if bmin b = bmax b then Some (bmin b) else None)"

text \<open>The global counter is passed explicitly: the result is the reserved identity and the next
  value of the counter.\<close>

definition reserve_variable_id :: "nat \<Rightarrow> (symbolic_error, nat \<times> nat) result" where
  "reserve_variable_id counter =
    (if counter = 0 \<or> counter = 2 ^ 64 - 1 then Inl IdentityExhausted
     else Inr (counter, counter + 1))"

definition symbolic_var_new ::
  "nat \<Rightarrow> string \<Rightarrow> int \<Rightarrow> int \<Rightarrow> (symbolic_error, symbolic_var \<times> nat) result" where
  "symbolic_var_new counter name mn mx =
    (if mx < mn then Inl (InvalidBounds mn mx)
     else rbind (reserve_variable_id counter) (\<lambda>(i, counter').
          Inr (SymVar i name mn mx, counter')))"

definition symbolic_var_from_artifact ::
  "nat \<Rightarrow> nat \<Rightarrow> string \<Rightarrow> int \<Rightarrow> int \<Rightarrow> (symbolic_error, symbolic_var \<times> nat) result" where
  "symbolic_var_from_artifact counter i name mn mx =
    (if i = 0 \<or> i = 2 ^ 64 - 1 \<or> mx < mn \<or> name = [] then Inl (InvalidBounds mn mx)
     else Inr (SymVar i name mn mx, max counter (i + 1)))"

subsection \<open>Expressions and their derived order\<close>

datatype sexpr =
    Const int
  | Var symbolic_var
  | Add "sexpr list"
  | Mul "sexpr list"
  | Neg sexpr
  | FloorDiv sexpr sexpr
  | Mod sexpr sexpr
  | MinE sexpr sexpr
  | MaxE sexpr sexpr
  | EqE sexpr sexpr
  | Lt sexpr sexpr
  | Le sexpr sexpr
  | And sexpr sexpr
  | Or sexpr sexpr
  | NotE sexpr
  | Where sexpr sexpr sexpr

text \<open>The derived \<open>Ord\<close> compares the variant index and then the fields, a \<open>Vec\<close> or \<open>String\<close>
  lexicographically with the shorter prefix first. It is the lexicographic order of a code in
  which no code is a proper prefix of another: a list element is announced by 1 and the end of a
  list by 0.\<close>

definition name_code :: "string \<Rightarrow> int list" where
  "name_code s = map (\<lambda>c. int (of_char c) + 1) s @ [0]"

definition var_code :: "symbolic_var \<Rightarrow> int list" where
  "var_code v = int (sv_id v) # name_code (sv_name v) @ [sv_min v, sv_max v]"

fun expr_code :: "sexpr \<Rightarrow> int list" where
  "expr_code (Const x) = [0, x]"
| "expr_code (Var v) = 1 # var_code v"
| "expr_code (Add xs) = 2 # concat (map (\<lambda>x. 1 # expr_code x) xs) @ [0]"
| "expr_code (Mul xs) = 3 # concat (map (\<lambda>x. 1 # expr_code x) xs) @ [0]"
| "expr_code (Neg a) = 4 # expr_code a"
| "expr_code (FloorDiv a b) = 5 # expr_code a @ expr_code b"
| "expr_code (Mod a b) = 6 # expr_code a @ expr_code b"
| "expr_code (MinE a b) = 7 # expr_code a @ expr_code b"
| "expr_code (MaxE a b) = 8 # expr_code a @ expr_code b"
| "expr_code (EqE a b) = 9 # expr_code a @ expr_code b"
| "expr_code (Lt a b) = 10 # expr_code a @ expr_code b"
| "expr_code (Le a b) = 11 # expr_code a @ expr_code b"
| "expr_code (And a b) = 12 # expr_code a @ expr_code b"
| "expr_code (Or a b) = 13 # expr_code a @ expr_code b"
| "expr_code (NotE a) = 14 # expr_code a"
| "expr_code (Where c a b) = 15 # expr_code c @ expr_code a @ expr_code b"

lemma name_code_prefix_free: "name_code s @ xs = name_code t @ ys \<Longrightarrow> s = t \<and> xs = ys"
proof (induction s arbitrary: t)
  case Nil
  then show ?case by (cases t) (auto simp: name_code_def)
next
  case (Cons c s)
  then show ?case by (cases t) (auto simp: name_code_def)
qed

lemma var_code_prefix_free: "var_code v @ xs = var_code w @ ys \<Longrightarrow> v = w \<and> xs = ys"
proof -
  assume eq: "var_code v @ xs = var_code w @ ys"
  then have i: "sv_id v = sv_id w"
    and rest: "name_code (sv_name v) @ [sv_min v, sv_max v] @ xs =
               name_code (sv_name w) @ [sv_min w, sv_max w] @ ys"
    by (simp_all add: var_code_def)
  from name_code_prefix_free [OF rest] i show ?thesis
    by (simp add: symbolic_var.expand)
qed

lemma expr_list_prefix_free:
  assumes "\<And>x y us vs. x \<in> set xs \<Longrightarrow> expr_code x @ us = expr_code y @ vs \<Longrightarrow> x = y \<and> us = vs"
    and "concat (map (\<lambda>x. 1 # expr_code x) xs) @ 0 # us = concat (map (\<lambda>x. 1 # expr_code x) ys) @ 0 # vs"
  shows "xs = ys \<and> us = vs"
  using assms
proof (induction xs arbitrary: ys)
  case Nil
  then show ?case by (cases ys) auto
next
  case (Cons x xs)
  then obtain y ys' where ys: "ys = y # ys'" by (cases ys) auto
  have "x = y \<and> concat (map (\<lambda>x. 1 # expr_code x) xs) @ 0 # us =
      concat (map (\<lambda>x. 1 # expr_code x) ys') @ 0 # vs"
    by (rule Cons.prems(1)) (use Cons.prems(2) ys in simp_all)
  moreover have "xs = ys' \<and> us = vs"
    by (rule Cons.IH) (use calculation Cons.prems(1) in \<open>auto intro: list.set_intros\<close>)
  ultimately show ?case using ys by simp
qed

lemma expr_code_prefix_free: "expr_code x @ us = expr_code y @ vs \<Longrightarrow> x = y \<and> us = vs"
proof (induction x arbitrary: y us vs)
  case (Const x)
  show ?case using Const.prems by (cases y) simp_all
next
  case (Var v)
  show ?case using Var.prems by (cases y) (auto dest: var_code_prefix_free)
next
  case (Add xs)
  show ?case
  proof (cases y)
    case (Add ys)
    with Add.prems show ?thesis using expr_list_prefix_free [of xs us ys vs] Add.IH by simp
  qed (use Add.prems in simp_all)
next
  case (Mul xs)
  show ?case
  proof (cases y)
    case (Mul ys)
    with Mul.prems show ?thesis using expr_list_prefix_free [of xs us ys vs] Mul.IH by simp
  qed (use Mul.prems in simp_all)
next
  case (Neg a)
  show ?case using Neg.prems by (cases y) (auto dest!: Neg.IH)
next
  case (FloorDiv a b)
  show ?case using FloorDiv.prems by (cases y) (auto dest!: FloorDiv.IH)
next
  case (Mod a b)
  show ?case using Mod.prems by (cases y) (auto dest!: Mod.IH)
next
  case (MinE a b)
  show ?case using MinE.prems by (cases y) (auto dest!: MinE.IH)
next
  case (MaxE a b)
  show ?case using MaxE.prems by (cases y) (auto dest!: MaxE.IH)
next
  case (EqE a b)
  show ?case using EqE.prems by (cases y) (auto dest!: EqE.IH)
next
  case (Lt a b)
  show ?case using Lt.prems by (cases y) (auto dest!: Lt.IH)
next
  case (Le a b)
  show ?case using Le.prems by (cases y) (auto dest!: Le.IH)
next
  case (And a b)
  show ?case using And.prems by (cases y) (auto dest!: And.IH)
next
  case (Or a b)
  show ?case using Or.prems by (cases y) (auto dest!: Or.IH)
next
  case (NotE a)
  show ?case using NotE.prems by (cases y) (auto dest!: NotE.IH)
next
  case (Where c a b)
  show ?case using Where.prems by (cases y) (auto dest!: Where.IH)
qed

lemma expr_code_inject [simp]: "expr_code x = expr_code y \<longleftrightarrow> x = y"
  using expr_code_prefix_free [of x "[]" y "[]"] by auto

lemma var_code_inject [simp]: "var_code v = var_code w \<longleftrightarrow> v = w"
  using var_code_prefix_free [of v "[]" w "[]"] by auto


instantiation symbolic_var :: linorder
begin

definition less_eq_symbolic_var :: "symbolic_var \<Rightarrow> symbolic_var \<Rightarrow> bool" where
  "v \<le> w \<longleftrightarrow> var_code v \<le> var_code w"

definition less_symbolic_var :: "symbolic_var \<Rightarrow> symbolic_var \<Rightarrow> bool" where
  "v < w \<longleftrightarrow> var_code v < var_code w"

instance
  by standard (auto simp: less_eq_symbolic_var_def less_symbolic_var_def less_le)

end

instantiation sexpr :: linorder
begin

definition less_eq_sexpr :: "sexpr \<Rightarrow> sexpr \<Rightarrow> bool" where
  "x \<le> y \<longleftrightarrow> expr_code x \<le> expr_code y"

definition less_sexpr :: "sexpr \<Rightarrow> sexpr \<Rightarrow> bool" where
  "x < y \<longleftrightarrow> expr_code x < expr_code y"

instance
  by standard (auto simp: less_eq_sexpr_def less_sexpr_def less_le)

end

text \<open>The order is the derived one: fields are compared one after the other.\<close>

lemma lex_append_less:
  fixes as bs :: "int list"
  assumes "as < bs" and "\<And>us vs. as @ us \<noteq> bs @ vs"
  shows "as @ xs < bs @ ys"
  using assms
proof (induction as arbitrary: bs)
  case Nil
  then show ?case by (metis append_Nil)
next
  case (Cons a as)
  then obtain b bs' where "bs = b # bs'" by (cases bs) auto
  with Cons show ?case by (cases "a = b") auto
qed

lemma expr_code_append_less_iff:
  "expr_code x @ us < expr_code y @ vs \<longleftrightarrow> x < y \<or> x = y \<and> us < vs"
proof -
  have "a < b \<Longrightarrow> expr_code a @ us < expr_code b @ vs" for a b us vs
    by (rule lex_append_less) (auto simp: less_sexpr_def dest: expr_code_prefix_free)
  moreover have "as @ us < as @ vs \<longleftrightarrow> us < vs" for as :: "int list"
    by (induction as) auto
  ultimately show ?thesis
    by (metis less_asym' linorder_less_linear)
qed

lemma binary_less_iff:
  "FloorDiv a b < FloorDiv c d \<longleftrightarrow> a < c \<or> a = c \<and> b < d"
  "And a b < And c d \<longleftrightarrow> a < c \<or> a = c \<and> b < d"
  using expr_code_append_less_iff [of a _ c] by (auto simp: less_sexpr_def)

subsection \<open>Checked arithmetic\<close>

definition add :: "int \<Rightarrow> int \<Rightarrow> (symbolic_error, int) result" where
  "add a b = ok_or (Overflow ''addition'') (checked_i64 (a + b))"

definition mul :: "int \<Rightarrow> int \<Rightarrow> (symbolic_error, int) result" where
  "mul a b = ok_or (Overflow ''multiplication'') (checked_i64 (a * b))"

definition neg :: "int \<Rightarrow> (symbolic_error, int) result" where
  "neg a = ok_or (Overflow ''negation'') (checked_i64 (- a))"

text \<open>\<open>i64::checked_div\<close> and \<open>checked_rem\<close> truncate toward zero and fail on \<open>MIN / -1\<close>.\<close>

definition checked_div_i64 :: "int \<Rightarrow> int \<Rightarrow> int option" where
  "checked_div_i64 a b = (if b = 0 then None else checked_i64 (a sdiv b))"

definition checked_rem_i64 :: "int \<Rightarrow> int \<Rightarrow> int option" where
  "checked_rem_i64 a b = (if b = 0 \<or> a = i64_min \<and> b = -1 then None else Some (a smod b))"

definition floor_div :: "int \<Rightarrow> int \<Rightarrow> (symbolic_error, int) result" where
  "floor_div a b =
    (if b = 0 then Inl DivisionByZero
     else rbind (ok_or (Overflow ''division'') (checked_div_i64 a b)) (\<lambda>q.
          rbind (ok_or (Overflow ''remainder'') (checked_rem_i64 a b)) (\<lambda>r.
          Inr (if r \<noteq> 0 \<and> (0 < r) \<noteq> (0 < b) then q - 1 else q))))"

definition floor_mod :: "int \<Rightarrow> int \<Rightarrow> (symbolic_error, int) result" where
  "floor_mod a b =
     rbind (floor_div a b) (\<lambda>q.
     rbind (ok_or (Overflow ''modulo'') (checked_i64 (q * b))) (\<lambda>p.
     ok_or (Overflow ''modulo'') (checked_i64 (a - p))))"

definition boolv :: "int \<Rightarrow> bool" where
  "boolv x = (x \<noteq> 0)"

definition of_bool_i :: "bool \<Rightarrow> int" where
  "of_bool_i b = (if b then 1 else 0)"

subsection \<open>Interval bounds\<close>

definition bool_possibilities :: "bounds \<Rightarrow> bool list" where
  "bool_possibilities b =
     (if bmin b \<le> 0 \<and> 0 \<le> bmax b then [False] else []) @
     (if bmin b \<noteq> 0 \<or> bmax b \<noteq> 0 then [True] else [])"

definition list_bounds :: "int list \<Rightarrow> bounds" where
  "list_bounds vs = Bounds (Min (set vs)) (Max (set vs))"

definition mul_bounds :: "bounds \<Rightarrow> bounds \<Rightarrow> (symbolic_error, bounds) result" where
  "mul_bounds a b =
     rbind (mul (bmin a) (bmin b)) (\<lambda>w. rbind (mul (bmin a) (bmax b)) (\<lambda>x.
     rbind (mul (bmax a) (bmin b)) (\<lambda>y. rbind (mul (bmax a) (bmax b)) (\<lambda>z.
     Inr (list_bounds [w, x, y, z])))))"

definition div_bounds :: "bounds \<Rightarrow> bounds \<Rightarrow> (symbolic_error, bounds) result" where
  "div_bounds a b =
    (if bmin b \<le> 0 \<and> 0 \<le> bmax b then Inl DivisionByZero
     else let ds = (if bmin b < 0 \<and> 0 < bmax b then filter (\<lambda>x. x \<noteq> 0) [bmin b, bmax b]
                    else [bmin b, bmax b])
          in rbind (try_map (\<lambda>(n, d). floor_div n d) (List.product [bmin a, bmax a] ds)) (\<lambda>vs.
             Inr (list_bounds vs)))"

text \<open>The last branch of the source is \<open>unreachable!\<close>: a divisor interval without 0 has one sign.\<close>

definition mod_bounds :: "bounds \<Rightarrow> bounds \<Rightarrow> (symbolic_error, bounds) result" where
  "mod_bounds a b =
    (if bmin b \<le> 0 \<and> 0 \<le> bmax b then Inl DivisionByZero
     else if 0 < bmin b then Inr (Bounds 0 (bmax b - 1))
     else Inr (Bounds (bmin b + 1) 0))"

definition predicate_bounds :: "bounds \<Rightarrow> bounds \<Rightarrow> (int \<Rightarrow> int \<Rightarrow> bool) \<Rightarrow> bounds" where
  "predicate_bounds a b p =
    (if bmin a = bmax a \<and> bmin b = bmax b
     then let x = of_bool_i (p (bmin a) (bmin b)) in Bounds x x
     else Bounds 0 1)"

definition add_bounds :: "bounds \<Rightarrow> bounds \<Rightarrow> (symbolic_error, bounds) result" where
  "add_bounds a b =
     rbind (add (bmin a) (bmin b)) (\<lambda>l. rbind (add (bmax a) (bmax b)) (\<lambda>h. Inr (Bounds l h)))"

definition neg_bounds :: "bounds \<Rightarrow> (symbolic_error, bounds) result" where
  "neg_bounds b = rbind (neg (bmax b)) (\<lambda>l. rbind (neg (bmin b)) (\<lambda>h. Inr (Bounds l h)))"

definition logic_bounds :: "bool \<Rightarrow> bounds \<Rightarrow> bounds \<Rightarrow> bounds" where
  "logic_bounds is_and a b =
     list_bounds (map (\<lambda>(x, y). of_bool_i (if is_and then x \<and> y else x \<or> y))
       (List.product (bool_possibilities a) (bool_possibilities b)))"

definition not_bounds :: "bounds \<Rightarrow> bounds" where
  "not_bounds b = list_bounds (map (\<lambda>v. of_bool_i (\<not> v)) (bool_possibilities b))"

definition where_bounds :: "bounds \<Rightarrow> bounds \<Rightarrow> bounds \<Rightarrow> bounds" where
  "where_bounds c a b =
    (if bmin c \<noteq> 0 \<and> bmax c \<noteq> 0 then a
     else if bmin c = 0 \<and> bmax c = 0 then b
     else Bounds (min (bmin a) (bmin b)) (max (bmax a) (bmax b)))"

fun sbounds :: "sexpr \<Rightarrow> (symbolic_error, bounds) result" where
  "sbounds (Const x) = Inr (Bounds x x)"
| "sbounds (Var v) = Inr (Bounds (sv_min v) (sv_max v))"
| "sbounds (Add xs) = try_fold (\<lambda>a x. rbind (sbounds x) (add_bounds a)) (Bounds 0 0) xs"
| "sbounds (Mul xs) = try_fold (\<lambda>a x. rbind (sbounds x) (mul_bounds a)) (Bounds 1 1) xs"
| "sbounds (Neg x) = rbind (sbounds x) neg_bounds"
| "sbounds (MinE a b) = rbind (sbounds a) (\<lambda>x. rbind (sbounds b) (\<lambda>y.
     Inr (Bounds (min (bmin x) (bmin y)) (min (bmax x) (bmax y)))))"
| "sbounds (MaxE a b) = rbind (sbounds a) (\<lambda>x. rbind (sbounds b) (\<lambda>y.
     Inr (Bounds (max (bmin x) (bmin y)) (max (bmax x) (bmax y)))))"
| "sbounds (EqE a b) = rbind (sbounds a) (\<lambda>x. rbind (sbounds b) (\<lambda>y. Inr (predicate_bounds x y (=))))"
| "sbounds (Lt a b) = rbind (sbounds a) (\<lambda>x. rbind (sbounds b) (\<lambda>y. Inr (predicate_bounds x y (<))))"
| "sbounds (Le a b) = rbind (sbounds a) (\<lambda>x. rbind (sbounds b) (\<lambda>y. Inr (predicate_bounds x y (\<le>))))"
| "sbounds (And a b) = rbind (sbounds a) (\<lambda>x. rbind (sbounds b) (\<lambda>y. Inr (logic_bounds True x y)))"
| "sbounds (Or a b) = rbind (sbounds a) (\<lambda>x. rbind (sbounds b) (\<lambda>y. Inr (logic_bounds False x y)))"
| "sbounds (NotE x) = rbind (sbounds x) (\<lambda>b. Inr (not_bounds b))"
| "sbounds (Where c a b) = rbind (sbounds c) (\<lambda>z. rbind (sbounds a) (\<lambda>x. rbind (sbounds b) (\<lambda>y.
     Inr (where_bounds z x y))))"
| "sbounds (FloorDiv a b) = rbind (sbounds a) (\<lambda>x. rbind (sbounds b) (\<lambda>y. div_bounds x y))"
| "sbounds (Mod a b) = rbind (sbounds a) (\<lambda>x. rbind (sbounds b) (\<lambda>y. mod_bounds x y))"

subsection \<open>Evaluation\<close>

type_synonym bindings = "(symbolic_var \<times> int) list"

fun collect_variables :: "sexpr \<Rightarrow> symbolic_var list" where
  "collect_variables (Const x) = []"
| "collect_variables (Var v) = [v]"
| "collect_variables (Add xs) = concat (map collect_variables xs)"
| "collect_variables (Mul xs) = concat (map collect_variables xs)"
| "collect_variables (Neg x) = collect_variables x"
| "collect_variables (NotE x) = collect_variables x"
| "collect_variables (FloorDiv a b) = collect_variables a @ collect_variables b"
| "collect_variables (Mod a b) = collect_variables a @ collect_variables b"
| "collect_variables (MinE a b) = collect_variables a @ collect_variables b"
| "collect_variables (MaxE a b) = collect_variables a @ collect_variables b"
| "collect_variables (EqE a b) = collect_variables a @ collect_variables b"
| "collect_variables (Lt a b) = collect_variables a @ collect_variables b"
| "collect_variables (Le a b) = collect_variables a @ collect_variables b"
| "collect_variables (And a b) = collect_variables a @ collect_variables b"
| "collect_variables (Or a b) = collect_variables a @ collect_variables b"
| "collect_variables (Where c a b) =
     collect_variables c @ collect_variables a @ collect_variables b"

definition variables :: "sexpr \<Rightarrow> symbolic_var list" where
  "variables e = sort (remdups (collect_variables e))"

fun eval_inner :: "bindings \<Rightarrow> sexpr \<Rightarrow> (symbolic_error, int) result" where
  "eval_inner env (Const x) = Inr x"
| "eval_inner env (Var v) = ok_or (MissingKeyPanic v) (map_of env v)"
| "eval_inner env (Add xs) = try_fold (\<lambda>a x. rbind (eval_inner env x) (add a)) 0 xs"
| "eval_inner env (Mul xs) = try_fold (\<lambda>a x. rbind (eval_inner env x) (mul a)) 1 xs"
| "eval_inner env (Neg x) = rbind (eval_inner env x) neg"
| "eval_inner env (FloorDiv a c) =
     rbind (eval_inner env a) (\<lambda>x. rbind (eval_inner env c) (\<lambda>y. floor_div x y))"
| "eval_inner env (Mod a c) =
     rbind (eval_inner env a) (\<lambda>x. rbind (eval_inner env c) (\<lambda>y. floor_mod x y))"
| "eval_inner env (MinE a c) =
     rbind (eval_inner env a) (\<lambda>x. rbind (eval_inner env c) (\<lambda>y. Inr (min x y)))"
| "eval_inner env (MaxE a c) =
     rbind (eval_inner env a) (\<lambda>x. rbind (eval_inner env c) (\<lambda>y. Inr (max x y)))"
| "eval_inner env (EqE a c) =
     rbind (eval_inner env a) (\<lambda>x. rbind (eval_inner env c) (\<lambda>y. Inr (of_bool_i (x = y))))"
| "eval_inner env (Lt a c) =
     rbind (eval_inner env a) (\<lambda>x. rbind (eval_inner env c) (\<lambda>y. Inr (of_bool_i (x < y))))"
| "eval_inner env (Le a c) =
     rbind (eval_inner env a) (\<lambda>x. rbind (eval_inner env c) (\<lambda>y. Inr (of_bool_i (x \<le> y))))"
| "eval_inner env (And a c) =
     rbind (eval_inner env a) (\<lambda>x.
     if boolv x then rbind (eval_inner env c) (\<lambda>y. Inr (of_bool_i (boolv y))) else Inr 0)"
| "eval_inner env (Or a c) =
     rbind (eval_inner env a) (\<lambda>x.
     if boolv x then Inr 1 else rbind (eval_inner env c) (\<lambda>y. Inr (of_bool_i (boolv y))))"
| "eval_inner env (NotE x) = rbind (eval_inner env x) (\<lambda>v. Inr (of_bool_i (\<not> boolv v)))"
| "eval_inner env (Where c a d) =
     rbind (eval_inner env c) (\<lambda>v. if boolv v then eval_inner env a else eval_inner env d)"

definition check_binding :: "bindings \<Rightarrow> symbolic_var \<Rightarrow> (symbolic_error, unit) result" where
  "check_binding env v =
     rbind (ok_or (MissingBinding v) (map_of env v)) (\<lambda>x.
     if x < sv_min v \<or> sv_max v < x then Inl (OutOfBounds v x) else Inr ())"

definition check_known ::
  "symbolic_var list \<Rightarrow> symbolic_var \<Rightarrow> (symbolic_error, unit) result" where
  "check_known vars v = (if v \<notin> set vars then Inl (ExtraBinding v) else Inr ())"

definition evaluate :: "bindings \<Rightarrow> sexpr \<Rightarrow> (symbolic_error, int) result" where
  "evaluate env e =
     rbind (try_map (check_binding env) (variables e)) (\<lambda>_.
     rbind (try_map (check_known (variables e)) (map fst env)) (\<lambda>_.
     eval_inner env e))"

definition as_usize :: "bindings \<Rightarrow> sexpr \<Rightarrow> (symbolic_error, nat) result" where
  "as_usize env e = rbind (evaluate env e) (\<lambda>x. ok_or (NotUsize x) (usize_of_int x))"

definition try_floor_div :: "sexpr \<Rightarrow> sexpr \<Rightarrow> (symbolic_error, sexpr) result" where
  "try_floor_div a b =
     rbind (sbounds b) (\<lambda>bd.
     if bmin bd \<le> 0 \<and> 0 \<le> bmax bd then Inl DivisionByZero else Inr (FloorDiv a b))"

definition try_modulo :: "sexpr \<Rightarrow> sexpr \<Rightarrow> (symbolic_error, sexpr) result" where
  "try_modulo a b =
     rbind (sbounds b) (\<lambda>bd.
     if bmin bd \<le> 0 \<and> 0 \<le> bmax bd then Inl DivisionByZero else Inr (Mod a b))"


subsection \<open>Simplification\<close>

type_synonym trace = "string list"
type_synonym 'a traced = "(symbolic_error, 'a \<times> trace) result"

record simplified =
  sim_expression :: sexpr
  sim_trace :: trace

text \<open>\<open>safe_to_reassociate_addition\<close>: the running sums of the positive and of the negative
  contributions stay in \<open>i64\<close>.\<close>

fun reassociate_loop :: "sexpr list \<Rightarrow> int \<Rightarrow> int \<Rightarrow> bool" where
  "reassociate_loop [] positive negative = True"
| "reassociate_loop (t # ts) positive negative =
     (case sbounds t of
        Inl _ \<Rightarrow> False
      | Inr b \<Rightarrow>
          if 0 < bmax b \<and> checked_i64 (positive + bmax b) = None then False
          else if bmin b < 0 \<and> checked_i64 (negative + bmin b) = None then False
          else reassociate_loop ts (if 0 < bmax b then positive + bmax b else positive)
                 (if bmin b < 0 then negative + bmin b else negative))"

definition safe_to_reassociate_addition :: "sexpr list \<Rightarrow> bool" where
  "safe_to_reassociate_addition ts = reassociate_loop ts 0 0"

definition flatten_term :: "sexpr \<Rightarrow> sexpr list" where
  "flatten_term x = (case x of Add ys \<Rightarrow> ys | _ \<Rightarrow> [x])"

fun fold_constants :: "sexpr list \<Rightarrow> int \<Rightarrow> (symbolic_error, int \<times> sexpr list) result" where
  "fold_constants [] c = Inr (c, [])"
| "fold_constants (t # ts) c =
     (case t of
        Const v \<Rightarrow> rbind (add c v) (\<lambda>c'. fold_constants ts c')
      | _ \<Rightarrow> rbind (fold_constants ts c) (\<lambda>(c', rest). Inr (c', t # rest)))"

text \<open>The index loop over a sorted list: each run of equal terms becomes the term or a product.\<close>

function combine_like_terms :: "sexpr list \<Rightarrow> trace \<Rightarrow> (sexpr list) traced" where
  "combine_like_terms [] t = Inr ([], t)"
| "combine_like_terms (x # xs) t =
     (let count = 1 + length (takeWhile (\<lambda>y. y = x) xs);
          rest = dropWhile (\<lambda>y. y = x) xs
      in if count = 1 then
           rbind (combine_like_terms rest t) (\<lambda>(ys, t'). Inr (x # ys, t'))
         else
           rbind (ok_or (Overflow ''term count'') (checked_i64 (int count))) (\<lambda>c.
           rbind (combine_like_terms rest (t @ [''combine-like-terms''])) (\<lambda>(ys, t').
           Inr (Mul [Const c, x] # ys, t'))))"
  by pat_completeness auto
termination
  by (relation "measure (\<lambda>(xs, _). length xs)") (auto simp: length_dropWhile_le le_imp_less_Suc)

definition simplify_product :: "sexpr list \<Rightarrow> sexpr" where
  "simplify_product factors =
    (let fs = filter (\<lambda>x. x \<noteq> Const 1) factors
     in case fs of [] \<Rightarrow> Const 1 | [x] \<Rightarrow> x | _ \<Rightarrow> Mul fs)"

definition simplify_sum :: "sexpr list \<Rightarrow> trace \<Rightarrow> sexpr traced" where
  "simplify_sum direct t =
    (let flat = concat (map flatten_term direct)
     in if \<not> safe_to_reassociate_addition flat then Inr (Add direct, t)
        else rbind (fold_constants flat 0) (\<lambda>(constant, non_constants).
             rbind (combine_like_terms
                      (sort (non_constants @ (if constant \<noteq> 0 then [Const constant] else []))) t)
               (\<lambda>(combined, t').
             Inr (case combined of
                    [] \<Rightarrow> (Const 0, t')
                  | [x] \<Rightarrow> (x, t' @ [''identity''])
                  | _ \<Rightarrow> (Add combined, t')))))"

definition simplify_neg :: "sexpr \<Rightarrow> trace \<Rightarrow> sexpr traced" where
  "simplify_neg a t =
    (case a of
       Const v \<Rightarrow> rbind (neg v) (\<lambda>n. Inr (Const n, t @ [''fold-neg'']))
     | Neg v \<Rightarrow> Inr (v, t @ [''double-neg''])
     | _ \<Rightarrow> Inr (Neg a, t))"

definition simplify_divmod :: "bool \<Rightarrow> sexpr \<Rightarrow> sexpr \<Rightarrow> trace \<Rightarrow> sexpr traced" where
  "simplify_divmod div_op a b t =
    (case (a, b) of
       (Const x, Const y) \<Rightarrow>
         rbind (if div_op then floor_div x y else floor_mod x y) (\<lambda>v.
         Inr (Const v, t @ [''fold-divmod'']))
     | _ \<Rightarrow>
         if \<not> div_op \<and> (b = Const 1 \<or> b = Const (-1) \<or> a = b) then Inr (Const 0, t @ [''mod-zero''])
         else if div_op \<and> b = Const 1 then Inr (a, t)
         else if div_op \<and> b = Const (-1) then Inr (Neg a, t)
         else rbind (sbounds a) (\<lambda>ab.
              if bounds_constant ab = Some 0 then Inr (Const 0, t)
              else Inr (if div_op then FloorDiv a b else Mod a b, t)))"

text \<open>The \<open>if let (Some(x), Some(y))\<close> evaluates both bounds before it matches.\<close>

definition simplify_minmax :: "bool \<Rightarrow> sexpr \<Rightarrow> sexpr \<Rightarrow> trace \<Rightarrow> sexpr traced" where
  "simplify_minmax is_min a b t =
    (if a = b then Inr (a, t)
     else rbind (sbounds a) (\<lambda>ab. rbind (sbounds b) (\<lambda>bb.
       case (bounds_constant ab, bounds_constant bb) of
         (Some x, Some y) \<Rightarrow> Inr (Const (if is_min then min x y else max x y), t @ [''fold-minmax''])
       | _ \<Rightarrow> Inr (if is_min then MinE a b else MaxE a b, t))))"

datatype comparison = CmpEq | CmpLt | CmpLe

definition compare_verdict :: "comparison \<Rightarrow> sexpr \<Rightarrow> sexpr \<Rightarrow> bounds \<Rightarrow> bounds \<Rightarrow> int option" where
  "compare_verdict original a b x y =
    (case original of
       CmpEq \<Rightarrow> if a = b then Some 1
                else if bmax x < bmin y \<or> bmax y < bmin x then Some 0 else None
     | CmpLt \<Rightarrow> if bmax x < bmin y then Some 1 else if bmax y \<le> bmin x then Some 0 else None
     | CmpLe \<Rightarrow> if bmax x \<le> bmin y then Some 1 else if bmax y < bmin x then Some 0 else None)"

definition simplify_compare :: "comparison \<Rightarrow> sexpr \<Rightarrow> sexpr \<Rightarrow> trace \<Rightarrow> sexpr traced" where
  "simplify_compare original a b t =
     rbind (sbounds a) (\<lambda>x. rbind (sbounds b) (\<lambda>y.
     Inr (case compare_verdict original a b x y of
            Some v \<Rightarrow> Const v
          | None \<Rightarrow> (case original of CmpEq \<Rightarrow> EqE a b | CmpLt \<Rightarrow> Lt a b | CmpLe \<Rightarrow> Le a b), t)))"

definition logic_expr :: "bool \<Rightarrow> sexpr \<Rightarrow> sexpr \<Rightarrow> sexpr" where
  "logic_expr is_and a b = (if is_and then And a b else Or a b)"

definition simplify_logic :: "bool \<Rightarrow> sexpr \<Rightarrow> sexpr \<Rightarrow> trace \<Rightarrow> sexpr traced" where
  "simplify_logic is_and a b t =
    (if a = b then Inr (a, t)
     else rbind (sbounds a) (\<lambda>ab.
       case bounds_constant ab of
         Some v \<Rightarrow> Inr (if boolv v = is_and then b else Const v, t)
       | None \<Rightarrow> rbind (sbounds b) (\<lambda>bb.
           case bounds_constant bb of
             Some v \<Rightarrow> Inr (if boolv v = is_and then a else Const v, t)
           | None \<Rightarrow> Inr (if a \<le> b then logic_expr is_and a b else logic_expr is_and b a, t))))"

definition simplify_not :: "sexpr \<Rightarrow> sexpr" where
  "simplify_not a =
    (case a of Const v \<Rightarrow> Const (of_bool_i (\<not> boolv v)) | NotE v \<Rightarrow> v | _ \<Rightarrow> NotE a)"

definition simplify_where :: "sexpr \<Rightarrow> sexpr \<Rightarrow> sexpr \<Rightarrow> trace \<Rightarrow> sexpr traced" where
  "simplify_where c a b t =
    (if a = b then Inr (a, t)
     else rbind (sbounds c) (\<lambda>cb.
       case bounds_constant cb of
         Some v \<Rightarrow> Inr (if boolv v then a else b, t)
       | None \<Rightarrow> Inr (Where c a b, t)))"

text \<open>One bottom-up pass. Each helper of the source first simplifies its operands; that recursion
  is written here, the helper's own part above.\<close>

fun simplify_once :: "sexpr \<Rightarrow> trace \<Rightarrow> sexpr traced"
  and simplify_list :: "sexpr list \<Rightarrow> trace \<Rightarrow> (sexpr list) traced" where
  "simplify_once (Const x) t = Inr (Const x, t)"
| "simplify_once (Var v) t = Inr (Var v, t)"
| "simplify_once (Neg a) t = rbind (simplify_once a t) (\<lambda>(a', t). simplify_neg a' t)"
| "simplify_once (Add xs) t = rbind (simplify_list xs t) (\<lambda>(ys, t). simplify_sum ys t)"
| "simplify_once (Mul xs) t = rbind (simplify_list xs t) (\<lambda>(ys, t). Inr (simplify_product ys, t))"
| "simplify_once (FloorDiv a b) t = rbind (simplify_once a t) (\<lambda>(a', t).
     rbind (simplify_once b t) (\<lambda>(b', t). simplify_divmod True a' b' t))"
| "simplify_once (Mod a b) t = rbind (simplify_once a t) (\<lambda>(a', t).
     rbind (simplify_once b t) (\<lambda>(b', t). simplify_divmod False a' b' t))"
| "simplify_once (MinE a b) t = rbind (simplify_once a t) (\<lambda>(a', t).
     rbind (simplify_once b t) (\<lambda>(b', t). simplify_minmax True a' b' t))"
| "simplify_once (MaxE a b) t = rbind (simplify_once a t) (\<lambda>(a', t).
     rbind (simplify_once b t) (\<lambda>(b', t). simplify_minmax False a' b' t))"
| "simplify_once (EqE a b) t = rbind (simplify_once a t) (\<lambda>(a', t).
     rbind (simplify_once b t) (\<lambda>(b', t). simplify_compare CmpEq a' b' t))"
| "simplify_once (Lt a b) t = rbind (simplify_once a t) (\<lambda>(a', t).
     rbind (simplify_once b t) (\<lambda>(b', t). simplify_compare CmpLt a' b' t))"
| "simplify_once (Le a b) t = rbind (simplify_once a t) (\<lambda>(a', t).
     rbind (simplify_once b t) (\<lambda>(b', t). simplify_compare CmpLe a' b' t))"
| "simplify_once (And a b) t = rbind (simplify_once a t) (\<lambda>(a', t).
     rbind (simplify_once b t) (\<lambda>(b', t). simplify_logic True a' b' t))"
| "simplify_once (Or a b) t = rbind (simplify_once a t) (\<lambda>(a', t).
     rbind (simplify_once b t) (\<lambda>(b', t). simplify_logic False a' b' t))"
| "simplify_once (NotE a) t = rbind (simplify_once a t) (\<lambda>(a', t). Inr (simplify_not a', t))"
| "simplify_once (Where c a b) t = rbind (simplify_once c t) (\<lambda>(c', t).
     rbind (simplify_once a t) (\<lambda>(a', t). rbind (simplify_once b t) (\<lambda>(b', t).
     simplify_where c' a' b' t)))"
| "simplify_list [] t = Inr ([], t)"
| "simplify_list (x # xs) t = rbind (simplify_once x t) (\<lambda>(y, t).
     rbind (simplify_list xs t) (\<lambda>(ys, t). Inr (y # ys, t)))"

text \<open>The driver: at most 128 passes, until a pass changes nothing.\<close>

fun simplify_loop :: "nat \<Rightarrow> sexpr \<Rightarrow> trace \<Rightarrow> (symbolic_error, simplified) result" where
  "simplify_loop 0 current t = Inl RewriteLimit"
| "simplify_loop (Suc n) current t =
     rbind (simplify_once current t) (\<lambda>(following, t').
     if following = current then Inr \<lparr>sim_expression = following, sim_trace = t'\<rparr>
     else simplify_loop n following t')"

definition simplify :: "sexpr \<Rightarrow> (symbolic_error, simplified) result" where
  "simplify e = simplify_loop 128 e []"

subsection \<open>Substitution\<close>

type_synonym replacements = "(symbolic_var \<times> sexpr) list"

fun substitute_inner :: "replacements \<Rightarrow> sexpr \<Rightarrow> sexpr \<times> bool" where
  "substitute_inner m (Const x) = (Const x, False)"
| "substitute_inner m (Var v) =
     (case map_of m v of Some r \<Rightarrow> (r, r \<noteq> Var v) | None \<Rightarrow> (Var v, False))"
| "substitute_inner m (Add xs) =
     (let rs = map (substitute_inner m) xs in (Add (map fst rs), list_ex snd rs))"
| "substitute_inner m (Mul xs) =
     (let rs = map (substitute_inner m) xs in (Mul (map fst rs), list_ex snd rs))"
| "substitute_inner m (Neg a) = map_prod Neg id (substitute_inner m a)"
| "substitute_inner m (NotE a) = map_prod NotE id (substitute_inner m a)"
| "substitute_inner m (FloorDiv a b) = (let (a', ca) = substitute_inner m a;
     (b', cb) = substitute_inner m b in (FloorDiv a' b', ca \<or> cb))"
| "substitute_inner m (Mod a b) = (let (a', ca) = substitute_inner m a;
     (b', cb) = substitute_inner m b in (Mod a' b', ca \<or> cb))"
| "substitute_inner m (MinE a b) = (let (a', ca) = substitute_inner m a;
     (b', cb) = substitute_inner m b in (MinE a' b', ca \<or> cb))"
| "substitute_inner m (MaxE a b) = (let (a', ca) = substitute_inner m a;
     (b', cb) = substitute_inner m b in (MaxE a' b', ca \<or> cb))"
| "substitute_inner m (EqE a b) = (let (a', ca) = substitute_inner m a;
     (b', cb) = substitute_inner m b in (EqE a' b', ca \<or> cb))"
| "substitute_inner m (Lt a b) = (let (a', ca) = substitute_inner m a;
     (b', cb) = substitute_inner m b in (Lt a' b', ca \<or> cb))"
| "substitute_inner m (Le a b) = (let (a', ca) = substitute_inner m a;
     (b', cb) = substitute_inner m b in (Le a' b', ca \<or> cb))"
| "substitute_inner m (And a b) = (let (a', ca) = substitute_inner m a;
     (b', cb) = substitute_inner m b in (And a' b', ca \<or> cb))"
| "substitute_inner m (Or a b) = (let (a', ca) = substitute_inner m a;
     (b', cb) = substitute_inner m b in (Or a' b', ca \<or> cb))"
| "substitute_inner m (Where c a b) = (let (c', cc) = substitute_inner m c;
     (a', ca) = substitute_inner m a; (b', cb) = substitute_inner m b
     in (Where c' a' b', cc \<or> ca \<or> cb))"

definition check_replacement :: "replacements \<Rightarrow> symbolic_var \<Rightarrow> (symbolic_error, unit) result" where
  "check_replacement m v =
    (case map_of m v of
       None \<Rightarrow> Inr ()
     | Some r \<Rightarrow> rbind (sbounds r) (\<lambda>b.
         if bmin b < sv_min v \<or> sv_max v < bmax b then Inl (InvalidSubstitution v b) else Inr ()))"

definition substitute :: "replacements \<Rightarrow> sexpr \<Rightarrow> (symbolic_error, simplified) result" where
  "substitute m e =
     rbind (try_map (check_known (variables e)) (map fst m)) (\<lambda>_.
     rbind (try_map (check_replacement m) (variables e)) (\<lambda>_.
     let (expression, changed) = substitute_inner m e
     in rbind (simplify expression) (\<lambda>s.
        Inr (if changed then s\<lparr>sim_trace := ''substitute'' # sim_trace s\<rparr> else s))))"

end
