(* ===== verification/SymbolicBounds.thy ===== *)
theory SymbolicBounds
  imports Symbolic
begin

section \<open>Symbolic bounds are sound\<close>

text \<open>
  The checked operations compute floor division and modulo exactly; every interval operation
  contains the values of the operation it abstracts and shrinks when its arguments shrink. An
  expression all of whose intermediate bounds exist, whose logical operands are booleans and whose
  modulo operands leave the room \<open>floor_mod\<close> needs is \<open>safe\<close>: evaluating it under bindings inside
  the declared bounds succeeds, and the value lies inside the bounds of the expression.
\<close>

subsection \<open>Floor division and modulo\<close>

lemma sdiv_smod_split: "(a :: int) = (a sdiv b) * b + a smod b"
  using smod_sdiv_mult_eq [of a b] by (simp add: add.commute)

lemma smod_small:
  assumes "(b :: int) \<noteq> 0"
  shows "\<bar>a smod b\<bar> < \<bar>b\<bar>" "0 \<le> a \<Longrightarrow> 0 \<le> a smod b" "a \<le> 0 \<Longrightarrow> a smod b \<le> 0"
proof -
  have eq: "a smod b = sgn a * (\<bar>a\<bar> mod \<bar>b\<bar>)"
    by (simp add: signed_modulo_int_def)
  have m: "0 \<le> \<bar>a\<bar> mod \<bar>b\<bar>" "\<bar>a\<bar> mod \<bar>b\<bar> < \<bar>b\<bar>" using assms by simp_all
  show "\<bar>a smod b\<bar> < \<bar>b\<bar>" using m unfolding eq by (cases "a = 0") (auto simp: abs_mult abs_sgn_eq)
  show "0 \<le> a \<Longrightarrow> 0 \<le> a smod b" using m unfolding eq by (simp add: sgn_if)
  show "a \<le> 0 \<Longrightarrow> a smod b \<le> 0" using m unfolding eq by (simp add: sgn_if)
qed

lemma floor_from_truncated:
  assumes "(b :: int) \<noteq> 0"
  shows "a div b = (if a smod b \<noteq> 0 \<and> (0 < a smod b) \<noteq> (0 < b) then a sdiv b - 1 else a sdiv b)"
proof -
  let ?q = "a sdiv b" and ?r = "a smod b"
  have split: "a = b * ?q + ?r" using sdiv_smod_split [of a b] by (simp add: mult.commute)
  have split': "a = b * (?q - 1) + (?r + b)" using split by (simp add: algebra_simps)
  note small = smod_small(1) [OF assms, of a]
  consider "0 < b" "0 \<le> ?r" | "0 < b" "?r < 0" | "b < 0" "?r \<le> 0" | "b < 0" "0 < ?r"
    using assms by linarith
  then show ?thesis
  proof cases
    case 1
    then show ?thesis using int_div_pos_eq [OF split] small by auto
  next
    case 2
    then show ?thesis using int_div_pos_eq [OF split'] small by auto
  next
    case 3
    then show ?thesis using int_div_neg_eq [OF split] small by auto
  next
    case 4
    then show ?thesis using int_div_neg_eq [OF split'] small by auto
  qed
qed

lemma abs_sdiv_le:
  assumes "2 \<le> \<bar>b :: int\<bar>"
  shows "\<bar>a sdiv b\<bar> \<le> \<bar>a\<bar> div 2"
proof -
  have "\<bar>a sdiv b\<bar> = \<bar>sgn a\<bar> * \<bar>sgn b\<bar> * (\<bar>a\<bar> div \<bar>b\<bar>)"
    using assms by (simp add: signed_divide_int_def abs_mult pos_imp_zdiv_nonneg_iff)
  also have "\<dots> \<le> \<bar>a\<bar> div \<bar>b\<bar>"
    using assms by (auto simp: abs_sgn_eq pos_imp_zdiv_nonneg_iff)
  also have "\<dots> \<le> \<bar>a\<bar> div 2" using assms by (intro zdiv_mono2) auto
  finally show ?thesis .
qed

lemma quotients_in_i64:
  assumes "in_i64 a" and "b \<noteq> 0" and "\<not> (a = i64_min \<and> b = -1)"
  shows "in_i64 (a sdiv b)" "in_i64 (a div b)"
proof -
  have "in_i64 (a sdiv b) \<and> in_i64 (a div b)"
  proof (cases "2 \<le> \<bar>b\<bar>")
    case True
    have "\<bar>a\<bar> \<le> 2 * 4611686018427387904" using assms(1) unfolding i64_bounds_eq by linarith
    then have "\<bar>a sdiv b\<bar> \<le> 4611686018427387904" using abs_sdiv_le [OF True, of a] by presburger
    moreover have "a div b = a sdiv b \<or> a div b = a sdiv b - 1"
      using floor_from_truncated [OF assms(2), of a] by metis
    ultimately show ?thesis unfolding i64_bounds_eq by linarith
  next
    case False
    with assms(2) have "b = 1 \<or> b = -1" by linarith
    with assms show ?thesis by (auto simp: i64_bounds_eq)
  qed
  then show "in_i64 (a sdiv b)" "in_i64 (a div b)" by auto
qed

lemma floor_div_eq:
  assumes "in_i64 a" and "b \<noteq> 0"
  shows "floor_div a b =
    (if a = i64_min \<and> b = -1 then Inl (Overflow ''division'') else Inr (a div b))"
proof (cases "a = i64_min \<and> b = -1")
  case True
  then show ?thesis
    by (simp add: floor_div_def checked_div_i64_def checked_i64_def i64_bounds_eq)
next
  case False
  from quotients_in_i64(1) [OF assms False] show ?thesis
    using False assms floor_from_truncated [OF assms(2), of a]
    by (auto simp: floor_div_def checked_div_i64_def checked_rem_i64_def checked_i64_def)
qed

text \<open>Modulo fails not only on \<open>MIN mod -1\<close>: the product \<open>q * b\<close> it recomputes may leave \<open>i64\<close>
  although the remainder does not.\<close>

lemma floor_mod_eq:
  assumes "in_i64 a" and "in_i64 b" and "b \<noteq> 0"
  shows "floor_mod a b =
    (if a = i64_min \<and> b = -1 then Inl (Overflow ''division'')
     else if in_i64 (a - a mod b) then Inr (a mod b) else Inl (Overflow ''modulo''))"
proof -
  have p: "a div b * b = a - a mod b" by (simp add: minus_mod_eq_div_mult)
  have "0 \<le> a mod b \<and> a mod b < b \<or> b < a mod b \<and> a mod b \<le> 0"
    using assms(3) by (cases "0 < b") auto
  then have "in_i64 (a mod b)" using assms(2) unfolding i64_bounds_eq by linarith
  then show ?thesis
    using assms by (auto simp: floor_mod_def floor_div_eq p checked_i64_def)
qed

subsection \<open>Intervals\<close>

definition contains :: "bounds \<Rightarrow> int \<Rightarrow> bool" where
  "contains b x \<longleftrightarrow> bmin b \<le> x \<and> x \<le> bmax b"

definition interval :: "bounds \<Rightarrow> bool" where
  "interval b \<longleftrightarrow> i64_min \<le> bmin b \<and> bmin b \<le> bmax b \<and> bmax b \<le> i64_max"

definition tighter :: "bounds \<Rightarrow> bounds \<Rightarrow> bool" where
  "tighter b' b \<longleftrightarrow> bmin b \<le> bmin b' \<and> bmin b' \<le> bmax b' \<and> bmax b' \<le> bmax b"

definition boolean :: "bounds \<Rightarrow> bool" where
  "boolean b \<longleftrightarrow> 0 \<le> bmin b \<and> bmax b \<le> 1"

lemmas interval_defs = contains_def interval_def tighter_def boolean_def

lemma tighter_refl: "interval b \<Longrightarrow> tighter b b"
  by (simp add: interval_defs)

lemma tighter_trans: "tighter a b \<Longrightarrow> tighter b c \<Longrightarrow> tighter a c"
  by (auto simp: interval_defs)

lemma tighter_interval: "tighter a b \<Longrightarrow> interval b \<Longrightarrow> interval a"
  by (auto simp: interval_defs)

lemma tighter_contains: "tighter a b \<Longrightarrow> contains a x \<Longrightarrow> contains b x"
  by (auto simp: interval_defs)

lemma contains_in_i64: "interval b \<Longrightarrow> contains b x \<Longrightarrow> in_i64 x"
  by (auto simp: interval_defs)

lemma tighter_boolean: "tighter a b \<Longrightarrow> boolean b \<Longrightarrow> boolean a"
  by (auto simp: interval_defs)

text \<open>The corners of a box bound any function monotone or antitone in each argument.\<close>

lemma mult_between:
  "(a :: int) \<le> u \<Longrightarrow> u \<le> b \<Longrightarrow> min (a * v) (b * v) \<le> u * v \<and> u * v \<le> max (a * v) (b * v)"
  by (cases "0 \<le> v")
     (auto simp: min_def max_def mult_right_mono mult_right_mono_neg)

lemma div_between_left:
  "(a :: int) \<le> u \<Longrightarrow> u \<le> b \<Longrightarrow> v \<noteq> 0 \<Longrightarrow> min (a div v) (b div v) \<le> u div v \<and> u div v \<le> max (a div v) (b div v)"
  by (cases "0 < v")
     (auto simp: min_le_iff_disj le_max_iff_disj zdiv_mono1 zdiv_mono1_neg)

lemma div_between_pos:
  assumes "0 < (c :: int)" and "c \<le> v" and "v \<le> d"
  shows "min (u div c) (u div d) \<le> u div v \<and> u div v \<le> max (u div c) (u div d)"
proof (cases "0 \<le> u")
  case True
  then have "u div v \<le> u div c" "u div d \<le> u div v"
    using assms by (auto intro!: zdiv_mono2)
  then show ?thesis by linarith
next
  case False
  then have "u div c \<le> u div v" "u div v \<le> u div d"
    using assms by (auto intro!: zdiv_mono2_neg)
  then show ?thesis by linarith
qed

lemma div_between_right:
  assumes "(c :: int) \<le> v" and "v \<le> d" and "0 < c \<or> d < 0"
  shows "min (u div c) (u div d) \<le> u div v \<and> u div v \<le> max (u div c) (u div d)"
  using assms(3)
proof
  assume "d < 0"
  then have "0 < - d" by simp
  from div_between_pos [OF this, of "- v" "- c" "- u"] assms show ?thesis by auto
qed (use div_between_pos assms in blast)

lemma list_bounds_2: "list_bounds [w, x] = Bounds (min w x) (max w x)"
  by (simp add: list_bounds_def)

lemma list_bounds_4:
  "list_bounds [w, x, y, z] = Bounds (min w (min x (min y z))) (max w (max x (max y z)))"
  by (simp add: list_bounds_def)

lemma corner_box:
  fixes x :: int
  assumes "min p q \<le> x \<and> x \<le> max p q" and "min w y \<le> p \<and> p \<le> max w y"
    and "min y' z \<le> q \<and> q \<le> max y' z"
  shows "contains (list_bounds [w, y, y', z]) x"
  using assms unfolding contains_def list_bounds_4 by (auto simp: min_def max_def split: if_splits)

lemma mul_bounds_Inr:
  "mul_bounds a b = Inr z \<longleftrightarrow>
     (\<forall>u \<in> {bmin a, bmax a}. \<forall>v \<in> {bmin b, bmax b}. in_i64 (u * v)) \<and>
     z = list_bounds [bmin a * bmin b, bmin a * bmax b, bmax a * bmin b, bmax a * bmax b]"
  by (auto simp: mul_bounds_def mul_def result_simps checked_defs)

lemma mul_box:
  assumes "contains a u" and "contains b v"
    and "z = list_bounds [bmin a * bmin b, bmin a * bmax b, bmax a * bmin b, bmax a * bmax b]"
  shows "contains z (u * v)"
  unfolding assms(3)
proof (rule corner_box)
  show "min (bmin a * v) (bmax a * v) \<le> u * v \<and> u * v \<le> max (bmin a * v) (bmax a * v)"
    using assms(1) by (intro mult_between) (auto simp: contains_def)
  show "min (bmin a * bmin b) (bmin a * bmax b) \<le> bmin a * v \<and>
      bmin a * v \<le> max (bmin a * bmin b) (bmin a * bmax b)"
    "min (bmax a * bmin b) (bmax a * bmax b) \<le> bmax a * v \<and>
      bmax a * v \<le> max (bmax a * bmin b) (bmax a * bmax b)"
    using mult_between [of "bmin b" v "bmax b" "bmin a"] mult_between [of "bmin b" v "bmax b" "bmax a"]
      assms(2)
    by (simp_all only: contains_def mult.commute [of _ "bmin a"] mult.commute [of _ "bmax a"] simp_thms)
qed

lemma mul_bounds_sound:
  assumes "interval a" and "interval b" and "mul_bounds a b = Inr z"
  shows "interval z" and "contains a u \<Longrightarrow> contains b v \<Longrightarrow> mul u v = Inr (u * v) \<and> contains z (u * v)"
proof -
  have z: "z = list_bounds [bmin a * bmin b, bmin a * bmax b, bmax a * bmin b, bmax a * bmax b]"
    and fits: "in_i64 (bmin a * bmin b)" "in_i64 (bmin a * bmax b)" "in_i64 (bmax a * bmin b)" "in_i64 (bmax a * bmax b)"
    using assms(3) by (auto simp: mul_bounds_Inr)
  then show int: "interval z" by (auto simp: interval_def list_bounds_4)
  assume "contains a u" and "contains b v"
  from mul_box [OF this z] have c: "contains z (u * v)" .
  with contains_in_i64 [OF int] show "mul u v = Inr (u * v) \<and> contains z (u * v)"
    by (auto simp: mul_def checked_i64_def)
qed

lemma mul_bounds_tighter:
  assumes "mul_bounds a b = Inr z" and "interval a" and "interval b" and "tighter a' a" and "tighter b' b"
  shows "\<exists>z'. mul_bounds a' b' = Inr z' \<and> tighter z' z"
proof -
  have z: "z = list_bounds [bmin a * bmin b, bmin a * bmax b, bmax a * bmin b, bmax a * bmax b]"
    using assms(1) by (auto simp: mul_bounds_Inr)
  have ends: "contains a (bmin a')" "contains a (bmax a')" "contains b (bmin b')" "contains b (bmax b')"
    using assms(4,5) by (auto simp: interval_defs)
  note corner = mul_box [OF _ _ z]
  have c: "contains z (bmin a' * bmin b')" "contains z (bmin a' * bmax b')"
    "contains z (bmax a' * bmin b')" "contains z (bmax a' * bmax b')"
    using ends by (auto intro: corner)
  note int = contains_in_i64 [OF mul_bounds_sound(1) [OF assms(2,3,1)]]
  from c int have "mul_bounds a' b' =
      Inr (list_bounds [bmin a' * bmin b', bmin a' * bmax b', bmax a' * bmin b', bmax a' * bmax b'])"
    by (simp add: mul_bounds_Inr)
  moreover from c have "tighter (list_bounds [bmin a' * bmin b', bmin a' * bmax b', bmax a' * bmin b', bmax a' * bmax b']) z"
    by (auto simp: list_bounds_4 interval_defs)
  ultimately show ?thesis by blast
qed

lemma div_bounds_Inr:
  assumes "interval a" and "interval b" and "div_bounds a b = Inr z"
  shows "0 < bmin b \<or> bmax b < 0" and "\<not> (bmin a = i64_min \<and> bmax b = -1)"
    and "z = list_bounds [bmin a div bmin b, bmin a div bmax b, bmax a div bmin b, bmax a div bmax b]"
proof -
  from assms(3) show sgn: "0 < bmin b \<or> bmax b < 0"
    by (auto simp: div_bounds_def split: if_splits)
  have nz: "bmin b \<noteq> 0" "bmax b \<noteq> 0" and one: "\<not> (bmin b < 0 \<and> 0 < bmax b)"
    using sgn assms(2) by (auto simp: interval_def)
  have in_a: "in_i64 (bmin a)" "in_i64 (bmax a)" using assms(1) by (auto simp: interval_def)
  note eqs = floor_div_eq [OF in_a(1) nz(1)] floor_div_eq [OF in_a(1) nz(2)]
    floor_div_eq [OF in_a(2) nz(1)] floor_div_eq [OF in_a(2) nz(2)]
  from assms(3) sgn one show "\<not> (bmin a = i64_min \<and> bmax b = -1)"
    and "z = list_bounds [bmin a div bmin b, bmin a div bmax b, bmax a div bmin b, bmax a div bmax b]"
    by (auto simp: div_bounds_def eqs result_simps split: if_splits)
qed

lemma div_bounds_ok:
  assumes "interval a" and "interval b" and "0 < bmin b \<or> bmax b < 0"
    and "\<not> (bmin a = i64_min \<and> bmax b = -1)"
  shows "div_bounds a b =
    Inr (list_bounds [bmin a div bmin b, bmin a div bmax b, bmax a div bmin b, bmax a div bmax b])"
proof -
  have nz: "bmin b \<noteq> 0" "bmax b \<noteq> 0" and one: "\<not> (bmin b < 0 \<and> 0 < bmax b)"
    using assms(2,3) by (auto simp: interval_def)
  have in_a: "in_i64 (bmin a)" "in_i64 (bmax a)" using assms(1) by (auto simp: interval_def)
  have no: "\<not> (bmin a = i64_min \<and> bmin b = -1)" "\<not> (bmax a = i64_min \<and> bmin b = -1)"
    "\<not> (bmax a = i64_min \<and> bmax b = -1)"
    using assms by (auto simp: interval_def)
  note eqs = floor_div_eq [OF in_a(1) nz(1)] floor_div_eq [OF in_a(1) nz(2)]
    floor_div_eq [OF in_a(2) nz(1)] floor_div_eq [OF in_a(2) nz(2)]
  show ?thesis
    using assms(3) one no assms(4) by (auto simp: div_bounds_def eqs)
qed

lemma div_box:
  assumes "contains a u" and "contains b v" and "0 < bmin b \<or> bmax b < 0"
  shows "contains (list_bounds [bmin a div bmin b, bmin a div bmax b, bmax a div bmin b, bmax a div bmax b]) (u div v)"
proof (rule corner_box)
  show "min (bmin a div v) (bmax a div v) \<le> u div v \<and> u div v \<le> max (bmin a div v) (bmax a div v)"
    using assms by (intro div_between_left) (auto simp: contains_def)
qed (use assms in \<open>auto simp: contains_def intro!: div_between_right [THEN conjunct1] div_between_right [THEN conjunct2]\<close>)

lemma div_bounds_sound:
  assumes "interval a" and "interval b" and "div_bounds a b = Inr z"
  shows "interval z"
    and "contains a u \<Longrightarrow> contains b v \<Longrightarrow> floor_div u v = Inr (u div v) \<and> contains z (u div v)"
proof -
  note inr = div_bounds_Inr [OF assms]
  have fits: "in_i64 (n div d)" if "n \<in> {bmin a, bmax a}" "d \<in> {bmin b, bmax b}" for n d
    using that inr(1,2) assms(1,2) by (intro quotients_in_i64(2)) (auto simp: interval_def)
  show "interval z"
    unfolding inr(3) interval_def list_bounds_4 using fits by (auto simp: min_def max_def)
  assume u: "contains a u" and v: "contains b v"
  have "v \<noteq> 0" "\<not> (u = i64_min \<and> v = -1)"
    using u v inr(1,2) assms(1,2) by (auto simp: interval_defs)
  then have "floor_div u v = Inr (u div v)"
    using contains_in_i64 [OF assms(1) u] by (simp add: floor_div_eq)
  with div_box [OF u v inr(1)] inr(3) show "floor_div u v = Inr (u div v) \<and> contains z (u div v)"
    by simp
qed

lemma div_bounds_tighter:
  assumes "div_bounds a b = Inr z" and "interval a" and "interval b" and "tighter a' a" and "tighter b' b"
  shows "\<exists>z'. div_bounds a' b' = Inr z' \<and> tighter z' z"
proof -
  note inr = div_bounds_Inr [OF assms(2,3,1)]
  have ends: "contains a (bmin a')" "contains a (bmax a')" "contains b (bmin b')" "contains b (bmax b')"
    using assms(4,5) by (auto simp: interval_defs)
  note c = div_box [OF ends(1) ends(3) inr(1)] div_box [OF ends(1) ends(4) inr(1)]
    div_box [OF ends(2) ends(3) inr(1)] div_box [OF ends(2) ends(4) inr(1)]
  have sgn: "0 < bmin b' \<or> bmax b' < 0" "\<not> (bmin a' = i64_min \<and> bmax b' = -1)"
    using inr(1,2) assms(2-5) by (auto simp: interval_defs)
  note ok = div_bounds_ok [OF tighter_interval [OF assms(4,2)] tighter_interval [OF assms(5,3)] sgn]
  from c have "tighter (list_bounds [bmin a' div bmin b', bmin a' div bmax b', bmax a' div bmin b', bmax a' div bmax b']) z"
    unfolding inr(3) by (auto simp: list_bounds_4 interval_defs)
  with ok show ?thesis by blast
qed

text \<open>Modulo: the room the recomputed product needs.\<close>

definition mod_room :: "bounds \<Rightarrow> bounds \<Rightarrow> bool" where
  "mod_room a z \<longleftrightarrow> i64_min < bmin a \<and> i64_min \<le> bmin a - bmax z \<and> bmax a - bmin z \<le> i64_max"

lemma mod_bounds_sound:
  assumes "interval a" and "interval b" and "mod_bounds a b = Inr z" and "mod_room a z"
  shows "interval z"
    and "contains a u \<Longrightarrow> contains b v \<Longrightarrow> floor_mod u v = Inr (u mod v) \<and> contains z (u mod v)"
proof -
  from assms(3) have sgn: "0 < bmin b \<and> z = Bounds 0 (bmax b - 1) \<or> bmax b < 0 \<and> z = Bounds (bmin b + 1) 0"
    by (auto simp: mod_bounds_def split: if_splits)
  then show "interval z"
    using assms(2) by (auto simp: interval_def i64_bounds_eq)
  assume u: "contains a u" and v: "contains b v"
  have nz: "v \<noteq> 0" using v sgn by (auto simp: contains_def)
  have m: "contains z (u mod v)"
    using sgn
  proof
    assume s: "0 < bmin b \<and> z = Bounds 0 (bmax b - 1)"
    then have "0 < v" "v \<le> bmax b" using v by (auto simp: contains_def)
    then have "0 \<le> u mod v" "u mod v < v" by auto
    with \<open>v \<le> bmax b\<close> s show ?thesis by (auto simp: contains_def)
  next
    assume s: "bmax b < 0 \<and> z = Bounds (bmin b + 1) 0"
    then have "v < 0" "bmin b \<le> v" using v by (auto simp: contains_def)
    then have "u mod v \<le> 0" "v < u mod v" by auto
    with \<open>bmin b \<le> v\<close> s show ?thesis by (auto simp: contains_def)
  qed
  then have "in_i64 (u - u mod v)" "u \<noteq> i64_min"
    using assms(4) u by (auto simp: mod_room_def contains_def)
  then have "floor_mod u v = Inr (u mod v)"
    using contains_in_i64 [OF assms(1) u] contains_in_i64 [OF assms(2) v] nz by (simp add: floor_mod_eq)
  with m show "floor_mod u v = Inr (u mod v) \<and> contains z (u mod v)" by simp
qed

lemma mod_bounds_tighter:
  assumes "mod_bounds a b = Inr z" and "mod_room a z" and "interval b" and "tighter a' a" and "tighter b' b"
  shows "\<exists>z'. mod_bounds a' b' = Inr z' \<and> tighter z' z \<and> mod_room a' z'"
  using assms by (auto simp: mod_bounds_def mod_room_def interval_defs split: if_splits)


lemma add_bounds_Inr:
  "add_bounds a b = Inr z \<longleftrightarrow> z = Bounds (bmin a + bmin b) (bmax a + bmax b) \<and>
     in_i64 (bmin a + bmin b) \<and> in_i64 (bmax a + bmax b)"
  by (auto simp: add_bounds_def add_def result_simps checked_defs)

lemma add_bounds_sound:
  assumes "interval a" and "interval b" and "add_bounds a b = Inr z"
  shows "interval z" and "contains a u \<Longrightarrow> contains b v \<Longrightarrow> add u v = Inr (u + v) \<and> contains z (u + v)"
  using assms by (auto simp: add_bounds_Inr interval_defs add_def checked_i64_def)

lemma neg_bounds_Inr:
  "neg_bounds b = Inr z \<longleftrightarrow> z = Bounds (- bmax b) (- bmin b) \<and> in_i64 (- bmax b) \<and> in_i64 (- bmin b)"
  by (auto simp: neg_bounds_def neg_def result_simps checked_defs)

lemma neg_bounds_sound:
  assumes "interval b" and "neg_bounds b = Inr z"
  shows "interval z" and "contains b u \<Longrightarrow> neg u = Inr (- u) \<and> contains z (- u)"
  using assms by (auto simp: neg_bounds_Inr interval_defs neg_def checked_i64_def)

lemma neg_bounds_tighter:
  assumes "neg_bounds b = Inr z" and "tighter b' b"
  shows "\<exists>z'. neg_bounds b' = Inr z' \<and> tighter z' z"
  using assms by (auto simp: neg_bounds_Inr interval_defs)

lemma boolean_cases:
  assumes "interval b" and "boolean b"
  obtains "b = Bounds 0 0" | "b = Bounds 0 1" | "b = Bounds 1 1"
proof -
  have "bmin b = 0 \<and> bmax b = 0 \<or> bmin b = 0 \<and> bmax b = 1 \<or> bmin b = 1 \<and> bmax b = 1"
    using assms unfolding interval_def boolean_def by linarith
  then show thesis using that by (cases b) auto
qed

lemma logic_bounds_boolean:
  assumes "interval a" and "boolean a" and "interval b" and "boolean b"
  shows "logic_bounds True a b = Bounds (min (bmin a) (bmin b)) (min (bmax a) (bmax b))"
    and "logic_bounds False a b = Bounds (max (bmin a) (bmin b)) (max (bmax a) (bmax b))"
  by (rule boolean_cases [OF assms(1,2)]; rule boolean_cases [OF assms(3,4)];
      simp add: logic_bounds_def bool_possibilities_def list_bounds_def of_bool_i_def)+

lemma not_bounds_boolean:
  assumes "interval a" and "boolean a"
  shows "not_bounds a = Bounds (1 - bmax a) (1 - bmin a)"
  by (rule boolean_cases [OF assms])
     (simp_all add: not_bounds_def bool_possibilities_def list_bounds_def of_bool_i_def)

lemma where_bounds_boolean:
  assumes "interval c" and "boolean c"
  shows "where_bounds c a b = (if bmin c = 1 then a else if bmax c = 0 then b
    else Bounds (min (bmin a) (bmin b)) (max (bmax a) (bmax b)))"
  by (rule boolean_cases [OF assms]) (simp_all add: where_bounds_def)

lemma predicate_bounds_cases:
  "predicate_bounds a b p \<in> {Bounds 0 0, Bounds 1 1, Bounds 0 1}"
  by (auto simp: predicate_bounds_def of_bool_i_def Let_def)

lemma predicate_bounds_sound:
  assumes "contains a u" and "contains b v"
  shows "contains (predicate_bounds a b p) (of_bool_i (p u v))"
  using assms by (auto simp: predicate_bounds_def contains_def of_bool_i_def Let_def)

lemma predicate_bounds_interval:
  "interval (predicate_bounds a b p)" "boolean (predicate_bounds a b p)"
  using predicate_bounds_cases [of a b p] by (auto simp: interval_defs i64_bounds_eq)

lemma predicate_bounds_tighter:
  assumes "tighter a' a" and "tighter b' b"
  shows "tighter (predicate_bounds a' b' p) (predicate_bounds a b p)"
proof (cases "bmin a = bmax a \<and> bmin b = bmax b")
  case True
  with assms have "bmin a' = bmin a" "bmax a' = bmax a" "bmin b' = bmin b" "bmax b' = bmax b"
    unfolding tighter_def by linarith+
  then show ?thesis using True by (simp add: predicate_bounds_def tighter_def Let_def)
next
  case False
  then have "predicate_bounds a b p = Bounds 0 1" by (auto simp: predicate_bounds_def)
  then show ?thesis using predicate_bounds_cases [of a' b' p] by (auto simp: tighter_def)
qed

subsection \<open>Safe expressions\<close>

definition has_bounds :: "sexpr \<Rightarrow> (bounds \<Rightarrow> bool) \<Rightarrow> bool" where
  "has_bounds e P = (case sbounds e of Inl _ \<Rightarrow> False | Inr b \<Rightarrow> P b)"

definition var_ok :: "symbolic_var \<Rightarrow> bool" where
  "var_ok v \<longleftrightarrow> i64_min \<le> sv_min v \<and> sv_min v \<le> sv_max v \<and> sv_max v \<le> i64_max"

fun safe :: "sexpr \<Rightarrow> bool" where
  "safe (Const x) = in_i64 x"
| "safe (Var v) = var_ok v"
| "safe (Add xs) = (list_all safe xs \<and> has_bounds (Add xs) (\<lambda>_. True))"
| "safe (Mul xs) = (list_all safe xs \<and> has_bounds (Mul xs) (\<lambda>_. True))"
| "safe (Neg a) = (safe a \<and> has_bounds (Neg a) (\<lambda>_. True))"
| "safe (FloorDiv a b) = (safe a \<and> safe b \<and> has_bounds (FloorDiv a b) (\<lambda>_. True))"
| "safe (Mod a b) = (safe a \<and> safe b \<and> has_bounds (Mod a b) (\<lambda>z. has_bounds a (\<lambda>x. mod_room x z)))"
| "safe (MinE a b) = (safe a \<and> safe b)"
| "safe (MaxE a b) = (safe a \<and> safe b)"
| "safe (EqE a b) = (safe a \<and> safe b)"
| "safe (Lt a b) = (safe a \<and> safe b)"
| "safe (Le a b) = (safe a \<and> safe b)"
| "safe (And a b) = (safe a \<and> safe b \<and> has_bounds a boolean \<and> has_bounds b boolean)"
| "safe (Or a b) = (safe a \<and> safe b \<and> has_bounds a boolean \<and> has_bounds b boolean)"
| "safe (NotE a) = (safe a \<and> has_bounds a boolean)"
| "safe (Where c a b) = (safe c \<and> safe a \<and> safe b \<and> has_bounds c boolean)"

lemma has_bounds_iff: "has_bounds e P \<longleftrightarrow> (\<exists>b. sbounds e = Inr b \<and> P b)"
  by (auto simp: has_bounds_def split: sum.splits)

text \<open>Bindings inside the declared bounds of every variable that occurs.\<close>

definition within_bounds :: "bindings \<Rightarrow> sexpr \<Rightarrow> bool" where
  "within_bounds env e \<longleftrightarrow> (\<forall>v \<in> set (collect_variables e).
     \<exists>x. map_of env v = Some x \<and> sv_min v \<le> x \<and> x \<le> sv_max v)"

text \<open>The value of an expression: its bounds exist and contain what evaluation returns.\<close>

definition value_in :: "bindings \<Rightarrow> sexpr \<Rightarrow> bounds \<Rightarrow> int \<Rightarrow> bool" where
  "value_in env e b x \<longleftrightarrow> sbounds e = Inr b \<and> interval b \<and> eval_inner env e = Inr x \<and> contains b x"

lemma fold_bounds_interval:
  assumes "\<And>a b z. interval a \<Longrightarrow> interval b \<Longrightarrow> f a b = Inr z \<Longrightarrow> interval z"
    and "\<And>x b. x \<in> set xs \<Longrightarrow> sbounds x = Inr b \<Longrightarrow> interval b"
    and "interval acc" and "try_fold (\<lambda>a x. rbind (sbounds x) (f a)) acc xs = Inr z"
  shows "interval z"
proof (rule try_fold_invariant [OF assms(4), of interval])
  show "interval acc" by (rule assms(3))
  show "interval s'" if "x \<in> set xs" "interval s" "rbind (sbounds x) (f s) = Inr s'" for s x s'
  proof -
    from that(3) obtain b where "sbounds x = Inr b" "f s b = Inr s'" by (auto simp only: rbind_eq_Inr)
    with assms(1,2) that(1,2) show ?thesis by blast
  qed
qed

lemma fold_value:
  assumes "\<And>a b z u v. interval a \<Longrightarrow> interval b \<Longrightarrow> f a b = Inr z \<Longrightarrow> contains a u \<Longrightarrow> contains b v \<Longrightarrow>
      interval z \<and> (\<exists>w. g u v = Inr w \<and> contains z w)"
    and "\<And>x. x \<in> set xs \<Longrightarrow> \<exists>b u. value_in env x b u"
    and "interval acc" and "contains acc s" and "try_fold (\<lambda>a x. rbind (sbounds x) (f a)) acc xs = Inr z"
  shows "\<exists>w. try_fold (\<lambda>a x. rbind (eval_inner env x) (g a)) s xs = Inr w \<and> contains z w"
  using assms(2-)
proof (induction xs arbitrary: acc s)
  case Nil
  then show ?case by simp
next
  case (Cons x xs)
  obtain b u where x: "value_in env x b u" using Cons.prems(1) [of x] by auto
  with Cons.prems(4) obtain acc' where step: "f acc b = Inr acc'"
    and rest: "try_fold (\<lambda>a x. rbind (sbounds x) (f a)) acc' xs = Inr z"
    by (auto simp: value_in_def result_simps)
  from assms(1) [OF Cons.prems(2) _ step Cons.prems(3)] x obtain w where
    "interval acc'" "g s u = Inr w" "contains acc' w"
    by (auto simp: value_in_def)
  with Cons.IH [OF Cons.prems(1) _ _ rest, of w] x show ?case
    by (auto simp: value_in_def)
qed

lemma safe_bounds: "safe e \<Longrightarrow> \<exists>b. sbounds e = Inr b \<and> interval b"
proof (induction e)
  case (Add xs)
  from Add.prems obtain b where b: "sbounds (Add xs) = Inr b" by (auto simp: has_bounds_iff)
  moreover have "interval b"
  proof (rule fold_bounds_interval)
    show "interval b" if "x \<in> set xs" "sbounds x = Inr b" for x b
      using Add.IH [OF that(1)] Add.prems that by (auto simp: list_all_iff)
    show "interval (Bounds 0 0)" by (simp add: interval_def i64_bounds_eq)
    show "try_fold (\<lambda>a x. rbind (sbounds x) (add_bounds a)) (Bounds 0 0) xs = Inr b"
      using b by simp
  qed (rule add_bounds_sound(1))
  ultimately show ?case by blast
next
  case (Mul xs)
  from Mul.prems obtain b where b: "sbounds (Mul xs) = Inr b" by (auto simp: has_bounds_iff)
  moreover have "interval b"
  proof (rule fold_bounds_interval)
    show "interval b" if "x \<in> set xs" "sbounds x = Inr b" for x b
      using Mul.IH [OF that(1)] Mul.prems that by (auto simp: list_all_iff)
    show "interval (Bounds 1 1)" by (simp add: interval_def i64_bounds_eq)
    show "try_fold (\<lambda>a x. rbind (sbounds x) (mul_bounds a)) (Bounds 1 1) xs = Inr b"
      using b by simp
  qed (rule mul_bounds_sound(1))
  ultimately show ?case by blast
next
  case (And a b)
  then show ?case by (auto simp: has_bounds_iff logic_bounds_boolean interval_def)
next
  case (Or a b)
  then show ?case by (auto simp: has_bounds_iff logic_bounds_boolean interval_def)
next
  case (NotE a)
  then show ?case
    by (auto simp: has_bounds_iff not_bounds_boolean)
       (auto simp: interval_def boolean_def i64_bounds_eq)
next
  case (Where c a b)
  then show ?case by (auto simp: has_bounds_iff where_bounds_boolean interval_def)
next
  case (FloorDiv a b)
  then show ?case by (auto simp: has_bounds_iff dest: div_bounds_sound(1))
next
  case (Mod a b)
  then show ?case by (auto simp: has_bounds_iff dest: mod_bounds_sound(1))
next
  case (Neg a)
  then show ?case by (auto simp: has_bounds_iff dest: neg_bounds_sound(1))
qed (auto simp: interval_def var_ok_def predicate_bounds_interval [unfolded interval_def])


lemma within_bounds_simps [simp]:
  "within_bounds env (Add xs) \<longleftrightarrow> list_all (within_bounds env) xs"
  "within_bounds env (Mul xs) \<longleftrightarrow> list_all (within_bounds env) xs"
  "within_bounds env (Neg a) \<longleftrightarrow> within_bounds env a"
  "within_bounds env (NotE a) \<longleftrightarrow> within_bounds env a"
  "within_bounds env (FloorDiv a b) \<longleftrightarrow> within_bounds env a \<and> within_bounds env b"
  "within_bounds env (Mod a b) \<longleftrightarrow> within_bounds env a \<and> within_bounds env b"
  "within_bounds env (MinE a b) \<longleftrightarrow> within_bounds env a \<and> within_bounds env b"
  "within_bounds env (MaxE a b) \<longleftrightarrow> within_bounds env a \<and> within_bounds env b"
  "within_bounds env (EqE a b) \<longleftrightarrow> within_bounds env a \<and> within_bounds env b"
  "within_bounds env (Lt a b) \<longleftrightarrow> within_bounds env a \<and> within_bounds env b"
  "within_bounds env (Le a b) \<longleftrightarrow> within_bounds env a \<and> within_bounds env b"
  "within_bounds env (And a b) \<longleftrightarrow> within_bounds env a \<and> within_bounds env b"
  "within_bounds env (Or a b) \<longleftrightarrow> within_bounds env a \<and> within_bounds env b"
  "within_bounds env (Where c a b) \<longleftrightarrow> within_bounds env c \<and> within_bounds env a \<and> within_bounds env b"
  "within_bounds env (Const x)"
  by (auto simp: within_bounds_def list_all_iff)

lemma boolean_value: "boolean b \<Longrightarrow> contains b x \<Longrightarrow> x = 0 \<or> x = 1"
  by (auto simp: interval_defs)

lemma value_inE:
  assumes "value_in env e b x"
  shows "sbounds e = Inr b" "interval b" "eval_inner env e = Inr x" "contains b x"
  using assms by (auto simp: value_in_def)

text \<open>Evaluation of a safe expression succeeds and lands inside its bounds.\<close>

lemma safe_value: "safe e \<Longrightarrow> within_bounds env e \<Longrightarrow> \<exists>b x. value_in env e b x"
proof (induction e)
  case (Const x)
  then show ?case by (simp add: value_in_def interval_defs)
next
  case (Var v)
  then show ?case by (auto simp: value_in_def within_bounds_def interval_defs var_ok_def)
next
  case (Add xs)
  from safe_bounds [OF Add.prems(1)] obtain z where z: "sbounds (Add xs) = Inr z" "interval z" by auto
  have "\<exists>w. try_fold (\<lambda>a x. rbind (eval_inner env x) (add a)) 0 xs = Inr w \<and> contains z w"
  proof (rule fold_value)
    show "\<exists>b u. value_in env x b u" if "x \<in> set xs" for x
      using Add that by (auto simp: list_all_iff)
    show "try_fold (\<lambda>a x. rbind (sbounds x) (add_bounds a)) (Bounds 0 0) xs = Inr z" using z by simp
    show "interval (Bounds 0 0)" "contains (Bounds 0 0) 0" by (simp_all add: interval_defs i64_bounds_eq)
  qed (use add_bounds_sound in blast)
  with z show ?case by (auto simp: value_in_def)
next
  case (Mul xs)
  from safe_bounds [OF Mul.prems(1)] obtain z where z: "sbounds (Mul xs) = Inr z" "interval z" by auto
  have "\<exists>w. try_fold (\<lambda>a x. rbind (eval_inner env x) (mul a)) 1 xs = Inr w \<and> contains z w"
  proof (rule fold_value)
    show "\<exists>b u. value_in env x b u" if "x \<in> set xs" for x
      using Mul that by (auto simp: list_all_iff)
    show "try_fold (\<lambda>a x. rbind (sbounds x) (mul_bounds a)) (Bounds 1 1) xs = Inr z" using z by simp
    show "interval (Bounds 1 1)" "contains (Bounds 1 1) 1" by (simp_all add: interval_defs i64_bounds_eq)
  qed (use mul_bounds_sound in blast)
  with z show ?case by (auto simp: value_in_def)
next
  case (Neg a)
  then obtain b x where v: "value_in env a b x" by auto
  with Neg.prems show ?case
    by (auto simp: value_in_def has_bounds_iff dest: neg_bounds_sound)
next
  case (FloorDiv a b)
  then obtain x y u v where v: "value_in env a x u" "value_in env b y v" by auto
  with FloorDiv.prems show ?case
    by (auto simp: value_in_def has_bounds_iff dest: div_bounds_sound)
next
  case (Mod a b)
  then obtain x y u v where v: "value_in env a x u" "value_in env b y v" by auto
  with Mod.prems show ?case
    by (auto simp: value_in_def has_bounds_iff dest: mod_bounds_sound)
next
  case (MinE a b)
  then obtain x y u v where v: "value_in env a x u" "value_in env b y v" by auto
  then show ?case by (auto simp: value_in_def interval_defs)
next
  case (MaxE a b)
  then obtain x y u v where v: "value_in env a x u" "value_in env b y v" by auto
  then show ?case by (auto simp: value_in_def interval_defs)
next
  case (EqE a b)
  then obtain x y u v where v: "value_in env a x u" "value_in env b y v" by auto
  then show ?case
    using predicate_bounds_sound [of x u y v "(=)"] by (simp add: value_in_def predicate_bounds_interval)
next
  case (Lt a b)
  then obtain x y u v where v: "value_in env a x u" "value_in env b y v" by auto
  then show ?case
    using predicate_bounds_sound [of x u y v "(<)"] by (simp add: value_in_def predicate_bounds_interval)
next
  case (Le a b)
  then obtain x y u v where v: "value_in env a x u" "value_in env b y v" by auto
  then show ?case
    using predicate_bounds_sound [of x u y v "(\<le>)"] by (simp add: value_in_def predicate_bounds_interval)
next
  case (And a b)
  then obtain x y u v where v: "value_in env a x u" "value_in env b y v" by auto
  with And.prems have b: "boolean x" "boolean y" by (auto simp: value_in_def has_bounds_iff)
  with v have "u = 0 \<or> u = 1" "v = 0 \<or> v = 1" by (auto simp: value_in_def dest: boolean_value)
  with v b show ?case
    by (auto simp: value_in_def logic_bounds_boolean boolv_def of_bool_i_def interval_defs i64_bounds_eq)
next
  case (Or a b)
  then obtain x y u v where v: "value_in env a x u" "value_in env b y v" by auto
  with Or.prems have b: "boolean x" "boolean y" by (auto simp: value_in_def has_bounds_iff)
  with v have "u = 0 \<or> u = 1" "v = 0 \<or> v = 1" by (auto simp: value_in_def dest: boolean_value)
  with v b show ?case
    by (auto simp: value_in_def logic_bounds_boolean boolv_def of_bool_i_def interval_defs i64_bounds_eq)
next
  case (NotE a)
  then obtain x u where v: "value_in env a x u" by auto
  with NotE.prems have b: "boolean x" by (auto simp: value_in_def has_bounds_iff)
  with v have "u = 0 \<or> u = 1" by (auto simp: value_in_def dest: boolean_value)
  with v b show ?case
    by (auto simp: value_in_def not_bounds_boolean boolv_def of_bool_i_def interval_defs i64_bounds_eq)
next
  case (Where c a b)
  then obtain z x y w u v where v: "value_in env c z w" "value_in env a x u" "value_in env b y v" by auto
  with Where.prems have b: "boolean z" by (auto simp: value_in_def has_bounds_iff)
  with v have "w = 0 \<or> w = 1" by (auto simp: value_in_def dest: boolean_value)
  with v b show ?case
    by (auto simp: value_in_def where_bounds_boolean boolv_def interval_defs)
qed

end
