(* ===== verification/SymbolicSimplify.thy ===== *)
theory SymbolicSimplify
  imports SymbolicBounds "HOL-Library.Multiset"
begin

section \<open>The simplifier preserves meaning\<close>

text \<open>
  \<open>refines e e'\<close>: the rewritten expression is safe again, mentions no new variable, has bounds at
  least as tight, and evaluates to the same value under all bindings inside the declared bounds.
  Every rule of the simplifier refines, refinement is a congruence, and so one pass, the driver and
  substitution do.
\<close>

definition refines :: "sexpr \<Rightarrow> sexpr \<Rightarrow> bool" where
  "refines e e' \<longleftrightarrow> safe e' \<and> set (collect_variables e') \<subseteq> set (collect_variables e) \<and>
     (\<exists>b b'. sbounds e = Inr b \<and> sbounds e' = Inr b' \<and> tighter b' b) \<and>
     (\<forall>env. within_bounds env e \<longrightarrow> eval_inner env e' = eval_inner env e)"

lemma refinesI:
  assumes "safe e'" and "set (collect_variables e') \<subseteq> set (collect_variables e)"
    and "sbounds e = Inr b" and "sbounds e' = Inr b'" and "tighter b' b"
    and "\<And>env. within_bounds env e \<Longrightarrow> eval_inner env e' = eval_inner env e"
  shows "refines e e'"
  using assms by (auto simp: refines_def)

lemma refinesE:
  assumes "refines e e'"
  obtains b b' where "safe e'" "set (collect_variables e') \<subseteq> set (collect_variables e)"
    "sbounds e = Inr b" "sbounds e' = Inr b'" "tighter b' b"
    "\<And>env. within_bounds env e \<Longrightarrow> eval_inner env e' = eval_inner env e"
  using assms by (auto simp: refines_def)

lemma refines_refl: "safe e \<Longrightarrow> refines e e"
  using safe_bounds [of e] by (auto simp: refines_def intro: tighter_refl)

lemma refines_within: "refines e e' \<Longrightarrow> within_bounds env e \<Longrightarrow> within_bounds env e'"
  by (auto simp: refines_def within_bounds_def)

lemma refines_trans: "refines a b \<Longrightarrow> refines b c \<Longrightarrow> refines a c"
proof -
  assume ab: "refines a b" and bc: "refines b c"
  have "within_bounds env a \<Longrightarrow> eval_inner env c = eval_inner env a" for env
    using refines_within [OF ab] ab bc by (simp add: refines_def)
  with ab bc show ?thesis unfolding refines_def using tighter_trans by fastforce
qed

lemma refines_safe: "refines e e' \<Longrightarrow> safe e'"
  by (simp add: refines_def)

lemma safe_interval: "safe e \<Longrightarrow> sbounds e = Inr b \<Longrightarrow> interval b"
  using safe_bounds [of e] by auto

subsection \<open>Congruence\<close>

lemma refines_bounds:
  assumes "refines a a'" and "safe a"
  obtains x x' where "sbounds a = Inr x" "sbounds a' = Inr x'" "tighter x' x" "interval x" "interval x'"
  using assms by (auto elim!: refinesE dest: safe_interval)

lemma refines_eval: "refines a a' \<Longrightarrow> within_bounds env a \<Longrightarrow> eval_inner env a' = eval_inner env a"
  by (simp add: refines_def)

lemma refines_vars: "refines a a' \<Longrightarrow> set (collect_variables a') \<subseteq> set (collect_variables a)"
  by (simp add: refines_def)

lemmas refines_facts = refines_eval refines_safe

lemma refines_neg:
  assumes "refines a a'" and "safe (Neg a)"
  shows "refines (Neg a) (Neg a')"
proof -
  from assms(2) have "safe a" by simp
  from refines_bounds [OF assms(1) this] obtain x x' where x: "sbounds a = Inr x" "sbounds a' = Inr x'"
    "tighter x' x" .
  from x assms(2) obtain z where z: "neg_bounds x = Inr z" by (auto simp: has_bounds_iff)
  from neg_bounds_tighter [OF z x(3)] obtain z' where "neg_bounds x' = Inr z'" "tighter z' z" by blast
  with x z show ?thesis
    by (intro refinesI [where b = z and b' = z']) (use refines_vars [OF assms(1)] refines_facts [OF assms(1)] in \<open>auto simp: has_bounds_iff\<close>)
qed

lemma refines_not:
  assumes "refines a a'" and "safe (NotE a)"
  shows "refines (NotE a) (NotE a')"
proof -
  from assms(2) have "safe a" by simp
  from refines_bounds [OF assms(1) this] obtain x x' where x: "sbounds a = Inr x" "sbounds a' = Inr x'"
    "tighter x' x" "interval x" "interval x'" .
  from x assms(2) have b: "boolean x" "boolean x'" by (auto simp: has_bounds_iff dest: tighter_boolean)
  with x have "tighter (not_bounds x') (not_bounds x)"
    by (auto simp: not_bounds_boolean tighter_def)
  with x b show ?thesis
    by (intro refinesI [where b = "not_bounds x" and b' = "not_bounds x'"]) (use refines_vars [OF assms(1)] refines_facts [OF assms(1)] in \<open>auto simp: has_bounds_iff\<close>)
qed

text \<open>The shape of a binary congruence: tighter operand bounds give tighter bounds.\<close>

lemma refines_binary:
  assumes "refines a a'" and "refines b b'" and "safe a" and "safe b" and "safe (op' a' b')"
    and "\<And>a b. collect_variables (op' a b) = collect_variables a @ collect_variables b"
    and "\<And>a b. sbounds (op' a b) = rbind (sbounds a) (\<lambda>x. rbind (sbounds b) (f x))"
    and "\<And>x x' y y'. sbounds a = Inr x \<Longrightarrow> sbounds b = Inr y \<Longrightarrow> sbounds a' = Inr x' \<Longrightarrow>
      sbounds b' = Inr y' \<Longrightarrow> tighter x' x \<Longrightarrow> tighter y' y \<Longrightarrow> interval x \<Longrightarrow> interval y \<Longrightarrow>
      interval x' \<Longrightarrow> interval y' \<Longrightarrow> \<exists>z z'. f x y = Inr z \<and> f x' y' = Inr z' \<and> tighter z' z"
    and "\<And>env. eval_inner env a' = eval_inner env a \<Longrightarrow> eval_inner env b' = eval_inner env b \<Longrightarrow>
      eval_inner env (op' a' b') = eval_inner env (op' a b)"
  shows "refines (op' a b) (op' a' b')"
proof -
  from refines_bounds [OF assms(1,3)] obtain x x' where x: "sbounds a = Inr x" "sbounds a' = Inr x'"
    "tighter x' x" "interval x" "interval x'" .
  from refines_bounds [OF assms(2,4)] obtain y y' where y: "sbounds b = Inr y" "sbounds b' = Inr y'"
    "tighter y' y" "interval y" "interval y'" .
  from assms(8) [OF x(1) y(1) x(2) y(2) x(3) y(3) x(4) y(4) x(5) y(5)] obtain z z' where
    z: "f x y = Inr z" "f x' y' = Inr z'" "tighter z' z" by blast
  show ?thesis
  proof (rule refinesI)
    show "safe (op' a' b')" by (rule assms(5))
    show "set (collect_variables (op' a' b')) \<subseteq> set (collect_variables (op' a b))"
      using refines_vars [OF assms(1)] refines_vars [OF assms(2)] by (auto simp: assms(6))
    show "sbounds (op' a b) = Inr z" "sbounds (op' a' b') = Inr z'" "tighter z' z"
      using x y z by (simp_all add: assms(7))
    fix env
    assume "within_bounds env (op' a b)"
    then have "within_bounds env a" "within_bounds env b"
      by (auto simp: within_bounds_def assms(6))
    then show "eval_inner env (op' a' b') = eval_inner env (op' a b)"
      using refines_eval [OF assms(1)] refines_eval [OF assms(2)] by (intro assms(9)) auto
  qed
qed

lemma refines_floor_div:
  assumes "refines a a'" and "refines b b'" and "safe (FloorDiv a b)"
  shows "refines (FloorDiv a b) (FloorDiv a' b')"
proof -
  from assms(3) have s: "safe a" "safe b" by auto
  have mono: "\<exists>z z'. div_bounds x y = Inr z \<and> div_bounds x' y' = Inr z' \<and> tighter z' z"
    if "sbounds a = Inr x" "sbounds b = Inr y" "tighter x' x" "tighter y' y" "interval x" "interval y"
    for x x' y y'
    using that assms(3) div_bounds_tighter by (fastforce simp: has_bounds_iff)
  from refines_bounds [OF assms(1) s(1)] obtain x x' where x: "sbounds a = Inr x" "sbounds a' = Inr x'"
    "tighter x' x" "interval x" .
  from refines_bounds [OF assms(2) s(2)] obtain y y' where y: "sbounds b = Inr y" "sbounds b' = Inr y'"
    "tighter y' y" "interval y" .
  have "safe (FloorDiv a' b')"
    using mono [OF x(1) y(1) x(3) y(3) x(4) y(4)] x y assms(1,2) by (auto simp: has_bounds_iff refines_safe)
  then show ?thesis
    by (rule refines_binary [OF assms(1,2) s]) (use mono in auto)
qed

lemma refines_mod:
  assumes "refines a a'" and "refines b b'" and "safe (Mod a b)"
  shows "refines (Mod a b) (Mod a' b')"
proof -
  from assms(3) have s: "safe a" "safe b" by auto
  have mono: "\<exists>z z'. mod_bounds x y = Inr z \<and> mod_bounds x' y' = Inr z' \<and> tighter z' z \<and> mod_room x' z'"
    if "sbounds a = Inr x" "sbounds b = Inr y" "tighter x' x" "tighter y' y" "interval x" "interval y"
    for x x' y y'
    using that assms(3) mod_bounds_tighter by (fastforce simp: has_bounds_iff)
  from refines_bounds [OF assms(1) s(1)] obtain x x' where x: "sbounds a = Inr x" "sbounds a' = Inr x'"
    "tighter x' x" "interval x" .
  from refines_bounds [OF assms(2) s(2)] obtain y y' where y: "sbounds b = Inr y" "sbounds b' = Inr y'"
    "tighter y' y" "interval y" .
  have "safe (Mod a' b')"
    using mono [OF x(1) y(1) x(3) y(3) x(4) y(4)] x y assms(1,2) by (auto simp: has_bounds_iff refines_safe)
  then show ?thesis
    by (rule refines_binary [OF assms(1,2) s]) (use mono in \<open>auto, blast\<close>)
qed

lemma refines_minmax:
  assumes "refines a a'" and "refines b b'" and "safe a" and "safe b"
  shows "refines (MinE a b) (MinE a' b')" and "refines (MaxE a b) (MaxE a' b')"
proof -
  show "refines (MinE a b) (MinE a' b')"
    by (rule refines_binary [OF assms, where op' = MinE and
          f = "\<lambda>x y. Inr (Bounds (min (bmin x) (bmin y)) (min (bmax x) (bmax y)))"])
       (use assms(1,2) in \<open>auto simp: refines_safe tighter_def\<close>)
  show "refines (MaxE a b) (MaxE a' b')"
    by (rule refines_binary [OF assms, where op' = MaxE and
          f = "\<lambda>x y. Inr (Bounds (max (bmin x) (bmin y)) (max (bmax x) (bmax y)))"])
       (use assms(1,2) in \<open>auto simp: refines_safe tighter_def\<close>)
qed

lemma refines_compare:
  assumes "refines a a'" and "refines b b'" and "safe a" and "safe b"
  shows "refines (EqE a b) (EqE a' b')" and "refines (Lt a b) (Lt a' b')" and "refines (Le a b) (Le a' b')"
proof -
  show "refines (EqE a b) (EqE a' b')"
    by (rule refines_binary [OF assms, where op' = EqE and f = "\<lambda>x y. Inr (predicate_bounds x y (=))"])
       (use assms(1,2) in \<open>auto simp: refines_safe intro: predicate_bounds_tighter\<close>)
  show "refines (Lt a b) (Lt a' b')"
    by (rule refines_binary [OF assms, where op' = Lt and f = "\<lambda>x y. Inr (predicate_bounds x y (<))"])
       (use assms(1,2) in \<open>auto simp: refines_safe intro: predicate_bounds_tighter\<close>)
  show "refines (Le a b) (Le a' b')"
    by (rule refines_binary [OF assms, where op' = Le and f = "\<lambda>x y. Inr (predicate_bounds x y (\<le>))"])
       (use assms(1,2) in \<open>auto simp: refines_safe intro: predicate_bounds_tighter\<close>)
qed

lemma logic_bounds_tighter:
  assumes "interval x" "boolean x" "interval y" "boolean y" "tighter x' x" "tighter y' y"
  shows "tighter (logic_bounds c x' y') (logic_bounds c x y)"
  using assms tighter_interval [OF assms(5,1)] tighter_interval [OF assms(6,3)]
    tighter_boolean [OF assms(5,2)] tighter_boolean [OF assms(6,4)]
  by (cases c) (auto simp: logic_bounds_boolean tighter_def)

lemma refines_boolean: "refines a a' \<Longrightarrow> has_bounds a boolean \<Longrightarrow> has_bounds a' boolean"
  by (auto elim!: refinesE simp: has_bounds_iff dest: tighter_boolean)

lemma refines_logic:
  assumes "refines a a'" and "refines b b'" and "safe (logic_expr c a b)"
  shows "refines (logic_expr c a b) (logic_expr c a' b')"
proof -
  from assms(3) have s: "safe a" "safe b" and b: "has_bounds a boolean" "has_bounds b boolean"
    by (auto simp: logic_expr_def split: if_splits)
  note b' = refines_boolean [OF assms(1) b(1)] refines_boolean [OF assms(2) b(2)]
  have "refines (And a b) (And a' b')"
    by (rule refines_binary [OF assms(1,2) s, where op' = And and f = "\<lambda>x y. Inr (logic_bounds True x y)"])
       (use b b' assms(1,2) in \<open>auto simp: refines_safe has_bounds_iff intro: logic_bounds_tighter intro!: rbind_cong\<close>)
  moreover have "refines (Or a b) (Or a' b')"
    by (rule refines_binary [OF assms(1,2) s, where op' = Or and f = "\<lambda>x y. Inr (logic_bounds False x y)"])
       (use b b' assms(1,2) in \<open>auto simp: refines_safe has_bounds_iff intro: logic_bounds_tighter intro!: rbind_cong\<close>)
  ultimately show ?thesis by (simp add: logic_expr_def)
qed

lemma refines_where:
  assumes "refines c c'" and "refines a a'" and "refines b b'" and "safe (Where c a b)"
  shows "refines (Where c a b) (Where c' a' b')"
proof -
  from assms(4) have s: "safe c" "safe a" "safe b" and c: "has_bounds c boolean" by auto
  from refines_bounds [OF assms(1) s(1)] obtain z z' where z: "sbounds c = Inr z" "sbounds c' = Inr z'"
    "tighter z' z" "interval z" "interval z'" .
  from refines_bounds [OF assms(2) s(2)] obtain x x' where x: "sbounds a = Inr x" "sbounds a' = Inr x'"
    "tighter x' x" "interval x" .
  from refines_bounds [OF assms(3) s(3)] obtain y y' where y: "sbounds b = Inr y" "sbounds b' = Inr y'"
    "tighter y' y" "interval y" .
  from c z have "boolean z" "boolean z'" by (auto simp: has_bounds_iff dest: tighter_boolean)
  with z x y have t: "tighter (where_bounds z' x' y') (where_bounds z x y)"
    by (auto simp: where_bounds_boolean tighter_def boolean_def)
  have e: "eval_inner env (Where c' a' b') = eval_inner env (Where c a b)"
    if "within_bounds env (Where c a b)" for env
    using that refines_eval [OF assms(1)] refines_eval [OF assms(2)] refines_eval [OF assms(3)]
    by (auto intro!: rbind_cong)
  show ?thesis
    by (rule refinesI [OF _ _ _ _ t e])
       (use z x y \<open>boolean z'\<close> refines_safe [OF assms(1)] refines_safe [OF assms(2)]
          refines_safe [OF assms(3)] refines_vars [OF assms(1)] refines_vars [OF assms(2)]
          refines_vars [OF assms(3)] in \<open>auto simp: has_bounds_iff\<close>)
qed


subsection \<open>The rules that rewrite one node\<close>

lemma safe_const_refines:
  assumes "safe e" and "sbounds e = Inr b" and "contains b v"
    and "\<And>env. within_bounds env e \<Longrightarrow> eval_inner env e = Inr v"
  shows "refines e (Const v)"
  by (rule refinesI [OF _ _ assms(2), where b' = "Bounds v v"])
     (use assms contains_in_i64 [OF safe_interval [OF assms(1,2)] assms(3)] in \<open>auto simp: contains_def tighter_def\<close>)

lemma neg_neg: "in_i64 u \<Longrightarrow> in_i64 (- u) \<Longrightarrow> rbind (neg u) neg = Inr u"
  by (simp add: neg_def checked_i64_def)

lemma value_of:
  assumes "safe e" and "sbounds e = Inr b" and "within_bounds env e"
  obtains x where "eval_inner env e = Inr x" "contains b x" "in_i64 x"
  using safe_value [OF assms(1,3)] assms(2) by (auto simp: value_in_def contains_in_i64)

lemma safeE:
  assumes "safe e"
  obtains b where "sbounds e = Inr b" "interval b"
  using safe_bounds [OF assms] by auto

lemma simplify_neg_refines:
  assumes "safe (Neg a)" and "simplify_neg a t = Inr (r, t')"
  shows "refines (Neg a) r"
proof -
  from assms(1) obtain b z where b: "sbounds a = Inr b" and z: "neg_bounds b = Inr z" and a: "safe a"
    by (auto simp: has_bounds_iff result_simps)
  consider v where "a = Const v" | v where "a = Neg v" | "simplify_neg a t = Inr (Neg a, t)"
    by (cases a) (auto simp: simplify_neg_def)
  then show ?thesis
  proof cases
    case 1
    with b z have "z = Bounds (- v) (- v)" "in_i64 (- v)" by (auto simp: neg_bounds_Inr)
    with 1 assms(2) have "r = Const (- v)"
      by (auto simp: simplify_neg_def neg_def result_simps checked_defs)
    moreover have "refines (Neg a) (Const (- v))"
      by (rule safe_const_refines [OF assms(1)])
         (use 1 b z \<open>z = _\<close> \<open>in_i64 (- v)\<close> in \<open>auto simp: contains_def neg_def checked_i64_def\<close>)
    ultimately show ?thesis by simp
  next
    case 2
    then have r: "r = v" using assms(2) by (simp add: simplify_neg_def)
    have v: "safe v" using a 2 by simp
    then obtain w where w: "sbounds v = Inr w" "interval w" by (rule safeE)
    with 2 b z have zw: "z = w" by (auto simp: neg_bounds_Inr bounds.expand)
    show ?thesis unfolding r
    proof (rule refinesI [where b = z and b' = w])
      show "sbounds (Neg a) = Inr z" using b z by simp
      show "tighter w z" using zw w by (simp add: tighter_refl)
      show "set (collect_variables v) \<subseteq> set (collect_variables (Neg a))" using 2 by simp
      fix env
      assume "within_bounds env (Neg a)"
      then have "within_bounds env v" "within_bounds env a" using 2 by simp_all
      from value_of [OF v w(1) this(1)] obtain x where x: "eval_inner env v = Inr x" "in_i64 x" .
      from value_of [OF a b \<open>within_bounds env a\<close>] obtain y where "eval_inner env a = Inr y" "in_i64 y" .
      with x 2 have "in_i64 (- x)" by (auto simp: neg_def result_simps checked_defs)
      with x 2 neg_neg [of x] show "eval_inner env v = eval_inner env (Neg a)" by simp
    qed (use v w in simp_all)
  next
    case 3
    with assms show ?thesis by (auto intro: refines_refl)
  qed
qed

lemma simplify_not_refines:
  assumes "safe (NotE a)"
  shows "refines (NotE a) (simplify_not a)"
proof -
  from assms obtain b where b: "sbounds a = Inr b" "boolean b" and a: "safe a"
    by (auto simp: has_bounds_iff)
  consider v where "a = Const v" | v where "a = NotE v" | "simplify_not a = NotE a"
    by (cases a) (auto simp: simplify_not_def)
  then show ?thesis
  proof cases
    case 1
    with b have v: "v = 0 \<or> v = 1" by (auto simp: boolean_def)
    have "refines (NotE a) (Const (of_bool_i (\<not> boolv v)))"
      by (rule safe_const_refines [OF assms])
         (use 1 b v in \<open>auto simp: not_bounds_boolean interval_defs i64_bounds_eq of_bool_i_def boolv_def\<close>)
    with 1 show ?thesis by (simp add: simplify_not_def)
  next
    case 2
    then have r: "simplify_not a = v" by (simp add: simplify_not_def)
    have v: "safe v" and wb: "has_bounds v boolean" using a 2 by auto
    from v obtain w where w: "sbounds v = Inr w" "interval w" by (rule safeE)
    with wb have bw: "boolean w" by (simp add: has_bounds_iff)
    note ba = safe_interval [OF a b(1)]
    have "b = Bounds (1 - bmax w) (1 - bmin w)" using w bw 2 b(1) by (simp add: not_bounds_boolean)
    then have "not_bounds b = w" using b(2) ba by (simp add: not_bounds_boolean)
    then have eq: "not_bounds (not_bounds w) = w" using 2 w b(1) by simp
    show ?thesis unfolding r
    proof (rule refinesI [where b = w and b' = w])
      show "sbounds (NotE a) = Inr w" using 2 w eq by simp
      show "set (collect_variables v) \<subseteq> set (collect_variables (NotE a))" using 2 by simp
      fix env
      assume "within_bounds env (NotE a)"
      then have "within_bounds env v" using 2 by simp
      from value_of [OF v w(1) this] obtain x where "eval_inner env v = Inr x" "contains w x" .
      with bw have "eval_inner env v = Inr x" "x = 0 \<or> x = 1" by (auto dest: boolean_value)
      with 2 show "eval_inner env v = eval_inner env (NotE a)" by (auto simp: boolv_def of_bool_i_def)
    qed (use v w in \<open>simp_all add: tighter_refl\<close>)
  next
    case 3
    with assms show ?thesis by (simp add: refines_refl)
  qed
qed

lemma simplify_minmax_refines:
  assumes "safe a" and "safe b" and "simplify_minmax m a b t = Inr (r, t')"
  shows "refines (if m then MinE a b else MaxE a b) r"
proof -
  from assms(1) obtain x where x: "sbounds a = Inr x" "interval x" by (rule safeE)
  from assms(2) obtain y where y: "sbounds b = Inr y" "interval y" by (rule safeE)
  let ?e = "if m then MinE a b else MaxE a b"
  let ?B = "if m then Bounds (min (bmin x) (bmin y)) (min (bmax x) (bmax y))
            else Bounds (max (bmin x) (bmin y)) (max (bmax x) (bmax y))"
  have e: "safe ?e" "sbounds ?e = Inr ?B" using assms x y by simp_all
  have wb: "within_bounds env a \<and> within_bounds env b" if "within_bounds env ?e" for env
    using that by (simp split: if_splits)
  show ?thesis
  proof (cases "a = b")
    case True
    then have r: "r = a" using assms(3) by (simp add: simplify_minmax_def)
    show ?thesis unfolding r
    proof (rule refinesI [OF assms(1) _ e(2) x(1)])
      show "tighter x ?B" using True x y by (auto simp: tighter_def interval_def)
      show "set (collect_variables a) \<subseteq> set (collect_variables ?e)" by simp
      fix env
      assume "within_bounds env ?e"
      then have "within_bounds env a" using wb by blast
      from value_of [OF assms(1) x(1) this] obtain u where "eval_inner env a = Inr u" .
      with True show "eval_inner env a = eval_inner env ?e" by simp
    qed
  next
    case False
    show ?thesis
    proof (cases "bmin x = bmax x \<and> bmin y = bmax y")
      case True
      with False assms(3) x y have r: "r = Const (if m then min (bmin x) (bmin y) else max (bmin x) (bmin y))"
        by (auto simp: simplify_minmax_def bounds_constant_def)
      show ?thesis unfolding r
      proof (rule safe_const_refines [OF e])
        show "contains ?B (if m then min (bmin x) (bmin y) else max (bmin x) (bmin y))"
          using True by (simp add: contains_def)
        fix env
        assume "within_bounds env ?e"
        then have w: "within_bounds env a" "within_bounds env b" using wb by blast+
        from value_of [OF assms(1) x(1) w(1)] obtain u where "eval_inner env a = Inr u" "contains x u" .
        moreover from value_of [OF assms(2) y(1) w(2)] obtain v where
          "eval_inner env b = Inr v" "contains y v" .
        moreover from calculation have "u = bmin x" "v = bmin y" using True by (auto simp: contains_def)
        ultimately show "eval_inner env ?e = Inr (if m then min (bmin x) (bmin y) else max (bmin x) (bmin y))"
          by simp
      qed
    next
      case nonconst: False
      with False assms(3) x y have "r = ?e"
        by (auto simp: simplify_minmax_def bounds_constant_def split: if_splits)
      then show ?thesis using e(1) refines_refl by simp
    qed
  qed
qed


text \<open>The operands of a binary node at bindings inside the bounds.\<close>

lemma operand_values:
  assumes "safe a" "sbounds a = Inr x" "safe b" "sbounds b = Inr y" "within_bounds env a" "within_bounds env b"
  obtains u v where "eval_inner env a = Inr u" "contains x u" "eval_inner env b = Inr v" "contains y v"
  using value_of [OF assms(1,2,5)] value_of [OF assms(3,4,6)] by metis

lemma simplify_compare_refines:
  assumes "safe a" and "safe b" and "simplify_compare c a b t = Inr (r, t')"
  shows "refines (case c of CmpEq \<Rightarrow> EqE a b | CmpLt \<Rightarrow> Lt a b | CmpLe \<Rightarrow> Le a b) r"
proof -
  from assms(1) obtain x where x: "sbounds a = Inr x" "interval x" by (rule safeE)
  from assms(2) obtain y where y: "sbounds b = Inr y" "interval y" by (rule safeE)
  let ?e = "case c of CmpEq \<Rightarrow> EqE a b | CmpLt \<Rightarrow> Lt a b | CmpLe \<Rightarrow> Le a b"
  let ?p = "case c of CmpEq \<Rightarrow> (=) | CmpLt \<Rightarrow> (<) | CmpLe \<Rightarrow> (\<le>)"
  let ?B = "predicate_bounds x y ?p"
  have e: "safe ?e" "sbounds ?e = Inr ?B"
    using assms x y by (simp_all split: comparison.splits)
  have eval: "eval_inner env ?e = Inr (of_bool_i (?p u v))"
    if "eval_inner env a = Inr u" "eval_inner env b = Inr v" for env u v
    using that by (simp split: comparison.splits)
  have wb: "within_bounds env a" "within_bounds env b" if "within_bounds env ?e" for env
    using that by (simp_all split: comparison.splits)
  show ?thesis
  proof (cases "compare_verdict c a b x y")
    case None
    with assms(3) x y have "r = ?e" by (auto simp: simplify_compare_def split: comparison.splits)
    then show ?thesis using e(1) refines_refl by simp
  next
    case (Some k)
    have decided: "k = of_bool_i (?p u v)" if "contains x u" "contains y v" "a = b \<longrightarrow> u = v" for u v
      using Some that by (auto simp: compare_verdict_def contains_def of_bool_i_def split: comparison.splits if_splits)
    have ends: "contains x (bmin x)" "contains y (bmin y)" "a = b \<longrightarrow> bmin x = bmin y"
      using x y by (auto simp: contains_def interval_def)
    have r: "r = Const k" using Some assms(3) x y by (simp add: simplify_compare_def)
    show ?thesis unfolding r
    proof (rule safe_const_refines [OF e])
      show "contains ?B k"
        using predicate_bounds_sound [OF ends(1,2), of ?p] decided [OF ends] by simp
      fix env
      assume "within_bounds env ?e"
      from operand_values [OF assms(1) x(1) assms(2) y(1) wb [OF this]] obtain u v where
        "eval_inner env a = Inr u" "contains x u" "eval_inner env b = Inr v" "contains y v" .
      moreover from calculation have "a = b \<longrightarrow> u = v" by auto
      ultimately show "eval_inner env ?e = Inr k" using decided [of u v] by (simp add: eval)
    qed
  qed
qed

lemma eval_logic:
  assumes "eval_inner env a = Inr u" and "eval_inner env b = Inr v"
  shows "eval_inner env (logic_expr c a b) =
    Inr (of_bool_i (if c then boolv u \<and> boolv v else boolv u \<or> boolv v))"
  using assms by (simp add: logic_expr_def of_bool_i_def)

lemma of_bool_boolv: "boolean b \<Longrightarrow> contains b u \<Longrightarrow> of_bool_i (boolv u) = u"
  by (auto simp: interval_defs of_bool_i_def boolv_def)

lemma simplify_logic_refines:
  assumes "safe (logic_expr c a b)" and "simplify_logic c a b t = Inr (r, t')"
  shows "refines (logic_expr c a b) r"
proof -
  from assms(1) have s: "safe a" "safe b" and hb: "has_bounds a boolean" "has_bounds b boolean"
    by (auto simp: logic_expr_def split: if_splits)
  from s(1) obtain x where x: "sbounds a = Inr x" "interval x" by (rule safeE)
  from s(2) obtain y where y: "sbounds b = Inr y" "interval y" by (rule safeE)
  from hb x y have b: "boolean x" "boolean y" by (auto simp: has_bounds_iff)
  let ?e = "logic_expr c a b" and ?B = "logic_bounds c x y"
  have B: "sbounds ?e = Inr ?B" using x y by (simp add: logic_expr_def)
  have wb: "within_bounds env a" "within_bounds env b" if "within_bounds env ?e" for env
    using that by (simp_all add: logic_expr_def split: if_splits)
  note vals = operand_values [OF s(1) x(1) s(2) y(1)]
  note LB = logic_bounds_boolean [OF x(2) b(1) y(2) b(2)]
  have vars: "set (collect_variables ?e) = set (collect_variables a) \<union> set (collect_variables b)"
    by (simp add: logic_expr_def)
  have keep_b: "refines ?e b" if "a = b \<or> bmin x = bmax x \<and> boolv (bmin x) = c"
  proof (rule refinesI [OF s(2) _ B y(1)])
    show "tighter y ?B"
      using that x y b by (cases c) (auto simp: LB tighter_def interval_def boolean_def boolv_def)
    fix env
    assume "within_bounds env ?e"
    from vals [OF wb [OF this]] obtain u v where uv: "eval_inner env a = Inr u" "contains x u"
      "eval_inner env b = Inr v" "contains y v" .
    with that show "eval_inner env b = eval_inner env ?e"
      using of_bool_boolv [OF b(2) uv(4)] by (auto simp: eval_logic [OF uv(1,3)] contains_def)
  qed (simp add: vars)
  have keep_a: "refines ?e a" if "bmin y = bmax y \<and> boolv (bmin y) = c"
  proof (rule refinesI [OF s(1) _ B x(1)])
    show "tighter x ?B"
      using that x y b by (cases c) (auto simp: LB tighter_def interval_def boolean_def boolv_def)
    fix env
    assume "within_bounds env ?e"
    from vals [OF wb [OF this]] obtain u v where uv: "eval_inner env a = Inr u" "contains x u"
      "eval_inner env b = Inr v" "contains y v" .
    with that show "eval_inner env a = eval_inner env ?e"
      using of_bool_boolv [OF b(1) uv(2)] by (auto simp: eval_logic [OF uv(1,3)] contains_def)
  qed (simp add: vars)
  have const: "refines ?e (Const k)"
    if k: "boolv k \<noteq> c" "bmin x = bmax x \<and> k = bmin x \<or> bmin y = bmax y \<and> k = bmin y" for k
  proof (rule safe_const_refines [OF assms(1) B])
    have k01: "k = of_bool_i (\<not> c)"
      using k x y b by (auto simp: boolv_def of_bool_i_def boolean_def interval_def)
    show "contains ?B k"
      using k x y b by (cases c) (auto simp: LB contains_def interval_def boolean_def boolv_def)
    fix env
    assume "within_bounds env ?e"
    from vals [OF wb [OF this]] obtain u v where uv: "eval_inner env a = Inr u" "contains x u"
      "eval_inner env b = Inr v" "contains y v" .
    with k have "k = u \<or> k = v" by (auto simp: contains_def)
    with k show "eval_inner env ?e = Inr k" by (auto simp: eval_logic [OF uv(1,3)] k01)
  qed
  have swap: "refines ?e (logic_expr c b a)"
  proof (rule refinesI [OF _ _ B])
    show "safe (logic_expr c b a)" using s hb by (simp add: logic_expr_def)
    show "sbounds (logic_expr c b a) = Inr (logic_bounds c y x)" using x y by (simp add: logic_expr_def)
    show "tighter (logic_bounds c y x) ?B"
      using x y by (cases c)
        (auto simp: LB logic_bounds_boolean [OF y(2) b(2) x(2) b(1)] tighter_def interval_def)
    fix env
    assume "within_bounds env ?e"
    from vals [OF wb [OF this]] obtain u v where uv: "eval_inner env a = Inr u" "contains x u"
      "eval_inner env b = Inr v" "contains y v" .
    then show "eval_inner env (logic_expr c b a) = eval_inner env ?e"
      by (auto simp: eval_logic [OF uv(1,3)] eval_logic [OF uv(3,1)] conj_commute disj_commute)
  qed (auto simp: logic_expr_def)
  note sl = assms(2) [unfolded simplify_logic_def]
  consider "a = b" | "a \<noteq> b" "bmin x = bmax x" | "a \<noteq> b" "bmin x \<noteq> bmax x" "bmin y = bmax y"
    | "a \<noteq> b" "bmin x \<noteq> bmax x" "bmin y \<noteq> bmax y" by blast
  then show ?thesis
  proof cases
    case 1
    with sl keep_b show ?thesis by simp
  next
    case 2
    with sl x have "r = (if boolv (bmin x) = c then b else Const (bmin x))"
      by (auto simp: bounds_constant_def)
    with 2 keep_b const [of "bmin x"] show ?thesis by (cases "boolv (bmin x) = c") simp_all
  next
    case 3
    with sl x y have "r = (if boolv (bmin y) = c then a else Const (bmin y))"
      by (auto simp: bounds_constant_def)
    with 3 keep_a const [of "bmin y"] show ?thesis by (cases "boolv (bmin y) = c") simp_all
  next
    case 4
    with sl x y have "r = (if a \<le> b then ?e else logic_expr c b a)"
      by (simp add: bounds_constant_def)
    with swap refines_refl [OF assms(1)] show ?thesis by simp
  qed
qed

lemma simplify_where_refines:
  assumes "safe (Where c a b)" and "simplify_where c a b t = Inr (r, t')"
  shows "refines (Where c a b) r"
proof -
  from assms(1) have s: "safe c" "safe a" "safe b" and hb: "has_bounds c boolean" by auto
  from s(1) obtain z where z: "sbounds c = Inr z" "interval z" by (rule safeE)
  from s(2) obtain x where x: "sbounds a = Inr x" "interval x" by (rule safeE)
  from s(3) obtain y where y: "sbounds b = Inr y" "interval y" by (rule safeE)
  from hb z have bz: "boolean z" by (simp add: has_bounds_iff)
  have B: "sbounds (Where c a b) = Inr (where_bounds z x y)" using x y z by simp
  have pick: "refines (Where c a b) (if boolv (bmin z) then a else b)"
    if "a = b \<or> bmin z = bmax z"
  proof (rule refinesI [OF _ _ B])
    show "safe (if boolv (bmin z) then a else b)" using s by simp
    show "sbounds (if boolv (bmin z) then a else b) = Inr (if boolv (bmin z) then x else y)"
      using x y by simp
    show "tighter (if boolv (bmin z) then x else y) (where_bounds z x y)"
      using that x y z bz by (auto simp: where_bounds_boolean tighter_def interval_def boolean_def boolv_def)
    fix env
    assume "within_bounds env (Where c a b)"
    then have w: "within_bounds env c" by simp
    from value_of [OF s(1) z(1) w] obtain u where u: "eval_inner env c = Inr u" "contains z u" .
    with that have "a = b \<or> u = bmin z" by (auto simp: contains_def)
    with u show "eval_inner env (if boolv (bmin z) then a else b) = eval_inner env (Where c a b)"
      by auto
  qed auto
  show ?thesis
  proof (cases "a = b")
    case True
    with assms(2) pick show ?thesis by (simp add: simplify_where_def split: if_splits)
  next
    case False
    with assms(2) z have "r = (if bmin z = bmax z then if boolv (bmin z) then a else b else Where c a b)"
      by (simp add: simplify_where_def bounds_constant_def split: if_splits)
    with pick refines_refl [OF assms(1)] show ?thesis by (cases "bmin z = bmax z") (simp_all only: if_True if_False simp_thms)
  qed
qed

lemma div_minus_one_bounds:
  assumes "interval x" and "div_bounds x (Bounds (-1) (-1)) = Inr z"
  shows "neg_bounds x = Inr z"
proof -
  have "interval (Bounds (-1) (-1))" by (simp add: interval_def i64_bounds_eq)
  from div_bounds_Inr [OF assms(1) this assms(2)] assms(1) show ?thesis
    by (auto simp: neg_bounds_Inr list_bounds_4 interval_def i64_bounds_eq)
qed

lemma simplify_divmod_refines:
  assumes "safe (if d then FloorDiv a b else Mod a b)" and "simplify_divmod d a b t = Inr (r, t')"
  shows "refines (if d then FloorDiv a b else Mod a b) r"
proof -
  let ?e = "if d then FloorDiv a b else Mod a b"
  from assms(1) have s: "safe a" "safe b" by (auto split: if_splits)
  from s(1) obtain x where x: "sbounds a = Inr x" "interval x" by (rule safeE)
  from s(2) obtain y where y: "sbounds b = Inr y" "interval y" by (rule safeE)
  from assms(1) obtain z where z: "sbounds ?e = Inr z" by (rule safeE)
  with x y have Z: "(if d then div_bounds x y else mod_bounds x y) = Inr z" by (simp split: if_splits)
  have room: "d \<or> mod_room x z" using assms(1) x z by (auto simp: has_bounds_iff split: if_splits)
  have wb: "within_bounds env a" "within_bounds env b" if "within_bounds env ?e" for env
    using that by (simp_all split: if_splits)
  note vals = operand_values [OF s(1) x(1) s(2) y(1) wb]
  have op': "(if d then floor_div u v else floor_mod u v) = Inr (if d then u div v else u mod v) \<and>
      contains z (if d then u div v else u mod v)" if "contains x u" "contains y v" for u v
    using that Z room x y by (cases d) (auto dest: div_bounds_sound mod_bounds_sound)
  have eval: "eval_inner env ?e = Inr (if d then u div v else u mod v)"
    if "eval_inner env a = Inr u" "contains x u" "eval_inner env b = Inr v" "contains y v" for env u v
    using op' [OF that(2,4)] that by (simp split: if_splits)
  have nz: "v \<noteq> 0" if "contains y v" for v
    using Z that by (auto simp: div_bounds_def mod_bounds_def contains_def split: if_splits)
  have const: "refines ?e (Const k)"
    if "\<And>u v. contains x u \<Longrightarrow> contains y v \<Longrightarrow> a = b \<longrightarrow> u = v \<Longrightarrow> (if d then u div v else u mod v) = k" for k
  proof (rule safe_const_refines [OF assms(1) z])
    have ends: "contains x (bmin x)" "contains y (bmin y)" "a = b \<longrightarrow> bmin x = bmin y"
      using x y by (auto simp: contains_def interval_def)
    show "contains z k" using op' [OF ends(1,2)] that [OF ends] by simp
    fix env
    assume "within_bounds env ?e"
    from vals [OF this this] obtain u v where uv: "eval_inner env a = Inr u" "contains x u"
      "eval_inner env b = Inr v" "contains y v" .
    moreover from uv have "a = b \<longrightarrow> u = v" by auto
    ultimately show "eval_inner env ?e = Inr k" using that [of u v] eval by simp
  qed
  consider (folded) m n where "a = Const m" "b = Const n"
    | (zero) "\<not> d" "b = Const 1 \<or> b = Const (-1) \<or> a = b" "r = Const 0"
    | (one) "d" "b = Const 1" "r = a"
    | (minus) "d" "b = Const (-1)" "r = Neg a"
    | (null) "bmin x = 0" "bmax x = 0" "r = Const 0"
    | (same) "r = ?e"
    using assms(2) x
    by (simp add: simplify_divmod_def bounds_constant_def split: sexpr.splits if_splits)
  then show ?thesis
  proof cases
    case folded
    with x y have xy: "x = Bounds m m" "y = Bounds n n" by simp_all
    with op' [of m n] have "r = Const (if d then m div n else m mod n)"
      using assms(2) folded by (auto simp: simplify_divmod_def contains_def result_simps split: if_splits)
    moreover have "refines ?e (Const (if d then m div n else m mod n))"
      by (rule const) (auto simp: xy contains_def)
    ultimately show ?thesis by simp
  next
    case zero
    have "refines ?e (Const 0)" by (rule const) (use zero y in \<open>auto simp: contains_def\<close>)
    with zero show ?thesis by simp
  next
    case one
    with Z y x have "z = x"
      using div_bounds_Inr(3) [OF x(2) y(2), of z] by (auto simp: list_bounds_4 interval_def bounds.expand)
    have "refines ?e a"
    proof (rule refinesI [OF s(1) _ z x(1)])
      show "tighter x z" using \<open>z = x\<close> x by (simp add: tighter_refl)
      fix env
      assume "within_bounds env ?e"
      from vals [OF this this] obtain u v where uv: "eval_inner env a = Inr u" "contains x u"
        "eval_inner env b = Inr v" "contains y v" .
      with eval [OF uv] one show "eval_inner env a = eval_inner env ?e" by simp
    qed simp
    with one show ?thesis by simp
  next
    case minus
    with y have "y = Bounds (-1) (-1)" by simp
    with Z minus div_minus_one_bounds [OF x(2)] have N: "neg_bounds x = Inr z" by simp
    have "refines ?e (Neg a)"
    proof (rule refinesI [OF _ _ z])
      show "safe (Neg a)" "sbounds (Neg a) = Inr z" using s x N by (simp_all add: has_bounds_iff)
      show "tighter z z" using neg_bounds_sound(1) [OF x(2) N] by (rule tighter_refl)
      fix env
      assume "within_bounds env ?e"
      from vals [OF this this] obtain u v where uv: "eval_inner env a = Inr u" "contains x u"
        "eval_inner env b = Inr v" "contains y v" .
      moreover from uv minus have "u div v = - u" by auto
      ultimately show "eval_inner env (Neg a) = eval_inner env ?e"
        using eval [OF uv] neg_bounds_sound(2) [OF x(2) N uv(2)] minus(1) by simp
    qed (use minus in simp)
    with minus show ?thesis by simp
  next
    case null
    have "refines ?e (Const 0)" by (rule const) (use null in \<open>auto simp: contains_def\<close>)
    with null show ?thesis by simp
  next
    case same
    with refines_refl [OF assms(1)] show ?thesis by simp
  qed
qed


subsection \<open>Products\<close>

lemma list_refines_safe: "list_all2 refines xs ys \<Longrightarrow> list_all safe ys"
  by (induction rule: list_all2_induct) (auto simp: refines_safe)

lemma list_refines_vars:
  "list_all2 refines xs ys \<Longrightarrow>
   set (concat (map collect_variables ys)) \<subseteq> set (concat (map collect_variables xs))"
  by (induction rule: list_all2_induct) (auto dest: refines_vars)

lemma fold_eval_refines:
  "list_all2 refines xs ys \<Longrightarrow> list_all (within_bounds env) xs \<Longrightarrow>
   try_fold (\<lambda>a x. rbind (eval_inner env x) (f a)) s ys =
   try_fold (\<lambda>a x. rbind (eval_inner env x) (f a)) s xs"
proof (induction arbitrary: s rule: list_all2_induct)
  case (Cons x xs y ys)
  then have "eval_inner env y = eval_inner env x" by (simp add: refines_eval)
  with Cons show ?case by (simp cong: rbind_cong)
qed simp

lemma fold_bounds_refines:
  assumes "\<And>a b z a' b'. f a b = Inr z \<Longrightarrow> interval a \<Longrightarrow> interval b \<Longrightarrow> tighter a' a \<Longrightarrow>
      tighter b' b \<Longrightarrow> interval z \<and> (\<exists>z'. f a' b' = Inr z' \<and> tighter z' z)"
  shows "list_all2 refines xs ys \<Longrightarrow> list_all safe xs \<Longrightarrow> interval acc \<Longrightarrow> tighter acc' acc \<Longrightarrow>
    try_fold (\<lambda>a x. rbind (sbounds x) (f a)) acc xs = Inr z \<Longrightarrow>
    \<exists>z'. try_fold (\<lambda>a x. rbind (sbounds x) (f a)) acc' ys = Inr z' \<and> tighter z' z"
proof (induction arbitrary: acc acc' rule: list_all2_induct)
  case Nil
  then show ?case by simp
next
  case (Cons x xs y ys)
  from Cons.prems(1) have "safe x" by simp
  from refines_bounds [OF Cons.hyps(1) this] obtain b b' where b: "sbounds x = Inr b"
    "sbounds y = Inr b'" "tighter b' b" "interval b" .
  from Cons.prems(4) b obtain acc2 where step: "f acc b = Inr acc2"
    and rest: "try_fold (\<lambda>a x. rbind (sbounds x) (f a)) acc2 xs = Inr z"
    by (auto simp: result_simps)
  from assms [OF step Cons.prems(2) b(4) Cons.prems(3) b(3)] obtain acc2' where
    "interval acc2" "f acc' b' = Inr acc2'" "tighter acc2' acc2" by blast
  with Cons.IH [OF _ _ _ rest] Cons.prems(1) b show ?case by simp
qed

lemma refines_mul:
  assumes "list_all2 refines xs ys" and "safe (Mul xs)"
  shows "refines (Mul xs) (Mul ys)"
proof -
  from assms(2) obtain z where z: "sbounds (Mul xs) = Inr z" by (rule safeE)
  have one: "interval (Bounds 1 1)" by (simp add: interval_def i64_bounds_eq)
  have "\<exists>z'. try_fold (\<lambda>a x. rbind (sbounds x) (mul_bounds a)) (Bounds 1 1) ys = Inr z' \<and> tighter z' z"
  proof (rule fold_bounds_refines [OF _ assms(1) _ one tighter_refl [OF one]])
    show "interval z \<and> (\<exists>z'. mul_bounds a' b' = Inr z' \<and> tighter z' z)"
      if "mul_bounds a b = Inr z" "interval a" "interval b" "tighter a' a" "tighter b' b" for a b z a' b'
      using mul_bounds_sound(1) [OF that(2,3,1)] mul_bounds_tighter [OF that] by blast
  qed (use assms(2) z in simp_all)
  then obtain z' where z': "sbounds (Mul ys) = Inr z'" "tighter z' z" by auto
  show ?thesis
    by (rule refinesI [OF _ _ z z'])
       (use z'(1) list_refines_safe [OF assms(1)] list_refines_vars [OF assms(1)]
          fold_eval_refines [OF assms(1)] in \<open>auto simp: has_bounds_iff\<close>)
qed

lemma refines_add:
  assumes "list_all2 refines xs ys" and "safe (Add xs)"
  shows "refines (Add xs) (Add ys)"
proof -
  from assms(2) obtain z where z: "sbounds (Add xs) = Inr z" by (rule safeE)
  have zero: "interval (Bounds 0 0)" by (simp add: interval_def i64_bounds_eq)
  have tight: "\<exists>z'. add_bounds a' b' = Inr z' \<and> tighter z' z"
    if "add_bounds a b = Inr z" "tighter a' a" "tighter b' b" for a b a' b' z
    using that by (auto simp: add_bounds_Inr tighter_def)
  have "\<exists>z'. try_fold (\<lambda>a x. rbind (sbounds x) (add_bounds a)) (Bounds 0 0) ys = Inr z' \<and> tighter z' z"
  proof (rule fold_bounds_refines [OF _ assms(1) _ zero tighter_refl [OF zero]])
    show "interval z \<and> (\<exists>z'. add_bounds a' b' = Inr z' \<and> tighter z' z)"
      if "add_bounds a b = Inr z" "interval a" "interval b" "tighter a' a" "tighter b' b" for a b z a' b'
      using add_bounds_sound(1) [OF that(2,3,1)] tight [OF that(1,4,5)] by blast
  qed (use assms(2) z in simp_all)
  then obtain z' where z': "sbounds (Add ys) = Inr z'" "tighter z' z" by auto
  show ?thesis
    by (rule refinesI [OF _ _ z z'])
       (use z'(1) list_refines_safe [OF assms(1)] list_refines_vars [OF assms(1)]
          fold_eval_refines [OF assms(1)] in \<open>auto simp: has_bounds_iff\<close>)
qed

lemma mul_bounds_one: "interval b \<Longrightarrow> mul_bounds b (Bounds 1 1) = Inr b"
  "interval b \<Longrightarrow> mul_bounds (Bounds 1 1) b = Inr b"
  by (auto simp: mul_bounds_Inr list_bounds_4 interval_def bounds.expand)

lemma mul_one: "in_i64 u \<Longrightarrow> mul u 1 = Inr u" "in_i64 u \<Longrightarrow> mul 1 u = Inr u"
  by (simp_all add: mul_def checked_i64_def)

lemma mul_Inr_in_i64: "mul u v = Inr w \<Longrightarrow> in_i64 w"
  by (auto simp: mul_def result_simps checked_defs)

lemma fold_mul_bounds_drop_ones:
  "list_all safe fs \<Longrightarrow> interval acc \<Longrightarrow>
   try_fold (\<lambda>a x. rbind (sbounds x) (mul_bounds a)) acc (filter (\<lambda>x. x \<noteq> Const 1) fs) =
   try_fold (\<lambda>a x. rbind (sbounds x) (mul_bounds a)) acc fs"
proof (induction fs arbitrary: acc)
  case (Cons x fs)
  then obtain b where b: "sbounds x = Inr b" "interval b" by (auto elim: safeE)
  show ?case
  proof (cases "mul_bounds acc b")
    case (Inr acc')
    then have "interval acc'" using mul_bounds_sound(1) [OF Cons.prems(2) b(2)] by simp
    with Inr b Cons show ?thesis by (auto simp: mul_bounds_one)
  qed (use b Cons.prems(2) in \<open>auto simp: mul_bounds_one\<close>)
qed simp

lemma fold_mul_eval_drop_ones:
  "in_i64 s \<Longrightarrow>
   try_fold (\<lambda>a x. rbind (eval_inner env x) (mul a)) s (filter (\<lambda>x. x \<noteq> Const 1) fs) =
   try_fold (\<lambda>a x. rbind (eval_inner env x) (mul a)) s fs"
proof (induction fs arbitrary: s)
  case (Cons x fs)
  show ?case
  proof (cases "rbind (eval_inner env x) (mul s)")
    case (Inr s')
    then have "in_i64 s'" by (auto simp: result_simps dest: mul_Inr_in_i64)
    with Inr Cons show ?thesis by (auto simp: mul_one)
  qed (use Cons.prems in \<open>auto simp: mul_one\<close>)
qed simp

lemma simplify_product_refines:
  assumes "safe (Mul fs)"
  shows "refines (Mul fs) (simplify_product fs)"
proof -
  let ?gs = "filter (\<lambda>x. x \<noteq> Const 1) fs"
  have fs: "list_all safe fs" using assms by simp
  then have gs: "list_all safe ?gs" by (simp add: list_all_iff)
  from assms obtain z where z: "sbounds (Mul fs) = Inr z" "interval z" by (rule safeE)
  have one: "interval (Bounds 1 1)" by (simp add: interval_def i64_bounds_eq)
  have zg: "sbounds (Mul ?gs) = Inr z"
    using fold_mul_bounds_drop_ones [OF fs one] z by simp
  have eg: "eval_inner env (Mul ?gs) = eval_inner env (Mul fs)" for env
    using fold_mul_eval_drop_ones [of 1] by (simp add: i64_bounds_eq)
  have drop: "refines (Mul fs) (Mul ?gs)"
    by (rule refinesI [OF _ _ z(1) zg])
       (use gs zg eg z in \<open>auto simp: has_bounds_iff tighter_refl\<close>)
  have single: "refines (Mul [x]) x" if x: "safe x" for x
  proof -
    from x obtain b where b: "sbounds x = Inr b" "interval b" by (rule safeE)
    have "eval_inner env x = eval_inner env (Mul [x])" if "within_bounds env (Mul [x])" for env
    proof -
      from that have "within_bounds env x" by simp
      from value_of [OF x b(1) this] obtain u where "eval_inner env x = Inr u" "in_i64 u" .
      then show ?thesis by (simp add: mul_one)
    qed
    then show ?thesis
      by (intro refinesI [OF x _ _ b(1), where b = b]) (use b in \<open>auto simp: mul_bounds_one tighter_refl\<close>)
  qed
  have empty: "refines (Mul []) (Const 1)"
    by (rule refinesI [where b = "Bounds 1 1" and b' = "Bounds 1 1"])
       (auto simp: tighter_def i64_bounds_eq)
  show ?thesis
  proof (cases ?gs)
    case Nil
    with drop empty show ?thesis by (auto simp: simplify_product_def intro: refines_trans)
  next
    case (Cons x xs)
    show ?thesis
    proof (cases xs)
      case Nil
      with Cons gs have "simplify_product fs = x" "safe x" by (simp_all add: simplify_product_def)
      with drop single [of x] Cons Nil show ?thesis by (auto intro: refines_trans)
    next
      case (Cons y ys)
      with \<open>?gs = x # xs\<close> have "simplify_product fs = Mul ?gs" by (simp add: simplify_product_def)
      with drop show ?thesis by simp
    qed
  qed
qed

end
