(* ===== verification/SymbolicSums.thy ===== *)
theory SymbolicSums
  imports SymbolicSimplify
begin

section \<open>Sums, the driver and substitution\<close>

text \<open>
  The reassociation of sums: flattening, folding constants, sorting and combining like terms keep
  the sum of the bounds and of the values, and the guard of the source makes every order of
  summation free of overflow. Then the theorems on one pass, on the driver and on substitution.
\<close>

definition lo :: "sexpr \<Rightarrow> int" where
  "lo e = (case sbounds e of Inr b \<Rightarrow> bmin b | Inl _ \<Rightarrow> 0)"

definition hi :: "sexpr \<Rightarrow> int" where
  "hi e = (case sbounds e of Inr b \<Rightarrow> bmax b | Inl _ \<Rightarrow> 0)"

definition val :: "bindings \<Rightarrow> sexpr \<Rightarrow> int" where
  "val env e = (case eval_inner env e of Inr x \<Rightarrow> x | Inl _ \<Rightarrow> 0)"

definition tot :: "(sexpr \<Rightarrow> int) \<Rightarrow> sexpr list \<Rightarrow> int" where
  "tot f ts = sum_list (map f ts)"

definition pos :: "sexpr \<Rightarrow> int" where "pos e = max 0 (hi e)"

definition negs :: "sexpr \<Rightarrow> int" where "negs e = min 0 (lo e)"

lemma tot_simps [simp]:
  "tot f [] = 0" "tot f (t # ts) = f t + tot f ts" "tot f (ts @ us) = tot f ts + tot f us"
  by (simp_all add: tot_def)

lemma tot_replicate: "tot f (replicate n x) = int n * f x"
  by (induction n) (auto simp: algebra_simps)

lemma tot_pos: "0 \<le> tot pos ts"
  by (induction ts) (auto simp: pos_def)

lemma tot_negs: "tot negs ts \<le> 0"
  by (induction ts) (auto simp: negs_def)

lemma tot_sort: "tot f (sort ts) = tot f ts"
proof -
  have "mset (map f (sort ts)) = mset (map f ts)" by simp
  then show ?thesis unfolding tot_def by (metis sum_mset_sum_list)
qed

lemma safe_lo_hi:
  assumes "safe e"
  shows "sbounds e = Inr (Bounds (lo e) (hi e))" "lo e \<le> hi e" "i64_min \<le> lo e" "hi e \<le> i64_max"
proof -
  from assms obtain b where "sbounds e = Inr b" "interval b" by (rule safeE)
  then show "sbounds e = Inr (Bounds (lo e) (hi e))" "lo e \<le> hi e" "i64_min \<le> lo e" "hi e \<le> i64_max"
    by (simp_all add: lo_def hi_def interval_def)
qed

lemma safe_val:
  assumes "safe e" and "within_bounds env e"
  shows "eval_inner env e = Inr (val env e)" "lo e \<le> val env e" "val env e \<le> hi e"
proof -
  from value_of [OF assms(1) safe_lo_hi(1) [OF assms(1)] assms(2)] obtain x where
    "eval_inner env e = Inr x" "contains (Bounds (lo e) (hi e)) x" .
  then show "eval_inner env e = Inr (val env e)" "lo e \<le> val env e" "val env e \<le> hi e"
    by (simp_all add: val_def contains_def)
qed

subsection \<open>Sums of bounds and values\<close>

lemma fold_add_bounds:
  "list_all safe ts \<Longrightarrow> try_fold (\<lambda>a x. rbind (sbounds x) (add_bounds a)) acc ts = Inr z \<Longrightarrow>
   z = Bounds (bmin acc + tot lo ts) (bmax acc + tot hi ts)"
proof (induction ts arbitrary: acc)
  case Nil
  then show ?case by simp
next
  case (Cons t ts)
  then have t: "sbounds t = Inr (Bounds (lo t) (hi t))" and ts: "list_all safe ts"
    by (auto intro: safe_lo_hi)
  from Cons.prems(2) t obtain acc' where step: "add_bounds acc (Bounds (lo t) (hi t)) = Inr acc'"
    and rest: "try_fold (\<lambda>a x. rbind (sbounds x) (add_bounds a)) acc' ts = Inr z"
    by (auto simp only: try_fold.simps rbind.simps rbind_eq_Inr)
  from Cons.IH [OF ts rest] step show ?case by (simp add: add_bounds_Inr)
qed

lemma fold_add_bounds_fits:
  "list_all safe ts \<Longrightarrow> n \<le> 0 \<Longrightarrow> 0 \<le> p \<Longrightarrow> n \<le> bmin acc \<Longrightarrow> bmin acc \<le> bmax acc \<Longrightarrow> bmax acc \<le> p \<Longrightarrow>
   i64_min \<le> n + tot negs ts \<Longrightarrow> p + tot pos ts \<le> i64_max \<Longrightarrow>
   \<exists>z. try_fold (\<lambda>a x. rbind (sbounds x) (add_bounds a)) acc ts = Inr z"
proof (induction ts arbitrary: acc n p)
  case Nil
  then show ?case by simp
next
  case (Cons t ts)
  let ?acc = "Bounds (bmin acc + lo t) (bmax acc + hi t)"
  from Cons.prems(1) have t: "safe t" and ts: "list_all safe ts" by simp_all
  note b = safe_lo_hi [OF t]
  have n: "n + negs t \<le> bmin ?acc" "n + negs t \<le> 0" and p: "bmax ?acc \<le> p + pos t" "0 \<le> p + pos t"
    using Cons.prems by (auto simp: negs_def pos_def)
  have "i64_min \<le> n + negs t" "p + pos t \<le> i64_max"
    using Cons.prems(7,8) tot_negs [of ts] tot_pos [of ts] by simp_all
  then have "add_bounds acc (Bounds (lo t) (hi t)) = Inr ?acc"
    using n p b(2) Cons.prems(5) by (simp add: add_bounds_Inr)
  moreover have "\<exists>z. try_fold (\<lambda>a x. rbind (sbounds x) (add_bounds a)) ?acc ts = Inr z"
    by (rule Cons.IH [OF ts n(2) p(2) n(1) _ p(1)]) (use Cons.prems b in \<open>simp_all add: algebra_simps\<close>)
  ultimately show ?case using b(1) by simp
qed

lemma fold_add_eval:
  "list_all safe ts \<Longrightarrow> list_all (within_bounds env) ts \<Longrightarrow>
   try_fold (\<lambda>a x. rbind (eval_inner env x) (add a)) s ts = Inr w \<Longrightarrow> w = s + tot (val env) ts"
proof (induction ts arbitrary: s)
  case Nil
  then show ?case by simp
next
  case (Cons t ts)
  then have t: "eval_inner env t = Inr (val env t)" and ts: "list_all safe ts"
    "list_all (within_bounds env) ts" by (auto intro: safe_val)
  from Cons.prems(3) t obtain s' where step: "add s (val env t) = Inr s'"
    and rest: "try_fold (\<lambda>a x. rbind (eval_inner env x) (add a)) s' ts = Inr w"
    by (auto simp only: try_fold.simps rbind.simps rbind_eq_Inr)
  from Cons.IH [OF ts rest] step show ?case by (auto simp: add_def result_simps checked_defs)
qed

lemma sum_bounds:
  assumes "safe (Add ts)"
  shows "sbounds (Add ts) = Inr (Bounds (tot lo ts) (tot hi ts))"
proof -
  from assms obtain z where z: "sbounds (Add ts) = Inr z" by (rule safeE)
  with fold_add_bounds [of ts "Bounds 0 0" z] assms show ?thesis by simp
qed

lemma sum_lo_hi: "safe (Add ts) \<Longrightarrow> lo (Add ts) = tot lo ts \<and> hi (Add ts) = tot hi ts"
  using sum_bounds [of ts] by (simp only: lo_def hi_def) simp

lemma sum_val:
  assumes "safe (Add ts)" and "within_bounds env (Add ts)"
  shows "eval_inner env (Add ts) = Inr (tot (val env) ts)"
proof -
  have "eval_inner env (Add ts) = Inr (val env (Add ts))" by (rule safe_val(1) [OF assms])
  with fold_add_eval [of ts env 0 "val env (Add ts)"] assms show ?thesis by simp
qed

lemma safe_sum:
  assumes "list_all safe ts" and "i64_min \<le> tot negs ts" and "tot pos ts \<le> i64_max"
  shows "safe (Add ts)"
  using fold_add_bounds_fits [of ts 0 0 "Bounds 0 0"] assms by (auto simp: has_bounds_iff)

subsection \<open>Lists with the same sums\<close>

definition equal_sums :: "sexpr list \<Rightarrow> sexpr list \<Rightarrow> bool" where
  "equal_sums ts us \<longleftrightarrow> list_all safe us \<and>
     set (concat (map collect_variables us)) \<subseteq> set (concat (map collect_variables ts)) \<and>
     tot lo us = tot lo ts \<and> tot hi us = tot hi ts \<and>
     (\<forall>env. list_all (within_bounds env) ts \<longrightarrow> tot (val env) us = tot (val env) ts)"

definition no_wider :: "sexpr list \<Rightarrow> sexpr list \<Rightarrow> bool" where
  "no_wider ts us \<longleftrightarrow> tot pos us \<le> tot pos ts \<and> tot negs ts \<le> tot negs us"

lemma within_list:
  "list_all (within_bounds env) ts \<longleftrightarrow> (\<forall>v \<in> set (concat (map collect_variables ts)).
     \<exists>x. map_of env v = Some x \<and> sv_min v \<le> x \<and> x \<le> sv_max v)"
  by (auto simp: list_all_iff within_bounds_def)

lemma equal_sums_within:
  "equal_sums ts us \<Longrightarrow> list_all (within_bounds env) ts \<Longrightarrow> list_all (within_bounds env) us"
  unfolding within_list equal_sums_def by blast

lemma equal_sums_trans:
  assumes "equal_sums ts us" and "equal_sums us ws"
  shows "equal_sums ts ws"
proof -
  have "tot (val env) ws = tot (val env) ts" if "list_all (within_bounds env) ts" for env
    using that equal_sums_within [OF assms(1) that] assms by (simp add: equal_sums_def)
  moreover have "set (concat (map collect_variables ws)) \<subseteq> set (concat (map collect_variables ts))"
    using assms unfolding equal_sums_def by (meson subset_trans)
  ultimately show ?thesis using assms unfolding equal_sums_def by simp
qed

lemma flatten_term_sums: "safe x \<Longrightarrow> equal_sums [x] (flatten_term x)"
proof (cases x)
  case (Add ys)
  assume "safe x"
  then show ?thesis
    using sum_lo_hi [of ys] sum_val [of ys] safe_val(1) [of x] Add
    by (auto simp: equal_sums_def flatten_term_def)
qed (auto simp: equal_sums_def flatten_term_def)

lemma equal_sums_append:
  "equal_sums [x] ys \<Longrightarrow> equal_sums xs zs \<Longrightarrow> equal_sums (x # xs) (ys @ zs)"
  by (auto simp: equal_sums_def)

lemma flatten_sums: "list_all safe xs \<Longrightarrow> equal_sums xs (concat (map flatten_term xs))"
proof (induction xs)
  case Nil
  then show ?case by (simp add: equal_sums_def)
next
  case (Cons x xs)
  then show ?case using equal_sums_append [OF flatten_term_sums] by simp
qed

lemma reassociate_loop_fits:
  "list_all safe ts \<Longrightarrow> in_i64 p \<Longrightarrow> in_i64 n \<Longrightarrow> reassociate_loop ts p n \<Longrightarrow>
   p + tot pos ts \<le> i64_max \<and> i64_min \<le> n + tot negs ts"
proof (induction ts arbitrary: p n)
  case Nil
  then show ?case by simp
next
  case (Cons t ts)
  from Cons.prems have t: "safe t" and ts: "list_all safe ts" by simp_all
  note b = safe_lo_hi [OF t]
  let ?p = "if 0 < hi t then p + hi t else p" and ?n = "if lo t < 0 then n + lo t else n"
  from Cons.prems(4) b(1) have fit: "in_i64 ?p" "in_i64 ?n" and rest: "reassociate_loop ts ?p ?n"
    using Cons.prems(2,3) by (auto simp: checked_defs split: if_splits)
  have "?p = p + pos t" "?n = n + negs t" by (auto simp: pos_def negs_def)
  with Cons.IH [OF ts fit rest] show ?case by simp
qed


subsection \<open>Folding constants\<close>

lemma const_sums [simp]: "lo (Const c) = c" "hi (Const c) = c" "val env (Const c) = c"
  "pos (Const c) = max 0 c" "negs (Const c) = min 0 c"
  by (simp_all add: lo_def hi_def val_def pos_def negs_def)

lemma fold_constants_step:
  "fold_constants (t # ts) c = Inr (c', rest) \<Longrightarrow>
   (\<exists>v. t = Const v \<and> in_i64 (c + v) \<and> fold_constants ts (c + v) = Inr (c', rest)) \<or>
   (\<exists>rest'. rest = t # rest' \<and> fold_constants ts c = Inr (c', rest'))"
  by (cases t) (auto simp: result_simps add_def checked_defs)

lemma fold_constants_sums:
  "fold_constants ts c = Inr (c', rest) \<Longrightarrow> in_i64 c \<Longrightarrow> list_all safe ts \<Longrightarrow>
   in_i64 c' \<and> list_all safe rest \<and>
   set (concat (map collect_variables rest)) \<subseteq> set (concat (map collect_variables ts)) \<and>
   c' + tot lo rest = c + tot lo ts \<and> c' + tot hi rest = c + tot hi ts \<and>
   (\<forall>env. c' + tot (val env) rest = c + tot (val env) ts) \<and>
   max 0 c' + tot pos rest \<le> max 0 c + tot pos ts \<and>
   min 0 c + tot negs ts \<le> min 0 c' + tot negs rest"
proof (induction ts arbitrary: c rest)
  case Nil
  then show ?case by simp
next
  case (Cons t ts)
  from Cons.prems(3) have ts: "list_all safe ts" by simp
  from fold_constants_step [OF Cons.prems(1)] show ?case
  proof
    assume "\<exists>v. t = Const v \<and> in_i64 (c + v) \<and> fold_constants ts (c + v) = Inr (c', rest)"
    then obtain v where v: "t = Const v" "in_i64 (c + v)" "fold_constants ts (c + v) = Inr (c', rest)" by blast
    from Cons.IH [OF v(3,2) ts] v(1) show ?thesis by (auto simp: algebra_simps)
  next
    assume "\<exists>rest'. rest = t # rest' \<and> fold_constants ts c = Inr (c', rest')"
    then obtain rest' where r: "rest = t # rest'" "fold_constants ts c = Inr (c', rest')" by blast
    from Cons.IH [OF r(2) Cons.prems(2) ts] Cons.prems(3) r(1) show ?thesis
      by (auto simp: algebra_simps)
  qed
qed

lemma folded_list_sums:
  assumes "fold_constants ts 0 = Inr (c, rest)" and "list_all safe ts"
  shows "equal_sums ts (rest @ (if c \<noteq> 0 then [Const c] else []))"
    and "no_wider ts (rest @ (if c \<noteq> 0 then [Const c] else []))"
  using fold_constants_sums [OF assms(1) _ assms(2)]
  by (auto simp: equal_sums_def no_wider_def i64_bounds_eq add.commute)

lemma sort_sums:
  assumes "equal_sums ts us" and "no_wider ts us"
  shows "equal_sums ts (sort us)" and "no_wider ts (sort us)"
  using assms by (auto simp: equal_sums_def no_wider_def tot_sort list_all_iff)

subsection \<open>Combining like terms\<close>

lemma scaled_term:
  assumes "safe x" and "1 \<le> c" and "in_i64 c" and "i64_min \<le> c * negs x" and "c * pos x \<le> i64_max"
  shows "safe (Mul [Const c, x])" and "lo (Mul [Const c, x]) = c * lo x"
    and "hi (Mul [Const c, x]) = c * hi x"
    and "within_bounds env x \<Longrightarrow> val env (Mul [Const c, x]) = c * val env x"
proof -
  note b = safe_lo_hi [OF assms(1)]
  have mono: "c * lo x \<le> c * hi x" using b(2) assms(2) by simp
  have fits: "i64_min \<le> c * lo x" "c * hi x \<le> i64_max"
  proof -
    have "c * negs x \<le> c * lo x" "c * hi x \<le> c * pos x"
      using assms(2) by (auto simp: negs_def pos_def intro: mult_left_mono)
    with assms(4,5) show "i64_min \<le> c * lo x" "c * hi x \<le> i64_max" by linarith+
  qed
  have ci: "interval (Bounds c c)" using assms(3) by (simp add: interval_def)
  have "mul_bounds (Bounds c c) (Bounds (lo x) (hi x)) = Inr (Bounds (c * lo x) (c * hi x))"
    using fits mono by (auto simp: mul_bounds_Inr list_bounds_4)
  then have B: "sbounds (Mul [Const c, x]) = Inr (Bounds (c * lo x) (c * hi x))"
    using b(1) mul_bounds_one(2) [OF ci] by simp
  then show s: "safe (Mul [Const c, x])" using assms by (simp add: has_bounds_iff)
  show "lo (Mul [Const c, x]) = c * lo x" "hi (Mul [Const c, x]) = c * hi x"
    using B by (simp_all only: lo_def hi_def sum.case bounds.sel)
  assume w: "within_bounds env x"
  have m: "mul 1 c = Inr c" using mul_one(2) assms(3) by blast
  from safe_val(1) [OF s, of env] safe_val(1) [OF assms(1) w] w
  have "mul c (val env x) = Inr (val env (Mul [Const c, x]))"
    by (simp add: m result_simps)
  then show "val env (Mul [Const c, x]) = c * val env x"
    by (auto simp: mul_def result_simps checked_defs)
qed

lemma run_split:
  "takeWhile (\<lambda>y. y = x) xs = replicate (length (takeWhile (\<lambda>y. y = x) xs)) x"
  by (induction xs) auto

lemma tot_run:
  "tot f (x # xs) = int (1 + length (takeWhile (\<lambda>y. y = x) xs)) * f x + tot f (dropWhile (\<lambda>y. y = x) xs)"
proof -
  have "tot f xs = tot f (takeWhile (\<lambda>y. y = x) xs) + tot f (dropWhile (\<lambda>y. y = x) xs)"
    by (metis takeWhile_dropWhile_id tot_simps(3))
  also have "tot f (takeWhile (\<lambda>y. y = x) xs) = int (length (takeWhile (\<lambda>y. y = x) xs)) * f x"
    by (metis run_split tot_replicate)
  finally show ?thesis by (simp add: algebra_simps)
qed

lemma list_all_dropWhile: "list_all P xs \<Longrightarrow> list_all P (dropWhile Q xs)"
  by (auto simp: list_all_iff dest: set_dropWhileD)

lemma scaled_max: "(0 :: int) \<le> c \<Longrightarrow> max 0 (c * a) = c * max 0 a" "0 \<le> c \<Longrightarrow> min 0 (c * a) = c * min 0 a"
  by (auto simp: max_def min_def mult_le_0_iff zero_le_mult_iff)

lemma combine_head:
  assumes "safe x" and "list_all safe xs" and "i64_min \<le> tot negs (x # xs)" and "tot pos (x # xs) \<le> i64_max"
    and "c = int (1 + length (takeWhile (\<lambda>y. y = x) xs))" and "in_i64 c"
    and "equal_sums (dropWhile (\<lambda>y. y = x) xs) ys" and "no_wider (dropWhile (\<lambda>y. y = x) xs) ys"
  shows "equal_sums (x # xs) (Mul [Const c, x] # ys) \<and> no_wider (x # xs) (Mul [Const c, x] # ys)"
proof -
  let ?r = "dropWhile (\<lambda>y. y = x) xs"
  note run = tot_run [of _ x xs, folded assms(5)]
  have c: "1 \<le> c" using assms(5) by simp
  have bounds: "i64_min \<le> c * negs x" "c * pos x \<le> i64_max"
    using assms(3,4) run [of negs] run [of pos] tot_negs [of ?r] tot_pos [of ?r] by linarith+
  note m = scaled_term [OF assms(1) c assms(6) bounds]
  have pn: "pos (Mul [Const c, x]) = c * pos x" "negs (Mul [Const c, x]) = c * negs x"
    unfolding pos_def negs_def m(2,3) using c by (simp_all only: scaled_max)
  have vars: "set (concat (map collect_variables ?r)) \<subseteq> set (concat (map collect_variables xs))"
    by (auto dest: set_dropWhileD)
  have "tot (val env) (Mul [Const c, x] # ys) = tot (val env) (x # xs)"
    if w: "list_all (within_bounds env) (x # xs)" for env
  proof -
    from w have "within_bounds env x" "list_all (within_bounds env) ?r"
      by (simp_all add: list_all_dropWhile)
    with m(4) assms(7) show ?thesis unfolding run by (simp add: equal_sums_def)
  qed
  moreover have "set (concat (map collect_variables (Mul [Const c, x] # ys))) \<subseteq>
      set (concat (map collect_variables (x # xs)))"
  proof -
    from vars assms(7) have "set (concat (map collect_variables ys)) \<subseteq> set (concat (map collect_variables xs))"
      unfolding equal_sums_def by (meson subset_trans)
    then show ?thesis by auto
  qed
  ultimately have "equal_sums (x # xs) (Mul [Const c, x] # ys)"
    using m(1-3) assms(7) run [of lo] run [of hi] unfolding equal_sums_def by simp
  moreover have "no_wider (x # xs) (Mul [Const c, x] # ys)"
    using assms(8) run [of pos] run [of negs] unfolding no_wider_def by (simp add: pn)
  ultimately show ?thesis ..
qed

lemma combine_like_terms_sums:
  "combine_like_terms ts t = Inr (us, t') \<Longrightarrow> list_all safe ts \<Longrightarrow> i64_min \<le> tot negs ts \<Longrightarrow>
   tot pos ts \<le> i64_max \<Longrightarrow> equal_sums ts us \<and> no_wider ts us"
proof (induction ts t arbitrary: us t' rule: combine_like_terms.induct)
  case (1 t)
  then show ?case by (simp add: equal_sums_def no_wider_def)
next
  case (2 x xs t)
  let ?n = "length (takeWhile (\<lambda>y. y = x) xs)" and ?r = "dropWhile (\<lambda>y. y = x) xs"
  from 2(4) have x: "safe x" and xs: "list_all safe xs" and r: "list_all safe ?r"
    by (simp_all add: list_all_dropWhile)
  note run = tot_run [of _ x xs]
  have n: "int (1 + ?n) * negs x \<le> 0" "0 \<le> int (1 + ?n) * pos x"
    by (simp_all add: negs_def pos_def mult_le_0_iff zero_le_mult_iff)
  have fit: "i64_min \<le> tot negs ?r" "tot pos ?r \<le> i64_max"
    using 2(5,6) run [of negs] run [of pos] n by linarith+
  show ?case
  proof (cases "1 + ?n = 1")
    case True
    with 2(3) obtain ys where ys: "combine_like_terms ?r t = Inr (ys, t')" "us = x # ys"
      by (auto simp: result_simps Let_def)
    have IH: "equal_sums ?r ys \<and> no_wider ?r ys"
      by (rule 2(1) [OF refl refl True ys(1) r fit])
    have "?r = xs" using True by (metis add_right_imp_eq add.commute append_Nil length_0_conv plus_nat.add_0 takeWhile_dropWhile_id)
    with IH ys x show ?thesis by (auto simp: equal_sums_def no_wider_def)
  next
    case False
    with 2(3) obtain c ys where c: "c = int (1 + ?n)" "in_i64 c"
      and ys: "combine_like_terms ?r (t @ [''combine-like-terms'']) = Inr (ys, t')"
      and us: "us = Mul [Const c, x] # ys"
      by (auto simp: result_simps Let_def checked_defs)
    have IH: "equal_sums ?r ys \<and> no_wider ?r ys"
      by (rule 2(2) [OF refl refl False _ ys r fit, of c]) (use c in \<open>simp add: result_simps checked_defs\<close>)
    with combine_head [OF x xs 2(5,6) c] us show ?thesis by simp
  qed
qed


subsection \<open>The sum rule\<close>

lemma equal_sums_refines:
  assumes "safe (Add ts)" and "equal_sums ts us" and "safe e"
    and "lo e = tot lo us" and "hi e = tot hi us"
    and "\<And>env. list_all (within_bounds env) us \<Longrightarrow> val env e = tot (val env) us"
    and "set (collect_variables e) \<subseteq> set (concat (map collect_variables us))"
  shows "refines (Add ts) e"
proof (rule refinesI [OF assms(3) _ sum_bounds [OF assms(1)] safe_lo_hi(1) [OF assms(3)]])
  have sub: "set (concat (map collect_variables us)) \<subseteq> set (concat (map collect_variables ts))"
    using assms(2) by (simp add: equal_sums_def)
  then show "set (collect_variables e) \<subseteq> set (collect_variables (Add ts))"
    using assms(7) by (metis collect_variables.simps(3) subset_trans)
  show "tighter (Bounds (lo e) (hi e)) (Bounds (tot lo ts) (tot hi ts))"
    using assms(2,4,5) safe_lo_hi(2) [OF assms(3)] by (simp add: equal_sums_def tighter_def)
  fix env
  assume w: "within_bounds env (Add ts)"
  then have ts: "list_all (within_bounds env) ts" by simp
  note us = equal_sums_within [OF assms(2) ts]
  have "within_bounds env e"
    using us assms(7) unfolding within_list within_bounds_def by blast
  from safe_val(1) [OF assms(3) this] assms(6) [OF us] sum_val [OF assms(1) w] ts assms(2)
  show "eval_inner env e = eval_inner env (Add ts)" by (simp add: equal_sums_def)
qed

lemma simplify_sum_refines:
  assumes "safe (Add direct)" and "simplify_sum direct t = Inr (r, t')"
  shows "refines (Add direct) r"
proof -
  let ?flat = "concat (map flatten_term direct)"
  have ds: "list_all safe direct" using assms(1) by simp
  note flat = flatten_sums [OF ds]
  then have sf: "list_all safe ?flat" by (simp add: equal_sums_def)
  show ?thesis
  proof (cases "safe_to_reassociate_addition ?flat")
    case False
    with assms show ?thesis by (auto simp: simplify_sum_def Let_def intro: refines_refl)
  next
    case True
    then have fit: "tot pos ?flat \<le> i64_max" "i64_min \<le> tot negs ?flat"
      using reassociate_loop_fits [OF sf, of 0 0]
      by (auto simp: safe_to_reassociate_addition_def i64_bounds_eq)
    from assms(2) True obtain c rest us t2 where
      fc: "fold_constants ?flat 0 = Inr (c, rest)"
      and cl: "combine_like_terms (sort (rest @ (if c \<noteq> 0 then [Const c] else []))) t = Inr (us, t2)"
      and res: "(case us of [] \<Rightarrow> (Const 0, t2) | [x] \<Rightarrow> (x, t2 @ [''identity'']) | _ \<Rightarrow> (Add us, t2)) = (r, t')"
      by (auto simp: simplify_sum_def Let_def result_simps)
    from res have r: "r = (case us of [] \<Rightarrow> Const 0 | [x] \<Rightarrow> x | _ \<Rightarrow> Add us)"
      by (auto split: list.splits)
    let ?sorted = "sort (rest @ (if c \<noteq> 0 then [Const c] else []))"
    note s = sort_sums [OF folded_list_sums [OF fc sf]]
    have "list_all safe ?sorted" "i64_min \<le> tot negs ?sorted" "tot pos ?sorted \<le> i64_max"
      using s fit by (auto simp: equal_sums_def no_wider_def)
    from combine_like_terms_sums [OF cl this] have
      eq: "equal_sums ?sorted us" and fit_us: "i64_min \<le> tot negs us" "tot pos us \<le> i64_max"
      using s fit by (auto simp: no_wider_def)
    have us: "equal_sums direct us"
      using equal_sums_trans [OF flat equal_sums_trans [OF s(1) eq]] .
    then have safe_us: "list_all safe us" by (simp add: equal_sums_def)
    consider "us = []" | x where "us = [x]" | x y zs where "us = x # y # zs"
      by (cases us rule: remdups_adj.cases) auto
    then show ?thesis
    proof cases
      case 1
      with r show ?thesis
        by (intro equal_sums_refines [OF assms(1) us]) (simp_all add: i64_bounds_eq)
    next
      case 2
      with r safe_us show ?thesis
        by (intro equal_sums_refines [OF assms(1) us]) simp_all
    next
      case 3
      with r have r: "r = Add us" by simp
      have sa: "safe (Add us)" by (rule safe_sum [OF safe_us fit_us])
      have "val env (Add us) = tot (val env) us" if "list_all (within_bounds env) us" for env
        using sum_val [OF sa, of env] that by (simp add: val_def)
      with sa sum_lo_hi [OF sa] show ?thesis
        unfolding r by (intro equal_sums_refines [OF assms(1) us]) simp_all
    qed
  qed
qed

subsection \<open>One pass and the driver\<close>

lemma pass_binary:
  assumes "refines (f a b) (f a' b')" and "safe (f a' b') \<Longrightarrow> refines (f a' b') r"
  shows "refines (f a b) r"
  using assms refines_safe refines_trans by blast

lemma simplify_once_refines:
  "simplify_once e t = Inr (e', t') \<Longrightarrow> safe e \<Longrightarrow> refines e e'"
  "simplify_list es t = Inr (es', t') \<Longrightarrow> list_all safe es \<Longrightarrow> list_all2 refines es es'"
proof (induction e t and es t arbitrary: e' t' and es' t' rule: simplify_once_simplify_list.induct)
  case (1 x t)
  then show ?case by (auto intro: refines_refl)
next
  case (2 v t)
  then show ?case by (auto intro: refines_refl)
next
  case (3 a t)
  from 3(2) obtain a1 t1 where a: "simplify_once a t = Inr (a1, t1)"
    and r: "simplify_neg a1 t1 = Inr (e', t')" by (auto simp: result_simps)
  have "refines a a1" using 3(1) [OF a] 3(3) by simp
  from pass_binary [of "\<lambda>_. Neg", OF refines_neg [OF this 3(3)] simplify_neg_refines [OF _ r]] show ?case .
next
  case (4 xs t)
  from 4(2) obtain ys t1 where ys: "simplify_list xs t = Inr (ys, t1)"
    and r: "simplify_sum ys t1 = Inr (e', t')" by (auto simp: result_simps)
  have "list_all2 refines xs ys" using 4(1) [OF ys] 4(3) by simp
  from refines_add [OF this 4(3)] simplify_sum_refines [OF _ r] show ?case
    using refines_safe refines_trans by blast
next
  case (5 xs t)
  from 5(2) obtain ys t1 where ys: "simplify_list xs t = Inr (ys, t1)"
    and r: "e' = simplify_product ys" by (auto simp: result_simps)
  have "list_all2 refines xs ys" using 5(1) [OF ys] 5(3) by simp
  from refines_mul [OF this 5(3)] simplify_product_refines [of ys] r show ?case
    using refines_safe refines_trans by blast
next
  case (6 a b t)
  from 6(3) obtain a1 t1 b1 t2 where a: "simplify_once a t = Inr (a1, t1)"
    and b: "simplify_once b t1 = Inr (b1, t2)" and r: "simplify_divmod True a1 b1 t2 = Inr (e', t')"
    by (auto simp: result_simps)
  have "refines a a1" "refines b b1" using 6(1) [OF a] 6(2) [OF a refl b] 6(4) by simp_all
  from pass_binary [of FloorDiv, OF refines_floor_div [OF this 6(4)]]
    simplify_divmod_refines [OF _ r] show ?case by simp
next
  case (7 a b t)
  from 7(3) obtain a1 t1 b1 t2 where a: "simplify_once a t = Inr (a1, t1)"
    and b: "simplify_once b t1 = Inr (b1, t2)" and r: "simplify_divmod False a1 b1 t2 = Inr (e', t')"
    by (auto simp: result_simps)
  have "refines a a1" "refines b b1" using 7(1) [OF a] 7(2) [OF a refl b] 7(4) by simp_all
  from pass_binary [of Mod, OF refines_mod [OF this 7(4)]]
    simplify_divmod_refines [OF _ r] show ?case by simp
next
  case (8 a b t)
  from 8(3) obtain a1 t1 b1 t2 where a: "simplify_once a t = Inr (a1, t1)"
    and b: "simplify_once b t1 = Inr (b1, t2)" and r: "simplify_minmax True a1 b1 t2 = Inr (e', t')"
    by (auto simp: result_simps)
  have s: "safe a" "safe b" and ab: "refines a a1" "refines b b1"
    using 8(1) [OF a] 8(2) [OF a refl b] 8(4) by simp_all
  from pass_binary [of MinE, OF refines_minmax(1) [OF ab s]]
    simplify_minmax_refines [OF refines_safe [OF ab(1)] refines_safe [OF ab(2)] r] show ?case by simp
next
  case (9 a b t)
  from 9(3) obtain a1 t1 b1 t2 where a: "simplify_once a t = Inr (a1, t1)"
    and b: "simplify_once b t1 = Inr (b1, t2)" and r: "simplify_minmax False a1 b1 t2 = Inr (e', t')"
    by (auto simp: result_simps)
  have s: "safe a" "safe b" and ab: "refines a a1" "refines b b1"
    using 9(1) [OF a] 9(2) [OF a refl b] 9(4) by simp_all
  from pass_binary [of MaxE, OF refines_minmax(2) [OF ab s]]
    simplify_minmax_refines [OF refines_safe [OF ab(1)] refines_safe [OF ab(2)] r] show ?case by simp
next
  case (10 a b t)
  from 10(3) obtain a1 t1 b1 t2 where a: "simplify_once a t = Inr (a1, t1)"
    and b: "simplify_once b t1 = Inr (b1, t2)" and r: "simplify_compare CmpEq a1 b1 t2 = Inr (e', t')"
    by (auto simp: result_simps)
  have s: "safe a" "safe b" and ab: "refines a a1" "refines b b1"
    using 10(1) [OF a] 10(2) [OF a refl b] 10(4) by simp_all
  from pass_binary [of EqE, OF refines_compare(1) [OF ab s]]
    simplify_compare_refines [OF refines_safe [OF ab(1)] refines_safe [OF ab(2)] r] show ?case by simp
next
  case (11 a b t)
  from 11(3) obtain a1 t1 b1 t2 where a: "simplify_once a t = Inr (a1, t1)"
    and b: "simplify_once b t1 = Inr (b1, t2)" and r: "simplify_compare CmpLt a1 b1 t2 = Inr (e', t')"
    by (auto simp: result_simps)
  have s: "safe a" "safe b" and ab: "refines a a1" "refines b b1"
    using 11(1) [OF a] 11(2) [OF a refl b] 11(4) by simp_all
  from pass_binary [of Lt, OF refines_compare(2) [OF ab s]]
    simplify_compare_refines [OF refines_safe [OF ab(1)] refines_safe [OF ab(2)] r] show ?case by simp
next
  case (12 a b t)
  from 12(3) obtain a1 t1 b1 t2 where a: "simplify_once a t = Inr (a1, t1)"
    and b: "simplify_once b t1 = Inr (b1, t2)" and r: "simplify_compare CmpLe a1 b1 t2 = Inr (e', t')"
    by (auto simp: result_simps)
  have s: "safe a" "safe b" and ab: "refines a a1" "refines b b1"
    using 12(1) [OF a] 12(2) [OF a refl b] 12(4) by simp_all
  from pass_binary [of Le, OF refines_compare(3) [OF ab s]]
    simplify_compare_refines [OF refines_safe [OF ab(1)] refines_safe [OF ab(2)] r] show ?case by simp
next
  case (13 a b t)
  from 13(3) obtain a1 t1 b1 t2 where a: "simplify_once a t = Inr (a1, t1)"
    and b: "simplify_once b t1 = Inr (b1, t2)" and r: "simplify_logic True a1 b1 t2 = Inr (e', t')"
    by (auto simp: result_simps)
  have ab: "refines a a1" "refines b b1" using 13(1) [OF a] 13(2) [OF a refl b] 13(4) by simp_all
  have e: "And a b = logic_expr True a b" by (simp add: logic_expr_def)
  show ?case unfolding e
    by (rule pass_binary [of "logic_expr True", OF refines_logic [OF ab] simplify_logic_refines [OF _ r]])
       (use 13(4) e in simp_all)
next
  case (14 a b t)
  from 14(3) obtain a1 t1 b1 t2 where a: "simplify_once a t = Inr (a1, t1)"
    and b: "simplify_once b t1 = Inr (b1, t2)" and r: "simplify_logic False a1 b1 t2 = Inr (e', t')"
    by (auto simp: result_simps)
  have ab: "refines a a1" "refines b b1" using 14(1) [OF a] 14(2) [OF a refl b] 14(4) by simp_all
  have e: "Or a b = logic_expr False a b" by (simp add: logic_expr_def)
  show ?case unfolding e
    by (rule pass_binary [of "logic_expr False", OF refines_logic [OF ab] simplify_logic_refines [OF _ r]])
       (use 14(4) e in simp_all)
next
  case (15 a t)
  from 15(2) obtain a1 t1 where a: "simplify_once a t = Inr (a1, t1)" and r: "e' = simplify_not a1"
    by (auto simp: result_simps)
  have "refines a a1" using 15(1) [OF a] 15(3) by simp
  from pass_binary [of "\<lambda>_. NotE", OF refines_not [OF this 15(3)] simplify_not_refines] r show ?case by simp
next
  case (16 c a b t)
  from 16(4) obtain c1 t1 a1 t2 b1 t3 where c: "simplify_once c t = Inr (c1, t1)"
    and a: "simplify_once a t1 = Inr (a1, t2)" and b: "simplify_once b t2 = Inr (b1, t3)"
    and r: "simplify_where c1 a1 b1 t3 = Inr (e', t')"
    by (auto simp: result_simps)
  have "refines c c1" "refines a a1" "refines b b1"
    using 16(1) [OF c] 16(2) [OF c refl a] 16(3) [OF c refl a refl b] 16(5) by simp_all
  from pass_binary [of "\<lambda>_. Where c1 a1", OF _ simplify_where_refines [OF _ r]]
    refines_where [OF this 16(5)] show ?case
    using refines_safe refines_trans simplify_where_refines [OF _ r] by blast
next
  case (17 t)
  then show ?case by simp
next
  case (18 x xs t)
  from 18(3) obtain y t1 ys where y: "simplify_once x t = Inr (y, t1)"
    and ys: "simplify_list xs t1 = Inr (ys, t')" and r: "es' = y # ys"
    by (auto simp: result_simps)
  from 18(1) [OF y] 18(2) [OF y refl ys] 18(4) r show ?case by simp
qed

lemma simplify_loop_step:
  assumes "simplify_loop (Suc n) e t = Inr s"
  obtains e1 t1 where "simplify_once e t = Inr (e1, t1)"
    and "e1 = e \<and> sim_expression s = e \<or> simplify_loop n e1 t1 = Inr s"
  using assms by (auto simp: result_simps split: if_splits)

lemma simplify_loop_refines:
  "simplify_loop n e t = Inr s \<Longrightarrow> safe e \<Longrightarrow> refines e (sim_expression s)"
proof (induction n arbitrary: e t)
  case (Suc n)
  from Suc.prems(1) obtain e1 t1 where step: "simplify_once e t = Inr (e1, t1)"
    and rest: "e1 = e \<and> sim_expression s = e \<or> simplify_loop n e1 t1 = Inr s"
    by (rule simplify_loop_step)
  have r: "refines e e1" by (rule simplify_once_refines(1) [OF step Suc.prems(2)])
  from rest show ?case
  proof
    assume "simplify_loop n e1 t1 = Inr s"
    from refines_trans [OF r Suc.IH [OF this refines_safe [OF r]]] show ?thesis .
  qed (use r in simp)
qed simp

subsection \<open>The trace does not steer the simplifier\<close>

definition untraced :: "'a traced \<Rightarrow> (symbolic_error, 'a) result" where
  "untraced r = map_sum id fst r"

lemma untraced_simps [simp]: "untraced (Inl e) = Inl e" "untraced (Inr p) = Inr (fst p)"
  by (simp_all add: untraced_def)

lemma untraced_rbind:
  assumes "\<And>a t. untraced (f a t) = g a"
  shows "untraced (rbind r (\<lambda>(a, t). f a t)) = rbind (untraced r) g"
  using assms by (cases r) (auto split: prod.splits)

lemma untraced_rbind_value: "untraced (rbind r f) = rbind r (\<lambda>x. untraced (f x))"
  by (cases r) auto

definition trace_free :: "(trace \<Rightarrow> 'a traced) \<Rightarrow> bool" where
  "trace_free f \<longleftrightarrow> (\<forall>t t'. untraced (f t) = untraced (f t'))"

lemma trace_freeI: "(\<And>t. untraced (f t) = r) \<Longrightarrow> trace_free f"
  by (simp add: trace_free_def)

lemma trace_free_rbind:
  assumes "trace_free r" and "\<And>a. trace_free (f a)"
  shows "trace_free (\<lambda>t. rbind (r t) (\<lambda>(a, t). f a t))"
proof (rule trace_freeI)
  fix t
  have "untraced (rbind (r t) (\<lambda>(a, t). f a t)) = rbind (untraced (r t)) (\<lambda>a. untraced (f a []))"
    by (rule untraced_rbind) (use assms(2) in \<open>simp add: trace_free_def\<close>)
  also have "untraced (r t) = untraced (r [])" using assms(1) by (simp add: trace_free_def)
  finally show "untraced (rbind (r t) (\<lambda>(a, t). f a t)) = rbind (untraced (r [])) (\<lambda>a. untraced (f a []))" .
qed

lemma trace_free_value: "(\<And>x. trace_free (f x)) \<Longrightarrow> trace_free (\<lambda>t. rbind r (\<lambda>x. f x t))"
  by (cases r) (auto simp: trace_free_def)

lemma trace_free_combine: "trace_free (combine_like_terms ts)"
proof (induction ts rule: length_induct)
  case (1 ts)
  show ?case
  proof (cases ts)
    case Nil
    then show ?thesis by (simp add: trace_free_def)
  next
    case (Cons x xs)
    have "length (dropWhile (\<lambda>y. y = x) xs) < length ts"
      using Cons by (simp add: length_dropWhile_le le_imp_less_Suc)
    with 1 have IH: "trace_free (combine_like_terms (dropWhile (\<lambda>y. y = x) xs))" by blast
    have more: "trace_free (\<lambda>t. combine_like_terms (dropWhile (\<lambda>y. y = x) xs) (t @ u))" for u
      using IH by (simp add: trace_free_def)
    have one: "trace_free (\<lambda>t. rbind (combine_like_terms (dropWhile (\<lambda>y. y = x) xs) t)
        (\<lambda>(ys, t'). Inr (x # ys, t')))"
      by (rule trace_free_rbind [OF IH]) (simp add: trace_free_def)
    have many: "trace_free (\<lambda>t. rbind (combine_like_terms (dropWhile (\<lambda>y. y = x) xs) (t @ u))
        (\<lambda>(ys, t'). Inr (Mul [Const c, x] # ys, t')))" for c u
      by (rule trace_free_rbind [OF more]) (simp add: trace_free_def)
    show ?thesis
    proof (cases "takeWhile (\<lambda>y. y = x) xs = []")
      case True
      with one Cons show ?thesis by (simp add: Let_def)
    next
      case False
      with trace_free_value [OF many] Cons show ?thesis by (simp add: Let_def)
    qed
  qed
qed

lemma trace_free_rules:
  "trace_free (simplify_neg a)" "trace_free (simplify_divmod d a b)" "trace_free (simplify_minmax m a b)"
  "trace_free (simplify_compare c a b)" "trace_free (simplify_logic l a b)" "trace_free (simplify_where a b e)"
  by (auto simp: trace_free_def simplify_neg_def simplify_divmod_def simplify_minmax_def
      simplify_compare_def simplify_logic_def simplify_where_def untraced_rbind_value
      split: sexpr.splits option.splits intro!: rbind_cong)

lemma trace_free_sum: "trace_free (simplify_sum ds)"
proof -
  let ?flat = "concat (map flatten_term ds)"
  have step: "trace_free (\<lambda>t. rbind (combine_like_terms ts t) (\<lambda>(combined, t').
      Inr (case combined of [] \<Rightarrow> (Const 0, t') | [x] \<Rightarrow> (x, t' @ [''identity'']) | _ \<Rightarrow> (Add combined, t'))))" for ts
    by (rule trace_free_rbind [OF trace_free_combine]) (simp add: trace_free_def split: list.splits)
  have "trace_free (\<lambda>t. rbind (fold_constants ?flat 0) (\<lambda>(constant, non_constants).
      rbind (combine_like_terms (sort (non_constants @ (if constant \<noteq> 0 then [Const constant] else []))) t)
        (\<lambda>(combined, t'). Inr (case combined of [] \<Rightarrow> (Const 0, t') | [x] \<Rightarrow> (x, t' @ [''identity''])
          | _ \<Rightarrow> (Add combined, t')))))"
    using step by (cases "fold_constants ?flat 0") (auto simp: trace_free_def split: prod.splits)
  then show ?thesis
    by (auto simp: simplify_sum_def Let_def trace_free_def)
qed

lemma trace_free_pure: "trace_free (\<lambda>t. Inr (f, t))"
  by (simp add: trace_free_def)

lemmas trace_free_intros =
  trace_free_rbind trace_free_rules trace_free_sum trace_free_pure

lemma trace_free_list: "(\<And>x. x \<in> set xs \<Longrightarrow> trace_free (simplify_once x)) \<Longrightarrow> trace_free (simplify_list xs)"
proof (induction xs)
  case Nil
  then show ?case by (simp add: trace_free_def)
next
  case (Cons x xs)
  have "trace_free (\<lambda>t. rbind (simplify_once x t) (\<lambda>(y, t). rbind (simplify_list xs t) (\<lambda>(ys, t). Inr (y # ys, t))))"
    using Cons by (intro trace_free_rbind trace_free_pure) auto
  then show ?case by (simp add: trace_free_def)
qed

lemma simplify_once_trace_free: "trace_free (simplify_once e)"
proof (induction e)
  case (Add xs)
  then have "trace_free (\<lambda>t. rbind (simplify_list xs t) (\<lambda>(ys, t). simplify_sum ys t))"
    by (intro trace_free_rbind trace_free_list trace_free_sum) auto
  then show ?case by (simp add: trace_free_def)
next
  case (Mul xs)
  then have "trace_free (\<lambda>t. rbind (simplify_list xs t) (\<lambda>(ys, t). Inr (simplify_product ys, t)))"
    by (intro trace_free_rbind trace_free_list trace_free_pure) auto
  then show ?case by (simp add: trace_free_def)
next
  case (Where c a b)
  then have "trace_free (\<lambda>t. rbind (simplify_once c t) (\<lambda>(c', t). rbind (simplify_once a t) (\<lambda>(a', t).
      rbind (simplify_once b t) (\<lambda>(b', t). simplify_where c' a' b' t))))"
    by (intro trace_free_rbind trace_free_rules)
  then show ?case by (simp add: trace_free_def)
qed (simp_all only: simplify_once.simps trace_free_def,
     (simp_all only: trace_free_def [symmetric])?,
     (intro trace_free_rbind trace_free_rules trace_free_pure; assumption)+)

lemma simplify_loop_fixpoint:
  "simplify_loop n e t = Inr s \<Longrightarrow> \<exists>t t'. simplify_once (sim_expression s) t = Inr (sim_expression s, t')"
proof (induction n arbitrary: e t)
  case (Suc n)
  from Suc.prems obtain e1 t1 where step: "simplify_once e t = Inr (e1, t1)"
    and rest: "e1 = e \<and> sim_expression s = e \<or> simplify_loop n e1 t1 = Inr s"
    by (rule simplify_loop_step)
  from rest step Suc.IH show ?case by auto
qed simp

lemma fixpoint_again:
  assumes "simplify_once e t = Inr (e, t')"
  shows "\<exists>t2. simplify e = Inr \<lparr>sim_expression = e, sim_trace = t2\<rparr>"
proof -
  have "untraced (simplify_once e []) = untraced (simplify_once e t)"
    using simplify_once_trace_free [of e] by (simp add: trace_free_def)
  with assms obtain t2 where "simplify_once e [] = Inr (e, t2)"
    by (cases "simplify_once e []") auto
  moreover have "simplify e = simplify_loop (Suc 127) e []" by (simp add: simplify_def eval_nat_numeral)
  moreover have "\<exists>t2. simplify_loop (Suc 127) e [] = Inr \<lparr>sim_expression = e, sim_trace = t2\<rparr>"
    unfolding simplify_loop.simps(2) using calculation(1) by simp
  ultimately show ?thesis by simp
qed


subsection \<open>Evaluation and its checks\<close>

lemma evaluate_checks:
  assumes "within_bounds env e" and "set (map fst env) \<subseteq> set (collect_variables e)"
  shows "evaluate env e = eval_inner env e"
proof -
  have "try_map (check_binding env) (variables e) = Inr (map (\<lambda>_. ()) (variables e))"
    using assms(1) by (intro try_map_ok) (auto simp: variables_def within_bounds_def check_binding_def)
  moreover have "try_map (check_known (variables e)) (map fst env) = Inr (map (\<lambda>_. ()) (map fst env))"
    using assms(2) by (intro try_map_ok) (auto simp: variables_def check_known_def)
  ultimately show ?thesis by (simp add: evaluate_def)
qed

lemma evaluate_Inr_within:
  "try_map (check_binding env) (variables e) = Inr us \<Longrightarrow> within_bounds env e"
  by (auto simp: within_bounds_def variables_def check_binding_def result_simps
      dest!: try_map_mem_ok split: if_splits)

text \<open>The primitives never report a missing key.\<close>

definition keyless :: "(symbolic_error, 'a) result \<Rightarrow> bool" where
  "keyless r \<longleftrightarrow> (\<forall>v. r \<noteq> Inl (MissingKeyPanic v))"

lemma keyless_prims:
  "keyless (add a b)" "keyless (mul a b)" "keyless (neg a)" "keyless (floor_div a b)"
  "keyless (floor_mod a b)" "keyless (Inr x)"
  by (auto simp: keyless_def add_def mul_def neg_def floor_div_def floor_mod_def result_simps)

lemma keyless_rbind: "keyless r \<Longrightarrow> (\<And>x. keyless (f x)) \<Longrightarrow> keyless (rbind r f)"
  by (cases r) (auto simp: keyless_def)

lemma keyless_fold:
  "(\<And>x. x \<in> set xs \<Longrightarrow> keyless (g x)) \<Longrightarrow> (\<And>a v. keyless (f a v)) \<Longrightarrow>
   keyless (try_fold (\<lambda>a x. rbind (g x) (f a)) s xs)"
proof (induction xs arbitrary: s)
  case (Cons x xs)
  then show ?case by (auto intro!: keyless_rbind)
qed (simp add: keyless_def)

lemma eval_keyless: "within_bounds env e \<Longrightarrow> keyless (eval_inner env e)"
proof (induction e)
  case (Add xs)
  then show ?case by (auto simp: list_all_iff intro!: keyless_fold keyless_prims)
next
  case (Mul xs)
  then show ?case by (auto simp: list_all_iff intro!: keyless_fold keyless_prims)
next
  case (Var v)
  then show ?case by (auto simp: within_bounds_def keyless_def)
qed (auto intro!: keyless_rbind keyless_prims)

text \<open>\<open>evaluate\<close> checks every binding before it looks one up: no input makes the indexing
  \<open>b[v]\<close> of \<open>eval_inner\<close> panic.\<close>

lemma evaluate_never_panics: "evaluate env e \<noteq> Inl (MissingKeyPanic v)"
proof
  assume p: "evaluate env e = Inl (MissingKeyPanic v)"
  have "keyless (check_binding env w)" "keyless (check_known vs w)" for w vs
    by (auto simp: keyless_def check_binding_def check_known_def result_simps)
  then have "keyless (try_map (check_binding env) ws)" "keyless (try_map (check_known vs) ws)" for ws vs
    by (induction ws) (auto intro!: keyless_rbind simp: keyless_prims)
  with p obtain us where "try_map (check_binding env) (variables e) = Inr us"
    and ev: "eval_inner env e = Inl (MissingKeyPanic v)"
    by (auto simp: evaluate_def keyless_def result_simps)
  then have "within_bounds env e" by (auto dest: evaluate_Inr_within)
  with ev eval_keyless show False by (auto simp: keyless_def)
qed

text \<open>C2: evaluating a safe expression under bindings for exactly its variables, each inside its
  declared bounds, succeeds, and the value lies inside the bounds the expression reports.\<close>

theorem evaluate_within_bounds:
  assumes "safe e" and "within_bounds env e" and "set (map fst env) \<subseteq> set (collect_variables e)"
  shows "\<exists>b x. sbounds e = Inr b \<and> evaluate env e = Inr x \<and> bmin b \<le> x \<and> x \<le> bmax b"
  using safe_value [OF assms(1,2)] evaluate_checks [OF assms(2,3)]
  by (auto simp: value_in_def contains_def)

definition row_var :: symbolic_var where "row_var = SymVar 1 ''rows'' 1 64"

definition row_expr :: sexpr where
  "row_expr = Add [Mul [Const 4, Var row_var], FloorDiv (Var row_var) (Const 3), Mod (Var row_var) (Const 8)]"

lemma safe_row_expr: "safe row_expr"
  by (simp add: row_expr_def row_var_def has_bounds_def int_bounds var_ok_def
      mul_bounds_def mul_def add_bounds_def add_def checked_i64_def list_bounds_def div_bounds_def
      floor_div_def checked_div_i64_def checked_rem_i64_def mod_bounds_def mod_room_def
      signed_divide_int_def signed_modulo_int_def)

lemma within_row_expr: "within_bounds [(row_var, 10)] row_expr"
  by (simp add: row_expr_def row_var_def within_bounds_def)

theorem evaluate_within_bounds_witness:
  "\<exists>b x. sbounds row_expr = Inr b \<and> evaluate [(row_var, 10)] row_expr = Inr x \<and> bmin b \<le> x \<and> x \<le> bmax b"
  by (rule evaluate_within_bounds [OF safe_row_expr within_row_expr])
     (simp add: row_expr_def row_var_def)

text \<open>C1: simplification of a safe expression keeps it safe, introduces no variable, never widens
  its bounds and keeps its value under all bindings inside the declared bounds.\<close>

theorem simplify_preserves:
  assumes "simplify e = Inr s" and "safe e"
  shows "safe (sim_expression s) \<and>
    set (collect_variables (sim_expression s)) \<subseteq> set (collect_variables e) \<and>
    (\<exists>b b'. sbounds e = Inr b \<and> sbounds (sim_expression s) = Inr b' \<and>
       bmin b \<le> bmin b' \<and> bmax b' \<le> bmax b) \<and>
    (\<forall>env. within_bounds env e \<longrightarrow> eval_inner env (sim_expression s) = eval_inner env e)"
  using simplify_loop_refines [OF assms(1) [unfolded simplify_def] assms(2)]
  by (auto simp: refines_def tighter_def)

definition twice_rows :: sexpr where
  "twice_rows = Add [Var row_var, Const 0, Var row_var]"

lemma simplify_twice_rows:
  "simplify twice_rows = Inr \<lparr>sim_expression = Mul [Const 2, Var row_var],
     sim_trace = [''combine-like-terms'', ''identity'']\<rparr>"
  by code_simp

lemma safe_twice_rows: "safe twice_rows"
  by code_simp

theorem simplify_preserves_witness:
  "safe (Mul [Const 2, Var row_var]) \<and>
    set (collect_variables (Mul [Const 2, Var row_var])) \<subseteq> set (collect_variables twice_rows) \<and>
    (\<exists>b b'. sbounds twice_rows = Inr b \<and> sbounds (Mul [Const 2, Var row_var]) = Inr b' \<and>
       bmin b \<le> bmin b' \<and> bmax b' \<le> bmax b) \<and>
    eval_inner [(row_var, 7)] (Mul [Const 2, Var row_var]) = eval_inner [(row_var, 7)] twice_rows"
proof -
  have "within_bounds [(row_var, 7)] twice_rows"
    by (simp add: within_bounds_def twice_rows_def row_var_def)
  then show ?thesis
    using simplify_preserves [OF simplify_twice_rows safe_twice_rows] unfolding simplified.simps by blast
qed

text \<open>C40: the simplifier reaches a fixpoint: simplifying a simplified expression succeeds and
  changes nothing.\<close>

theorem simplify_idempotent:
  assumes "simplify e = Inr s"
  shows "\<exists>t. simplify (sim_expression s) = Inr \<lparr>sim_expression = sim_expression s, sim_trace = t\<rparr>"
proof -
  from simplify_loop_fixpoint [OF assms [unfolded simplify_def]] obtain t t' where
    "simplify_once (sim_expression s) t = Inr (sim_expression s, t')" by blast
  then show ?thesis by (rule fixpoint_again)
qed

theorem simplify_idempotent_witness:
  "\<exists>t. simplify (Mul [Const 2, Var row_var]) =
     Inr \<lparr>sim_expression = Mul [Const 2, Var row_var], sim_trace = t\<rparr>"
  using simplify_idempotent [OF simplify_twice_rows] by simp

subsection \<open>Substitution\<close>

text \<open>The bindings of the original expression that a substitution stands for.\<close>

definition substituted_env :: "replacements \<Rightarrow> bindings \<Rightarrow> bindings \<Rightarrow> sexpr \<Rightarrow> bool" where
  "substituted_env m env env' e \<longleftrightarrow> (\<forall>v \<in> set (collect_variables e).
     case map_of m v of
       Some r \<Rightarrow> (\<exists>x. eval_inner env r = Inr x \<and> map_of env' v = Some x)
     | None \<Rightarrow> map_of env' v = map_of env v)"

lemma fold_eval_cong:
  "(\<And>x. x \<in> set xs \<Longrightarrow> eval_inner env (g x) = eval_inner env' x) \<Longrightarrow>
   try_fold (\<lambda>a x. rbind (eval_inner env x) (f a)) s (map g xs) =
   try_fold (\<lambda>a x. rbind (eval_inner env' x) (f a)) s xs"
proof (induction xs arbitrary: s)
  case (Cons x xs)
  then show ?case by (simp cong: rbind_cong)
qed simp

lemma substitute_eval:
  "substituted_env m env env' e \<Longrightarrow> eval_inner env (fst (substitute_inner m e)) = eval_inner env' e"
proof (induction e)
  case (Var v)
  then show ?case by (auto simp: substituted_env_def split: option.splits)
next
  case (Add xs)
  then have "eval_inner env (fst (substitute_inner m x)) = eval_inner env' x" if "x \<in> set xs" for x
    using that by (auto simp: substituted_env_def)
  then show ?case
    using fold_eval_cong [of xs env "\<lambda>x. fst (substitute_inner m x)" env' add 0]
    by (simp add: Let_def comp_def)
next
  case (Mul xs)
  then have "eval_inner env (fst (substitute_inner m x)) = eval_inner env' x" if "x \<in> set xs" for x
    using that by (auto simp: substituted_env_def)
  then show ?case
    using fold_eval_cong [of xs env "\<lambda>x. fst (substitute_inner m x)" env' mul 1]
    by (simp add: Let_def comp_def)
qed (auto simp: substituted_env_def split: prod.splits intro!: rbind_cong)

lemma substitute_inside:
  "v \<in> set (collect_variables e) \<Longrightarrow> safe (fst (substitute_inner m e)) \<Longrightarrow>
   within_bounds env (fst (substitute_inner m e)) \<Longrightarrow>
   safe (fst (substitute_inner m (Var v))) \<and> within_bounds env (fst (substitute_inner m (Var v)))"
  by (induction e) (auto simp: Let_def list_all_iff split: prod.splits)

lemma substitute_keeps_bounds:
  assumes "substitute m e = Inr s" and "safe (fst (substitute_inner m e))"
    and "within_bounds env (fst (substitute_inner m e))" and "substituted_env m env env' e"
  shows "within_bounds env' e"
  unfolding within_bounds_def
proof
  fix v assume v: "v \<in> set (collect_variables e)"
  from substitute_inside [OF v assms(2,3)] have inside:
    "safe (fst (substitute_inner m (Var v)))" "within_bounds env (fst (substitute_inner m (Var v)))" by auto
  show "\<exists>x. map_of env' v = Some x \<and> sv_min v \<le> x \<and> x \<le> sv_max v"
  proof (cases "map_of m v")
    case None
    with v inside(2) assms(4) show ?thesis by (auto simp: substituted_env_def within_bounds_def)
  next
    case (Some r)
    from assms(1) obtain us where "try_map (check_replacement m) (variables e) = Inr us"
      by (auto simp: substitute_def result_simps)
    moreover have "v \<in> set (variables e)" using v by (simp add: variables_def)
    ultimately have "is_ok (check_replacement m v)" using try_map_mem_ok by (fastforce simp: is_ok_iff)
    then obtain b where b: "sbounds r = Inr b" "sv_min v \<le> bmin b" "bmax b \<le> sv_max v"
      by (auto simp: check_replacement_def Some is_ok_iff result_simps not_less split: if_splits)
    from inside Some obtain b' x where "value_in env r b' x" using safe_value by fastforce
    with b(1) have x: "eval_inner env r = Inr x" "contains b x" by (auto simp: value_in_def)
    from v assms(4) Some x(1) have "map_of env' v = Some x" by (auto simp: substituted_env_def)
    with b x(2) show ?thesis by (simp add: interval_defs)
  qed
qed

text \<open>C3: substitution commutes with evaluation, for every expression and replacements: what it puts in, before
  simplification, evaluates under some bindings to the value of the original under the bindings that give each replaced
  variable the value of its replacement. Replacements are not substituted into one another. When the substituted
  expression is safe, its simplified form, the one returned, has that value too, and each replaced variable got a value
  within its declared bounds.\<close>

theorem substitute_correct:
  assumes "substitute m e = Inr s" and "substituted_env m env env' e"
  shows "eval_inner env (fst (substitute_inner m e)) = eval_inner env' e \<and>
    (safe (fst (substitute_inner m e)) \<and> within_bounds env (fst (substitute_inner m e)) \<longrightarrow>
       eval_inner env (sim_expression s) = eval_inner env' e \<and> within_bounds env' e)"
proof (intro conjI impI)
  obtain e1 ch where e1: "substitute_inner m e = (e1, ch)" by fastforce
  from assms(1) e1 obtain s1 where s1: "simplify e1 = Inr s1" "sim_expression s = sim_expression s1"
    by (auto simp: substitute_def result_simps)
  show eval: "eval_inner env (fst (substitute_inner m e)) = eval_inner env' e" by (rule substitute_eval [OF assms(2)])
  assume ok: "safe (fst (substitute_inner m e)) \<and> within_bounds env (fst (substitute_inner m e))"
  have "refines e1 (sim_expression s1)"
    by (rule simplify_loop_refines [OF s1(1) [unfolded simplify_def]]) (use ok e1 in simp)
  with ok e1 s1(2) have "eval_inner env (sim_expression s) = eval_inner env e1"
    by (simp add: refines_def)
  with eval e1 show "eval_inner env (sim_expression s) = eval_inner env' e" by simp
  from ok substitute_keeps_bounds [OF assms(1) _ _ assms(2)] show "within_bounds env' e" by blast
qed

lemma substitute_rows:
  "substitute [(row_var, Const 6)] row_expr =
   Inr \<lparr>sim_expression = Add [Const 8, Mul [Const 4, Const 6]],
     sim_trace = [''substitute'', ''fold-divmod'', ''fold-divmod'']\<rparr>"
  by code_simp

lemma safe_substituted_rows: "safe (fst (substitute_inner [(row_var, Const 6)] row_expr))"
  by code_simp

theorem substitute_correct_witness:
  "eval_inner [] (Add [Const 8, Mul [Const 4, Const 6]]) = eval_inner [(row_var, 6)] row_expr"
proof -
  have "within_bounds [] (fst (substitute_inner [(row_var, Const 6)] row_expr))"
    by (simp add: row_expr_def within_bounds_def)
  moreover have "substituted_env [(row_var, Const 6)] [] [(row_var, 6)] row_expr"
    by (simp add: row_expr_def substituted_env_def)
  ultimately show ?thesis
    using substitute_correct [OF substitute_rows] safe_substituted_rows by simp
qed

text \<open>Where the conditions of \<open>safe\<close> do not hold, the rewriting and the bounds are wrong: a
  condition that straddles 0 is taken for true, a double negation of a number is dropped, and a
  modulo whose product leaves \<open>i64\<close> fails although its result is small.\<close>

definition signed_var :: symbolic_var where "signed_var = SymVar 2 ''delta'' (-1) 1"

lemma where_bounds_wrong:
  "sbounds (Where (Var signed_var) (Const 5) (Const 0)) = Inr (Bounds 5 5)"
  "evaluate [(signed_var, 0)] (Where (Var signed_var) (Const 5) (Const 0)) = Inr 0"
  by code_simp+

lemma double_negation_wrong:
  "simplify (NotE (NotE (Var row_var))) = Inr \<lparr>sim_expression = Var row_var, sim_trace = []\<rparr>"
  "evaluate [(row_var, 5)] (NotE (NotE (Var row_var))) = Inr 1"
  "evaluate [(row_var, 5)] (Var row_var) = Inr 5"
  by code_simp+

lemma floor_mod_spurious_overflow:
  "floor_mod i64_min 3 = Inl (Overflow ''modulo'')" "i64_min mod 3 = 1"
  by code_simp+

text \<open>Floor division and modulo, exactly: the quotient is the mathematical floor and fails only
  on \<open>MIN / -1\<close>; the modulo is the mathematical one unless the product it recomputes overflows.\<close>

lemma floor_div_mod_exact:
  assumes "in_i64 a" and "in_i64 b" and "b \<noteq> 0"
  shows "floor_div a b =
      (if a = i64_min \<and> b = -1 then Inl (Overflow ''division'') else Inr (a div b)) \<and>
    floor_mod a b =
      (if a = i64_min \<and> b = -1 then Inl (Overflow ''division'')
       else if in_i64 (a - a mod b) then Inr (a mod b) else Inl (Overflow ''modulo''))"
  using floor_div_eq [OF assms(1,3)] floor_mod_eq [OF assms] by simp

theorem floor_div_mod_exact_witness:
  "floor_div (-7) 2 = Inr (-4) \<and> floor_mod (-7) 2 = Inr 1"
  using floor_div_mod_exact [of "-7" 2] by (simp add: int_bounds)

end
