(* ===== verification/SymbolicShapes.thy ===== *)
theory SymbolicShapes
  imports SymbolicSums Views
begin

section \<open>Symbolic shapes (src/src/symbolic\_shape.rs)\<close>

text \<open>
  A symbolic shape is a list of symbolic expressions, one per axis (the newtype \<open>SymbolicDim\<close> is
  dropped). Binding is the boundary at which a concrete shape appears; broadcasting works on the
  bounds of the expressions; reshape compatibility compares simplified products.
\<close>

type_synonym symbolic_shape = "sexpr list"

definition dim_of_usize :: "nat \<Rightarrow> sexpr" where
  "dim_of_usize x = Const (Views.as_i64 x)"

definition shape_numel :: "symbolic_shape \<Rightarrow> sexpr" where
  "shape_numel ds = foldl (\<lambda>n d. Mul [n, d]) (Const 1) ds"

definition project_map :: "sexpr \<Rightarrow> (symbolic_var \<times> 'a) list \<Rightarrow> (symbolic_var \<times> 'a) list" where
  "project_map d m = List.map_filter (\<lambda>v. map_option (\<lambda>x. (v, x)) (map_of m v)) (variables d)"

definition shape_variables :: "symbolic_shape \<Rightarrow> symbolic_var list" where
  "shape_variables ds = concat (map variables ds)"

definition check_extra :: "symbolic_shape \<Rightarrow> symbolic_var list \<Rightarrow> (symbolic_error, unit) result" where
  "check_extra ds ks =
    (case find (\<lambda>v. v \<notin> set (shape_variables ds)) ks of
       Some extra \<Rightarrow> Inl (ExtraBinding extra) | None \<Rightarrow> Inr ())"

definition shape_substitute ::
  "replacements \<Rightarrow> symbolic_shape \<Rightarrow> (symbolic_error, symbolic_shape) result" where
  "shape_substitute m ds =
     rbind (check_extra ds (map fst m)) (\<lambda>_.
     try_map (\<lambda>d. rbind (substitute (project_map d m) d) (\<lambda>s. Inr (sim_expression s))) ds)"

definition shape_bind :: "bindings \<Rightarrow> symbolic_shape \<Rightarrow> (symbolic_error, shape) result" where
  "shape_bind env ds =
     rbind (check_extra ds (map fst env)) (\<lambda>_.
     rbind (try_map (\<lambda>d. as_usize (project_map d env) d) ds) (\<lambda>s.
     rbind (map_err (\<lambda>_. Overflow ''shape extent'') (numel s)) (\<lambda>_. Inr s)))"

definition dim_from_right :: "symbolic_shape \<Rightarrow> nat \<Rightarrow> sexpr" where
  "dim_from_right ds k = (if k < length ds then ds ! (length ds - 1 - k) else dim_of_usize 1)"

definition broadcast_dim :: "sexpr \<Rightarrow> sexpr \<Rightarrow> (symbolic_error, sexpr) result" where
  "broadcast_dim a b =
     rbind (sbounds a) (\<lambda>ab. rbind (sbounds b) (\<lambda>bb.
     if bounds_constant ab = Some 1 then Inr b
     else if bounds_constant bb = Some 1 \<or> a = b then Inr a
     else Inl (InvalidBounds (max (bmin ab) (bmin bb)) (min (bmax ab) (bmax bb)))))"

text \<open>The loop pushes the leftmost axis first and the source then reverses the result.\<close>

definition symbolic_broadcast_with ::
  "symbolic_shape \<Rightarrow> symbolic_shape \<Rightarrow> (symbolic_error, symbolic_shape) result" where
  "symbolic_broadcast_with self other =
     rbind (try_map (\<lambda>offset. broadcast_dim (dim_from_right self offset) (dim_from_right other offset))
              (rev [0..<max (length self) (length other)])) (\<lambda>out. Inr (rev out))"

definition reshape_compatible ::
  "symbolic_shape \<Rightarrow> symbolic_shape \<Rightarrow> (symbolic_error, bool) result" where
  "reshape_compatible self target =
     rbind (simplify (shape_numel self)) (\<lambda>a. rbind (simplify (shape_numel target)) (\<lambda>b.
     Inr (sim_expression a = sim_expression b)))"

subsection \<open>Binding\<close>

lemma eval_agree:
  "(\<forall>v \<in> set (collect_variables e). map_of env v = map_of env' v) \<Longrightarrow>
   eval_inner env e = eval_inner env' e"
proof (induction e)
  case (Add xs)
  then have "eval_inner env x = eval_inner env' x" if "x \<in> set xs" for x using that by auto
  then show ?case by (auto intro!: try_fold_cong)
next
  case (Mul xs)
  then have "eval_inner env x = eval_inner env' x" if "x \<in> set xs" for x using that by auto
  then show ?case by (auto intro!: try_fold_cong)
qed (auto intro!: rbind_cong)

lemma map_of_filter_keys:
  "map_of (List.map_filter (\<lambda>v. map_option (\<lambda>x. (v, x)) (map_of m v)) vs) v =
   (if v \<in> set vs then map_of m v else None)"
  by (induction vs) (auto simp: List.map_filter_simps split: option.splits)

lemma map_of_project: "v \<in> set (collect_variables d) \<Longrightarrow> map_of (project_map d m) v = map_of m v"
  by (simp add: project_map_def map_of_filter_keys variables_def)

lemma eval_project: "eval_inner (project_map d env) d = eval_inner env d"
  by (rule eval_agree) (simp add: map_of_project)

lemma within_project: "within_bounds (project_map d env) d \<longleftrightarrow> within_bounds env d"
  by (auto simp: within_bounds_def map_of_project)

lemma as_usize_Inr:
  "as_usize env d = Inr n \<Longrightarrow> within_bounds env d \<and> eval_inner env d = Inr (int n)"
  by (auto simp: as_usize_def evaluate_def result_simps checked_defs dest: evaluate_Inr_within)

text \<open>A bound shape has one extent per axis, the value of that axis under the whole
  environment, every binding an axis uses lies inside its declared bounds, and the element count
  fits.\<close>

lemma shape_bind_correct:
  assumes "shape_bind env ds = Inr s"
  shows "length s = length ds \<and> numel s = Inr (prod_list s) \<and>
    (\<forall>i < length ds. within_bounds env (ds ! i) \<and> eval_inner env (ds ! i) = Inr (int (s ! i)))"
proof -
  from assms obtain n where s: "try_map (\<lambda>d. as_usize (project_map d env) d) ds = Inr s"
    and n: "numel s = Inr n"
    by (auto simp: shape_bind_def result_simps)
  from n have "numel s = Inr (prod_list s)" by (auto dest: numel_InrD)
  moreover from s have "length s = length ds" by (rule try_map_length)
  moreover have "within_bounds env (ds ! i) \<and> eval_inner env (ds ! i) = Inr (int (s ! i))"
    if "i < length ds" for i
    using s that by (auto simp: try_map_Inr_iff eval_project within_project dest!: as_usize_Inr)
  ultimately show ?thesis by blast
qed



lemma bind_rows: "shape_bind [(row_var, 10)] [Var row_var, row_expr] = Inr [10, 45]"
proof -
  have "project_map (Var row_var) [(row_var, 10 :: int)] = [(row_var, 10)]"
    "project_map row_expr [(row_var, 10 :: int)] = [(row_var, 10)]" by code_simp+
  moreover have "evaluate [(row_var, 10)] (Var row_var) = Inr 10"
    "evaluate [(row_var, 10)] row_expr = Inr 45" by code_simp+
  moreover have "check_extra [Var row_var, row_expr] [row_var] = Inr ()" by code_simp
  ultimately show ?thesis
    by (simp add: shape_bind_def as_usize_def usize_of_int_def int_bounds numel_ok)
qed

theorem shape_bind_correct_witness:
  "length [10, 45 :: nat] = length [Var row_var, row_expr] \<and> numel [10, 45] = Inr (prod_list [10, 45]) \<and>
    within_bounds [(row_var, 10)] row_expr \<and> eval_inner [(row_var, 10)] row_expr = Inr 45"
proof -
  have "within_bounds [(row_var, 10)] ([Var row_var, row_expr] ! 1) \<and>
      eval_inner [(row_var, 10)] ([Var row_var, row_expr] ! 1) = Inr (int ([10, 45] ! 1))"
    by (rule shape_bind_correct [OF bind_rows, THEN conjunct2, THEN conjunct2, rule_format]) simp
  then have "within_bounds [(row_var, 10)] row_expr \<and> eval_inner [(row_var, 10)] row_expr = Inr 45" by simp
  then show ?thesis using shape_bind_correct [OF bind_rows] by blast
qed

subsection \<open>Broadcasting\<close>

lemma dim_from_right_const:
  "list_all (\<lambda>d. int d \<le> i64_max) a \<Longrightarrow>
   dim_from_right (map dim_of_usize a) k = Const (int (extent_from_right a k))"
  by (auto simp: dim_from_right_def extent_from_right_def dim_of_usize_def Views.as_i64_def list_all_length i64_bounds_eq)

lemma broadcast_dim_const:
  "broadcast_dim (Const (int x)) (Const (int y)) =
   (if extents_agree x y then Inr (Const (int (join_extent x y)))
    else Inl (InvalidBounds (max (int x) (int y)) (min (int x) (int y))))"
  by (auto simp: broadcast_dim_def bounds_constant_def extents_agree_def join_extent_def)

text \<open>On constant axes symbolic broadcasting accepts exactly the pairs concrete broadcasting
  accepts, but it returns the axes of the broadcast shape in reverse order: the loop already runs
  from the leftmost axis, and the result is reversed once more.\<close>

lemma symbolic_broadcast_reverses:
  assumes "list_all (\<lambda>d. int d \<le> i64_max) a" and "list_all (\<lambda>d. int d \<le> i64_max) b"
  shows "(\<forall>c. broadcast_with a b = Inr c \<longrightarrow>
      symbolic_broadcast_with (map dim_of_usize a) (map dim_of_usize b) =
        Inr (rev (map (\<lambda>d. Const (int d)) c))) \<and>
    (\<not> is_ok (broadcast_with a b) \<longrightarrow>
      \<not> is_ok (symbolic_broadcast_with (map dim_of_usize a) (map dim_of_usize b)))"
proof -
  let ?x = "extent_from_right a" and ?y = "extent_from_right b" and ?n = "max (length a) (length b)"
  let ?f = "\<lambda>k. broadcast_dim (Const (int (?x k))) (Const (int (?y k)))"
  have eq: "symbolic_broadcast_with (map dim_of_usize a) (map dim_of_usize b) =
      rbind (try_map ?f (rev [0..<?n])) (\<lambda>out. Inr (rev out))"
    by (simp add: symbolic_broadcast_with_def dim_from_right_const [OF assms(1)] dim_from_right_const [OF assms(2)])
  show ?thesis
  proof (cases "\<forall>k. extents_agree (?x k) (?y k)")
    case True
    then have "try_map ?f (rev [0..<?n]) = Inr (map (\<lambda>k. Const (int (join_extent (?x k) (?y k)))) (rev [0..<?n]))"
      by (intro try_map_ok) (simp add: broadcast_dim_const)
    with True show ?thesis by (simp add: eq broadcast_with_eq rev_map comp_def)
  next
    case False
    then obtain k where k: "\<not> extents_agree (?x k) (?y k)" by blast
    have "k < ?n"
      using k extent_beyond [of a k] extent_beyond [of b k]
      by (cases "length a \<le> k"; cases "length b \<le> k") (auto simp: extents_agree_def)
    then have "k \<in> set (rev [0..<?n])" by simp
    moreover have "?f k \<noteq> Inr y" for y using k by (simp add: broadcast_dim_const)
    ultimately have "try_map ?f (rev [0..<?n]) \<noteq> Inr out" for out
      by (meson try_map_mem_ok)
    then have "\<not> is_ok (rbind (try_map ?f (rev [0..<?n])) (\<lambda>out. Inr (rev out)))"
      by (cases "try_map ?f (rev [0..<?n])") auto
    moreover have "broadcast_with a b \<noteq> Inr c" for c using False by (auto simp: broadcast_with_eq)
    ultimately show ?thesis unfolding eq by blast
  qed
qed

theorem symbolic_broadcast_reverses_witness:
  "symbolic_broadcast_with (map dim_of_usize [2, 3]) (map dim_of_usize [3]) =
     Inr (rev (map (\<lambda>d. Const (int d)) [2, 3])) \<and>
   rev (map (\<lambda>d. Const (int d)) [2, 3]) \<noteq> map (\<lambda>d. Const (int d)) [2, 3]"
proof -
  have "broadcast_with [2, 3] [3] = Inr [2, 3]"
    by (simp add: broadcast_with_def extent_from_right_def upt_rec)
  then show ?thesis
    using symbolic_broadcast_reverses [of "[2, 3]" "[3]"] by (simp add: i64_bounds_eq)
qed

subsection \<open>Reshape compatibility\<close>

lemma foldl_mul_vars:
  "set (collect_variables (foldl (\<lambda>n d. Mul [n, d]) e ds)) =
   set (collect_variables e) \<union> set (concat (map collect_variables ds))"
  by (induction ds arbitrary: e) auto

lemma mul_pair: "eval_inner env (Mul [a, b]) = Inr x \<Longrightarrow> eval_inner env a = Inr u \<Longrightarrow>
   eval_inner env b = Inr v \<Longrightarrow> x = u * v"
  by (auto simp: result_simps mul_def checked_defs)

lemma foldl_mul_value:
  "eval_inner env (foldl (\<lambda>n d. Mul [n, d]) e ds) = Inr x \<Longrightarrow>
   eval_inner env e = Inr u \<Longrightarrow> list_all2 (\<lambda>d v. eval_inner env d = Inr v) ds vs \<Longrightarrow>
   x = u * prod_list vs"
proof (induction ds arbitrary: e u vs)
  case Nil
  then show ?case by simp
next
  case (Cons d ds)
  from Cons.prems(3) obtain v vs' where vs: "vs = v # vs'" "eval_inner env d = Inr v"
    "list_all2 (\<lambda>d v. eval_inner env d = Inr v) ds vs'"
    by (auto simp: list_all2_Cons1)
  from Cons.prems(1) obtain w where w: "eval_inner env (Mul [e, d]) = Inr w"
  proof (cases "eval_inner env (Mul [e, d])")
    case (Inl er)
    have "eval_inner env (foldl (\<lambda>n d. Mul [n, d]) m ds) = Inl er" if "eval_inner env m = Inl er" for m
      using that by (induction ds arbitrary: m) simp_all
    with Inl Cons.prems(1) show thesis by (simp del: eval_inner.simps)
  qed
  from mul_pair [OF w Cons.prems(2) vs(2)] have "w = u * v" .
  with Cons.IH [OF _ w vs(3)] Cons.prems(1) vs(1) show ?case by (simp add: mult.assoc)
qed

text \<open>When a reshape is accepted, the two shapes have the same number of elements under every
  environment inside the declared bounds.\<close>

lemma reshape_compatible_sound:
  assumes "reshape_compatible a b = Inr True"
    and "safe (shape_numel a)" and "safe (shape_numel b)"
    and "within_bounds env (shape_numel a)" and "within_bounds env (shape_numel b)"
    and "list_all2 (\<lambda>d v. eval_inner env d = Inr v) a va"
    and "list_all2 (\<lambda>d v. eval_inner env d = Inr v) b vb"
  shows "prod_list va = prod_list vb"
proof -
  from assms(1) obtain s t where s: "simplify (shape_numel a) = Inr s"
    and t: "simplify (shape_numel b) = Inr t" and eq: "sim_expression s = sim_expression t"
    by (auto simp: reshape_compatible_def result_simps)
  have "eval_inner env (shape_numel a) = eval_inner env (shape_numel b)"
    using refines_eval [OF simplify_loop_refines [OF s [unfolded simplify_def] assms(2)] assms(4)]
      refines_eval [OF simplify_loop_refines [OF t [unfolded simplify_def] assms(3)] assms(5)] eq
    by simp
  moreover obtain x where x: "eval_inner env (shape_numel a) = Inr x"
    using safe_value [OF assms(2,4)] by (auto simp: value_in_def)
  ultimately have "x = prod_list va" "x = prod_list vb"
    using foldl_mul_value [of env "Const 1" a x 1 va] foldl_mul_value [of env "Const 1" b x 1 vb] assms(6,7)
    by (simp_all add: shape_numel_def)
  then show ?thesis by simp
qed

lemma reshape_rows: "reshape_compatible [Var row_var, Const 1] [Const 1, Var row_var] = Inr True"
  by code_simp

theorem reshape_compatible_sound_witness: "prod_list [7, 1 :: int] = prod_list [1, 7]"
proof (rule reshape_compatible_sound [OF reshape_rows, of "[(row_var, 7)]"])
  show "safe (shape_numel [Var row_var, Const 1])" "safe (shape_numel [Const 1, Var row_var])"
    by code_simp+
qed (simp_all add: shape_numel_def within_bounds_def row_var_def)

end
