(* ===== verification/UOps.thy ===== *)
theory UOps
  imports Views
begin

section \<open>The universal operation DAG (src/src/uop/operation.rs, schema.rs, mod.rs)\<close>

text \<open>
  The node type every late compiler pass reads: a closed enumeration of operations with typed payloads,
  an optional lane type, ordered sources and an optional tag. Constructors carry the prefix \<open>Op\<close>, those of
  the payload enumerations a letter, because the source reuses names between them. Payloads that no modelled
  pass looks into (kernel plans, captured random plans, effect payloads, variables) are of the type
  parameter \<open>'x\<close>. The allocation of a node, which the source reads as \<open>node_identity\<close>, is a field of its own.
\<close>

record utype =
  ut_scalar :: dtype
  ut_lanes :: nat

definition ut_is_bool :: "utype \<Rightarrow> bool" where
  "ut_is_bool t \<longleftrightarrow> ut_scalar t = Bool"

definition scalar_type :: "dtype \<Rightarrow> utype" where
  "scalar_type d = \<lparr>ut_scalar = d, ut_lanes = 1\<rparr>"

datatype uop_tag = TagText string | TagInt int | TagDType dtype | TagTuple "uop_tag list"

datatype memory_address = GlobalSpace | LocalSpace | RegisterSpace

datatype literal = LitInt int | LitScalar dtype nat

record address_value =
  ad_space :: memory_address
  ad_name :: string
  ad_element :: utype

datatype index_addressing = Broadcast | Projected | Predicated

datatype index_value =
    IndexBuffer (iv_buffer: nat) (iv_elements: nat) (iv_input: shape) (iv_output: shape) (iv_addressing: index_addressing)
  | IndexView (iv_buffer: nat) (iv_elements: nat) (iv_input: shape) (iv_output: shape) (iv_view: affine_view)

datatype unary = UNeg | UNot | UAbs

datatype binary = BAdd | BSub | BMul | BFloorDiv | BMod | BMin | BMax | BEq | BLt | BLe | BAnd | BOr

datatype ternary = TWhere

datatype unary_op =
    GNeg | GExp | GLog | GRelu | GStep | GAbs | GReciprocal | GSquare | GSqrt | GRsqrt | GExp2 | GLog2
  | GSin | GCos | GTan | GSinh | GCosh | GTanh | GErf | GErfc | GAsin | GAcos | GAtan | GAsinh | GAcosh | GAtanh
  | GFloor | GCeil | GTrunc | GRound | GSign | GIsNan | GIsInf | GIsFinite

datatype binary_op =
    GAdd | GSub | GMul | GDiv | GPow | GMaximum | GMinimum | GFloorDiv | GTruncDiv | GMod | GFMod
  | GBitAnd | GBitOr | GBitXor | GShl | GShr | GAtan2 | GCopysign

datatype compare_op = CEq | CNe | CLt | CLe | CGt | CGe

datatype logical_op = LNot | LAnd | LOr

datatype 'x operation =
    OpConst literal | OpVConst literal | OpDefineVar 'x
  | OpDefineGlobal address_value | OpDefineLocal address_value | OpDefineRegister address_value
  | OpSpecial string | OpRange nat | OpEndRange | OpIf | OpEndIf
  | OpUnary unary | OpBinary binary
  | OpGraphUnary unary_op | OpGraphBinary binary_op | OpGraphCompare compare_op | OpGraphLogical logical_op
  | OpThreefry 'x | OpMatmul 'x | OpConv2d 'x | OpMovement 'x | OpRandom 'x | OpPrefixScan 'x | OpSort 'x
  | OpTensorGuard 'x | OpReduceInit 'x | OpReduceAccumulate | OpReduceFinalize
  | OpTernary ternary | OpCast | OpBitcast | OpVectorize | OpGep nat
  | OpIndex index_value | OpLoad | OpStore
  | OpEffectStore 'x | OpAfter 'x | OpBarrier | OpSink

datatype arity = Exactly nat | NonEmpty | AnyArity

fun arity_accepts :: "arity \<Rightarrow> nat \<Rightarrow> bool" where
  "arity_accepts (Exactly n) actual = (actual = n)"
| "arity_accepts NonEmpty actual = (actual \<noteq> 0)"
| "arity_accepts AnyArity actual = True"

fun source_arity :: "'x operation \<Rightarrow> arity" where
  "source_arity (OpConst _) = Exactly 0"
| "source_arity (OpVConst _) = Exactly 0"
| "source_arity (OpDefineVar _) = Exactly 0"
| "source_arity (OpDefineGlobal _) = Exactly 0"
| "source_arity (OpDefineLocal _) = Exactly 0"
| "source_arity (OpDefineRegister _) = Exactly 0"
| "source_arity (OpSpecial _) = Exactly 0"
| "source_arity (OpRange _) = Exactly 1"
| "source_arity OpEndRange = Exactly 1"
| "source_arity OpIf = Exactly 1"
| "source_arity OpEndIf = Exactly 1"
| "source_arity (OpUnary _) = Exactly 1"
| "source_arity (OpBinary _) = Exactly 2"
| "source_arity (OpGraphUnary _) = Exactly 1"
| "source_arity (OpGraphBinary _) = Exactly 2"
| "source_arity (OpGraphCompare _) = Exactly 2"
| "source_arity (OpGraphLogical op) = (if op = LNot then Exactly 1 else Exactly 2)"
| "source_arity (OpThreefry _) = Exactly 0"
| "source_arity (OpMatmul _) = Exactly 0"
| "source_arity (OpConv2d _) = Exactly 0"
| "source_arity (OpMovement _) = Exactly 0"
| "source_arity (OpRandom _) = Exactly 0"
| "source_arity (OpPrefixScan _) = Exactly 0"
| "source_arity (OpSort _) = Exactly 0"
| "source_arity (OpTensorGuard _) = Exactly 0"
| "source_arity (OpReduceInit _) = Exactly 0"
| "source_arity OpReduceAccumulate = Exactly 2"
| "source_arity OpReduceFinalize = Exactly 1"
| "source_arity (OpTernary _) = Exactly 3"
| "source_arity OpCast = Exactly 1"
| "source_arity OpBitcast = Exactly 1"
| "source_arity OpVectorize = NonEmpty"
| "source_arity (OpGep _) = Exactly 1"
| "source_arity (OpIndex v) = (case v of IndexBuffer _ _ _ _ Predicated \<Rightarrow> Exactly 3 | _ \<Rightarrow> Exactly 2)"
| "source_arity OpLoad = Exactly 1"
| "source_arity OpStore = Exactly 2"
| "source_arity (OpEffectStore _) = Exactly 0"
| "source_arity (OpAfter _) = Exactly 1"
| "source_arity OpBarrier = Exactly 0"
| "source_arity OpSink = AnyArity"

fun op_is_pure :: "'x operation \<Rightarrow> bool" where
  "op_is_pure OpEndRange = False"
| "op_is_pure OpIf = False"
| "op_is_pure OpEndIf = False"
| "op_is_pure OpStore = False"
| "op_is_pure (OpEffectStore _) = False"
| "op_is_pure (OpAfter _) = False"
| "op_is_pure OpBarrier = False"
| "op_is_pure OpSink = False"
| "op_is_pure _ = True"

text \<open>A node: its allocation, operation, type, tag and sources.\<close>

datatype 'x uop =
  UOp (uop_identity: nat) (uop_operation: "'x operation") (uop_ty: "utype option") (uop_tag: "uop_tag option")
    (uop_sources: "'x uop list")

text \<open>\<open>unary_dtype\<close> of \<open>ir/shape.rs\<close>.\<close>

definition lifts_to_float :: "unary_op \<Rightarrow> bool" where
  "lifts_to_float op \<longleftrightarrow> op \<in> {GExp, GLog, GReciprocal, GSqrt, GRsqrt, GExp2, GLog2, GSin, GCos, GTan, GSinh,
     GCosh, GTanh, GErf, GErfc, GAsin, GAcos, GAtan, GAsinh, GAcosh, GAtanh}"

definition unary_dtype :: "unary_op \<Rightarrow> dtype \<Rightarrow> dtype" where
  "unary_dtype op input =
    (if op \<in> {GIsNan, GIsInf, GIsFinite} then Bool
     else if lifts_to_float op \<and> \<not> is_float input then F32 else input)"

subsection \<open>The order of the element types\<close>

text \<open>The derived \<open>Ord\<close> of the enum: its declaration order.\<close>

fun dtype_rank :: "dtype \<Rightarrow> nat" where
  "dtype_rank Bool = 0" | "dtype_rank I8 = 1" | "dtype_rank U8 = 2" | "dtype_rank I16 = 3"
| "dtype_rank U16 = 4" | "dtype_rank I32 = 5" | "dtype_rank U32 = 6" | "dtype_rank I64 = 7"
| "dtype_rank U64 = 8" | "dtype_rank F8E4M3 = 9" | "dtype_rank F8E5M2 = 10" | "dtype_rank F8E4M3FNUZ = 11"
| "dtype_rank F8E5M2FNUZ = 12" | "dtype_rank F16 = 13" | "dtype_rank BF16 = 14" | "dtype_rank F32 = 15"
| "dtype_rank F64 = 16"

lemma dtype_rank_nth: "all_dtypes ! dtype_rank d = d"
  by (cases d) (simp_all add: all_dtypes_def)

lemma dtype_rank_inj: "dtype_rank d = dtype_rank e \<longleftrightarrow> d = e"
  using dtype_rank_nth by metis

lemma dtype_rank_less: "dtype_rank d < 17"
  by (cases d) simp_all

instantiation dtype :: linorder
begin

definition less_eq_dtype :: "dtype \<Rightarrow> dtype \<Rightarrow> bool" where
  "less_eq_dtype d e \<longleftrightarrow> dtype_rank d \<le> dtype_rank e"

definition less_dtype :: "dtype \<Rightarrow> dtype \<Rightarrow> bool" where
  "less_dtype d e \<longleftrightarrow> dtype_rank d < dtype_rank e"

instance
  by standard (auto simp: less_eq_dtype_def less_dtype_def dtype_rank_inj)

end

end
