(* ===== verification/LaneInstructions.thy ===== *)
theory LaneInstructions
  imports UOps
begin

section \<open>Lane instructions (src/src/linearize.rs)\<close>

text \<open>
  The instruction set of the portable lane renderers. Operands are registers of any type with the
  descriptor of what they hold; the same instructions are used with virtual registers and with
  allocated ones. Formatted error messages keep their fixed text only.
\<close>

datatype 'r typed_value = Typed (tv_register: 'r) (tv_ty: utype)

datatype 'r address_ref = AddressRef (ar_register: 'r) (ar_value: address_value)

datatype 'r index_ref = IndexRef (ix_register: 'r) (ix_value: index_value) (ix_element: utype)

datatype 'r lane_instruction =
    LaneConstant "'r typed_value" literal bool
  | LaneAddress "'r address_ref"
  | LaneRange "'r typed_value" "'r typed_value" nat
  | LaneIndex "'r index_ref" "'r address_ref" "'r typed_value"
  | LaneLoad "'r typed_value" "'r index_ref"
  | LaneCast "'r typed_value" "'r typed_value"
  | LaneBitcast "'r typed_value" "'r typed_value"
  | LaneCoreUnary "'r typed_value" "'r typed_value" unary
  | LaneGraphUnary "'r typed_value" "'r typed_value" unary_op
  | LaneCoreBinary "'r typed_value" "'r typed_value" "'r typed_value" binary
  | LaneCoreEq "'r typed_value" "'r typed_value" "'r typed_value"
  | LaneCoreLt "'r typed_value" "'r typed_value" "'r typed_value"
  | LaneCoreLe "'r typed_value" "'r typed_value" "'r typed_value"
  | LaneGraphBinary "'r typed_value" "'r typed_value" "'r typed_value" binary_op
  | LaneLogicalNot "'r typed_value" "'r typed_value"
  | LaneLogicalAnd "'r typed_value" "'r typed_value" "'r typed_value"
  | LaneLogicalOr "'r typed_value" "'r typed_value" "'r typed_value"
  | LaneCompare "'r typed_value" "'r typed_value" "'r typed_value" compare_op
  | LaneSelect "'r typed_value" "'r typed_value" "'r typed_value" "'r typed_value"
  | LaneStore "'r index_ref" "'r typed_value"

datatype lane_descriptor = DescValue utype | DescAddress address_value | DescIndex index_value utype

fun descriptor_ty :: "lane_descriptor \<Rightarrow> utype" where
  "descriptor_ty (DescValue t) = t"
| "descriptor_ty (DescAddress a) = ad_element a"
| "descriptor_ty (DescIndex _ t) = t"

type_synonym 'r lane_operand = "'r \<times> lane_descriptor"

record 'r lane_view =
  lv_inputs :: "'r lane_operand list"
  lv_output :: "'r lane_operand option"
  lv_buffer :: "nat option"
  lv_name :: string

fun value_operand :: "'r typed_value \<Rightarrow> 'r lane_operand" where
  "value_operand (Typed r t) = (r, DescValue t)"

fun address_operand :: "'r address_ref \<Rightarrow> 'r lane_operand" where
  "address_operand (AddressRef r a) = (r, DescAddress a)"

fun index_operand :: "'r index_ref \<Rightarrow> 'r lane_operand" where
  "index_operand (IndexRef r v t) = (r, DescIndex v t)"

definition value_view :: "'r typed_value list \<Rightarrow> 'r typed_value \<Rightarrow> string \<Rightarrow> 'r lane_view" where
  "value_view ins out name =
     \<lparr>lv_inputs = map value_operand ins, lv_output = Some (value_operand out), lv_buffer = None, lv_name = name\<rparr>"

fun space_name :: "memory_address \<Rightarrow> string" where
  "space_name GlobalSpace = ''define_global''"
| "space_name LocalSpace = ''define_local''"
| "space_name RegisterSpace = ''define_register''"

fun view_of :: "'r lane_instruction \<Rightarrow> 'r lane_view" where
  "view_of (LaneConstant out _ vector) = value_view [] out (if vector then ''vconst'' else ''const'')"
| "view_of (LaneAddress out) = \<lparr>lv_inputs = [], lv_output = Some (address_operand out), lv_buffer = None,
     lv_name = space_name (ad_space (ar_value out))\<rparr>"
| "view_of (LaneRange out bound _) = value_view [bound] out ''range''"
| "view_of (LaneIndex out address off) = \<lparr>lv_inputs = [address_operand address, value_operand off],
     lv_output = Some (index_operand out), lv_buffer = Some (iv_buffer (ix_value out)), lv_name = ''index''\<rparr>"
| "view_of (LaneLoad out index) = \<lparr>lv_inputs = [index_operand index], lv_output = Some (value_operand out),
     lv_buffer = Some (iv_buffer (ix_value index)), lv_name = ''load''\<rparr>"
| "view_of (LaneCast out input) = value_view [input] out ''cast''"
| "view_of (LaneBitcast out input) = value_view [input] out ''bitcast''"
| "view_of (LaneCoreUnary out input _) = value_view [input] out ''unary''"
| "view_of (LaneGraphUnary out input _) = value_view [input] out ''graph_unary''"
| "view_of (LaneCoreBinary out lhs rhs _) = value_view [lhs, rhs] out ''binary''"
| "view_of (LaneCoreEq out lhs rhs) = value_view [lhs, rhs] out ''compare''"
| "view_of (LaneCoreLt out lhs rhs) = value_view [lhs, rhs] out ''compare''"
| "view_of (LaneCoreLe out lhs rhs) = value_view [lhs, rhs] out ''compare''"
| "view_of (LaneGraphBinary out lhs rhs _) = value_view [lhs, rhs] out ''graph_binary''"
| "view_of (LaneLogicalNot out input) = value_view [input] out ''graph_logical''"
| "view_of (LaneLogicalAnd out lhs rhs) = value_view [lhs, rhs] out ''graph_logical''"
| "view_of (LaneLogicalOr out lhs rhs) = value_view [lhs, rhs] out ''graph_logical''"
| "view_of (LaneCompare out lhs rhs _) = value_view [lhs, rhs] out ''graph_compare''"
| "view_of (LaneSelect out c t f) = value_view [c, t, f] out ''where''"
| "view_of (LaneStore index val) = \<lparr>lv_inputs = [index_operand index, value_operand val], lv_output = None,
     lv_buffer = Some (iv_buffer (ix_value index)), lv_name = ''store''\<rparr>"

definition result_type :: "'r lane_view \<Rightarrow> utype option" where
  "result_type v = map_option (\<lambda>(_, d). descriptor_ty d) (lv_output v)"

definition typed_inputs :: "'r lane_view \<Rightarrow> ('r \<times> utype) list" where
  "typed_inputs v = map (\<lambda>(r, d). (r, descriptor_ty d)) (lv_inputs v)"

subsection \<open>Validation\<close>

datatype register_class = ScalarClass | VectorClass

datatype linearize_error =
    MissingStore
  | Untyped
  | LinOverflow
  | LinInvalid string
  | RegisterPressure register_class nat
  | LinPanic

definition typed_if :: "bool \<Rightarrow> (linearize_error, unit) result" where
  "typed_if b = (if b then Inr () else Inl Untyped)"

fun lane_validate :: "'r lane_instruction \<Rightarrow> (linearize_error, unit) result" where
  "lane_validate (LaneConstant out lit _) =
     (case lit of LitInt _ \<Rightarrow> Inr () | LitScalar d _ \<Rightarrow> typed_if (d = ut_scalar (tv_ty out)))"
| "lane_validate (LaneAddress _) = Inr ()"
| "lane_validate (LaneRange out bound _) = typed_if (is_integer (ut_scalar (tv_ty out)) \<and> tv_ty out = tv_ty bound)"
| "lane_validate (LaneIndex out address off) =
     typed_if (is_integer (ut_scalar (tv_ty off)) \<and> ix_element out = ad_element (ar_value address))"
| "lane_validate (LaneLoad out index) = typed_if (tv_ty out = ix_element index)"
| "lane_validate (LaneStore index val) = typed_if (ix_element index = tv_ty val)"
| "lane_validate (LaneCast out input) = typed_if (ut_lanes (tv_ty out) = ut_lanes (tv_ty input))"
| "lane_validate (LaneBitcast out input) = typed_if (ut_lanes (tv_ty out) = ut_lanes (tv_ty input))"
| "lane_validate (LaneCoreUnary out input _) = typed_if (tv_ty out = tv_ty input)"
| "lane_validate (LaneGraphUnary out input op) =
     typed_if (tv_ty out = \<lparr>ut_scalar = unary_dtype op (ut_scalar (tv_ty input)), ut_lanes = ut_lanes (tv_ty input)\<rparr>)"
| "lane_validate (LaneCoreBinary out lhs rhs op) =
     typed_if (op \<notin> {BEq, BLt, BLe} \<and> tv_ty out = tv_ty lhs \<and> tv_ty out = tv_ty rhs)"
| "lane_validate (LaneGraphBinary out lhs rhs _) =
     typed_if (ut_lanes (tv_ty out) = ut_lanes (tv_ty lhs) \<and> ut_lanes (tv_ty lhs) = ut_lanes (tv_ty rhs))"
| "lane_validate (LaneCoreEq out lhs rhs) =
     typed_if (ut_is_bool (tv_ty out) \<and> ut_lanes (tv_ty out) = ut_lanes (tv_ty lhs) \<and> tv_ty lhs = tv_ty rhs)"
| "lane_validate (LaneCoreLt out lhs rhs) =
     typed_if (ut_is_bool (tv_ty out) \<and> ut_lanes (tv_ty out) = ut_lanes (tv_ty lhs) \<and> tv_ty lhs = tv_ty rhs)"
| "lane_validate (LaneCoreLe out lhs rhs) =
     typed_if (ut_is_bool (tv_ty out) \<and> ut_lanes (tv_ty out) = ut_lanes (tv_ty lhs) \<and> tv_ty lhs = tv_ty rhs)"
| "lane_validate (LaneLogicalNot out input) = typed_if (ut_is_bool (tv_ty out) \<and> tv_ty input = tv_ty out)"
| "lane_validate (LaneLogicalAnd out lhs rhs) =
     typed_if (ut_is_bool (tv_ty out) \<and> tv_ty lhs = tv_ty out \<and> tv_ty rhs = tv_ty out)"
| "lane_validate (LaneLogicalOr out lhs rhs) =
     typed_if (ut_is_bool (tv_ty out) \<and> tv_ty lhs = tv_ty out \<and> tv_ty rhs = tv_ty out)"
| "lane_validate (LaneCompare out lhs rhs _) =
     typed_if (ut_is_bool (tv_ty out) \<and> ut_lanes (tv_ty out) = ut_lanes (tv_ty lhs) \<and> ut_lanes (tv_ty lhs) = ut_lanes (tv_ty rhs))"
| "lane_validate (LaneSelect out c t f) =
     typed_if (ut_is_bool (tv_ty c) \<and> ut_lanes (tv_ty c) = ut_lanes (tv_ty out) \<and> tv_ty t = tv_ty out \<and> tv_ty f = tv_ty out)"

subsection \<open>Renaming operands\<close>

definition map_value :: "('r \<Rightarrow> ('e, 's) result) \<Rightarrow> 'r typed_value \<Rightarrow> ('e, 's typed_value) result" where
  "map_value m v = rbind (m (tv_register v)) (\<lambda>r. Inr (Typed r (tv_ty v)))"

definition map_address :: "('r \<Rightarrow> ('e, 's) result) \<Rightarrow> 'r address_ref \<Rightarrow> ('e, 's address_ref) result" where
  "map_address m a = rbind (m (ar_register a)) (\<lambda>r. Inr (AddressRef r (ar_value a)))"

definition map_index :: "('r \<Rightarrow> ('e, 's) result) \<Rightarrow> 'r index_ref \<Rightarrow> ('e, 's index_ref) result" where
  "map_index m i = rbind (m (ix_register i)) (\<lambda>r. Inr (IndexRef r (ix_value i) (ix_element i)))"

definition map_unary ::
  "('r \<Rightarrow> ('e, 's) result) \<Rightarrow> ('s typed_value \<Rightarrow> 's typed_value \<Rightarrow> 's lane_instruction) \<Rightarrow>
   'r typed_value \<Rightarrow> 'r typed_value \<Rightarrow> ('e, 's lane_instruction) result" where
  "map_unary m mk out input = rbind (map_value m out) (\<lambda>out. rbind (map_value m input) (\<lambda>input. Inr (mk out input)))"

definition map_binary ::
  "('r \<Rightarrow> ('e, 's) result) \<Rightarrow> ('s typed_value \<Rightarrow> 's typed_value \<Rightarrow> 's typed_value \<Rightarrow> 's lane_instruction) \<Rightarrow>
   'r typed_value \<Rightarrow> 'r typed_value \<Rightarrow> 'r typed_value \<Rightarrow> ('e, 's lane_instruction) result" where
  "map_binary m mk out lhs rhs =
     rbind (map_value m out) (\<lambda>out. rbind (map_value m lhs) (\<lambda>lhs. rbind (map_value m rhs) (\<lambda>rhs. Inr (mk out lhs rhs))))"

fun map_operands :: "('r \<Rightarrow> ('e, 's) result) \<Rightarrow> 'r lane_instruction \<Rightarrow> ('e, 's lane_instruction) result" where
  "map_operands m (LaneConstant out lit vector) = rbind (map_value m out) (\<lambda>out. Inr (LaneConstant out lit vector))"
| "map_operands m (LaneAddress out) = rbind (map_address m out) (\<lambda>out. Inr (LaneAddress out))"
| "map_operands m (LaneRange out bound axis) = map_unary m (\<lambda>out bound. LaneRange out bound axis) out bound"
| "map_operands m (LaneIndex out address off) =
     rbind (map_index m out) (\<lambda>out. rbind (map_address m address) (\<lambda>address.
     rbind (map_value m off) (\<lambda>off. Inr (LaneIndex out address off))))"
| "map_operands m (LaneLoad out index) =
     rbind (map_value m out) (\<lambda>out. rbind (map_index m index) (\<lambda>index. Inr (LaneLoad out index)))"
| "map_operands m (LaneCast out input) = map_unary m LaneCast out input"
| "map_operands m (LaneBitcast out input) = map_unary m LaneBitcast out input"
| "map_operands m (LaneCoreUnary out input op) = map_unary m (\<lambda>out input. LaneCoreUnary out input op) out input"
| "map_operands m (LaneGraphUnary out input op) = map_unary m (\<lambda>out input. LaneGraphUnary out input op) out input"
| "map_operands m (LaneCoreBinary out lhs rhs op) = map_binary m (\<lambda>out lhs rhs. LaneCoreBinary out lhs rhs op) out lhs rhs"
| "map_operands m (LaneCoreEq out lhs rhs) = map_binary m LaneCoreEq out lhs rhs"
| "map_operands m (LaneCoreLt out lhs rhs) = map_binary m LaneCoreLt out lhs rhs"
| "map_operands m (LaneCoreLe out lhs rhs) = map_binary m LaneCoreLe out lhs rhs"
| "map_operands m (LaneGraphBinary out lhs rhs op) = map_binary m (\<lambda>out lhs rhs. LaneGraphBinary out lhs rhs op) out lhs rhs"
| "map_operands m (LaneLogicalNot out input) = map_unary m LaneLogicalNot out input"
| "map_operands m (LaneLogicalAnd out lhs rhs) = map_binary m LaneLogicalAnd out lhs rhs"
| "map_operands m (LaneLogicalOr out lhs rhs) = map_binary m LaneLogicalOr out lhs rhs"
| "map_operands m (LaneCompare out lhs rhs op) = map_binary m (\<lambda>out lhs rhs. LaneCompare out lhs rhs op) out lhs rhs"
| "map_operands m (LaneSelect out c t f) =
     rbind (map_value m out) (\<lambda>out. rbind (map_value m c) (\<lambda>c. rbind (map_value m t) (\<lambda>t. rbind (map_value m f) (\<lambda>f.
     Inr (LaneSelect out c t f)))))"
| "map_operands m (LaneStore index val) =
     rbind (map_index m index) (\<lambda>index. rbind (map_value m val) (\<lambda>val. Inr (LaneStore index val)))"

subsection \<open>Sequences\<close>

datatype 'r program_instruction = ProgramInstruction (pi_index: nat) (pi_instruction: "'r lane_instruction")

text \<open>One operand of \<open>validate_lane_sequence\<close>, then one instruction. \<open>key\<close>, \<open>live\<close> and \<open>canonical\<close> are the
  closures of the caller.\<close>

definition check_operand ::
  "('r \<Rightarrow> 'k) \<Rightarrow> ('r \<Rightarrow> nat \<Rightarrow> lane_descriptor \<Rightarrow> bool) \<Rightarrow> ('k \<Rightarrow> bool) \<Rightarrow> nat \<Rightarrow> ('k \<rightharpoonup> lane_descriptor) \<Rightarrow>
   'r lane_operand \<Rightarrow> (string, unit) result" where
  "check_operand key live omitted index defined = (\<lambda>(r, expected).
    (case defined (key r) of
       Some actual \<Rightarrow>
         if actual = expected
         then if live r index expected then Inr () else Inl ''lane operand has no live compatible binding''
         else Inl ''lane operand descriptor mismatch''
     | None \<Rightarrow> if omitted (key r) then Inr () else Inl ''lane operand is used before definition''))"

definition check_output ::
  "('r \<Rightarrow> 'k) \<Rightarrow> ('r \<Rightarrow> nat \<Rightarrow> lane_descriptor \<Rightarrow> bool) \<Rightarrow> (nat \<Rightarrow> 'r \<Rightarrow> bool) \<Rightarrow> nat \<Rightarrow> ('k \<rightharpoonup> lane_descriptor) \<Rightarrow>
   'r lane_operand \<Rightarrow> (string, 'k \<rightharpoonup> lane_descriptor) result" where
  "check_output key live canonical index defined = (\<lambda>(r, d).
    (if \<not> canonical index r then Inl ''lane instruction defines a noncanonical output''
     else if \<not> live r index d then Inl ''lane output has no live compatible binding''
     else Inr (defined(key r \<mapsto> d))))"

definition check_lane_step ::
  "('k \<Rightarrow> bool) \<Rightarrow> ('r \<Rightarrow> 'k) \<Rightarrow> ('r \<Rightarrow> nat \<Rightarrow> lane_descriptor \<Rightarrow> bool) \<Rightarrow> (nat \<Rightarrow> 'r \<Rightarrow> bool) \<Rightarrow>
   nat option \<times> ('k \<rightharpoonup> lane_descriptor) \<Rightarrow> 'r program_instruction \<Rightarrow>
   (string, nat option \<times> ('k \<rightharpoonup> lane_descriptor)) result" where
  "check_lane_step omitted key live canonical = (\<lambda>(previous, defined) pi.
    (if (case previous of None \<Rightarrow> False | Some p \<Rightarrow> pi_index pi \<le> p)
     then Inl ''lane instruction indices are not strictly ordered''
     else rbind (map_err (\<lambda>_. ''linearize error'') (lane_validate (pi_instruction pi))) (\<lambda>_.
          rbind (try_fold (\<lambda>_. check_operand key live omitted (pi_index pi) defined) () (lv_inputs (view_of (pi_instruction pi)))) (\<lambda>_.
          rbind (case lv_output (view_of (pi_instruction pi)) of
                   None \<Rightarrow> Inr defined
                 | Some out \<Rightarrow> check_output key live canonical (pi_index pi) defined out) (\<lambda>defined'.
          Inr (Some (pi_index pi), defined'))))))"

definition validate_lane_sequence ::
  "'r program_instruction list \<Rightarrow> ('k \<Rightarrow> bool) \<Rightarrow> ('r \<Rightarrow> 'k) \<Rightarrow> ('r \<Rightarrow> nat \<Rightarrow> lane_descriptor \<Rightarrow> bool) \<Rightarrow>
   (nat \<Rightarrow> 'r \<Rightarrow> bool) \<Rightarrow> (string, unit) result" where
  "validate_lane_sequence instructions omitted key live canonical =
     rbind (try_fold (check_lane_step omitted key live canonical) (None, Map.empty) instructions) (\<lambda>_. Inr ())"

end
