(* ===== verification/Linearize.thy ===== *)
theory Linearize
  imports LaneInstructions "HOL-Library.Product_Lexorder"
begin

section \<open>Linearization of ranged operations (src/src/linearize.rs)\<close>

text \<open>
  The late pass that turns the operation DAG of a kernel into a straight list of lane instructions, one
  virtual register per node, computes the live interval of each register and allocates physical ones.
  \<open>u32\<close> numbers that count nodes are written with their truncation. The structural hash a kernel
  carries is never read by the code and has no counterpart.
\<close>

definition as_u32 :: "nat \<Rightarrow> nat" where
  "as_u32 n = n mod 2 ^ 32"

lemma as_u32_code [code]: "as_u32 n = (if int n < 4294967296 then n else n mod 2 ^ 32)"
  by (auto simp: as_u32_def)

subsection \<open>Producers\<close>

type_synonym 'x producer_key = "'x operation \<times> utype option \<times> uop_tag option \<times> nat list"

record 'x producers =
  pr_nodes :: "'x uop list"
  pr_owners :: "nat \<rightharpoonup> nat"
  pr_structural :: "'x producer_key \<rightharpoonup> nat"

definition no_producers :: "'x producers" where
  "no_producers = \<lparr>pr_nodes = [], pr_owners = Map.empty, pr_structural = Map.empty\<rparr>"

text \<open>The owner of a source, which the visit of the source has entered.\<close>

definition owner_of :: "'x producers \<Rightarrow> 'x uop \<Rightarrow> nat" where
  "owner_of pr u = the (pr_owners pr (uop_identity u))"

definition number_node :: "'x uop \<Rightarrow> 'x producers \<Rightarrow> 'x producers" where
  "number_node u pr =
    (let key = (uop_operation u, uop_ty u, uop_tag u, map (owner_of pr) (uop_sources u)) in
     case pr_structural pr key of
       Some i \<Rightarrow> pr\<lparr>pr_owners := (pr_owners pr)(uop_identity u \<mapsto> i)\<rparr>
     | None \<Rightarrow> let i = as_u32 (length (pr_nodes pr)) in
         \<lparr>pr_nodes = pr_nodes pr @ [u], pr_owners = (pr_owners pr)(uop_identity u \<mapsto> i),
          pr_structural = (pr_structural pr)(key \<mapsto> i)\<rparr>)"

fun visit :: "'x uop \<Rightarrow> 'x producers \<Rightarrow> 'x producers" and visit_all :: "'x uop list \<Rightarrow> 'x producers \<Rightarrow> 'x producers" where
  "visit (UOp i op ty tag srcs) pr =
    (if pr_owners pr i \<noteq> None then pr else number_node (UOp i op ty tag srcs) (visit_all srcs pr))"
| "visit_all [] pr = pr"
| "visit_all (u # us) pr = visit_all us (visit u pr)"

definition lane_producers :: "'x uop \<Rightarrow> 'x producers" where
  "lane_producers root = visit root no_producers"

subsection \<open>Projection\<close>

type_synonym 'x source_register = "nat \<Rightarrow> 'x uop \<Rightarrow> (linearize_error, nat) result"

definition node_source :: "'x uop \<Rightarrow> 'x source_register \<Rightarrow> nat \<Rightarrow> (linearize_error, 'x uop \<times> nat) result" where
  "node_source u reg slot =
    (if slot < length (uop_sources u)
     then rbind (reg slot (uop_sources u ! slot)) (\<lambda>r. Inr (uop_sources u ! slot, r))
     else Inl (LinInvalid ''missing source''))"

definition typed_source :: "'x uop \<Rightarrow> 'x source_register \<Rightarrow> nat \<Rightarrow> (linearize_error, nat typed_value) result" where
  "typed_source u reg slot =
     rbind (node_source u reg slot) (\<lambda>(src, r). rbind (ok_or Untyped (uop_ty src)) (\<lambda>t. Inr (Typed r t)))"

fun address_payload :: "'x operation \<Rightarrow> address_value option" where
  "address_payload (OpDefineGlobal a) = Some a"
| "address_payload (OpDefineLocal a) = Some a"
| "address_payload (OpDefineRegister a) = Some a"
| "address_payload _ = None"

definition address_source :: "'x uop \<Rightarrow> 'x source_register \<Rightarrow> nat \<Rightarrow> (linearize_error, nat address_ref) result" where
  "address_source u reg slot =
     rbind (node_source u reg slot) (\<lambda>(src, r).
     rbind (ok_or (LinInvalid ''source is not an address'') (address_payload (uop_operation src))) (\<lambda>a.
     if uop_ty src \<noteq> Some (ad_element a) then Inl Untyped else Inr (AddressRef r a)))"

fun index_payload :: "'x operation \<Rightarrow> index_value option" where
  "index_payload (OpIndex v) = Some v"
| "index_payload _ = None"

definition index_source :: "'x uop \<Rightarrow> 'x source_register \<Rightarrow> nat \<Rightarrow> (linearize_error, nat index_ref) result" where
  "index_source u reg slot =
     rbind (node_source u reg slot) (\<lambda>(src, r).
     rbind (ok_or (LinInvalid ''source is not an index'') (index_payload (uop_operation src))) (\<lambda>v.
     rbind (ok_or Untyped (uop_ty src)) (\<lambda>t. Inr (IndexRef r v t))))"

definition node_output :: "'x uop \<Rightarrow> nat \<Rightarrow> (linearize_error, nat typed_value) result" where
  "node_output u r = rbind (ok_or Untyped (uop_ty u)) (\<lambda>t. Inr (Typed r t))"

definition project_constant ::
  "'x uop \<Rightarrow> nat \<Rightarrow> literal \<Rightarrow> bool \<Rightarrow> (linearize_error, nat lane_instruction) result" where
  "project_constant u r lit vector = rbind (node_output u r) (\<lambda>out. Inr (LaneConstant out lit vector))"

definition project_address :: "'x uop \<Rightarrow> nat \<Rightarrow> address_value \<Rightarrow> (linearize_error, nat lane_instruction) result" where
  "project_address u r a =
    (if uop_ty u \<noteq> Some (ad_element a) then Inl Untyped else Inr (LaneAddress (AddressRef r a)))"

definition project_unary ::
  "'x uop \<Rightarrow> nat \<Rightarrow> 'x source_register \<Rightarrow> (nat typed_value \<Rightarrow> nat typed_value \<Rightarrow> nat lane_instruction) \<Rightarrow>
   (linearize_error, nat lane_instruction) result" where
  "project_unary u r reg mk =
     rbind (node_output u r) (\<lambda>out. rbind (typed_source u reg 0) (\<lambda>input. Inr (mk out input)))"

definition project_binary ::
  "'x uop \<Rightarrow> nat \<Rightarrow> 'x source_register \<Rightarrow>
   (nat typed_value \<Rightarrow> nat typed_value \<Rightarrow> nat typed_value \<Rightarrow> nat lane_instruction) \<Rightarrow>
   (linearize_error, nat lane_instruction) result" where
  "project_binary u r reg mk =
     rbind (node_output u r) (\<lambda>out. rbind (typed_source u reg 0) (\<lambda>lhs. rbind (typed_source u reg 1) (\<lambda>rhs.
     Inr (mk out lhs rhs))))"

text \<open>The operations with a lane instruction; \<open>None\<close> is the source's \<open>return Ok(None)\<close>.\<close>

fun project_operation ::
  "'x operation \<Rightarrow> 'x uop \<Rightarrow> nat \<Rightarrow> 'x source_register \<Rightarrow> (linearize_error, nat lane_instruction) result option" where
  "project_operation (OpConst lit) u r reg = Some (project_constant u r lit False)"
| "project_operation (OpVConst lit) u r reg = Some (project_constant u r lit True)"
| "project_operation (OpDefineGlobal a) u r reg = Some (project_address u r a)"
| "project_operation (OpDefineLocal a) u r reg = Some (project_address u r a)"
| "project_operation (OpDefineRegister a) u r reg = Some (project_address u r a)"
| "project_operation (OpRange axis) u r reg = Some (project_unary u r reg (\<lambda>out bound. LaneRange out bound axis))"
| "project_operation (OpIndex v) u r reg = Some (
     rbind (ok_or Untyped (uop_ty u)) (\<lambda>t.
     rbind (address_source u reg 0) (\<lambda>address.
     rbind (typed_source u reg 1) (\<lambda>off. Inr (LaneIndex (IndexRef r v t) address off)))))"
| "project_operation OpLoad u r reg = Some (
     rbind (node_output u r) (\<lambda>out. rbind (index_source u reg 0) (\<lambda>index. Inr (LaneLoad out index))))"
| "project_operation OpCast u r reg = Some (project_unary u r reg LaneCast)"
| "project_operation OpBitcast u r reg = Some (project_unary u r reg LaneBitcast)"
| "project_operation (OpUnary op) u r reg = Some (project_unary u r reg (\<lambda>out input. LaneCoreUnary out input op))"
| "project_operation (OpGraphUnary op) u r reg = Some (project_unary u r reg (\<lambda>out input. LaneGraphUnary out input op))"
| "project_operation (OpBinary op) u r reg = Some (project_binary u r reg (\<lambda>out lhs rhs.
     case op of BEq \<Rightarrow> LaneCoreEq out lhs rhs | BLt \<Rightarrow> LaneCoreLt out lhs rhs | BLe \<Rightarrow> LaneCoreLe out lhs rhs
     | _ \<Rightarrow> LaneCoreBinary out lhs rhs op))"
| "project_operation (OpGraphBinary op) u r reg = Some (project_binary u r reg (\<lambda>out lhs rhs. LaneGraphBinary out lhs rhs op))"
| "project_operation (OpGraphLogical op) u r reg = Some (
     case op of LNot \<Rightarrow> project_unary u r reg LaneLogicalNot
     | LAnd \<Rightarrow> project_binary u r reg LaneLogicalAnd
     | LOr \<Rightarrow> project_binary u r reg LaneLogicalOr)"
| "project_operation (OpGraphCompare op) u r reg = Some (project_binary u r reg (\<lambda>out lhs rhs. LaneCompare out lhs rhs op))"
| "project_operation (OpTernary op) u r reg = Some (
     rbind (node_output u r) (\<lambda>out. rbind (typed_source u reg 0) (\<lambda>c. rbind (typed_source u reg 1) (\<lambda>t.
     rbind (typed_source u reg 2) (\<lambda>f. Inr (LaneSelect out c t f))))))"
| "project_operation OpStore u r reg = Some (
     rbind (index_source u reg 0) (\<lambda>index. rbind (typed_source u reg 1) (\<lambda>val. Inr (LaneStore index val))))"
| "project_operation _ u r reg = None"

definition project_lane_instruction ::
  "'x uop \<Rightarrow> nat \<Rightarrow> 'x source_register \<Rightarrow> (linearize_error, nat lane_instruction option) result" where
  "project_lane_instruction u r reg =
    (case project_operation (uop_operation u) u r reg of
       None \<Rightarrow> Inr None
     | Some result \<Rightarrow> rbind result (\<lambda>instruction. rbind (lane_validate instruction) (\<lambda>_. Inr (Some instruction))))"

record 'x source_record =
  sr_index :: nat
  sr_operation :: "'x operation"

record 'x lane_projection =
  lp_instructions :: "nat program_instruction list"
  lp_control :: "'x source_record list"
  lp_unsupported :: "'x source_record list"

definition is_control :: "'x operation \<Rightarrow> bool" where
  "is_control op \<longleftrightarrow> op = OpEndRange \<or> op = OpSink"

definition source_reg :: "('x uop \<Rightarrow> nat option) \<Rightarrow> 'x source_register" where
  "source_reg source_id = (\<lambda>slot src. ok_or (LinInvalid ''source is unordered'') (source_id src))"

definition project_node ::
  "('x uop \<Rightarrow> nat option) \<Rightarrow> 'x lane_projection \<Rightarrow> nat \<times> 'x uop \<Rightarrow> (linearize_error, 'x lane_projection) result" where
  "project_node source_id = (\<lambda>p (index, u).
     rbind (project_lane_instruction u (as_u32 index) (source_reg source_id)) (\<lambda>instruction.
     case instruction of
       Some ins \<Rightarrow> Inr (p\<lparr>lp_instructions := lp_instructions p @ [ProgramInstruction (as_u32 index) ins]\<rparr>)
     | None \<Rightarrow>
         if is_control (uop_operation u)
         then Inr (p\<lparr>lp_control := lp_control p @ [\<lparr>sr_index = as_u32 index, sr_operation = uop_operation u\<rparr>]\<rparr>)
         else Inr (p\<lparr>lp_unsupported := lp_unsupported p @ [\<lparr>sr_index = as_u32 index, sr_operation = uop_operation u\<rparr>]\<rparr>)))"

definition project_lane_nodes ::
  "'x uop list \<Rightarrow> ('x uop \<Rightarrow> nat option) \<Rightarrow> (linearize_error, 'x lane_projection) result" where
  "project_lane_nodes nodes source_id =
     try_fold (project_node source_id) \<lparr>lp_instructions = [], lp_control = [], lp_unsupported = []\<rparr> (enumerate 0 nodes)"

definition project :: "'x producers \<Rightarrow> (linearize_error, 'x lane_projection) result" where
  "project pr = project_lane_nodes (pr_nodes pr) (\<lambda>src. pr_owners pr (uop_identity src))"

subsection \<open>Live intervals\<close>

record live_interval =
  li_virtual :: nat
  li_class :: register_class
  li_dtype :: dtype
  li_start :: nat
  li_end :: nat

definition record_use :: "nat \<Rightarrow> (nat \<rightharpoonup> nat) \<Rightarrow> nat \<Rightarrow> (nat \<rightharpoonup> nat)" where
  "record_use index m r = m(r \<mapsto> (case m r of Some l \<Rightarrow> max l index | None \<Rightarrow> index))"

definition last_uses :: "nat program_instruction list \<Rightarrow> nat \<rightharpoonup> nat" where
  "last_uses instructions =
     foldl (\<lambda>m pi. foldl (record_use (pi_index pi)) m (map fst (lv_inputs (view_of (pi_instruction pi))))) Map.empty instructions"

text \<open>The type an expression of the renderers has: half floats are decoded into \<open>f32\<close> registers.\<close>

definition register_dtype :: "dtype \<Rightarrow> dtype" where
  "register_dtype d = (if d = F16 \<or> d = BF16 then F32 else d)"

definition interval_of :: "(nat \<rightharpoonup> nat) \<Rightarrow> nat \<Rightarrow> nat program_instruction \<Rightarrow> live_interval option" where
  "interval_of uses lanes pi =
     map_option (\<lambda>(r, d). \<lparr>li_virtual = r, li_class = (if 1 < lanes then VectorClass else ScalarClass),
         li_dtype = register_dtype (ut_scalar (descriptor_ty d)), li_start = pi_index pi,
         li_end = (case uses r of Some e \<Rightarrow> e | None \<Rightarrow> pi_index pi)\<rparr>)
       (lv_output (view_of (pi_instruction pi)))"

definition intervals :: "nat program_instruction list \<Rightarrow> nat \<Rightarrow> live_interval list" where
  "intervals instructions lanes = List.map_filter (interval_of (last_uses instructions) lanes) instructions"

subsection \<open>Register allocation\<close>

record register_assignment =
  ra_virtual :: nat
  ra_class :: register_class
  ra_dtype :: dtype
  ra_physical :: nat

fun class_rank :: "register_class \<Rightarrow> nat" where
  "class_rank ScalarClass = 0"
| "class_rank VectorClass = 1"

lemma class_rank_inj: "class_rank c = class_rank d \<longleftrightarrow> c = d"
  by (cases c; cases d) simp_all

instantiation register_class :: linorder
begin

definition less_eq_register_class :: "register_class \<Rightarrow> register_class \<Rightarrow> bool" where
  "less_eq_register_class c d \<longleftrightarrow> class_rank c \<le> class_rank d"

definition less_register_class :: "register_class \<Rightarrow> register_class \<Rightarrow> bool" where
  "less_register_class c d \<longleftrightarrow> class_rank c < class_rank d"

instance
  by standard (auto simp: less_eq_register_class_def less_register_class_def class_rank_inj)

end

definition interval_key :: "live_interval \<Rightarrow> register_class \<times> dtype \<times> nat \<times> nat" where
  "interval_key i = (li_class i, li_dtype i, li_start i, li_virtual i)"

type_synonym active_registers = "register_class \<times> dtype \<Rightarrow> (nat \<times> nat) list"

definition free_register :: "nat \<Rightarrow> (nat \<times> nat) list \<Rightarrow> nat option" where
  "free_register limit live = find (\<lambda>candidate. candidate \<notin> snd ` set live) [0..<as_u32 limit]"

definition allocate_interval ::
  "nat \<Rightarrow> active_registers \<times> register_assignment list \<Rightarrow> live_interval \<Rightarrow>
   (linearize_error, active_registers \<times> register_assignment list) result" where
  "allocate_interval limit = (\<lambda>(active, assigned) i.
    (let key = (li_class i, li_dtype i);
         live = filter (\<lambda>(e, _). li_start i \<le> e) (active key)
     in rbind (ok_or (RegisterPressure (li_class i) limit) (free_register limit live)) (\<lambda>physical.
        Inr (active(key := sort (live @ [(li_end i, physical)])),
             assigned @ [\<lparr>ra_virtual = li_virtual i, ra_class = li_class i, ra_dtype = li_dtype i, ra_physical = physical\<rparr>]))))"

definition allocate :: "live_interval list \<Rightarrow> nat \<Rightarrow> (linearize_error, register_assignment list) result" where
  "allocate ints limit =
     rbind (try_fold (allocate_interval limit) (\<lambda>_. [], []) (sort_key interval_key ints)) (\<lambda>(_, assigned).
     Inr (sort_key ra_virtual assigned))"

subsection \<open>The program\<close>

record 'x linear_program =
  pg_instructions :: "nat program_instruction list"
  pg_control :: "'x source_record list"
  pg_unsupported :: "'x source_record list"
  pg_intervals :: "live_interval list"
  pg_assignments :: "register_assignment list"
  pg_peak_scalar :: nat
  pg_peak_vector :: nat

definition peak_of :: "register_class \<Rightarrow> register_assignment list \<Rightarrow> nat" where
  "peak_of c as = foldl max 0 (map (\<lambda>a. ra_physical a + 1) (filter (\<lambda>a. ra_class a = c) as))"

definition linear_program_of ::
  "nat program_instruction list \<Rightarrow> 'x source_record list \<Rightarrow> 'x source_record list \<Rightarrow> nat \<Rightarrow>
   (linearize_error, 'x linear_program) result" where
  "linear_program_of instructions control unsupported lanes =
    (let ints = intervals instructions lanes in
     rbind (allocate ints 64) (\<lambda>assignments.
     Inr \<lparr>pg_instructions = instructions, pg_control = control, pg_unsupported = unsupported, pg_intervals = ints,
       pg_assignments = assignments, pg_peak_scalar = peak_of ScalarClass assignments,
       pg_peak_vector = peak_of VectorClass assignments\<rparr>))"

definition lane_width_ok :: "nat \<Rightarrow> 'r program_instruction \<Rightarrow> bool" where
  "lane_width_ok lanes pi =
    (let v = view_of (pi_instruction pi) in
     list_all (\<lambda>t. (if ut_lanes t = 1 then lanes else ut_lanes t) = lanes)
       (map snd (typed_inputs v) @ (case result_type v of None \<Rightarrow> [] | Some t \<Rightarrow> [t])))"

text \<open>The records of the operations kept out of the lane program. Membership stands for the binary search,
  which agrees with it on the sorted lists every accepted program has.\<close>

definition check_control ::
  "nat list \<Rightarrow> nat option \<Rightarrow> 'x source_record \<Rightarrow> (linearize_error, nat option) result" where
  "check_control indices = (\<lambda>previous r.
    (if \<not> is_control (sr_operation r) \<or> (case previous of None \<Rightarrow> False | Some p \<Rightarrow> sr_index r \<le> p) \<or> sr_index r \<in> set indices
     then Inl (LinInvalid ''lane control operation records are not canonical'') else Inr (Some (sr_index r))))"

definition check_unsupported ::
  "nat list \<Rightarrow> nat option \<Rightarrow> 'x source_record \<Rightarrow> (linearize_error, nat option) result" where
  "check_unsupported indices = (\<lambda>previous r.
    (if (case previous of None \<Rightarrow> False | Some p \<Rightarrow> sr_index r \<le> p) \<or> sr_index r \<in> set indices
     then Inl (LinInvalid ''unsupported lane operation indices are not canonical'') else Inr (Some (sr_index r))))"

definition validate_program :: "'x linear_program \<Rightarrow> nat \<Rightarrow> (linearize_error, unit) result" where
  "validate_program pg lanes =
    (let indices = map pi_index (pg_instructions pg) in
     rbind (try_fold (\<lambda>_ pi. if lane_width_ok lanes pi then Inr ()
                             else Inl (LinInvalid ''linear instruction has inconsistent lane width'')) () (pg_instructions pg)) (\<lambda>_.
     rbind (try_fold (check_control indices) None (pg_control pg)) (\<lambda>_.
     rbind (try_fold (check_unsupported (map sr_index (pg_control pg) @ indices)) None (pg_unsupported pg)) (\<lambda>_.
     map_err LinInvalid (validate_lane_sequence (pg_instructions pg) (\<lambda>r. r \<in> set (map sr_index (pg_unsupported pg)))
       (\<lambda>r. r) (\<lambda>_ _ _. True) (\<lambda>index out. index = out))))))"

subsection \<open>Kernels\<close>

datatype linear_access = ContiguousVector | ScalarSplat | ScalarOnly string

record linear_buffer =
  lb_buffer :: nat
  lb_dtype :: dtype
  lb_elements :: nat
  lb_input_shape :: shape
  lb_byte_offset :: nat
  lb_byte_stride :: nat
  lb_alignment :: nat
  lb_mutable :: bool
  lb_access :: linear_access

record 'x linear_kernel =
  lk_source :: "'x uop"
  lk_output_buffer :: nat
  lk_output_shape :: shape
  lk_dtype :: dtype
  lk_elements :: nat
  lk_lanes :: nat
  lk_vector_main :: nat
  lk_scalar_tail :: nat
  lk_tail_mask :: "bool list"
  lk_buffers :: "linear_buffer list"
  lk_enabled :: bool
  lk_reason :: string
  lk_program :: "'x linear_program"

record index_facts =
  xf_buffer :: nat
  xf_logical :: nat
  xf_physical :: nat
  xf_input :: shape
  xf_output :: shape
  xf_offset :: nat
  xf_contiguous :: bool
  xf_projected :: bool

fun index_facts_of :: "index_value \<Rightarrow> (linearize_error, index_facts) result" where
  "index_facts_of (IndexBuffer b n ins outs addressing) =
     Inr \<lparr>xf_buffer = b, xf_logical = n, xf_physical = n, xf_input = ins, xf_output = outs, xf_offset = 0,
       xf_contiguous = True, xf_projected = (addressing \<noteq> Broadcast)\<rparr>"
| "index_facts_of (IndexView b n ins outs v) =
     rbind (map_err (\<lambda>_. LinOverflow) (numel (av_source v))) (\<lambda>physical.
     rbind (ok_or LinOverflow (usize_of_int (av_offset v))) (\<lambda>off.
     Inr \<lparr>xf_buffer = b, xf_logical = n, xf_physical = physical, xf_input = ins, xf_output = outs, xf_offset = off,
       xf_contiguous = (av_strides v = map as_i64 (contiguous_strides (av_logical v))), xf_projected = False\<rparr>))"

text \<open>How a buffer is read, with the reason when it forces the scalar path.\<close>

definition access_of :: "nat \<Rightarrow> shape \<Rightarrow> nat \<Rightarrow> dtype \<Rightarrow> nat \<Rightarrow> index_facts \<Rightarrow> linear_access" where
  "access_of output_buffer output_shape lanes d byte_offset x =
    (if xf_buffer x = output_buffer then ContiguousVector
     else if xf_projected x then ScalarOnly ''projected index requires scalar address evaluation''
     else if xf_physical x = 1 then ScalarSplat
     else if xf_logical x = 1 \<or> xf_output x \<noteq> output_shape \<or> xf_input x \<noteq> output_shape \<or> \<not> xf_contiguous x
     then ScalarOnly ''varying broadcast, view, or non-contiguous index''
     else if byte_offset mod (lanes * itemsize d) \<noteq> 0 then ScalarOnly ''misaligned view byte offset''
     else ContiguousVector)"

type_synonym plan_state = "(bool \<times> string) \<times> (nat \<times> linear_buffer) list"

definition plan_node ::
  "nat \<Rightarrow> shape \<Rightarrow> nat \<Rightarrow> plan_state \<Rightarrow> 'x uop \<Rightarrow> (linearize_error, plan_state) result" where
  "plan_node output_buffer output_shape lanes = (\<lambda>((enabled, reason), buffers) u.
    (case (uop_ty u, index_payload (uop_operation u)) of
       (Some ty, Some v) \<Rightarrow>
         rbind (index_facts_of v) (\<lambda>x.
         rbind (ok_or LinOverflow (checked_mul_u (xf_offset x) (itemsize (ut_scalar ty)))) (\<lambda>byte_offset.
         let access = access_of output_buffer output_shape lanes (ut_scalar ty) byte_offset x
         in Inr (case access of ScalarOnly why \<Rightarrow> (False, why) | _ \<Rightarrow> (enabled, reason),
              or_insert (xf_buffer x) \<lparr>lb_buffer = xf_buffer x, lb_dtype = ut_scalar ty, lb_elements = xf_physical x,
                lb_input_shape = xf_input x, lb_byte_offset = byte_offset, lb_byte_stride = itemsize (ut_scalar ty),
                lb_alignment = max (itemsize (ut_scalar ty)) 1, lb_mutable = (xf_buffer x = output_buffer),
                lb_access = access\<rparr> buffers)))
     | _ \<Rightarrow> Inr ((enabled, reason), buffers)))"

fun needs_scalar_path :: "'x operation \<Rightarrow> bool" where
  "needs_scalar_path (OpReduceInit _) = True"
| "needs_scalar_path OpReduceAccumulate = True"
| "needs_scalar_path OpReduceFinalize = True"
| "needs_scalar_path OpBarrier = True"
| "needs_scalar_path _ = False"

fun dense_target :: "'x operation \<Rightarrow> (nat \<times> nat \<times> shape) option" where
  "dense_target (OpIndex (IndexBuffer b n _ outs _)) = Some (b, n, outs)"
| "dense_target _ = None"

definition vector_lanes :: "dtype \<Rightarrow> nat" where
  "vector_lanes d = max (16 div itemsize d) 1"

definition lane_policy :: "'x uop list \<Rightarrow> nat \<Rightarrow> bool \<times> string" where
  "lane_policy nodes lanes =
    (if list_ex (\<lambda>u. needs_scalar_path (uop_operation u)) nodes then (False, ''reduction or effect requires scalar path'')
     else if 1 < lanes then (True, ''contiguous portable lane plan'') else (False, ''64-bit scalar policy''))"

definition from_validated_source :: "'x uop \<Rightarrow> (linearize_error, 'x linear_kernel) result" where
  "from_validated_source source =
    (let pr = lane_producers source; nodes = pr_nodes pr in
     rbind (ok_or MissingStore (find (\<lambda>u. uop_operation u = OpStore) (uop_sources source))) (\<lambda>store.
     rbind (case uop_sources store of [] \<Rightarrow> Inl MissingStore | out # _ \<Rightarrow> Inr out) (\<lambda>out.
     rbind (ok_or MissingStore (dense_target (uop_operation out))) (\<lambda>(output_buffer, elements, output_shape).
     rbind (ok_or Untyped (uop_ty out)) (\<lambda>ty.
     let d = ut_scalar ty; lanes = vector_lanes d in
     rbind (try_fold (plan_node output_buffer output_shape lanes) (lane_policy nodes lanes, []) nodes) (\<lambda>((enabled, reason), buffers).
     rbind (project pr) (\<lambda>projection.
     let (enabled, reason) = (if lp_unsupported projection = [] then (enabled, reason)
                              else (False, ''unsupported lane operation''));
         vector_main = (if enabled then elements div lanes * lanes else 0) in
     rbind (ok_or LinOverflow (checked_sub_u elements vector_main)) (\<lambda>scalar_tail.
     rbind (linear_program_of (lp_instructions projection) (lp_control projection) (lp_unsupported projection)
        (if enabled then lanes else 1)) (\<lambda>program.
     Inr \<lparr>lk_source = source, lk_output_buffer = output_buffer, lk_output_shape = output_shape, lk_dtype = d,
       lk_elements = elements, lk_lanes = lanes, lk_vector_main = vector_main, lk_scalar_tail = scalar_tail,
       lk_tail_mask = map (\<lambda>lane. lane < scalar_tail) [0..<lanes], lk_buffers = map snd buffers,
       lk_enabled = enabled, lk_reason = reason, lk_program = program\<rparr>)))))))))"

definition validate_geometry :: "'x linear_kernel \<Rightarrow> (linearize_error, unit) result" where
  "validate_geometry k =
    (if lk_lanes k = 0 \<or> length (lk_tail_mask k) \<noteq> lk_lanes k then Inl (LinInvalid ''invalid lane mask'')
     else if checked_add_u (lk_vector_main k) (lk_scalar_tail k) \<noteq> Some (lk_elements k) then Inl LinOverflow
     else if lk_enabled k \<and> lk_vector_main k mod lk_lanes k \<noteq> 0 then Inl (LinInvalid ''vector main is not lane aligned'')
     else if length (filter lb_mutable (lk_buffers k)) \<noteq> 1 then Inl (LinInvalid ''requires exactly one mutable output'')
     else if pg_unsupported (lk_program k) \<noteq> [] \<and> lk_enabled k
     then Inl (LinInvalid ''a lane plan with unsupported operations cannot be enabled'')
     else Inr ())"

definition validate_registers :: "'x linear_kernel \<Rightarrow> (linearize_error, unit) result" where
  "validate_registers k =
    (if (if lk_enabled k then lk_lanes k else 1) < 2 ^ 16
     then validate_program (lk_program k) (if lk_enabled k then lk_lanes k else 1) else Inl LinOverflow)"

definition validate_fresh :: "'x linear_kernel \<Rightarrow> (linearize_error, 'x linear_kernel) result" where
  "validate_fresh k = rbind (validate_geometry k) (\<lambda>_. rbind (validate_registers k) (\<lambda>_. Inr k))"

definition kernel_validate :: "'x linear_kernel \<Rightarrow> (linearize_error, unit) result" where
  "kernel_validate k =
     rbind (validate_geometry k) (\<lambda>_.
     rbind (project (lane_producers (lk_source k))) (\<lambda>want.
     if pg_instructions (lk_program k) \<noteq> lp_instructions want \<or> pg_control (lk_program k) \<noteq> lp_control want \<or>
        pg_unsupported (lk_program k) \<noteq> lp_unsupported want
     then Inl (LinInvalid ''lane program does not match its retained source UOps'')
     else validate_registers k))"

end
