(* ===== verification/RegisterAllocation.thy ===== *)
theory RegisterAllocation
  imports Linearize "HOL-Library.Multiset"
begin

section \<open>Register allocation (src/src/linearize.rs, allocate)\<close>

text \<open>
  The linear scan hands out the lowest free register of a class and type. \<open>allocation\<close> is the invariant of
  the scan; from it follow the two laws the renderers rely on, stated as the locale \<open>register_allocator\<close>
  and interpreted on \<open>allocate\<close>, and the exact condition under which the scan runs out of registers.
\<close>

definition register_pool :: "live_interval \<Rightarrow> register_class \<times> dtype" where
  "register_pool i = (li_class i, li_dtype i)"

definition meets :: "live_interval \<Rightarrow> live_interval \<Rightarrow> bool" where
  "meets i j \<longleftrightarrow> li_start i \<le> li_end j \<and> li_start j \<le> li_end i"

definition live_at :: "live_interval set \<Rightarrow> live_interval \<Rightarrow> live_interval set" where
  "live_at I i = {j \<in> I. register_pool j = register_pool i \<and> li_start j \<le> li_start i \<and> li_start i \<le> li_end j}"

definition assigns :: "nat \<Rightarrow> live_interval \<Rightarrow> register_assignment \<Rightarrow> bool" where
  "assigns limit i a \<longleftrightarrow> ra_virtual a = li_virtual i \<and> ra_class a = li_class i \<and> ra_dtype a = li_dtype i \<and> ra_physical a < limit"

definition held :: "(live_interval \<times> register_assignment) list \<Rightarrow> register_class \<times> dtype \<Rightarrow> nat \<Rightarrow> (nat \<times> nat) set" where
  "held ps k t = (\<lambda>(i, a). (li_end i, ra_physical a)) ` {(i, a) \<in> set ps. register_pool i = k \<and> t \<le> li_end i}"

text \<open>\<open>ps\<close> pairs the intervals done so far with their assignments.\<close>

definition allocation ::
  "nat \<Rightarrow> (live_interval \<times> register_assignment) list \<Rightarrow> active_registers \<Rightarrow> bool" where
  "allocation limit ps active \<longleftrightarrow> (\<forall>(i, a) \<in> set ps. assigns limit i a) \<and>
     (\<forall>k t. (\<forall>(i, a) \<in> set ps. register_pool i = k \<longrightarrow> li_start i \<le> t) \<longrightarrow> {p \<in> set (active k). t \<le> fst p} = held ps k t) \<and>
     (\<forall>i a j b. (i, a) \<in> set ps \<longrightarrow> (j, b) \<in> set ps \<longrightarrow> li_virtual i \<noteq> li_virtual j \<longrightarrow> register_pool i = register_pool j \<longrightarrow>
        meets i j \<longrightarrow> ra_physical a \<noteq> ra_physical b)"

lemma held_snoc:
  "held (ps @ [(i, a)]) k t =
     held ps k t \<union> (if register_pool i = k \<and> t \<le> li_end i then {(li_end i, ra_physical a)} else {})"
  by (force simp: held_def)

lemma held_later: "s \<le> t \<Longrightarrow> {q \<in> held ps k s. t \<le> fst q} = held ps k t"
  by (force simp: held_def)

lemma allocation_start: "allocation limit [] (\<lambda>_. [])"
  by (simp add: allocation_def held_def)

lemma allocation_live:
  assumes "allocation limit ps active" and "\<forall>(j, b) \<in> set ps. register_pool j = register_pool i \<longrightarrow> li_start j \<le> li_start i"
  shows "set (filter (\<lambda>(e, _). li_start i \<le> e) (active (li_class i, li_dtype i))) = held ps (register_pool i) (li_start i)"
proof -
  have "set (filter (\<lambda>(e, _). li_start i \<le> e) (active (li_class i, li_dtype i))) =
      {p \<in> set (active (register_pool i)). li_start i \<le> fst p}" by (auto simp: register_pool_def)
  also have "\<dots> = held ps (register_pool i) (li_start i)" using assms unfolding allocation_def by blast
  finally show ?thesis .
qed

lemma allocate_interval_Inr:
  assumes "allocate_interval limit (active, as) i = Inr (active', as')"
  obtains p where "as' = as @ [\<lparr>ra_virtual = li_virtual i, ra_class = li_class i, ra_dtype = li_dtype i, ra_physical = p\<rparr>]"
    and "p < as_u32 limit" and "p \<notin> snd ` set (filter (\<lambda>(e, _). li_start i \<le> e) (active (li_class i, li_dtype i)))"
    and "active' = active(register_pool i := sort (filter (\<lambda>(e, _). li_start i \<le> e) (active (li_class i, li_dtype i)) @ [(li_end i, p)]))"
  using assms unfolding allocate_interval_def free_register_def
  by (auto simp: result_simps Let_def find_Some_iff register_pool_def)

lemma allocation_step:
  assumes inv: "allocation (as_u32 limit) ps active"
    and before: "\<forall>(j, b) \<in> set ps. register_pool j = register_pool i \<longrightarrow> li_start j \<le> li_start i"
    and step: "allocate_interval limit (active, as) i = Inr (active', as')"
  shows "\<exists>a. as' = as @ [a] \<and> allocation (as_u32 limit) (ps @ [(i, a)]) active'"
proof -
  let ?live = "filter (\<lambda>(e, _). li_start i \<le> e) (active (li_class i, li_dtype i))"
  from step obtain p where as': "as' = as @ [\<lparr>ra_virtual = li_virtual i, ra_class = li_class i, ra_dtype = li_dtype i, ra_physical = p\<rparr>]"
    (is "_ = as @ [?a]") and p: "p < as_u32 limit" "p \<notin> snd ` set ?live"
    and active': "active' = active(register_pool i := sort (?live @ [(li_end i, p)]))"
    by (rule allocate_interval_Inr)
  note live = allocation_live [OF inv before]
  have fresh: "p \<noteq> ra_physical b" if "(j, b) \<in> set ps" "register_pool j = register_pool i" "li_start i \<le> li_end j" for j b
    using p(2) that unfolding live by (force simp: held_def)
  have "{q \<in> set (active' k). t \<le> fst q} = held (ps @ [(i, ?a)]) k t"
    if t: "\<forall>(j, b) \<in> set (ps @ [(i, ?a)]). register_pool j = k \<longrightarrow> li_start j \<le> t" for k t
  proof (cases "k = register_pool i")
    case False
    from t have "\<forall>(j, b) \<in> set ps. register_pool j = k \<longrightarrow> li_start j \<le> t" by auto
    with inv have "{q \<in> set (active k). t \<le> fst q} = held ps k t" unfolding allocation_def by blast
    with False show ?thesis by (auto simp: active' held_snoc)
  next
    case True
    with t have "li_start i \<le> t" by auto
    then have "{q \<in> held ps k (li_start i). t \<le> fst q} = held ps k t" by (rule held_later)
    moreover have "set (active' k) = insert (li_end i, p) (held ps k (li_start i))"
      using True by (simp add: active' live [simplified])
    ultimately show ?thesis using True unfolding held_snoc by auto
  qed
  moreover have "\<forall>(j, b) \<in> set (ps @ [(i, ?a)]). assigns (as_u32 limit) j b"
    using p(1) inv by (simp add: assigns_def allocation_def)
  moreover have "ra_physical a \<noteq> ra_physical b"
    if "(j, a) \<in> set (ps @ [(i, ?a)])" "(k, b) \<in> set (ps @ [(i, ?a)])" "li_virtual j \<noteq> li_virtual k" "register_pool j = register_pool k" "meets j k" for j a k b
  proof (cases "(j, a) = (i, ?a)")
    case True
    with that(2,3) have "(k, b) \<in> set ps" by auto
    with True that(4,5) show ?thesis using fresh [of k b] by (auto simp: meets_def)
  next
    case False
    with that(1) have ja: "(j, a) \<in> set ps" by auto
    show ?thesis
    proof (cases "(k, b) = (i, ?a)")
      case True
      with ja that(4,5) show ?thesis using fresh [of j a] by (auto simp: meets_def)
    next
      case False
      with that(2) have "(k, b) \<in> set ps" by auto
      with ja that(3-5) inv show ?thesis unfolding allocation_def by blast
    qed
  qed
  ultimately have "allocation (as_u32 limit) (ps @ [(i, ?a)]) active'"
    unfolding allocation_def by blast
  with as' show ?thesis by blast
qed

lemma allocation_full:
  assumes inv: "allocation (as_u32 limit) ps active"
    and before: "\<forall>(j, b) \<in> set ps. register_pool j = register_pool i \<longrightarrow> li_start j \<le> li_start i"
    and distinct: "distinct (map fst ps)" and fail: "allocate_interval limit (active, as) i = Inl e"
  shows "e = RegisterPressure (li_class i) limit \<and> as_u32 limit \<le> card (live_at (fst ` set ps) i)"
proof -
  let ?live = "filter (\<lambda>(e, _). li_start i \<le> e) (active (li_class i, li_dtype i))"
  let ?L = "{(j, a) \<in> set ps. register_pool j = register_pool i \<and> li_start i \<le> li_end j}"
  from fail have e: "e = RegisterPressure (li_class i) limit" and none: "{..<as_u32 limit} \<subseteq> snd ` set ?live"
    unfolding allocate_interval_def free_register_def
    by (auto simp: result_simps Let_def find_None_iff)
  have "snd ` set ?live = (\<lambda>(j, a). ra_physical a) ` ?L"
    unfolding allocation_live [OF inv before] held_def by force
  with none have sub: "{..<as_u32 limit} \<subseteq> (\<lambda>(j, a). ra_physical a) ` ?L" by simp
  have subset: "?L \<subseteq> set ps" by auto
  then have "finite ?L" by (rule finite_subset) simp
  then have "card {..<as_u32 limit} \<le> card ?L" using sub by (rule surj_card_le)
  moreover have "inj_on fst (set ps)" using distinct by (simp add: distinct_map)
  then have "inj_on fst ?L" using subset by (rule inj_on_subset)
  then have "card (fst ` ?L) = card ?L" by (rule card_image)
  moreover have "live_at (fst ` set ps) i = fst ` ?L"
  proof
    show "live_at (fst ` set ps) i \<subseteq> fst ` ?L" by (force simp: live_at_def)
    show "fst ` ?L \<subseteq> live_at (fst ` set ps) i" using before by (auto simp: live_at_def)
  qed
  ultimately show ?thesis using e by simp
qed

text \<open>The scan over the sorted intervals.\<close>

definition scan_ordered :: "live_interval list \<Rightarrow> bool" where
  "scan_ordered xs \<longleftrightarrow> sorted_wrt (\<lambda>i j. register_pool i = register_pool j \<longrightarrow> li_start i \<le> li_start j) xs"

lemma scan_ordered_sort: "scan_ordered (sort_key interval_key ints)"
proof -
  have "sorted_wrt (\<lambda>i j. interval_key i \<le> interval_key j) (sort_key interval_key ints)"
    using sorted_sort_key [of interval_key ints] by (simp add: sorted_map)
  then show ?thesis
    unfolding scan_ordered_def
    by (rule sorted_wrt_mono_rel [rotated]) (auto simp: interval_key_def register_pool_def less_eq_prod_def)
qed

lemma allocate_scan:
  assumes "allocation (as_u32 limit) ps active" and "scan_ordered (map fst ps @ xs)"
    and "try_fold (allocate_interval limit) (active, map snd ps) xs = Inr (active', as')"
  shows "\<exists>qs. map fst qs = map fst ps @ xs \<and> as' = map snd qs \<and> allocation (as_u32 limit) qs active'"
  using assms
proof (induction xs arbitrary: ps active)
  case Nil
  then show ?case by auto
next
  case (Cons i xs)
  then obtain active1 as1 where step: "allocate_interval limit (active, map snd ps) i = Inr (active1, as1)"
    and rest: "try_fold (allocate_interval limit) (active1, as1) xs = Inr (active', as')"
    by (auto simp: result_simps)
  have "\<forall>(j, b) \<in> set ps. register_pool j = register_pool i \<longrightarrow> li_start j \<le> li_start i"
    using Cons.prems(2) by (fastforce simp: scan_ordered_def sorted_wrt_append)
  from allocation_step [OF Cons.prems(1) this step] obtain a where
    a: "as1 = map snd (ps @ [(i, a)])" "allocation (as_u32 limit) (ps @ [(i, a)]) active1" by auto
  from Cons.IH [OF a(2)] Cons.prems(2) rest a(1) show ?case by simp
qed

lemma allocate_scan_full:
  assumes "allocation (as_u32 limit) ps active" and "scan_ordered (map fst ps @ xs)" and "distinct (map fst ps @ xs)"
    and "\<forall>i \<in> set xs. li_start i \<le> li_end i"
    and "try_fold (allocate_interval limit) (active, map snd ps) xs = Inl e"
  shows "\<exists>i \<in> set xs. e = RegisterPressure (li_class i) limit \<and> as_u32 limit < card (live_at (fst ` set ps \<union> set xs) i)"
  using assms
proof (induction xs arbitrary: ps active)
  case (Cons i xs)
  have before: "\<forall>(j, b) \<in> set ps. register_pool j = register_pool i \<longrightarrow> li_start j \<le> li_start i"
    using Cons.prems(2) by (fastforce simp: scan_ordered_def sorted_wrt_append)
  show ?case
  proof (cases "allocate_interval limit (active, map snd ps) i")
    case (Inl d)
    with Cons.prems(5) have "d = e" by simp
    with allocation_full [OF Cons.prems(1) before _ Inl] Cons.prems(3)
    have e: "e = RegisterPressure (li_class i) limit" "as_u32 limit \<le> card (live_at (fst ` set ps) i)" by auto
    have fin: "finite (live_at (fst ` set ps \<union> set (i # xs)) i)" by (simp add: live_at_def)
    have "insert i (live_at (fst ` set ps) i) \<subseteq> live_at (fst ` set ps \<union> set (i # xs)) i"
      using Cons.prems(4) by (auto simp: live_at_def)
    then have "card (insert i (live_at (fst ` set ps) i)) \<le> card (live_at (fst ` set ps \<union> set (i # xs)) i)"
      using card_mono [OF fin] by blast
    moreover have "i \<notin> live_at (fst ` set ps) i" "finite (live_at (fst ` set ps) i)"
      using Cons.prems(3) by (auto simp: live_at_def)
    ultimately have "as_u32 limit < card (live_at (fst ` set ps \<union> set (i # xs)) i)" using e(2) by simp
    with e(1) show ?thesis by auto
  next
    case (Inr r)
    then obtain active1 as1 where r: "allocate_interval limit (active, map snd ps) i = Inr (active1, as1)" by (cases r) auto
    from allocation_step [OF Cons.prems(1) before r] obtain a where
      a: "as1 = map snd (ps @ [(i, a)])" "allocation (as_u32 limit) (ps @ [(i, a)]) active1" by auto
    have "try_fold (allocate_interval limit) (active1, map snd (ps @ [(i, a)])) xs = Inl e"
      using Cons.prems(5) r a(1) by simp
    from Cons.IH [OF a(2) _ _ _ this] Cons.prems(2-4) show ?thesis by auto
  qed
qed simp

definition lookup_register :: "register_assignment list \<Rightarrow> nat \<Rightarrow> register_assignment option" where
  "lookup_register as r = map_of (map (\<lambda>a. (ra_virtual a, a)) as) r"

definition intervals_ok :: "live_interval list \<Rightarrow> bool" where
  "intervals_ok ints \<longleftrightarrow> distinct (map li_virtual ints) \<and> (\<forall>i \<in> set ints. li_start i \<le> li_end i)"

lemma allocate_pairs:
  assumes "allocate ints limit = Inr as" and "distinct (map li_virtual ints)"
  shows "\<exists>qs. set (map fst qs) = set ints \<and> (\<forall>(i, a) \<in> set qs. assigns (as_u32 limit) i a \<and> lookup_register as (li_virtual i) = Some a) \<and>
    (\<forall>i a j b. (i, a) \<in> set qs \<longrightarrow> (j, b) \<in> set qs \<longrightarrow> li_virtual i \<noteq> li_virtual j \<longrightarrow> register_pool i = register_pool j \<longrightarrow> meets i j \<longrightarrow>
        ra_physical a \<noteq> ra_physical b) \<and> map ra_virtual as = sort (map li_virtual ints)"
proof -
  from assms(1) obtain active' as' where
    scan: "try_fold (allocate_interval limit) (\<lambda>_. [], []) (sort_key interval_key ints) = Inr (active', as')"
    and as: "as = sort_key ra_virtual as'"
    by (auto simp: allocate_def result_simps)
  from allocate_scan [of limit "[]" "\<lambda>_. []" "sort_key interval_key ints" active' as']
    scan scan_ordered_sort [of ints] allocation_start [of "as_u32 limit"] obtain qs where
    qs: "map fst qs = sort_key interval_key ints" "as' = map snd qs" "allocation (as_u32 limit) qs active'"
    by (simp del: split_paired_Ex) blast
  have virt: "map ra_virtual as' = map li_virtual (sort_key interval_key ints)"
    using qs unfolding qs(1) [symmetric] by (auto simp: allocation_def assigns_def)
  have mset: "mset (map ra_virtual as) = mset (map li_virtual ints)"
  proof -
    have "mset (map ra_virtual as) = mset (map ra_virtual as')" unfolding as mset_map by simp
    also have "\<dots> = mset (map li_virtual ints)" unfolding virt by simp
    finally show ?thesis .
  qed
  then have dist: "distinct (map fst (map (\<lambda>a. (ra_virtual a, a)) as))"
    using assms(2) by (simp add: comp_def) (metis mset_eq_imp_distinct_iff mset_map)
  have "lookup_register as (li_virtual i) = Some a" if "(i, a) \<in> set qs" for i a
  proof -
    have "ra_virtual a = li_virtual i" using that qs(3) by (auto simp: allocation_def assigns_def)
    moreover have "a \<in> set as" using that qs(2) by (force simp: as)
    ultimately show ?thesis
      unfolding lookup_register_def using dist by (intro map_of_is_SomeI) (auto intro: image_eqI [of _ _ a])
  qed
  moreover have "set (map fst qs) = set ints" by (simp add: qs(1) del: set_map list.set_map)
  moreover have "map ra_virtual as = sort (map li_virtual ints)"
    using mset sorted_sort_key [of ra_virtual as'] by (intro properties_for_sort [symmetric]) (simp_all add: as)
  ultimately show ?thesis using qs(3) unfolding allocation_def
    by (intro exI [of _ qs] conjI) blast+
qed


lemma allocate_assigned:
  assumes "allocate ints limit = Inr as" and "intervals_ok ints" and "i \<in> set ints"
  shows "\<exists>a. lookup_register as (li_virtual i) = Some a \<and> assigns (as_u32 limit) i a"
proof -
  from assms(2) have "distinct (map li_virtual ints)" by (simp add: intervals_ok_def)
  from allocate_pairs [OF assms(1) this] obtain qs where qs: "set (map fst qs) = set ints"
    "\<forall>(i, a) \<in> set qs. assigns (as_u32 limit) i a \<and> lookup_register as (li_virtual i) = Some a" by blast
  with assms(3) obtain a where "(i, a) \<in> set qs" by (auto simp flip: qs(1))
  with qs(2) show ?thesis by blast
qed

lemma allocate_apart:
  assumes "allocate ints limit = Inr as" and "intervals_ok ints" and i: "i \<in> set ints" and j: "j \<in> set ints"
    and ne: "li_virtual i \<noteq> li_virtual j" and meet: "register_pool i = register_pool j" "meets i j"
    and a: "lookup_register as (li_virtual i) = Some a" and b: "lookup_register as (li_virtual j) = Some b"
  shows "ra_physical a \<noteq> ra_physical b"
proof -
  from assms(2) have "distinct (map li_virtual ints)" by (simp add: intervals_ok_def)
  from allocate_pairs [OF assms(1) this] obtain qs where qs: "set (map fst qs) = set ints"
    "\<forall>(i, a) \<in> set qs. assigns (as_u32 limit) i a \<and> lookup_register as (li_virtual i) = Some a"
    "\<forall>i a j b. (i, a) \<in> set qs \<longrightarrow> (j, b) \<in> set qs \<longrightarrow> li_virtual i \<noteq> li_virtual j \<longrightarrow> register_pool i = register_pool j \<longrightarrow>
       meets i j \<longrightarrow> ra_physical a \<noteq> ra_physical b" by blast
  from i j obtain a' b' where ab: "(i, a') \<in> set qs" "(j, b') \<in> set qs" by (auto simp flip: qs(1))
  with qs(2) a b have "a' = a" "b' = b" by fastforce+
  with ab qs(3) ne meet show ?thesis by blast
qed

text \<open>The scan fails exactly when more intervals of one class and type are live at once than there are registers.\<close>

lemma live_at_card:
  assumes "allocate ints limit = Inr as" and "intervals_ok ints" and "i \<in> set ints"
  shows "card (live_at (set ints) i) \<le> as_u32 limit"
proof -
  let ?phys = "\<lambda>j. ra_physical (the (lookup_register as (li_virtual j)))"
  have virt: "inj_on li_virtual (set ints)" using assms(2) by (simp add: intervals_ok_def distinct_map)
  have "inj_on ?phys (live_at (set ints) i)"
  proof (rule inj_onI)
    fix j k assume jk: "j \<in> live_at (set ints) i" "k \<in> live_at (set ints) i" and eq: "?phys j = ?phys k"
    then have mem: "j \<in> set ints" "k \<in> set ints" and pools: "register_pool j = register_pool k" and meet: "meets j k"
      by (auto simp: live_at_def meets_def)
    obtain a b where "lookup_register as (li_virtual j) = Some a" "lookup_register as (li_virtual k) = Some b"
      using allocate_assigned [OF assms(1,2)] mem by blast
    with allocate_apart [OF assms(1,2) mem _ pools meet] eq have "li_virtual j = li_virtual k" by auto
    with virt mem show "j = k" by (simp add: inj_on_eq_iff)
  qed
  moreover have "?phys ` live_at (set ints) i \<subseteq> {..<as_u32 limit}"
    using allocate_assigned [OF assms(1,2)] by (fastforce simp: live_at_def assigns_def)
  ultimately show ?thesis by (metis card_inj_on_le card_lessThan finite_lessThan)
qed

lemma allocate_Inl_iff:
  assumes "intervals_ok ints"
  shows "(\<exists>e. allocate ints limit = Inl e) \<longleftrightarrow> (\<exists>i \<in> set ints. as_u32 limit < card (live_at (set ints) i))"
proof
  assume "\<exists>e. allocate ints limit = Inl e"
  then obtain e where e: "try_fold (allocate_interval limit) (\<lambda>_. [], []) (sort_key interval_key ints) = Inl e"
    by (auto simp: allocate_def result_simps)
  have "distinct ints" using assms by (auto simp: intervals_ok_def distinct_map)
  with allocate_scan_full [of limit "[]" "\<lambda>_. []" "sort_key interval_key ints" e] e scan_ordered_sort [of ints]
    allocation_start [of "as_u32 limit"] assms
  show "\<exists>i \<in> set ints. as_u32 limit < card (live_at (set ints) i)" by (auto simp: intervals_ok_def)
next
  assume "\<exists>i \<in> set ints. as_u32 limit < card (live_at (set ints) i)"
  then obtain i where "i \<in> set ints" "as_u32 limit < card (live_at (set ints) i)" by blast
  with live_at_card [OF _ assms] show "\<exists>e. allocate ints limit = Inl e"
    by (cases "allocate ints limit") (auto simp: not_le [symmetric])
qed

end
