(* ===== verification/LaneExecution.thy ===== *)
theory LaneExecution
  imports RegisterAllocation
begin

section \<open>Executing lane programs\<close>

text \<open>
  A reference machine for lane programs. What an instruction computes is a parameter: \<open>val\<close> gives the
  value of its output and \<open>eff\<close> the memory after a store, both from the instruction with its registers
  erased, the memory and the values of its operands. The machine is the same for virtual and for allocated
  registers, which is what lets the two be compared: renaming the operands along an allocation changes
  nothing that reaches memory.
\<close>

type_synonym shape_of_lane = "unit lane_instruction"

definition erase :: "'r lane_instruction \<Rightarrow> shape_of_lane" where
  "erase ins = map_lane_instruction (\<lambda>_. ()) ins"

definition exec_lane ::
  "(shape_of_lane \<Rightarrow> 'm \<Rightarrow> 'v list \<Rightarrow> 'v) \<Rightarrow> (shape_of_lane \<Rightarrow> 'm \<Rightarrow> 'v list \<Rightarrow> 'm) \<Rightarrow> ('r \<Rightarrow> 'k) \<Rightarrow>
   'r lane_instruction \<Rightarrow> ('k \<Rightarrow> 'v) \<times> 'm \<Rightarrow> ('k \<Rightarrow> 'v) \<times> 'm" where
  "exec_lane val eff key ins = (\<lambda>(regs, mem).
    (let args = map (\<lambda>(r, _). regs (key r)) (lv_inputs (view_of ins)) in
     case lv_output (view_of ins) of
       Some (r, _) \<Rightarrow> (regs(key r := val (erase ins) mem args), mem)
     | None \<Rightarrow> (regs, eff (erase ins) mem args)))"

definition exec_lanes ::
  "(shape_of_lane \<Rightarrow> 'm \<Rightarrow> 'v list \<Rightarrow> 'v) \<Rightarrow> (shape_of_lane \<Rightarrow> 'm \<Rightarrow> 'v list \<Rightarrow> 'm) \<Rightarrow> ('r \<Rightarrow> 'k) \<Rightarrow>
   'r program_instruction list \<Rightarrow> ('k \<Rightarrow> 'v) \<times> 'm \<Rightarrow> ('k \<Rightarrow> 'v) \<times> 'm" where
  "exec_lanes val eff key = fold (\<lambda>pi. exec_lane val eff key (pi_instruction pi))"

subsection \<open>Renaming\<close>

definition map_pi :: "('r \<Rightarrow> 's) \<Rightarrow> 'r program_instruction \<Rightarrow> 's program_instruction" where
  "map_pi g pi = ProgramInstruction (pi_index pi) (map_lane_instruction g (pi_instruction pi))"

lemma map_operands_Inr:
  assumes "map_operands m ins = Inr ins'"
  shows "ins' = map_lane_instruction (\<lambda>r. projr (m r)) ins"
  using assms
  by (cases ins) (auto simp: result_simps map_value_def map_address_def map_index_def map_unary_def map_binary_def
      typed_value.map_sel typed_value.expand address_ref.expand index_ref.expand
      intro!: typed_value.expand address_ref.expand index_ref.expand
      simp: address_ref.map_sel index_ref.map_sel)

lemma value_operand_map: "value_operand (map_typed_value g v) = map_prod g id (value_operand v)"
  by (cases v) simp

lemma address_operand_map: "address_operand (map_address_ref g v) = map_prod g id (address_operand v)"
  by (cases v) simp

lemma index_operand_map: "index_operand (map_index_ref g v) = map_prod g id (index_operand v)"
  by (cases v) simp

lemma view_of_map:
  "lv_inputs (view_of (map_lane_instruction g ins)) = map (map_prod g id) (lv_inputs (view_of ins))"
  "lv_output (view_of (map_lane_instruction g ins)) = map_option (map_prod g id) (lv_output (view_of ins))"
  by (cases ins; simp add: value_view_def value_operand_map address_operand_map index_operand_map)+

lemma erase_map [simp]: "erase (map_lane_instruction g ins) = erase ins"
  by (simp add: erase_def lane_instruction.map_comp comp_def)

lemma exec_lane_map: "exec_lane val eff key (map_lane_instruction g ins) = exec_lane val eff (key \<circ> g) ins"
  by (auto simp: exec_lane_def view_of_map fun_eq_iff Let_def case_prod_unfold comp_def split: option.splits)

lemma exec_lanes_map: "exec_lanes val eff key (map (map_pi g) P) = exec_lanes val eff (key \<circ> g) P"
  by (simp add: exec_lanes_def fold_map comp_def map_pi_def exec_lane_map [unfolded comp_def])

subsection \<open>Well-ordered programs\<close>

definition reads :: "'r lane_instruction \<Rightarrow> 'r list" where
  "reads ins = map fst (lv_inputs (view_of ins))"

definition target :: "'r lane_instruction \<Rightarrow> 'r option" where
  "target ins = map_option fst (lv_output (view_of ins))"

text \<open>Indices increase, an output is numbered by its instruction, operands are outputs of earlier instructions.\<close>

definition well_ordered :: "nat program_instruction list \<Rightarrow> bool" where
  "well_ordered P \<longleftrightarrow> sorted_wrt (<) (map pi_index P) \<and>
     (\<forall>pi \<in> set P. target (pi_instruction pi) \<in> {None, Some (pi_index pi)}) \<and>
     (\<forall>xs pi ys. P = xs @ pi # ys \<longrightarrow> (\<forall>r \<in> set (reads (pi_instruction pi)). \<exists>q \<in> set xs. target (pi_instruction q) = Some r))"

lemma check_operands_Inr:
  "try_fold (\<lambda>_. check_operand key live omitted n defined) () ops = Inr u \<Longrightarrow> (r, d) \<in> set ops \<Longrightarrow>
   check_operand key live omitted n defined (r, d) = Inr ()"
  by (induction ops) (auto simp: result_simps)

text \<open>The facts an accepted sequence carries, over the prefix that has been checked.\<close>

lemma lane_sequence_Inr:
  assumes "try_fold (check_lane_step omitted key live canonical) (None, Map.empty) P = Inr (prev, defined)"
  shows "sorted_wrt (<) (map pi_index P) \<and> prev = (if P = [] then None else Some (pi_index (last P))) \<and>
    (\<forall>pi \<in> set P. lane_validate (pi_instruction pi) = Inr () \<and> (\<forall>r. target (pi_instruction pi) = Some r \<longrightarrow> canonical (pi_index pi) r)) \<and>
    dom defined = key ` {r. \<exists>pi \<in> set P. target (pi_instruction pi) = Some r} \<and>
    (\<forall>xs pi ys. P = xs @ pi # ys \<longrightarrow> (\<forall>r \<in> set (reads (pi_instruction pi)).
       omitted (key r) \<or> (\<exists>q \<in> set xs. \<exists>r'. target (pi_instruction q) = Some r' \<and> key r' = key r)))"
  using assms
proof (induction P arbitrary: prev defined rule: rev_induct)
  case Nil
  then show ?case by simp
next
  case (snoc pi P)
  then obtain prev0 defined0 where prefix: "try_fold (check_lane_step omitted key live canonical) (None, Map.empty) P = Inr (prev0, defined0)"
    and step: "check_lane_step omitted key live canonical (prev0, defined0) pi = Inr (prev, defined)"
    by (auto simp: try_fold_append result_simps)
  note ih = snoc.IH [OF prefix]
  let ?v = "view_of (pi_instruction pi)"
  from step have later: "P = [] \<or> pi_index (last P) < pi_index pi"
    and ok: "lane_validate (pi_instruction pi) = Inr ()"
    and ops: "try_fold (\<lambda>_. check_operand key live omitted (pi_index pi) defined0) () (lv_inputs ?v) = Inr ()"
    and out: "(case lv_output ?v of None \<Rightarrow> Inr defined0 | Some out \<Rightarrow> check_output key live canonical (pi_index pi) defined0 out) = Inr defined"
    and prev: "prev = Some (pi_index pi)"
    using ih by (auto simp: check_lane_step_def result_simps split: if_splits option.splits)
  have sorted: "sorted_wrt (<) (map pi_index (P @ [pi]))"
  proof -
    have "pi_index q < pi_index pi" if "q \<in> set P" for q
    proof -
      have "pi_index q \<le> pi_index (last P)"
        using that ih by (cases P rule: rev_cases) (auto simp: sorted_wrt_append)
      with later that show ?thesis by auto
    qed
    with ih show ?thesis by (auto simp: sorted_wrt_append)
  qed
  have dom0: "dom defined0 = key ` {r. \<exists>pi' \<in> set P. target (pi_instruction pi') = Some r}" using ih by blast
  have "dom defined = key ` {r. \<exists>pi' \<in> set (P @ [pi]). target (pi_instruction pi') = Some r} \<and>
      (\<forall>r. target (pi_instruction pi) = Some r \<longrightarrow> canonical (pi_index pi) r)"
  proof (cases "lv_output ?v")
    case None
    with out dom0 show ?thesis by (simp add: target_def)
  next
    case (Some rd)
    then obtain r d where rd: "lv_output ?v = Some (r, d)" by (cases rd) auto
    with out have "canonical (pi_index pi) r" "defined = defined0(key r \<mapsto> d)"
      by (auto simp: check_output_def split: if_splits)
    moreover have "{r. \<exists>pi' \<in> set (P @ [pi]). target (pi_instruction pi') = Some r} =
        insert r {r. \<exists>pi' \<in> set P. target (pi_instruction pi') = Some r}" using rd by (auto simp: target_def)
    ultimately show ?thesis using dom0 rd by (simp add: target_def)
  qed
  then have dom: "dom defined = key ` {r. \<exists>pi' \<in> set (P @ [pi]). target (pi_instruction pi') = Some r}"
    and canon: "\<forall>r. target (pi_instruction pi) = Some r \<longrightarrow> canonical (pi_index pi) r" by blast+
  have reads: "omitted (key r) \<or> (\<exists>q \<in> set P. \<exists>r'. target (pi_instruction q) = Some r' \<and> key r' = key r)"
    if r: "r \<in> set (reads (pi_instruction pi))" for r
  proof -
    from r obtain d where "(r, d) \<in> set (lv_inputs ?v)" by (auto simp: reads_def)
    from check_operands_Inr [OF ops this] have "omitted (key r) \<or> key r \<in> dom defined0"
      by (auto simp: check_operand_def split: option.splits if_splits)
    then consider "omitted (key r)" | r' where "key r = key r'" "\<exists>q \<in> set P. target (pi_instruction q) = Some r'"
      unfolding dom0 by auto
    then show ?thesis
    proof cases
      case (2 r')
      then obtain q where "q \<in> set P" "target (pi_instruction q) = Some r'" by blast
      with 2(1) show ?thesis by metis
    qed simp
  qed
  show ?case
  proof (intro conjI)
    show "\<forall>xs pi' ys. P @ [pi] = xs @ pi' # ys \<longrightarrow> (\<forall>r \<in> set (reads (pi_instruction pi')).
       omitted (key r) \<or> (\<exists>q \<in> set xs. \<exists>r'. target (pi_instruction q) = Some r' \<and> key r' = key r))"
    proof (intro allI impI)
      fix xs pi' ys assume eq: "P @ [pi] = xs @ pi' # ys"
      show "\<forall>r \<in> set (reads (pi_instruction pi')). omitted (key r) \<or> (\<exists>q \<in> set xs. \<exists>r'. target (pi_instruction q) = Some r' \<and> key r' = key r)"
      proof (cases ys rule: rev_cases)
        case Nil
        with eq reads show ?thesis by auto
      next
        case (snoc zs z)
        with eq have "P = xs @ pi' # zs" by auto
        with ih show ?thesis by blast
      qed
    qed
  qed (use sorted dom canon ok ih prev in auto)
qed

lemma validated_well_ordered:
  assumes "validate_program pg lanes = Inr ()" and "pg_unsupported pg = []"
  shows "well_ordered (pg_instructions pg)"
proof -
  from assms obtain prev defined where
    "try_fold (check_lane_step (\<lambda>r. False) (\<lambda>r. r) (\<lambda>_ _ _. True) (\<lambda>index out. index = out)) (None, Map.empty) (pg_instructions pg) = Inr (prev, defined)"
    by (auto simp: validate_program_def validate_lane_sequence_def result_simps Let_def)
  from lane_sequence_Inr [OF this] show ?thesis
    by (auto simp: well_ordered_def) (metis option.exhaust)
qed

subsection \<open>Intervals of a well-ordered program\<close>

lemma record_uses:
  "foldl (record_use n) m rs r = (if r \<in> set rs then Some (case m r of Some l \<Rightarrow> max l n | None \<Rightarrow> n) else m r)"
  by (induction rs arbitrary: m) (auto simp: record_use_def split: option.splits)

lemma last_uses_bound:
  assumes "pi \<in> set P" and "r \<in> set (reads (pi_instruction pi))"
  shows "\<exists>e. last_uses P r = Some e \<and> pi_index pi \<le> e"
proof -
  have "\<exists>e. foldl (\<lambda>m pi. foldl (record_use (pi_index pi)) m (reads (pi_instruction pi))) m P r = Some e \<and>
      (\<forall>pi \<in> set P. r \<in> set (reads (pi_instruction pi)) \<longrightarrow> pi_index pi \<le> e) \<and> (\<forall>l. m r = Some l \<longrightarrow> l \<le> e)"
    if "(\<exists>pi \<in> set P. r \<in> set (reads (pi_instruction pi))) \<or> m r \<noteq> None" for m
    using that
  proof (induction P arbitrary: m)
    case (Cons q P)
    let ?m = "foldl (record_use (pi_index q)) m (reads (pi_instruction q))"
    have "(\<exists>pi \<in> set P. r \<in> set (reads (pi_instruction pi))) \<or> ?m r \<noteq> None"
      using Cons.prems by (auto simp: record_uses)
    from Cons.IH [of ?m] this obtain e where e: "foldl (\<lambda>m pi. foldl (record_use (pi_index pi)) m (reads (pi_instruction pi))) ?m P r = Some e"
      "\<forall>pi \<in> set P. r \<in> set (reads (pi_instruction pi)) \<longrightarrow> pi_index pi \<le> e" "\<forall>l. ?m r = Some l \<longrightarrow> l \<le> e" by blast
    moreover have "r \<in> set (reads (pi_instruction q)) \<longrightarrow> pi_index q \<le> e" "\<forall>l. m r = Some l \<longrightarrow> l \<le> e"
      using e(3) by (auto simp: record_uses split: if_splits option.splits)
    ultimately show ?case by auto
  qed auto
  then show ?thesis using assms unfolding last_uses_def reads_def by blast
qed

lemma intervals_mem:
  assumes "pi \<in> set P" and "target (pi_instruction pi) = Some r"
  shows "\<exists>i \<in> set (intervals P lanes). li_virtual i = r \<and> li_start i = pi_index pi \<and>
    li_end i = (case last_uses P r of Some e \<Rightarrow> e | None \<Rightarrow> pi_index pi)"
  using assms by (force simp: intervals_def List.map_filter_def interval_of_def target_def image_iff)

lemma intervals_origin:
  assumes "i \<in> set (intervals P lanes)"
  shows "\<exists>pi \<in> set P. target (pi_instruction pi) = Some (li_virtual i) \<and> li_start i = pi_index pi \<and>
    li_end i = (case last_uses P (li_virtual i) of Some e \<Rightarrow> e | None \<Rightarrow> pi_index pi)"
  using assms by (force simp: intervals_def List.map_filter_def interval_of_def target_def)


lemma last_uses_origin:
  assumes "last_uses P r = Some e"
  shows "\<exists>pi \<in> set P. r \<in> set (reads (pi_instruction pi)) \<and> e = pi_index pi"
proof -
  have "foldl (\<lambda>m pi. foldl (record_use (pi_index pi)) m (reads (pi_instruction pi))) m P r = Some e \<Longrightarrow>
      m r = Some e \<or> (\<exists>pi \<in> set P. r \<in> set (reads (pi_instruction pi)) \<and> e = pi_index pi)" for m
  proof (induction P arbitrary: m)
    case (Cons q P)
    let ?m = "foldl (record_use (pi_index q)) m (reads (pi_instruction q))"
    from Cons.prems have "?m r = Some e \<or> (\<exists>pi \<in> set P. r \<in> set (reads (pi_instruction pi)) \<and> e = pi_index pi)"
      using Cons.IH [of ?m] by simp
    then show ?case
      by (auto simp: record_uses max_def split: if_splits option.splits)
  qed simp
  from this [of Map.empty] assms show ?thesis by (auto simp: last_uses_def reads_def)
qed

text \<open>A register is the index of the instruction that defines it, which precedes every use.\<close>

lemma well_ordered_before:
  assumes "well_ordered P" and "P = xs @ pi # ys"
  shows "q \<in> set xs \<Longrightarrow> pi_index q < pi_index pi" and "q \<in> set ys \<Longrightarrow> pi_index pi < pi_index q"
    and "r \<in> set (reads (pi_instruction pi)) \<Longrightarrow> \<exists>q \<in> set xs. target (pi_instruction q) = Some r"
  using assms by (auto simp: well_ordered_def sorted_wrt_append)

lemma well_ordered_target:
  assumes "well_ordered P" and "q \<in> set P" and "target (pi_instruction q) = Some r"
  shows "r = pi_index q"
  using assms by (force simp: well_ordered_def)

lemma well_ordered_uses:
  assumes "well_ordered P" and "pi \<in> set P" and "r \<in> set (reads (pi_instruction pi))"
  shows "r < pi_index pi"
proof -
  from assms(2) obtain xs ys where P: "P = xs @ pi # ys" by (meson split_list)
  from well_ordered_before(3) [OF assms(1) P assms(3)] obtain q where
    q: "q \<in> set xs" "target (pi_instruction q) = Some r" by blast
  with well_ordered_before(1) [OF assms(1) P, of q] well_ordered_target [OF assms(1), of q] P show ?thesis by auto
qed

text \<open>What allocation needs, and every validated program has: a register some instruction defines is read only later.
  Operands the program leaves to unsupported operations are exempt.\<close>

definition uses_follow :: "nat program_instruction list \<Rightarrow> bool" where
  "uses_follow P \<longleftrightarrow> sorted_wrt (<) (map pi_index P) \<and>
     (\<forall>pi \<in> set P. target (pi_instruction pi) \<in> {None, Some (pi_index pi)}) \<and>
     (\<forall>pi \<in> set P. \<forall>r \<in> set (reads (pi_instruction pi)). r \<in> pi_index ` set P \<longrightarrow> r < pi_index pi)"

lemma well_ordered_follow: "well_ordered P \<Longrightarrow> uses_follow P"
  using well_ordered_uses [of P] by (auto simp: uses_follow_def well_ordered_def)

lemma check_unsupported_apart:
  "try_fold (check_unsupported indices) prev us = Inr prev' \<Longrightarrow> set (map sr_index us) \<inter> set indices = {}"
  by (induction us arbitrary: prev) (auto simp: check_unsupported_def result_simps split: if_splits)

lemma validated_follow:
  assumes "validate_program pg lanes = Inr ()"
  shows "uses_follow (pg_instructions pg)"
proof -
  let ?P = "pg_instructions pg" and ?omitted = "\<lambda>r. r \<in> set (map sr_index (pg_unsupported pg))"
  from assms obtain prev defined where
    seq: "try_fold (check_lane_step ?omitted (\<lambda>r. r) (\<lambda>_ _ _. True) (\<lambda>index out. index = out)) (None, Map.empty) ?P = Inr (prev, defined)"
    and "\<exists>p. try_fold (check_unsupported (map sr_index (pg_control pg) @ map pi_index ?P)) None (pg_unsupported pg) = Inr p"
    by (auto simp: validate_program_def validate_lane_sequence_def result_simps Let_def)
  then have apart: "\<not> ?omitted r" if "r \<in> pi_index ` set ?P" for r using that check_unsupported_apart by fastforce
  note facts = lane_sequence_Inr [OF seq]
  have targets: "target (pi_instruction q) \<in> {None, Some (pi_index q)}" if "q \<in> set ?P" for q
    using facts that by (cases "target (pi_instruction q)") auto
  have "r < pi_index pi" if pi: "pi \<in> set ?P" and r: "r \<in> set (reads (pi_instruction pi))" "r \<in> pi_index ` set ?P" for pi r
  proof -
    from pi obtain xs ys where P: "?P = xs @ pi # ys" by (meson split_list)
    have "\<forall>r \<in> set (reads (pi_instruction pi)). ?omitted r \<or> (\<exists>q \<in> set xs. \<exists>r'. target (pi_instruction q) = Some r' \<and> r' = r)"
      using facts P by blast
    with r(1) apart [OF r(2)] obtain q where q: "q \<in> set xs" "target (pi_instruction q) = Some r" by blast
    have "pi_index q < pi_index pi" using facts P q(1) by (auto simp: sorted_wrt_append)
    moreover have "r = pi_index q" using targets [of q] q P by auto
    ultimately show ?thesis by simp
  qed
  then have later: "\<forall>pi \<in> set ?P. \<forall>r \<in> set (reads (pi_instruction pi)). r \<in> pi_index ` set ?P \<longrightarrow> r < pi_index pi" by (intro ballI impI)
  have "sorted_wrt (<) (map pi_index ?P)" using facts by (rule conjunct1)
  moreover have "\<forall>q \<in> set ?P. target (pi_instruction q) \<in> {None, Some (pi_index q)}" using targets by (intro ballI)
  ultimately show ?thesis unfolding uses_follow_def using later by (intro conjI)
qed

lemma follow_intervals:
  assumes "uses_follow P"
  shows "intervals_ok (intervals P lanes)"
  unfolding intervals_ok_def
proof (intro conjI ballI)
  have virt: "map li_virtual (intervals P lanes) = map pi_index (filter (\<lambda>pi. target (pi_instruction pi) \<noteq> None) P)"
    if "\<forall>pi \<in> set P. target (pi_instruction pi) \<in> {None, Some (pi_index pi)}" for uses
  proof -
    have "map li_virtual (List.map_filter (interval_of u lanes) P) =
        map pi_index (filter (\<lambda>pi. target (pi_instruction pi) \<noteq> None) P)" for u
      using that
    proof (induction P)
      case (Cons pi P)
      then show ?case
        by (cases "lv_output (view_of (pi_instruction pi))") (auto simp: map_filter_simps interval_of_def target_def)
    qed (simp add: map_filter_simps)
    then show ?thesis by (simp add: intervals_def)
  qed
  have "distinct (map pi_index P)" using assms by (simp add: uses_follow_def strict_sorted_iff)
  then show "distinct (map li_virtual (intervals P lanes))"
    using virt assms by (simp add: uses_follow_def distinct_map_filter)
  fix i assume "i \<in> set (intervals P lanes)"
  from intervals_origin [OF this] obtain pi where pi: "pi \<in> set P" "target (pi_instruction pi) = Some (li_virtual i)"
    "li_start i = pi_index pi" "li_end i = (case last_uses P (li_virtual i) of Some e \<Rightarrow> e | None \<Rightarrow> pi_index pi)" by blast
  have virt: "li_virtual i = pi_index pi" using assms pi by (auto simp: uses_follow_def)
  then show "li_start i \<le> li_end i"
  proof (cases "last_uses P (li_virtual i)")
    case (Some e)
    from last_uses_origin [OF this] obtain u where "u \<in> set P" "li_virtual i \<in> set (reads (pi_instruction u))" "e = pi_index u" by blast
    with assms virt pi(1) have "pi_index pi < e" by (fastforce simp: uses_follow_def)
    with Some pi(3,4) show ?thesis by simp
  qed (use pi(3,4) in simp)
qed

lemmas well_ordered_intervals = follow_intervals [OF well_ordered_follow]

subsection \<open>Placing registers\<close>

definition kept_apart :: "(nat \<Rightarrow> 'k) \<Rightarrow> live_interval list \<Rightarrow> bool" where
  "kept_apart place ints \<longleftrightarrow> (\<forall>i \<in> set ints. \<forall>j \<in> set ints. li_virtual i \<noteq> li_virtual j \<longrightarrow> meets i j \<longrightarrow>
     place (li_virtual i) \<noteq> place (li_virtual j))"

lemma placed_apart:
  assumes wo: "well_ordered P" and apart: "kept_apart place (intervals P lanes)" and P: "P = xs @ pi # ys"
    and w: "target (pi_instruction pi) = Some w" and q: "q \<in> set xs" "target (pi_instruction q) = Some r"
    and u: "u \<in> set ys" "r \<in> set (reads (pi_instruction u))"
  shows "place r \<noteq> place w"
proof -
  have mem: "pi \<in> set P" "q \<in> set P" "u \<in> set P" using P q u by auto
  from intervals_mem [OF mem(1) w, of lanes] obtain i where
    i: "i \<in> set (intervals P lanes)" "li_virtual i = w" "li_start i = pi_index pi" by blast
  from intervals_mem [OF mem(2) q(2), of lanes] obtain j where
    j: "j \<in> set (intervals P lanes)" "li_virtual j = r" "li_start j = pi_index q"
    "li_end j = (case last_uses P r of Some e \<Rightarrow> e | None \<Rightarrow> pi_index q)" by blast
  from last_uses_bound [OF mem(3) u(2)] j(4) have "pi_index u \<le> li_end j" by auto
  moreover have "pi_index q < pi_index pi" "pi_index pi < pi_index u"
    using well_ordered_before(1,2) [OF wo P] q(1) u(1) by auto
  moreover have "li_start i \<le> li_end i" using well_ordered_intervals [OF wo, of lanes] i(1) by (simp add: intervals_ok_def)
  moreover have "w = pi_index pi" "r = pi_index q" using well_ordered_target [OF wo] mem w q(2) by auto
  ultimately have "meets i j" "li_virtual i \<noteq> li_virtual j" using i j by (auto simp: meets_def)
  with apart i(1) j(1) show ?thesis unfolding kept_apart_def i(2) [symmetric] j(2) [symmetric] by metis
qed

lemma exec_placed_prefix:
  assumes wo: "well_ordered P" and apart: "kept_apart place (intervals P lanes)" and P: "P = xs @ ys"
  shows "snd (exec_lanes val eff place xs (regs', mem)) = snd (exec_lanes val eff (\<lambda>r. r) xs (regs, mem)) \<and>
    (\<forall>q \<in> set xs. \<forall>u \<in> set ys. \<forall>r \<in> set (reads (pi_instruction u)). target (pi_instruction q) = Some r \<longrightarrow>
       fst (exec_lanes val eff place xs (regs', mem)) (place r) = fst (exec_lanes val eff (\<lambda>r. r) xs (regs, mem)) r)"
  using P
proof (induction xs arbitrary: ys rule: rev_induct)
  case Nil
  then show ?case by (simp add: exec_lanes_def)
next
  case (snoc pi xs)
  then have P: "P = xs @ pi # ys" by simp
  obtain r1 m1 r2 m2 where s: "exec_lanes val eff place xs (regs', mem) = (r1, m1)"
    "exec_lanes val eff (\<lambda>r. r) xs (regs, mem) = (r2, m2)" by (metis surj_pair)
  from snoc.IH [OF P] s have mem: "m1 = m2" and agree: "\<And>q u r. q \<in> set xs \<Longrightarrow> u \<in> set (pi # ys) \<Longrightarrow>
      r \<in> set (reads (pi_instruction u)) \<Longrightarrow> target (pi_instruction q) = Some r \<Longrightarrow> r1 (place r) = r2 r" by auto
  have "r1 (place r) = r2 r" if "r \<in> set (reads (pi_instruction pi))" for r
    using well_ordered_before(3) [OF wo P that] agree [of _ pi r] that by auto
  then have args: "map (\<lambda>(r, _). r1 (place r)) (lv_inputs (view_of (pi_instruction pi))) =
      map (\<lambda>(r, _). r2 r) (lv_inputs (view_of (pi_instruction pi)))"
    by (force simp: reads_def)
  have steps: "exec_lanes val eff place (xs @ [pi]) (regs', mem) = exec_lane val eff place (pi_instruction pi) (r1, m1)"
    "exec_lanes val eff (\<lambda>r. r) (xs @ [pi]) (regs, mem) = exec_lane val eff (\<lambda>r. r) (pi_instruction pi) (r2, m2)"
    using s by (simp_all add: exec_lanes_def)
  show ?case
  proof (cases "target (pi_instruction pi)")
    case None
    then have "lv_output (view_of (pi_instruction pi)) = None" by (simp add: target_def)
    with None agree mem show ?thesis unfolding steps exec_lane_def prod.case args by (auto simp: Let_def)
  next
    case (Some w)
    then obtain d where out: "lv_output (view_of (pi_instruction pi)) = Some (w, d)" by (auto simp: target_def)
    have "place r \<noteq> place w \<and> r \<noteq> w" if "q \<in> set xs" "u \<in> set ys" "r \<in> set (reads (pi_instruction u))" "target (pi_instruction q) = Some r" for q u r
      using placed_apart [OF wo apart P Some] that by metis
    with Some agree mem show ?thesis unfolding steps exec_lane_def prod.case args by (auto simp: out Let_def)
  qed
qed

lemma exec_placed:
  assumes "well_ordered P" and "kept_apart place (intervals P lanes)"
  shows "snd (exec_lanes val eff place P (regs', mem)) = snd (exec_lanes val eff (\<lambda>r. r) P (regs, mem))"
  using exec_placed_prefix [OF assms, of P "[]"] by simp

text \<open>The location of a register: its class, type and number.\<close>

definition location :: "register_assignment list \<Rightarrow> nat \<Rightarrow> register_class \<times> dtype \<times> nat" where
  "location as r = (case lookup_register as r of
     Some a \<Rightarrow> (ra_class a, ra_dtype a, ra_physical a) | None \<Rightarrow> (ScalarClass, Bool, 0))"

subsection \<open>The interface of an allocator\<close>

text \<open>What a renderer needs of an allocator: every interval gets a register of its class and type, and
  intervals of one class and type that meet get different ones.\<close>

locale register_allocator =
  fixes alloc :: "live_interval list \<Rightarrow> nat \<Rightarrow> (linearize_error, register_assignment list) result"
  assumes alloc_assigned: "alloc ints limit = Inr as \<Longrightarrow> intervals_ok ints \<Longrightarrow> i \<in> set ints \<Longrightarrow>
      \<exists>a. lookup_register as (li_virtual i) = Some a \<and> assigns (as_u32 limit) i a"
    and alloc_apart: "alloc ints limit = Inr as \<Longrightarrow> intervals_ok ints \<Longrightarrow> i \<in> set ints \<Longrightarrow> j \<in> set ints \<Longrightarrow>
      li_virtual i \<noteq> li_virtual j \<Longrightarrow> register_pool i = register_pool j \<Longrightarrow> meets i j \<Longrightarrow>
      lookup_register as (li_virtual i) = Some a \<Longrightarrow> lookup_register as (li_virtual j) = Some b \<Longrightarrow>
      ra_physical a \<noteq> ra_physical b"
begin

lemma locations_apart:
  assumes "alloc ints limit = Inr as" and "intervals_ok ints"
  shows "kept_apart (location as) ints"
  unfolding kept_apart_def
proof (intro ballI impI)
  fix i j assume ij: "i \<in> set ints" "j \<in> set ints" "li_virtual i \<noteq> li_virtual j" "meets i j"
  from alloc_assigned [OF assms ij(1)] alloc_assigned [OF assms ij(2)] obtain a b where
    ab: "lookup_register as (li_virtual i) = Some a" "assigns (as_u32 limit) i a"
      "lookup_register as (li_virtual j) = Some b" "assigns (as_u32 limit) j b" by blast
  then show "location as (li_virtual i) \<noteq> location as (li_virtual j)"
    using alloc_apart [OF assms ij(1-3) _ ij(4) ab(1,3)] by (auto simp: location_def assigns_def register_pool_def)
qed

lemma exec_allocated:
  assumes "well_ordered P" and "alloc (intervals P lanes) limit = Inr as"
  shows "snd (exec_lanes val eff (location as) P (regs', mem)) = snd (exec_lanes val eff (\<lambda>r. r) P (regs, mem))"
  using exec_placed [OF assms(1) locations_apart [OF assms(2) well_ordered_intervals [OF assms(1)]]] .

end

interpretation linear_scan: register_allocator allocate
  using allocate_assigned allocate_apart by unfold_locales blast+

end
