(* ===== verification/LinearizeTheorems.thy ===== *)
theory LinearizeTheorems
  imports LaneExecution
begin

section \<open>Numbering the operation DAG (src/src/linearize.rs, LaneProducers)\<close>

text \<open>
  The visit gives structurally equal nodes one number and sources smaller numbers than their users.
  \<open>strip\<close> forgets allocations, so that \<open>strip u = strip v\<close> is structural equality; \<open>numbering\<close> is the
  invariant of the visit, under the bound at which the \<open>u32\<close> numbers do not wrap.
\<close>

subsection \<open>Structural identity\<close>

fun strip :: "'x uop \<Rightarrow> 'x uop" where
  "strip (UOp i op ty tag srcs) = UOp 0 op ty tag (map strip srcs)"

fun subnodes :: "'x uop \<Rightarrow> 'x uop set" where
  "subnodes (UOp i op ty tag srcs) = insert (UOp i op ty tag srcs) (\<Union> (set (map subnodes srcs)))"

text \<open>One allocation holds one node.\<close>

definition well_shared :: "'x uop set \<Rightarrow> bool" where
  "well_shared U \<longleftrightarrow> (\<forall>u \<in> U. \<forall>v \<in> U. uop_identity u = uop_identity v \<longrightarrow> u = v) \<and>
     (\<forall>u \<in> U. set (uop_sources u) \<subseteq> U)"

lemma strip_eq_iff:
  "strip u = strip v \<longleftrightarrow> uop_operation u = uop_operation v \<and> uop_ty u = uop_ty v \<and> uop_tag u = uop_tag v \<and>
     map strip (uop_sources u) = map strip (uop_sources v)"
  by (cases u; cases v) auto

lemma subnodes_self [simp]: "u \<in> subnodes u"
  by (cases u) simp

lemma subnodes_sources: "v \<in> subnodes u \<Longrightarrow> set (uop_sources v) \<subseteq> subnodes u"
proof (induction u)
  case (UOp i op ty tag srcs)
  then show ?case by fastforce
qed

subsection \<open>Numbering\<close>

definition key_of :: "'x producers \<Rightarrow> 'x uop \<Rightarrow> 'x producer_key" where
  "key_of pr u = (uop_operation u, uop_ty u, uop_tag u, map (owner_of pr) (uop_sources u))"

definition owned :: "'x producers \<Rightarrow> 'x uop \<Rightarrow> bool" where
  "owned pr u \<longleftrightarrow> (\<exists>i. pr_owners pr (uop_identity u) = Some i)"

definition numbering :: "'x uop set \<Rightarrow> 'x producers \<Rightarrow> bool" where
  "numbering U pr \<longleftrightarrow> set (pr_nodes pr) \<subseteq> U \<and>
     (\<forall>u \<in> U. owned pr u \<longrightarrow> owner_of pr u < length (pr_nodes pr) \<and> strip (pr_nodes pr ! owner_of pr u) = strip u \<and>
        (\<forall>s \<in> set (uop_sources u). owned pr s)) \<and>
     (\<forall>i < length (pr_nodes pr). owned pr (pr_nodes pr ! i) \<and> owner_of pr (pr_nodes pr ! i) = i \<and>
        (\<forall>s \<in> set (uop_sources (pr_nodes pr ! i)). owner_of pr s < i)) \<and>
     distinct (map strip (pr_nodes pr)) \<and>
     (\<forall>key i. pr_structural pr key = Some i \<longleftrightarrow> i < length (pr_nodes pr) \<and> key = key_of pr (pr_nodes pr ! i))"

lemma numbering_start: "numbering U no_producers"
  by (simp add: numbering_def no_producers_def owned_def)

lemma numberingD:
  assumes "numbering U pr"
  shows "set (pr_nodes pr) \<subseteq> U" and "distinct (map strip (pr_nodes pr))"
    and "v \<in> U \<Longrightarrow> owned pr v \<Longrightarrow> owner_of pr v < length (pr_nodes pr)"
    and "v \<in> U \<Longrightarrow> owned pr v \<Longrightarrow> strip (pr_nodes pr ! owner_of pr v) = strip v"
    and "v \<in> U \<Longrightarrow> owned pr v \<Longrightarrow> s \<in> set (uop_sources v) \<Longrightarrow> owned pr s"
    and "j < length (pr_nodes pr) \<Longrightarrow> pr_nodes pr ! j \<in> U"
    and "j < length (pr_nodes pr) \<Longrightarrow> owned pr (pr_nodes pr ! j)"
    and "j < length (pr_nodes pr) \<Longrightarrow> owner_of pr (pr_nodes pr ! j) = j"
    and "j < length (pr_nodes pr) \<Longrightarrow> s \<in> set (uop_sources (pr_nodes pr ! j)) \<Longrightarrow> owned pr s \<and> owner_of pr s < j"
    and "pr_structural pr key = Some j \<longleftrightarrow> j < length (pr_nodes pr) \<and> key = key_of pr (pr_nodes pr ! j)"
proof -
  note num = assms [unfolded numbering_def]
  show "set (pr_nodes pr) \<subseteq> U" "distinct (map strip (pr_nodes pr))" using num by blast+
  show "v \<in> U \<Longrightarrow> owned pr v \<Longrightarrow> owner_of pr v < length (pr_nodes pr)"
    "v \<in> U \<Longrightarrow> owned pr v \<Longrightarrow> strip (pr_nodes pr ! owner_of pr v) = strip v"
    "v \<in> U \<Longrightarrow> owned pr v \<Longrightarrow> s \<in> set (uop_sources v) \<Longrightarrow> owned pr s" using num by blast+
  show node: "j < length (pr_nodes pr) \<Longrightarrow> pr_nodes pr ! j \<in> U" using num nth_mem by blast
  show "j < length (pr_nodes pr) \<Longrightarrow> owned pr (pr_nodes pr ! j)"
    "j < length (pr_nodes pr) \<Longrightarrow> owner_of pr (pr_nodes pr ! j) = j" using num by blast+
  show "j < length (pr_nodes pr) \<Longrightarrow> s \<in> set (uop_sources (pr_nodes pr ! j)) \<Longrightarrow> owned pr s \<and> owner_of pr s < j"
    using num node by blast
  show "pr_structural pr key = Some j \<longleftrightarrow> j < length (pr_nodes pr) \<and> key = key_of pr (pr_nodes pr ! j)"
    using num by blast
qed

lemma numbering_owner_iff:
  assumes "numbering U pr" and "u \<in> U" "v \<in> U" and "owned pr u" "owned pr v"
  shows "owner_of pr u = owner_of pr v \<longleftrightarrow> strip u = strip v"
proof -
  have u: "owner_of pr u < length (pr_nodes pr)" "strip (pr_nodes pr ! owner_of pr u) = strip u"
    and v: "owner_of pr v < length (pr_nodes pr)" "strip (pr_nodes pr ! owner_of pr v) = strip v"
    using assms(2-) by (simp_all add: numberingD(3,4) [OF assms(1)])
  moreover note numberingD(2) [OF assms(1)]
  ultimately show ?thesis
    using nth_eq_iff_index_eq [of "map strip (pr_nodes pr)" "owner_of pr u" "owner_of pr v"] by simp
qed

lemma numbering_keys:
  assumes num: "numbering U pr" and shared: "well_shared U" and u: "u \<in> U" and v: "v \<in> U"
    and owned: "\<forall>s \<in> set (uop_sources u). owned pr s" "\<forall>s \<in> set (uop_sources v). owned pr s"
  shows "key_of pr u = key_of pr v \<longleftrightarrow> strip u = strip v"
proof -
  have sub: "set (uop_sources u) \<subseteq> U" "set (uop_sources v) \<subseteq> U" using shared u v by (auto simp: well_shared_def)
  have "map (owner_of pr) xs = map (owner_of pr) ys \<longleftrightarrow> map strip xs = map strip ys"
    if "set xs \<subseteq> U" "set ys \<subseteq> U" "\<forall>s \<in> set xs. owned pr s" "\<forall>s \<in> set ys. owned pr s" for xs ys
    using that
  proof (induction xs arbitrary: ys)
    case Nil
    then show ?case by (cases ys) auto
  next
    case (Cons x xs)
    then show ?case by (cases ys) (auto simp: numbering_owner_iff [OF num])
  qed
  from this [OF sub owned] show ?thesis by (auto simp: key_of_def strip_eq_iff)
qed

definition extends :: "'x producers \<Rightarrow> 'x producers \<Rightarrow> bool" where
  "extends pr pr' \<longleftrightarrow> (\<exists>new. pr_nodes pr' = pr_nodes pr @ new) \<and> pr_owners pr \<subseteq>\<^sub>m pr_owners pr'"

lemma extends_refl [simp]: "extends pr pr"
  by (simp add: extends_def)

lemma extends_trans: "extends a b \<Longrightarrow> extends b c \<Longrightarrow> extends a c"
  unfolding extends_def by (auto intro: map_le_trans)

lemma extends_owned: "extends pr pr' \<Longrightarrow> owned pr u \<Longrightarrow> owned pr' u \<and> owner_of pr' u = owner_of pr u"
  by (auto simp: extends_def owned_def owner_of_def map_le_def dom_def)

text \<open>Entering one owner keeps the numbering: an old number with an equal node, or the next one.\<close>

lemma numbering_enter:
  assumes num: "numbering U pr" and shared: "well_shared U" and u: "u \<in> U" and new: "\<not> owned pr u"
    and sources: "\<forall>s \<in> set (uop_sources u). owned pr s"
    and nodes': "pr_nodes pr' = pr_nodes pr @ added" and i: "i < length (pr_nodes pr')"
    and owners': "pr_owners pr' = (pr_owners pr)(uop_identity u \<mapsto> i)"
    and node: "strip (pr_nodes pr' ! i) = strip u"
    and added: "added = [] \<or> added = [u] \<and> i = length (pr_nodes pr) \<and> (\<forall>j < i. strip (pr_nodes pr ! j) \<noteq> strip u)"
    and structural': "\<And>k j. pr_structural pr' k = Some j \<longleftrightarrow> j < length (pr_nodes pr') \<and> k = key_of pr (pr_nodes pr' ! j)"
  shows "numbering U pr' \<and> owned pr' u \<and> extends pr pr'"
proof -
  note D = numberingD [OF num]
  have neq: "uop_identity s \<noteq> uop_identity u" if "owned pr s" for s
    using new that by (auto simp: owned_def)
  have own: "owned pr' v \<longleftrightarrow> owned pr v \<or> uop_identity v = uop_identity u"
    "owner_of pr' v = (if uop_identity v = uop_identity u then i else owner_of pr v)" for v
    by (auto simp: owners' owned_def owner_of_def)
  have same: "v = u" if "v \<in> U" "uop_identity v = uop_identity u" for v
    using shared u that by (auto simp: well_shared_def)
  have keys: "key_of pr' v = key_of pr v" if "\<forall>s \<in> set (uop_sources v). owned pr s" for v
    using that neq by (auto simp: key_of_def own)
  have old: "pr_nodes pr' ! j = pr_nodes pr ! j" if "j < length (pr_nodes pr)" for j
    using that by (simp add: nodes' nth_append)
  have split: "j < length (pr_nodes pr) \<or> added = [u] \<and> j = length (pr_nodes pr) \<and> i = j" if "j < length (pr_nodes pr')" for j
    using that added by (auto simp: nodes')
  have last: "pr_nodes pr' ! length (pr_nodes pr) = u" if "added = [u]" using that by (simp add: nodes')
  have "numbering U pr'"
    unfolding numbering_def
  proof (intro conjI ballI allI impI)
    show "set (pr_nodes pr') \<subseteq> U" using D(1) added u by (auto simp: nodes')
    show "distinct (map strip (pr_nodes pr'))" using D(2) added by (auto simp: nodes' in_set_conv_nth)
  next
    fix v assume v: "v \<in> U" "owned pr' v"
    show "owner_of pr' v < length (pr_nodes pr')"
      using v i D(3) [of v] by (auto simp: own nodes' intro: trans_less_add1)
    show "strip (pr_nodes pr' ! owner_of pr' v) = strip v"
    proof (cases "uop_identity v = uop_identity u")
      case True
      with same [OF v(1)] node show ?thesis by (simp add: own)
    next
      case False
      with v have "owned pr v" by (simp add: own)
      with False D(3,4) [OF v(1)] old show ?thesis by (simp add: own)
    qed
    fix s assume "s \<in> set (uop_sources v)"
    then show "owned pr' s" using v D(5) [of v s] same [of v] sources by (auto simp: own)
  next
    fix j assume "j < length (pr_nodes pr')"
    from split [OF this] have cases: "j < length (pr_nodes pr) \<or> added = [u] \<and> j = length (pr_nodes pr) \<and> i = j" .
    then show "owned pr' (pr_nodes pr' ! j)" using D(7) [of j] last by (auto simp: own old)
    from cases show "owner_of pr' (pr_nodes pr' ! j) = j" using D(7,8) [of j] last neq by (auto simp: own old)
    fix s assume s: "s \<in> set (uop_sources (pr_nodes pr' ! j))"
    from cases show "owner_of pr' s < j"
    proof
      assume j: "j < length (pr_nodes pr)"
      with D(9) [OF j, of s] s neq [of s] show ?thesis by (auto simp: own old)
    next
      assume j: "added = [u] \<and> j = length (pr_nodes pr) \<and> i = j"
      with s last have su: "s \<in> set (uop_sources u)" by simp
      with shared u have "s \<in> U" by (auto simp: well_shared_def)
      with sources su D(3) [of s] j neq [of s] show ?thesis by (auto simp: own)
    qed
  next
    fix k j
    show "pr_structural pr' k = Some j \<longleftrightarrow> j < length (pr_nodes pr') \<and> k = key_of pr' (pr_nodes pr' ! j)"
      unfolding structural' using split [of j] D(9) [of j] keys sources last old by auto
  qed
  moreover have "extends pr pr'" using new by (auto simp: extends_def nodes' owners' map_le_def owned_def)
  ultimately show ?thesis using own(1) by blast
qed

lemma number_node_correct:
  assumes num: "numbering U pr" and shared: "well_shared U" and u: "u \<in> U" and new: "\<not> owned pr u"
    and sources: "\<forall>s \<in> set (uop_sources u). owned pr s" and small: "length (pr_nodes (number_node u pr)) \<le> 2 ^ 32"
  shows "numbering U (number_node u pr) \<and> owned (number_node u pr) u \<and> extends pr (number_node u pr)"
proof -
  note D = numberingD [OF num]
  have key: "(uop_operation u, uop_ty u, uop_tag u, map (owner_of pr) (uop_sources u)) = key_of pr u"
    by (simp add: key_of_def)
  have eq: "strip (pr_nodes pr ! j) = strip u \<longleftrightarrow> key_of pr (pr_nodes pr ! j) = key_of pr u" if "j < length (pr_nodes pr)" for j
    using numbering_keys [OF num shared D(6) [OF that] u] D(9) [OF that] sources by blast
  show ?thesis
  proof (cases "pr_structural pr (key_of pr u)")
    case (Some i)
    then have i: "i < length (pr_nodes pr)" "key_of pr u = key_of pr (pr_nodes pr ! i)" by (simp_all add: D(10))
    have pr: "number_node u pr = pr\<lparr>pr_owners := (pr_owners pr)(uop_identity u \<mapsto> i)\<rparr>"
      using Some by (simp add: number_node_def key)
    show ?thesis unfolding pr
      by (rule numbering_enter [OF num shared u new sources, of _ "[]" i])
        (use i eq [OF i(1)] in \<open>simp_all add: D(10) del: split_paired_All\<close>)
  next
    case None
    let ?n = "length (pr_nodes pr)"
    from small None have n: "as_u32 ?n = ?n" by (simp add: number_node_def key as_u32_def Let_def)
    have pr: "number_node u pr = \<lparr>pr_nodes = pr_nodes pr @ [u], pr_owners = (pr_owners pr)(uop_identity u \<mapsto> ?n),
        pr_structural = (pr_structural pr)(key_of pr u \<mapsto> ?n)\<rparr>"
      using None n by (simp add: number_node_def key Let_def)
    have fresh: "key_of pr (pr_nodes pr ! j) \<noteq> key_of pr u" if "j < ?n" for j
      using None D(10) [of "key_of pr u" j] that by auto
    have struct: "((pr_structural pr)(key_of pr u \<mapsto> ?n)) k = Some j \<longleftrightarrow>
        j < Suc ?n \<and> k = key_of pr ((pr_nodes pr @ [u]) ! j)" for k j
      using fresh D(10) [of k j] by (auto simp: nth_append less_Suc_eq)
    show ?thesis unfolding pr
      by (rule numbering_enter [OF num shared u new sources, of _ "[u]" ?n])
        (use fresh eq struct in \<open>simp_all del: fun_upd_apply split_paired_All\<close>)
  qed
qed

lemma number_node_owned:
  assumes num: "numbering U pr" and shared: "well_shared U" and u: "u \<in> U" and own: "owned pr u"
  shows "number_node u pr = pr"
proof -
  note D = numberingD [OF num]
  let ?i = "owner_of pr u"
  have i: "?i < length (pr_nodes pr)" "strip (pr_nodes pr ! ?i) = strip u" using D(3,4) [OF u own] by auto
  have "key_of pr (pr_nodes pr ! ?i) = key_of pr u"
    using numbering_keys [OF num shared D(6) [OF i(1)] u] D(9) [OF i(1)] D(5) [OF u own] i(2) by blast
  with i(1) have "pr_structural pr (key_of pr u) = Some ?i" by (simp add: D(10))
  moreover have "(pr_owners pr)(uop_identity u \<mapsto> ?i) = pr_owners pr"
    using own by (auto simp: owned_def owner_of_def fun_eq_iff)
  ultimately show ?thesis by (simp add: number_node_def key_of_def)
qed

lemma number_node_length: "length (pr_nodes pr) \<le> length (pr_nodes (number_node u pr))"
  by (simp add: number_node_def Let_def split: option.splits)

lemma visit_length:
  "length (pr_nodes pr) \<le> length (pr_nodes (visit u pr))"
  "length (pr_nodes pr) \<le> length (pr_nodes (visit_all us pr))"
  by (induction u pr and us pr rule: visit_visit_all.induct) (auto intro: le_trans number_node_length)

lemma visit_correct:
  "numbering U pr \<Longrightarrow> well_shared U \<Longrightarrow> u \<in> U \<Longrightarrow> length (pr_nodes (visit u pr)) \<le> 2 ^ 32 \<Longrightarrow>
     numbering U (visit u pr) \<and> owned (visit u pr) u \<and> extends pr (visit u pr)"
  "numbering U pr \<Longrightarrow> well_shared U \<Longrightarrow> set us \<subseteq> U \<Longrightarrow> length (pr_nodes (visit_all us pr)) \<le> 2 ^ 32 \<Longrightarrow>
     numbering U (visit_all us pr) \<and> (\<forall>u \<in> set us. owned (visit_all us pr) u) \<and> extends pr (visit_all us pr)"
proof (induction u pr and us pr rule: visit_visit_all.induct)
  case (1 i op ty tag srcs pr)
  let ?u = "UOp i op ty tag srcs"
  show ?case
  proof (cases "owned pr ?u")
    case True
    then show ?thesis using 1(2) by (simp add: owned_def)
  next
    case False
    then have none: "pr_owners pr i = None" by (simp add: owned_def)
    let ?pr = "visit_all srcs pr"
    have visit: "visit ?u pr = number_node ?u ?pr" using none by simp
    have small: "length (pr_nodes (number_node ?u ?pr)) \<le> 2 ^ 32" using 1(5) unfolding visit .
    have "set srcs \<subseteq> U" using 1(3,4) by (force simp: well_shared_def)
    moreover have "length (pr_nodes ?pr) \<le> 2 ^ 32" using small number_node_length [of ?pr ?u] by simp
    ultimately have ih: "numbering U ?pr" "\<forall>u \<in> set srcs. owned ?pr u" "extends pr ?pr"
      using 1(1) [OF _ 1(2,3)] none by auto
    show ?thesis
    proof (cases "owned ?pr ?u")
      case False
      from number_node_correct [OF ih(1) 1(3,4) False _ small] ih(2)
      show ?thesis unfolding visit using extends_trans [OF ih(3)] by auto
    next
      case True
      from number_node_owned [OF ih(1) 1(3,4) True] ih True show ?thesis unfolding visit by simp
    qed
  qed
next
  case (2 pr)
  then show ?case by simp
next
  case (3 u us pr)
  have "length (pr_nodes (visit u pr)) \<le> 2 ^ 32"
    using 3(6) visit_length(2) [of "visit u pr" us] by simp
  with 3 have u: "numbering U (visit u pr)" "owned (visit u pr) u" "extends pr (visit u pr)" by auto
  with 3 have us: "numbering U (visit_all us (visit u pr))" "\<forall>v \<in> set us. owned (visit_all us (visit u pr)) v"
    "extends (visit u pr) (visit_all us (visit u pr))" by auto
  with u extends_owned [OF us(3) u(2)] extends_trans [OF u(3) us(3)] show ?case by simp
qed

end
