(* ===== verification/LaneEvaluation.thy ===== *)
theory LaneEvaluation
  imports LinearizeTheorems
begin

section \<open>Evaluating the operation DAG\<close>

text \<open>
  \<open>eval_uop\<close> evaluates a node from its sources, with the computation of each lane as a parameter: the
  reference a lane program is compared with. A projection is shown to read exactly the sources the reference
  reads, and running a projected program gives every register the value of its node.
\<close>

subsection \<open>Evaluation of a node\<close>

text \<open>The lane instruction of a node with its registers erased, if it has one.\<close>

definition any_register :: "'x source_register" where
  "any_register = (\<lambda>_ _. Inr 0)"

definition lane_of :: "'x uop \<Rightarrow> shape_of_lane option" where
  "lane_of u = (case project_lane_instruction u 0 any_register of Inr (Some ins) \<Rightarrow> Some (erase ins) | _ \<Rightarrow> None)"

definition operand_count :: "'x uop \<Rightarrow> nat" where
  "operand_count u = (case lane_of u of Some sh \<Rightarrow> length (lv_inputs (view_of sh)) | None \<Rightarrow> 0)"

text \<open>The value of a node from the values of its operands; a store, and a node without a lane instruction, has the
  value \<open>d\<close>.\<close>

fun eval_uop :: "(shape_of_lane \<Rightarrow> 'v list \<Rightarrow> 'v) \<Rightarrow> 'v \<Rightarrow> 'x uop \<Rightarrow> 'v" where
  "eval_uop val d (UOp i op ty tag srcs) =
    (case lane_of (UOp i op ty tag srcs) of
       Some sh \<Rightarrow> if op = OpStore then d else val sh (take (length (lv_inputs (view_of sh))) (map (eval_uop val d) srcs))
     | None \<Rightarrow> d)"

definition eval_operands :: "(shape_of_lane \<Rightarrow> 'v list \<Rightarrow> 'v) \<Rightarrow> 'v \<Rightarrow> 'x uop \<Rightarrow> 'v list" where
  "eval_operands val d u = take (operand_count u) (map (eval_uop val d) (uop_sources u))"

lemma eval_uop_eq:
  "lane_of u = Some sh \<Longrightarrow> uop_operation u \<noteq> OpStore \<Longrightarrow> eval_uop val d u = val sh (eval_operands val d u)"
  by (cases u) (simp add: eval_operands_def operand_count_def)

subsection \<open>A projection reads its sources\<close>

text \<open>What a projection looks at: the operation and type of the node and of its sources.\<close>

definition digest :: "'x uop \<Rightarrow> ('x operation \<times> utype option) \<times> ('x operation \<times> utype option) list" where
  "digest u = ((uop_operation u, uop_ty u), map (\<lambda>s. (uop_operation s, uop_ty s)) (uop_sources u))"

lemma strip_digest: "strip u = strip v \<Longrightarrow> digest u = digest v"
proof -
  assume eq: "strip u = strip v"
  then have "map strip (uop_sources u) = map strip (uop_sources v)" by (simp add: strip_eq_iff)
  then have "map (\<lambda>s. (uop_operation s, uop_ty s)) (map strip (uop_sources u)) =
      map (\<lambda>s. (uop_operation s, uop_ty s)) (map strip (uop_sources v))" by simp
  moreover have "uop_operation (strip s) = uop_operation s" "uop_ty (strip s) = uop_ty s" for s :: "'a uop"
    by (cases s; simp)+
  ultimately have "map (\<lambda>s. (uop_operation s, uop_ty s)) (uop_sources u) = map (\<lambda>s. (uop_operation s, uop_ty s)) (uop_sources v)"
    by (simp add: comp_def)
  with eq show "digest u = digest v" by (simp add: digest_def strip_eq_iff)
qed

lemma digest_sources:
  assumes "digest u = digest v"
  shows "length (uop_sources u) = length (uop_sources v)"
    and "k < length (uop_sources u) \<Longrightarrow> uop_operation (uop_sources u ! k) = uop_operation (uop_sources v ! k)"
    and "k < length (uop_sources u) \<Longrightarrow> uop_ty (uop_sources u ! k) = uop_ty (uop_sources v ! k)"
    and "uop_operation u = uop_operation v" and "uop_ty u = uop_ty v"
proof -
  have srcs: "map (\<lambda>s. (uop_operation s, uop_ty s)) (uop_sources u) = map (\<lambda>s. (uop_operation s, uop_ty s)) (uop_sources v)"
    using assms by (simp add: digest_def)
  then show len: "length (uop_sources u) = length (uop_sources v)" by (metis length_map)
  show "uop_operation u = uop_operation v" "uop_ty u = uop_ty v" using assms by (simp_all add: digest_def)
  assume k: "k < length (uop_sources u)"
  from arg_cong [OF srcs, of "\<lambda>l. l ! k"] k len
  show "uop_operation (uop_sources u ! k) = uop_operation (uop_sources v ! k)" "uop_ty (uop_sources u ! k) = uop_ty (uop_sources v ! k)"
    by simp_all
qed

lemma any_sources:
  assumes "digest u = digest v"
  shows "typed_source u any_register k = typed_source v any_register k"
    and "address_source u any_register k = address_source v any_register k"
    and "index_source u any_register k = index_source v any_register k"
    and "node_output u r = node_output v r"
  using digest_sources [OF assms]
  by (auto simp: typed_source_def address_source_def index_source_def node_source_def node_output_def any_register_def)

lemma lane_of_digest:
  assumes "digest u = digest v"
  shows "lane_of u = lane_of v"
proof -
  have "project_operation op u 0 any_register = project_operation op v 0 any_register" for op
    using digest_sources(4,5) [OF assms]
    by (cases op) (simp_all add: any_sources [OF assms] project_constant_def project_address_def project_unary_def project_binary_def
        split: logical_op.split)
  then show ?thesis
    using digest_sources(4) [OF assms] by (simp add: lane_of_def project_lane_instruction_def)
qed

lemma eval_uop_strip: "strip u = strip v \<Longrightarrow> eval_uop val d u = eval_uop val d v"
proof (induction u arbitrary: v)
  case (UOp i op ty tag srcs)
  obtain j op' ty' tag' srcs' where v: "v = UOp j op' ty' tag' srcs'" by (cases v)
  have strips: "map strip srcs = map strip srcs'" using UOp.prems v by simp
  then have len: "length srcs = length srcs'" by (metis length_map)
  have "map (eval_uop val d) srcs = map (eval_uop val d) srcs'"
  proof (rule nth_equalityI)
    fix k assume k: "k < length (map (eval_uop val d) srcs)"
    from arg_cong [OF strips, of "\<lambda>l. l ! k"] k len have "strip (srcs ! k) = strip (srcs' ! k)" by simp
    with UOp.IH [of "srcs ! k" "srcs' ! k"] k len
    show "map (eval_uop val d) srcs ! k = map (eval_uop val d) srcs' ! k" by simp
  qed (simp add: len)
  moreover have "lane_of (UOp i op ty tag srcs) = lane_of v"
    using lane_of_digest [OF strip_digest [OF UOp.prems]] .
  moreover have "op = op'" using UOp.prems v by simp
  ultimately show ?case by (simp add: v split: option.split)
qed

text \<open>A successful projection along a numbering of the sources: the erased instruction is that of the node,
  and the operands are the numbers of the first sources.\<close>

definition projected :: "'x uop \<Rightarrow> nat \<Rightarrow> ('x uop \<Rightarrow> nat option) \<Rightarrow> nat lane_instruction \<Rightarrow> bool" where
  "projected u r own ins \<longleftrightarrow> lane_of u = Some (erase ins) \<and> length (reads ins) \<le> length (uop_sources u) \<and>
     (\<forall>k < length (reads ins). own (uop_sources u ! k) = Some (reads ins ! k)) \<and>
     target ins = (if uop_operation u = OpStore then None else Some r)"

lemma erased_sources:
  "typed_source u (source_reg own) k = Inr v \<Longrightarrow>
     typed_source u any_register k = Inr (Typed 0 (tv_ty v)) \<and> k < length (uop_sources u) \<and> own (uop_sources u ! k) = Some (tv_register v)"
  "address_source u (source_reg own) k = Inr a \<Longrightarrow>
     address_source u any_register k = Inr (AddressRef 0 (ar_value a)) \<and> k < length (uop_sources u) \<and> own (uop_sources u ! k) = Some (ar_register a)"
  "index_source u (source_reg own) k = Inr x \<Longrightarrow>
     index_source u any_register k = Inr (IndexRef 0 (ix_value x) (ix_element x)) \<and> k < length (uop_sources u) \<and> own (uop_sources u ! k) = Some (ix_register x)"
  by (auto simp: typed_source_def address_source_def index_source_def node_source_def source_reg_def any_register_def result_simps
      split: if_splits)

lemma lv_name_value_view [simp]: "lv_name (value_view ins out name) = name"
  by (simp add: value_view_def)

lemma lane_validate_erase: "lane_validate (map_lane_instruction g ins) = lane_validate ins"
  by (cases ins) (simp_all add: typed_value.map_sel address_ref.map_sel index_ref.map_sel split: literal.split)


lemma zero_operands:
  "map_typed_value (\<lambda>_. 0) v = Typed 0 (tv_ty v)"
  "map_address_ref (\<lambda>_. 0) a = AddressRef 0 (ar_value a)"
  "map_index_ref (\<lambda>_. 0) x = IndexRef 0 (ix_value x) (ix_element x)"
  by (cases v; cases a; cases x; simp)+

lemma operand_registers:
  "fst (value_operand v) = tv_register v" "fst (address_operand a) = ar_register a" "fst (index_operand x) = ix_register x"
  by (cases v; cases a; cases x; simp)+

lemma project_unary_Inr:
  "project_unary u r (source_reg own) mk = Inr ins \<Longrightarrow> \<exists>out x. ins = mk out x \<and> tv_register out = r \<and>
     project_unary u 0 any_register mk = Inr (mk (Typed 0 (tv_ty out)) (Typed 0 (tv_ty x))) \<and>
     0 < length (uop_sources u) \<and> own (uop_sources u ! 0) = Some (tv_register x)"
  by (auto simp: project_unary_def node_output_def result_simps dest!: erased_sources) (metis typed_value.sel)

lemma project_binary_Inr:
  "project_binary u r (source_reg own) mk = Inr ins \<Longrightarrow> \<exists>out x y. ins = mk out x y \<and> tv_register out = r \<and>
     project_binary u 0 any_register mk = Inr (mk (Typed 0 (tv_ty out)) (Typed 0 (tv_ty x)) (Typed 0 (tv_ty y))) \<and>
     1 < length (uop_sources u) \<and> own (uop_sources u ! 0) = Some (tv_register x) \<and> own (uop_sources u ! 1) = Some (tv_register y)"
  by (auto simp: project_binary_def node_output_def result_simps dest!: erased_sources) (metis typed_value.sel)

text \<open>What is shown of each operation.\<close>

definition reads_sources :: "'x uop \<Rightarrow> nat \<Rightarrow> ('x uop \<Rightarrow> nat option) \<Rightarrow> 'x operation \<Rightarrow> nat lane_instruction \<Rightarrow> bool" where
  "reads_sources u r own op ins \<longleftrightarrow>
     project_operation op u 0 any_register = Some (Inr (map_lane_instruction (\<lambda>_. 0) ins)) \<and>
     length (reads ins) \<le> length (uop_sources u) \<and>
     (\<forall>k < length (reads ins). own (uop_sources u ! k) = Some (reads ins ! k)) \<and>
     target ins = (if op = OpStore then None else Some r)"

lemmas lane_facts = reads_sources_def reads_def target_def value_view_def zero_operands operand_registers less_Suc_eq numeral_2_eq_2 Suc_le_eq

lemma reads_unary:
  assumes "project_unary u r (source_reg own) mk = Inr ins"
    and "\<And>reg. project_operation op u r reg = Some (project_unary u r reg mk)"
    and "\<And>reg. project_operation op u 0 reg = Some (project_unary u 0 reg mk)"
    and "\<And>out x. view_of (mk out x) = value_view [x] out (lv_name (view_of (mk out x)))"
    and "\<And>out x. map_lane_instruction (\<lambda>_. 0) (mk out x) = mk (Typed 0 (tv_ty out)) (Typed 0 (tv_ty x))"
    and "op \<noteq> OpStore"
  shows "reads_sources u r own op ins"
proof -
  from project_unary_Inr [OF assms(1)] obtain out x where ins: "ins = mk out x" "tv_register out = r"
    "project_unary u 0 any_register mk = Inr (mk (Typed 0 (tv_ty out)) (Typed 0 (tv_ty x)))"
    "0 < length (uop_sources u)" "own (uop_sources u ! 0) = Some (tv_register x)" by blast
  obtain name where "view_of ins = value_view [x] out name" using assms(4) [of out x] unfolding ins(1) by blast
  with ins assms(3,5,6) show ?thesis by (auto simp: lane_facts)
qed

lemma reads_binary:
  assumes "project_binary u r (source_reg own) mk = Inr ins"
    and "\<And>reg. project_operation op u 0 reg = Some (project_binary u 0 reg mk)"
    and "\<And>out x y. view_of (mk out x y) = value_view [x, y] out (lv_name (view_of (mk out x y)))"
    and "\<And>out x y. map_lane_instruction (\<lambda>_. 0) (mk out x y) = mk (Typed 0 (tv_ty out)) (Typed 0 (tv_ty x)) (Typed 0 (tv_ty y))"
    and "op \<noteq> OpStore"
  shows "reads_sources u r own op ins"
proof -
  from project_binary_Inr [OF assms(1)] obtain out x y where ins: "ins = mk out x y" "tv_register out = r"
    "project_binary u 0 any_register mk = Inr (mk (Typed 0 (tv_ty out)) (Typed 0 (tv_ty x)) (Typed 0 (tv_ty y)))"
    "1 < length (uop_sources u)" "own (uop_sources u ! 0) = Some (tv_register x)" "own (uop_sources u ! 1) = Some (tv_register y)" by blast
  obtain name where "view_of ins = value_view [x, y] out name" using assms(3) [of out x y] unfolding ins(1) by blast
  with ins assms(2,4,5) show ?thesis by (auto simp: lane_facts)
qed

lemma project_operation_Inr:
  assumes "project_operation op u r (source_reg own) = Some (Inr ins)"
  shows "reads_sources u r own op ins"
proof (cases op)
  case (OpBinary bop)
  show ?thesis
  proof (cases "bop \<in> {BEq, BLt, BLe}")
    case True
    then consider "bop = BEq" | "bop = BLt" | "bop = BLe" by blast
    then show ?thesis
    proof cases
      case 1
      with assms OpBinary show ?thesis by (intro reads_binary [of u r own LaneCoreEq]) (simp_all add: zero_operands)
    next
      case 2
      with assms OpBinary show ?thesis by (intro reads_binary [of u r own LaneCoreLt]) (simp_all add: zero_operands)
    next
      case 3
      with assms OpBinary show ?thesis by (intro reads_binary [of u r own LaneCoreLe]) (simp_all add: zero_operands)
    qed
  next
    case False
    then have "(case bop of BEq \<Rightarrow> LaneCoreEq out lhs rhs | BLt \<Rightarrow> LaneCoreLt out lhs rhs | BLe \<Rightarrow> LaneCoreLe out lhs rhs
      | _ \<Rightarrow> LaneCoreBinary out lhs rhs bop) = LaneCoreBinary out lhs rhs bop" for out lhs rhs :: "nat typed_value"
      by (cases bop) simp_all
    with assms OpBinary show ?thesis
      by (intro reads_binary [of u r own "\<lambda>out lhs rhs. LaneCoreBinary out lhs rhs bop"]) (simp_all add: zero_operands)
  qed
next
  case (OpGraphLogical lop)
  show ?thesis
  proof (cases lop)
    case LNot
    with assms OpGraphLogical show ?thesis by (intro reads_unary [of u r own LaneLogicalNot]) (simp_all add: zero_operands)
  next
    case LAnd
    with assms OpGraphLogical show ?thesis by (intro reads_binary [of u r own LaneLogicalAnd]) (simp_all add: zero_operands)
  next
    case LOr
    with assms OpGraphLogical show ?thesis by (intro reads_binary [of u r own LaneLogicalOr]) (simp_all add: zero_operands)
  qed
next
  case (OpRange axis)
  with assms show ?thesis
    by (intro reads_unary [of u r own "\<lambda>out bound. LaneRange out bound axis"]) (simp_all add: zero_operands)
next
  case (OpUnary uop)
  with assms show ?thesis
    by (intro reads_unary [of u r own "\<lambda>out input. LaneCoreUnary out input uop"]) (simp_all add: zero_operands)
next
  case (OpGraphUnary uop)
  with assms show ?thesis
    by (intro reads_unary [of u r own "\<lambda>out input. LaneGraphUnary out input uop"]) (simp_all add: zero_operands)
next
  case OpCast
  with assms show ?thesis by (intro reads_unary [of u r own LaneCast]) (simp_all add: zero_operands)
next
  case OpBitcast
  with assms show ?thesis by (intro reads_unary [of u r own LaneBitcast]) (simp_all add: zero_operands)
next
  case (OpGraphBinary bop)
  with assms show ?thesis
    by (intro reads_binary [of u r own "\<lambda>out lhs rhs. LaneGraphBinary out lhs rhs bop"]) (simp_all add: zero_operands)
next
  case (OpGraphCompare cop)
  with assms show ?thesis
    by (intro reads_binary [of u r own "\<lambda>out lhs rhs. LaneCompare out lhs rhs cop"]) (simp_all add: zero_operands)
next
  case (OpTernary t)
  with assms show ?thesis
    by (auto simp: result_simps lane_facts simp: node_output_def dest!: erased_sources)
next
  case (OpIndex v)
  with assms show ?thesis
    by (auto simp: result_simps lane_facts dest!: erased_sources)
next
  case OpLoad
  with assms show ?thesis
    by (auto simp: result_simps lane_facts simp: node_output_def dest!: erased_sources)
next
  case OpStore
  with assms show ?thesis
    by (auto simp: result_simps lane_facts dest!: erased_sources)
qed (use assms in \<open>auto simp: result_simps lane_facts project_constant_def project_address_def
  simp: node_output_def split: if_splits\<close>)

lemma projected_Inr:
  assumes "project_lane_instruction u r (source_reg own) = Inr (Some ins)"
  shows "projected u r own ins"
proof -
  from assms have op: "project_operation (uop_operation u) u r (source_reg own) = Some (Inr ins)"
    and ok: "lane_validate ins = Inr ()"
    by (auto simp: project_lane_instruction_def result_simps split: option.splits)
  note facts = project_operation_Inr [OF op]
  with ok have "lane_of u = Some (erase ins)"
    unfolding reads_sources_def by (simp add: lane_of_def project_lane_instruction_def lane_validate_erase)
  with facts show ?thesis by (simp add: projected_def reads_sources_def)
qed

lemma reads_count: "length (reads ins) = length (lv_inputs (view_of (erase ins)))"
  by (simp add: reads_def erase_def view_of_map)

lemma projected_operands:
  assumes "projected u r own ins"
  shows "eval_operands val d u = map (\<lambda>k. eval_uop val d (uop_sources u ! k)) [0..<length (reads ins)]"
  using assms
  by (intro nth_equalityI) (auto simp: projected_def eval_operands_def operand_count_def reads_count)

subsection \<open>Running the projection\<close>

lemma project_lane_nodes_snoc:
  "project_lane_nodes (us @ [u]) own = rbind (project_lane_nodes us own) (\<lambda>p. project_node own p (length us, u))"
proof -
  have unit: "rbind x Inr = x" for x :: "('e, 'b) result" by (cases x) simp_all
  show ?thesis
    by (simp add: project_lane_nodes_def enumerate_append_eq try_fold_append unit)
qed

lemma project_node_Inr:
  assumes "project_node own p (i, u) = Inr p'" and "lp_unsupported p' = []" and "i < 2 ^ 32"
  shows "lp_unsupported p = [] \<and>
    (lane_of u = None \<and> uop_operation u \<noteq> OpStore \<and> lp_instructions p' = lp_instructions p \<or>
     (\<exists>ins. projected u i own ins \<and> lp_instructions p' = lp_instructions p @ [ProgramInstruction i ins]))"
proof -
  have i: "as_u32 i = i" using assms(3) by (simp add: as_u32_def)
  from assms(1) obtain instruction where
    ins: "project_lane_instruction u i (source_reg own) = Inr instruction" by (auto simp: project_node_def result_simps i)
  show ?thesis
  proof (cases instruction)
    case None
    with ins assms have "is_control (uop_operation u)" "lp_unsupported p = []" "lp_instructions p' = lp_instructions p"
      by (auto simp: project_node_def result_simps i split: if_splits)
    then show ?thesis by (auto simp: is_control_def lane_of_def project_lane_instruction_def)
  next
    case (Some lane)
    with ins have "projected u i own lane" by (simp add: projected_Inr)
    with Some ins assms show ?thesis by (auto simp: project_node_def result_simps i)
  qed
qed

subsection \<open>Running the nodes\<close>

text \<open>The reference run: each node once, in order, from the values its sources have by then, the memory threaded
  through; a load sees the stores before it.\<close>

definition run_node ::
  "(shape_of_lane \<Rightarrow> 'm \<Rightarrow> 'v list \<Rightarrow> 'v) \<Rightarrow> (shape_of_lane \<Rightarrow> 'm \<Rightarrow> 'v list \<Rightarrow> 'm) \<Rightarrow> 'x uop \<Rightarrow>
   ('x uop \<Rightarrow> 'v) \<times> 'm \<Rightarrow> ('x uop \<Rightarrow> 'v) \<times> 'm" where
  "run_node val eff u = (\<lambda>(env, mem).
    (let args = take (operand_count u) (map (\<lambda>s. env (strip s)) (uop_sources u)) in
     case lane_of u of
       None \<Rightarrow> (env, mem)
     | Some sh \<Rightarrow> if uop_operation u = OpStore then (env, eff sh mem args) else (env(strip u := val sh mem args), mem)))"

definition run_nodes ::
  "(shape_of_lane \<Rightarrow> 'm \<Rightarrow> 'v list \<Rightarrow> 'v) \<Rightarrow> 'v \<Rightarrow> (shape_of_lane \<Rightarrow> 'm \<Rightarrow> 'v list \<Rightarrow> 'm) \<Rightarrow> 'x uop list \<Rightarrow> 'm \<Rightarrow>
   ('x uop \<Rightarrow> 'v) \<times> 'm" where
  "run_nodes val d eff us mem = fold (run_node val eff) us (\<lambda>_. d, mem)"

lemma run_nodes_snoc: "run_nodes val d eff (us @ [u]) mem = run_node val eff u (run_nodes val d eff us mem)"
  by (simp add: run_nodes_def)

lemma well_ordered_append: "well_ordered (xs @ ys) \<Longrightarrow> well_ordered xs"
  unfolding well_ordered_def by (auto simp: sorted_wrt_append)

lemma exec_projected:
  fixes pr :: "'x producers"
  assumes num: "numbering U pr" and shared: "well_shared U" and small: "length (pr_nodes pr) \<le> 2 ^ 32"
  shows "pr_nodes pr = us @ vs \<Longrightarrow> project_lane_nodes us (\<lambda>s. pr_owners pr (uop_identity s)) = Inr p \<Longrightarrow>
    lp_unsupported p = [] \<Longrightarrow> well_ordered (lp_instructions p) \<Longrightarrow>
    exec_lanes val eff (\<lambda>r. r) (lp_instructions p) (regs, mem) = (R, M) \<Longrightarrow>
    (\<forall>q \<in> set (lp_instructions p). \<forall>r. target (pi_instruction q) = Some r \<longrightarrow>
       r < length us \<and> R r = fst (run_nodes val d eff us mem) (strip (us ! r))) \<and>
    M = snd (run_nodes val d eff us mem)"
proof (induction us arbitrary: vs p R M rule: rev_induct)
  case Nil
  then show ?case by (auto simp: project_lane_nodes_def exec_lanes_def run_nodes_def)
next
  case (snoc u us)
  let ?own = "\<lambda>s. pr_owners pr (uop_identity s)"
  let ?i = "length us"
  obtain env M0 where before: "run_nodes val d eff us mem = (env, M0)" by fastforce
  have nodes: "pr_nodes pr = us @ u # vs" using snoc.prems(1) by simp
  then have i: "?i < length (pr_nodes pr)" "?i < 2 ^ 32" "pr_nodes pr ! ?i = u" using small by auto
  have fresh: "strip u \<notin> strip ` set us" using numberingD(2) [OF num] nodes by auto
  from snoc.prems(2) obtain p0 where p0: "project_lane_nodes us ?own = Inr p0" and step: "project_node ?own p0 (?i, u) = Inr p"
    by (auto simp: project_lane_nodes_snoc result_simps)
  note node = project_node_Inr [OF step snoc.prems(3) i(2)]
  then have unsupported: "lp_unsupported p0 = []" by blast
  have "\<exists>rest. lp_instructions p = lp_instructions p0 @ rest" using node by auto
  then have wo0: "well_ordered (lp_instructions p0)" using snoc.prems(4) well_ordered_append by auto
  obtain R0 M0' where run0: "exec_lanes val eff (\<lambda>r. r) (lp_instructions p0) (regs, mem) = (R0, M0')" by fastforce
  from snoc.IH [OF nodes p0 unsupported wo0 run0] have
    regs0: "\<And>q r. q \<in> set (lp_instructions p0) \<Longrightarrow> target (pi_instruction q) = Some r \<Longrightarrow> r < ?i \<and> R0 r = env (strip (us ! r))"
    and mem0: "M0' = M0" by (auto simp: before)
  from node consider (control) "lane_of u = None" "uop_operation u \<noteq> OpStore" "lp_instructions p = lp_instructions p0"
    | (lane) ins where "projected u ?i ?own ins" "lp_instructions p = lp_instructions p0 @ [ProgramInstruction ?i ins]" by metis
  then show ?case
  proof cases
    case control
    moreover have "R = R0" "M = M0'" using run0 control(3) snoc.prems(5) by auto
    moreover have "run_nodes val d eff (us @ [u]) mem = (env, M0)"
      using control(1) by (simp add: run_nodes_snoc before run_node_def Let_def)
    ultimately show ?thesis using regs0 mem0 by (auto simp: nth_append less_Suc_eq)
  next
    case (lane ins)
    let ?pi = "ProgramInstruction ?i ins" and ?args = "take (operand_count u) (map (\<lambda>s. env (strip s)) (uop_sources u))"
    have run: "exec_lane val eff (\<lambda>r. r) ins (R0, M0) = (R, M)"
      using snoc.prems(5) run0 mem0 by (simp add: lane(2) exec_lanes_def)
    have read: "R0 (reads ins ! k) = env (strip (uop_sources u ! k))" if k: "k < length (reads ins)" for k
    proof -
      let ?r = "reads ins ! k" and ?s = "uop_sources u ! k"
      have own: "?own ?s = Some ?r" and ks: "k < length (uop_sources u)" using lane(1) k by (auto simp: projected_def)
      have "?r \<in> set (reads (pi_instruction ?pi))" using k by simp
      from well_ordered_before(3) [OF snoc.prems(4) lane(2) this] obtain q where
        q: "q \<in> set (lp_instructions p0)" "target (pi_instruction q) = Some ?r" by blast
      from regs0 [OF this] have r: "?r < ?i" "R0 ?r = env (strip (us ! ?r))" by auto
      have s: "?s \<in> set (uop_sources (pr_nodes pr ! ?i))" using ks i(3) by simp
      have "pr_nodes pr ! ?i \<in> U" using numberingD(6) [OF num i(1)] .
      with shared s have "?s \<in> U" by (auto simp: well_shared_def)
      moreover have "owned pr ?s" "owner_of pr ?s = ?r" using own by (auto simp: owned_def owner_of_def)
      ultimately have "strip (pr_nodes pr ! ?r) = strip ?s" using numberingD(4) [OF num] by metis
      with r nodes show ?thesis by (metis nth_append)
    qed
    have lane_u: "lane_of u = Some (erase ins)" using lane(1) by (simp add: projected_def)
    then have "operand_count u = length (reads ins)" by (simp add: operand_count_def reads_count)
    with lane(1) read have args: "map (\<lambda>(r, _). R0 r) (lv_inputs (view_of ins)) = ?args"
      by (intro nth_equalityI) (auto simp: reads_def case_prod_unfold projected_def)
    have after: "run_nodes val d eff (us @ [u]) mem =
        (if uop_operation u = OpStore then (env, eff (erase ins) M0 ?args) else (env(strip u := val (erase ins) M0 ?args), M0))"
      by (simp add: run_nodes_snoc before run_node_def Let_def lane_u)
    have old: "(us @ [u]) ! r = us ! r \<and> strip (us ! r) \<noteq> strip u" if "r < ?i" for r
      using that fresh by (metis image_eqI nth_append nth_mem)
    show ?thesis
    proof (cases "uop_operation u = OpStore")
      case True
      with lane(1) have out: "lv_output (view_of ins) = None" by (auto simp: projected_def target_def)
      with run args have eq: "R = R0" "M = eff (erase ins) M0 ?args"
        by (auto simp: exec_lane_def Let_def)
      have "target ins = None" using out by (simp add: target_def)
      then show ?thesis using regs0 True old unfolding lane(2) eq after
        by (auto simp: less_Suc_eq)
    next
      case False
      with lane(1) obtain d' where out: "lv_output (view_of ins) = Some (?i, d')" by (auto simp: projected_def target_def)
      with run args have eq: "R = R0(?i := val (erase ins) M0 ?args)" "M = M0"
        by (auto simp: exec_lane_def Let_def)
      have "target ins = Some ?i" using out by (simp add: target_def)
      then show ?thesis using regs0 False old unfolding lane(2) eq after
        by (auto simp: less_Suc_eq)
    qed
  qed
qed

subsection \<open>Evaluating from the initial memory\<close>

text \<open>The effect of one store of the DAG, from the values of its operands.\<close>

definition store_node ::
  "(shape_of_lane \<Rightarrow> 'v list \<Rightarrow> 'v) \<Rightarrow> 'v \<Rightarrow> (shape_of_lane \<Rightarrow> 'm \<Rightarrow> 'v list \<Rightarrow> 'm) \<Rightarrow> 'x uop \<Rightarrow> 'm \<Rightarrow> 'm" where
  "store_node val d eff u mem = eff (the (lane_of u)) mem (eval_operands val d u)"

definition dag_memory ::
  "(shape_of_lane \<Rightarrow> 'm \<Rightarrow> 'v list \<Rightarrow> 'v) \<Rightarrow> 'v \<Rightarrow> (shape_of_lane \<Rightarrow> 'm \<Rightarrow> 'v list \<Rightarrow> 'm) \<Rightarrow> 'x uop list \<Rightarrow> 'm \<Rightarrow> 'm" where
  "dag_memory val d eff us mem =
     fold (store_node (\<lambda>sh. val sh mem) d eff) (filter (\<lambda>u. uop_operation u = OpStore \<and> lane_of u \<noteq> None) us) mem"

text \<open>No store among the nodes changes what another of them computes: what is loaded is not stored to.\<close>

definition stores_unseen ::
  "(shape_of_lane \<Rightarrow> 'm \<Rightarrow> 'v list \<Rightarrow> 'v) \<Rightarrow> 'v \<Rightarrow> (shape_of_lane \<Rightarrow> 'm \<Rightarrow> 'v list \<Rightarrow> 'm) \<Rightarrow> 'x uop list \<Rightarrow> 'm \<Rightarrow> bool" where
  "stores_unseen val d eff us mem \<longleftrightarrow>
    (\<forall>s \<in> set us. \<forall>u \<in> set us. uop_operation s = OpStore \<and> lane_of s \<noteq> None \<and> uop_operation u \<noteq> OpStore \<and> lane_of u \<noteq> None \<longrightarrow>
      (let ops = eval_operands (\<lambda>sh. val sh mem) d in
       \<forall>m. val (the (lane_of u)) (eff (the (lane_of s)) m (ops s)) (ops u) = val (the (lane_of u)) m (ops u)))"

text \<open>Every source of a node is structurally equal to an earlier node of the list, and no two nodes are equal.\<close>

definition topological :: "'x uop list \<Rightarrow> bool" where
  "topological us \<longleftrightarrow> distinct (map strip us) \<and>
     (\<forall>xs u ys. us = xs @ u # ys \<longrightarrow> (\<forall>s \<in> set (uop_sources u). strip s \<in> strip ` set xs))"

lemma topological_snoc:
  "topological (us @ [u]) \<Longrightarrow> topological us \<and> strip u \<notin> strip ` set us \<and> (\<forall>s \<in> set (uop_sources u). strip s \<in> strip ` set us)"
  by (fastforce simp: topological_def)

lemma run_nodes_dag:
  assumes "stores_unseen val d eff all mem"
  shows "topological us \<Longrightarrow> set us \<subseteq> set all \<Longrightarrow> run_nodes val d eff us mem = (env, M) \<Longrightarrow>
    (\<forall>v \<in> set us. env (strip v) = eval_uop (\<lambda>sh. val sh mem) d v) \<and> (\<forall>x. x \<notin> strip ` set us \<longrightarrow> env x = d) \<and>
    M = dag_memory val d eff us mem \<and>
    (\<forall>v \<in> set all. uop_operation v \<noteq> OpStore \<and> lane_of v \<noteq> None \<longrightarrow>
       (let ops = eval_operands (\<lambda>sh. val sh mem) d v in val (the (lane_of v)) M ops = val (the (lane_of v)) mem ops))"
proof (induction us arbitrary: env M rule: rev_induct)
  case Nil
  then show ?case by (auto simp: run_nodes_def dag_memory_def)
next
  case (snoc u us)
  let ?val = "\<lambda>sh. val sh mem"
  let ?ops = "eval_operands ?val d"
  obtain env0 M0 where before: "run_nodes val d eff us mem = (env0, M0)" by fastforce
  note top = topological_snoc [OF snoc.prems(1)]
  have sub: "set us \<subseteq> set all" "u \<in> set all" using snoc.prems(2) by auto
  from snoc.IH [OF _ sub(1) before] top have
    env0: "\<And>v. v \<in> set us \<Longrightarrow> env0 (strip v) = eval_uop ?val d v" and out0: "\<And>x. x \<notin> strip ` set us \<Longrightarrow> env0 x = d"
    and mem0: "M0 = dag_memory val d eff us mem"
    and same0: "\<And>v. v \<in> set all \<Longrightarrow> uop_operation v \<noteq> OpStore \<Longrightarrow> lane_of v \<noteq> None \<Longrightarrow>
      val (the (lane_of v)) M0 (?ops v) = val (the (lane_of v)) mem (?ops v)" by (auto simp: Let_def)
  have src: "env0 (strip s) = eval_uop ?val d s" if "s \<in> set (uop_sources u)" for s
  proof -
    from top that obtain v where "v \<in> set us" "strip v = strip s" by auto
    with env0 [of v] eval_uop_strip [of v s] show ?thesis by simp
  qed
  then have args: "take (operand_count u) (map (\<lambda>s. env0 (strip s)) (uop_sources u)) = ?ops u"
    unfolding eval_operands_def by (simp cong: map_cong)
  have keep: "env0 (strip v) = eval_uop ?val d v \<and> strip v \<noteq> strip u" if "v \<in> set us" for v
    using env0 [OF that] that top by (metis imageI)
  have run: "(env, M) = run_node val eff u (env0, M0)" using snoc.prems(3) by (simp add: run_nodes_snoc before)
  show ?case
  proof (cases "lane_of u")
    case None
    then have "eval_uop ?val d u = d" by (cases u) simp
    moreover have "env = env0" "M = M0" using run None by (simp_all add: run_node_def)
    ultimately show ?thesis using None env0 out0 mem0 same0 top by (auto simp: dag_memory_def Let_def)
  next
    case (Some sh)
    show ?thesis
    proof (cases "uop_operation u = OpStore")
      case True
      then have "eval_uop ?val d u = d" by (cases u) (simp split: option.split)
      moreover have eq: "env = env0" "M = eff sh M0 (?ops u)" using run Some True args by (simp_all add: run_node_def)
      moreover have "M = dag_memory val d eff (us @ [u]) mem" using True Some by (simp add: eq mem0 dag_memory_def store_node_def)
      moreover have "val (the (lane_of v)) M (?ops v) = val (the (lane_of v)) mem (?ops v)"
        if v: "v \<in> set all" "uop_operation v \<noteq> OpStore" "lane_of v \<noteq> None" for v
      proof -
        from assms sub(2) v True Some have "val (the (lane_of v)) (eff sh M0 (?ops u)) (?ops v) = val (the (lane_of v)) M0 (?ops v)"
          unfolding stores_unseen_def Let_def by fastforce
        with same0 [OF v] show ?thesis by (simp add: eq)
      qed
      ultimately show ?thesis using env0 out0 top by (auto simp: Let_def)
    next
      case False
      then have eval: "eval_uop ?val d u = val sh mem (?ops u)" using Some by (simp add: eval_uop_eq)
      have "val sh M0 (?ops u) = val sh mem (?ops u)" using same0 [OF sub(2) False] Some by simp
      then have eq: "env = env0(strip u := eval_uop ?val d u)" "M = M0" using run Some False args eval by (simp_all add: run_node_def)
      have "M0 = dag_memory val d eff (us @ [u]) mem" using False by (simp add: mem0 dag_memory_def)
      then show ?thesis using keep out0 same0 unfolding eq by (auto simp: Let_def)
    qed
  qed
qed

end
