(* ===== verification/LaneExample.thy ===== *)
theory LaneExample
  imports LaneEvaluation
begin

section \<open>An example kernel\<close>

text \<open>
  A kernel that doubles a buffer of eight 32-bit integers, with its numbering, projection, intervals and
  registers evaluated, and a small machine to run it on. The later theories apply their theorems to it.
\<close>

definition lane_i32 :: utype where
  "lane_i32 = \<lparr>ut_scalar = I32, ut_lanes = 1\<rparr>"

definition double_kernel :: "unit uop" where
  "double_kernel =
    (let ty = Some lane_i32;
         extent = UOp 1 (OpConst (LitInt 8)) ty None [];
         axis = UOp 2 (OpRange 0) ty None [extent];
         source = UOp 3 (OpDefineGlobal \<lparr>ad_space = GlobalSpace, ad_name = ''a'', ad_element = lane_i32\<rparr>) ty None [];
         load = UOp 5 OpLoad ty None [UOp 4 (OpIndex (IndexBuffer 0 8 [8] [8] Broadcast)) ty None [source, axis]];
         sum = UOp 6 (OpGraphBinary GAdd) ty None [load, load];
         dest = UOp 7 (OpDefineGlobal \<lparr>ad_space = GlobalSpace, ad_name = ''b'', ad_element = lane_i32\<rparr>) ty None [];
         store = UOp 9 OpStore None None [UOp 8 (OpIndex (IndexBuffer 1 8 [8] [8] Broadcast)) ty None [dest, axis], sum]
     in UOp 11 OpSink None None [store, UOp 10 OpEndRange None None [axis]])"



definition double_interval :: "nat \<Rightarrow> nat \<Rightarrow> live_interval" where
  "double_interval s e = \<lparr>li_virtual = s, li_class = VectorClass, li_dtype = I32, li_start = s, li_end = e\<rparr>"

definition double_assignment :: "nat \<Rightarrow> nat \<Rightarrow> register_assignment" where
  "double_assignment r p = \<lparr>ra_virtual = r, ra_class = VectorClass, ra_dtype = I32, ra_physical = p\<rparr>"

definition double_intervals :: "live_interval list" where
  "double_intervals = [double_interval 0 3,
     double_interval 1 2,
     double_interval 2 5,
     double_interval 3 8,
     double_interval 4 5,
     double_interval 5 6,
     double_interval 6 7,
     double_interval 7 8]"

definition double_registers :: "register_assignment list" where
  "double_registers = [double_assignment 0 0, double_assignment 1 1, double_assignment 2 2, double_assignment 3 1, double_assignment 4 0, double_assignment 5 3,
     double_assignment 6 0, double_assignment 7 2]"

lemma double_sorted: "sort_key interval_key double_intervals = double_intervals"
  by (rule sort_key_id_if_sorted) (simp add: double_intervals_def double_interval_def interval_key_def)

lemma rbind_weak_cong: "m = m' \<Longrightarrow> rbind m f = rbind m' f"
  by simp

lemma upt_register_file: "[0..<64::nat] = 0 # 1 # 2 # 3 # [4..<64]"
proof -
  have "[0..<64::nat] = [0..<4] @ [4..<64]" using upt_add_eq_append [of 0 4 60] by simp
  also have "[0..<4::nat] = [0, 1, 2, 3]" by code_simp
  finally show ?thesis by simp
qed

lemma double_allocate: "allocate double_intervals 64 = Inr double_registers"
  unfolding allocate_def double_sorted
  by (simp add: double_intervals_def double_registers_def double_interval_def double_assignment_def allocate_interval_def free_register_def
    as_u32_def Let_def upt_register_file
    del: set_filter cong: rbind_weak_cong)

definition double_instructions :: "nat program_instruction list" where
  "double_instructions =
    (let typed = \<lambda>r. Typed r lane_i32;
         address = \<lambda>r name. AddressRef r \<lparr>ad_space = GlobalSpace, ad_name = name, ad_element = lane_i32\<rparr>;
         index = \<lambda>r b. IndexRef r (IndexBuffer b 8 [8] [8] Broadcast) lane_i32
     in [ProgramInstruction 0 (LaneAddress (address 0 ''b'')),
         ProgramInstruction 1 (LaneConstant (typed 1) (LitInt 8) False),
         ProgramInstruction 2 (LaneRange (typed 2) (typed 1) 0),
         ProgramInstruction 3 (LaneIndex (index 3 1) (address 0 ''b'') (typed 2)),
         ProgramInstruction 4 (LaneAddress (address 4 ''a'')),
         ProgramInstruction 5 (LaneIndex (index 5 0) (address 4 ''a'') (typed 2)),
         ProgramInstruction 6 (LaneLoad (typed 6) (index 5 0)),
         ProgramInstruction 7 (LaneGraphBinary (typed 7) (typed 6) (typed 6) GAdd),
         ProgramInstruction 8 (LaneStore (index 3 1) (typed 7))])"

lemma double_intervals_eq: "intervals double_instructions 4 = double_intervals"
  by code_simp


definition double_control :: "unit source_record list" where
  "double_control = [\<lparr>sr_index = 9, sr_operation = OpEndRange\<rparr>, \<lparr>sr_index = 10, sr_operation = OpSink\<rparr>]"

lemmas producers_eval = double_kernel_def lane_producers_def no_producers_def number_node_def owner_of_def as_u32_def Let_def

lemma double_projection: "project (lane_producers double_kernel) =
    Inr \<lparr>lp_instructions = double_instructions, lp_control = double_control, lp_unsupported = []\<rparr>"
  by (simp add: producers_eval project_def project_lane_nodes_def project_node_def project_lane_instruction_def
    project_constant_def project_address_def project_unary_def project_binary_def node_output_def typed_source_def
    node_source_def address_source_def index_source_def source_reg_def lane_i32_def is_control_def typed_if_def
    is_integer_def enumerate_eq_zip double_instructions_def double_control_def)

definition double_buffer :: "nat \<Rightarrow> linear_buffer" where
  "double_buffer b = \<lparr>lb_buffer = b, lb_dtype = I32, lb_elements = 8, lb_input_shape = [8], lb_byte_offset = 0,
     lb_byte_stride = 4, lb_alignment = 4, lb_mutable = (b = 1), lb_access = ContiguousVector\<rparr>"

lemma double_buffers: "try_fold (plan_node 1 [8] 4) (lane_policy (pr_nodes (lane_producers double_kernel)) 4, [])
    (pr_nodes (lane_producers double_kernel)) = Inr ((True, ''contiguous portable lane plan''),
   [(0, double_buffer 0), (1, double_buffer 1)])"
  by (simp add: producers_eval lane_i32_def plan_node_def lane_policy_def access_of_def checked_mul_u_def checked_u_def usize_max_eq
    or_insert_def itemsize_def max_def double_buffer_def)

definition double_linear :: "unit linear_kernel" where
  "double_linear = \<lparr>lk_source = double_kernel, lk_output_buffer = 1, lk_output_shape = [8], lk_dtype = I32,
     lk_elements = 8, lk_lanes = 4, lk_vector_main = 8, lk_scalar_tail = 0, lk_tail_mask = [False, False, False, False],
     lk_buffers = [double_buffer 0, double_buffer 1], lk_enabled = True, lk_reason = ''contiguous portable lane plan'',
     lk_program = \<lparr>pg_instructions = double_instructions, pg_control = double_control, pg_unsupported = [],
       pg_intervals = double_intervals, pg_assignments = double_registers, pg_peak_scalar = 0, pg_peak_vector = 4\<rparr>\<rparr>"

lemma double_peaks: "peak_of ScalarClass double_registers = 0" "peak_of VectorClass double_registers = 4"
  by (simp_all add: peak_of_def double_registers_def double_assignment_def)

lemma double_linearized: "from_validated_source double_kernel = Inr double_linear"
proof -
  have "find (\<lambda>u. uop_operation u = OpStore) (uop_sources double_kernel) = Some (uop_sources double_kernel ! 0)"
    "\<exists>rest more. uop_sources (uop_sources double_kernel ! 0) = UOp 8 (OpIndex (IndexBuffer 1 8 [8] [8] Broadcast)) (Some lane_i32) None rest # more"
    by (simp_all add: double_kernel_def Let_def)
  moreover have "vector_lanes I32 = 4" by (simp add: vector_lanes_def itemsize_def)
  moreover have "[0..<4::nat] = [0, 1, 2, 3]" by code_simp
  ultimately show ?thesis
    using double_projection double_buffers double_allocate double_intervals_eq
    by (auto simp: from_validated_source_def double_linear_def linear_program_of_def double_peaks checked_sub_u_def lane_i32_def Let_def)
qed

lemma double_fresh: "validate_fresh double_linear = Inr double_linear"
proof -
  have "validate_program (lk_program double_linear) 4 = Inr ()"
    by (simp add: double_linear_def validate_program_def lane_width_ok_def double_instructions_def lane_i32_def Let_def
      value_view_def result_type_def typed_inputs_def check_control_def is_control_def double_control_def
      validate_lane_sequence_def check_lane_step_def typed_if_def is_integer_def check_operand_def check_output_def)
  moreover have "validate_geometry double_linear = Inr ()"
    by (simp add: validate_geometry_def double_linear_def checked_add_u_def checked_u_def usize_max_eq double_buffer_def)
  ultimately show ?thesis by (simp add: validate_fresh_def validate_registers_def double_linear_def)
qed

subsection \<open>A machine for the example\<close>

text \<open>A memory holds the iteration of the range and flat cells; buffer \<open>a\<close> starts at cell 0 and \<open>b\<close> at cell 8.\<close>

type_synonym demo_memory = "nat \<times> (int \<Rightarrow> int)"

definition demo_val :: "shape_of_lane \<Rightarrow> demo_memory \<Rightarrow> int list \<Rightarrow> int" where
  "demo_val sh = (\<lambda>(i, cells) args. case sh of
     LaneAddress a \<Rightarrow> if ad_name (ar_value a) = ''b'' then 8 else 0
   | LaneConstant _ lit _ \<Rightarrow> (case lit of LitInt n \<Rightarrow> n | LitScalar _ n \<Rightarrow> int n)
   | LaneRange _ _ _ \<Rightarrow> int i
   | LaneIndex _ _ _ \<Rightarrow> args ! 0 + args ! 1
   | LaneLoad _ _ \<Rightarrow> cells (args ! 0)
   | LaneGraphBinary _ _ _ _ \<Rightarrow> args ! 0 + args ! 1
   | _ \<Rightarrow> 0)"

definition demo_eff :: "shape_of_lane \<Rightarrow> demo_memory \<Rightarrow> int list \<Rightarrow> demo_memory" where
  "demo_eff sh = (\<lambda>(i, cells) args. (i, cells(args ! 0 := args ! 1)))"

definition demo_start :: demo_memory where
  "demo_start = (3, \<lambda>k. 10 * k)"

lemma double_shared: "well_shared (subnodes double_kernel)"
  by (simp add: double_kernel_def Let_def well_shared_def lane_i32_def)

lemma double_nodes: "length (pr_nodes (lane_producers double_kernel)) = 11"
  by (simp add: producers_eval)

lemmas double_eval = eval_operands_def operand_count_def lane_of_def
    project_lane_instruction_def any_register_def project_constant_def project_address_def project_unary_def project_binary_def
    node_output_def typed_source_def node_source_def address_source_def index_source_def typed_if_def is_integer_def lane_i32_def
    erase_def value_view_def demo_val_def demo_eff_def demo_start_def

text \<open>The kernel stores to \<open>b\<close> and loads from \<open>a\<close>.\<close>

lemma double_unseen: "stores_unseen demo_val 0 demo_eff (pr_nodes (lane_producers double_kernel)) demo_start"
  by (simp add: stores_unseen_def producers_eval double_eval)

lemma double_computes: "snd (dag_memory demo_val 0 demo_eff (pr_nodes (lane_producers double_kernel)) demo_start) 11 = 60"
  by (simp add: producers_eval dag_memory_def store_node_def double_eval)

end
