(* ===== verification/LaneTheorems.thy ===== *)
theory LaneTheorems
  imports LaneExample
begin

section \<open>Correctness of linearization\<close>

text \<open>
  The properties of the linearizer: its numbering is structural identity, its register allocation is exact,
  and a lane program run on the allocated registers does to memory what the operation DAG does.
\<close>

lemma subnodes_shared:
  assumes "well_shared (subnodes root)" and "length (pr_nodes (lane_producers root)) \<le> 2 ^ 32"
  shows "numbering (subnodes root) (lane_producers root) \<and> owned (lane_producers root) root"
  using visit_correct(1) [OF numbering_start assms(1) subnodes_self] assms(2) by (simp add: lane_producers_def)

lemma subnodes_owned:
  assumes num: "numbering (subnodes root) pr" and "owned pr u" and "u \<in> subnodes root"
  shows "v \<in> subnodes u \<Longrightarrow> owned pr v"
  using assms(2,3)
proof (induction u)
  case (UOp i op ty tag srcs)
  show ?case
  proof (cases "v = UOp i op ty tag srcs")
    case False
    with UOp.prems(1) obtain s where s: "s \<in> set srcs" "v \<in> subnodes s" by auto
    have "owned pr s" using numberingD(5) [OF num UOp.prems(3,2)] s(1) by simp
    moreover have "s \<in> subnodes root" using subnodes_sources [OF UOp.prems(3)] s(1) by auto
    ultimately show ?thesis using UOp.IH [OF s(1) s(2)] by blast
  qed (use UOp.prems in simp)
qed

lemma owner_of_sources:
  assumes num: "numbering (subnodes root) pr" and own: "owned pr root" and u: "u \<in> subnodes root" and s: "s \<in> set (uop_sources u)"
  shows "owner_of pr s < owner_of pr u"
proof -
  have owned: "owned pr v" if "v \<in> subnodes root" for v using subnodes_owned [OF num own subnodes_self that] .
  let ?v = "pr_nodes pr ! owner_of pr u"
  note node = numberingD(3,4) [OF num u owned [OF u]]
  from s obtain k where k: "k < length (uop_sources u)" "s = uop_sources u ! k" by (auto simp: in_set_conv_nth)
  have srcs: "map strip (uop_sources ?v) = map strip (uop_sources u)" using node(2) by (simp add: strip_eq_iff)
  then have len: "length (uop_sources ?v) = length (uop_sources u)" by (metis length_map)
  let ?t = "uop_sources ?v ! k"
  have t: "?t \<in> set (uop_sources ?v)" using k len by simp
  from arg_cong [OF srcs, of "\<lambda>l. l ! k"] k len have "strip ?t = strip s" by simp
  moreover have "?v \<in> subnodes root" using numberingD(6) [OF num node(1)] .
  then have sub: "?t \<in> subnodes root" "s \<in> subnodes root" using subnodes_sources t u s by blast+
  ultimately have "owner_of pr ?t = owner_of pr s"
    using numbering_owner_iff [OF num sub owned owned] sub by blast
  with numberingD(9) [OF num node(1) t] show ?thesis by simp
qed

text \<open>C29: Lane producers. Two nodes of a DAG get one number exactly when they are structurally equal, the
  number of a node is the position of an equal node in the producer list, and every source is numbered below
  its users, so the list is a topological order without duplicates.\<close>

theorem producers_number_structure:
  fixes root :: "'x uop"
  defines "pr \<equiv> lane_producers root"
  assumes "well_shared (subnodes root)" and "length (pr_nodes pr) \<le> 2 ^ 32"
    and "u \<in> subnodes root" and "v \<in> subnodes root"
  shows "(owner_of pr u = owner_of pr v \<longleftrightarrow> strip u = strip v) \<and> owner_of pr u < length (pr_nodes pr) \<and>
    strip (pr_nodes pr ! owner_of pr u) = strip u \<and> (\<forall>s \<in> set (uop_sources u). owner_of pr s < owner_of pr u) \<and>
    set (pr_nodes pr) \<subseteq> subnodes root \<and> distinct (map strip (pr_nodes pr))"
proof -
  have num: "numbering (subnodes root) pr" and own: "owned pr root"
    using subnodes_shared assms(2,3) by (auto simp: pr_def)
  have owned: "owned pr u" "owned pr v" using subnodes_owned [OF num own subnodes_self] assms(4,5) by blast+
  show ?thesis
    using numbering_owner_iff [OF num assms(4,5) owned] numberingD(1,2) [OF num]
      numberingD(3,4) [OF num assms(4) owned(1)] owner_of_sources [OF num own assms(4)] by blast
qed

definition twin_constants :: "unit uop" where
  "twin_constants =
    (let ty = Some lane_i32 in
     UOp 2 (OpGraphBinary GAdd) ty None [UOp 0 (OpConst (LitInt 1)) ty None [], UOp 1 (OpConst (LitInt 1)) ty None []])"

theorem producers_number_structure_witness:
  "let pr = lane_producers twin_constants; one = UOp 0 (OpConst (LitInt 1)) (Some lane_i32) None [];
       other = UOp 1 (OpConst (LitInt 1)) (Some lane_i32) None []
   in owner_of pr one = owner_of pr other \<and> one \<noteq> other \<and> length (pr_nodes pr) = 2"
proof -
  have pr: "length (pr_nodes (lane_producers twin_constants)) = 2"
    by (simp add: twin_constants_def lane_producers_def no_producers_def number_node_def owner_of_def as_u32_def Let_def)
  have "well_shared (subnodes twin_constants)"
    by (simp add: twin_constants_def Let_def well_shared_def)
  from producers_number_structure [OF this, of "UOp 0 (OpConst (LitInt 1)) (Some lane_i32) None []"
      "UOp 1 (OpConst (LitInt 1)) (Some lane_i32) None []"] pr
  show ?thesis by (simp add: twin_constants_def Let_def)
qed

text \<open>C30: Linear scan. On intervals with distinct registers the scan fails exactly when, at the start of some interval,
  more intervals of one class and element type are live than there are registers; when it succeeds every interval
  gets a register below the limit of its class and type, and intervals of one pool that meet get different ones.\<close>

theorem allocation_exact:
  assumes "intervals_ok ints"
  shows "(case allocate ints limit of
      Inl e \<Rightarrow> \<exists>i \<in> set ints. as_u32 limit < card (live_at (set ints) i)
    | Inr as \<Rightarrow> (\<nexists>i. i \<in> set ints \<and> as_u32 limit < card (live_at (set ints) i)) \<and>
        (\<forall>i \<in> set ints. \<exists>a. lookup_register as (li_virtual i) = Some a \<and> assigns (as_u32 limit) i a) \<and>
        kept_apart (location as) ints)"
proof (cases "allocate ints limit")
  case (Inl e)
  with allocate_Inl_iff [OF assms] show ?thesis by auto
next
  case (Inr as)
  with allocate_Inl_iff [OF assms, of limit] have "\<nexists>i. i \<in> set ints \<and> as_u32 limit < card (live_at (set ints) i)" by auto
  with Inr show ?thesis
    using linear_scan.alloc_assigned [OF Inr assms] linear_scan.locations_apart [OF Inr assms] by auto
qed

theorem allocation_exact_witness:
  "intervals_ok double_intervals \<and> (\<exists>e. allocate double_intervals 3 = Inl e) \<and>
   (\<exists>i \<in> set double_intervals. 3 < card (live_at (set double_intervals) i)) \<and> kept_apart (location double_registers) double_intervals"
proof -
  have ok: "intervals_ok double_intervals"
    by (simp add: intervals_ok_def double_intervals_def double_interval_def)
  have registers: "as_u32 3 = 3" by (simp add: as_u32_def)
  have files: "[0..<3::nat] = [0, 1, 2]" by code_simp
  have full: "allocate double_intervals 3 = Inl (RegisterPressure VectorClass 3)"
    unfolding allocate_def double_sorted
    by (simp add: double_intervals_def double_interval_def allocate_interval_def free_register_def
      registers files Let_def del: set_filter cong: rbind_weak_cong)
  from ok full allocation_exact [OF ok, of 3] allocation_exact [OF ok, of 64] double_allocate
  show ?thesis by (simp add: registers)
qed

text \<open>The facts of a kernel the linearizer built.\<close>

lemma from_validated_source_Inr:
  assumes "from_validated_source source = Inr k"
  shows "\<exists>p lanes. project (lane_producers source) = Inr p \<and> pg_instructions (lk_program k) = lp_instructions p \<and>
    pg_control (lk_program k) = lp_control p \<and> pg_unsupported (lk_program k) = lp_unsupported p \<and>
    lanes = (if lk_enabled k then lk_lanes k else 1) \<and>
    pg_intervals (lk_program k) = intervals (pg_instructions (lk_program k)) lanes \<and>
    allocate (pg_intervals (lk_program k)) 64 = Inr (pg_assignments (lk_program k))"
  using assms
  by (auto simp: from_validated_source_def linear_program_of_def result_simps Let_def split: if_splits prod.splits)

lemma validate_fresh_follow: "validate_fresh k = Inr k' \<Longrightarrow> uses_follow (pg_instructions (lk_program k))"
  using validated_follow [of "lk_program k"]
  by (auto simp: validate_fresh_def validate_registers_def result_simps split: if_splits)

lemma validate_fresh_ordered:
  assumes "validate_fresh k = Inr k'" and "pg_unsupported (lk_program k) = []"
  shows "well_ordered (pg_instructions (lk_program k))"
  using assms validated_well_ordered [of "lk_program k"]
  by (auto simp: validate_fresh_def validate_registers_def result_simps split: if_splits)

lemma numbering_topological:
  assumes num: "numbering U pr" and shared: "well_shared U"
  shows "topological (pr_nodes pr)"
  unfolding topological_def
proof (intro conjI allI impI ballI)
  show "distinct (map strip (pr_nodes pr))" using numberingD(2) [OF num] .
  fix xs u ys s assume nodes: "pr_nodes pr = xs @ u # ys" and s: "s \<in> set (uop_sources u)"
  let ?i = "length xs"
  have i: "?i < length (pr_nodes pr)" "pr_nodes pr ! ?i = u" using nodes by simp_all
  then have "u \<in> U" using numberingD(6) [OF num i(1)] by simp
  with s shared have "s \<in> U" by (auto simp: well_shared_def)
  moreover have own: "owned pr s \<and> owner_of pr s < ?i" using numberingD(9) [OF num i(1)] i(2) s by blast
  ultimately have "strip (pr_nodes pr ! owner_of pr s) = strip s" using numberingD(4) [OF num] by blast
  moreover have "pr_nodes pr ! owner_of pr s \<in> set xs" using own nodes by (simp add: nth_append)
  ultimately show "strip s \<in> strip ` set xs" by (metis imageI)
qed

lemma kernel_runs_nodes:
  assumes shared: "well_shared (subnodes source)" and small: "length (pr_nodes (lane_producers source)) \<le> 2 ^ 32"
    and k: "from_validated_source source = Inr k" and fresh: "validate_fresh k = Inr k'"
    and lanes: "pg_unsupported (lk_program k) = []"
  shows "snd (exec_lanes val eff (\<lambda>r. r) (pg_instructions (lk_program k)) (regs, mem)) =
    snd (run_nodes val d eff (pr_nodes (lane_producers source)) mem)"
proof -
  from from_validated_source_Inr [OF k] lanes obtain p where
    p: "project (lane_producers source) = Inr p" "pg_instructions (lk_program k) = lp_instructions p" "lp_unsupported p = []"
    by auto
  have num: "numbering (subnodes source) (lane_producers source)" using subnodes_shared [OF shared small] by blast
  have wo: "well_ordered (lp_instructions p)" using validate_fresh_ordered [OF fresh lanes] p(2) by simp
  obtain R M where run: "exec_lanes val eff (\<lambda>r. r) (lp_instructions p) (regs, mem) = (R, M)" by fastforce
  have "project_lane_nodes (pr_nodes (lane_producers source)) (\<lambda>s. pr_owners (lane_producers source) (uop_identity s)) = Inr p"
    using p(1) by (simp add: project_def)
  from exec_projected [OF num shared small _ this p(3) wo run, of "[]" d]
  show ?thesis by (simp add: p(2) run)
qed

lemma nodes_run_dag:
  assumes "well_shared (subnodes source)" and "length (pr_nodes (lane_producers source)) \<le> 2 ^ 32"
    and "stores_unseen val d eff (pr_nodes (lane_producers source)) mem"
  shows "snd (run_nodes val d eff (pr_nodes (lane_producers source)) mem) = dag_memory val d eff (pr_nodes (lane_producers source)) mem"
proof -
  have "topological (pr_nodes (lane_producers source))"
    using numbering_topological [OF _ assms(1)] subnodes_shared [OF assms(1,2)] by blast
  from run_nodes_dag [OF assms(3) this order.refl] show ?thesis by (metis surjective_pairing)
qed

text \<open>A linear kernel runs its nodes. Executing the lane program of a fresh kernel on the registers the scan
  assigned does to memory what running its producers does, for every meaning of the lane operations and from any
  contents of the registers.\<close>

lemma linear_kernel_runs_nodes:
  assumes "well_shared (subnodes source)" and "length (pr_nodes (lane_producers source)) \<le> 2 ^ 32"
    and "from_validated_source source = Inr k" and "validate_fresh k = Inr k'"
    and "pg_unsupported (lk_program k) = []"
  shows "snd (exec_lanes val eff (location (pg_assignments (lk_program k))) (pg_instructions (lk_program k)) (regs, mem)) =
    snd (run_nodes val d eff (pr_nodes (lane_producers source)) mem)"
proof -
  note wo = validate_fresh_ordered [OF assms(4,5)]
  from from_validated_source_Inr [OF assms(3)] obtain lanes where
    "allocate (intervals (pg_instructions (lk_program k)) lanes) 64 = Inr (pg_assignments (lk_program k))" by auto
  from linear_scan.exec_allocated [OF wo this, of val eff] kernel_runs_nodes [OF assms, of val eff _ mem d] show ?thesis by metis
qed

end
