(* ===== verification/MemorySpaces.thy ===== *)
theory MemorySpaces
  imports Linearize
begin

unbundle bit_operations_syntax

section \<open>Memory spaces (src/src/memory_space/mod.rs)\<close>

text \<open>
  The late plan of where a linear kernel keeps what: the physical registers of its virtual ones with their
  lifetimes, the global buffers it touches, and allocations in private and shared memory with the barriers
  that order them. The hash of a plan is not modelled.
\<close>

datatype memory_space = Global | RegisterScalar | RegisterVector | Private | Shared

fun space_rank :: "memory_space \<Rightarrow> nat" where
  "space_rank Global = 0"
| "space_rank RegisterScalar = 1"
| "space_rank RegisterVector = 2"
| "space_rank Private = 3"
| "space_rank Shared = 4"

lemma space_rank_inj: "space_rank s = space_rank t \<longleftrightarrow> s = t"
  by (cases s; cases t) simp_all

instantiation memory_space :: linorder
begin

definition less_eq_memory_space :: "memory_space \<Rightarrow> memory_space \<Rightarrow> bool" where
  "less_eq_memory_space s t \<longleftrightarrow> space_rank s \<le> space_rank t"

definition less_memory_space :: "memory_space \<Rightarrow> memory_space \<Rightarrow> bool" where
  "less_memory_space s t \<longleftrightarrow> space_rank s < space_rank t"

instance
  by standard (auto simp: less_eq_memory_space_def less_memory_space_def space_rank_inj)

end

record register_binding =
  rb_virtual :: nat
  rb_physical :: nat
  rb_space :: memory_space
  rb_dtype :: dtype
  rb_start :: nat
  rb_end :: nat

record global_access =
  ga_buffer :: nat
  ga_bytes :: nat
  ga_byte_offset :: nat
  ga_alignment :: nat
  ga_mutable :: bool

record space_allocation =
  sa_id :: nat
  sa_space :: memory_space
  sa_bytes :: nat
  sa_alignment :: nat
  sa_start :: nat
  sa_end :: nat

datatype promotion_decision = NotPromoted string | PromotedShared space_allocation

datatype barrier_scope = Workgroup

record barrier_point =
  bp_instruction :: nat
  bp_scope :: barrier_scope
  bp_uniform_control :: bool
  bp_initializes :: "nat list"
  bp_consumes :: "nat list"

record memory_space_plan =
  sp_registers :: "register_binding list"
  sp_globals :: "global_access list"
  sp_private :: "space_allocation list"
  sp_shared :: "space_allocation list"
  sp_barriers :: "barrier_point list"
  sp_promotions :: "promotion_decision list"

datatype memory_space_error =
    SpaceOverflow
  | MissingInterval nat
  | DuplicateRegister memory_space nat
  | OverlappingAlias memory_space nat nat
  | InvalidAllocation nat memory_space
  | InvalidAlignment nat nat
  | DivergentBarrier nat
  | BarrierUseBeforeInitialize nat nat
  | InvalidTiledMatmul
  | InvalidTensorCoreMatmul

subsection \<open>Validation\<close>

definition clash :: "space_allocation \<Rightarrow> space_allocation \<Rightarrow> bool" where
  "clash a b \<longleftrightarrow> sa_space a = sa_space b \<and> sa_id a = sa_id b \<and> sa_start a \<le> sa_end b \<and> sa_start b \<le> sa_end a"

fun validate_nonoverlap :: "space_allocation list \<Rightarrow> (memory_space_error, unit) result" where
  "validate_nonoverlap [] = Inr ()"
| "validate_nonoverlap (a # rest) =
    (case find (clash a) rest of
       Some b \<Rightarrow> Inl (OverlappingAlias (sa_space a) (sa_id a) (sa_id b))
     | None \<Rightarrow> validate_nonoverlap rest)"

definition check_global :: "unit \<Rightarrow> global_access \<Rightarrow> (memory_space_error, unit) result" where
  "check_global = (\<lambda>_ g.
    (if ga_alignment g = 0 \<or> ga_byte_offset g mod ga_alignment g \<noteq> 0
     then Inl (InvalidAlignment (as_u32 (ga_buffer g)) (ga_alignment g)) else Inr ()))"

text \<open>A register as an allocation: its number with the element type above the low 16 bits.\<close>

definition register_allocation :: "register_binding \<Rightarrow> space_allocation" where
  "register_allocation r = \<lparr>sa_id = rb_physical r OR push_bit 16 (dtype_rank (rb_dtype r)), sa_space = rb_space r,
     sa_bytes = 1, sa_alignment = 1, sa_start = rb_start r, sa_end = rb_end r\<rparr>"

definition check_allocation :: "unit \<Rightarrow> space_allocation \<Rightarrow> (memory_space_error, unit) result" where
  "check_allocation = (\<lambda>_ a.
    (if sa_space a \<notin> {Private, Shared} \<or> sa_alignment a = 0 \<or> \<not> is_power_of_two (sa_alignment a) \<or>
        (sa_bytes a \<noteq> 0 \<and> sa_bytes a mod sa_alignment a \<noteq> 0)
     then Inl (InvalidAllocation (sa_id a) (sa_space a)) else Inr ()))"

definition check_consumed :: "space_allocation list \<Rightarrow> barrier_point \<Rightarrow> unit \<Rightarrow> nat \<Rightarrow> (memory_space_error, unit) result" where
  "check_consumed shared b = (\<lambda>_ used.
    (if used \<in> set (bp_initializes b) \<or> list_ex (\<lambda>a. sa_id a = used \<and> sa_start a < bp_instruction b) shared
     then Inr () else Inl (BarrierUseBeforeInitialize (bp_instruction b) used)))"

definition check_barrier :: "space_allocation list \<Rightarrow> unit \<Rightarrow> barrier_point \<Rightarrow> (memory_space_error, unit) result" where
  "check_barrier shared = (\<lambda>_ b.
    (if \<not> bp_uniform_control b then Inl (DivergentBarrier (bp_instruction b))
     else try_fold (check_consumed shared b) () (bp_consumes b)))"

definition validate_spaces :: "memory_space_plan \<Rightarrow> (memory_space_error, unit) result" where
  "validate_spaces plan =
     rbind (try_fold check_global () (sp_globals plan)) (\<lambda>_.
     rbind (validate_nonoverlap (map register_allocation (sp_registers plan))) (\<lambda>_.
     rbind (validate_nonoverlap (sp_private plan)) (\<lambda>_.
     rbind (validate_nonoverlap (sp_shared plan)) (\<lambda>_.
     rbind (try_fold check_allocation () (sp_private plan @ sp_shared plan)) (\<lambda>_.
     try_fold (check_barrier (sp_shared plan)) () (sp_barriers plan))))))"

subsection \<open>Construction\<close>

fun register_space :: "register_class \<Rightarrow> memory_space" where
  "register_space ScalarClass = RegisterScalar"
| "register_space VectorClass = RegisterVector"

definition bind_register ::
  "live_interval list \<Rightarrow> register_assignment \<Rightarrow> (memory_space_error, register_binding) result" where
  "bind_register ints a =
     rbind (ok_or (MissingInterval (ra_virtual a)) (map_of (rev (map (\<lambda>i. (li_virtual i, i)) ints)) (ra_virtual a))) (\<lambda>i.
     Inr \<lparr>rb_virtual = ra_virtual a, rb_physical = ra_physical a, rb_space = register_space (ra_class a),
       rb_dtype = ra_dtype a, rb_start = li_start i, rb_end = li_end i\<rparr>)"

definition access_buffer :: "linear_buffer \<Rightarrow> (memory_space_error, global_access) result" where
  "access_buffer b =
     rbind (ok_or SpaceOverflow (checked_mul_u (lb_elements b) (itemsize (lb_dtype b)))) (\<lambda>bytes.
     Inr \<lparr>ga_buffer = lb_buffer b, ga_bytes = bytes, ga_byte_offset = lb_byte_offset b,
       ga_alignment = lb_alignment b, ga_mutable = lb_mutable b\<rparr>)"

definition memory_space_plan_of :: "'x linear_kernel \<Rightarrow> (memory_space_error, memory_space_plan) result" where
  "memory_space_plan_of k =
     rbind (try_map (bind_register (pg_intervals (lk_program k))) (pg_assignments (lk_program k))) (\<lambda>registers.
     rbind (try_map access_buffer (lk_buffers k)) (\<lambda>globals.
     let plan = \<lparr>sp_registers = sort_key (\<lambda>r. (rb_space r, rb_physical r, rb_virtual r)) registers,
           sp_globals = sort_key ga_buffer globals, sp_private = [], sp_shared = [], sp_barriers = [],
           sp_promotions = [NotPromoted ''pure elementwise program has no statically proven cross-lane reuse'']\<rparr>
     in rbind (validate_spaces plan) (\<lambda>_. Inr plan)))"

definition with_shared ::
  "memory_space_plan \<Rightarrow> space_allocation \<Rightarrow> barrier_point \<Rightarrow> (memory_space_error, memory_space_plan) result" where
  "with_shared plan a b =
    (let plan' = plan\<lparr>sp_shared := sp_shared plan @ [a], sp_barriers := sp_barriers plan @ [b],
           sp_promotions := sp_promotions plan @ [PromotedShared a]\<rparr>
     in rbind (validate_spaces plan') (\<lambda>_. Inr plan'))"

end
