(* ===== verification/VectorPrograms.thy ===== *)
theory VectorPrograms
  imports MemorySpaces
begin

section \<open>Vector programs (src/src/vector_ir.rs)\<close>

text \<open>
  Lane programs over physical registers: the operands of a linear kernel replaced by the registers of its
  memory-space plan, the check of that program, and the filter of what the portable emitter accepts.
  Formatted messages keep their fixed text.
\<close>

record vector_operand =
  vo_physical :: nat
  vo_vector :: bool
  vo_dtype :: dtype

record vector_program =
  vp_instructions :: "vector_operand program_instruction list"
  vp_lanes :: nat
  vp_main :: nat
  vp_tail :: nat
  vp_enabled :: bool
  vp_fallback :: "string option"

datatype vector_error =
    MissingRegister nat
  | InvalidMask nat
  | InvalidAddress nat
  | Unsupported string

subsection \<open>The index of register lifetimes\<close>

type_synonym register_key = "nat \<times> bool \<times> dtype"

type_synonym lifetimes = "register_key \<rightharpoonup> (nat \<times> nat) list"

definition binding_key :: "register_binding \<Rightarrow> register_key" where
  "binding_key b = (rb_physical b, rb_space b = RegisterVector, rb_dtype b)"

definition operand_key :: "vector_operand \<Rightarrow> register_key" where
  "operand_key v = (vo_physical v, vo_vector v, vo_dtype v)"

definition enter_lifetime :: "lifetimes \<Rightarrow> register_binding \<Rightarrow> lifetimes" where
  "enter_lifetime m b =
    (if rb_end b < rb_start b then m
     else m(binding_key b \<mapsto> (case m (binding_key b) of None \<Rightarrow> [] | Some l \<Rightarrow> l) @ [(rb_start b, rb_end b)]))"

text \<open>Each end becomes the largest end so far.\<close>

fun prefix_ends :: "nat \<Rightarrow> (nat \<times> nat) list \<Rightarrow> (nat \<times> nat) list" where
  "prefix_ends m [] = []"
| "prefix_ends m ((s, e) # rest) = (s, max m e) # prefix_ends (max m e) rest"

definition register_lifetimes :: "register_binding list \<Rightarrow> lifetimes" where
  "register_lifetimes bs = (\<lambda>k. map_option (\<lambda>l. prefix_ends 0 (sort l)) (foldl enter_lifetime Map.empty bs k))"

text \<open>\<open>partition_point\<close> on ends sorted by their start.\<close>

definition lifetime_contains :: "lifetimes \<Rightarrow> vector_operand \<Rightarrow> nat \<Rightarrow> bool" where
  "lifetime_contains m v instruction =
    (case m (operand_key v) of
       None \<Rightarrow> False
     | Some ends \<Rightarrow> let n = length (takeWhile (\<lambda>(s, _). s \<le> instruction) ends)
         in n \<noteq> 0 \<and> instruction \<le> snd (ends ! (n - 1)))"

subsection \<open>Validation\<close>

definition validate_lane_control :: "vector_program \<Rightarrow> (vector_error, unit) result" where
  "validate_lane_control vp =
    (let invalid = Inl (InvalidMask (case vp_instructions vp of [] \<Rightarrow> 0 | pi # _ \<Rightarrow> pi_index pi)) in
     if vp_lanes vp = 0 then invalid
     else if \<not> vp_enabled vp then (if vp_main vp = 0 then Inr () else invalid)
     else if vp_main vp mod vp_lanes vp \<noteq> 0 \<or> vp_lanes vp \<le> vp_tail vp then invalid
     else Inr ())"

definition check_address :: "memory_space_plan \<Rightarrow> nat option \<Rightarrow> (vector_error, unit) result" where
  "check_address spaces buffer =
    (case buffer of
       None \<Rightarrow> Inr ()
     | Some b \<Rightarrow> rbind (ok_or (InvalidAddress b) (find (\<lambda>g. ga_buffer g = b) (sp_globals spaces))) (\<lambda>g.
         if ga_alignment g = 0 \<or> ga_byte_offset g mod ga_alignment g \<noteq> 0 then Inl (InvalidAddress b) else Inr ()))"

definition check_vector_instruction ::
  "memory_space_plan \<Rightarrow> nat \<Rightarrow> unit \<Rightarrow> vector_operand program_instruction \<Rightarrow> (vector_error, unit) result" where
  "check_vector_instruction spaces lanes = (\<lambda>_ pi.
    (if \<not> lane_width_ok lanes pi then Inl (Unsupported ''instruction has inconsistent lane width'')
     else check_address spaces (lv_buffer (view_of (pi_instruction pi)))))"

definition vector_live :: "lifetimes \<Rightarrow> vector_operand \<Rightarrow> nat \<Rightarrow> lane_descriptor \<Rightarrow> bool" where
  "vector_live m v instruction d \<longleftrightarrow>
     vo_dtype v = register_dtype (ut_scalar (descriptor_ty d)) \<and> lifetime_contains m v instruction"

definition validate_vector :: "vector_program \<Rightarrow> memory_space_plan \<Rightarrow> (vector_error, unit) result" where
  "validate_vector vp spaces =
     rbind (validate_lane_control vp) (\<lambda>_.
     rbind (try_fold (check_vector_instruction spaces (vp_lanes vp)) () (vp_instructions vp)) (\<lambda>_.
     map_err Unsupported (validate_lane_sequence (vp_instructions vp) (\<lambda>_. False) operand_key
       (vector_live (register_lifetimes (sp_registers spaces))) (\<lambda>_ _. True))))"

subsection \<open>Construction\<close>

definition physical_operand :: "register_binding option \<Rightarrow> nat \<Rightarrow> (vector_error, vector_operand) result" where
  "physical_operand binding r =
     rbind (ok_or (MissingRegister r) binding) (\<lambda>b.
     Inr \<lparr>vo_physical = rb_physical b, vo_vector = (rb_space b = RegisterVector), vo_dtype = rb_dtype b\<rparr>)"

definition bindings_of :: "memory_space_plan \<Rightarrow> nat \<rightharpoonup> register_binding" where
  "bindings_of spaces = map_of (rev (map (\<lambda>b. (rb_virtual b, b)) (sp_registers spaces)))"

definition lower_instruction ::
  "(nat \<rightharpoonup> register_binding) \<Rightarrow> nat program_instruction \<Rightarrow> (vector_error, vector_operand program_instruction) result" where
  "lower_instruction regs pi =
     rbind (map_operands (\<lambda>r. physical_operand (regs r) r) (pi_instruction pi)) (\<lambda>ins.
     rbind (map_err (\<lambda>_. Unsupported ''linearize error'') (lane_validate ins)) (\<lambda>_.
     Inr (ProgramInstruction (pi_index pi) ins)))"

definition vector_program_of :: "'x linear_kernel \<Rightarrow> memory_space_plan \<Rightarrow> (vector_error, vector_program) result" where
  "vector_program_of k spaces =
     rbind (map_err (\<lambda>_. Unsupported ''memory space plan error'') (validate_spaces spaces)) (\<lambda>_.
     rbind (if lk_enabled k then try_map (lower_instruction (bindings_of spaces)) (pg_instructions (lk_program k)) else Inr []) (\<lambda>ins.
     let vp = \<lparr>vp_instructions = ins, vp_lanes = (if lk_enabled k then lk_lanes k mod 2 ^ 16 else 1),
           vp_main = (if lk_enabled k then lk_vector_main k else 0), vp_tail = lk_scalar_tail k, vp_enabled = lk_enabled k,
           vp_fallback = (if lk_enabled k then None else Some (lk_reason k))\<rparr>
     in rbind (validate_vector vp spaces) (\<lambda>_. Inr vp)))"

subsection \<open>What the portable emitter accepts\<close>

definition narrow_operand :: "vector_operand lane_operand \<Rightarrow> bool" where
  "narrow_operand = (\<lambda>(v, _). vo_dtype v = F16 \<or> vo_dtype v = BF16)"

definition float8_operand :: "vector_operand lane_operand \<Rightarrow> bool" where
  "float8_operand = (\<lambda>(v, _). is_float8 (vo_dtype v))"

fun is_structural :: "'r lane_instruction \<Rightarrow> bool" where
  "is_structural (LaneConstant _ _ _) = True"
| "is_structural (LaneAddress _) = True"
| "is_structural (LaneRange _ _ _) = True"
| "is_structural (LaneIndex _ _ _) = True"
| "is_structural _ = False"

definition portable_dtype :: "dtype \<Rightarrow> bool" where
  "portable_dtype d \<longleftrightarrow> d \<in> {Bool, I8, I16, I32, I64, U8, U16, U32, U64, F16, BF16, F32, F64}"

fun projected_offsets :: "'r lane_instruction \<Rightarrow> bool" where
  "projected_offsets (LaneIndex out _ _) =
    (case ix_value out of IndexView _ _ _ _ _ \<Rightarrow> True | IndexBuffer _ _ _ _ addressing \<Rightarrow> addressing \<noteq> Broadcast)"
| "projected_offsets _ = False"

fun unary_refused :: "'r lane_instruction \<Rightarrow> bool" where
  "unary_refused (LaneGraphUnary _ _ op) = (op \<notin> {GNeg, GAbs})"
| "unary_refused (LaneCoreUnary _ _ _) = True"
| "unary_refused (LaneLogicalNot _ _) = True"
| "unary_refused _ = False"

fun binary_refused :: "'r lane_instruction \<Rightarrow> bool" where
  "binary_refused (LaneGraphBinary _ _ _ op) =
     (op \<notin> {GAdd, GSub, GMul, GDiv, GFloorDiv, GTruncDiv, GMod, GFMod, GShl, GShr})"
| "binary_refused (LaneCoreBinary _ _ _ _) = True"
| "binary_refused (LaneCoreEq _ _ _) = True"
| "binary_refused (LaneCoreLt _ _ _) = True"
| "binary_refused (LaneCoreLe _ _ _) = True"
| "binary_refused (LaneLogicalAnd _ _ _) = True"
| "binary_refused (LaneLogicalOr _ _ _) = True"
| "binary_refused _ = False"

fun is_bitcast :: "'r lane_instruction \<Rightarrow> bool" where
  "is_bitcast (LaneBitcast _ _) = True"
| "is_bitcast _ = False"

fun nonglobal_address :: "'r lane_instruction \<Rightarrow> bool" where
  "nonglobal_address (LaneAddress out) = (ad_space (ar_value out) \<noteq> GlobalSpace)"
| "nonglobal_address _ = False"

fun graph_binary_op :: "'r lane_instruction \<Rightarrow> binary_op option" where
  "graph_binary_op (LaneGraphBinary _ _ _ op) = Some op"
| "graph_binary_op _ = None"

definition on_scalar :: "(dtype \<Rightarrow> bool) \<Rightarrow> dtype option \<Rightarrow> bool" where
  "on_scalar P ty = (case ty of None \<Rightarrow> False | Some d \<Rightarrow> P d)"

definition b1_instruction :: "unit \<Rightarrow> vector_operand program_instruction \<Rightarrow> (vector_error, unit) result" where
  "b1_instruction = (\<lambda>_ pi.
    (let ins = pi_instruction pi; v = view_of ins; ty = map_option ut_scalar (result_type v);
         operands = (case lv_output v of None \<Rightarrow> [] | Some out \<Rightarrow> [out]) @ lv_inputs v in
     if on_scalar (\<lambda>d. d = F16 \<or> d = BF16) ty \<or> list_ex narrow_operand operands
     then Inl (Unsupported ''portable narrow vector ABI needs tagged float lanes'')
     else if on_scalar is_float8 ty \<or> list_ex float8_operand operands
     then Inl (Unsupported ''portable Float8 vector ABI needs tagged decoded lanes'')
     else if \<not> is_structural ins \<and> on_scalar (\<lambda>d. \<not> portable_dtype d) ty
     then Inl (Unsupported ''portable dtype'')
     else if projected_offsets ins
     then Inl (Unsupported ''portable vector instruction ABI does not encode view or projected offsets'')
     else if unary_refused ins then Inl (Unsupported ''portable unary opcode'')
     else if binary_refused ins then Inl (Unsupported ''portable binary opcode'')
     else if is_bitcast ins then Inl (Unsupported ''portable bitcast opcode'')
     else if nonglobal_address ins then Inl (Unsupported ''portable lane address requires global memory'')
     else case graph_binary_op ins of
       None \<Rightarrow> Inr ()
     | Some op \<Rightarrow>
         if on_scalar is_float ty \<and> op \<notin> {GAdd, GSub, GMul} then Inl (Unsupported ''portable floating binary opcode'')
         else if ty = Some Bool \<and> op \<notin> {GAdd, GSub, GMul, GDiv} then Inl (Unsupported ''portable boolean binary opcode'')
         else Inr ()))"

definition b1_eligibility :: "vector_program \<Rightarrow> (vector_error, unit) result" where
  "b1_eligibility vp =
     rbind (validate_lane_control vp) (\<lambda>_.
     if \<not> vp_enabled vp
     then Inl (Unsupported (case vp_fallback vp of Some reason \<Rightarrow> reason | None \<Rightarrow> ''scalar vector policy''))
     else try_fold b1_instruction () (vp_instructions vp))"

end
