(* ===== verification/VectorRegisters.thy ===== *)
theory VectorRegisters
  imports LaneTheorems VectorPrograms
begin

section \<open>Registers of vector programs\<close>

text \<open>
  The lifetime index is the existential predicate it stands for; the bindings of an allocation do not clash;
  a lane sequence that is valid on virtual registers is valid wherever its registers are kept apart; every
  buffer an index reads is in the plan of the kernel.
\<close>

unbundle bit_operations_syntax

subsection \<open>The index of lifetimes\<close>

definition lifetimes_of :: "register_binding list \<Rightarrow> register_key \<Rightarrow> (nat \<times> nat) list" where
  "lifetimes_of bs k = map (\<lambda>b. (rb_start b, rb_end b)) (filter (\<lambda>b. binding_key b = k \<and> rb_start b \<le> rb_end b) bs)"

lemma enter_lifetimes:
  "(case foldl enter_lifetime m bs k of None \<Rightarrow> [] | Some l \<Rightarrow> l) = (case m k of None \<Rightarrow> [] | Some l \<Rightarrow> l) @ lifetimes_of bs k"
  by (induction bs arbitrary: m) (auto simp: lifetimes_of_def enter_lifetime_def not_le split: option.splits)

definition ends_contain :: "(nat \<times> nat) list \<Rightarrow> nat \<Rightarrow> bool" where
  "ends_contain ends n = (let k = length (takeWhile (\<lambda>(s, _). s \<le> n) ends) in k \<noteq> 0 \<and> n \<le> snd (ends ! (k - 1)))"

lemma ends_contain_Cons:
  "ends_contain ((s, e) # rest) n \<longleftrightarrow> s \<le> n \<and>
     (if rest = [] \<or> n < fst (hd rest) then n \<le> e else ends_contain rest n)"
  by (cases rest) (auto simp: ends_contain_def Let_def)

lemma prefix_ends_contain:
  "sorted l \<Longrightarrow> ends_contain (prefix_ends m l) n \<longleftrightarrow>
     (\<exists>(s, e) \<in> set l. s \<le> n \<and> n \<le> e) \<or> n \<le> m \<and> l \<noteq> [] \<and> fst (hd l) \<le> n"
proof (induction l arbitrary: m)
  case Nil
  then show ?case by (simp add: ends_contain_def)
next
  case (Cons p rest)
  obtain s e where p: "p = (s, e)" by (cases p)
  have starts: "s \<le> s'" if "(s', e') \<in> set rest" for s' e' using Cons.prems that p by (auto simp: less_le)
  have hd_rest: "hd (prefix_ends k rest) = (fst (hd rest), max k (snd (hd rest)))" "prefix_ends k rest = [] \<longleftrightarrow> rest = []"
    if "rest \<noteq> []" for k using that by (cases rest; auto)+
  show ?case
  proof (cases "rest = [] \<or> n < fst (hd rest)")
    case True
    have later: "n < s'" if "(s', e') \<in> set rest" for s' e'
    proof -
      from that obtain q qs where rest: "rest = q # qs" by (cases rest) auto
      with Cons.prems that have "q \<le> (s', e')" by auto
      with True rest that show ?thesis by (cases q) auto
    qed
    have "ends_contain (prefix_ends m (p # rest)) n \<longleftrightarrow> s \<le> n \<and> n \<le> max m e"
      using True hd_rest [of "max m e"] by (cases "rest = []") (auto simp: p ends_contain_Cons)
    with later show ?thesis by (fastforce simp: p)
  next
    case False
    then have "ends_contain (prefix_ends m (p # rest)) n \<longleftrightarrow> s \<le> n \<and> ends_contain (prefix_ends (max m e) rest) n"
      using hd_rest [of "max m e"] by (auto simp: p ends_contain_Cons)
    also have "\<dots> \<longleftrightarrow> s \<le> n \<and> ((\<exists>(s, e) \<in> set rest. s \<le> n \<and> n \<le> e) \<or> n \<le> max m e \<and> fst (hd rest) \<le> n)"
      using Cons False by auto
    finally show ?thesis using False starts by (auto simp: p dest: order_trans)
  qed
qed

lemma lifetime_contains_iff:
  "lifetime_contains (register_lifetimes bs) v n \<longleftrightarrow>
     (\<exists>b \<in> set bs. binding_key b = operand_key v \<and> rb_start b \<le> n \<and> n \<le> rb_end b)"
proof -
  let ?k = "operand_key v"
  let ?l = "case foldl enter_lifetime Map.empty bs ?k of None \<Rightarrow> [] | Some l \<Rightarrow> l"
  have l: "?l = lifetimes_of bs ?k" using enter_lifetimes [of Map.empty bs ?k] by simp
  have "lifetime_contains (register_lifetimes bs) v n \<longleftrightarrow> ends_contain (prefix_ends 0 (sort ?l)) n"
    by (auto simp: lifetime_contains_def register_lifetimes_def ends_contain_def Let_def split: option.splits)
  also have "\<dots> \<longleftrightarrow> (\<exists>(s, e) \<in> set ?l. s \<le> n \<and> n \<le> e)"
  proof (cases "sort ?l")
    case (Cons p rest)
    then have "p \<in> set (sort ?l)" by (metis list.set_intros(1))
    then have p: "(fst p, snd p) \<in> set ?l" by simp
    have "ends_contain (prefix_ends 0 (sort ?l)) n \<longleftrightarrow> (\<exists>(s, e) \<in> set (sort ?l). s \<le> n \<and> n \<le> e) \<or> n \<le> 0 \<and> fst p \<le> n"
      using prefix_ends_contain [OF sorted_sort, of 0 ?l n] Cons by (metis list.sel(1) list.distinct(1))
    with p show ?thesis unfolding set_sort by fastforce
  next
    case Nil
    then have "?l = []" by (metis set_empty set_sort)
    with Nil show ?thesis by (simp add: ends_contain_def)
  qed
  finally show ?thesis unfolding l by (force simp: lifetimes_of_def)
qed

subsection \<open>Plans without aliases\<close>

lemma validate_nonoverlap_Inr: "validate_nonoverlap l = Inr () \<longleftrightarrow> sorted_wrt (\<lambda>a b. \<not> clash a b) l"
proof (induction l)
  case (Cons a rest)
  show ?case
  proof (cases "find (clash a) rest")
    case None
    moreover from None have "\<forall>b \<in> set rest. \<not> clash a b" unfolding find_None_iff by blast
    ultimately show ?thesis using Cons by simp
  next
    case (Some b)
    then have "find (clash a) rest \<noteq> None" by simp
    then have "\<exists>b \<in> set rest. clash a b" unfolding find_None_iff by blast
    with Some show ?thesis by auto
  qed
qed simp

lemma register_id_inj:
  assumes "p < 2 ^ 16" "q < 2 ^ 16" and "p OR push_bit 16 (dtype_rank d) = q OR push_bit 16 (dtype_rank e)"
  shows "p = q \<and> d = e"
proof -
  from assms(3) have "take_bit 16 (p OR push_bit 16 (dtype_rank d)) = take_bit 16 (q OR push_bit 16 (dtype_rank e))"
    "drop_bit 16 (p OR push_bit 16 (dtype_rank d)) = drop_bit 16 (q OR push_bit 16 (dtype_rank e))" by simp_all
  moreover have "take_bit 16 p = p" "take_bit 16 q = q" "drop_bit 16 p = 0" "drop_bit 16 q = 0"
    using assms(1,2) by (simp_all add: take_bit_nat_eq_self drop_bit_eq_div)
  ultimately show ?thesis by (simp add: take_bit_push_bit drop_bit_push_bit dtype_rank_inj)
qed

definition plan_binding :: "live_interval \<Rightarrow> register_assignment \<Rightarrow> register_binding" where
  "plan_binding i a = \<lparr>rb_virtual = li_virtual i, rb_physical = ra_physical a, rb_space = register_space (ra_class a),
     rb_dtype = ra_dtype a, rb_start = li_start i, rb_end = li_end i\<rparr>"

lemma lookup_register_eq:
  assumes "distinct (map ra_virtual as)"
  shows "lookup_register as r = Some a \<longleftrightarrow> a \<in> set as \<and> ra_virtual a = r"
  using assms by (auto simp: lookup_register_def comp_def intro!: map_of_is_SomeI dest!: map_of_SomeD)

lemma bind_register_eq:
  assumes "intervals_ok ints" and "i \<in> set ints" and "ra_virtual a = li_virtual i"
  shows "bind_register ints a = Inr (plan_binding i a)"
proof -
  have "map_of (rev (map (\<lambda>i. (li_virtual i, i)) ints)) (li_virtual i) = Some i"
    using assms(1,2) by (intro map_of_is_SomeI) (auto simp: intervals_ok_def comp_def rev_map [symmetric])
  then show ?thesis by (simp add: bind_register_def plan_binding_def assms(3))
qed

text \<open>The bindings of a plan are the assignments of the scan with their intervals.\<close>

lemma allocation_bindings:
  assumes "allocate ints limit = Inr as" and ok: "intervals_ok ints"
  shows "\<exists>bs. try_map (bind_register ints) as = Inr bs \<and> map rb_virtual bs = map ra_virtual as \<and> distinct (map rb_virtual bs) \<and>
    (\<forall>b. b \<in> set bs \<longleftrightarrow> (\<exists>i a. i \<in> set ints \<and> lookup_register as (li_virtual i) = Some a \<and> b = plan_binding i a))"
proof -
  have "distinct (map li_virtual ints)" using ok by (simp add: intervals_ok_def)
  from allocate_pairs [OF assms(1) this] have virt: "map ra_virtual as = sort (map li_virtual ints)" by blast
  then have dist: "distinct (map ra_virtual as)" using ok by (simp add: intervals_ok_def)
  have "\<exists>i \<in> set ints. li_virtual i = ra_virtual a" if "a \<in> set as" for a
  proof -
    from that have "ra_virtual a \<in> set (map ra_virtual as)" by simp
    then show ?thesis unfolding virt by auto
  qed
  then obtain of_a where of_a: "\<And>a. a \<in> set as \<Longrightarrow> of_a a \<in> set ints \<and> li_virtual (of_a a) = ra_virtual a" by metis
  let ?bs = "map (\<lambda>a. plan_binding (of_a a) a) as"
  have "try_map (bind_register ints) as = Inr ?bs"
    using of_a bind_register_eq [OF ok] by (intro try_map_ok) metis
  moreover have "map rb_virtual ?bs = map ra_virtual as" using of_a by (simp add: plan_binding_def)
  moreover have "b \<in> set ?bs \<longleftrightarrow> (\<exists>i a. i \<in> set ints \<and> lookup_register as (li_virtual i) = Some a \<and> b = plan_binding i a)" for b
  proof
    assume "b \<in> set ?bs"
    with of_a show "\<exists>i a. i \<in> set ints \<and> lookup_register as (li_virtual i) = Some a \<and> b = plan_binding i a"
      unfolding lookup_register_eq [OF dist] by (metis (no_types, lifting) imageE list.set_map)
  next
    assume "\<exists>i a. i \<in> set ints \<and> lookup_register as (li_virtual i) = Some a \<and> b = plan_binding i a"
    then obtain i a where ia: "i \<in> set ints" "a \<in> set as" "ra_virtual a = li_virtual i" "b = plan_binding i a"
      by (auto simp: lookup_register_eq [OF dist])
    with of_a [of a] ok have "of_a a = i" by (auto simp: intervals_ok_def distinct_map inj_on_def)
    with ia show "b \<in> set ?bs" by auto
  qed
  ultimately show ?thesis using dist by (intro exI [of _ ?bs]) (simp del: map_map)
qed

lemma bindings_apart:
  assumes alloc: "allocate ints limit = Inr as" and ok: "intervals_ok ints" and small: "as_u32 limit \<le> 2 ^ 16"
    and bs: "distinct (map rb_virtual bs)"
    "\<And>b. b \<in> set bs \<longleftrightarrow> (\<exists>i a. i \<in> set ints \<and> lookup_register as (li_virtual i) = Some a \<and> b = plan_binding i a)"
  shows "validate_nonoverlap (map register_allocation bs) = Inr ()"
proof -
  have "\<not> clash (register_allocation b) (register_allocation c)" if bc: "b \<in> set bs" "c \<in> set bs" "rb_virtual b \<noteq> rb_virtual c" for b c
  proof
    assume clash: "clash (register_allocation b) (register_allocation c)"
    from bc bs(2) obtain i a j d where
      i: "i \<in> set ints" "lookup_register as (li_virtual i) = Some a" "b = plan_binding i a" and
      j: "j \<in> set ints" "lookup_register as (li_virtual j) = Some d" "c = plan_binding j d" by metis
    have assigned: "assigns (as_u32 limit) i a" "assigns (as_u32 limit) j d"
      using allocate_assigned [OF alloc ok] i j by force+
    then have "ra_physical a < 2 ^ 16" "ra_physical d < 2 ^ 16" using small by (auto simp: assigns_def)
    moreover have "ra_physical a OR push_bit 16 (dtype_rank (ra_dtype a)) = ra_physical d OR push_bit 16 (dtype_rank (ra_dtype d))"
      "register_space (ra_class a) = register_space (ra_class d)" and meet: "meets i j"
      using clash by (simp_all add: clash_def register_allocation_def i(3) j(3) plan_binding_def meets_def)
    ultimately have "ra_physical a = ra_physical d \<and> ra_dtype a = ra_dtype d"
      by (intro register_id_inj)
    moreover have "ra_class a = ra_class d"
      using \<open>register_space (ra_class a) = register_space (ra_class d)\<close> by (cases "ra_class a"; cases "ra_class d"; simp)
    ultimately have "ra_physical a = ra_physical d" "ra_dtype a = ra_dtype d" "ra_class a = ra_class d" by blast+
    moreover have "li_virtual i \<noteq> li_virtual j" using bc(3) i(3) j(3) by (simp add: plan_binding_def)
    moreover have "register_pool i = register_pool j" using assigned calculation by (auto simp: assigns_def register_pool_def)
    ultimately show False using allocate_apart [OF alloc ok i(1) j(1) _ _ \<open>meets i j\<close> i(2) j(2)] by blast
  qed
  with bs(1) show ?thesis
    unfolding validate_nonoverlap_Inr by (induction bs) (auto simp: image_iff)
qed

subsection \<open>Checking a program on placed registers\<close>

lemma check_step_map:
  "check_lane_step (\<lambda>_. False) key live (\<lambda>_ _. True) s (map_pi g pi) =
     check_lane_step (\<lambda>_. False) (key \<circ> g) (live \<circ> g) (\<lambda>_ _. True) s pi"
proof -
  have ops: "try_fold (\<lambda>_. check_operand key live om n D) () (map (map_prod g id) ops) =
      try_fold (\<lambda>_. check_operand (key \<circ> g) (live \<circ> g) om n D) () ops" for ops om n D
    by (induction ops) (auto simp: check_operand_def)
  have validate: "lane_validate (map_lane_instruction g ins) = lane_validate ins" for ins
    by (rule lane_validate_erase)
  show ?thesis
    by (cases s; cases "fst s"; cases "lv_output (view_of (pi_instruction pi))")
      (simp_all add: check_lane_step_def map_pi_def view_of_map ops validate check_output_def case_prod_unfold)
qed

lemma check_sequence_map:
  "try_fold (check_lane_step (\<lambda>_. False) key live (\<lambda>_ _. True)) s (map (map_pi g) P) =
     try_fold (check_lane_step (\<lambda>_. False) (key \<circ> g) (live \<circ> g) (\<lambda>_ _. True)) s P"
  by (induction P arbitrary: s) (simp_all add: check_step_map)

lemma sequence_placed:
  assumes wo: "well_ordered P" and apart: "kept_apart place (intervals P lanes)"
    and live_all: "\<forall>q \<in> set P. \<forall>r d n. lv_output (view_of (pi_instruction q)) = Some (r, d) \<longrightarrow>
      n = pi_index q \<or> (\<exists>u \<in> set P. pi_index u = n \<and> r \<in> set (reads (pi_instruction u))) \<longrightarrow> live r n d"
  shows "P = xs @ ys \<Longrightarrow>
    try_fold (check_lane_step (\<lambda>_. False) (\<lambda>r. r) (\<lambda>_ _ _. True) canonical) (None, Map.empty) xs = Inr (prev, D) \<Longrightarrow>
    \<exists>D'. try_fold (check_lane_step (\<lambda>_. False) place live (\<lambda>_ _. True)) (None, Map.empty) xs = Inr (prev, D') \<and>
      (\<forall>r d. D r = Some d \<longrightarrow> (\<exists>q \<in> set xs. lv_output (view_of (pi_instruction q)) = Some (r, d))) \<and>
      (\<forall>q \<in> set xs. \<forall>u \<in> set ys. \<forall>r \<in> set (reads (pi_instruction u)). target (pi_instruction q) = Some r \<longrightarrow> D' (place r) = D r)"
proof (induction xs arbitrary: ys prev D rule: rev_induct)
  case Nil
  then show ?case by auto
next
  case (snoc pi xs)
  then have P: "P = xs @ pi # ys" by simp
  note live = live_all [rule_format]
  let ?v = "view_of (pi_instruction pi)" and ?n = "pi_index pi"
  from snoc.prems(2) obtain prev0 D0 where prefix:
    "try_fold (check_lane_step (\<lambda>_. False) (\<lambda>r. r) (\<lambda>_ _ _. True) canonical) (None, Map.empty) xs = Inr (prev0, D0)"
    and step: "check_lane_step (\<lambda>_. False) (\<lambda>r. r) (\<lambda>_ _ _. True) canonical (prev0, D0) pi = Inr (prev, D)"
    by (auto simp: try_fold_append result_simps)
  from snoc.IH [OF P prefix] obtain D0' where
    prefix': "try_fold (check_lane_step (\<lambda>_. False) place live (\<lambda>_ _. True)) (None, Map.empty) xs = Inr (prev0, D0')" and
    origin: "\<And>r d. D0 r = Some d \<Longrightarrow> \<exists>q \<in> set xs. lv_output (view_of (pi_instruction q)) = Some (r, d)" and
    agree: "\<And>q u r. q \<in> set xs \<Longrightarrow> u \<in> set (pi # ys) \<Longrightarrow> r \<in> set (reads (pi_instruction u)) \<Longrightarrow>
      target (pi_instruction q) = Some r \<Longrightarrow> D0' (place r) = D0 r" by blast
  from step have
    first: "\<not> (case prev0 of None \<Rightarrow> False | Some p \<Rightarrow> ?n \<le> p)" "lane_validate (pi_instruction pi) = Inr ()" "prev = Some ?n" and
    ops: "try_fold (\<lambda>_. check_operand (\<lambda>r. r) (\<lambda>_ _ _. True) (\<lambda>_. False) ?n D0) () (lv_inputs ?v) = Inr ()" and
    out: "(case lv_output ?v of None \<Rightarrow> Inr D0 | Some out \<Rightarrow> check_output (\<lambda>r. r) (\<lambda>_ _ _. True) canonical ?n D0 out) = Inr D"
    by (auto simp: check_lane_step_def result_simps split: if_splits)
  have mem: "pi \<in> set P" "set xs \<subseteq> set P" using P by auto
  have read: "D0' (place r) = Some d \<and> live r ?n d" if rd: "(r, d) \<in> set (lv_inputs ?v)" for r d
  proof -
    have reads: "r \<in> set (reads (pi_instruction pi))" using rd by (force simp: reads_def)
    have "D0 r = Some d"
      using check_operands_Inr [OF ops rd] by (auto simp: check_operand_def split: option.splits if_splits)
    moreover from origin [OF this] obtain q where q: "q \<in> set xs" "lv_output (view_of (pi_instruction q)) = Some (r, d)" by blast
    moreover have "live r ?n d" using live [of q r d ?n] q mem reads by blast
    ultimately show ?thesis using agree [OF q(1) _ reads] by (simp add: target_def)
  qed
  have ops': "try_fold (\<lambda>_. check_operand place live (\<lambda>_. False) ?n D0') () (lv_inputs ?v) = Inr ()"
  proof -
    have "try_fold (\<lambda>_. check_operand place live (\<lambda>_. False) ?n D0') () l = Inr ()" if "set l \<subseteq> set (lv_inputs ?v)" for l
      using that by (induction l) (auto simp: check_operand_def read)
    then show ?thesis by blast
  qed
  show ?case
  proof (cases "lv_output ?v")
    case None
    then have "D = D0" using out by simp
    moreover have "check_lane_step (\<lambda>_. False) place live (\<lambda>_ _. True) (prev0, D0') pi = Inr (prev, D0')"
      using first ops' None by (simp add: check_lane_step_def)
    then have "try_fold (check_lane_step (\<lambda>_. False) place live (\<lambda>_ _. True)) (None, Map.empty) (xs @ [pi]) = Inr (prev, D0')"
      by (simp add: try_fold_append prefix')
    moreover have "target (pi_instruction pi) = None" using None by (simp add: target_def)
    moreover have "D0' (place r) = D r" if "q \<in> set (xs @ [pi])" "u \<in> set ys" "r \<in> set (reads (pi_instruction u))"
        "target (pi_instruction q) = Some r" for q u r
      using agree [of q u r] that calculation by auto
    ultimately show ?thesis using origin by (intro exI [of _ D0']) auto
  next
    case (Some w)
    then obtain r d where w: "lv_output ?v = Some (r, d)" by (cases w) auto
    then have tgt: "target (pi_instruction pi) = Some r" by (simp add: target_def)
    have D: "D = D0(r \<mapsto> d)" using out w by (auto simp: check_output_def split: if_splits)
    have "live r ?n d" using live [OF mem(1) w] by blast
    then have "check_lane_step (\<lambda>_. False) place live (\<lambda>_ _. True) (prev0, D0') pi = Inr (prev, D0'(place r \<mapsto> d))"
      using first ops' w by (simp add: check_lane_step_def check_output_def)
    then have "try_fold (check_lane_step (\<lambda>_. False) place live (\<lambda>_ _. True)) (None, Map.empty) (xs @ [pi]) =
        Inr (prev, D0'(place r \<mapsto> d))"
      by (simp add: try_fold_append prefix')
    moreover have "\<exists>q \<in> set (xs @ [pi]). lv_output (view_of (pi_instruction q)) = Some (r', d')" if "D r' = Some d'" for r' d'
      using that origin w by (cases "r' = r") (auto simp: D)
    moreover have "(D0'(place r \<mapsto> d)) (place r') = D r'"
      if "q \<in> set (xs @ [pi])" "u \<in> set ys" "r' \<in> set (reads (pi_instruction u))" "target (pi_instruction q) = Some r'" for q u r'
    proof (cases "r' = r")
      case False
      with that tgt have q: "q \<in> set xs" by auto
      have "place r' \<noteq> place r" using placed_apart [OF wo apart P tgt q that(4,2,3)] .
      with False agree [OF q _ that(3,4)] that(2) show ?thesis by (simp add: D)
    qed (simp add: D)
    ultimately show ?thesis by blast
  qed
qed

subsection \<open>Buffers of a kernel\<close>

definition planned_buffer :: "nat \<times> linear_buffer \<Rightarrow> bool" where
  "planned_buffer = (\<lambda>(b, x). lb_buffer x = b \<and> lb_alignment x = itemsize (lb_dtype x) \<and>
     lb_byte_offset x mod itemsize (lb_dtype x) = 0)"

lemma index_facts_buffer: "index_facts_of v = Inr x \<Longrightarrow> xf_buffer x = iv_buffer v"
  by (cases v) (auto simp: result_simps)

lemma or_insert_all: "P (k, v) \<Longrightarrow> \<forall>b \<in> set m. P b \<Longrightarrow> \<forall>b \<in> set (or_insert k v m). P b"
  by (simp add: or_insert_def set_insort_key)

lemma plan_node_Inr:
  assumes "plan_node ob os lanes (st, bs) u = Inr (st', bs')" and "\<forall>b \<in> set bs. planned_buffer b"
  shows "(\<forall>b \<in> set bs'. planned_buffer b) \<and> fst ` set bs \<subseteq> fst ` set bs' \<and>
    (\<forall>v. uop_ty u \<noteq> None \<longrightarrow> index_payload (uop_operation u) = Some v \<longrightarrow> iv_buffer v \<in> fst ` set bs')"
proof (cases "uop_ty u = None \<or> index_payload (uop_operation u) = None")
  case True
  then have "bs' = bs" using assms(1) by (cases st) (auto simp: plan_node_def split: option.splits)
  with True assms(2) show ?thesis by auto
next
  case False
  then obtain ty v where u: "uop_ty u = Some ty" "index_payload (uop_operation u) = Some v" by auto
  from assms(1) u obtain x off where x: "index_facts_of v = Inr x"
    "checked_mul_u (xf_offset x) (itemsize (ut_scalar ty)) = Some off"
    by (cases st) (auto simp: plan_node_def result_simps)
  let ?new = "\<lparr>lb_buffer = xf_buffer x, lb_dtype = ut_scalar ty, lb_elements = xf_physical x, lb_input_shape = xf_input x,
     lb_byte_offset = off, lb_byte_stride = itemsize (ut_scalar ty), lb_alignment = max (itemsize (ut_scalar ty)) 1,
     lb_mutable = (xf_buffer x = ob), lb_access = access_of ob os lanes (ut_scalar ty) off x\<rparr>"
  have new: "bs' = or_insert (xf_buffer x) ?new bs"
    using assms(1) u x by (cases st) (auto simp: plan_node_def Let_def)
  have "off = xf_offset x * itemsize (ut_scalar ty)" using x(2) by (simp add: checked_mul_u_eq_Some)
  moreover have "max (itemsize (ut_scalar ty)) 1 = itemsize (ut_scalar ty)"
    using Suc_leI [OF itemsize_pos, of "ut_scalar ty"] by (simp add: max_absorb1)
  ultimately have "planned_buffer (xf_buffer x, ?new)" by (simp add: planned_buffer_def)
  from or_insert_all [of planned_buffer, OF this assms(2)] have "\<forall>b \<in> set bs'. planned_buffer b" unfolding new .
  moreover have "fst ` set bs' = insert (iv_buffer v) (fst ` set bs)"
    unfolding new or_insert_keys index_facts_buffer [OF x(1)] ..
  ultimately show ?thesis using u(2) by (simp add: subset_insertI)
qed

lemma plan_nodes_Inr:
  "try_fold (plan_node ob os lanes) (st, bs) us = Inr (st', bs') \<Longrightarrow> \<forall>b \<in> set bs. planned_buffer b \<Longrightarrow>
    (\<forall>b \<in> set bs'. planned_buffer b) \<and> fst ` set bs \<subseteq> fst ` set bs' \<and>
    (\<forall>u \<in> set us. \<forall>v. uop_ty u \<noteq> None \<longrightarrow> index_payload (uop_operation u) = Some v \<longrightarrow> iv_buffer v \<in> fst ` set bs')"
proof (induction us arbitrary: st bs)
  case (Cons u us)
  from Cons.prems(1) obtain st1 bs1 where step: "plan_node ob os lanes (st, bs) u = Inr (st1, bs1)"
    and rest: "try_fold (plan_node ob os lanes) (st1, bs1) us = Inr (st', bs')" by (auto simp: result_simps)
  note one = plan_node_Inr [OF step Cons.prems(2)]
  note later = Cons.IH [OF rest conjunct1 [OF one]]
  from conjunct1 [OF later] conjunct1 [OF conjunct2 [OF later]] conjunct2 [OF conjunct2 [OF later]]
  have tail: "\<forall>b \<in> set bs'. planned_buffer b" "fst ` set bs1 \<subseteq> fst ` set bs'"
    "\<forall>u \<in> set us. \<forall>v. uop_ty u \<noteq> None \<longrightarrow> index_payload (uop_operation u) = Some v \<longrightarrow> iv_buffer v \<in> fst ` set bs'" .
  show ?case
  proof (intro conjI ballI allI impI)
    fix w v assume w: "w \<in> set (u # us)" "uop_ty w \<noteq> None" "index_payload (uop_operation w) = Some v"
    show "iv_buffer v \<in> fst ` set bs'"
    proof (cases "w = u")
      case True
      with one w(2,3) tail(2) show ?thesis by blast
    next
      case False
      with w tail(3) show ?thesis by auto
    qed
  next
    fix b assume "b \<in> set bs'"
    with tail(1) show "planned_buffer b" ..
  next
    show "fst ` set bs \<subseteq> fst ` set bs'" using one tail(2) by (meson order_trans)
  qed
qed simp

end
