(* ===== verification/VectorLowering.thy ===== *)
theory VectorLowering
  imports VectorRegisters
begin

section \<open>Lowering to vector programs\<close>

text \<open>
  What a kernel of the linearizer guarantees to the two passes after it, and the proof that both succeed on it:
  \<open>memory_space_plan_shape\<close> computes its memory-space plan, \<open>vector_lowering\<close> its vector program.
\<close>

subsection \<open>What the linearizer gives\<close>

lemma project_origin:
  "project_lane_nodes us own = Inr p \<Longrightarrow> pi \<in> set (lp_instructions p) \<Longrightarrow>
     \<exists>u \<in> set us. \<exists>i. project_lane_instruction u i (source_reg own) = Inr (Some (pi_instruction pi))"
proof (induction us arbitrary: p rule: rev_induct)
  case Nil
  then show ?case by (auto simp: project_lane_nodes_def)
next
  case (snoc u us)
  then obtain p0 where p0: "project_lane_nodes us own = Inr p0" and step: "project_node own p0 (length us, u) = Inr p"
    by (auto simp: project_lane_nodes_snoc result_simps)
  show ?case
  proof (cases "pi \<in> set (lp_instructions p0)")
    case True
    with snoc.IH [OF p0] show ?thesis by auto
  next
    case False
    with step snoc.prems(2) have "\<exists>i. project_lane_instruction u i (source_reg own) = Inr (Some (pi_instruction pi))"
      by (auto simp: project_node_def result_simps split: option.splits if_splits) blast+
    then show ?thesis by auto
  qed
qed

lemma project_operation_buffer:
  assumes "project_operation op u r reg = Some (Inr ins)" and "lv_buffer (view_of ins) = Some b"
  shows "(\<exists>v. op = OpIndex v \<and> uop_ty u \<noteq> None \<and> iv_buffer v = b) \<or>
    (\<exists>w \<in> set (uop_sources u). uop_ty w \<noteq> None \<and> (\<exists>v. index_payload (uop_operation w) = Some v \<and> iv_buffer v = b))"
proof -
  have source: "\<exists>w \<in> set (uop_sources u). uop_ty w \<noteq> None \<and> (\<exists>v. index_payload (uop_operation w) = Some v \<and> iv_buffer v = b)"
    if "index_source u reg 0 = Inr x" "iv_buffer (ix_value x) = b" for x
    using that by (auto simp: index_source_def node_source_def result_simps split: if_splits)
  show ?thesis
  proof (cases op)
    case (OpBinary bop)
    with assms show ?thesis by (cases bop) (auto simp: project_binary_def result_simps value_view_def)
  next
    case (OpGraphLogical lop)
    with assms show ?thesis
      by (cases lop) (auto simp: project_binary_def project_unary_def result_simps value_view_def)
  next
    case OpLoad
    with assms source show ?thesis by (auto simp: result_simps)
  next
    case OpStore
    with assms source show ?thesis by (auto simp: result_simps)
  next
    case (OpIndex v)
    with assms show ?thesis by (auto simp: result_simps)
  qed (use assms in \<open>auto simp: project_unary_def project_binary_def project_constant_def project_address_def result_simps
    value_view_def split: if_splits\<close>)
qed

lemma from_validated_source_geometry:
  assumes "from_validated_source source = Inr k"
  shows "\<exists>bs. lk_buffers k = map snd bs \<and> (\<forall>b \<in> set bs. planned_buffer b) \<and>
    (\<forall>u \<in> set (pr_nodes (lane_producers source)). \<forall>v. uop_ty u \<noteq> None \<longrightarrow> index_payload (uop_operation u) = Some v \<longrightarrow>
       iv_buffer v \<in> fst ` set bs) \<and>
    lk_lanes k = vector_lanes (lk_dtype k) \<and> lk_vector_main k \<le> lk_elements k \<and>
    lk_vector_main k = (if lk_enabled k then lk_elements k div lk_lanes k * lk_lanes k else 0) \<and>
    lk_scalar_tail k = lk_elements k - lk_vector_main k"
proof -
  from assms obtain st bs d ob os where nodes: "try_fold (plan_node ob os (vector_lanes d))
      (lane_policy (pr_nodes (lane_producers source)) (vector_lanes d), []) (pr_nodes (lane_producers source)) = Inr (st, bs)"
    and k: "lk_buffers k = map snd bs" "lk_lanes k = vector_lanes (lk_dtype k)" "lk_vector_main k \<le> lk_elements k"
      "lk_vector_main k = (if lk_enabled k then lk_elements k div lk_lanes k * lk_lanes k else 0)"
      "lk_scalar_tail k = lk_elements k - lk_vector_main k"
    by (auto simp: from_validated_source_def result_simps Let_def checked_sub_u_eq_Some split: if_splits prod.splits)
  from plan_nodes_Inr [OF nodes]
  have "\<forall>b \<in> set bs. planned_buffer b" "\<forall>u \<in> set (pr_nodes (lane_producers source)). \<forall>v. uop_ty u \<noteq> None \<longrightarrow>
      index_payload (uop_operation u) = Some v \<longrightarrow> iv_buffer v \<in> fst ` set bs" by simp_all
  with k show ?thesis by blast
qed

subsection \<open>The plan of a kernel\<close>

lemma fresh_registers:
  assumes "from_validated_source source = Inr k" and "validate_fresh k = Inr k'"
  shows "intervals_ok (pg_intervals (lk_program k)) \<and>
    allocate (pg_intervals (lk_program k)) 64 = Inr (pg_assignments (lk_program k)) \<and>
    pg_intervals (lk_program k) = intervals (pg_instructions (lk_program k)) (if lk_enabled k then lk_lanes k else 1)"
  using from_validated_source_Inr [OF assms(1)] follow_intervals [OF validate_fresh_follow [OF assms(2)]] by auto

definition binding_set :: "'x linear_kernel \<Rightarrow> register_binding list \<Rightarrow> bool" where
  "binding_set k bs \<longleftrightarrow> distinct (map rb_virtual bs) \<and>
     (\<forall>b. b \<in> set bs \<longleftrightarrow> (\<exists>i a. i \<in> set (pg_intervals (lk_program k)) \<and>
        lookup_register (pg_assignments (lk_program k)) (li_virtual i) = Some a \<and> b = plan_binding i a))"

lemma fresh_bindings:
  assumes "from_validated_source source = Inr k" and "validate_fresh k = Inr k'"
  shows "\<exists>bs. try_map (bind_register (pg_intervals (lk_program k))) (pg_assignments (lk_program k)) = Inr bs \<and> binding_set k bs"
proof -
  from fresh_registers [OF assms] have "allocate (pg_intervals (lk_program k)) 64 = Inr (pg_assignments (lk_program k))"
    "intervals_ok (pg_intervals (lk_program k))" by blast+
  from allocation_bindings [OF this] show ?thesis unfolding binding_set_def by metis
qed

lemma binding_set_sort: "binding_set k bs \<Longrightarrow> binding_set k (sort_key f bs)"
  unfolding binding_set_def by (simp add: distinct_map inj_on_def distinct_sort)

lemma binding_set_apart:
  assumes "from_validated_source source = Inr k" and "validate_fresh k = Inr k'"
    and "binding_set k bs"
  shows "validate_nonoverlap (map register_allocation bs) = Inr ()"
proof -
  from fresh_registers [OF assms(1,2)] have alloc: "allocate (pg_intervals (lk_program k)) 64 = Inr (pg_assignments (lk_program k))"
    and ok: "intervals_ok (pg_intervals (lk_program k))" by blast+
  have small: "as_u32 64 \<le> 2 ^ 16" by (simp add: as_u32_def)
  show ?thesis
    using assms(3) unfolding binding_set_def by (intro bindings_apart [OF alloc ok small]) blast+
qed

definition aligned_global :: "global_access \<Rightarrow> bool" where
  "aligned_global g \<longleftrightarrow> ga_alignment g \<noteq> 0 \<and> ga_byte_offset g mod ga_alignment g = 0"

lemma check_globals_Inr: "try_fold check_global () gs = Inr () \<longleftrightarrow> list_all aligned_global gs"
  by (induction gs) (auto simp: check_global_def aligned_global_def result_simps)

lemma access_buffers:
  assumes "\<forall>b \<in> set bs. planned_buffer b"
  shows "try_map access_buffer (map snd bs) = Inl e \<longleftrightarrow>
      e = SpaceOverflow \<and> (\<exists>b \<in> set (map snd bs). usize_max < lb_elements b * itemsize (lb_dtype b))"
    and "try_map access_buffer (map snd bs) = Inr gs \<Longrightarrow> list_all aligned_global gs \<and> ga_buffer ` set gs = fst ` set bs"
proof -
  show "try_map access_buffer (map snd bs) = Inl e \<longleftrightarrow>
      e = SpaceOverflow \<and> (\<exists>b \<in> set (map snd bs). usize_max < lb_elements b * itemsize (lb_dtype b))"
    by (induction bs) (auto simp: access_buffer_def result_simps checked_mul_u_eq_None)
  show "try_map access_buffer (map snd bs) = Inr gs \<Longrightarrow> list_all aligned_global gs \<and> ga_buffer ` set gs = fst ` set bs"
    using assms
  proof (induction bs arbitrary: gs)
    case (Cons p bs)
    then obtain g gs' where g: "access_buffer (snd p) = Inr g" "try_map access_buffer (map snd bs) = Inr gs'" "gs = g # gs'"
      by (auto simp: result_simps)
    with Cons have "list_all aligned_global gs' \<and> ga_buffer ` set gs' = fst ` set bs" by auto
    moreover have "aligned_global g \<and> ga_buffer g = fst p"
      using g(1) Cons.prems by (auto simp: access_buffer_def result_simps aligned_global_def planned_buffer_def)
    ultimately show ?case using g(3) by simp
  qed simp
qed

lemma memory_space_plan_shape:
  assumes k: "from_validated_source source = Inr k" and fresh: "validate_fresh k = Inr k'"
  shows "memory_space_plan_of k = rbind (try_map access_buffer (lk_buffers k)) (\<lambda>globals.
      Inr \<lparr>sp_registers = sort_key (\<lambda>r. (rb_space r, rb_physical r, rb_virtual r))
             (projr (try_map (bind_register (pg_intervals (lk_program k))) (pg_assignments (lk_program k)))),
           sp_globals = sort_key ga_buffer globals, sp_private = [], sp_shared = [], sp_barriers = [],
           sp_promotions = [NotPromoted ''pure elementwise program has no statically proven cross-lane reuse'']\<rparr>)"
proof -
  from fresh_bindings [OF assms] obtain bs where
    bs: "try_map (bind_register (pg_intervals (lk_program k))) (pg_assignments (lk_program k)) = Inr bs" "binding_set k bs" by blast
  note apart = binding_set_apart [OF assms binding_set_sort [OF bs(2), of "\<lambda>r. (rb_space r, rb_physical r, rb_virtual r)"]]
  from from_validated_source_geometry [OF k] obtain bufs where bufs: "lk_buffers k = map snd bufs" "\<forall>b \<in> set bufs. planned_buffer b" by blast
  show ?thesis
  proof (cases "try_map access_buffer (lk_buffers k)")
    case (Inl e)
    then show ?thesis by (simp add: memory_space_plan_of_def bs(1))
  next
    case (Inr globals)
    have "list_all aligned_global globals" using access_buffers(2) [OF bufs(2)] Inr bufs(1) by simp
    then have "try_fold check_global () (sort_key ga_buffer globals) = Inr ()"
      unfolding check_globals_Inr by (simp add: list_all_iff)
    with Inr apart show ?thesis by (simp add: memory_space_plan_of_def bs(1) validate_spaces_def Let_def)
  qed
qed

subsection \<open>Lowering to physical registers\<close>

lemma operand_registers_set:
  "set_typed_value v = {tv_register v}" "set_address_ref a = {ar_register a}" "set_index_ref x = {ix_register x}"
  by (cases v; cases a; cases x; simp)+

lemma lane_registers: "set_lane_instruction ins = set (reads ins) \<union> set_option (target ins)"
  by (cases ins) (auto simp: reads_def target_def value_view_def operand_registers operand_registers_set)

lemma map_refs_ok:
  "m (tv_register v) = Inr (g (tv_register v)) \<Longrightarrow> map_value m v = Inr (map_typed_value g v)"
  "m (ar_register a) = Inr (g (ar_register a)) \<Longrightarrow> map_address m a = Inr (map_address_ref g a)"
  "m (ix_register x) = Inr (g (ix_register x)) \<Longrightarrow> map_index m x = Inr (map_index_ref g x)"
  by (cases v; cases a; cases x; simp add: map_value_def map_address_def map_index_def)+

lemma map_operands_ok:
  assumes "\<forall>r \<in> set_lane_instruction ins. m r = Inr (g r)"
  shows "map_operands m ins = Inr (map_lane_instruction g ins)"
  using assms by (cases ins) (simp_all add: map_unary_def map_binary_def operand_registers_set map_refs_ok)

definition placed_operand :: "memory_space_plan \<Rightarrow> nat \<Rightarrow> vector_operand" where
  "placed_operand spaces r = projr (physical_operand (bindings_of spaces r) r)"

lemma plan_lookup:
  assumes bs: "binding_set k (sp_registers spaces)" and alloc: "allocate (pg_intervals (lk_program k)) 64 = Inr (pg_assignments (lk_program k))"
    and ok: "intervals_ok (pg_intervals (lk_program k))" and i: "i \<in> set (pg_intervals (lk_program k))"
  shows "\<exists>a. lookup_register (pg_assignments (lk_program k)) (li_virtual i) = Some a \<and> assigns 64 i a \<and>
    plan_binding i a \<in> set (sp_registers spaces) \<and> bindings_of spaces (li_virtual i) = Some (plan_binding i a)"
proof -
  from allocate_assigned [OF alloc ok i] obtain a where
    a: "lookup_register (pg_assignments (lk_program k)) (li_virtual i) = Some a" "assigns (as_u32 64) i a" by blast
  have mem: "plan_binding i a \<in> set (sp_registers spaces)" using bs i a(1) unfolding binding_set_def by blast
  moreover have "map_of (rev (map (\<lambda>b. (rb_virtual b, b)) (sp_registers spaces))) (rb_virtual (plan_binding i a)) = Some (plan_binding i a)"
    using bs mem by (intro map_of_is_SomeI) (auto simp: binding_set_def comp_def rev_map [symmetric])
  ultimately show ?thesis using a by (auto simp: bindings_of_def plan_binding_def as_u32_def)
qed

text \<open>What the lowering of one kernel to one plan starts from.\<close>

definition lowering :: "'x linear_kernel \<Rightarrow> nat \<Rightarrow> memory_space_plan \<Rightarrow> bool" where
  "lowering k lanes spaces \<longleftrightarrow> well_ordered (pg_instructions (lk_program k)) \<and>
     pg_intervals (lk_program k) = intervals (pg_instructions (lk_program k)) lanes \<and>
     intervals_ok (pg_intervals (lk_program k)) \<and>
     allocate (pg_intervals (lk_program k)) 64 = Inr (pg_assignments (lk_program k)) \<and>
     binding_set k (sp_registers spaces)"

lemma loweringI:
  assumes "from_validated_source source = Inr k" and "validate_fresh k = Inr k'" and "pg_unsupported (lk_program k) = []"
    and plan: "memory_space_plan_of k = Inr spaces"
  shows "lowering k (if lk_enabled k then lk_lanes k else 1) spaces"
proof -
  from fresh_bindings [OF assms(1,2)] obtain bs where
    "try_map (bind_register (pg_intervals (lk_program k))) (pg_assignments (lk_program k)) = Inr bs" "binding_set k bs" by blast
  with plan have "binding_set k (sp_registers spaces)"
    using binding_set_sort [OF \<open>binding_set k bs\<close>] by (auto simp: memory_space_plan_shape [OF assms(1,2)] result_simps)
  then show ?thesis
    using fresh_registers [OF assms(1,2)] validate_fresh_ordered [OF assms(2,3)] unfolding lowering_def by blast
qed

lemma lowering_register:
  assumes "lowering k lanes spaces" and "i \<in> set (intervals (pg_instructions (lk_program k)) lanes)"
  shows "\<exists>a. lookup_register (pg_assignments (lk_program k)) (li_virtual i) = Some a \<and> assigns 64 i a \<and>
    plan_binding i a \<in> set (sp_registers spaces) \<and> bindings_of spaces (li_virtual i) = Some (plan_binding i a) \<and>
    physical_operand (bindings_of spaces (li_virtual i)) (li_virtual i) = Inr (placed_operand spaces (li_virtual i)) \<and>
    placed_operand spaces (li_virtual i) =
      \<lparr>vo_physical = ra_physical a, vo_vector = (ra_class a = VectorClass), vo_dtype = ra_dtype a\<rparr>"
proof -
  from assms have "\<exists>a. lookup_register (pg_assignments (lk_program k)) (li_virtual i) = Some a \<and> assigns 64 i a \<and>
    plan_binding i a \<in> set (sp_registers spaces) \<and> bindings_of spaces (li_virtual i) = Some (plan_binding i a)"
    by (intro plan_lookup) (auto simp: lowering_def)
  then obtain a where "lookup_register (pg_assignments (lk_program k)) (li_virtual i) = Some a" "assigns 64 i a"
    "plan_binding i a \<in> set (sp_registers spaces)" "bindings_of spaces (li_virtual i) = Some (plan_binding i a)" by blast
  moreover have "register_space c = RegisterVector \<longleftrightarrow> c = VectorClass" for c by (cases c) simp_all
  ultimately show ?thesis by (simp add: placed_operand_def physical_operand_def plan_binding_def)
qed

lemma lowering_apart:
  assumes "lowering k lanes spaces"
  shows "kept_apart (operand_key \<circ> placed_operand spaces) (intervals (pg_instructions (lk_program k)) lanes)"
  unfolding kept_apart_def
proof (intro ballI impI)
  fix i j assume ij: "i \<in> set (intervals (pg_instructions (lk_program k)) lanes)" "j \<in> set (intervals (pg_instructions (lk_program k)) lanes)"
    "li_virtual i \<noteq> li_virtual j" "meets i j"
  from lowering_register [OF assms ij(1)] lowering_register [OF assms ij(2)] obtain a b where
    a: "lookup_register (pg_assignments (lk_program k)) (li_virtual i) = Some a" "assigns 64 i a"
      "placed_operand spaces (li_virtual i) = \<lparr>vo_physical = ra_physical a, vo_vector = (ra_class a = VectorClass), vo_dtype = ra_dtype a\<rparr>" and
    b: "lookup_register (pg_assignments (lk_program k)) (li_virtual j) = Some b" "assigns 64 j b"
      "placed_operand spaces (li_virtual j) = \<lparr>vo_physical = ra_physical b, vo_vector = (ra_class b = VectorClass), vo_dtype = ra_dtype b\<rparr>" by blast
  have alloc: "allocate (intervals (pg_instructions (lk_program k)) lanes) 64 = Inr (pg_assignments (lk_program k))"
    "intervals_ok (intervals (pg_instructions (lk_program k)) lanes)" using assms by (auto simp: lowering_def)
  have "register_pool i = register_pool j \<Longrightarrow> ra_physical a \<noteq> ra_physical b"
    using allocate_apart [OF alloc ij(1-3) _ ij(4) a(1) b(1)] .
  moreover have "(ra_class a = VectorClass) = (ra_class b = VectorClass) \<Longrightarrow> ra_class a = ra_class b"
    by (cases "ra_class a"; cases "ra_class b") simp_all
  ultimately show "(operand_key \<circ> placed_operand spaces) (li_virtual i) \<noteq> (operand_key \<circ> placed_operand spaces) (li_virtual j)"
    using a(2,3) b(2,3) by (auto simp: operand_key_def assigns_def register_pool_def)
qed

lemma lowering_bound:
  assumes low: "lowering k lanes spaces" and pi: "pi \<in> set (pg_instructions (lk_program k))" and r: "r \<in> set_lane_instruction (pi_instruction pi)"
  shows "\<exists>i \<in> set (intervals (pg_instructions (lk_program k)) lanes). li_virtual i = r"
proof -
  let ?P = "pg_instructions (lk_program k)"
  have wo: "well_ordered ?P" using low by (simp add: lowering_def)
  have "\<exists>q \<in> set ?P. target (pi_instruction q) = Some r"
  proof (cases "r \<in> set (reads (pi_instruction pi))")
    case True
    from pi obtain xs ys where P: "?P = xs @ pi # ys" by (meson split_list)
    from well_ordered_before(3) [OF wo P True] show ?thesis unfolding P by auto
  next
    case False
    with r pi show ?thesis by (auto simp: lane_registers)
  qed
  with intervals_mem [of _ ?P r lanes] show ?thesis by blast
qed

lemma lowered_instructions:
  assumes low: "lowering k lanes spaces" and valid: "\<forall>pi \<in> set (pg_instructions (lk_program k)). lane_validate (pi_instruction pi) = Inr ()"
  shows "try_map (lower_instruction (bindings_of spaces)) (pg_instructions (lk_program k)) =
    Inr (map (map_pi (placed_operand spaces)) (pg_instructions (lk_program k)))"
proof (rule try_map_ok)
  fix pi assume pi: "pi \<in> set (pg_instructions (lk_program k))"
  have "map_operands (\<lambda>r. physical_operand (bindings_of spaces r) r) (pi_instruction pi) =
      Inr (map_lane_instruction (placed_operand spaces) (pi_instruction pi))"
    using lowering_bound [OF low pi] lowering_register [OF low] by (intro map_operands_ok ballI) metis
  then show "lower_instruction (bindings_of spaces) pi = Inr (map_pi (placed_operand spaces) pi)"
    using valid pi by (simp add: lower_instruction_def lane_validate_erase map_pi_def)
qed

lemma try_fold_check: "try_fold (\<lambda>_ x. if ok x then Inr () else Inl e) () xs = Inr () \<longleftrightarrow> (\<forall>x \<in> set xs. ok x)"
  by (induction xs) auto

lemma validated_lanes:
  assumes "validate_program pg lanes = Inr ()" and "pg_unsupported pg = []"
  shows "\<exists>prev D. try_fold (check_lane_step (\<lambda>_. False) (\<lambda>r. r) (\<lambda>_ _ _. True) (\<lambda>index out. index = out)) (None, Map.empty)
      (pg_instructions pg) = Inr (prev, D)"
    and "\<forall>pi \<in> set (pg_instructions pg). lane_width_ok lanes pi"
    and "\<forall>pi \<in> set (pg_instructions pg). lane_validate (pi_instruction pi) = Inr ()"
proof -
  from assms obtain prev D where seq: "try_fold (check_lane_step (\<lambda>_. False) (\<lambda>r. r) (\<lambda>_ _ _. True) (\<lambda>index out. index = out))
      (None, Map.empty) (pg_instructions pg) = Inr (prev, D)"
    by (auto simp: validate_program_def validate_lane_sequence_def result_simps Let_def)
  then show "\<exists>prev D. try_fold (check_lane_step (\<lambda>_. False) (\<lambda>r. r) (\<lambda>_ _ _. True) (\<lambda>index out. index = out)) (None, Map.empty)
      (pg_instructions pg) = Inr (prev, D)" by blast
  from lane_sequence_Inr [OF seq] show "\<forall>pi \<in> set (pg_instructions pg). lane_validate (pi_instruction pi) = Inr ()" by blast
  have "try_fold (\<lambda>_ pi. if lane_width_ok lanes pi then Inr ()
      else Inl (LinInvalid ''linear instruction has inconsistent lane width'')) () (pg_instructions pg) = Inr ()"
    using assms(1) by (auto simp: validate_program_def result_simps Let_def)
  then show "\<forall>pi \<in> set (pg_instructions pg). lane_width_ok lanes pi"
    unfolding try_fold_check .
qed

subsection \<open>Lowering succeeds\<close>

lemma intervals_mem_output:
  assumes "pi \<in> set P" and "lv_output (view_of (pi_instruction pi)) = Some (r, d)"
  shows "\<exists>i \<in> set (intervals P lanes). li_virtual i = r \<and> li_start i = pi_index pi \<and>
    li_dtype i = register_dtype (ut_scalar (descriptor_ty d)) \<and>
    li_end i = (case last_uses P r of Some e \<Rightarrow> e | None \<Rightarrow> pi_index pi)"
  using assms by (force simp: intervals_def List.map_filter_def interval_of_def image_iff)

lemma lowering_live:
  assumes low: "lowering k lanes spaces" and q: "q \<in> set (pg_instructions (lk_program k))"
    and out: "lv_output (view_of (pi_instruction q)) = Some (r, d)"
    and n: "n = pi_index q \<or> (\<exists>u \<in> set (pg_instructions (lk_program k)). pi_index u = n \<and> r \<in> set (reads (pi_instruction u)))"
  shows "vector_live (register_lifetimes (sp_registers spaces)) (placed_operand spaces r) n d"
proof -
  let ?P = "pg_instructions (lk_program k)"
  have wo: "well_ordered ?P" using low by (simp add: lowering_def)
  from intervals_mem_output [OF q out, of lanes] obtain i where i: "i \<in> set (intervals ?P lanes)" "li_virtual i = r"
    "li_start i = pi_index q" "li_dtype i = register_dtype (ut_scalar (descriptor_ty d))"
    "li_end i = (case last_uses ?P r of Some e \<Rightarrow> e | None \<Rightarrow> pi_index q)" by blast
  have r: "r = pi_index q" using well_ordered_target [OF wo q] out by (simp add: target_def)
  have start: "li_start i \<le> li_end i" using well_ordered_intervals [OF wo] i(1) by (simp add: intervals_ok_def)
  have "li_start i \<le> n \<and> n \<le> li_end i"
    using n
  proof
    assume "\<exists>u \<in> set ?P. pi_index u = n \<and> r \<in> set (reads (pi_instruction u))"
    then obtain u where u: "u \<in> set ?P" "pi_index u = n" "r \<in> set (reads (pi_instruction u))" by blast
    from last_uses_bound [OF u(1,3)] u(2) i(5) have "n \<le> li_end i" by auto
    moreover have "r < n" using well_ordered_uses [OF wo u(1,3)] u(2) by simp
    ultimately show ?thesis using i(3) r by simp
  qed (use start i(3) in simp)
  moreover from lowering_register [OF low i(1)] i(2) obtain a where a: "assigns 64 i a" "plan_binding i a \<in> set (sp_registers spaces)"
    "placed_operand spaces r = \<lparr>vo_physical = ra_physical a, vo_vector = (ra_class a = VectorClass), vo_dtype = ra_dtype a\<rparr>" by blast
  moreover have "register_space c = RegisterVector \<longleftrightarrow> c = VectorClass" for c by (cases c) simp_all
  ultimately have "\<exists>b \<in> set (sp_registers spaces). binding_key b = operand_key (placed_operand spaces r) \<and> rb_start b \<le> n \<and> n \<le> rb_end b"
    by (intro bexI [of _ "plan_binding i a"]) (simp_all add: binding_key_def operand_key_def plan_binding_def)
  moreover have "vo_dtype (placed_operand spaces r) = register_dtype (ut_scalar (descriptor_ty d))"
    using a(1,3) i(4) by (simp add: assigns_def)
  ultimately show ?thesis unfolding vector_live_def lifetime_contains_iff by blast
qed

lemma lowering_sequence:
  assumes low: "lowering k lanes spaces"
    and seq: "try_fold (check_lane_step (\<lambda>_. False) (\<lambda>r. r) (\<lambda>_ _ _. True) canonical) (None, Map.empty)
      (pg_instructions (lk_program k)) = Inr (prev, D)"
  shows "validate_lane_sequence (map (map_pi (placed_operand spaces)) (pg_instructions (lk_program k))) (\<lambda>_. False) operand_key
      (vector_live (register_lifetimes (sp_registers spaces))) (\<lambda>_ _. True) = Inr ()"
proof -
  have wo: "well_ordered (pg_instructions (lk_program k))" using low by (simp add: lowering_def)
  let ?live = "\<lambda>r. vector_live (register_lifetimes (sp_registers spaces)) (placed_operand spaces r)"
  have live: "\<forall>q \<in> set (pg_instructions (lk_program k)). \<forall>r d n. lv_output (view_of (pi_instruction q)) = Some (r, d) \<longrightarrow>
      n = pi_index q \<or> (\<exists>u \<in> set (pg_instructions (lk_program k)). pi_index u = n \<and> r \<in> set (reads (pi_instruction u))) \<longrightarrow>
      ?live r n d"
    using lowering_live [OF low] by blast
  from sequence_placed [OF wo lowering_apart [OF low] live append_Nil2 [symmetric] seq] obtain D' where
    "try_fold (check_lane_step (\<lambda>_. False) (operand_key \<circ> placed_operand spaces) ?live (\<lambda>_ _. True)) (None, Map.empty)
      (pg_instructions (lk_program k)) = Inr (prev, D')" by auto
  then show ?thesis by (simp add: validate_lane_sequence_def check_sequence_map comp_def)
qed

lemma instruction_buffer:
  assumes num: "numbering U pr" and shared: "well_shared U" and owned: "\<forall>u \<in> U. owned pr u"
    and p: "project pr = Inr p" and pi: "pi \<in> set (lp_instructions p)" and buf: "lv_buffer (view_of (pi_instruction pi)) = Some b"
  shows "\<exists>u \<in> set (pr_nodes pr). uop_ty u \<noteq> None \<and> (\<exists>v. index_payload (uop_operation u) = Some v \<and> iv_buffer v = b)"
proof -
  from project_origin [OF p [unfolded project_def] pi] obtain u i where u: "u \<in> set (pr_nodes pr)"
    "project_lane_instruction u i (source_reg (\<lambda>s. pr_owners pr (uop_identity s))) = Inr (Some (pi_instruction pi))" by blast
  then have op: "project_operation (uop_operation u) u i (source_reg (\<lambda>s. pr_owners pr (uop_identity s))) = Some (Inr (pi_instruction pi))"
    by (auto simp: project_lane_instruction_def result_simps split: option.splits)
  from project_operation_buffer [OF op buf] show ?thesis
  proof
    assume "\<exists>v. uop_operation u = OpIndex v \<and> uop_ty u \<noteq> None \<and> iv_buffer v = b"
    with u(1) show ?thesis by auto
  next
    assume "\<exists>w \<in> set (uop_sources u). uop_ty w \<noteq> None \<and> (\<exists>v. index_payload (uop_operation w) = Some v \<and> iv_buffer v = b)"
    then obtain w v where w: "w \<in> set (uop_sources u)" "uop_ty w \<noteq> None" "index_payload (uop_operation w) = Some v" "iv_buffer v = b" by blast
    have "w \<in> U" using w(1) u(1) numberingD(1) [OF num] shared by (auto simp: well_shared_def)
    note node = numberingD(3,4) [OF num this owned [rule_format, OF this]]
    then have "uop_operation (pr_nodes pr ! owner_of pr w) = uop_operation w" "uop_ty (pr_nodes pr ! owner_of pr w) = uop_ty w"
      by (simp_all add: strip_eq_iff)
    with node(1) w show ?thesis by (metis nth_mem)
  qed
qed

lemma find_global:
  assumes "list_all aligned_global gs" and "b \<in> ga_buffer ` set gs"
  shows "\<exists>g. find (\<lambda>g. ga_buffer g = b) gs = Some g \<and> aligned_global g"
proof -
  have "find (\<lambda>g. ga_buffer g = b) gs \<noteq> None" using assms(2) by (auto simp: find_None_iff)
  then obtain g where "find (\<lambda>g. ga_buffer g = b) gs = Some g" by blast
  moreover from this have "g \<in> set gs" by (auto simp: find_Some_iff)
  ultimately show ?thesis using assms(1) by (auto simp: list_all_iff)
qed

lemma lane_width_map: "lane_width_ok lanes (map_pi g pi) = lane_width_ok lanes pi"
proof -
  have "map snd (typed_inputs (view_of (map_lane_instruction g ins))) = map snd (typed_inputs (view_of ins))"
    "result_type (view_of (map_lane_instruction g ins)) = result_type (view_of ins)" for ins
    by (simp_all add: typed_inputs_def result_type_def view_of_map comp_def case_prod_unfold option.map_comp)
  then show ?thesis by (simp add: lane_width_ok_def map_pi_def Let_def)
qed

lemma lv_buffer_map: "lv_buffer (view_of (map_lane_instruction g ins)) = lv_buffer (view_of ins)"
  by (cases ins) (simp_all add: value_view_def address_ref.map_sel index_ref.map_sel)

lemma fresh_geometry:
  assumes k: "from_validated_source source = Inr k" and fresh: "validate_fresh k = Inr k'" and enabled: "lk_enabled k"
  shows "pg_unsupported (lk_program k) = []" and "lk_lanes k \<noteq> 0" and "lk_lanes k < 2 ^ 16" and "lk_vector_main k mod lk_lanes k = 0"
    and "lk_scalar_tail k < lk_lanes k" and "lk_vector_main k + lk_scalar_tail k = lk_elements k"
    and "validate_program (lk_program k) (lk_lanes k) = Inr ()"
proof -
  show "pg_unsupported (lk_program k) = []" and pos: "lk_lanes k \<noteq> 0" and "lk_lanes k < 2 ^ 16"
    and "lk_vector_main k mod lk_lanes k = 0" and "validate_program (lk_program k) (lk_lanes k) = Inr ()"
    using fresh enabled
    by (auto simp: validate_fresh_def validate_geometry_def validate_registers_def result_simps split: if_splits)
  from from_validated_source_geometry [OF k] enabled have
    main: "lk_vector_main k = lk_elements k div lk_lanes k * lk_lanes k" "lk_scalar_tail k = lk_elements k - lk_vector_main k"
    "lk_vector_main k \<le> lk_elements k" by auto
  then show "lk_vector_main k + lk_scalar_tail k = lk_elements k" by simp
  have "lk_scalar_tail k = lk_elements k mod lk_lanes k" using main by (simp add: minus_div_mult_eq_mod)
  with pos show "lk_scalar_tail k < lk_lanes k" by simp
qed

lemma try_fold_unit: "\<forall>x \<in> set xs. f () x = Inr () \<Longrightarrow> try_fold f () xs = Inr ()"
  by (induction xs) auto

lemma vector_lowering:
  assumes shared: "well_shared (subnodes source)" and small: "length (pr_nodes (lane_producers source)) \<le> 2 ^ 32"
    and k: "from_validated_source source = Inr k" and fresh: "validate_fresh k = Inr k'" and enabled: "lk_enabled k"
    and plan: "memory_space_plan_of k = Inr spaces"
  shows "vector_program_of k spaces = Inr \<lparr>vp_instructions = map (map_pi (placed_operand spaces)) (pg_instructions (lk_program k)),
    vp_lanes = lk_lanes k, vp_main = lk_vector_main k, vp_tail = lk_scalar_tail k, vp_enabled = True, vp_fallback = None\<rparr>"
proof -
  note geometry = fresh_geometry [OF k fresh enabled]
  have low: "lowering k (lk_lanes k) spaces" using loweringI [OF k fresh geometry(1) plan] enabled by simp
  note lanes = validated_lanes [OF geometry(7,1)]
  let ?P = "pg_instructions (lk_program k)" and ?g = "placed_operand spaces"
  let ?vp = "\<lparr>vp_instructions = map (map_pi ?g) ?P, vp_lanes = lk_lanes k, vp_main = lk_vector_main k,
    vp_tail = lk_scalar_tail k, vp_enabled = True, vp_fallback = None\<rparr>"
  have valid: "validate_spaces spaces = Inr ()"
    using plan by (auto simp: memory_space_plan_of_def result_simps Let_def)
  have globals: "list_all aligned_global (sp_globals spaces)"
    using valid by (auto simp: validate_spaces_def result_simps check_globals_Inr)
  have buffers: "b \<in> ga_buffer ` set (sp_globals spaces)" if "pi \<in> set ?P" "lv_buffer (view_of (pi_instruction pi)) = Some b" for pi b
  proof -
    have num: "numbering (subnodes source) (lane_producers source)" and own: "owned (lane_producers source) source"
      using subnodes_shared [OF shared small] by auto
    have owned: "\<forall>u \<in> subnodes source. owned (lane_producers source) u" using subnodes_owned [OF num own subnodes_self] by blast
    from from_validated_source_Inr [OF k] obtain p where p: "project (lane_producers source) = Inr p" "?P = lp_instructions p" by auto
    from instruction_buffer [OF num shared owned p(1) that [unfolded p(2)]] obtain u v where
      u: "u \<in> set (pr_nodes (lane_producers source))" "uop_ty u \<noteq> None"
        "index_payload (uop_operation u) = Some v" "iv_buffer v = b" by blast
    from from_validated_source_geometry [OF k] u obtain bs where
      bs: "lk_buffers k = map snd bs" "\<forall>b \<in> set bs. planned_buffer b" "b \<in> fst ` set bs" by blast
    from plan obtain gs where "try_map access_buffer (map snd bs) = Inr gs" "sp_globals spaces = sort_key ga_buffer gs"
      by (auto simp: memory_space_plan_shape [OF k fresh] bs(1) result_simps)
    with access_buffers(2) [OF bs(2)] bs(3) show ?thesis by simp
  qed
  have steps: "try_fold (check_vector_instruction spaces (lk_lanes k)) () (map (map_pi ?g) ?P) = Inr ()"
  proof -
    have "check_vector_instruction spaces (lk_lanes k) () (map_pi ?g pi) = Inr ()" if pi: "pi \<in> set ?P" for pi
    proof -
      have "check_address spaces (lv_buffer (view_of (pi_instruction pi))) = Inr ()"
      proof (cases "lv_buffer (view_of (pi_instruction pi))")
        case (Some b)
        from find_global [OF globals buffers [OF pi Some]] Some show ?thesis
          by (auto simp: check_address_def aligned_global_def)
      qed (simp add: check_address_def)
      moreover have "lv_buffer (view_of (pi_instruction (map_pi ?g pi))) = lv_buffer (view_of (pi_instruction pi))"
        by (simp add: map_pi_def lv_buffer_map)
      ultimately show ?thesis using lanes(2) pi by (simp add: check_vector_instruction_def lane_width_map)
    qed
    then have "\<forall>x \<in> set (map (map_pi ?g) ?P). check_vector_instruction spaces (lk_lanes k) () x = Inr ()" by simp
    then show ?thesis by (rule try_fold_unit)
  qed
  from lanes(1) obtain prev D where "try_fold (check_lane_step (\<lambda>_. False) (\<lambda>r. r) (\<lambda>_ _ _. True) (\<lambda>index out. index = out))
      (None, Map.empty) ?P = Inr (prev, D)" by blast
  from lowering_sequence [OF low this] steps geometry have "validate_vector ?vp spaces = Inr ()"
    by (simp add: validate_vector_def validate_lane_control_def)
  with valid enabled geometry lowered_instructions [OF low lanes(3)] from_validated_source_geometry [OF k]
  show ?thesis by (simp add: vector_program_of_def)
qed

end
