(* ===== verification/VectorTheorems.thy ===== *)
theory VectorTheorems
  imports VectorLowering
begin

unbundle bit_operations_syntax

section \<open>Correctness of memory spaces and vector programs\<close>

text \<open>
  The properties of the two passes after linearization, on the kernels the linearizer builds.
\<close>

text \<open>C31: Lifetime index. For any bindings, sorted or not, overlapping or reversed, the prefix-maximum index answers
  whether some binding of the register, class and element type covers the instruction.\<close>

theorem lifetime_index_exact:
  "lifetime_contains (register_lifetimes bs) v n \<longleftrightarrow>
     (\<exists>b \<in> set bs. binding_key b = operand_key v \<and> rb_start b \<le> n \<and> n \<le> rb_end b)"
  by (rule lifetime_contains_iff)

subsection \<open>What a valid plan is\<close>

definition registers_disjoint :: "register_binding list \<Rightarrow> bool" where
  "registers_disjoint rs \<longleftrightarrow> (\<forall>i j. i < j \<longrightarrow> j < length rs \<longrightarrow> rb_space (rs ! i) = rb_space (rs ! j) \<longrightarrow>
     rb_physical (rs ! i) = rb_physical (rs ! j) \<longrightarrow> rb_dtype (rs ! i) = rb_dtype (rs ! j) \<longrightarrow>
     rb_end (rs ! i) < rb_start (rs ! j) \<or> rb_end (rs ! j) < rb_start (rs ! i))"

definition allocations_disjoint :: "space_allocation list \<Rightarrow> bool" where
  "allocations_disjoint as \<longleftrightarrow> (\<forall>i j. i < j \<longrightarrow> j < length as \<longrightarrow> sa_space (as ! i) = sa_space (as ! j) \<longrightarrow>
     sa_id (as ! i) = sa_id (as ! j) \<longrightarrow> sa_end (as ! i) < sa_start (as ! j) \<or> sa_end (as ! j) < sa_start (as ! i))"

definition allocation_valid :: "space_allocation \<Rightarrow> bool" where
  "allocation_valid a \<longleftrightarrow> sa_space a \<in> {Private, Shared} \<and> (\<exists>m. sa_alignment a = 2 ^ m) \<and> sa_alignment a dvd sa_bytes a"

definition barrier_valid :: "space_allocation list \<Rightarrow> barrier_point \<Rightarrow> bool" where
  "barrier_valid shared b \<longleftrightarrow> bp_uniform_control b \<and> (\<forall>used \<in> set (bp_consumes b). used \<in> set (bp_initializes b) \<or>
     (\<exists>a \<in> set shared. sa_id a = used \<and> sa_start a < bp_instruction b))"

lemma nonoverlap_allocations: "validate_nonoverlap as = Inr () \<longleftrightarrow> allocations_disjoint as"
  unfolding validate_nonoverlap_Inr sorted_wrt_iff_nth_less allocations_disjoint_def clash_def by (auto simp: not_le)

lemma nonoverlap_registers:
  assumes "\<forall>r \<in> set rs. rb_physical r < 2 ^ 16"
  shows "validate_nonoverlap (map register_allocation rs) = Inr () \<longleftrightarrow> registers_disjoint rs"
proof -
  have ids: "sa_id (register_allocation (rs ! i)) = sa_id (register_allocation (rs ! j)) \<longleftrightarrow>
      rb_physical (rs ! i) = rb_physical (rs ! j) \<and> rb_dtype (rs ! i) = rb_dtype (rs ! j)" if "i < j" "j < length rs" for i j
    using register_id_inj [of "rb_physical (rs ! i)" "rb_physical (rs ! j)"] assms that by (auto simp: register_allocation_def)
  have rest: "sa_space (register_allocation r) = rb_space r" "sa_start (register_allocation r) = rb_start r"
    "sa_end (register_allocation r) = rb_end r" for r by (simp_all add: register_allocation_def)
  show ?thesis
    unfolding nonoverlap_allocations allocations_disjoint_def registers_disjoint_def
    by (auto simp: ids rest)
qed

lemma try_fold_unit_iff:
  assumes "\<And>x. f () x = Inr () \<longleftrightarrow> ok x"
  shows "try_fold f () xs = Inr () \<longleftrightarrow> (\<forall>x \<in> set xs. ok x)"
  using assms by (induction xs) (auto simp: result_simps)

lemma check_barrier_Inr: "check_barrier shared () b = Inr () \<longleftrightarrow> barrier_valid shared b"
proof -
  have "try_fold (check_consumed shared b) () (bp_consumes b) = Inr () \<longleftrightarrow> (\<forall>used \<in> set (bp_consumes b). used \<in> set (bp_initializes b) \<or>
     (\<exists>a \<in> set shared. sa_id a = used \<and> sa_start a < bp_instruction b))"
    by (rule try_fold_unit_iff) (auto simp: check_consumed_def list_ex_iff)
  then show ?thesis by (simp add: check_barrier_def barrier_valid_def)
qed

lemma check_allocation_Inr: "check_allocation () a = Inr () \<longleftrightarrow> allocation_valid a"
proof -
  have "\<not> (sa_bytes a \<noteq> 0 \<and> sa_bytes a mod sa_alignment a \<noteq> 0) \<longleftrightarrow> sa_alignment a dvd sa_bytes a" by auto
  then show ?thesis by (auto simp: check_allocation_def allocation_valid_def is_power_of_two_iff)
qed

text \<open>C32: Validation of memory-space plans. \<open>validate\<close> accepts exactly the plans with aligned global accesses, no two
  registers of one space and identity, and no two private or no two shared allocations of one space and identity, with
  overlapping lifetimes, private and shared allocations in those spaces with power-of-two alignments that divide their
  sizes, and barriers that are reached uniformly and consume only what they or an earlier shared allocation initialize.
  The identity of a register packs its number and element type: registers of one number and type always clash, and
  below 65536 no others do.\<close>

theorem spaces_valid_iff:
  "(validate_spaces plan = Inr () \<longleftrightarrow> list_all aligned_global (sp_globals plan) \<and>
      allocations_disjoint (map register_allocation (sp_registers plan)) \<and>
      allocations_disjoint (sp_private plan) \<and> allocations_disjoint (sp_shared plan) \<and>
      (\<forall>a \<in> set (sp_private plan @ sp_shared plan). allocation_valid a) \<and>
      (\<forall>b \<in> set (sp_barriers plan). barrier_valid (sp_shared plan) b)) \<and>
    (allocations_disjoint (map register_allocation rs) \<longrightarrow> registers_disjoint rs) \<and>
    ((\<forall>r \<in> set rs. rb_physical r < 2 ^ 16) \<longrightarrow> registers_disjoint rs \<longrightarrow> allocations_disjoint (map register_allocation rs))"
proof -
  have "try_fold check_allocation () as = Inr () \<longleftrightarrow> (\<forall>a \<in> set as. allocation_valid a)" for as
    by (rule try_fold_unit_iff) (rule check_allocation_Inr)
  moreover have "try_fold (check_barrier shared) () bs = Inr () \<longleftrightarrow> (\<forall>b \<in> set bs. barrier_valid shared b)" for shared bs
    by (rule try_fold_unit_iff) (rule check_barrier_Inr)
  moreover have "allocations_disjoint (map register_allocation rs) \<longrightarrow> registers_disjoint rs"
    by (auto simp: allocations_disjoint_def registers_disjoint_def register_allocation_def)
  moreover have "(\<forall>r \<in> set rs. rb_physical r < 2 ^ 16) \<longrightarrow> registers_disjoint rs \<longrightarrow> allocations_disjoint (map register_allocation rs)"
    using nonoverlap_registers [of rs] by (simp add: nonoverlap_allocations)
  ultimately show ?thesis
    by (simp add: validate_spaces_def rbind_eq_Inr check_globals_Inr nonoverlap_allocations)
qed

definition shared_tile :: space_allocation where
  "shared_tile = \<lparr>sa_id = 0, sa_space = Shared, sa_bytes = 64, sa_alignment = 16, sa_start = 0, sa_end = 2\<rparr>"

definition tile_barrier :: barrier_point where
  "tile_barrier = \<lparr>bp_instruction = 1, bp_scope = Workgroup, bp_uniform_control = True, bp_initializes = [], bp_consumes = [0]\<rparr>"

definition shared_plan :: memory_space_plan where
  "shared_plan = \<lparr>sp_registers = [], sp_globals = [], sp_private = [], sp_shared = [shared_tile], sp_barriers = [tile_barrier],
     sp_promotions = []\<rparr>"

theorem spaces_valid_iff_witness:
  "validate_spaces shared_plan = Inr () \<and> barrier_valid [shared_tile] tile_barrier \<and> allocation_valid shared_tile"
proof -
  have "\<exists>m. (16::nat) = 2 ^ m" by (rule exI [of _ 4]) simp
  with spaces_valid_iff [of shared_plan "[]"] show ?thesis
    by (simp add: shared_plan_def allocations_disjoint_def allocation_valid_def barrier_valid_def
      shared_tile_def tile_barrier_def)
qed

text \<open>C28: The plan of a fresh kernel, with or without unsupported operations. Registers of a kernel the linearizer built
  and \<open>validate_fresh\<close> accepts never alias and its views are aligned, so its memory-space plan exists unless the bytes of some buffer exceed the address space; the plan binds
  exactly the virtual registers of the kernel, each with its physical register, class, element type and lifetime.\<close>

theorem memory_plan_exact:
  assumes "from_validated_source source = Inr k" and "validate_fresh k = Inr k'"
  shows "(case memory_space_plan_of k of
      Inl e \<Rightarrow> e = SpaceOverflow \<and> (\<exists>b \<in> set (lk_buffers k). usize_max < lb_elements b * itemsize (lb_dtype b))
    | Inr spaces \<Rightarrow> list_all (\<lambda>b. lb_elements b * itemsize (lb_dtype b) \<le> usize_max) (lk_buffers k) \<and>
        binding_set k (sp_registers spaces))"
proof -
  from from_validated_source_geometry [OF assms(1)] obtain bs where
    bs: "lk_buffers k = map snd bs" "\<forall>b \<in> set bs. planned_buffer b" by blast
  note plan = memory_space_plan_shape [OF assms]
  show ?thesis
  proof (cases "try_map access_buffer (lk_buffers k)")
    case (Inl e)
    then have "e = SpaceOverflow \<and> (\<exists>b \<in> set (lk_buffers k). usize_max < lb_elements b * itemsize (lb_dtype b))"
      using access_buffers(1) [OF bs(2), of e] unfolding bs(1) by blast
    with Inl show ?thesis by (simp add: plan)
  next
    case (Inr gs)
    then have "\<nexists>b. b \<in> set (lk_buffers k) \<and> usize_max < lb_elements b * itemsize (lb_dtype b)"
      using access_buffers(1) [OF bs(2), of SpaceOverflow] bs(1) by auto
    moreover have "list_all P l \<longleftrightarrow> (\<forall>x \<in> set l. P x)" for P and l :: "linear_buffer list" by (simp add: list_all_iff)
    moreover from fresh_bindings [OF assms] obtain rs where
      "try_map (bind_register (pg_intervals (lk_program k))) (pg_assignments (lk_program k)) = Inr rs" "binding_set k rs" by blast
    ultimately show ?thesis using binding_set_sort Inr by (simp add: plan not_less)
  qed
qed

lemma double_plan: "\<exists>spaces. memory_space_plan_of double_linear = Inr spaces"
proof -
  have "\<exists>gs. try_map access_buffer (lk_buffers double_linear) = Inr gs"
    by (simp add: double_linear_def double_buffer_def access_buffer_def checked_mul_u_def checked_u_def usize_max_eq itemsize_def)
  then show ?thesis using memory_space_plan_shape [OF double_linearized double_fresh] by auto
qed

theorem memory_plan_exact_witness:
  "case memory_space_plan_of double_linear of
     Inl e \<Rightarrow> False
   | Inr spaces \<Rightarrow> binding_set double_linear (sp_registers spaces)"
proof -
  from memory_plan_exact [OF double_linearized double_fresh] double_plan show ?thesis by auto
qed

text \<open>C27: Vector lowering succeeds. An enabled kernel the linearizer built lowers to a vector program along its own memory-space
  plan: every register has a live binding of its class and element type at every use, every buffer a global access,
  and main and tail elements cover the output with a tail shorter than one vector.\<close>

theorem vector_lowering_total:
  assumes "well_shared (subnodes source)" and "length (pr_nodes (lane_producers source)) \<le> 2 ^ 32"
    and "from_validated_source source = Inr k" and "validate_fresh k = Inr k'" and "lk_enabled k"
    and "memory_space_plan_of k = Inr spaces"
  shows "\<exists>vp. vector_program_of k spaces = Inr vp \<and> length (vp_instructions vp) = length (pg_instructions (lk_program k)) \<and>
    vp_lanes vp = lk_lanes k \<and> vp_lanes vp dvd vp_main vp \<and> vp_tail vp < vp_lanes vp \<and> vp_main vp + vp_tail vp = lk_elements k"
  using vector_lowering [OF assms] fresh_geometry [OF assms(3-5)] by (auto simp: mod_eq_0_iff_dvd)

lemma double_enabled: "lk_enabled double_linear" "length (pr_nodes (lane_producers double_kernel)) \<le> 2 ^ 32"
  by (simp_all add: double_linear_def double_nodes)

theorem vector_lowering_total_witness:
  "\<exists>spaces vp. memory_space_plan_of double_linear = Inr spaces \<and> vector_program_of double_linear spaces = Inr vp \<and>
     vp_lanes vp = 4 \<and> vp_main vp + vp_tail vp = 8"
proof -
  from double_plan obtain spaces where plan: "memory_space_plan_of double_linear = Inr spaces" by blast
  from vector_lowering_total [OF double_shared double_enabled(2) double_linearized double_fresh double_enabled(1) plan] plan
  show ?thesis by (auto simp: double_linear_def)
qed

text \<open>C26: A vector program runs the DAG. Executing the vector program of a kernel on its physical registers, told apart by
  number, class and element type, does to memory what running the producers of the operation DAG does, each node once
  and in order from the values of its sources and the memory by then, for every meaning of the lane operations and any
  contents of the registers. When no store of the DAG changes what another of its nodes computes (it loads nothing it
  stores to), that is what the stores do with their operands evaluated recursively in the initial memory.\<close>

theorem vector_program_runs_dag:
  assumes "well_shared (subnodes source)" and "length (pr_nodes (lane_producers source)) \<le> 2 ^ 32"
    and "from_validated_source source = Inr k" and "validate_fresh k = Inr k'" and "lk_enabled k"
    and "memory_space_plan_of k = Inr spaces" and "vector_program_of k spaces = Inr vp"
  shows "snd (exec_lanes val eff operand_key (vp_instructions vp) (regs, mem)) =
      snd (run_nodes val d eff (pr_nodes (lane_producers source)) mem) \<and>
    (stores_unseen val d eff (pr_nodes (lane_producers source)) mem \<longrightarrow>
      snd (exec_lanes val eff operand_key (vp_instructions vp) (regs, mem)) =
      dag_memory val d eff (pr_nodes (lane_producers source)) mem)"
proof -
  let ?P = "pg_instructions (lk_program k)"
  note lanes = fresh_geometry(1) [OF assms(3-5)]
  have low: "lowering k (lk_lanes k) spaces" using loweringI [OF assms(3,4) lanes assms(6)] assms(5) by simp
  have "vp_instructions vp = map (map_pi (placed_operand spaces)) ?P"
    using vector_lowering [OF assms(1-6)] assms(7) by simp
  then have "snd (exec_lanes val eff operand_key (vp_instructions vp) (regs, mem)) =
      snd (exec_lanes val eff (operand_key \<circ> placed_operand spaces) ?P (regs, mem))"
    by (simp add: exec_lanes_map)
  also have "\<dots> = snd (exec_lanes val eff (\<lambda>r. r) ?P (\<lambda>_. d, mem))"
    using low lowering_apart [OF low] by (intro exec_placed) (auto simp: lowering_def)
  also have "\<dots> = snd (run_nodes val d eff (pr_nodes (lane_producers source)) mem)"
    using kernel_runs_nodes [OF assms(1-4) lanes] .
  finally have run: "snd (exec_lanes val eff operand_key (vp_instructions vp) (regs, mem)) =
    snd (run_nodes val d eff (pr_nodes (lane_producers source)) mem)" .
  show ?thesis unfolding run using nodes_run_dag [OF assms(1,2), of val d eff mem] by blast
qed

theorem vector_program_runs_dag_witness:
  "\<exists>spaces vp. memory_space_plan_of double_linear = Inr spaces \<and> vector_program_of double_linear spaces = Inr vp \<and>
     snd (snd (exec_lanes demo_val demo_eff operand_key (vp_instructions vp) (\<lambda>_. 7, demo_start))) 11 = 60"
proof -
  from double_plan obtain spaces where plan: "memory_space_plan_of double_linear = Inr spaces" by blast
  from vector_lowering [OF double_shared double_enabled(2) double_linearized double_fresh double_enabled(1) plan]
  obtain vp where vp: "vector_program_of double_linear spaces = Inr vp" by blast
  from vector_program_runs_dag [OF double_shared double_enabled(2) double_linearized double_fresh double_enabled(1) plan vp,
      of demo_val demo_eff "\<lambda>_. 7" demo_start 0] plan vp double_computes double_unseen
  show ?thesis by auto
qed

end
