(* ===== verification/Spec2Isabelle.thy ===== *)
theory Spec2Isabelle
  imports CollectiveTheorems EffectVjpTheorems MemoryPlanTheorems RuntimeReach ShardingMovement SymbolicShapes
    SymbolicSums VectorTheorems
begin

text \<open>
  A verification library for the core of rustgrad, a tensor compiler in Rust (\<open>src/src\<close>).

  \<^bold>\<open>The program.\<close> A graph of tensor operations is lowered through shapes, views and symbolic index
  arithmetic to schedules and kernels. Underneath lie components every backend relies on: element types
  and their promotion, shapes and coordinates, affine views, static indexing, symbolic integers, dense
  host tensors, versioned buffer effects, and collectives. Those are modelled here, in the order in
  which they build on one another, with the passes that bring a kernel from the operation DAG to lanes
  over physical registers.

  \<^bold>\<open>Conventions.\<close> The target is 64-bit. \<open>usize\<close> and \<open>u64\<close> are natural numbers, \<open>i64\<close> and \<open>i128\<close> are
  integers, and every checked operation of the source is the checked operation of \<open>Prelude\<close>; where the
  source casts without a check the wrap-around is written out (\<open>Views\<close>, \<open>Scalars\<close>). A \<open>Result\<close> is a
  sum with the error on the left, \<open>?\<close> is \<open>rbind\<close>, a loop that may fail is \<open>try_fold\<close> or \<open>try_map\<close>,
  \<open>&mut self\<close> is a record returned updated. A panic of the source is an error of its own, and the
  properties show where it cannot happen. Hypotheses such as \<open>tensor_ok\<close> are the invariants the
  constructors of the source establish.

  \<^bold>\<open>Theories and what they model.\<close>
  \<^item> \<open>Prelude\<close>: integer ranges, checked operations, \<open>Result\<close>, iterator loops.
  \<^item> \<open>DTypes\<close> (\<open>tensor/dtype.rs\<close>): the element types, their tables, promotion, lossless casts, names.
  \<^item> \<open>Scalars\<close> (\<open>tensor/scalar.rs\<close>, \<open>tensor/storage.rs\<close>): scalar conversions and the lane a storage
    keeps; IEEE rounding is a parameter.
  \<^item> \<open>Shapes\<close> (\<open>tensor/shape.rs\<close>, \<open>index.rs\<close>): element counts, broadcasting, strides, dense coordinates.
  \<^item> \<open>Views\<close>, \<open>ViewTheorems\<close> (\<open>uop/mod.rs\<close>, \<open>AffineView\<close> and \<open>ViewMap\<close>): the locales \<open>addressing\<close>
    and \<open>injective_addressing\<close> state what the validators promise and are interpreted on the views that
    \<open>validate_read\<close> and \<open>validate_write\<close> accept; each movement is related to the addresses of its result.
  \<^item> \<open>Indexing\<close>, \<open>IndexingTheorems\<close> (\<open>ir/indexing.rs\<close>): the planner of Python-style static indexing,
    windows and diagonals, against a reference of slices and coordinates.
  \<^item> \<open>Tensors\<close>, \<open>TensorTheorems\<close> (\<open>tensor/data.rs\<close>): raw lane movement, broadcast assignment, reads and
    writes through views, indexed updates. A lane is of any type, which covers every storage variant.
  \<^item> \<open>Effects\<close>, \<open>EffectTheorems\<close>, \<open>EffectExecution\<close> (\<open>effects/mod.rs\<close>): versioned buffer states, plan
    validation, the effect graph and its executor. \<open>built\<close> is the set of graphs the public interface can
    build; \<open>graph_ok\<close> is their invariant; \<open>memory_after\<close> is the reference semantics, one memory updated
    in place.
  \<^item> \<open>EffectSchedules\<close>, \<open>EffectScheduleTheorems\<close> (\<open>effects/replacement.rs\<close>, \<open>batch.rs\<close>,
    \<open>schedule.rs\<close>): the whole-buffer builder, which simulates the graph; batches rebased onto persistent
    states; lowering to STORE and AFTER nodes.
  \<^item> \<open>HostPool\<close>, \<open>HostBanks\<close> (\<open>host_buffer.rs\<close>): leased host slots with generations, views and windows;
    commits and bank transactions. \<open>HostBankTheorems\<close> shows that a transaction is all or nothing and that
    its ordered fast path is the general one; \<open>HostPoolTheorems\<close> relates the pool to the multisets of
    capabilities it has handed out, over every sequence of operations.
  \<^item> \<open>EffectRuntime\<close> (\<open>effects/runtime.rs\<close>, \<open>recurrent_transaction.rs\<close>): persistent storage of effect
    states on that pool. \<open>RuntimeTheorems\<close> has its invariant, registration and the execution of plans,
    \<open>RuntimeBatches\<close> batches against entries run in order on one memory, \<open>RuntimeTransactions\<close> the
    recurrent transactions, and \<open>RuntimeReach\<close> what holds in every reachable runtime: \<open>runtime_step\<close> is
    one operation, \<open>persistent\<close> the state and value a runtime shows for each buffer.
  \<^item> \<open>MemoryPlan\<close> (\<open>memory_plan/mod.rs\<close>, \<open>schedule/mod.rs\<close>): descriptors, dependency edges and escaping
    buffers of a schedule, and the planner that lets temporaries share host slots.
    \<open>MemoryPlanSlots\<close> states the laws of the slot allocator as locales and interprets them;
    \<open>MemoryPlanTheorems\<close> runs a schedule with any kernels, once with the slots of a plan and once with
    storage of its own for each buffer, and compares what the items read.
  \<^item> \<open>UOps\<close> (\<open>uop/operation.rs\<close>, \<open>uop/schema.rs\<close>): the nodes of the operation DAG; a node carries its
    allocation, and payloads no modelled pass reads are a type parameter.
  \<^item> \<open>LaneInstructions\<close>, \<open>Linearize\<close> (\<open>linearize.rs\<close>): lane instructions and their checks; producers,
    projection, live intervals, the linear scan, and kernels with their geometry. \<open>LinearizeTheorems\<close> shows
    that the numbering of producers is structural identity, \<open>RegisterAllocation\<close> that the scan is exact,
    \<open>LaneExecution\<close> that a program runs the same wherever its registers are kept apart (the locale
    \<open>register_allocator\<close> states what this needs of an allocator), \<open>LaneEvaluation\<close> that a program computes
    what running the nodes of the DAG in order computes (\<open>run_nodes\<close>), and what evaluating them recursively does
    when no node loads what another stores, with the meaning of the operations as a parameter. \<open>LaneExample\<close> is a kernel
    evaluated through all passes, \<open>LaneTheorems\<close> holds the properties.
  \<^item> \<open>MemorySpaces\<close> (\<open>memory_space/mod.rs\<close>), \<open>VectorPrograms\<close> (\<open>vector_ir.rs\<close>): register bindings, global
    accesses, shared memory and barriers of a kernel; lowering to physical registers and its check.
    \<open>VectorRegisters\<close>, \<open>VectorLowering\<close> and \<open>VectorTheorems\<close> show that both passes succeed on what the
    linearizer builds and keep what a kernel does to memory.
  \<^item> \<open>EffectVjp\<close>, \<open>EffectVjpTheorems\<close> (\<open>effects/autograd.rs\<close>): the tape record of a write and its
    vector-Jacobian product, the adjoint of the write in exact arithmetic.
  \<^item> \<open>Symbolic\<close>, \<open>SymbolicBounds\<close>, \<open>SymbolicSimplify\<close>, \<open>SymbolicSums\<close> (\<open>symbolic.rs\<close>): expressions,
    interval bounds, evaluation, substitution, the simplifier. \<open>safe\<close> expressions are those whose bounds
    exist; \<open>refines\<close> is the relation each rewrite satisfies.
  \<^item> \<open>SymbolicShapes\<close> (\<open>symbolic_shape.rs\<close>): binding, broadcasting and reshape compatibility.
  \<^item> \<open>Collective\<close>, \<open>CollectiveTheorems\<close> (\<open>collective.rs\<close>): planner, validator and in-memory executor. The
    locale \<open>reduction\<close> holds the laws an addition needs for the order of a reduction not to matter and is
    interpreted on the wrapping addition of integer and boolean lanes.
  \<^item> \<open>Sharding\<close> (\<open>sharding.rs\<close>): layouts of a tensor over an ordered device group, host tensors cut into shards
    and gathered back, the decision which movements stay local, and the lowering decisions; the printer of the cache
    identity is a parameter. \<open>ShardingLayouts\<close> has the global positions of a shard as shifted coordinates,
    \<open>ShardingRoundtrip\<close> that the shards tile the tensor, \<open>ShardingTheorems\<close> when sharding succeeds and that
    gathering inverts it, \<open>ShardingMovement\<close> that local reshapes and permutations move no element between devices.

  \<^bold>\<open>How the components interact.\<close> Shapes validate tensors and plans; views address the lanes tensors move;
  an effect step stores through a view or an index plan; the effect executor runs the very tensor
  operations whose laws \<open>TensorTheorems\<close> proves, so a step that passed its trial on initial values cannot
  fail on later ones; schedules delegate to the graph they were lowered from. The runtime executes the
  same plans on leased slots of the host pool, which it holds through generation-checked leases: the
  invariant of the pool makes every lease live, and the executor's simulation carries over to the runtime.
  The pool is shared behind a lock, so its operations return the pool even when they fail. The linearizer
  reads the views of index nodes; the memory-space plan reads its intervals and assignments; the vector
  program is validated against that plan by the very check the linearizer used on virtual registers.

  \<^bold>\<open>Bounds and fuel.\<close> Only the simplifier loops a bounded number of times: 128 passes, as in the source;
  \<open>simplify_idempotent\<close> shows that what it returns is a fixpoint. Every other recursion is structural.
  View properties assume logical extents of at most \<open>2 ^ 63\<close>: the validators cast extents to \<open>i64\<close>.
  Lane programs number nodes by \<open>u32\<close>, with the truncation written out; their properties assume at most
  \<open>2 ^ 32\<close> producers, and that one allocation holds one node (\<open>well_shared\<close>), which reference counting gives.

  \<^bold>\<open>Not modelled.\<close> IEEE arithmetic and the packing of floats; the pattern rewriter and validator of the UOp
  graph and the tensor graph above it (\<open>uop\<close>, \<open>ir\<close>); cache hashes and the formatted part of messages; issuing mutation permits and \<open>graph_vjp\<close>, which analyse that
  graph; the code generators and device runtimes (\<open>backend\<close>, \<open>cpu_jit\<close>, \<open>cuda\<close>, \<open>ptx\<close>, \<open>runtime\<close>),
  which emit text for or drive foreign libraries; engines, sessions and schedulers built on them; models,
  file formats, tokenizers, datasets and tools; of sharding, the sharded graph and the execution over CUDA.
  \<open>PROJECT.json\<close> lists each with its reason.
\<close>

end
